(* ===== verification/Prelude.thy ===== *)
theory Prelude
  imports Complex_Main "HOL-Library.Char_ord" "HOL-Library.List_Lexorder"
begin

text \<open>
  Shared vocabulary of the development.

  \<^item> Python values (\<open>pyval\<close>), truthiness, \<open>str\<close>, \<open>str.strip\<close>, \<open>str.lower\<close>,
    substring search and \<open>dict.get\<close>, as the modules under \<^verbatim>\<open>src/\<close> use them.  Strings
    are character lists over the Latin-1 range.
  \<^item> SQL tables as row lists: \<open>sel_first\<close> (SELECT ... LIMIT 1), \<open>upd_where\<close>
    (UPDATE ... WHERE) and \<open>del_where\<close> (DELETE ... WHERE), with the laws that every
    component with a table uses.
  \<^item> Index lists, sums and sorting facts shared by the planners.

  Fallible code returns \<open>'e + 'a\<close>: \<open>Inl\<close> is the raised error, \<open>Inr\<close> the value.
\<close>

named_theorems table_simps \<open>laws of the row-list tables\<close>

type_synonym timestamp = rat
type_synonym store_id = int

section \<open>Python values\<close>

datatype pyval =
    PNone
  | PBool bool
  | PInt int
  | PStr string
  | PList "pyval list"
  | PDict "(string \<times> pyval) list"

type_synonym pydict = "(string \<times> pyval) list"

fun truthy :: "pyval \<Rightarrow> bool" where
  "truthy PNone = False"
| "truthy (PBool b) = b"
| "truthy (PInt i) = (i \<noteq> 0)"
| "truthy (PStr s) = (s \<noteq> [])"
| "truthy (PList xs) = (xs \<noteq> [])"
| "truthy (PDict kvs) = (kvs \<noteq> [])"

definition py_or :: "pyval \<Rightarrow> pyval \<Rightarrow> pyval" where
  "py_or a b = (if truthy a then a else b)"

definition pget :: "pydict \<Rightarrow> string \<Rightarrow> pyval" where
  "pget d k = (case map_of d k of None \<Rightarrow> PNone | Some v \<Rightarrow> v)"

definition py_isspace :: "char \<Rightarrow> bool" where
  "py_isspace c = ((of_char c :: nat) \<in> {9, 10, 11, 12, 13, 28, 29, 30, 31, 32, 133, 160})"

definition strip :: "string \<Rightarrow> string" where
  "strip s = rev (dropWhile py_isspace (rev (dropWhile py_isspace s)))"

definition lower_char :: "char \<Rightarrow> char" where
  "lower_char c = (let n = (of_char c :: nat) in
     if (65 \<le> n \<and> n \<le> 90) \<or> (192 \<le> n \<and> n \<le> 222 \<and> n \<noteq> 215) then char_of (n + 32) else c)"

definition lower :: "string \<Rightarrow> string" where
  "lower s = map lower_char s"

fun is_prefix :: "string \<Rightarrow> string \<Rightarrow> bool" where
  "is_prefix [] ys = True"
| "is_prefix (x # xs) [] = False"
| "is_prefix (x # xs) (y # ys) = (x = y \<and> is_prefix xs ys)"

fun is_substring :: "string \<Rightarrow> string \<Rightarrow> bool" where
  "is_substring xs [] = (xs = [])"
| "is_substring xs (y # ys) = (is_prefix xs (y # ys) \<or> is_substring xs ys)"

definition is_suffix :: "string \<Rightarrow> string \<Rightarrow> bool" where
  "is_suffix xs ys = is_prefix (rev xs) (rev ys)"

fun nat_digits :: "nat \<Rightarrow> string" where
  "nat_digits n = (if n < 10 then [char_of (48 + n)] else nat_digits (n div 10) @ [char_of (48 + n mod 10)])"

declare nat_digits.simps [simp del]

definition int_str :: "int \<Rightarrow> string" where
  "int_str i = (if i < 0 then CHR ''-'' # nat_digits (nat (- i)) else nat_digits (nat i))"

definition hex_digit :: "nat \<Rightarrow> char" where
  "hex_digit n = char_of (if n < 10 then 48 + n else 87 + n)"

definition repr_char :: "char \<Rightarrow> char \<Rightarrow> string" where
  "repr_char q c = (let n = (of_char c :: nat) in
     if c = q \<or> n = 92 then [CHR 0x5C, c]
     else if n = 9 then [CHR 0x5C, CHR ''t'']
     else if n = 10 then [CHR 0x5C, CHR ''n'']
     else if n = 13 then [CHR 0x5C, CHR ''r'']
     else if n < 32 \<or> (127 \<le> n \<and> n \<le> 160) \<or> n = 173
       then [CHR 0x5C, CHR ''x'', hex_digit (n div 16), hex_digit (n mod 16)]
     else [c])"

definition str_repr :: "string \<Rightarrow> string" where
  "str_repr s = (let q = (if CHR 0x27 \<in> set s \<and> CHR 0x22 \<notin> set s then CHR 0x22 else CHR 0x27)
     in q # concat (map (repr_char q) s) @ [q])"

fun join :: "string \<Rightarrow> string list \<Rightarrow> string" where
  "join sep [] = []"
| "join sep [x] = x"
| "join sep (x # y # ys) = x @ sep @ join sep (y # ys)"

fun py_repr :: "pyval \<Rightarrow> string" where
  "py_repr PNone = ''None''"
| "py_repr (PBool b) = (if b then ''True'' else ''False'')"
| "py_repr (PInt i) = int_str i"
| "py_repr (PStr s) = str_repr s"
| "py_repr (PList xs) = ''['' @ join '', '' (map py_repr xs) @ '']''"
| "py_repr (PDict kvs) =
     ''{'' @ join '', '' (map (\<lambda>kv. str_repr (fst kv) @ '': '' @ py_repr (snd kv)) kvs) @ ''}''"

fun py_str :: "pyval \<Rightarrow> string" where
  "py_str (PStr s) = s"
| "py_str v = py_repr v"

text \<open>
  The elements a \<open>for\<close> loop over \<open>value or []\<close> visits.  Lists give their elements,
  dictionaries their keys, strings their characters, falsy values nothing.  Python raises
  \<^verbatim>\<open>TypeError\<close> for a truthy number or boolean; message fields never hold one there.
\<close>

fun py_iter :: "pyval \<Rightarrow> pyval list" where
  "py_iter (PList xs) = xs"
| "py_iter (PDict kvs) = map (\<lambda>kv. PStr (fst kv)) kvs"
| "py_iter (PStr s) = map (\<lambda>c. PStr [c]) s"
| "py_iter _ = []"

text \<open>\<open>text.partition(sep)\<close> for a one-character separator: the part before, whether the
  separator occurs, and the part after.\<close>

definition partition_at :: "char \<Rightarrow> string \<Rightarrow> string \<times> bool \<times> string" where
  "partition_at c s = (takeWhile (\<lambda>x. x \<noteq> c) s, c \<in> set s, drop 1 (dropWhile (\<lambda>x. x \<noteq> c) s))"

text \<open>\<open>list(dict.fromkeys(xs))\<close>: duplicates removed, first occurrences kept in order.\<close>

definition dedup :: "'a list \<Rightarrow> 'a list" where
  "dedup xs = rev (remdups (rev xs))"

section \<open>Tables\<close>

definition sel_first :: "('r \<Rightarrow> bool) \<Rightarrow> 'r list \<Rightarrow> 'r option" where
  "sel_first P rows = List.find P rows"

definition upd_where :: "('r \<Rightarrow> bool) \<Rightarrow> ('r \<Rightarrow> 'r) \<Rightarrow> 'r list \<Rightarrow> 'r list" where
  "upd_where P f rows = map (\<lambda>r. if P r then f r else r) rows"

definition del_where :: "('r \<Rightarrow> bool) \<Rightarrow> 'r list \<Rightarrow> 'r list" where
  "del_where P rows = filter (\<lambda>r. \<not> P r) rows"

definition rowcount :: "('r \<Rightarrow> bool) \<Rightarrow> 'r list \<Rightarrow> nat" where
  "rowcount P rows = length (filter P rows)"

text \<open>Optional comparison with SQL's \<open>IS\<close> and Python's \<open>x or default\<close> on optional numbers.\<close>

definition or_zero :: "('a :: zero) option \<Rightarrow> 'a" where
  "or_zero x = (case x of None \<Rightarrow> 0 | Some v \<Rightarrow> v)"

section \<open>Generic lemmas\<close>

lemma or_zero_simps [simp]: "or_zero None = 0" "or_zero (Some v) = v"
  by (simp_all add: or_zero_def)

lemma dedup_simps [simp]: "set (dedup xs) = set xs" "distinct (dedup xs)" "dedup xs = [] \<longleftrightarrow> xs = []"
  by (simp_all add: dedup_def)

lemma find_Some_mem: "List.find P xs = Some x \<Longrightarrow> x \<in> set xs \<and> P x"
  by (induction xs) (auto split: if_splits)

lemma find_None_iff_all: "List.find P xs = None \<longleftrightarrow> (\<forall>x \<in> set xs. \<not> P x)"
  by (induction xs) auto

lemma sel_first_mem: "sel_first P xs = Some x \<Longrightarrow> x \<in> set xs \<and> P x"
  by (simp add: sel_first_def find_Some_mem)

lemma sel_first_None_iff: "sel_first P xs = None \<longleftrightarrow> (\<forall>x \<in> set xs. \<not> P x)"
  by (simp add: sel_first_def find_None_iff_all)

lemma sel_first_append:
  "sel_first P (xs @ ys) = (case sel_first P xs of None \<Rightarrow> sel_first P ys | Some x \<Rightarrow> Some x)"
  unfolding sel_first_def by (induction xs) auto

lemma set_upd_where [table_simps]:
  "set (upd_where P f rows) = f ` {r \<in> set rows. P r} \<union> {r \<in> set rows. \<not> P r}"
  by (auto simp: upd_where_def)

lemma length_upd_where [table_simps, simp]: "length (upd_where P f rows) = length rows"
  by (simp add: upd_where_def)

lemma set_del_where [table_simps]: "set (del_where P rows) = {r \<in> set rows. \<not> P r}"
  by (auto simp: del_where_def)

lemma rowcount_zero_iff: "rowcount P rows = 0 \<longleftrightarrow> (\<forall>r \<in> set rows. \<not> P r)"
  by (auto simp: rowcount_def filter_empty_conv)

lemma upd_where_id: "(\<forall>r \<in> set rows. \<not> P r) \<Longrightarrow> upd_where P f rows = rows"
  by (induction rows) (auto simp: upd_where_def)

lemma sum_list_nonneg_int: "(\<forall>x \<in> set xs. 0 \<le> f x) \<Longrightarrow> 0 \<le> (\<Sum>x\<leftarrow>xs. (f x :: int))"
  by (induction xs) auto

lemma sorted_list_of_set_eq_iff:
  "finite A \<Longrightarrow> finite B \<Longrightarrow> sorted_list_of_set A = sorted_list_of_set B \<longleftrightarrow> A = B"
  by (metis set_sorted_list_of_set)

section \<open>Keyed tables\<close>

text \<open>
  A table with a primary key: the rows carry pairwise different keys, and every update the
  program makes keeps the key column.  The laws below are what the lifecycle, node and
  catalogue tables rely on.
\<close>

locale keyed_table =
  fixes key :: "'r \<Rightarrow> 'k"
    and upd :: "'r \<Rightarrow> 'r"
  assumes key_upd: "key (upd r) = key r"
begin

lemma keys_upd_where: "map key (upd_where P upd rows) = map key rows"
  by (induction rows) (auto simp: upd_where_def key_upd)

lemma distinct_upd_where:
  "distinct (map key rows) \<Longrightarrow> distinct (map key (upd_where P upd rows))"
  by (simp add: keys_upd_where)

lemma sel_upd_where:
  "sel_first (\<lambda>r. key r = k) (upd_where P upd rows) =
     map_option (\<lambda>r. if P r then upd r else r) (sel_first (\<lambda>r. key r = k) rows)"
  by (induction rows) (auto simp: upd_where_def sel_first_def key_upd)

end

lemma distinct_key_del_where:
  "distinct (map key rows) \<Longrightarrow> distinct (map key (del_where P rows))"
  by (simp add: del_where_def distinct_map_filter)

lemma sel_key_del_where:
  assumes "distinct (map key rows)"
  shows "sel_first (\<lambda>r. key r = k) (del_where P rows) =
     (case sel_first (\<lambda>r. key r = k) rows of
        None \<Rightarrow> None | Some r \<Rightarrow> if P r then None else Some r)"
  using assms
proof (induction rows)
  case Nil
  then show ?case by (simp add: sel_first_def del_where_def)
next
  case (Cons r rows)
  have "List.find (\<lambda>x. key x = key r) rows = None"
    using Cons.prems unfolding find_None_iff_all by (simp add: image_iff) metis
  with Cons show ?case
    by (auto simp: sel_first_def del_where_def split: option.splits)
qed

lemma sel_key_unique:
  "distinct (map key rows) \<Longrightarrow> r \<in> set rows \<Longrightarrow> sel_first (\<lambda>x. key x = key r) rows = Some r"
  by (induction rows) (auto simp: sel_first_def)

lemma strip_Nil [simp]: "strip [] = []"
  by (simp add: strip_def)

lemma dropWhile_hd: "dropWhile P xs = xs \<longleftrightarrow> xs = [] \<or> \<not> P (hd xs)"
  by (cases xs) (auto dest: arg_cong[where f = length] simp: le_imp_less_Suc[OF length_dropWhile_le, THEN less_imp_neq])

lemma strip_strip [simp]: "strip (strip s) = strip s"
proof -
  let ?P = py_isspace
  define a where "a = dropWhile ?P s"
  define b where "b = dropWhile ?P (rev a)"
  have s: "strip s = rev b" by (simp add: strip_def a_def b_def)
  have b: "dropWhile ?P b = b" by (simp add: b_def)
  have "dropWhile ?P (rev b) = rev b"
  proof (cases "b = []")
    case False
    obtain c where "rev a = c @ b" unfolding b_def by (metis takeWhile_dropWhile_id)
    then have "a = rev b @ rev c" by (metis rev_append rev_rev_ident)
    then have "hd (rev b) = hd a" "a \<noteq> []" using False by auto
    moreover have "\<not> ?P (hd a)" using \<open>a \<noteq> []\<close> unfolding a_def by (simp add: hd_dropWhile)
    ultimately show ?thesis by (simp add: dropWhile_hd)
  qed simp
  with b show ?thesis unfolding s by (simp add: strip_def)
qed

end
