(* ===== verification/Messages.thy ===== *)
theory Messages
  imports Prelude
begin

text \<open>
  Chat messages and their token cost: \<^verbatim>\<open>src/message_content.py\<close>,
  \<^verbatim>\<open>src/message_analysis.py\<close> (the stateless inspection helpers) and
  \<^verbatim>\<open>src/tokens.py\<close>.

  A message is a Python dictionary (\<open>pydict\<close>).  The tiktoken encoder and the host's image
  price are not part of the repository: they are the fields of \<open>token_env\<close>.
  \<open>encoder = None\<close> is "no encoder"; \<open>Some e\<close> with \<open>e text = None\<close> is an encoder that
  raises on the text, which the code answers with its character estimate.
\<close>

type_synonym message = pydict

definition is_role :: "message \<Rightarrow> string \<Rightarrow> bool" where
  "is_role m r = (pget m ''role'' = PStr r)"

section \<open>message\_content.py\<close>

definition TEXT_PART_TYPES :: "string list" where
  "TEXT_PART_TYPES = [''text'', ''input_text'', ''output_text'']"

definition IMAGE_PART_TYPES :: "string list" where
  "IMAGE_PART_TYPES = [''image'', ''image_url'', ''input_image'']"

definition MULTIMODAL_IMAGE_PART_TYPES :: "string list" where
  "MULTIMODAL_IMAGE_PART_TYPES = [''image'', ''image_url'']"

fun extract_text_part_value :: "pyval \<Rightarrow> string option" where
  "extract_text_part_value (PStr s) = Some s"
| "extract_text_part_value (PDict d) =
     (case pget d ''value'' of PStr s \<Rightarrow> Some s
      | _ \<Rightarrow> (case pget d ''content'' of PStr s \<Rightarrow> Some s | _ \<Rightarrow> None))"
| "extract_text_part_value _ = None"

text \<open>\<open>json.dumps(value, ensure_ascii=False, sort_keys=True)\<close>.\<close>

definition json_char :: "char \<Rightarrow> string" where
  "json_char c = (let n = (of_char c :: nat) in
     if n = 34 then [CHR 0x5C, CHR 0x22]
     else if n = 92 then [CHR 0x5C, CHR 0x5C]
     else if n = 10 then [CHR 0x5C, CHR ''n'']
     else if n = 13 then [CHR 0x5C, CHR ''r'']
     else if n = 9 then [CHR 0x5C, CHR ''t'']
     else if n = 12 then [CHR 0x5C, CHR ''f'']
     else if n = 8 then [CHR 0x5C, CHR ''b'']
     else if n < 32 then CHR 0x5C # ''u00'' @ [hex_digit (n div 16), hex_digit (n mod 16)]
     else [c])"

definition json_string :: "string \<Rightarrow> string" where
  "json_string s = CHR 0x22 # concat (map json_char s) @ [CHR 0x22]"

fun json_dumps :: "pyval \<Rightarrow> string" where
  "json_dumps PNone = ''null''"
| "json_dumps (PBool b) = (if b then ''true'' else ''false'')"
| "json_dumps (PInt i) = int_str i"
| "json_dumps (PStr s) = json_string s"
| "json_dumps (PList xs) = ''['' @ join '', '' (map json_dumps xs) @ '']''"
| "json_dumps (PDict kvs) = ''{'' @ join '', ''
     (map (\<lambda>(k, v). json_string k @ '': '' @ v)
        (sort_key fst (map (\<lambda>kv. (fst kv, json_dumps (snd kv))) kvs))) @ ''}''"

fun normalize_content_value :: "pyval \<Rightarrow> string option" where
  "normalize_content_value PNone = None"
| "normalize_content_value (PStr s) = Some s"
| "normalize_content_value v = Some (json_dumps v)"

fun part_type :: "pyval \<Rightarrow> string option" where
  "part_type (PDict d) = (case pget d ''type'' of PStr s \<Rightarrow> Some s | _ \<Rightarrow> None)"
| "part_type _ = None"

definition type_in :: "string list \<Rightarrow> pyval \<Rightarrow> bool" where
  "type_in ts part = (case part_type part of None \<Rightarrow> False | Some t \<Rightarrow> t \<in> set ts)"

definition stripped_image :: "pyval \<Rightarrow> pyval" where
  "stripped_image part = (case part of
     PDict d \<Rightarrow> PDict [(''type'', pget d ''type''), (''image'', PStr ''[stripped]'')]
   | _ \<Rightarrow> part)"

fun split_image_parts :: "pyval \<Rightarrow> pyval \<times> nat" where
  "split_image_parts (PList xs) =
     (let count = length (filter (type_in IMAGE_PART_TYPES) xs)
      in if count > 0
         then (PList (map (\<lambda>p. if type_in IMAGE_PART_TYPES p then stripped_image p else p) xs), count)
         else (PList xs, 0))"
| "split_image_parts (PDict d) =
     (if truthy (pget d ''_multimodal'')
      then (case pget d ''content'' of
              PList parts \<Rightarrow>
                (let count = length (filter (type_in MULTIMODAL_IMAGE_PART_TYPES) parts)
                 in if count > 0 then (py_or (pget d ''text_summary'') (PStr ''''), count) else (PDict d, 0))
            | _ \<Rightarrow> (PDict d, 0))
      else (PDict d, 0))"
| "split_image_parts v = (v, 0)"

definition text_part :: "pyval \<Rightarrow> string list" where
  "text_part part = (case part of
     PStr s \<Rightarrow> [s]
   | PDict d \<Rightarrow>
       if type_in TEXT_PART_TYPES part
       then (let t = (case extract_text_part_value (pget d ''text'') of
                        Some s \<Rightarrow> Some s | None \<Rightarrow> extract_text_part_value (pget d ''content''))
             in case t of Some s \<Rightarrow> (if s \<noteq> [] then [s] else []) | None \<Rightarrow> [])
       else []
   | _ \<Rightarrow> [])"

fun text_content_for_pattern_matching :: "pyval \<Rightarrow> string option" where
  "text_content_for_pattern_matching (PList xs) =
     (let parts = concat (map text_part xs)
      in if parts \<noteq> [] then Some (join [CHR 0x0A] parts) else normalize_content_value (PList xs))"
| "text_content_for_pattern_matching v = normalize_content_value v"

section \<open>message\_analysis.py\<close>

fun tool_call_id :: "pyval \<Rightarrow> string" where
  "tool_call_id (PDict d) =
     (let value = py_or (pget d ''id'') (pget d ''tool_call_id'')
      in if truthy value then strip (py_str value) else '''')"
| "tool_call_id _ = ''''"

definition tool_calls :: "message \<Rightarrow> pyval list" where
  "tool_calls m = py_iter (pget m ''tool_calls'')"

definition result_id :: "message \<Rightarrow> string" where
  "result_id m = strip (py_str (py_or (pget m ''tool_call_id'') (PStr '''')))"

definition call_function_name :: "pyval \<Rightarrow> string" where
  "call_function_name tc = (case tc of
     PDict d \<Rightarrow> (case pget d ''function'' of
                   PDict f \<Rightarrow> py_str (py_or (pget f ''name'') (PStr ''''))
                 | _ \<Rightarrow> '''')
   | _ \<Rightarrow> '''')"

definition record_call_names :: "(string \<rightharpoonup> string) \<Rightarrow> pyval list \<Rightarrow> (string \<rightharpoonup> string)" where
  "record_call_names latest calls =
     foldl (\<lambda>l tc. if tool_call_id tc \<noteq> '''' then l(tool_call_id tc \<mapsto> call_function_name tc) else l)
       latest calls"

fun tool_result_names_from :: "nat \<Rightarrow> (string \<rightharpoonup> string) \<Rightarrow> message list \<Rightarrow> (nat \<times> string) list" where
  "tool_result_names_from i latest [] = []"
| "tool_result_names_from i latest (m # ms) =
     (if is_role m ''tool''
      then (case latest (result_id m) of
              Some name \<Rightarrow> (if name \<noteq> '''' then [(i, name)] else []) | None \<Rightarrow> [])
           @ tool_result_names_from (Suc i) latest ms
      else if \<not> is_role m ''assistant'' then tool_result_names_from (Suc i) latest ms
      else tool_result_names_from (Suc i) (record_call_names latest (tool_calls m)) ms)"

definition tool_result_names :: "message list \<Rightarrow> (nat \<times> string) list" where
  "tool_result_names ms = tool_result_names_from 0 Map.empty ms"

definition assistant_tool_call_ids :: "message list \<Rightarrow> string set" where
  "assistant_tool_call_ids ms =
     set (filter (\<lambda>i. i \<noteq> '''')
       (concat (map (\<lambda>m. if is_role m ''assistant'' then map tool_call_id (tool_calls m) else []) ms)))"

definition matched_tool_call_ids :: "message list \<Rightarrow> string set" where
  "matched_tool_call_ids ms =
     assistant_tool_call_ids ms \<inter>
     set (filter (\<lambda>i. i \<noteq> '''') (map result_id (filter (\<lambda>m. is_role m ''tool'') ms)))"

definition SYNTHETIC_ASSISTANT_NOISE :: "string list" where
  "SYNTHETIC_ASSISTANT_NOISE =
     [''ack'', ''acknowledged'', ''heartbeat'', ''heartbeat ack'', ''keepalive'', ''keep alive'', ''pong'']"

text \<open>\<open>re.sub(r"\s+", " ", s)\<close> and \<open>s.strip(chars)\<close>.\<close>

fun collapse_spaces :: "bool \<Rightarrow> string \<Rightarrow> string" where
  "collapse_spaces prev [] = []"
| "collapse_spaces prev (c # cs) =
     (if py_isspace c then (if prev then collapse_spaces True cs else CHR '' '' # collapse_spaces True cs)
      else c # collapse_spaces False cs)"

definition strip_chars :: "string \<Rightarrow> string \<Rightarrow> string" where
  "strip_chars chars s =
     rev (dropWhile (\<lambda>c. c \<in> set chars) (rev (dropWhile (\<lambda>c. c \<in> set chars) s)))"

definition is_synthetic_assistant_noise :: "string \<Rightarrow> bool" where
  "is_synthetic_assistant_noise content =
     (let normalized = lower (collapse_spaces False (strip content))
      in if normalized = '''' then True
         else (let n2 = strip_chars [CHR 0x60, CHR ''*'', CHR ''_'', CHR '' ''] normalized;
                   bracketless = strip_chars ''[](){} '' n2
               in n2 \<in> set SYNTHETIC_ASSISTANT_NOISE \<or> bracketless \<in> set SYNTHETIC_ASSISTANT_NOISE))"

definition is_codex_interim :: "message \<Rightarrow> bool" where
  "is_codex_interim m =
     (truthy (pget m ''codex_reasoning_items'') \<or> truthy (pget m ''codex_message_items'')
      \<or> pget m ''finish_reason'' = PStr ''incomplete'')"

section \<open>tokens.py\<close>

record token_env =
  encoder :: "(string \<Rightarrow> nat option) option"
  host_image_cost :: "pyval option"

definition CHARS_PER_TOKEN :: nat where
  "CHARS_PER_TOKEN = 4"

definition DEFAULT_IMAGE_TOKEN_COST :: nat where
  "DEFAULT_IMAGE_TOKEN_COST = 1500"

definition is_ascii :: "string \<Rightarrow> bool" where
  "is_ascii s = list_all (\<lambda>c. (of_char c :: nat) \<le> 127) s"

text \<open>
  The ratios \<open>0.5\<close> and \<open>0.2\<close> and the divisors \<open>1.5\<close> and \<open>2.5\<close> are written as
  integer comparisons and divisions; for texts shorter than \<open>2 ^ 50\<close> characters the floating
  point expressions of the source give the same values.
\<close>

definition fallback_token_estimate :: "string \<Rightarrow> nat" where
  "fallback_token_estimate text =
     (let len = length text in
      if len = 0 then 0
      else if is_ascii text then len div CHARS_PER_TOKEN + 1
      else (let non_ascii = length (filter (\<lambda>c. (of_char c :: nat) > 127) text) in
            if 2 * non_ascii \<ge> len then 2 * len div 3 + 1
            else if 5 * non_ascii \<ge> len then 2 * len div 5 + 1
            else len div CHARS_PER_TOKEN + 1))"

definition count_tokens_core :: "token_env \<Rightarrow> pyval \<Rightarrow> nat" where
  "count_tokens_core env v = (case v of
     PStr text \<Rightarrow> (case encoder env of
        Some e \<Rightarrow> (case e text of Some n \<Rightarrow> n | None \<Rightarrow> fallback_token_estimate text)
      | None \<Rightarrow> fallback_token_estimate text)
   | PList xs \<Rightarrow> length xs div CHARS_PER_TOKEN + 1
   | PDict d \<Rightarrow> length d div CHARS_PER_TOKEN + 1
   | _ \<Rightarrow> 0)"

definition count_tokens :: "token_env \<Rightarrow> pyval \<Rightarrow> nat" where
  "count_tokens env v = (if \<not> truthy v then 0 else count_tokens_core env v)"

definition image_token_cost :: "token_env \<Rightarrow> nat" where
  "image_token_cost env = (case host_image_cost env of
     Some (PInt cost) \<Rightarrow> (if cost > 0 then nat cost else DEFAULT_IMAGE_TOKEN_COST)
   | _ \<Rightarrow> DEFAULT_IMAGE_TOKEN_COST)"

definition content_text :: "pyval \<Rightarrow> pyval" where
  "content_text v = (case normalize_content_value v of None \<Rightarrow> PStr '''' | Some s \<Rightarrow> PStr s)"

definition tool_call_tokens :: "token_env \<Rightarrow> pyval \<Rightarrow> nat" where
  "tool_call_tokens env tc = (case tc of
     PDict d \<Rightarrow> (case pget d ''function'' of
        PDict f \<Rightarrow> count_tokens env (pget f ''name'') + count_tokens env (pget f ''arguments'')
      | _ \<Rightarrow> 0)
   | _ \<Rightarrow> 0) + 3"

definition count_message_tokens :: "token_env \<Rightarrow> message \<Rightarrow> nat" where
  "count_message_tokens env m =
     (let raw_content = pget m ''content'';
          (stripped, image_count) = split_image_parts raw_content;
          body = (if image_count > 0
                  then count_tokens env (content_text stripped) + image_count * image_token_cost env
                  else count_tokens env (content_text raw_content))
      in 4 + body + sum_list (map (tool_call_tokens env) (tool_calls m)))"

definition count_messages_tokens :: "token_env \<Rightarrow> message list \<Rightarrow> nat" where
  "count_messages_tokens env ms = sum_list (map (count_message_tokens env) ms)"

section \<open>Lemmas\<close>

lemma is_role_unique: "is_role m a \<Longrightarrow> is_role m b \<Longrightarrow> a = b"
  by (simp add: is_role_def)

lemma is_role_tool_assistant [simp]:
  "is_role m ''tool'' \<Longrightarrow> \<not> is_role m ''assistant''"
  "is_role m ''assistant'' \<Longrightarrow> \<not> is_role m ''tool''"
  by (auto simp: is_role_def)

lemma count_message_tokens_ge: "4 \<le> count_message_tokens env m"
  by (auto simp: count_message_tokens_def Let_def split: prod.splits)

lemma count_messages_tokens_simps [simp]:
  "count_messages_tokens env [] = 0"
  "count_messages_tokens env (m # ms) = count_message_tokens env m + count_messages_tokens env ms"
  "count_messages_tokens env (ms @ ns) = count_messages_tokens env ms + count_messages_tokens env ns"
  by (simp_all add: count_messages_tokens_def)

lemma fallback_token_estimate_cases:
  assumes "text \<noteq> []"
  obtains "fallback_token_estimate text = length text div 4 + 1"
    | "fallback_token_estimate text = 2 * length text div 3 + 1"
    | "fallback_token_estimate text = 2 * length text div 5 + 1"
  using assms by (fastforce simp: fallback_token_estimate_def CHARS_PER_TOKEN_def Let_def split: if_splits)

lemma type_in_stripped: "type_in ts (stripped_image p) = type_in ts p"
  by (cases p) (simp_all add: stripped_image_def type_in_def pget_def)

definition same_but_image_payload :: "pyval \<Rightarrow> pyval \<Rightarrow> bool" where
  "same_but_image_payload p q =
     (p = q \<or> (type_in IMAGE_PART_TYPES p \<and> type_in IMAGE_PART_TYPES q \<and> stripped_image p = stripped_image q))"

lemma split_image_parts_payload:
  assumes "list_all2 same_but_image_payload xs ys"
  shows "length (filter (type_in IMAGE_PART_TYPES) xs) = length (filter (type_in IMAGE_PART_TYPES) ys)"
    and "map (\<lambda>p. if type_in IMAGE_PART_TYPES p then stripped_image p else p) xs =
         map (\<lambda>p. if type_in IMAGE_PART_TYPES p then stripped_image p else p) ys"
    and "\<forall>p \<in> set xs. \<not> type_in IMAGE_PART_TYPES p \<Longrightarrow> xs = ys"
  using assms by (induction rule: list_all2_induct) (auto simp: same_but_image_payload_def)

section \<open>Properties\<close>

text \<open>
  The character estimate of a non-empty text lies between a quarter of its length and its whole
  length (plus one), and a text that is at least half non-ASCII is charged two tokens per three
  characters.
\<close>

theorem fallback_token_estimate_bounds:
  assumes "text \<noteq> []"
  shows "length text div 4 + 1 \<le> fallback_token_estimate text
    \<and> fallback_token_estimate text \<le> length text + 1
    \<and> (length text \<le> 2 * length (filter (\<lambda>c. (of_char c :: nat) > 127) text) \<longrightarrow>
         fallback_token_estimate text = 2 * length text div 3 + 1)"
proof -
  have "length text \<le> 2 * length (filter (\<lambda>c. (of_char c :: nat) > 127) text) \<Longrightarrow> \<not> is_ascii text"
    using assms by (auto simp: is_ascii_def list_all_iff filter_empty_conv not_less)
      (metis (no_types, lifting) filter_False le_zero_eq length_0_conv list.size(3) mult_0_right not_less)
  moreover from assms have "length text div 4 + 1 \<le> fallback_token_estimate text
      \<and> fallback_token_estimate text \<le> length text + 1"
    by (cases rule: fallback_token_estimate_cases) auto
  ultimately show ?thesis
    using assms by (auto simp: fallback_token_estimate_def Let_def)
qed

theorem fallback_token_estimate_bounds_witness:
  "fallback_token_estimate ''abcdefgh'' \<le> 9 \<and> 3 \<le> fallback_token_estimate ''abcdefgh''"
  using fallback_token_estimate_bounds[of "''abcdefgh''"] by simp

text \<open>
  Structured images are priced flat: two messages that differ only in the payload of their image
  parts cost the same number of tokens, whatever the payload's size.
\<close>

theorem image_payload_priced_flat:
  assumes "list_all2 same_but_image_payload xs ys"
  shows "count_message_tokens env ((''content'', PList xs) # m) =
         count_message_tokens env ((''content'', PList ys) # m)"
proof (cases "length (filter (type_in IMAGE_PART_TYPES) xs) = 0")
  case True
  then have "xs = ys"
    by (intro split_image_parts_payload(3)[OF assms]) (simp add: filter_empty_conv)
  then show ?thesis by simp
next
  case False
  with split_image_parts_payload(1,2)[OF assms] show ?thesis
    by (simp add: count_message_tokens_def pget_def tool_calls_def Let_def)
qed

theorem image_payload_priced_flat_witness:
  "count_message_tokens \<lparr>encoder = None, host_image_cost = None\<rparr>
     [(''content'', PList [PDict [(''type'', PStr ''image''), (''image'', PStr ''x'')]])] =
   count_message_tokens \<lparr>encoder = None, host_image_cost = None\<rparr>
     [(''content'', PList [PDict [(''type'', PStr ''image''), (''image'', PStr ''longer payload'')]])]"
  by (rule image_payload_priced_flat)
     (simp add: same_but_image_payload_def type_in_def pget_def IMAGE_PART_TYPES_def stripped_image_def)

end
