(* ===== verification/Tool_Pairs.thy ===== *)
theory Tool_Pairs
  imports Messages
begin

text \<open>
  Repair of tool-call/result sequencing: \<^verbatim>\<open>src/tool_pairs.py\<close> and the stub
  the engine passes to it (\<^verbatim>\<open>src/engine.py\<close>, \<open>_missing_tool_result_stub\<close>).

  The Python walks the message list with an index \<open>i\<close>; the model walks the remaining suffix.
  \<open>take_result\<close> is the inner \<open>while\<close> that looks for the result of one expected id,
  \<open>answer_calls\<close> the \<open>for\<close> over the expected ids, \<open>drop_tools\<close> the trailing
  \<open>while\<close>, and \<open>repair_tool_pairs\<close> the outer loop.
\<close>

record repair_result =
  rr_rows :: "message list"
  rr_dropped :: nat
  rr_inserted :: nat

definition expected_ids :: "message \<Rightarrow> string list" where
  "expected_ids m = filter (\<lambda>i. i \<noteq> '''') (map tool_call_id (tool_calls m))"

fun take_result :: "string \<Rightarrow> message list \<Rightarrow> message option \<times> message list \<times> nat" where
  "take_result eid [] = (None, [], 0)"
| "take_result eid (m # ms) =
     (if is_role m ''tool''
      then (if result_id m = eid then (Some m, ms, 0)
            else (case take_result eid ms of (r, rest, d) \<Rightarrow> (r, rest, Suc d)))
      else (None, m # ms, 0))"

fun answer_calls ::
  "(string \<Rightarrow> message) \<Rightarrow> bool \<Rightarrow> string list \<Rightarrow> message list
     \<Rightarrow> message list \<times> message list \<times> nat \<times> nat" where
  "answer_calls stub ins [] ms = ([], ms, 0, 0)"
| "answer_calls stub ins (eid # eids) ms =
     (case take_result eid ms of (r, rest, d) \<Rightarrow>
      case answer_calls stub ins eids rest of (rows, rest', d', n) \<Rightarrow>
      (case r of
         Some m \<Rightarrow> (m # rows, rest', d + d', n)
       | None \<Rightarrow> (if ins then (stub eid # rows, rest', d + d', Suc n) else (rows, rest', d + d', n))))"

fun drop_tools :: "message list \<Rightarrow> message list \<times> nat" where
  "drop_tools [] = ([], 0)"
| "drop_tools (m # ms) =
     (if is_role m ''tool'' then (case drop_tools ms of (rest, d) \<Rightarrow> (rest, Suc d)) else (m # ms, 0))"

lemma take_result_length:
  "take_result eid ms = (r, rest, d) \<Longrightarrow>
     length rest + d + (case r of None \<Rightarrow> 0 | Some _ \<Rightarrow> 1) = length ms"
  by (induction eid ms arbitrary: r rest d rule: take_result.induct)
     (auto split: if_splits prod.splits option.splits)

lemma answer_calls_length:
  "answer_calls stub ins eids ms = (rows, rest, d, n) \<Longrightarrow>
     length rest + d + length rows = length ms + n"
proof (induction stub ins eids ms arbitrary: rows rest d n rule: answer_calls.induct)
  case (1 stub ins ms)
  then show ?case by simp
next
  case (2 stub ins eid eids ms)
  obtain r rest1 d1 where t: "take_result eid ms = (r, rest1, d1)" by (metis prod_cases3)
  obtain rows2 rest2 d2 n2 where a: "answer_calls stub ins eids rest1 = (rows2, rest2, d2, n2)"
    by (metis prod_cases4)
  from "2.IH"[OF t[symmetric] refl a]
  have "length rest2 + d2 + length rows2 = length rest1 + n2" .
  with take_result_length[OF t] "2.prems" t a show ?case
    by (auto split: option.splits if_splits)
qed

lemma drop_tools_length: "drop_tools ms = (rest, d) \<Longrightarrow> length rest + d = length ms"
  by (induction ms arbitrary: rest d rule: drop_tools.induct) (auto split: if_splits prod.splits)

lemma take_result_le: "take_result eid ms = (r, rest, d) \<Longrightarrow> length rest \<le> length ms"
  using take_result_length by fastforce

lemma answer_calls_le: "answer_calls stub ins eids ms = (rows, rest, d, n) \<Longrightarrow> length rest \<le> length ms"
proof (induction stub ins eids ms arbitrary: rows rest d n rule: answer_calls.induct)
  case (1 stub ins ms)
  then show ?case by simp
next
  case (2 stub ins eid eids ms)
  then show ?case
    by (fastforce split: prod.splits option.splits if_splits dest: take_result_le)
qed

function repair_tool_pairs :: "(string \<Rightarrow> message) \<Rightarrow> bool \<Rightarrow> message list \<Rightarrow> repair_result" where
  "repair_tool_pairs stub ins [] = \<lparr>rr_rows = [], rr_dropped = 0, rr_inserted = 0\<rparr>"
| "repair_tool_pairs stub ins (m # ms) =
     (if is_role m ''tool''
      then (let r = repair_tool_pairs stub ins ms in r\<lparr>rr_dropped := rr_dropped r + 1\<rparr>)
      else if is_role m ''assistant''
      then (case answer_calls stub ins (expected_ids m) ms of (rows, rest, d, n) \<Rightarrow>
            case drop_tools rest of (rest', d') \<Rightarrow>
            let r = repair_tool_pairs stub ins rest' in
            \<lparr>rr_rows = m # rows @ rr_rows r,
             rr_dropped = d + d' + rr_dropped r, rr_inserted = n + rr_inserted r\<rparr>)
      else (let r = repair_tool_pairs stub ins ms in r\<lparr>rr_rows := m # rr_rows r\<rparr>))"
  by pat_completeness auto
termination
  by (relation "measure (\<lambda>(stub, ins, ms). length ms)")
     (auto dest!: answer_calls_le[OF sym] drop_tools_length[OF sym])

text \<open>The engine's stub; the em dash of the source constant is spelled by its UTF-8 bytes.\<close>

definition MISSING_TOOL_RESULT_STUB :: string where
  "MISSING_TOOL_RESULT_STUB =
     ''[Result from earlier conversation '' @ [CHR 0xE2, CHR 0x80, CHR 0x94] @ '' see context summary above]''"

definition missing_tool_result_stub :: "string \<Rightarrow> message" where
  "missing_tool_result_stub call_id =
     [(''role'', PStr ''tool''), (''content'', PStr MISSING_TOOL_RESULT_STUB), (''tool_call_id'', PStr call_id)]"

section \<open>The provider's sequencing rule\<close>

text \<open>
  Every assistant turn is followed at once by exactly one tool row per call id, in call order,
  and no other tool row occurs.
\<close>

function well_paired :: "message list \<Rightarrow> bool" where
  "well_paired [] = True"
| "well_paired (m # ms) =
     (if is_role m ''tool'' then False
      else if is_role m ''assistant''
      then (let k = length (expected_ids m) in
            list_all (\<lambda>r. is_role r ''tool'') (take k ms)
            \<and> map result_id (take k ms) = expected_ids m
            \<and> well_paired (drop k ms))
      else well_paired ms)"
  by pat_completeness auto
termination
  by (relation "measure length") auto

text \<open>What the repair needs of the stub: a tool row that answers the id it was made for.\<close>

locale tool_stub =
  fixes stub :: "string \<Rightarrow> message"
  assumes stub_role: "is_role (stub i) ''tool''"
    and stub_id: "i \<noteq> '''' \<Longrightarrow> strip i = i \<Longrightarrow> result_id (stub i) = i"

section \<open>Lemmas\<close>

lemma tool_call_id_stripped [simp]: "strip (tool_call_id tc) = tool_call_id tc"
proof (cases tc)
  case (PDict d)
  then show ?thesis by (simp add: Let_def)
qed (simp_all add: strip_def)

lemma expected_ids_mem: "i \<in> set (expected_ids m) \<Longrightarrow> i \<noteq> '''' \<and> strip i = i"
  by (auto simp: expected_ids_def)

lemma take_result_Some:
  "take_result eid ms = (Some m, rest, d) \<Longrightarrow> is_role m ''tool'' \<and> result_id m = eid"
  by (induction eid ms arbitrary: rest d rule: take_result.induct) (auto split: if_splits prod.splits)

abbreviation non_tools :: "message list \<Rightarrow> message list" where
  "non_tools ms \<equiv> filter (\<lambda>m. \<not> is_role m ''tool'') ms"

lemma take_result_non_tools: "take_result eid ms = (r, rest, d) \<Longrightarrow> non_tools rest = non_tools ms"
  by (induction eid ms arbitrary: r rest d rule: take_result.induct) (auto split: if_splits prod.splits)

lemma drop_tools_non_tools: "drop_tools ms = (rest, d) \<Longrightarrow> non_tools rest = non_tools ms"
  by (induction ms arbitrary: rest d rule: drop_tools.induct) (auto split: if_splits prod.splits)

lemma drop_tools_id: "ms = [] \<or> \<not> is_role (hd ms) ''tool'' \<Longrightarrow> drop_tools ms = (ms, 0)"
  by (cases ms) auto

lemma answer_calls_complete:
  assumes "list_all (\<lambda>r. is_role r ''tool'') (take (length eids) ms)"
    and "map result_id (take (length eids) ms) = eids"
  shows "answer_calls stub ins eids ms = (take (length eids) ms, drop (length eids) ms, 0, 0)"
  using assms
proof (induction eids arbitrary: ms)
  case Nil
  then show ?case by simp
next
  case (Cons eid eids)
  then show ?case by (cases ms) auto
qed

lemma well_paired_hd: "well_paired ms \<Longrightarrow> ms = [] \<or> \<not> is_role (hd ms) ''tool''"
  by (cases ms) (auto split: if_splits)

context tool_stub
begin

lemma answer_calls_rows:
  assumes "answer_calls stub True eids ms = (rows, rest, d, n)"
    and "\<forall>i \<in> set eids. i \<noteq> '''' \<and> strip i = i"
  shows "list_all (\<lambda>r. is_role r ''tool'') rows \<and> map result_id rows = eids"
  using assms
proof (induction eids arbitrary: ms rows rest d n)
  case Nil
  then show ?case by simp
next
  case (Cons eid eids)
  obtain r rest1 d1 where t: "take_result eid ms = (r, rest1, d1)" by (metis prod_cases3)
  obtain rows2 rest2 d2 n2 where a: "answer_calls stub True eids rest1 = (rows2, rest2, d2, n2)"
    by (metis prod_cases4)
  have ih: "list_all (\<lambda>r. is_role r ''tool'') rows2 \<and> map result_id rows2 = eids"
    using Cons.IH[OF a] Cons.prems(2) by simp
  show ?case
  proof (cases r)
    case None
    with Cons.prems t a ih show ?thesis by (auto simp: stub_role stub_id)
  next
    case (Some m)
    with Cons.prems t a ih take_result_Some[of eid ms m rest1 d1] show ?thesis by auto
  qed
qed

lemma answer_calls_non_tools:
  "answer_calls stub ins eids ms = (rows, rest, d, n) \<Longrightarrow>
     non_tools rest = non_tools ms \<and> non_tools rows = []"
proof (induction eids arbitrary: ms rows rest d n)
  case Nil
  then show ?case by simp
next
  case (Cons eid eids)
  obtain r rest1 d1 where t: "take_result eid ms = (r, rest1, d1)" by (metis prod_cases3)
  obtain rows2 rest2 d2 n2 where a: "answer_calls stub ins eids rest1 = (rows2, rest2, d2, n2)"
    by (metis prod_cases4)
  from Cons.IH[OF a] take_result_non_tools[OF t] Cons.prems t a
  show ?case
    by (auto simp: stub_role split: option.splits if_splits dest: take_result_Some)
qed

lemma repair_rows_well_paired: "well_paired (rr_rows (repair_tool_pairs stub True ms))"
proof (induction "length ms" arbitrary: ms rule: less_induct)
  case less
  show ?case
  proof (cases ms)
    case (Cons m ns)
    obtain rows rest d n where a: "answer_calls stub True (expected_ids m) ns = (rows, rest, d, n)"
      by (metis prod_cases4)
    obtain rest' d' where t: "drop_tools rest = (rest', d')" by (metis surj_pair)
    have "length rest' < length ms"
      using answer_calls_le[OF a] drop_tools_length[OF t] Cons by simp
    then have ih: "well_paired (rr_rows (repair_tool_pairs stub True rest'))" by (rule less)
    have rows: "list_all (\<lambda>r. is_role r ''tool'') rows" "map result_id rows = expected_ids m"
      using answer_calls_rows[OF a] expected_ids_mem by blast+
    then have len: "length rows = length (expected_ids m)" by (metis length_map)
    show ?thesis
      using Cons less[of ns] a t ih rows len by (auto simp: Let_def)
  qed simp
qed

lemma repair_keeps_non_tools: "non_tools (rr_rows (repair_tool_pairs stub ins ms)) = non_tools ms"
proof (induction "length ms" arbitrary: ms rule: less_induct)
  case less
  show ?case
  proof (cases ms)
    case (Cons m ns)
    obtain rows rest d n where a: "answer_calls stub ins (expected_ids m) ns = (rows, rest, d, n)"
      by (metis prod_cases4)
    obtain rest' d' where t: "drop_tools rest = (rest', d')" by (metis surj_pair)
    have "length rest' < length ms"
      using answer_calls_le[OF a] drop_tools_length[OF t] Cons by simp
    then show ?thesis
      using Cons less[of ns] less[of rest'] a t answer_calls_non_tools[OF a] drop_tools_non_tools[OF t]
      by (auto simp: Let_def)
  qed simp
qed

end

lemma repair_accounting:
  "length (rr_rows (repair_tool_pairs stub ins ms)) + rr_dropped (repair_tool_pairs stub ins ms) =
     length ms + rr_inserted (repair_tool_pairs stub ins ms)"
proof (induction "length ms" arbitrary: ms rule: less_induct)
  case less
  show ?case
  proof (cases ms)
    case (Cons m ns)
    obtain rows rest d n where a: "answer_calls stub ins (expected_ids m) ns = (rows, rest, d, n)"
      by (metis prod_cases4)
    obtain rest' d' where t: "drop_tools rest = (rest', d')" by (metis surj_pair)
    have "length rest' < length ms"
      using answer_calls_le[OF a] drop_tools_length[OF t] Cons by simp
    then show ?thesis
      using Cons less[of ns] less[of rest'] a t answer_calls_length[OF a] drop_tools_length[OF t]
      by (auto simp: Let_def)
  qed simp
qed

lemma repair_well_paired_id:
  "well_paired ms \<Longrightarrow>
     repair_tool_pairs stub ins ms = \<lparr>rr_rows = ms, rr_dropped = 0, rr_inserted = 0\<rparr>"
proof (induction ms rule: well_paired.induct)
  case (2 m ms)
  show ?case
  proof (cases "is_role m ''assistant''")
    case True
    let ?k = "length (expected_ids m)"
    from True "2.prems" have wp: "well_paired (drop ?k ms)"
      and a: "answer_calls stub ins (expected_ids m) ms = (take ?k ms, drop ?k ms, 0, 0)"
      by (auto simp: Let_def intro!: answer_calls_complete)
    have "drop_tools (drop ?k ms) = (drop ?k ms, 0)"
      by (rule drop_tools_id) (rule well_paired_hd[OF wp])
    with True a "2.IH"(1)[OF _ True refl wp] show ?thesis by simp
  next
    case False
    with "2.prems" have "\<not> is_role m ''tool''" "well_paired ms" by (auto split: if_splits)
    with False "2.IH"(2) show ?thesis by simp
  qed
qed simp

interpretation engine_stub: tool_stub missing_tool_result_stub
  by unfold_locales (auto simp: missing_tool_result_stub_def is_role_def pget_def result_id_def py_or_def)

section \<open>Properties\<close>

text \<open>
  C28: With the engine's stub and stub insertion on, the rows \<open>repair_tool_pairs\<close> emits obey the
  provider's rule for any input: each assistant turn is followed at once by exactly one result per
  call id, in call order, and there is no other tool row.
\<close>

theorem repair_tool_pairs_well_paired:
  "well_paired (rr_rows (repair_tool_pairs missing_tool_result_stub True ms))"
  by (rule engine_stub.repair_rows_well_paired)

text \<open>
  The repair loses and reorders no non-tool row, and its two counters account for every tool
  row: rows emitted plus rows dropped are the rows given plus the stubs inserted.
\<close>

theorem repair_tool_pairs_conserves:
  "filter (\<lambda>m. \<not> is_role m ''tool'') (rr_rows (repair_tool_pairs missing_tool_result_stub ins ms)) =
     filter (\<lambda>m. \<not> is_role m ''tool'') ms
   \<and> length (rr_rows (repair_tool_pairs missing_tool_result_stub ins ms))
       + rr_dropped (repair_tool_pairs missing_tool_result_stub ins ms)
     = length ms + rr_inserted (repair_tool_pairs missing_tool_result_stub ins ms)"
  by (simp only: engine_stub.repair_keeps_non_tools repair_accounting simp_thms)

text \<open>
  Repairing twice is repairing once: the second pass returns the same rows and reports no drop
  and no stub.
\<close>

theorem repair_tool_pairs_idempotent:
  "repair_tool_pairs missing_tool_result_stub ins
     (rr_rows (repair_tool_pairs missing_tool_result_stub True ms)) =
   \<lparr>rr_rows = rr_rows (repair_tool_pairs missing_tool_result_stub True ms),
    rr_dropped = 0, rr_inserted = 0\<rparr>"
  by (rule repair_well_paired_id) (rule engine_stub.repair_rows_well_paired)

end
