(* ===== verification/Fresh_Tail.thy ===== *)
theory Fresh_Tail
  imports Tool_Pairs
begin

text \<open>
  The protected fresh tail and the leaf chunk prefix: \<^verbatim>\<open>src/fresh_tail.py\<close> and
  \<open>select_oldest_leaf_chunk\<close> of \<^verbatim>\<open>src/compaction.py\<close>.

  Positions are natural numbers.  The backward \<open>for\<close> loops recurse on the position below the
  current one.
\<close>

record FreshTailBoundary =
  ft_start :: nat
  ft_count :: nat
  ft_tokens :: nat
  ft_count_limit :: nat
  ft_token_limit :: nat
  ft_token_limited :: bool
  ft_tool_group_extended :: bool

definition call_ids :: "message \<Rightarrow> string set" where
  "call_ids m = set (map tool_call_id (tool_calls m))"

text \<open>\<open>str(message.get("role") or "")\<close>.\<close>

definition role_text :: "message \<Rightarrow> string" where
  "role_text m = py_str (py_or (pget m ''role'') (PStr ''''))"

text \<open>\<open>group_scan messages rid start i\<close> is the loop body for the indexes \<open>i - 1, \<dots>, 0\<close>.\<close>

fun group_scan :: "message list \<Rightarrow> string \<Rightarrow> nat \<Rightarrow> nat \<Rightarrow> nat" where
  "group_scan messages rid start 0 = start"
| "group_scan messages rid start (Suc index) =
     (let message = messages ! index; role = role_text message in
      if role = ''user'' \<or> role = ''system'' then start
      else if role \<noteq> ''assistant'' then group_scan messages rid start index
      else if rid \<in> call_ids message then index else start)"

definition assistant_group_start :: "message list \<Rightarrow> nat \<Rightarrow> nat" where
  "assistant_group_start messages start =
     (if start \<ge> length messages \<or> \<not> is_role (messages ! start) ''tool'' then start
      else (let rid = result_id (messages ! start) in
            if rid = '''' then start else group_scan messages rid start start))"

fun extend_results :: "message list \<Rightarrow> string set \<Rightarrow> nat" where
  "extend_results [] ids = 0"
| "extend_results (m # ms) ids =
     (if is_role m ''tool'' \<and> result_id m \<in> ids then Suc (extend_results ms ids) else 0)"

definition tool_group_safe_end :: "message list \<Rightarrow> nat \<Rightarrow> nat" where
  "tool_group_safe_end messages stop =
     (let start = assistant_group_start messages stop in
      if start = stop \<or> start > 0 then start
      else stop + extend_results (drop stop messages) (call_ids (messages ! 0)))"

text \<open>
  The token loop over the indexes \<open>i - 1, \<dots>, count_start\<close>: it returns \<open>token_start\<close>
  and \<open>token_limited\<close>.
\<close>

fun token_scan ::
  "token_env \<Rightarrow> message list \<Rightarrow> nat \<Rightarrow> nat \<Rightarrow> nat \<Rightarrow> nat \<Rightarrow> nat \<Rightarrow> nat \<times> bool" where
  "token_scan env messages count_start token_limit 0 used token_start = (token_start, False)"
| "token_scan env messages count_start token_limit (Suc index) used token_start =
     (if index < count_start then (token_start, False)
      else (let message_tokens = count_message_tokens env (messages ! index) in
            if index \<noteq> length messages - 1 \<and> used + message_tokens > token_limit
            then (token_start, True)
            else token_scan env messages count_start token_limit index (used + message_tokens) index))"

definition resolve_fresh_tail_boundary ::
  "token_env \<Rightarrow> message list \<Rightarrow> int \<Rightarrow> int \<Rightarrow> FreshTailBoundary" where
  "resolve_fresh_tail_boundary env messages fresh_tail_count fresh_tail_max_tokens =
     (let message_count = length messages;
          count_limit = nat (max 0 fresh_tail_count);
          token_limit = nat (max 0 fresh_tail_max_tokens) in
      if message_count = 0
      then \<lparr>ft_start = 0, ft_count = 0, ft_tokens = 0, ft_count_limit = count_limit,
            ft_token_limit = token_limit, ft_token_limited = False, ft_tool_group_extended = False\<rparr>
      else
        (let effective_count_limit = (if token_limit > 0 then max 1 count_limit else count_limit);
             count_start = message_count - effective_count_limit;
             (start0, token_limited) =
               (if token_limit > 0
                then token_scan env messages count_start token_limit message_count 0 (message_count - 1)
                else (count_start, False));
             group_start = assistant_group_start messages start0;
             tail = drop group_start messages in
         \<lparr>ft_start = group_start, ft_count = length tail, ft_tokens = count_messages_tokens env tail,
          ft_count_limit = count_limit, ft_token_limit = token_limit,
          ft_token_limited = token_limited, ft_tool_group_extended = (group_start < start0)\<rparr>))"

text \<open>\<open>select_oldest_leaf_chunk\<close>: how many rows the token loop selects, then the safe end.\<close>

fun leaf_take :: "token_env \<Rightarrow> nat \<Rightarrow> message list \<Rightarrow> nat \<Rightarrow> nat \<Rightarrow> nat" where
  "leaf_take env budget [] used selected = selected"
| "leaf_take env budget (m # ms) used selected =
     (let msg_tokens = count_message_tokens env m in
      if used + msg_tokens > budget \<and> selected > 0 then selected
      else leaf_take env budget ms (used + msg_tokens) (Suc selected))"

definition select_oldest_leaf_chunk :: "token_env \<Rightarrow> message list \<Rightarrow> nat \<Rightarrow> message list" where
  "select_oldest_leaf_chunk env candidate_raw working_leaf_chunk_tokens =
     take (tool_group_safe_end candidate_raw (leaf_take env working_leaf_chunk_tokens candidate_raw 0 0))
       candidate_raw"

section \<open>The rule the boundaries keep\<close>

text \<open>
  A cut in front of position \<open>p\<close> splits a tool group when row \<open>p\<close> is a result whose
  nearest preceding assistant turn made the call it answers, with no user, system or other
  assistant turn between them.
\<close>

definition splits_group :: "message list \<Rightarrow> nat \<Rightarrow> bool" where
  "splits_group messages p =
     (p < length messages \<and> is_role (messages ! p) ''tool'' \<and> result_id (messages ! p) \<noteq> '''' \<and>
      (\<exists>a < p. role_text (messages ! a) = ''assistant'' \<and> result_id (messages ! p) \<in> call_ids (messages ! a) \<and>
         (\<forall>j. a < j \<and> j < p \<longrightarrow> role_text (messages ! j) \<notin> {''user'', ''system'', ''assistant''})))"

section \<open>Lemmas\<close>

lemma nat_max_zero [simp]: "nat (max 0 i) = nat i"
  by (simp add: max_def)

lemma role_text_tool: "is_role m ''tool'' \<Longrightarrow> role_text m = ''tool''"
  by (simp add: is_role_def role_text_def py_or_def)

lemma group_scan_cases:
  "group_scan messages rid start i = start \<or>
   (group_scan messages rid start i < i
    \<and> role_text (messages ! group_scan messages rid start i) = ''assistant''
    \<and> rid \<in> call_ids (messages ! group_scan messages rid start i)
    \<and> (\<forall>j. group_scan messages rid start i < j \<and> j < i \<longrightarrow>
           role_text (messages ! j) \<notin> {''user'', ''system'', ''assistant''}))"
proof (induction i)
  case (Suc i)
  then show ?case by (auto simp: Let_def less_Suc_eq split: if_splits)
qed simp

lemma group_scan_finds:
  assumes "a < i" "role_text (messages ! a) = ''assistant''" "rid \<in> call_ids (messages ! a)"
    and "\<forall>j. a < j \<and> j < i \<longrightarrow> role_text (messages ! j) \<notin> {''user'', ''system'', ''assistant''}"
  shows "group_scan messages rid start i = a"
  using assms
proof (induction i)
  case (Suc i)
  then show ?case by (cases "a = i") (auto simp: Let_def)
qed simp

lemma assistant_group_start_le: "assistant_group_start messages p \<le> p"
  using group_scan_cases[of messages "result_id (messages ! p)" p p]
  by (auto simp: assistant_group_start_def Let_def)

lemma assistant_group_start_moves:
  "assistant_group_start messages p \<noteq> p \<longleftrightarrow> splits_group messages p"
proof
  assume "assistant_group_start messages p \<noteq> p"
  then show "splits_group messages p"
    using group_scan_cases[of messages "result_id (messages ! p)" p p]
    by (auto simp: assistant_group_start_def splits_group_def Let_def split: if_splits)
next
  assume "splits_group messages p"
  then show "assistant_group_start messages p \<noteq> p"
    using group_scan_finds[of _ p messages "result_id (messages ! p)" p]
    by (auto simp: assistant_group_start_def splits_group_def Let_def)
qed

lemma assistant_group_start_target:
  assumes "assistant_group_start messages p < p"
  shows "role_text (messages ! assistant_group_start messages p) = ''assistant''"
    and "\<forall>j. assistant_group_start messages p < j \<and> j < p \<longrightarrow>
           role_text (messages ! j) \<notin> {''user'', ''system'', ''assistant''}"
  using assms group_scan_cases[of messages "result_id (messages ! p)" p p]
  by (auto simp: assistant_group_start_def Let_def split: if_splits)

lemma assistant_group_start_safe: "\<not> splits_group messages (assistant_group_start messages p)"
proof (cases "assistant_group_start messages p = p")
  case True
  then show ?thesis using assistant_group_start_moves by metis
next
  case False
  then have "role_text (messages ! assistant_group_start messages p) = ''assistant''"
    using assistant_group_start_target(1) assistant_group_start_le le_neq_implies_less by blast
  then show ?thesis by (auto simp: splits_group_def dest: role_text_tool)
qed

lemma extend_results_le: "extend_results ms ids \<le> length ms"
  by (induction ms ids rule: extend_results.induct) auto

lemma extend_results_tools: "j < extend_results ms ids \<Longrightarrow> is_role (ms ! j) ''tool''"
  by (induction ms ids arbitrary: j rule: extend_results.induct) (auto simp: nth_Cons' split: if_splits)

lemma extend_results_stops:
  "extend_results ms ids < length ms \<Longrightarrow>
     \<not> (is_role (ms ! extend_results ms ids) ''tool'' \<and> result_id (ms ! extend_results ms ids) \<in> ids)"
  by (induction ms ids rule: extend_results.induct) auto

lemma extension_safe:
  assumes start: "assistant_group_start messages p = 0" and p: "0 < p" "p \<le> length messages"
  defines "q \<equiv> p + extend_results (drop p messages) (call_ids (messages ! 0))"
  shows "\<not> splits_group messages q"
proof
  assume "splits_group messages q"
  then obtain a where a: "a < q" "role_text (messages ! a) = ''assistant''"
      "result_id (messages ! q) \<in> call_ids (messages ! a)"
    and q: "q < length messages" "is_role (messages ! q) ''tool''"
    by (auto simp: splits_group_def)
  have "a = 0"
  proof (rule ccontr)
    assume "a \<noteq> 0"
    show False
    proof (cases "a < p")
      case True
      with \<open>a \<noteq> 0\<close> a(2) assistant_group_start_target(2)[of messages p] start p show False by auto
    next
      case False
      with a(1) have "a - p < extend_results (drop p messages) (call_ids (messages ! 0))"
        by (simp add: q_def)
      from extend_results_tools[OF this] False p have "is_role (messages ! a) ''tool''" by simp
      with a(2) show False by (simp add: role_text_tool)
    qed
  qed
  moreover have "extend_results (drop p messages) (call_ids (messages ! 0)) < length (drop p messages)"
    using q(1) p by (simp add: q_def)
  from extend_results_stops[OF this]
  have "\<not> (is_role (messages ! q) ''tool'' \<and> result_id (messages ! q) \<in> call_ids (messages ! 0))"
    using p by (simp add: q_def)
  ultimately show False using a(3) q(2) by simp
qed

lemma tool_group_safe_end_safe:
  "p \<le> length messages \<Longrightarrow> \<not> splits_group messages (tool_group_safe_end messages p)"
  using assistant_group_start_safe[of messages p] extension_safe[of messages p]
  by (auto simp: tool_group_safe_end_def Let_def)

lemma tool_group_safe_end_range:
  assumes "0 < p" "p \<le> length messages"
  shows "0 < tool_group_safe_end messages p \<and> tool_group_safe_end messages p \<le> length messages"
  using assms assistant_group_start_le[of messages p]
    extend_results_le[of "drop p messages" "call_ids (messages ! 0)"]
  by (auto simp: tool_group_safe_end_def Let_def)

lemma count_drop_Suc:
  "i < length ms \<Longrightarrow>
     count_messages_tokens env (drop i ms) =
       count_message_tokens env (ms ! i) + count_messages_tokens env (drop (Suc i) ms)"
  by (simp flip: Cons_nth_drop_Suc)

lemma token_scan_spec:
  assumes "token_scan env ms cs cap i used ts = (s, limited)"
    and "ms \<noteq> []" "cs \<le> ts" "cs < length ms"
    and "(i = length ms \<and> used = 0 \<and> ts = length ms - 1)
         \<or> (i < length ms \<and> ts = i \<and> used = count_messages_tokens env (drop i ms))"
    and "used \<le> cap \<or> ts = length ms - 1"
  shows "cs \<le> s \<and> s < length ms
    \<and> (count_messages_tokens env (drop s ms) \<le> cap \<or> s = length ms - 1)
    \<and> (limited \<longrightarrow> cs < s \<and> cap < count_messages_tokens env (drop (s - 1) ms))
    \<and> (\<not> limited \<longrightarrow> s = cs)"
  using assms
proof (induction i arbitrary: used ts)
  case 0
  then show ?case by auto
next
  case (Suc i)
  show ?case
  proof (cases "i < cs")
    case True
    with Suc.prems show ?thesis by auto
  next
    case False
    show ?thesis
    proof (cases "i \<noteq> length ms - 1 \<and> used + count_message_tokens env (ms ! i) > cap")
      case True
      with Suc.prems(5) have i: "Suc i < length ms" "ts = Suc i"
        "used = count_messages_tokens env (drop (Suc i) ms)" by auto
      with Suc.prems(1) False True have "s = Suc i" "limited" by (auto simp: Let_def)
      with Suc.prems(6) i True False show ?thesis
        by (auto simp: count_drop_Suc[of i])
    next
      case fits: False
      have "token_scan env ms cs cap i (used + count_message_tokens env (ms ! i)) i = (s, limited)"
        using Suc.prems(1) False fits by (auto simp: Let_def split: if_splits)
      then show ?thesis
      proof (rule Suc.IH)
        show "(i = length ms \<and> used + count_message_tokens env (ms ! i) = 0 \<and> i = length ms - 1) \<or>
              (i < length ms \<and> i = i \<and>
               used + count_message_tokens env (ms ! i) = count_messages_tokens env (drop i ms))"
          using Suc.prems(5) by (auto simp: count_drop_Suc[of i])
      qed (use Suc.prems False fits in auto)
    qed
  qed
qed


lemma leaf_take_ge: "selected \<le> leaf_take env budget ms used selected"
  by (induction env budget ms used selected rule: leaf_take.induct)
     (auto simp: Let_def split: if_splits dest: Suc_leD)

lemma leaf_take_spec:
  "leaf_take env budget ms used n - n \<le> length ms
   \<and> (used + count_messages_tokens env (take (leaf_take env budget ms used n - n) ms) \<le> budget
      \<or> leaf_take env budget ms used n = n \<or> leaf_take env budget ms used n \<le> 1)"
proof (induction env budget ms used n rule: leaf_take.induct)
  case (2 env budget m ms used n)
  show ?case
  proof (cases "used + count_message_tokens env m > budget \<and> n > 0")
    case True
    then show ?thesis by simp
  next
    case False
    let ?r = "leaf_take env budget ms (used + count_message_tokens env m) (Suc n)"
    have eq: "leaf_take env budget (m # ms) used n = ?r" using False by (auto simp: Let_def)
    have ge: "Suc n \<le> ?r" by (rule leaf_take_ge)
    then have "take (?r - n) (m # ms) = m # take (?r - Suc n) ms"
      by (simp add: take_Cons' Suc_diff_le)
    with 2[OF refl False] ge False show ?thesis
      unfolding eq by auto
  qed
qed simp

lemma leaf_take_pos: "ms \<noteq> [] \<Longrightarrow> 0 < leaf_take env budget ms used 0"
  using leaf_take_ge[of "Suc 0" env budget "tl ms"] by (cases ms) (auto simp: Let_def Suc_le_eq)

section \<open>Properties\<close>

text \<open>
  The fresh tail never starts inside a tool group, its count and token figures are those of the
  suffix it names, and it only ever moves back from the limit-derived start.
\<close>

theorem fresh_tail_never_splits:
  "\<not> splits_group ms (ft_start (resolve_fresh_tail_boundary env ms c t))
   \<and> ft_count (resolve_fresh_tail_boundary env ms c t) =
       length ms - ft_start (resolve_fresh_tail_boundary env ms c t)
   \<and> ft_tokens (resolve_fresh_tail_boundary env ms c t) =
       count_messages_tokens env (drop (ft_start (resolve_fresh_tail_boundary env ms c t)) ms)"
proof (cases "ms = []")
  case True
  then show ?thesis by (simp add: resolve_fresh_tail_boundary_def splits_group_def)
next
  case False
  then show ?thesis
    by (simp add: resolve_fresh_tail_boundary_def Let_def assistant_group_start_safe split: prod.splits)
qed

text \<open>
  Unless tool-group integrity moved the start, the tail respects both limits: at most the
  configured number of rows (one row at least when a token cap is set), and at most the token cap
  unless it is the newest row alone.  With a token cap the newest row is always kept, and when the
  tail is reported as token limited one more row would exceed the cap.
\<close>

theorem fresh_tail_limits:
  assumes "ms \<noteq> []" and "\<not> ft_tool_group_extended (resolve_fresh_tail_boundary env ms c t)"
  shows "ft_count (resolve_fresh_tail_boundary env ms c t) \<le> (if t > 0 then max 1 (nat c) else nat c)
    \<and> (t > 0 \<longrightarrow>
         1 \<le> ft_count (resolve_fresh_tail_boundary env ms c t)
       \<and> (ft_tokens (resolve_fresh_tail_boundary env ms c t) \<le> nat t
            \<or> ft_count (resolve_fresh_tail_boundary env ms c t) = 1)
       \<and> (ft_token_limited (resolve_fresh_tail_boundary env ms c t) \<longrightarrow>
            nat t < count_messages_tokens env
              (drop (ft_start (resolve_fresh_tail_boundary env ms c t) - 1) ms)))"
proof (cases "t > 0")
  case True
  define cs where "cs = length ms - max 1 (nat c)"
  obtain s limited where scan: "token_scan env ms cs (nat t) (length ms) 0 (length ms - 1) = (s, limited)"
    by (metis surj_pair)
  have spec: "cs \<le> s \<and> s < length ms
    \<and> (count_messages_tokens env (drop s ms) \<le> nat t \<or> s = length ms - 1)
    \<and> (limited \<longrightarrow> cs < s \<and> nat t < count_messages_tokens env (drop (s - 1) ms))
    \<and> (\<not> limited \<longrightarrow> s = cs)"
    by (rule token_scan_spec[OF scan]) (use assms(1) in \<open>auto simp: cs_def\<close>)
  have b: "resolve_fresh_tail_boundary env ms c t =
      \<lparr>ft_start = assistant_group_start ms s, ft_count = length (drop (assistant_group_start ms s) ms),
       ft_tokens = count_messages_tokens env (drop (assistant_group_start ms s) ms),
       ft_count_limit = nat c, ft_token_limit = nat t, ft_token_limited = limited,
       ft_tool_group_extended = (assistant_group_start ms s < s)\<rparr>"
    using assms(1) True scan
    by (simp add: resolve_fresh_tail_boundary_def Let_def cs_def split: if_splits)
  with assms(2) assistant_group_start_le[of ms s] have s: "assistant_group_start ms s = s" by simp
  have rows: "length ms - s \<le> max 1 (nat c)" "1 \<le> length ms - s"
    using spec unfolding cs_def by linarith+
  have toks: "count_messages_tokens env (drop s ms) \<le> nat t \<or> length ms - s = 1"
    using spec by (metis diff_diff_cancel diff_less_mono2 gr_implies_not0 less_one linorder_not_le rows(2))
  from rows toks spec True show ?thesis unfolding b s by simp
next
  case False
  have "assistant_group_start ms (length ms - nat c) = length ms - nat c"
    using assms False assistant_group_start_le[of ms "length ms - nat c"]
    by (simp add: resolve_fresh_tail_boundary_def Let_def)
  with assms(1) False show ?thesis
    by (simp add: resolve_fresh_tail_boundary_def Let_def)
qed

theorem fresh_tail_limits_witness:
  "ft_count (resolve_fresh_tail_boundary \<lparr>encoder = None, host_image_cost = None\<rparr>
     [[(''role'', PStr ''user'')], [(''role'', PStr ''user'')]] 5 6) \<le> 5
   \<and> ft_token_limited (resolve_fresh_tail_boundary \<lparr>encoder = None, host_image_cost = None\<rparr>
     [[(''role'', PStr ''user'')], [(''role'', PStr ''user'')]] 5 6)"
proof -
  let ?b = "resolve_fresh_tail_boundary \<lparr>encoder = None, host_image_cost = None\<rparr>
     [[(''role'', PStr ''user'')], [(''role'', PStr ''user'')]] 5 6"
  have l: "\<not> ft_tool_group_extended ?b" "ft_token_limited ?b" by code_simp+
  show ?thesis using l(2) fresh_tail_limits[OF _ l(1)] by simp
qed

text \<open>
  \<open>tool_group_safe_end\<close> never leaves a prefix end inside a tool group, never empties a
  non-empty prefix and never runs past the list.
\<close>

theorem tool_group_safe_end_correct:
  assumes "0 < p" and "p \<le> length messages"
  shows "\<not> splits_group messages (tool_group_safe_end messages p)
    \<and> 0 < tool_group_safe_end messages p \<and> tool_group_safe_end messages p \<le> length messages"
  using assms tool_group_safe_end_safe tool_group_safe_end_range by blast

theorem tool_group_safe_end_witness:
  "\<not> splits_group [[(''role'', PStr ''user'')], [(''role'', PStr ''user'')]]
      (tool_group_safe_end [[(''role'', PStr ''user'')], [(''role'', PStr ''user'')]] 1)"
  using tool_group_safe_end_correct[of 1 "[[(''role'', PStr ''user'')], [(''role'', PStr ''user'')]]"]
  by simp

text \<open>
  The oldest leaf chunk of a non-empty candidate list is a non-empty prefix that does not end
  inside a tool group, and unless the group rule extended it, its tokens are within the working
  budget or it is a single row.
\<close>

theorem select_oldest_leaf_chunk_correct:
  assumes "ms \<noteq> []"
  shows "\<exists>k. select_oldest_leaf_chunk env ms budget = take k ms \<and> 0 < k \<and> k \<le> length ms
    \<and> \<not> splits_group ms k
    \<and> (k \<le> leaf_take env budget ms 0 0 \<longrightarrow>
         count_messages_tokens env (take k ms) \<le> budget \<or> k = 1)"
proof -
  let ?n = "leaf_take env budget ms 0 0"
  let ?k = "tool_group_safe_end ms ?n"
  have n: "0 < ?n" "?n \<le> length ms"
    using leaf_take_pos[OF assms] leaf_take_spec[of env budget ms 0 0] by auto
  have "count_messages_tokens env (take ?k ms) \<le> budget \<or> ?k = 1" if "?k \<le> ?n"
  proof (cases "?n \<le> 1")
    case True
    with that tool_group_safe_end_range[OF n] show ?thesis by simp
  next
    case False
    then have "count_messages_tokens env (take ?n ms) \<le> budget"
      using leaf_take_spec[of env budget ms 0 0] by auto
    moreover have "take ?n ms = take ?k ms @ take (?n - ?k) (drop ?k ms)"
      using that by (metis le_add_diff_inverse take_add)
    ultimately show ?thesis by simp
  qed
  then show ?thesis
    using tool_group_safe_end_range[OF n] tool_group_safe_end_safe[OF n(2)]
    by (auto simp: select_oldest_leaf_chunk_def)
qed

theorem select_oldest_leaf_chunk_witness:
  "\<exists>k. select_oldest_leaf_chunk \<lparr>encoder = None, host_image_cost = None\<rparr>
      [[(''role'', PStr ''user'')]] 10 = take k [[(''role'', PStr ''user'')]] \<and> 0 < k"
  using select_oldest_leaf_chunk_correct[of "[[(''role'', PStr ''user'')]]"
      "\<lparr>encoder = None, host_image_cost = None\<rparr>" 10]
  by blast

end
