(* ===== verification/Assembly_Plan.thy ===== *)
theory Assembly_Plan
  imports Fresh_Tail "HOL-Library.Product_Lexorder"
begin

text \<open>
  Budgeting and selection of the assembled context: \<^verbatim>\<open>src/assembly_plan.py\<close>.

  The token counters, the stub and the eviction policy are arguments, as in the source.
  \<open>strip_injected_context_blocks\<close> (\<^verbatim>\<open>src/extraction.py\<close>) is an argument
  \<open>strip_ctx\<close> too: the statements hold for every such function.  \<open>kept\<close> of
  \<open>tail_loop\<close> is the source's \<open>kept_reversed\<close> read from its end, so the rows it names
  stand in source order.
\<close>

section \<open>The prefix budget\<close>

definition default_prefix_budget ::
  "int \<Rightarrow> int \<Rightarrow> int \<Rightarrow> int \<Rightarrow> int \<Rightarrow> int option \<Rightarrow> bool \<Rightarrow> bool \<Rightarrow> bool \<Rightarrow> int" where
  "default_prefix_budget budget_ceiling overhead leading_tokens tail_tokens repaired_tail_tokens
     recall_budget_tokens proactive_recall_enabled embeddings_enabled survival_fit =
     max (budget_ceiling - overhead - leading_tokens - max tail_tokens repaired_tail_tokens
          - (if proactive_recall_enabled \<and> embeddings_enabled
             then max 0 (or_zero recall_budget_tokens) else 0))
         (if survival_fit then budget_ceiling div 4 else 0)"

section \<open>Prefix selection\<close>

record prefix_budget_facts =
  part_keys :: "(int \<times> int option) list"
  summary_role :: string
  summary_budget :: "int option"
  assembly_cap :: "int option"
  survival_fit :: bool

record prefix_selection =
  kept_indexes :: "nat list"
  selected_parts :: "string list"

definition PART_SEPARATOR :: string where
  "PART_SEPARATOR = [CHR 0x0A, CHR 0x0A] @ ''---'' @ [CHR 0x0A, CHR 0x0A]"

definition summary_msg :: "string \<Rightarrow> string \<Rightarrow> message" where
  "summary_msg role content = [(''role'', PStr role), (''content'', PStr content)]"

text \<open>The text of one part inside a candidate: an over-budget objective part is stripped.\<close>

definition candidate_part ::
  "(message \<Rightarrow> nat) \<Rightarrow> (string \<Rightarrow> string) \<Rightarrow> prefix_budget_facts \<Rightarrow> int \<Rightarrow> string list \<Rightarrow> nat \<Rightarrow> string" where
  "candidate_part cnt strip_ctx facts budget parts i =
     (if part_keys facts ! i = (-1, None)
         \<and> int (cnt (summary_msg (summary_role facts) (parts ! i))) > budget
      then strip_ctx (parts ! i) else parts ! i)"

definition candidate_msg ::
  "(message \<Rightarrow> nat) \<Rightarrow> (string \<Rightarrow> string) \<Rightarrow> prefix_budget_facts \<Rightarrow> int \<Rightarrow> string list \<Rightarrow> nat list \<Rightarrow> message" where
  "candidate_msg cnt strip_ctx facts budget parts indexes =
     summary_msg (summary_role facts)
       (join PART_SEPARATOR (map (candidate_part cnt strip_ctx facts budget parts) indexes))"

fun greedy_keep :: "(nat list \<Rightarrow> bool) \<Rightarrow> nat list \<Rightarrow> nat list \<Rightarrow> nat list" where
  "greedy_keep fits kept [] = kept"
| "greedy_keep fits kept (index # rest) =
     (if fits (sort (kept @ [index])) then greedy_keep fits (kept @ [index]) rest
      else greedy_keep fits kept rest)"

definition anchor_exempt ::
  "(message \<Rightarrow> nat) \<Rightarrow> (string \<Rightarrow> string) \<Rightarrow> prefix_budget_facts \<Rightarrow> string list \<Rightarrow> bool" where
  "anchor_exempt cnt strip_ctx facts parts =
     (case summary_budget facts of
        None \<Rightarrow> False
      | Some budget \<Rightarrow>
          assembly_cap facts = None \<and> survival_fit facts \<and> parts \<noteq> []
          \<and> part_keys facts ! 0 = (-1, None)
          \<and> int (cnt (summary_msg (summary_role facts) (strip_ctx (parts ! 0)))) > budget)"

definition selection_order :: "prefix_budget_facts \<Rightarrow> nat \<Rightarrow> nat list" where
  "selection_order facts n = sort_key (\<lambda>i. (fst (part_keys facts ! i), - int i)) [0..<n]"

definition select_prefix ::
  "(message \<Rightarrow> nat) \<Rightarrow> (string \<Rightarrow> string) \<Rightarrow> string list \<Rightarrow> prefix_budget_facts \<Rightarrow> prefix_selection" where
  "select_prefix cnt strip_ctx parts facts =
     (if anchor_exempt cnt strip_ctx facts parts
      then \<lparr>kept_indexes = [0], selected_parts = [strip_ctx (parts ! 0)]\<rparr>
      else (case summary_budget facts of
              None \<Rightarrow> \<lparr>kept_indexes = [0..<length parts], selected_parts = parts\<rparr>
            | Some budget \<Rightarrow>
                (let kept = sort (greedy_keep
                       (\<lambda>indexes. int (cnt (candidate_msg cnt strip_ctx facts budget parts indexes)) \<le> budget)
                       [] (selection_order facts (length parts)))
                 in \<lparr>kept_indexes = kept, selected_parts = map (nth parts) kept\<rparr>)))"

section \<open>Tail selection\<close>

record tail_selection =
  ts_indexes :: "nat list"
  charged_tokens :: int

fun missing_ids :: "string list \<Rightarrow> string list \<Rightarrow> string list" where
  "missing_ids [] unmatched_results = []"
| "missing_ids (call_id # ids) unmatched_results =
     (if call_id = '''' then missing_ids ids unmatched_results
      else if call_id \<in> set unmatched_results then missing_ids ids (remove1 call_id unmatched_results)
      else call_id # missing_ids ids unmatched_results)"

definition own_results :: "message list \<Rightarrow> nat list \<Rightarrow> nat list" where
  "own_results rows kept = takeWhile (\<lambda>i. is_role (rows ! i) ''tool'') kept"

definition opens_group :: "message \<Rightarrow> bool" where
  "opens_group m = (is_role m ''assistant'' \<and> truthy (pget m ''tool_calls''))"

text \<open>\<open>msg_tokens\<close> of the source: the row, and the stubs its unanswered calls will need.\<close>

definition row_charge ::
  "(message \<Rightarrow> nat) \<Rightarrow> (message list \<Rightarrow> nat) \<Rightarrow> (string \<Rightarrow> message) \<Rightarrow> message list \<Rightarrow> nat list \<Rightarrow> message \<Rightarrow> nat" where
  "row_charge cnt cnts stub rows kept m =
     cnt m +
     (if opens_group m
      then (let missing = missing_ids (map tool_call_id (tool_calls m))
                            (map (\<lambda>i. result_id (rows ! i)) (own_results rows kept))
            in if missing \<noteq> [] then cnts (map stub missing) else 0)
      else 0)"

fun tail_loop ::
  "(message \<Rightarrow> nat) \<Rightarrow> (message list \<Rightarrow> nat) \<Rightarrow> (string \<Rightarrow> message) \<Rightarrow> (message \<Rightarrow> bool) \<Rightarrow>
   message list \<Rightarrow> int \<Rightarrow> int \<Rightarrow> nat \<Rightarrow> nat list \<Rightarrow> int \<Rightarrow> bool \<Rightarrow> nat list \<times> int" where
  "tail_loop cnt cnts stub droppable rows cap anchor_cost 0 kept used gap = (kept, used)"
| "tail_loop cnt cnts stub droppable rows cap anchor_cost (Suc index) kept used gap =
     (let msg = rows ! index; msg_tokens = int (row_charge cnt cnts stub rows kept msg) in
      if anchor_cost + used + msg_tokens > cap
      then (let own = (if opens_group msg then own_results rows kept else []);
                used' = used - int (sum_list (map (\<lambda>i. cnt (rows ! i)) own));
                kept' = drop (length own) kept
            in if droppable msg
               then tail_loop cnt cnts stub droppable rows cap anchor_cost index kept' used' True
               else (kept', used'))
      else if gap then (kept, used)
      else tail_loop cnt cnts stub droppable rows cap anchor_cost index (index # kept) (used + msg_tokens) gap)"

definition select_tail ::
  "(message \<Rightarrow> nat) \<Rightarrow> (message list \<Rightarrow> nat) \<Rightarrow> (string \<Rightarrow> message) \<Rightarrow> (message \<Rightarrow> bool) \<Rightarrow>
   message list \<Rightarrow> int \<Rightarrow> int \<Rightarrow> tail_selection" where
  "select_tail cnt cnts stub droppable rows cap anchor_cost =
     (case tail_loop cnt cnts stub droppable rows cap anchor_cost (length rows) [] 0 False of
        (kept, used) \<Rightarrow> \<lparr>ts_indexes = kept, charged_tokens = used\<rparr>)"

text \<open>The engine's eviction policy.\<close>

definition PRESERVED_TODO_CONTEXT_PREFIX :: string where
  "PRESERVED_TODO_CONTEXT_PREFIX = ''[Your active task list was preserved across context compression]''"

definition PRESERVED_OBJECTIVE_CONTEXT_PREFIX :: string where
  "PRESERVED_OBJECTIVE_CONTEXT_PREFIX = ''[Current user objective preserved from compacted history]''"

definition is_budget_droppable_tail_message :: "message \<Rightarrow> bool" where
  "is_budget_droppable_tail_message m =
     ((is_role m ''assistant'' \<or> is_role m ''tool'')
      \<and> (let content = (case normalize_content_value (pget m ''content'') of None \<Rightarrow> [] | Some s \<Rightarrow> s)
         in \<not> is_substring PRESERVED_TODO_CONTEXT_PREFIX content
            \<and> \<not> is_substring PRESERVED_OBJECTIVE_CONTEXT_PREFIX content))"

section \<open>Lemmas on prefix selection\<close>

lemma greedy_keep_mono: "set kept \<subseteq> set (greedy_keep fits kept order)"
  by (induction fits kept order rule: greedy_keep.induct) auto

lemma greedy_keep_fits:
  "kept = [] \<or> fits (sort kept) \<Longrightarrow>
     greedy_keep fits kept order = [] \<or> fits (sort (greedy_keep fits kept order))"
  by (induction fits kept order rule: greedy_keep.induct) auto

lemma greedy_keep_set:
  "distinct (kept @ order) \<Longrightarrow>
     distinct (greedy_keep fits kept order) \<and> set (greedy_keep fits kept order) \<subseteq> set kept \<union> set order"
  by (induction fits kept order rule: greedy_keep.induct) auto

text \<open>An index the greedy pass leaves out did not fit beside what had been kept before it.\<close>

lemma greedy_keep_rejects:
  "distinct (kept @ order) \<Longrightarrow> i \<in> set order \<Longrightarrow> i \<notin> set (greedy_keep fits kept order) \<Longrightarrow>
     \<exists>before after. order = before @ i # after
       \<and> \<not> fits (sort (greedy_keep fits kept before @ [i]))"
proof (induction fits kept order rule: greedy_keep.induct)
  case (2 fits kept index rest)
  show ?case
  proof (cases "i = index")
    case True
    have "\<not> fits (sort (kept @ [index]))"
      using "2.prems"(3) True greedy_keep_mono[of "kept @ [index]" fits rest] by auto
    then show ?thesis using True by (intro exI[of _ "[]"] exI[of _ rest]) simp
  next
    case False
    let ?k = "if fits (sort (kept @ [index])) then kept @ [index] else kept"
    have "\<exists>before after. rest = before @ i # after \<and> \<not> fits (sort (greedy_keep fits ?k before @ [i]))"
      using "2.IH" "2.prems" False by (auto split: if_splits)
    then obtain before after where "rest = before @ i # after"
      "\<not> fits (sort (greedy_keep fits ?k before @ [i]))" by blast
    then show ?thesis
      by (intro exI[of _ "index # before"] exI[of _ after]) (auto split: if_splits)
  qed
qed simp

lemma selection_order_props [simp]:
  "distinct (selection_order facts n)" "set (selection_order facts n) = {0..<n}"
  by (simp_all add: selection_order_def)

section \<open>Lemmas on tail selection\<close>

text \<open>What the shell promises of the two counters it passes.\<close>

locale token_counter =
  fixes cnt :: "message \<Rightarrow> nat"
    and cnts :: "message list \<Rightarrow> nat"
  assumes cnts_sum: "cnts ms = sum_list (map cnt ms)"

interpretation counter: token_counter "count_message_tokens env" "count_messages_tokens env" for env
  by unfold_locales (simp add: count_messages_tokens_def)

lemma own_results_upt:
  "own_results rows [k..<n] = [k..<k + length (own_results rows [k..<n])]"
proof -
  have "own_results rows [k..<n] = take (length (own_results rows [k..<n])) [k..<n]"
    unfolding own_results_def by (rule takeWhile_eq_take)
  moreover have "length (own_results rows [k..<n]) \<le> n - k"
    unfolding own_results_def by (metis length_takeWhile_le length_upt)
  ultimately show ?thesis by (metis add.commute le_diff_conv2 take_upt nat_le_linear diff_is_0_eq
        le_zero_eq list.size(3) upt_conv_Nil add_0)
qed

lemma row_charge_tool: "is_role m ''tool'' \<Longrightarrow> row_charge cnt cnts stub rows kept m = cnt m"
  by (simp add: row_charge_def opens_group_def)

definition index_charge ::
  "(message \<Rightarrow> nat) \<Rightarrow> (message list \<Rightarrow> nat) \<Rightarrow> (string \<Rightarrow> message) \<Rightarrow> message list \<Rightarrow> nat \<Rightarrow> int" where
  "index_charge cnt cnts stub rows i =
     int (row_charge cnt cnts stub rows [Suc i..<length rows] (rows ! i))"

lemma own_results_charge:
  assumes "own = own_results rows [k..<length rows]"
  shows "(\<Sum>i\<leftarrow>[k..<length rows]. index_charge cnt cnts stub rows i) - int (\<Sum>i\<leftarrow>own. cnt (rows ! i)) =
    (\<Sum>i\<leftarrow>[k + length own..<length rows]. index_charge cnt cnts stub rows i)"
    and "drop (length own) [k..<length rows] = [k + length own..<length rows]"
proof -
  have "\<forall>i \<in> set own. is_role (rows ! i) ''tool''"
    unfolding assms own_results_def by (auto dest: set_takeWhileD)
  then have "(\<Sum>i\<leftarrow>own. index_charge cnt cnts stub rows i) = (\<Sum>i\<leftarrow>own. int (cnt (rows ! i)))"
    by (induction own) (simp_all add: index_charge_def row_charge_tool)
  also have "\<dots> = int (\<Sum>i\<leftarrow>own. cnt (rows ! i))"
    by (induction own) simp_all
  finally have own: "(\<Sum>i\<leftarrow>own. index_charge cnt cnts stub rows i) = int (\<Sum>i\<leftarrow>own. cnt (rows ! i))" .
  have "own = take (length own) [k..<length rows]"
    unfolding assms own_results_def by (rule takeWhile_eq_take)
  then have split: "[k..<length rows] = own @ drop (length own) [k..<length rows]"
    by (metis append_take_drop_id)
  show d: "drop (length own) [k..<length rows] = [k + length own..<length rows]"
    by (rule drop_upt)
  show "(\<Sum>i\<leftarrow>[k..<length rows]. index_charge cnt cnts stub rows i) - int (\<Sum>i\<leftarrow>own. cnt (rows ! i)) =
    (\<Sum>i\<leftarrow>[k + length own..<length rows]. index_charge cnt cnts stub rows i)"
    by (subst split) (simp add: own d)
qed

lemma tail_loop_spec:
  assumes "tail_loop cnt cnts stub droppable rows cap anchor i [k..<length rows] used gap = (kept, final)"
    and "i \<le> k" "\<not> gap \<longrightarrow> k = i" "k \<le> length rows" "anchor \<le> cap \<longrightarrow> anchor + used \<le> cap"
    and "used = (\<Sum>j\<leftarrow>[k..<length rows]. index_charge cnt cnts stub rows j)"
  shows "\<exists>k' \<le> length rows. kept = [k'..<length rows]
    \<and> final = (\<Sum>j\<leftarrow>[k'..<length rows]. index_charge cnt cnts stub rows j)
    \<and> (anchor \<le> cap \<longrightarrow> anchor + final \<le> cap)"
  using assms
proof (induction i arbitrary: k used gap)
  case 0
  then show ?case by auto
next
  case (Suc index)
  let ?msg = "rows ! index"
  let ?c = "int (row_charge cnt cnts stub rows [k..<length rows] ?msg)"
  define own where "own = (if opens_group ?msg then own_results rows [k..<length rows] else [])"
  have len: "k + length own \<le> length rows"
    unfolding own_def own_results_def
    using Suc.prems(4) length_takeWhile_le[of "\<lambda>i. is_role (rows ! i) ''tool''" "[k..<length rows]"]
    by auto
  have trim: "(\<Sum>i\<leftarrow>[k..<length rows]. index_charge cnt cnts stub rows i) - int (\<Sum>i\<leftarrow>own. cnt (rows ! i)) =
      (\<Sum>i\<leftarrow>[k + length own..<length rows]. index_charge cnt cnts stub rows i)"
    "drop (length own) [k..<length rows] = [k + length own..<length rows]"
    using own_results_charge(1)[OF refl, where k = k and rows = rows and cnt = cnt and cnts = cnts and stub = stub]
      own_results_charge(2)[OF refl, where k = k and rows = rows] unfolding own_def by (cases "opens_group ?msg") simp_all
  have le: "used - int (\<Sum>i\<leftarrow>own. cnt (rows ! i)) \<le> used" by simp
  show ?case
  proof (cases "anchor + used + ?c > cap")
    case True
    show ?thesis
    proof (cases "droppable ?msg")
      case drop: True
      have "tail_loop cnt cnts stub droppable rows cap anchor index [k + length own..<length rows]
          (used - int (\<Sum>i\<leftarrow>own. cnt (rows ! i))) True = (kept, final)"
        using Suc.prems(1) True drop unfolding own_def[symmetric] by (simp add: Let_def trim(2) own_def)
      then show ?thesis
        by (rule Suc.IH) (use Suc.prems len trim(1) le in auto)
    next
      case False
      with Suc.prems(1) True have "kept = [k + length own..<length rows]"
        "final = used - int (\<Sum>i\<leftarrow>own. cnt (rows ! i))"
        by (simp_all add: Let_def trim(2) own_def)
      with len trim(1) Suc.prems(5,6) le show ?thesis
        by (intro exI[of _ "k + length own"]) auto
    qed
  next
    case fits: False
    show ?thesis
    proof (cases gap)
      case True
      with Suc.prems fits show ?thesis by (auto simp: Let_def)
    next
      case False
      with Suc.prems(3) have k: "k = Suc index" by simp
      have cons: "[index..<length rows] = index # [k..<length rows]"
        using k Suc.prems(4) by (simp add: upt_conv_Cons)
      have "tail_loop cnt cnts stub droppable rows cap anchor index [index..<length rows] (used + ?c) gap
          = (kept, final)"
        using Suc.prems(1) fits False by (simp add: Let_def cons)
      then show ?thesis
        by (rule Suc.IH) (use Suc.prems fits False k in \<open>auto simp: cons index_charge_def\<close>)
    qed
  qed
qed

lemma select_tail_suffix:
  "\<exists>k \<le> length rows. ts_indexes (select_tail cnt cnts stub droppable rows cap anchor) = [k..<length rows]
    \<and> charged_tokens (select_tail cnt cnts stub droppable rows cap anchor) =
        (\<Sum>j\<leftarrow>[k..<length rows]. index_charge cnt cnts stub rows j)
    \<and> (anchor \<le> cap \<longrightarrow>
        anchor + charged_tokens (select_tail cnt cnts stub droppable rows cap anchor) \<le> cap)"
proof -
  obtain kept final where
    t: "tail_loop cnt cnts stub droppable rows cap anchor (length rows) [] 0 False = (kept, final)"
    by (metis surj_pair)
  then have "tail_loop cnt cnts stub droppable rows cap anchor (length rows)
      [length rows..<length rows] 0 False = (kept, final)" by simp
  from tail_loop_spec[OF this] show ?thesis by (simp add: select_tail_def t)
qed

section \<open>What the sanitizer makes of a selected tail\<close>

abbreviation is_tool :: "message \<Rightarrow> bool" where
  "is_tool m \<equiv> is_role m ''tool''"

text \<open>
  The shape of rows sanitized without stub insertion: behind each assistant stand the results of
  its first calls, in call order, and no other tool row occurs.
\<close>

function prefix_paired :: "message list \<Rightarrow> bool" where
  "prefix_paired [] = True"
| "prefix_paired (m # ms) =
     (if is_tool m then False
      else if is_role m ''assistant''
      then map result_id (takeWhile is_tool ms) = take (length (takeWhile is_tool ms)) (expected_ids m)
           \<and> prefix_paired (dropWhile is_tool ms)
      else prefix_paired ms)"
  by pat_completeness auto
termination
  by (relation "measure length") (auto simp: less_Suc_eq_le length_dropWhile_le)

fun tail_cost :: "(message \<Rightarrow> nat) \<Rightarrow> (string \<Rightarrow> message) \<Rightarrow> message list \<Rightarrow> nat" where
  "tail_cost cnt stub [] = 0"
| "tail_cost cnt stub (m # ms) = cnt m
     + (if opens_group m
        then sum_list (map (cnt \<circ> stub)
               (missing_ids (map tool_call_id (tool_calls m)) (map result_id (takeWhile is_tool ms))))
        else 0)
     + tail_cost cnt stub ms"

lemma prefix_paired_hd: "prefix_paired ms \<Longrightarrow> dropWhile is_tool ms = ms"
  by (cases ms) auto

lemma prefix_paired_drop:
  "prefix_paired (dropWhile is_tool rows) \<Longrightarrow> prefix_paired (dropWhile is_tool (drop k rows))"
proof (induction rows arbitrary: k)
  case (Cons m ms)
  show ?case
  proof (cases k)
    case 0
    with Cons.prems show ?thesis by simp
  next
    case (Suc k')
    have "prefix_paired (dropWhile is_tool ms)"
      using Cons.prems by (auto simp: prefix_paired_hd split: if_splits)
    with Cons.IH[of k'] Suc show ?thesis by simp
  qed
qed simp

lemma missing_ids_prefix:
  "missing_ids cs (take k (filter (\<lambda>i. i \<noteq> []) cs)) = drop k (filter (\<lambda>i. i \<noteq> []) cs)"
proof (induction cs arbitrary: k)
  case (Cons c cs)
  show ?case
  proof (cases k)
    case 0
    have "missing_ids cs [] = filter (\<lambda>i. i \<noteq> []) cs" using Cons.IH[of 0] by simp
    with 0 show ?thesis by simp
  qed (use Cons.IH in auto)
qed simp

lemma take_result_no_tool: "dropWhile is_tool ms = ms \<Longrightarrow> take_result eid ms = (None, ms, 0)"
  unfolding dropWhile_eq_self_iff by (cases ms) auto

lemma answer_calls_no_tool:
  "dropWhile is_tool ms = ms \<Longrightarrow>
     answer_calls stub ins eids ms = ((if ins then map stub eids else []), ms, 0, (if ins then length eids else 0))"
  by (induction eids) (auto simp: take_result_no_tool)

lemma answer_calls_prefix:
  assumes "list_all is_tool rs" "map result_id rs = take (length rs) eids" "dropWhile is_tool rest = rest"
  shows "answer_calls stub True eids (rs @ rest) =
    (rs @ map stub (drop (length rs) eids), rest, 0, length eids - length rs)"
  using assms
proof (induction rs arbitrary: eids)
  case Nil
  then show ?case by (simp add: answer_calls_no_tool)
next
  case (Cons r rs)
  then obtain e es where "eids = e # es" by (cases eids) auto
  with Cons show ?case by auto
qed

lemma answer_calls_False_prefix:
  "answer_calls stub False eids ms = (rows, rest, d, n) \<Longrightarrow>
     list_all is_tool rows \<and> map result_id rows = take (length rows) eids"
proof (induction eids arbitrary: ms rows rest d n)
  case (Cons eid eids)
  obtain r rest1 d1 where t: "take_result eid ms = (r, rest1, d1)" by (metis prod_cases3)
  obtain rows2 rest2 d2 n2 where a: "answer_calls stub False eids rest1 = (rows2, rest2, d2, n2)"
    by (metis prod_cases4)
  show ?case
  proof (cases r)
    case None
    have "dropWhile is_tool rest1 = rest1"
      using t None by (induction eid ms arbitrary: d1 rule: take_result.induct)
        (auto split: if_splits prod.splits)
    with Cons.prems t a None show ?thesis by (simp add: answer_calls_no_tool)
  next
    case (Some m)
    with Cons.prems Cons.IH[OF a] t a take_result_Some[of eid ms m rest1 d1] show ?thesis by auto
  qed
qed simp

lemma drop_tools_dropWhile: "fst (drop_tools ms) = dropWhile is_tool ms"
  by (induction ms) (auto split: prod.splits)

lemma repair_False_prefix_paired: "prefix_paired (rr_rows (repair_tool_pairs stub False ms))"
proof (induction "length ms" arbitrary: ms rule: less_induct)
  case less
  show ?case
  proof (cases ms)
    case (Cons m ns)
    obtain rows rest d n where a: "answer_calls stub False (expected_ids m) ns = (rows, rest, d, n)"
      by (metis prod_cases4)
    obtain rest' d' where t: "drop_tools rest = (rest', d')" by (metis surj_pair)
    have "length rest' < length ms"
      using answer_calls_le[OF a] drop_tools_length[OF t] Cons by simp
    then have ih: "prefix_paired (rr_rows (repair_tool_pairs stub False rest'))" by (rule less)
    have rows: "list_all is_tool rows" "map result_id rows = take (length rows) (expected_ids m)"
      using answer_calls_False_prefix[OF a] by auto
    let ?R = "rr_rows (repair_tool_pairs stub False rest')"
    have "takeWhile is_tool (rows @ ?R) = rows" "dropWhile is_tool (rows @ ?R) = ?R"
      using rows(1) prefix_paired_hd[OF ih]
      by (auto simp: list_all_iff takeWhile_append dropWhile_append takeWhile_eq_Nil_iff dropWhile_eq_self_iff)
    with Cons less[of ns] a t ih rows show ?thesis by (auto simp: Let_def)
  qed simp
qed

lemma tail_cost_tools:
  "list_all is_tool rs \<Longrightarrow> tail_cost cnt stub (rs @ rest) = sum_list (map cnt rs) + tail_cost cnt stub rest"
  by (induction rs) (auto simp: opens_group_def)

lemma tool_calls_closed: "is_role m ''assistant'' \<Longrightarrow> \<not> opens_group m \<Longrightarrow> expected_ids m = []"
  by (cases "pget m ''tool_calls''")
     (auto simp: opens_group_def expected_ids_def tool_calls_def)

lemma repaired_tail_cost:
  "prefix_paired (dropWhile is_tool ms) \<Longrightarrow>
     sum_list (map cnt (rr_rows (repair_tool_pairs stub True ms))) \<le> tail_cost cnt stub ms"
proof (induction "length ms" arbitrary: ms rule: less_induct)
  case less
  show ?case
  proof (cases ms)
    case (Cons m ns)
    have ns: "prefix_paired (dropWhile is_tool ns)"
      using prefix_paired_drop[OF less.prems, of 1] Cons by simp
    then have ih: "sum_list (map cnt (rr_rows (repair_tool_pairs stub True ns))) \<le> tail_cost cnt stub ns"
      by (intro less.hyps) (simp_all add: Cons)
    show ?thesis
    proof (cases "is_role m ''assistant''")
      case True
      define rs rest where "rs = takeWhile is_tool ns" and "rest = dropWhile is_tool ns"
      have split: "ns = rs @ rest" and rest: "dropWhile is_tool rest = rest" and rs: "list_all is_tool rs"
        by (auto simp: rs_def rest_def list_all_iff dest: set_takeWhileD)
      have ids: "map result_id rs = take (length rs) (expected_ids m)"
        using less.prems Cons True by (auto simp: rs_def)
      have "fst (drop_tools rest) = rest" "snd (drop_tools rest) = snd (drop_tools rest)"
        using rest by (simp_all add: drop_tools_dropWhile)
      then obtain d' where t: "drop_tools rest = (rest, d')" by (metis prod.collapse)
      have "prefix_paired (dropWhile is_tool rest)" using ns rest rest_def by simp
      then have ihr: "sum_list (map cnt (rr_rows (repair_tool_pairs stub True rest))) \<le> tail_cost cnt stub rest"
        by (intro less.hyps) (use Cons split in simp_all)
      have reserve: "(if opens_group m then sum_list (map (cnt \<circ> stub)
            (missing_ids (map tool_call_id (tool_calls m)) (map result_id (takeWhile is_tool ns)))) else 0)
          = sum_list (map (cnt \<circ> stub) (drop (length rs) (expected_ids m)))"
        using missing_ids_prefix[of "map tool_call_id (tool_calls m)" "length rs"] ids tool_calls_closed[OF True]
        by (auto simp: rs_def[symmetric] expected_ids_def)
      have rows: "rr_rows (repair_tool_pairs stub True ms) =
          m # rs @ map stub (drop (length rs) (expected_ids m)) @ rr_rows (repair_tool_pairs stub True rest)"
        using Cons True answer_calls_prefix[OF rs ids rest, of stub] t split by (simp add: Let_def)
      have "tail_cost cnt stub ms = cnt m + sum_list (map (cnt \<circ> stub) (drop (length rs) (expected_ids m)))
          + (sum_list (map cnt rs) + tail_cost cnt stub rest)"
        unfolding Cons tail_cost.simps reserve tail_cost_tools[OF rs, symmetric] split[symmetric] ..
      with ihr show ?thesis unfolding rows by simp
    next
      case False
      with Cons ih show ?thesis by (auto simp: Let_def)
    qed
  qed simp
qed

lemma map_nth_suffix: "map ((!) rows) [k..<length rows] = drop k rows"
  by (metis add_0 drop_map drop_upt map_nth)

lemma own_results_ids:
  "map (\<lambda>i. result_id (rows ! i)) (own_results rows [k..<length rows]) =
     map result_id (takeWhile is_tool (drop k rows))"
proof -
  have "takeWhile is_tool (drop k rows) = map ((!) rows) (own_results rows [k..<length rows])"
    unfolding own_results_def map_nth_suffix[symmetric] takeWhile_map by (simp add: comp_def)
  then show ?thesis by simp
qed

context token_counter
begin

lemma index_charge_tail_cost:
  "(\<Sum>j\<leftarrow>[k..<length rows]. index_charge cnt cnts stub rows j) = int (tail_cost cnt stub (drop k rows))"
proof (induction "length rows - k" arbitrary: k)
  case 0
  then show ?case by simp
next
  case (Suc n)
  then have k: "k < length rows" and "n = length rows - Suc k" by auto
  from Suc.hyps(1)[OF this(2)] k show ?case
    by (simp add: upt_conv_Cons flip: Cons_nth_drop_Suc)
       (simp add: index_charge_def row_charge_def own_results_ids cnts_sum Let_def comp_def)
qed

lemma repaired_selection_cost:
  assumes "prefix_paired rows"
  shows "int (sum_list (map cnt (rr_rows (repair_tool_pairs stub True
       (map ((!) rows) (ts_indexes (select_tail cnt cnts stub droppable rows cap anchor)))))))
     \<le> charged_tokens (select_tail cnt cnts stub droppable rows cap anchor)"
proof -
  obtain k where k: "ts_indexes (select_tail cnt cnts stub droppable rows cap anchor) = [k..<length rows]"
      "charged_tokens (select_tail cnt cnts stub droppable rows cap anchor) =
        (\<Sum>j\<leftarrow>[k..<length rows]. index_charge cnt cnts stub rows j)"
    using select_tail_suffix[of rows cnt cnts stub droppable cap anchor] by blast
  have "prefix_paired (dropWhile is_tool (drop k rows))"
    by (rule prefix_paired_drop) (simp add: assms prefix_paired_hd)
  from repaired_tail_cost[OF this] show ?thesis
    by (simp add: k map_nth_suffix index_charge_tail_cost)
qed

end

section \<open>Properties\<close>

text \<open>
  \<open>select_tail\<close> keeps a contiguous suffix of the prepared rows, and when the anchors alone fit
  the cap, anchors plus the charged tokens never exceed it; the charge is never negative.
\<close>

theorem select_tail_within_cap:
  assumes "anchor \<le> cap"
  shows "\<exists>k \<le> length rows.
      ts_indexes (select_tail (count_message_tokens env) (count_messages_tokens env)
        missing_tool_result_stub is_budget_droppable_tail_message rows cap anchor) = [k..<length rows]
    \<and> 0 \<le> charged_tokens (select_tail (count_message_tokens env) (count_messages_tokens env)
        missing_tool_result_stub is_budget_droppable_tail_message rows cap anchor)
    \<and> anchor + charged_tokens (select_tail (count_message_tokens env) (count_messages_tokens env)
        missing_tool_result_stub is_budget_droppable_tail_message rows cap anchor) \<le> cap"
  using assms select_tail_suffix[of rows "count_message_tokens env" "count_messages_tokens env"
      missing_tool_result_stub is_budget_droppable_tail_message cap anchor]
  by (auto simp: counter.index_charge_tail_cost)

theorem select_tail_within_cap_witness:
  "3 + charged_tokens (select_tail (count_message_tokens \<lparr>encoder = None, host_image_cost = None\<rparr>)
      (count_messages_tokens \<lparr>encoder = None, host_image_cost = None\<rparr>)
      missing_tool_result_stub is_budget_droppable_tail_message [[(''role'', PStr ''user'')]] 10 3) \<le> 10"
  using select_tail_within_cap[of 3 10 "[[(''role'', PStr ''user'')]]"
      "\<lparr>encoder = None, host_image_cost = None\<rparr>"] by auto

text \<open>
  C29: The charge covers what the final sanitizer emits: for rows sanitized without stub insertion,
  repairing the selected tail with stubs costs at most the tokens \<open>select_tail\<close> charged, so the
  assembled tail cannot overflow the cap after sanitizing.
\<close>

theorem sanitized_tail_within_charge:
  "let rows = rr_rows (repair_tool_pairs missing_tool_result_stub False raw);
       selection = select_tail (count_message_tokens env) (count_messages_tokens env)
         missing_tool_result_stub is_budget_droppable_tail_message rows cap anchor
   in int (count_messages_tokens env (rr_rows (repair_tool_pairs missing_tool_result_stub True
        (map ((!) rows) (ts_indexes selection))))) \<le> charged_tokens selection"
  unfolding Let_def counter.cnts_sum
  by (rule counter.repaired_selection_cost[unfolded counter.cnts_sum]) (rule repair_False_prefix_paired)

text \<open>
  Under a budget and outside the objective exemption, \<open>select_prefix\<close> keeps source-order
  indexes whose measured rendering fits the budget, and every part it leaves out did not fit beside
  the parts of higher priority that it had kept.
\<close>

theorem select_prefix_greedy:
  assumes "summary_budget facts = Some budget" and "\<not> anchor_exempt cnt strip_ctx facts parts"
  defines "fits \<equiv> \<lambda>ix. int (cnt (candidate_msg cnt strip_ctx facts budget parts ix)) \<le> budget"
    and "kept \<equiv> kept_indexes (select_prefix cnt strip_ctx parts facts)"
  shows "sorted kept \<and> distinct kept \<and> set kept \<subseteq> {0..<length parts}
    \<and> (kept = [] \<or> fits kept)
    \<and> (\<forall>i < length parts. i \<notin> set kept \<longrightarrow>
         (\<exists>before after. selection_order facts (length parts) = before @ i # after
            \<and> \<not> fits (sort (greedy_keep fits [] before @ [i]))))"
proof -
  let ?g = "greedy_keep fits [] (selection_order facts (length parts))"
  have kept: "kept = sort ?g"
    using assms(1,2) unfolding kept_def fits_def by (simp add: select_prefix_def Let_def)
  have "distinct ([] @ selection_order facts (length parts))" by simp
  note set = greedy_keep_set[OF this, of fits] and rej = greedy_keep_rejects[OF this]
  have "?g = [] \<or> fits (sort ?g)" by (rule greedy_keep_fits) simp
  with set rej show ?thesis by (auto simp: kept)
qed

theorem select_prefix_greedy_witness:
  "let facts = \<lparr>part_keys = [(0, Some 1), (0, Some 2)], summary_role = ''user'',
        summary_budget = Some 5, assembly_cap = Some 9, survival_fit = False\<rparr>
   in distinct (kept_indexes (select_prefix (\<lambda>m. 4) id [''a'', ''b''] facts))"
  using select_prefix_greedy[of "\<lparr>part_keys = [(0, Some 1), (0, Some 2)], summary_role = ''user'',
        summary_budget = Some 5, assembly_cap = Some 9, survival_fit = False\<rparr>" 5 "\<lambda>m. 4" id "[''a'', ''b'']"]
  by (simp add: anchor_exempt_def Let_def)

text \<open>
  The default prefix budget is never negative for a non-negative ceiling, and unless it is the
  quarter floor of survival fitting (or zero), prefix, overhead, anchors, the larger tail measure and
  the recall reserve together stay within the ceiling.
\<close>

theorem default_prefix_budget_bounds:
  assumes "0 \<le> budget_ceiling"
  shows "0 \<le> default_prefix_budget budget_ceiling overhead leading tail repaired recall proactive emb fit
    \<and> (default_prefix_budget budget_ceiling overhead leading tail repaired recall proactive emb fit
         = (if fit then budget_ceiling div 4 else 0)
       \<or> default_prefix_budget budget_ceiling overhead leading tail repaired recall proactive emb fit
           + overhead + leading + max tail repaired
           + (if proactive \<and> emb then max 0 (or_zero recall) else 0) = budget_ceiling)"
  using assms pos_imp_zdiv_nonneg_iff[of 4 budget_ceiling]
  unfolding default_prefix_budget_def by (auto simp: max_def)

theorem default_prefix_budget_bounds_witness:
  "0 \<le> default_prefix_budget 100 10 20 30 25 (Some 5) True True True"
  using default_prefix_budget_bounds[of 100 10 20 30 25 "Some 5" True True True] by simp

end
