(* ===== verification/Compaction_Policy.thy ===== *)
theory Compaction_Policy
  imports Prelude
begin

text \<open>
  Context-window, compaction-trigger and assembly-cap policy:
  \<^verbatim>\<open>src/compaction_policy.py\<close> and \<^verbatim>\<open>src/codex_routing.py\<close>.

  Floating point thresholds are the rational values the doubles stand for.  The host module that
  recognises context variants is not in the repository: it is the argument \<open>host_variant\<close>
  (\<open>None\<close> when the import fails).
\<close>

section \<open>codex\_routing.py\<close>

definition CODEX_OAUTH_CONTEXT_CAPS :: "(string \<times> int) list" where
  "CODEX_OAUTH_CONTEXT_CAPS =
     [(''gpt-5.1-codex-max'', 272000), (''gpt-5.1-codex-mini'', 272000), (''gpt-5.3-codex-spark'', 128000),
      (''gpt-5.3-codex'', 272000), (''gpt-5.2-codex'', 272000), (''gpt-5.4-mini'', 272000),
      (''gpt-5.5'', 272000), (''gpt-5.4'', 272000), (''gpt-5.2'', 272000), (''gpt-5.6'', 272000),
      (''gpt-5'', 272000)]"

definition or_empty :: "string option \<Rightarrow> string" where
  "or_empty s = (case s of None \<Rightarrow> [] | Some t \<Rightarrow> t)"

definition after_last_slash :: "string \<Rightarrow> string" where
  "after_last_slash s = rev (takeWhile (\<lambda>c. c \<noteq> CHR ''/'') (rev s))"

definition bare_model_slug :: "string option \<Rightarrow> string" where
  "bare_model_slug model = after_last_slash (lower (strip (or_empty model)))"

definition is_openai_codex_route :: "string option \<Rightarrow> bool" where
  "is_openai_codex_route provider = (lower (strip (or_empty provider)) = ''openai-codex'')"

text \<open>\<open>sorted(items, key=len, reverse=True)\<close> is stable, so it is a sort by the negated length.\<close>

definition caps_longest_first :: "(string \<times> int) list \<Rightarrow> (string \<times> int) list" where
  "caps_longest_first table = sort_key (\<lambda>item. - int (length (fst item))) table"

definition first_cap :: "(string \<times> int) list \<Rightarrow> string \<Rightarrow> int option" where
  "first_cap table bare_model =
     map_option snd (List.find (\<lambda>item. is_substring (fst item) bare_model) (caps_longest_first table))"

definition codex_oauth_context_cap ::
  "(string \<Rightarrow> bool) option \<Rightarrow> string option \<Rightarrow> string option \<Rightarrow> int option" where
  "codex_oauth_context_cap host_variant model provider =
     (if \<not> is_openai_codex_route provider then None
      else (let bare_model = bare_model_slug model in
        if bare_model = [] then None
        else if is_suffix ''-900k'' bare_model
                \<and> (case host_variant of None \<Rightarrow> False | Some is_variant \<Rightarrow> is_variant bare_model)
        then Some 900000
        else first_cap CODEX_OAUTH_CONTEXT_CAPS bare_model))"

definition is_codex_gpt55_route :: "string option \<Rightarrow> string option \<Rightarrow> bool" where
  "is_codex_gpt55_route model provider =
     (is_openai_codex_route provider
      \<and> (let bare_model = bare_model_slug model in
         bare_model = ''gpt-5.5'' \<or> is_prefix ''gpt-5.5-'' bare_model \<or> is_prefix ''gpt-5.5.'' bare_model))"

section \<open>compaction\_policy.py\<close>

text \<open>The double nearest to \<open>0.85\<close>.\<close>

definition CODEX_GPT55_COMPACTION_THRESHOLD :: rat where
  "CODEX_GPT55_COMPACTION_THRESHOLD = 7656119366529843 / 9007199254740992"

fun longest_key :: "(string \<times> rat) list \<Rightarrow> string \<Rightarrow> string \<Rightarrow> string" where
  "longest_key [] model best_key = best_key"
| "longest_key ((key, v) # rest) model best_key =
     longest_key rest model
       (if is_substring key model \<and> length key > length best_key then key else best_key)"

record threshold_change =
  change_from :: rat
  change_to :: rat

definition resolve_threshold ::
  "rat \<Rightarrow> string \<Rightarrow> (string \<times> rat) list \<Rightarrow> bool \<Rightarrow> string option \<Rightarrow> string option
     \<Rightarrow> rat \<times> string \<times> threshold_change option" where
  "resolve_threshold configured source model_thresholds autoraise_enabled model provider =
     (let explicit_lcm_override =
            (source = ''env:LCM_CONTEXT_THRESHOLD'' \<or> source = ''config_yaml:lcm.context_threshold'');
          best_key = (if model_thresholds \<noteq> [] \<and> or_empty model \<noteq> []
                      then longest_key model_thresholds (or_empty model) [] else [])
      in if best_key \<noteq> []
         then (let override = the (map_of model_thresholds best_key)
               in (override, ''model_thresholds:'' @ best_key,
                   Some \<lparr>change_from = configured, change_to = override\<rparr>))
         else if is_codex_gpt55_route model provider \<and> autoraise_enabled \<and> \<not> explicit_lcm_override
                 \<and> configured < CODEX_GPT55_COMPACTION_THRESHOLD
         then (CODEX_GPT55_COMPACTION_THRESHOLD, ''codex_gpt55_autoraise'',
               Some \<lparr>change_from = configured, change_to = CODEX_GPT55_COMPACTION_THRESHOLD\<rparr>)
         else (configured, source, None))"

definition effective_context_length ::
  "(string \<Rightarrow> bool) option \<Rightarrow> int \<Rightarrow> string option \<Rightarrow> string option \<Rightarrow> int \<times> int option \<times> string" where
  "effective_context_length host_variant raw_context_length model provider =
     (case codex_oauth_context_cap host_variant model provider of
        Some cap \<Rightarrow> (if raw_context_length > cap then (cap, Some cap, ''codex_oauth_context_cap'')
                     else (raw_context_length, None, []))
      | None \<Rightarrow> (raw_context_length, None, []))"

definition assembly_token_cap :: "int \<Rightarrow> int \<Rightarrow> int \<Rightarrow> int option \<times> bool" where
  "assembly_token_cap context_length max_assembly_tokens reserve_tokens_floor =
     (let reserve_on = (context_length > 0 \<and> reserve_tokens_floor > 0);
          reserve_cap = context_length - reserve_tokens_floor;
          caps = (if max_assembly_tokens > 0 then [max_assembly_tokens] else [])
                 @ (if reserve_on \<and> reserve_cap > 0 then [reserve_cap] else []);
          reserve_floor_disabled = (reserve_on \<and> \<not> reserve_cap > 0)
      in ((if caps \<noteq> [] then Some (max 1 (Min (set caps))) else None), reserve_floor_disabled))"

definition threshold_tokens :: "int \<Rightarrow> int option \<Rightarrow> int" where
  "threshold_tokens context_threshold_tokens assembly_cap =
     (case assembly_cap of
        Some cap \<Rightarrow> (if cap > 0
                     then (if context_threshold_tokens > 0 then min context_threshold_tokens cap else cap)
                     else context_threshold_tokens)
      | None \<Rightarrow> context_threshold_tokens)"

section \<open>Lemmas\<close>

lemma longest_key_spec:
  assumes "longest_key table model best = k"
  shows "(k = best \<or> (k \<in> fst ` set table \<and> is_substring k model))
    \<and> length best \<le> length k
    \<and> (\<forall>key \<in> fst ` set table. is_substring key model \<longrightarrow> length key \<le> length k)"
  using assms
proof (induction table model best rule: longest_key.induct)
  case (2 key v rest model best)
  then show ?case by (fastforce split: if_splits)
qed simp

lemma caps_longest_first_props:
  "set (caps_longest_first table) = set table"
  "sorted (map (\<lambda>item. - int (length (fst item))) (caps_longest_first table))"
  by (simp_all add: caps_longest_first_def)

lemma find_sorted_min:
  "sorted (map f xs) \<Longrightarrow> List.find P xs = Some x \<Longrightarrow> y \<in> set xs \<Longrightarrow> P y \<Longrightarrow> f x \<le> f y"
  by (induction xs) (auto split: if_splits)

lemma first_cap_longest:
  assumes "first_cap table m = Some c"
  shows "\<exists>slug. (slug, c) \<in> set table \<and> is_substring slug m
    \<and> (\<forall>(slug', c') \<in> set table. is_substring slug' m \<longrightarrow> length slug' \<le> length slug)"
proof -
  obtain item where item: "List.find (\<lambda>item. is_substring (fst item) m) (caps_longest_first table) = Some item"
    "c = snd item" using assms by (auto simp: first_cap_def)
  have "item \<in> set table \<and> is_substring (fst item) m"
    using find_Some_mem[OF item(1)] by (simp add: caps_longest_first_props)
  moreover have "length slug' \<le> length (fst item)"
    if "(slug', c') \<in> set table" "is_substring slug' m" for slug' c'
    using find_sorted_min[OF caps_longest_first_props(2) item(1), of "(slug', c')"] that
    by (simp add: caps_longest_first_props)
  ultimately show ?thesis using item(2) by (intro exI[of _ "fst item"]) auto
qed

section \<open>Properties\<close>

text \<open>
  The compaction trigger never exceeds any configured bound: it is at most the context threshold,
  the assembly maximum, and the context length less the reserve floor, for each of these that is in
  force, and it is positive as soon as one of them is.
\<close>

theorem compaction_trigger_bounds:
  fixes threshold context_length max_assembly reserve :: int
  defines "cap \<equiv> fst (assembly_token_cap context_length max_assembly reserve)"
  shows "(threshold > 0 \<longrightarrow> threshold_tokens threshold cap \<le> threshold)
    \<and> (max_assembly > 0 \<longrightarrow> threshold_tokens threshold cap \<le> max_assembly)
    \<and> (context_length > 0 \<and> reserve > 0 \<and> reserve < context_length \<longrightarrow>
         threshold_tokens threshold cap + reserve \<le> context_length)
    \<and> (threshold > 0 \<or> max_assembly > 0 \<longrightarrow> threshold_tokens threshold cap > 0)
    \<and> snd (assembly_token_cap context_length max_assembly reserve) =
        (context_length > 0 \<and> reserve \<ge> context_length)"
  unfolding cap_def
  by (auto simp: assembly_token_cap_def threshold_tokens_def Let_def min_def max_def)

theorem compaction_trigger_bounds_witness:
  "threshold_tokens 70 (fst (assembly_token_cap 100 80 40)) \<le> 80"
  using compaction_trigger_bounds[of 70 100 80 40] by simp

text \<open>
  A model override wins over every other source, and it is the longest configured key that occurs
  in the model name, with the value configured for that key.
\<close>

theorem resolve_threshold_longest_override:
  assumes "resolve_threshold configured source table autoraise (Some model) provider =
             (t, ''model_thresholds:'' @ key, change)"
    and "\<exists>k \<in> fst ` set table. k \<noteq> [] \<and> is_substring k model" and "model \<noteq> []"
  shows "(key, t) \<in> set table \<and> is_substring key model
    \<and> (\<forall>k \<in> fst ` set table. is_substring k model \<longrightarrow> length k \<le> length key)
    \<and> change = Some \<lparr>change_from = configured, change_to = t\<rparr>"
proof -
  define best where "best = longest_key table model []"
  from longest_key_spec[OF best_def[symmetric]]
  have spec: "best = [] \<or> (best \<in> fst ` set table \<and> is_substring best model)"
    "\<forall>k \<in> fst ` set table. is_substring k model \<longrightarrow> length k \<le> length best" by auto
  from assms(2) obtain k where "k \<in> fst ` set table" "k \<noteq> []" "is_substring k model" by blast
  with spec have "best \<noteq> []" by auto
  with spec have mem: "best \<in> fst ` set table" "is_substring best model" by auto
  from assms(2) have "table \<noteq> []" by auto
  with assms(1,3) \<open>best \<noteq> []\<close> have "key = best" "t = the (map_of table best)"
    "change = Some \<lparr>change_from = configured, change_to = t\<rparr>"
    by (auto simp: resolve_threshold_def or_empty_def best_def[symmetric] Let_def)
  moreover obtain v where "map_of table best = Some v"
    using mem(1) by (metis domD dom_map_of_conv_image_fst)
  ultimately show ?thesis using mem spec(2) by (auto dest: map_of_SomeD)
qed

theorem resolve_threshold_longest_override_witness:
  "(''gpt-5'', 1 / 2) \<in> set [(''gpt'', 1 / 4), (''gpt-5'', 1 / (2::rat))]"
proof -
  have "resolve_threshold (3 / 4) ''default'' [(''gpt'', 1 / 4), (''gpt-5'', 1 / 2)] False
      (Some ''gpt-5.4'') None
    = (1 / 2, ''model_thresholds:'' @ ''gpt-5'', Some \<lparr>change_from = 3 / 4, change_to = 1 / 2\<rparr>)"
    by (simp add: resolve_threshold_def or_empty_def Let_def)
  from resolve_threshold_longest_override[OF this] show ?thesis by simp
qed

text \<open>
  The effective context length is the host's figure, lowered to the route cap when it exceeds it
  and never raised; the cap that applies without a host variant is that of the longest known slug
  occurring in the model name.
\<close>

theorem effective_context_length_capped:
  "fst (effective_context_length host raw model provider) =
     (case codex_oauth_context_cap host model provider of None \<Rightarrow> raw | Some cap \<Rightarrow> min raw cap)
   \<and> (\<forall>cap. codex_oauth_context_cap None model provider = Some cap \<longrightarrow>
        (\<exists>slug. (slug, cap) \<in> set CODEX_OAUTH_CONTEXT_CAPS \<and> is_substring slug (bare_model_slug model)
           \<and> (\<forall>(slug', c') \<in> set CODEX_OAUTH_CONTEXT_CAPS.
                is_substring slug' (bare_model_slug model) \<longrightarrow> length slug' \<le> length slug)))"
proof
  show "fst (effective_context_length host raw model provider) =
     (case codex_oauth_context_cap host model provider of None \<Rightarrow> raw | Some cap \<Rightarrow> min raw cap)"
    by (simp add: effective_context_length_def split: option.splits)
next
  show "\<forall>cap. codex_oauth_context_cap None model provider = Some cap \<longrightarrow>
        (\<exists>slug. (slug, cap) \<in> set CODEX_OAUTH_CONTEXT_CAPS \<and> is_substring slug (bare_model_slug model)
           \<and> (\<forall>(slug', c') \<in> set CODEX_OAUTH_CONTEXT_CAPS.
                is_substring slug' (bare_model_slug model) \<longrightarrow> length slug' \<le> length slug))"
    using first_cap_longest[of CODEX_OAUTH_CONTEXT_CAPS "bare_model_slug model"]
    by (simp add: codex_oauth_context_cap_def Let_def split: if_splits)
qed

theorem effective_context_length_capped_witness:
  "fst (effective_context_length None 400000 (Some ''openai/gpt-5.3-codex-spark'') (Some ''openai-codex'')) = 128000"
proof -
  have "codex_oauth_context_cap None (Some ''openai/gpt-5.3-codex-spark'') (Some ''openai-codex'') = Some 128000"
    by code_simp
  with effective_context_length_capped[of None 400000 "Some ''openai/gpt-5.3-codex-spark''" "Some ''openai-codex''"]
  show ?thesis by simp
qed

end
