(* ===== verification/Tables.thy ===== *)
theory Tables
  imports Prelude "HOL-Library.Product_Lexorder"
begin

text \<open>
  The SQLite tables that the store, the summary DAG and the lifecycle share
  (\<^verbatim>\<open>src/store.py\<close>, \<^verbatim>\<open>src/dag.py\<close>, \<^verbatim>\<open>src/db_bootstrap.py\<close>), one
  record per row type and one row list per table.  A column that may be NULL is an option.
  The \<open>*_seq\<close> fields are SQLite's AUTOINCREMENT counters.
\<close>

record message_row =
  m_store_id :: int
  m_session_id :: string
  m_source :: "string option"
  m_conversation_id :: "string option"
  m_role :: string
  m_content :: "string option"
  m_tool_call_id :: "string option"
  m_tool_calls :: "string option"
  m_tool_name :: "string option"

record SummaryNode =
  node_id :: int
  n_session_id :: string
  depth :: int
  summary :: string
  token_count :: int
  source_token_count :: int
  source_ids :: "int list"
  source_type :: string
  created_at :: timestamp
  earliest_at :: "timestamp option"
  latest_at :: "timestamp option"
  expand_hint :: string

record LifecycleState =
  conversation_id :: string
  current_session_id :: "string option"
  last_finalized_session_id :: "string option"
  current_frontier_store_id :: int
  last_finalized_frontier_store_id :: int
  debt_kind :: "string option"
  debt_size_estimate :: int
  current_bound_at :: "timestamp option"
  last_finalized_at :: "timestamp option"
  debt_updated_at :: "timestamp option"
  last_maintenance_attempt_at :: "timestamp option"
  last_rollover_at :: "timestamp option"
  last_reset_at :: "timestamp option"
  updated_at :: timestamp

record provenance_row =
  p_node_id :: int
  p_escalation_level :: int
  p_model :: string
  p_created_at :: timestamp

type_synonym lifecycle_table = "LifecycleState list"

record lcm_db =
  messages :: "message_row list"
  summary_nodes :: "SummaryNode list"
  node_seq :: int
  node_provenance :: "provenance_row list"
  lifecycle :: lifecycle_table

text \<open>Python truth of an optional string, and \<open>str(value or "")\<close>.\<close>

definition truthy_str :: "string option \<Rightarrow> bool" where
  "truthy_str s = (case s of None \<Rightarrow> False | Some t \<Rightarrow> t \<noteq> [])"

definition text_of :: "string option \<Rightarrow> string" where
  "text_of s = (case s of None \<Rightarrow> [] | Some t \<Rightarrow> t)"

lemma truthy_str_simps [simp]: "\<not> truthy_str None" "truthy_str (Some t) = (t \<noteq> [])"
  by (simp_all add: truthy_str_def)

lemma text_of_simps [simp]: "text_of None = []" "text_of (Some t) = t"
  by (simp_all add: text_of_def)

end
