(* ===== verification/Lifecycle.thy ===== *)
theory Lifecycle
  imports Tables
begin

text \<open>
  Durable lifecycle state: \<^verbatim>\<open>src/lifecycle_state.py\<close>.

  The table is a row list keyed by \<open>conversation_id\<close>.  Each SQL statement is one update of
  the list; \<open>now\<close> is the value of \<open>time.time()\<close>.  Where the source lets another connection
  write between a read and a conditional write, the model takes that writer as an argument
  (\<open>others\<close>), so the statements hold under any interleaving at that point.  Writes that the
  source serialises with its lock and one statement are atomic.
\<close>

section \<open>Reads\<close>

definition get_by_conversation :: "string option \<Rightarrow> lifecycle_table \<Rightarrow> LifecycleState option" where
  "get_by_conversation cid tbl =
     (if \<not> truthy_str cid then None else sel_first (\<lambda>r. conversation_id r = text_of cid) tbl)"

definition session_order :: "string \<Rightarrow> LifecycleState \<Rightarrow> nat \<times> timestamp" where
  "session_order sid r = ((if current_session_id r = Some sid then 0 else 1), - updated_at r)"

definition get_by_session :: "string option \<Rightarrow> lifecycle_table \<Rightarrow> LifecycleState option" where
  "get_by_session sid tbl =
     (if \<not> truthy_str sid then None
      else (case sort_key (session_order (text_of sid))
                   (filter (\<lambda>r. current_session_id r = sid \<or> last_finalized_session_id r = sid) tbl) of
              [] \<Rightarrow> None | r # _ \<Rightarrow> Some r))"

section \<open>Binding\<close>

datatype bind_write =
    BindUpdate string string int timestamp "timestamp option" LifecycleState
  | BindInsert LifecycleState

text \<open>The frontier a session resumes at: its own finalized frontier, unless a reset came after.\<close>

definition not_reset_since_finalize :: "LifecycleState \<Rightarrow> bool" where
  "not_reset_since_finalize r =
     (case last_reset_at r of None \<Rightarrow> True | Some reset \<Rightarrow> or_zero (last_finalized_at r) \<ge> reset)"

definition resume_frontier :: "LifecycleState \<Rightarrow> string \<Rightarrow> int" where
  "resume_frontier r sid =
     (if current_session_id r = None \<and> last_finalized_session_id r = Some sid \<and> not_reset_since_finalize r
      then last_finalized_frontier_store_id r else 0)"

definition bind_rollover_at :: "LifecycleState \<Rightarrow> string \<Rightarrow> timestamp \<Rightarrow> timestamp option" where
  "bind_rollover_at r sid now =
     (if (truthy_str (current_session_id r) \<and> current_session_id r \<noteq> Some sid)
         \<or> (current_session_id r = None \<and> truthy_str (last_finalized_session_id r)
            \<and> last_finalized_session_id r \<noteq> Some sid)
      then Some now else last_rollover_at r)"

definition bind_plan :: "LifecycleState option \<Rightarrow> string \<Rightarrow> string \<Rightarrow> timestamp \<Rightarrow> bind_write" where
  "bind_plan existing sid cid now = (case existing of
     Some e \<Rightarrow> BindUpdate sid cid (resume_frontier e sid) now (bind_rollover_at e sid now) e
   | None \<Rightarrow> BindInsert
       \<lparr>conversation_id = cid, current_session_id = Some sid, last_finalized_session_id = None,
        current_frontier_store_id = 0, last_finalized_frontier_store_id = 0,
        debt_kind = None, debt_size_estimate = 0, current_bound_at = Some now,
        last_finalized_at = None, debt_updated_at = None, last_maintenance_attempt_at = None,
        last_rollover_at = None, last_reset_at = None, updated_at = now\<rparr>)"

definition bind_guard :: "LifecycleState \<Rightarrow> string \<Rightarrow> LifecycleState \<Rightarrow> bool" where
  "bind_guard e cid r =
     (conversation_id r = cid
      \<and> current_session_id r = current_session_id e
      \<and> last_finalized_session_id r = last_finalized_session_id e
      \<and> last_finalized_frontier_store_id r = last_finalized_frontier_store_id e
      \<and> last_finalized_at r = last_finalized_at e
      \<and> last_reset_at r = last_reset_at e)"

definition bind_row ::
  "string \<Rightarrow> int \<Rightarrow> timestamp \<Rightarrow> timestamp option \<Rightarrow> LifecycleState \<Rightarrow> LifecycleState" where
  "bind_row sid frontier now rollover r =
     r\<lparr>current_session_id := Some sid, current_frontier_store_id := frontier,
       current_bound_at := Some now, last_rollover_at := rollover, updated_at := now\<rparr>"

fun exec_bind_write :: "bind_write \<Rightarrow> lifecycle_table \<Rightarrow> lifecycle_table \<times> nat" where
  "exec_bind_write (BindUpdate sid cid frontier now rollover e) tbl =
     (upd_where (bind_guard e cid) (bind_row sid frontier now rollover) tbl, rowcount (bind_guard e cid) tbl)"
| "exec_bind_write (BindInsert row) tbl =
     (if \<exists>r \<in> set tbl. conversation_id r = conversation_id row then (tbl, 0) else (tbl @ [row], 1))"

datatype bind_outcome = Bound LifecycleState | BindAssertionError

definition bind_read :: "string \<Rightarrow> lifecycle_table \<Rightarrow> bind_outcome" where
  "bind_read cid tbl = (case get_by_conversation (Some cid) tbl of
     Some s \<Rightarrow> Bound s | None \<Rightarrow> BindAssertionError)"

definition bind_in_write_transaction ::
  "string \<Rightarrow> string \<Rightarrow> timestamp \<Rightarrow> lifecycle_table \<Rightarrow> bind_outcome \<times> lifecycle_table" where
  "bind_in_write_transaction sid cid now tbl =
     (let existing = get_by_conversation (Some cid) tbl;
          tbl' = (if (case existing of None \<Rightarrow> True | Some e \<Rightarrow> current_session_id e \<noteq> Some sid)
                  then fst (exec_bind_write (bind_plan existing sid cid now) tbl) else tbl)
      in case bind_read cid tbl' of
           Bound s \<Rightarrow> (Bound s, tbl') | BindAssertionError \<Rightarrow> (BindAssertionError, tbl))"

definition bind_existing :: "string \<Rightarrow> string option \<Rightarrow> lifecycle_table \<Rightarrow> LifecycleState option" where
  "bind_existing sid resolved tbl =
     (if truthy_str resolved then get_by_conversation resolved tbl else get_by_session (Some sid) tbl)"

definition bind_resolved :: "string \<Rightarrow> string option \<Rightarrow> LifecycleState option \<Rightarrow> string" where
  "bind_resolved sid resolved existing =
     (if truthy_str resolved then text_of resolved
      else (case existing of Some e \<Rightarrow> conversation_id e | None \<Rightarrow> sid))"

definition BIND_CAS_ATTEMPTS :: nat where
  "BIND_CAS_ATTEMPTS = 8"

text \<open>
  The compare-and-swap loop.  \<open>others (2 * i)\<close> is what other connections write between the read
  and the write of attempt \<open>i\<close>, \<open>others (2 * i + 1)\<close> what they write after it.
\<close>

fun bind_loop ::
  "(nat \<Rightarrow> lifecycle_table \<Rightarrow> lifecycle_table) \<Rightarrow> (nat \<Rightarrow> timestamp) \<Rightarrow> string \<Rightarrow> nat \<Rightarrow> nat
     \<Rightarrow> string option \<Rightarrow> lifecycle_table \<Rightarrow> bind_outcome \<times> lifecycle_table" where
  "bind_loop others now sid 0 i resolved tbl =
     bind_in_write_transaction sid (text_of resolved) (now i) tbl"
| "bind_loop others now sid (Suc n) i resolved tbl =
     (let existing = bind_existing sid resolved tbl;
          cid = bind_resolved sid resolved existing
      in if (case existing of None \<Rightarrow> False | Some e \<Rightarrow> current_session_id e = Some sid)
         then (Bound (the existing), tbl)
         else (case exec_bind_write (bind_plan existing sid cid (now i)) (others (2 * i) tbl) of
                 (tbl2, rc) \<Rightarrow>
                   (let tbl3 = others (2 * i + 1) tbl2
                    in if rc = 1 then (bind_read cid tbl3, tbl3)
                       else bind_loop others now sid n (Suc i) (Some cid) tbl3)))"

definition bind_session ::
  "(nat \<Rightarrow> lifecycle_table \<Rightarrow> lifecycle_table) \<Rightarrow> (nat \<Rightarrow> timestamp) \<Rightarrow> string \<Rightarrow> string option
     \<Rightarrow> lifecycle_table \<Rightarrow> bind_outcome \<times> lifecycle_table" where
  "bind_session others now sid cid tbl = bind_loop others now sid BIND_CAS_ATTEMPTS 0 cid tbl"

definition rebind_guard :: "string \<Rightarrow> string \<Rightarrow> LifecycleState \<Rightarrow> bool" where
  "rebind_guard sid cid r =
     (conversation_id r = cid \<and> current_session_id r = None \<and> last_finalized_session_id r = Some sid
      \<and> not_reset_since_finalize r)"

definition rebind_row :: "string \<Rightarrow> timestamp \<Rightarrow> LifecycleState \<Rightarrow> LifecycleState" where
  "rebind_row sid now r =
     r\<lparr>current_session_id := Some sid, current_frontier_store_id := last_finalized_frontier_store_id r,
       current_bound_at := Some now, updated_at := now\<rparr>"

definition rebind_own_finalized ::
  "string \<Rightarrow> string \<Rightarrow> timestamp \<Rightarrow> lifecycle_table \<Rightarrow> LifecycleState option \<times> lifecycle_table" where
  "rebind_own_finalized sid cid now tbl =
     (let tbl' = upd_where (rebind_guard sid cid) (rebind_row sid now) tbl
      in (if rowcount (rebind_guard sid cid) tbl = 1 then get_by_conversation (Some cid) tbl' else None, tbl'))"

section \<open>Finalizing, rolling over, resetting\<close>

definition finalize_row :: "string \<Rightarrow> int \<Rightarrow> timestamp \<Rightarrow> LifecycleState \<Rightarrow> LifecycleState" where
  "finalize_row sid frontier now r =
     r\<lparr>current_session_id := (if current_session_id r = Some sid then None else current_session_id r),
       current_frontier_store_id :=
         (if current_session_id r = Some sid then 0 else current_frontier_store_id r),
       last_finalized_frontier_store_id :=
         (if last_finalized_session_id r = Some sid \<and> not_reset_since_finalize r
          then max frontier (last_finalized_frontier_store_id r) else frontier),
       last_finalized_session_id := Some sid,
       last_finalized_at := Some now,
       updated_at := now\<rparr>"

definition finalize_session ::
  "string option \<Rightarrow> string \<Rightarrow> int \<Rightarrow> timestamp \<Rightarrow> lifecycle_table \<Rightarrow> LifecycleState option \<times> lifecycle_table" where
  "finalize_session cid sid frontier now tbl =
     (if \<not> truthy_str cid then (None, tbl)
      else (let P = (\<lambda>r. conversation_id r = text_of cid);
                tbl' = upd_where P (finalize_row sid frontier now) tbl
            in (if rowcount P tbl = 0 then None else get_by_conversation cid tbl', tbl')))"

definition rollover_row :: "string \<Rightarrow> string \<Rightarrow> int \<Rightarrow> timestamp \<Rightarrow> LifecycleState \<Rightarrow> LifecycleState" where
  "rollover_row old new frontier now r =
     r\<lparr>current_session_id := Some new, last_finalized_session_id := Some old,
       current_frontier_store_id := 0, last_finalized_frontier_store_id := frontier,
       current_bound_at := Some now, last_finalized_at := Some now, last_rollover_at := Some now,
       last_reset_at := Some now, updated_at := now\<rparr>"

definition blank_row :: "string \<Rightarrow> LifecycleState" where
  "blank_row cid =
     \<lparr>conversation_id = cid, current_session_id = None, last_finalized_session_id = None,
      current_frontier_store_id = 0, last_finalized_frontier_store_id = 0,
      debt_kind = None, debt_size_estimate = 0, current_bound_at = None, last_finalized_at = None,
      debt_updated_at = None, last_maintenance_attempt_at = None, last_rollover_at = None,
      last_reset_at = None, updated_at = 0\<rparr>"

definition record_rollover ::
  "string \<Rightarrow> string \<Rightarrow> string \<Rightarrow> int \<Rightarrow> timestamp \<Rightarrow> lifecycle_table \<Rightarrow> LifecycleState option \<times> lifecycle_table" where
  "record_rollover cid old new finalized_frontier now tbl =
     (let state = get_by_conversation (Some cid) tbl in
      if (case state of None \<Rightarrow> False
          | Some s \<Rightarrow> current_session_id s = Some new \<and> last_finalized_session_id s = Some old)
      then (state, tbl)
      else (let frontier = max finalized_frontier
                  (case state of None \<Rightarrow> 0 | Some s \<Rightarrow> last_finalized_frontier_store_id s);
                P = (\<lambda>r. conversation_id r = cid);
                tbl' = (if \<exists>r \<in> set tbl. P r
                        then upd_where P (rollover_row old new frontier now) tbl
                        else tbl @ [rollover_row old new frontier now (blank_row cid)])
            in (get_by_conversation (Some cid) tbl', tbl')))"

text \<open>The four operations that update one conversation's row in place.\<close>

definition update_conversation ::
  "(LifecycleState \<Rightarrow> LifecycleState) \<Rightarrow> string option \<Rightarrow> lifecycle_table \<Rightarrow> LifecycleState option \<times> lifecycle_table" where
  "update_conversation f cid tbl =
     (if \<not> truthy_str cid then (None, tbl)
      else (case get_by_conversation cid tbl of
              None \<Rightarrow> (None, tbl)
            | Some _ \<Rightarrow> (let tbl' = upd_where (\<lambda>r. conversation_id r = text_of cid) f tbl
                        in (get_by_conversation cid tbl', tbl'))))"

definition debt_row :: "string option \<Rightarrow> int \<Rightarrow> timestamp \<Rightarrow> LifecycleState \<Rightarrow> LifecycleState" where
  "debt_row kind estimate now r =
     r\<lparr>debt_kind := kind, debt_size_estimate := estimate, debt_updated_at := Some now, updated_at := now\<rparr>"

definition record_debt ::
  "string option \<Rightarrow> string \<Rightarrow> int \<Rightarrow> timestamp \<Rightarrow> lifecycle_table \<Rightarrow> LifecycleState option \<times> lifecycle_table" where
  "record_debt cid kind size_estimate now tbl =
     update_conversation (debt_row (Some kind) (max 0 size_estimate) now) cid tbl"

definition clear_debt ::
  "string option \<Rightarrow> timestamp \<Rightarrow> lifecycle_table \<Rightarrow> LifecycleState option \<times> lifecycle_table" where
  "clear_debt cid now tbl = update_conversation (debt_row None 0 now) cid tbl"

definition maintenance_row :: "timestamp \<Rightarrow> LifecycleState \<Rightarrow> LifecycleState" where
  "maintenance_row now r = r\<lparr>last_maintenance_attempt_at := Some now, updated_at := now\<rparr>"

definition record_maintenance_attempt ::
  "string option \<Rightarrow> timestamp \<Rightarrow> lifecycle_table \<Rightarrow> LifecycleState option \<times> lifecycle_table" where
  "record_maintenance_attempt cid now tbl = update_conversation (maintenance_row now) cid tbl"

definition reset_row :: "timestamp \<Rightarrow> LifecycleState \<Rightarrow> LifecycleState" where
  "reset_row now r =
     r\<lparr>last_reset_at := Some now, debt_kind := None, debt_size_estimate := 0,
       debt_updated_at := Some now, updated_at := now\<rparr>"

definition record_reset ::
  "string option \<Rightarrow> timestamp \<Rightarrow> lifecycle_table \<Rightarrow> LifecycleState option \<times> lifecycle_table" where
  "record_reset cid now tbl = update_conversation (reset_row now) cid tbl"

section \<open>The frontier\<close>

definition advance_row :: "int \<Rightarrow> timestamp \<Rightarrow> LifecycleState \<Rightarrow> LifecycleState" where
  "advance_row frontier now r =
     r\<lparr>current_frontier_store_id := max (current_frontier_store_id r) frontier, updated_at := now\<rparr>"

definition advance_guard :: "string \<Rightarrow> string \<Rightarrow> LifecycleState \<Rightarrow> bool" where
  "advance_guard cid sid r = (conversation_id r = cid \<and> current_session_id r = Some sid)"

definition advance_frontier ::
  "(lifecycle_table \<Rightarrow> lifecycle_table) \<Rightarrow> string option \<Rightarrow> string \<Rightarrow> int \<Rightarrow> timestamp \<Rightarrow> lifecycle_table
     \<Rightarrow> LifecycleState option \<times> lifecycle_table" where
  "advance_frontier others cid sid frontier now tbl =
     (if \<not> truthy_str cid then (None, tbl)
      else (let state = get_by_conversation cid tbl in
            if (case state of None \<Rightarrow> True | Some s \<Rightarrow> current_session_id s \<noteq> Some sid)
            then (state, tbl)
            else (let tbl' = upd_where (advance_guard (text_of cid) sid) (advance_row frontier now) (others tbl)
                  in (get_by_conversation cid tbl', tbl'))))"

datatype publication_error =
    NoLifecycleState
  | LifecycleBindingChanged
  | PublicationConflict string
  | StoreProbeFailed

definition stage_frontier_advance ::
  "string \<Rightarrow> string \<Rightarrow> int \<Rightarrow> timestamp \<Rightarrow> lifecycle_table \<Rightarrow> publication_error + lifecycle_table" where
  "stage_frontier_advance cid sid frontier now tbl =
     (if rowcount (advance_guard cid sid) tbl = 1
      then Inr (upd_where (advance_guard cid sid) (advance_row frontier now) tbl)
      else (case sel_first (\<lambda>r. conversation_id r = cid) tbl of
              None \<Rightarrow> Inl NoLifecycleState
            | Some _ \<Rightarrow> Inl LifecycleBindingChanged))"

section \<open>Pruning\<close>

definition session_has_data :: "lcm_db \<Rightarrow> string \<Rightarrow> bool" where
  "session_has_data db sid =
     (if sid = [] then False
      else (\<exists>m \<in> set (messages db). m_session_id m = sid) \<or> (\<exists>n \<in> set (summary_nodes db). n_session_id n = sid))"

definition row_age_stamp :: "LifecycleState \<Rightarrow> timestamp" where
  "row_age_stamp r =
     (if or_zero (current_bound_at r) \<noteq> 0 then or_zero (current_bound_at r)
      else if or_zero (last_finalized_at r) \<noteq> 0 then or_zero (last_finalized_at r)
      else updated_at r)"

definition sessions_with_data :: "lcm_db \<Rightarrow> string set" where
  "sessions_with_data db =
     set (map m_session_id (messages db)) \<union> set (map n_session_id (summary_nodes db))"

definition prunable ::
  "lcm_db \<Rightarrow> string list \<Rightarrow> timestamp option \<Rightarrow> timestamp \<Rightarrow> LifecycleState \<Rightarrow> bool" where
  "prunable db protected max_age_hours now r =
     (let cur = text_of (current_session_id r); fin = text_of (last_finalized_session_id r);
          prot = filter (\<lambda>s. s \<noteq> []) protected;
          refs = filter (\<lambda>s. s \<noteq> []) [cur, fin] in
      \<not> ((cur \<noteq> [] \<and> cur \<in> sessions_with_data db) \<or> (fin \<noteq> [] \<and> fin \<in> sessions_with_data db))
      \<and> set refs \<inter> set prot = {}
      \<and> (case max_age_hours of None \<Rightarrow> True | Some h \<Rightarrow> \<not> (now - row_age_stamp r < h * 3600))
      \<and> \<not> (session_has_data db cur \<or> session_has_data db fin))"

fun prune_loop ::
  "lcm_db \<Rightarrow> string list \<Rightarrow> timestamp option \<Rightarrow> timestamp \<Rightarrow> LifecycleState list \<Rightarrow> nat \<Rightarrow> lifecycle_table
     \<Rightarrow> nat \<times> lifecycle_table" where
  "prune_loop db protected max_age now [] deleted tbl = (deleted, tbl)"
| "prune_loop db protected max_age now (r # rows) deleted tbl =
     (if prunable db protected max_age now r
      then prune_loop db protected max_age now rows (Suc deleted)
             (del_where (\<lambda>x. conversation_id x = conversation_id r) tbl)
      else prune_loop db protected max_age now rows deleted tbl)"

definition prune_empty_sessions ::
  "string list \<Rightarrow> timestamp option \<Rightarrow> timestamp \<Rightarrow> lcm_db \<Rightarrow> nat \<times> lcm_db" where
  "prune_empty_sessions protected max_age_hours now db =
     (case prune_loop db protected max_age_hours now (lifecycle db) 0 (lifecycle db) of
        (deleted, tbl) \<Rightarrow> (deleted, if deleted > 0 then db\<lparr>lifecycle := tbl\<rparr> else db))"

section \<open>The table invariant\<close>

definition wf_lifecycle :: "lifecycle_table \<Rightarrow> bool" where
  "wf_lifecycle tbl = distinct (map conversation_id tbl)"

lemmas lifecycle_row_defs =
  bind_row_def rebind_row_def finalize_row_def rollover_row_def debt_row_def maintenance_row_def
  reset_row_def advance_row_def

interpretation bind_upd: keyed_table conversation_id "bind_row sid frontier now rollover"
  for sid frontier now rollover
  by unfold_locales (simp add: lifecycle_row_defs)

interpretation rebind_upd: keyed_table conversation_id "rebind_row sid now" for sid now
  by unfold_locales (simp add: lifecycle_row_defs)

interpretation finalize_upd: keyed_table conversation_id "finalize_row sid frontier now" for sid frontier now
  by unfold_locales (simp add: lifecycle_row_defs)

interpretation rollover_upd: keyed_table conversation_id "rollover_row old new frontier now"
  for old new frontier now
  by unfold_locales (simp add: lifecycle_row_defs)

interpretation debt_upd: keyed_table conversation_id "debt_row kind estimate now" for kind estimate now
  by unfold_locales (simp add: lifecycle_row_defs)

interpretation maintenance_upd: keyed_table conversation_id "maintenance_row now" for now
  by unfold_locales (simp add: lifecycle_row_defs)

interpretation reset_upd: keyed_table conversation_id "reset_row now" for now
  by unfold_locales (simp add: lifecycle_row_defs)

interpretation advance_upd: keyed_table conversation_id "advance_row frontier now" for frontier now
  by unfold_locales (simp add: lifecycle_row_defs)

lemmas wf_upd_rules =
  bind_upd.keys_upd_where rebind_upd.keys_upd_where finalize_upd.keys_upd_where rollover_upd.keys_upd_where
  debt_upd.keys_upd_where maintenance_upd.keys_upd_where reset_upd.keys_upd_where advance_upd.keys_upd_where

lemmas sel_upd_rules =
  bind_upd.sel_upd_where rebind_upd.sel_upd_where finalize_upd.sel_upd_where rollover_upd.sel_upd_where
  debt_upd.sel_upd_where maintenance_upd.sel_upd_where reset_upd.sel_upd_where advance_upd.sel_upd_where

lemma wf_row_unique:
  "wf_lifecycle tbl \<Longrightarrow> r \<in> set tbl \<Longrightarrow> x \<in> set tbl \<Longrightarrow> conversation_id r = conversation_id x \<Longrightarrow> r = x"
  by (metis wf_lifecycle_def sel_key_unique option.inject)

lemma get_by_conversation_iff:
  assumes "wf_lifecycle tbl" "cid \<noteq> []"
  shows "get_by_conversation (Some cid) tbl = Some r \<longleftrightarrow> r \<in> set tbl \<and> conversation_id r = cid"
  using assms sel_key_unique[of conversation_id tbl r] sel_first_mem[of "\<lambda>r. conversation_id r = cid" tbl]
  by (auto simp: get_by_conversation_def wf_lifecycle_def)

lemma get_by_conversation_None:
  "cid \<noteq> [] \<Longrightarrow> get_by_conversation (Some cid) tbl = None \<longleftrightarrow> (\<forall>r \<in> set tbl. conversation_id r \<noteq> cid)"
  by (simp add: get_by_conversation_def sel_first_None_iff)

lemma rowcount_keyed:
  assumes "wf_lifecycle tbl" "\<And>r. P r \<Longrightarrow> conversation_id r = cid"
  shows "rowcount P tbl = (if \<exists>r \<in> set tbl. P r then 1 else 0)"
  using assms(1) unfolding wf_lifecycle_def
proof (induction tbl)
  case (Cons r tbl)
  have "\<not> P x" if "P r" "x \<in> set tbl" for x
    using that assms(2) Cons.prems by (metis distinct.simps(2) image_eqI list.set_map list.simps(9))
  with Cons show ?case by (auto simp: rowcount_def filter_empty_conv)
qed (simp add: rowcount_def)

lemma wf_update_conversation:
  "wf_lifecycle tbl \<Longrightarrow> (\<And>r. conversation_id (f r) = conversation_id r) \<Longrightarrow>
     wf_lifecycle (snd (update_conversation f cid tbl))"
  using keyed_table.keys_upd_where[of conversation_id f]
  by (auto simp: update_conversation_def wf_lifecycle_def keyed_table_def Let_def split: option.splits)

lemma wf_exec_bind_write: "wf_lifecycle tbl \<Longrightarrow> wf_lifecycle (fst (exec_bind_write w tbl))"
  by (cases w) (auto simp: wf_lifecycle_def wf_upd_rules)

section \<open>Steps\<close>

text \<open>
  Every write of the store, as one atomic step.  \<open>bind\<close> takes the row \<open>e\<close> it read, which may be
  stale: the loop only reaches the write when that row was not already bound to the session.
\<close>

inductive lifecycle_step :: "lifecycle_table \<Rightarrow> lifecycle_table \<Rightarrow> bool" where
  bind: "(case e of None \<Rightarrow> True | Some x \<Rightarrow> current_session_id x \<noteq> Some sid) \<Longrightarrow>
     lifecycle_step tbl (fst (exec_bind_write (bind_plan e sid cid now) tbl))"
| rebind: "lifecycle_step tbl (snd (rebind_own_finalized sid cid now tbl))"
| finalize: "lifecycle_step tbl (snd (finalize_session c sid frontier now tbl))"
| debt: "lifecycle_step tbl (snd (record_debt c kind estimate now tbl))"
| clear: "lifecycle_step tbl (snd (clear_debt c now tbl))"
| maintenance: "lifecycle_step tbl (snd (record_maintenance_attempt c now tbl))"
| reset: "lifecycle_step tbl (snd (record_reset c now tbl))"
| advance: "lifecycle_step tbl (snd (advance_frontier id c sid frontier now tbl))"
| stage: "stage_frontier_advance cid sid frontier now tbl = Inr tbl' \<Longrightarrow> lifecycle_step tbl tbl'"
| rollover: "lifecycle_step tbl (snd (record_rollover cid old new frontier now tbl))"
| prune: "lifecycle db = tbl \<Longrightarrow> lifecycle_step tbl (lifecycle (snd (prune_empty_sessions prot age now db)))"

inductive_cases lifecycle_stepE: "lifecycle_step tbl tbl'"

inductive lifecycle_reachable :: "lifecycle_table \<Rightarrow> bool" where
  empty: "lifecycle_reachable []"
| step: "lifecycle_reachable tbl \<Longrightarrow> lifecycle_step tbl tbl' \<Longrightarrow> lifecycle_reachable tbl'"

lemma prune_loop_eq:
  "prune_loop db prot age now rows d tbl =
     (d + length (filter (prunable db prot age now) rows),
      del_where (\<lambda>x. \<exists>r \<in> set rows. prunable db prot age now r \<and> conversation_id x = conversation_id r) tbl)"
proof (induction rows arbitrary: d tbl)
  case Nil
  then show ?case by (simp add: del_where_def)
next
  case (Cons r rows)
  then show ?case by (auto simp: del_where_def intro!: filter_cong)
qed

lemma prune_empty_sessions_eq:
  assumes "wf_lifecycle (lifecycle db)"
  shows "prune_empty_sessions prot age now db =
    (length (filter (prunable db prot age now) (lifecycle db)),
     db\<lparr>lifecycle := filter (\<lambda>r. \<not> prunable db prot age now r) (lifecycle db)\<rparr>)"
proof -
  have "del_where (\<lambda>x. \<exists>r \<in> set (lifecycle db). prunable db prot age now r \<and> conversation_id x = conversation_id r)
      (lifecycle db) = filter (\<lambda>r. \<not> prunable db prot age now r) (lifecycle db)"
    unfolding del_where_def using wf_row_unique[OF assms] by (intro filter_cong) auto
  moreover have "filter (\<lambda>r. \<not> prunable db prot age now r) (lifecycle db) = lifecycle db"
    if "filter (prunable db prot age now) (lifecycle db) = []"
    using that by (simp add: filter_empty_conv)
  ultimately show ?thesis by (auto simp: prune_empty_sessions_def prune_loop_eq)
qed

lemma wf_upd_where:
  "wf_lifecycle (upd_where P (rebind_row sid now) tbl) = wf_lifecycle tbl"
  "wf_lifecycle (upd_where P (finalize_row sid frontier now) tbl) = wf_lifecycle tbl"
  "wf_lifecycle (upd_where P (advance_row frontier now) tbl) = wf_lifecycle tbl"
  "wf_lifecycle (upd_where P (rollover_row old new frontier now) tbl) = wf_lifecycle tbl"
  by (simp_all add: wf_lifecycle_def wf_upd_rules)

lemma wf_record_rollover: "wf_lifecycle tbl \<Longrightarrow> wf_lifecycle (snd (record_rollover cid old new f now tbl))"
  by (auto simp: record_rollover_def Let_def wf_lifecycle_def wf_upd_rules rollover_row_def blank_row_def
           split: option.splits)

lemma wf_lifecycle_step: "lifecycle_step tbl tbl' \<Longrightarrow> wf_lifecycle tbl \<Longrightarrow> wf_lifecycle tbl'"
proof (induction rule: lifecycle_step.induct)
  case (prune db tbl prot age now)
  then show ?case by (auto simp: prune_empty_sessions_eq wf_lifecycle_def distinct_map_filter)
qed (auto simp: wf_exec_bind_write rebind_own_finalized_def finalize_session_def advance_frontier_def
      record_debt_def clear_debt_def record_maintenance_attempt_def record_reset_def Let_def
      debt_upd.key_upd maintenance_upd.key_upd reset_upd.key_upd
      wf_upd_where wf_record_rollover stage_frontier_advance_def split: if_splits option.splits intro!: wf_update_conversation)

lemma lifecycle_reachable_wf: "lifecycle_reachable tbl \<Longrightarrow> wf_lifecycle tbl"
  by (induction rule: lifecycle_reachable.induct)
     (auto dest: wf_lifecycle_step, simp add: wf_lifecycle_def)

lemma upd_where_row:
  assumes "wf_lifecycle tbl" "\<And>x. conversation_id (f x) = conversation_id x"
    and "r \<in> set tbl" "r' \<in> set (upd_where P f tbl)" "conversation_id r' = conversation_id r"
  shows "r' = (if P r then f r else r)"
proof -
  obtain x where x: "x \<in> set tbl" "r' = (if P x then f x else x)"
    using assms(4) by (auto simp: upd_where_def)
  then have "conversation_id x = conversation_id r" using assms(2,5) by (auto split: if_splits)
  with wf_row_unique[OF assms(1) x(1) assms(3)] x(2) show ?thesis by simp
qed

lemma upd_or_same_row:
  assumes "wf_lifecycle tbl" "\<And>x. conversation_id (f x) = conversation_id x"
    and "r \<in> set tbl" "r' \<in> set tbl \<or> r' \<in> set (upd_where P f tbl)" "conversation_id r' = conversation_id r"
  shows "r' = r \<or> (P r \<and> r' = f r)"
  using assms(4)
proof
  assume "r' \<in> set tbl"
  from wf_row_unique[OF assms(1) this assms(3,5)] show ?thesis by simp
next
  assume "r' \<in> set (upd_where P f tbl)"
  from upd_where_row[OF assms(1,2,3) this assms(5)] show ?thesis by (simp split: if_splits)
qed

lemma update_conversation_row:
  assumes "wf_lifecycle tbl" "\<And>x. conversation_id (f x) = conversation_id x"
    and "r \<in> set tbl" "r' \<in> set (snd (update_conversation f c tbl))" "conversation_id r' = conversation_id r"
  shows "r' = r \<or> r' = f r"
proof -
  have "r' \<in> set tbl \<or> r' \<in> set (upd_where (\<lambda>r. conversation_id r = text_of c) f tbl)"
    using assms(4) by (auto simp: update_conversation_def Let_def split: if_splits option.splits)
  from upd_or_same_row[OF assms(1,2,3) this assms(5)] show ?thesis by blast
qed

lemma exec_bind_row:
  assumes wf: "wf_lifecycle tbl" and r: "r \<in> set tbl"
    and r': "r' \<in> set (fst (exec_bind_write (bind_plan e sid cid now) tbl))"
    and id: "conversation_id r' = conversation_id r"
  shows "r' = r \<or> (\<exists>x. e = Some x \<and> bind_guard x cid r
      \<and> r' = bind_row sid (resume_frontier x sid) now (bind_rollover_at x sid now) r)"
proof (cases e)
  case None
  with r' have "r' \<in> set tbl \<or> (\<forall>x \<in> set tbl. conversation_id x \<noteq> conversation_id r')"
    by (auto simp: bind_plan_def split: if_splits)
  with r id wf_row_unique[OF wf, of r' r] show ?thesis by auto
next
  case (Some x)
  with r' have "r' \<in> set (upd_where (bind_guard x cid)
      (bind_row sid (resume_frontier x sid) now (bind_rollover_at x sid now)) tbl)"
    by (simp add: bind_plan_def)
  from upd_where_row[OF wf bind_upd.key_upd r this id] Some show ?thesis by auto
qed

lemma record_rollover_row:
  assumes wf: "wf_lifecycle tbl" and r: "r \<in> set tbl"
    and r': "r' \<in> set (snd (record_rollover cid old new frontier now tbl))"
    and id: "conversation_id r' = conversation_id r"
  shows "r' = r \<or> (\<exists>f. (cid = [] \<or> current_session_id r \<noteq> Some new \<or> last_finalized_session_id r \<noteq> Some old) \<and> conversation_id r = cid
      \<and> r' = rollover_row old new f now r)"
proof (cases "snd (record_rollover cid old new frontier now tbl) = tbl")
  case True
  with r' wf_row_unique[OF wf, of r' r] r id show ?thesis by simp
next
  case False
  let ?P = "\<lambda>r. conversation_id r = cid"
  obtain f where f: "snd (record_rollover cid old new frontier now tbl)
      = (if \<exists>r \<in> set tbl. ?P r then upd_where ?P (rollover_row old new f now) tbl else tbl @ [rollover_row old new f now (blank_row cid)])"
    and guard: "\<And>x. get_by_conversation (Some cid) tbl = Some x \<Longrightarrow> \<not> (current_session_id x = Some new \<and> last_finalized_session_id x = Some old)"
    using False by (auto simp: record_rollover_def Let_def split: if_splits option.splits)
  show ?thesis
  proof (cases "\<exists>r \<in> set tbl. ?P r")
    case True
    with r' f have "r' \<in> set (upd_where ?P (rollover_row old new f now) tbl)" by simp
    from upd_where_row[OF wf rollover_upd.key_upd r this id] have "r' = r \<or> ?P r \<and> r' = rollover_row old new f now r" by (auto split: if_splits)
    moreover have "get_by_conversation (Some cid) tbl = Some r" if "?P r" "cid \<noteq> []"
      using that sel_key_unique[of conversation_id tbl r] wf r by (simp add: get_by_conversation_def wf_lifecycle_def)
    ultimately show ?thesis using guard by auto
  next
    case False
    with r' f r id wf_row_unique[OF wf, of r' r] show ?thesis by (auto simp: rollover_row_def blank_row_def)
  qed
qed

text \<open>
  What a row bound to a session keeps under one step: every write that leaves the binding in place leaves the frontier
  in place or raises it, except a rollover onto the session that is already bound.
\<close>

definition rolled_over :: "string \<Rightarrow> LifecycleState \<Rightarrow> LifecycleState \<Rightarrow> bool" where
  "rolled_over s r r' \<longleftrightarrow> (\<exists>old f now. (conversation_id r = [] \<or> last_finalized_session_id r \<noteq> Some old) \<and> r' = rollover_row old s f now r)"

lemma step_frontier_le:
  assumes "lifecycle_step tbl tbl'" "wf_lifecycle tbl" "r \<in> set tbl" "r' \<in> set tbl'"
    and "conversation_id r' = conversation_id r"
    and "current_session_id r = Some s" "current_session_id r' = Some s"
  shows "current_frontier_store_id r \<le> current_frontier_store_id r' \<or> rolled_over s r r'"
  using assms
proof (cases rule: lifecycle_step.cases)
  case (bind e sid cid now)
  with exec_bind_row[OF assms(2,3)] assms(4-7) show ?thesis
    by (force simp: bind_guard_def bind_row_def)
next
  case (rebind sid cid now)
  then have "r' \<in> set (upd_where (rebind_guard sid cid) (rebind_row sid now) tbl)"
    using assms(4) by (simp add: rebind_own_finalized_def Let_def)
  from upd_where_row[OF assms(2) rebind_upd.key_upd assms(3) this assms(5)] assms(6)
  show ?thesis by (simp add: rebind_guard_def)
next
  case (finalize c sid frontier now)
  then have "r' \<in> set tbl \<or> r' \<in> set (upd_where (\<lambda>r. conversation_id r = text_of c) (finalize_row sid frontier now) tbl)"
    using assms(4) by (auto simp: finalize_session_def Let_def split: if_splits)
  from upd_or_same_row[OF assms(2) finalize_upd.key_upd assms(3) this assms(5)] assms(6,7)
  show ?thesis by (auto simp: finalize_row_def split: if_splits)
next
  case (debt c kind estimate now)
  then have "r' \<in> set (snd (update_conversation (debt_row (Some kind) (max 0 estimate) now) c tbl))"
    using assms(4) by (simp add: record_debt_def)
  from update_conversation_row[OF assms(2) debt_upd.key_upd assms(3) this assms(5)]
  show ?thesis by (auto simp: debt_row_def)
next
  case (clear c now)
  then have "r' \<in> set (snd (update_conversation (debt_row None 0 now) c tbl))"
    using assms(4) by (simp add: clear_debt_def)
  from update_conversation_row[OF assms(2) debt_upd.key_upd assms(3) this assms(5)]
  show ?thesis by (auto simp: debt_row_def)
next
  case (maintenance c now)
  then have "r' \<in> set (snd (update_conversation (maintenance_row now) c tbl))"
    using assms(4) by (simp add: record_maintenance_attempt_def)
  from update_conversation_row[OF assms(2) maintenance_upd.key_upd assms(3) this assms(5)]
  show ?thesis by (auto simp: maintenance_row_def)
next
  case (reset c now)
  then have "r' \<in> set (snd (update_conversation (reset_row now) c tbl))"
    using assms(4) by (simp add: record_reset_def)
  from update_conversation_row[OF assms(2) reset_upd.key_upd assms(3) this assms(5)]
  show ?thesis by (auto simp: reset_row_def)
next
  case (advance c sid frontier now)
  then have "r' \<in> set tbl \<or> r' \<in> set (upd_where (advance_guard (text_of c) sid) (advance_row frontier now) tbl)"
    using assms(4) by (auto simp: advance_frontier_def Let_def split: if_splits)
  from upd_or_same_row[OF assms(2) advance_upd.key_upd assms(3) this assms(5)]
  show ?thesis by (auto simp: advance_row_def)
next
  case (stage cid sid frontier now)
  then have "r' \<in> set tbl \<or> r' \<in> set (upd_where (advance_guard cid sid) (advance_row frontier now) tbl)"
    using assms(4) by (auto simp: stage_frontier_advance_def split: if_splits option.splits)
  from upd_or_same_row[OF assms(2) advance_upd.key_upd assms(3) this assms(5)]
  show ?thesis by (auto simp: advance_row_def)
next
  case (rollover cid old new frontier now)
  from record_rollover_row[OF assms(2,3) _ assms(5)] assms(4) rollover
  consider "r' = r" | f where "cid = [] \<or> current_session_id r \<noteq> Some new \<or> last_finalized_session_id r \<noteq> Some old" "conversation_id r = cid"
      "r' = rollover_row old new f now r" by blast
  then show ?thesis
  proof cases
    case 2
    then have "new = s" using assms(7) by (simp add: rollover_row_def)
    with 2 assms(6) show ?thesis by (auto simp: rolled_over_def)
  qed simp
next
  case (prune db prot age now)
  with assms(2,4) have "r' \<in> set tbl" by (auto simp: prune_empty_sessions_eq)
  from wf_row_unique[OF assms(2) this assms(3,5)] show ?thesis by simp
qed

section \<open>Properties\<close>

text \<open>
  In every reachable lifecycle table, through any sequence of binds (stale reads included),
  rebinds, finalizes, rollovers, resets, debt and maintenance records, frontier advances and prunes,
  each conversation has exactly one row.
\<close>

theorem lifecycle_conversations_unique:
  "lifecycle_reachable tbl \<Longrightarrow> distinct (map conversation_id tbl)"
  using lifecycle_reachable_wf by (simp add: wf_lifecycle_def)

theorem lifecycle_conversations_unique_witness:
  "distinct (map conversation_id (fst (exec_bind_write (bind_plan None ''s'' ''c'' 1) [])))"
  by (rule lifecycle_conversations_unique)
     (rule lifecycle_reachable.step[OF lifecycle_reachable.empty], rule lifecycle_step.bind, simp)

text \<open>
  C33: While a conversation stays bound to the same session, its frontier does not go back: binds with stale reads,
  rebinds, concurrent and staged advances, finalizes, debt, maintenance and reset records and prunes all keep or raise
  it.  The one exception is a rollover onto the session that is already bound, away from another session than the one
  finalized last: it resets the frontier to 0, together with the last finalized session and the time of the last reset.
\<close>

theorem frontier_monotone_while_bound:
  assumes "lifecycle_reachable tbl" "lifecycle_step tbl tbl'" "r \<in> set tbl" "r' \<in> set tbl'"
    and "conversation_id r' = conversation_id r"
    and "current_session_id r = Some s" "current_session_id r' = Some s"
  shows "current_frontier_store_id r \<le> current_frontier_store_id r'
    \<or> (\<exists>old f now. (conversation_id r = [] \<or> last_finalized_session_id r \<noteq> Some old) \<and> r' = rollover_row old s f now r)"
  using step_frontier_le[OF assms(2) lifecycle_reachable_wf[OF assms(1)] assms(3-7)] unfolding rolled_over_def .

theorem frontier_monotone_while_bound_witness:
  "let t0 = fst (exec_bind_write (bind_plan None ''s'' ''c'' 1) []);
       t1 = snd (advance_frontier id (Some ''c'') ''s'' 7 2 t0)
   in current_frontier_store_id (hd t0) \<le> current_frontier_store_id (hd t1)
      \<and> current_frontier_store_id (hd t1) = 7"
proof -
  let ?t0 = "fst (exec_bind_write (bind_plan None ''s'' ''c'' 1) [])"
  let ?t1 = "snd (advance_frontier id (Some ''c'') ''s'' 7 2 ?t0)"
  have reach: "lifecycle_reachable ?t0"
    by (rule lifecycle_reachable.step[OF lifecycle_reachable.empty], rule lifecycle_step.bind, simp)
  have t: "hd ?t0 \<in> set ?t0" "hd ?t1 \<in> set ?t1" "conversation_id (hd ?t1) = conversation_id (hd ?t0)"
    "current_session_id (hd ?t0) = Some ''s''" "current_session_id (hd ?t1) = Some ''s''"
    "current_frontier_store_id (hd ?t1) = 7"
    by code_simp+
  from frontier_monotone_while_bound[OF reach lifecycle_step.advance t(1-5)] t(6)
  have "current_frontier_store_id (hd ?t0) \<le> current_frontier_store_id (hd ?t1)" by (auto simp: rollover_row_def)
  with t(6) show ?thesis unfolding Let_def by blast
qed

text \<open>
  The bind compare-and-swap never acts on a stale read.  Either the row changed in a column the
  decision rests on, and nothing is written, or exactly one row is written, with the frontier the
  rule gives for that row as it stands at the moment of the write.
\<close>

theorem bind_cas_uses_current_row:
  assumes "wf_lifecycle tbl" and "exec_bind_write (bind_plan (Some e) sid cid now) tbl = (tbl', rc)"
  shows "(rc = 0 \<and> tbl' = tbl) \<or>
    (rc = 1 \<and> (\<exists>r \<in> set tbl. conversation_id r = cid
       \<and> tbl' = upd_where (\<lambda>x. conversation_id x = cid)
                  (bind_row sid (resume_frontier r sid) now (bind_rollover_at e sid now)) tbl))"
proof -
  let ?f = "bind_row sid (resume_frontier e sid) now (bind_rollover_at e sid now)"
  from assms(2) have t: "tbl' = upd_where (bind_guard e cid) ?f tbl" "rc = rowcount (bind_guard e cid) tbl"
    by (auto simp: bind_plan_def)
  have rc: "rc = (if \<exists>r \<in> set tbl. bind_guard e cid r then 1 else 0)"
    unfolding t(2) by (rule rowcount_keyed[OF assms(1)]) (simp add: bind_guard_def)
  show ?thesis
  proof (cases "\<exists>r \<in> set tbl. bind_guard e cid r")
    case False
    with rc t(1) upd_where_id[of tbl "bind_guard e cid"] show ?thesis by auto
  next
    case True
    then obtain r where r: "r \<in> set tbl" "bind_guard e cid r" by blast
    then have c: "conversation_id r = cid" and f: "resume_frontier r sid = resume_frontier e sid"
      by (auto simp: bind_guard_def resume_frontier_def not_reset_since_finalize_def split: option.splits)
    have "bind_guard e cid x = (conversation_id x = cid)" if "x \<in> set tbl" for x
      using wf_row_unique[OF assms(1) that r(1)] c r(2) by (metis bind_guard_def)
    then have "upd_where (bind_guard e cid) ?f tbl = upd_where (\<lambda>x. conversation_id x = cid) ?f tbl"
      unfolding upd_where_def by (intro map_cong) simp_all
    with r c f rc t(1) show ?thesis by auto
  qed
qed

theorem bind_cas_uses_current_row_witness:
  "let row = (blank_row ''c'')\<lparr>last_finalized_session_id := Some ''s'', last_finalized_frontier_store_id := 9\<rparr>
   in snd (exec_bind_write (bind_plan (Some (row\<lparr>last_finalized_frontier_store_id := 4\<rparr>)) ''s'' ''c'' 5) [row]) = 0
      \<or> snd (exec_bind_write (bind_plan (Some (row\<lparr>last_finalized_frontier_store_id := 4\<rparr>)) ''s'' ''c'' 5) [row]) = 1"
proof -
  let ?row = "(blank_row ''c'')\<lparr>last_finalized_session_id := Some ''s'', last_finalized_frontier_store_id := 9\<rparr>"
  have wf: "wf_lifecycle [?row]" by (simp add: wf_lifecycle_def)
  show ?thesis
    unfolding Let_def
    using bind_cas_uses_current_row[OF wf prod.collapse[symmetric],
        of "?row\<lparr>last_finalized_frontier_store_id := 4\<rparr>" "''s''" "''c''" 5] by blast
qed

lemma upd_where_hit:
  assumes "wf_lifecycle tbl" "r \<in> set tbl" "P r" "\<And>x. conversation_id (f x) = conversation_id x"
    and "conversation_id r \<noteq> []"
  shows "get_by_conversation (Some (conversation_id r)) (upd_where P f tbl) = Some (f r)"
proof -
  have "keyed_table conversation_id f" by unfold_locales (rule assms(4))
  from keyed_table.sel_upd_where[OF this, of "conversation_id r" P tbl]
  show ?thesis using assms sel_key_unique[of conversation_id tbl r]
    by (simp add: get_by_conversation_def wf_lifecycle_def)
qed

text \<open>What an undisturbed bind of a session to a named conversation leaves behind.\<close>

definition bind_result :: "string \<Rightarrow> string \<Rightarrow> timestamp \<Rightarrow> lifecycle_table \<Rightarrow> LifecycleState" where
  "bind_result sid cid now tbl = (case get_by_conversation (Some cid) tbl of
     None \<Rightarrow> (blank_row cid)\<lparr>current_session_id := Some sid, current_bound_at := Some now, updated_at := now\<rparr>
   | Some e \<Rightarrow> if current_session_id e = Some sid then e
               else bind_row sid (resume_frontier e sid) now (bind_rollover_at e sid now) e)"

lemma bind_guard_self: "conversation_id e = cid \<Longrightarrow> bind_guard e cid e"
  by (simp add: bind_guard_def)

lemma exec_bind_quiet:
  assumes "wf_lifecycle tbl" "cid \<noteq> []" "get_by_conversation (Some cid) tbl = existing"
    and "case existing of None \<Rightarrow> True | Some e \<Rightarrow> current_session_id e \<noteq> Some sid"
  shows "\<exists>tbl'. exec_bind_write (bind_plan existing sid cid now) tbl = (tbl', 1)
    \<and> get_by_conversation (Some cid) tbl' = Some (bind_result sid cid now tbl)"
proof (cases existing)
  case None
  with assms have "\<forall>r \<in> set tbl. conversation_id r \<noteq> cid" by (simp add: get_by_conversation_None)
  with None assms show ?thesis
    by (auto simp: bind_plan_def bind_result_def blank_row_def get_by_conversation_def sel_first_append
        sel_first_def[of _ "[_]"] split: option.splits dest: sel_first_mem)
next
  case (Some e)
  with assms have e: "e \<in> set tbl" "conversation_id e = cid"
    using get_by_conversation_iff[OF assms(1,2)] by auto
  let ?f = "bind_row sid (resume_frontier e sid) now (bind_rollover_at e sid now)"
  have "rowcount (bind_guard e cid) tbl = 1"
    using rowcount_keyed[OF assms(1), of "bind_guard e cid" cid] e bind_guard_self[OF e(2)]
    by (auto simp: bind_guard_def)
  moreover have "get_by_conversation (Some cid) (upd_where (bind_guard e cid) ?f tbl) = Some (?f e)"
    using upd_where_hit[OF assms(1) e(1), of "bind_guard e cid", OF bind_guard_self[OF e(2)] bind_upd.key_upd] e assms(2) by simp
  ultimately show ?thesis using Some assms by (simp add: bind_plan_def bind_result_def)
qed

lemma bind_session_quiet:
  assumes "wf_lifecycle tbl" "cid \<noteq> []"
  shows "fst (bind_session (\<lambda>_. id) now sid (Some cid) tbl) = Bound (bind_result sid cid (now 0) tbl)"
proof -
  obtain n where n: "BIND_CAS_ATTEMPTS = Suc n" by (simp add: BIND_CAS_ATTEMPTS_def numeral_eq_Suc)
  let ?e = "get_by_conversation (Some cid) tbl"
  show ?thesis
  proof (cases "case ?e of None \<Rightarrow> True | Some e \<Rightarrow> current_session_id e \<noteq> Some sid")
    case True
    from exec_bind_quiet[OF assms refl True, of "now 0"] True assms(2) show ?thesis
      by (auto simp: bind_session_def n bind_existing_def bind_resolved_def bind_read_def Let_def
          split: option.splits)
  next
    case False
    with assms(2) show ?thesis
      by (auto simp: bind_session_def n bind_existing_def bind_result_def Let_def split: option.splits)
  qed
qed

text \<open>
  An undisturbed \<open>bind_session\<close> on a named conversation succeeds and returns the row bound to
  that session: a new row at frontier 0, the row itself when the session already held it, and
  otherwise the row with the resumed frontier (its own finalized frontier if it was last finalized by
  this session and not reset since, else 0).
\<close>

theorem bind_session_returns_bound:
  assumes "lifecycle_reachable tbl" "cid \<noteq> []"
  shows "\<exists>s. fst (bind_session (\<lambda>_. id) now sid (Some cid) tbl) = Bound s
    \<and> conversation_id s = cid \<and> current_session_id s = Some sid
    \<and> (case get_by_conversation (Some cid) tbl of
         None \<Rightarrow> current_frontier_store_id s = 0
       | Some e \<Rightarrow> current_frontier_store_id s =
           (if current_session_id e = Some sid then current_frontier_store_id e else resume_frontier e sid))"
proof -
  note wf = lifecycle_reachable_wf[OF assms(1)]
  show ?thesis
  proof (cases "get_by_conversation (Some cid) tbl")
    case None
    with bind_session_quiet[OF wf assms(2), of now sid] show ?thesis
      by (simp add: bind_result_def blank_row_def)
  next
    case (Some e)
    with get_by_conversation_iff[OF wf assms(2), of e] have "conversation_id e = cid" by simp
    with Some bind_session_quiet[OF wf assms(2), of now sid] show ?thesis
      by (simp add: bind_result_def bind_row_def)
  qed
qed

theorem bind_session_returns_bound_witness:
  "\<exists>s. fst (bind_session (\<lambda>_. id) (\<lambda>_. 3) ''s'' (Some ''c'') []) = Bound s \<and> current_session_id s = Some ''s''"
  using bind_session_returns_bound[OF lifecycle_reachable.empty, of "''c''" "\<lambda>_. 3" "''s''"] by auto

text \<open>
  Finalize and bind form a round trip.  After a session finalizes at a frontier, binding the same
  session again resumes at that frontier or the higher one it had already finalized, provided no reset
  is stamped later than the finalize; binding any other session starts at 0.
\<close>

theorem finalize_then_bind_resumes:
  assumes "wf_lifecycle tbl" "r \<in> set tbl" "conversation_id r = cid" "cid \<noteq> []"
    and "current_session_id r = Some sid"
    and "case last_reset_at r of None \<Rightarrow> True | Some reset \<Rightarrow> reset \<le> now1"
    and "tbl1 = snd (finalize_session (Some cid) sid frontier now1 tbl)"
  shows "\<exists>s. fst (bind_session (\<lambda>_. id) now2 any_sid (Some cid) tbl1) = Bound s
      \<and> current_session_id s = Some any_sid
      \<and> (if any_sid = sid
         then frontier \<le> current_frontier_store_id s
           \<and> (last_finalized_session_id r = Some sid \<or> current_frontier_store_id s = frontier)
         else current_frontier_store_id s = 0)"
proof -
  let ?r1 = "finalize_row sid frontier now1 r"
  have t1: "tbl1 = upd_where (\<lambda>x. conversation_id x = cid) (finalize_row sid frontier now1) tbl"
    using assms(4,7) by (simp add: finalize_session_def Let_def)
  have wf1: "wf_lifecycle tbl1" by (simp add: t1 wf_upd_where assms(1))
  have g: "get_by_conversation (Some cid) tbl1 = Some ?r1"
    using upd_where_hit[OF assms(1,2) _ finalize_upd.key_upd, of "\<lambda>x. conversation_id x = cid"] assms(3,4)
    by (simp add: t1)
  have r1: "current_session_id ?r1 = None" "last_finalized_session_id ?r1 = Some sid"
    "not_reset_since_finalize ?r1" "frontier \<le> last_finalized_frontier_store_id ?r1"
    "last_finalized_session_id r = Some sid \<or> last_finalized_frontier_store_id ?r1 = frontier"
    using assms(5,6) by (auto simp: finalize_row_def not_reset_since_finalize_def split: option.splits)
  show ?thesis
    using bind_session_quiet[OF wf1 assms(4), of now2 any_sid] r1
    by (auto simp: bind_result_def g bind_row_def resume_frontier_def)
qed

theorem finalize_then_bind_resumes_witness:
  "\<exists>s. fst (bind_session (\<lambda>_. id) (\<lambda>_. 3) ''s'' (Some ''c'')
      (snd (finalize_session (Some ''c'') ''s'' 42 2 [(blank_row ''c'')\<lparr>current_session_id := Some ''s''\<rparr>]))) = Bound s
     \<and> current_frontier_store_id s = 42"
proof -
  let ?r = "(blank_row ''c'')\<lparr>current_session_id := Some ''s''\<rparr>"
  have "wf_lifecycle [?r]" "?r \<in> set [?r]" "conversation_id ?r = ''c''" "''c'' \<noteq> ([] :: string)"
    "current_session_id ?r = Some ''s''" "case last_reset_at ?r of None \<Rightarrow> True | Some reset \<Rightarrow> reset \<le> 2"
    by (simp_all add: wf_lifecycle_def blank_row_def)
  from finalize_then_bind_resumes[OF this refl, of "\<lambda>_. 3" "''s''" 42] show ?thesis
    by (auto simp: blank_row_def)
qed

text \<open>
  \<open>rebind_own_finalized\<close> is \<open>bind_session\<close>'s own-finalize branch: when the row still
  qualifies it writes and returns the row that bind would return; when it does not qualify it writes
  nothing and returns nothing.
\<close>

theorem rebind_own_finalized_is_bind:
  assumes "wf_lifecycle tbl" "cid \<noteq> []"
  shows "(case get_by_conversation (Some cid) tbl of
      None \<Rightarrow> rebind_own_finalized sid cid now tbl = (None, tbl)
    | Some e \<Rightarrow>
        if current_session_id e = None \<and> last_finalized_session_id e = Some sid \<and> not_reset_since_finalize e
        then fst (rebind_own_finalized sid cid now tbl) = Some (bind_result sid cid now tbl)
        else rebind_own_finalized sid cid now tbl = (None, tbl))"
proof -
  have rc: "rowcount (rebind_guard sid cid) tbl = (if \<exists>r \<in> set tbl. rebind_guard sid cid r then 1 else 0)"
    by (rule rowcount_keyed[OF assms(1)]) (simp add: rebind_guard_def)
  have none: "rebind_own_finalized sid cid now tbl = (None, tbl)" if "\<forall>r \<in> set tbl. \<not> rebind_guard sid cid r"
    using that rc upd_where_id[OF that] by (auto simp: rebind_own_finalized_def Let_def)
  show ?thesis
  proof (cases "get_by_conversation (Some cid) tbl")
    case None
    with get_by_conversation_None[OF assms(2)] have "\<forall>r \<in> set tbl. \<not> rebind_guard sid cid r"
      by (auto simp: rebind_guard_def)
    from none[OF this] None show ?thesis by simp
  next
    case (Some e)
    then have e: "e \<in> set tbl" "conversation_id e = cid" using get_by_conversation_iff[OF assms] by auto
    show ?thesis
    proof (cases "rebind_guard sid cid e")
      case True
      have "get_by_conversation (Some cid) (upd_where (rebind_guard sid cid) (rebind_row sid now) tbl)
          = Some (rebind_row sid now e)"
        using upd_where_hit[OF assms(1) e(1), of "rebind_guard sid cid", OF True rebind_upd.key_upd] e assms(2) by simp
      moreover have "rebind_row sid now e = bind_result sid cid now tbl"
        using True by (simp add: bind_result_def Some rebind_row_def bind_row_def resume_frontier_def
            bind_rollover_at_def rebind_guard_def)
      ultimately show ?thesis
        using True Some e rc by (auto simp: rebind_own_finalized_def rebind_guard_def Let_def)
    next
      case False
      have "\<forall>r \<in> set tbl. \<not> rebind_guard sid cid r"
        using False e wf_row_unique[OF assms(1) _ e(1)] by (metis rebind_guard_def)
      from none[OF this] False Some e show ?thesis by (simp add: rebind_guard_def)
    qed
  qed
qed

theorem rebind_own_finalized_is_bind_witness:
  "fst (rebind_own_finalized ''s'' ''c'' 5
      [(blank_row ''c'')\<lparr>last_finalized_session_id := Some ''s'', last_finalized_frontier_store_id := 9\<rparr>]) =
   Some (bind_result ''s'' ''c'' 5
      [(blank_row ''c'')\<lparr>last_finalized_session_id := Some ''s'', last_finalized_frontier_store_id := 9\<rparr>])"
  using rebind_own_finalized_is_bind[of
      "[(blank_row ''c'')\<lparr>last_finalized_session_id := Some ''s'', last_finalized_frontier_store_id := 9\<rparr>]" "''c''" "''s''" 5]
  by (simp add: wf_lifecycle_def blank_row_def get_by_conversation_def sel_first_def not_reset_since_finalize_def)


text \<open>
  A frontier advance is a maximum over the row at the moment of the write, whatever other writers
  did between its read and its write: if the conversation is still bound to the session the new
  frontier is the larger of the interfering frontier and the requested one, and if another writer
  moved the binding the row is left exactly as that writer left it.
\<close>

theorem advance_frontier_is_max:
  assumes "wf_lifecycle (others tbl)" "cid \<noteq> []"
    and "get_by_conversation (Some cid) tbl = Some read_row" "current_session_id read_row = Some sid"
    and "get_by_conversation (Some cid) (others tbl) = Some r"
  shows "advance_frontier others (Some cid) sid frontier now tbl =
    (if current_session_id r = Some sid
     then (Some (advance_row frontier now r),
           upd_where (\<lambda>x. conversation_id x = cid) (advance_row frontier now) (others tbl))
     else (Some r, others tbl))"
proof -
  from assms(5) get_by_conversation_iff[OF assms(1,2), of r]
  have r: "r \<in> set (others tbl)" "conversation_id r = cid" by simp_all
  have g: "advance_guard cid sid x = (conversation_id x = cid \<and> current_session_id r = Some sid)"
    if "x \<in> set (others tbl)" for x
    using wf_row_unique[OF assms(1) that r(1)] r(2) by (auto simp: advance_guard_def)
  show ?thesis
  proof (cases "current_session_id r = Some sid")
    case True
    then have "advance_guard cid sid r" using r by (simp add: advance_guard_def)
    from upd_where_hit[OF assms(1) r(1), of "advance_guard cid sid", OF this advance_upd.key_upd]
    have "get_by_conversation (Some cid) (upd_where (advance_guard cid sid) (advance_row frontier now) (others tbl))
        = Some (advance_row frontier now r)" using r(2) assms(2) by simp
    moreover have "upd_where (advance_guard cid sid) (advance_row frontier now) (others tbl)
        = upd_where (\<lambda>x. conversation_id x = cid) (advance_row frontier now) (others tbl)"
      unfolding upd_where_def using True by (intro map_cong) (simp_all add: g)
    ultimately show ?thesis using True assms by (simp add: advance_frontier_def Let_def)
  next
    case False
    have "upd_where (advance_guard cid sid) (advance_row frontier now) (others tbl) = others tbl"
      by (rule upd_where_id) (use False g in auto)
    with False assms show ?thesis by (simp add: advance_frontier_def Let_def)
  qed
qed

theorem advance_frontier_is_max_witness:
  "advance_frontier (\<lambda>_. [(blank_row ''c'')\<lparr>current_session_id := Some ''s'', current_frontier_store_id := 9\<rparr>])
      (Some ''c'') ''s'' 7 2 [(blank_row ''c'')\<lparr>current_session_id := Some ''s''\<rparr>] =
    (Some ((blank_row ''c'')\<lparr>current_session_id := Some ''s'', current_frontier_store_id := 9, updated_at := 2\<rparr>),
     [(blank_row ''c'')\<lparr>current_session_id := Some ''s'', current_frontier_store_id := 9, updated_at := 2\<rparr>])"
proof -
  let ?r = "(blank_row ''c'')\<lparr>current_session_id := Some ''s'', current_frontier_store_id := 9\<rparr>"
  let ?q = "(blank_row ''c'')\<lparr>current_session_id := Some ''s''\<rparr>"
  have "wf_lifecycle ((\<lambda>_. [?r]) [?q])" "''c'' \<noteq> ([] :: string)"
    "get_by_conversation (Some ''c'') [?q] = Some ?q" "current_session_id ?q = Some ''s''"
    "get_by_conversation (Some ''c'') ((\<lambda>_. [?r]) [?q]) = Some ?r"
    by (simp_all add: wf_lifecycle_def blank_row_def get_by_conversation_def sel_first_def)
  from advance_frontier_is_max[of "\<lambda>_. [?r]" "[?q]", OF this, of 7 2] show ?thesis
    by (simp add: advance_row_def upd_where_def blank_row_def)
qed

lemma prunable_refs:
  assumes "prunable db prot age now r"
    and "sid \<in> {text_of (current_session_id r), text_of (last_finalized_session_id r)} - {[]}"
  shows "sid \<notin> set (map m_session_id (messages db))" "sid \<notin> set (map n_session_id (summary_nodes db))"
    "sid \<notin> set prot"
proof -
  have "\<not> session_has_data db sid" using assms unfolding prunable_def Let_def by blast
  with assms(2) show "sid \<notin> set (map m_session_id (messages db))" "sid \<notin> set (map n_session_id (summary_nodes db))"
    unfolding session_has_data_def by fastforce+
  let ?refs = "[text_of (current_session_id r), text_of (last_finalized_session_id r)]"
  have "sid \<in> set (filter (\<lambda>s. s \<noteq> []) ?refs)" using assms(2) by auto
  moreover have "set (filter (\<lambda>s. s \<noteq> []) ?refs) \<inter> set (filter (\<lambda>s. s \<noteq> []) prot) = {}"
    using assms(1) unfolding prunable_def Let_def by blast
  ultimately show "sid \<notin> set prot" using assms(2) by auto
qed

text \<open>
  \<open>prune_empty_sessions\<close> deletes only rows that are safe to lose: a deleted row names no session
  that still has a message or a summary node, names no protected session, and, when an age bound is
  given, is at least that old.  It keeps every other row unchanged and in order, touches no other
  table, and returns the number of rows it deleted.
\<close>

theorem prune_empty_sessions_safe:
  assumes "wf_lifecycle (lifecycle db)"
    and "prune_empty_sessions protected_ids age now db = (n, db')"
  shows "db' = db\<lparr>lifecycle := filter (\<lambda>r. r \<in> set (lifecycle db')) (lifecycle db)\<rparr>
    \<and> n = length (lifecycle db) - length (lifecycle db')
    \<and> (\<forall>r \<in> set (lifecycle db) - set (lifecycle db').
         (\<forall>sid \<in> {text_of (current_session_id r), text_of (last_finalized_session_id r)} - {[]}.
            sid \<notin> set (map m_session_id (messages db)) \<and> sid \<notin> set (map n_session_id (summary_nodes db))
            \<and> sid \<notin> set protected_ids)
         \<and> (\<forall>h. age = Some h \<longrightarrow> h * 3600 \<le> now - row_age_stamp r))"
proof -
  let ?P = "prunable db protected_ids age now"
  from assms prune_empty_sessions_eq[OF assms(1), of protected_ids age now]
  have eq: "n = length (filter ?P (lifecycle db))" "db' = db\<lparr>lifecycle := filter (\<lambda>r. \<not> ?P r) (lifecycle db)\<rparr>"
    by auto
  have kept: "filter (\<lambda>r. r \<in> set (lifecycle db')) (lifecycle db) = filter (\<lambda>r. \<not> ?P r) (lifecycle db)"
    by (rule filter_cong) (auto simp: eq(2))
  have gone: "?P r" if "r \<in> set (lifecycle db) - set (lifecycle db')" for r
    using that by (auto simp: eq(2))
  show ?thesis
  proof (intro conjI ballI allI impI)
    show "db' = db\<lparr>lifecycle := filter (\<lambda>r. r \<in> set (lifecycle db')) (lifecycle db)\<rparr>"
      unfolding kept by (rule eq(2))
    show "n = length (lifecycle db) - length (lifecycle db')"
      using sum_length_filter_compl[of ?P "lifecycle db"] by (simp add: eq)
  next
    fix r h assume "r \<in> set (lifecycle db) - set (lifecycle db')" "age = Some h"
    then show "h * 3600 \<le> now - row_age_stamp r"
      using gone[of r] by (simp add: prunable_def Let_def not_less)
  qed (use prunable_refs[OF gone] in blast)+
qed

theorem prune_empty_sessions_safe_witness:
  "prune_empty_sessions [''b''] None 10
      \<lparr>messages = [], summary_nodes = [], node_seq = 0, node_provenance = [],
       lifecycle = [(blank_row ''x'')\<lparr>current_session_id := Some ''a''\<rparr>, (blank_row ''y'')\<lparr>current_session_id := Some ''b''\<rparr>]\<rparr> =
    (1, \<lparr>messages = [], summary_nodes = [], node_seq = 0, node_provenance = [],
         lifecycle = [(blank_row ''y'')\<lparr>current_session_id := Some ''b''\<rparr>]\<rparr>)
   \<and> ''a'' \<notin> set [''b'' :: string]"
proof -
  let ?x = "(blank_row ''x'')\<lparr>current_session_id := Some ''a''\<rparr>" and ?y = "(blank_row ''y'')\<lparr>current_session_id := Some ''b''\<rparr>"
  let ?db = "\<lparr>messages = [], summary_nodes = [], node_seq = 0, node_provenance = [], lifecycle = [?x, ?y]\<rparr> :: lcm_db"
  have wf: "wf_lifecycle (lifecycle ?db)" by (simp add: wf_lifecycle_def blank_row_def)
  have run: "prune_empty_sessions [''b''] None 10 ?db = (1, ?db\<lparr>lifecycle := [?y]\<rparr>)"
    by (simp add: prune_empty_sessions_def prunable_def session_has_data_def sessions_with_data_def
        text_of_def del_where_def blank_row_def Let_def)
  from prune_empty_sessions_safe[OF wf run] run show ?thesis by (simp add: text_of_def blank_row_def)
qed

end
