(* ===== verification/Fragmentation.thy ===== *)
theory Fragmentation
  imports Lifecycle "HOL-Library.List_Lexorder" "HOL-Library.Char_ord"
begin

text \<open>
  The read-only lifecycle diagnostics of \<^verbatim>\<open>src/lifecycle_state.py\<close>: the counters of
  \<open>get_fragmentation_stats\<close> and the categories of \<open>_classify_fragmentation\<close>.  The host's session
  database is outside the program; its possible outcomes (no path given, file missing, read failed,
  rows read) are the constructors of \<open>state_db\<close>.  Python compares strings by code point, which is
  the lexicographic order used by \<open>sorted_list_of_set\<close> here.
\<close>

datatype state_db =
    StateDbNotGiven
  | StateDbMissing string
  | StateDbFailed string
  | StateDbRows "string option list"

record category =
  cat_name :: string
  cat_severity :: string
  cat_count :: nat
  cat_sample_session_ids :: "string list"
  cat_description :: string
  cat_recommended_action :: string

record classification =
  cl_read_only :: bool
  cl_status :: string
  cl_summary :: string
  cl_categories :: "category list"

definition sample_ids :: "string set \<Rightarrow> nat \<Rightarrow> string list" where
  "sample_ids session_ids n = take n (sorted_list_of_set session_ids)"

definition add_category ::
  "string \<Rightarrow> string set \<Rightarrow> string \<Rightarrow> string \<Rightarrow> string \<Rightarrow> category list \<Rightarrow> category list" where
  "add_category name session_ids severity description recommended_action categories =
     (if session_ids = {} then categories
      else categories @ [\<lparr>cat_name = name, cat_severity = severity, cat_count = card session_ids,
        cat_sample_session_ids = sample_ids session_ids 5, cat_description = description,
        cat_recommended_action = recommended_action\<rparr>])"

record session_sets =
  ss_current :: "string set"
  ss_finalized :: "string set"
  ss_message :: "string set"
  ss_node :: "string set"
  ss_state :: "string set"

definition ss_any :: "session_sets \<Rightarrow> string set" where
  "ss_any s = ss_message s \<union> ss_node s"

definition ss_referenced :: "session_sets \<Rightarrow> string set" where
  "ss_referenced s = ss_current s \<union> ss_finalized s"

text \<open>The three groups of \<open>add_category\<close> calls, in the order of the code.\<close>

definition stale_categories :: "session_sets \<Rightarrow> category list \<Rightarrow> category list" where
  "stale_categories s cats =
     add_category ''stale_lifecycle_finalized'' (ss_finalized s - ss_any s) ''warn''
       ''Lifecycle finalized-session references that no longer have raw messages or summary nodes in LCM.''
       ''Inspect samples before cleanup; only remove with an explicit backup-first lifecycle cleanup flow.''
    (add_category ''stale_lifecycle_current'' (ss_current s - ss_any s) ''warn''
       ''Lifecycle current-session references that no longer have raw messages or summary nodes in LCM.''
       ''Inspect samples before cleanup; these are often old or ephemeral lifecycle rows, not automatic corruption.''
     cats)"

definition unreferenced_categories :: "session_sets \<Rightarrow> category list \<Rightarrow> category list" where
  "unreferenced_categories s cats =
     add_category ''lcm_node_sessions_without_lifecycle_reference'' (ss_node s - ss_referenced s) ''notice''
       ''Summary-node sessions exist in LCM but are not referenced by current or finalized lifecycle state.''
       ''Usually safe as historical retained context; verify expand/search still work before considering cleanup.''
    (add_category ''lcm_message_sessions_without_lifecycle_reference'' (ss_message s - ss_referenced s) ''notice''
       ''Raw-message sessions exist in LCM but are not referenced by current or finalized lifecycle state.''
       ''Usually safe as historical retained context; investigate only if the sessions should belong to an active conversation.''
     cats)"

definition host_categories :: "session_sets \<Rightarrow> category list \<Rightarrow> category list" where
  "host_categories s cats =
     add_category ''state_only_sessions'' (ss_state s - ss_any s) ''notice''
       ''Hermes host sessions exist without raw messages or summary nodes in LCM.''
       ''Usually benign for sessions outside LCM scope, ignored sessions, or sessions that never reached durable LCM ingest.''
    (add_category ''lcm_node_sessions_missing_in_state'' (ss_node s - ss_state s) ''notice''
       ''LCM summary-node sessions are absent from the Hermes session database.''
       ''Keep read-only; this can happen after host session pruning while LCM retained summaries remain useful.''
    (add_category ''lcm_message_sessions_missing_in_state'' (ss_message s - ss_state s) ''notice''
       ''LCM raw-message sessions are absent from the Hermes session database.''
       ''Treat as retained or imported context unless the session should still be browsable in host session history.''
     cats))"

definition fragmentation_categories :: "nat \<Rightarrow> session_sets \<Rightarrow> bool \<Rightarrow> category list" where
  "fragmentation_categories lifecycle_rows s state_db_read_success =
     (let c1 = stale_categories s [];
          c2 = (if lifecycle_rows > 0 then unreferenced_categories s c1 else c1)
      in if state_db_read_success then host_categories s c2 else c2)"

definition classify_fragmentation :: "nat \<Rightarrow> session_sets \<Rightarrow> bool \<Rightarrow> classification" where
  "classify_fragmentation lifecycle_rows s state_db_read_success =
     (let categories = fragmentation_categories lifecycle_rows s state_db_read_success;
          warn_count = length (filter (\<lambda>c. cat_severity c = ''warn'') categories)
      in \<lparr>cl_read_only = True,
          cl_status = (if warn_count \<noteq> 0 then ''warn'' else if categories \<noteq> [] then ''notice'' else ''pass''),
          cl_summary = (if categories = [] then ''no lifecycle fragmentation categories detected''
                        else nat_digits (length categories) @ '' lifecycle fragmentation categories need review''),
          cl_categories = categories\<rparr>)"

section \<open>The counters\<close>

record fragmentation_stats =
  read_only :: bool
  lifecycle_rows :: nat
  empty_lifecycle_rows :: nat
  messages_total :: nat
  summary_nodes_total :: nat
  distinct_message_sessions :: nat
  distinct_node_sessions :: nat
  distinct_lcm_any_sessions :: nat
  lifecycle_current_sessions :: nat
  lifecycle_last_finalized_sessions :: nat
  lifecycle_current_missing_in_messages :: nat
  lifecycle_current_missing_in_nodes :: nat
  lifecycle_current_missing_in_lcm_any :: nat
  lifecycle_last_finalized_missing_in_messages :: nat
  lifecycle_last_finalized_missing_in_nodes :: nat
  lifecycle_last_finalized_missing_in_lcm_any :: nat
  message_sessions_without_lifecycle_current :: nat
  message_sessions_without_lifecycle_reference :: nat
  node_sessions_without_lifecycle_reference :: nat
  state_db_checked :: bool
  state_db_error :: string
  state_sessions_total :: nat
  lifecycle_current_missing_in_state :: nat
  lifecycle_last_finalized_missing_in_state :: nat
  lcm_message_sessions_missing_in_state :: nat
  lcm_node_sessions_missing_in_state :: nat
  state_sessions_missing_in_lcm_messages :: nat
  state_sessions_missing_in_lcm_any :: nat
  stats_classification :: classification

definition truthy_ids :: "string option list \<Rightarrow> string set" where
  "truthy_ids ids = set (map text_of (filter truthy_str ids))"

definition state_rows :: "state_db \<Rightarrow> string option list" where
  "state_rows sdb = (case sdb of StateDbRows rows \<Rightarrow> rows | _ \<Rightarrow> [])"

definition db_session_sets :: "state_db \<Rightarrow> lcm_db \<Rightarrow> session_sets" where
  "db_session_sets sdb db =
     \<lparr>ss_current = truthy_ids (map current_session_id (lifecycle db)),
      ss_finalized = truthy_ids (map last_finalized_session_id (lifecycle db)),
      ss_message = truthy_ids (map (Some \<circ> m_session_id) (messages db)),
      ss_node = truthy_ids (map (Some \<circ> n_session_id) (summary_nodes db)),
      ss_state = truthy_ids (state_rows sdb)\<rparr>"

definition row_refs :: "LifecycleState \<Rightarrow> string set" where
  "row_refs r = truthy_ids [current_session_id r, last_finalized_session_id r]"

definition row_is_empty :: "string set \<Rightarrow> LifecycleState \<Rightarrow> bool" where
  "row_is_empty any_sessions r = (row_refs r = {} \<or> row_refs r \<inter> any_sessions = {})"

definition host_stats :: "state_db \<Rightarrow> session_sets \<Rightarrow> fragmentation_stats \<Rightarrow> fragmentation_stats" where
  "host_stats sdb s st = (case sdb of
     StateDbNotGiven \<Rightarrow> st
   | StateDbMissing path \<Rightarrow> st\<lparr>state_db_error := ''state database not found: '' @ path\<rparr>
   | StateDbFailed exc \<Rightarrow> st\<lparr>state_db_checked := True, state_db_error := exc\<rparr>
   | StateDbRows _ \<Rightarrow> st\<lparr>state_db_checked := True,
       state_sessions_total := card (ss_state s),
       lifecycle_current_missing_in_state := card (ss_current s - ss_state s),
       lifecycle_last_finalized_missing_in_state := card (ss_finalized s - ss_state s),
       lcm_message_sessions_missing_in_state := card (ss_message s - ss_state s),
       lcm_node_sessions_missing_in_state := card (ss_node s - ss_state s),
       state_sessions_missing_in_lcm_messages := card (ss_state s - ss_message s),
       state_sessions_missing_in_lcm_any := card (ss_state s - ss_any s)\<rparr>)"

definition state_db_read_success :: "state_db \<Rightarrow> bool" where
  "state_db_read_success sdb = (case sdb of StateDbRows _ \<Rightarrow> True | _ \<Rightarrow> False)"

definition get_fragmentation_stats :: "state_db \<Rightarrow> lcm_db \<Rightarrow> fragmentation_stats" where
  "get_fragmentation_stats sdb db =
     (let s = db_session_sets sdb db; any = ss_any s;
          st = \<lparr>read_only = True,
            lifecycle_rows = length (lifecycle db),
            empty_lifecycle_rows = length (filter (row_is_empty any) (lifecycle db)),
            messages_total = length (messages db),
            summary_nodes_total = length (summary_nodes db),
            distinct_message_sessions = card (ss_message s),
            distinct_node_sessions = card (ss_node s),
            distinct_lcm_any_sessions = card any,
            lifecycle_current_sessions = card (ss_current s),
            lifecycle_last_finalized_sessions = card (ss_finalized s),
            lifecycle_current_missing_in_messages = card (ss_current s - ss_message s),
            lifecycle_current_missing_in_nodes = card (ss_current s - ss_node s),
            lifecycle_current_missing_in_lcm_any = card (ss_current s - any),
            lifecycle_last_finalized_missing_in_messages = card (ss_finalized s - ss_message s),
            lifecycle_last_finalized_missing_in_nodes = card (ss_finalized s - ss_node s),
            lifecycle_last_finalized_missing_in_lcm_any = card (ss_finalized s - any),
            message_sessions_without_lifecycle_current = card (ss_message s - ss_current s),
            message_sessions_without_lifecycle_reference = card (ss_message s - ss_referenced s),
            node_sessions_without_lifecycle_reference = card (ss_node s - ss_referenced s),
            state_db_checked = False, state_db_error = [], state_sessions_total = 0,
            lifecycle_current_missing_in_state = 0, lifecycle_last_finalized_missing_in_state = 0,
            lcm_message_sessions_missing_in_state = 0, lcm_node_sessions_missing_in_state = 0,
            state_sessions_missing_in_lcm_messages = 0, state_sessions_missing_in_lcm_any = 0,
            stats_classification = classify_fragmentation (length (lifecycle db)) s (state_db_read_success sdb)\<rparr>
      in host_stats sdb s st)"

section \<open>Status and counters agree with the tables\<close>

lemma mem_truthy_ids: "sid \<in> truthy_ids ids \<longleftrightarrow> sid \<noteq> [] \<and> Some sid \<in> set ids"
  by (force simp: truthy_ids_def truthy_str_def text_of_def split: option.splits)

lemma finite_truthy_ids [simp]: "finite (truthy_ids ids)"
  by (simp add: truthy_ids_def)

lemma add_category_severities:
  "cat_severity ` set (add_category name ids sev d a cats) =
     cat_severity ` set cats \<union> (if ids = {} then {} else {sev})"
  by (auto simp: add_category_def)

lemma add_category_Nil:
  "add_category name ids sev d a cats = [] \<longleftrightarrow> ids = {} \<and> cats = []"
  by (simp add: add_category_def)

lemma fragmentation_warn_iff:
  "''warn'' \<in> cat_severity ` set (fragmentation_categories n s ok) \<longleftrightarrow> ss_referenced s - ss_any s \<noteq> {}"
  by (auto simp: fragmentation_categories_def stale_categories_def unreferenced_categories_def
      host_categories_def add_category_severities ss_referenced_def Let_def split: if_splits)

lemma fragmentation_Nil_iff:
  "fragmentation_categories n s ok = [] \<longleftrightarrow>
     ss_referenced s \<subseteq> ss_any s \<and> (n > 0 \<longrightarrow> ss_any s \<subseteq> ss_referenced s)
     \<and> (ok \<longrightarrow> ss_any s = ss_state s)"
  by (auto simp: fragmentation_categories_def stale_categories_def unreferenced_categories_def
      host_categories_def add_category_Nil ss_referenced_def ss_any_def Let_def)

lemma host_stats_keeps:
  "stats_classification (host_stats sdb s st) = stats_classification st"
  "empty_lifecycle_rows (host_stats sdb s st) = empty_lifecycle_rows st"
  by (simp_all add: host_stats_def split: state_db.splits)

text \<open>
  The reported status is exactly what the tables say.  It is \<open>warn\<close> if and only if some lifecycle
  row names a session with neither messages nor summary nodes; it is \<open>pass\<close> if and only if every
  referenced session has data, every session with data is referenced (when there is any lifecycle row
  at all) and, when the host database was read, it lists exactly the sessions with data.
\<close>

theorem fragmentation_status_exact:
  "let s = db_session_sets sdb db;
       status = cl_status (stats_classification (get_fragmentation_stats sdb db))
   in (status = ''warn'' \<longleftrightarrow> (\<exists>r \<in> set (lifecycle db). \<exists>sid \<in> row_refs r. sid \<notin> ss_any s))
    \<and> (status = ''pass'' \<longleftrightarrow>
         ss_referenced s \<subseteq> ss_any s \<and> (lifecycle db = [] \<or> ss_any s \<subseteq> ss_referenced s)
         \<and> (\<not> state_db_read_success sdb \<or> ss_any s = ss_state s))"
proof -
  let ?s = "db_session_sets sdb db"
  let ?c = "fragmentation_categories (length (lifecycle db)) ?s (state_db_read_success sdb)"
  have st: "cl_status (stats_classification (get_fragmentation_stats sdb db)) =
      (if ''warn'' \<in> cat_severity ` set ?c then ''warn'' else if ?c \<noteq> [] then ''notice'' else ''pass'')"
    by (simp add: get_fragmentation_stats_def host_stats_keeps classify_fragmentation_def Let_def
        filter_empty_conv image_iff eq_commute[of "''warn''"])
  have refs: "ss_referenced ?s = (\<Union>r \<in> set (lifecycle db). row_refs r)"
    by (auto simp: ss_referenced_def db_session_sets_def row_refs_def mem_truthy_ids image_iff)
  have warn: "(''warn'' \<in> cat_severity ` set ?c) = (\<exists>r \<in> set (lifecycle db). \<exists>sid \<in> row_refs r. sid \<notin> ss_any ?s)"
    unfolding fragmentation_warn_iff refs by blast
  have pass: "(?c = []) = (ss_referenced ?s \<subseteq> ss_any ?s \<and> (lifecycle db = [] \<or> ss_any ?s \<subseteq> ss_referenced ?s)
         \<and> (\<not> state_db_read_success sdb \<or> ss_any ?s = ss_state ?s))"
    unfolding fragmentation_Nil_iff by auto
  have "\<not> ''warn'' \<in> cat_severity ` set ?c" if "?c = []" using that by simp
  then show ?thesis unfolding Let_def st warn[symmetric] pass[symmetric] by auto
qed

theorem fragmentation_status_exact_witness:
  "cl_status (stats_classification (get_fragmentation_stats StateDbNotGiven
      \<lparr>messages = [], summary_nodes = [], node_seq = 0, node_provenance = [],
       lifecycle = [(blank_row ''c'')\<lparr>current_session_id := Some ''s''\<rparr>]\<rparr>)) = ''warn''"
  using fragmentation_status_exact[of StateDbNotGiven
      "\<lparr>messages = [], summary_nodes = [], node_seq = 0, node_provenance = [],
       lifecycle = [(blank_row ''c'')\<lparr>current_session_id := Some ''s''\<rparr>]\<rparr>"]
  by (simp add: Let_def row_refs_def truthy_ids_def ss_any_def db_session_sets_def blank_row_def)

lemma pair_disjoint:
  "e \<notin> A \<Longrightarrow> ({a, b} - {e} = {} \<or> ({a, b} - {e}) \<inter> A = {}) \<longleftrightarrow> a \<notin> A \<and> b \<notin> A"
  by blast

text \<open>
  The diagnostic and the cleanup agree: the \<open>empty_lifecycle_rows\<close> counter is exactly the number
  of rows that \<open>prune_empty_sessions\<close> deletes with nothing protected and no age bound.
\<close>

theorem prune_deletes_empty_lifecycle_rows:
  assumes "wf_lifecycle (lifecycle db)"
  shows "fst (prune_empty_sessions [] None now db) = empty_lifecycle_rows (get_fragmentation_stats sdb db)"
proof -
  have "prunable db [] None now r = row_is_empty (ss_any (db_session_sets sdb db)) r" for r
  proof -
    have any: "sid \<in> ss_any (db_session_sets sdb db) \<longleftrightarrow> sid \<noteq> [] \<and> sid \<in> sessions_with_data db" for sid
      by (auto simp: ss_any_def db_session_sets_def mem_truthy_ids sessions_with_data_def)
    have hd: "session_has_data db sid \<longleftrightarrow> sid \<noteq> [] \<and> sid \<in> sessions_with_data db" for sid
      by (auto simp: session_has_data_def sessions_with_data_def)
    have refs: "row_refs r = {text_of (current_session_id r), text_of (last_finalized_session_id r)} - {[]}"
      by (auto simp: row_refs_def truthy_ids_def truthy_str_def text_of_def split: option.splits)
    have "row_is_empty (ss_any (db_session_sets sdb db)) r \<longleftrightarrow>
        \<not> session_has_data db (text_of (current_session_id r))
        \<and> \<not> session_has_data db (text_of (last_finalized_session_id r))"
      unfolding row_is_empty_def refs hd any[symmetric] by (rule pair_disjoint) (simp add: any)
    moreover have "prunable db [] None now r \<longleftrightarrow>
        \<not> session_has_data db (text_of (current_session_id r))
        \<and> \<not> session_has_data db (text_of (last_finalized_session_id r))"
      unfolding prunable_def Let_def hd by simp
    ultimately show ?thesis by simp
  qed
  then have "filter (prunable db [] None now) (lifecycle db) =
      filter (row_is_empty (ss_any (db_session_sets sdb db))) (lifecycle db)" by (intro filter_cong) simp_all
  then show ?thesis
    by (simp add: prune_empty_sessions_eq[OF assms] get_fragmentation_stats_def host_stats_keeps Let_def)
qed

theorem prune_deletes_empty_lifecycle_rows_witness:
  "fst (prune_empty_sessions [] None 5 \<lparr>messages = [], summary_nodes = [], node_seq = 0, node_provenance = [],
      lifecycle = [blank_row ''c'']\<rparr>) =
   empty_lifecycle_rows (get_fragmentation_stats StateDbNotGiven
      \<lparr>messages = [], summary_nodes = [], node_seq = 0, node_provenance = [], lifecycle = [blank_row ''c'']\<rparr>)"
  by (rule prune_deletes_empty_lifecycle_rows) (simp add: wf_lifecycle_def)

end
