(* ===== verification/Summary_DAG.thy ===== *)
theory Summary_DAG
  imports Tables "HOL-Library.List_Lexorder" "HOL-Library.Char_ord" "HOL-Library.Multiset"
begin

text \<open>
  The summary DAG of \<^verbatim>\<open>src/dag.py\<close> over the tables \<open>summary_nodes\<close> and
  \<open>summary_node_provenance\<close>, and the write wrapper of \<^verbatim>\<open>src/sqlite_util.py\<close>.  Rows stand in
  row-id order, which is insertion order because node ids are AUTOINCREMENT; a query's ORDER BY is a
  stable sort of them.  \<open>source_ids\<close> is the decoded JSON list.  What SQLite may report for a write
  is the parameter \<open>fault\<close> (raised when an attempt starts; a later fault rolls back to the same state), and what other connections write between two transactions is the
  parameter \<open>others\<close>.
\<close>

definition default_node :: SummaryNode where
  "default_node = \<lparr>node_id = 0, n_session_id = [], depth = 0, summary = [], token_count = 0,
     source_token_count = 0, source_ids = [], source_type = ''messages'', created_at = 0,
     earliest_at = None, latest_at = None, expand_hint = []\<rparr>"

definition empty_db :: lcm_db where
  "empty_db = \<lparr>messages = [], summary_nodes = [], node_seq = 0, node_provenance = [], lifecycle = []\<rparr>"

section \<open>The write wrapper\<close>

datatype sqlite_error = BusySnapshot | Locked | SqliteOther string

text \<open>
  An operation runs on the database of its attempt and either fails or returns a value; either way it
  may have written.  Outside an owner's transaction a failure rolls its writes back, and a stale
  snapshot is retried once from the state other writers have left.
\<close>

definition run_sqlite_write_with_snapshot_retry ::
  "bool \<Rightarrow> ('e \<Rightarrow> bool) \<Rightarrow> ('db \<Rightarrow> 'db) \<Rightarrow> (nat \<Rightarrow> 'db \<Rightarrow> ('e + 'a) \<times> 'db) \<Rightarrow> 'db \<Rightarrow> ('e + 'a) \<times> 'db" where
  "run_sqlite_write_with_snapshot_retry owner_active is_busy_snapshot others operation db =
     (if owner_active then operation 0 db
      else (case operation 0 db of
              (Inr a, db') \<Rightarrow> (Inr a, db')
            | (Inl e, _) \<Rightarrow>
                if is_busy_snapshot e
                then (case operation 1 (others db) of
                        (Inr a, db') \<Rightarrow> (Inr a, db')
                      | (Inl e', _) \<Rightarrow> (Inl e', others db))
                else (Inl e, db)))"

section \<open>Writes\<close>

datatype 'e add_node_error = ConnectionClosed | SqliteError sqlite_error | CallbackError 'e

definition is_busy_snapshot :: "'e add_node_error \<Rightarrow> bool" where
  "is_busy_snapshot e = (e = SqliteError BusySnapshot)"

definition new_node :: "SummaryNode \<Rightarrow> timestamp \<Rightarrow> int \<Rightarrow> SummaryNode" where
  "new_node node now nid =
     node\<lparr>node_id := nid, created_at := (if created_at node \<noteq> 0 then created_at node else now)\<rparr>"

definition put_provenance :: "provenance_row \<Rightarrow> provenance_row list \<Rightarrow> provenance_row list" where
  "put_provenance row rows = del_where (\<lambda>p. p_node_id p = p_node_id row) rows @ [row]"

definition insert_node ::
  "(nat \<Rightarrow> sqlite_error option) \<Rightarrow> SummaryNode \<Rightarrow> (int \<Rightarrow> lcm_db \<Rightarrow> ('e add_node_error + unit) \<times> lcm_db) option \<Rightarrow> int option \<Rightarrow> string
     \<Rightarrow> timestamp \<Rightarrow> nat \<Rightarrow> lcm_db \<Rightarrow> ('e add_node_error + int) \<times> lcm_db" where
  "insert_node fault node before_commit escalation_level model now attempt db =
     (case fault attempt of
        Some e \<Rightarrow> (Inl (SqliteError e), db)
      | None \<Rightarrow>
          (let nid = node_seq db + 1;
               db1 = db\<lparr>summary_nodes := summary_nodes db @ [new_node node now nid], node_seq := nid\<rparr>;
               db2 = (case escalation_level of
                        None \<Rightarrow> db1
                      | Some level \<Rightarrow> db1\<lparr>node_provenance := put_provenance
                          \<lparr>p_node_id = nid, p_escalation_level = level, p_model = model, p_created_at = now\<rparr>
                          (node_provenance db1)\<rparr>)
           in case before_commit of
                None \<Rightarrow> (Inr nid, db2)
              | Some callback \<Rightarrow>
                  (case callback nid db2 of
                     (Inl e, db3) \<Rightarrow> (Inl e, db3)
                   | (Inr _, db3) \<Rightarrow> (Inr nid, db3))))"

definition add_node ::
  "(nat \<Rightarrow> sqlite_error option) \<Rightarrow> (lcm_db \<Rightarrow> lcm_db) \<Rightarrow> bool \<Rightarrow> SummaryNode
     \<Rightarrow> (int \<Rightarrow> lcm_db \<Rightarrow> ('e add_node_error + unit) \<times> lcm_db) option \<Rightarrow> int option \<Rightarrow> string \<Rightarrow> timestamp \<Rightarrow> lcm_db
     \<Rightarrow> ('e add_node_error + int) \<times> lcm_db" where
  "add_node fault others conn_open node before_commit escalation_level model now db =
     (if \<not> conn_open then (Inl ConnectionClosed, db)
      else run_sqlite_write_with_snapshot_retry False is_busy_snapshot others
             (insert_node fault node before_commit escalation_level model now) db)"

definition stage_delete_session_scope :: "string list \<Rightarrow> string list" where
  "stage_delete_session_scope session_ids = sorted_list_of_set (set (filter (\<lambda>s. s \<noteq> []) session_ids))"

definition in_delete_scope :: "string list \<Rightarrow> int option \<Rightarrow> SummaryNode \<Rightarrow> bool" where
  "in_delete_scope scope min_depth n =
     (n_session_id n \<in> set scope \<and> (case min_depth of None \<Rightarrow> True | Some d \<Rightarrow> depth n < d))"

definition delete_order :: "int option \<Rightarrow> SummaryNode list \<Rightarrow> SummaryNode list" where
  "delete_order min_depth rows = (case min_depth of
     None \<Rightarrow> sort_key (\<lambda>n. (n_session_id n, node_id n)) rows
   | Some _ \<Rightarrow> sort_key (\<lambda>n. (n_session_id n, depth n, node_id n)) rows)"

definition delete_node_batch ::
  "string list \<Rightarrow> int option \<Rightarrow> int \<Rightarrow> string list option \<Rightarrow> lcm_db \<Rightarrow> int list \<times> lcm_db" where
  "delete_node_batch session_ids min_depth batch_size staged_scope db =
     (let batch = max 1 (min 256 batch_size);
          scope = (case staged_scope of Some staged \<Rightarrow> staged | None \<Rightarrow> stage_delete_session_scope session_ids)
      in if staged_scope = None \<and> length scope = 0 then ([], db)
         else (let rows = take (nat batch) (delete_order min_depth
                            (filter (in_delete_scope scope min_depth) (summary_nodes db)));
                   node_ids = map node_id rows
               in (node_ids,
                   if node_ids = [] then db
                   else db\<lparr>summary_nodes := del_where (\<lambda>n. node_id n \<in> set node_ids) (summary_nodes db)\<rparr>)))"

lemma set_delete_order [simp]: "set (delete_order d rows) = set rows"
  by (simp add: delete_order_def split: option.splits)

lemma delete_node_batch_shrinks:
  assumes "delete_node_batch sids d b st db = (ids, db')" "ids \<noteq> []"
  shows "length (summary_nodes db') < length (summary_nodes db)"
proof -
  from assms have ids: "set ids \<subseteq> node_id ` set (summary_nodes db)"
    by (force simp: delete_node_batch_def Let_def split: if_splits dest: in_set_takeD)
  from assms(2) obtain i where "i \<in> set ids" by (cases ids) auto
  with ids obtain n where n: "n \<in> set (summary_nodes db)" "node_id n \<in> set ids" by blast
  from assms have "summary_nodes db' = del_where (\<lambda>n. node_id n \<in> set ids) (summary_nodes db)"
    by (auto simp: delete_node_batch_def Let_def split: if_splits)
  with n show ?thesis unfolding del_where_def by (simp add: length_filter_less)
qed

text \<open>The loop of \<open>_delete_nodes_batched\<close>; the second component is the sequence of callback calls.\<close>

function delete_nodes_batched ::
  "string \<Rightarrow> int option \<Rightarrow> lcm_db \<Rightarrow> nat \<times> int list list \<times> lcm_db" where
  "delete_nodes_batched session_id min_depth db =
     (case delete_node_batch [session_id] min_depth 256 None db of
        (node_ids, db') \<Rightarrow>
          if node_ids = [] then (0, [], db')
          else (case delete_nodes_batched session_id min_depth db' of
                  (deleted, calls, db'') \<Rightarrow> (length node_ids + deleted, node_ids # calls, db'')))"
  by auto
termination
  by (relation "measure (\<lambda>(_, _, db). length (summary_nodes db))") (auto dest: delete_node_batch_shrinks[OF sym])

declare delete_nodes_batched.simps [simp del]

definition delete_below_depth :: "string \<Rightarrow> int \<Rightarrow> lcm_db \<Rightarrow> nat \<times> int list list \<times> lcm_db" where
  "delete_below_depth session_id min_depth db = delete_nodes_batched session_id (Some min_depth) db"

definition delete_session_nodes :: "string \<Rightarrow> lcm_db \<Rightarrow> nat \<times> int list list \<times> lcm_db" where
  "delete_session_nodes session_id db = delete_nodes_batched session_id None db"

definition reassign_row :: "string \<Rightarrow> SummaryNode \<Rightarrow> SummaryNode" where
  "reassign_row new_session_id n = n\<lparr>n_session_id := new_session_id\<rparr>"

definition reassign_session_nodes :: "string \<Rightarrow> string \<Rightarrow> lcm_db \<Rightarrow> nat \<times> lcm_db" where
  "reassign_session_nodes old_session_id new_session_id db =
     (rowcount (\<lambda>n. n_session_id n = old_session_id) (summary_nodes db),
      db\<lparr>summary_nodes := upd_where (\<lambda>n. n_session_id n = old_session_id) (reassign_row new_session_id) (summary_nodes db)\<rparr>)"

text \<open>
  One node of a repaired group, \<open>_commit_group\<close> of \<^verbatim>\<open>level3_repair.py\<close>: the text is replaced in place and the provenance row is
  updated, or inserted when there is none.
\<close>

definition repair_row :: "string \<Rightarrow> int \<Rightarrow> string \<Rightarrow> int option \<Rightarrow> SummaryNode \<Rightarrow> SummaryNode" where
  "repair_row new_text tokens hint source_tokens n = n\<lparr>summary := new_text, token_count := tokens, expand_hint := hint,
     source_token_count := (case source_tokens of None \<Rightarrow> source_token_count n | Some t \<Rightarrow> t)\<rparr>"

definition repair_provenance :: "int \<Rightarrow> int \<Rightarrow> string \<Rightarrow> SummaryNode list \<Rightarrow> provenance_row list \<Rightarrow> provenance_row list" where
  "repair_provenance i level model nodes ps =
     (if rowcount (\<lambda>p. p_node_id p = i) ps \<noteq> 0
      then upd_where (\<lambda>p. p_node_id p = i) (\<lambda>p. p\<lparr>p_escalation_level := level, p_model := model\<rparr>) ps
      else case sel_first (\<lambda>n. node_id n = i) nodes of
        None \<Rightarrow> ps
      | Some n \<Rightarrow> ps @ [\<lparr>p_node_id = i, p_escalation_level = level, p_model = model, p_created_at = created_at n\<rparr>])"

definition repair_node :: "int \<Rightarrow> string \<Rightarrow> int \<Rightarrow> string \<Rightarrow> int option \<Rightarrow> int \<Rightarrow> string \<Rightarrow> lcm_db \<Rightarrow> lcm_db" where
  "repair_node i new_text tokens hint source_tokens level model db =
     (let nodes = upd_where (\<lambda>n. node_id n = i) (repair_row new_text tokens hint source_tokens) (summary_nodes db)
      in db\<lparr>summary_nodes := nodes, node_provenance := repair_provenance i level model nodes (node_provenance db)\<rparr>)"

section \<open>Reads\<close>

text \<open>LIMIT n: a negative bound means no limit.\<close>

definition sql_limit :: "int \<Rightarrow> 'a list \<Rightarrow> 'a list" where
  "sql_limit n xs = (if n < 0 then xs else take (nat n) xs)"

definition get_node :: "int \<Rightarrow> lcm_db \<Rightarrow> SummaryNode option" where
  "get_node nid db = sel_first (\<lambda>n. node_id n = nid) (summary_nodes db)"

definition get_session_nodes :: "string \<Rightarrow> int option \<Rightarrow> int \<Rightarrow> lcm_db \<Rightarrow> SummaryNode list" where
  "get_session_nodes session_id dep bound db = (case dep of
     Some d \<Rightarrow> sql_limit bound (sort_key created_at
       (filter (\<lambda>n. n_session_id n = session_id \<and> depth n = d) (summary_nodes db)))
   | None \<Rightarrow> sql_limit bound (sort_key (\<lambda>n. (depth n, created_at n))
       (filter (\<lambda>n. n_session_id n = session_id) (summary_nodes db))))"

definition count_at_depth :: "string \<Rightarrow> int \<Rightarrow> lcm_db \<Rightarrow> nat" where
  "count_at_depth session_id d db = rowcount (\<lambda>n. n_session_id n = session_id \<and> depth n = d) (summary_nodes db)"

definition get_session_node_count :: "string \<Rightarrow> lcm_db \<Rightarrow> nat" where
  "get_session_node_count session_id db = rowcount (\<lambda>n. n_session_id n = session_id) (summary_nodes db)"

definition get_session_depths :: "string \<Rightarrow> lcm_db \<Rightarrow> int list" where
  "get_session_depths session_id db =
     sorted_list_of_set (set (map depth (filter (\<lambda>n. n_session_id n = session_id) (summary_nodes db))))"

record depth_stats =
  ds_count :: nat
  ds_tokens :: int
  ds_source_tokens :: int

definition get_session_depth_stats :: "string \<Rightarrow> lcm_db \<Rightarrow> (int \<times> depth_stats) list" where
  "get_session_depth_stats session_id db =
     map (\<lambda>d. let grp = filter (\<lambda>n. n_session_id n = session_id \<and> depth n = d) (summary_nodes db) in
            (d, \<lparr>ds_count = length grp, ds_tokens = sum_list (map token_count grp),
                 ds_source_tokens = sum_list (map source_token_count grp)\<rparr>))
       (get_session_depths session_id db)"

definition get_node_provenance :: "int \<Rightarrow> lcm_db \<Rightarrow> (int \<times> string) option" where
  "get_node_provenance nid db =
     map_option (\<lambda>p. (p_escalation_level p, p_model p)) (sel_first (\<lambda>p. p_node_id p = nid) (node_provenance db))"

definition joined_levels :: "string option \<Rightarrow> lcm_db \<Rightarrow> int option list" where
  "joined_levels session_id db =
     map (\<lambda>n. map_option p_escalation_level (sel_first (\<lambda>p. p_node_id p = node_id n) (node_provenance db)))
       (filter (\<lambda>n. session_id = None \<or> session_id = Some (n_session_id n)) (summary_nodes db))"

definition count_nodes_by_escalation_level :: "string option \<Rightarrow> lcm_db \<Rightarrow> (int \<times> nat) list \<times> nat" where
  "count_nodes_by_escalation_level session_id db =
     (let levels = joined_levels session_id db in
      (map (\<lambda>l. (l, count_list levels (Some l))) (sorted_list_of_set (the ` (set levels - {None}))),
       count_list levels None))"

definition get_session_depth_samples ::
  "string \<Rightarrow> int \<Rightarrow> int list option \<Rightarrow> lcm_db \<Rightarrow> (int \<times> SummaryNode list) list" where
  "get_session_depth_samples session_id per_depth_limit depths db =
     (if per_depth_limit \<le> 0 then []
      else map (\<lambda>d. (d, get_session_nodes session_id (Some d) per_depth_limit db))
             (case depths of None \<Rightarrow> get_session_depths session_id db | Some ds \<Rightarrow> rev (remdups (rev ds))))"

definition condensed_ids :: "string \<Rightarrow> int \<Rightarrow> lcm_db \<Rightarrow> int list" where
  "condensed_ids session_id d db =
     concat (map source_ids (filter (\<lambda>p. n_session_id p = session_id \<and> depth p > d \<and> source_type p = ''nodes'')
       (summary_nodes db)))"

definition get_uncondensed_at_depth :: "string \<Rightarrow> int \<Rightarrow> int \<Rightarrow> bool \<Rightarrow> lcm_db \<Rightarrow> SummaryNode list" where
  "get_uncondensed_at_depth session_id d bound newest db =
     (let rows = filter (\<lambda>n. n_session_id n = session_id \<and> depth n = d
                          \<and> node_id n \<notin> set (condensed_ids session_id d db)) (summary_nodes db)
      in if newest then rev (sql_limit bound (sort_key (\<lambda>n. (- created_at n, - node_id n)) rows))
         else sql_limit bound (sort_key created_at rows))"

definition get_source_nodes :: "SummaryNode \<Rightarrow> lcm_db \<Rightarrow> SummaryNode list" where
  "get_source_nodes node db =
     (if source_type node \<noteq> ''nodes'' \<or> source_ids node = [] then []
      else sort_key created_at (filter (\<lambda>n. node_id n \<in> set (source_ids node)) (summary_nodes db)))"

definition get_leaf_sources_through :: "string \<Rightarrow> int \<Rightarrow> lcm_db \<Rightarrow> (int \<times> int \<times> int) list" where
  "get_leaf_sources_through session_id end_store_id db =
     concat (map (\<lambda>n. map (\<lambda>s. (node_id n, token_count n, s)) (filter (\<lambda>s. s \<le> end_store_id) (source_ids n)))
       (filter (\<lambda>n. n_session_id n = session_id \<and> source_type n = ''messages'') (summary_nodes db)))"

definition leaf_source_ids_after :: "string \<Rightarrow> int \<Rightarrow> lcm_db \<Rightarrow> int list" where
  "leaf_source_ids_after session_id after_store_id db =
     sorted_list_of_set (set (filter (\<lambda>s. s > after_store_id) (concat (map source_ids
       (filter (\<lambda>n. n_session_id n = session_id \<and> source_type n = ''messages'') (summary_nodes db))))))"

definition get_source_time_window :: "int list \<Rightarrow> lcm_db \<Rightarrow> timestamp option \<times> timestamp option" where
  "get_source_time_window node_ids db =
     (let rows = filter (\<lambda>n. node_id n \<in> set node_ids) (summary_nodes db);
          earliest = (\<lambda>n. case earliest_at n of Some t \<Rightarrow> t | None \<Rightarrow> created_at n);
          latest = (\<lambda>n. case latest_at n of Some t \<Rightarrow> t | None \<Rightarrow> created_at n)
      in if node_ids = [] \<or> rows = [] then (None, None)
         else (Some (Min (set (map earliest rows))), Some (Max (set (map latest rows)))))"

record subtree_child =
  c_node_id :: int
  c_depth :: int
  c_token_count :: int
  c_source_token_count :: int
  c_expand_hint :: string

record subtree_info =
  s_node_id :: int
  s_depth :: int
  s_token_count :: int
  s_source_token_count :: int
  s_source_type :: string
  s_num_sources :: nat
  s_earliest_at :: "timestamp option"
  s_latest_at :: "timestamp option"
  s_expand_hint :: string
  s_children :: "subtree_child list"

definition subtree_child_of :: "SummaryNode \<Rightarrow> subtree_child" where
  "subtree_child_of c = \<lparr>c_node_id = node_id c, c_depth = depth c, c_token_count = token_count c,
     c_source_token_count = source_token_count c, c_expand_hint = expand_hint c\<rparr>"

definition describe_subtree :: "int \<Rightarrow> lcm_db \<Rightarrow> string + subtree_info" where
  "describe_subtree nid db = (case get_node nid db of
     None \<Rightarrow> Inl (''Node '' @ int_str nid @ '' not found'')
   | Some node \<Rightarrow> Inr
       \<lparr>s_node_id = node_id node, s_depth = depth node, s_token_count = token_count node,
        s_source_token_count = source_token_count node, s_source_type = source_type node,
        s_num_sources = length (source_ids node), s_earliest_at = earliest_at node,
        s_latest_at = latest_at node, s_expand_hint = expand_hint node,
        s_children = (if source_type node = ''nodes'' then map subtree_child_of (get_source_nodes node db) else [])\<rparr>)"

section \<open>Batched deletion is exact\<close>

definition wf_nodes :: "lcm_db \<Rightarrow> bool" where
  "wf_nodes db = (distinct (map node_id (summary_nodes db))
     \<and> (\<forall>n \<in> set (summary_nodes db). 1 \<le> node_id n \<and> node_id n \<le> node_seq db)
     \<and> distinct (map p_node_id (node_provenance db))
     \<and> (\<forall>p \<in> set (node_provenance db). p_node_id p \<le> node_seq db))"

definition delete_target :: "string \<Rightarrow> int option \<Rightarrow> SummaryNode \<Rightarrow> bool" where
  "delete_target sid min_depth n =
     (sid \<noteq> [] \<and> n_session_id n = sid \<and> (case min_depth of None \<Rightarrow> True | Some d \<Rightarrow> depth n < d))"

lemma stage_scope_single: "stage_delete_session_scope [sid] = (if sid = [] then [] else [sid])"
  by (simp add: stage_delete_session_scope_def)

lemma delete_node_batch_single:
  "delete_node_batch [sid] d 256 None db =
     (let rows = take 256 (delete_order d (filter (delete_target sid d) (summary_nodes db))) in
      (map node_id rows,
       db\<lparr>summary_nodes := del_where (\<lambda>n. node_id n \<in> node_id ` set rows) (summary_nodes db)\<rparr>))"
proof -
  have f: "sid \<noteq> [] \<Longrightarrow> in_delete_scope [sid] d = delete_target sid d"
    by (intro ext) (simp add: in_delete_scope_def delete_target_def)
  have none: "sid = [] \<Longrightarrow> filter (delete_target sid d) (summary_nodes db) = []"
    by (simp add: delete_target_def)
  have empty: "delete_order d [] = []" by (simp add: delete_order_def split: option.splits)
  show ?thesis
  proof (cases "sid = []")
    case True
    then show ?thesis
      using none by (simp add: delete_node_batch_def stage_scope_single empty Let_def del_where_def)
  next
    case False
    then show ?thesis
      by (auto simp: delete_node_batch_def stage_scope_single f Let_def del_where_def)
  qed
qed

lemma mset_delete_order: "mset (delete_order d rows) = mset rows"
  by (simp add: delete_order_def split: option.splits)

lemma filter_not_take: "distinct xs \<Longrightarrow> filter (\<lambda>x. x \<notin> set (take n xs)) xs = drop n xs"
proof -
  assume "distinct xs"
  then have "set (take n xs) \<inter> set (drop n xs) = {}" by (simp add: set_take_disj_set_drop_if_distinct)
  then have "filter (\<lambda>x. x \<notin> set (take n xs)) (take n xs @ drop n xs) = drop n xs"
    unfolding filter_append by (simp add: disjoint_iff filter_id_conv) blast
  then show ?thesis by simp
qed

lemma batch_split:
  assumes "distinct (map node_id nodes)" "rows = take 256 (delete_order d (filter T nodes))"
    "rest = del_where (\<lambda>n. node_id n \<in> node_id ` set rows) nodes"
  shows "mset (filter T nodes) = mset rows + mset (filter T rest)"
    and "filter (\<lambda>n. \<not> T n) rest = filter (\<lambda>n. \<not> T n) nodes"
    and "distinct (map node_id rest)"
proof -
  let ?L = "delete_order d (filter T nodes)"
  have dis: "distinct ?L"
    using assms(1) mset_delete_order[of d "filter T nodes"] by (metis distinct_filter distinct_map mset_eq_imp_distinct_iff)
  have sub: "set rows \<subseteq> set (filter T nodes)"
    using assms(2) set_take_subset[of 256 ?L] by simp
  have rest: "rest = filter (\<lambda>n. n \<notin> set rows) nodes"
    unfolding assms(3) del_where_def
    by (rule filter_cong) (use assms(1) sub in \<open>auto simp: distinct_map dest: inj_onD\<close>)
  have "filter (\<lambda>n. n \<notin> set (take 256 ?L)) ?L = drop 256 ?L" by (rule filter_not_take[OF dis])
  then have "mset (filter (\<lambda>n. n \<notin> set rows) (filter T nodes)) = mset (drop 256 ?L)"
    using mset_delete_order[of d "filter T nodes"] assms(2) by (metis mset_filter)
  moreover have "filter (\<lambda>n. n \<notin> set rows) (filter T nodes) = filter T rest"
    unfolding rest by (simp add: conj_commute)
  ultimately show "mset (filter T nodes) = mset rows + mset (filter T rest)"
    using mset_delete_order[of d "filter T nodes"] assms(2) by (metis append_take_drop_id mset_append)
  show "filter (\<lambda>n. \<not> T n) rest = filter (\<lambda>n. \<not> T n) nodes"
    unfolding rest using sub by (auto intro!: filter_cong)
  show "distinct (map node_id rest)"
    unfolding assms(3) by (rule distinct_key_del_where[OF assms(1)])
qed

lemma delete_nodes_batched_exact:
  "distinct (map node_id (summary_nodes db)) \<Longrightarrow> delete_nodes_batched sid d db = (k, calls, db') \<Longrightarrow>
     db' = db\<lparr>summary_nodes := filter (\<lambda>n. \<not> delete_target sid d n) (summary_nodes db)\<rparr>
     \<and> k = length (filter (delete_target sid d) (summary_nodes db))
     \<and> mset (concat calls) = mset (map node_id (filter (delete_target sid d) (summary_nodes db)))
     \<and> (\<forall>c \<in> set calls. 1 \<le> length c \<and> length c \<le> 256)"
proof (induction sid d db arbitrary: k calls db' rule: delete_nodes_batched.induct)
  case (1 sid d db)
  let ?T = "delete_target sid d"
  define rows where "rows = take 256 (delete_order d (filter ?T (summary_nodes db)))"
  define rest where "rest = del_where (\<lambda>n. node_id n \<in> node_id ` set rows) (summary_nodes db)"
  have batch: "delete_node_batch [sid] d 256 None db = (map node_id rows, db\<lparr>summary_nodes := rest\<rparr>)"
    by (simp add: delete_node_batch_single rows_def rest_def Let_def)
  note split = batch_split[OF "1.prems"(1) rows_def rest_def]
  show ?case
  proof (cases "rows = []")
    case True
    then have "filter ?T (summary_nodes db) = []"
      using mset_delete_order[of d "filter ?T (summary_nodes db)"] by (simp add: rows_def)
    moreover from this have "filter (\<lambda>n. \<not> ?T n) (summary_nodes db) = summary_nodes db"
      by (simp add: filter_empty_conv)
    moreover have "rest = summary_nodes db" using True by (simp add: rest_def del_where_def)
    ultimately show ?thesis using "1.prems"(2) True batch by (auto simp: delete_nodes_batched.simps[of sid d db])
  next
    case False
    obtain k2 calls2 where rec: "delete_nodes_batched sid d (db\<lparr>summary_nodes := rest\<rparr>) = (k2, calls2, db')"
      and k: "k = length rows + k2" "calls = map node_id rows # calls2"
      using "1.prems"(2) False batch
      by (auto simp: delete_nodes_batched.simps[of sid d db] split: prod.splits)
    have ih: "db' = db\<lparr>summary_nodes := filter (\<lambda>n. \<not> ?T n) rest\<rparr> \<and> k2 = length (filter ?T rest)
        \<and> mset (concat calls2) = mset (map node_id (filter ?T rest))
        \<and> (\<forall>c \<in> set calls2. 1 \<le> length c \<and> length c \<le> 256)"
      using "1.IH"[OF batch[symmetric] _ _ rec] False split(3) by simp
    have "length rows + length (filter ?T rest) = length (filter ?T (summary_nodes db))"
      using split(1) by (metis size_mset size_union)
    moreover have "image_mset node_id (mset (filter ?T (summary_nodes db))) =
        image_mset node_id (mset rows) + image_mset node_id (mset (filter ?T rest))"
      unfolding split(1) by simp
    moreover have "1 \<le> length rows" "length rows \<le> 256" using False by (simp_all add: rows_def Suc_le_eq)
    ultimately show ?thesis using ih k split(2) by simp
  qed
qed

text \<open>
  \<open>delete_below_depth\<close> deletes exactly the session's nodes below the depth, in batches.  The
  remaining rows are the other rows, unchanged and in order, and no other table is touched.  The
  returned count and the ids handed to the batch callback are exactly the deleted nodes, each once,
  and every call gets between 1 and 256 ids.
\<close>

theorem delete_below_depth_exact:
  assumes "wf_nodes db" "delete_below_depth sid d db = (k, calls, db')" "sid \<noteq> []"
  shows "let gone = filter (\<lambda>n. n_session_id n = sid \<and> depth n < d) (summary_nodes db) in
    db' = db\<lparr>summary_nodes := filter (\<lambda>n. \<not> (n_session_id n = sid \<and> depth n < d)) (summary_nodes db)\<rparr>
    \<and> k = length gone \<and> mset (concat calls) = mset (map node_id gone)
    \<and> (\<forall>c \<in> set calls. 1 \<le> length c \<and> length c \<le> 256)"
proof -
  have "delete_target sid (Some d) = (\<lambda>n. n_session_id n = sid \<and> depth n < d)"
    using assms(3) by (intro ext) (simp add: delete_target_def)
  with delete_nodes_batched_exact[of db sid "Some d" k calls db'] assms(1,2) show ?thesis
    by (simp add: wf_nodes_def delete_below_depth_def Let_def)
qed

theorem delete_below_depth_exact_witness:
  "\<exists>calls db'. delete_below_depth ''s'' 1
      \<lparr>messages = [], summary_nodes =
        [\<lparr>node_id = 1, n_session_id = ''s'', depth = 0, summary = [], token_count = 0, source_token_count = 0,
          source_ids = [], source_type = ''messages'', created_at = 0, earliest_at = None, latest_at = None, expand_hint = []\<rparr>],
       node_seq = 1, node_provenance = [], lifecycle = []\<rparr> = (1, calls, db') \<and> summary_nodes db' = []"
proof -
  let ?db = "\<lparr>messages = [], summary_nodes =
        [\<lparr>node_id = 1, n_session_id = ''s'', depth = 0, summary = [], token_count = 0, source_token_count = 0,
          source_ids = [], source_type = ''messages'', created_at = 0, earliest_at = None, latest_at = None, expand_hint = []\<rparr>],
       node_seq = 1, node_provenance = [], lifecycle = []\<rparr> :: lcm_db"
  have wf: "wf_nodes ?db" by (simp add: wf_nodes_def)
  obtain k calls db' where r: "delete_below_depth ''s'' 1 ?db = (k, calls, db')" by (metis surj_pair)
  from delete_below_depth_exact[OF wf r] r show ?thesis by (simp add: Let_def)
qed

section \<open>Adding a node\<close>

text \<open>The tables \<open>insert_node\<close> leaves when it is not disturbed and stages nothing else.\<close>

definition with_node :: "SummaryNode \<Rightarrow> int option \<Rightarrow> string \<Rightarrow> timestamp \<Rightarrow> lcm_db \<Rightarrow> lcm_db" where
  "with_node node lvl model now db =
     db\<lparr>summary_nodes := summary_nodes db @ [new_node node now (node_seq db + 1)], node_seq := node_seq db + 1,
        node_provenance := (case lvl of None \<Rightarrow> node_provenance db
          | Some level \<Rightarrow> put_provenance \<lparr>p_node_id = node_seq db + 1, p_escalation_level = level, p_model = model,
              p_created_at = now\<rparr> (node_provenance db))\<rparr>"

lemma insert_node_eq:
  "insert_node fault node cb lvl model now k db = (case fault k of
     Some e \<Rightarrow> (Inl (SqliteError e), db)
   | None \<Rightarrow> (case cb of None \<Rightarrow> (Inr (node_seq db + 1), with_node node lvl model now db)
       | Some f \<Rightarrow> (case f (node_seq db + 1) (with_node node lvl model now db) of
            (Inl e, db3) \<Rightarrow> (Inl e, db3) | (Inr _, db3) \<Rightarrow> (Inr (node_seq db + 1), db3))))"
proof -
  have "(case lvl of None \<Rightarrow> db1 | Some level \<Rightarrow> db1\<lparr>node_provenance := put_provenance
          \<lparr>p_node_id = node_seq db + 1, p_escalation_level = level, p_model = model, p_created_at = now\<rparr>
          (node_provenance db1)\<rparr>) = with_node node lvl model now db"
    if "db1 = db\<lparr>summary_nodes := summary_nodes db @ [new_node node now (node_seq db + 1)], node_seq := node_seq db + 1\<rparr>" for db1
    using that by (cases lvl) (simp_all add: with_node_def)
  then show ?thesis by (simp add: insert_node_def Let_def split: option.splits)
qed

lemma add_node_cases:
  assumes "add_node fault others True node cb lvl model now db = (res, db')"
  shows "\<exists>base. (base = db \<or> base = others db) \<and>
    (case res of
       Inl e \<Rightarrow> db' = base
     | Inr nid \<Rightarrow> nid = node_seq base + 1 \<and>
         (case cb of None \<Rightarrow> db' = with_node node lvl model now base
          | Some f \<Rightarrow> f nid (with_node node lvl model now base) = (Inr (), db')))"
  using assms
  by (auto simp: add_node_def run_sqlite_write_with_snapshot_retry_def insert_node_eq
      split: option.splits sum.splits prod.splits if_splits)

text \<open>
  \<open>add_node\<close> is all or nothing.  A failing call leaves no trace of its own: the tables are the
  ones it started from, or, after one stale snapshot, the ones other writers had left when it started
  again.  A successful call returns an id above every id ever given out and leaves exactly the tables
  of one complete insert, with the callback's writes on top when there is a callback.
\<close>

theorem add_node_all_or_nothing:
  assumes "add_node fault others True node cb lvl model now db = (res, db')"
  shows "\<exists>base. (base = db \<or> base = others db) \<and>
    (case res of
       Inl e \<Rightarrow> db' = base
     | Inr nid \<Rightarrow> nid = node_seq base + 1 \<and>
         (case cb of None \<Rightarrow> db' = with_node node lvl model now base
          | Some f \<Rightarrow> f nid (with_node node lvl model now base) = (Inr (), db')))"
  by (rule add_node_cases[OF assms])

theorem add_node_all_or_nothing_witness:
  "\<exists>n0 db0 base. node_seq db0 = 5 \<and> (base = db0 \<or> base = id db0) \<and> 6 = node_seq base + 1
     \<and> add_node (\<lambda>k. if k = 0 then Some BusySnapshot else None) id True n0
          (None :: (int \<Rightarrow> lcm_db \<Rightarrow> (unit add_node_error + unit) \<times> lcm_db) option) (Some 2) ''m'' 1 db0
        = (Inr 6, with_node n0 (Some 2) ''m'' 1 base)"
proof -
  let ?n = "\<lparr>node_id = 0, n_session_id = ''s'', depth = 0, summary = [], token_count = 0, source_token_count = 0,
      source_ids = [], source_type = ''messages'', created_at = 0, earliest_at = None, latest_at = None, expand_hint = []\<rparr>
      :: SummaryNode"
  let ?db = "\<lparr>messages = [], summary_nodes = [], node_seq = 5, node_provenance = [], lifecycle = []\<rparr> :: lcm_db"
  let ?cb = "None :: (int \<Rightarrow> lcm_db \<Rightarrow> (unit add_node_error + unit) \<times> lcm_db) option"
  have run: "add_node (\<lambda>k. if k = 0 then Some BusySnapshot else None) id True ?n ?cb (Some 2) ''m'' 1 ?db
      = (Inr 6, with_node ?n (Some 2) ''m'' 1 ?db)"
    by (simp add: add_node_def run_sqlite_write_with_snapshot_retry_def insert_node_eq is_busy_snapshot_def)
  from add_node_all_or_nothing[OF run] obtain base where
    "base = ?db \<or> base = id ?db" "6 = node_seq base + 1"
    "with_node ?n (Some 2) ''m'' 1 ?db = with_node ?n (Some 2) ''m'' 1 base" by auto
  with run show ?thesis by (intro exI[of _ ?n] exI[of _ ?db] exI[of _ base]) simp
qed

section \<open>Reachable node tables\<close>

text \<open>
  The steps other connections and this one take on the node tables: inserts whose sources were given
  out before (condensation summarises nodes it has read), deletions, reassignments, repairs, and any write
  to the other tables.
\<close>

definition same_nodes :: "lcm_db \<Rightarrow> lcm_db \<Rightarrow> bool" where
  "same_nodes db db' = (summary_nodes db' = summary_nodes db \<and> node_seq db' = node_seq db
     \<and> node_provenance db' = node_provenance db)"

definition sources_known :: "SummaryNode \<Rightarrow> lcm_db \<Rightarrow> bool" where
  "sources_known node db = (source_type node = ''nodes'' \<longrightarrow> (\<forall>i \<in> set (source_ids node). i \<le> node_seq db))"

inductive dag_step :: "lcm_db \<Rightarrow> lcm_db \<Rightarrow> bool" where
  add: "sources_known node db \<Longrightarrow> dag_step db (with_node node lvl model now db)"
| delete_below: "dag_step db (snd (snd (delete_below_depth sid d db)))"
| delete_session: "dag_step db (snd (snd (delete_session_nodes sid db)))"
| delete_batch: "dag_step db (snd (delete_node_batch sids d b staged db))"
| reassign: "dag_step db (snd (reassign_session_nodes old new db))"
| repair: "dag_step db (repair_node i new_text tokens hint source_tokens level model db)"
| elsewhere: "same_nodes db db' \<Longrightarrow> dag_step db db'"

inductive_cases dag_stepE: "dag_step db db'"

inductive dag_reachable :: "lcm_db \<Rightarrow> bool" where
  empty: "dag_reachable empty_db"
| step: "dag_reachable db \<Longrightarrow> dag_step db db' \<Longrightarrow> dag_reachable db'"

text \<open>Every edge from a node to its source nodes goes to a smaller id.\<close>

definition wf_edges :: "SummaryNode list \<Rightarrow> bool" where
  "wf_edges nodes = (\<forall>n \<in> set nodes. 1 \<le> node_id n \<and>
     (source_type n = ''nodes'' \<longrightarrow> (\<forall>i \<in> set (source_ids n). i < node_id n)))"

interpretation reassign_upd: keyed_table node_id "reassign_row new"
  for new :: string
  by unfold_locales (simp add: reassign_row_def)

interpretation repair_upd: keyed_table node_id "repair_row new_text tokens hint source_tokens"
  for new_text tokens hint source_tokens
  by unfold_locales (simp add: repair_row_def)

interpretation repair_provenance_upd: keyed_table p_node_id "\<lambda>p. p\<lparr>p_escalation_level := level, p_model := model\<rparr>"
  for level model
  by unfold_locales simp

definition node_inv :: "lcm_db \<Rightarrow> bool" where
  "node_inv db = (0 \<le> node_seq db \<and> wf_nodes db \<and> wf_edges (summary_nodes db))"

lemma node_inv_same: "same_nodes db db' \<Longrightarrow> node_inv db \<Longrightarrow> node_inv db'"
  by (simp add: same_nodes_def node_inv_def wf_nodes_def)

lemma node_inv_del: "node_inv db \<Longrightarrow> node_inv (db\<lparr>summary_nodes := del_where P (summary_nodes db)\<rparr>)"
  by (auto simp: node_inv_def wf_nodes_def wf_edges_def distinct_key_del_where set_del_where)

lemma node_inv_filter: "node_inv db \<Longrightarrow> node_inv (db\<lparr>summary_nodes := filter P (summary_nodes db)\<rparr>)"
  using node_inv_del[of db "\<lambda>n. \<not> P n"] by (simp add: del_where_def)

lemma node_inv_add:
  assumes "node_inv db" "sources_known node db"
  shows "node_inv (with_node node lvl model now db)"
proof -
  have "node_seq db + 1 \<notin> node_id ` set (summary_nodes db)" "node_seq db + 1 \<notin> p_node_id ` set (node_provenance db)"
    using assms(1) by (force simp: node_inv_def wf_nodes_def)+
  with assms show ?thesis
    by (fastforce simp: node_inv_def wf_nodes_def wf_edges_def with_node_def new_node_def put_provenance_def
        sources_known_def set_del_where distinct_key_del_where split: option.splits)
qed

lemma node_inv_repair:
  assumes "node_inv db"
  shows "node_inv (repair_node i new_text tokens hint source_tokens level model db)"
proof -
  let ?nodes = "upd_where (\<lambda>n. node_id n = i) (repair_row new_text tokens hint source_tokens) (summary_nodes db)"
  let ?ps = "repair_provenance i level model ?nodes (node_provenance db)"
  have nodes: "distinct (map node_id ?nodes)" "\<forall>n \<in> set ?nodes. 1 \<le> node_id n \<and> node_id n \<le> node_seq db" "wf_edges ?nodes"
    using assms by (auto simp: node_inv_def wf_nodes_def wf_edges_def repair_upd.distinct_upd_where set_upd_where repair_row_def)
  moreover have "distinct (map p_node_id ?ps) \<and> (\<forall>p \<in> set ?ps. p_node_id p \<le> node_seq db)"
  proof (cases "rowcount (\<lambda>p. p_node_id p = i) (node_provenance db) = 0")
    case False
    then show ?thesis using assms
      by (auto simp: repair_provenance_def node_inv_def wf_nodes_def repair_provenance_upd.distinct_upd_where set_upd_where)
  next
    case True
    then have "i \<notin> p_node_id ` set (node_provenance db)" by (auto simp: rowcount_zero_iff)
    then show ?thesis using True assms nodes(2) by (auto simp: repair_provenance_def node_inv_def wf_nodes_def split: option.splits dest!: sel_first_mem)
  qed
  ultimately show ?thesis using assms by (simp add: repair_node_def node_inv_def wf_nodes_def Let_def)
qed

lemma node_inv_batched:
  assumes "node_inv db" shows "node_inv (snd (snd (delete_nodes_batched sid d db)))"
proof -
  obtain k calls db' where r: "delete_nodes_batched sid d db = (k, calls, db')" by (metis surj_pair)
  from delete_nodes_batched_exact[OF _ r] assms node_inv_filter[OF assms] r show ?thesis
    by (simp add: node_inv_def wf_nodes_def)
qed

lemma node_inv_step: "dag_step db db' \<Longrightarrow> node_inv db \<Longrightarrow> node_inv db'"
proof (induction rule: dag_step.induct)
  case (delete_batch db sids d b staged)
  then show ?case using node_inv_del[OF delete_batch]
    by (auto simp: delete_node_batch_def Let_def)
next
  case (reassign db old new)
  then show ?case
    by (auto simp: node_inv_def wf_nodes_def wf_edges_def reassign_session_nodes_def
        reassign_upd.distinct_upd_where set_upd_where reassign_row_def)
qed (auto simp: node_inv_add node_inv_batched node_inv_same node_inv_repair delete_below_depth_def delete_session_nodes_def)

lemma dag_reachable_inv: "dag_reachable db \<Longrightarrow> node_inv db"
  by (induction rule: dag_reachable.induct)
     (auto simp: node_inv_def wf_nodes_def wf_edges_def empty_db_def
        dest: node_inv_step[unfolded node_inv_def wf_nodes_def wf_edges_def])

text \<open>
  What a run keeps of the nodes: a later node either has an id above every id given out before, or is an earlier
  node: its depth, sources and times are as they were; its session, and by a repair its text and token counts, may differ.
\<close>

definition same_node :: "SummaryNode \<Rightarrow> SummaryNode \<Rightarrow> bool" where
  "same_node n n' \<longleftrightarrow> node_id n' = node_id n \<and> depth n' = depth n \<and> source_type n' = source_type n \<and> source_ids n' = source_ids n
     \<and> created_at n' = created_at n \<and> earliest_at n' = earliest_at n \<and> latest_at n' = latest_at n"

definition node_run :: "lcm_db \<Rightarrow> lcm_db \<Rightarrow> bool" where
  "node_run db db' \<longleftrightarrow> node_seq db \<le> node_seq db'
     \<and> (\<forall>n' \<in> set (summary_nodes db'). node_seq db < node_id n' \<or> (\<exists>n \<in> set (summary_nodes db). same_node n n'))"

lemma same_node_refl [simp]: "same_node n n"
  by (simp add: same_node_def)

lemma same_node_id: "same_node n n' \<Longrightarrow> node_id n' = node_id n"
  by (simp add: same_node_def)

lemma same_node_trans: "same_node a b \<Longrightarrow> same_node b c \<Longrightarrow> same_node a c"
  by (simp add: same_node_def)

lemma node_run_trans:
  assumes "node_run a b" "node_run b c"
  shows "node_run a c"
proof -
  have "node_seq a < node_id n' \<or> (\<exists>n \<in> set (summary_nodes a). same_node n n')" if h: "n' \<in> set (summary_nodes c)" for n'
  proof (cases "node_seq b < node_id n'")
    case True
    then show ?thesis using assms(1) by (simp add: node_run_def)
  next
    case False
    then obtain m where m: "m \<in> set (summary_nodes b)" "same_node m n'" using assms(2) h by (auto simp: node_run_def)
    then show ?thesis using assms(1) same_node_id[OF m(2)] same_node_trans[OF _ m(2)] unfolding node_run_def by metis
  qed
  then show ?thesis using assms by (simp add: node_run_def)
qed

lemma node_run_sub: "set (summary_nodes db') \<subseteq> set (summary_nodes db) \<Longrightarrow> node_seq db' = node_seq db \<Longrightarrow> node_run db db'"
  by (auto simp: node_run_def intro: same_node_refl)

lemma node_run_upd:
  assumes "summary_nodes db' = upd_where P f (summary_nodes db)" "node_seq db' = node_seq db" "\<And>n. same_node n (f n)"
  shows "node_run db db'"
proof -
  have "\<exists>n \<in> set (summary_nodes db). same_node n n'" if h: "n' \<in> set (summary_nodes db')" for n'
  proof -
    obtain n where "n \<in> set (summary_nodes db)" "n' = (if P n then f n else n)" using h by (auto simp: assms(1) upd_where_def)
    then show ?thesis using assms(3) by (intro bexI[of _ n]) simp_all
  qed
  then show ?thesis using assms(2) by (simp add: node_run_def)
qed

lemma batched_node_run: "node_inv db \<Longrightarrow> node_run db (snd (snd (delete_nodes_batched sid d db)))"
proof -
  assume inv: "node_inv db"
  obtain k calls db' where r: "delete_nodes_batched sid d db = (k, calls, db')" by (metis surj_pair)
  from delete_nodes_batched_exact[OF _ r] inv show ?thesis unfolding r by (auto simp: node_inv_def wf_nodes_def intro!: node_run_sub)
qed

lemma dag_step_run: "dag_step db db' \<Longrightarrow> node_inv db \<Longrightarrow> node_run db db'"
proof (induction rule: dag_step.induct)
  case (add node db lvl model now)
  then show ?case by (auto simp: node_run_def with_node_def new_node_def intro: same_node_refl)
next
  case (delete_batch db sids d b staged)
  show ?case by (rule node_run_sub) (auto simp: delete_node_batch_def Let_def set_del_where)
next
  case (reassign db old new)
  show ?case by (rule node_run_upd[where f = "reassign_row new"]) (simp_all add: reassign_session_nodes_def reassign_row_def same_node_def)
next
  case (repair db i new_text tokens hint source_tokens level model)
  show ?case by (rule node_run_upd[where f = "repair_row new_text tokens hint source_tokens"])
    (simp_all add: repair_node_def repair_row_def same_node_def Let_def)
next
  case (elsewhere db db')
  then show ?case by (intro node_run_sub) (auto simp: same_nodes_def)
qed (auto simp: batched_node_run delete_below_depth_def delete_session_nodes_def)

text \<open>
  C31: Node ids identify nodes for good.  From any reachable state on, whatever is added, deleted, reassigned or repaired, an id
  given out so far belongs, if it is still in the table, to the node that had it, with the same sources, depth and times
  (a repair may replace its text, a reassignment its session): an id freed by a deletion is never given out again.  So an edge between nodes never comes to
  point at another node than the one it was made for; ids stay unique, and, since nodes are made over ids given out
  before, the edges have no cycle.
\<close>

theorem node_ids_are_forever:
  assumes "dag_reachable db" "dag_step\<^sup>*\<^sup>* db db'"
  shows "(\<forall>n' \<in> set (summary_nodes db'). node_id n' \<le> node_seq db \<longrightarrow> (\<exists>n \<in> set (summary_nodes db). same_node n n'))
    \<and> (\<forall>n \<in> set (summary_nodes db). \<forall>n' \<in> set (summary_nodes db'). source_type n = ''nodes'' \<and> node_id n' \<in> set (source_ids n)
         \<longrightarrow> (\<exists>c \<in> set (summary_nodes db). same_node c n'))
    \<and> distinct (map node_id (summary_nodes db'))
    \<and> acyclic {(node_id n, i) |n i. n \<in> set (summary_nodes db') \<and> source_type n = ''nodes'' \<and> i \<in> set (source_ids n)}"
proof -
  have both: "node_run db db' \<and> node_inv db'" using assms(2)
  proof (induction rule: rtranclp_induct)
    case base
    then show ?case using dag_reachable_inv[OF assms(1)] by (simp add: node_run_sub)
  next
    case (step y z)
    then show ?case using node_run_trans[OF _ dag_step_run] node_inv_step by blast
  qed
  have old: "\<exists>n \<in> set (summary_nodes db). same_node n n'" if "n' \<in> set (summary_nodes db')" "node_id n' \<le> node_seq db" for n'
    using both that unfolding node_run_def by (metis not_le)
  have below: "node_id n' \<le> node_seq db"
    if "n \<in> set (summary_nodes db)" "source_type n = ''nodes''" "node_id n' \<in> set (source_ids n)" for n n'
    using dag_reachable_inv[OF assms(1)] that by (force simp: node_inv_def wf_nodes_def wf_edges_def)
  have "{(node_id n, i) |n i. n \<in> set (summary_nodes db') \<and> source_type n = ''nodes'' \<and> i \<in> set (source_ids n)} \<subseteq> {(a, b). b < a}"
    using both by (auto simp: node_inv_def wf_edges_def)
  moreover have "acyclic {(a, b). b < (a :: int)}"
    using acyclic_converse[of "{(a, b). a < (b :: int)}"] by (intro acyclicI_order[of _ "\<lambda>x. x"]) auto
  ultimately have "acyclic {(node_id n, i) |n i. n \<in> set (summary_nodes db') \<and> source_type n = ''nodes'' \<and> i \<in> set (source_ids n)}"
    by (rule acyclic_subset[rotated])
  moreover have "\<exists>c \<in> set (summary_nodes db). same_node c n'"
    if "n \<in> set (summary_nodes db)" "n' \<in> set (summary_nodes db')" "source_type n = ''nodes'' \<and> node_id n' \<in> set (source_ids n)" for n n'
    using old[OF that(2)] below[OF that(1)] that(3) by blast
  ultimately show ?thesis using old both by (simp add: node_inv_def wf_nodes_def)
qed

text \<open>A node is added, its session is deleted, and the next node does not get its id.\<close>

definition some_node :: SummaryNode where
  "some_node = default_node\<lparr>n_session_id := ''s''\<rparr>"

theorem node_ids_are_forever_witness:
  "map node_id (summary_nodes (with_node some_node None [] 2 (snd (snd (delete_session_nodes ''s'' (with_node some_node None [] 1 empty_db)))))) = [2]
   \<and> distinct (map node_id (summary_nodes (with_node some_node None [] 2 (snd (snd (delete_session_nodes ''s'' (with_node some_node None [] 1 empty_db)))))))"
proof -
  let ?a = "with_node some_node None [] 1 empty_db"
  let ?b = "snd (snd (delete_session_nodes ''s'' ?a))"
  have k: "sources_known some_node x" for x by (simp add: sources_known_def some_node_def default_node_def)
  have "dag_reachable ?a" by (rule dag_reachable.step[OF dag_reachable.empty], rule dag_step.add) (rule k)
  moreover have "dag_step\<^sup>*\<^sup>* ?a (with_node some_node None [] 2 ?b)"
    by (rule rtranclp.rtrancl_into_rtrancl[OF r_into_rtranclp], rule dag_step.delete_session, rule dag_step.add) (rule k)
  ultimately have "distinct (map node_id (summary_nodes (with_node some_node None [] 2 ?b)))" using node_ids_are_forever by blast
  moreover have "map node_id (summary_nodes (with_node some_node None [] 2 ?b)) = [2]" by code_simp
  ultimately show ?thesis by blast
qed

text \<open>
  Provenance is never misattributed.  A node added with an escalation level has exactly that level
  and model recorded, a node added without one has none, although deleting nodes leaves their
  provenance rows behind, and no other node's provenance changes.
\<close>

theorem new_node_provenance_exact:
  assumes "dag_reachable db"
  shows "get_node_provenance (node_seq db + 1) (with_node node lvl model now db) = map_option (\<lambda>l. (l, model)) lvl
    \<and> (\<forall>n \<in> set (summary_nodes db).
         get_node_provenance (node_id n) (with_node node lvl model now db) = get_node_provenance (node_id n) db)"
proof -
  have fresh: "\<forall>p \<in> set (node_provenance db). p_node_id p \<noteq> node_seq db + 1"
    and old: "\<forall>n \<in> set (summary_nodes db). node_id n \<noteq> node_seq db + 1"
    using dag_reachable_inv[OF assms] by (force simp: node_inv_def wf_nodes_def)+
  then have keep: "del_where (\<lambda>p. p_node_id p = node_seq db + 1) (node_provenance db) = node_provenance db"
    by (simp add: del_where_def filter_id_conv)
  have none: "sel_first (\<lambda>p. p_node_id p = node_seq db + 1) (node_provenance db) = None"
    using fresh by (simp add: sel_first_None_iff)
  show ?thesis
    using old none
    by (auto simp: get_node_provenance_def with_node_def put_provenance_def keep sel_first_append
        sel_first_def[of _ "[_]"] split: option.splits)
qed

theorem new_node_provenance_exact_witness:
  "get_node_provenance 1 (with_node default_node (Some 2) ''m'' 1 empty_db) = Some (2, ''m'')"
  using new_node_provenance_exact[OF dag_reachable.empty, of default_node "Some 2" "''m''" 1]
  by (simp add: empty_db_def)

lemma condensed_ids_with_node:
  "condensed_ids s d (with_node node lvl model now db) =
     condensed_ids s d db @ (if n_session_id node = s \<and> depth node > d \<and> source_type node = ''nodes'' then source_ids node else [])"
  by (simp add: condensed_ids_def with_node_def new_node_def)

lemma set_uncondensed:
  assumes "bound < 0"
  shows "set (get_uncondensed_at_depth s d bound newest db) =
    {n \<in> set (summary_nodes db). n_session_id n = s \<and> depth n = d \<and> node_id n \<notin> set (condensed_ids s d db)}"
  using assms by (simp add: get_uncondensed_at_depth_def sql_limit_def Let_def)

lemma condensed_ids_known: "dag_reachable db \<Longrightarrow> i \<in> set (condensed_ids s d db) \<Longrightarrow> i \<le> node_seq db"
  using dag_reachable_inv[of db] by (fastforce simp: condensed_ids_def node_inv_def wf_nodes_def wf_edges_def)

text \<open>
  Condensing consumes its sources.  After a node at depth \<open>d + 1\<close> is added over some of the
  session's uncondensed nodes at depth \<open>d\<close>, the uncondensed nodes at depth \<open>d\<close> are exactly the
  previous ones minus those sources, and at depth \<open>d + 1\<close> exactly the previous ones plus the new node;
  so no node is condensed twice.
\<close>

theorem condense_consumes_sources:
  assumes "dag_reachable db" "sources_known node db" "n_session_id node = s" "depth node = d + 1"
    and "source_type node = ''nodes''"
  shows "set (get_uncondensed_at_depth s d (-1) newest (with_node node lvl model now db)) =
      {n \<in> set (get_uncondensed_at_depth s d (-1) newest db). node_id n \<notin> set (source_ids node)}
    \<and> set (get_uncondensed_at_depth s (d + 1) (-1) newest (with_node node lvl model now db)) =
      insert (new_node node now (node_seq db + 1)) (set (get_uncondensed_at_depth s (d + 1) (-1) newest db))"
proof -
  let ?new = "new_node node now (node_seq db + 1)" and ?db = "with_node node lvl model now db"
  have fresh: "node_seq db + 1 \<notin> set (condensed_ids s (d + 1) db)"
    using condensed_ids_known[OF assms(1)] by force
  have nodes: "set (summary_nodes ?db) = insert ?new (set (summary_nodes db))" by (simp add: with_node_def)
  have new: "depth ?new = d + 1" "n_session_id ?new = s" "node_id ?new = node_seq db + 1"
    using assms by (simp_all add: new_node_def)
  have c: "set (condensed_ids s d ?db) = set (condensed_ids s d db) \<union> set (source_ids node)"
    "set (condensed_ids s (d + 1) ?db) = set (condensed_ids s (d + 1) db)"
    using assms by (simp_all add: condensed_ids_with_node)
  have u: "set (get_uncondensed_at_depth s d' (-1) newest db') =
      {n \<in> set (summary_nodes db'). n_session_id n = s \<and> depth n = d' \<and> node_id n \<notin> set (condensed_ids s d' db')}" for d' db'
    by (rule set_uncondensed) simp
  show ?thesis unfolding u nodes c using fresh new by force
qed

theorem condense_consumes_sources_witness:
  "set (get_uncondensed_at_depth ''s'' (0 + 1) (-1) False
      (with_node (default_node\<lparr>n_session_id := ''s'', depth := 1, source_type := ''nodes''\<rparr>) None [] 1 empty_db)) =
   insert (new_node (default_node\<lparr>n_session_id := ''s'', depth := 1, source_type := ''nodes''\<rparr>) 1 (node_seq empty_db + 1))
      (set (get_uncondensed_at_depth ''s'' (0 + 1) (-1) False empty_db))"
  using condense_consumes_sources[OF dag_reachable.empty,
      of "default_node\<lparr>n_session_id := ''s'', depth := 1, source_type := ''nodes''\<rparr>" "''s''" 0 False None "[]" 1]
  by (simp add: sources_known_def default_node_def)

end
