(* ===== verification/Summary_Walk.thy ===== *)
theory Summary_Walk
  imports Summary_DAG
begin

text \<open>
  The recursive lineage queries of \<^verbatim>\<open>src/dag.py\<close>: \<open>coverage_end\<close>, \<open>source_message_ids\<close> and
  \<open>_node_matches_source\<close>.  A recursive common table expression is modelled by SQLite's documented
  queue algorithm: take a row off the queue, run the recursive select on it, and append its rows to
  the queue, with UNION only those never produced before, with UNION ALL every one of them.
\<close>

type_synonym walk_row = "string \<times> int"

definition node_sources :: "SummaryNode \<Rightarrow> walk_row list" where
  "node_sources n = map (\<lambda>i. (source_type n, i)) (source_ids n)"

definition walk_children :: "SummaryNode list \<Rightarrow> walk_row \<Rightarrow> walk_row list" where
  "walk_children nodes row =
     (if fst row = ''nodes'' then concat (map node_sources (filter (\<lambda>c. node_id c = snd row) nodes)) else [])"

definition walk_roots :: "SummaryNode list \<Rightarrow> int list \<Rightarrow> walk_row list" where
  "walk_roots nodes node_ids = concat (map node_sources (filter (\<lambda>n. node_id n \<in> set node_ids) nodes))"

definition all_rows :: "SummaryNode list \<Rightarrow> walk_row list" where
  "all_rows nodes = concat (map node_sources nodes)"

lemma set_walk_children: "set (walk_children nodes row) \<subseteq> set (all_rows nodes)"
  by (auto simp: walk_children_def all_rows_def)

function union_walk :: "SummaryNode list \<Rightarrow> walk_row list \<Rightarrow> walk_row list \<Rightarrow> walk_row list" where
  "union_walk nodes [] seen = seen"
| "union_walk nodes (row # queue) seen =
     (let fresh = remdups (filter (\<lambda>r. r \<notin> set seen) (walk_children nodes row))
      in union_walk nodes (queue @ fresh) (seen @ fresh))"
  by pat_completeness auto
termination
proof (relation "(\<lambda>(nodes, queue, seen). card (set (all_rows nodes) - set seen)) <*mlex*>
    measure (\<lambda>(nodes, queue, seen). length queue)", goal_cases)
  case 1
  show ?case by (simp add: wf_mlex)
next
  case (2 nodes row queue seen fresh)
  let ?A = "set (all_rows nodes)"
  show ?case
  proof (cases "fresh = []")
    case True
    then show ?thesis by (simp add: mlex_leq)
  next
    case False
    then obtain x where x: "x \<in> set fresh" by (cases fresh) auto
    then have "x \<in> ?A - set seen" "x \<notin> ?A - set (seen @ fresh)" using 2 set_walk_children[of nodes row] by auto
    moreover have "?A - set (seen @ fresh) \<subseteq> ?A - set seen" by auto
    ultimately have "?A - set (seen @ fresh) \<subset> ?A - set seen" by blast
    then have "card (?A - set (seen @ fresh)) < card (?A - set seen)" by (intro psubset_card_mono) auto
    then show ?thesis by (simp add: mlex_less)
  qed
qed

definition source_walk :: "SummaryNode list \<Rightarrow> int list \<Rightarrow> walk_row list" where
  "source_walk nodes node_ids = (let roots = remdups (walk_roots nodes node_ids) in union_walk nodes roots roots)"

definition coverage_end :: "int list \<Rightarrow> lcm_db \<Rightarrow> int option" where
  "coverage_end node_ids db =
     (let ids = map snd (filter (\<lambda>r. fst r = ''messages'') (source_walk (summary_nodes db) node_ids))
      in if ids = [] then None else Some (Max (set ids)))"

definition source_message_ids :: "int \<Rightarrow> int \<Rightarrow> lcm_db \<Rightarrow> int list" where
  "source_message_ids nid bound db =
     (if bound \<le> 0 then []
      else take (nat bound) (sorted_list_of_set
        (set (filter (\<lambda>i. (''messages'', i) \<in> set (source_walk (summary_nodes db) [nid])) (map m_store_id (messages db))))))"

definition UNKNOWN_SOURCE :: string where "UNKNOWN_SOURCE = ''unknown''"

definition normalize_source_value :: "string option \<Rightarrow> string" where
  "normalize_source_value source =
     (let normalized = strip (text_of source) in if normalized \<noteq> [] then normalized else UNKNOWN_SOURCE)"

definition sql_blank_char :: "char \<Rightarrow> bool" where
  "sql_blank_char c = (c \<in> {CHR 0x09, CHR 0x0A, CHR 0x0B, CHR 0x0C, CHR 0x0D, CHR 0x20})"

definition legacy_blank_source :: "string option \<Rightarrow> bool" where
  "legacy_blank_source src = (case src of None \<Rightarrow> True | Some s \<Rightarrow> list_all sql_blank_char s)"

definition message_source_matches :: "string \<Rightarrow> message_row \<Rightarrow> bool" where
  "message_source_matches normalized m =
     (if normalized = UNKNOWN_SOURCE then m_source m = Some normalized \<or> legacy_blank_source (m_source m)
      else m_source m = Some normalized)"

definition row_matches :: "string \<Rightarrow> lcm_db \<Rightarrow> walk_row \<Rightarrow> bool" where
  "row_matches normalized db row =
     (fst row = ''messages'' \<and> (\<exists>m \<in> set (messages db). m_store_id m = snd row \<and> message_source_matches normalized m))"

text \<open>
  The UNION ALL walk with LIMIT 1: rows are produced one by one and the query stops at the first
  match.  \<open>fuel\<close> bounds the rows produced; \<open>None\<close> is a walk that has not ended.
\<close>

fun match_walk :: "nat \<Rightarrow> SummaryNode list \<Rightarrow> (walk_row \<Rightarrow> bool) \<Rightarrow> walk_row list \<Rightarrow> bool option" where
  "match_walk fuel nodes ok [] = Some False"
| "match_walk 0 nodes ok (row # queue) = None"
| "match_walk (Suc fuel) nodes ok (row # queue) =
     (if ok row then Some True else match_walk fuel nodes ok (queue @ walk_children nodes row))"

type_synonym match_cache = "(int \<times> bool) list"

definition node_matches_source ::
  "nat \<Rightarrow> int \<Rightarrow> string \<Rightarrow> match_cache option \<Rightarrow> lcm_db \<Rightarrow> (bool \<times> match_cache option) option" where
  "node_matches_source fuel nid source cache db =
     (if source = [] then Some (True, cache)
      else (case Option.bind cache (\<lambda>c. map_of c nid) of
              Some b \<Rightarrow> Some (b, cache)
            | None \<Rightarrow>
                map_option (\<lambda>b. (b, map_option (\<lambda>c. (nid, b) # c) cache))
                  (match_walk fuel (summary_nodes db) (row_matches (normalize_source_value (Some source)) db)
                     (walk_roots (summary_nodes db) [nid]))))"

section \<open>What a walk reaches\<close>

inductive covers :: "SummaryNode list \<Rightarrow> int \<Rightarrow> int \<Rightarrow> bool" for nodes :: "SummaryNode list" where
  leaf: "n \<in> set nodes \<Longrightarrow> source_type n = ''messages'' \<Longrightarrow> m \<in> set (source_ids n) \<Longrightarrow> covers nodes (node_id n) m"
| nested: "n \<in> set nodes \<Longrightarrow> source_type n = ''nodes'' \<Longrightarrow> c \<in> set (source_ids n) \<Longrightarrow> covers nodes c m \<Longrightarrow>
     covers nodes (node_id n) m"

inductive_cases coversE: "covers nodes i m"

definition edges :: "SummaryNode list \<Rightarrow> (walk_row \<times> walk_row) set" where
  "edges nodes = {(r, c). c \<in> set (walk_children nodes r)}"

lemma union_walk_closed:
  assumes "set queue \<subseteq> set seen" "\<And>r. r \<in> set seen - set queue \<Longrightarrow> set (walk_children nodes r) \<subseteq> set seen"
  shows "set (union_walk nodes queue seen) = (edges nodes)\<^sup>* `` set seen"
  using assms
proof (induction nodes queue seen rule: union_walk.induct)
  case (1 nodes seen)
  then have "edges nodes `` set seen \<subseteq> set seen" by (auto simp: edges_def)
  then show ?case by (simp add: Image_closed_trancl)
next
  case (2 nodes row queue seen)
  define fresh where "fresh = remdups (filter (\<lambda>r. r \<notin> set seen) (walk_children nodes row))"
  have sub: "set fresh \<subseteq> edges nodes `` set seen" using "2.prems"(1) by (auto simp: fresh_def edges_def)
  have "set (union_walk nodes (queue @ fresh) (seen @ fresh)) = (edges nodes)\<^sup>* `` set (seen @ fresh)"
    using "2.IH"[OF fresh_def] "2.prems" by (fastforce simp: fresh_def)
  moreover have "(edges nodes)\<^sup>* `` set (seen @ fresh) = (edges nodes)\<^sup>* `` set seen"
    using sub by (auto intro: converse_rtrancl_into_rtrancl)
  ultimately show ?case by (simp add: fresh_def Let_def)
qed

lemma set_source_walk: "set (source_walk nodes ids) = (edges nodes)\<^sup>* `` set (walk_roots nodes ids)"
  unfolding source_walk_def Let_def by (subst union_walk_closed) auto

lemma reach_covers:
  assumes "(row, (''messages'', m)) \<in> (edges nodes)\<^sup>*"
  shows "row = (''messages'', m) \<or> fst row = ''nodes'' \<and> covers nodes (snd row) m"
  using assms
proof (induction rule: converse_rtrancl_induct)
  case (step row c)
  from step.hyps(1) obtain n where n: "n \<in> set nodes" "node_id n = snd row" "fst row = ''nodes''"
    "fst c = source_type n" "snd c \<in> set (source_ids n)"
    by (auto simp: edges_def walk_children_def node_sources_def split: if_splits)
  from step.IH show ?case
  proof
    assume "c = (''messages'', m)"
    then show ?thesis using n covers.leaf[of n nodes m] by simp
  next
    assume "fst c = ''nodes'' \<and> covers nodes (snd c) m"
    then show ?thesis using n covers.nested[of n nodes "snd c" m] by simp
  qed
qed simp

lemma covers_reach: "covers nodes i m \<Longrightarrow> ((''nodes'', i), (''messages'', m)) \<in> (edges nodes)\<^sup>*"
proof (induction rule: covers.induct)
  case (leaf n m)
  then have "((''nodes'', node_id n), (''messages'', m)) \<in> edges nodes"
    by (force simp: edges_def walk_children_def node_sources_def)
  then show ?case by blast
next
  case (nested n c m)
  then have "((''nodes'', node_id n), (''nodes'', c)) \<in> edges nodes"
    by (force simp: edges_def walk_children_def node_sources_def)
  with nested.IH show ?case by (meson converse_rtrancl_into_rtrancl)
qed

lemma source_walk_covers:
  "(''messages'', m) \<in> set (source_walk nodes ids) \<longleftrightarrow> (\<exists>i \<in> set ids. covers nodes i m)"
proof
  assume "(''messages'', m) \<in> set (source_walk nodes ids)"
  then obtain n r where n: "n \<in> set nodes" "node_id n \<in> set ids" "r \<in> set (node_sources n)"
    and r: "(r, (''messages'', m)) \<in> (edges nodes)\<^sup>*"
    by (auto simp: set_source_walk walk_roots_def)
  from reach_covers[OF r] n have "covers nodes (node_id n) m"
    using covers.leaf[of n nodes m] covers.nested[of n nodes "snd r" m] by (auto simp: node_sources_def)
  with n show "\<exists>i \<in> set ids. covers nodes i m" by blast
next
  assume "\<exists>i \<in> set ids. covers nodes i m"
  then obtain i where i: "i \<in> set ids" "covers nodes i m" by blast
  from i(2) i(1) obtain r where r: "r \<in> set (walk_roots nodes ids)" "(r, (''messages'', m)) \<in> (edges nodes)\<^sup>*"
  proof cases
    case (leaf n)
    with i show thesis by (intro that[of "(''messages'', m)"]) (force simp: walk_roots_def node_sources_def)+
  next
    case (nested n c)
    with i covers_reach[OF nested(5)] show thesis
      by (intro that[of "(''nodes'', c)"]) (force simp: walk_roots_def node_sources_def)+
  qed
  then show "(''messages'', m) \<in> set (source_walk nodes ids)" by (auto simp: set_source_walk)
qed

text \<open>
  C32: \<open>source_message_ids\<close> resolves a node to the stored messages underneath it: the walk always
  ends (even on a cyclic table, because UNION drops repeated rows), and for a positive limit the
  result is the ascending list of the first \<open>limit\<close> of exactly those stored messages that a chain of
  source links reaches.
\<close>

theorem source_message_ids_exact:
  assumes "0 < bound"
  shows "source_message_ids nid bound db =
    take (nat bound) (sorted_list_of_set {i \<in> set (map m_store_id (messages db)). covers (summary_nodes db) nid i})"
  using assms by (simp add: source_message_ids_def source_walk_covers)

theorem source_message_ids_exact_witness:
  "source_message_ids 1 5 empty_db = take 5 (sorted_list_of_set {i \<in> set []. covers [] 1 i})"
  using source_message_ids_exact[of 5 1 empty_db] by (simp add: empty_db_def)

text \<open>
  \<open>coverage_end\<close> is the greatest store id that any of the given nodes covers through its source
  links, and nothing when they cover no message.
\<close>

theorem coverage_end_greatest:
  "case coverage_end node_ids db of
     None \<Rightarrow> \<not> (\<exists>i \<in> set node_ids. \<exists>m. covers (summary_nodes db) i m)
   | Some e \<Rightarrow> (\<exists>i \<in> set node_ids. covers (summary_nodes db) i e)
       \<and> (\<forall>i \<in> set node_ids. \<forall>m. covers (summary_nodes db) i m \<longrightarrow> m \<le> e)"
proof -
  let ?ids = "map snd (filter (\<lambda>r. fst r = ''messages'') (source_walk (summary_nodes db) node_ids))"
  have mem: "m \<in> set ?ids \<longleftrightarrow> (\<exists>i \<in> set node_ids. covers (summary_nodes db) i m)" for m
    using source_walk_covers[of m "summary_nodes db" node_ids] by force
  show ?thesis
  proof (cases "?ids = []")
    case True
    with mem have "\<not> (\<exists>i \<in> set node_ids. covers (summary_nodes db) i m)" for m by (metis empty_iff empty_set)
    with True show ?thesis by (auto simp: coverage_end_def)
  next
    case False
    then have "Max (set ?ids) \<in> set ?ids" by (intro Max_in) (simp_all only: set_empty finite_set not_False_eq_True)
    moreover have "m \<le> Max (set ?ids)" if "m \<in> set ?ids" for m using that by (intro Max_ge) simp_all
    moreover have "coverage_end node_ids db = Some (Max (set ?ids))" using False by (simp add: coverage_end_def Let_def)
    ultimately show ?thesis unfolding mem by (simp, blast)
  qed
qed

theorem coverage_end_greatest_witness:
  "\<forall>i \<in> set [1]. \<forall>m. covers [default_node\<lparr>node_id := 1, source_ids := [4, 9]\<rparr>] i m \<longrightarrow> m \<le> 9"
proof -
  let ?db = "empty_db\<lparr>summary_nodes := [default_node\<lparr>node_id := 1, source_ids := [4, 9]\<rparr>]\<rparr>"
  have "coverage_end [1] ?db = Some 9"
    by (simp add: coverage_end_def source_walk_def walk_roots_def node_sources_def empty_db_def default_node_def
        walk_children_def Let_def)
  with coverage_end_greatest[of "[1]" ?db] show ?thesis by (simp add: empty_db_def)
qed

section \<open>The UNION ALL walk\<close>

text \<open>
  A weight that a walk step always decreases on an acyclic table: a node row outweighs all its
  children together.
\<close>

definition row_rank :: "walk_row \<Rightarrow> nat" where
  "row_rank row = (if fst row = ''nodes'' then Suc (nat (snd row)) else 0)"

definition row_weight :: "SummaryNode list \<Rightarrow> walk_row \<Rightarrow> nat" where
  "row_weight nodes row = (Suc (length (all_rows nodes))) ^ row_rank row"

definition queue_weight :: "SummaryNode list \<Rightarrow> walk_row list \<Rightarrow> nat" where
  "queue_weight nodes queue = sum_list (map (row_weight nodes) queue)"

lemma length_walk_children: "length (walk_children nodes row) \<le> length (all_rows nodes)"
  unfolding walk_children_def all_rows_def by (induction nodes) auto

lemma child_rank:
  assumes "wf_edges nodes" "c \<in> set (walk_children nodes row)"
  shows "row_rank c < row_rank row"
proof -
  from assms(2) obtain n where n: "n \<in> set nodes" "node_id n = snd row" "fst row = ''nodes''"
    "fst c = source_type n" "snd c \<in> set (source_ids n)"
    by (auto simp: walk_children_def node_sources_def split: if_splits)
  with assms(1) have "1 \<le> node_id n" "source_type n = ''nodes'' \<longrightarrow> snd c < node_id n"
    by (auto simp: wf_edges_def)
  with n show ?thesis by (auto simp: row_rank_def)
qed

lemma children_weight:
  assumes "wf_edges nodes"
  shows "queue_weight nodes (walk_children nodes row) < row_weight nodes row"
proof (cases "walk_children nodes row = []")
  case True
  then show ?thesis by (simp add: queue_weight_def row_weight_def)
next
  case False
  let ?B = "Suc (length (all_rows nodes))"
  have "row_rank row > 0" using child_rank[OF assms] False
    by (metis bot_nat_0.not_eq_extremum gr_implies_not0 last_in_set)
  then obtain k where k: "row_rank row = Suc k" by (cases "row_rank row") auto
  have "row_weight nodes c \<le> ?B ^ k" if "c \<in> set (walk_children nodes row)" for c
    using child_rank[OF assms that] k unfolding row_weight_def by (intro power_increasing) auto
  then have "queue_weight nodes (walk_children nodes row) \<le> length (walk_children nodes row) * ?B ^ k"
    unfolding queue_weight_def using sum_list_mono[of "walk_children nodes row" "row_weight nodes" "\<lambda>_. ?B ^ k"]
    by (simp add: sum_list_triv)
  also have "\<dots> \<le> length (all_rows nodes) * ?B ^ k" using length_walk_children by (intro mult_right_mono) auto
  also have "\<dots> < ?B * ?B ^ k" by simp
  finally show ?thesis by (simp add: row_weight_def k)
qed

lemma edges_rtrancl_unfold:
  "(row, r) \<in> (edges nodes)\<^sup>* \<longleftrightarrow> r = row \<or> (\<exists>c \<in> set (walk_children nodes row). (c, r) \<in> (edges nodes)\<^sup>*)"
  by (auto simp: edges_def elim: converse_rtranclE intro: converse_rtrancl_into_rtrancl)

lemma match_walk_result:
  "wf_edges nodes \<Longrightarrow> queue_weight nodes queue \<le> fuel \<Longrightarrow>
   match_walk fuel nodes ok queue = Some (\<exists>q \<in> set queue. \<exists>r. (q, r) \<in> (edges nodes)\<^sup>* \<and> ok r)"
proof (induction fuel nodes ok queue rule: match_walk.induct)
  case (2 nodes ok row queue)
  then show ?case by (simp add: queue_weight_def row_weight_def)
next
  case (3 fuel nodes ok row queue)
  have w: "queue_weight nodes (queue @ walk_children nodes row) \<le> fuel"
    using "3.prems"(2) children_weight[OF "3.prems"(1), of row] by (simp add: queue_weight_def)
  show ?case
  proof (cases "ok row")
    case True
    have "(row, row) \<in> (edges nodes)\<^sup>*" by simp
    with True have "\<exists>q \<in> set (row # queue). \<exists>r. (q, r) \<in> (edges nodes)\<^sup>* \<and> ok r" by (meson list.set_intros(1))
    with True show ?thesis by simp
  next
    case False
    with "3.IH"[OF False "3.prems"(1) w] show ?thesis
      by (auto simp: edges_rtrancl_unfold[of row])
  qed
qed simp

text \<open>
  The source filter of search always decides.  On every reachable node table the UNION ALL walk of
  \<open>_node_matches_source\<close> ends, and its answer is whether some stored message below the node carries
  the requested source; \<open>unknown\<close> also takes messages whose source is missing or blank.
\<close>

theorem node_matches_source_decides:
  assumes "dag_reachable db" "source \<noteq> []"
  shows "\<exists>fuel0. \<forall>fuel \<ge> fuel0. node_matches_source fuel nid source None db =
    Some (\<exists>m \<in> set (messages db). covers (summary_nodes db) nid (m_store_id m)
            \<and> message_source_matches (normalize_source_value (Some source)) m, None)"
proof -
  let ?nodes = "summary_nodes db" and ?ok = "row_matches (normalize_source_value (Some source)) db"
  have wf: "wf_edges ?nodes" using dag_reachable_inv[OF assms(1)] by (simp add: node_inv_def)
  have "(\<exists>q \<in> set (walk_roots ?nodes [nid]). \<exists>r. (q, r) \<in> (edges ?nodes)\<^sup>* \<and> ?ok r) \<longleftrightarrow>
      (\<exists>m \<in> set (messages db). (''messages'', m_store_id m) \<in> set (source_walk ?nodes [nid])
         \<and> message_source_matches (normalize_source_value (Some source)) m)"
    unfolding set_source_walk row_matches_def by force
  then show ?thesis
    using match_walk_result[OF wf, of "walk_roots ?nodes [nid]" _ ?ok] assms(2)
    by (intro exI[of _ "queue_weight ?nodes (walk_roots ?nodes [nid])"])
       (simp add: node_matches_source_def source_walk_covers)
qed

theorem node_matches_source_decides_witness:
  "\<exists>fuel0. \<forall>fuel \<ge> fuel0. node_matches_source fuel 1 ''cli'' None empty_db = Some (False, None)"
  using node_matches_source_decides[OF dag_reachable.empty, of "''cli''" 1] by (simp add: empty_db_def)

text \<open>
  The guarantee needs the acyclic table: on a node that names itself the walk produces rows for ever,
  where the UNION walk of \<open>source_message_ids\<close> stops.
\<close>

lemma match_walk_cycle:
  "match_walk fuel [default_node\<lparr>node_id := 1, source_type := ''nodes'', source_ids := [1]\<rparr>] (\<lambda>_. False) [(''nodes'', 1)] = None"
  by (induction fuel) (simp_all add: walk_children_def node_sources_def default_node_def)

end
