(* ===== verification/Conversation_Ids.thy ===== *)
theory Conversation_Ids
  imports Tables "HOL-Library.List_Lexorder" "HOL-Library.Char_ord"
begin

text \<open>
  The conversation-id helpers of \<^verbatim>\<open>src/db_bootstrap.py\<close>: which stored values of the
  \<open>conversation_id\<close> column belong to a conversation.  Rows written by this code hold the stripped id,
  or the empty string; stores written by older code may hold NULL or unstripped ids, which the probe
  collects per normalized id.  The per-store cache is an argument; \<open>None\<close> is an empty cache.
\<close>

type_synonym legacy_ids = "(string \<times> string option list) list"

text \<open>The index walk: the smallest id, then repeatedly the smallest id above the previous one.\<close>

function seek_above :: "string list \<Rightarrow> string \<Rightarrow> string list" where
  "seek_above ids prev =
     (let above = filter (\<lambda>v. prev < v) ids in
      if above = [] then [] else Min (set above) # seek_above ids (Min (set above)))"
  by auto
termination
proof (relation "measure (\<lambda>(ids, prev). length (filter (\<lambda>v. prev < v) ids))", goal_cases)
  case (2 ids prev above)
  then have "set above \<noteq> {}" by (simp only: set_empty not_False_eq_True)
  then have "Min (set above) \<in> set above" by (intro Min_in) simp_all
  then have m: "Min (set above) \<in> set ids" "prev < Min (set above)" using 2 by auto
  have "filter (\<lambda>v. Min (set above) < v) ids = filter (\<lambda>v. Min (set above) < v) above"
    using 2 m by (auto intro!: filter_cong)
  moreover have "length (filter (\<lambda>v. Min (set above) < v) above) < length above"
    using \<open>Min (set above) \<in> set above\<close> by (intro length_filter_less) auto
  ultimately show ?case using 2 by simp
qed simp

declare seek_above.simps [simp del]

definition given_values :: "string option list \<Rightarrow> string list" where
  "given_values vs = map text_of (filter (\<lambda>v. v \<noteq> None) vs)"

definition stored_conversation_ids :: "bool \<Rightarrow> lcm_db \<Rightarrow> string option list" where
  "stored_conversation_ids index_exists db =
     (if \<not> index_exists then remdups (map m_conversation_id (messages db))
      else (let given = given_values (map m_conversation_id (messages db)) in
            (if None \<in> set (map m_conversation_id (messages db)) then [None] else []) @
            map Some (if given = [] then [] else Min (set given) # seek_above given (Min (set given)))))"

fun setdefault_append :: "string \<Rightarrow> string option \<Rightarrow> legacy_ids \<Rightarrow> legacy_ids" where
  "setdefault_append k v [] = [(k, [v])]"
| "setdefault_append k v ((k', vs) # rest) =
     (if k' = k then (k', vs @ [v]) # rest else (k', vs) # setdefault_append k v rest)"

definition is_legacy_value :: "string option \<Rightarrow> bool" where
  "is_legacy_value value = (case value of None \<Rightarrow> True | Some s \<Rightarrow> s \<noteq> strip s)"

definition refresh_legacy_conversation_ids :: "bool \<Rightarrow> bool \<Rightarrow> lcm_db \<Rightarrow> legacy_ids option" where
  "refresh_legacy_conversation_ids probe_fails index_exists db =
     (if probe_fails then None
      else Some (fold (\<lambda>value legacy.
        if is_legacy_value value then setdefault_append (strip (text_of value)) value legacy else legacy)
        (stored_conversation_ids index_exists db) []))"

definition legacy_get :: "string \<Rightarrow> legacy_ids \<Rightarrow> string option list" where
  "legacy_get k legacy = (case map_of legacy k of None \<Rightarrow> [] | Some vs \<Rightarrow> vs)"

text \<open>\<open>None\<close> is the raised \<open>OperationalError\<close> of a failed probe.\<close>

definition owned_conversation_values ::
  "legacy_ids option \<Rightarrow> bool \<Rightarrow> bool \<Rightarrow> lcm_db \<Rightarrow> string \<Rightarrow> string option list option" where
  "owned_conversation_values cache probe_fails index_exists db cid =
     (case (case cache of Some l \<Rightarrow> Some l | None \<Rightarrow> refresh_legacy_conversation_ids probe_fails index_exists db) of
        None \<Rightarrow> None
      | Some legacy \<Rightarrow>
          (let wanted = (if strip cid = [] then [[]] else [strip cid, []])
           in Some (map Some wanted @ concat (map (\<lambda>k. legacy_get k legacy) wanted))))"

text \<open>The WHERE clause: an IN list of the given values, and IS NULL when NULL is among them.\<close>

definition owned_clause_holds :: "string option list \<Rightarrow> string option \<Rightarrow> bool" where
  "owned_clause_holds values stored = (case stored of
     Some s \<Rightarrow> Some s \<in> set values
   | None \<Rightarrow> length (given_values values) < length values)"

section \<open>The clause selects exactly the conversation's rows\<close>

lemma seek_above_sorted:
  "seek_above ids prev = sorted_list_of_set {v \<in> set ids. prev < v}"
proof (induction ids prev rule: seek_above.induct)
  case (1 ids prev)
  show ?case
  proof (cases "filter (\<lambda>v. prev < v) ids = []")
    case True
    then have "{v \<in> set ids. prev < v} = {}" by (auto simp: filter_empty_conv)
    then show ?thesis by (subst seek_above.simps) (simp only: True Let_def sorted_list_of_set_empty if_True refl)
  next
    case False
    let ?A = "{v \<in> set ids. prev < v}"
    have ne: "finite ?A" "?A \<noteq> {}" using False by (auto simp: filter_empty_conv)
    note min = Min_in[OF ne] Min_le[OF ne(1)]
    have "{v \<in> set ids. Min ?A < v} = ?A - {Min ?A}"
      using min by (auto simp: order.order_iff_strict)
    then have "seek_above ids (Min ?A) = sorted_list_of_set (?A - {Min ?A})"
      using "1.IH"[OF refl] False by simp
    then show ?thesis
      using False sorted_list_of_set_nonempty[OF ne] by (subst seek_above.simps) (simp add: Let_def)
  qed
qed

lemma mem_given_values: "v \<in> set (given_values vs) \<longleftrightarrow> Some v \<in> set vs"
proof (induction vs)
  case (Cons w vs)
  then show ?case by (cases w) (auto simp: given_values_def)
qed (simp add: given_values_def)

lemma set_stored_conversation_ids:
  "set (stored_conversation_ids index_exists db) = set (map m_conversation_id (messages db))"
proof -
  let ?ids = "map m_conversation_id (messages db)"
  let ?given = "given_values ?ids"
  have given: "v \<in> set ?given \<longleftrightarrow> Some v \<in> set ?ids" for v
    by (rule mem_given_values)
  define walked where "walked = (if ?given = [] then [] else Min (set ?given) # seek_above ?given (Min (set ?given)))"
  have walked: "set walked = set ?given"
    by (auto simp: walked_def seek_above_sorted intro: Min_in intro!: le_neq_trans[OF Min_le])
  have "stored_conversation_ids True db = (if None \<in> set ?ids then [None] else []) @ map Some walked"
    by (simp add: stored_conversation_ids_def Let_def walked_def)
  then have "set (stored_conversation_ids True db) = (if None \<in> set ?ids then {None} else {}) \<union> Some ` set ?given"
    unfolding walked[symmetric] by simp
  also have "\<dots> = set ?ids"
  proof (intro set_eqI)
    fix v
    show "v \<in> (if None \<in> set ?ids then {None} else {}) \<union> Some ` set ?given \<longleftrightarrow> v \<in> set ?ids"
      using given by (cases v) (simp_all add: image_iff)
  qed
  finally show ?thesis by (cases index_exists) (simp_all add: stored_conversation_ids_def)
qed

lemma legacy_get_setdefault:
  "legacy_get k (setdefault_append k' v legacy) = (if k = k' then legacy_get k legacy @ [v] else legacy_get k legacy)"
  by (induction k' v legacy rule: setdefault_append.induct) (auto simp: legacy_get_def split: option.splits)

lemma set_legacy_fold:
  "set (legacy_get k (fold (\<lambda>value legacy.
        if is_legacy_value value then setdefault_append (strip (text_of value)) value legacy else legacy) values l)) =
   set (legacy_get k l) \<union> {v \<in> set values. is_legacy_value v \<and> strip (text_of v) = k}"
  by (induction "values" arbitrary: l) (auto simp: legacy_get_setdefault)

text \<open>A cache is complete for a store when it lists every unnormalized stored value.\<close>

definition legacy_complete :: "legacy_ids \<Rightarrow> lcm_db \<Rightarrow> bool" where
  "legacy_complete legacy db =
     ((\<forall>k. \<forall>v \<in> set (legacy_get k legacy). strip (text_of v) = k)
      \<and> (\<forall>m \<in> set (messages db). is_legacy_value (m_conversation_id m) \<longrightarrow>
           m_conversation_id m \<in> set (legacy_get (strip (text_of (m_conversation_id m))) legacy)))"

lemma refresh_complete: "refresh_legacy_conversation_ids False index_exists db = Some legacy \<Longrightarrow> legacy_complete legacy db"
  by (auto simp: refresh_legacy_conversation_ids_def legacy_complete_def set_legacy_fold
      set_stored_conversation_ids legacy_get_def[of _ "[]"])

lemma owned_clause_None: "owned_clause_holds values None \<longleftrightarrow> None \<in> set values"
proof -
  have "length (given_values values) + length (filter (\<lambda>v. v = None) values) = length values"
    using sum_length_filter_compl[of "\<lambda>v. v = None" "values"] by (simp add: given_values_def)
  moreover have "0 < length (filter (\<lambda>v. v = None) values) \<longleftrightarrow> None \<in> set values"
    by (simp add: filter_empty_conv)
  ultimately show ?thesis unfolding owned_clause_holds_def option.case by linarith
qed

lemma owned_clause_mem: "owned_clause_holds values stored \<longleftrightarrow> stored \<in> set values"
  by (cases stored) (simp_all add: owned_clause_None, simp add: owned_clause_holds_def)

lemma owned_clause_exact:
  assumes "owned_conversation_values cache probe_fails index_exists db cid = Some vals"
    and "case cache of None \<Rightarrow> True | Some l \<Rightarrow> legacy_complete l db" "m \<in> set (messages db)"
  shows "owned_clause_holds vals (m_conversation_id m) \<longleftrightarrow> strip (text_of (m_conversation_id m)) \<in> {strip cid, []}"
proof -
  obtain legacy where l: "legacy_complete legacy db"
    and vals: "vals = map Some (if strip cid = [] then [[]] else [strip cid, []]) @
       concat (map (\<lambda>k. legacy_get k legacy) (if strip cid = [] then [[]] else [strip cid, []]))"
    using assms(1,2) refresh_complete[of index_exists db]
    by (cases probe_fails) (auto simp: owned_conversation_values_def refresh_legacy_conversation_ids_def Let_def split: option.splits)
  have vset: "set vals = {Some (strip cid), Some []} \<union> set (legacy_get (strip cid) legacy) \<union> set (legacy_get [] legacy)"
    by (auto simp: vals)
  let ?v = "m_conversation_id m"
  from l have keys: "v \<in> set (legacy_get k legacy) \<Longrightarrow> strip (text_of v) = k" for k v
    by (simp add: legacy_complete_def)
  show ?thesis unfolding owned_clause_mem
  proof
    assume "?v \<in> set vals"
    then consider "?v = Some (strip cid)" | "?v = Some []" | "?v \<in> set (legacy_get (strip cid) legacy)"
      | "?v \<in> set (legacy_get [] legacy)" unfolding vset by blast
    then show "strip (text_of ?v) \<in> {strip cid, []}" using keys by cases simp_all
  next
    assume strip: "strip (text_of ?v) \<in> {strip cid, []}"
    show "?v \<in> set vals"
    proof (cases "is_legacy_value ?v")
      case True
      with l assms(3) have "?v \<in> set (legacy_get (strip (text_of ?v)) legacy)" by (simp add: legacy_complete_def)
      with strip show ?thesis unfolding vset by auto
    next
      case False
      then obtain s where "?v = Some s" "s = strip s" by (auto simp: is_legacy_value_def split: option.splits)
      with strip show ?thesis unfolding vset by auto
    qed
  qed
qed

text \<open>
  The conversation clause never misses or adds a row.  With an empty cache, a probe that fails is
  an error and not an empty answer; a probe that succeeds, by the index walk or by the DISTINCT scan,
  gives a clause that selects exactly the rows whose stored id normalizes to the conversation's own id
  or to the blank id, legacy NULL and unstripped values included.
\<close>

theorem owned_conversation_rows_exact:
  "case owned_conversation_values None probe_fails index_exists db cid of
     None \<Rightarrow> probe_fails
   | Some vals \<Rightarrow> \<not> probe_fails \<and>
       filter (\<lambda>m. owned_clause_holds vals (m_conversation_id m)) (messages db) =
       filter (\<lambda>m. strip (text_of (m_conversation_id m)) \<in> {strip cid, []}) (messages db)"
proof (cases "owned_conversation_values None probe_fails index_exists db cid")
  case None
  then show ?thesis
    by (auto simp: owned_conversation_values_def refresh_legacy_conversation_ids_def Let_def split: if_splits)
next
  case (Some vals)
  from owned_clause_exact[OF Some] have
    "filter (\<lambda>m. owned_clause_holds vals (m_conversation_id m)) (messages db) =
     filter (\<lambda>m. strip (text_of (m_conversation_id m)) \<in> {strip cid, []}) (messages db)"
    by (intro filter_cong) simp_all
  with Some show ?thesis
    by (auto simp: owned_conversation_values_def refresh_legacy_conversation_ids_def Let_def split: if_splits)
qed

end
