(* ===== verification/Publication.thy ===== *)
theory Publication
  imports Lifecycle Summary_DAG Conversation_Ids
begin

text \<open>
  The publication of one compacted leaf: \<open>stage_compaction_publication\<close> of
  \<^verbatim>\<open>src/lifecycle_state.py\<close>, staged by \<open>_publish_leaf_node\<close> of \<^verbatim>\<open>src/compaction.py\<close> in the
  transaction of \<open>SummaryDAG.add_node\<close>.  It proves, against the stored rows, that the published
  sources are exactly the conversation's rows between the frontier and the new frontier.
\<close>

section \<open>The coverage check\<close>

definition OWNERSHIP_QUERY_MAX_RANGES :: nat where "OWNERSHIP_QUERY_MAX_RANGES = 200"

definition int_list_repr :: "int list \<Rightarrow> string" where
  "int_list_repr xs = ''['' @ join '', '' (map int_str xs) @ '']''"

definition repeated :: "int list \<Rightarrow> int set" where
  "repeated xs = {x \<in> set xs. 1 < count_list xs x}"

definition compaction_coverage_conflict_message :: "int \<Rightarrow> int list \<Rightarrow> int list \<Rightarrow> int list \<Rightarrow> string" where
  "compaction_coverage_conflict_message expected_frontier authoritative_ids covered_ids excluded_ids =
     (let proven_ids = covered_ids @ excluded_ids;
          missing = sorted_list_of_set (set authoritative_ids - set proven_ids);
          extra = sorted_list_of_set (set proven_ids - set authoritative_ids);
          double = sorted_list_of_set ((set covered_ids \<inter> set excluded_ids) \<union> repeated covered_ids \<union> repeated excluded_ids);
          len = (\<lambda>xs. nat_digits (length xs))
      in ''Compaction publication source coverage is not contiguous '' @
         ''(expected_frontier='' @ int_str expected_frontier @ '', owned='' @ len authoritative_ids @
         '' covered='' @ len covered_ids @ '' excluded='' @ len excluded_ids @ ''; '' @
         ''missing='' @ len missing @ '' '' @ int_list_repr (take 8 missing) @
         ''; extra='' @ len extra @ '' '' @ int_list_repr (take 8 extra) @ ''; '' @
         ''double='' @ len double @ '' '' @ int_list_repr (take 8 double) @
         ''; authoritative='' @ int_list_repr authoritative_ids @ '', '' @
         ''covered='' @ int_list_repr covered_ids @ '', excluded='' @ int_list_repr excluded_ids @ '')'')"

type_synonym carry_range = "string \<times> int \<times> int"

definition sorted_set :: "int list \<Rightarrow> int list" where
  "sorted_set xs = sorted_list_of_set (set xs)"

definition allowed_carry_ranges :: "carry_range list \<Rightarrow> carry_range list" where
  "allowed_carry_ranges ranges = filter (\<lambda>(src, start, fin). src \<noteq> [] \<and> 0 \<le> start \<and> start < fin) ranges"

definition row_is_owned :: "string \<Rightarrow> carry_range list \<Rightarrow> message_row \<Rightarrow> bool" where
  "row_is_owned session_id ranges m =
     (m_session_id m = session_id \<or>
      (\<exists>(src, start, fin) \<in> set ranges. m_session_id m = src \<and> start < m_store_id m \<and> m_store_id m \<le> fin))"

definition snapshot_rows :: "int list \<Rightarrow> lcm_db \<Rightarrow> message_row list" where
  "snapshot_rows ids db = sort_key m_store_id (filter (\<lambda>m. m_store_id m \<in> set ids) (messages db))"

definition payload :: "message_row \<Rightarrow> string option \<times> string \<times> string option \<times> string option \<times> string option" where
  "payload m = (m_content m, m_role m, m_tool_call_id m, m_tool_calls m, m_tool_name m)"

definition node_covered :: "int list \<Rightarrow> lcm_db \<Rightarrow> int set" where
  "node_covered twin_ids db =
     {i \<in> set (concat (map source_ids (filter (\<lambda>n. source_type n = ''messages'') (summary_nodes db)))). i \<in> set twin_ids}"

definition snapshot_row :: "int \<Rightarrow> message_row list \<Rightarrow> message_row option" where
  "snapshot_row i rows = sel_first (\<lambda>m. m_store_id m = i) rows"

definition copy_proof_holds :: "message_row list \<Rightarrow> int set \<Rightarrow> int \<times> int \<Rightarrow> bool" where
  "copy_proof_holds rows covered proof = (case proof of (cpy, twin) \<Rightarrow>
     twin < cpy \<and> map_option payload (snapshot_row cpy rows) = map_option payload (snapshot_row twin rows)
     \<and> twin \<in> covered)"

definition owned_ranges :: "string \<Rightarrow> int \<Rightarrow> int \<Rightarrow> carry_range list \<Rightarrow> carry_range list" where
  "owned_ranges session_id expected_frontier covered_end ranges =
     (session_id, expected_frontier, covered_end) #
     map (\<lambda>(src, start, fin). (src, max expected_frontier start, min covered_end fin))
       (filter (\<lambda>(src, start, fin). max expected_frontier start < min covered_end fin) ranges)"

fun batches :: "nat \<Rightarrow> 'a list \<Rightarrow> 'a list list" where
  "batches n [] = []"
| "batches n (x # xs) = take (Suc n) (x # xs) # batches n (drop n xs)"

definition in_range :: "message_row \<Rightarrow> carry_range \<Rightarrow> bool" where
  "in_range m rng = (case rng of (src, start, fin) \<Rightarrow>
     m_session_id m = src \<and> start < m_store_id m \<and> m_store_id m \<le> fin)"

definition authoritative_ids :: "string option list \<Rightarrow> carry_range list \<Rightarrow> lcm_db \<Rightarrow> int list" where
  "authoritative_ids owned_values ranges db =
     sorted_set (concat (map (\<lambda>range_batch.
        map m_store_id (filter (\<lambda>m. (\<exists>rng \<in> set range_batch. in_range m rng)
          \<and> owned_clause_holds owned_values (m_conversation_id m)) (messages db)))
        (batches (OWNERSHIP_QUERY_MAX_RANGES - 1) ranges)))"

definition lineage_claimed :: "string \<Rightarrow> int \<Rightarrow> int list \<Rightarrow> lcm_db \<Rightarrow> bool" where
  "lineage_claimed session_id publication_node_id covered db =
     (\<exists>n \<in> set (summary_nodes db). n_session_id n = session_id \<and> source_type n = ''messages''
        \<and> node_id n \<noteq> publication_node_id \<and> (\<exists>i \<in> set (source_ids n). i \<in> set covered))"

record publication_request =
  pr_conversation_id :: string
  pr_session_id :: string
  pr_expected_frontier :: int
  pr_covered :: "int list"
  pr_excluded :: "int list"
  pr_filter_proofs :: "(int \<times> string option) list"
  pr_carried_ranges :: "carry_range list"
  pr_copy_proofs :: "(int \<times> int) list"

definition all_covered_ids :: "publication_request \<Rightarrow> int list" where
  "all_covered_ids req = sorted_set (filter (\<lambda>i. 0 < i) (pr_covered req))"

definition expected_frontier :: "publication_request \<Rightarrow> int" where
  "expected_frontier req = max 0 (pr_expected_frontier req)"

definition covered_end :: "publication_request \<Rightarrow> int" where
  "covered_end req = max (expected_frontier req) (last (all_covered_ids req))"

definition covered_ids :: "publication_request \<Rightarrow> int list" where
  "covered_ids req = filter (\<lambda>i. expected_frontier req < i) (all_covered_ids req)"

definition excluded_ids :: "publication_request \<Rightarrow> int list" where
  "excluded_ids req = sorted_set (filter (\<lambda>i. expected_frontier req < i \<and> i \<le> covered_end req) (pr_excluded req))"

definition copy_proofs :: "publication_request \<Rightarrow> (int \<times> int) list" where
  "copy_proofs req = filter (\<lambda>(c, t). expected_frontier req < c \<and> c \<le> covered_end req) (pr_copy_proofs req)"

definition snapshot_ids :: "publication_request \<Rightarrow> int list" where
  "snapshot_ids req = sorted_set (all_covered_ids req @ excluded_ids req @ map fst (pr_filter_proofs req) @ map snd (copy_proofs req))"

definition conflict :: "string \<Rightarrow> publication_error + 'a" where
  "conflict msg = Inl (PublicationConflict msg)"

text \<open>The checks of the request and of the snapshot of its rows, in order; \<open>None\<close> when all hold.\<close>

definition snapshot_conflict :: "publication_request \<Rightarrow> lcm_db \<Rightarrow> string option" where
  "snapshot_conflict req db =
     (let carried = allowed_carry_ranges (pr_carried_ranges req);
          rows = snapshot_rows (snapshot_ids req) db in
      if all_covered_ids req = [] then Some ''Compaction publication has no durable source coverage''
      else if set (covered_ids req) \<inter> set (excluded_ids req) \<noteq> {}
      then Some ''Compaction publication coverage overlaps an explicit exclusion''
      else if \<not> set (map fst (copy_proofs req)) \<subseteq> set (excluded_ids req)
      then Some ''Compaction publication copy proof is not excluded''
      else if map m_store_id rows \<noteq> snapshot_ids req \<or> \<not> list_all (row_is_owned (pr_session_id req) carried) rows
      then Some ''Compaction publication source ownership changed''
      else if list_ex (\<lambda>m. strip (text_of (m_conversation_id m)) \<notin> {[], pr_conversation_id req}) rows
      then Some ''Compaction publication source ownership changed''
      else if list_ex (\<lambda>(i, proof). map_option m_content (snapshot_row i rows) \<noteq> Some proof) (pr_filter_proofs req)
      then Some ''Compaction publication filter exclusion changed''
      else if copy_proofs req \<noteq> []
        \<and> \<not> list_all (copy_proof_holds rows (node_covered (sorted_set (map snd (copy_proofs req))) db)) (copy_proofs req)
      then Some ''Compaction publication copy exclusion changed''
      else None)"

text \<open>The check of the lifecycle row and the frontier advance.\<close>

definition stage_checked_advance ::
  "publication_request \<Rightarrow> timestamp \<Rightarrow> lcm_db \<Rightarrow> publication_error + (int \<times> lcm_db)" where
  "stage_checked_advance req now db =
     (case sel_first (\<lambda>r. conversation_id r = pr_conversation_id req) (lifecycle db) of
        None \<Rightarrow> Inl NoLifecycleState
      | Some r \<Rightarrow>
          if text_of (current_session_id r) \<noteq> pr_session_id req then Inl LifecycleBindingChanged
          else if current_frontier_store_id r \<noteq> expected_frontier req
          then conflict (''Compaction publication frontier generation changed '' @ ''(expected='' @
                 int_str (expected_frontier req) @ '', actual='' @ int_str (current_frontier_store_id r) @ '')'')
          else (case stage_frontier_advance (pr_conversation_id req) (pr_session_id req) (covered_end req) now (lifecycle db) of
                  Inl e \<Rightarrow> Inl e
                | Inr tbl \<Rightarrow> Inr (covered_end req, db\<lparr>lifecycle := tbl\<rparr>)))"

definition stage_compaction_publication ::
  "legacy_ids option \<Rightarrow> bool \<Rightarrow> bool \<Rightarrow> int \<Rightarrow> publication_request \<Rightarrow> timestamp \<Rightarrow> lcm_db
     \<Rightarrow> publication_error + (int \<times> lcm_db)" where
  "stage_compaction_publication cache probe_fails index_exists publication_node_id req now db =
     (case snapshot_conflict req db of
        Some msg \<Rightarrow> conflict msg
      | None \<Rightarrow>
     (case owned_conversation_values cache probe_fails index_exists db (pr_conversation_id req) of
        None \<Rightarrow> Inl StoreProbeFailed
      | Some owned_values \<Rightarrow>
          (let auth = authoritative_ids owned_values (owned_ranges (pr_session_id req) (expected_frontier req)
                        (covered_end req) (allowed_carry_ranges (pr_carried_ranges req))) db in
           if auth \<noteq> sort (covered_ids req @ excluded_ids req)
           then conflict (compaction_coverage_conflict_message (expected_frontier req) auth (covered_ids req) (excluded_ids req))
           else if lineage_claimed (pr_session_id req) publication_node_id (all_covered_ids req) db
           then conflict ''Compaction publication source lineage is already claimed''
           else stage_checked_advance req now db)))"

section \<open>Publishing a leaf\<close>

definition stage_frontier ::
  "(lcm_db \<Rightarrow> 'r + lcm_db) option \<Rightarrow> (int \<Rightarrow> lcm_db \<Rightarrow> publication_error + (int \<times> lcm_db)) \<Rightarrow> int \<Rightarrow> lcm_db
     \<Rightarrow> ((publication_error + 'r) add_node_error + unit) \<times> lcm_db" where
  "stage_frontier before_publication stage nid db =
     (case (case before_publication of None \<Rightarrow> Inr db | Some check \<Rightarrow> check db) of
        Inl rejected \<Rightarrow> (Inl (CallbackError (Inr rejected)), db)
      | Inr db1 \<Rightarrow> (case stage nid db1 of
            Inl e \<Rightarrow> (Inl (CallbackError (Inl e)), db1)
          | Inr (_, db2) \<Rightarrow> (Inr (), db2)))"

definition publish_leaf_node ::
  "(nat \<Rightarrow> sqlite_error option) \<Rightarrow> (lcm_db \<Rightarrow> lcm_db) \<Rightarrow> bool \<Rightarrow> legacy_ids option \<Rightarrow> bool \<Rightarrow> bool
     \<Rightarrow> (lcm_db \<Rightarrow> 'r + lcm_db) option \<Rightarrow> SummaryNode \<Rightarrow> int \<Rightarrow> string \<Rightarrow> publication_request \<Rightarrow> timestamp \<Rightarrow> lcm_db
     \<Rightarrow> ((publication_error + 'r) add_node_error + int) \<times> lcm_db" where
  "publish_leaf_node fault others conn_open cache probe_fails index_exists before_publication node level model req now db =
     add_node fault others conn_open node
       (if pr_session_id req \<noteq> [] \<and> pr_conversation_id req \<noteq> []
        then Some (stage_frontier before_publication
               (\<lambda>nid. stage_compaction_publication cache probe_fails index_exists nid req now))
        else None)
       (if level \<noteq> 0 then Some level else None) model now db"

section \<open>What a successful publication has proved\<close>

lemma stage_publication_facts:
  assumes "stage_compaction_publication cache probe_fails ix nid req now db = Inr res"
  obtains vals where "snapshot_conflict req db = None"
    "owned_conversation_values cache probe_fails ix db (pr_conversation_id req) = Some vals"
    "authoritative_ids vals (owned_ranges (pr_session_id req) (expected_frontier req) (covered_end req)
        (allowed_carry_ranges (pr_carried_ranges req))) db = sort (covered_ids req @ excluded_ids req)"
    "\<not> lineage_claimed (pr_session_id req) nid (all_covered_ids req) db"
    "stage_checked_advance req now db = Inr res"
  using assms unfolding stage_compaction_publication_def Let_def conflict_def
  by (simp split: if_splits option.splits)

lemma snapshot_facts:
  assumes "snapshot_conflict req db = None"
  shows "all_covered_ids req \<noteq> []" "set (covered_ids req) \<inter> set (excluded_ids req) = {}"
    "map m_store_id (snapshot_rows (snapshot_ids req) db) = snapshot_ids req"
    "list_all (row_is_owned (pr_session_id req) (allowed_carry_ranges (pr_carried_ranges req))) (snapshot_rows (snapshot_ids req) db)"
  using assms unfolding snapshot_conflict_def Let_def by (simp_all split: if_splits)

lemma stage_checked_advance_facts:
  assumes "stage_checked_advance req now db = Inr (fin, db')"
  obtains r tbl where
    "sel_first (\<lambda>r. conversation_id r = pr_conversation_id req) (lifecycle db) = Some r"
    "text_of (current_session_id r) = pr_session_id req" "current_frontier_store_id r = expected_frontier req"
    "stage_frontier_advance (pr_conversation_id req) (pr_session_id req) (covered_end req) now (lifecycle db) = Inr tbl"
    "fin = covered_end req" "db' = db\<lparr>lifecycle := tbl\<rparr>"
  using assms unfolding stage_checked_advance_def conflict_def
  by (auto split: if_splits option.splits sum.splits)

lemma set_batches: "\<Union> (set ` set (batches n xs)) = set xs"
proof (induction n xs rule: batches.induct)
  case (2 n x xs)
  have "set (x # xs) = set (take (Suc n) (x # xs)) \<union> set (drop (Suc n) (x # xs))"
    by (metis append_take_drop_id set_append)
  with 2 show ?case by simp
qed simp

lemma set_authoritative:
  "set (authoritative_ids vals ranges db) =
     {m_store_id m | m. m \<in> set (messages db) \<and> (\<exists>rng \<in> set ranges. in_range m rng)
        \<and> owned_clause_holds vals (m_conversation_id m)}"
  unfolding authoritative_ids_def sorted_set_def
  by (auto simp flip: set_batches[of "OWNERSHIP_QUERY_MAX_RANGES - 1" ranges])

lemma owned_ranges_iff:
  "(\<exists>rng \<in> set (owned_ranges sid lo hi ranges). in_range m rng) \<longleftrightarrow>
    lo < m_store_id m \<and> m_store_id m \<le> hi \<and> row_is_owned sid ranges m"
  by (fastforce simp: owned_ranges_def in_range_def row_is_owned_def)

lemma set_sorted_set [simp]: "set (sorted_set xs) = set xs"
  by (simp add: sorted_set_def)

lemma sorted_le_last: "sorted xs \<Longrightarrow> x \<in> set xs \<Longrightarrow> x \<le> last xs"
  by (induction xs) auto

lemma covered_le_end: "i \<in> set (all_covered_ids req) \<Longrightarrow> i \<le> covered_end req"
  using sorted_le_last[of "all_covered_ids req" i]
  by (simp add: covered_end_def all_covered_ids_def sorted_set_def max.coboundedI2)

lemma set_covered_ids: "set (covered_ids req) = {i \<in> set (pr_covered req). expected_frontier req < i}"
  by (auto simp: covered_ids_def all_covered_ids_def expected_frontier_def)

lemma set_excluded_ids:
  "set (excluded_ids req) = {i \<in> set (pr_excluded req). expected_frontier req < i \<and> i \<le> covered_end req}"
  by (auto simp: excluded_ids_def)

text \<open>The rows a publication answers for.\<close>

definition owes :: "publication_request \<Rightarrow> lcm_db \<Rightarrow> int set" where
  "owes req db = {m_store_id m | m. m \<in> set (messages db)
     \<and> row_is_owned (pr_session_id req) (allowed_carry_ranges (pr_carried_ranges req)) m
     \<and> strip (text_of (m_conversation_id m)) \<in> {strip (pr_conversation_id req), []}
     \<and> expected_frontier req < m_store_id m \<and> m_store_id m \<le> covered_end req}"

lemma authoritative_owes:
  assumes "owned_conversation_values cache probe_fails ix db (pr_conversation_id req) = Some vals"
    and "case cache of None \<Rightarrow> True | Some l \<Rightarrow> legacy_complete l db"
  shows "set (authoritative_ids vals (owned_ranges (pr_session_id req) (expected_frontier req) (covered_end req)
        (allowed_carry_ranges (pr_carried_ranges req))) db) = owes req db"
  unfolding set_authoritative owned_ranges_iff owes_def
  using owned_clause_exact[OF assms] by blast

lemma covered_end_max:
  assumes "all_covered_ids req \<noteq> []"
  shows "covered_end req = Max (insert (expected_frontier req) {i \<in> set (pr_covered req). 0 < i})"
proof (rule Max_eqI[symmetric])
  have cov: "set (all_covered_ids req) = {i \<in> set (pr_covered req). 0 < i}" by (auto simp: all_covered_ids_def)
  show "y \<le> covered_end req" if "y \<in> insert (expected_frontier req) {i \<in> set (pr_covered req). 0 < i}" for y
  proof (cases "y = expected_frontier req")
    case True
    then show ?thesis by (simp add: covered_end_def)
  next
    case False
    with that cov show ?thesis using covered_le_end[of y req] by simp
  qed
  show "covered_end req \<in> insert (expected_frontier req) {i \<in> set (pr_covered req). 0 < i}"
    using last_in_set[OF assms] unfolding cov covered_end_def max_def by simp
qed simp

text \<open>
  C2: A publication that succeeds has covered its range exactly once.  Let the legacy conversation ids be read
  afresh, or be cached completely.  Then the stored rows the conversation owns between the old frontier and the
  new one are exactly the covered and the excluded ids, no id is both, no covered id is already summarised by
  another leaf of the same session, and the frontier returned is the greatest covered id (or the old frontier
  when nothing covered lies above it).  Nothing is said of leaves of other sessions or of excluded ids.
\<close>

theorem publication_covers_exactly:
  assumes "stage_compaction_publication cache probe_fails ix nid req now db = Inr (fin, db')"
    and "case cache of None \<Rightarrow> True | Some l \<Rightarrow> legacy_complete l db"
  shows "owes req db = {i \<in> set (pr_covered req). expected_frontier req < i}
        \<union> {i \<in> set (pr_excluded req). expected_frontier req < i \<and> i \<le> fin}
    \<and> (\<forall>i. expected_frontier req < i \<and> i \<le> fin \<longrightarrow> \<not> (i \<in> set (pr_covered req) \<and> i \<in> set (pr_excluded req)))
    \<and> (\<forall>n \<in> set (summary_nodes db). n_session_id n = pr_session_id req \<and> source_type n = ''messages''
         \<and> node_id n \<noteq> nid \<longrightarrow> set (source_ids n) \<inter> {i \<in> set (pr_covered req). 0 < i} = {})
    \<and> fin = Max (insert (expected_frontier req) {i \<in> set (pr_covered req). 0 < i})"
proof -
  from assms(1) obtain vals where f: "snapshot_conflict req db = None"
    "owned_conversation_values cache probe_fails ix db (pr_conversation_id req) = Some vals"
    "authoritative_ids vals (owned_ranges (pr_session_id req) (expected_frontier req) (covered_end req)
        (allowed_carry_ranges (pr_carried_ranges req))) db = sort (covered_ids req @ excluded_ids req)"
    "\<not> lineage_claimed (pr_session_id req) nid (all_covered_ids req) db"
    "stage_checked_advance req now db = Inr (fin, db')"
    by (rule stage_publication_facts)
  from f(5) have fin: "fin = covered_end req" by (rule stage_checked_advance_facts) simp
  have "owes req db = {i \<in> set (pr_covered req). expected_frontier req < i}
        \<union> {i \<in> set (pr_excluded req). expected_frontier req < i \<and> i \<le> fin}"
    using authoritative_owes[OF f(2) assms(2)] f(3)
    unfolding fin set_covered_ids[symmetric] set_excluded_ids[symmetric] by simp
  moreover have "\<forall>i. expected_frontier req < i \<and> i \<le> fin \<longrightarrow> \<not> (i \<in> set (pr_covered req) \<and> i \<in> set (pr_excluded req))"
  proof (intro allI impI notI)
    fix i assume "expected_frontier req < i \<and> i \<le> fin" "i \<in> set (pr_covered req) \<and> i \<in> set (pr_excluded req)"
    then have "i \<in> set (covered_ids req) \<inter> set (excluded_ids req)"
      by (simp add: fin set_covered_ids set_excluded_ids)
    with snapshot_facts(2)[OF f(1)] show False by simp
  qed
  moreover have cov: "set (all_covered_ids req) = {i \<in> set (pr_covered req). 0 < i}" by (auto simp: all_covered_ids_def)
  then have "\<forall>n \<in> set (summary_nodes db). n_session_id n = pr_session_id req \<and> source_type n = ''messages''
         \<and> node_id n \<noteq> nid \<longrightarrow> set (source_ids n) \<inter> {i \<in> set (pr_covered req). 0 < i} = {}"
    using f(4) unfolding lineage_claimed_def cov[symmetric] by auto
  moreover have "fin = Max (insert (expected_frontier req) {i \<in> set (pr_covered req). 0 < i})"
    unfolding fin by (rule covered_end_max[OF snapshot_facts(1)[OF f(1)]])
  ultimately show ?thesis by blast
qed

text \<open>A concrete store: two rows of a conversation bound at frontier 0, both covered.\<close>

definition sample_message :: "int \<Rightarrow> message_row" where
  "sample_message i = \<lparr>m_store_id = i, m_session_id = ''s'', m_source = None, m_conversation_id = Some ''c'',
     m_role = ''user'', m_content = Some ''hi'', m_tool_call_id = None, m_tool_calls = None, m_tool_name = None\<rparr>"

definition sample_db :: lcm_db where
  "sample_db = empty_db\<lparr>messages := [sample_message 1, sample_message 2],
     lifecycle := [(blank_row ''c'')\<lparr>current_session_id := Some ''s''\<rparr>]\<rparr>"

definition sample_request :: publication_request where
  "sample_request = \<lparr>pr_conversation_id = ''c'', pr_session_id = ''s'', pr_expected_frontier = 0, pr_covered = [1, 2],
     pr_excluded = [], pr_filter_proofs = [], pr_carried_ranges = [], pr_copy_proofs = []\<rparr>"

definition sample_published :: lcm_db where
  "sample_published = sample_db\<lparr>lifecycle := [(blank_row ''c'')\<lparr>current_session_id := Some ''s'',
     current_frontier_store_id := 2, updated_at := 5\<rparr>]\<rparr>"

lemma sample_strip: "strip ''c'' = ''c''"
  by code_simp

lemma sample_publishes_on:
  assumes "messages db = messages sample_db" "lifecycle db = lifecycle sample_db"
    and "\<forall>n \<in> set (summary_nodes db). node_id n = 1"
  shows "stage_compaction_publication (Some []) False False 1 sample_request 5 db =
    Inr (2, db\<lparr>lifecycle := lifecycle sample_published\<rparr>)"
proof -
  have r: "all_covered_ids sample_request = [1, 2]" "expected_frontier sample_request = 0"
    "covered_end sample_request = 2" "covered_ids sample_request = [1, 2]" "excluded_ids sample_request = []"
    "copy_proofs sample_request = []" "snapshot_ids sample_request = [1, 2]"
    by (simp_all add: sample_request_def all_covered_ids_def expected_frontier_def covered_end_def covered_ids_def
        excluded_ids_def copy_proofs_def snapshot_ids_def sorted_set_def)
  have rows: "snapshot_rows [1, 2] db = [sample_message 1, sample_message 2]"
    by (simp add: snapshot_rows_def assms(1) sample_db_def sample_message_def empty_db_def)
  have s: "snapshot_conflict sample_request db = None"
    unfolding snapshot_conflict_def r rows Let_def
    by (simp add: sample_request_def sample_message_def row_is_owned_def sample_strip)
  have o: "owned_conversation_values (Some []) False False db ''c'' = Some [Some ''c'', Some []]"
    by (simp add: owned_conversation_values_def sample_strip legacy_get_def)
  have a: "authoritative_ids [Some ''c'', Some []] [(''s'', 0, 2)] db = [1, 2]"
    by (simp add: authoritative_ids_def assms(1) sample_db_def sample_message_def empty_db_def in_range_def
        owned_clause_holds_def sorted_set_def OWNERSHIP_QUERY_MAX_RANGES_def)
  have l: "\<not> lineage_claimed ''s'' 1 [1, 2] db"
    using assms(3) by (auto simp: lineage_claimed_def)
  have adv: "stage_checked_advance sample_request 5 db = Inr (2, db\<lparr>lifecycle := lifecycle sample_published\<rparr>)"
    unfolding stage_checked_advance_def r assms(2)
    by (simp add: sample_db_def sample_request_def sample_published_def empty_db_def sel_first_def blank_row_def
        stage_frontier_advance_def rowcount_def advance_guard_def advance_row_def upd_where_def)
  show ?thesis
    unfolding stage_compaction_publication_def s r
    using o a l adv by (simp add: sample_request_def owned_ranges_def allowed_carry_ranges_def Let_def)
qed

lemma sample_publishes:
  "stage_compaction_publication (Some []) False False 1 sample_request 5 sample_db = Inr (2, sample_published)"
  using sample_publishes_on[of sample_db] by (simp add: sample_db_def sample_published_def empty_db_def)

lemma sample_complete: "legacy_complete [] sample_db"
  by (simp add: legacy_complete_def sample_db_def sample_message_def empty_db_def is_legacy_value_def legacy_get_def sample_strip)

theorem publication_covers_exactly_witness:
  "owes sample_request sample_db = {i \<in> set (pr_covered sample_request). expected_frontier sample_request < i}
     \<union> {i \<in> set (pr_excluded sample_request). expected_frontier sample_request < i \<and> i \<le> 2}"
  using publication_covers_exactly[OF sample_publishes] sample_complete by simp

section \<open>Publication is fenced and atomic\<close>

lemma staged_row:
  assumes "wf_lifecycle tbl" "cid \<noteq> []" "sel_first (\<lambda>r. conversation_id r = cid) tbl = Some r"
    and "stage_frontier_advance cid sid frontier now tbl = Inr tbl'"
  shows "current_session_id r = Some sid" "get_by_conversation (Some cid) tbl' = Some (advance_row frontier now r)"
proof -
  from assms(4) have rc: "rowcount (advance_guard cid sid) tbl = 1"
    and tbl': "tbl' = upd_where (advance_guard cid sid) (advance_row frontier now) tbl"
    by (auto simp: stage_frontier_advance_def split: if_splits option.splits)
  from rc have "\<not> (\<forall>r \<in> set tbl. \<not> advance_guard cid sid r)"
    using rowcount_zero_iff[of "advance_guard cid sid" tbl] by simp
  then obtain x where x: "x \<in> set tbl" "advance_guard cid sid x" by blast
  from sel_first_mem[OF assms(3)] x wf_row_unique[OF assms(1) x(1), of r] have "x = r"
    by (simp add: advance_guard_def)
  with x have r: "r \<in> set tbl" "advance_guard cid sid r" by simp_all
  then show "current_session_id r = Some sid" by (simp add: advance_guard_def)
  from r upd_where_hit[OF assms(1) r(1), of "advance_guard cid sid", OF r(2) advance_upd.key_upd] assms(2)
  show "get_by_conversation (Some cid) tbl' = Some (advance_row frontier now r)"
    by (simp add: tbl' advance_guard_def)
qed

lemma publication_moves_frontier:
  assumes "stage_compaction_publication cache probe_fails ix nid req now db = Inr (fin, db')"
    and "wf_lifecycle (lifecycle db)" "pr_conversation_id req \<noteq> []"
  shows "\<exists>r. get_by_conversation (Some (pr_conversation_id req)) (lifecycle db) = Some r
    \<and> current_session_id r = Some (pr_session_id req) \<and> current_frontier_store_id r = expected_frontier req
    \<and> get_by_conversation (Some (pr_conversation_id req)) (lifecycle db') = Some (advance_row fin now r)
    \<and> summary_nodes db' = summary_nodes db \<and> messages db' = messages db
    \<and> fin = Max (insert (expected_frontier req) {i \<in> set (pr_covered req). 0 < i})"
proof -
  from assms(1) have snap: "snapshot_conflict req db = None" by (rule stage_publication_facts)
  note end_max = covered_end_max[OF snapshot_facts(1)[OF snap]]
  from assms(1) have "stage_checked_advance req now db = Inr (fin, db')" by (rule stage_publication_facts)
  then obtain r tbl where f:
    "sel_first (\<lambda>r. conversation_id r = pr_conversation_id req) (lifecycle db) = Some r"
    "current_frontier_store_id r = expected_frontier req"
    "stage_frontier_advance (pr_conversation_id req) (pr_session_id req) (covered_end req) now (lifecycle db) = Inr tbl"
    "fin = covered_end req" "db' = db\<lparr>lifecycle := tbl\<rparr>"
    by (rule stage_checked_advance_facts)
  from staged_row[OF assms(2,3) f(1,3)] f assms(3) end_max show ?thesis
    by (simp add: get_by_conversation_def)
qed

text \<open>
  A publication cannot be repeated.  It moves the frontier of a row that was bound to the session
  at exactly the expected frontier, and once it has succeeded with something covered above that
  frontier the same request is rejected, whatever node it is retried with.
\<close>

theorem publication_not_repeatable:
  assumes "stage_compaction_publication cache probe_fails ix nid req now db = Inr (fin, db')"
    and "wf_lifecycle (lifecycle db)" "pr_conversation_id req \<noteq> []" "expected_frontier req < fin"
  shows "\<exists>e. stage_compaction_publication cache2 probe_fails2 ix2 nid2 req now2 db' = Inl e"
proof (rule ccontr)
  assume "\<not> ?thesis"
  then obtain res where "stage_compaction_publication cache2 probe_fails2 ix2 nid2 req now2 db' = Inr res"
    by (metis old.sum.exhaust)
  then have "stage_checked_advance req now2 db' = Inr (fst res, snd res)" by (rule stage_publication_facts) simp
  then obtain r2 where r2: "sel_first (\<lambda>r. conversation_id r = pr_conversation_id req) (lifecycle db') = Some r2"
    "current_frontier_store_id r2 = expected_frontier req" by (rule stage_checked_advance_facts)
  from publication_moves_frontier[OF assms(1-3)] r2(1) assms(3) obtain r where
    "r2 = advance_row fin now r" "current_frontier_store_id r = expected_frontier req"
    by (auto simp: get_by_conversation_def)
  with r2(2) assms(4) show False by (simp add: advance_row_def)
qed

theorem publication_not_repeatable_witness:
  "\<exists>e. stage_compaction_publication (Some []) False False 2 sample_request 9 sample_published = Inl e"
proof -
  have "wf_lifecycle (lifecycle sample_db)" by (simp add: sample_db_def wf_lifecycle_def empty_db_def)
  moreover have "pr_conversation_id sample_request \<noteq> []" "expected_frontier sample_request < 2"
    by (simp_all add: sample_request_def expected_frontier_def)
  ultimately show ?thesis by (rule publication_not_repeatable[OF sample_publishes])
qed

lemma publish_leaf_cases:
  assumes "publish_leaf_node fault others True cache probe_fails ix (None :: (lcm_db \<Rightarrow> 'r + lcm_db) option)
      node level model req now db = (res, db')"
    and "pr_session_id req \<noteq> []" "pr_conversation_id req \<noteq> []"
  shows "\<exists>base. (base = db \<or> base = others db) \<and>
    (case res of
       Inl e \<Rightarrow> db' = base
     | Inr nid \<Rightarrow> nid = node_seq base + 1 \<and>
         (\<exists>fin. stage_compaction_publication cache probe_fails ix nid req now
                 (with_node node (if level \<noteq> 0 then Some level else None) model now base) = Inr (fin, db')))"
proof -
  let ?lvl = "if level \<noteq> 0 then Some level else None"
  let ?stage = "stage_frontier (None :: (lcm_db \<Rightarrow> 'r + lcm_db) option)
      (\<lambda>nid. stage_compaction_publication cache probe_fails ix nid req now)"
  have "add_node fault others True node (Some ?stage) ?lvl model now db = (res, db')"
    using assms by (simp add: publish_leaf_node_def)
  from add_node_cases[OF this] obtain base where b: "base = db \<or> base = others db"
    and c: "case res of Inl e \<Rightarrow> db' = base
     | Inr nid \<Rightarrow> nid = node_seq base + 1 \<and> ?stage nid (with_node node ?lvl model now base) = (Inr (), db')"
    unfolding option.case by blast
  from c have "case res of Inl e \<Rightarrow> db' = base | Inr nid \<Rightarrow> nid = node_seq base + 1 \<and>
         (\<exists>fin. stage_compaction_publication cache probe_fails ix nid req now (with_node node ?lvl model now base) = Inr (fin, db'))"
    by (cases res) (auto simp: stage_frontier_def split: sum.splits prod.splits)
  with b show ?thesis by blast
qed

text \<open>
  C3: Publishing a leaf is one atomic step across the DAG and the lifecycle.  If it fails, neither the
  node nor the frontier has changed; if it succeeds, the node is stored under a new id and, in the
  same state, the conversation's row, which was bound to the session at exactly the frontier the summary
  was made for, has advanced to the greatest covered id.
\<close>

theorem publish_leaf_node_atomic:
  assumes "publish_leaf_node fault others True cache probe_fails ix (None :: (lcm_db \<Rightarrow> 'r + lcm_db) option)
      node level model req now db = (res, db')"
    and "pr_session_id req \<noteq> []" "pr_conversation_id req \<noteq> []"
    and "\<forall>base \<in> {db, others db}. wf_lifecycle (lifecycle base)"
  shows "\<exists>base \<in> {db, others db}.
    (case res of
       Inl e \<Rightarrow> db' = base
     | Inr nid \<Rightarrow> summary_nodes db' = summary_nodes base @ [new_node node now nid]
         \<and> (\<exists>r r'. get_by_conversation (Some (pr_conversation_id req)) (lifecycle base) = Some r
              \<and> current_session_id r = Some (pr_session_id req)
              \<and> current_frontier_store_id r = expected_frontier req
              \<and> get_by_conversation (Some (pr_conversation_id req)) (lifecycle db') = Some r'
              \<and> current_session_id r' = Some (pr_session_id req)
              \<and> current_frontier_store_id r' = Max (insert (expected_frontier req) {i \<in> set (pr_covered req). 0 < i})))"
    (is "\<exists>base \<in> _. ?P base")
proof -
  from publish_leaf_cases[OF assms(1-3)] obtain base where base: "base \<in> {db, others db}"
    and c: "case res of Inl e \<Rightarrow> db' = base | Inr nid \<Rightarrow> nid = node_seq base + 1 \<and>
         (\<exists>fin. stage_compaction_publication cache probe_fails ix nid req now
                 (with_node node (if level \<noteq> 0 then Some level else None) model now base) = Inr (fin, db'))"
    by blast
  show ?thesis
  proof (rule bexI[OF _ base], cases res)
    case (Inl e)
    with c show "?P base" by simp
  next
    case (Inr nid)
    with c obtain fin where nid: "nid = node_seq base + 1" and st: "stage_compaction_publication cache probe_fails ix nid req now
          (with_node node (if level \<noteq> 0 then Some level else None) model now base) = Inr (fin, db')" by auto
    have l: "lifecycle (with_node node lvl model now base) = lifecycle base"
      "summary_nodes (with_node node lvl model now base) = summary_nodes base @ [new_node node now nid]" for lvl
      by (simp_all add: with_node_def nid)
    have "wf_lifecycle (lifecycle base)" using assms(4) base by blast
    with publication_moves_frontier[OF st _ assms(3)] obtain r where
      r: "get_by_conversation (Some (pr_conversation_id req)) (lifecycle base) = Some r"
        "current_session_id r = Some (pr_session_id req)" "current_frontier_store_id r = expected_frontier req"
        "get_by_conversation (Some (pr_conversation_id req)) (lifecycle db') = Some (advance_row fin now r)"
        "summary_nodes db' = summary_nodes base @ [new_node node now nid]"
      and fin: "fin = Max (insert (expected_frontier req) {i \<in> set (pr_covered req). 0 < i})"
      unfolding l by auto
    have "expected_frontier req \<le> fin" unfolding fin by simp
    then have "current_session_id (advance_row fin now r) = Some (pr_session_id req)"
      "current_frontier_store_id (advance_row fin now r) = fin" using r(2,3) by (simp_all add: advance_row_def)
    with r fin Inr show "?P base" by auto
  qed
qed

text \<open>The publication of the sample request with a node over both rows.\<close>

definition sample_node :: SummaryNode where
  "sample_node = default_node\<lparr>n_session_id := ''s'', source_ids := [1, 2]\<rparr>"

lemma sample_leaf_published:
  "publish_leaf_node (\<lambda>_. None) id True (Some []) False False (None :: (lcm_db \<Rightarrow> unit + lcm_db) option)
     sample_node 1 ''m'' sample_request 5 sample_db =
   (Inr 1, (with_node sample_node (Some 1) ''m'' 5 sample_db)\<lparr>lifecycle := lifecycle sample_published\<rparr>)"
proof -
  let ?db = "with_node sample_node (Some 1) ''m'' 5 sample_db"
  have "node_seq sample_db = 0" by (simp add: sample_db_def empty_db_def)
  moreover have "stage_compaction_publication (Some []) False False 1 sample_request 5 ?db =
      Inr (2, ?db\<lparr>lifecycle := lifecycle sample_published\<rparr>)"
    by (rule sample_publishes_on) (simp_all add: with_node_def new_node_def sample_db_def empty_db_def)
  moreover have "pr_session_id sample_request \<noteq> []" "pr_conversation_id sample_request \<noteq> []"
    by (simp_all add: sample_request_def)
  ultimately show ?thesis
    by (simp add: publish_leaf_node_def add_node_def run_sqlite_write_with_snapshot_retry_def insert_node_eq
        stage_frontier_def)
qed

theorem publish_leaf_node_atomic_witness:
  "\<exists>r'. get_by_conversation (Some ''c'') (lifecycle sample_published) = Some r'
     \<and> current_session_id r' = Some ''s'' \<and> current_frontier_store_id r' = 2"
proof -
  have wf: "pr_session_id sample_request \<noteq> []" "pr_conversation_id sample_request \<noteq> []"
    "\<forall>base \<in> {sample_db, id sample_db}. wf_lifecycle (lifecycle base)"
    by (simp_all add: sample_request_def sample_db_def empty_db_def wf_lifecycle_def)
  have "{i \<in> set (pr_covered sample_request). 0 < i} = {1, 2}" "expected_frontier sample_request = 0"
    by (auto simp: sample_request_def expected_frontier_def)
  then have "Max (insert (expected_frontier sample_request) {i \<in> set (pr_covered sample_request). 0 < i}) = 2" by simp
  with publish_leaf_node_atomic[OF sample_leaf_published wf] show ?thesis by (auto simp: sample_request_def)
qed

definition leaves_disjoint :: "string \<Rightarrow> lcm_db \<Rightarrow> bool" where
  "leaves_disjoint sid db =
     (\<forall>n \<in> set (summary_nodes db). \<forall>n' \<in> set (summary_nodes db).
        n_session_id n = sid \<and> n_session_id n' = sid \<and> source_type n = ''messages'' \<and> source_type n' = ''messages''
        \<and> node_id n \<noteq> node_id n' \<longrightarrow> set (source_ids n) \<inter> set (source_ids n') = {})"

lemma leaves_disjoint_append:
  assumes "leaves_disjoint sid base" "summary_nodes db' = summary_nodes base @ [x]"
    and "\<And>n. n \<in> set (summary_nodes base) \<Longrightarrow> n_session_id n = sid \<Longrightarrow> source_type n = ''messages'' \<Longrightarrow>
      node_id n \<noteq> node_id x \<Longrightarrow> set (source_ids n) \<inter> set (source_ids x) = {}"
  shows "leaves_disjoint sid db'"
  unfolding leaves_disjoint_def
proof (intro ballI impI)
  fix n n' assume n: "n \<in> set (summary_nodes db')" "n' \<in> set (summary_nodes db')"
    and s: "n_session_id n = sid \<and> n_session_id n' = sid
      \<and> source_type n = ''messages'' \<and> source_type n' = ''messages'' \<and> node_id n \<noteq> node_id n'"
  from n consider "n \<in> set (summary_nodes base)" "n' \<in> set (summary_nodes base)"
    | "n = x" "n' \<in> set (summary_nodes base)" | "n \<in> set (summary_nodes base)" "n' = x" | "n = n'"
    unfolding assms(2) by auto
  then show "set (source_ids n) \<inter> set (source_ids n') = {}"
  proof cases
    case 1
    with assms(1) s show ?thesis unfolding leaves_disjoint_def by blast
  next
    case 2
    with assms(3)[of n'] s show ?thesis by (simp add: Int_commute)
  next
    case 3
    with assms(3)[of n] s show ?thesis by simp
  qed (use s in simp)
qed

text \<open>
  Publication keeps a session's leaves disjoint.  If no message of a session is summarised by two
  of its leaves, this still holds after a publication in that session whose node summarises only
  covered rows, whether the publication succeeds or fails.
\<close>

theorem publication_keeps_leaves_disjoint:
  assumes "publish_leaf_node fault others True cache probe_fails ix (None :: (lcm_db \<Rightarrow> 'r + lcm_db) option)
      node level model req now db = (res, db')"
    and "pr_session_id req \<noteq> []" "pr_conversation_id req \<noteq> []"
    and "\<forall>base \<in> {db, others db}. leaves_disjoint (pr_session_id req) base \<and> wf_lifecycle (lifecycle base)"
    and "set (source_ids node) \<subseteq> {i \<in> set (pr_covered req). 0 < i}"
  shows "leaves_disjoint (pr_session_id req) db'"
proof -
  from publish_leaf_cases[OF assms(1-3)] obtain base where base: "base \<in> {db, others db}"
    and c: "case res of Inl e \<Rightarrow> db' = base | Inr nid \<Rightarrow> nid = node_seq base + 1 \<and>
         (\<exists>fin. stage_compaction_publication cache probe_fails ix nid req now
                 (with_node node (if level \<noteq> 0 then Some level else None) model now base) = Inr (fin, db'))"
    by blast
  show ?thesis
  proof (cases res)
    case (Inl e)
    with c base assms(4) show ?thesis by auto
  next
    case (Inr nid)
    let ?db1 = "with_node node (if level \<noteq> 0 then Some level else None) model now base"
    from Inr c obtain fin where nid: "nid = node_seq base + 1"
      and st: "stage_compaction_publication cache probe_fails ix nid req now ?db1 = Inr (fin, db')" by auto
    from st have claim: "\<not> lineage_claimed (pr_session_id req) nid (all_covered_ids req) ?db1"
      by (rule stage_publication_facts)
    have wf: "wf_lifecycle (lifecycle ?db1)" using assms(4) base by (auto simp: with_node_def)
    have nodes: "summary_nodes db' = summary_nodes base @ [new_node node now nid]"
      using publication_moves_frontier[OF st wf assms(3)] by (auto simp: with_node_def nid)
    have src: "set (source_ids node) \<subseteq> set (all_covered_ids req)" using assms(5) by (auto simp: all_covered_ids_def)
    have old: "leaves_disjoint (pr_session_id req) base" using assms(4) base by blast
    from old nodes show ?thesis
    proof (rule leaves_disjoint_append)
      fix n assume "n \<in> set (summary_nodes base)" "n_session_id n = pr_session_id req" "source_type n = ''messages''"
        "node_id n \<noteq> node_id (new_node node now nid)"
      with claim src show "set (source_ids n) \<inter> set (source_ids (new_node node now nid)) = {}"
        unfolding lineage_claimed_def by (fastforce simp: with_node_def new_node_def)
    qed
  qed
qed

theorem publication_keeps_leaves_disjoint_witness:
  "leaves_disjoint ''s'' ((with_node sample_node (Some 1) ''m'' 5 sample_db)\<lparr>lifecycle := lifecycle sample_published\<rparr>)"
proof -
  have "pr_session_id sample_request \<noteq> []" "pr_conversation_id sample_request \<noteq> []"
    "\<forall>base \<in> {sample_db, id sample_db}. leaves_disjoint (pr_session_id sample_request) base \<and> wf_lifecycle (lifecycle base)"
    "set (source_ids sample_node) \<subseteq> {i \<in> set (pr_covered sample_request). 0 < i}"
    by (simp_all add: sample_request_def sample_db_def empty_db_def wf_lifecycle_def leaves_disjoint_def
        sample_node_def default_node_def)
  from publication_keeps_leaves_disjoint[OF sample_leaf_published this] show ?thesis by (simp add: sample_request_def)
qed

end
