(* ===== verification/Access_Context.thy ===== *)
theory Access_Context
  imports Prelude "HOL-Library.List_Lexorder" "HOL-Library.Char_ord"
begin

text \<open>
  The authorization envelope of \<^verbatim>\<open>src/access_context\<close>: the context record with its narrowing
  and subset proof (\<^verbatim>\<open>model.py\<close>), the decisions and their public projection
  (\<^verbatim>\<open>denials.py\<close>), and staged validation and delegation (\<^verbatim>\<open>validation.py\<close>).  A
  \<open>frozenset\<close> is a set, an omitted keyword argument is \<open>None\<close>, and an argument that is an iterable
  or a single string is the set \<open>_freeze_strings\<close> makes of it.
\<close>

section \<open>Contexts\<close>

definition ACCESS_CONTEXT_CONTRACT_REVISION :: string where
  "ACCESS_CONTEXT_CONTRACT_REVISION = ''v1''"

datatype ActorType = HUMAN | AGENT | SERVICE

datatype access_error = ScopeMismatch string | HostValueError string

record AccessContextV1 =
  contract_revision :: string
  context_id :: string
  request_id :: string
  source_kind :: string
  authenticated_transport :: string
  deployment_id :: string
  tenant_id :: string
  principal_id :: string
  actor_type :: ActorType
  profile_id :: string
  profile_incarnation :: string
  session_id :: string
  session_owner_principal_id :: string
  conversation_ref :: string
  conversation_lane :: string
  default_write_collection_id :: string
  read_policy_ref :: string
  grants :: "string set"
  policy_revision :: int
  membership_revision :: int
  revocation_epoch :: int
  delegation_chain :: "string list"
  delegated_by :: string
  audience :: "string set"
  issued_at :: timestamp
  expires_at :: timestamp
  narrowing :: "string set"
  ownership_generation :: int
  lease_id :: string
  lease_generation :: int

definition tok_prefix :: "string \<Rightarrow> string" where
  "tok_prefix token = fst (partition_at CHR '':'' token)"

definition tok_value :: "string \<Rightarrow> string" where
  "tok_value token = snd (snd (partition_at CHR '':'' token))"

definition dim_token :: "string \<Rightarrow> string \<Rightarrow> string" where
  "dim_token dimension v = dimension @ '':'' @ v"

definition MODELLED_NARROWING_DIMENSIONS :: "string set" where
  "MODELLED_NARROWING_DIMENSIONS = {''operation'', ''collection'', ''audience''}"

definition dimension_values :: "string set \<Rightarrow> string \<Rightarrow> string set" where
  "dimension_values tokens dimension =
     tok_value ` {t \<in> tokens. is_prefix (dimension @ '':'') t \<and> tok_value t \<noteq> []}"

definition collection_allowlist :: "AccessContextV1 \<Rightarrow> string set" where
  "collection_allowlist c = dimension_values (narrowing c) ''collection''"

definition operation_allowlist :: "AccessContextV1 \<Rightarrow> string set" where
  "operation_allowlist c =
     (let explicit = dimension_values (narrowing c) ''operation'' in
      if explicit \<noteq> {} then explicit \<inter> grants c else grants c)"

definition ungranted_operations :: "AccessContextV1 \<Rightarrow> string set" where
  "ungranted_operations c = dimension_values (narrowing c) ''operation'' - grants c"

definition from_host :: "string \<Rightarrow> AccessContextV1 \<Rightarrow> access_error + AccessContextV1" where
  "from_host transport ctx =
     (if transport = [] then Inl (HostValueError ''authenticated_transport is required for host-derived contexts'')
      else (let c = ctx\<lparr>authenticated_transport := transport\<rparr> in
            if ungranted_operations c \<noteq> {}
            then Inl (ScopeMismatch (''narrowing names operations outside the host grants: '' @
              join '', '' (sorted_list_of_set (ungranted_operations c))))
            else Inr c))"

section \<open>Narrowing\<close>

record narrow_args =
  na_grants :: "string set option"
  na_operations :: "string set option"
  na_collections :: "string set option"
  na_collection_allowlist :: "string set option"
  na_audience :: "string set option"
  na_expires_at :: "timestamp option"
  na_profile_id :: "string option"
  na_session_id :: "string option"
  na_conversation_id :: "string option"
  na_default_write_collection_id :: "string option"
  na_narrowing :: "string list"
  na_policy_revision :: "int option"
  na_membership_revision :: "int option"
  na_revocation_epoch :: "int option"

definition no_args :: narrow_args where
  "no_args = \<lparr>na_grants = None, na_operations = None, na_collections = None, na_collection_allowlist = None,
     na_audience = None, na_expires_at = None, na_profile_id = None, na_session_id = None,
     na_conversation_id = None, na_default_write_collection_id = None, na_narrowing = [],
     na_policy_revision = None, na_membership_revision = None, na_revocation_epoch = None\<rparr>"

definition changes :: "'a option \<Rightarrow> 'a \<Rightarrow> bool" where
  "changes requested cur = (case requested of None \<Rightarrow> False | Some v \<Rightarrow> v \<noteq> cur)"

definition or_else :: "'a option \<Rightarrow> 'a option \<Rightarrow> 'a option" where
  "or_else a b = (case a of Some v \<Rightarrow> Some v | None \<Rightarrow> b)"

definition requested_operations :: "narrow_args \<Rightarrow> string set option" where
  "requested_operations a = or_else (na_grants a) (na_operations a)"

definition requested_collections :: "narrow_args \<Rightarrow> string set option" where
  "requested_collections a = or_else (na_collections a) (na_collection_allowlist a)"

definition child_grants :: "AccessContextV1 \<Rightarrow> narrow_args \<Rightarrow> string set" where
  "child_grants c a = (case requested_operations a of None \<Rightarrow> grants c | Some ops \<Rightarrow> ops)"

definition child_collections :: "AccessContextV1 \<Rightarrow> narrow_args \<Rightarrow> string set" where
  "child_collections c a = (case requested_collections a of None \<Rightarrow> collection_allowlist c | Some cs \<Rightarrow> cs)"

definition child_audience :: "AccessContextV1 \<Rightarrow> narrow_args \<Rightarrow> string set" where
  "child_audience c a = (case na_audience a of None \<Rightarrow> audience c | Some aud \<Rightarrow> aud)"

definition child_expiry :: "AccessContextV1 \<Rightarrow> narrow_args \<Rightarrow> timestamp" where
  "child_expiry c a = (case na_expires_at a of None \<Rightarrow> expires_at c | Some e \<Rightarrow> e)"

definition effective_collections :: "AccessContextV1 \<Rightarrow> narrow_args \<Rightarrow> string set" where
  "effective_collections c a =
     (if child_collections c a \<noteq> {} then child_collections c a else dimension_values (set (na_narrowing a)) ''collection'')"

text \<open>The checks of \<open>narrow\<close> on its arguments, in the order of the code.\<close>

definition narrow_scope_error :: "AccessContextV1 \<Rightarrow> narrow_args \<Rightarrow> string option" where
  "narrow_scope_error c a =
     (if (case (na_grants a, na_operations a) of (Some g, Some ops) \<Rightarrow> g \<noteq> ops | _ \<Rightarrow> False)
      then Some ''grants and operations disagree''
      else if (case requested_operations a of None \<Rightarrow> False | Some ops \<Rightarrow> \<not> ops \<subseteq> operation_allowlist c)
      then Some ''operations would widen the parent allowlist''
      else if requested_collections a = Some {}
      then Some ''an empty collection allowlist would read as unrestricted''
      else if (case requested_collections a of None \<Rightarrow> False
               | Some cs \<Rightarrow> collection_allowlist c \<noteq> {} \<and> \<not> cs \<subseteq> collection_allowlist c)
      then Some ''collections would widen the parent allowlist''
      else if na_audience a = Some {}
      then Some ''an empty audience would read as unrestricted''
      else if (case na_audience a of None \<Rightarrow> False | Some aud \<Rightarrow> audience c \<noteq> {} \<and> \<not> aud \<subseteq> audience c)
      then Some ''audience would widen the parent audience''
      else if child_expiry c a > expires_at c \<or> child_expiry c a < issued_at c
      then Some ''expiry would outlive the parent''
      else None)"

definition narrow_binding_error :: "AccessContextV1 \<Rightarrow> narrow_args \<Rightarrow> string option" where
  "narrow_binding_error c a =
     (if changes (na_profile_id a) (profile_id c) then Some ''profile_id would change the binding''
      else if changes (na_session_id a) (session_id c) then Some ''session_id would change the binding''
      else if changes (na_conversation_id a) (conversation_ref c) then Some ''conversation_id would change the binding''
      else if changes (na_policy_revision a) (policy_revision c) then Some ''policy_revision would change current state''
      else if changes (na_membership_revision a) (membership_revision c) then Some ''membership_revision would change current state''
      else if changes (na_revocation_epoch a) (revocation_epoch c) then Some ''revocation_epoch would change current state''
      else None)"

definition narrow_default_error :: "AccessContextV1 \<Rightarrow> narrow_args \<Rightarrow> string option" where
  "narrow_default_error c a =
     (case na_default_write_collection_id a of
        Some d \<Rightarrow>
          if collection_allowlist c \<noteq> {} \<and> d \<notin> collection_allowlist c
          then Some ''default collection would widen the parent allowlist''
          else if collection_allowlist c = {} \<and> requested_collections a = None \<and> d \<noteq> default_write_collection_id c
          then Some ''default collection would change the parent binding''
          else if effective_collections c a \<noteq> {} \<and> d \<notin> effective_collections c a
          then Some ''default collection would fall outside the child allowlist''
          else None
      | None \<Rightarrow>
          if effective_collections c a \<noteq> {} \<and> default_write_collection_id c \<notin> effective_collections c a
          then Some ''default collection would fall outside the child allowlist''
          else None)"

definition narrowed_dimensions :: "narrow_args \<Rightarrow> string set" where
  "narrowed_dimensions a =
     tok_prefix ` {t \<in> set (na_narrowing a). tok_value t \<noteq> []}
     \<union> (if requested_operations a \<noteq> None then {''operation''} else {})
     \<union> (if requested_collections a \<noteq> None then {''collection''} else {})
     \<union> (if na_audience a \<noteq> None then {''audience''} else {})"

definition token_error :: "AccessContextV1 \<Rightarrow> narrow_args \<Rightarrow> string \<Rightarrow> string option" where
  "token_error c a t =
     (if tok_prefix t = ''operation'' \<and>
         tok_value t \<notin> (if requested_operations a \<noteq> None then child_grants c a else operation_allowlist c)
      then Some ''narrowing names an operation outside the child allowlist''
      else if tok_prefix t = ''collection'' \<and> (requested_collections a \<noteq> None \<or> collection_allowlist c \<noteq> {})
         \<and> tok_value t \<notin> child_collections c a
      then Some ''narrowing names a collection outside the child allowlist''
      else if tok_prefix t = ''audience'' \<and> audience c \<noteq> {} \<and> tok_value t \<notin> child_audience c a
      then Some ''narrowing names an audience outside the child audience''
      else None)"

definition child_narrowing :: "AccessContextV1 \<Rightarrow> narrow_args \<Rightarrow> string set" where
  "child_narrowing c a =
     {t \<in> narrowing c. tok_prefix t \<notin> narrowed_dimensions a}
     \<union> (if requested_operations a \<noteq> None then dim_token ''operation'' ` child_grants c a else {})
     \<union> (if requested_collections a \<noteq> None then dim_token ''collection'' ` child_collections c a else {})
     \<union> (if na_audience a \<noteq> None then dim_token ''audience'' ` child_audience c a else {})
     \<union> set (na_narrowing a)"

text \<open>The requested tokens are listed in the order in which the code iterates the set of them.\<close>

definition narrow :: "AccessContextV1 \<Rightarrow> narrow_args \<Rightarrow> access_error + AccessContextV1" where
  "narrow c a =
     (case narrow_scope_error c a of Some msg \<Rightarrow> Inl (ScopeMismatch msg)
      | None \<Rightarrow>
     (case narrow_binding_error c a of Some msg \<Rightarrow> Inl (ScopeMismatch msg)
      | None \<Rightarrow>
     (case narrow_default_error c a of Some msg \<Rightarrow> Inl (ScopeMismatch msg)
      | None \<Rightarrow>
     (case List.find (\<lambda>t. token_error c a t \<noteq> None) (na_narrowing a) of
        Some t \<Rightarrow> Inl (ScopeMismatch (the (token_error c a t)))
      | None \<Rightarrow>
        Inr (c\<lparr>default_write_collection_id :=
                      (case na_default_write_collection_id a of Some d \<Rightarrow> d | None \<Rightarrow> default_write_collection_id c),
                    grants := child_grants c a, audience := child_audience c a,
                    expires_at := child_expiry c a, narrowing := child_narrowing c a\<rparr>)))))"

section \<open>The subset proof\<close>

definition is_narrower :: "string set \<Rightarrow> string set \<Rightarrow> bool" where
  "is_narrower child parent = (parent = {} \<or> (child \<noteq> {} \<and> child \<subseteq> parent))"

definition audience_is_narrower :: "AccessContextV1 \<Rightarrow> AccessContextV1 \<Rightarrow> bool" where
  "audience_is_narrower child parent =
     (is_narrower (audience child) (audience parent)
      \<and> is_narrower (dimension_values (narrowing child) ''audience'') (dimension_values (narrowing parent) ''audience''))"

definition provenance_is_consistent :: "AccessContextV1 \<Rightarrow> bool" where
  "provenance_is_consistent c =
     (if delegated_by c \<noteq> [] then delegation_chain c \<noteq> [] \<and> last (delegation_chain c) = delegated_by c
      else delegation_chain c = [])"

definition same_binding :: "AccessContextV1 \<Rightarrow> AccessContextV1 \<Rightarrow> bool" where
  "same_binding child parent =
     (contract_revision child = contract_revision parent \<and> deployment_id child = deployment_id parent
      \<and> tenant_id child = tenant_id parent \<and> principal_id child = principal_id parent
      \<and> actor_type child = actor_type parent \<and> profile_id child = profile_id parent
      \<and> profile_incarnation child = profile_incarnation parent \<and> session_id child = session_id parent
      \<and> session_owner_principal_id child = session_owner_principal_id parent
      \<and> conversation_ref child = conversation_ref parent \<and> conversation_lane child = conversation_lane parent
      \<and> read_policy_ref child = read_policy_ref parent \<and> policy_revision child = policy_revision parent
      \<and> membership_revision child = membership_revision parent \<and> revocation_epoch child = revocation_epoch parent
      \<and> ownership_generation child = ownership_generation parent \<and> lease_id child = lease_id parent
      \<and> lease_generation child = lease_generation parent \<and> source_kind child = source_kind parent
      \<and> authenticated_transport child = authenticated_transport parent)"

definition opaque_tokens :: "AccessContextV1 \<Rightarrow> string set" where
  "opaque_tokens c = {t \<in> narrowing c. tok_prefix t \<notin> MODELLED_NARROWING_DIMENSIONS}"

definition default_within :: "AccessContextV1 \<Rightarrow> AccessContextV1 \<Rightarrow> bool" where
  "default_within child parent =
     ((collection_allowlist child = {} \<or> default_write_collection_id child \<in> collection_allowlist child)
      \<and> (default_write_collection_id child = default_write_collection_id parent
         \<or> (collection_allowlist child \<noteq> {} \<and> default_write_collection_id child \<in> collection_allowlist child)))"

definition is_subset_of :: "AccessContextV1 \<Rightarrow> AccessContextV1 \<Rightarrow> bool" where
  "is_subset_of child parent =
     (same_binding child parent
      \<and> ungranted_operations child = {} \<and> ungranted_operations parent = {}
      \<and> grants child \<subseteq> grants parent
      \<and> operation_allowlist child \<subseteq> operation_allowlist parent
      \<and> audience_is_narrower child parent
      \<and> expires_at child \<le> expires_at parent \<and> issued_at parent \<le> issued_at child
      \<and> delegation_chain parent = take (length (delegation_chain parent)) (delegation_chain child)
      \<and> (context_id child = context_id parent \<or> context_id parent \<in> set (delegation_chain child))
      \<and> provenance_is_consistent child \<and> provenance_is_consistent parent
      \<and> opaque_tokens parent \<subseteq> narrowing child
      \<and> is_narrower (collection_allowlist child) (collection_allowlist parent)
      \<and> default_within child parent)"

section \<open>Token facts\<close>

lemma is_prefix_append_iff: "is_prefix p t \<longleftrightarrow> (\<exists>v. t = p @ v)"
  by (induction p t rule: is_prefix.induct) auto

lemma tok_parts: "CHR '':'' \<notin> set d \<Longrightarrow> tok_prefix (d @ CHR '':'' # v) = d \<and> tok_value (d @ CHR '':'' # v) = v"
  by (induction d) (auto simp: tok_prefix_def tok_value_def partition_at_def)

lemma dims_no_colon: "CHR '':'' \<notin> set ''operation''" "CHR '':'' \<notin> set ''collection''" "CHR '':'' \<notin> set ''audience''"
  by simp_all

lemma dim_prefix:
  assumes "CHR '':'' \<notin> set d" "is_prefix (d @ '':'') t"
  shows "tok_prefix t = d" "t = dim_token d (tok_value t)"
proof -
  from assms(2) obtain v where "t = d @ CHR '':'' # v" by (auto simp: is_prefix_append_iff)
  with tok_parts[OF assms(1)] show "tok_prefix t = d" "t = dim_token d (tok_value t)" by (simp_all add: dim_token_def)
qed

lemma mem_dimension_values:
  assumes "CHR '':'' \<notin> set d"
  shows "v \<in> dimension_values T d \<longleftrightarrow> v \<noteq> [] \<and> dim_token d v \<in> T"
proof
  assume "v \<in> dimension_values T d"
  then obtain t where "t \<in> T" "is_prefix (d @ '':'') t" "tok_value t = v" "v \<noteq> []"
    by (auto simp: dimension_values_def)
  with dim_prefix(2)[OF assms, of t] show "v \<noteq> [] \<and> dim_token d v \<in> T" by simp
next
  assume "v \<noteq> [] \<and> dim_token d v \<in> T"
  then show "v \<in> dimension_values T d"
    using tok_parts[OF assms, of v]
    by (auto simp: dimension_values_def dim_token_def is_prefix_append_iff intro!: rev_image_eqI[of "dim_token d v"])
qed

lemma dim_token_inj: "dim_token d v = dim_token d w \<longleftrightarrow> v = w"
  by (simp add: dim_token_def)

lemma tok_prefix_dim: "CHR '':'' \<notin> set d \<Longrightarrow> tok_prefix (dim_token d v) = d"
  using tok_parts[of d v] by (simp add: dim_token_def)

text \<open>The tokens of one dimension in a narrowed child, when no explicit token is requested.\<close>

lemma child_dimension:
  assumes "na_narrowing a = []" "CHR '':'' \<notin> set d" "d \<in> {''operation'', ''collection'', ''audience''}"
  shows "dimension_values (child_narrowing c a) d =
    (if d \<in> narrowed_dimensions a
     then (if d = ''operation'' then child_grants c a else if d = ''collection'' then child_collections c a
           else child_audience c a) - {[]}
     else dimension_values (narrowing c) d)"
proof (rule set_eqI)
  fix v
  have nd: "narrowed_dimensions a =
     (if requested_operations a \<noteq> None then {''operation''} else {})
     \<union> (if requested_collections a \<noteq> None then {''collection''} else {})
     \<union> (if na_audience a \<noteq> None then {''audience''} else {})"
    using assms(1) by (simp add: narrowed_dimensions_def)
  have other: "dim_token d v \<in> dim_token e ` A \<longleftrightarrow> d = e \<and> v \<in> A" if "CHR '':'' \<notin> set e" for e A
    using tok_prefix_dim[OF assms(2), of v] tok_prefix_dim[OF that] by (force simp: dim_token_inj)
  note e = other[OF dims_no_colon(1)] other[OF dims_no_colon(2)] other[OF dims_no_colon(3)]
  have "dim_token d v \<in> child_narrowing c a \<longleftrightarrow>
      (dim_token d v \<in> narrowing c \<and> d \<notin> narrowed_dimensions a)
      \<or> (d = ''operation'' \<and> requested_operations a \<noteq> None \<and> v \<in> child_grants c a)
      \<or> (d = ''collection'' \<and> requested_collections a \<noteq> None \<and> v \<in> child_collections c a)
      \<or> (d = ''audience'' \<and> na_audience a \<noteq> None \<and> v \<in> child_audience c a)"
    unfolding child_narrowing_def assms(1) by (simp add: e tok_prefix_dim[OF assms(2)])
  with assms(3) show "v \<in> dimension_values (child_narrowing c a) d \<longleftrightarrow> v \<in>
    (if d \<in> narrowed_dimensions a
     then (if d = ''operation'' then child_grants c a else if d = ''collection'' then child_collections c a
           else child_audience c a) - {[]}
     else dimension_values (narrowing c) d)"
    unfolding mem_dimension_values[OF assms(2)] nd by (auto simp: mem_dimension_values[OF assms(2)] split: if_splits)
qed

section \<open>Narrowing attenuates\<close>

lemma narrow_facts:
  assumes "narrow c a = Inr c'"
  shows "narrow_scope_error c a = None" "narrow_binding_error c a = None" "narrow_default_error c a = None"
    "c' = c\<lparr>default_write_collection_id :=
              (case na_default_write_collection_id a of Some d \<Rightarrow> d | None \<Rightarrow> default_write_collection_id c),
            grants := child_grants c a, audience := child_audience c a,
            expires_at := child_expiry c a, narrowing := child_narrowing c a\<rparr>"
  using assms by (auto simp: narrow_def split: option.splits)

lemma scope_facts:
  assumes "narrow_scope_error c a = None"
  shows "requested_operations a \<noteq> None \<Longrightarrow> child_grants c a \<subseteq> operation_allowlist c"
    "requested_collections a \<noteq> None \<Longrightarrow> child_collections c a \<noteq> {}"
    "requested_collections a \<noteq> None \<Longrightarrow> collection_allowlist c \<noteq> {} \<Longrightarrow> child_collections c a \<subseteq> collection_allowlist c"
    "na_audience a \<noteq> None \<Longrightarrow> child_audience c a \<noteq> {}"
    "na_audience a \<noteq> None \<Longrightarrow> audience c \<noteq> {} \<Longrightarrow> child_audience c a \<subseteq> audience c"
    "child_expiry c a \<le> expires_at c" "issued_at c \<le> child_expiry c a"
  using assms
  by (auto simp: narrow_scope_error_def child_grants_def child_collections_def child_audience_def
      split: if_splits option.splits)

lemma operation_allowlist_subset: "operation_allowlist c \<subseteq> grants c"
  by (auto simp: operation_allowlist_def Let_def)

lemma allowlist_wf: "ungranted_operations c = {} \<Longrightarrow>
    operation_allowlist c = (if dimension_values (narrowing c) ''operation'' \<noteq> {}
       then dimension_values (narrowing c) ''operation'' else grants c)"
  by (auto simp: operation_allowlist_def ungranted_operations_def Let_def)

text \<open>The audience field and the audience tokens say the same, or only the field restricts.\<close>

definition audience_consistent :: "AccessContextV1 \<Rightarrow> bool" where
  "audience_consistent c =
     (dimension_values (narrowing c) ''audience'' = {} \<or> dimension_values (narrowing c) ''audience'' = audience c)"

lemma narrow_operations:
  assumes "narrow c a = Inr c'" "na_narrowing a = []" "ungranted_operations c = {}"
  shows "ungranted_operations c' = {}" "grants c' \<subseteq> grants c" "operation_allowlist c' \<subseteq> operation_allowlist c"
proof -
  note f = narrow_facts[OF assms(1)]
  note cd = child_dimension[OF assms(2) dims_no_colon(1), simplified, of c]
  have nd: "''operation'' \<in> narrowed_dimensions a \<longleftrightarrow> requested_operations a \<noteq> None"
    using assms(2) by (auto simp: narrowed_dimensions_def)
  show ung: "ungranted_operations c' = {}"
    using assms(3) cd nd by (auto simp: ungranted_operations_def f(4) child_grants_def split: option.splits if_splits)
  show "grants c' \<subseteq> grants c"
    using scope_facts(1)[OF f(1)] operation_allowlist_subset[of c]
    by (cases "requested_operations a") (auto simp: f(4) child_grants_def)
  show "operation_allowlist c' \<subseteq> operation_allowlist c"
  proof (cases "requested_operations a")
    case None
    then have "grants c' = grants c" "dimension_values (narrowing c') ''operation'' = dimension_values (narrowing c) ''operation''"
      using cd nd by (simp_all add: f(4) child_grants_def)
    then show ?thesis by (simp add: operation_allowlist_def Let_def)
  next
    case (Some ops)
    with scope_facts(1)[OF f(1)] operation_allowlist_subset[of c'] show ?thesis by (auto simp: f(4))
  qed
qed

lemma narrow_audience:
  assumes "narrow c a = Inr c'" "na_narrowing a = []" "audience_consistent c"
  shows "audience_is_narrower c' c"
proof -
  note f = narrow_facts[OF assms(1)]
  note cd = child_dimension[OF assms(2) dims_no_colon(3), simplified, of c]
  have nd: "''audience'' \<in> narrowed_dimensions a \<longleftrightarrow> na_audience a \<noteq> None"
    using assms(2) by (auto simp: narrowed_dimensions_def)
  have noempty: "[] \<notin> dimension_values T ''audience''" for T
    using mem_dimension_values[OF dims_no_colon(3), of "[]" T] by simp
  show ?thesis
  proof (cases "na_audience a")
    case None
    then show ?thesis using cd nd by (auto simp: audience_is_narrower_def is_narrower_def f(4) child_audience_def)
  next
    case (Some aud)
    then have aud: "aud \<noteq> {}" "audience c \<noteq> {} \<Longrightarrow> aud \<subseteq> audience c"
      using scope_facts(4,5)[OF f(1)] by (simp_all add: child_audience_def)
    have "dimension_values (narrowing c') ''audience'' = aud - {[]}"
      using cd nd Some by (simp add: f(4) child_audience_def)
    moreover have "is_narrower (aud - {[]}) (dimension_values (narrowing c) ''audience'')"
    proof (cases "dimension_values (narrowing c) ''audience'' = {}")
      case False
      then have eq: "dimension_values (narrowing c) ''audience'' = audience c"
        using assms(3) by (simp add: audience_consistent_def)
      with aud(2) False have "aud \<subseteq> dimension_values (narrowing c) ''audience''" by simp
      moreover from this noempty[of "narrowing c"] have "aud - {[]} = aud" by blast
      ultimately show ?thesis using aud(1) by (simp add: is_narrower_def)
    qed (simp add: is_narrower_def)
    moreover have "is_narrower (audience c') (audience c)"
      using aud Some by (auto simp: is_narrower_def f(4) child_audience_def)
    ultimately show ?thesis by (simp add: audience_is_narrower_def)
  qed
qed

lemma narrow_collections:
  assumes "narrow c a = Inr c'" "na_narrowing a = []" "\<forall>cs. requested_collections a = Some cs \<longrightarrow> [] \<notin> cs"
  shows "collection_allowlist c' = child_collections c a" "is_narrower (collection_allowlist c') (collection_allowlist c)"
    "default_within c' c"
proof -
  note f = narrow_facts[OF assms(1)]
  note cd = child_dimension[OF assms(2) dims_no_colon(2), simplified, of c]
  have nd: "''collection'' \<in> narrowed_dimensions a \<longleftrightarrow> requested_collections a \<noteq> None"
    using assms(2) by (auto simp: narrowed_dimensions_def)
  show cc: "collection_allowlist c' = child_collections c a"
    using cd nd assms(3) by (cases "requested_collections a") (auto simp: collection_allowlist_def f(4) child_collections_def)
  show "is_narrower (collection_allowlist c') (collection_allowlist c)"
    using scope_facts(2,3)[OF f(1)] unfolding cc is_narrower_def
    by (cases "requested_collections a") (auto simp: child_collections_def)
  have "effective_collections c a = child_collections c a"
    using assms(2) by (simp add: effective_collections_def dimension_values_def)
  moreover have "requested_collections a = None \<Longrightarrow> child_collections c a = collection_allowlist c"
    by (simp add: child_collections_def)
  moreover have "default_write_collection_id c' =
      (case na_default_write_collection_id a of Some d \<Rightarrow> d | None \<Rightarrow> default_write_collection_id c)"
    by (simp add: f(4))
  ultimately show "default_within c' c"
    using f(3) scope_facts(2)[OF f(1)] unfolding default_within_def cc narrow_default_error_def
    by (cases "na_default_write_collection_id a"; cases "requested_collections a") (auto split: if_splits)
qed

lemma narrow_opaque:
  assumes "narrow c a = Inr c'" "na_narrowing a = []"
  shows "opaque_tokens c \<subseteq> narrowing c'"
  using assms(2) unfolding narrow_facts(4)[OF assms(1)] opaque_tokens_def child_narrowing_def
    narrowed_dimensions_def MODELLED_NARROWING_DIMENSIONS_def by (auto split: if_splits)

lemma narrow_subset:
  assumes "narrow c a = Inr c'" "na_narrowing a = []" "ungranted_operations c = {}" "provenance_is_consistent c"
    and "audience_consistent c" "\<forall>cs. requested_collections a = Some cs \<longrightarrow> [] \<notin> cs"
  shows "is_subset_of c' c"
proof -
  note f = narrow_facts[OF assms(1)]
  have "same_binding c' c" "provenance_is_consistent c'" "delegation_chain c' = delegation_chain c"
    "context_id c' = context_id c" "issued_at c' = issued_at c" "expires_at c' = child_expiry c a"
    using assms(4) by (simp_all add: f(4) same_binding_def provenance_is_consistent_def)
  with narrow_operations[OF assms(1-3)] narrow_audience[OF assms(1,2,5)] narrow_collections(2,3)[OF assms(1,2,6)]
    narrow_opaque[OF assms(1,2)] scope_facts(6)[OF f(1)] assms(3,4)
  show ?thesis unfolding is_subset_of_def by simp
qed

text \<open>
  Narrowing attenuates.  When \<open>narrow\<close> accepts its typed arguments (no explicit tokens), the new
  context passes the subset proof against its parent: no operation, collection, audience or lifetime
  is gained, no opaque restriction is lost, and the default collection stays inside the child's own
  collections.
\<close>

theorem narrow_attenuates:
  assumes "narrow c a = Inr c'" "na_narrowing a = []" "ungranted_operations c = {}" "provenance_is_consistent c"
    and "audience_consistent c" "\<forall>cs. requested_collections a = Some cs \<longrightarrow> [] \<notin> cs"
  shows "is_subset_of c' c"
  by (rule narrow_subset[OF assms])

definition sample_context :: AccessContextV1 where
  "sample_context = \<lparr>contract_revision = ''v1'', context_id = ''ctx'', request_id = ''req'', source_kind = ''host'',
     authenticated_transport = ''t'', deployment_id = ''d'', tenant_id = ''t'', principal_id = ''p'', actor_type = HUMAN,
     profile_id = ''f'', profile_incarnation = ''i'', session_id = ''s'', session_owner_principal_id = ''p'',
     conversation_ref = ''c'', conversation_lane = ''l'', default_write_collection_id = ''b'', read_policy_ref = ''r'',
     grants = {''read'', ''write''}, policy_revision = 1, membership_revision = 1, revocation_epoch = 1,
     delegation_chain = [], delegated_by = [], audience = {}, issued_at = 0, expires_at = 10,
     narrowing = {''collection:a'', ''collection:b''}, ownership_generation = 1, lease_id = ''lease'', lease_generation = 1\<rparr>"

lemma dimension_values_code:
  "dimension_values (set tokens) d =
     set (map tok_value (filter (\<lambda>t. is_prefix (d @ '':'') t \<and> tok_value t \<noteq> []) tokens))"
  by (auto simp: dimension_values_def)

lemma sample_dimensions:
  "dimension_values {''collection:a'', ''collection:b''} ''collection'' = {''a'', ''b''}"
  "dimension_values {''collection:a'', ''collection:b''} ''operation'' = {}"
  "dimension_values {''collection:a'', ''collection:b''} ''audience'' = {}"
  "dimension_values {''collection:a''} ''collection'' = {''a''}"
  "dimension_values {''collection:b''} ''collection'' = {''b''}"
  using dimension_values_code[of "[''collection:a'', ''collection:b'']"] dimension_values_code[of "[''collection:a'']"]
    dimension_values_code[of "[''collection:b'']"]
  by (simp_all add: tok_value_def partition_at_def)

theorem narrow_attenuates_witness:
  "is_subset_of (sample_context\<lparr>grants := {''read''}, narrowing := child_narrowing sample_context (no_args\<lparr>na_operations := Some {''read''}\<rparr>)\<rparr>)
     sample_context"
proof -
  let ?a = "no_args\<lparr>na_operations := Some {''read''}\<rparr>"
  have run: "narrow sample_context ?a = Inr (sample_context\<lparr>grants := {''read''}, narrowing := child_narrowing sample_context ?a\<rparr>)"
    by (simp add: narrow_def narrow_scope_error_def narrow_binding_error_def narrow_default_error_def no_args_def
        requested_operations_def requested_collections_def or_else_def child_grants_def child_audience_def child_expiry_def
        child_collections_def effective_collections_def collection_allowlist_def operation_allowlist_def changes_def
        sample_context_def sample_dimensions Let_def)
  have "na_narrowing ?a = []" "ungranted_operations sample_context = {}" "provenance_is_consistent sample_context"
    "audience_consistent sample_context" "\<forall>cs. requested_collections ?a = Some cs \<longrightarrow> [] \<notin> cs"
    by (simp_all add: no_args_def ungranted_operations_def provenance_is_consistent_def audience_consistent_def
        requested_collections_def or_else_def sample_context_def sample_dimensions)
  from narrow_attenuates[OF run this] show ?thesis .
qed

text \<open>
  The subset proof composes: if a grandchild proves itself within a child and the child within
  its parent, the grandchild is within the parent, so a chain of delegations never regains authority.
\<close>

theorem is_subset_of_trans:
  assumes "is_subset_of c b" "is_subset_of b a"
  shows "is_subset_of c a"
proof -
  have bind: "same_binding c a" using assms unfolding is_subset_of_def same_binding_def by metis
  have narrower: "is_narrower x z" if "is_narrower x y" "is_narrower y z" for x y z
    using that by (auto simp: is_narrower_def)
  have aud: "audience_is_narrower c a"
    using assms narrower unfolding is_subset_of_def audience_is_narrower_def by blast
  have coll: "is_narrower (collection_allowlist c) (collection_allowlist a)"
    using assms narrower unfolding is_subset_of_def by blast
  have chain: "delegation_chain a = take (length (delegation_chain a)) (delegation_chain c)"
    "set (delegation_chain b) \<subseteq> set (delegation_chain c)"
    using assms unfolding is_subset_of_def by (metis take_take min.absorb1 length_take nat_le_linear take_all min_def, metis set_take_subset)
  have ctx: "context_id c = context_id a \<or> context_id a \<in> set (delegation_chain c)"
    using assms chain(2) unfolding is_subset_of_def by (metis subsetD)
  have opaque: "opaque_tokens a \<subseteq> narrowing c"
    using assms unfolding is_subset_of_def opaque_tokens_def by blast
  have def: "default_within c a"
    using assms unfolding is_subset_of_def default_within_def is_narrower_def by metis
  from assms bind aud coll chain ctx opaque def show ?thesis
    unfolding is_subset_of_def by (meson order_trans)
qed

theorem is_subset_of_trans_witness: "is_subset_of sample_context sample_context"
proof -
  have "is_subset_of sample_context sample_context"
    by (simp add: is_subset_of_def same_binding_def ungranted_operations_def audience_is_narrower_def is_narrower_def
        provenance_is_consistent_def opaque_tokens_def default_within_def collection_allowlist_def sample_context_def
        sample_dimensions) blast
  from is_subset_of_trans[OF this this] show ?thesis .
qed

text \<open>The narrowing by a single explicit token on one of the parent's collections.\<close>

abbreviation token_args :: "string \<Rightarrow> narrow_args" where
  "token_args v \<equiv> no_args\<lparr>na_narrowing := [dim_token ''collection'' v]\<rparr>"

lemma token_args_fields:
  "requested_operations (token_args v) = None" "requested_collections (token_args v) = None" "na_audience (token_args v) = None"
  "na_default_write_collection_id (token_args v) = None" "na_expires_at (token_args v) = None" "na_grants (token_args v) = None"
  "na_profile_id (token_args v) = None" "na_session_id (token_args v) = None" "na_conversation_id (token_args v) = None"
  "na_policy_revision (token_args v) = None" "na_membership_revision (token_args v) = None" "na_revocation_epoch (token_args v) = None"
  by (simp_all add: no_args_def requested_operations_def requested_collections_def or_else_def)

lemma token_child_collections:
  assumes "v \<noteq> []"
  shows "dimension_values (child_narrowing c (token_args v)) ''collection'' = {v}"
proof -
  have t: "tok_prefix (dim_token ''collection'' v) = ''collection''" "tok_value (dim_token ''collection'' v) = v"
    using tok_parts[OF dims_no_colon(2), of v] by (simp_all add: dim_token_def)
  have "''collection'' \<in> narrowed_dimensions (token_args v)" using assms t by (auto simp: narrowed_dimensions_def)
  then have "w \<in> dimension_values (child_narrowing c (token_args v)) ''collection'' \<longleftrightarrow> w = v" for w
    unfolding mem_dimension_values[OF dims_no_colon(2)] child_narrowing_def token_args_fields
    using assms tok_prefix_dim[OF dims_no_colon(2), of w] by (auto simp: dim_token_inj)
  then show ?thesis by auto
qed

text \<open>
  C39: With explicit tokens the guarantee of \<open>narrow\<close> fails.  Let a context restrict its collections, with its default
  write collection among them.  Narrowing it by a token on any other of its collections succeeds, because the
  default is checked against the parent's collections: the child may touch only the named collection but still
  writes by default to the parent's, and its own subset proof against the parent is refused.
\<close>

theorem narrow_token_default_escapes:
  assumes "v \<in> collection_allowlist c" "default_write_collection_id c \<in> collection_allowlist c" "v \<noteq> default_write_collection_id c"
    and "issued_at c \<le> expires_at c"
  shows "\<exists>c'. narrow c (token_args v) = Inr c' \<and> collection_allowlist c' = {v}
     \<and> default_write_collection_id c' = default_write_collection_id c \<and> default_write_collection_id c' \<notin> collection_allowlist c'
     \<and> \<not> is_subset_of c' c"
proof -
  let ?a = "token_args v"
  have v: "v \<noteq> []" using assms(1) by (auto simp: collection_allowlist_def dimension_values_def)
  have cc: "child_collections c ?a = collection_allowlist c" by (simp add: child_collections_def token_args_fields)
  have "token_error c ?a (dim_token ''collection'' v) = None"
    using assms(1) tok_parts[OF dims_no_colon(2), of v] unfolding token_error_def token_args_fields cc by (simp add: dim_token_def)
  moreover have "narrow_binding_error c ?a = None" unfolding narrow_binding_error_def changes_def token_args_fields by simp
  moreover have "narrow_scope_error c ?a = None"
    using assms(4) unfolding narrow_scope_error_def child_expiry_def token_args_fields by simp
  moreover have "narrow_default_error c ?a = None"
    using assms(2) unfolding narrow_default_error_def effective_collections_def cc token_args_fields by auto
  ultimately obtain c' where n: "narrow c ?a = Inr c'" unfolding narrow_def by simp
  have "narrowing c' = child_narrowing c ?a" "default_write_collection_id c' = default_write_collection_id c"
    by (simp_all add: narrow_facts(4)[OF n] token_args_fields)
  then have c': "collection_allowlist c' = {v}" "default_write_collection_id c' = default_write_collection_id c"
    using token_child_collections[OF v] by (simp_all add: collection_allowlist_def)
  then have "\<not> is_subset_of c' c" using assms(3) by (simp add: is_subset_of_def default_within_def)
  then show ?thesis using n c' assms(3) by auto
qed

theorem narrow_token_default_escapes_witness:
  "\<exists>c'. narrow sample_context (token_args ''a'') = Inr c' \<and> collection_allowlist c' = {''a''} \<and> default_write_collection_id c' = ''b''
     \<and> \<not> is_subset_of c' sample_context"
proof -
  have "collection_allowlist sample_context = {''a'', ''b''}" "default_write_collection_id sample_context = ''b''" "issued_at sample_context \<le> expires_at sample_context"
    by (simp_all add: collection_allowlist_def sample_context_def sample_dimensions)
  then show ?thesis using narrow_token_default_escapes[of "''a''" sample_context] by auto
qed

end
