(* ===== verification/Access_Validation.thy ===== *)
theory Access_Validation
  imports Access_Context
begin

text \<open>
  Decisions and their public projection (\<^verbatim>\<open>src/access_context/denials.py\<close>), staged validation,
  mode resolution and delegation (\<^verbatim>\<open>src/access_context/validation.py\<close>).
\<close>

section \<open>Decisions\<close>

datatype DenialReason =
    CONTEXT_MISSING
  | CONTEXT_INVALID
  | CONTEXT_UNSUPPORTED_VERSION
  | CONTEXT_EXPIRED
  | CONTEXT_REVOKED
  | SCOPE_FORBIDDEN
  | SCOPE_MISMATCH
  | OWNERSHIP_CHANGED
  | LEASE_STALE
  | TARGET_NOT_FOUND_OR_FORBIDDEN

datatype detail_value = DStr string | DInt int

definition CONTENT_FREE_DETAIL_KEYS :: "string list" where
  "CONTENT_FREE_DETAIL_KEYS =
     [''context_id'', ''request_id'', ''principal_id'', ''tenant_id'', ''deployment_id'', ''profile_id'',
      ''session_id'', ''conversation_id'', ''lease_id'', ''target_id'', ''policy_revision'',
      ''membership_revision'', ''revocation_epoch'', ''ownership_generation'', ''lease_generation'',
      ''expected_ownership_generation'', ''expected_lease_generation'', ''expected_membership_revision'',
      ''expected_revocation_epoch'']"

type_synonym detail = "(string \<times> detail_value) list"

definition safe_detail :: "detail \<Rightarrow> detail" where
  "safe_detail d = filter (\<lambda>(k, _). k \<in> set CONTENT_FREE_DETAIL_KEYS) d"

text \<open>An allowed decision carries no reason and a denied one always does, so the two are constructors.\<close>

datatype Decision = Allow detail | Deny DenialReason detail

definition allow :: "detail \<Rightarrow> Decision" where
  "allow d = Allow (safe_detail d)"

definition deny :: "DenialReason \<Rightarrow> detail \<Rightarrow> Decision" where
  "deny reason d = Deny reason (safe_detail d)"

fun allowed :: "Decision \<Rightarrow> bool" where
  "allowed (Allow _) = True"
| "allowed (Deny _ _) = False"

fun denial_reason :: "Decision \<Rightarrow> DenialReason option" where
  "denial_reason (Allow _) = None"
| "denial_reason (Deny r _) = Some r"

fun PUBLIC_DENIAL_PROJECTION :: "DenialReason \<Rightarrow> DenialReason" where
  "PUBLIC_DENIAL_PROJECTION CONTEXT_MISSING = CONTEXT_MISSING"
| "PUBLIC_DENIAL_PROJECTION CONTEXT_INVALID = CONTEXT_INVALID"
| "PUBLIC_DENIAL_PROJECTION CONTEXT_UNSUPPORTED_VERSION = CONTEXT_UNSUPPORTED_VERSION"
| "PUBLIC_DENIAL_PROJECTION CONTEXT_EXPIRED = CONTEXT_EXPIRED"
| "PUBLIC_DENIAL_PROJECTION CONTEXT_REVOKED = CONTEXT_REVOKED"
| "PUBLIC_DENIAL_PROJECTION SCOPE_FORBIDDEN = TARGET_NOT_FOUND_OR_FORBIDDEN"
| "PUBLIC_DENIAL_PROJECTION SCOPE_MISMATCH = TARGET_NOT_FOUND_OR_FORBIDDEN"
| "PUBLIC_DENIAL_PROJECTION OWNERSHIP_CHANGED = TARGET_NOT_FOUND_OR_FORBIDDEN"
| "PUBLIC_DENIAL_PROJECTION LEASE_STALE = TARGET_NOT_FOUND_OR_FORBIDDEN"
| "PUBLIC_DENIAL_PROJECTION TARGET_NOT_FOUND_OR_FORBIDDEN = TARGET_NOT_FOUND_OR_FORBIDDEN"

record PublicDecision =
  pub_allowed :: bool
  pub_denial_reason :: "DenialReason option"
  pub_detail :: detail

fun project_public :: "Decision \<Rightarrow> PublicDecision" where
  "project_public (Allow _) = \<lparr>pub_allowed = True, pub_denial_reason = None, pub_detail = []\<rparr>"
| "project_public (Deny r _) =
     \<lparr>pub_allowed = False, pub_denial_reason = Some (PUBLIC_DENIAL_PROJECTION r), pub_detail = []\<rparr>"

section \<open>Validation\<close>

datatype ValidationStage =
    CONTEXT_PRESENT
  | CONTEXT_WELL_FORMED
  | REVISION_SUPPORTED
  | NOT_EXPIRED
  | NOT_REVOKED
  | OWNERSHIP_CURRENT
  | LEASE_CURRENT
  | SCOPE_PERMITTED
  | TARGET_RESOLUTION

definition VALIDATION_ORDER :: "ValidationStage list" where
  "VALIDATION_ORDER = [CONTEXT_PRESENT, CONTEXT_WELL_FORMED, REVISION_SUPPORTED, NOT_EXPIRED, NOT_REVOKED,
     OWNERSHIP_CURRENT, LEASE_CURRENT, SCOPE_PERMITTED, TARGET_RESOLUTION]"

datatype ResolutionMode = STANDARD_UNMANAGED | FAIL_CLOSED | ENFORCING

definition resolve_mode :: "AccessContextV1 option \<Rightarrow> bool \<Rightarrow> ResolutionMode" where
  "resolve_mode carrier_context teams_enabled =
     (if \<not> teams_enabled then STANDARD_UNMANAGED
      else if carrier_context \<noteq> None then ENFORCING else FAIL_CLOSED)"

definition required_fields :: "AccessContextV1 \<Rightarrow> (string \<times> string) list" where
  "required_fields c =
     [(''context_id'', context_id c), (''request_id'', request_id c), (''source_kind'', source_kind c),
      (''authenticated_transport'', authenticated_transport c), (''deployment_id'', deployment_id c),
      (''tenant_id'', tenant_id c), (''principal_id'', principal_id c), (''profile_id'', profile_id c),
      (''profile_incarnation'', profile_incarnation c), (''session_id'', session_id c),
      (''session_owner_principal_id'', session_owner_principal_id c), (''conversation_id'', conversation_ref c),
      (''conversation_lane'', conversation_lane c), (''read_policy_ref'', read_policy_ref c), (''lease_id'', lease_id c)]"

definition invalid_fields :: "AccessContextV1 \<Rightarrow> string list" where
  "invalid_fields c = map fst (filter (\<lambda>(_, v). v = []) (required_fields c))"

record validation_state =
  v_required_scope :: "string set"
  v_now :: timestamp
  v_revoked :: bool
  v_revoked_context_ids :: "string set"
  v_policy_revision :: "int option"
  v_membership_revision :: "int option"
  v_revocation_epoch :: "int option"
  v_ownership_generation :: "int option"
  v_lease_id :: "string option"
  v_lease_generation :: "int option"
  v_expected_principal_id :: "string option"
  v_expected_request_id :: "string option"
  v_expected_context_id :: "string option"
  v_expected_lease_id :: "string option"
  v_requested_collections :: "string set option"
  v_target_allowed :: "bool option"

fun check_stage :: "validation_state \<Rightarrow> AccessContextV1 \<Rightarrow> ValidationStage \<Rightarrow> Decision option" where
  "check_stage st c CONTEXT_PRESENT = None"
| "check_stage st c CONTEXT_WELL_FORMED =
     (if invalid_fields c \<noteq> [] \<or> issued_at c \<ge> expires_at c \<or> ungranted_operations c \<noteq> {}
      then Some (deny CONTEXT_INVALID [(''context_id'', DStr (context_id c)), (''request_id'', DStr (request_id c))])
      else None)"
| "check_stage st c REVISION_SUPPORTED =
     (if contract_revision c \<noteq> ACCESS_CONTEXT_CONTRACT_REVISION
      then Some (deny CONTEXT_UNSUPPORTED_VERSION [(''context_id'', DStr (context_id c))]) else None)"
| "check_stage st c NOT_EXPIRED =
     (if v_now st \<ge> expires_at c \<or> v_now st < issued_at c
      then Some (deny CONTEXT_EXPIRED [(''context_id'', DStr (context_id c)), (''request_id'', DStr (request_id c))])
      else None)"
| "check_stage st c NOT_REVOKED =
     (if v_revoked st \<or> context_id c \<in> v_revoked_context_ids st
         \<or> changes (v_revocation_epoch st) (revocation_epoch c)
         \<or> changes (v_membership_revision st) (membership_revision c)
         \<or> changes (v_policy_revision st) (policy_revision c)
      then Some (deny CONTEXT_REVOKED [(''context_id'', DStr (context_id c)), (''policy_revision'', DInt (policy_revision c)),
             (''membership_revision'', DInt (membership_revision c)), (''revocation_epoch'', DInt (revocation_epoch c))])
      else None)"
| "check_stage st c OWNERSHIP_CURRENT =
     (if changes (v_ownership_generation st) (ownership_generation c)
      then Some (deny OWNERSHIP_CHANGED [(''context_id'', DStr (context_id c)),
             (''ownership_generation'', DInt (ownership_generation c)),
             (''expected_ownership_generation'', DInt (the (v_ownership_generation st)))])
      else if changes (v_expected_principal_id st) (principal_id c)
      then Some (deny OWNERSHIP_CHANGED [(''context_id'', DStr (context_id c)), (''principal_id'', DStr (principal_id c))])
      else if changes (v_expected_context_id st) (context_id c)
      then Some (deny CONTEXT_INVALID [(''request_id'', DStr (request_id c))])
      else if changes (v_expected_request_id st) (request_id c)
      then Some (deny CONTEXT_INVALID [(''context_id'', DStr (context_id c))])
      else if (''owner_only'' \<in> v_required_scope st \<or> ''owner'' \<in> v_required_scope st)
         \<and> session_owner_principal_id c \<noteq> principal_id c
      then Some (deny OWNERSHIP_CHANGED [(''context_id'', DStr (context_id c)), (''principal_id'', DStr (principal_id c))])
      else None)"
| "check_stage st c LEASE_CURRENT =
     (if changes (v_expected_lease_id st) (lease_id c) \<or> changes (v_lease_id st) (lease_id c)
         \<or> changes (v_lease_generation st) (lease_generation c)
      then Some (deny LEASE_STALE [(''context_id'', DStr (context_id c)), (''lease_id'', DStr (lease_id c)),
             (''lease_generation'', DInt (lease_generation c))])
      else None)"
| "check_stage st c SCOPE_PERMITTED =
     (if (case v_requested_collections st of None \<Rightarrow> False
          | Some cs \<Rightarrow> collection_allowlist c \<noteq> {} \<and> \<not> cs \<subseteq> collection_allowlist c)
      then Some (deny SCOPE_MISMATCH [(''context_id'', DStr (context_id c)), (''policy_revision'', DInt (policy_revision c))])
      else if \<not> v_required_scope st \<subseteq> operation_allowlist c
      then Some (deny SCOPE_FORBIDDEN [(''context_id'', DStr (context_id c)), (''policy_revision'', DInt (policy_revision c))])
      else None)"
| "check_stage st c TARGET_RESOLUTION =
     (if v_target_allowed st = Some False then Some (deny TARGET_NOT_FOUND_OR_FORBIDDEN []) else None)"

fun run_stages :: "validation_state \<Rightarrow> AccessContextV1 \<Rightarrow> ValidationStage list \<Rightarrow> Decision" where
  "run_stages st c [] = allow [(''context_id'', DStr (context_id c)), (''request_id'', DStr (request_id c))]"
| "run_stages st c (stage # stages) =
     (case check_stage st c stage of Some d \<Rightarrow> d | None \<Rightarrow> run_stages st c stages)"

definition validate :: "validation_state \<Rightarrow> AccessContextV1 option \<Rightarrow> Decision" where
  "validate st ctx = (case ctx of None \<Rightarrow> deny CONTEXT_MISSING [] | Some c \<Rightarrow> run_stages st c VALIDATION_ORDER)"

section \<open>Delegation\<close>

record derive_args =
  da_operations :: "string set"
  da_collections :: "string set option"
  da_audience :: "string set option"
  da_expires_at :: timestamp
  da_profile_id :: "string option"
  da_session_id :: "string option"
  da_conversation_id :: "string option"
  da_policy_revision :: "int option"
  da_membership_revision :: "int option"
  da_revocation_epoch :: "int option"
  da_current_policy_revision :: "int option"
  da_current_membership_revision :: "int option"
  da_current_revocation_epoch :: "int option"
  da_child_context_id :: "string option"
  da_child_request_id :: "string option"

definition disagree :: "'a option \<Rightarrow> 'a option \<Rightarrow> bool" where
  "disagree explicit cur = (explicit \<noteq> None \<and> cur \<noteq> None \<and> explicit \<noteq> cur)"

definition derive_narrow_args :: "derive_args \<Rightarrow> narrow_args" where
  "derive_narrow_args d = no_args\<lparr>na_operations := Some (da_operations d), na_collections := da_collections d,
     na_audience := da_audience d, na_expires_at := Some (da_expires_at d), na_profile_id := da_profile_id d,
     na_session_id := da_session_id d, na_conversation_id := da_conversation_id d,
     na_policy_revision := or_else (da_policy_revision d) (da_current_policy_revision d),
     na_membership_revision := or_else (da_membership_revision d) (da_current_membership_revision d),
     na_revocation_epoch := or_else (da_revocation_epoch d) (da_current_revocation_epoch d)\<rparr>"

definition child_chain :: "AccessContextV1 \<Rightarrow> string list" where
  "child_chain parent =
     (if delegation_chain parent = [] \<or> last (delegation_chain parent) \<noteq> context_id parent
      then delegation_chain parent @ [context_id parent] else delegation_chain parent)"

text \<open>The nonce is the fresh hexadecimal string of \<open>uuid4\<close>.\<close>

definition child_identity :: "string option \<Rightarrow> string \<Rightarrow> nat \<Rightarrow> string \<Rightarrow> string" where
  "child_identity explicit parent_id child_number nonce =
     (case explicit of
        Some i \<Rightarrow> if i \<noteq> [] then i else parent_id @ '':child:'' @ nat_digits child_number @ '':'' @ nonce
      | None \<Rightarrow> parent_id @ '':child:'' @ nat_digits child_number @ '':'' @ nonce)"

definition derive_child :: "string \<Rightarrow> AccessContextV1 \<Rightarrow> derive_args \<Rightarrow> access_error + AccessContextV1" where
  "derive_child nonce parent d =
     (if context_id parent = [] then Inl (ScopeMismatch ''delegation requires a host-derived parent context'')
      else if disagree (da_policy_revision d) (da_current_policy_revision d)
      then Inl (ScopeMismatch ''policy_revision aliases disagree'')
      else if disagree (da_membership_revision d) (da_current_membership_revision d)
      then Inl (ScopeMismatch ''membership_revision aliases disagree'')
      else if disagree (da_revocation_epoch d) (da_current_revocation_epoch d)
      then Inl (ScopeMismatch ''revocation_epoch aliases disagree'')
      else (case narrow parent (derive_narrow_args d) of
              Inl e \<Rightarrow> Inl e
            | Inr narrowed \<Rightarrow>
                (let chain = child_chain parent; child_number = length chain + 1 in
                 Inr (narrowed\<lparr>
                   context_id := child_identity (da_child_context_id d) (context_id parent) child_number nonce,
                   request_id := child_identity (da_child_request_id d) (request_id parent) child_number nonce,
                   delegation_chain := chain, delegated_by := context_id parent\<rparr>))))"

section \<open>What validation and delegation guarantee\<close>

lemma changes_None: "\<not> changes None v"
  by (simp add: changes_def)

lemma run_stages_allow:
  "allowed (run_stages st c stages) \<longleftrightarrow> (\<forall>s \<in> set stages. check_stage st c s = None)"
proof (induction stages)
  case (Cons s stages)
  have "\<not> allowed d" if "check_stage st c s = Some d" for d
    using that by (cases s) (auto simp: deny_def split: if_splits)
  with Cons show ?case by (auto split: option.splits)
qed (simp add: allow_def)

lemma validate_allowed_iff:
  "allowed (validate st (Some c)) \<longleftrightarrow> (\<forall>s. check_stage st c s = None)"
proof -
  have "set VALIDATION_ORDER = UNIV"
  proof (rule set_eqI)
    fix s show "(s \<in> set VALIDATION_ORDER) = (s \<in> UNIV)" by (cases s) (simp_all add: VALIDATION_ORDER_def)
  qed
  then show ?thesis by (simp add: validate_def run_stages_allow)
qed

text \<open>
  A delegated child can do nothing its parent could not.  If a context proves itself a subset of a
  well-formed parent, every operation and collection that validation allows the child at some moment
  it also allows the parent at that moment, provided neither context id is on the revocation list and
  the request does not pin the child's own ids.
\<close>

theorem child_allowed_parent_allowed:
  assumes "is_subset_of child parent" "allowed (validate st (Some child))"
    and "context_id parent \<noteq> []" "request_id parent \<noteq> []"
    and "context_id parent \<notin> v_revoked_context_ids st"
    and "v_expected_context_id st = None" "v_expected_request_id st = None"
  shows "allowed (validate st (Some parent))"
proof -
  from assms(2) have ok: "check_stage st child s = None" for s by (simp add: validate_allowed_iff)
  have b: "same_binding child parent" and u: "ungranted_operations parent = {}"
    and ops: "operation_allowlist child \<subseteq> operation_allowlist parent"
    and life: "expires_at child \<le> expires_at parent" "issued_at parent \<le> issued_at child"
    and coll: "is_narrower (collection_allowlist child) (collection_allowlist parent)"
    using assms(1) unfolding is_subset_of_def by simp_all
  have "check_stage st parent s = None" for s
  proof (cases s)
    case CONTEXT_WELL_FORMED
    have "invalid_fields parent = []"
      using ok[of CONTEXT_WELL_FORMED] b assms(3,4)
      by (auto simp: invalid_fields_def required_fields_def same_binding_def split: if_splits)
    with ok[of CONTEXT_WELL_FORMED] u life CONTEXT_WELL_FORMED show ?thesis by (auto split: if_splits)
  next
    case REVISION_SUPPORTED
    with ok[of REVISION_SUPPORTED] b show ?thesis by (auto simp: same_binding_def split: if_splits)
  next
    case NOT_EXPIRED
    with ok[of NOT_EXPIRED] life show ?thesis by (auto split: if_splits)
  next
    case NOT_REVOKED
    with ok[of NOT_REVOKED] b assms(5) show ?thesis by (auto simp: same_binding_def split: if_splits)
  next
    case OWNERSHIP_CURRENT
    with ok[of OWNERSHIP_CURRENT] b assms(6,7) show ?thesis
      by (auto simp: same_binding_def changes_None split: if_splits)
  next
    case LEASE_CURRENT
    with ok[of LEASE_CURRENT] b show ?thesis by (auto simp: same_binding_def split: if_splits)
  next
    case SCOPE_PERMITTED
    with ok[of SCOPE_PERMITTED] ops coll show ?thesis
      by (auto simp: is_narrower_def split: if_splits option.splits)
  next
    case TARGET_RESOLUTION
    with ok[of TARGET_RESOLUTION] show ?thesis by simp
  qed simp
  then show ?thesis by (simp add: validate_allowed_iff)
qed


definition open_state :: validation_state where
  "open_state = \<lparr>v_required_scope = {}, v_now = 5, v_revoked = False, v_revoked_context_ids = {},
     v_policy_revision = None, v_membership_revision = None, v_revocation_epoch = None, v_ownership_generation = None,
     v_lease_id = None, v_lease_generation = None, v_expected_principal_id = None, v_expected_request_id = None,
     v_expected_context_id = None, v_expected_lease_id = None, v_requested_collections = None, v_target_allowed = None\<rparr>"

lemma sample_subset: "is_subset_of sample_context sample_context"
  by (simp add: is_subset_of_def same_binding_def ungranted_operations_def audience_is_narrower_def is_narrower_def
      provenance_is_consistent_def opaque_tokens_def default_within_def collection_allowlist_def sample_context_def
      sample_dimensions) blast

lemma sample_valid: "allowed (validate open_state (Some sample_context))"
  unfolding validate_allowed_iff
proof
  fix s show "check_stage open_state sample_context s = None"
    by (cases s) (simp_all add: open_state_def invalid_fields_def required_fields_def sample_context_def
        ungranted_operations_def sample_dimensions ACCESS_CONTEXT_CONTRACT_REVISION_def changes_None)
qed

theorem child_allowed_parent_allowed_witness: "allowed (validate open_state (Some sample_context))"
  by (rule child_allowed_parent_allowed[OF sample_subset sample_valid])
     (simp_all add: sample_context_def open_state_def)

text \<open>
  Validation denies by the first failed stage of the fixed order and allows only when every stage
  passes; without a context it always denies.
\<close>

theorem validate_first_failure:
  "(case ctx of
      None \<Rightarrow> denial_reason (validate st ctx) = Some CONTEXT_MISSING
    | Some c \<Rightarrow>
        (case List.find (\<lambda>s. check_stage st c s \<noteq> None) VALIDATION_ORDER of
           None \<Rightarrow> allowed (validate st ctx) \<and> (\<forall>s. check_stage st c s = None)
         | Some s \<Rightarrow> \<not> allowed (validate st ctx) \<and> Some (validate st ctx) = check_stage st c s))"
proof (cases ctx)
  case None
  then show ?thesis by (simp add: validate_def deny_def)
next
  case (Some c)
  have run: "(case List.find (\<lambda>s. check_stage st c s \<noteq> None) stages of
           None \<Rightarrow> allowed (run_stages st c stages)
         | Some s \<Rightarrow> Some (run_stages st c stages) = check_stage st c s)" for stages
    by (induction stages) (auto simp: allow_def split: option.splits)
  show ?thesis
  proof (cases "List.find (\<lambda>s. check_stage st c s \<noteq> None) VALIDATION_ORDER")
    case None
    with run[of VALIDATION_ORDER] Some validate_allowed_iff[of st c] show ?thesis by (simp add: validate_def)
  next
    case (Some s)
    with find_Some_mem[OF Some] run[of VALIDATION_ORDER] \<open>ctx = Some c\<close> validate_allowed_iff[of st c] show ?thesis
      by (auto simp: validate_def)
  qed
qed

text \<open>
  Public denials do not reveal targets.  The public form of a decision depends only on whether it
  allows and on its public reason; the five target-dependent reasons all project to the same public
  decision, whatever details they carry.
\<close>

theorem public_projection_hides_targets:
  "(project_public (Deny r d) = project_public (Deny r' d') \<longleftrightarrow> PUBLIC_DENIAL_PROJECTION r = PUBLIC_DENIAL_PROJECTION r')
   \<and> (PUBLIC_DENIAL_PROJECTION r = TARGET_NOT_FOUND_OR_FORBIDDEN \<longleftrightarrow>
     r \<in> {SCOPE_FORBIDDEN, SCOPE_MISMATCH, OWNERSHIP_CHANGED, LEASE_STALE, TARGET_NOT_FOUND_OR_FORBIDDEN})"
  by (cases r) simp_all

text \<open>
  Delegation attenuates and records who delegated.  A derived child passes the subset proof against
  its parent, its chain extends the parent's and ends with the parent, and it names the parent as its
  delegator.
\<close>

theorem derive_child_attenuates:
  assumes "derive_child nonce parent d = Inr child"
    and "ungranted_operations parent = {}" "provenance_is_consistent parent" "audience_consistent parent"
    and "\<forall>cs. da_collections d = Some cs \<longrightarrow> [] \<notin> cs"
  shows "is_subset_of child parent \<and> delegated_by child = context_id parent
    \<and> last (delegation_chain child) = context_id parent"
proof -
  from assms(1) obtain n where n: "narrow parent (derive_narrow_args d) = Inr n" and ctx: "context_id parent \<noteq> []"
    and child: "child = n\<lparr>context_id := child_identity (da_child_context_id d) (context_id parent) (length (child_chain parent) + 1) nonce,
        request_id := child_identity (da_child_request_id d) (request_id parent) (length (child_chain parent) + 1) nonce,
        delegation_chain := child_chain parent, delegated_by := context_id parent\<rparr>"
    by (auto simp: derive_child_def Let_def split: if_splits sum.splits)
  have args: "na_narrowing (derive_narrow_args d) = []" "requested_collections (derive_narrow_args d) = da_collections d"
    by (auto simp: derive_narrow_args_def no_args_def requested_collections_def or_else_def split: option.splits)
  have sub: "is_subset_of n parent"
    using narrow_subset[OF n args(1) assms(2-4)] assms(5) args(2) by simp
  have chain: "delegation_chain parent = take (length (delegation_chain parent)) (child_chain parent)"
    "child_chain parent \<noteq> []" "last (child_chain parent) = context_id parent"
    by (auto simp: child_chain_def)
  then have mem: "context_id parent \<in> set (child_chain parent)" by (metis last_in_set)
  have same: "narrowing child = narrowing n" "grants child = grants n" "audience child = audience n"
    "default_write_collection_id child = default_write_collection_id n"
    by (simp_all add: child)
  have "is_subset_of child parent"
    using sub chain mem ctx
    unfolding is_subset_of_def same_binding_def audience_is_narrower_def default_within_def ungranted_operations_def
      operation_allowlist_def collection_allowlist_def provenance_is_consistent_def same
    by (simp add: child)
  with chain show ?thesis by (simp add: child)
qed


definition sample_derive :: derive_args where
  "sample_derive = \<lparr>da_operations = {''read''}, da_collections = None, da_audience = None, da_expires_at = 8,
     da_profile_id = None, da_session_id = None, da_conversation_id = None, da_policy_revision = None,
     da_membership_revision = None, da_revocation_epoch = None, da_current_policy_revision = None,
     da_current_membership_revision = None, da_current_revocation_epoch = None, da_child_context_id = None,
     da_child_request_id = None\<rparr>"

theorem derive_child_attenuates_witness:
  "\<exists>child. derive_child ''n'' sample_context sample_derive = Inr child \<and> is_subset_of child sample_context"
proof -
  let ?a = "derive_narrow_args sample_derive"
  have args: "requested_operations ?a = Some {''read''}" "requested_collections ?a = None" "na_audience ?a = None"
    "na_narrowing ?a = []" "na_default_write_collection_id ?a = None" "na_expires_at ?a = Some 8"
    "na_grants ?a = None" "na_profile_id ?a = None" "na_session_id ?a = None" "na_conversation_id ?a = None"
    "na_policy_revision ?a = None" "na_membership_revision ?a = None" "na_revocation_epoch ?a = None"
    by (simp_all add: derive_narrow_args_def sample_derive_def no_args_def requested_operations_def
        requested_collections_def or_else_def)
  have "narrow_binding_error sample_context ?a = None"
    unfolding narrow_binding_error_def changes_def args by simp
  moreover have "narrow_scope_error sample_context ?a = None"
    unfolding narrow_scope_error_def child_expiry_def args operation_allowlist_def
    by (simp add: sample_context_def sample_dimensions Let_def)
  moreover have "narrow_default_error sample_context ?a = None"
    unfolding narrow_default_error_def effective_collections_def child_collections_def collection_allowlist_def args
    by (simp add: sample_context_def sample_dimensions)
  ultimately have "\<exists>n. narrow sample_context ?a = Inr n" unfolding narrow_def args by simp
  then obtain child where run: "derive_child ''n'' sample_context sample_derive = Inr child"
    by (auto simp: derive_child_def disagree_def sample_derive_def Let_def sample_context_def)
  have "ungranted_operations sample_context = {}" "provenance_is_consistent sample_context"
    "audience_consistent sample_context" "\<forall>cs. da_collections sample_derive = Some cs \<longrightarrow> [] \<notin> cs"
    by (simp_all add: ungranted_operations_def provenance_is_consistent_def audience_consistent_def
        sample_derive_def sample_context_def sample_dimensions)
  from derive_child_attenuates[OF run this] run show ?thesis by blast
qed

end
