(* ===== verification/Access_Policy.thy ===== *)
theory Access_Policy
  imports Access_Validation
begin

text \<open>
  The three policies of \<^verbatim>\<open>src/access_policy\<close> (\<open>TrustedOwnerPolicy\<close>, \<open>FailClosedPolicy\<close>,
  \<open>TeamsPolicy\<close>), the resolution of one of them for an engine (\<^verbatim>\<open>resolution.py\<close>), and the
  consumer protocol of \<^verbatim>\<open>src/access_context/protocols.py\<close> as a locale.  A target scope is a Python
  dictionary.  The store and the Teams catalog are outside these modules: what a lookup in them answers
  or raises is a field of \<open>engine_view\<close>.
\<close>

section \<open>Scopes\<close>

fun dset :: "string \<Rightarrow> pyval \<Rightarrow> pydict \<Rightarrow> pydict" where
  "dset k v [] = [(k, v)]"
| "dset k v ((k', v') # d) = (if k' = k then (k, v) # d else (k', v') # dset k v d)"

lemma pget_dset [simp]: "pget (dset k v d) k' = (if k = k' then v else pget d k')"
  by (induction k v d rule: dset.induct) (auto simp: pget_def)

lemma map_of_dset [simp]: "map_of (dset k v d) k' = (if k = k' then Some v else map_of d k')"
  by (induction k v d rule: dset.induct) auto

lemma dset_same: "map_of d k = Some v \<Longrightarrow> dset k v d = d"
  by (induction k v d rule: dset.induct) (auto split: if_splits)

section \<open>The Teams policy\<close>

definition STORE_WIDE_KINDS :: "string set" where
  "STORE_WIDE_KINDS = {''backup'', ''assertions_rebuild'', ''embedding_backfill'', ''chunk_backfill''}"

definition ADMIN_REQUIRED_SCOPES :: "string set" where
  "ADMIN_REQUIRED_SCOPES = {''admin''}"

definition ALLOWLISTED_OPERATIONS :: "string set" where
  "ALLOWLISTED_OPERATIONS = {''read'', ''write''}"

definition principal_of :: "AccessContextV1 option \<Rightarrow> string" where
  "principal_of ctx = (case ctx of
     None \<Rightarrow> []
   | Some c \<Rightarrow> if session_owner_principal_id c \<noteq> [] then session_owner_principal_id c else principal_id c)"

datatype owner_answer = OWNER_LOOKUP_FAILED | TargetOwner "string option"

type_synonym owner_cache = "(string \<times> owner_answer) list"

text \<open>The owner callback raises (\<open>Inl\<close>) or answers with an owner, which may be missing.\<close>

type_synonym owner_callback = "string \<Rightarrow> unit + string option"

record TeamsPolicy =
  tp_context :: "AccessContextV1 option"
  tp_session_owner :: "owner_callback option"

definition target_owner :: "TeamsPolicy \<Rightarrow> string \<Rightarrow> owner_cache \<Rightarrow> owner_answer \<times> owner_cache" where
  "target_owner p sid cache = (case tp_session_owner p of
     None \<Rightarrow> (TargetOwner None, cache)
   | Some callback \<Rightarrow>
       (case map_of cache sid of
          Some answer \<Rightarrow> (answer, cache)
        | None \<Rightarrow>
            (let resolved = (case callback sid of
                 Inl _ \<Rightarrow> OWNER_LOOKUP_FAILED
               | Inr owner \<Rightarrow> TargetOwner (case owner of Some s \<Rightarrow> if s \<noteq> [] then Some s else None | None \<Rightarrow> None))
             in (resolved, (sid, resolved) # cache))))"

datatype effective = CONTEXT_NOT_BOUND | Effective "AccessContextV1 option"

definition effective_context :: "TeamsPolicy \<Rightarrow> AccessContextV1 option \<Rightarrow> effective" where
  "effective_context p ctx =
     (if ctx = None then Effective (tp_context p)
      else if tp_context p \<noteq> None \<and> ctx = tp_context p then Effective ctx
      else CONTEXT_NOT_BOUND)"

definition policy_collections :: "AccessContextV1 option \<Rightarrow> string set" where
  "policy_collections ctx = (case ctx of None \<Rightarrow> {} | Some c \<Rightarrow> collection_allowlist c)"

definition policy_operations :: "AccessContextV1 option \<Rightarrow> string set" where
  "policy_operations ctx = (case ctx of None \<Rightarrow> {} | Some c \<Rightarrow> operation_allowlist c)"

definition scope_str :: "pydict \<Rightarrow> string \<Rightarrow> string" where
  "scope_str scope k = py_str (py_or (pget scope k) (PStr []))"

definition TARGET_KEYS :: "string list" where
  "TARGET_KEYS = [''session_id'', ''source_session_id'', ''partition_key'']"

fun check_targets ::
  "TeamsPolicy \<Rightarrow> string \<Rightarrow> pydict \<Rightarrow> string list \<Rightarrow> owner_cache \<Rightarrow> DenialReason option \<times> owner_cache" where
  "check_targets p who scope [] cache = (None, cache)"
| "check_targets p who scope (key # keys) cache =
     (if \<not> truthy (pget scope key) then check_targets p who scope keys cache
      else (case target_owner p (py_str (pget scope key)) cache of
              (OWNER_LOOKUP_FAILED, cache') \<Rightarrow> (Some CONTEXT_INVALID, cache')
            | (TargetOwner owner, cache') \<Rightarrow>
                if owner \<noteq> None \<and> owner \<noteq> Some who then (Some SCOPE_FORBIDDEN, cache')
                else check_targets p who scope keys cache'))"

definition requested_vocabulary :: "string \<Rightarrow> pydict \<Rightarrow> string set" where
  "requested_vocabulary operation scope = {operation, scope_str scope ''required_scope''} \<inter> ALLOWLISTED_OPERATIONS"

definition teams_authorize_operation ::
  "TeamsPolicy \<Rightarrow> AccessContextV1 option \<Rightarrow> string \<Rightarrow> pydict \<Rightarrow> owner_cache \<Rightarrow> Decision \<times> owner_cache" where
  "teams_authorize_operation p ctx operation scope cache =
     (case effective_context p ctx of
        CONTEXT_NOT_BOUND \<Rightarrow> (deny CONTEXT_INVALID [], cache)
      | Effective e \<Rightarrow>
          (let who = principal_of e; ops = policy_operations e in
           if who = [] then (deny CONTEXT_INVALID [], cache)
           else if ops \<noteq> {} \<and> requested_vocabulary operation scope - ops \<noteq> {}
           then (deny SCOPE_FORBIDDEN [], cache)
           else if scope_str scope ''kind'' \<in> STORE_WIDE_KINDS then (deny SCOPE_FORBIDDEN [], cache)
           else if scope_str scope ''required_scope'' \<in> ADMIN_REQUIRED_SCOPES then (deny SCOPE_FORBIDDEN [], cache)
           else (case check_targets p who scope TARGET_KEYS cache of
                   (Some reason, cache') \<Rightarrow> (deny reason [], cache')
                 | (None, cache') \<Rightarrow>
                     if \<exists>owner \<in> set (py_iter (pget scope ''target_access_scopes'')). py_str owner \<noteq> who
                     then (deny SCOPE_FORBIDDEN [], cache')
                     else if policy_collections e \<noteq> {} \<and> pget scope ''collection_id'' \<noteq> PNone
                       \<and> py_str (pget scope ''collection_id'') \<notin> policy_collections e
                     then (deny SCOPE_FORBIDDEN [], cache')
                     else (allow [], cache'))))"

definition str_list :: "string set \<Rightarrow> pyval" where
  "str_list xs = PList (map PStr (sorted_list_of_set xs))"

definition teams_resolve_authorized_targets ::
  "TeamsPolicy \<Rightarrow> AccessContextV1 option \<Rightarrow> string \<Rightarrow> pydict \<Rightarrow> pydict" where
  "teams_resolve_authorized_targets p ctx operation requested =
     (case effective_context p ctx of
        CONTEXT_NOT_BOUND \<Rightarrow> dset ''collection_allowlist'' (PList []) (dset ''access_scope'' (PStr []) requested)
      | Effective e \<Rightarrow>
          (let who = principal_of e in
           if who = [] then requested
           else (let narrowed = dset ''access_scope'' (PStr who) requested;
                     colls = policy_collections e in
                 if colls = {} then narrowed
                 else (let kept = (if map_of requested ''collection_allowlist'' \<noteq> None
                                   then colls \<inter> set (map py_str (py_iter (pget requested ''collection_allowlist'')))
                                   else colls)
                       in dset ''collection_allowlist'' (str_list kept) narrowed))))"

definition teams_authorize_stored_scope ::
  "TeamsPolicy \<Rightarrow> AccessContextV1 option \<Rightarrow> string \<Rightarrow> pydict \<Rightarrow> Decision" where
  "teams_authorize_stored_scope p ctx operation stored =
     (case effective_context p ctx of
        CONTEXT_NOT_BOUND \<Rightarrow> deny CONTEXT_INVALID []
      | Effective e \<Rightarrow>
          if principal_of e = [] then deny CONTEXT_INVALID []
          else if pget stored ''access_scope'' = PNone then allow []
          else if py_str (pget stored ''access_scope'') \<noteq> principal_of e then deny SCOPE_FORBIDDEN []
          else allow [])"

record audit_event =
  ae_tenant_id :: string
  ae_principal_id :: string
  ae_operation :: string
  ae_allowed :: bool
  ae_denial_reason :: "DenialReason option"

definition event_for :: "AccessContextV1 option \<Rightarrow> string \<Rightarrow> bool \<Rightarrow> PublicDecision \<Rightarrow> audit_event" where
  "event_for e operation allow_flag public_result =
     \<lparr>ae_tenant_id = (case e of None \<Rightarrow> [] | Some c \<Rightarrow> tenant_id c), ae_principal_id = principal_of e,
      ae_operation = operation, ae_allowed = allow_flag, ae_denial_reason = pub_denial_reason public_result\<rparr>"

text \<open>The event handed to the audit sink, if any; what the sink raises is swallowed.\<close>

definition teams_audit_decision ::
  "bool \<Rightarrow> TeamsPolicy \<Rightarrow> AccessContextV1 option \<Rightarrow> string \<Rightarrow> PublicDecision \<Rightarrow> audit_event option" where
  "teams_audit_decision has_sink p ctx operation public_result =
     (if \<not> has_sink then None
      else if pub_allowed public_result \<and> operation = ''read'' then None
      else (let e = (case effective_context p ctx of CONTEXT_NOT_BOUND \<Rightarrow> tp_context p | Effective e \<Rightarrow> e)
            in Some (event_for e operation (pub_allowed public_result) public_result)))"

section \<open>The other two policies\<close>

record FailClosedPolicy =
  fc_denial_reason :: DenialReason
  fc_audit_records :: "(DenialReason option \<times> PublicDecision) list"
  fc_context :: "AccessContextV1 option"

definition fail_closed_policy :: "DenialReason \<Rightarrow> AccessContextV1 option \<Rightarrow> FailClosedPolicy" where
  "fail_closed_policy reason ctx = \<lparr>fc_denial_reason = reason, fc_audit_records = [], fc_context = ctx\<rparr>"

definition fail_closed_deny :: "FailClosedPolicy \<Rightarrow> Decision" where
  "fail_closed_deny p = deny (fc_denial_reason p) []"

definition fail_closed_resolve :: "pydict \<Rightarrow> pydict" where
  "fail_closed_resolve requested = []"

definition fail_closed_audit_decision ::
  "bool \<Rightarrow> AccessContextV1 option \<Rightarrow> string \<Rightarrow> DenialReason option \<Rightarrow> PublicDecision \<Rightarrow> FailClosedPolicy
     \<Rightarrow> FailClosedPolicy \<times> audit_event option" where
  "fail_closed_audit_decision has_sink ctx operation internal_reason public_result p =
     (p\<lparr>fc_audit_records := fc_audit_records p @ [(internal_reason, public_result)]\<rparr>,
      if \<not> has_sink then None
      else Some (event_for (if ctx \<noteq> None then ctx else fc_context p) operation False public_result))"

datatype policy_kind =
    TrustedOwner
  | FailClosed FailClosedPolicy
  | Teams TeamsPolicy

definition authorize_operation ::
  "policy_kind \<Rightarrow> AccessContextV1 option \<Rightarrow> string \<Rightarrow> pydict \<Rightarrow> Decision" where
  "authorize_operation pol ctx operation scope = (case pol of
     TrustedOwner \<Rightarrow> allow []
   | FailClosed p \<Rightarrow> fail_closed_deny p
   | Teams p \<Rightarrow> fst (teams_authorize_operation p ctx operation scope []))"

definition resolve_authorized_targets ::
  "policy_kind \<Rightarrow> AccessContextV1 option \<Rightarrow> string \<Rightarrow> pydict \<Rightarrow> pydict" where
  "resolve_authorized_targets pol ctx operation requested = (case pol of
     TrustedOwner \<Rightarrow> requested
   | FailClosed p \<Rightarrow> fail_closed_resolve requested
   | Teams p \<Rightarrow> teams_resolve_authorized_targets p ctx operation requested)"

definition authorize_stored_scope ::
  "policy_kind \<Rightarrow> AccessContextV1 option \<Rightarrow> string \<Rightarrow> pydict \<Rightarrow> Decision" where
  "authorize_stored_scope pol ctx operation stored = (case pol of
     TrustedOwner \<Rightarrow> allow []
   | FailClosed p \<Rightarrow> fail_closed_deny p
   | Teams p \<Rightarrow> teams_authorize_stored_scope p ctx operation stored)"

text \<open>The disclosure primitives: the fail-closed policy raises, the others pass their argument through.\<close>

datatype 'a disclosure = AuthorizationRequired string DenialReason | Disclosed 'a

definition disclose :: "policy_kind \<Rightarrow> string \<Rightarrow> 'a \<Rightarrow> 'a disclosure" where
  "disclose pol primitive v = (case pol of
     FailClosed p \<Rightarrow> AuthorizationRequired primitive (PUBLIC_DENIAL_PROJECTION (fc_denial_reason p))
   | _ \<Rightarrow> Disclosed v)"

section \<open>Resolution\<close>

datatype carrier = NoContext | Carried AccessContextV1 | OtherObject

record revisions =
  rev_policy :: int
  rev_membership :: int
  rev_epoch :: int

record principal_row =
  pr_tenant_id :: string
  pr_status :: string

datatype owner_table = TableAbsent | CatalogUnreadable | TableUnreadable | TableStamps "string list"

text \<open>What the engine's store answers; \<open>Inl ()\<close> is a raised exception.\<close>

record store_view =
  sv_catalog_exists :: "unit + bool"
  sv_read_revisions :: "string \<Rightarrow> unit + revisions"
  sv_read_principal :: "string \<Rightarrow> unit + principal_row option"
  sv_owner_tables :: "string \<Rightarrow> owner_table list"

record engine_view =
  ev_teams_enabled :: bool
  ev_access_context :: "carrier option"
  ev_store :: "store_view option"

definition policy_access_context :: "engine_view \<Rightarrow> carrier" where
  "policy_access_context eng = (case ev_access_context eng of None \<Rightarrow> NoContext | Some c \<Rightarrow> c)"

datatype catalog_lookup = LOOKUP_OK revisions | UNREADABLE | NOT_STORE_BACKED

definition catalog_revisions :: "engine_view \<Rightarrow> AccessContextV1 \<Rightarrow> catalog_lookup" where
  "catalog_revisions eng c = (case ev_store eng of
     None \<Rightarrow> NOT_STORE_BACKED
   | Some sv \<Rightarrow>
       (case sv_catalog_exists sv of
          Inl _ \<Rightarrow> UNREADABLE
        | Inr False \<Rightarrow> UNREADABLE
        | Inr True \<Rightarrow> (case sv_read_revisions sv (tenant_id c) of Inl _ \<Rightarrow> UNREADABLE | Inr r \<Rightarrow> LOOKUP_OK r)))"

definition principal_denial :: "store_view \<Rightarrow> string \<Rightarrow> string \<Rightarrow> DenialReason option" where
  "principal_denial sv pid tid = (case sv_read_principal sv pid of
     Inl _ \<Rightarrow> Some CONTEXT_INVALID
   | Inr None \<Rightarrow> Some CONTEXT_INVALID
   | Inr (Some row) \<Rightarrow>
       if pr_tenant_id row \<noteq> tid then Some CONTEXT_INVALID
       else if pr_status row \<noteq> ''active'' then Some CONTEXT_REVOKED
       else None)"

definition catalog_principal_denial :: "engine_view \<Rightarrow> AccessContextV1 \<Rightarrow> DenialReason option" where
  "catalog_principal_denial eng c = (case ev_store eng of
     None \<Rightarrow> None
   | Some sv \<Rightarrow>
       (case principal_denial sv (principal_id c) (tenant_id c) of
          Some reason \<Rightarrow> Some reason
        | None \<Rightarrow>
            if session_owner_principal_id c \<noteq> [] \<and> session_owner_principal_id c \<noteq> principal_id c
            then principal_denial sv (session_owner_principal_id c) (tenant_id c)
            else None))"

text \<open>\<open>OwnerLookupError\<close> is \<open>Inl ()\<close>.\<close>

fun collect_owners :: "owner_table list \<Rightarrow> string set \<Rightarrow> nat \<Rightarrow> unit + (string set \<times> nat)" where
  "collect_owners [] owners readable = Inr (owners, readable)"
| "collect_owners (t # ts) owners readable = (case t of
     CatalogUnreadable \<Rightarrow> Inl ()
   | TableAbsent \<Rightarrow> collect_owners ts owners readable
   | TableUnreadable \<Rightarrow> Inl ()
   | TableStamps stamps \<Rightarrow> collect_owners ts (owners \<union> set stamps) (Suc readable))"

definition resolve_session_owner :: "store_view \<Rightarrow> owner_callback" where
  "resolve_session_owner sv sid = (case collect_owners (sv_owner_tables sv sid) {} 0 of
     Inl _ \<Rightarrow> Inl ()
   | Inr (owners, readable) \<Rightarrow>
       if readable = 0 then Inl ()
       else if 1 < card owners then Inl ()
       else Inr (if owners = {} then None else Some (Min owners)))"

definition session_owner_for_engine :: "engine_view \<Rightarrow> owner_callback option" where
  "session_owner_for_engine eng = map_option resolve_session_owner (ev_store eng)"

definition resolution_state :: "timestamp \<Rightarrow> revisions option \<Rightarrow> validation_state" where
  "resolution_state now revs =
     \<lparr>v_required_scope = {}, v_now = now, v_revoked = False, v_revoked_context_ids = {},
      v_policy_revision = map_option rev_policy revs, v_membership_revision = map_option rev_membership revs,
      v_revocation_epoch = map_option rev_epoch revs, v_ownership_generation = None, v_lease_id = None,
      v_lease_generation = None, v_expected_principal_id = None, v_expected_request_id = None,
      v_expected_context_id = None, v_expected_lease_id = None, v_requested_collections = None,
      v_target_allowed = None\<rparr>"

definition carrier_mode :: "carrier \<Rightarrow> bool \<Rightarrow> ResolutionMode" where
  "carrier_mode c teams_enabled =
     (if \<not> teams_enabled then STANDARD_UNMANAGED else if c \<noteq> NoContext then ENFORCING else FAIL_CLOSED)"

definition resolve_policy ::
  "carrier \<Rightarrow> bool \<Rightarrow> timestamp \<Rightarrow> revisions option \<Rightarrow> owner_callback option \<Rightarrow> policy_kind" where
  "resolve_policy carried teams_enabled now revs session_owner = (case carrier_mode carried teams_enabled of
     STANDARD_UNMANAGED \<Rightarrow> TrustedOwner
   | FAIL_CLOSED \<Rightarrow> FailClosed (fail_closed_policy CONTEXT_MISSING None)
   | ENFORCING \<Rightarrow>
       (case carried of
          Carried c \<Rightarrow>
            (case validate (resolution_state now revs) (Some c) of
               Allow _ \<Rightarrow> Teams \<lparr>tp_context = Some c, tp_session_owner = session_owner\<rparr>
             | Deny reason _ \<Rightarrow> FailClosed (fail_closed_policy reason (Some c)))
        | _ \<Rightarrow> FailClosed (fail_closed_policy CONTEXT_INVALID None)))"

definition policy_for_engine :: "timestamp \<Rightarrow> engine_view \<Rightarrow> policy_kind" where
  "policy_for_engine now eng =
     (if \<not> ev_teams_enabled eng then resolve_policy NoContext False now None None
      else (case policy_access_context eng of
              Carried c \<Rightarrow>
                (case catalog_revisions eng c of
                   UNREADABLE \<Rightarrow> FailClosed (fail_closed_policy CONTEXT_INVALID (Some c))
                 | lookup \<Rightarrow>
                     (case catalog_principal_denial eng c of
                        Some reason \<Rightarrow> FailClosed (fail_closed_policy reason (Some c))
                      | None \<Rightarrow> resolve_policy (Carried c) True now
                                 (case lookup of LOOKUP_OK r \<Rightarrow> Some r | _ \<Rightarrow> None) (session_owner_for_engine eng)))
            | other \<Rightarrow> resolve_policy other True now None None))"

section \<open>The consumer protocol\<close>

text \<open>
  What every policy owes its callers: resolving targets twice changes nothing, so a layered caller
  cannot grow its authority, and a stored row is disclosed only if its stamp is missing or one the
  policy may disclose.
\<close>

locale authorization_consumer =
  fixes resolve :: "pydict \<Rightarrow> pydict"
    and stored :: "pydict \<Rightarrow> Decision"
    and may_disclose :: "string \<Rightarrow> bool"
  assumes resolve_idempotent: "resolve (resolve requested) = resolve requested"
    and stored_stamp: "allowed (stored scope) \<Longrightarrow> pget scope ''access_scope'' \<noteq> PNone \<Longrightarrow>
      may_disclose (py_str (pget scope ''access_scope''))"
begin

lemma resolve_layers: "(resolve ^^ Suc n) requested = resolve requested"
proof (induction n)
  case (Suc n)
  then show ?case using resolve_idempotent by simp
qed simp

lemma disclosed_rows:
  "\<forall>row \<in> set (filter (\<lambda>row. allowed (stored row)) rows).
     pget row ''access_scope'' = PNone \<or> may_disclose (py_str (pget row ''access_scope''))"
  using stored_stamp by auto

end

lemma py_iter_str_list: "set (map py_str (py_iter (str_list xs))) = set (sorted_list_of_set xs)"
  by (simp add: str_list_def comp_def)

lemma teams_resolve_twice:
  "teams_resolve_authorized_targets p ctx op1 (teams_resolve_authorized_targets p ctx op2 requested) =
   teams_resolve_authorized_targets p ctx op2 requested"
proof (cases "effective_context p ctx")
  case CONTEXT_NOT_BOUND
  then show ?thesis by (simp add: teams_resolve_authorized_targets_def dset_same)
next
  case (Effective e)
  let ?C = "policy_collections e"
  show ?thesis
  proof (cases "principal_of e = [] \<or> ?C = {}")
    case True
    with Effective show ?thesis
      by (auto simp: teams_resolve_authorized_targets_def Let_def dset_same)
  next
    case False
    define kept where "kept = (if map_of requested ''collection_allowlist'' \<noteq> None
        then ?C \<inter> set (map py_str (py_iter (pget requested ''collection_allowlist''))) else ?C)"
    define once where "once = teams_resolve_authorized_targets p ctx op2 requested"
    have once: "once = dset ''collection_allowlist'' (str_list kept) (dset ''access_scope'' (PStr (principal_of e)) requested)"
      using Effective False by (simp add: once_def teams_resolve_authorized_targets_def kept_def Let_def)
    have sub: "kept \<subseteq> ?C" by (auto simp: kept_def)
    have again: "str_list (?C \<inter> set (map py_str (py_iter (str_list kept)))) = str_list kept"
    proof (cases "finite kept")
      case True
      with sub have "?C \<inter> set (sorted_list_of_set kept) = kept" by auto
      then show ?thesis unfolding py_iter_str_list by simp
    next
      case False
      then show ?thesis unfolding py_iter_str_list by (simp add: str_list_def)
    qed
    have "teams_resolve_authorized_targets p ctx op1 once =
        dset ''collection_allowlist'' (str_list (?C \<inter> set (map py_str (py_iter (str_list kept)))))
          (dset ''access_scope'' (PStr (principal_of e)) once)"
      using Effective False by (simp add: teams_resolve_authorized_targets_def Let_def once)
    also have "\<dots> = once" unfolding again by (simp add: dset_same once)
    finally show ?thesis by (simp add: once_def)
  qed
qed

definition policy_may_disclose :: "policy_kind \<Rightarrow> AccessContextV1 option \<Rightarrow> string \<Rightarrow> bool" where
  "policy_may_disclose pol ctx owner = (case pol of
     TrustedOwner \<Rightarrow> True
   | FailClosed _ \<Rightarrow> False
   | Teams p \<Rightarrow> owner \<noteq> [] \<and> owner = principal_of (tp_context p))"

lemma effective_principal: "effective_context p ctx = Effective e \<Longrightarrow> e = tp_context p"
  by (auto simp: effective_context_def split: if_splits)

interpretation consumer: authorization_consumer "resolve_authorized_targets pol ctx op"
    "authorize_stored_scope pol ctx op" "policy_may_disclose pol ctx"
  for pol :: policy_kind and ctx :: "AccessContextV1 option" and op :: string
proof
  show "resolve_authorized_targets pol ctx op (resolve_authorized_targets pol ctx op requested)
      = resolve_authorized_targets pol ctx op requested" for requested
    by (simp add: resolve_authorized_targets_def teams_resolve_twice fail_closed_resolve_def split: policy_kind.splits)
  show "policy_may_disclose pol ctx (py_str (pget scope ''access_scope''))"
    if "allowed (authorize_stored_scope pol ctx op scope)" "pget scope ''access_scope'' \<noteq> PNone" for scope
    using that
    by (auto simp: authorize_stored_scope_def policy_may_disclose_def teams_authorize_stored_scope_def
        fail_closed_deny_def deny_def allow_def dest: effective_principal split: policy_kind.splits effective.splits if_splits)
qed

section \<open>Fail closed\<close>

lemma catalog_active_principals:
  assumes "catalog_principal_denial eng c = None" "ev_store eng = Some sv"
  shows "\<forall>who \<in> {principal_id c, principal_of (Some c)}.
    sv_read_principal sv who = Inr (Some \<lparr>pr_tenant_id = tenant_id c, pr_status = ''active''\<rparr>)"
proof -
  have active: "sv_read_principal sv who = Inr (Some \<lparr>pr_tenant_id = t, pr_status = ''active''\<rparr>)"
    if "principal_denial sv who t = None" for who t
    using that by (auto simp: principal_denial_def split: sum.splits option.splits if_splits)
  show ?thesis
    using assms active by (auto simp: catalog_principal_denial_def principal_of_def split: option.splits if_splits)
qed

lemma fail_closed_denies:
  "\<not> allowed (authorize_operation (FailClosed p) ctx op scope)"
  "\<not> allowed (authorize_stored_scope (FailClosed p) ctx op scope)"
  "resolve_authorized_targets (FailClosed p) ctx op scope = []"
  by (simp_all add: authorize_operation_def authorize_stored_scope_def resolve_authorized_targets_def
      fail_closed_deny_def fail_closed_resolve_def deny_def)

lemma resolve_policy_Teams:
  assumes "resolve_policy carried True now revs owner = Teams p"
  shows "\<exists>c. carried = Carried c \<and> tp_context p = Some c \<and> allowed (validate (resolution_state now revs) (Some c)) \<and> tp_session_owner p = owner"
  using assms by (auto simp: resolve_policy_def carrier_mode_def split: carrier.splits Decision.splits if_splits)

lemma resolve_policy_not_trusted: "resolve_policy carried True now revs owner \<noteq> TrustedOwner"
  by (simp add: resolve_policy_def carrier_mode_def split: carrier.splits Decision.splits)

text \<open>
  C34: Teams fails closed.  An engine without Teams gets the trusted-owner policy and one with Teams
  enabled never does.  An engine with a store gets the per-principal policy only for a carried context that passes
  every validation stage against the catalog's current revisions and whose acting principal and session owner
  the catalog holds as active in the context's tenant.  An engine without a store, a mere carrier of a context, gets
  it when the context passes validation by itself: there neither principals nor revocation are checked.  A missing
  context, a foreign object, an unreadable catalog or any failed stage yields a policy that denies every
  operation and every row.
\<close>

theorem policy_for_engine_fail_closed:
  "case policy_for_engine now eng of
     TrustedOwner \<Rightarrow> \<not> ev_teams_enabled eng
   | FailClosed p \<Rightarrow> ev_teams_enabled eng
       \<and> (\<forall>ctx op scope. \<not> allowed (authorize_operation (FailClosed p) ctx op scope)
            \<and> \<not> allowed (authorize_stored_scope (FailClosed p) ctx op scope)
            \<and> resolve_authorized_targets (FailClosed p) ctx op scope = [])
   | Teams p \<Rightarrow> ev_teams_enabled eng \<and>
       (\<exists>c. policy_access_context eng = Carried c \<and> tp_context p = Some c \<and>
          (case ev_store eng of
             None \<Rightarrow> allowed (validate (resolution_state now None) (Some c))
           | Some sv \<Rightarrow> \<exists>revs. sv_catalog_exists sv = Inr True \<and> sv_read_revisions sv (tenant_id c) = Inr revs
               \<and> allowed (validate (resolution_state now (Some revs)) (Some c))
               \<and> (\<forall>who \<in> {principal_id c, principal_of (Some c)}.
                    sv_read_principal sv who = Inr (Some \<lparr>pr_tenant_id = tenant_id c, pr_status = ''active''\<rparr>))))"
proof (cases "ev_teams_enabled eng")
  case False
  then show ?thesis by (simp add: policy_for_engine_def resolve_policy_def carrier_mode_def)
next
  case True
  show ?thesis
  proof (cases "policy_for_engine now eng")
    case TrustedOwner
    with True resolve_policy_not_trusted show ?thesis
      by (auto simp: policy_for_engine_def split: carrier.splits catalog_lookup.splits option.splits)
  next
    case (FailClosed p)
    with True fail_closed_denies show ?thesis by simp
  next
    case (Teams p)
    obtain c revs where c: "policy_access_context eng = Carried c" "catalog_principal_denial eng c = None"
      "catalog_revisions eng c \<noteq> UNREADABLE"
      and pol: "resolve_policy (Carried c) True now
         (case catalog_revisions eng c of LOOKUP_OK r \<Rightarrow> Some r | _ \<Rightarrow> None) (session_owner_for_engine eng) = Teams p"
      using Teams True resolve_policy_Teams[of NoContext now None None p] resolve_policy_Teams[of OtherObject now None None p]
      by (auto simp: policy_for_engine_def split: carrier.splits catalog_lookup.splits option.splits)
    from resolve_policy_Teams[OF pol] c(3) catalog_active_principals[OF c(2)] c(1) Teams True show ?thesis
      by (auto simp: catalog_revisions_def split: option.splits sum.splits bool.splits)
  qed
qed

theorem policy_for_engine_fail_closed_witness:
  "\<exists>p. policy_for_engine 5 \<lparr>ev_teams_enabled = True, ev_access_context = None, ev_store = None\<rparr> = FailClosed p
     \<and> \<not> allowed (authorize_operation (FailClosed p) (Some sample_context) ''read'' [])"
proof -
  let ?eng = "\<lparr>ev_teams_enabled = True, ev_access_context = None, ev_store = None\<rparr>"
  have "policy_for_engine 5 ?eng = FailClosed (fail_closed_policy CONTEXT_MISSING None)"
    by (simp add: policy_for_engine_def policy_access_context_def resolve_policy_def carrier_mode_def)
  with policy_for_engine_fail_closed[where now = 5 and eng = ?eng] show ?thesis by auto
qed

section \<open>Isolation\<close>

lemma target_owner_answer:
  assumes "\<forall>(sid, answer) \<in> set cache. answer = fst (target_owner p sid [])"
  shows "fst (target_owner p sid cache) = fst (target_owner p sid [])"
    and "\<forall>(s, answer) \<in> set (snd (target_owner p sid cache)). answer = fst (target_owner p s [])"
proof -
  show "fst (target_owner p sid cache) = fst (target_owner p sid [])"
  proof (cases "tp_session_owner p")
    case (Some callback)
    show ?thesis
    proof (cases "map_of cache sid")
      case (Some answer)
      with assms map_of_SomeD[OF Some] have "answer = fst (target_owner p sid [])" by fastforce
      with Some \<open>tp_session_owner p = Some callback\<close> show ?thesis by (simp add: target_owner_def)
    qed (simp add: target_owner_def Some Let_def)
  qed (simp add: target_owner_def)
  then show "\<forall>(s, answer) \<in> set (snd (target_owner p sid cache)). answer = fst (target_owner p s [])"
    using assms by (auto simp: target_owner_def Let_def split: option.splits)
qed

lemma check_targets_ok:
  assumes "\<forall>(sid, answer) \<in> set cache. answer = fst (target_owner p sid [])"
    and "check_targets p who scope keys cache = (None, cache')"
  shows "\<forall>key \<in> set keys. truthy (pget scope key) \<longrightarrow>
    fst (target_owner p (py_str (pget scope key)) []) \<in> {TargetOwner None, TargetOwner (Some who)}"
  using assms
proof (induction keys arbitrary: cache)
  case (Cons key keys)
  show ?case
  proof (cases "truthy (pget scope key)")
    case False
    with Cons show ?thesis by auto
  next
    case True
    let ?t = "py_str (pget scope key)"
    obtain answer cache1 where t: "target_owner p ?t cache = (answer, cache1)" by (cases "target_owner p ?t cache")
    with target_owner_answer[OF Cons.prems(1), of ?t] have a: "answer = fst (target_owner p ?t [])"
      and c1: "\<forall>(s, answer) \<in> set cache1. answer = fst (target_owner p s [])" by simp_all
    from Cons.prems(2) True t obtain owner where o: "answer = TargetOwner owner" "owner = None \<or> owner = Some who"
      "check_targets p who scope keys cache1 = (None, cache')"
      by (auto split: owner_answer.splits if_splits)
    from Cons.IH[OF c1 o(3)] o a show ?thesis by auto
  qed
qed simp

text \<open>What an allowed operation has passed, whatever the policy's owner lookup.\<close>

lemma teams_allow_facts:
  assumes "allowed (authorize_operation (Teams p) ctx operation scope)"
  shows "\<exists>c. tp_context p = Some c \<and> (ctx = None \<or> ctx = Some c) \<and> principal_of (Some c) \<noteq> []
    \<and> (operation_allowlist c = {} \<or> requested_vocabulary operation scope \<subseteq> operation_allowlist c)
    \<and> scope_str scope ''kind'' \<notin> STORE_WIDE_KINDS \<and> scope_str scope ''required_scope'' \<notin> ADMIN_REQUIRED_SCOPES
    \<and> (\<forall>key \<in> {''session_id'', ''source_session_id'', ''partition_key''}. truthy (pget scope key) \<longrightarrow>
         fst (target_owner p (py_str (pget scope key)) []) \<in> {TargetOwner None, TargetOwner (Some (principal_of (Some c)))})
    \<and> (\<forall>owner \<in> set (py_iter (pget scope ''target_access_scopes'')). py_str owner = principal_of (Some c))
    \<and> (collection_allowlist c = {} \<or> pget scope ''collection_id'' = PNone
         \<or> py_str (pget scope ''collection_id'') \<in> collection_allowlist c)"
proof -
  from assms obtain e where eff: "effective_context p ctx = Effective e"
    by (cases "effective_context p ctx") (auto simp: authorize_operation_def teams_authorize_operation_def deny_def)
  then have e: "e = tp_context p" by (rule effective_principal)
  obtain c where c: "tp_context p = Some c"
    using assms eff e by (cases "tp_context p")
      (auto simp: authorize_operation_def teams_authorize_operation_def deny_def principal_of_def Let_def)
  have ctx: "ctx = None \<or> ctx = Some c" using eff c by (auto simp: effective_context_def split: if_splits)
  obtain r cache' where ct: "check_targets p (principal_of (Some c)) scope TARGET_KEYS [] = (r, cache')"
    by (cases "check_targets p (principal_of (Some c)) scope TARGET_KEYS []")
  have all: "principal_of (Some c) \<noteq> []" "r = None"
    "operation_allowlist c = {} \<or> requested_vocabulary operation scope \<subseteq> operation_allowlist c"
    "scope_str scope ''kind'' \<notin> STORE_WIDE_KINDS" "scope_str scope ''required_scope'' \<notin> ADMIN_REQUIRED_SCOPES"
    "\<forall>owner \<in> set (py_iter (pget scope ''target_access_scopes'')). py_str owner = principal_of (Some c)"
    "collection_allowlist c = {} \<or> pget scope ''collection_id'' = PNone
         \<or> py_str (pget scope ''collection_id'') \<in> collection_allowlist c"
    using assms eff e c ct
    by (auto simp: authorize_operation_def teams_authorize_operation_def policy_operations_def policy_collections_def
        deny_def Let_def split: if_splits option.splits)
  from check_targets_ok[of "[]" p "principal_of (Some c)" scope TARGET_KEYS cache'] ct all(2)
  have "\<forall>key \<in> set TARGET_KEYS. truthy (pget scope key) \<longrightarrow>
    fst (target_owner p (py_str (pget scope key)) []) \<in> {TargetOwner None, TargetOwner (Some (principal_of (Some c)))}" by simp
  with c ctx all show ?thesis by (auto simp: TARGET_KEYS_def)
qed

lemma target_owner_of_callback:
  assumes "tp_session_owner p = Some callback" "who \<noteq> []"
    and "fst (target_owner p sid []) \<in> {TargetOwner None, TargetOwner (Some who)}"
  shows "callback sid \<in> {Inr None, Inr (Some []), Inr (Some who)}"
proof (cases "callback sid")
  case (Inl e)
  then show ?thesis using assms by (simp add: target_owner_def Let_def)
next
  case (Inr owner)
  then show ?thesis using assms by (cases owner) (auto simp: target_owner_def Let_def split: if_splits)
qed

lemma policy_for_engine_Teams:
  assumes "policy_for_engine now eng = Teams p"
  shows "\<exists>c. policy_access_context eng = Carried c \<and> tp_context p = Some c \<and> tp_session_owner p = session_owner_for_engine eng"
  using assms resolve_policy_Teams[of _ now _ _ p] resolve_policy_Teams[of NoContext now None None p] resolve_policy_Teams[of OtherObject now None None p]
  by (auto simp: policy_for_engine_def resolve_policy_def[of NoContext False] carrier_mode_def
      split: if_splits carrier.splits catalog_lookup.splits option.splits dest!: resolve_policy_Teams)

text \<open>
  C35: What the Teams policy of an engine with a store allows is the principal's own.  The operation was asked with no
  context or with the engine's own; it is within the context's operation allowlist and inside its collection
  allowlist where these are not empty (an empty allowlist does not restrict);
  it is neither store-wide nor administrative; every session it names as a target has an owner that the store could
  read and that is the principal or nobody, and every row owner it names is the principal.
\<close>

theorem teams_allow_means_own_targets:
  assumes "policy_for_engine now eng = Teams p" "ev_store eng = Some sv"
    and "allowed (authorize_operation (Teams p) ctx operation scope)"
  shows "\<exists>c. policy_access_context eng = Carried c \<and> (ctx = None \<or> ctx = Some c) \<and> principal_of (Some c) \<noteq> []
    \<and> (operation_allowlist c \<noteq> {} \<longrightarrow> requested_vocabulary operation scope \<subseteq> operation_allowlist c)
    \<and> (collection_allowlist c \<noteq> {} \<and> pget scope ''collection_id'' \<noteq> PNone \<longrightarrow> py_str (pget scope ''collection_id'') \<in> collection_allowlist c)
    \<and> scope_str scope ''kind'' \<notin> STORE_WIDE_KINDS \<and> scope_str scope ''required_scope'' \<notin> ADMIN_REQUIRED_SCOPES
    \<and> (\<forall>key \<in> {''session_id'', ''source_session_id'', ''partition_key''}. truthy (pget scope key) \<longrightarrow>
         resolve_session_owner sv (py_str (pget scope key)) \<in> {Inr None, Inr (Some []), Inr (Some (principal_of (Some c)))})
    \<and> (\<forall>owner \<in> set (py_iter (pget scope ''target_access_scopes'')). py_str owner = principal_of (Some c))"
proof -
  obtain c where c: "policy_access_context eng = Carried c" "tp_context p = Some c" "tp_session_owner p = Some (resolve_session_owner sv)"
    using policy_for_engine_Teams[OF assms(1)] assms(2) by (auto simp: session_owner_for_engine_def)
  obtain c' where f: "tp_context p = Some c'" "ctx = None \<or> ctx = Some c'" "principal_of (Some c') \<noteq> []"
    "operation_allowlist c' = {} \<or> requested_vocabulary operation scope \<subseteq> operation_allowlist c'"
    "scope_str scope ''kind'' \<notin> STORE_WIDE_KINDS" "scope_str scope ''required_scope'' \<notin> ADMIN_REQUIRED_SCOPES"
    "\<forall>key \<in> {''session_id'', ''source_session_id'', ''partition_key''}. truthy (pget scope key) \<longrightarrow>
         fst (target_owner p (py_str (pget scope key)) []) \<in> {TargetOwner None, TargetOwner (Some (principal_of (Some c')))}"
    "\<forall>owner \<in> set (py_iter (pget scope ''target_access_scopes'')). py_str owner = principal_of (Some c')"
    "collection_allowlist c' = {} \<or> pget scope ''collection_id'' = PNone \<or> py_str (pget scope ''collection_id'') \<in> collection_allowlist c'"
    using teams_allow_facts[OF assms(3)] by blast
  have "c' = c" using f(1) c(2) by simp
  moreover have "resolve_session_owner sv (py_str (pget scope key)) \<in> {Inr None, Inr (Some []), Inr (Some (principal_of (Some c')))}"
    if "key \<in> {''session_id'', ''source_session_id'', ''partition_key''}" "truthy (pget scope key)" for key
    by (rule target_owner_of_callback[OF c(3) f(3)]) (use f(7) that in blast)
  ultimately show ?thesis using c(1) f by (intro exI[of _ c]) auto
qed

text \<open>A store that knows the principal \<open>p\<close> as active and stamps every session with it.\<close>

definition sample_store_view :: store_view where
  "sample_store_view = \<lparr>sv_catalog_exists = Inr True, sv_read_revisions = (\<lambda>_. Inr \<lparr>rev_policy = 1, rev_membership = 1, rev_epoch = 1\<rparr>),
     sv_read_principal = (\<lambda>_. Inr (Some \<lparr>pr_tenant_id = ''t'', pr_status = ''active''\<rparr>)), sv_owner_tables = (\<lambda>_. [TableStamps [''p'']])\<rparr>"

definition sample_engine :: engine_view where
  "sample_engine = \<lparr>ev_teams_enabled = True, ev_access_context = Some (Carried sample_context), ev_store = Some sample_store_view\<rparr>"

definition sample_policy :: TeamsPolicy where
  "sample_policy = \<lparr>tp_context = Some sample_context, tp_session_owner = Some (resolve_session_owner sample_store_view)\<rparr>"

lemma sample_engine_policy: "policy_for_engine 5 sample_engine = Teams sample_policy"
proof -
  have "allowed (validate (resolution_state 5 (Some \<lparr>rev_policy = 1, rev_membership = 1, rev_epoch = 1\<rparr>)) (Some sample_context))" by code_simp
  then obtain x where "validate (resolution_state 5 (Some \<lparr>rev_policy = 1, rev_membership = 1, rev_epoch = 1\<rparr>)) (Some sample_context) = Allow x"
    by (cases "validate (resolution_state 5 (Some \<lparr>rev_policy = 1, rev_membership = 1, rev_epoch = 1\<rparr>)) (Some sample_context)") auto
  moreover have "principal_id sample_context = ''p''" "tenant_id sample_context = ''t''" "session_owner_principal_id sample_context = ''p''"
    by (simp_all add: sample_context_def)
  ultimately show ?thesis
    by (simp add: policy_for_engine_def sample_engine_def policy_access_context_def catalog_revisions_def catalog_principal_denial_def principal_denial_def
        sample_store_view_def resolve_policy_def carrier_mode_def session_owner_for_engine_def sample_policy_def)
qed

lemma sample_policy_allows: "allowed (authorize_operation (Teams sample_policy) None ''read'' [(''session_id'', PStr ''s2'')])"
  by code_simp

theorem teams_allow_means_own_targets_witness:
  "resolve_session_owner sample_store_view ''s2'' \<in> {Inr None, Inr (Some []), Inr (Some ''p'')}"
proof -
  let ?scope = "[(''session_id'', PStr ''s2'')]"
  have s: "ev_store sample_engine = Some sample_store_view" "policy_access_context sample_engine = Carried sample_context"
    by (simp_all add: sample_engine_def policy_access_context_def)
  have "truthy (pget ?scope ''session_id'')" "py_str (pget ?scope ''session_id'') = ''s2''" "principal_of (Some sample_context) = ''p''"
    by (simp_all add: pget_def principal_of_def sample_context_def)
  then show ?thesis using teams_allow_means_own_targets[OF sample_engine_policy s(1) sample_policy_allows] s(2) by auto
qed

text \<open>
  Stored rows are isolated.  Of any rows offered to it, the Teams policy lets through only rows
  stamped with its own principal and legacy rows without a stamp, and the fail-closed policy none.
\<close>

theorem stored_rows_isolated:
  assumes "row \<in> set (filter (\<lambda>row. allowed (authorize_stored_scope pol ctx op row)) rows)"
  shows "case pol of
      TrustedOwner \<Rightarrow> True
    | FailClosed _ \<Rightarrow> False
    | Teams p \<Rightarrow> principal_of (tp_context p) \<noteq> []
        \<and> (pget row ''access_scope'' = PNone \<or> py_str (pget row ''access_scope'') = principal_of (tp_context p))"
proof (cases pol)
  case (FailClosed p)
  with assms show ?thesis by (simp add: authorize_stored_scope_def fail_closed_deny_def deny_def)
next
  case (Teams p)
  with assms have "principal_of (tp_context p) \<noteq> []"
    by (auto simp: authorize_stored_scope_def teams_authorize_stored_scope_def deny_def dest: effective_principal
        split: effective.splits if_splits)
  with Teams assms consumer.disclosed_rows[of pol ctx op rows] show ?thesis
    by (auto simp: policy_may_disclose_def)
qed simp

theorem stored_rows_isolated_witness:
  "\<not> allowed (authorize_stored_scope (Teams sample_policy) None ''read'' [(''access_scope'', PStr ''other'')])"
proof
  let ?row = "[(''access_scope'', PStr ''other'')]"
  assume "allowed (authorize_stored_scope (Teams sample_policy) None ''read'' ?row)"
  then have "?row \<in> set (filter (\<lambda>row. allowed (authorize_stored_scope (Teams sample_policy) None ''read'' row)) [?row])"
    by simp
  from stored_rows_isolated[OF this] show False
    by (simp add: sample_policy_def principal_of_def sample_context_def pget_def)
qed

text \<open>
  Resolving targets never widens.  Every policy's resolution is stable under any number of layers;
  and the Teams policy sets the owner predicate to the context's principal and, when the context names
  collections, a collection list inside both the context's and, if the caller gave one, the caller's.
\<close>

theorem resolve_targets_never_widens:
  "(resolve_authorized_targets pol ctx op ^^ Suc n) requested = resolve_authorized_targets pol ctx op requested
   \<and> (case pol of
        Teams p \<Rightarrow> (case effective_context p ctx of
          CONTEXT_NOT_BOUND \<Rightarrow> pget (resolve_authorized_targets pol ctx op requested) ''collection_allowlist'' = PList []
        | Effective e \<Rightarrow> principal_of e = [] \<or>
            (pget (resolve_authorized_targets pol ctx op requested) ''access_scope'' = PStr (principal_of e)
             \<and> (policy_collections e = {} \<or>
                  (\<exists>kept. pget (resolve_authorized_targets pol ctx op requested) ''collection_allowlist'' = str_list kept
                     \<and> kept \<subseteq> policy_collections e
                     \<and> (map_of requested ''collection_allowlist'' = None
                        \<or> kept \<subseteq> set (map py_str (py_iter (pget requested ''collection_allowlist''))))))))
      | _ \<Rightarrow> True)"
proof (rule conjI)
  show "(resolve_authorized_targets pol ctx op ^^ Suc n) requested = resolve_authorized_targets pol ctx op requested"
    by (rule consumer.resolve_layers)
qed (auto simp: resolve_authorized_targets_def teams_resolve_authorized_targets_def Let_def
      split: policy_kind.splits effective.splits)

lemma collect_owners_result:
  "collect_owners ts owners n =
     (if CatalogUnreadable \<in> set ts \<or> TableUnreadable \<in> set ts then Inl ()
      else Inr (owners \<union> \<Union> {set s | s. TableStamps s \<in> set ts}, n + length (filter (\<lambda>t. t \<noteq> TableAbsent) ts)))"
  by (induction ts owners n rule: collect_owners.induct) (auto split: owner_table.splits)

lemma two_elements:
  assumes "finite A" "1 < card A" shows "\<exists>a b. a \<noteq> b \<and> a \<in> A \<and> b \<in> A"
proof (rule ccontr)
  assume "\<not> ?thesis"
  then have "\<forall>a \<in> A. \<forall>b \<in> A. a = b" by blast
  then have "card A \<le> Suc 0" by (simp add: card_le_Suc0_iff_eq[OF assms(1)])
  with assms(2) show False by simp
qed

lemma one_element:
  fixes A :: "string set"
  assumes "finite A" "\<not> 1 < card A" "A \<noteq> {}" shows "A = {Min A}"
proof -
  have "card A \<noteq> 0" using assms(1,3) by simp
  with assms(2) have "card A = 1" by linarith
  then obtain x where "A = {x}" by (rule card_1_singletonE)
  then show ?thesis by simp
qed

text \<open>
  The stored owner of a session is never guessed.  The resolver answers an owner only if every
  readable owner table that exists stamps the session with that owner alone, answers nobody only if at
  least one table exists and none carries a stamp, and raises as soon as a table that exists cannot be
  read or two stamps disagree.
\<close>

theorem session_owner_never_guessed:
  "case resolve_session_owner sv sid of
     Inl _ \<Rightarrow> CatalogUnreadable \<in> set (sv_owner_tables sv sid) \<or> TableUnreadable \<in> set (sv_owner_tables sv sid)
        \<or> set (sv_owner_tables sv sid) \<subseteq> {TableAbsent}
        \<or> (\<exists>a b s t. a \<noteq> b \<and> a \<in> set s \<and> b \<in> set t \<and> TableStamps s \<in> set (sv_owner_tables sv sid)
             \<and> TableStamps t \<in> set (sv_owner_tables sv sid))
   | Inr owner \<Rightarrow> set (sv_owner_tables sv sid) \<subseteq> {TableAbsent} \<union> range TableStamps
        \<and> \<not> set (sv_owner_tables sv sid) \<subseteq> {TableAbsent}
        \<and> \<Union> {set s | s. TableStamps s \<in> set (sv_owner_tables sv sid)} = (case owner of None \<Rightarrow> {} | Some o' \<Rightarrow> {o'})"
proof -
  let ?ts = "sv_owner_tables sv sid"
  let ?O = "\<Union> {set s | s. TableStamps s \<in> set ?ts}"
  have "{set s | s. TableStamps s \<in> set ?ts} \<subseteq> (\<lambda>t. case t of TableStamps s \<Rightarrow> set s | _ \<Rightarrow> {}) ` set ?ts"
    by (force split: owner_table.splits)
  then have "finite {set s | s. TableStamps s \<in> set ?ts}" by (rule finite_subset) simp
  then have fin: "finite ?O" by (rule finite_Union) auto
  have absent: "length (filter (\<lambda>t. t \<noteq> TableAbsent) ?ts) = 0 \<longleftrightarrow> set ?ts \<subseteq> {TableAbsent}"
    by (auto simp: filter_empty_conv)
  note two = two_elements[OF fin] and one = one_element[OF fin]
  have other: "set ?ts \<subseteq> {TableAbsent} \<union> range TableStamps"
    if "CatalogUnreadable \<notin> set ?ts" "TableUnreadable \<notin> set ?ts"
  proof
    fix t assume t: "t \<in> set ?ts"
    show "t \<in> {TableAbsent} \<union> range TableStamps" by (cases t) (use that t in auto)
  qed
  show ?thesis
  proof (cases "CatalogUnreadable \<in> set ?ts \<or> TableUnreadable \<in> set ?ts")
    case True
    then show ?thesis by (auto simp: resolve_session_owner_def collect_owners_result)
  next
    case False
    then have r: "resolve_session_owner sv sid = (if set ?ts \<subseteq> {TableAbsent} then Inl ()
        else if 1 < card ?O then Inl () else Inr (if ?O = {} then None else Some (Min ?O)))"
      using absent by (simp add: resolve_session_owner_def collect_owners_result)
    show ?thesis
    proof (cases "set ?ts \<subseteq> {TableAbsent} \<or> 1 < card ?O")
      case True
      with two show ?thesis unfolding r by auto
    next
      case f: False
      with one other False show ?thesis unfolding r by auto
    qed
  qed
qed



end
