(* ===== verification/Calendar.thy ===== *)
theory Calendar
  imports Prelude
begin

text \<open>
  The part of Python's \<open>datetime\<close> that the rollup modules use: dates as proleptic Gregorian ordinals
  (\<open>date.toordinal\<close>), \<open>weekday\<close>, \<open>replace(day=1)\<close>, \<open>monthrange\<close>, and the UTC conversions between
  dates and POSIX timestamps, including the rounding of \<open>fromtimestamp\<close> to microseconds.  The locale
  \<open>period_partition\<close> is what a calendar period promises: every day lies in exactly one period.
\<close>

type_synonym date = int

section \<open>The Gregorian calendar\<close>

definition is_leap :: "int \<Rightarrow> bool" where
  "is_leap y = (y mod 4 = 0 \<and> (y mod 100 \<noteq> 0 \<or> y mod 400 = 0))"

definition days_before_year :: "int \<Rightarrow> int" where
  "days_before_year y = (let p = y - 1 in p * 365 + p div 4 - p div 100 + p div 400)"

definition days_in_month :: "int \<Rightarrow> int \<Rightarrow> int" where
  "days_in_month y m = (if m = 2 then (if is_leap y then 29 else 28) else if m \<in> {4, 6, 9, 11} then 30 else 31)"

definition days_before_month :: "int \<Rightarrow> int \<Rightarrow> int" where
  "days_before_month y m =
     [0, 31, 59, 90, 120, 151, 181, 212, 243, 273, 304, 334] ! nat (m - 1) + (if m > 2 \<and> is_leap y then 1 else 0)"

definition ymd2ord :: "int \<Rightarrow> int \<Rightarrow> int \<Rightarrow> date" where
  "ymd2ord y m d = days_before_year y + days_before_month y m + d"

lemma div_Suc:
  fixes y k :: int
  assumes "0 < k"
  shows "(y + 1) div k = y div k + (if y mod k = k - 1 then 1 else 0)"
    and "(y + 1) mod k = (if y mod k = k - 1 then 0 else y mod k + 1)"
proof -
  have y: "y = k * (y div k) + y mod k" by simp
  have r: "0 \<le> y mod k" "y mod k < k" using assms by simp_all
  have "(y + 1) div k = y div k + 1 \<and> (y + 1) mod k = 0" if "y mod k = k - 1"
  proof -
    from y that have "y + 1 = k * (y div k + 1) + 0" by (simp add: algebra_simps)
    with assms show ?thesis using int_div_pos_eq[of "y + 1" k "y div k + 1" 0] int_mod_pos_eq[of "y + 1" k "y div k + 1" 0] by simp
  qed
  moreover have "(y + 1) div k = y div k \<and> (y + 1) mod k = y mod k + 1" if "y mod k \<noteq> k - 1"
  proof -
    from y have "y + 1 = k * (y div k) + (y mod k + 1)" by simp
    with r that show ?thesis
      using int_div_pos_eq[of "y + 1" k "y div k" "y mod k + 1"] int_mod_pos_eq[of "y + 1" k "y div k" "y mod k + 1"] by simp
  qed
  ultimately show "(y + 1) div k = y div k + (if y mod k = k - 1 then 1 else 0)"
    "(y + 1) mod k = (if y mod k = k - 1 then 0 else y mod k + 1)" by auto
qed

lemma div_pred:
  fixes y k :: int
  assumes "0 < k"
  shows "y div k = (y - 1) div k + of_bool (y mod k = 0)"
  using div_Suc[OF assms, of "y - 1"] pos_mod_sign[OF assms, of "y - 1"] by (auto split: if_splits)

lemma leap_step:
  fixes y a b c i j k :: int
  shows "y * 365 + (a + i) - (b + j) + (c + k) = ((y - 1) * 365 + a - b + c) + 365 + (i - j + k)"
  by simp

lemma leap_bools:
  "(C \<Longrightarrow> B) \<Longrightarrow> (B \<Longrightarrow> A) \<Longrightarrow> (of_bool A - of_bool B + of_bool C :: int) = (if A \<and> (\<not> B \<or> C) then 1 else 0)"
  by (cases A; cases B; cases C) simp_all

lemma days_before_year_Suc:
  "days_before_year (y + 1) = days_before_year y + 365 + (if is_leap y then 1 else 0)"
proof -
  have m: "400 dvd y \<Longrightarrow> 100 dvd y" "100 dvd y \<Longrightarrow> 4 dvd y"
    by (rule dvd_trans[rotated], assumption, simp)+
  have "days_before_year (y + 1) = y * 365 + y div 4 - y div 100 + y div 400"
    unfolding days_before_year_def Let_def add_diff_cancel_right' ..
  also have "\<dots> = days_before_year y + 365 + (of_bool (y mod 4 = 0) - of_bool (y mod 100 = 0) + of_bool (y mod 400 = 0))"
    unfolding days_before_year_def Let_def leap_step[symmetric]
    by (simp only: div_pred[of 4 y, OF zero_less_numeral, symmetric] div_pred[of 100 y, OF zero_less_numeral, symmetric]
        div_pred[of 400 y, OF zero_less_numeral, symmetric])
  also have "(of_bool (y mod 4 = 0) - of_bool (y mod 100 = 0) + of_bool (y mod 400 = 0) :: int) = (if is_leap y then 1 else 0)"
    unfolding is_leap_def mod_eq_0_iff_dvd by (rule leap_bools[OF m])
  finally show ?thesis .
qed

lemma days_before_year_ge: "0 \<le> y \<Longrightarrow> 365 * y \<le> days_before_year (y + 1)"
  using zdiv_mono2[of y 4 100] by (simp add: days_before_year_def Let_def pos_imp_zdiv_nonneg_iff)

text \<open>The year of an ordinal: from a lower bound upwards.\<close>

function year_up :: "int \<Rightarrow> date \<Rightarrow> int" where
  "year_up y d = (if 0 \<le> y \<and> days_before_year (y + 1) < d then year_up (y + 1) d else y)"
  by pat_completeness auto
termination
proof (relation "measure (\<lambda>(y, d). nat (d - y))")
  fix y d :: int assume "0 \<le> y \<and> days_before_year (y + 1) < d"
  with days_before_year_ge[of y] have "y < d" by simp
  then show "((y + 1, d), y, d) \<in> measure (\<lambda>(y, d). nat (d - y))" by simp
qed simp

declare year_up.simps [simp del]

definition year_of :: "date \<Rightarrow> int" where
  "year_of d = year_up ((d - 1) div 366 + 1) d"

definition month_of :: "date \<Rightarrow> int" where
  "month_of d = (let y = year_of d; doy = d - days_before_year y in
     int (length (takeWhile (\<lambda>m. days_before_month y m < doy) [1..12])))"

definition day_of :: "date \<Rightarrow> int" where
  "day_of d = d - days_before_year (year_of d) - days_before_month (year_of d) (month_of d)"

definition weekday :: "date \<Rightarrow> int" where
  "weekday d = (d + 6) mod 7"

definition month_start :: "date \<Rightarrow> date" where
  "month_start d = ymd2ord (year_of d) (month_of d) 1"

definition week_start :: "date \<Rightarrow> date" where
  "week_start d = d - weekday d"

text \<open>\<open>start.replace(month=start.month + 1, day=1)\<close>, or January of the next year.\<close>

definition next_month :: "date \<Rightarrow> date" where
  "next_month d = (if month_of d = 12 then ymd2ord (year_of d + 1) 1 1 else ymd2ord (year_of d) (month_of d + 1) 1)"

section \<open>Timestamps\<close>

definition EPOCH_ORDINAL :: date where "EPOCH_ORDINAL = 719163"

definition midnight :: "date \<Rightarrow> timestamp" where
  "midnight d = of_int ((d - EPOCH_ORDINAL) * 86400)"

definition round_half_even :: "rat \<Rightarrow> int" where
  "round_half_even x = (let f = \<lfloor>x\<rfloor>; r = x - of_int f in
     if r < 1 / 2 \<or> (r = 1 / 2 \<and> even f) then f else f + 1)"

text \<open>\<open>datetime.fromtimestamp(t, tz=utc).date()\<close>\<close>

definition date_of_timestamp :: "timestamp \<Rightarrow> date" where
  "date_of_timestamp t = round_half_even (t * 1000000) div 86400000000 + EPOCH_ORDINAL"

definition whole_microseconds :: "timestamp \<Rightarrow> bool" where
  "whole_microseconds t = (t * 1000000 = of_int \<lfloor>t * 1000000\<rfloor>)"

section \<open>Months and weeks partition the days\<close>

lemma months_list: "[1..12] = [1, 2, 3, 4, 5, 6, 7, 8, 9, 10, 11, 12 :: int]"
  by (simp add: upto_rec1)

lemma days_before_month_simps:
  "days_before_month y 1 = 0"
  "1 \<le> m \<Longrightarrow> m \<le> 11 \<Longrightarrow> days_before_month y (m + 1) = days_before_month y m + days_in_month y m"
  "days_before_month y 12 + days_in_month y 12 = 365 + (if is_leap y then 1 else 0)"
proof -
  assume "1 \<le> m" "m \<le> 11"
  then have "m \<in> set [1..11]" by simp
  also have "[1..11] = [1, 2, 3, 4, 5, 6, 7, 8, 9, 10, 11 :: int]" by (simp add: upto_rec1)
  finally have "m \<in> {1, 2, 3, 4, 5, 6, 7, 8, 9, 10, 11}" by simp
  then show "days_before_month y (m + 1) = days_before_month y m + days_in_month y m"
    by (elim insertE) (simp_all add: days_before_month_def days_in_month_def eval_nat_numeral)
qed (simp_all add: days_before_month_def days_in_month_def eval_nat_numeral)

text \<open>Months counted from year 0.\<close>

definition month_first :: "int \<Rightarrow> date" where
  "month_first k = ymd2ord (k div 12) (k mod 12 + 1) 1"

definition month_index :: "date \<Rightarrow> int" where
  "month_index d = 12 * year_of d + (month_of d - 1)"

lemma days_in_month_pos: "28 \<le> days_in_month y m"
  by (simp add: days_in_month_def)

lemma month_first_Suc: "month_first (k + 1) = month_first k + days_in_month (k div 12) (k mod 12 + 1)"
proof (cases "k mod 12 = 11")
  case True
  then have "(k + 1) div 12 = k div 12 + 1" "(k + 1) mod 12 = 0" using div_Suc[of 12 k] by simp_all
  with True show ?thesis
    using days_before_month_simps(1)[of "k div 12 + 1"] days_before_month_simps(3)[of "k div 12"]
    by (simp add: month_first_def ymd2ord_def days_before_year_Suc)
next
  case False
  then have "(k + 1) div 12 = k div 12" "(k + 1) mod 12 = k mod 12 + 1" using div_Suc[of 12 k] by simp_all
  moreover have "0 \<le> k mod 12" "k mod 12 \<le> 10" using False pos_mod_bound[of 12 k] by simp_all
  ultimately show ?thesis
    using days_before_month_simps(2)[of "k mod 12 + 1" "k div 12"] by (simp add: month_first_def ymd2ord_def add.assoc)
qed

lemma month_first_mono: "i \<le> j \<Longrightarrow> month_first i + 28 * (j - i) \<le> month_first j"
proof (induction j rule: int_ge_induct)
  case (step j)
  then show ?case using month_first_Suc[of j] days_in_month_pos[of "j div 12" "j mod 12 + 1"] by simp
qed simp

lemma month_first_unique:
  assumes "month_first i \<le> d" "d < month_first (i + 1)" "month_first j \<le> d" "d < month_first (j + 1)"
  shows "i = j"
proof (rule ccontr)
  assume "i \<noteq> j"
  then consider "i + 1 \<le> j" | "j + 1 \<le> i" by linarith
  then show False using month_first_mono[of "i + 1" j] month_first_mono[of "j + 1" i] assms by cases auto
qed

lemma year_up_spec:
  "0 \<le> y \<Longrightarrow> days_before_year y < d \<Longrightarrow>
     days_before_year (year_up y d) < d \<and> d \<le> days_before_year (year_up y d + 1) \<and> y \<le> year_up y d"
proof (induction y d rule: year_up.induct)
  case (1 y d)
  then show ?case by (subst (1 2 3) year_up.simps) auto
qed

lemma year_of_spec:
  assumes "1 \<le> d"
  shows "days_before_year (year_of d) < d" "d \<le> days_before_year (year_of d + 1)" "1 \<le> year_of d"
proof -
  have "days_before_year ((d - 1) div 366 + 1) < d"
  proof -
    define p where "p = (d - 1) div 366"
    have p: "0 \<le> p" "366 * p \<le> d - 1" unfolding p_def using assms pos_mod_sign[of 366 "d - 1"] mult_div_mod_eq[of 366 "d - 1"]
      by (simp_all add: pos_imp_zdiv_nonneg_iff del: mult_div_mod_eq)
    have "p div 4 \<le> p" using p zdiv_mono2[of p 1 4] by simp
    have "p div 4 + p div 400 - p div 100 \<le> p" using p \<open>p div 4 \<le> p\<close> zdiv_mono2[of p 100 400] by linarith
    then show ?thesis using p unfolding days_before_year_def p_def[symmetric] Let_def by simp
  qed
  moreover have "0 \<le> (d - 1) div 366" using assms by (simp add: pos_imp_zdiv_nonneg_iff)
  ultimately show "days_before_year (year_of d) < d" "d \<le> days_before_year (year_of d + 1)" "1 \<le> year_of d"
    using year_up_spec[of "(d - 1) div 366 + 1" d] unfolding year_of_def by auto
qed

lemma takeWhile_bound:
  assumes "xs \<noteq> []" "P (hd xs)"
  obtains k where "length (takeWhile P xs) = k" "0 < k" "k \<le> length xs" "P (xs ! (k - 1))" "k < length xs \<Longrightarrow> \<not> P (xs ! k)"
proof -
  from assms have ne: "takeWhile P xs \<noteq> []" by (cases xs) auto
  have "P (takeWhile P xs ! (length (takeWhile P xs) - 1))"
    using ne by (metis diff_less length_greater_0_conv nth_mem set_takeWhileD zero_less_one)
  with ne show thesis
    by (intro that[of "length (takeWhile P xs)"]) (auto simp: length_takeWhile_le takeWhile_nth nth_length_takeWhile)
qed

lemma month_of_spec:
  assumes "1 \<le> d"
  defines "y \<equiv> year_of d"
  shows "1 \<le> month_of d \<and> month_of d \<le> 12 \<and> days_before_month y (month_of d) < d - days_before_year y
    \<and> (month_of d < 12 \<longrightarrow> d - days_before_year y \<le> days_before_month y (month_of d + 1))"
proof -
  let ?P = "\<lambda>m. days_before_month y m < d - days_before_year y"
  have nth: "[1..12] ! i = 1 + int i" if "i < 12" for i using that by simp
  have hd: "hd [1..12] = (1 :: int)" by (simp add: months_list)
  have "?P (hd [1..12])" using year_of_spec(1)[OF assms(1)] days_before_month_simps(1)[of y] by (simp add: hd y_def)
  from takeWhile_bound[of "[1..12]" ?P, OF _ this]
  obtain k where l: "length (takeWhile ?P [1..12]) = k" and k: "0 < k" "k \<le> length [1..12]" "?P ([1..12] ! (k - 1))"
    "k < length [1..12] \<Longrightarrow> \<not> ?P ([1..12] ! k)" by auto
  have m: "month_of d = int k" using l unfolding month_of_def Let_def y_def by simp
  have "[1..12] ! (k - 1) = int k" using nth[of "k - 1"] k(1,2) by simp
  with k(3) have "?P (int k)" by simp
  moreover have "\<not> ?P (int k + 1)" if "k < 12" using k(4) that nth[OF that] by (simp add: add.commute)
  ultimately show ?thesis unfolding m using k(1,2) by (auto simp: not_less)
qed

lemma month_index_spec:
  assumes "1 \<le> d"
  shows "month_first (month_index d) \<le> d" "d < month_first (month_index d + 1)"
    "month_first (month_index d) = month_start d" "month_first (month_index d + 1) = next_month d"
proof -
  let ?y = "year_of d" and ?m = "month_of d"
  note m = month_of_spec[OF assms]
  have dm: "month_index d div 12 = ?y" "month_index d mod 12 = ?m - 1"
    using m int_div_pos_eq[of "month_index d" 12 ?y "?m - 1"] int_mod_pos_eq[of "month_index d" 12 ?y "?m - 1"]
    by (simp_all add: month_index_def)
  show s: "month_first (month_index d) = month_start d" by (simp add: month_first_def dm month_start_def)
  show n: "month_first (month_index d + 1) = next_month d"
  proof (cases "?m = 12")
    case True
    then show ?thesis using div_Suc[of 12 "month_index d"] by (simp add: month_first_def dm next_month_def)
  next
    case False
    then show ?thesis using div_Suc[of 12 "month_index d"] by (simp add: month_first_def dm next_month_def)
  qed
  show "month_first (month_index d) \<le> d" using m by (simp add: s month_start_def ymd2ord_def)
  show "d < month_first (month_index d + 1)"
  proof (cases "?m = 12")
    case True
    then show ?thesis using year_of_spec(2)[OF assms] days_before_month_simps(1)[of "?y + 1"]
      by (simp add: n next_month_def ymd2ord_def)
  next
    case False
    then have "?m < 12" using m by linarith
    with m have "d - days_before_year ?y \<le> days_before_month ?y (?m + 1)" by blast
    then show ?thesis using False by (simp add: n next_month_def ymd2ord_def)
  qed
qed

section \<open>Periods\<close>

text \<open>
  What a period kind promises its users, on days of the common era: the start of a period is its first
  day, a day lies before the next start, and the days in between have the same start.
\<close>

locale period_partition =
  fixes start_of :: "date \<Rightarrow> date" and next_start :: "date \<Rightarrow> date"
  assumes start_le: "1 \<le> d \<Longrightarrow> start_of d \<le> d"
    and next_gt: "1 \<le> d \<Longrightarrow> d < next_start (start_of d)"
    and within: "1 \<le> d \<Longrightarrow> 1 \<le> e \<Longrightarrow> start_of d \<le> e \<Longrightarrow> e < next_start (start_of d) \<Longrightarrow> start_of e = start_of d"
    and start_pos: "1 \<le> d \<Longrightarrow> 1 \<le> start_of d"
begin

lemma start_start: "1 \<le> d \<Longrightarrow> start_of (start_of d) = start_of d"
  using within[of d "start_of d"] start_le[of d] next_gt[of d] start_pos[of d] by auto

lemma start_eq_iff:
  assumes "1 \<le> d" "1 \<le> e"
  shows "start_of e = start_of d \<longleftrightarrow> start_of d \<le> e \<and> e < next_start (start_of d)"
  using within[OF assms] start_le[OF assms(2)] next_gt[OF assms(2)] by metis

lemma start_mono:
  assumes "1 \<le> d" "d \<le> e"
  shows "start_of d \<le> start_of e"
proof (rule ccontr)
  assume less: "\<not> start_of d \<le> start_of e"
  have e: "1 \<le> e" using assms by simp
  have "start_of e \<le> d" "d < next_start (start_of e)"
    using less assms start_le[OF assms(1)] next_gt[OF e] by auto
  with within[OF e assms(1)] less show False by simp
qed

end

interpretation days: period_partition "\<lambda>d. d" "\<lambda>d. d + 1"
  by unfold_locales auto

lemma month_start_pos: "1 \<le> d \<Longrightarrow> 1 \<le> month_start d"
proof -
  assume "1 \<le> d"
  then have y: "1 \<le> year_of d" "1 \<le> month_of d" "month_of d \<le> 12" using year_of_spec(3) month_of_spec by auto
  have "0 \<le> days_before_year (year_of d)" using days_before_year_ge[of "year_of d - 1"] y by simp
  moreover have "0 \<le> days_before_month (year_of d) (month_of d)"
  proof -
    let ?l = "[0, 31, 59, 90, 120, 151, 181, 212, 243, 273, 304, 334 :: int]"
    have "nat (month_of d - 1) < length ?l" using y by simp
    then have "?l ! nat (month_of d - 1) \<in> set ?l" by (rule nth_mem)
    then have "0 \<le> ?l ! nat (month_of d - 1)" by auto
    then show ?thesis unfolding days_before_month_def by simp
  qed
  ultimately show ?thesis by (simp add: month_start_def ymd2ord_def)
qed

lemma month_index_within:
  assumes "1 \<le> d" "1 \<le> e" "month_start d \<le> e" "e < next_month d"
  shows "month_index e = month_index d"
  using month_first_unique[of "month_index e" e "month_index d"] month_index_spec[OF assms(1)] month_index_spec[OF assms(2)]
    assms(3,4) by simp

lemma next_month_start: "1 \<le> d \<Longrightarrow> next_month (month_start d) = next_month d"
  using month_index_within[of d "month_start d"] month_index_spec[of d] month_index_spec(4)[of "month_start d"]
    month_start_pos[of d] by simp

interpretation months: period_partition month_start next_month
proof (unfold_locales, goal_cases)
  case (1 d)
  then show ?case using month_index_spec(1,3)[of d] by simp
next
  case (2 d)
  then show ?case using month_index_spec(2,4)[of d] by (simp add: next_month_start)
next
  case (3 d e)
  then show ?case using month_index_within[of d e] month_index_spec(3)[of d] month_index_spec(3)[of e]
    by (simp add: next_month_start)
qed (rule month_start_pos)

lemma week_start_div: "week_start d = 7 * ((d + 6) div 7) - 6"
  unfolding week_start_def weekday_def using minus_mod_eq_mult_div[of "d + 6" 7] by linarith

interpretation weeks: period_partition week_start "\<lambda>d. d + 7"
proof (unfold_locales, goal_cases)
  case (1 d)
  then show ?case by (simp add: week_start_def weekday_def)
next
  case (2 d)
  then show ?case using pos_mod_bound[of 7 "d + 6"] by (simp add: week_start_def weekday_def)
next
  case (3 d e)
  let ?q = "(d + 6) div 7"
  have "(e + 6) div 7 = ?q"
    using 3 int_div_pos_eq[of "e + 6" 7 ?q "e + 6 - 7 * ?q"] by (simp add: week_start_div)
  then show ?case by (simp add: week_start_div)
next
  case (4 d)
  then have "1 \<le> (d + 6) div 7" using zdiv_mono1[of 7 "d + 6" 7] by simp
  then show ?case by (simp add: week_start_div)
qed

section \<open>Dates of timestamps\<close>

lemma round_half_even_of_int [simp]: "round_half_even (of_int i) = i"
  by (simp add: round_half_even_def)

lemma date_of_timestamp_floor:
  assumes "whole_microseconds t"
  shows "date_of_timestamp t = \<lfloor>t / 86400\<rfloor> + EPOCH_ORDINAL"
proof -
  have t: "t * 1000000 = of_int \<lfloor>t * 1000000\<rfloor>" using assms by (simp add: whole_microseconds_def)
  have "\<lfloor>t / 86400\<rfloor> = \<lfloor>(of_int \<lfloor>t * 1000000\<rfloor> :: rat) / of_int 86400000000\<rfloor>"
    unfolding t[symmetric] by (simp add: field_simps)
  also have "\<dots> = \<lfloor>t * 1000000\<rfloor> div 86400000000" by (rule floor_divide_of_int_eq)
  finally show ?thesis unfolding date_of_timestamp_def by (subst t) simp
qed

lemma date_of_timestamp_iff:
  assumes "whole_microseconds t"
  shows "date_of_timestamp t < d \<longleftrightarrow> t < midnight d" "d \<le> date_of_timestamp t \<longleftrightarrow> midnight d \<le> t"
proof -
  have "date_of_timestamp t < d \<longleftrightarrow> t / 86400 < of_int (d - EPOCH_ORDINAL)"
    unfolding date_of_timestamp_floor[OF assms] by (subst floor_less_iff[symmetric]) linarith
  also have "\<dots> \<longleftrightarrow> t < midnight d"
    unfolding midnight_def of_int_mult by (simp add: divide_less_eq del: of_int_diff)
  finally show *: "date_of_timestamp t < d \<longleftrightarrow> t < midnight d" .
  then show "d \<le> date_of_timestamp t \<longleftrightarrow> midnight d \<le> t" by linarith
qed

lemma date_of_midnight [simp]: "date_of_timestamp (midnight d) = d"
proof -
  have "whole_microseconds (midnight d)"
    unfolding whole_microseconds_def midnight_def
    by (metis floor_of_int of_int_mult of_int_numeral)
  from date_of_timestamp_iff[OF this, of d] date_of_timestamp_iff[OF this, of "d + 1"]
  show ?thesis by (simp add: midnight_def)
qed

end
