(* ===== verification/Rollup_Store.thy ===== *)
theory Rollup_Store
  imports Calendar Tables
begin

text \<open>
  The store of temporal rollups, \<^verbatim>\<open>src/rollup_store.py\<close>, over the tables that
  \<open>ensure_temporal_rollup_tables\<close> of \<^verbatim>\<open>src/db_bootstrap.py\<close> creates, with the triggers that write the
  invalidation outbox.  A row is claimed for building under a generation, published or given up only by
  the claim that still owns it, and made stale by every mutation of the summary nodes it may cover.

  \<open>period_start\<close> is an ISO date in the table and a date here; a lease deadline is a timestamp.  The
  order of rows is the row id; the clock and the claim's nonce are arguments.  Dates are not bounded at
  year 9999, where Python's arithmetic raises.
\<close>

datatype period_kind = Day | Week | Month

datatype rollup_status = Building | Ready | Stale | Failed

record rollup_row =
  r_rollup_id :: int
  r_period_kind :: period_kind
  r_period_start :: date
  r_scope :: string
  r_summary :: "string option"
  r_token_count :: "int option"
  r_status :: rollup_status
  r_built_at :: "timestamp option"
  r_source_fingerprint :: "string option"
  r_error :: "string option"
  r_generation :: int
  r_lease_expires_at :: "timestamp option"
  r_lease_nonce :: string
  r_failed_at :: "timestamp option"

record invalidation =
  i_event_id :: int
  i_node_id :: int
  i_scope :: string
  i_covered_start :: timestamp
  i_covered_end :: timestamp
  i_next_day :: "date option"
  i_operation :: string

type_synonym period_key = "period_kind \<times> date \<times> string"

record rollup_db =
  rollups :: "rollup_row list"
  rollup_seq :: int
  rollup_sources :: "(int \<times> int) list"
  invalidations :: "invalidation list"
  event_seq :: int
  rollup_state :: "((period_kind \<times> string) \<times> (string option \<times> timestamp)) list"
  rollup_nodes :: "SummaryNode list"

definition row_key :: "rollup_row \<Rightarrow> period_key" where
  "row_key r = (r_period_kind r, r_period_start r, r_scope r)"

section \<open>The mutation outbox\<close>

definition covered_from :: "SummaryNode \<Rightarrow> timestamp" where
  "covered_from n = (case earliest_at n of Some t \<Rightarrow> t | None \<Rightarrow> created_at n)"

definition covered_to :: "SummaryNode \<Rightarrow> timestamp" where
  "covered_to n = (case latest_at n of Some t \<Rightarrow> t | None \<Rightarrow> created_at n)"

definition log_invalidation :: "string \<Rightarrow> SummaryNode \<Rightarrow> rollup_db \<Rightarrow> rollup_db" where
  "log_invalidation operation n db =
     db\<lparr>event_seq := event_seq db + 1,
        invalidations := invalidations db @
          [\<lparr>i_event_id = event_seq db + 1, i_node_id = node_id n, i_scope = n_session_id n,
            i_covered_start = min (covered_from n) (covered_to n), i_covered_end = max (covered_from n) (covered_to n),
            i_next_day = None, i_operation = operation\<rparr>]\<rparr>"

definition node_inserted :: "SummaryNode \<Rightarrow> rollup_db \<Rightarrow> rollup_db" where
  "node_inserted n db = log_invalidation ''insert'' n (db\<lparr>rollup_nodes := rollup_nodes db @ [n]\<rparr>)"

definition node_deleted :: "SummaryNode \<Rightarrow> rollup_db \<Rightarrow> rollup_db" where
  "node_deleted n db =
     (log_invalidation ''delete'' n db)\<lparr>rollup_nodes := del_where (\<lambda>m. node_id m = node_id n) (rollup_nodes db)\<rparr>"

definition node_updated :: "SummaryNode \<Rightarrow> SummaryNode \<Rightarrow> rollup_db \<Rightarrow> rollup_db" where
  "node_updated old new db =
     log_invalidation ''update'' new (log_invalidation ''update'' old
       (db\<lparr>rollup_nodes := upd_where (\<lambda>m. node_id m = node_id old) (\<lambda>_. new) (rollup_nodes db)\<rparr>))"

section \<open>Claims\<close>

record RollupBuildToken =
  tok_rollup_id :: int
  tok_generation :: int
  tok_nonce :: string

definition BUILD_LEASE_SECONDS :: timestamp where "BUILD_LEASE_SECONDS = 900"

definition fresh_row :: "int \<Rightarrow> period_key \<Rightarrow> rollup_status \<Rightarrow> rollup_row" where
  "fresh_row rid k st = \<lparr>r_rollup_id = rid, r_period_kind = fst k, r_period_start = fst (snd k), r_scope = snd (snd k),
     r_summary = None, r_token_count = None, r_status = st, r_built_at = None, r_source_fingerprint = None,
     r_error = None, r_generation = 0, r_lease_expires_at = None, r_lease_nonce = [], r_failed_at = None\<rparr>"

text \<open>INSERT ... ON CONFLICT(period_kind, period_start, scope) DO UPDATE ... WHERE, with its row count.\<close>

definition upsert ::
  "period_key \<Rightarrow> (rollup_row \<Rightarrow> bool) \<Rightarrow> (rollup_row \<Rightarrow> rollup_row) \<Rightarrow> (int \<Rightarrow> rollup_row) \<Rightarrow> rollup_db \<Rightarrow> nat \<times> rollup_db" where
  "upsert k guard upd fresh db =
     (case sel_first (\<lambda>r. row_key r = k) (rollups db) of
        None \<Rightarrow> (1, db\<lparr>rollups := rollups db @ [fresh (rollup_seq db + 1)], rollup_seq := rollup_seq db + 1\<rparr>)
      | Some r \<Rightarrow> (if guard r then 1 else 0, db\<lparr>rollups := upd_where (\<lambda>r. row_key r = k \<and> guard r) upd (rollups db)\<rparr>))"

definition building_row :: "timestamp \<Rightarrow> string \<Rightarrow> rollup_row \<Rightarrow> rollup_row" where
  "building_row now nonce r =
     r\<lparr>r_status := Building, r_generation := r_generation r + 1, r_built_at := Some now,
       r_lease_expires_at := Some (now + BUILD_LEASE_SECONDS), r_lease_nonce := nonce,
       r_failed_at := None, r_source_fingerprint := None, r_error := None\<rparr>"

definition claimed_row :: "period_key \<Rightarrow> timestamp \<Rightarrow> string \<Rightarrow> int \<Rightarrow> rollup_row" where
  "claimed_row k now nonce rid =
     (fresh_row rid k Building)\<lparr>r_built_at := Some now, r_lease_expires_at := Some (now + BUILD_LEASE_SECONDS),
        r_lease_nonce := nonce\<rparr>"

definition token_of :: "rollup_row \<Rightarrow> RollupBuildToken" where
  "token_of r = \<lparr>tok_rollup_id = r_rollup_id r, tok_generation = r_generation r, tok_nonce = r_lease_nonce r\<rparr>"

text \<open>The row read back after the upsert always exists, see \<open>upsert_row_exists\<close>.\<close>

definition upsert_building :: "period_key \<Rightarrow> timestamp \<Rightarrow> string \<Rightarrow> rollup_db \<Rightarrow> RollupBuildToken option \<times> rollup_db" where
  "upsert_building k now nonce db =
     (let db' = snd (upsert k (\<lambda>_. True) (building_row now nonce) (claimed_row k now nonce) db)
      in (map_option token_of (sel_first (\<lambda>r. row_key r = k) (rollups db')), db'))"

definition owns :: "RollupBuildToken \<Rightarrow> rollup_row \<Rightarrow> bool" where
  "owns tok r = (r_rollup_id r = tok_rollup_id tok \<and> r_generation r = tok_generation tok
     \<and> r_lease_nonce r = tok_nonce tok \<and> r_status r = Building)"

definition rollup_exists :: "int \<Rightarrow> rollup_db \<Rightarrow> bool" where
  "rollup_exists rid db = (\<exists>r \<in> set (rollups db). r_rollup_id r = rid)"

section \<open>Publication\<close>

fun period_end_day :: "period_kind \<Rightarrow> date \<Rightarrow> date" where
  "period_end_day Day d = d"
| "period_end_day Week d = d + 6"
| "period_end_day Month d = next_month d - 1"

definition window_start :: "rollup_row \<Rightarrow> timestamp" where
  "window_start r = midnight (r_period_start r)"

definition window_end :: "rollup_row \<Rightarrow> timestamp" where
  "window_end r = midnight (period_end_day (r_period_kind r) (r_period_start r) + 1)"

definition pending_mutation :: "rollup_row \<Rightarrow> rollup_db \<Rightarrow> bool" where
  "pending_mutation r db = (\<exists>i \<in> set (invalidations db). i_scope i = r_scope r
     \<and> i_covered_start i < window_end r \<and> i_covered_end i \<ge> window_start r)"

definition source_missing :: "int list \<Rightarrow> rollup_db \<Rightarrow> bool" where
  "source_missing ids db = (\<exists>i \<in> set ids. i \<notin> set (map node_id (rollup_nodes db)))"

definition supersede_row :: "string \<Rightarrow> rollup_row \<Rightarrow> rollup_row" where
  "supersede_row reason r =
     r\<lparr>r_status := Stale, r_generation := r_generation r + 1, r_error := Some reason,
       r_lease_expires_at := None, r_lease_nonce := []\<rparr>"

definition ready_row :: "string \<Rightarrow> int \<Rightarrow> string \<Rightarrow> timestamp \<Rightarrow> rollup_row \<Rightarrow> rollup_row" where
  "ready_row summ tokens fingerprint now r =
     r\<lparr>r_summary := Some summ, r_token_count := Some tokens, r_status := Ready, r_built_at := Some now,
       r_source_fingerprint := Some fingerprint, r_error := None, r_failed_at := None,
       r_lease_expires_at := None, r_lease_nonce := []\<rparr>"

text \<open>
  \<open>Inl ()\<close> is the ValueError for an unknown rollup id; nothing has been written then.  The second
  ownership test of the code cannot fail inside the transaction and is the same branch.
\<close>

definition mark_ready ::
  "RollupBuildToken \<Rightarrow> string \<Rightarrow> int \<Rightarrow> int list \<Rightarrow> string \<Rightarrow> timestamp \<Rightarrow> rollup_db \<Rightarrow> (unit + bool) \<times> rollup_db" where
  "mark_ready tok summ tokens source_node_ids fingerprint now db =
     (case sel_first (owns tok) (rollups db) of
        None \<Rightarrow> (if rollup_exists (tok_rollup_id tok) db then Inr False else Inl (), db)
      | Some r \<Rightarrow>
          if pending_mutation r db
          then (Inr False, db\<lparr>rollups := upd_where (owns tok) (supersede_row ''source mutation pending'') (rollups db)\<rparr>)
          else if source_missing source_node_ids db
          then (Inr False, db\<lparr>rollups := upd_where (owns tok) (supersede_row ''source changed during build'') (rollups db)\<rparr>)
          else (Inr True,
                db\<lparr>rollups := upd_where (owns tok) (ready_row summ tokens fingerprint now) (rollups db),
                   rollup_sources := del_where (\<lambda>s. fst s = tok_rollup_id tok) (rollup_sources db)
                     @ map (\<lambda>i. (tok_rollup_id tok, i)) (dedup source_node_ids)\<rparr>))"

definition failed_row :: "string \<Rightarrow> timestamp \<Rightarrow> rollup_row \<Rightarrow> rollup_row" where
  "failed_row err now r =
     r\<lparr>r_status := Failed, r_error := Some err, r_failed_at := Some now, r_lease_expires_at := None, r_lease_nonce := []\<rparr>"

definition mark_failed :: "RollupBuildToken \<Rightarrow> string \<Rightarrow> timestamp \<Rightarrow> rollup_db \<Rightarrow> bool \<times> rollup_db" where
  "mark_failed tok err now db =
     (rowcount (owns tok) (rollups db) > 0, db\<lparr>rollups := upd_where (owns tok) (failed_row err now) (rollups db)\<rparr>)"

definition deferred_row :: "string \<Rightarrow> rollup_row \<Rightarrow> rollup_row" where
  "deferred_row reason r = r\<lparr>r_status := Stale, r_error := Some reason, r_lease_expires_at := None, r_lease_nonce := []\<rparr>"

definition defer_incomplete :: "RollupBuildToken \<Rightarrow> string \<Rightarrow> rollup_db \<Rightarrow> bool \<times> rollup_db" where
  "defer_incomplete tok reason db =
     (rowcount (owns tok) (rollups db) > 0, db\<lparr>rollups := upd_where (owns tok) (deferred_row reason) (rollups db)\<rparr>)"

definition resolve_no_source :: "RollupBuildToken \<Rightarrow> rollup_db \<Rightarrow> bool \<times> rollup_db" where
  "resolve_no_source tok db =
     (if rowcount (owns tok) (rollups db) > 0
      then (True, db\<lparr>rollups := del_where (owns tok) (rollups db),
                     rollup_sources := del_where (\<lambda>s. fst s = tok_rollup_id tok) (rollup_sources db)\<rparr>)
      else (False, db))"

section \<open>Invalidation\<close>

definition stale_row :: "rollup_row \<Rightarrow> rollup_row" where
  "stale_row r = r\<lparr>r_status := Stale, r_generation := r_generation r + 1, r_lease_expires_at := None, r_lease_nonce := []\<rparr>"

definition period_starts_for_day :: "date \<Rightarrow> date \<times> date \<times> date" where
  "period_starts_for_day d = (d, week_start d, month_start d)"

definition stale_upsert :: "(rollup_row \<Rightarrow> bool) \<Rightarrow> period_key \<Rightarrow> rollup_db \<Rightarrow> nat \<times> rollup_db" where
  "stale_upsert guard k db = upsert k guard stale_row (\<lambda>rid. fresh_row rid k Stale) db"

fun stale_upserts :: "(rollup_row \<Rightarrow> bool) \<Rightarrow> period_key list \<Rightarrow> rollup_db \<Rightarrow> nat \<times> rollup_db" where
  "stale_upserts guard [] db = (0, db)"
| "stale_upserts guard (k # ks) db =
     (case stale_upsert guard k db of (n, db') \<Rightarrow> case stale_upserts guard ks db' of (n', db'') \<Rightarrow> (n + n', db''))"

definition day_keys :: "date \<Rightarrow> string \<Rightarrow> period_key list" where
  "day_keys d sc = (case period_starts_for_day d of (ds, ws, ms) \<Rightarrow> [(Day, ds, sc), (Week, ws, sc), (Month, ms, sc)])"

definition aggregate_keys :: "date \<Rightarrow> string \<Rightarrow> period_key list" where
  "aggregate_keys d sc = (case period_starts_for_day d of (_, ws, ms) \<Rightarrow> [(Week, ws, sc), (Month, ms, sc)])"

definition mark_stale_for_day :: "date \<Rightarrow> string \<Rightarrow> rollup_db \<Rightarrow> nat \<times> rollup_db" where
  "mark_stale_for_day d sc db = stale_upserts (\<lambda>_. True) (day_keys d sc) db"

definition stale_aggregates_for_day :: "date \<Rightarrow> string \<Rightarrow> rollup_db \<Rightarrow> nat \<times> rollup_db" where
  "stale_aggregates_for_day d sc db = stale_upserts (\<lambda>_. True) (aggregate_keys d sc) db"

fun expand_target :: "period_key \<Rightarrow> period_key list" where
  "expand_target (Day, d, sc) = (Day, d, sc) # aggregate_keys d sc"
| "expand_target k = [k]"

fun expand_loop :: "period_key list \<Rightarrow> period_key list \<Rightarrow> period_key list" where
  "expand_loop expanded [] = expanded"
| "expand_loop expanded (k # ks) = expand_loop (if k \<in> set expanded then expanded else expanded @ [k]) ks"

definition expand_stale_targets :: "period_key list \<Rightarrow> period_key list" where
  "expand_stale_targets targets = expand_loop [] (concat (map expand_target targets))"

definition not_building :: "rollup_row \<Rightarrow> bool" where
  "not_building r = (r_status r \<noteq> Building)"

definition upsert_stale :: "period_key \<Rightarrow> rollup_db \<Rightarrow> nat \<times> rollup_db" where
  "upsert_stale k db = stale_upserts not_building (expand_stale_targets [k]) db"

definition upsert_stale_many :: "period_key list \<Rightarrow> rollup_db \<Rightarrow> nat \<times> rollup_db" where
  "upsert_stale_many targets db = stale_upserts not_building (expand_stale_targets targets) db"

definition lease_expired :: "timestamp \<Rightarrow> rollup_row \<Rightarrow> bool" where
  "lease_expired cutoff r = (r_status r = Building \<and> (case r_lease_expires_at r of None \<Rightarrow> False | Some t \<Rightarrow> t < cutoff))"

definition expired_ids :: "timestamp \<Rightarrow> int \<Rightarrow> rollup_db \<Rightarrow> int list" where
  "expired_ids cutoff max_rows db =
     map r_rollup_id (take (nat (max 0 max_rows))
       (sort_key (\<lambda>r. (or_zero (r_lease_expires_at r), r_rollup_id r)) (filter (lease_expired cutoff) (rollups db))))"

definition reclaim_stale_building :: "timestamp \<Rightarrow> int \<Rightarrow> rollup_db \<Rightarrow> nat \<times> rollup_db" where
  "reclaim_stale_building cutoff max_rows db =
     (let ids = expired_ids cutoff max_rows db; hit = (\<lambda>r. r_rollup_id r \<in> set ids)
      in (rowcount hit (rollups db), db\<lparr>rollups := upd_where hit stale_row (rollups db)\<rparr>))"

definition has_pending_invalidations :: "string option \<Rightarrow> rollup_db \<Rightarrow> bool" where
  "has_pending_invalidations sc db = (case sc of
     None \<Rightarrow> invalidations db \<noteq> []
   | Some s \<Rightarrow> (\<exists>i \<in> set (invalidations db). i_scope i = s))"

text \<open>The calendar days of an event, its bounds put in order first.\<close>

definition event_start :: "invalidation \<Rightarrow> date" where
  "event_start i = min (date_of_timestamp (i_covered_start i)) (date_of_timestamp (i_covered_end i))"

definition event_end :: "invalidation \<Rightarrow> date" where
  "event_end i = max (date_of_timestamp (i_covered_start i)) (date_of_timestamp (i_covered_end i))"

definition event_current :: "invalidation \<Rightarrow> date" where
  "event_current i = (case i_next_day i of Some d \<Rightarrow> d | None \<Rightarrow> event_start i)"

function drain_days :: "string \<Rightarrow> date \<Rightarrow> date \<Rightarrow> nat \<Rightarrow> rollup_db \<Rightarrow> date \<times> nat \<times> rollup_db" where
  "drain_days sc current last_day budget db =
     (if current \<le> last_day \<and> 0 < budget
      then drain_days sc (current + 1) last_day (budget - 1) (snd (stale_upserts (\<lambda>_. True) (day_keys current sc) db))
      else (current, budget, db))"
  by pat_completeness auto
termination
  by (relation "measure (\<lambda>(sc, current, last_day, budget, db). budget)") auto

declare drain_days.simps [simp del]

fun drain_events :: "invalidation list \<Rightarrow> nat \<Rightarrow> rollup_db \<Rightarrow> nat \<times> rollup_db" where
  "drain_events [] budget db = (budget, db)"
| "drain_events (i # is) budget db =
     (case drain_days (i_scope i) (event_current i) (event_end i) budget db of (current, budget', db') \<Rightarrow>
      if event_end i < current
      then (let db'' = db'\<lparr>invalidations := del_where (\<lambda>e. i_event_id e = i_event_id i) (invalidations db')\<rparr>
            in if budget' = 0 then (budget', db'') else drain_events is budget' db'')
      else (budget', db'\<lparr>invalidations := upd_where (\<lambda>e. i_event_id e = i_event_id i)
                          (\<lambda>e. e\<lparr>i_next_day := Some current\<rparr>) (invalidations db')\<rparr>))"

definition drain_invalidations :: "int \<Rightarrow> int \<Rightarrow> rollup_db \<Rightarrow> nat \<times> rollup_db" where
  "drain_invalidations event_limit day_budget db =
     (let events = nat (max 0 event_limit); days = nat (max 0 day_budget) in
      if events = 0 \<or> days = 0 then (0, db)
      else (case drain_events (take events (sort_key i_event_id (invalidations db))) days db of
              (budget', db') \<Rightarrow> (days - budget', db')))"

definition purge_hit :: "int list \<Rightarrow> rollup_db \<Rightarrow> int \<Rightarrow> bool" where
  "purge_hit nodes db rid = (\<exists>s \<in> set (rollup_sources db). fst s = rid \<and> snd s \<in> set nodes)"

definition purged_row :: "rollup_row \<Rightarrow> rollup_row" where
  "purged_row r = (stale_row r)\<lparr>r_summary := None, r_token_count := None, r_source_fingerprint := None, r_error := None\<rparr>"

definition purge_rollups_for_sources :: "int list \<Rightarrow> rollup_db \<Rightarrow> nat \<times> rollup_db" where
  "purge_rollups_for_sources nodes db =
     (if nodes = [] then (0, db)
      else (rowcount (\<lambda>r. purge_hit nodes db (r_rollup_id r)) (rollups db),
            db\<lparr>rollups := upd_where (\<lambda>r. purge_hit nodes db (r_rollup_id r)) purged_row (rollups db),
               rollup_sources := del_where (\<lambda>s. purge_hit nodes db (fst s)) (rollup_sources db)\<rparr>))"

section \<open>Reads and cursors\<close>

definition source_node_ids_of :: "int \<Rightarrow> rollup_db \<Rightarrow> int list" where
  "source_node_ids_of rid db = sort (map snd (filter (\<lambda>s. fst s = rid) (rollup_sources db)))"

definition get_rollup :: "period_key \<Rightarrow> rollup_db \<Rightarrow> (rollup_row \<times> int list) option" where
  "get_rollup k db = map_option (\<lambda>r. (r, source_node_ids_of (r_rollup_id r) db)) (sel_first (\<lambda>r. row_key r = k) (rollups db))"

definition ready_rollups_for_window ::
  "period_kind \<Rightarrow> date \<Rightarrow> date \<Rightarrow> string \<Rightarrow> rollup_db \<Rightarrow> (rollup_row \<times> int list) list" where
  "ready_rollups_for_window kind first_day last_day sc db =
     map (\<lambda>r. (r, source_node_ids_of (r_rollup_id r) db))
       (sort_key r_period_start (filter (\<lambda>r. r_period_kind r = kind \<and> first_day \<le> r_period_start r
          \<and> r_period_start r \<le> last_day \<and> r_scope r = sc \<and> r_status r = Ready) (rollups db)))"

definition get_cursor :: "period_kind \<Rightarrow> string \<Rightarrow> rollup_db \<Rightarrow> string option" where
  "get_cursor kind sc db = Option.bind (map_of (rollup_state db) (kind, sc)) fst"

definition set_cursor :: "period_kind \<Rightarrow> string option \<Rightarrow> string \<Rightarrow> timestamp \<Rightarrow> rollup_db \<Rightarrow> rollup_db" where
  "set_cursor kind cursor sc built_at db =
     db\<lparr>rollup_state := (if (kind, sc) \<in> fst ` set (rollup_state db)
        then map (\<lambda>e. if fst e = (kind, sc) then ((kind, sc), (cursor, built_at)) else e) (rollup_state db)
        else rollup_state db @ [((kind, sc), (cursor, built_at))])\<rparr>"

section \<open>Rows and how they move\<close>

text \<open>
  A building row always carries a lease and no other row does.  Every change of a row moves it forward:
  to a higher generation, or out of building at the same one.
\<close>

definition row_ok :: "rollup_row \<Rightarrow> bool" where
  "row_ok r = (0 \<le> r_generation r \<and> (r_status r = Building \<longleftrightarrow> r_lease_expires_at r \<noteq> None)
     \<and> (r_status r \<noteq> Building \<longrightarrow> r_lease_nonce r = []) \<and> (r_status r = Ready \<longrightarrow> r_summary r \<noteq> None))"

definition progress :: "rollup_row \<Rightarrow> int" where
  "progress r = 2 * r_generation r + (if r_status r = Building then 0 else 1)"

definition identity :: "rollup_row \<Rightarrow> period_key \<times> int" where
  "identity r = (row_key r, r_rollup_id r)"

text \<open>What an UPDATE that only makes transitions keeps of the table.\<close>

definition good_update :: "rollup_row list \<Rightarrow> rollup_row list \<Rightarrow> bool" where
  "good_update rows rows' = (map row_key rows' = map row_key rows \<and> map r_rollup_id rows' = map r_rollup_id rows
     \<and> ((\<forall>r \<in> set rows. row_ok r) \<longrightarrow> (\<forall>r \<in> set rows'. row_ok r))
     \<and> (\<forall>r' \<in> set rows'. \<exists>r \<in> set rows. r_rollup_id r = r_rollup_id r' \<and> (r' = r \<or> progress r < progress r')))"

locale row_transition =
  fixes guard :: "rollup_row \<Rightarrow> bool" and upd :: "rollup_row \<Rightarrow> rollup_row"
  assumes identity_upd: "identity (upd r) = identity r"
    and ok_upd: "row_ok r \<Longrightarrow> guard r \<Longrightarrow> row_ok (upd r)"
    and progress_upd: "guard r \<Longrightarrow> progress r < progress (upd r)"
begin

lemma map_identity: "map identity (upd_where P upd rows) = map identity rows"
  by (induction rows) (auto simp: upd_where_def identity_upd)

lemma keys_upd: "map row_key (upd_where P upd rows) = map row_key rows"
  using arg_cong[OF map_identity, of "map fst" P rows] by (simp add: identity_def comp_def)

lemma ids_upd: "map r_rollup_id (upd_where P upd rows) = map r_rollup_id rows"
  using arg_cong[OF map_identity, of "map snd" P rows] by (simp add: identity_def comp_def)

lemma rows_ok:
  "(\<And>r. P r \<Longrightarrow> guard r) \<Longrightarrow> \<forall>r \<in> set rows. row_ok r \<Longrightarrow> \<forall>r \<in> set (upd_where P upd rows). row_ok r"
  by (auto simp: set_upd_where ok_upd)

lemma rows_evolve:
  "(\<And>r. P r \<Longrightarrow> guard r) \<Longrightarrow> r' \<in> set (upd_where P upd rows) \<Longrightarrow>
     \<exists>r \<in> set rows. r_rollup_id r = r_rollup_id r' \<and> (r' = r \<or> progress r < progress r')"
  using identity_upd by (fastforce simp: set_upd_where identity_def progress_upd)

lemma good: "(\<And>r. P r \<Longrightarrow> guard r) \<Longrightarrow> good_update rows (upd_where P upd rows)"
  unfolding good_update_def using keys_upd ids_upd rows_ok[of P rows] rows_evolve[of P _ rows] by simp

lemma sel_key_upd:
  "sel_first (\<lambda>r. row_key r = k) (upd_where P upd rows) =
     map_option (\<lambda>r. if P r then upd r else r) (sel_first (\<lambda>r. row_key r = k) rows)"
  using identity_upd by (induction rows) (auto simp: upd_where_def sel_first_def identity_def)

end

lemmas rollup_row_defs =
  stale_row_def building_row_def supersede_row_def ready_row_def failed_row_def deferred_row_def purged_row_def

lemmas transition_defs = rollup_row_defs identity_def row_key_def row_ok_def progress_def owns_def

interpretation stale_tr: row_transition "\<lambda>_. True" stale_row
  by unfold_locales (auto simp: transition_defs)

interpretation building_tr: row_transition "\<lambda>_. True" "building_row now nonce" for now nonce
  by unfold_locales (auto simp: transition_defs)

interpretation supersede_tr: row_transition "\<lambda>_. True" "supersede_row reason" for reason
  by unfold_locales (auto simp: transition_defs)

interpretation purged_tr: row_transition "\<lambda>_. True" purged_row
  by unfold_locales (auto simp: transition_defs)

interpretation ready_tr: row_transition "owns tok" "ready_row summ tokens fingerprint now" for tok summ tokens fingerprint now
  by unfold_locales (auto simp: transition_defs)

interpretation failed_tr: row_transition "owns tok" "failed_row err now" for tok err now
  by unfold_locales (auto simp: transition_defs)

interpretation deferred_tr: row_transition "owns tok" "deferred_row reason" for tok reason
  by unfold_locales (auto simp: transition_defs)

section \<open>The invariant of the tables\<close>

definition rollup_inv :: "rollup_db \<Rightarrow> bool" where
  "rollup_inv db = (distinct (map row_key (rollups db)) \<and> distinct (map r_rollup_id (rollups db))
     \<and> (\<forall>r \<in> set (rollups db). 1 \<le> r_rollup_id r \<and> r_rollup_id r \<le> rollup_seq db \<and> row_ok r)
     \<and> 0 \<le> rollup_seq db
     \<and> distinct (rollup_sources db) \<and> (\<forall>s \<in> set (rollup_sources db). rollup_exists (fst s) db)
     \<and> distinct (map i_event_id (invalidations db))
     \<and> (\<forall>i \<in> set (invalidations db). i_event_id i \<le> event_seq db \<and> i_covered_start i \<le> i_covered_end i))"

definition evolves :: "rollup_db \<Rightarrow> rollup_db \<Rightarrow> bool" where
  "evolves db db' = (rollup_seq db \<le> rollup_seq db' \<and> (\<forall>r' \<in> set (rollups db').
     rollup_seq db < r_rollup_id r'
     \<or> (\<exists>r \<in> set (rollups db). r_rollup_id r = r_rollup_id r' \<and> (r' = r \<or> progress r < progress r'))))"

lemma evolves_refl [simp]: "evolves db db"
  by (auto simp: evolves_def)

lemma evolves_same_rows: "rollups db' = rollups db \<Longrightarrow> rollup_seq db' = rollup_seq db \<Longrightarrow> evolves db db'"
  by (auto simp: evolves_def)

lemma evolves_trans:
  assumes "evolves a b" "evolves b c" shows "evolves a c"
  unfolding evolves_def
proof (intro conjI ballI)
  show "rollup_seq a \<le> rollup_seq c" using assms by (auto simp: evolves_def)
next
  fix r'' assume r'': "r'' \<in> set (rollups c)"
  show "rollup_seq a < r_rollup_id r'' \<or>
      (\<exists>r \<in> set (rollups a). r_rollup_id r = r_rollup_id r'' \<and> (r'' = r \<or> progress r < progress r''))"
  proof (cases "rollup_seq b < r_rollup_id r''")
    case True
    with assms(1) show ?thesis by (auto simp: evolves_def)
  next
    case False
    with assms(2) r'' obtain r' where r': "r' \<in> set (rollups b)" "r_rollup_id r' = r_rollup_id r''"
      "r'' = r' \<or> progress r' < progress r''" unfolding evolves_def by blast
    with assms(1) consider "rollup_seq a < r_rollup_id r'"
      | r where "r \<in> set (rollups a)" "r_rollup_id r = r_rollup_id r'" "r' = r \<or> progress r < progress r'"
      unfolding evolves_def by blast
    then show ?thesis using r' by cases (auto intro: less_trans)
  qed
qed

lemma good_updates:
  "good_update rows (upd_where P stale_row rows)"
  "good_update rows (upd_where P (building_row now nonce) rows)"
  "good_update rows (upd_where P (supersede_row reason) rows)"
  "good_update rows (upd_where P purged_row rows)"
  "good_update rows (upd_where (owns tok) (ready_row summ tokens fingerprint now) rows)"
  "good_update rows (upd_where (owns tok) (failed_row err now) rows)"
  "good_update rows (upd_where (owns tok) (deferred_row reason) rows)"
  by (rule stale_tr.good building_tr.good supersede_tr.good purged_tr.good ready_tr.good failed_tr.good deferred_tr.good, simp)+

end
