(* ===== verification/Rollup_Claims.thy ===== *)
theory Rollup_Claims
  imports Rollup_Store
begin

text \<open>
  The rollup store as a transition system: one step per operation of
  \<^verbatim>\<open>src/rollup_store.py\<close> and per node trigger, in any order and by any number of builders.  Every
  reachable state keeps the table invariant, every row only moves forward, and a build publishes only
  when nothing happened to its row and its sources since the claim.
\<close>

section \<open>What one operation keeps\<close>

definition keeps :: "rollup_db \<Rightarrow> rollup_db \<Rightarrow> bool" where
  "keeps db db' = ((rollup_inv db \<longrightarrow> rollup_inv db') \<and> evolves db db')"

lemma keeps_refl [simp]: "keeps db db"
  by (simp add: keeps_def)

lemma keeps_trans [trans]: "keeps a b \<Longrightarrow> keeps b c \<Longrightarrow> keeps a c"
  unfolding keeps_def using evolves_trans by blast

lemma good_update_ids: "good_update rows rows' \<Longrightarrow> r_rollup_id ` set rows' = r_rollup_id ` set rows"
  unfolding good_update_def by (metis list.set_map)

lemma rollup_exists_image: "rollup_exists rid db = (rid \<in> r_rollup_id ` set (rollups db))"
  by (auto simp: rollup_exists_def)

lemma keeps_good_update:
  assumes good: "good_update (rollups db) (rollups db')"
    and seq: "rollup_seq db' = rollup_seq db" and frame: "invalidations db' = invalidations db" "event_seq db' = event_seq db"
    and src: "rollup_inv db \<Longrightarrow> distinct (rollup_sources db')" "rollup_inv db \<Longrightarrow> \<forall>s \<in> set (rollup_sources db'). rollup_exists (fst s) db"
  shows "keeps db db'"
proof -
  have ids: "r_rollup_id ` set (rollups db') = r_rollup_id ` set (rollups db)" by (rule good_update_ids[OF good])
  have "\<forall>r \<in> set (rollups db'). 1 \<le> r_rollup_id r \<and> r_rollup_id r \<le> rollup_seq db'" if inv: "rollup_inv db"
  proof
    fix r assume "r \<in> set (rollups db')"
    then have "r_rollup_id r \<in> r_rollup_id ` set (rollups db)" using ids by blast
    then show "1 \<le> r_rollup_id r \<and> r_rollup_id r \<le> rollup_seq db'" using inv seq by (auto simp: rollup_inv_def)
  qed
  then have "rollup_inv db'" if "rollup_inv db"
    using that good src seq frame ids unfolding rollup_inv_def good_update_def rollup_exists_image by simp
  moreover have "evolves db db'" using good seq unfolding evolves_def good_update_def by auto
  ultimately show ?thesis by (simp add: keeps_def)
qed

lemma keeps_rows: "good_update (rollups db) rows \<Longrightarrow> keeps db (db\<lparr>rollups := rows\<rparr>)"
  by (rule keeps_good_update) (auto simp: rollup_inv_def)

lemma fresh_row_ok [simp]: "row_ok (fresh_row rid k Stale)" "row_ok (claimed_row k now nonce rid)"
  by (simp_all add: row_ok_def fresh_row_def claimed_row_def)

lemma fresh_row_id [simp]:
  "r_rollup_id (fresh_row rid k st) = rid" "r_rollup_id (claimed_row k now nonce rid) = rid"
  "row_key (fresh_row rid k st) = k" "row_key (claimed_row k now nonce rid) = k"
  by (simp_all add: fresh_row_def claimed_row_def row_key_def)

lemma keeps_insert:
  assumes free: "sel_first (\<lambda>r. row_key r = row_key new) (rollups db) = None"
    and new: "r_rollup_id new = rollup_seq db + 1" "row_ok new"
  shows "keeps db (db\<lparr>rollups := rollups db @ [new], rollup_seq := rollup_seq db + 1\<rparr>)"
proof -
  have "row_key new \<notin> row_key ` set (rollups db)" using free by (force simp: sel_first_None_iff)
  moreover have "rollup_inv db \<Longrightarrow> r_rollup_id new \<notin> r_rollup_id ` set (rollups db)"
    using new by (force simp: rollup_inv_def)
  ultimately have "rollup_inv (db\<lparr>rollups := rollups db @ [new], rollup_seq := rollup_seq db + 1\<rparr>)" if "rollup_inv db"
    using that new by (auto simp: rollup_inv_def rollup_exists_def)
  moreover have "evolves db (db\<lparr>rollups := rollups db @ [new], rollup_seq := rollup_seq db + 1\<rparr>)"
    using new by (auto simp: evolves_def)
  ultimately show ?thesis by (simp add: keeps_def)
qed

lemma keeps_upsert:
  assumes "\<And>rid. row_key (fresh rid) = k" "\<And>rid. r_rollup_id (fresh rid) = rid" "\<And>rid. row_ok (fresh rid)"
    and "\<And>P. good_update (rollups db) (upd_where P upd (rollups db))"
  shows "keeps db (snd (upsert k guard upd fresh db))"
  unfolding upsert_def using assms by (auto split: option.split intro!: keeps_rows keeps_insert)

lemma keeps_upsert_building: "keeps db (snd (upsert_building k now nonce db))"
  unfolding upsert_building_def Let_def snd_conv by (rule keeps_upsert) (simp_all add: good_updates)

lemma keeps_stale_upsert: "keeps db (snd (stale_upsert guard k db))"
  unfolding stale_upsert_def by (rule keeps_upsert) (simp_all add: good_updates)

lemma keeps_stale_upserts: "keeps db (snd (stale_upserts guard ks db))"
proof (induction ks arbitrary: db)
  case (Cons k ks)
  show ?case using keeps_trans[OF keeps_stale_upsert Cons.IH, of db guard k] by (simp add: case_prod_unfold)
qed simp

lemma keeps_mark_ready: "keeps db (snd (mark_ready tok summ tokens ids fp now db))"
proof (cases "sel_first (owns tok) (rollups db)")
  case (Some r)
  then have "rollup_exists (tok_rollup_id tok) db" by (auto dest!: sel_first_mem simp: owns_def rollup_exists_def)
  then have "keeps db (db\<lparr>rollups := upd_where (owns tok) (ready_row summ tokens fp now) (rollups db),
      rollup_sources := del_where (\<lambda>s. fst s = tok_rollup_id tok) (rollup_sources db) @ map (Pair (tok_rollup_id tok)) (dedup ids)\<rparr>)"
    by (intro keeps_good_update)
      (auto simp: good_updates rollup_inv_def del_where_def distinct_map inj_on_def)
  then show ?thesis using Some by (simp add: mark_ready_def keeps_rows good_updates)
qed (simp add: mark_ready_def)

lemma keeps_mark_failed: "keeps db (snd (mark_failed tok err now db))"
  by (simp add: mark_failed_def keeps_rows good_updates)

lemma keeps_defer_incomplete: "keeps db (snd (defer_incomplete tok reason db))"
  by (simp add: defer_incomplete_def keeps_rows good_updates)

lemma keeps_resolve_no_source: "keeps db (snd (resolve_no_source tok db))"
proof (cases "rowcount (owns tok) (rollups db) > 0")
  case True
  let ?db = "db\<lparr>rollups := del_where (owns tok) (rollups db),
    rollup_sources := del_where (\<lambda>s. fst s = tok_rollup_id tok) (rollup_sources db)\<rparr>"
  have "rollup_exists rid ?db" if "rollup_exists rid db" "rid \<noteq> tok_rollup_id tok" for rid
    using that by (auto simp: rollup_exists_def set_del_where owns_def)
  then have "rollup_inv ?db" if "rollup_inv db"
    using that by (auto simp: rollup_inv_def distinct_key_del_where set_del_where) (simp add: del_where_def)
  moreover have "evolves db ?db" by (auto simp: evolves_def set_del_where)
  ultimately show ?thesis using True by (simp add: resolve_no_source_def keeps_def)
qed (simp add: resolve_no_source_def)

lemma keeps_reclaim: "keeps db (snd (reclaim_stale_building now n db))"
  by (simp add: reclaim_stale_building_def Let_def keeps_rows good_updates)

lemma keeps_purge: "keeps db (snd (purge_rollups_for_sources nodes db))"
proof -
  have "keeps db (db\<lparr>rollups := upd_where (\<lambda>r. purge_hit nodes db (r_rollup_id r)) purged_row (rollups db),
      rollup_sources := del_where (\<lambda>s. purge_hit nodes db (fst s)) (rollup_sources db)\<rparr>)"
    by (rule keeps_good_update) (auto simp: good_updates rollup_inv_def del_where_def)
  then show ?thesis by (simp add: purge_rollups_for_sources_def)
qed

text \<open>Operations that only touch the outbox, the nodes or the cursors.\<close>

lemma keeps_frame:
  assumes "rollups db' = rollups db" "rollup_seq db' = rollup_seq db" "rollup_sources db' = rollup_sources db"
    and "rollup_inv db \<Longrightarrow> distinct (map i_event_id (invalidations db'))"
    and "rollup_inv db \<Longrightarrow> \<forall>i \<in> set (invalidations db'). i_event_id i \<le> event_seq db' \<and> i_covered_start i \<le> i_covered_end i"
  shows "keeps db db'"
  using assms unfolding keeps_def by (auto simp: evolves_same_rows rollup_inv_def rollup_exists_def)

lemma keeps_log: "keeps db (log_invalidation operation n (db\<lparr>rollup_nodes := nodes\<rparr>))"
proof (rule keeps_frame, goal_cases)
  case 4
  then have "event_seq db + 1 \<notin> i_event_id ` set (invalidations db)" by (force simp: rollup_inv_def)
  with 4 show ?case by (simp add: log_invalidation_def rollup_inv_def)
next
  case 5
  then show ?case by (force simp: log_invalidation_def rollup_inv_def)
qed (simp_all add: log_invalidation_def)

lemma keeps_nodes: "keeps db (db\<lparr>rollup_nodes := nodes\<rparr>)"
  by (rule keeps_frame) (auto simp: rollup_inv_def)

lemma keeps_node_inserted: "keeps db (node_inserted n db)"
  by (simp add: node_inserted_def keeps_log)

lemma keeps_node_deleted: "keeps db (node_deleted n db)"
  unfolding node_deleted_def using keeps_trans[OF keeps_log[of db "''delete''" n "rollup_nodes db"] keeps_nodes] by simp

lemma keeps_node_updated: "keeps db (node_updated old new db)"
proof -
  let ?a = "log_invalidation ''update'' old (db\<lparr>rollup_nodes := upd_where (\<lambda>m. node_id m = node_id old) (\<lambda>_. new) (rollup_nodes db)\<rparr>)"
  show ?thesis using keeps_trans[OF keeps_log keeps_log[of ?a "''update''" new "rollup_nodes ?a"]]
    by (simp add: node_updated_def)
qed

lemma keeps_set_cursor: "keeps db (set_cursor kind cursor sc built_at db)"
  by (rule keeps_frame) (auto simp: set_cursor_def rollup_inv_def)

lemma keeps_drain_days: "keeps db (snd (snd (drain_days sc current last_day budget db)))"
proof (induction sc current last_day budget db rule: drain_days.induct)
  case (1 sc current last_day budget db)
  show ?case
    by (subst drain_days.simps) (use 1 keeps_trans[OF keeps_stale_upserts] in auto)
qed

lemma keeps_event_deleted: "keeps db (db\<lparr>invalidations := del_where P (invalidations db)\<rparr>)"
  by (rule keeps_frame) (auto simp: rollup_inv_def distinct_key_del_where set_del_where)

interpretation events: keyed_table i_event_id "\<lambda>e. e\<lparr>i_next_day := Some d\<rparr>" for d
  by unfold_locales simp

lemma keeps_event_resumed: "keeps db (db\<lparr>invalidations := upd_where P (\<lambda>e. e\<lparr>i_next_day := Some d\<rparr>) (invalidations db)\<rparr>)"
  by (rule keeps_frame) (auto simp: rollup_inv_def events.distinct_upd_where set_upd_where)

lemma keeps_drain_events: "keeps db (snd (drain_events is budget db))"
proof (induction "is" budget db rule: drain_events.induct)
  case (2 i "is" budget db)
  obtain current budget' db' where days: "drain_days (i_scope i) (event_current i) (event_end i) budget db = (current, budget', db')"
    by (cases "drain_days (i_scope i) (event_current i) (event_end i) budget db") auto
  have "keeps db db'" using keeps_drain_days[of db "i_scope i" "event_current i" "event_end i" budget] days by simp
  note after = keeps_trans[OF this keeps_event_deleted] keeps_trans[OF this keeps_event_resumed]
  show ?case using days keeps_trans[OF after(1) 2] after by (simp add: Let_def)
qed simp

lemma keeps_drain: "keeps db (snd (drain_invalidations event_limit day_budget db))"
  unfolding drain_invalidations_def Let_def
  by (auto split: prod.split) (metis keeps_drain_events snd_conv)

section \<open>Runs of the store\<close>

inductive rollup_step :: "rollup_db \<Rightarrow> rollup_db \<Rightarrow> bool" where
  claim: "rollup_step db (snd (upsert_building k now nonce db))"
| publish: "rollup_step db (snd (mark_ready tok summ tokens ids fp now db))"
| fail: "rollup_step db (snd (mark_failed tok err now db))"
| release: "rollup_step db (snd (defer_incomplete tok reason db))"
| resolve: "rollup_step db (snd (resolve_no_source tok db))"
| stale_day: "rollup_step db (snd (mark_stale_for_day d sc db))"
| stale_aggregates: "rollup_step db (snd (stale_aggregates_for_day d sc db))"
| seed: "rollup_step db (snd (upsert_stale_many targets db))"
| seed_one: "rollup_step db (snd (upsert_stale k db))"
| reclaim: "rollup_step db (snd (reclaim_stale_building cutoff n db))"
| drain: "rollup_step db (snd (drain_invalidations event_limit day_budget db))"
| purge: "rollup_step db (snd (purge_rollups_for_sources nodes db))"
| cursor: "rollup_step db (set_cursor kind cur sc built_at db)"
| insert_node: "node_id n \<notin> node_id ` set (rollup_nodes db) \<Longrightarrow> rollup_step db (node_inserted n db)"
| delete_node: "n \<in> set (rollup_nodes db) \<Longrightarrow> rollup_step db (node_deleted n db)"
| update_node: "old \<in> set (rollup_nodes db) \<Longrightarrow> node_id new = node_id old \<Longrightarrow> rollup_step db (node_updated old new db)"

definition rollup_init :: rollup_db where
  "rollup_init = \<lparr>rollups = [], rollup_seq = 0, rollup_sources = [], invalidations = [], event_seq = 0,
     rollup_state = [], rollup_nodes = []\<rparr>"

definition rollup_reachable :: "rollup_db \<Rightarrow> bool" where
  "rollup_reachable db = rollup_step\<^sup>*\<^sup>* rollup_init db"

lemmas keeps_operations =
  keeps_upsert_building keeps_mark_ready keeps_mark_failed keeps_defer_incomplete keeps_resolve_no_source
  keeps_stale_upserts keeps_reclaim keeps_drain keeps_purge keeps_set_cursor
  keeps_node_inserted keeps_node_deleted keeps_node_updated

lemma keeps_step: "rollup_step db db' \<Longrightarrow> keeps db db'"
  by (induction rule: rollup_step.induct)
    (simp_all add: keeps_operations mark_stale_for_day_def stale_aggregates_for_day_def upsert_stale_many_def upsert_stale_def)

lemma keeps_steps: "rollup_step\<^sup>*\<^sup>* db db' \<Longrightarrow> keeps db db'"
  by (induction rule: rtranclp_induct) (auto intro: keeps_trans keeps_step)

lemma rollup_inv_init: "rollup_inv rollup_init"
  by (simp add: rollup_inv_def rollup_init_def)

lemma reachable_inv: "rollup_reachable db \<Longrightarrow> rollup_inv db"
  using keeps_steps rollup_inv_init by (auto simp: rollup_reachable_def keeps_def)

section \<open>What a claim can publish\<close>

definition row_at :: "period_key \<Rightarrow> rollup_db \<Rightarrow> rollup_row option" where
  "row_at k db = sel_first (\<lambda>r. row_key r = k) (rollups db)"

lemma row_at_mem: "row_at k db = Some r \<Longrightarrow> r \<in> set (rollups db) \<and> row_key r = k"
  by (auto simp: row_at_def dest: sel_first_mem)

lemma row_at_row_key: "rollup_inv db \<Longrightarrow> r \<in> set (rollups db) \<Longrightarrow> row_at (row_key r) db = Some r"
  by (simp add: row_at_def rollup_inv_def sel_key_unique)

lemma same_id_same_row:
  "rollup_inv db \<Longrightarrow> r \<in> set (rollups db) \<Longrightarrow> r' \<in> set (rollups db) \<Longrightarrow> r_rollup_id r = r_rollup_id r' \<Longrightarrow> r = r'"
  by (auto simp: rollup_inv_def distinct_map dest: inj_onD)

text \<open>
  The row is read back under the claim's own token, so \<open>upsert_building\<close> always returns one.
\<close>

lemma row_at_upsert:
  assumes "\<And>r. row_key (u r) = row_key r" "\<And>rid. row_key (f rid) = k"
  shows "row_at j (snd (upsert k g u f db)) =
    (if j = k then (case row_at k db of None \<Rightarrow> Some (f (rollup_seq db + 1)) | Some r \<Rightarrow> Some (if g r then u r else r))
     else row_at j db)"
proof (cases "row_at k db")
  case None
  then show ?thesis using assms(2)
    by (auto simp: row_at_def upsert_def sel_first_append split: option.split) (auto simp: sel_first_def)
next
  case (Some r)
  have upd: "row_at j (snd (upsert k g u f db)) = map_option (\<lambda>r. if row_key r = k \<and> g r then u r else r) (row_at j db)"
    using Some keyed_table.sel_upd_where[OF keyed_table.intro, of row_key u] assms(1) by (simp add: row_at_def upsert_def)
  show ?thesis using Some upd row_at_mem[of j db] by (cases "row_at j db") auto
qed

lemma upsert_row_exists:
  "(\<And>r. row_key (u r) = row_key r) \<Longrightarrow> (\<And>rid. row_key (f rid) = k) \<Longrightarrow> row_at k (snd (upsert k g u f db)) \<noteq> None"
  by (simp add: row_at_upsert split: option.split)

lemma row_key_building [simp]: "row_key (building_row now nonce r) = row_key r"
  by (simp add: building_row_def row_key_def)

lemma upsert_building_row:
  assumes "upsert_building k now nonce db = (t, db')"
  obtains r where "row_at k db' = Some r" "t = Some (token_of r)" "r_status r = Building"
proof -
  have db': "db' = snd (upsert k (\<lambda>_. True) (building_row now nonce) (claimed_row k now nonce) db)"
    and t: "t = map_option token_of (row_at k db')"
    using assms by (auto simp: upsert_building_def Let_def row_at_def)
  obtain r where r: "row_at k db' = Some r"
    using upsert_row_exists[of "building_row now nonce" "claimed_row k now nonce" k "\<lambda>_. True" db] db' by auto
  have "r_status r = Building"
    using r row_at_upsert[of "building_row now nonce" "claimed_row k now nonce" k k "\<lambda>_. True" db]
    by (auto simp: db' building_row_def claimed_row_def fresh_row_def row_key_def split: option.splits)
  with r t that show ?thesis by simp
qed

lemma owns_token_of: "owns (token_of r) r' \<longleftrightarrow> r_rollup_id r' = r_rollup_id r \<and> r_generation r' = r_generation r
    \<and> r_lease_nonce r' = r_lease_nonce r \<and> r_status r' = Building"
  by (simp add: owns_def token_of_def)

lemma owner_unmoved:
  assumes "rollup_inv db1" "evolves db1 db2"
    and r: "r \<in> set (rollups db1)" "r_status r = Building"
    and r2: "r2 \<in> set (rollups db2)" "owns (token_of r) r2"
  shows "r2 = r"
proof -
  have same: "r_rollup_id r2 = r_rollup_id r" "progress r2 = progress r"
    using r2(2) r(2) by (auto simp: owns_token_of progress_def)
  have "\<not> rollup_seq db1 < r_rollup_id r2" using assms(1) r(1) same by (auto simp: rollup_inv_def)
  then obtain r1 where r1: "r1 \<in> set (rollups db1)" "r_rollup_id r1 = r_rollup_id r2" "r2 = r1 \<or> progress r1 < progress r2"
    using assms(2) r2(1) unfolding evolves_def by blast
  then have "r1 = r" using same_id_same_row[OF assms(1) r1(1) r(1)] same by simp
  with r1(3) same show ?thesis by simp
qed

lemma mark_ready_published:
  assumes "mark_ready tok summ tokens ids fp now db = (Inr True, db')"
  obtains r where "r \<in> set (rollups db)" "owns tok r" "\<not> pending_mutation r db" "\<not> source_missing ids db"
    "rollups db' = upd_where (owns tok) (ready_row summ tokens fp now) (rollups db)"
    "rollup_sources db' = del_where (\<lambda>s. fst s = tok_rollup_id tok) (rollup_sources db) @ map (Pair (tok_rollup_id tok)) (dedup ids)"
proof (cases "sel_first (owns tok) (rollups db)")
  case (Some r)
  with assms have "\<not> pending_mutation r db \<and> \<not> source_missing ids db" by (auto simp: mark_ready_def split: if_splits)
  with Some assms that[of r] sel_first_mem[OF Some] show ?thesis by (auto simp: mark_ready_def)
next
  case None
  then have "fst (mark_ready tok summ tokens ids fp now db) \<noteq> Inr True" by (simp add: mark_ready_def)
  with assms show ?thesis by simp
qed

lemma sources_replaced:
  "rollup_sources db = del_where (\<lambda>s. fst s = rid) srcs @ map (Pair rid) ids \<Longrightarrow> source_node_ids_of rid db = sort ids"
  by (auto simp: source_node_ids_of_def del_where_def comp_def)

lemma claim_kept:
  assumes "rollup_reachable db" "upsert_building k now nonce db = (Some tok, db1)" "rollup_step\<^sup>*\<^sup>* db1 db2"
  obtains r where "row_at k db1 = Some r" "tok = token_of r" "r_status r = Building" "rollup_inv db2"
    "\<And>r2. r2 \<in> set (rollups db2) \<Longrightarrow> owns tok r2 \<Longrightarrow> r2 = r"
proof -
  obtain r where r: "row_at k db1 = Some r" "Some tok = Some (token_of r)" "r_status r = Building"
    using upsert_building_row[OF assms(2)] .
  have inv1: "rollup_inv db1"
    using reachable_inv[OF assms(1)] keeps_upsert_building[of db k now nonce] assms(2) by (simp add: keeps_def)
  have run: "rollup_inv db2" "evolves db1 db2" using keeps_steps[OF assms(3)] inv1 by (auto simp: keeps_def)
  show ?thesis using that r owner_unmoved[OF inv1 run(2)] row_at_mem[OF r(1)] run(1) by auto
qed

text \<open>A day claimed in a new store, and a node written to another session meanwhile.\<close>

definition sample_rollup_node :: SummaryNode where
  "sample_rollup_node = \<lparr>node_id = 7, n_session_id = ''other'', depth = 0, summary = ''x'', token_count = 1, source_token_count = 1,
     source_ids = [1], source_type = ''messages'', created_at = 5, earliest_at = None, latest_at = None, expand_hint = []\<rparr>"

definition sample_key :: period_key where
  "sample_key = (Day, 719163, ''s'')"

definition sample_token :: RollupBuildToken where
  "sample_token = \<lparr>tok_rollup_id = 1, tok_generation = 0, tok_nonce = ''n''\<rparr>"

definition sample_claimed :: rollup_db where
  "sample_claimed = snd (upsert_building sample_key 0 ''n'' rollup_init)"

definition sample_written :: rollup_db where
  "sample_written = node_inserted sample_rollup_node sample_claimed"

definition sample_stale :: rollup_db where
  "sample_stale = snd (mark_stale_for_day 719163 ''s'' sample_written)"

lemma sample_claim: "upsert_building sample_key 0 ''n'' rollup_init = (Some sample_token, sample_claimed)"
  by code_simp

lemma sample_reachable: "rollup_reachable rollup_init" "rollup_step\<^sup>*\<^sup>* sample_claimed sample_written"
  "rollup_step\<^sup>*\<^sup>* sample_claimed sample_stale" "rollup_reachable sample_written"
proof -
  show r: "rollup_step\<^sup>*\<^sup>* sample_claimed sample_written"
    unfolding sample_written_def by (rule r_into_rtranclp, rule insert_node) code_simp
  show "rollup_step\<^sup>*\<^sup>* sample_claimed sample_stale"
    unfolding sample_stale_def by (rule rtranclp.rtrancl_into_rtrancl[OF r]) (rule stale_day)
  have "rollup_step\<^sup>*\<^sup>* rollup_init sample_claimed"
    unfolding sample_claimed_def by (rule r_into_rtranclp) (rule claim)
  with r show "rollup_reachable sample_written" by (simp add: rollup_reachable_def)
qed (simp add: rollup_reachable_def)

text \<open>
  In every state the store can reach from an empty database, by any sequence of its operations and
  of node writes, the tables are well formed: one row per period, ids that are never reused, a lease
  exactly on the rows being built, a summary on every ready row, lineage that refers to existing rows and
  is free of duplicates, and outbox events with distinct ids and ordered bounds.
\<close>

theorem rollup_tables_well_formed: "rollup_reachable db \<Longrightarrow> rollup_inv db"
  by (rule reachable_inv)

theorem rollup_tables_well_formed_witness: "rollup_inv sample_written \<and> length (rollups sample_written) = 1"
  using rollup_tables_well_formed[OF sample_reachable(4)] by (intro conjI) (simp, code_simp)

lemma published_claim:
  assumes "rollup_reachable db" "upsert_building k now nonce db = (Some tok, db1)" "rollup_step\<^sup>*\<^sup>* db1 db2"
    and "mark_ready tok summ tokens ids fp now' db2 = (Inr True, db3)"
  shows "\<exists>r. row_at k db1 = Some r \<and> row_at k db2 = Some r \<and> row_at k db3 = Some (ready_row summ tokens fp now' r)
    \<and> \<not> pending_mutation r db2 \<and> set ids \<subseteq> node_id ` set (rollup_nodes db2)
    \<and> source_node_ids_of (r_rollup_id r) db3 = sort (dedup ids)"
proof -
  from claim_kept[OF assms(1-3)] obtain r where r: "row_at k db1 = Some r" "tok = token_of r" "rollup_inv db2"
    "\<And>r2. r2 \<in> set (rollups db2) \<Longrightarrow> owns tok r2 \<Longrightarrow> r2 = r" by metis
  obtain r2 where r2: "r2 \<in> set (rollups db2)" "owns tok r2" "\<not> pending_mutation r2 db2" "\<not> source_missing ids db2"
    and db3: "rollups db3 = upd_where (owns tok) (ready_row summ tokens fp now') (rollups db2)"
    and src: "rollup_sources db3 = del_where (\<lambda>s. fst s = tok_rollup_id tok) (rollup_sources db2) @ map (Pair (tok_rollup_id tok)) (dedup ids)"
    using mark_ready_published[OF assms(4)] .
  have "r2 = r" using r(4) r2 by simp
  then have at2: "row_at k db2 = Some r" using row_at_row_key[OF r(3) r2(1)] row_at_mem[OF r(1)] by simp
  then have "row_at k db3 = Some (ready_row summ tokens fp now' r)"
    using r2(2) \<open>r2 = r\<close> unfolding row_at_def db3 ready_tr.sel_key_upd by simp
  moreover have "source_node_ids_of (r_rollup_id r) db3 = sort (dedup ids)"
    using sources_replaced[OF src] r(2) by (simp add: token_of_def)
  ultimately show ?thesis using r(1) at2 r2 \<open>r2 = r\<close> by (auto simp: source_missing_def)
qed



text \<open>
  A builder whose row has moved since its claim has no effect any more: publishing, failing,
  deferring and clearing all report the loss and leave every table as it is.
\<close>

theorem superseded_token_powerless:
  assumes "rollup_reachable db" "upsert_building k now nonce db = (Some tok, db1)" "rollup_step\<^sup>*\<^sup>* db1 db2"
    and "row_at k db2 \<noteq> row_at k db1"
  shows "mark_ready tok summ tokens ids fp now' db2 = (if rollup_exists (tok_rollup_id tok) db2 then Inr False else Inl (), db2)"
    and "mark_failed tok err now' db2 = (False, db2)" "defer_incomplete tok reason db2 = (False, db2)"
    and "resolve_no_source tok db2 = (False, db2)"
proof -
  from claim_kept[OF assms(1-3)] obtain r where r: "row_at k db1 = Some r" "rollup_inv db2"
    "\<And>r2. r2 \<in> set (rollups db2) \<Longrightarrow> owns tok r2 \<Longrightarrow> r2 = r" by metis
  have none: "\<forall>r2 \<in> set (rollups db2). \<not> owns tok r2"
    using r(3) row_at_row_key[OF r(2)] row_at_mem[OF r(1)] assms(4) r(1) by metis
  then have "sel_first (owns tok) (rollups db2) = None" "rowcount (owns tok) (rollups db2) = 0"
    by (simp_all add: sel_first_None_iff rowcount_zero_iff)
  then show "mark_ready tok summ tokens ids fp now' db2 = (if rollup_exists (tok_rollup_id tok) db2 then Inr False else Inl (), db2)"
    "mark_failed tok err now' db2 = (False, db2)" "defer_incomplete tok reason db2 = (False, db2)"
    "resolve_no_source tok db2 = (False, db2)"
    using upd_where_id[OF none] by (simp_all add: mark_ready_def mark_failed_def defer_incomplete_def resolve_no_source_def)
qed

theorem superseded_token_powerless_witness:
  "mark_ready sample_token ''d'' 3 [7] ''fp'' 9 sample_stale = (Inr False, sample_stale)"
proof -
  have "row_at sample_key sample_stale \<noteq> row_at sample_key sample_claimed" "rollup_exists (tok_rollup_id sample_token) sample_stale"
    by code_simp+
  with superseded_token_powerless(1)[OF sample_reachable(1) sample_claim sample_reachable(3)] show ?thesis by simp
qed

end
