(* ===== verification/Rollup_Leases.thy ===== *)
theory Rollup_Leases
  imports Rollup_Claims
begin

text \<open>
  What the rollup store promises its builders, as an abstract machine: a register of leases, one per
  period.  A period is absent, held by one build token, or open with the outcome of its last build.  Every
  operation of the store implements one step of that machine under the abstraction \<open>phases\<close>.
\<close>

section \<open>The abstract machine\<close>

datatype phase = Held RollupBuildToken | Open rollup_status

type_synonym leases = "period_key \<Rightarrow> phase option"

definition settle :: "RollupBuildToken \<Rightarrow> phase option \<Rightarrow> leases \<Rightarrow> leases" where
  "settle tok out m = (\<lambda>k. if m k = Some (Held tok) then out else m k)"

definition invalidate :: "period_key set \<Rightarrow> leases \<Rightarrow> leases" where
  "invalidate K m = (\<lambda>k. if k \<in> K then Some (Open Stale) else m k)"

inductive lease_step :: "leases \<Rightarrow> leases \<Rightarrow> bool" where
  take_lease: "\<forall>j. m j \<noteq> Some (Held tok) \<Longrightarrow> lease_step m (m(k \<mapsto> Held tok))"
| settle_lease: "out \<in> {Some (Open Ready), Some (Open Stale), Some (Open Failed), None} \<Longrightarrow> lease_step m (settle tok out m)"
| invalidate_periods: "lease_step m (invalidate K m)"

lemma invalidate_invalidate [simp]: "invalidate J (invalidate K m) = invalidate (K \<union> J) m"
  by (auto simp: invalidate_def)

lemma invalidate_none [simp]: "invalidate {} m = m"
  by (simp add: invalidate_def)

text \<open>One state is the other with some periods invalidated.\<close>

definition invalidated :: "leases \<Rightarrow> leases \<Rightarrow> bool" where
  "invalidated m m' = (\<exists>K. m' = invalidate K m)"

lemma invalidated_refl [simp]: "invalidated m m"
  unfolding invalidated_def by (rule exI[of _ "{}"]) simp

lemma invalidated_trans: "invalidated a b \<Longrightarrow> invalidated b c \<Longrightarrow> invalidated a c"
  unfolding invalidated_def by auto

lemma invalidated_invalidate [simp]: "invalidated m (invalidate K m)"
  by (auto simp: invalidated_def)

lemma invalidated_step: "invalidated m m' \<Longrightarrow> lease_step m m'"
  by (auto simp: invalidated_def intro: lease_step.intros)

section \<open>The abstraction\<close>

definition phase_of :: "rollup_row \<Rightarrow> phase" where
  "phase_of r = (if r_status r = Building then Held (token_of r) else Open (r_status r))"

definition phases :: "rollup_db \<Rightarrow> leases" where
  "phases db k = map_option phase_of (row_at k db)"

lemma phase_of_held: "phase_of r = Held tok \<longleftrightarrow> owns tok r"
  by (cases tok) (auto simp: phase_of_def owns_def token_of_def)

lemma phase_of_rows [simp]:
  "phase_of (stale_row r) = Open Stale" "phase_of (supersede_row reason r) = Open Stale"
  "phase_of (purged_row r) = Open Stale" "phase_of (ready_row summ tokens fp now r) = Open Ready"
  "phase_of (failed_row err now r) = Open Failed" "phase_of (deferred_row reason r) = Open Stale"
  "phase_of (fresh_row rid k Stale) = Open Stale"
  by (simp_all add: phase_of_def rollup_row_defs fresh_row_def)

lemma row_keys [simp]:
  "row_key (stale_row r) = row_key r" "row_key (supersede_row reason r) = row_key r"
  "row_key (purged_row r) = row_key r" "row_key (ready_row summ tokens fp now r) = row_key r"
  "row_key (failed_row err now r) = row_key r" "row_key (deferred_row reason r) = row_key r"
  by (simp_all add: row_key_def rollup_row_defs)

lemma phases_cong: "rollups db = rollups db' \<Longrightarrow> phases db = phases db'"
  by (simp add: phases_def row_at_def fun_eq_iff)

text \<open>An UPDATE whose new rows are all open with one status.\<close>

lemma phases_upd_where:
  assumes "\<And>r. row_key (u r) = row_key r" "\<And>r. phase_of (u r) = Open st" "rollups db' = upd_where P u (rollups db)"
  shows "phases db' k = (if \<exists>r. row_at k db = Some r \<and> P r then Some (Open st) else phases db k)"
proof -
  have "row_at k db' = map_option (\<lambda>r. if P r then u r else r) (row_at k db)"
    using keyed_table.sel_upd_where[OF keyed_table.intro, of row_key u] assms(1) by (simp add: row_at_def assms(3))
  then show ?thesis using assms(2) by (cases "row_at k db") (auto simp: phases_def)
qed

lemma phases_invalidated:
  assumes "\<And>r. row_key (u r) = row_key r" "\<And>r. phase_of (u r) = Open Stale" "rollups db' = upd_where P u (rollups db)"
  shows "phases db' = invalidate {k. \<exists>r. row_at k db = Some r \<and> P r} (phases db)"
  using phases_upd_where[OF assms] by (simp add: invalidate_def fun_eq_iff)

lemma phases_settled:
  assumes "\<And>r. row_key (u r) = row_key r" "\<And>r. phase_of (u r) = Open st" "rollups db' = upd_where (owns tok) u (rollups db)"
  shows "phases db' = settle tok (Some (Open st)) (phases db)"
proof
  fix k
  have "(\<exists>r. row_at k db = Some r \<and> owns tok r) \<longleftrightarrow> phases db k = Some (Held tok)"
    by (auto simp: phases_def phase_of_held)
  then show "phases db' k = settle tok (Some (Open st)) (phases db) k"
    using phases_upd_where[OF assms, of k] by (simp add: settle_def)
qed

lemma settle_unheld: "\<forall>k. m k \<noteq> Some (Held tok) \<Longrightarrow> settle tok out m = m"
  by (auto simp: settle_def)

lemma not_held_iff:
  assumes "rollup_inv db"
  shows "(\<forall>k. phases db k \<noteq> Some (Held tok)) \<longleftrightarrow> (\<forall>r \<in> set (rollups db). \<not> owns tok r)"
proof
  assume "\<forall>k. phases db k \<noteq> Some (Held tok)"
  then have "phases db (row_key r) \<noteq> Some (Held tok)" for r by blast
  then show "\<forall>r \<in> set (rollups db). \<not> owns tok r"
    using row_at_row_key[OF assms] by (auto simp: phases_def phase_of_held)
next
  assume none: "\<forall>r \<in> set (rollups db). \<not> owns tok r"
  show "\<forall>k. phases db k \<noteq> Some (Held tok)"
  proof
    fix k show "phases db k \<noteq> Some (Held tok)"
      using none row_at_mem[of k db] by (cases "row_at k db") (auto simp: phases_def phase_of_held)
  qed
qed

lemma settle_unowned: "rollup_inv db \<Longrightarrow> \<forall>r \<in> set (rollups db). \<not> owns tok r \<Longrightarrow> settle tok out (phases db) = phases db"
  by (rule settle_unheld) (simp only: not_held_iff)

section \<open>Each operation is a step\<close>

lemma phases_upsert_stale:
  "phases (snd (stale_upsert g k db)) = invalidate {j. j = k \<and> (\<forall>r. row_at k db = Some r \<longrightarrow> g r)} (phases db)"
proof
  fix j
  have "row_at j (snd (stale_upsert g k db)) = (if j = k then (case row_at k db of None \<Rightarrow> Some (fresh_row (rollup_seq db + 1) k Stale)
      | Some r \<Rightarrow> Some (if g r then stale_row r else r)) else row_at j db)"
    unfolding stale_upsert_def by (rule row_at_upsert) simp_all
  then show "phases (snd (stale_upsert g k db)) j =
      invalidate {j. j = k \<and> (\<forall>r. row_at k db = Some r \<longrightarrow> g r)} (phases db) j"
    by (cases "row_at k db") (auto simp: phases_def invalidate_def)
qed

lemma phases_stale_upserts: "phases (snd (stale_upserts (\<lambda>_. True) ks db)) = invalidate (set ks) (phases db)"
proof (induction ks arbitrary: db)
  case (Cons k ks)
  then show ?case by (simp add: case_prod_unfold phases_upsert_stale)
qed simp

text \<open>Seeding leaves a held period alone.\<close>

definition unheld :: "leases \<Rightarrow> period_key \<Rightarrow> bool" where
  "unheld m k = (\<forall>tok. m k \<noteq> Some (Held tok))"

lemma unheld_invalidate [simp]: "unheld (invalidate K m) k = (k \<in> K \<or> unheld m k)"
  by (auto simp: unheld_def invalidate_def)

lemma phases_seed: "phases (snd (stale_upserts not_building ks db)) = invalidate {k \<in> set ks. unheld (phases db) k} (phases db)"
proof (induction ks arbitrary: db)
  case (Cons k ks)
  have "{j. j = k \<and> (\<forall>r. row_at k db = Some r \<longrightarrow> not_building r)} = {j. j = k \<and> unheld (phases db) k}"
    by (auto simp: phases_def phase_of_def not_building_def unheld_def)
  then have "phases (snd (stale_upserts not_building (k # ks) db)) =
      invalidate ({j. j = k \<and> unheld (phases db) k} \<union> {j \<in> set ks. j = k \<and> unheld (phases db) k \<or> unheld (phases db) j}) (phases db)"
    using Cons by (simp add: case_prod_unfold phases_upsert_stale)
  also have "{j. j = k \<and> unheld (phases db) k} \<union> {j \<in> set ks. j = k \<and> unheld (phases db) k \<or> unheld (phases db) j}
      = {j \<in> set (k # ks). unheld (phases db) j}" by auto
  finally show ?case .
qed simp

lemma drain_days_invalidates: "invalidated (phases db) (phases (snd (snd (drain_days sc current last_day budget db))))"
proof (induction sc current last_day budget db rule: drain_days.induct)
  case (1 sc current last_day budget db)
  have "invalidated (phases db) (phases (snd (stale_upserts (\<lambda>_. True) (day_keys current sc) db)))"
    by (simp add: phases_stale_upserts)
  from invalidated_trans[OF this 1] show ?case by (subst drain_days.simps) simp
qed

lemma phases_outbox [simp]: "phases (db\<lparr>invalidations := is\<rparr>) = phases db"
  by (rule phases_cong) simp

lemma drain_events_invalidates: "invalidated (phases db) (phases (snd (drain_events is budget db)))"
proof (induction "is" budget db rule: drain_events.induct)
  case (2 i "is" budget db)
  obtain current budget' db' where days: "drain_days (i_scope i) (event_current i) (event_end i) budget db = (current, budget', db')"
    by (cases "drain_days (i_scope i) (event_current i) (event_end i) budget db") auto
  then have "invalidated (phases db) (phases db')"
    using drain_days_invalidates[of db "i_scope i" "event_current i" "event_end i" budget] by simp
  then show ?case using days 2 by (auto simp: Let_def intro: invalidated_trans)
qed simp

lemma drain_invalidates: "invalidated (phases db) (phases (snd (drain_invalidations event_limit day_budget db)))"
  using drain_events_invalidates unfolding drain_invalidations_def Let_def case_prod_unfold by simp

lemma claim_token_fresh:
  assumes "rollup_inv db" "upsert_building k now nonce db = (Some tok, db')"
  shows "phases db j \<noteq> Some (Held tok)" "phases db' = (phases db)(k \<mapsto> Held tok)"
proof -
  have db': "db' = snd (upsert k (\<lambda>_. True) (building_row now nonce) (claimed_row k now nonce) db)"
    using assms(2) by (auto simp: upsert_building_def Let_def)
  obtain r where r: "row_at k db' = Some r" "Some tok = Some (token_of r)" "r_status r = Building"
    using upsert_building_row[OF assms(2)] .
  have row: "row_at j db' = (if j = k then Some r else row_at j db)" for j
    using row_at_upsert[of "building_row now nonce" "claimed_row k now nonce" k j "\<lambda>_. True" db] r(1)
    unfolding db' by auto
  show "phases db' = (phases db)(k \<mapsto> Held tok)" using r row by (auto simp: phases_def phase_of_def fun_eq_iff)
  have new: "\<not> owns tok q" if q: "q \<in> set (rollups db)" for q
  proof (cases "row_at k db")
    case None
    then have "r = claimed_row k now nonce (rollup_seq db + 1)"
      using r(1) row_at_upsert[of "building_row now nonce" "claimed_row k now nonce" k k "\<lambda>_. True" db] unfolding db' by simp
    then show ?thesis using q assms(1) r(2) by (auto simp: owns_token_of rollup_inv_def)
  next
    case (Some r0)
    then have "r = building_row now nonce r0"
      using r(1) row_at_upsert[of "building_row now nonce" "claimed_row k now nonce" k k "\<lambda>_. True" db] unfolding db' by simp
    then show ?thesis using same_id_same_row[OF assms(1) q, of r0] row_at_mem[OF Some] r(2)
      by (auto simp: owns_token_of building_row_def)
  qed
  then show "phases db j \<noteq> Some (Held tok)" using not_held_iff[OF assms(1)] by blast
qed

lemma mark_ready_settles:
  assumes "rollup_inv db"
  shows "phases (snd (mark_ready tok summ tokens ids fp now db)) =
    settle tok (Some (Open (if fst (mark_ready tok summ tokens ids fp now db) = Inr True then Ready else Stale))) (phases db)"
proof (cases "sel_first (owns tok) (rollups db)")
  case None
  then have "settle tok out (phases db) = phases db" for out
    by (intro settle_unowned[OF assms]) (simp add: sel_first_None_iff)
  with None show ?thesis by (simp add: mark_ready_def)
next
  case (Some r)
  then show ?thesis
    using phases_settled[of "ready_row summ tokens fp now" Ready _ tok db]
      phases_settled[of "supersede_row ''source mutation pending''" Stale _ tok db]
      phases_settled[of "supersede_row ''source changed during build''" Stale _ tok db]
    by (auto simp: mark_ready_def)
qed

lemma mark_failed_settles: "phases (snd (mark_failed tok err now db)) = settle tok (Some (Open Failed)) (phases db)"
  by (rule phases_settled[of "failed_row err now"]) (simp_all add: mark_failed_def)

lemma defer_settles: "phases (snd (defer_incomplete tok reason db)) = settle tok (Some (Open Stale)) (phases db)"
  by (rule phases_settled[of "deferred_row reason"]) (simp_all add: defer_incomplete_def)

lemma resolve_settles:
  assumes "rollup_inv db"
  shows "phases (snd (resolve_no_source tok db)) = settle tok None (phases db)"
proof (cases "rowcount (owns tok) (rollups db) > 0")
  case True
  have "row_at k (snd (resolve_no_source tok db)) =
      (case row_at k db of None \<Rightarrow> None | Some r \<Rightarrow> if owns tok r then None else Some r)" for k
    using True sel_key_del_where[of row_key "rollups db" k "owns tok"] assms
    by (simp add: resolve_no_source_def row_at_def rollup_inv_def)
  then show ?thesis by (auto simp: phases_def settle_def phase_of_held fun_eq_iff split: option.split)
next
  case False
  then have "settle tok None (phases db) = phases db"
    by (intro settle_unowned[OF assms]) (simp add: rowcount_zero_iff)
  with False show ?thesis by (simp add: resolve_no_source_def)
qed

lemma phases_frame [simp]:
  "phases (set_cursor kind cur sc built_at db) = phases db" "phases (node_inserted n db) = phases db"
  "phases (node_deleted n db) = phases db" "phases (node_updated old new db) = phases db"
  by (rule phases_cong, simp add: set_cursor_def node_inserted_def node_deleted_def node_updated_def log_invalidation_def)+

lemma purge_invalidates: "invalidated (phases db) (phases (snd (purge_rollups_for_sources nodes db)))"
proof (cases "nodes = []")
  case False
  then show ?thesis
    using phases_invalidated[of purged_row "snd (purge_rollups_for_sources nodes db)" "\<lambda>r. purge_hit nodes db (r_rollup_id r)" db]
    by (simp add: purge_rollups_for_sources_def)
qed (simp add: purge_rollups_for_sources_def)

lemma reclaim_invalidates: "invalidated (phases db) (phases (snd (reclaim_stale_building cutoff n db)))"
  using phases_invalidated[of stale_row "snd (reclaim_stale_building cutoff n db)" _ db]
  by (simp add: reclaim_stale_building_def Let_def)

lemmas invalidating_operations =
  drain_invalidates purge_invalidates reclaim_invalidates

lemmas seeding_defs = mark_stale_for_day_def stale_aggregates_for_day_def upsert_stale_many_def upsert_stale_def

lemma claim_refines: "rollup_inv db \<Longrightarrow> lease_step (phases db) (phases (snd (upsert_building k now nonce db)))"
proof -
  assume inv: "rollup_inv db"
  obtain t db' where c: "upsert_building k now nonce db = (t, db')" by fastforce
  obtain r where "t = Some (token_of r)" using upsert_building_row[OF c] .
  with c claim_token_fresh[OF inv, of k now nonce "token_of r" db'] show ?thesis
    by (auto intro: take_lease)
qed

lemma step_refines: "rollup_step db db' \<Longrightarrow> rollup_inv db \<Longrightarrow> lease_step (phases db) (phases db')"
proof (induction rule: rollup_step.induct)
  case (publish db tok summ tokens ids fp now)
  then show ?case unfolding mark_ready_settles[OF publish] by (intro settle_lease) simp
qed (auto simp: mark_failed_settles defer_settles resolve_settles phases_seed phases_stale_upserts seeding_defs
    intro: claim_refines settle_lease invalidate_periods invalidated_step invalidating_operations)

text \<open>
  C5: The store implements the register of leases: from every reachable state, whichever operation
  runs, the periods' phases change by one step of the abstract machine - a claim takes a lease under a
  token nobody holds, only the token that holds a period settles it, and everything else either leaves
  the phases alone or makes periods stale.
\<close>

theorem rollup_store_refines_leases:
  "rollup_reachable db \<Longrightarrow> rollup_step db db' \<Longrightarrow> lease_step (phases db) (phases db')"
  by (rule step_refines[OF _ reachable_inv])

theorem rollup_store_refines_leases_witness:
  "lease_step (phases sample_written) (phases (snd (mark_failed sample_token ''boom'' 9 sample_written)))
    \<and> phases (snd (mark_failed sample_token ''boom'' 9 sample_written)) sample_key = Some (Open Failed)"
proof (rule conjI)
  show "lease_step (phases sample_written) (phases (snd (mark_failed sample_token ''boom'' 9 sample_written)))"
    by (rule rollup_store_refines_leases[OF sample_reachable(4)]) (rule fail)
qed code_simp

end
