(* ===== verification/Rollup_Drain.thy ===== *)
theory Rollup_Drain
  imports Rollup_Leases
begin

text \<open>
  Draining the outbox of node mutations (\<open>drain_invalidations\<close>): an event leaves the outbox only once
  every period it may have changed is stale, long events resume where the budget stopped them, and
  repeated passes empty the outbox.
\<close>

section \<open>One event\<close>

text \<open>How many days a pass takes of an event.\<close>

definition days_taken :: "date \<Rightarrow> date \<Rightarrow> nat \<Rightarrow> nat" where
  "days_taken current last_day budget = min budget (nat (last_day + 1 - current))"

lemma days_taken_step:
  "current \<le> last_day \<Longrightarrow> 0 < budget \<Longrightarrow>
     days_taken current last_day budget = Suc (days_taken (current + 1) last_day (budget - 1))"
  by (simp add: days_taken_def min_def) linarith

lemma drain_days_counts:
  "fst (drain_days sc current last_day budget db) = current + int (days_taken current last_day budget)"
  "fst (snd (drain_days sc current last_day budget db)) = budget - days_taken current last_day budget"
proof (induction sc current last_day budget db rule: drain_days.induct)
  case (1 sc current last_day budget db)
  note stop = days_taken_def
  { case 1
    show ?case using "1.IH"(1) days_taken_step[of current last_day budget]
      by (subst drain_days.simps) (auto simp: stop) }
  { case 2
    show ?case using "1.IH"(2) days_taken_step[of current last_day budget]
      by (subst drain_days.simps) (auto simp: stop) }
qed

lemma upsert_outbox [simp]: "invalidations (snd (upsert k g u f db)) = invalidations db"
  by (simp add: upsert_def split: option.split)

lemma stale_upserts_outbox [simp]: "invalidations (snd (stale_upserts g ks db)) = invalidations db"
  by (induction ks arbitrary: db) (simp_all add: case_prod_unfold stale_upsert_def)

lemma drain_days_outbox [simp]: "invalidations (snd (snd (drain_days sc current last_day budget db))) = invalidations db"
proof (induction sc current last_day budget db rule: drain_days.induct)
  case (1 sc current last_day budget db)
  then show ?case by (subst drain_days.simps) simp
qed

lemma invalidated_stale: "invalidated m m' \<Longrightarrow> m k = Some (Open Stale) \<Longrightarrow> m' k = Some (Open Stale)"
  by (auto simp: invalidated_def invalidate_def)

lemma drain_days_stale:
  "current \<le> d \<Longrightarrow> d < fst (drain_days sc current last_day budget db) \<Longrightarrow> k \<in> set (day_keys d sc) \<Longrightarrow>
     phases (snd (snd (drain_days sc current last_day budget db))) k = Some (Open Stale)"
proof (induction sc current last_day budget db rule: drain_days.induct)
  case (1 sc current last_day budget db)
  let ?db = "snd (stale_upserts (\<lambda>_. True) (day_keys current sc) db)"
  show ?case
  proof (cases "current \<le> last_day \<and> 0 < budget")
    case True
    then have unfold: "drain_days sc current last_day budget db = drain_days sc (current + 1) last_day (budget - 1) ?db"
      by (subst drain_days.simps) simp
    show ?thesis
    proof (cases "d = current")
      case True
      then have "phases ?db k = Some (Open Stale)" using 1(4) by (simp add: phases_stale_upserts invalidate_def)
      then show ?thesis unfolding unfold by (rule invalidated_stale[OF drain_days_invalidates])
    next
      case False
      then show ?thesis using 1 True unfold by simp
    qed
  next
    case False
    then show ?thesis using 1(2,3) by (subst (asm) drain_days.simps) auto
  qed
qed

section \<open>A pass over the outbox\<close>

abbreviation outbox_ids :: "rollup_db \<Rightarrow> int set" where
  "outbox_ids db \<equiv> i_event_id ` set (invalidations db)"

text \<open>What one event of the pass does: its days, then its removal or its resume point.\<close>

definition after_days :: "invalidation \<Rightarrow> nat \<Rightarrow> rollup_db \<Rightarrow> rollup_db" where
  "after_days i budget db = snd (snd (drain_days (i_scope i) (event_current i) (event_end i) budget db))"

definition finishes :: "invalidation \<Rightarrow> nat \<Rightarrow> bool" where
  "finishes i budget = (nat (event_end i + 1 - event_current i) \<le> budget)"

lemma drain_events_Cons:
  "drain_events (i # is) budget db =
     (let n = days_taken (event_current i) (event_end i) budget; db' = after_days i budget db in
      if finishes i budget
      then (let db'' = db'\<lparr>invalidations := del_where (\<lambda>e. i_event_id e = i_event_id i) (invalidations db)\<rparr>
            in if budget - n = 0 then (0, db'') else drain_events is (budget - n) db'')
      else (budget - n, db'\<lparr>invalidations := upd_where (\<lambda>e. i_event_id e = i_event_id i)
              (\<lambda>e. e\<lparr>i_next_day := Some (event_current i + int n)\<rparr>) (invalidations db)\<rparr>))"
proof -
  let ?n = "days_taken (event_current i) (event_end i) budget"
  have days: "drain_days (i_scope i) (event_current i) (event_end i) budget db =
      (event_current i + int ?n, budget - ?n, after_days i budget db)"
    unfolding after_days_def by (simp add: prod_eq_iff drain_days_counts)
  have "event_end i < event_current i + int ?n \<longleftrightarrow> finishes i budget"
    unfolding days_taken_def finishes_def by linarith
  then show ?thesis
    using drain_days_outbox[of "i_scope i" "event_current i" "event_end i" budget db]
    unfolding after_days_def[symmetric] by (simp add: days Let_def)
qed

declare drain_events.simps(2) [simp del]

lemma after_days_outbox [simp]: "invalidations (after_days i budget db) = invalidations db"
  by (simp add: after_days_def)

lemma resumed_ids [simp]:
  "i_event_id ` set (upd_where P (\<lambda>e. e\<lparr>i_next_day := Some d\<rparr>) evs) = i_event_id ` set evs"
  using arg_cong[OF events.keys_upd_where, of set] by simp

lemma deleted_ids [simp]:
  "i_event_id ` set (del_where (\<lambda>e. i_event_id e = j) evs) = i_event_id ` set evs - {j}"
  by (auto simp: set_del_where)

lemma drain_events_keeps_others:
  "j \<in> outbox_ids db \<Longrightarrow> j \<notin> i_event_id ` set is \<Longrightarrow> j \<in> outbox_ids (snd (drain_events is budget db))"
proof (induction "is" arbitrary: budget db)
  case (Cons i "is")
  then show ?case by (simp add: drain_events_Cons Let_def)
qed simp

lemma after_days_stale:
  assumes "finishes i budget" "event_current i \<le> d" "d \<le> event_end i" "k \<in> set (day_keys d (i_scope i))"
  shows "phases (after_days i budget db) k = Some (Open Stale)"
  unfolding after_days_def
proof (rule drain_days_stale[of "event_current i" d])
  show "d < fst (drain_days (i_scope i) (event_current i) (event_end i) budget db)"
    unfolding drain_days_counts using assms(1,3) by (auto simp: days_taken_def finishes_def min_def split: if_splits)
qed (use assms in simp_all)

lemma drained_days_stale:
  assumes "distinct (map i_event_id is)" "i \<in> set is" "i_event_id i \<in> outbox_ids db"
    and "i_event_id i \<notin> outbox_ids (snd (drain_events is budget db))"
    and d: "event_current i \<le> d" "d \<le> event_end i" "k \<in> set (day_keys d (i_scope i))"
  shows "phases (snd (drain_events is budget db)) k = Some (Open Stale)"
  using assms(1-4)
proof (induction "is" arbitrary: budget db)
  case (Cons j "is")
  show ?case
  proof (cases "i = j")
    case True
    then have fin: "finishes i budget" using Cons.prems by (simp add: drain_events_Cons Let_def split: if_splits)
    have "phases (after_days i budget db) k = Some (Open Stale)" by (rule after_days_stale[OF fin d])
    then show ?thesis using fin True invalidated_stale[OF drain_events_invalidates] by (simp add: drain_events_Cons Let_def)
  next
    case False
    then have "i \<in> set is" using Cons.prems by auto
    moreover from this have "i_event_id i \<noteq> i_event_id j" using Cons.prems(1) by (metis distinct.simps(2) image_eqI list.set_map list.simps(9))
    ultimately show ?thesis using Cons by (auto simp: drain_events_Cons Let_def split: if_splits)
  qed
qed simp

lemma drain_pass:
  assumes "rollup_inv db"
  obtains "snd (drain_invalidations event_limit day_budget db) = db"
  | "is" where "distinct (map i_event_id is)" "set is \<subseteq> set (invalidations db)"
      "0 < event_limit" "0 < day_budget" "is = take (nat event_limit) (sort_key i_event_id (invalidations db))"
      "snd (drain_invalidations event_limit day_budget db) = snd (drain_events is (nat day_budget) db)"
proof (cases "0 < event_limit \<and> 0 < day_budget")
  case True
  let ?is = "take (nat event_limit) (sort_key i_event_id (invalidations db))"
  have "distinct (map i_event_id (sort_key i_event_id (invalidations db)))"
    using assms by (auto simp: rollup_inv_def distinct_map)
  then have "distinct (map i_event_id ?is)" by (simp add: take_map[symmetric])
  moreover have "set ?is \<subseteq> set (invalidations db)" using set_take_subset by fastforce
  ultimately show ?thesis using that(2)[of ?is] True
    by (simp add: drain_invalidations_def Let_def case_prod_unfold max_def)
next
  case False
  then show ?thesis using that(1) by (auto simp: drain_invalidations_def Let_def max_def)
qed

section \<open>Every period an event touches\<close>

fun period_start_of :: "period_kind \<Rightarrow> date \<Rightarrow> date" where
  "period_start_of Day d = d"
| "period_start_of Week d = week_start d"
| "period_start_of Month d = month_start d"

lemma ex_period_kind: "(\<exists>kind. P kind) \<longleftrightarrow> P Day \<or> P Week \<or> P Month"
  by (metis period_kind.exhaust)

lemma day_keys_iff: "k \<in> set (day_keys d sc) \<longleftrightarrow> (\<exists>kind. k = (kind, period_start_of kind d, sc))"
  unfolding ex_period_kind by (auto simp: day_keys_def period_starts_for_day_def)

text \<open>
  A row whose window meets the event's interval holds a day of the event: its own first day, or the
  event's.
\<close>

lemma period_day_in_window:
  assumes "1 \<le> first" "period_start_of kind first = first" "first \<le> d" "d \<le> period_end_day kind first"
  shows "period_start_of kind d = first"
proof (cases kind)
  case Day then show ?thesis using assms by simp
next
  case Week then show ?thesis using assms weeks.within[of first d] by simp
next
  case Month then show ?thesis using assms months.within[of first d] by simp
qed

lemma window_meets_event:
  assumes "whole_microseconds (i_covered_start i)" "whole_microseconds (i_covered_end i)" "i_covered_start i \<le> i_covered_end i"
    and "1 \<le> r_period_start r" "period_start_of (r_period_kind r) (r_period_start r) = r_period_start r"
    and "i_covered_start i < window_end r" "window_start r \<le> i_covered_end i"
    and "r_period_start r \<le> period_end_day (r_period_kind r) (r_period_start r)"
  shows "max (event_start i) (r_period_start r) \<le> event_end i
    \<and> period_start_of (r_period_kind r) (max (event_start i) (r_period_start r)) = r_period_start r"
proof -
  let ?s = "date_of_timestamp (i_covered_start i)" and ?e = "date_of_timestamp (i_covered_end i)"
  have "?s \<le> ?e"
    using assms(3) date_of_timestamp_iff(2)[OF assms(1), of ?s] date_of_timestamp_iff(2)[OF assms(2), of ?s] by simp
  then have ev: "event_start i = ?s" "event_end i = ?e" by (simp_all add: event_start_def event_end_def)
  let ?d = "max ?s (r_period_start r)"
  have "?s < period_end_day (r_period_kind r) (r_period_start r) + 1" "r_period_start r \<le> ?e"
    using assms(6,7) date_of_timestamp_iff(1)[OF assms(1)] date_of_timestamp_iff(2)[OF assms(2)]
    unfolding window_end_def window_start_def by blast+
  then have "?d \<le> period_end_day (r_period_kind r) (r_period_start r)" "?s \<le> ?d" "?d \<le> ?e"
    using assms(8) \<open>?s \<le> ?e\<close> by auto
  with period_day_in_window[OF assms(4,5), of ?d] ev show ?thesis by simp
qed

lemma period_end_ge: "1 \<le> d \<Longrightarrow> period_start_of kind d = d \<Longrightarrow> d \<le> period_end_day kind d"
  using months.next_gt[of d] by (cases kind) auto

text \<open>
  When a drain pass removes an event that it processed from its first day, every rollup row of the
  event's scope whose window meets the interval the mutation covered - the day, week and month rows alike
  - is stale in the resulting state.
\<close>

theorem drained_event_is_stale:
  assumes "rollup_reachable db" "i \<in> set (invalidations db)" "i_next_day i = None"
    and "drain_invalidations event_limit day_budget db = (n, db')" "i_event_id i \<notin> outbox_ids db'"
    and "whole_microseconds (i_covered_start i)" "whole_microseconds (i_covered_end i)"
    and "r \<in> set (rollups db')" "r_scope r = i_scope i"
    and "1 \<le> r_period_start r" "period_start_of (r_period_kind r) (r_period_start r) = r_period_start r"
    and "i_covered_start i < window_end r" "window_start r \<le> i_covered_end i"
  shows "r_status r = Stale"
proof -
  have inv: "rollup_inv db" by (rule reachable_inv[OF assms(1)])
  then have inv': "rollup_inv db'" using keeps_drain[of db event_limit day_budget] assms(4) by (simp add: keeps_def)
  have "db' \<noteq> db" using assms(2,5) by auto
  with drain_pass[OF inv, of event_limit day_budget] assms(4)
  obtain "is" where "is": "distinct (map i_event_id is)" "set is \<subseteq> set (invalidations db)"
    "db' = snd (drain_events is (nat day_budget) db)" by (metis snd_conv)
  have mem: "i_event_id i \<in> outbox_ids db" using assms(2) by simp
  have "i_event_id i \<in> i_event_id ` set is" using drain_events_keeps_others[OF mem] assms(5) "is"(3) by blast
  then have "i \<in> set is" using inv assms(2) "is"(2) by (auto simp: rollup_inv_def distinct_map dest: inj_onD)
  have "i_covered_start i \<le> i_covered_end i" using inv assms(2) by (auto simp: rollup_inv_def)
  from window_meets_event[OF assms(6,7) this assms(10-13) period_end_ge[OF assms(10,11)]]
  obtain d where d: "event_start i \<le> d" "d \<le> event_end i" "period_start_of (r_period_kind r) d = r_period_start r"
    by (metis max.cobounded1)
  then have "row_key r \<in> set (day_keys d (i_scope i))" using assms(9) by (auto simp: day_keys_iff row_key_def)
  with drained_days_stale[OF "is"(1) \<open>i \<in> set is\<close> mem, of "nat day_budget" d "row_key r"] d assms(3,5) "is"(3)
  have "phases db' (row_key r) = Some (Open Stale)" by (simp add: event_current_def)
  then show ?thesis using row_at_row_key[OF inv' assms(8)] by (simp add: phases_def phase_of_def split: if_splits)
qed

text \<open>The sample node's session has a claimed day row of its own when the outbox is drained.\<close>

definition sample_other :: rollup_db where
  "sample_other = snd (upsert_building (Day, 719163, ''other'') 3 ''m'' sample_written)"

lemma sample_other_reachable: "rollup_reachable sample_other"
  using sample_reachable(4) claim unfolding rollup_reachable_def sample_other_def by (rule rtranclp.rtrancl_into_rtrancl)

definition sample_event :: invalidation where
  "sample_event = \<lparr>i_event_id = 1, i_node_id = 7, i_scope = ''other'', i_covered_start = 5, i_covered_end = 5,
     i_next_day = None, i_operation = ''insert''\<rparr>"

definition sample_drained_row :: rollup_row where
  "sample_drained_row = stale_row (claimed_row (Day, 719163, ''other'') 3 ''m'' 2)"

theorem drained_event_is_stale_witness: "r_status sample_drained_row = Stale \<and> sample_event \<in> set (invalidations sample_other)"
proof -
  let ?d = "drain_invalidations 10 10 sample_other"
  have ev: "sample_event \<in> set (invalidations sample_other)" by code_simp
  moreover have "i_event_id sample_event \<notin> outbox_ids (snd ?d)" by code_simp
  moreover have "whole_microseconds (i_covered_start sample_event)" "whole_microseconds (i_covered_end sample_event)"
    by (simp_all add: sample_event_def whole_microseconds_def)
  moreover have "sample_drained_row \<in> set (rollups (snd ?d))" by code_simp
  moreover have "i_next_day sample_event = None" "r_scope sample_drained_row = i_scope sample_event"
      "1 \<le> r_period_start sample_drained_row" by code_simp+
  moreover have "period_start_of (r_period_kind sample_drained_row) (r_period_start sample_drained_row) = r_period_start sample_drained_row"
    by code_simp
  moreover have "i_covered_start sample_event < window_end sample_drained_row" "window_start sample_drained_row \<le> i_covered_end sample_event"
    by code_simp+
  ultimately show ?thesis
    using drained_event_is_stale[OF sample_other_reachable, of sample_event 10 10 "fst ?d" "snd ?d" sample_drained_row] by simp
qed

section \<open>The outbox empties\<close>

lemma id_notin: "j \<notin> i_event_id ` set evs \<Longrightarrow> e \<in> set evs \<Longrightarrow> i_event_id e \<noteq> j"
  by blast

definition event_work :: "invalidation \<Rightarrow> nat" where
  "event_work i = Suc (nat (event_end i + 1 - event_current i))"

definition outbox_work :: "rollup_db \<Rightarrow> nat" where
  "outbox_work db = (\<Sum>i \<leftarrow> invalidations db. event_work i)"

lemma work_deleted:
  "distinct (map i_event_id evs) \<Longrightarrow> i \<in> set evs \<Longrightarrow>
     (\<Sum>e \<leftarrow> del_where (\<lambda>e. i_event_id e = i_event_id i) evs. event_work e) + event_work i = (\<Sum>e \<leftarrow> evs. event_work e)"
proof (induction evs)
  case (Cons e evs)
  have "i_event_id i \<notin> i_event_id ` set evs \<Longrightarrow> del_where (\<lambda>e. i_event_id e = i_event_id i) evs = evs"
    by (simp add: del_where_def filter_id_conv id_notin)
  with Cons show ?case by (auto simp: del_where_def)
qed simp

lemma work_resumed:
  assumes "distinct (map i_event_id evs)" "i \<in> set evs" "n \<le> nat (event_end i + 1 - event_current i)"
  shows "(\<Sum>e \<leftarrow> upd_where (\<lambda>e. i_event_id e = i_event_id i) (\<lambda>e. e\<lparr>i_next_day := Some (event_current i + int n)\<rparr>) evs. event_work e) + n
    = (\<Sum>e \<leftarrow> evs. event_work e)"
  using assms(1,2)
proof (induction evs)
  case (Cons e evs)
  have one: "event_work (i\<lparr>i_next_day := Some (event_current i + int n)\<rparr>) + n = event_work i"
    using assms(3) by (auto simp: event_work_def event_current_def event_end_def)
  have "i_event_id i \<notin> i_event_id ` set evs \<Longrightarrow> upd_where (\<lambda>e. i_event_id e = i_event_id i) f evs = evs" for f
    by (rule upd_where_id) (simp add: id_notin)
  moreover have "upd_where P f (e # evs) = (if P e then f e else e) # upd_where P f evs" for P and f :: "invalidation \<Rightarrow> invalidation"
    by (simp add: upd_where_def)
  ultimately show ?case using Cons one by auto
qed simp

lemma drain_events_work:
  assumes "distinct (map i_event_id is)" "set is \<subseteq> set (invalidations db)" "distinct (map i_event_id (invalidations db))" "0 < budget"
  shows "outbox_work (snd (drain_events is budget db)) + (if is = [] then 0 else 1) \<le> outbox_work db"
  using assms
proof (induction "is" arbitrary: budget db)
  case (Cons i "is")
  let ?db = "(after_days i budget db)\<lparr>invalidations := del_where (\<lambda>e. i_event_id e = i_event_id i) (invalidations db)\<rparr>"
  let ?n = "days_taken (event_current i) (event_end i) budget"
  have i: "i \<in> set (invalidations db)" using Cons.prems by simp
  show ?case
  proof (cases "finishes i budget")
    case True
    have db: "outbox_work ?db + event_work i = outbox_work db"
      using work_deleted[OF Cons.prems(3) i] by (simp add: outbox_work_def)
    have "set is \<subseteq> set (invalidations ?db)" "distinct (map i_event_id (invalidations ?db))"
      using Cons.prems id_notin[of "i_event_id i" "is"] by (auto simp: set_del_where distinct_key_del_where)
    then have "0 < b \<Longrightarrow> outbox_work (snd (drain_events is b ?db)) \<le> outbox_work ?db" for b
      using Cons.IH[of ?db b] Cons.prems(1) by (auto split: if_splits)
    then have "outbox_work (snd (drain_events (i # is) budget db)) \<le> outbox_work ?db"
      using True by (simp add: drain_events_Cons Let_def)
    moreover have "1 \<le> event_work i" by (simp add: event_work_def)
    ultimately show ?thesis using db by simp
  next
    case False
    have "?n \<le> nat (event_end i + 1 - event_current i)" "0 < ?n" using False Cons.prems(4) by (auto simp: days_taken_def finishes_def)
    then show ?thesis using False work_resumed[OF Cons.prems(3) i, of ?n] by (simp add: drain_events_Cons Let_def outbox_work_def)
  qed
qed simp

lemma drain_work:
  assumes "rollup_inv db" "0 < event_limit" "0 < day_budget" "invalidations db \<noteq> []"
  shows "outbox_work (snd (drain_invalidations event_limit day_budget db)) < outbox_work db"
proof -
  let ?is = "take (nat event_limit) (sort_key i_event_id (invalidations db))"
  have nil: "?is \<noteq> []" using assms(2,4) by (metis length_greater_0_conv length_sort take_eq_Nil zero_less_nat_eq less_irrefl)
  have dist: "distinct (map i_event_id ?is)"
    using assms(1) by (simp add: take_map[symmetric]) (auto simp: rollup_inv_def distinct_map)
  have "set ?is \<subseteq> set (invalidations db)" using set_take_subset by fastforce
  from drain_events_work[OF dist this, of "nat day_budget"] nil assms
  show ?thesis by (simp add: rollup_inv_def drain_invalidations_def Let_def case_prod_unfold max_def)
qed

text \<open>
  C30: Repeated maintenance drains the outbox: with a positive event limit and day budget, as many passes
  as there is work in the outbox (one unit per event and per calendar day it still has to expand) leave no
  pending mutation, however long the events span.
\<close>

theorem drain_empties_outbox:
  assumes "rollup_reachable db" "0 < event_limit" "0 < day_budget" "outbox_work db \<le> passes"
  shows "invalidations (((\<lambda>db. snd (drain_invalidations event_limit day_budget db)) ^^ passes) db) = []"
proof -
  have "rollup_inv db \<Longrightarrow> outbox_work db \<le> passes \<Longrightarrow>
      invalidations (((\<lambda>db. snd (drain_invalidations event_limit day_budget db)) ^^ passes) db) = []" for db
  proof (induction passes arbitrary: db)
    case 0
    then show ?case by (cases "invalidations db") (auto simp: outbox_work_def event_work_def)
  next
    case (Suc passes)
    let ?db = "snd (drain_invalidations event_limit day_budget db)"
    have "rollup_inv ?db" using keeps_drain Suc.prems(1) by (simp add: keeps_def)
    moreover have "outbox_work ?db \<le> passes"
    proof (cases "invalidations db = []")
      case True
      then show ?thesis by (simp add: drain_invalidations_def Let_def outbox_work_def)
    next
      case False
      then show ?thesis using drain_work[OF Suc.prems(1) assms(2,3)] Suc.prems(2) by simp
    qed
    ultimately show ?case using Suc.IH[of ?db] by (simp add: funpow_Suc_right del: funpow.simps)
  qed
  with assms reachable_inv show ?thesis by blast
qed

theorem drain_empties_outbox_witness:
  "invalidations (((\<lambda>db. snd (drain_invalidations 1 1 db)) ^^ 2) sample_written) = [] \<and> invalidations sample_written \<noteq> []"
proof (rule conjI)
  have "outbox_work sample_written \<le> 2" by code_simp
  then show "invalidations (((\<lambda>db. snd (drain_invalidations 1 1 db)) ^^ 2) sample_written) = []"
    by (intro drain_empties_outbox[OF sample_reachable(4)]) simp_all
qed code_simp

end
