(* ===== verification/Rollup_Frozen.thy ===== *)
theory Rollup_Frozen
  imports Rollup_Drain
begin

text \<open>
  The point of claiming before reading: whatever ran between a claim and a successful publication, the
  summary nodes that the claimed period covers are the same at both ends.
\<close>

section \<open>Events survive until their days are stale\<close>

lemma event_current_resumed [simp]: "event_current (e\<lparr>i_next_day := Some d\<rparr>) = d"
  by (simp add: event_current_def)

definition resumed :: "invalidation \<Rightarrow> invalidation \<Rightarrow> bool" where
  "resumed e e' = (\<exists>x. e' = e\<lparr>i_next_day := x\<rparr>)"

lemma resumed_refl [simp]: "resumed e e"
proof -
  have "e = e\<lparr>i_next_day := i_next_day e\<rparr>" by simp
  then show ?thesis unfolding resumed_def by metis
qed

lemma still_pending: "e \<in> set evs \<Longrightarrow> event_current e \<le> d \<Longrightarrow> \<exists>e' \<in> set evs. resumed e e' \<and> event_current e' \<le> d"
  by (rule bexI[of _ e]) simp_all

lemma drain_event_fate:
  assumes "distinct (map i_event_id is)" "set is \<subseteq> set (invalidations db)" "distinct (map i_event_id (invalidations db))"
    and "e \<in> set (invalidations db)" and d: "event_current e \<le> d" "d \<le> event_end e" "k \<in> set (day_keys d (i_scope e))"
  shows "(\<exists>e' \<in> set (invalidations (snd (drain_events is budget db))). resumed e e' \<and> event_current e' \<le> d)
    \<or> phases (snd (drain_events is budget db)) k = Some (Open Stale)"
  using assms(1-4)
proof (induction "is" arbitrary: budget db)
  case Nil
  then show ?case using still_pending[OF Nil(4) d(1)] by simp
next
  case (Cons i "is")
  let ?n = "days_taken (event_current i) (event_end i) budget"
  let ?del = "(after_days i budget db)\<lparr>invalidations := del_where (\<lambda>e. i_event_id e = i_event_id i) (invalidations db)\<rparr>"
  have i: "i \<in> set (invalidations db)" using Cons.prems by simp
  have same: "e = i" if "i_event_id e = i_event_id i"
    using that Cons.prems(3,4) i by (auto simp: distinct_map dest: inj_onD)
  show ?case
  proof (cases "e = i")
    case True
    show ?thesis
    proof (cases "finishes i budget")
      case fin: True
      have "phases ?del k = Some (Open Stale)" using after_days_stale[of i budget d k db] fin True d by simp
      then show ?thesis using fin invalidated_stale[OF drain_events_invalidates] by (simp add: drain_events_Cons Let_def)
    next
      case False
      show ?thesis
      proof (cases "d < event_current i + int ?n")
        case True
        have "phases (after_days i budget db) k = Some (Open Stale)"
          unfolding after_days_def
          by (rule drain_days_stale[of "event_current i" d]) (use True \<open>e = i\<close> d in \<open>simp_all add: drain_days_counts\<close>)
        with False show ?thesis by (simp add: drain_events_Cons Let_def)
      next
        case late: False
        have "e\<lparr>i_next_day := Some (event_current i + int ?n)\<rparr>
            \<in> set (invalidations (snd (drain_events (i # is) budget db)))"
          using False True Cons.prems(4) by (auto simp: drain_events_Cons Let_def set_upd_where)
        moreover have "resumed e (e\<lparr>i_next_day := Some (event_current i + int ?n)\<rparr>)" by (auto simp: resumed_def)
        ultimately show ?thesis using late by (intro disjI1 bexI conjI) simp_all
      qed
    qed
  next
    case False
    then have ne: "i_event_id e \<noteq> i_event_id i" using same by blast
    have "set is \<subseteq> set (invalidations ?del)" "distinct (map i_event_id (invalidations ?del))" "e \<in> set (invalidations ?del)"
      using Cons.prems id_notin[of "i_event_id i" "is"] ne by (auto simp: set_del_where distinct_key_del_where)
    from Cons.IH[OF _ this] Cons.prems(1)
    have del: "(\<exists>e' \<in> set (invalidations (snd (drain_events is b ?del))). resumed e e' \<and> event_current e' \<le> d)
        \<or> phases (snd (drain_events is b ?del)) k = Some (Open Stale)" for b by simp
    have kept: "e \<in> set (invalidations ?del)" "e \<in> set (upd_where (\<lambda>e. i_event_id e = i_event_id i) f (invalidations db))" for f
      using Cons.prems(4) ne by (auto simp: set_del_where set_upd_where)
    show ?thesis
    proof (cases "finishes i budget \<and> budget - ?n \<noteq> 0")
      case True
      then show ?thesis using del[of "budget - ?n"] by (simp add: drain_events_Cons Let_def)
    next
      case stop: False
      have "e \<in> set (invalidations (snd (drain_events (i # is) budget db)))"
        using stop kept by (auto simp: drain_events_Cons Let_def)
      then show ?thesis using still_pending[OF _ d(1)] by blast
    qed
  qed
qed

lemma drain_fate:
  assumes "rollup_inv db" "e \<in> set (invalidations db)" "event_current e \<le> d" "d \<le> event_end e" "k \<in> set (day_keys d (i_scope e))"
  shows "(\<exists>e' \<in> set (invalidations (snd (drain_invalidations event_limit day_budget db))). resumed e e' \<and> event_current e' \<le> d)
    \<or> phases (snd (drain_invalidations event_limit day_budget db)) k = Some (Open Stale)"
proof -
  have "distinct (map i_event_id (invalidations db))" using assms(1) by (simp add: rollup_inv_def)
  note fate = drain_event_fate[OF _ _ this assms(2-5)]
  from drain_pass[OF assms(1), of event_limit day_budget] show ?thesis
  proof cases
    case 1
    then show ?thesis using still_pending[OF assms(2,3)] by simp
  next
    case (2 "is")
    show ?thesis unfolding 2(6) by (rule fate[OF 2(1,2)])
  qed
qed

section \<open>The nodes of a claimed window\<close>

definition node_meets :: "rollup_row \<Rightarrow> SummaryNode \<Rightarrow> bool" where
  "node_meets r n = (n_session_id n = r_scope r \<and> min (covered_from n) (covered_to n) < window_end r
     \<and> window_start r \<le> max (covered_from n) (covered_to n))"

definition window_nodes :: "rollup_row \<Rightarrow> rollup_db \<Rightarrow> SummaryNode list" where
  "window_nodes r db = filter (node_meets r) (rollup_nodes db)"

definition pending_for :: "rollup_row \<Rightarrow> invalidation \<Rightarrow> bool" where
  "pending_for r e = (i_scope e = r_scope r \<and> i_covered_start e < window_end r \<and> window_start r \<le> i_covered_end e
     \<and> event_current e \<le> max (event_start e) (r_period_start r))"

definition micro_events :: "rollup_db \<Rightarrow> bool" where
  "micro_events db = (\<forall>e \<in> set (invalidations db). whole_microseconds (i_covered_start e) \<and> whole_microseconds (i_covered_end e))"

lemma event_bounds_resumed [simp]:
  "event_start (e\<lparr>i_next_day := x\<rparr>) = event_start e" "event_end (e\<lparr>i_next_day := x\<rparr>) = event_end e"
  by (simp_all add: event_start_def event_end_def)

text \<open>A drain that leaves the claimed row alone leaves its event pending.\<close>

lemma drain_keeps_pending:
  assumes inv: "rollup_inv db" and micro: "micro_events db" and e: "e \<in> set (invalidations db)" "pending_for r e"
    and r: "1 \<le> r_period_start r" "period_start_of (r_period_kind r) (r_period_start r) = r_period_start r"
    and row: "row_at (row_key r) (snd (drain_invalidations event_limit day_budget db)) = Some r" "r_status r = Building"
  shows "\<exists>e' \<in> set (invalidations (snd (drain_invalidations event_limit day_budget db))). pending_for r e'"
proof -
  let ?d = "max (event_start e) (r_period_start r)"
  have "whole_microseconds (i_covered_start e)" "whole_microseconds (i_covered_end e)" "i_covered_start e \<le> i_covered_end e"
    using micro inv e(1) by (auto simp: micro_events_def rollup_inv_def)
  from window_meets_event[OF this r _ _ period_end_ge[OF r]] e(2)
  have d: "?d \<le> event_end e" "period_start_of (r_period_kind r) ?d = r_period_start r" "event_current e \<le> ?d"
    by (simp_all add: pending_for_def)
  then have "row_key r \<in> set (day_keys ?d (i_scope e))" using e(2) by (auto simp: day_keys_iff row_key_def pending_for_def)
  from drain_fate[OF inv e(1) d(3,1) this, of event_limit day_budget] row
  obtain e' where e': "e' \<in> set (invalidations (snd (drain_invalidations event_limit day_budget db)))" "resumed e e'" "event_current e' \<le> ?d"
    by (auto simp: phases_def phase_of_def)
  then have "pending_for r e'" using e(2) by (auto simp: resumed_def pending_for_def)
  with e'(1) show ?thesis ..
qed

text \<open>A node write that changes the window's nodes leaves a pending event.\<close>

lemma logged_pending:
  assumes "node_meets r n"
  shows "\<exists>e \<in> set (invalidations (log_invalidation operation n db)). pending_for r e"
  using assms by (auto simp: log_invalidation_def pending_for_def node_meets_def event_current_def)

lemma log_keeps: "set (invalidations db) \<subseteq> set (invalidations (log_invalidation operation n db))"
  "rollup_nodes (log_invalidation operation n db) = rollup_nodes db"
  by (auto simp: log_invalidation_def)

lemma filter_upd_where_other:
  "distinct (map node_id ns) \<Longrightarrow> old \<in> set ns \<Longrightarrow> \<not> P old \<Longrightarrow> \<not> P new \<Longrightarrow>
     filter P (upd_where (\<lambda>m. node_id m = node_id old) (\<lambda>_. new) ns) = filter P ns"
proof (induction ns)
  case (Cons n ns)
  have "node_id n = node_id old \<Longrightarrow> n = old" using Cons.prems(1,2) by auto
  moreover have "upd_where (\<lambda>m. node_id m = node_id old) (\<lambda>_. new) ns = ns" if "node_id old \<notin> node_id ` set ns"
    using that by (intro upd_where_id) (metis image_eqI)
  ultimately show ?case using Cons by (auto simp: upd_where_def)
qed simp

lemma filter_del_where_other:
  "distinct (map node_id ns) \<Longrightarrow> n \<in> set ns \<Longrightarrow> \<not> P n \<Longrightarrow> filter P (del_where (\<lambda>m. node_id m = node_id n) ns) = filter P ns"
  unfolding del_where_def filter_filter by (rule filter_cong[OF refl]) (auto simp: distinct_map dest: inj_onD)

lemma node_write_pending:
  assumes "distinct (map node_id (rollup_nodes db))"
  shows "window_nodes r (node_inserted n db) = window_nodes r db \<or> (\<exists>e \<in> set (invalidations (node_inserted n db)). pending_for r e)"
    and "n \<in> set (rollup_nodes db) \<Longrightarrow>
      window_nodes r (node_deleted n db) = window_nodes r db \<or> (\<exists>e \<in> set (invalidations (node_deleted n db)). pending_for r e)"
    and "old \<in> set (rollup_nodes db) \<Longrightarrow>
      window_nodes r (node_updated old new db) = window_nodes r db \<or> (\<exists>e \<in> set (invalidations (node_updated old new db)). pending_for r e)"
proof -
  show "window_nodes r (node_inserted n db) = window_nodes r db \<or> (\<exists>e \<in> set (invalidations (node_inserted n db)). pending_for r e)"
    using logged_pending[of r n] by (cases "node_meets r n") (auto simp: node_inserted_def window_nodes_def log_keeps)
  show "window_nodes r (node_deleted n db) = window_nodes r db \<or> (\<exists>e \<in> set (invalidations (node_deleted n db)). pending_for r e)"
    if "n \<in> set (rollup_nodes db)"
    using logged_pending[of r n "''delete''" db] filter_del_where_other[OF assms that, of "node_meets r"]
    by (cases "node_meets r n") (auto simp: node_deleted_def window_nodes_def)
  let ?nodes = "upd_where (\<lambda>m. node_id m = node_id old) (\<lambda>_. new) (rollup_nodes db)"
  let ?a = "log_invalidation ''update'' old (db\<lparr>rollup_nodes := ?nodes\<rparr>)"
  show "window_nodes r (node_updated old new db) = window_nodes r db \<or> (\<exists>e \<in> set (invalidations (node_updated old new db)). pending_for r e)"
    if "old \<in> set (rollup_nodes db)"
  proof (cases "node_meets r old \<or> node_meets r new")
    case True
    then show ?thesis using logged_pending[of r old "''update''" "db\<lparr>rollup_nodes := ?nodes\<rparr>"] logged_pending[of r new "''update''" ?a]
        log_keeps(1)[of ?a "''update''" new] unfolding node_updated_def by blast
  next
    case False
    then show ?thesis using filter_upd_where_other[OF assms that, of "node_meets r" new]
      by (simp add: node_updated_def window_nodes_def log_keeps)
  qed
qed

section \<open>Along a run\<close>

definition quiet :: "rollup_db \<Rightarrow> rollup_db \<Rightarrow> bool" where
  "quiet db db' = (rollup_nodes db' = rollup_nodes db \<and> set (invalidations db) \<subseteq> set (invalidations db'))"

lemma upsert_nodes [simp]: "rollup_nodes (snd (upsert k g u f db)) = rollup_nodes db"
  by (simp add: upsert_def split: option.split)

lemma stale_upserts_nodes [simp]: "rollup_nodes (snd (stale_upserts g ks db)) = rollup_nodes db"
  by (induction ks arbitrary: db) (simp_all add: case_prod_unfold stale_upsert_def)

lemma quiet_operations:
  "quiet db (snd (upsert_building k now nonce db))" "quiet db (snd (mark_ready tok summ tokens ids fp now db))"
  "quiet db (snd (mark_failed tok err now db))" "quiet db (snd (defer_incomplete tok reason db))"
  "quiet db (snd (resolve_no_source tok db))" "quiet db (snd (stale_upserts g ks db))"
  "quiet db (snd (reclaim_stale_building cutoff n db))" "quiet db (snd (purge_rollups_for_sources nodes db))"
  "quiet db (set_cursor kind cur sc built_at db)"
  by (auto simp: quiet_def upsert_building_def mark_ready_def mark_failed_def defer_incomplete_def resolve_no_source_def
      reclaim_stale_building_def purge_rollups_for_sources_def set_cursor_def Let_def split: option.split)

lemma drain_days_nodes [simp]: "rollup_nodes (snd (snd (drain_days sc current last_day budget db))) = rollup_nodes db"
proof (induction sc current last_day budget db rule: drain_days.induct)
  case (1 sc current last_day budget db)
  then show ?case by (subst drain_days.simps) simp
qed

lemma drain_nodes [simp]: "rollup_nodes (snd (drain_invalidations event_limit day_budget db)) = rollup_nodes db"
proof -
  have "rollup_nodes (snd (drain_events is budget db)) = rollup_nodes db" for "is" budget
    by (induction "is" arbitrary: budget db) (simp_all add: drain_events_Cons Let_def after_days_def)
  then show ?thesis by (simp add: drain_invalidations_def Let_def case_prod_unfold)
qed

abbreviation keyed_nodes :: "rollup_db \<Rightarrow> bool" where
  "keyed_nodes db \<equiv> distinct (map node_id (rollup_nodes db))"

lemma step_keyed: "rollup_step db db' \<Longrightarrow> keyed_nodes db \<Longrightarrow> keyed_nodes db'"
proof (induction rule: rollup_step.induct)
  case (insert_node n db)
  then show ?case by (simp add: node_inserted_def log_keeps)
next
  case (delete_node n db)
  then show ?case by (simp add: node_deleted_def distinct_key_del_where)
next
  case (update_node old db new)
  have "map node_id (upd_where (\<lambda>m. node_id m = node_id old) (\<lambda>_. new) (rollup_nodes db)) = map node_id (rollup_nodes db)"
    using update_node(2) by (auto simp: upd_where_def)
  with update_node(3) show ?case by (simp add: node_updated_def log_keeps)
qed (use quiet_operations in \<open>simp_all add: quiet_def seeding_defs\<close>)

lemma reachable_keyed: "rollup_reachable db \<Longrightarrow> keyed_nodes db"
  unfolding rollup_reachable_def
  by (induction rule: rtranclp_induct) (auto simp: rollup_init_def intro: step_keyed)

definition tracked :: "rollup_row \<Rightarrow> SummaryNode list \<Rightarrow> rollup_db \<Rightarrow> bool" where
  "tracked r nodes db = ((\<exists>e \<in> set (invalidations db). pending_for r e) \<or> window_nodes r db = nodes)"

lemma tracked_quiet: "quiet db db' \<Longrightarrow> tracked r nodes db \<Longrightarrow> tracked r nodes db'"
  by (auto simp: tracked_def quiet_def window_nodes_def)

lemmas tracked_operations = quiet_operations[THEN tracked_quiet]

lemma node_write_grows:
  "set (invalidations db) \<subseteq> set (invalidations (node_inserted n db))"
  "set (invalidations db) \<subseteq> set (invalidations (node_deleted n db))"
  "set (invalidations db) \<subseteq> set (invalidations (node_updated old new db))"
  by (auto simp: node_inserted_def node_deleted_def node_updated_def log_invalidation_def)

lemma tracked_write:
  "set (invalidations db) \<subseteq> set (invalidations db') \<Longrightarrow>
     window_nodes r db' = window_nodes r db \<or> (\<exists>e \<in> set (invalidations db'). pending_for r e) \<Longrightarrow>
     tracked r nodes db \<Longrightarrow> tracked r nodes db'"
  by (auto simp: tracked_def)

lemma tracked_step:
  assumes "rollup_step db db'" "rollup_inv db" "micro_events db" "keyed_nodes db"
    and r: "1 \<le> r_period_start r" "period_start_of (r_period_kind r) (r_period_start r) = r_period_start r" "r_status r = Building"
    and "row_at (row_key r) db' = Some r" "tracked r nodes db"
  shows "tracked r nodes db'"
  using assms
proof (induction rule: rollup_step.induct)
  case (drain db event_limit day_budget)
  from drain.prems(8) show ?case unfolding tracked_def
  proof
    assume "\<exists>e \<in> set (invalidations db). pending_for r e"
    then show "(\<exists>e \<in> set (invalidations (snd (drain_invalidations event_limit day_budget db))). pending_for r e)
        \<or> window_nodes r (snd (drain_invalidations event_limit day_budget db)) = nodes"
      using drain_keeps_pending[OF drain.prems(1,2) _ _ drain.prems(4,5,7,6)] by blast
  qed (simp add: window_nodes_def)
next
  case (insert_node n db)
  from tracked_write[OF node_write_grows(1) node_write_pending(1)] insert_node show ?case by simp
next
  case (delete_node n db)
  from tracked_write[OF node_write_grows(2) node_write_pending(2)] delete_node show ?case by simp
next
  case (update_node old db new)
  from tracked_write[OF node_write_grows(3) node_write_pending(3)] update_node show ?case by simp
qed (simp_all add: seeding_defs tracked_operations)

text \<open>A row seen again is the row of every state in between.\<close>

lemma row_unmoved_between:
  assumes "rollup_inv a" "r \<in> set (rollups a)" "evolves a b" "evolves b c" "r \<in> set (rollups c)"
  shows "r \<in> set (rollups b)"
proof -
  have id: "r_rollup_id r \<le> rollup_seq a" "rollup_seq a \<le> rollup_seq b" using assms(1-3) by (auto simp: rollup_inv_def evolves_def)
  then obtain r1 where r1: "r1 \<in> set (rollups b)" "r_rollup_id r1 = r_rollup_id r" "r = r1 \<or> progress r1 < progress r"
    using assms(4,5) unfolding evolves_def by fastforce
  then obtain r0 where r0: "r0 \<in> set (rollups a)" "r_rollup_id r0 = r_rollup_id r" "r1 = r0 \<or> progress r0 < progress r1"
    using assms(3) id unfolding evolves_def by fastforce
  have "r0 = r" using same_id_same_row[OF assms(1) r0(1) assms(2) r0(2)] .
  with r0(3) r1 show ?thesis by auto
qed

definition micro_step :: "rollup_db \<Rightarrow> rollup_db \<Rightarrow> bool" where
  "micro_step db db' = (rollup_step db db' \<and> micro_events db')"

lemma micro_steps: "micro_step\<^sup>*\<^sup>* a b \<Longrightarrow> rollup_step\<^sup>*\<^sup>* a b \<and> (micro_events a \<longrightarrow> micro_events b)"
  by (induction rule: rtranclp_induct) (auto simp: micro_step_def intro: rtranclp.rtrancl_into_rtrancl)

lemma steps_keyed: "rollup_step\<^sup>*\<^sup>* a b \<Longrightarrow> keyed_nodes a \<Longrightarrow> keyed_nodes b"
  by (induction rule: rtranclp_induct) (auto intro: step_keyed)

lemma tracked_run:
  assumes "micro_step\<^sup>*\<^sup>* db1 db2" "rollup_inv db1" "micro_events db1" "keyed_nodes db1"
    and r: "1 \<le> r_period_start r" "period_start_of (r_period_kind r) (r_period_start r) = r_period_start r" "r_status r = Building"
    and "r \<in> set (rollups db1)" "r \<in> set (rollups db2)"
  shows "tracked r (window_nodes r db1) db2"
  using assms(1,9)
proof (induction rule: rtranclp_induct)
  case base
  then show ?case by (simp add: tracked_def)
next
  case (step b c)
  have run: "rollup_step\<^sup>*\<^sup>* db1 b" "micro_events b" using micro_steps[OF step(1)] assms(3) by auto
  have st: "rollup_step b c" using step(2) by (simp add: micro_step_def)
  have inv: "rollup_inv b" "evolves db1 b" using keeps_steps[OF run(1)] assms(2) by (auto simp: keeps_def)
  have c: "rollup_inv c" "evolves b c" using keeps_step[OF st] inv(1) by (auto simp: keeps_def)
  have "r \<in> set (rollups b)" by (rule row_unmoved_between[OF assms(2,8) inv(2) c(2) step.prems])
  from step.IH[OF this] tracked_step[OF st inv(1) run(2) steps_keyed[OF run(1) assms(4)] r row_at_row_key[OF c(1) step.prems]]
  show ?case by blast
qed

text \<open>
  Claim first, read second: if a build publishes, then the summary nodes of the scope that the
  period's window meets are, at publication, exactly those that were there when the period was claimed.  No
  node write, drain, purge or competing build in between can change them unnoticed (timestamps in whole
  microseconds, the resolution of the conversion to days).
\<close>

theorem published_window_is_unchanged:
  assumes "rollup_reachable db" "upsert_building k now nonce db = (Some tok, db1)" "micro_events db1"
    and "micro_step\<^sup>*\<^sup>* db1 db2" "mark_ready tok summ tokens ids fp now' db2 = (Inr True, db3)"
    and "1 \<le> fst (snd k)" "period_start_of (fst k) (fst (snd k)) = fst (snd k)"
  shows "\<exists>r. row_at k db1 = Some r \<and> window_nodes r db2 = window_nodes r db1 \<and> window_nodes r db3 = window_nodes r db1"
proof -
  have run: "rollup_step\<^sup>*\<^sup>* db1 db2" using micro_steps[OF assms(4)] by simp
  from claim_kept[OF assms(1,2) run] obtain r where r: "row_at k db1 = Some r" "r_status r = Building" "rollup_inv db2"
    "\<And>r2. r2 \<in> set (rollups db2) \<Longrightarrow> owns tok r2 \<Longrightarrow> r2 = r" by metis
  obtain r2 where r2: "r2 \<in> set (rollups db2)" "owns tok r2" "\<not> pending_mutation r2 db2" by (rule mark_ready_published[OF assms(5)])
  have key: "r_period_kind r = fst k" "r_period_start r = fst (snd k)" using row_at_mem[OF r(1)] by (auto simp: row_key_def)
  have inv1: "rollup_inv db1" "keyed_nodes db1"
    using reachable_inv[OF assms(1)] keeps_upsert_building[of db k now nonce] assms(2) reachable_keyed[OF assms(1)]
      quiet_operations(1)[of db k now nonce] by (auto simp: keeps_def quiet_def)
  have "r2 = r" using r(4) r2 by simp
  then have "tracked r (window_nodes r db1) db2"
    using tracked_run[OF assms(4) inv1(1) assms(3) inv1(2), of r] r2(1) row_at_mem[OF r(1)] key assms(6,7) r(2) by auto
  moreover have "\<not> (\<exists>e \<in> set (invalidations db2). pending_for r e)"
    using r2(3) \<open>r2 = r\<close> by (auto simp: pending_mutation_def pending_for_def)
  ultimately have "window_nodes r db2 = window_nodes r db1" by (simp add: tracked_def)
  moreover have "rollup_nodes db3 = rollup_nodes db2"
    using quiet_operations(2)[of db2 tok summ tokens ids fp now'] assms(5) by (simp add: quiet_def)
  ultimately show ?thesis using r(1) by (auto simp: window_nodes_def)
qed

theorem published_window_is_unchanged_witness:
  "\<exists>r. row_at sample_key sample_claimed = Some r \<and> window_nodes r sample_written = window_nodes r sample_claimed"
proof -
  have pub: "mark_ready sample_token ''d'' 3 [7] ''fp'' 9 sample_written
      = (Inr True, snd (mark_ready sample_token ''d'' 3 [7] ''fp'' 9 sample_written))" by code_simp
  have micro: "micro_events sample_claimed" "micro_events sample_written" by code_simp+
  have "rollup_step sample_claimed sample_written"
    unfolding sample_written_def by (rule insert_node) code_simp
  then have "micro_step\<^sup>*\<^sup>* sample_claimed sample_written" using micro(2) by (simp add: micro_step_def r_into_rtranclp)
  from published_window_is_unchanged[OF sample_reachable(1) sample_claim micro(1) this pub] show ?thesis
    by (auto simp: sample_key_def)
qed

end
