(* ===== verification/Lineage.thy ===== *)
theory Lineage
  imports Tables
begin

text \<open>
  Source lineage of summary nodes, \<^verbatim>\<open>src/rollup_periods.py\<close>: the bounded breadth-first load of the
  transitive source graph (\<open>load_source_lineage\<close>) and the choice of nodes that cover each piece of
  content exactly once (\<open>canonical_frontier\<close>).

  The TEMP tables of the loader are integer lists kept in key order; a frozenset is an \<open>int set\<close>.
  Python's recursion limit is not modelled.
\<close>

record CoverageNode =
  cov_node_id :: int
  cov_depth :: int
  cov_source_node_ids :: "int list"
  cov_earliest_at :: "timestamp option"
  cov_latest_at :: "timestamp option"

type_synonym lineage = "(int \<times> int list) list"

datatype lineage_error = WorkLimit | Cycle int | PartialOverlap

section \<open>Loading the source graph\<close>

record lineage_state =
  frontier :: "int list"
  seen :: "int list"
  loaded :: lineage
  node_work :: int
  edge_work :: int

definition LINEAGE_BATCH :: int where "LINEAGE_BATCH = 256"

text \<open>The rows of the LEFT JOIN: a frontier id with the source type of its node, if there is one.\<close>

definition node_row :: "SummaryNode list \<Rightarrow> int \<Rightarrow> SummaryNode option" where
  "node_row nodes nid = sel_first (\<lambda>n. node_id n = nid) nodes"

definition node_edges :: "SummaryNode list \<Rightarrow> int \<Rightarrow> int list" where
  "node_edges nodes nid = (case node_row nodes nid of
     None \<Rightarrow> [] | Some n \<Rightarrow> if source_type n = ''nodes'' then source_ids n else [])"

definition edge_rows :: "SummaryNode list \<Rightarrow> int list \<Rightarrow> (int \<times> int) list" where
  "edge_rows nodes current = concat (map (\<lambda>p. map (Pair p) (node_edges nodes p)) current)"

definition insert_or_ignore :: "int list \<Rightarrow> int \<Rightarrow> int list" where
  "insert_or_ignore table i = (if i \<in> set table then table else insort i table)"

definition sources_by_parent :: "(int \<times> int) list \<Rightarrow> int \<Rightarrow> int list" where
  "sources_by_parent edges p = map snd (filter (\<lambda>e. fst e = p) edges)"

definition lineage_rows :: "SummaryNode list \<Rightarrow> (int \<times> int) list \<Rightarrow> int list \<Rightarrow> lineage" where
  "lineage_rows nodes edges current =
     map (\<lambda>p. (p, sources_by_parent edges p)) (filter (\<lambda>p. node_row nodes p \<noteq> None) current)"

definition lineage_batch :: "int \<Rightarrow> lineage_state \<Rightarrow> int list" where
  "lineage_batch work_limit st = take (nat (min LINEAGE_BATCH (work_limit - node_work st))) (frontier st)"

definition lineage_pass :: "SummaryNode list \<Rightarrow> int \<Rightarrow> lineage_state \<Rightarrow> lineage_error + lineage_state" where
  "lineage_pass nodes work_limit st =
     (let current = lineage_batch work_limit st;
          rest = filter (\<lambda>i. i \<notin> set current) (frontier st);
          seen' = foldl insert_or_ignore (seen st) current;
          edges = edge_rows nodes current
      in if work_limit - edge_work st < int (length edges) then Inl WorkLimit
         else Inr \<lparr>frontier = foldl insert_or_ignore rest (filter (\<lambda>i. i \<notin> set seen') (map snd edges)),
                   seen = seen', loaded = loaded st @ lineage_rows nodes edges current,
                   node_work = node_work st + int (length current), edge_work = edge_work st + int (length edges)\<rparr>)"

lemma lineage_pass_work:
  "lineage_pass nodes work_limit st = Inr st' \<Longrightarrow> node_work st' = node_work st + int (length (lineage_batch work_limit st))"
  by (auto simp: lineage_pass_def Let_def split: if_splits)

function lineage_loop :: "SummaryNode list \<Rightarrow> int \<Rightarrow> lineage_state \<Rightarrow> lineage_error + lineage" where
  "lineage_loop nodes work_limit st =
     (if work_limit - node_work st \<le> 0 then (if frontier st \<noteq> [] then Inl WorkLimit else Inr (loaded st))
      else if lineage_batch work_limit st = [] then Inr (loaded st)
      else (case lineage_pass nodes work_limit st of Inl e \<Rightarrow> Inl e | Inr st' \<Rightarrow> lineage_loop nodes work_limit st'))"
  by pat_completeness auto
termination
  by (relation "measure (\<lambda>(nodes, work_limit, st). nat (work_limit - node_work st))") (auto dest: lineage_pass_work)

declare lineage_loop.simps [simp del]

definition load_source_lineage :: "SummaryNode list \<Rightarrow> int list \<Rightarrow> int \<Rightarrow> lineage_error + lineage" where
  "load_source_lineage nodes root_node_ids work =
     (let roots = dedup root_node_ids in
      if roots = [] then Inr []
      else if max 0 work < int (length roots) then Inl WorkLimit
      else lineage_loop nodes (max 0 work)
             \<lparr>frontier = foldl insert_or_ignore [] roots, seen = [], loaded = [], node_work = 0, edge_work = 0\<rparr>)"

section \<open>The canonical frontier\<close>

definition sources_of :: "lineage \<Rightarrow> int \<Rightarrow> int list" where
  "sources_of lin n = (case map_of lin n of None \<Rightarrow> [] | Some ss \<Rightarrow> ss)"

lemma sources_of_key: "sources_of lin n \<noteq> [] \<Longrightarrow> n \<in> fst ` set lin"
  by (auto simp: sources_of_def split: option.splits dest: map_of_SomeD intro: rev_image_eqI)

lemma active_measure:
  assumes "sources_of lin n \<noteq> []" "n \<notin> set active"
  shows "card (fst ` set lin - insert n (set active)) < card (fst ` set lin - set active)"
  using assms sources_of_key[OF assms(1)] by (intro psubset_card_mono) auto

type_synonym leaf_memo = "(int \<times> int set) list"

text \<open>\<open>terminal_lineage\<close> with its memo; \<open>lineage_union\<close> is the generator over the source ids.\<close>

function (sequential) terminal_lineage :: "lineage \<Rightarrow> int list \<Rightarrow> leaf_memo \<Rightarrow> int \<Rightarrow> lineage_error + (int set \<times> leaf_memo)"
  and lineage_union :: "lineage \<Rightarrow> int list \<Rightarrow> leaf_memo \<Rightarrow> int list \<Rightarrow> lineage_error + (int set \<times> leaf_memo)" where
  "terminal_lineage lin active memo n =
     (case map_of memo n of Some cached \<Rightarrow> Inr (cached, memo)
      | None \<Rightarrow>
        if n \<in> set active then Inl (Cycle n)
        else if sources_of lin n = [] then Inr ({n}, (n, {n}) # memo)
        else (case lineage_union lin (n # active) memo (sources_of lin n) of
                Inl e \<Rightarrow> Inl e
              | Inr (leaves, memo') \<Rightarrow> Inr (leaves, (n, leaves) # memo')))"
| "lineage_union lin active memo [] = Inr ({}, memo)"
| "lineage_union lin active memo (s # ss) =
     (case terminal_lineage lin active memo s of
        Inl e \<Rightarrow> Inl e
      | Inr (leaves, memo') \<Rightarrow>
          (case lineage_union lin active memo' ss of
             Inl e \<Rightarrow> Inl e
           | Inr (leaves', memo'') \<Rightarrow> Inr (leaves \<union> leaves', memo'')))"
  by pat_completeness auto
termination
  by (relation "inv_image (less_than <*lex*> less_than)
      (case_sum (\<lambda>(lin, active, memo, n). (card (fst ` set lin - set active), 0))
                (\<lambda>(lin, active, memo, ss). (card (fst ` set lin - set active), Suc (length ss))))")
    (auto intro: active_measure)

declare terminal_lineage.simps [simp del]

definition full_lineage :: "lineage \<Rightarrow> CoverageNode list \<Rightarrow> lineage" where
  "full_lineage source_lineage nodes =
     foldl (\<lambda>lin n. if cov_node_id n \<in> fst ` set lin then lin else lin @ [(cov_node_id n, cov_source_node_ids n)])
       source_lineage nodes"

type_synonym leaf_groups = "(int set \<times> CoverageNode list) list"

fun add_to_group :: "int set \<Rightarrow> CoverageNode \<Rightarrow> leaf_groups \<Rightarrow> leaf_groups" where
  "add_to_group ls n [] = [(ls, [n])]"
| "add_to_group ls n (g # gs) = (if fst g = ls then (fst g, snd g @ [n]) # gs else g # add_to_group ls n gs)"

fun group_by_leaf_set :: "lineage \<Rightarrow> CoverageNode list \<Rightarrow> leaf_memo \<Rightarrow> leaf_groups \<Rightarrow> lineage_error + leaf_groups" where
  "group_by_leaf_set lin [] memo groups = Inr groups"
| "group_by_leaf_set lin (n # ns) memo groups =
     (case terminal_lineage lin [] memo (cov_node_id n) of
        Inl e \<Rightarrow> Inl e
      | Inr (ls, memo') \<Rightarrow> group_by_leaf_set lin ns memo' (add_to_group ls n groups))"

definition rank_of :: "CoverageNode \<Rightarrow> int \<times> int" where
  "rank_of n = (- cov_depth n, cov_node_id n)"

fun min_node :: "CoverageNode \<Rightarrow> CoverageNode list \<Rightarrow> CoverageNode" where
  "min_node best [] = best"
| "min_node best (n # ns) = min_node (if rank_of n < rank_of best then n else best) ns"

definition representative :: "CoverageNode list \<Rightarrow> CoverageNode" where
  "representative grp = min_node (hd grp) (tl grp)"

fun partial_overlap :: "int set list \<Rightarrow> bool" where
  "partial_overlap [] = False"
| "partial_overlap (l # rs) =
     ((\<exists>r \<in> set rs. l \<inter> r \<noteq> {} \<and> \<not> (l \<subseteq> r \<or> r \<subseteq> l)) \<or> partial_overlap rs)"

definition selected_ids :: "leaf_groups \<Rightarrow> int list" where
  "selected_ids groups =
     map (\<lambda>g. cov_node_id (representative (snd g))) (filter (\<lambda>g. \<not> (\<exists>o' \<in> set groups. fst g \<subset> fst o')) groups)"

definition canonical_frontier :: "CoverageNode list \<Rightarrow> lineage \<Rightarrow> lineage_error + CoverageNode list" where
  "canonical_frontier nodes source_lineage =
     (case group_by_leaf_set (full_lineage source_lineage nodes) nodes [] [] of
        Inl e \<Rightarrow> Inl e
      | Inr groups \<Rightarrow>
          if partial_overlap (map fst groups) then Inl PartialOverlap
          else Inr (filter (\<lambda>n. cov_node_id n \<in> set (selected_ids groups)) nodes))"

section \<open>What the loader returns\<close>

definition source_graph :: "SummaryNode list \<Rightarrow> (int \<times> int) set" where
  "source_graph nodes = {(p, s). s \<in> set (node_edges nodes p)}"

definition closure :: "SummaryNode list \<Rightarrow> int list \<Rightarrow> int set" where
  "closure nodes roots = (source_graph nodes)\<^sup>* `` set roots"

definition edge_total :: "SummaryNode list \<Rightarrow> int set \<Rightarrow> nat" where
  "edge_total nodes A = (\<Sum>p \<in> A. length (node_edges nodes p))"

lemma insert_or_ignore_simps [simp]:
  "set (insert_or_ignore t i) = insert i (set t)" "distinct (insert_or_ignore t i) = distinct t"
  by (auto simp: insert_or_ignore_def set_insort_key distinct_insort)

lemma foldl_insert_or_ignore [simp]:
  "set (foldl insert_or_ignore t xs) = set t \<union> set xs" "distinct (foldl insert_or_ignore t xs) = distinct t"
  by (induction xs arbitrary: t) auto

lemma sources_by_parent_edge_rows:
  "distinct current \<Longrightarrow> p \<in> set current \<Longrightarrow> sources_by_parent (edge_rows nodes current) p = node_edges nodes p"
proof (induction current)
  case (Cons q qs)
  have hd: "filter (\<lambda>e. fst e = p) (map (Pair q) es) = (if p = q then map (Pair q) es else [])" for es
    by (induction es) auto
  have "p \<notin> set qs \<Longrightarrow> filter (\<lambda>e. fst e = p) (edge_rows nodes qs) = []"
    by (auto simp: edge_rows_def filter_empty_conv)
  moreover have "q = p \<or> p \<in> set qs \<and> q \<noteq> p" using Cons.prems by auto
  ultimately show ?case using Cons hd by (auto simp: sources_by_parent_def edge_rows_def comp_def)
qed simp

lemma edge_rows_length: "distinct current \<Longrightarrow> length (edge_rows nodes current) = edge_total nodes (set current)"
  by (induction current) (auto simp: edge_rows_def edge_total_def)

lemma snd_edge_rows: "snd ` set (edge_rows nodes current) = (\<Union>p \<in> set current. set (node_edges nodes p))"
  by (force simp: edge_rows_def)

definition loader_inv :: "SummaryNode list \<Rightarrow> int list \<Rightarrow> int \<Rightarrow> lineage_state \<Rightarrow> bool" where
  "loader_inv nodes roots work_limit st =
     (set roots \<subseteq> set (seen st) \<union> set (frontier st) \<and> set (seen st) \<inter> set (frontier st) = {}
     \<and> (\<forall>p \<in> set (seen st). set (node_edges nodes p) \<subseteq> set (seen st) \<union> set (frontier st))
     \<and> set (seen st) \<union> set (frontier st) \<subseteq> closure nodes roots
     \<and> distinct (seen st) \<and> distinct (frontier st)
     \<and> distinct (map fst (loaded st)) \<and> set (loaded st) = {(p, node_edges nodes p) | p. p \<in> set (seen st) \<and> node_row nodes p \<noteq> None}
     \<and> node_work st = int (length (seen st)) \<and> node_work st \<le> work_limit
     \<and> edge_work st = int (edge_total nodes (set (seen st))) \<and> edge_work st \<le> work_limit)"

lemma closure_step: "p \<in> closure nodes roots \<Longrightarrow> s \<in> set (node_edges nodes p) \<Longrightarrow> s \<in> closure nodes roots"
  unfolding closure_def source_graph_def by (auto intro: rtrancl_into_rtrancl)

lemma closure_least:
  assumes "set roots \<subseteq> A" "\<And>p. p \<in> A \<Longrightarrow> set (node_edges nodes p) \<subseteq> A"
  shows "closure nodes roots \<subseteq> A"
proof
  fix x assume "x \<in> closure nodes roots"
  then obtain r where "r \<in> set roots" and path: "(r, x) \<in> (source_graph nodes)\<^sup>*" by (auto simp: closure_def)
  from path show "x \<in> A" by induction (use assms \<open>r \<in> set roots\<close> in \<open>auto simp: source_graph_def\<close>)
qed

lemma lineage_rows_set:
  "distinct current \<Longrightarrow> set (lineage_rows nodes (edge_rows nodes current) current)
     = {(p, node_edges nodes p) | p. p \<in> set current \<and> node_row nodes p \<noteq> None}"
  using sources_by_parent_edge_rows by (auto simp: lineage_rows_def)

lemma lineage_rows_keys: "map fst (lineage_rows nodes edges current) = filter (\<lambda>p. node_row nodes p \<noteq> None) current"
  by (simp add: lineage_rows_def comp_def)

lemma edge_total_Un: "A \<inter> B = {} \<Longrightarrow> finite A \<Longrightarrow> finite B \<Longrightarrow> edge_total nodes (A \<union> B) = edge_total nodes A + edge_total nodes B"
  by (simp add: edge_total_def sum.union_disjoint)

text \<open>One pass, seen as sets.\<close>

lemma lineage_pass_sets:
  assumes inv: "loader_inv nodes roots work_limit st" and pass: "lineage_pass nodes work_limit st = Inr st'"
  defines "current \<equiv> lineage_batch work_limit st"
  shows "set (seen st') = set (seen st) \<union> set current" "distinct (seen st')"
    and "set (frontier st') = (set (frontier st) - set current) \<union> ((\<Union>p \<in> set current. set (node_edges nodes p)) - set (seen st'))"
    and "distinct (frontier st')" "length (seen st') = length (seen st) + length current"
    and "edge_work st' = int (edge_total nodes (set (seen st')))" "edge_work st' \<le> work_limit"
    and "loaded st' = loaded st @ lineage_rows nodes (edge_rows nodes current) current"
proof -
  have cur: "set current \<subseteq> set (frontier st)" "distinct current"
    using inv unfolding current_def lineage_batch_def loader_inv_def by (auto dest: in_set_takeD)
  have fit: "\<not> work_limit - edge_work st < int (length (edge_rows nodes current))"
    using pass by (auto simp: lineage_pass_def Let_def current_def split: if_splits)
  have st': "seen st' = foldl insert_or_ignore (seen st) current"
    "frontier st' = foldl insert_or_ignore (filter (\<lambda>i. i \<notin> set current) (frontier st))
       (filter (\<lambda>i. i \<notin> set (seen st')) (map snd (edge_rows nodes current)))"
    "edge_work st' = edge_work st + int (length (edge_rows nodes current))"
    "loaded st' = loaded st @ lineage_rows nodes (edge_rows nodes current) current"
    using pass by (auto simp: lineage_pass_def Let_def current_def split: if_splits)
  show seen: "set (seen st') = set (seen st) \<union> set current" "distinct (seen st')" using inv by (simp_all add: st'(1) loader_inv_def)
  show "set (frontier st') = (set (frontier st) - set current) \<union> ((\<Union>p \<in> set current. set (node_edges nodes p)) - set (seen st'))"
    unfolding st'(2) foldl_insert_or_ignore by (simp add: snd_edge_rows set_diff_eq)
  show "distinct (frontier st')" using inv by (simp add: st'(2) loader_inv_def)
  have disj: "set (seen st) \<inter> set current = {}" using inv cur by (auto simp: loader_inv_def)
  show "length (seen st') = length (seen st) + length current"
    using seen disj inv cur(2) by (simp add: distinct_card[symmetric] card_Un_disjoint loader_inv_def)
  show "edge_work st' = int (edge_total nodes (set (seen st')))"
    unfolding st'(3) seen(1) edge_total_Un[OF disj finite_set finite_set] using inv edge_rows_length[OF cur(2), of nodes] by (simp add: loader_inv_def)
  show "edge_work st' \<le> work_limit" using fit st'(3) by simp
  show "loaded st' = loaded st @ lineage_rows nodes (edge_rows nodes current) current" by (rule st'(4))
qed

lemma loader_inv_pass:
  assumes inv: "loader_inv nodes roots work_limit st" and pass: "lineage_pass nodes work_limit st = Inr st'"
  shows "loader_inv nodes roots work_limit st'"
proof -
  let ?current = "lineage_batch work_limit st"
  note sets = lineage_pass_sets[OF inv pass]
  have cur: "set ?current \<subseteq> set (frontier st)" "distinct ?current" "int (length ?current) \<le> max 0 (work_limit - node_work st)"
    using inv unfolding lineage_batch_def loader_inv_def by (auto dest: in_set_takeD)
  have all: "set (seen st') \<union> set (frontier st') = set (seen st) \<union> set (frontier st) \<union> (\<Union>p \<in> set ?current. set (node_edges nodes p))"
    using sets(1,3) cur(1) by blast
  have disj: "set (seen st) \<inter> set ?current = {}" using inv cur(1) by (auto simp: loader_inv_def)
  have "distinct (map fst (loaded st'))" "set (loaded st') = {(p, node_edges nodes p) | p. p \<in> set (seen st') \<and> node_row nodes p \<noteq> None}"
  proof -
    have "fst ` set (loaded st) \<subseteq> set (seen st)" using inv by (auto simp: loader_inv_def)
    then show "distinct (map fst (loaded st'))"
      using inv disj cur(2) by (auto simp: sets(8) lineage_rows_keys loader_inv_def)
    show "set (loaded st') = {(p, node_edges nodes p) | p. p \<in> set (seen st') \<and> node_row nodes p \<noteq> None}"
    proof -
      have "set (loaded st) = {(p, node_edges nodes p) | p. p \<in> set (seen st) \<and> node_row nodes p \<noteq> None}"
        using inv unfolding loader_inv_def by blast
      then show ?thesis unfolding sets(1,8) set_append lineage_rows_set[OF cur(2)] by auto
    qed
  qed
  moreover have "set (seen st') \<union> set (frontier st') \<subseteq> closure nodes roots"
  proof -
    have "set (seen st) \<union> set (frontier st) \<subseteq> closure nodes roots" using inv unfolding loader_inv_def by blast
    then show ?thesis unfolding all using cur(1) closure_step[of _ nodes roots] by blast
  qed
  moreover have "\<forall>p \<in> set (seen st'). set (node_edges nodes p) \<subseteq> set (seen st') \<union> set (frontier st')"
  proof -
    have "\<forall>p \<in> set (seen st). set (node_edges nodes p) \<subseteq> set (seen st) \<union> set (frontier st)"
      using inv unfolding loader_inv_def by blast
    then have "\<forall>p \<in> set (seen st). set (node_edges nodes p) \<subseteq> set (seen st') \<union> set (frontier st')" unfolding all by blast
    moreover have "\<forall>p \<in> set ?current. set (node_edges nodes p) \<subseteq> set (seen st') \<union> set (frontier st')" unfolding all by blast
    ultimately show ?thesis unfolding sets(1)[symmetric] by (auto simp: sets(1))
  qed
  moreover have "set roots \<subseteq> set (seen st') \<union> set (frontier st')" unfolding all using inv by (auto simp: loader_inv_def)
  moreover have "set (seen st') \<inter> set (frontier st') = {}" using sets(1,3) inv by (auto simp: loader_inv_def)
  moreover have "node_work st' = int (length (seen st'))" "node_work st' \<le> work_limit"
    using lineage_pass_work[OF pass] sets(5) inv cur(3) by (auto simp: loader_inv_def)
  ultimately show ?thesis using sets by (simp add: loader_inv_def)
qed

lemma loader_inv_init:
  assumes "int (length (dedup roots)) \<le> work_limit"
  shows "loader_inv nodes roots work_limit
    \<lparr>frontier = foldl insert_or_ignore [] (dedup roots), seen = [], loaded = [], node_work = 0, edge_work = 0\<rparr>"
  using assms unfolding loader_inv_def closure_def edge_total_def by auto

lemma node_edges_sources: "set (node_edges nodes p) \<subseteq> (\<Union>n \<in> set nodes. set (source_ids n))"
proof (cases "node_row nodes p")
  case (Some n)
  then have "n \<in> set nodes" by (auto simp: node_row_def dest: sel_first_mem)
  with Some show ?thesis by (auto simp: node_edges_def)
qed (simp add: node_edges_def)

lemma finite_closure: "finite (closure nodes roots)"
proof -
  let ?A = "set roots \<union> (\<Union>n \<in> set nodes. set (source_ids n))"
  have "closure nodes roots \<subseteq> ?A"
    by (rule closure_least) (use node_edges_sources in blast)+
  then show ?thesis by (rule finite_subset) simp
qed

lemma loader_done:
  assumes "loader_inv nodes roots work_limit st" "frontier st = []"
  shows "set (seen st) = closure nodes roots"
    and "map_of (loaded st) p = (if p \<in> closure nodes roots \<and> node_row nodes p \<noteq> None then Some (node_edges nodes p) else None)"
    and "int (card (closure nodes roots)) \<le> work_limit" "int (edge_total nodes (closure nodes roots)) \<le> work_limit"
proof -
  show seen: "set (seen st) = closure nodes roots"
    using assms closure_least[of roots "set (seen st)" nodes] unfolding loader_inv_def by auto
  have "distinct (map fst (loaded st))" and rows: "(p, ss) \<in> set (loaded st) \<longleftrightarrow> p \<in> closure nodes roots \<and> node_row nodes p \<noteq> None \<and> ss = node_edges nodes p" for ss
    using assms(1) by (auto simp: loader_inv_def seen[symmetric])
  then show "map_of (loaded st) p = (if p \<in> closure nodes roots \<and> node_row nodes p \<noteq> None then Some (node_edges nodes p) else None)"
    using map_of_eq_Some_iff[of "loaded st" p] by (auto simp: map_of_eq_None_iff)
  show "int (card (closure nodes roots)) \<le> work_limit" "int (edge_total nodes (closure nodes roots)) \<le> work_limit"
    using assms(1) distinct_card[of "seen st"] unfolding loader_inv_def seen[symmetric] by auto
qed

text \<open>A failing loader has met more than the limit allows.\<close>

lemma loader_exceeds:
  assumes inv: "loader_inv nodes roots work_limit st"
  shows "work_limit - node_work st \<le> 0 \<Longrightarrow> frontier st \<noteq> [] \<Longrightarrow> work_limit < int (card (closure nodes roots))"
    and "lineage_pass nodes work_limit st = Inl e \<Longrightarrow> work_limit < int (edge_total nodes (closure nodes roots))"
proof -
  let ?A = "set (seen st) \<union> set (frontier st)"
  have sub: "?A \<subseteq> closure nodes roots" and disj: "set (seen st) \<inter> set (frontier st) = {}" using inv by (auto simp: loader_inv_def)
  have "card ?A = length (seen st) + length (frontier st)"
    using inv by (simp add: card_Un_disjoint[OF _ _ disj] distinct_card loader_inv_def)
  then show "work_limit < int (card (closure nodes roots))" if "work_limit - node_work st \<le> 0" "frontier st \<noteq> []"
    using that inv card_mono[OF finite_closure sub] by (cases "frontier st") (auto simp: loader_inv_def)
  let ?current = "lineage_batch work_limit st"
  have cur: "set ?current \<subseteq> set (frontier st)" "distinct ?current"
    using inv unfolding lineage_batch_def loader_inv_def by (auto dest: in_set_takeD)
  then have "set (seen st) \<inter> set ?current = {}" using disj by auto
  note tot = edge_total_Un[OF this finite_set finite_set, of nodes]
  have "edge_total nodes (set (seen st) \<union> set ?current) \<le> edge_total nodes (closure nodes roots)"
    unfolding edge_total_def using cur(1) sub by (intro sum_mono2[OF finite_closure]) auto
  then show "work_limit < int (edge_total nodes (closure nodes roots))" if "lineage_pass nodes work_limit st = Inl e"
    using that tot inv edge_rows_length[OF cur(2), of nodes] by (auto simp: lineage_pass_def Let_def loader_inv_def split: if_splits)
qed

lemma lineage_loop_spec:
  assumes "loader_inv nodes roots work_limit st"
  shows "case lineage_loop nodes work_limit st of
      Inr lin \<Rightarrow> (\<forall>p. map_of lin p = (if p \<in> closure nodes roots \<and> node_row nodes p \<noteq> None then Some (node_edges nodes p) else None))
        \<and> int (card (closure nodes roots)) \<le> work_limit \<and> int (edge_total nodes (closure nodes roots)) \<le> work_limit
    | Inl e \<Rightarrow> e = WorkLimit \<and> (work_limit < int (card (closure nodes roots)) \<or> work_limit < int (edge_total nodes (closure nodes roots)))"
  using assms
proof (induction nodes work_limit st rule: lineage_loop.induct)
  case (1 nodes work_limit st)
  note ex = loader_exceeds[OF "1.prems"]
  consider (full) "work_limit - node_work st \<le> 0" | (empty) "work_limit - node_work st > 0" "lineage_batch work_limit st = []"
    | (pass) "work_limit - node_work st > 0" "lineage_batch work_limit st \<noteq> []" by linarith
  then show ?case
  proof cases
    case full
    then show ?thesis using ex(1) loader_done[OF "1.prems"] by (subst lineage_loop.simps) auto
  next
    case empty
    then have "frontier st = []" by (auto simp: lineage_batch_def LINEAGE_BATCH_def)
    then show ?thesis using empty loader_done[OF "1.prems"] by (subst lineage_loop.simps) auto
  next
    case pass
    show ?thesis
    proof (cases "lineage_pass nodes work_limit st")
      case (Inl e)
      moreover have "e = WorkLimit" using Inl by (auto simp: lineage_pass_def Let_def split: if_splits)
      ultimately show ?thesis using pass ex(2) by (subst lineage_loop.simps) auto
    next
      case (Inr st')
      show ?thesis using "1.IH"[OF _ pass(2) Inr loader_inv_pass[OF "1.prems" Inr]] pass Inr by (subst lineage_loop.simps) auto
    qed
  qed
qed

text \<open>
  The bounded loader returns exactly the transitive source graph of its roots - every stored node
  reachable from them with its own source ids, and nothing else - when the closure has at most \<open>limit\<close>
  nodes and at most \<open>limit\<close> edges, and refuses with the work-limit error in every other case; it never
  returns a truncated graph, whatever the batches.
\<close>

theorem source_lineage_exact:
  "case load_source_lineage nodes roots work of
     Inr lin \<Rightarrow> map_of lin = (\<lambda>p. if p \<in> closure nodes roots \<and> node_row nodes p \<noteq> None then Some (node_edges nodes p) else None)
       \<and> int (card (closure nodes roots)) \<le> max 0 work \<and> int (edge_total nodes (closure nodes roots)) \<le> max 0 work
   | Inl e \<Rightarrow> e = WorkLimit \<and> (max 0 work < int (card (closure nodes roots)) \<or> max 0 work < int (edge_total nodes (closure nodes roots)))"
proof (cases "int (length (dedup roots)) \<le> max 0 work")
  case True
  show ?thesis
  proof (cases "roots = []")
    case True
    then have "closure nodes roots = {}" by (simp add: closure_def)
    with True show ?thesis by (simp add: load_source_lineage_def fun_eq_iff edge_total_def)
  next
    case False
    have "\<not> max 0 work < int (length (dedup roots))" using True by linarith
    then have "load_source_lineage nodes roots work = lineage_loop nodes (max 0 work)
        \<lparr>frontier = foldl insert_or_ignore [] (dedup roots), seen = [], loaded = [], node_work = 0, edge_work = 0\<rparr>"
      using False by (simp only: load_source_lineage_def Let_def dedup_simps if_False)
    with lineage_loop_spec[OF loader_inv_init[OF True, of nodes]] show ?thesis
      by (simp only: fun_eq_iff)
  qed
next
  case False
  have "set (dedup roots) \<subseteq> closure nodes roots" by (auto simp: closure_def)
  then have "length (dedup roots) \<le> card (closure nodes roots)"
    using card_mono[OF finite_closure] distinct_card[of "dedup roots"] by (metis dedup_simps(2))
  moreover have "roots \<noteq> []" using False by (auto simp: dedup_def)
  ultimately show ?thesis using False by (auto simp: load_source_lineage_def Let_def)
qed

section \<open>Terminal lineage\<close>

definition lineage_graph :: "lineage \<Rightarrow> (int \<times> int) set" where
  "lineage_graph lin = {(n, s). s \<in> set (sources_of lin n)}"

definition leaves :: "lineage \<Rightarrow> int \<Rightarrow> int set" where
  "leaves lin n = {m. (n, m) \<in> (lineage_graph lin)\<^sup>* \<and> sources_of lin m = []}"

definition cyclic_below :: "lineage \<Rightarrow> int \<Rightarrow> bool" where
  "cyclic_below lin n = (\<exists>m. (n, m) \<in> (lineage_graph lin)\<^sup>* \<and> (m, m) \<in> (lineage_graph lin)\<^sup>+)"

lemma leaves_leaf: "sources_of lin n = [] \<Longrightarrow> leaves lin n = {n}"
  unfolding leaves_def by (auto elim: converse_rtranclE simp: lineage_graph_def)

lemma leaves_node: "sources_of lin n \<noteq> [] \<Longrightarrow> leaves lin n = (\<Union>s \<in> set (sources_of lin n). leaves lin s)"
proof (rule equalityI)
  assume "sources_of lin n \<noteq> []"
  then show "leaves lin n \<subseteq> (\<Union>s \<in> set (sources_of lin n). leaves lin s)"
    unfolding leaves_def by (auto elim: converse_rtranclE simp: lineage_graph_def)
  show "(\<Union>s \<in> set (sources_of lin n). leaves lin s) \<subseteq> leaves lin n"
    unfolding leaves_def by (auto intro: converse_rtrancl_into_rtrancl simp: lineage_graph_def)
qed

lemma acyclic_node:
  assumes "\<And>s. s \<in> set (sources_of lin n) \<Longrightarrow> \<not> cyclic_below lin s"
  shows "\<not> cyclic_below lin n"
proof
  assume "cyclic_below lin n"
  then obtain m where m: "(n, m) \<in> (lineage_graph lin)\<^sup>*" "(m, m) \<in> (lineage_graph lin)\<^sup>+" by (auto simp: cyclic_below_def)
  obtain s where s: "(n, s) \<in> lineage_graph lin" "(s, m) \<in> (lineage_graph lin)\<^sup>*"
  proof (cases "n = m")
    case True
    with m(2) that show ?thesis by (metis tranclD)
  next
    case False
    with m(1) that show ?thesis by (metis converse_rtranclE)
  qed
  with m(2) assms show False by (auto simp: cyclic_below_def lineage_graph_def)
qed

definition memo_ok :: "lineage \<Rightarrow> leaf_memo \<Rightarrow> bool" where
  "memo_ok lin memo = (\<forall>(n, c) \<in> set memo. c = leaves lin n \<and> \<not> cyclic_below lin n)"

lemma memo_ok_lookup: "memo_ok lin memo \<Longrightarrow> map_of memo n = Some c \<Longrightarrow> c = leaves lin n \<and> \<not> cyclic_below lin n"
  by (auto simp: memo_ok_def dest!: map_of_SomeD)

text \<open>The memoised recursion computes the leaf set, or stops at a cycle below the node.\<close>

lemma terminal_lineage_sound:
  "memo_ok lin memo \<Longrightarrow> terminal_lineage lin active memo n = Inr (ls, memo') \<Longrightarrow>
     ls = leaves lin n \<and> \<not> cyclic_below lin n \<and> memo_ok lin memo'"
  "memo_ok lin memo \<Longrightarrow> lineage_union lin active memo ss = Inr (ls, memo') \<Longrightarrow>
     ls = (\<Union>s \<in> set ss. leaves lin s) \<and> (\<forall>s \<in> set ss. \<not> cyclic_below lin s) \<and> memo_ok lin memo'"
proof (induction lin active memo n and lin active memo ss arbitrary: ls memo' and ls memo' rule: terminal_lineage_lineage_union.induct)
  case (1 lin active memo n)
  show ?case
  proof (cases "map_of memo n")
    case (Some c)
    then show ?thesis using 1(2,3) memo_ok_lookup[OF 1(2) Some] by (simp add: terminal_lineage.simps)
  next
    case None
    then have act: "n \<notin> set active" using 1(3) by (auto simp: terminal_lineage.simps)
    show ?thesis
    proof (cases "sources_of lin n = []")
      case True
      then have "\<not> cyclic_below lin n" using acyclic_node[of lin n] by simp
      then show ?thesis using True None act 1(2,3) leaves_leaf[OF True] by (auto simp: terminal_lineage.simps memo_ok_def)
    next
      case False
      then obtain memo'' where u: "lineage_union lin (n # active) memo (sources_of lin n) = Inr (ls, memo'')"
        and memo': "memo' = (n, ls) # memo''"
        using None act 1(3) by (auto simp: terminal_lineage.simps split: sum.splits)
      have "ls = leaves lin n \<and> (\<forall>s \<in> set (sources_of lin n). \<not> cyclic_below lin s) \<and> memo_ok lin memo''"
        using 1(1)[OF None act False 1(2) u] leaves_node[OF False] by simp
      with acyclic_node[of lin n] memo' show ?thesis by (auto simp: memo_ok_def)
    qed
  qed
next
  case (3 lin active memo s ss)
  from 3(4) obtain l1 m1 l2 where t: "terminal_lineage lin active memo s = Inr (l1, m1)"
    and u: "lineage_union lin active m1 ss = Inr (l2, memo')" and ls: "ls = l1 \<union> l2"
    by (auto split: sum.splits)
  from 3(1)[OF 3(3) t] have s: "l1 = leaves lin s" "\<not> cyclic_below lin s" "memo_ok lin m1" by simp_all
  from 3(2)[OF t refl s(3) u] s ls show ?case by auto
qed auto

lemma terminal_lineage_cycle:
  "terminal_lineage lin active memo n = Inl e \<Longrightarrow> (\<forall>a \<in> set active. (a, n) \<in> (lineage_graph lin)\<^sup>+) \<Longrightarrow>
     \<exists>m. e = Cycle m \<and> cyclic_below lin n"
  "lineage_union lin active memo ss = Inl e \<Longrightarrow> (\<forall>a \<in> set active. \<forall>s \<in> set ss. (a, s) \<in> (lineage_graph lin)\<^sup>+) \<Longrightarrow>
     \<exists>m. e = Cycle m \<and> (\<exists>s \<in> set ss. cyclic_below lin s)"
proof (induction lin active memo n and lin active memo ss arbitrary: e and e rule: terminal_lineage_lineage_union.induct)
  case (1 lin active memo n)
  show ?case
  proof (cases "n \<in> set active")
    case True
    with 1(2,3) show ?thesis by (auto simp: terminal_lineage.simps cyclic_below_def split: option.splits)
  next
    case False
    with 1(2) have *: "map_of memo n = None" "sources_of lin n \<noteq> []" "lineage_union lin (n # active) memo (sources_of lin n) = Inl e"
      by (auto simp: terminal_lineage.simps split: option.splits if_splits sum.splits)
    have step: "(n, s) \<in> lineage_graph lin" if "s \<in> set (sources_of lin n)" for s using that by (simp add: lineage_graph_def)
    then have "\<forall>a \<in> set (n # active). \<forall>s \<in> set (sources_of lin n). (a, s) \<in> (lineage_graph lin)\<^sup>+"
      using 1(3) by (auto intro: trancl_into_trancl)
    from 1(1)[OF *(1) False *(2,3) this] step show ?thesis
      by (auto simp: cyclic_below_def intro: converse_rtrancl_into_rtrancl)
  qed
next
  case (3 lin active memo s ss)
  show ?case
  proof (cases "terminal_lineage lin active memo s")
    case (Inl e')
    with 3(1)[OF Inl] 3(3,4) show ?thesis by auto
  next
    case (Inr p)
    obtain l1 m1 where p: "p = (l1, m1)" by fastforce
    from 3(3) Inr p have "lineage_union lin active m1 ss = Inl e" by (auto split: sum.splits)
    from 3(2)[OF Inr p[symmetric] this] 3(4) show ?thesis by auto
  qed
qed auto

lemma terminal_lineage_result:
  assumes "memo_ok lin memo"
  shows "(\<exists>memo'. terminal_lineage lin [] memo n = Inr (leaves lin n, memo') \<and> memo_ok lin memo' \<and> \<not> cyclic_below lin n)
    \<or> (\<exists>m. terminal_lineage lin [] memo n = Inl (Cycle m) \<and> cyclic_below lin n)"
proof (cases "terminal_lineage lin [] memo n")
  case (Inl e)
  then show ?thesis using terminal_lineage_cycle(1)[OF Inl] by auto
next
  case (Inr p)
  obtain ls memo' where p: "p = (ls, memo')" by fastforce
  then show ?thesis using terminal_lineage_sound(1)[OF assms, of "[]" n ls memo'] Inr by auto
qed

section \<open>Groups and representatives\<close>

definition node_leaves :: "lineage \<Rightarrow> CoverageNode \<Rightarrow> int set" where
  "node_leaves lin n = leaves lin (cov_node_id n)"

definition groups_ok :: "lineage \<Rightarrow> CoverageNode set \<Rightarrow> leaf_groups \<Rightarrow> bool" where
  "groups_ok lin N groups = (distinct (map fst groups) \<and> fst ` set groups = node_leaves lin ` N
     \<and> (\<forall>g \<in> set groups. set (snd g) = {n \<in> N. node_leaves lin n = fst g}))"

lemma add_to_group_keys: "fst ` set (add_to_group ls n gs) = insert ls (fst ` set gs)"
  by (induction gs) auto

lemma add_to_group_distinct: "distinct (map fst gs) \<Longrightarrow> distinct (map fst (add_to_group ls n gs))"
  by (induction gs) (auto simp: add_to_group_keys)

lemma add_to_group_mem:
  "distinct (map fst gs) \<Longrightarrow> g \<in> set (add_to_group ls n gs) \<Longrightarrow>
     (fst g \<noteq> ls \<and> g \<in> set gs) \<or> (fst g = ls \<and> ls \<notin> fst ` set gs \<and> snd g = [n]) \<or> (fst g = ls \<and> (\<exists>g' \<in> set gs. fst g' = ls \<and> snd g = snd g' @ [n]))"
  by (induction gs) (auto split: if_splits)

lemma groups_ok_add:
  assumes "groups_ok lin N gs" "ls = node_leaves lin n"
  shows "groups_ok lin (insert n N) (add_to_group ls n gs)"
proof -
  have d: "distinct (map fst gs)" and k: "fst ` set gs = node_leaves lin ` N"
    and m: "\<And>g. g \<in> set gs \<Longrightarrow> set (snd g) = {n \<in> N. node_leaves lin n = fst g}" using assms(1) by (auto simp: groups_ok_def)
  have "set (snd g) = {x \<in> insert n N. node_leaves lin x = fst g}" if "g \<in> set (add_to_group ls n gs)" for g
    using add_to_group_mem[OF d that]
  proof (elim disjE conjE)
    assume "fst g \<noteq> ls" "g \<in> set gs"
    then show ?thesis using m[of g] assms(2) by auto
  next
    assume "fst g = ls" "ls \<notin> fst ` set gs" "snd g = [n]"
    then show ?thesis using k assms(2) by auto
  next
    assume "fst g = ls" "\<exists>g' \<in> set gs. fst g' = ls \<and> snd g = snd g' @ [n]"
    then show ?thesis using m assms(2) by auto
  qed
  then show ?thesis using d k assms(2) by (simp add: groups_ok_def add_to_group_keys add_to_group_distinct)
qed

lemma group_by_leaf_set_result:
  assumes "memo_ok lin memo" "groups_ok lin N gs"
  shows "case group_by_leaf_set lin ns memo gs of
      Inr gs' \<Rightarrow> groups_ok lin (N \<union> set ns) gs' \<and> (\<forall>n \<in> set ns. \<not> cyclic_below lin (cov_node_id n))
    | Inl e \<Rightarrow> (\<exists>m. e = Cycle m) \<and> (\<exists>n \<in> set ns. cyclic_below lin (cov_node_id n))"
  using assms
proof (induction ns arbitrary: memo gs N)
  case (Cons n ns)
  from terminal_lineage_result[OF Cons.prems(1), of "cov_node_id n"] show ?case
  proof (elim disjE exE conjE)
    fix memo' assume t: "terminal_lineage lin [] memo (cov_node_id n) = Inr (leaves lin (cov_node_id n), memo')" "memo_ok lin memo'"
      "\<not> cyclic_below lin (cov_node_id n)"
    have "groups_ok lin (insert n N) (add_to_group (leaves lin (cov_node_id n)) n gs)"
      by (rule groups_ok_add[OF Cons.prems(2)]) (simp add: node_leaves_def)
    from Cons.IH[OF t(2) this] t show ?thesis by (auto split: sum.splits)
  qed auto
qed simp

lemma min_node_least: "min_node best ns \<in> set (best # ns) \<and> (\<forall>n \<in> set (best # ns). rank_of (min_node best ns) \<le> rank_of n)"
proof (induction ns arbitrary: best)
  case (Cons n ns)
  show ?case using Cons[of "if rank_of n < rank_of best then n else best"] by (auto split: if_splits)
qed simp

lemma representative_least:
  "grp \<noteq> [] \<Longrightarrow> representative grp \<in> set grp \<and> (\<forall>n \<in> set grp. rank_of (representative grp) \<le> rank_of n)"
  using min_node_least[of "hd grp" "tl grp"] by (simp add: representative_def)

lemma partial_overlap_iff:
  "partial_overlap ls \<longleftrightarrow> (\<exists>a \<in> set ls. \<exists>b \<in> set ls. a \<inter> b \<noteq> {} \<and> \<not> (a \<subseteq> b \<or> b \<subseteq> a))"
  by (induction ls) auto

text \<open>The reference: candidates with a maximal leaf set, the best ranked of those that share it.\<close>

definition frontier_spec :: "lineage \<Rightarrow> CoverageNode set \<Rightarrow> CoverageNode set" where
  "frontier_spec lin N = {n \<in> N. (\<forall>m \<in> N. \<not> node_leaves lin n \<subset> node_leaves lin m)
     \<and> (\<forall>m \<in> N. node_leaves lin m = node_leaves lin n \<longrightarrow> rank_of n \<le> rank_of m)}"

lemma selected_iff:
  assumes ok: "groups_ok lin N groups" and inj: "inj_on cov_node_id N" and n: "n \<in> N"
  shows "cov_node_id n \<in> set (selected_ids groups) \<longleftrightarrow> n \<in> frontier_spec lin N"
proof -
  have k: "fst ` set groups = node_leaves lin ` N"
    and m: "\<And>g. g \<in> set groups \<Longrightarrow> set (snd g) = {n \<in> N. node_leaves lin n = fst g}" using ok by (auto simp: groups_ok_def)
  have rep: "representative (snd g) \<in> N" "node_leaves lin (representative (snd g)) = fst g"
    "\<And>x. x \<in> N \<Longrightarrow> node_leaves lin x = fst g \<Longrightarrow> rank_of (representative (snd g)) \<le> rank_of x" if "g \<in> set groups" for g
  proof -
    have "fst g \<in> node_leaves lin ` N" using that k by blast
    then have "snd g \<noteq> []" using m[OF that] by auto
    from representative_least[OF this] m[OF that]
    show "representative (snd g) \<in> N" "node_leaves lin (representative (snd g)) = fst g"
      "\<And>x. x \<in> N \<Longrightarrow> node_leaves lin x = fst g \<Longrightarrow> rank_of (representative (snd g)) \<le> rank_of x" by auto
  qed
  have maxi: "(\<exists>o' \<in> set groups. A \<subset> fst o') \<longleftrightarrow> (\<exists>x \<in> N. A \<subset> node_leaves lin x)" for A using k by (metis imageE image_eqI)
  have id_eq: "cov_node_id n = cov_node_id (representative (snd g)) \<longleftrightarrow> n = representative (snd g)" if "g \<in> set groups" for g
    using inj_on_eq_iff[OF inj n rep(1)[OF that]] .
  have "cov_node_id n \<in> set (selected_ids groups) \<longleftrightarrow>
      (\<exists>g \<in> set groups. n = representative (snd g) \<and> \<not> (\<exists>x \<in> N. fst g \<subset> node_leaves lin x))"
    using id_eq by (auto simp: selected_ids_def maxi)
  also have "\<dots> \<longleftrightarrow> n \<in> frontier_spec lin N"
  proof
    assume "\<exists>g \<in> set groups. n = representative (snd g) \<and> \<not> (\<exists>x \<in> N. fst g \<subset> node_leaves lin x)"
    then show "n \<in> frontier_spec lin N" using rep by (auto simp: frontier_spec_def)
  next
    assume spec: "n \<in> frontier_spec lin N"
    obtain g where g: "g \<in> set groups" "fst g = node_leaves lin n" using k n by (metis imageE image_eqI)
    have "rank_of n = rank_of (representative (snd g))"
      using spec rep[OF g(1)] g(2) n by (intro antisym) (auto simp: frontier_spec_def)
    then have "n = representative (snd g)" using id_eq[OF g(1)] by (simp add: rank_of_def)
    then show "\<exists>g \<in> set groups. n = representative (snd g) \<and> \<not> (\<exists>x \<in> N. fst g \<subset> node_leaves lin x)"
      using g spec by (intro bexI[of _ g]) (simp_all add: frontier_spec_def)
  qed
  finally show ?thesis .
qed

lemma canonical_frontier_spec:
  fixes nodes :: "CoverageNode list" and slin :: lineage
  assumes "inj_on cov_node_id (set nodes)"
  defines "lin \<equiv> full_lineage slin nodes"
  shows "case canonical_frontier nodes slin of
      Inr out \<Rightarrow> out = filter (\<lambda>n. n \<in> frontier_spec lin (set nodes)) nodes
        \<and> (\<forall>n \<in> set nodes. \<not> cyclic_below lin (cov_node_id n)) \<and> \<not> partial_overlap (map (node_leaves lin) nodes)
    | Inl e \<Rightarrow> (\<exists>n \<in> set nodes. cyclic_below lin (cov_node_id n)) \<or> partial_overlap (map (node_leaves lin) nodes)"
proof -
  have "memo_ok lin []" "groups_ok lin {} []" by (simp_all add: memo_ok_def groups_ok_def)
  note res = group_by_leaf_set_result[OF this, of nodes]
  show ?thesis
  proof (cases "group_by_leaf_set lin nodes [] []")
    case (Inl e)
    then show ?thesis using res by (simp add: canonical_frontier_def lin_def)
  next
    case (Inr groups)
    have ok: "groups_ok lin (set nodes) groups" using res Inr by simp
    have over: "partial_overlap (map fst groups) = partial_overlap (map (node_leaves lin) nodes)"
      using ok by (simp add: partial_overlap_iff groups_ok_def)
    have "filter (\<lambda>n. cov_node_id n \<in> set (selected_ids groups)) nodes = filter (\<lambda>n. n \<in> frontier_spec lin (set nodes)) nodes"
      by (rule filter_cong) (simp_all add: selected_iff[OF ok assms(1)])
    then show ?thesis using res Inr over by (simp add: canonical_frontier_def lin_def)
  qed
qed

lemma frontier_spec_covers:
  assumes "finite N" "n \<in> N"
  obtains m where "m \<in> frontier_spec lin N" "node_leaves lin n \<subseteq> node_leaves lin m"
proof -
  have "finite (node_leaves lin ` N)" "node_leaves lin n \<in> node_leaves lin ` N" using assms by auto
  from finite_has_maximal2[OF this] obtain k where k: "k \<in> N" "node_leaves lin n \<subseteq> node_leaves lin k"
    "\<forall>m \<in> N. node_leaves lin k \<subseteq> node_leaves lin m \<longrightarrow> node_leaves lin k = node_leaves lin m" by auto
  let ?G = "{m \<in> N. node_leaves lin m = node_leaves lin k}"
  have "finite (rank_of ` ?G)" "rank_of ` ?G \<noteq> {}" using assms(1) k(1) by auto
  then have "Min (rank_of ` ?G) \<in> rank_of ` ?G" "\<And>m. m \<in> ?G \<Longrightarrow> Min (rank_of ` ?G) \<le> rank_of m" by (auto intro: Min_in)
  then obtain m where m: "m \<in> ?G" "\<And>j. j \<in> ?G \<Longrightarrow> rank_of m \<le> rank_of j" by auto
  then have "m \<in> frontier_spec lin N" using k(3) by (auto simp: frontier_spec_def)
  with m(1) k(2) that show ?thesis by auto
qed

lemma frontier_spec_distinct_leaves:
  assumes "inj_on cov_node_id N" "a \<in> frontier_spec lin N" "b \<in> frontier_spec lin N" "a \<noteq> b"
  shows "\<not> node_leaves lin a \<subseteq> node_leaves lin b"
proof
  assume "node_leaves lin a \<subseteq> node_leaves lin b"
  then have eq: "node_leaves lin a = node_leaves lin b" using assms(2,3) by (auto simp: frontier_spec_def)
  then have "rank_of a = rank_of b" using assms(2,3) by (intro antisym) (simp_all add: frontier_spec_def)
  then show False using inj_onD[OF assms(1), of a b] assms(2-4) by (simp add: rank_of_def frontier_spec_def)
qed

text \<open>
  C10: When \<open>canonical_frontier\<close> succeeds, the selected nodes consume each piece of source content
  exactly once: their leaf sets are pairwise disjoint and together are the leaf sets of all candidates.
\<close>

theorem frontier_covers_once:
  assumes "canonical_frontier nodes slin = Inr out" "distinct (map cov_node_id nodes)"
  shows "(\<Union>n \<in> set out. node_leaves (full_lineage slin nodes) n) = (\<Union>n \<in> set nodes. node_leaves (full_lineage slin nodes) n)
    \<and> pairwise (\<lambda>a b. disjnt (node_leaves (full_lineage slin nodes) a) (node_leaves (full_lineage slin nodes) b)) (set out)"
proof -
  let ?lin = "full_lineage slin nodes" and ?N = "set nodes"
  have inj: "inj_on cov_node_id ?N" using assms(2) by (simp add: distinct_map)
  have spec: "out = filter (\<lambda>n. n \<in> frontier_spec ?lin ?N) nodes" "\<not> partial_overlap (map (node_leaves ?lin) nodes)"
    using canonical_frontier_spec[OF inj, of slin] assms(1) by simp_all
  have out: "set out = frontier_spec ?lin ?N" using spec(1) by (auto simp: frontier_spec_def)
  have "(\<Union>n \<in> ?N. node_leaves ?lin n) \<subseteq> (\<Union>n \<in> frontier_spec ?lin ?N. node_leaves ?lin n)"
  proof (rule UN_least)
    fix n assume "n \<in> ?N"
    then show "node_leaves ?lin n \<subseteq> (\<Union>n \<in> frontier_spec ?lin ?N. node_leaves ?lin n)"
      using frontier_spec_covers[OF finite_set, of n nodes ?lin] by blast
  qed
  moreover have "disjnt (node_leaves ?lin a) (node_leaves ?lin b)" if ab: "a \<in> set out" "b \<in> set out" "a \<noteq> b" for a b
  proof -
    have "a \<in> ?N" "b \<in> ?N" using ab out by (auto simp: frontier_spec_def)
    then show ?thesis using spec(2) frontier_spec_distinct_leaves[OF inj, of a ?lin b] frontier_spec_distinct_leaves[OF inj, of b ?lin a] ab
      unfolding out partial_overlap_iff disjnt_def by auto
  qed
  ultimately show ?thesis unfolding out by (auto simp: pairwise_def frontier_spec_def)
qed

text \<open>Two children condensed by node 3, and an independent leaf; node 1 is suppressed by its parent.\<close>

definition sample_cover :: "int \<Rightarrow> int \<Rightarrow> int list \<Rightarrow> CoverageNode" where
  "sample_cover nid d srcs = \<lparr>cov_node_id = nid, cov_depth = d, cov_source_node_ids = srcs, cov_earliest_at = None, cov_latest_at = None\<rparr>"

definition sample_candidates :: "CoverageNode list" where
  "sample_candidates = [sample_cover 1 0 [], sample_cover 3 1 [1, 2], sample_cover 4 0 []]"

lemma sample_frontier: "canonical_frontier sample_candidates [] = Inr [sample_cover 3 1 [1, 2], sample_cover 4 0 []]"
  "distinct (map cov_node_id sample_candidates)"
  by (code_simp, simp add: sample_candidates_def sample_cover_def)

theorem frontier_covers_once_witness:
  "canonical_frontier sample_candidates [] = Inr [sample_cover 3 1 [1, 2], sample_cover 4 0 []]
    \<and> pairwise (\<lambda>a b. disjnt (node_leaves (full_lineage [] sample_candidates) a) (node_leaves (full_lineage [] sample_candidates) b))
        {sample_cover 3 1 [1, 2], sample_cover 4 0 []}"
  using frontier_covers_once[OF sample_frontier] sample_frontier by simp

section \<open>Independence of the candidates' order\<close>

lemma map_of_full_lineage:
  "map_of (full_lineage slin nodes) n =
     (case map_of slin n of Some ss \<Rightarrow> Some ss
      | None \<Rightarrow> map_option cov_source_node_ids (sel_first (\<lambda>c. cov_node_id c = n) nodes))"
proof (induction nodes arbitrary: slin)
  case (Cons c nodes)
  have "map_of (slin @ [(cov_node_id c, cov_source_node_ids c)]) n =
      (case map_of slin n of Some ss \<Rightarrow> Some ss | None \<Rightarrow> if n = cov_node_id c then Some (cov_source_node_ids c) else None)"
    by (auto simp: map_add_def split: option.split)
  moreover have "cov_node_id c \<in> fst ` set slin \<longleftrightarrow> map_of slin (cov_node_id c) \<noteq> None" by (simp add: map_of_eq_None_iff)
  ultimately show ?case using Cons[of slin] Cons[of "slin @ [(cov_node_id c, cov_source_node_ids c)]"]
    unfolding full_lineage_def by (auto simp: sel_first_def split: option.split)
qed (simp add: full_lineage_def sel_first_def split: option.split)

lemma sel_id_cong:
  assumes "set ns = set ns'" "distinct (map cov_node_id ns)" "distinct (map cov_node_id ns')"
  shows "sel_first (\<lambda>c. cov_node_id c = n) ns = sel_first (\<lambda>c. cov_node_id c = n) ns'"
proof (cases "sel_first (\<lambda>c. cov_node_id c = n) ns")
  case None
  then have "sel_first (\<lambda>c. cov_node_id c = n) ns' = None" using assms(1) by (simp add: sel_first_None_iff)
  with None show ?thesis by simp
next
  case (Some c)
  then have "c \<in> set ns'" "cov_node_id c = n" using assms(1) by (auto dest: sel_first_mem)
  with Some show ?thesis using sel_key_unique[OF assms(3), of c] by simp
qed

text \<open>
  The frontier is canonical: listing the same candidates in another order gives an error exactly
  when the first order does, and otherwise the same set of selected nodes.
\<close>

theorem frontier_order_independent:
  assumes "set nodes' = set nodes" "distinct (map cov_node_id nodes)" "distinct (map cov_node_id nodes')"
  shows "map_sum (\<lambda>_. ()) set (canonical_frontier nodes' slin) = map_sum (\<lambda>_. ()) set (canonical_frontier nodes slin)"
proof -
  have "sources_of (full_lineage slin nodes') = sources_of (full_lineage slin nodes)"
    unfolding sources_of_def map_of_full_lineage sel_id_cong[OF assms(1,3,2)] by (rule refl)
  then have same: "node_leaves (full_lineage slin nodes') = node_leaves (full_lineage slin nodes)"
    "cyclic_below (full_lineage slin nodes') = cyclic_below (full_lineage slin nodes)"
    by (simp_all add: node_leaves_def leaves_def cyclic_below_def lineage_graph_def fun_eq_iff)
  have over: "partial_overlap (map (node_leaves lin) nodes') = partial_overlap (map (node_leaves lin) nodes)" for lin
    using assms(1) by (simp add: partial_overlap_iff)
  have inj: "inj_on cov_node_id (set nodes)" "inj_on cov_node_id (set nodes')" using assms by (simp_all add: distinct_map)
  have "frontier_spec (full_lineage slin nodes') (set nodes') = frontier_spec (full_lineage slin nodes) (set nodes)"
    using same(1) assms(1) by (simp add: frontier_spec_def)
  with canonical_frontier_spec[OF inj(1), of slin] canonical_frontier_spec[OF inj(2), of slin] same over assms(1)
  show ?thesis by (auto split: sum.splits)
qed

theorem frontier_order_independent_witness:
  "map_sum (\<lambda>_. ()) set (canonical_frontier (rev sample_candidates) []) = Inr {sample_cover 3 1 [1, 2], sample_cover 4 0 []}"
  using frontier_order_independent[of "rev sample_candidates" sample_candidates "[]"] sample_frontier
  by (simp add: rev_map[symmetric])

end
