(* ===== verification/Truncation.thy ===== *)
theory Truncation
  imports Messages
begin

text \<open>
  The deterministic level 3 of the summariser, \<open>_truncate_text_to_tokens\<close> and
  \<open>_deterministic_truncate\<close> of \<^verbatim>\<open>src/escalation.py\<close>.

  The tiktoken codec is not part of the repository: it is the argument \<open>enc\<close>, absent when the
  character estimate is in use; \<open>None\<close> from one of its functions is a raised exception.  The float
  expressions \<open>int(max_tokens * divisor)\<close> and \<open>int(char_budget * max_tokens / estimated)\<close> are exact
  integer divisions here.
\<close>

record codec =
  cod_encode :: "string \<Rightarrow> nat list option"
  cod_decode :: "nat list \<Rightarrow> string option"

definition text_tokens :: "codec option \<Rightarrow> string \<Rightarrow> nat" where
  "text_tokens enc s =
     count_tokens \<lparr>encoder = map_option (\<lambda>c t. map_option length (cod_encode c t)) enc, host_image_cost = None\<rparr> (PStr s)"

text \<open>
  The marker's em dash lies outside the Latin-1 strings of the model; \<^verbatim>\<open>0x97\<close>, also one non-ASCII
  character, stands for it.
\<close>

definition L3_TRUNCATION_MARKER :: string where
  "L3_TRUNCATION_MARKER = [CHR 0x0A, CHR 0x0A] @ ''[...deterministic truncation '' @ [CHR 0x97] @
     '' details available via lcm_expand...]'' @ [CHR 0x0A, CHR 0x0A]"

text \<open>The characters per token that the estimate assumes for a text, as a fraction.\<close>

definition text_divisor :: "string \<Rightarrow> nat \<times> nat" where
  "text_divisor text =
     (let len = length text;
          non_ascii = (if is_ascii text then 0 else length (filter (\<lambda>c. (of_char c :: nat) > 127) text))
      in if len = 0 then (CHARS_PER_TOKEN, 1)
         else if 2 * non_ascii \<ge> len then (3, 2)
         else if 5 * non_ascii \<ge> len then (5, 2)
         else (CHARS_PER_TOKEN, 1))"

definition slice_chars :: "bool \<Rightarrow> nat \<Rightarrow> string \<Rightarrow> string" where
  "slice_chars from_end n text = (if from_end then drop (length text - n) text else take n text)"

fun char_loop :: "codec option \<Rightarrow> string \<Rightarrow> nat \<Rightarrow> bool \<Rightarrow> nat \<Rightarrow> nat \<Rightarrow> string" where
  "char_loop enc text max_tokens from_end 0 char_budget = slice_chars from_end char_budget text"
| "char_loop enc text max_tokens from_end (Suc n) char_budget =
     (let candidate = slice_chars from_end char_budget text; estimated = text_tokens enc candidate
      in if estimated \<le> max_tokens \<or> char_budget \<le> 1 then candidate
         else char_loop enc text max_tokens from_end n (max 1 (char_budget * max_tokens div estimated - 1)))"

definition truncate_by_chars :: "codec option \<Rightarrow> string \<Rightarrow> nat \<Rightarrow> bool \<Rightarrow> string" where
  "truncate_by_chars enc text max_tokens from_end =
     (if text_tokens enc text \<le> max_tokens then text
      else case text_divisor text of (num, den) \<Rightarrow>
        char_loop enc text max_tokens from_end 8 (max 1 (max_tokens * num div den)))"

definition kept_tokens :: "bool \<Rightarrow> nat \<Rightarrow> nat list \<Rightarrow> nat list" where
  "kept_tokens from_end n tokens = (if from_end then drop (length tokens - n) tokens else take n tokens)"

definition truncate_text_to_tokens :: "codec option \<Rightarrow> string \<Rightarrow> int \<Rightarrow> bool \<Rightarrow> string" where
  "truncate_text_to_tokens enc text max_tokens from_end =
     (if max_tokens \<le> 0 \<or> text = [] then []
      else let m = nat max_tokens; by_chars = truncate_by_chars enc text m from_end in
        (case enc of None \<Rightarrow> by_chars
         | Some c \<Rightarrow> (case cod_encode c text of
             None \<Rightarrow> by_chars
           | Some tokens \<Rightarrow>
               if length tokens \<le> m then text
               else (case cod_decode c (kept_tokens from_end m tokens) of None \<Rightarrow> by_chars | Some s \<Rightarrow> s))))"

definition assemble :: "codec option \<Rightarrow> string \<Rightarrow> int \<Rightarrow> string" where
  "assemble enc text body_tokens =
     (let head_tokens = body_tokens div 2; tail_tokens = body_tokens - head_tokens
      in truncate_text_to_tokens enc text head_tokens False @ L3_TRUNCATION_MARKER
           @ truncate_text_to_tokens enc text tail_tokens True)"

function l3_search :: "codec option \<Rightarrow> string \<Rightarrow> int \<Rightarrow> string \<Rightarrow> int \<Rightarrow> int \<Rightarrow> string" where
  "l3_search enc text max_tokens best low high =
     (if low \<le> high
      then let body_tokens = (low + high) div 2; candidate = assemble enc text body_tokens
           in if int (text_tokens enc candidate) \<le> max_tokens
              then l3_search enc text max_tokens candidate (body_tokens + 1) high
              else l3_search enc text max_tokens best low (body_tokens - 1)
      else best)"
  by pat_completeness auto
termination
  by (relation "measure (\<lambda>(enc, text, max_tokens, best, low, high). nat (high + 1 - low))") auto

declare l3_search.simps [simp del]

definition deterministic_truncate :: "codec option \<Rightarrow> string \<Rightarrow> int \<Rightarrow> string" where
  "deterministic_truncate enc text max_tokens =
     (let marker_tokens = int (text_tokens enc L3_TRUNCATION_MARKER) in
      if int (text_tokens enc text) \<le> max_tokens then text
      else if max_tokens \<le> marker_tokens + 4 then truncate_text_to_tokens enc text max_tokens False
      else l3_search enc text max_tokens L3_TRUNCATION_MARKER 0 (max_tokens - marker_tokens))"

definition verbatim_source :: "codec option \<Rightarrow> string \<Rightarrow> int \<Rightarrow> bool" where
  "verbatim_source enc text l3_truncate_tokens = (int (text_tokens enc text) \<le> l3_truncate_tokens)"

section \<open>The character estimate\<close>

definition estimate :: "nat \<times> nat \<Rightarrow> nat \<Rightarrow> nat" where
  "estimate d n = n * snd d div fst d + 1"

lemma ascii_no_filter: "is_ascii s \<Longrightarrow> filter (\<lambda>c. (of_char c :: nat) > 127) s = []"
  by (auto simp: is_ascii_def list_all_iff filter_empty_conv not_less)

lemma text_tokens_estimate: "text_tokens None s = (if s = [] then 0 else estimate (text_divisor s) (length s))"
  by (auto simp: text_tokens_def count_tokens_def count_tokens_core_def fallback_token_estimate_def text_divisor_def
      estimate_def CHARS_PER_TOKEN_def Let_def mult.commute)

lemma text_divisor_cases: "text_divisor s \<in> {(4, 1), (5, 2), (3, 2)}"
  by (simp add: text_divisor_def CHARS_PER_TOKEN_def Let_def)

lemma length_slice_chars: "n \<le> length text \<Longrightarrow> length (slice_chars from_end n text) = n"
  by (simp add: slice_chars_def)

text \<open>
  After a failed try the next budget fits the density that made it fail and every sparser one, so each
  further failure needs a strictly denser slice; there are three densities.
\<close>

definition sparser :: "nat \<times> nat \<Rightarrow> nat \<times> nat \<Rightarrow> bool" where
  "sparser d e = (snd d * fst e \<le> snd e * fst d)"

definition density_rank :: "nat \<times> nat \<Rightarrow> nat" where
  "density_rank d = (if d = (4, 1) then 3 else if d = (5, 2) then 2 else 1)"

lemma budget_arith:
  fixes c x cb m s n :: nat
  assumes "(c + 1) * x \<le> cb * m" "cb * s < x * n" "0 < m"
  shows "(c + 1) * s < n * m"
proof -
  have "x * ((c + 1) * s) = (c + 1) * x * s" by (simp add: algebra_simps)
  also have "\<dots> \<le> cb * m * s" using assms(1) by (rule mult_le_mono1)
  also have "\<dots> = cb * s * m" by (simp add: algebra_simps)
  also have "\<dots> < x * n * m" using assms(2,3) by (rule mult_less_mono1)
  also have "\<dots> = x * (n * m)" by (simp add: algebra_simps)
  finally show ?thesis by simp
qed

lemma density_arith:
  fixes c m s n t k :: nat
  assumes "c * s < n * m" "t * n \<le> s * k" "0 < k"
  shows "c * t < k * m"
proof -
  have "n * (c * t) = c * (t * n)" by (simp add: algebra_simps)
  also have "\<dots> \<le> c * (s * k)" using assms(2) by simp
  also have "\<dots> = c * s * k" by (simp add: algebra_simps)
  also have "\<dots> < n * m * k" using assms(1,3) by (rule mult_less_mono1)
  also have "\<dots> = n * (k * m)" by (simp add: algebra_simps)
  finally show ?thesis by simp
qed

lemma next_budget_fits:
  fixes cb :: nat
  assumes "0 < fst d" "0 < fst e" "0 < m" "sparser e d"
  defines "cb' \<equiv> max 1 (cb * m div estimate d cb - 1)"
  shows "cb' = 1 \<or> estimate e cb' \<le> m"
proof (cases "cb' = 1")
  case False
  let ?x = "estimate d cb"
  have "cb' + 1 \<le> cb * m div ?x" using False by (auto simp: cb'_def)
  then have "(cb' + 1) * ?x \<le> cb * m div ?x * ?x" by (rule mult_le_mono1)
  also have "\<dots> \<le> cb * m" by simp
  finally have "(cb' + 1) * ?x \<le> cb * m" .
  moreover have "cb * snd d < ?x * fst d"
    unfolding estimate_def using dividend_less_div_times[OF assms(1), of "cb * snd d"] by (simp add: algebra_simps)
  ultimately have "(cb' + 1) * snd d < fst d * m" using assms(3) by (rule budget_arith)
  then have "cb' * snd d < fst d * m" by simp
  then have "cb' * snd e < fst e * m" using assms(4,2) unfolding sparser_def by (rule density_arith)
  then have "cb' * snd e div fst e < m" by (metis less_mult_imp_div_less mult.commute)
  then show ?thesis by (simp add: estimate_def)
qed simp

definition densities :: "(nat \<times> nat) set" where
  "densities = {(4, 1), (5, 2), (3, 2)}"

lemma density_facts:
  assumes "d \<in> densities"
  shows "0 < fst d" "1 \<le> density_rank d" "density_rank d \<le> 3" "estimate d 1 = 1"
    and "e \<in> densities \<Longrightarrow> density_rank d \<le> density_rank e \<Longrightarrow> sparser e d"
  using assms by (auto simp: densities_def density_rank_def sparser_def estimate_def)

lemma char_loop_fits:
  assumes "1 \<le> m" "1 \<le> cb" "cb \<le> length text"
    and "\<And>e. e \<in> densities \<Longrightarrow> q \<le> density_rank e \<Longrightarrow> estimate e cb \<le> m" "1 \<le> q" "q \<le> fuel + 1"
  shows "text_tokens None (char_loop None text m from_end fuel cb) \<le> m"
  using assms(2-)
proof (induction fuel arbitrary: cb q)
  case 0
  let ?s = "slice_chars from_end cb text"
  have d: "text_divisor ?s \<in> densities" using text_divisor_cases[of ?s] by (simp add: densities_def)
  then have "estimate (text_divisor ?s) cb \<le> m" using 0 density_facts(2)[OF d] by simp
  then show ?case using 0 by (simp add: text_tokens_estimate length_slice_chars)
next
  case (Suc fuel)
  let ?s = "slice_chars from_end cb text"
  let ?d = "text_divisor ?s"
  have d: "?d \<in> densities" using text_divisor_cases[of ?s] by (simp add: densities_def)
  have tok: "text_tokens None ?s = estimate ?d cb"
    using Suc.prems(1,2) length_slice_chars[OF Suc.prems(2), of from_end] by (auto simp: text_tokens_estimate)
  show ?case
  proof (cases "estimate ?d cb \<le> m \<or> cb \<le> 1")
    case True
    then have "cb = 1 \<or> estimate ?d cb \<le> m" using Suc.prems(1) by linarith
    then have "estimate ?d cb \<le> m" using density_facts(4)[OF d] assms(1) by auto
    with True tok show ?thesis by (simp add: Let_def)
  next
    case False
    let ?cb = "max 1 (cb * m div estimate ?d cb - 1)"
    have rank: "density_rank ?d < q" using Suc.prems(3)[OF d] False by (meson not_le)
    have "cb * m div estimate ?d cb \<le> cb"
      using False by (metis less_imp_le_nat div_le_mono mult_le_mono2 nonzero_mult_div_cancel_right not_le not_less_zero)
    then have "?cb \<le> length text" using Suc.prems(1,2) by simp
    moreover have "estimate e ?cb \<le> m" if "e \<in> densities" "density_rank ?d \<le> density_rank e" for e
      using next_budget_fits[OF density_facts(1)[OF d] density_facts(1)[OF that(1)], of m cb] density_facts(5)[OF d that]
        density_facts(4)[OF that(1)] assms(1) by fastforce
    ultimately have "text_tokens None (char_loop None text m from_end fuel ?cb) \<le> m"
      using rank Suc.prems(5) density_facts(2)[OF d] by (intro Suc.IH[of ?cb "density_rank ?d"]) simp_all
    with False tok show ?thesis by (simp add: Let_def)
  qed
qed

lemma truncate_by_chars_fits:
  assumes "1 \<le> m" "text \<noteq> []"
  shows "text_tokens None (truncate_by_chars None text m from_end) \<le> m"
proof (cases "text_tokens None text \<le> m")
  case False
  obtain num den where nd: "text_divisor text = (num, den)" by fastforce
  have d: "(num, den) \<in> densities" using text_divisor_cases[of "text"] nd by (simp add: densities_def)
  have "m < estimate (num, den) (length text)" using False assms nd by (simp add: text_tokens_estimate)
  then have "m \<le> length text * den div num" by (simp add: estimate_def)
  then have "m * num \<le> length text * den div num * num" by simp
  also have "\<dots> \<le> length text * den" by simp
  finally have "m * num div den \<le> length text * den div den" by (rule div_le_mono)
  also have "\<dots> = length text" using d by (auto simp: densities_def)
  finally have "max 1 (m * num div den) \<le> length text" using assms(2) by (cases "text") auto
  then have "text_tokens None (char_loop None text m from_end 8 (max 1 (m * num div den))) \<le> m"
    using assms(1) density_facts(3) by (intro char_loop_fits[where q = 4]) fastforce+
  with False nd show ?thesis by (simp add: truncate_by_chars_def)
qed (simp add: truncate_by_chars_def)

lemma truncate_text_fits: "int (text_tokens None (truncate_text_to_tokens None text max_tokens from_end)) \<le> max 0 max_tokens"
proof (cases "max_tokens \<le> 0 \<or> text = []")
  case True
  then show ?thesis by (auto simp: truncate_text_to_tokens_def text_tokens_estimate)
next
  case False
  then have "1 \<le> nat max_tokens" "text \<noteq> []" by linarith+
  then have "text_tokens None (truncate_by_chars None text (nat max_tokens) from_end) \<le> nat max_tokens"
    by (rule truncate_by_chars_fits)
  then have "int (text_tokens None (truncate_by_chars None text (nat max_tokens) from_end)) \<le> max_tokens" using False by linarith
  with False show ?thesis by (simp add: truncate_text_to_tokens_def Let_def)
qed

text \<open>The cut texts are prefixes and suffixes.\<close>

lemma char_loop_slice: "\<exists>n. char_loop enc text m from_end fuel cb = slice_chars from_end n text"
  by (induction fuel arbitrary: cb) (auto simp: Let_def)

lemma slice_chars_all: "slice_chars from_end (length text) text = text"
  by (simp add: slice_chars_def)

lemma truncate_text_slice: "\<exists>n. truncate_text_to_tokens None text max_tokens from_end = slice_chars from_end n text"
proof (cases "max_tokens \<le> 0 \<or> text = []")
  case True
  then have "truncate_text_to_tokens None text max_tokens from_end = slice_chars from_end 0 text"
    by (auto simp: truncate_text_to_tokens_def slice_chars_def)
  then show ?thesis ..
next
  case False
  then show ?thesis using char_loop_slice slice_chars_all[symmetric, of "text" from_end]
    by (auto simp: truncate_text_to_tokens_def truncate_by_chars_def Let_def split: prod.split)
qed

section \<open>The binary search\<close>

lemma l3_search_result:
  "l3_search enc t max_tokens best low high = best \<or>
     (\<exists>b. l3_search enc t max_tokens best low high = assemble enc t b
        \<and> int (text_tokens enc (assemble enc t b)) \<le> max_tokens)"
proof (induction enc t max_tokens best low high rule: l3_search.induct)
  case (1 enc t max_tokens best low high)
  let ?b = "(low + high) div 2"
  show ?case
  proof (cases "low \<le> high")
    case True
    with 1 show ?thesis by (subst (1 2) l3_search.simps) (auto simp: Let_def)
  next
    case False
    then show ?thesis by (subst l3_search.simps) simp
  qed
qed

lemma deterministic_truncate_fits:
  assumes "enc = None \<or> int (text_tokens enc L3_TRUNCATION_MARKER) + 4 < max_tokens"
  shows "int (text_tokens enc (deterministic_truncate enc text max_tokens)) \<le> max 0 max_tokens"
proof -
  let ?m = "int (text_tokens enc L3_TRUNCATION_MARKER)"
  consider "int (text_tokens enc text) \<le> max_tokens" | "\<not> int (text_tokens enc text) \<le> max_tokens" "max_tokens \<le> ?m + 4"
    | "\<not> int (text_tokens enc text) \<le> max_tokens" "?m + 4 < max_tokens" by linarith
  then show ?thesis
  proof cases
    case 1
    then show ?thesis by (simp add: deterministic_truncate_def)
  next
    case 2
    then show ?thesis using assms truncate_text_fits[of "text" max_tokens False] by (auto simp: deterministic_truncate_def)
  next
    case 3
    then show ?thesis using l3_search_result[of enc "text" max_tokens L3_TRUNCATION_MARKER 0 "max_tokens - ?m"]
      by (auto simp: deterministic_truncate_def)
  qed
qed

text \<open>
  Level 3 converges: the truncated text never costs more than its budget.  With the character
  estimate this holds for every text and every budget (the eight correction steps of the slicing loop are
  always enough); with a tokenizer it holds whenever the budget affords the marker, whatever the tokenizer
  does, because the assembled text itself is measured.
\<close>

theorem deterministic_truncate_bounded:
  assumes "enc = None \<or> int (text_tokens enc L3_TRUNCATION_MARKER) + 4 < max_tokens"
  shows "int (text_tokens enc (deterministic_truncate enc text max_tokens)) \<le> max 0 max_tokens"
  by (rule deterministic_truncate_fits[OF assms])

theorem deterministic_truncate_bounded_witness:
  "int (text_tokens None (deterministic_truncate None (replicate 200 CHR ''a'') 30)) \<le> 30"
  using deterministic_truncate_bounded[of None 30 "replicate 200 CHR ''a''"] by simp

text \<open>
  What level 3 keeps is the beginning and the end of the source: with the character estimate the
  result is the source itself, a prefix of it, or a prefix, the marker and a suffix, so no text is invented
  or reordered.
\<close>

theorem deterministic_truncate_keeps_ends:
  "\<exists>i j. deterministic_truncate None text max_tokens
     \<in> {text, take i text, take i text @ L3_TRUNCATION_MARKER @ drop j text, L3_TRUNCATION_MARKER}"
proof -
  have head: "\<exists>i. truncate_text_to_tokens None text n False = take i text" for n
    using truncate_text_slice[of "text" n False] by (auto simp: slice_chars_def)
  have tail: "\<exists>j. truncate_text_to_tokens None text n True = drop j text" for n
    using truncate_text_slice[of "text" n True] by (auto simp: slice_chars_def)
  have parts: "\<exists>i j. assemble None text b = take i text @ L3_TRUNCATION_MARKER @ drop j text" for b
    unfolding assemble_def Let_def using head[of "b div 2"] tail[of "b - b div 2"] by metis
  consider "deterministic_truncate None text max_tokens = text"
    | "deterministic_truncate None text max_tokens = truncate_text_to_tokens None text max_tokens False"
    | "deterministic_truncate None text max_tokens = l3_search None text max_tokens L3_TRUNCATION_MARKER 0
        (max_tokens - int (text_tokens None L3_TRUNCATION_MARKER))"
    unfolding deterministic_truncate_def Let_def by metis
  then show ?thesis
  proof cases
    case 2
    then show ?thesis using head[of max_tokens] by auto
  next
    case 3
    then show ?thesis using parts
        l3_search_result[of None "text" max_tokens L3_TRUNCATION_MARKER 0 "max_tokens - int (text_tokens None L3_TRUNCATION_MARKER)"]
      by (metis insert_iff)
  qed auto
qed

end
