(* ===== verification/Rollup_Builder.thy ===== *)
theory Rollup_Builder
  imports Rollup_Frozen Lineage Truncation
begin

text \<open>
  The construction of daily and aggregate rollups and the bounded maintenance pass,
  \<^verbatim>\<open>src/rollup_builder.py\<close>.  The store and the DAG are one database file, the \<open>rollup_db\<close>.

  The arguments of the builders that are not computed by the module are the fields of \<open>build_env\<close>: the
  summariser (a function on the caller's own state, \<open>Inl\<close> the text of a raised exception), the wall clock, the
  claim's nonce, the SHA-256 fingerprints, and \<open>be_meanwhile\<close>, what other connections do to the database
  while the summariser runs.
\<close>

record 'w build_env =
  be_summarizer :: "string \<Rightarrow> int \<Rightarrow> int \<Rightarrow> int \<Rightarrow> 'w \<Rightarrow> (string + (string \<times> nat)) \<times> 'w"
  be_codec :: "codec option"
  be_now :: timestamp
  be_nonce :: string
  be_sources_fingerprint :: "(int \<times> string) list \<Rightarrow> string"
  be_days_fingerprint :: "(date \<times> string \<times> string) list \<Rightarrow> string"
  be_text_hash :: "string \<Rightarrow> string"
  be_meanwhile :: "rollup_db \<Rightarrow> rollup_db"

record rollup_config =
  rollup_daily_target_tokens :: int
  rollup_daily_max_tokens :: int
  rollup_aggregate_max_tokens :: int
  rollup_builds_per_pass :: int
  rollup_maintenance_budget_ms :: int

datatype build_error =
    ScopeTooLarge
  | AggregateTooLarge
  | LineageFailed lineage_error
  | Level3NotStored int
  | SummarizerRaised string
  | UnknownRollup int

definition error_text :: "build_error \<Rightarrow> string" where
  "error_text e = (case e of
     ScopeTooLarge \<Rightarrow> ''RollupWorkLimitExceeded: scope frontier exceeds bounded work limit (4096)''
   | AggregateTooLarge \<Rightarrow> ''RollupWorkLimitExceeded: aggregate frontier exceeds bounded work limit (4096)''
   | LineageFailed WorkLimit \<Rightarrow> ''RollupWorkLimitExceeded: source lineage exceeds bounded work limit (4096)''
   | LineageFailed (Cycle n) \<Rightarrow> ''CanonicalFrontierOverlapError: summary lineage cycle reaches node '' @ int_str n
   | LineageFailed PartialOverlap \<Rightarrow> ''CanonicalFrontierOverlapError: summary lineages partially overlap without containment''
   | Level3NotStored n \<Rightarrow> ''RollupLevel3NotStored: summary at level 3''
   | SummarizerRaised m \<Rightarrow> m
   | UnknownRollup n \<Rightarrow> ''ValueError: unknown rollup_id: '' @ int_str n)"

definition FRONTIER_WORK_LIMIT :: nat where "FRONTIER_WORK_LIMIT = 4096"

section \<open>Sources\<close>

record frontier_node =
  fn_node_id :: int
  fn_summary :: string
  fn_covered_start :: timestamp
  fn_covered_end :: timestamp

definition coverage_of :: "SummaryNode \<Rightarrow> CoverageNode" where
  "coverage_of n = \<lparr>cov_node_id = node_id n, cov_depth = depth n,
     cov_source_node_ids = (if source_type n = ''nodes'' then source_ids n else []),
     cov_earliest_at = Some (covered_from n), cov_latest_at = Some (covered_to n)\<rparr>"

definition frontier_entry :: "SummaryNode list \<Rightarrow> CoverageNode \<Rightarrow> frontier_node" where
  "frontier_entry rows c = (case sel_first (\<lambda>n. node_id n = cov_node_id c) rows of
     Some n \<Rightarrow> \<lparr>fn_node_id = cov_node_id c, fn_summary = summary n,
       fn_covered_start = min (covered_from n) (covered_to n), fn_covered_end = max (covered_from n) (covered_to n)\<rparr>
   | None \<Rightarrow> \<lparr>fn_node_id = cov_node_id c, fn_summary = [], fn_covered_start = 0, fn_covered_end = 0\<rparr>)"

definition resolve_frontier :: "SummaryNode list \<Rightarrow> SummaryNode list \<Rightarrow> int list \<Rightarrow> build_error + frontier_node list" where
  "resolve_frontier nodes rows roots =
     (case load_source_lineage nodes roots (int FRONTIER_WORK_LIMIT) of
        Inl e \<Rightarrow> Inl (LineageFailed e)
      | Inr lin \<Rightarrow> (case canonical_frontier (map coverage_of rows) lin of
          Inl e \<Rightarrow> Inl (LineageFailed e)
        | Inr sel \<Rightarrow> Inr (map (frontier_entry rows) sel)))"

definition scope_rows :: "SummaryNode list \<Rightarrow> string \<Rightarrow> SummaryNode list" where
  "scope_rows nodes scope = sort_key (\<lambda>n. (covered_to n, node_id n)) (filter (\<lambda>n. n_session_id n = scope) nodes)"

definition scope_frontier :: "SummaryNode list \<Rightarrow> string \<Rightarrow> build_error + frontier_node list" where
  "scope_frontier nodes scope =
     (let ids = take (FRONTIER_WORK_LIMIT + 1) (map node_id (filter (\<lambda>n. n_session_id n = scope) nodes)) in
      if length ids > FRONTIER_WORK_LIMIT then Inl ScopeTooLarge
      else if ids = [] then Inr []
      else let rows = scope_rows nodes scope in resolve_frontier nodes rows (map node_id rows))"

definition meets_day :: "date \<Rightarrow> frontier_node \<Rightarrow> bool" where
  "meets_day d f = (fn_covered_start f < midnight d + 86400 \<and> fn_covered_end f \<ge> midnight d)"

definition daily_sources :: "SummaryNode list \<Rightarrow> string \<Rightarrow> date \<Rightarrow> build_error + frontier_node list" where
  "daily_sources nodes scope d = (case scope_frontier nodes scope of Inl e \<Rightarrow> Inl e | Inr fs \<Rightarrow> Inr (filter (meets_day d) fs))"

definition days_with_content :: "SummaryNode list \<Rightarrow> string \<Rightarrow> date \<Rightarrow> date \<Rightarrow> build_error + date list" where
  "days_with_content nodes scope first_day last_day = (case scope_frontier nodes scope of Inl e \<Rightarrow> Inl e
     | Inr fs \<Rightarrow> Inr (filter (\<lambda>d. \<exists>f \<in> set fs. meets_day d f) [first_day..last_day]))"

definition canonical_aggregate_sources :: "SummaryNode list \<Rightarrow> int list \<Rightarrow> build_error + frontier_node list" where
  "canonical_aggregate_sources nodes source_node_ids =
     (let unique_ids = dedup source_node_ids in
      if length unique_ids > FRONTIER_WORK_LIMIT then Inl AggregateTooLarge
      else if unique_ids = [] then Inr []
      else resolve_frontier nodes (sort_key node_id (filter (\<lambda>n. node_id n \<in> set unique_ids) nodes)) unique_ids)"

section \<open>Summaries under a hard cap\<close>

function summarize_loop :: "'w build_env \<Rightarrow> string \<Rightarrow> int \<Rightarrow> int \<Rightarrow> string \<Rightarrow> nat \<Rightarrow> 'w \<Rightarrow> (build_error + (string \<times> nat)) \<times> 'w" where
  "summarize_loop env src target hard_max candidate previous w =
     (case be_summarizer env candidate (max 1 (int previous)) target hard_max w of
        (Inl m, w') \<Rightarrow> (Inl (SummarizerRaised m), w')
      | (Inr (summ, level), w') \<Rightarrow>
          if level = 3 \<and> summ \<noteq> src then (Inl (Level3NotStored (max 1 (int previous))), w')
          else let n = text_tokens (be_codec env) summ in
            if int n \<le> hard_max then (Inr (summ, n), w')
            else if previous \<le> n
            then (let t = deterministic_truncate (be_codec env) summ hard_max in (Inr (t, text_tokens (be_codec env) t), w'))
            else summarize_loop env src target hard_max summ n w')"
  by pat_completeness auto
termination
  by (relation "measure (\<lambda>(env, src, target, hard_max, candidate, previous, w). previous)") auto

declare summarize_loop.simps [simp del]

definition summarize_capped :: "'w build_env \<Rightarrow> string \<Rightarrow> int \<Rightarrow> int \<Rightarrow> 'w \<Rightarrow> (build_error + (string \<times> nat)) \<times> 'w" where
  "summarize_capped env src target_tokens max_tokens w =
     summarize_loop env src (max 1 (min target_tokens max_tokens)) (max 1 max_tokens) src (text_tokens (be_codec env) src) w"

section \<open>Building a day\<close>

definition newline :: string where "newline = [CHR 0x0A]"

definition build_text :: "frontier_node list \<Rightarrow> string" where
  "build_text sources = join (newline @ newline)
     (map (\<lambda>f. ''[Summary node '' @ int_str (fn_node_id f) @ '']'' @ newline @ fn_summary f) sources)"

text \<open>What happened to a build, beside the value it returns; \<open>Built\<close> carries what \<open>mark_ready\<close> was given.\<close>

datatype build_outcome =
    NoSource
  | GaveUp build_error
  | Deferred string
  | Built bool string nat "int list"

definition give_up :: "'w build_env \<Rightarrow> RollupBuildToken \<Rightarrow> build_error \<Rightarrow> rollup_db \<Rightarrow> rollup_db" where
  "give_up env tok e db = (case e of
     Level3NotStored n \<Rightarrow> snd (defer_incomplete tok ''incomplete: summary at level 3; not stored'' db)
   | _ \<Rightarrow> snd (mark_failed tok (error_text e) (be_now env) db))"

definition run_day :: "'w build_env \<Rightarrow> rollup_config \<Rightarrow> string \<Rightarrow> date \<Rightarrow> RollupBuildToken \<Rightarrow> 'w \<Rightarrow> rollup_db \<Rightarrow> build_outcome \<times> 'w \<times> rollup_db" where
  "run_day env cfg scope d tok w db = (case daily_sources (rollup_nodes db) scope d of
     Inl e \<Rightarrow> (GaveUp e, w, give_up env tok e db)
   | Inr sources \<Rightarrow>
       if sources = [] then (NoSource, w, snd (resolve_no_source tok db))
       else let ids = sort (map fn_node_id sources);
                fingerprint = be_sources_fingerprint env (map (\<lambda>f. (fn_node_id f, fn_summary f)) (sort_key fn_node_id sources));
                db' = be_meanwhile env db
            in (case summarize_capped env (build_text sources) (rollup_daily_target_tokens cfg) (rollup_daily_max_tokens cfg) w of
                  (Inl e, w') \<Rightarrow> (GaveUp e, w', give_up env tok e db')
                | (Inr (summ, n), w') \<Rightarrow>
                    (case mark_ready tok summ (int n) ids fingerprint (be_now env) db' of
                       (Inl _, db'') \<Rightarrow> (GaveUp (UnknownRollup (tok_rollup_id tok)), w', give_up env tok (UnknownRollup (tok_rollup_id tok)) db'')
                     | (Inr published, db'') \<Rightarrow>
                         (Built published summ n ids, w', if published then snd (stale_aggregates_for_day d scope db'') else db''))))"

text \<open>The claim always yields a token, see \<open>upsert_building_row\<close>.\<close>

definition claimed :: "'w build_env \<Rightarrow> period_key \<Rightarrow> rollup_db \<Rightarrow> RollupBuildToken option \<times> rollup_db" where
  "claimed env k db = upsert_building k (be_now env) (be_nonce env) (snd (drain_invalidations 256 256 db))"

definition build_day_run :: "'w build_env \<Rightarrow> rollup_config \<Rightarrow> string \<Rightarrow> date \<Rightarrow> 'w \<Rightarrow> rollup_db \<Rightarrow> build_outcome \<times> 'w \<times> rollup_db" where
  "build_day_run env cfg scope d w db = (case claimed env (Day, d, scope) db of
     (Some tok, db') \<Rightarrow> run_day env cfg scope d tok w db'
   | (None, db') \<Rightarrow> (NoSource, w, db'))"

definition returned :: "period_key \<Rightarrow> build_outcome \<times> 'w \<times> rollup_db \<Rightarrow> (rollup_row \<times> int list) option" where
  "returned k res = (case res of (Built _ _ _ _, _, db) \<Rightarrow> get_rollup k db | _ \<Rightarrow> None)"

definition build_day :: "'w build_env \<Rightarrow> rollup_config \<Rightarrow> string \<Rightarrow> date \<Rightarrow> 'w \<Rightarrow> rollup_db \<Rightarrow> (rollup_row \<times> int list) option \<times> 'w \<times> rollup_db" where
  "build_day env cfg scope d w db = (let res = build_day_run env cfg scope d w db in (returned (Day, d, scope) res, snd res))"

section \<open>Building an aggregate\<close>

definition pad :: "nat \<Rightarrow> int \<Rightarrow> string" where
  "pad width i = (let s = int_str i in replicate (width - length s) CHR ''0'' @ s)"

definition isoformat :: "date \<Rightarrow> string" where
  "isoformat d = pad 4 (year_of d) @ ''-'' @ pad 2 (month_of d) @ ''-'' @ pad 2 (day_of d)"

definition period_window :: "period_kind \<Rightarrow> date \<Rightarrow> date \<times> date" where
  "period_window kind d = (case kind of
     Week \<Rightarrow> (week_start d, week_start d + 6)
   | _ \<Rightarrow> (let s = month_start d in (s, s + days_in_month (year_of s) (month_of s) - 1)))"

definition daily_row :: "rollup_db \<Rightarrow> string \<Rightarrow> date \<Rightarrow> rollup_row option" where
  "daily_row db scope d = sel_first (\<lambda>r. row_key r = (Day, d, scope)) (rollups db)"

definition daily_ready :: "rollup_db \<Rightarrow> string \<Rightarrow> date \<Rightarrow> bool" where
  "daily_ready db scope d = (case daily_row db scope d of None \<Rightarrow> False | Some r \<Rightarrow> r_status r = Ready)"

definition incomplete_reason :: "date list \<Rightarrow> string" where
  "incomplete_reason pending = ''incomplete: '' @ nat_digits (length pending) @ '' daily rollup(s) not ready (''
     @ join '', '' (map isoformat (take 5 pending)) @ '')''"

definition status_text :: "rollup_status \<Rightarrow> string" where
  "status_text s = (case s of Building \<Rightarrow> ''building'' | Ready \<Rightarrow> ''ready'' | Stale \<Rightarrow> ''stale'' | Failed \<Rightarrow> ''failed'')"

definition day_entry :: "'w build_env \<Rightarrow> rollup_db \<Rightarrow> string \<Rightarrow> date \<Rightarrow> date \<times> string \<times> string" where
  "day_entry env db scope d = (case daily_row db scope d of
     None \<Rightarrow> (d, ''missing'', ''missing'')
   | Some r \<Rightarrow> (d, status_text (r_status r),
       if r_status r = Ready
       then (if truthy_str (r_source_fingerprint r) then text_of (r_source_fingerprint r) else be_text_hash env (text_of (r_summary r)))
       else status_text (r_status r)))"

definition ready_days :: "rollup_db \<Rightarrow> string \<Rightarrow> date list \<Rightarrow> rollup_row list" where
  "ready_days db scope ds = filter (\<lambda>r. r_status r = Ready) (List.map_filter (daily_row db scope) ds)"

definition rollup_source_ids :: "rollup_db \<Rightarrow> int list \<Rightarrow> int list" where
  "rollup_source_ids db rollup_ids =
     (if rollup_ids = [] then [] else sort (remdups (map snd (filter (\<lambda>s. fst s \<in> set rollup_ids) (rollup_sources db)))))"

definition run_aggregate ::
  "'w build_env \<Rightarrow> rollup_config \<Rightarrow> period_kind \<Rightarrow> string \<Rightarrow> date \<times> date \<Rightarrow> RollupBuildToken \<Rightarrow> 'w \<Rightarrow> rollup_db \<Rightarrow> build_outcome \<times> 'w \<times> rollup_db" where
  "run_aggregate env cfg kind scope window tok w db =
     (case days_with_content (rollup_nodes db) scope (fst window) (snd window) of
        Inl e \<Rightarrow> (GaveUp e, w, give_up env tok e db)
      | Inr content \<Rightarrow>
          let pending = filter (\<lambda>d. \<not> daily_ready db scope d) content; days = [fst window..snd window]; ready = ready_days db scope days in
          if pending \<noteq> [] then (Deferred (incomplete_reason pending), w, snd (defer_incomplete tok (incomplete_reason pending) db))
          else if ready = [] then (NoSource, w, snd (resolve_no_source tok db))
          else (case canonical_aggregate_sources (rollup_nodes db) (rollup_source_ids db (map r_rollup_id ready)) of
            Inl e \<Rightarrow> (GaveUp e, w, give_up env tok e db)
          | Inr sources \<Rightarrow>
              if sources = [] then (Deferred ''incomplete: no canonical aggregate sources'', w,
                                    snd (defer_incomplete tok ''incomplete: no canonical aggregate sources'' db))
              else let ids = map fn_node_id sources; fingerprint = be_days_fingerprint env (map (day_entry env db scope) days);
                       db' = be_meanwhile env db
                   in (case summarize_capped env (build_text sources) (rollup_aggregate_max_tokens cfg) (rollup_aggregate_max_tokens cfg) w of
                        (Inl e, w') \<Rightarrow> (GaveUp e, w', give_up env tok e db')
                      | (Inr (summ, n), w') \<Rightarrow>
                          (case mark_ready tok summ (int n) ids fingerprint (be_now env) db' of
                             (Inl _, db'') \<Rightarrow> (GaveUp (UnknownRollup (tok_rollup_id tok)), w', give_up env tok (UnknownRollup (tok_rollup_id tok)) db'')
                           | (Inr published, db'') \<Rightarrow> (Built published summ n ids, w', db'')))))"

definition build_aggregate_run ::
  "'w build_env \<Rightarrow> rollup_config \<Rightarrow> period_kind \<Rightarrow> string \<Rightarrow> date \<Rightarrow> 'w \<Rightarrow> rollup_db \<Rightarrow> build_outcome \<times> 'w \<times> rollup_db" where
  "build_aggregate_run env cfg kind scope d w db =
     (let window = period_window kind d in
      case claimed env (kind, fst window, scope) db of
        (Some tok, db') \<Rightarrow> run_aggregate env cfg kind scope window tok w db'
      | (None, db') \<Rightarrow> (NoSource, w, db'))"

definition build_aggregate ::
  "'w build_env \<Rightarrow> rollup_config \<Rightarrow> period_kind \<Rightarrow> string \<Rightarrow> date \<Rightarrow> 'w \<Rightarrow> rollup_db \<Rightarrow> (rollup_row \<times> int list) option \<times> 'w \<times> rollup_db" where
  "build_aggregate env cfg kind scope d w db =
     (let res = build_aggregate_run env cfg kind scope d w db in (returned (kind, fst (period_window kind d), scope) res, snd res))"

definition build_week ::
  "'w build_env \<Rightarrow> rollup_config \<Rightarrow> string \<Rightarrow> date \<Rightarrow> 'w \<Rightarrow> rollup_db \<Rightarrow> (rollup_row \<times> int list) option \<times> 'w \<times> rollup_db" where
  "build_week env cfg scope d w db = build_aggregate env cfg Week scope d w db"

definition build_month ::
  "'w build_env \<Rightarrow> rollup_config \<Rightarrow> string \<Rightarrow> date \<Rightarrow> 'w \<Rightarrow> rollup_db \<Rightarrow> (rollup_row \<times> int list) option \<times> 'w \<times> rollup_db" where
  "build_month env cfg scope d w db = build_aggregate env cfg Month scope d w db"

text \<open>Called after a node was published; its database errors are swallowed.\<close>

definition mark_stale_for_published_summary :: "string \<Rightarrow> rollup_db \<Rightarrow> nat \<times> rollup_db" where
  "mark_stale_for_published_summary scope db =
     (if scope = [] then (0, db) else case drain_invalidations 256 256 db of (n, db') \<Rightarrow> (n * 3, db'))"

section \<open>Maintenance\<close>

text \<open>NULL sorts first in SQLite; the kinds sort by their names.\<close>

definition failed_rank :: "rollup_row \<Rightarrow> nat \<times> timestamp" where
  "failed_rank r = (case r_failed_at r of None \<Rightarrow> (0, 0) | Some t \<Rightarrow> (1, t))"

definition kind_rank :: "period_kind \<Rightarrow> nat" where
  "kind_rank k = (case k of Day \<Rightarrow> 0 | Month \<Rightarrow> 1 | Week \<Rightarrow> 2)"

definition is_day :: "rollup_row \<Rightarrow> bool" where
  "is_day r = (r_period_kind r = Day)"

definition retry_due :: "timestamp \<Rightarrow> rollup_row \<Rightarrow> bool" where
  "retry_due retry_before r = (case r_failed_at r of None \<Rightarrow> True | Some t \<Rightarrow> t \<le> retry_before)"

definition pending_rollups :: "string \<Rightarrow> nat \<Rightarrow> rollup_db \<Rightarrow> rollup_row list" where
  "pending_rollups scope n db = take n (sort_key r_period_start
     (filter (\<lambda>r. r_scope r = scope \<and> r_status r = Stale \<and> is_day r) (rollups db)))"

definition failed_rollups :: "string \<Rightarrow> timestamp \<Rightarrow> nat \<Rightarrow> rollup_db \<Rightarrow> rollup_row list" where
  "failed_rollups scope retry_before n db = take n (sort_key (\<lambda>r. (failed_rank r, r_period_start r, kind_rank (r_period_kind r)))
     (filter (\<lambda>r. r_scope r = scope \<and> r_status r = Failed \<and> is_day r \<and> retry_due retry_before r) (rollups db)))"

definition pending_aggregates :: "string \<Rightarrow> nat \<Rightarrow> rollup_db \<Rightarrow> rollup_row list" where
  "pending_aggregates scope n db = take n (sort_key (\<lambda>r. (r_period_start r, kind_rank (r_period_kind r)))
     (filter (\<lambda>r. r_scope r = scope \<and> r_status r = Stale \<and> \<not> is_day r) (rollups db)))"

definition failed_aggregates :: "string \<Rightarrow> timestamp \<Rightarrow> nat \<Rightarrow> rollup_db \<Rightarrow> rollup_row list" where
  "failed_aggregates scope retry_before n db = take n (sort_key (\<lambda>r. (failed_rank r, r_period_start r, kind_rank (r_period_kind r)))
     (filter (\<lambda>r. r_scope r = scope \<and> r_status r = Failed \<and> \<not> is_day r \<and> retry_due retry_before r) (rollups db)))"

text \<open>
  \<open>me_spent\<close> says whether the n-th look at the clock finds the budget used up, \<open>me_route\<close> is
  \<open>_rollup_route_available\<close> on the caller's state, \<open>me_env\<close> the environment of the n-th build.
\<close>

record 'w maintenance_env =
  me_spent :: "nat \<Rightarrow> bool"
  me_now :: timestamp
  me_route :: "'w \<Rightarrow> bool \<times> 'w"
  me_env :: "nat \<Rightarrow> 'w build_env"

definition FAILED_ROLLUP_BACKOFF :: timestamp where "FAILED_ROLLUP_BACKOFF = 30"

definition extend_rows :: "bool \<Rightarrow> nat \<Rightarrow> (nat \<Rightarrow> rollup_row list) \<Rightarrow> rollup_row list \<Rightarrow> rollup_row list" where
  "extend_rows spent n query rows = (if length rows < n \<and> \<not> spent then rows @ query (n - length rows) else rows)"

definition pick_rows :: "'w maintenance_env \<Rightarrow> string \<Rightarrow> nat \<Rightarrow> rollup_db \<Rightarrow> rollup_row list" where
  "pick_rows me scope n db =
     (let retry_before = me_now me - FAILED_ROLLUP_BACKOFF
      in extend_rows (me_spent me 5) n (\<lambda>m. failed_aggregates scope retry_before m db)
           (extend_rows (me_spent me 4) n (\<lambda>m. pending_aggregates scope m db)
             (extend_rows (me_spent me 3) n (\<lambda>m. failed_rollups scope retry_before m db) (pending_rollups scope n db))))"

definition build_row :: "'w build_env \<Rightarrow> rollup_config \<Rightarrow> string \<Rightarrow> rollup_row \<Rightarrow> 'w \<Rightarrow> rollup_db \<Rightarrow> 'w \<times> rollup_db" where
  "build_row env cfg scope r w db = snd ((case r_period_kind r of Day \<Rightarrow> build_day | Week \<Rightarrow> build_week | Month \<Rightarrow> build_month)
     env cfg scope (r_period_start r) w db)"

fun build_rows :: "'w maintenance_env \<Rightarrow> rollup_config \<Rightarrow> string \<Rightarrow> rollup_row list \<Rightarrow> nat \<Rightarrow> 'w \<Rightarrow> rollup_db \<Rightarrow> nat \<times> 'w \<times> rollup_db" where
  "build_rows me cfg scope [] started w db = (started, w, db)"
| "build_rows me cfg scope (r # rs) started w db =
     (if me_spent me (6 + started) then (started, w, db)
      else (case me_route me w of (ok, w') \<Rightarrow>
        if \<not> ok then (started, w', db)
        else (case build_row (me_env me started) cfg scope r w' db of (w'', db') \<Rightarrow> build_rows me cfg scope rs (Suc started) w'' db')))"

definition run_rollup_maintenance :: "'w maintenance_env \<Rightarrow> rollup_config \<Rightarrow> string \<Rightarrow> 'w \<Rightarrow> rollup_db \<Rightarrow> nat \<times> 'w \<times> rollup_db" where
  "run_rollup_maintenance me cfg scope w db =
     (let n = nat (max 0 (rollup_builds_per_pass cfg)) in
      if n = 0 \<or> rollup_maintenance_budget_ms cfg \<le> 0 \<or> me_spent me 0 then (0, w, db)
      else let db1 = snd (drain_invalidations 256 256 db) in
        if me_spent me 1 then (0, w, db1)
        else let db2 = snd (reclaim_stale_building (me_now me) 256 db1) in
          if me_spent me 2 then (0, w, db2)
          else build_rows me cfg scope (pick_rows me scope n db2) 0 w db2)"

section \<open>The cap\<close>

lemma summarize_loop_capped:
  assumes "be_codec env = None \<or> int (text_tokens (be_codec env) L3_TRUNCATION_MARKER) + 4 < hard_max" "1 \<le> hard_max"
  shows "fst (summarize_loop env src target hard_max candidate previous w) = Inr (summ, n) \<Longrightarrow>
    int n \<le> hard_max \<and> n = text_tokens (be_codec env) summ"
  using assms
proof (induction env src target hard_max candidate previous w rule: summarize_loop.induct)
  case (1 env src target hard_max candidate previous w)
  obtain res w' where call: "be_summarizer env candidate (max 1 (int previous)) target hard_max w = (res, w')" by fastforce
  show ?case
  proof (cases res)
    case (Inl m)
    then show ?thesis using 1(2) call by (subst (asm) summarize_loop.simps) simp
  next
    case (Inr p)
    obtain s level where p: "p = (s, level)" by fastforce
    have cut: "int (text_tokens (be_codec env) (deterministic_truncate (be_codec env) s hard_max)) \<le> hard_max"
      using deterministic_truncate_fits[OF 1(3), of s] 1(4) by simp
    show ?thesis using 1(2) call Inr p cut 1(1)[OF call[symmetric] Inr p[symmetric] _ refl _ _ _ 1(3,4)]
      by (subst (asm) summarize_loop.simps) (auto simp: Let_def split: if_splits)
  qed
qed

lemma summarize_capped_fits:
  assumes "be_codec env = None \<or> int (text_tokens (be_codec env) L3_TRUNCATION_MARKER) + 4 < max_tokens"
    "fst (summarize_capped env src target_tokens max_tokens w) = Inr (summ, n)"
  shows "int (text_tokens (be_codec env) summ) \<le> max 1 max_tokens"
proof -
  have "be_codec env = None \<or> int (text_tokens (be_codec env) L3_TRUNCATION_MARKER) + 4 < max 1 max_tokens" using assms(1) by auto
  then show ?thesis using summarize_loop_capped[of env "max 1 max_tokens"] assms(2) by (simp add: summarize_capped_def)
qed

section \<open>Builds are runs of the store\<close>

abbreviation runs :: "rollup_db \<Rightarrow> rollup_db \<Rightarrow> bool" where
  "runs \<equiv> rollup_step\<^sup>*\<^sup>*"

lemma run_then: "runs a b \<Longrightarrow> rollup_step b c \<Longrightarrow> runs a c"
  by (rule rtranclp.rtrancl_into_rtrancl)

lemma runs_give_up: "runs a db \<Longrightarrow> runs a (give_up env tok e db)"
  by (auto simp: give_up_def split: build_error.split intro: run_then[OF _ release] run_then[OF _ fail])

definition cooperative :: "'w build_env \<Rightarrow> bool" where
  "cooperative env = (\<forall>db. runs db (be_meanwhile env db))"

lemma runs_meanwhile: "cooperative env \<Longrightarrow> runs a db \<Longrightarrow> runs a (be_meanwhile env db)"
  unfolding cooperative_def by (meson rtranclp_trans)

lemma runs_mark_ready: "runs a db \<Longrightarrow> mark_ready tok summ tokens ids fp now db = (res, db') \<Longrightarrow> runs a db'"
  using run_then[OF _ publish, of a db tok summ tokens ids fp now] by simp

lemma runs_day:
  assumes "cooperative env" "runs a db"
  shows "runs a (snd (snd (run_day env cfg scope d tok w db)))"
  using runs_give_up[OF assms(2)] runs_give_up[OF runs_meanwhile[OF assms]] run_then[OF assms(2) resolve]
    runs_mark_ready[OF runs_meanwhile[OF assms]] runs_give_up[OF runs_mark_ready[OF runs_meanwhile[OF assms]]]
    run_then[OF runs_mark_ready[OF runs_meanwhile[OF assms]] stale_aggregates]
  unfolding run_day_def Let_def by (auto split: sum.split prod.split)

lemma runs_aggregate:
  assumes "cooperative env" "runs a db"
  shows "runs a (snd (snd (run_aggregate env cfg kind scope window tok w db)))"
  using runs_give_up[OF assms(2)] runs_give_up[OF runs_meanwhile[OF assms]] run_then[OF assms(2) resolve]
    run_then[OF assms(2) release] runs_mark_ready[OF runs_meanwhile[OF assms]]
    runs_give_up[OF runs_mark_ready[OF runs_meanwhile[OF assms]]]
  unfolding run_aggregate_def Let_def by (auto split: sum.split prod.split)

lemma runs_claimed:
  assumes "claimed env k db = (t, db')"
  shows "runs db db'"
proof -
  let ?db = "snd (drain_invalidations 256 256 db)"
  have "runs db ?db" by (rule run_then[OF _ drain]) simp
  then have "runs db (snd (upsert_building k (be_now env) (be_nonce env) ?db))" by (rule run_then) (rule claim)
  with assms show ?thesis by (simp add: claimed_def)
qed

lemma runs_build_day: "cooperative env \<Longrightarrow> runs db (snd (snd (build_day env cfg scope d w db)))"
  unfolding build_day_def build_day_run_def Let_def
  by (auto split: prod.split option.split dest!: runs_claimed intro: runs_day)

lemma runs_build_aggregate: "cooperative env \<Longrightarrow> runs db (snd (snd (build_aggregate env cfg kind scope d w db)))"
  unfolding build_aggregate_def build_aggregate_run_def Let_def
  by (auto split: prod.split option.split dest!: runs_claimed intro: runs_aggregate)

lemma runs_build_row: "cooperative env \<Longrightarrow> runs db (snd (build_row env cfg scope r w db))"
  by (simp add: build_row_def build_week_def build_month_def runs_build_day runs_build_aggregate split: period_kind.split)

lemma runs_build_rows:
  assumes "\<forall>i. cooperative (me_env me i)"
  shows "runs db (snd (snd (build_rows me cfg scope rs started w db)))"
proof (induction rs arbitrary: started w db)
  case (Cons r rs)
  obtain ok w1 where route: "me_route me w = (ok, w1)" by fastforce
  obtain w2 db2 where b: "build_row (me_env me started) cfg scope r w1 db = (w2, db2)" by fastforce
  have "cooperative (me_env me started)" using assms by blast
  from runs_build_row[OF this, of db cfg scope r w1] b have "runs db db2" by simp
  from rtranclp_trans[OF this Cons.IH[of db2 "Suc started" w2]] route b show ?case by simp
qed simp

lemma build_rows_count: "fst (build_rows me cfg scope rs started w db) \<le> started + length rs"
proof (induction rs arbitrary: started w db)
  case (Cons r rs)
  obtain ok w1 where route: "me_route me w = (ok, w1)" by fastforce
  obtain w2 db2 where b: "build_row (me_env me started) cfg scope r w1 db = (w2, db2)" by fastforce
  show ?case using route b Cons.IH[of "Suc started" w2 db2] by simp
qed simp

lemma length_pick_rows: "length (pick_rows me scope n db) \<le> n"
proof -
  have step: "length (extend_rows spent n query rows) \<le> n" if "length rows \<le> n" "\<And>m. length (query m) \<le> m" for spent query rows
    using that(1) that(2)[of "n - length rows"] by (auto simp: extend_rows_def)
  show ?thesis unfolding pick_rows_def Let_def
    by (intro step) (simp_all add: pending_rollups_def failed_rollups_def pending_aggregates_def failed_aggregates_def)
qed

text \<open>
  A maintenance pass starts at most \<open>rollup_builds_per_pass\<close> builds, whatever the queue holds and
  however the builds end, and whatever it does to the tables is a run of the store's operations, so every
  invariant of the store survives it.
\<close>

theorem maintenance_is_bounded:
  assumes "rollup_reachable db" "\<forall>i. cooperative (me_env me i)"
  shows "int (fst (run_rollup_maintenance me cfg scope w db)) \<le> max 0 (rollup_builds_per_pass cfg)
    \<and> rollup_inv (snd (snd (run_rollup_maintenance me cfg scope w db)))"
proof -
  define n where "n = nat (max 0 (rollup_builds_per_pass cfg))"
  define db1 where "db1 = snd (drain_invalidations 256 256 db)"
  define db2 where "db2 = snd (reclaim_stale_building (me_now me) 256 db1)"
  have r1: "runs db db1" unfolding db1_def by (rule r_into_rtranclp) (rule drain)
  have r2: "runs db db2" unfolding db2_def by (rule run_then[OF r1]) (rule reclaim)
  have r3: "runs db (snd (snd (build_rows me cfg scope (pick_rows me scope n db2) 0 w db2)))"
    by (rule rtranclp_trans[OF r2 runs_build_rows[OF assms(2)]])
  have count: "fst (build_rows me cfg scope (pick_rows me scope n db2) 0 w db2) \<le> n"
    using build_rows_count[of me cfg scope "pick_rows me scope n db2" 0 w db2] length_pick_rows[of me scope n db2] by linarith
  have run: "run_rollup_maintenance me cfg scope w db \<in> {(0, w, db), (0, w, db1), (0, w, db2), build_rows me cfg scope (pick_rows me scope n db2) 0 w db2}"
    unfolding run_rollup_maintenance_def Let_def n_def[symmetric] db1_def[symmetric] db2_def[symmetric] by simp
  then have "fst (run_rollup_maintenance me cfg scope w db) \<le> n" using count by auto
  then have "int (fst (run_rollup_maintenance me cfg scope w db)) \<le> max 0 (rollup_builds_per_pass cfg)" unfolding n_def by linarith
  moreover have "runs db (snd (snd (run_rollup_maintenance me cfg scope w db)))" using run r1 r2 r3 by auto
  then have "rollup_inv (snd (snd (run_rollup_maintenance me cfg scope w db)))"
    using keeps_steps reachable_inv[OF assms(1)] by (simp add: keeps_def)
  ultimately show ?thesis ..
qed

section \<open>What a published day holds\<close>

lemma row_at_stale_upserts: "k \<notin> set ks \<Longrightarrow> row_at k (snd (stale_upserts g ks db)) = row_at k db"
proof (induction ks arbitrary: db)
  case (Cons j ks)
  have "row_at k (snd (stale_upsert g j db)) = row_at k db"
    using row_at_upsert[of stale_row "\<lambda>rid. fresh_row rid j Stale" j k g db] Cons.prems by (simp add: stale_upsert_def)
  with Cons show ?case by (simp add: case_prod_unfold)
qed simp

lemma sources_stale_upserts: "rollup_sources (snd (stale_upserts g ks db)) = rollup_sources db"
  by (induction ks arbitrary: db) (simp_all add: case_prod_unfold stale_upsert_def upsert_def split: option.split)

lemma day_row_after_aggregates:
  "row_at (Day, d, scope) (snd (stale_aggregates_for_day e scope db)) = row_at (Day, d, scope) db"
  "source_node_ids_of rid (snd (stale_aggregates_for_day e scope db)) = source_node_ids_of rid db"
proof -
  have "(Day, d, scope) \<notin> set (aggregate_keys e scope)" by (simp add: aggregate_keys_def period_starts_for_day_def)
  then show "row_at (Day, d, scope) (snd (stale_aggregates_for_day e scope db)) = row_at (Day, d, scope) db"
    unfolding stale_aggregates_for_day_def by (rule row_at_stale_upserts)
  show "source_node_ids_of rid (snd (stale_aggregates_for_day e scope db)) = source_node_ids_of rid db"
    unfolding stale_aggregates_for_day_def source_node_ids_of_def sources_stale_upserts by (rule refl)
qed

lemma run_day_built:
  assumes "run_day env cfg scope d tok w db = (Built True summ n ids, w', db')"
  obtains sources fp db2 where "daily_sources (rollup_nodes db) scope d = Inr sources" "sources \<noteq> []"
    "ids = sort (map fn_node_id sources)"
    "fst (summarize_capped env (build_text sources) (rollup_daily_target_tokens cfg) (rollup_daily_max_tokens cfg) w) = Inr (summ, n)"
    "mark_ready tok summ (int n) ids fp (be_now env) (be_meanwhile env db) = (Inr True, db2)"
    "db' = snd (stale_aggregates_for_day d scope db2)"
  using assms unfolding run_day_def Let_def
  by (auto split: sum.splits prod.splits if_splits)

text \<open>
  C6: When \<open>build_day\<close> publishes - with any number of other builders, drains, purges and node writes
  running while the summariser works - the day's row is ready with exactly the summary that was made, and its
  recorded lineage is exactly the canonical frontier of the scope that meets the day, as read after the claim.
  The summary is within the configured hard token cap under the character estimate and, with a tiktoken encoder
  of any behaviour, whenever the cap exceeds the tokens of the truncation marker by more than four.
\<close>

theorem published_day_exact:
  assumes "rollup_reachable db" "cooperative env"
    and "build_day_run env cfg scope d w db = (Built True summ n ids, w', db')"
  shows "\<exists>r sources. row_at (Day, d, scope) db' = Some r \<and> r_status r = Ready \<and> r_summary r = Some summ
    \<and> (be_codec env = None \<or> int (text_tokens (be_codec env) L3_TRUNCATION_MARKER) + 4 < rollup_daily_max_tokens cfg
         \<longrightarrow> int (text_tokens (be_codec env) summ) \<le> max 1 (rollup_daily_max_tokens cfg))
    \<and> daily_sources (rollup_nodes (snd (claimed env (Day, d, scope) db))) scope d = Inr sources \<and> sources \<noteq> []
    \<and> source_node_ids_of (r_rollup_id r) db' = sort (dedup (sort (map fn_node_id sources)))"
proof -
  let ?k = "(Day, d, scope)" and ?db0 = "snd (drain_invalidations 256 256 db)"
  obtain tok db1 where c: "claimed env ?k db = (Some tok, db1)" and run: "run_day env cfg scope d tok w db1 = (Built True summ n ids, w', db')"
    using assms(3) unfolding build_day_run_def by (auto split: prod.splits option.splits)
  obtain sources fp db2 where s: "daily_sources (rollup_nodes db1) scope d = Inr sources" "sources \<noteq> []" "ids = sort (map fn_node_id sources)"
    and cap: "fst (summarize_capped env (build_text sources) (rollup_daily_target_tokens cfg) (rollup_daily_max_tokens cfg) w) = Inr (summ, n)"
    and m: "mark_ready tok summ (int n) ids fp (be_now env) (be_meanwhile env db1) = (Inr True, db2)"
    and db': "db' = snd (stale_aggregates_for_day d scope db2)"
    by (rule run_day_built[OF run])
  have reach: "rollup_reachable ?db0"
    using assms(1) run_then[OF _ drain] unfolding rollup_reachable_def by blast
  have claim: "upsert_building ?k (be_now env) (be_nonce env) ?db0 = (Some tok, db1)" using c by (simp add: claimed_def)
  have mean: "runs db1 (be_meanwhile env db1)" using assms(2) by (simp add: cooperative_def)
  obtain r where r: "row_at ?k db2 = Some (ready_row summ (int n) fp (be_now env) r)"
    "source_node_ids_of (r_rollup_id r) db2 = sort (dedup ids)"
    using published_claim[OF reach claim mean m] by blast
  show ?thesis using r s c summarize_capped_fits[OF _ cap] unfolding db' day_row_after_aggregates by (auto simp: ready_row_def)
qed


text \<open>A store with one summary of the first of January 1970, and a summariser that answers with a fixed text.\<close>

definition sample_day_db :: rollup_db where
  "sample_day_db = node_inserted sample_rollup_node rollup_init"

definition sample_build_env :: "nat build_env" where
  "sample_build_env = \<lparr>be_summarizer = (\<lambda>_ _ _ _ w. (Inr (''sum'', 1), Suc w)), be_codec = None, be_now = 5, be_nonce = ''n'',
     be_sources_fingerprint = (\<lambda>_. ''f''), be_days_fingerprint = (\<lambda>_. ''g''), be_text_hash = id, be_meanwhile = id\<rparr>"

definition sample_rollup_config :: rollup_config where
  "sample_rollup_config = \<lparr>rollup_daily_target_tokens = 10, rollup_daily_max_tokens = 20, rollup_aggregate_max_tokens = 20,
     rollup_builds_per_pass = 1, rollup_maintenance_budget_ms = 50\<rparr>"

definition sample_maintenance :: "nat maintenance_env" where
  "sample_maintenance = \<lparr>me_spent = (\<lambda>_. False), me_now = 5, me_route = (\<lambda>w. (True, w)), me_env = (\<lambda>_. sample_build_env)\<rparr>"

definition sample_day_built :: rollup_db where
  "sample_day_built = snd (snd (build_day_run sample_build_env sample_rollup_config ''other'' 719163 0 sample_day_db))"

lemma sample_day_reachable: "rollup_reachable sample_day_db"
proof -
  have "rollup_step rollup_init sample_day_db" unfolding sample_day_db_def by (rule insert_node) code_simp
  then show ?thesis by (simp add: rollup_reachable_def r_into_rtranclp)
qed

lemma sample_build_env_simps [simp]: "cooperative sample_build_env" "be_codec sample_build_env = None"
  by (simp_all add: cooperative_def sample_build_env_def)

lemma sample_day_run:
  "build_day_run sample_build_env sample_rollup_config ''other'' 719163 0 sample_day_db = (Built True ''sum'' 1 [7], 1, sample_day_built)"
  by code_simp

text \<open>The same day under an encoder that counts one token per character and a cap above the marker's length.\<close>

definition encoder_build_env :: "nat build_env" where
  "encoder_build_env = sample_build_env\<lparr>be_codec := Some \<lparr>cod_encode = (\<lambda>t. Some (map (\<lambda>c. of_char c) t)), cod_decode = (\<lambda>ts. Some (map char_of ts))\<rparr>\<rparr>"

definition encoder_config :: rollup_config where
  "encoder_config = sample_rollup_config\<lparr>rollup_daily_max_tokens := 15000\<rparr>"

definition encoder_day_built :: rollup_db where
  "encoder_day_built = snd (snd (build_day_run encoder_build_env encoder_config ''other'' 719163 0 sample_day_db))"

lemma encoder_day_run:
  "build_day_run encoder_build_env encoder_config ''other'' 719163 0 sample_day_db = (Built True ''sum'' 3 [7], 1, encoder_day_built)"
  by code_simp

lemma encoder_cap: "int (text_tokens (be_codec encoder_build_env) L3_TRUNCATION_MARKER) + 4 < rollup_daily_max_tokens encoder_config"
  by code_simp

theorem published_day_exact_witness:
  "int (text_tokens (be_codec encoder_build_env) ''sum'') \<le> max 1 (rollup_daily_max_tokens encoder_config)
   \<and> (\<exists>r sources. row_at (Day, 719163, ''other'') encoder_day_built = Some r \<and> r_status r = Ready \<and> r_summary r = Some ''sum''
    \<and> daily_sources (rollup_nodes sample_day_db) ''other'' 719163 = Inr sources
    \<and> source_node_ids_of (r_rollup_id r) encoder_day_built = sort (dedup (sort (map fn_node_id sources))))"
proof -
  have "rollup_nodes (snd (claimed encoder_build_env (Day, 719163, ''other'') sample_day_db)) = rollup_nodes sample_day_db" by code_simp
  moreover have "cooperative encoder_build_env" by (simp add: cooperative_def encoder_build_env_def sample_build_env_def)
  ultimately show ?thesis using published_day_exact[OF sample_day_reachable _ encoder_day_run] encoder_cap by auto
qed

theorem maintenance_is_bounded_witness:
  "fst (run_rollup_maintenance sample_maintenance sample_rollup_config ''other'' 0 sample_day_db) = 1
    \<and> rollup_inv (snd (snd (run_rollup_maintenance sample_maintenance sample_rollup_config ''other'' 0 sample_day_db)))"
proof -
  have "\<forall>i. cooperative (me_env sample_maintenance i)" by (simp add: sample_maintenance_def)
  note maintenance_is_bounded[OF sample_day_reachable this, of sample_rollup_config "''other''" 0]
  moreover have "fst (run_rollup_maintenance sample_maintenance sample_rollup_config ''other'' 0 sample_day_db) = 1" by code_simp
  ultimately show ?thesis by simp
qed

section \<open>What a published aggregate holds\<close>

lemma frontier_entry_id [simp]: "fn_node_id (frontier_entry rows c) = cov_node_id c"
  by (simp add: frontier_entry_def split: option.split)

lemma resolve_frontier_ids:
  assumes "resolve_frontier nodes rows roots = Inr sources"
  shows "fn_node_id ` set sources \<subseteq> node_id ` set rows"
proof -
  obtain lin sel where "canonical_frontier (map coverage_of rows) lin = Inr sel" "sources = map (frontier_entry rows) sel"
    using assms by (auto simp: resolve_frontier_def split: sum.splits)
  then have "set sel \<subseteq> coverage_of ` set rows" "fn_node_id ` set sources = cov_node_id ` set sel"
    by (auto simp: canonical_frontier_def Let_def image_image split: sum.splits if_splits)
  then show ?thesis by (auto simp: coverage_of_def)
qed

lemma aggregate_source_ids:
  "canonical_aggregate_sources nodes ids = Inr sources \<Longrightarrow> fn_node_id ` set sources \<subseteq> set ids"
  using resolve_frontier_ids by (fastforce simp: canonical_aggregate_sources_def Let_def split: if_splits)

lemma run_aggregate_built:
  assumes "run_aggregate env cfg kind scope window tok w db = (Built True summ n ids, w', db')"
  obtains content sources fp where "days_with_content (rollup_nodes db) scope (fst window) (snd window) = Inr content"
    "\<forall>d \<in> set content. daily_ready db scope d" "ready_days db scope [fst window..snd window] \<noteq> []"
    "canonical_aggregate_sources (rollup_nodes db) (rollup_source_ids db (map r_rollup_id (ready_days db scope [fst window..snd window]))) = Inr sources"
    "ids = map fn_node_id sources" "ids \<noteq> []"
    "fst (summarize_capped env (build_text sources) (rollup_aggregate_max_tokens cfg) (rollup_aggregate_max_tokens cfg) w) = Inr (summ, n)"
    "mark_ready tok summ (int n) ids fp (be_now env) (be_meanwhile env db) = (Inr True, db')"
  using assms unfolding run_aggregate_def Let_def
  by (auto simp: filter_empty_conv split: sum.splits prod.splits if_splits)

text \<open>
  The completeness gate of weeks and months.  When \<open>build_aggregate\<close> publishes - whatever other
  builders, drains and node writes did meanwhile - every day of its window that the scope's frontier has
  content for had a ready daily rollup at the claim, the row is ready with the summary that was made, within
  the hard cap, and its lineage is non-empty, free of duplicates and drawn from the lineage of those dailies.
\<close>

theorem published_aggregate_complete:
  assumes "rollup_reachable db" "cooperative env" "be_codec env = None"
    and "build_aggregate_run env cfg kind scope d w db = (Built True summ n ids, w', db')"
  defines "window \<equiv> period_window kind d" and "db1 \<equiv> snd (claimed env (kind, fst (period_window kind d), scope) db)"
  shows "\<exists>r content. row_at (kind, fst window, scope) db' = Some r \<and> r_status r = Ready \<and> r_summary r = Some summ
    \<and> int (text_tokens None summ) \<le> max 1 (rollup_aggregate_max_tokens cfg)
    \<and> days_with_content (rollup_nodes db1) scope (fst window) (snd window) = Inr content \<and> (\<forall>e \<in> set content. daily_ready db1 scope e)
    \<and> source_node_ids_of (r_rollup_id r) db' = sort (dedup ids) \<and> ids \<noteq> []
    \<and> set ids \<subseteq> set (rollup_source_ids db1 (map r_rollup_id (ready_days db1 scope [fst window..snd window])))"
proof -
  let ?k = "(kind, fst window, scope)" and ?db0 = "snd (drain_invalidations 256 256 db)"
  obtain tok where c: "claimed env ?k db = (Some tok, db1)" and run: "run_aggregate env cfg kind scope window tok w db1 = (Built True summ n ids, w', db')"
    using assms(4) unfolding build_aggregate_run_def Let_def db1_def window_def by (auto split: prod.splits option.splits)
  obtain content sources fp where s: "days_with_content (rollup_nodes db1) scope (fst window) (snd window) = Inr content"
      "\<forall>d \<in> set content. daily_ready db1 scope d" "ids = map fn_node_id sources" "ids \<noteq> []"
    and src: "canonical_aggregate_sources (rollup_nodes db1) (rollup_source_ids db1 (map r_rollup_id (ready_days db1 scope [fst window..snd window]))) = Inr sources"
    and cap: "fst (summarize_capped env (build_text sources) (rollup_aggregate_max_tokens cfg) (rollup_aggregate_max_tokens cfg) w) = Inr (summ, n)"
    and m: "mark_ready tok summ (int n) ids fp (be_now env) (be_meanwhile env db1) = (Inr True, db')"
    by (rule run_aggregate_built[OF run])
  have reach: "rollup_reachable ?db0"
    using assms(1) run_then[OF _ drain] unfolding rollup_reachable_def by blast
  have claim: "upsert_building ?k (be_now env) (be_nonce env) ?db0 = (Some tok, db1)" using c by (simp add: claimed_def)
  have mean: "runs db1 (be_meanwhile env db1)" using assms(2) by (simp add: cooperative_def)
  obtain r where r: "row_at ?k db' = Some (ready_row summ (int n) fp (be_now env) r)"
    "source_node_ids_of (r_rollup_id r) db' = sort (dedup ids)"
    using published_claim[OF reach claim mean m] by blast
  have ids: "set ids \<subseteq> set (rollup_source_ids db1 (map r_rollup_id (ready_days db1 scope [fst window..snd window])))"
    using aggregate_source_ids[OF src] s(3) by simp
  show ?thesis using r s(1,2,4) ids summarize_capped_fits[OF disjI1[OF assms(3)] cap] assms(3) by (auto simp: ready_row_def)
qed

definition sample_week_built :: rollup_db where
  "sample_week_built = snd (snd (build_aggregate_run sample_build_env sample_rollup_config Week ''other'' 719163 0 sample_day_built))"

lemma sample_week_run:
  "build_aggregate_run sample_build_env sample_rollup_config Week ''other'' 719163 0 sample_day_built = (Built True ''sum'' 1 [7], 1, sample_week_built)"
  by code_simp

lemma sample_day_built_reachable: "rollup_reachable sample_day_built"
proof -
  have "runs sample_day_db sample_day_built"
    using runs_build_day[of sample_build_env sample_day_db sample_rollup_config "''other''" 719163 0] by (simp add: sample_day_built_def build_day_def Let_def)
  then show ?thesis using sample_day_reachable unfolding rollup_reachable_def by (meson rtranclp_trans)
qed

theorem published_aggregate_complete_witness:
  "\<exists>r. row_at (Week, 719160, ''other'') sample_week_built = Some r \<and> r_status r = Ready \<and> source_node_ids_of (r_rollup_id r) sample_week_built = [7]"
proof -
  have "fst (period_window Week 719163) = 719160" by code_simp
  with published_aggregate_complete[OF sample_day_built_reachable sample_build_env_simps sample_week_run] show ?thesis by (auto simp: dedup_def)
qed

end
