(* ===== verification/Summary_Guards.thy ===== *)
theory Summary_Guards
  imports Prelude
begin

text \<open>
  The in-process guards of the summariser, \<^verbatim>\<open>src/escalation.py\<close>: the per-route circuit breaker, the
  sliding-window spend guard, and the foreground time budget with its estimates.  The monotonic clock is
  an argument \<open>now\<close> of each operation; dictionaries are maps.  The locks make each operation atomic.
\<close>

section \<open>The circuit breaker\<close>

record route_state =
  rs_last_error_class :: "string option"
  rs_provider :: "string option"
  rs_model :: "string option"

type_synonym route_info = "(string option \<times> string option) option"

record SummaryCircuitBreaker =
  failure_threshold :: int
  cooldown_seconds :: int
  rejection_threshold :: int
  cb_failures :: "string \<Rightarrow> int option"
  cb_rejections :: "string \<Rightarrow> int option"
  cb_open_until :: "string \<Rightarrow> timestamp option"
  cb_route_state :: "string \<Rightarrow> route_state option"
  cb_config_episodes :: "string set"

definition DEFAULT_ROUTE_KEY :: string where "DEFAULT_ROUTE_KEY = ''<task-default>''"

definition breaker_key :: "string \<Rightarrow> string" where
  "breaker_key model = (let k = strip model in if k = [] then DEFAULT_ROUTE_KEY else k)"

definition cb_allows :: "string \<Rightarrow> timestamp \<Rightarrow> bool \<Rightarrow> SummaryCircuitBreaker \<Rightarrow> bool \<times> SummaryCircuitBreaker" where
  "cb_allows model now prune b =
     (let key = breaker_key model in
      if or_zero (cb_open_until b key) \<le> now
      then (True, if prune then b\<lparr>cb_open_until := (cb_open_until b)(key := None)\<rparr> else b)
      else (False, b))"

definition cb_note :: "string \<Rightarrow> string option \<Rightarrow> route_info \<Rightarrow> SummaryCircuitBreaker \<Rightarrow> SummaryCircuitBreaker" where
  "cb_note key error_class route b =
     (let st = (case cb_route_state b key of None \<Rightarrow> \<lparr>rs_last_error_class = None, rs_provider = None, rs_model = None\<rparr> | Some s \<Rightarrow> s);
          st' = st\<lparr>rs_last_error_class := error_class\<rparr>;
          st'' = (case route of None \<Rightarrow> st' | Some (p, m) \<Rightarrow> st'\<lparr>rs_provider := p, rs_model := m\<rparr>)
      in b\<lparr>cb_route_state := (cb_route_state b)(key \<mapsto> st'')\<rparr>)"

definition in_config_episode :: "string \<Rightarrow> SummaryCircuitBreaker \<Rightarrow> bool" where
  "in_config_episode model b = (breaker_key model \<in> cb_config_episodes b)"

definition last_error_class :: "string \<Rightarrow> SummaryCircuitBreaker \<Rightarrow> string option" where
  "last_error_class key b = Option.bind (cb_route_state b key) rs_last_error_class"

definition note_route :: "string \<Rightarrow> route_info \<Rightarrow> SummaryCircuitBreaker \<Rightarrow> SummaryCircuitBreaker" where
  "note_route model route b = (let key = breaker_key model in cb_note key (last_error_class key b) route b)"

definition record_success :: "string \<Rightarrow> SummaryCircuitBreaker \<Rightarrow> SummaryCircuitBreaker" where
  "record_success model b =
     (let key = breaker_key model in
      cb_note key None None
        (b\<lparr>cb_failures := (cb_failures b)(key := None), cb_rejections := (cb_rejections b)(key := None),
           cb_open_until := (cb_open_until b)(key := None), cb_config_episodes := cb_config_episodes b - {key}\<rparr>))"

definition release_hang :: "string \<Rightarrow> SummaryCircuitBreaker \<Rightarrow> SummaryCircuitBreaker" where
  "release_hang model b =
     (let key = breaker_key model in
      if last_error_class key b = Some ''hung'' then b\<lparr>cb_open_until := (cb_open_until b)(key := None)\<rparr> else b)"

definition cooldown :: "SummaryCircuitBreaker \<Rightarrow> timestamp" where
  "cooldown b = of_int (max 0 (cooldown_seconds b))"

definition open_circuit :: "string \<Rightarrow> timestamp \<Rightarrow> SummaryCircuitBreaker \<Rightarrow> SummaryCircuitBreaker" where
  "open_circuit key now b = b\<lparr>cb_open_until := (cb_open_until b)(key \<mapsto> now + cooldown b)\<rparr>"

definition record_hang :: "string \<Rightarrow> timestamp \<Rightarrow> SummaryCircuitBreaker \<Rightarrow> SummaryCircuitBreaker" where
  "record_hang model now b = (let key = breaker_key model in cb_note key (Some ''hung'') None (open_circuit key now b))"

definition record_config_error :: "string \<Rightarrow> route_info \<Rightarrow> timestamp \<Rightarrow> SummaryCircuitBreaker \<Rightarrow> SummaryCircuitBreaker" where
  "record_config_error model route now b =
     (let key = breaker_key model; b' = open_circuit key now (cb_note key (Some ''config_error'') route b)
      in b'\<lparr>cb_config_episodes := insert key (cb_config_episodes b')\<rparr>)"

definition record_failure :: "string \<Rightarrow> timestamp \<Rightarrow> SummaryCircuitBreaker \<Rightarrow> SummaryCircuitBreaker" where
  "record_failure model now b =
     (let key = breaker_key model; b1 = cb_note key (Some ''provider_failure'') None b;
          failures = or_zero (cb_failures b1 key) + 1;
          b2 = b1\<lparr>cb_failures := (cb_failures b1)(key \<mapsto> failures)\<rparr>
      in if failures \<ge> max 1 (failure_threshold b) then open_circuit key now b2 else b2)"

definition record_rejection :: "string \<Rightarrow> timestamp \<Rightarrow> SummaryCircuitBreaker \<Rightarrow> SummaryCircuitBreaker" where
  "record_rejection model now b =
     (let key = breaker_key model; b1 = cb_note key (Some ''rejected'') None b;
          rejections = or_zero (cb_rejections b1 key) + 1;
          b2 = b1\<lparr>cb_rejections := (cb_rejections b1)(key \<mapsto> rejections)\<rparr>
      in if rejections \<ge> max 1 (rejection_threshold b) then open_circuit key now b2 else b2)"

text \<open>\<open>min\<close> over an empty sequence raises in Python; every caller passes a non-empty chain.\<close>

definition seconds_until_allowed :: "string list \<Rightarrow> timestamp \<Rightarrow> SummaryCircuitBreaker \<Rightarrow> timestamp" where
  "seconds_until_allowed models now b =
     max 0 (Min (set (map (\<lambda>m. or_zero (cb_open_until b (breaker_key m)) - now) models)))"

record route_status =
  st_open :: bool
  st_seconds_left :: int
  st_last_error_class :: "string option"
  st_provider :: "string option"
  st_model :: "string option"

definition closed_summary_route_status :: route_status where
  "closed_summary_route_status = \<lparr>st_open = False, st_seconds_left = 0, st_last_error_class = None, st_provider = None, st_model = None\<rparr>"

definition route_status_of :: "string list \<Rightarrow> timestamp \<Rightarrow> string \<Rightarrow> SummaryCircuitBreaker \<Rightarrow> route_status" where
  "route_status_of models now prefix b =
     (let keys = map (\<lambda>m. prefix @ m) models in
      if keys = [] then closed_summary_route_status
      else let seconds = seconds_until_allowed keys now b; st = cb_route_state b (breaker_key (hd keys))
           in \<lparr>st_open = (seconds > 0), st_seconds_left = \<lceil>seconds\<rceil>, st_last_error_class = Option.bind st rs_last_error_class,
               st_provider = Option.bind st rs_provider, st_model = Option.bind st rs_model\<rparr>)"

section \<open>The spend guard\<close>

record SummarySpendGuard =
  max_calls :: int
  window_seconds :: timestamp
  backoff_seconds :: timestamp
  sg_calls :: "timestamp list"
  sg_backoff_until :: timestamp

definition sg_prune :: "timestamp \<Rightarrow> SummarySpendGuard \<Rightarrow> SummarySpendGuard" where
  "sg_prune now g =
     (let cutoff = now - window_seconds g in
      if sg_calls g \<noteq> [] \<and> hd (sg_calls g) < cutoff
      then g\<lparr>sg_calls := filter (\<lambda>t. t \<ge> cutoff) (sg_calls g)\<rparr> else g)"

definition sg_allows :: "timestamp \<Rightarrow> SummarySpendGuard \<Rightarrow> bool \<times> SummarySpendGuard" where
  "sg_allows now g =
     (if max_calls g \<le> 0 then (True, g)
      else if now < sg_backoff_until g then (False, g)
      else let g' = sg_prune now g in (int (length (sg_calls g')) < max_calls g', g'))"

definition record_call_locked :: "timestamp \<Rightarrow> SummarySpendGuard \<Rightarrow> SummarySpendGuard" where
  "record_call_locked now g =
     (let g' = g\<lparr>sg_calls := sg_calls g @ [now]\<rparr> in
      if int (length (sg_calls g')) \<ge> max_calls g' \<and> sg_backoff_until g' \<le> now
      then g'\<lparr>sg_backoff_until := now + max 0 (backoff_seconds g'), sg_calls := []\<rparr> else g')"

definition try_record_call :: "timestamp \<Rightarrow> SummarySpendGuard \<Rightarrow> bool \<times> SummarySpendGuard" where
  "try_record_call now g =
     (if max_calls g \<le> 0 then (True, g)
      else if now < sg_backoff_until g then (False, g)
      else let g' = sg_prune now g in
        if int (length (sg_calls g')) \<ge> max_calls g' then (False, g')
        else (True, record_call_locked now g'))"

definition record_call :: "timestamp \<Rightarrow> SummarySpendGuard \<Rightarrow> SummarySpendGuard" where
  "record_call now g = (if max_calls g \<le> 0 then g else record_call_locked now (sg_prune now g))"

text \<open>\<open>None\<close> is \<open>math.inf\<close>.\<close>

definition sg_remaining :: "timestamp \<Rightarrow> SummarySpendGuard \<Rightarrow> int option" where
  "sg_remaining now g =
     (if max_calls g \<le> 0 then None
      else if now < sg_backoff_until g then Some 0
      else Some (max 0 (max_calls g - int (length (filter (\<lambda>t. t \<ge> now - window_seconds g) (sg_calls g))))))"

definition sg_clear :: "SummarySpendGuard \<Rightarrow> SummarySpendGuard" where
  "sg_clear g = g\<lparr>sg_calls := [], sg_backoff_until := 0\<rparr>"

section \<open>The foreground budget\<close>

definition MIN_CALL_SECONDS :: timestamp where "MIN_CALL_SECONDS = 15"

text \<open>
  At most eight samples are kept, for which \<open>ceil(0.9 * n)\<close> in floating point is the exact ceiling.
\<close>

definition p90 :: "timestamp list \<Rightarrow> timestamp \<Rightarrow> timestamp" where
  "p90 samples cold = (if samples = [] then cold else sort samples ! nat (\<lceil>9 / 10 * (of_nat (length samples) :: rat)\<rceil> - 1))"

definition last8 :: "'a list \<Rightarrow> 'a list" where
  "last8 xs = drop (length xs - 8) xs"

record ForegroundEstimates =
  fe_calls :: "string \<Rightarrow> timestamp list option"
  fe_finalize :: "timestamp list"

definition route_calls :: "string \<Rightarrow> ForegroundEstimates \<Rightarrow> timestamp list" where
  "route_calls route_key e = (case fe_calls e route_key of None \<Rightarrow> [] | Some xs \<Rightarrow> xs)"

definition fe_record_call :: "string \<Rightarrow> timestamp \<Rightarrow> ForegroundEstimates \<Rightarrow> ForegroundEstimates" where
  "fe_record_call route_key wall e = e\<lparr>fe_calls := (fe_calls e)(route_key \<mapsto> last8 (route_calls route_key e @ [wall]))\<rparr>"

definition call_estimate :: "string \<Rightarrow> timestamp \<Rightarrow> ForegroundEstimates \<Rightarrow> timestamp" where
  "call_estimate route_key cap e = min (max (p90 (route_calls route_key e) 30) MIN_CALL_SECONDS) cap"

definition record_finalize :: "timestamp \<Rightarrow> ForegroundEstimates \<Rightarrow> ForegroundEstimates" where
  "record_finalize wall e = e\<lparr>fe_finalize := last8 (fe_finalize e @ [wall])\<rparr>"

definition finalize_reserve :: "ForegroundEstimates \<Rightarrow> timestamp" where
  "finalize_reserve e = min 20 (max 5 (p90 (fe_finalize e) 0))"

record ForegroundBudget =
  fb_t0 :: timestamp
  fb_soft :: timestamp
  fb_hard :: timestamp
  fb_configured_timeout :: timestamp
  fb_estimates :: ForegroundEstimates
  fb_reserve :: timestamp
  fb_leaf_reserve :: timestamp
  fb_slot_taken :: bool
  fb_progress :: string
  fb_stop_reason :: string
  fb_hung_route :: "string option"
  fb_first_call_started :: "timestamp option"
  fb_last_call_ended :: "timestamp option"
  fb_summary_failure :: string

definition new_budget :: "timestamp \<Rightarrow> timestamp \<Rightarrow> timestamp \<Rightarrow> timestamp \<Rightarrow> ForegroundEstimates \<Rightarrow> ForegroundBudget" where
  "new_budget now soft hard configured_timeout estimates =
     \<lparr>fb_t0 = now, fb_soft = soft, fb_hard = hard, fb_configured_timeout = configured_timeout, fb_estimates = estimates,
      fb_reserve = finalize_reserve estimates, fb_leaf_reserve = 0, fb_slot_taken = False, fb_progress = [],
      fb_stop_reason = [], fb_hung_route = None, fb_first_call_started = None, fb_last_call_ended = None,
      fb_summary_failure = []\<rparr>"

definition usable_deadline :: "ForegroundBudget \<Rightarrow> timestamp" where
  "usable_deadline fb = fb_t0 fb + fb_hard fb - fb_reserve fb - fb_leaf_reserve fb"

definition fb_estimate :: "string \<Rightarrow> ForegroundBudget \<Rightarrow> timestamp" where
  "fb_estimate route_key fb = call_estimate route_key (min (fb_configured_timeout fb) (fb_hard fb - fb_reserve fb)) (fb_estimates fb)"

text \<open>\<open>Inl reason\<close> is the raised \<open>SweepBudgetExhausted\<close>; the reason is kept in the budget as well.\<close>

definition fb_stop :: "string \<Rightarrow> ForegroundBudget \<Rightarrow> string \<times> ForegroundBudget" where
  "fb_stop reason fb = (reason, fb\<lparr>fb_stop_reason := reason\<rparr>)"

definition admit :: "string \<Rightarrow> timestamp \<Rightarrow> ForegroundBudget \<Rightarrow> (string + timestamp) \<times> ForegroundBudget" where
  "admit route_key now fb =
     (let est = fb_estimate route_key fb; usable_left = usable_deadline fb - now;
          exhausted = (Inl (fst (fb_stop ''time_budget_exhausted'' fb)), snd (fb_stop ''time_budget_exhausted'' fb));
          soft_stop = (Inl (fst (fb_stop ''soft_target_reached'' fb)), snd (fb_stop ''soft_target_reached'' fb))
      in if fb_progress fb = [] then (if usable_left < MIN_CALL_SECONDS then exhausted else (Inr usable_left, fb))
         else if est > usable_left then exhausted
         else if fb_soft fb > 0 \<and> now + est > fb_t0 fb + fb_soft fb then soft_stop
         else (Inr usable_left, fb))"

definition fb_record_call :: "string \<Rightarrow> timestamp \<Rightarrow> timestamp \<Rightarrow> ForegroundBudget \<Rightarrow> ForegroundBudget" where
  "fb_record_call route_key started ended fb =
     fb\<lparr>fb_estimates := fe_record_call route_key (ended - started) (fb_estimates fb),
        fb_first_call_started := (case fb_first_call_started fb of None \<Rightarrow> Some started | Some s \<Rightarrow> Some s),
        fb_last_call_ended := Some ended\<rparr>"

section \<open>What the breaker does to a route\<close>

lemma cb_note_simps [simp]:
  "cb_open_until (cb_note k c r b) = cb_open_until b" "cb_failures (cb_note k c r b) = cb_failures b"
  "cb_rejections (cb_note k c r b) = cb_rejections b" "failure_threshold (cb_note k c r b) = failure_threshold b"
  "rejection_threshold (cb_note k c r b) = rejection_threshold b" "cooldown (cb_note k c r b) = cooldown b"
  by (simp_all add: cb_note_def Let_def cooldown_def)

lemma cooldown_update [simp]:
  "cooldown (b\<lparr>cb_failures := f\<rparr>) = cooldown b" "cooldown (b\<lparr>cb_rejections := f\<rparr>) = cooldown b"
  "cooldown (b\<lparr>cb_open_until := g\<rparr>) = cooldown b"
  by (simp_all add: cooldown_def)

text \<open>
  Failures and rejections are counted by the same scheme with their own counter and threshold: the count
  goes up by one and the circuit opens from the threshold on.
\<close>

locale event_counter =
  fixes record_event :: "string \<Rightarrow> timestamp \<Rightarrow> SummaryCircuitBreaker \<Rightarrow> SummaryCircuitBreaker"
    and counter :: "SummaryCircuitBreaker \<Rightarrow> string \<Rightarrow> int option"
    and threshold :: "SummaryCircuitBreaker \<Rightarrow> int"
  assumes counter_event: "counter (record_event m now b) = (counter b)(breaker_key m \<mapsto> or_zero (counter b (breaker_key m)) + 1)"
    and open_event: "cb_open_until (record_event m now b) =
      (if or_zero (counter b (breaker_key m)) + 1 \<ge> max 1 (threshold b)
       then (cb_open_until b)(breaker_key m \<mapsto> now + cooldown b) else cb_open_until b)"
    and config_event: "threshold (record_event m now b) = threshold b" "cooldown (record_event m now b) = cooldown b"
begin

lemma counter_events:
  "or_zero (counter (foldl (\<lambda>b t. record_event m t b) b ts) (breaker_key m)) = or_zero (counter b (breaker_key m)) + int (length ts)"
  "threshold (foldl (\<lambda>b t. record_event m t b) b ts) = threshold b" "cooldown (foldl (\<lambda>b t. record_event m t b) b ts) = cooldown b"
  by (induction ts arbitrary: b) (simp_all add: counter_event config_event)

lemma opens_exactly:
  assumes "counter b (breaker_key m) = None" "cb_open_until b (breaker_key m) = None" "ts \<noteq> []" "0 \<le> now"
  shows "fst (cb_allows m now prune (foldl (\<lambda>b t. record_event m t b) b ts)) \<longleftrightarrow>
    int (length ts) < max 1 (threshold b) \<or> last ts + cooldown b \<le> now"
proof -
  let ?k = "breaker_key m" and ?run = "\<lambda>ts. foldl (\<lambda>b t. record_event m t b) b ts"
  have closed: "cb_open_until (?run ts) ?k = None" if "int (length ts) < max 1 (threshold b)" for ts
    using that
  proof (induction ts rule: rev_induct)
    case (snoc t ts)
    then show ?case using counter_events[of m b ts] assms(1) by (simp add: open_event)
  qed (simp add: assms(2))
  show ?thesis
  proof (cases "int (length ts) < max 1 (threshold b)")
    case True
    then show ?thesis using closed[OF True] assms(4) by (simp add: cb_allows_def Let_def)
  next
    case False
    obtain us t where ts: "ts = us @ [t]" using assms(3) by (metis rev_exhaust)
    have "max 1 (threshold b) \<le> int (length us) + 1" using False ts by simp
    then have "cb_open_until (?run ts) ?k = Some (t + cooldown b)"
      using counter_events[of m b us] assms(1) by (simp add: ts open_event)
    then show ?thesis using False ts by (simp add: cb_allows_def Let_def)
  qed
qed

lemma other_routes: "breaker_key m' \<noteq> breaker_key m \<Longrightarrow> fst (cb_allows m' now prune (record_event m t b)) = fst (cb_allows m' now prune b)"
  by (simp add: cb_allows_def Let_def open_event)

end

interpretation failures: event_counter record_failure cb_failures failure_threshold
  by unfold_locales (simp_all add: record_failure_def open_circuit_def Let_def)

interpretation rejections: event_counter record_rejection cb_rejections rejection_threshold
  by unfold_locales (simp_all add: record_rejection_def open_circuit_def Let_def)

text \<open>
  A route's circuit opens exactly at the configured number of consecutive failures and, separately,
  of consecutive rejected results: it is refused from the threshold-th event on, until the cooldown after the
  latest one has passed, and allowed before; a success closes it at once, and no event of one route
  changes what another route is allowed.
\<close>

theorem circuit_opens_at_threshold:
  assumes "cb_open_until b (breaker_key m) = None" "cb_failures b (breaker_key m) = None" "cb_rejections b (breaker_key m) = None"
    and "ts \<noteq> []" "0 \<le> now"
  shows "(fst (cb_allows m now prune (foldl (\<lambda>b t. record_failure m t b) b ts)) \<longleftrightarrow>
        int (length ts) < max 1 (failure_threshold b) \<or> last ts + cooldown b \<le> now)
    \<and> (fst (cb_allows m now prune (foldl (\<lambda>b t. record_rejection m t b) b ts)) \<longleftrightarrow>
        int (length ts) < max 1 (rejection_threshold b) \<or> last ts + cooldown b \<le> now)
    \<and> (\<forall>b'. fst (cb_allows m now prune (record_success m b')))
    \<and> (\<forall>b' m' t. breaker_key m' \<noteq> breaker_key m \<longrightarrow>
        fst (cb_allows m' now prune (record_failure m t b')) = fst (cb_allows m' now prune b')
        \<and> fst (cb_allows m' now prune (record_rejection m t b')) = fst (cb_allows m' now prune b'))"
proof -
  have "fst (cb_allows m now prune (record_success m b'))" for b'
    using assms(5) by (simp add: cb_allows_def record_success_def Let_def)
  then show ?thesis
    using failures.opens_exactly[OF assms(2,1,4,5)] rejections.opens_exactly[OF assms(3,1,4,5)] failures.other_routes rejections.other_routes by blast
qed

definition fresh_breaker :: SummaryCircuitBreaker where
  "fresh_breaker = \<lparr>failure_threshold = 2, cooldown_seconds = 300, rejection_threshold = 6, cb_failures = Map.empty,
     cb_rejections = Map.empty, cb_open_until = Map.empty, cb_route_state = Map.empty, cb_config_episodes = {}\<rparr>"

theorem circuit_opens_at_threshold_witness:
  "\<not> fst (cb_allows ''m'' 100 True (foldl (\<lambda>b t. record_failure ''m'' t b) fresh_breaker [10, 20]))"
  using circuit_opens_at_threshold[of fresh_breaker "''m''" "[10, 20]" 100 True] by (simp add: fresh_breaker_def cooldown_def)

section \<open>What the spend guard lets through\<close>

fun try_calls :: "timestamp list \<Rightarrow> SummarySpendGuard \<Rightarrow> timestamp list \<times> SummarySpendGuard" where
  "try_calls [] g = ([], g)"
| "try_calls (t # ts) g =
     (case try_record_call t g of (ok, g') \<Rightarrow> case try_calls ts g' of (granted, g'') \<Rightarrow> (if ok then t # granted else granted, g''))"

abbreviation in_window :: "timestamp \<Rightarrow> timestamp \<Rightarrow> timestamp list \<Rightarrow> timestamp list" where
  "in_window s w ts \<equiv> filter (\<lambda>t. s \<le> t \<and> t < s + w) ts"

lemma prune_filter: "sorted (sg_calls g) \<Longrightarrow> sg_calls (sg_prune now g) = filter (\<lambda>x. now - window_seconds g \<le> x) (sg_calls g)"
proof (cases "sg_calls g \<noteq> [] \<and> hd (sg_calls g) < now - window_seconds g")
  case False
  assume sorted: "sorted (sg_calls g)"
  have "\<forall>x \<in> set (sg_calls g). now - window_seconds g \<le> x"
    using False sorted by (cases "sg_calls g") auto
  with False show ?thesis by (simp add: sg_prune_def Let_def)
qed (simp add: sg_prune_def Let_def)

lemma prune_config [simp]:
  "max_calls (sg_prune now g) = max_calls g" "window_seconds (sg_prune now g) = window_seconds g"
  "backoff_seconds (sg_prune now g) = backoff_seconds g" "sg_backoff_until (sg_prune now g) = sg_backoff_until g"
  by (simp_all add: sg_prune_def Let_def)

lemma try_config:
  "max_calls (snd (try_record_call t g)) = max_calls g" "window_seconds (snd (try_record_call t g)) = window_seconds g"
  "backoff_seconds (snd (try_record_call t g)) = backoff_seconds g"
  by (simp_all add: try_record_call_def record_call_locked_def Let_def)

text \<open>
  What the guard remembers of the granted calls \<open>H\<close>: those before the last trip are a whole window
  before the end of the backoff, those after it are in the list as long as they matter.
\<close>

definition remembers :: "timestamp list \<Rightarrow> timestamp list \<Rightarrow> timestamp \<Rightarrow> SummarySpendGuard \<Rightarrow> bool" where
  "remembers before after now g = (sorted (sg_calls g) \<and> int (length (sg_calls g)) < max_calls g
     \<and> (\<forall>x \<in> set before \<union> set after \<union> set (sg_calls g). x \<le> now)
     \<and> (\<forall>x \<in> set before. x + window_seconds g \<le> sg_backoff_until g)
     \<and> (\<forall>t \<ge> now. filter (\<lambda>x. t - window_seconds g \<le> x) (sg_calls g) = filter (\<lambda>x. t - window_seconds g \<le> x) after))"

lemma refused_step:
  assumes "remembers before after now g" "now \<le> t" "fst (try_record_call t g) = False"
  shows "remembers before after t (snd (try_record_call t g))"
proof -
  have "remembers before after t g" using assms(1,2) unfolding remembers_def by (meson order_trans)
  moreover have "int (length (sg_calls (sg_prune t g))) < max_calls g"
    using assms(1) prune_filter[of g t] length_filter_le[of _ "sg_calls g"] unfolding remembers_def by (metis le_less_trans of_nat_le_iff)
  ultimately show ?thesis using assms(3) by (auto simp: try_record_call_def Let_def split: if_splits)
qed

lemma granted_step:
  assumes mem: "remembers before after now g" and le: "now \<le> t" and pos: "0 < max_calls g"
    and win: "0 \<le> window_seconds g" "window_seconds g \<le> backoff_seconds g" and ok: "fst (try_record_call t g)"
  shows "remembers before (after @ [t]) t (snd (try_record_call t g)) \<or> remembers (before @ after @ [t]) [] t (snd (try_record_call t g))"
proof -
  let ?p = "filter (\<lambda>x. t - window_seconds g \<le> x) (sg_calls g)"
  have p: "sg_calls (sg_prune t g) = ?p" using prune_filter mem by (simp add: remembers_def)
  have grant: "snd (try_record_call t g) = record_call_locked t (sg_prune t g)" "sg_backoff_until g \<le> t"
    using ok pos by (auto simp: try_record_call_def Let_def split: if_splits)
  have all: "\<forall>x \<in> set before \<union> set after \<union> set (sg_calls g). x \<le> t" using mem le by (auto simp: remembers_def intro: order_trans)
  show ?thesis
  proof (cases "int (length ?p) + 1 \<ge> max_calls g")
    case True
    then have "snd (try_record_call t g) = (sg_prune t g)\<lparr>sg_backoff_until := t + max 0 (backoff_seconds g), sg_calls := []\<rparr>"
      using grant p by (simp add: record_call_locked_def Let_def)
    moreover have "x + window_seconds g \<le> t + max 0 (backoff_seconds g)" if "x \<le> t" for x using that win by simp
    ultimately have "remembers (before @ after @ [t]) [] t (snd (try_record_call t g))"
      using all pos win by (auto simp: remembers_def intro!: add_mono)
    then show ?thesis ..
  next
    case False
    then have g': "snd (try_record_call t g) = (sg_prune t g)\<lparr>sg_calls := ?p @ [t]\<rparr>"
      using grant p by (simp add: record_call_locked_def Let_def)
    have "filter (\<lambda>x. u - window_seconds g \<le> x) (?p @ [t]) = filter (\<lambda>x. u - window_seconds g \<le> x) (after @ [t])" if "t \<le> u" for u
    proof -
      have "filter (\<lambda>x. u - window_seconds g \<le> x) ?p = filter (\<lambda>x. u - window_seconds g \<le> x) (sg_calls g)"
        unfolding filter_filter by (rule filter_cong[OF refl]) (use that in auto)
      also have "\<dots> = filter (\<lambda>x. u - window_seconds g \<le> x) after" using mem that le unfolding remembers_def by (meson order_trans)
      finally show ?thesis by simp
    qed
    moreover have "sorted ?p" using mem sorted_filter[of "\<lambda>x. x" "sg_calls g"] by (simp add: remembers_def)
    then have "sorted (?p @ [t])" using all by (auto simp: sorted_append)
    ultimately have "remembers before (after @ [t]) t (snd (try_record_call t g))"
      using False all mem unfolding g' remembers_def by auto
    then show ?thesis ..
  qed
qed

text \<open>A grant's own window holds no call from before the last trip and fewer than the limit since.\<close>

lemma granted_window:
  assumes mem: "remembers before after now g" and le: "now \<le> t" and pos: "0 < max_calls g"
    and ok: "fst (try_record_call t g)" and s: "s \<le> t" "t < s + window_seconds g"
  shows "int (length (in_window s (window_seconds g) (before @ after @ [t]))) \<le> max_calls g"
proof -
  let ?w = "window_seconds g"
  have grant: "sg_backoff_until g \<le> t" using ok pos by (auto simp: try_record_call_def split: if_splits)
  have "in_window s ?w before = []"
  proof -
    have "x < s" if "x \<in> set before" for x
    proof -
      have "x + ?w \<le> t" using mem grant that unfolding remembers_def by (meson order_trans)
      then show ?thesis using s(2) by linarith
    qed
    then show ?thesis by (auto simp: filter_empty_conv not_le)
  qed
  moreover have "length (in_window s ?w after) \<le> length (sg_calls g)"
  proof -
    have "in_window s ?w after = filter (\<lambda>x. s \<le> x \<and> x < s + ?w) (filter (\<lambda>x. t - ?w \<le> x) after)"
      unfolding filter_filter by (rule filter_cong[OF refl]) (use s(2) in auto)
    also have "filter (\<lambda>x. t - ?w \<le> x) after = filter (\<lambda>x. t - ?w \<le> x) (sg_calls g)" using mem le unfolding remembers_def by simp
    finally show ?thesis by (metis length_filter_le le_trans)
  qed
  ultimately show ?thesis using mem by (simp add: remembers_def)
qed

lemma try_calls_window:
  assumes "remembers before after now g" "sorted (now # ts)" "0 < max_calls g" "0 \<le> window_seconds g" "window_seconds g \<le> backoff_seconds g"
    and "\<forall>s. int (length (in_window s (window_seconds g) (before @ after))) \<le> max_calls g"
  shows "int (length (in_window s (window_seconds g) (before @ after @ fst (try_calls ts g)))) \<le> max_calls g"
  using assms
proof (induction ts arbitrary: before after now g)
  case (Cons t ts)
  let ?g = "snd (try_record_call t g)" and ?w = "window_seconds g"
  note config = try_config[of t g]
  have le: "now \<le> t" and sorted: "sorted (t # ts)" using Cons.prems(2) by auto
  show ?case
  proof (cases "fst (try_record_call t g)")
    case False
    have mem: "remembers before after t ?g" by (rule refused_step[OF Cons.prems(1) le]) (use False in simp)
    have "int (length (in_window s (window_seconds ?g) (before @ after @ fst (try_calls ts ?g)))) \<le> max_calls ?g"
      by (rule Cons.IH[OF mem sorted]) (use Cons.prems config in simp_all)
    with False config show ?thesis by (simp add: case_prod_unfold)
  next
    case True
    have win: "\<forall>s. int (length (in_window s ?w (before @ after @ [t]))) \<le> max_calls g"
    proof
      fix s
      show "int (length (in_window s ?w (before @ after @ [t]))) \<le> max_calls g"
      proof (cases "s \<le> t \<and> t < s + ?w")
        case True
        with granted_window[OF Cons.prems(1) le Cons.prems(3) \<open>fst (try_record_call t g)\<close>] show ?thesis by blast
      next
        case False
        then show ?thesis using Cons.prems(6)[rule_format, of s] by auto
      qed
    qed
    from granted_step[OF Cons.prems(1) le Cons.prems(3-5) True]
    have "int (length (in_window s (window_seconds ?g) (before @ (after @ [t]) @ fst (try_calls ts ?g)))) \<le> max_calls ?g"
    proof
      assume mem: "remembers before (after @ [t]) t ?g"
      show ?thesis by (rule Cons.IH[OF mem sorted]) (use Cons.prems config win in simp_all)
    next
      assume mem: "remembers (before @ after @ [t]) [] t ?g"
      have "int (length (in_window s (window_seconds ?g) ((before @ after @ [t]) @ [] @ fst (try_calls ts ?g)))) \<le> max_calls ?g"
        by (rule Cons.IH[OF mem sorted]) (use Cons.prems config win in simp_all)
      then show ?thesis by simp
    qed
    with True config show ?thesis by (simp add: case_prod_unfold)
  qed
qed simp

text \<open>
  The spend guard bounds the rate of provider calls: from a fresh guard, however the callers try to
  reserve calls over time, no half-open interval of the window's length contains more than \<open>max_calls\<close>
  granted calls, provided the backoff is at least as long as the window (as in the defaults, 1800 s and 600 s).
\<close>

theorem spend_guard_window_bound:
  assumes "sg_calls g = []" "0 < max_calls g" "0 \<le> window_seconds g" "window_seconds g \<le> backoff_seconds g" "sorted ts"
  shows "int (length (in_window s (window_seconds g) (fst (try_calls ts g)))) \<le> max_calls g"
proof (cases ts)
  case (Cons t us)
  have "remembers [] [] t g" using assms by (simp add: remembers_def)
  then have "int (length (in_window s (window_seconds g) ([] @ [] @ fst (try_calls ts g)))) \<le> max_calls g"
    by (rule try_calls_window) (use assms Cons in auto)
  then show ?thesis by simp
qed (use assms in simp)

definition sample_guard :: SummarySpendGuard where
  "sample_guard = \<lparr>max_calls = 2, window_seconds = 10, backoff_seconds = 20, sg_calls = [], sg_backoff_until = 0\<rparr>"

theorem spend_guard_window_bound_witness:
  "length (in_window 0 10 (fst (try_calls [1, 2, 3, 4, 30] sample_guard))) \<le> 2
    \<and> fst (try_calls [1, 2, 3, 4, 30] sample_guard) = [1, 2, 30]"
proof (rule conjI)
  show "length (in_window 0 10 (fst (try_calls [1, 2, 3, 4, 30] sample_guard))) \<le> 2"
    using spend_guard_window_bound[of sample_guard "[1, 2, 3, 4, 30]" 0] by (simp add: sample_guard_def)
qed code_simp

end
