(* ===== verification/Summary_Outcome.thy ===== *)
theory Summary_Outcome
  imports Prelude
begin

text \<open>
  One summary attempt and its classification: \<^verbatim>\<open>src/summary_attempt.py\<close> (the provider-error
  predicates) and \<^verbatim>\<open>src/summary_outcome.py\<close>.  An exception is the record of what the predicates read of
  it; a missing attribute is \<open>None\<close>, or the empty string where the code formats it.
\<close>

record provider_error =
  err_type :: string
  err_is_timeout :: bool
  err_message :: string
  err_status_code :: "int option"
  err_response_status :: "int option"
  err_status :: "int option"
  err_body :: string
  err_response_text :: string

section \<open>The regular expressions, as scanners\<close>

definition is_digit :: "char \<Rightarrow> bool" where
  "is_digit c = (48 \<le> (of_char c :: nat) \<and> (of_char c :: nat) \<le> 57)"

definition is_word :: "char \<Rightarrow> bool" where
  "is_word c = (let n = (of_char c :: nat) in
     is_digit c \<or> (65 \<le> n \<and> n \<le> 90) \<or> (97 \<le> n \<and> n \<le> 122) \<or> n = 95
     \<or> n \<in> {170, 178, 179, 181, 185, 186, 188, 189, 190} \<or> (192 \<le> n \<and> n \<noteq> 215 \<and> n \<noteq> 247))"

definition digit_value :: "char \<Rightarrow> int" where
  "digit_value c = int (of_char c :: nat) - 48"

text \<open>\<^verbatim>\<open>\s*[:=]?\s*(\d{3})\b\<close> at the start of the text.\<close>

definition status_number :: "string \<Rightarrow> int option" where
  "status_number s =
     (let r = dropWhile py_isspace s;
          r' = dropWhile py_isspace (if r \<noteq> [] \<and> hd r \<in> {CHR '':'', CHR ''=''} then tl r else r)
      in if 3 \<le> length r' \<and> list_all is_digit (take 3 r') \<and> (length r' = 3 \<or> \<not> is_word (r' ! 3))
         then Some (100 * digit_value (r' ! 0) + 10 * digit_value (r' ! 1) + digit_value (r' ! 2)) else None)"

definition after_prefix :: "string \<Rightarrow> string \<Rightarrow> string option" where
  "after_prefix p s = (if is_prefix p s then Some (drop (length p) s) else None)"

definition status_at :: "string \<Rightarrow> int option" where
  "status_at s =
     (case Option.bind (after_prefix ''error code'' s) status_number of Some n \<Rightarrow> Some n | None \<Rightarrow>
      (case Option.bind (after_prefix ''status code'' s) status_number of Some n \<Rightarrow> Some n | None \<Rightarrow>
         Option.bind (after_prefix ''status'' s) status_number))"

fun status_in_message :: "string \<Rightarrow> int option" where
  "status_in_message [] = None"
| "status_in_message (c # cs) = (case status_at (c # cs) of Some n \<Rightarrow> Some n | None \<Rightarrow> status_in_message cs)"

text \<open>\<^verbatim>\<open>re.sub(r"[-_\s]+", " ", message)\<close>.\<close>

definition is_sep :: "char \<Rightarrow> bool" where
  "is_sep c = (c \<in> {CHR ''-'', CHR ''_''} \<or> py_isspace c)"

fun collapse_seps :: "bool \<Rightarrow> string \<Rightarrow> string" where
  "collapse_seps in_run [] = []"
| "collapse_seps in_run (c # cs) =
     (if is_sep c then (if in_run then collapse_seps True cs else CHR '' '' # collapse_seps True cs)
      else c # collapse_seps False cs)"

text \<open>\<^verbatim>\<open>\b1301\b\<close> anywhere, given whether the previous character is a word character.\<close>

fun has_word_1301 :: "bool \<Rightarrow> string \<Rightarrow> bool" where
  "has_word_1301 prev_word [] = False"
| "has_word_1301 prev_word (c # cs) =
     ((\<not> prev_word \<and> is_prefix ''1301'' (c # cs) \<and> (length cs = 3 \<or> \<not> is_word (cs ! 3))) \<or> has_word_1301 (is_word c) cs)"

section \<open>Error predicates\<close>

definition any_token :: "string list \<Rightarrow> string \<Rightarrow> bool" where
  "any_token tokens message = (\<exists>t \<in> set tokens. is_substring t message)"

definition ROUTE_CONFIG_ERROR_TOKENS :: "string list" where
  "ROUTE_CONFIG_ERROR_TOKENS = [''model not found'', ''model_not_found'', ''unknown model'', ''no such model'',
     ''is not a valid model'', ''model not supported'', ''model is not supported'', ''model_not_supported'', ''unsupported model'']"

definition ROUTE_CONFIG_ERROR_GENERIC_TOKENS :: "string list" where
  "ROUTE_CONFIG_ERROR_GENERIC_TOKENS = [''not_found_error'', ''does not exist'', ''not supported when using'']"

definition NOT_ROUTE_CONFIG_TOKENS :: "string list" where
  "NOT_ROUTE_CONFIG_TOKENS = [''context length'', ''context_length'', ''context window'', ''maximum context'',
     ''too many tokens'', ''rate limit'', ''rate_limit'', ''too many requests'', ''billing'', ''credits'', ''insufficient'',
     ''quota'', ''payment'', ''free tier'', ''timed out'', ''timeout'']"

definition CONTEXT_LENGTH_ERROR_TOKENS :: "string list" where
  "CONTEXT_LENGTH_ERROR_TOKENS = [''context length'', ''context_length'', ''context window'', ''maximum context'',
     ''max context'', ''too many tokens'', ''token limit'', ''prompt is too long'', ''input too long'', ''request too large'',
     ''context limit'', ''maximum number of tokens'']"

definition NOT_CONTEXT_LENGTH_TOKENS :: "string list" where
  "NOT_CONTEXT_LENGTH_TOKENS = [''rate limit'', ''rate_limit'', ''too many requests'', ''quota'']"

text \<open>\<open>status_code\<close>, or the response's when that is missing or zero, or the number in the text.\<close>

definition error_status :: "string \<Rightarrow> provider_error \<Rightarrow> int option" where
  "error_status message e =
     (let status = (case err_status_code e of Some s \<Rightarrow> if s \<noteq> 0 then Some s else err_response_status e | None \<Rightarrow> err_response_status e)
      in case status of Some s \<Rightarrow> Some s | None \<Rightarrow> status_in_message message)"

definition is_summary_route_config_error :: "provider_error option \<Rightarrow> bool" where
  "is_summary_route_config_error exc = (case exc of None \<Rightarrow> False | Some e \<Rightarrow>
     if err_is_timeout e then False
     else let message = lower (err_message e); status = error_status message e in
       if status \<notin> {Some 400, Some 404, None} \<or> any_token NOT_ROUTE_CONFIG_TOKENS message then False
       else any_token ROUTE_CONFIG_ERROR_TOKENS message
         \<or> (is_substring ''model'' message \<and> any_token ROUTE_CONFIG_ERROR_GENERIC_TOKENS message))"

definition underscores_to_spaces :: "string \<Rightarrow> string" where
  "underscores_to_spaces = map (\<lambda>c. if c = CHR ''_'' then CHR '' '' else c)"

definition is_summary_context_length_error :: "provider_error option \<Rightarrow> bool" where
  "is_summary_context_length_error exc = (case exc of None \<Rightarrow> False | Some e \<Rightarrow>
     if err_is_timeout e then False
     else let message = lower (err_message e); status = error_status message e in
       if status = Some 429 \<or> err_status e = Some 429 then False
       else if any_token (map underscores_to_spaces NOT_CONTEXT_LENGTH_TOKENS) (collapse_seps False message) then False
       else any_token CONTEXT_LENGTH_ERROR_TOKENS message)"

definition is_summary_content_filter_error :: "provider_error option \<Rightarrow> bool" where
  "is_summary_content_filter_error exc = (case exc of None \<Rightarrow> False | Some e \<Rightarrow>
     if err_is_timeout e then False
     else let message = lower (join '' '' [err_message e, err_body e, err_response_text e]); status = error_status message e in
       status = Some 400 \<and> (any_token [''contentfilter'', ''content_filter'', ''content_policy_violation''] message
         \<or> (has_word_1301 False message \<and> is_substring ''sensitive'' message)))"

section \<open>Classification\<close>

record SummaryTiming =
  tm_started :: timestamp
  tm_ended :: "timestamp option"
  tm_deadline_installed :: bool

record SummaryAttempt =
  at_text :: "string option"
  at_error :: "provider_error option"
  at_route :: "(string option \<times> string option) option"
  at_contract :: string
  at_timing :: SummaryTiming

datatype SummaryOutcomeKind = BUDGET_CUT | ACCEPTED | VERBATIM_SMALL_SOURCE | REJECTED | CONFIG_ERROR | CONTENT_FILTER
  | CONTEXT_LENGTH | FAILURE | REJECTION

record SummaryOutcome =
  oc_kind :: SummaryOutcomeKind
  oc_reason :: string
  oc_hang :: bool
  oc_record_hang :: bool

record SummaryOutcomeFacts =
  sf_budget_present :: bool
  sf_budget_bound :: bool
  sf_call_timeout :: "timestamp option"
  sf_configured_timeout :: timestamp
  sf_hard :: timestamp
  sf_reserve :: timestamp
  sf_leaf_reserve :: timestamp
  sf_usable_deadline :: timestamp
  sf_now :: timestamp
  sf_breaker_present :: bool
  sf_accepts_result :: bool
  sf_verbatim_small_source :: bool
  sf_source_tokens :: "int option"
  sf_result_tokens :: int
  sf_context_length_rescue :: bool

definition is_budget_cut :: "provider_error option \<Rightarrow> bool \<Rightarrow> timestamp \<Rightarrow> timestamp option \<Rightarrow> bool \<Rightarrow> timestamp \<Rightarrow> timestamp \<Rightarrow> bool" where
  "is_budget_cut exc budget_bound wall call_timeout deadline_installed now usable = (case exc of None \<Rightarrow> False | Some e \<Rightarrow>
     let message = lower (err_message e);
         timeout_like = (err_is_timeout e \<or> is_substring ''timed out'' message \<or> is_substring ''timeout'' message);
         at_deadline = (now \<ge> usable - 1)
     in (timeout_like \<and> is_substring ''host compression deadline'' message)
        \<or> (budget_bound \<and> at_deadline)
        \<or> (timeout_like \<and> budget_bound \<and> (case call_timeout of None \<Rightarrow> False | Some t \<Rightarrow> wall \<ge> t - 1))
        \<or> (deadline_installed \<and> (case call_timeout of None \<Rightarrow> False | Some t \<Rightarrow> wall > t + 1) \<and> at_deadline))"

definition outcome :: "SummaryOutcomeKind \<Rightarrow> SummaryOutcome" where
  "outcome k = \<lparr>oc_kind = k, oc_reason = [], oc_hang = False, oc_record_hang = False\<rparr>"

text \<open>The window a hang must have used up, and whether it did.  A budget-bound call has a timeout.\<close>

definition hang_window :: "SummaryOutcomeFacts \<Rightarrow> timestamp" where
  "hang_window f = (if sf_budget_bound f then min (sf_configured_timeout f) (sf_hard f - sf_reserve f - sf_leaf_reserve f)
     else sf_hard f - sf_reserve f - sf_leaf_reserve f)"

definition is_hang :: "SummaryTiming \<Rightarrow> SummaryOutcomeFacts \<Rightarrow> bool" where
  "is_hang tm f =
     (let ended = or_zero (tm_ended tm); used_window =
        ((sf_budget_bound f \<and> or_zero (sf_call_timeout f) \<ge> 9 / 10 * hang_window f)
         \<or> (tm_deadline_installed tm \<and> ended \<ge> sf_usable_deadline f - 1))
      in used_window \<and> ended - tm_started tm \<ge> 9 / 10 * hang_window f)"

definition attempt_cut :: "SummaryAttempt \<Rightarrow> SummaryOutcomeFacts \<Rightarrow> bool" where
  "attempt_cut a f = (sf_budget_present f \<and> at_text a = None \<and>
     is_budget_cut (at_error a) (sf_budget_bound f) (or_zero (tm_ended (at_timing a)) - tm_started (at_timing a)) (sf_call_timeout f)
       (tm_deadline_installed (at_timing a)) (sf_now f) (sf_usable_deadline f))"

definition classify_summary_outcome :: "SummaryAttempt \<Rightarrow> SummaryOutcomeFacts \<Rightarrow> SummaryOutcome" where
  "classify_summary_outcome a f =
     (if attempt_cut a f
      then (outcome BUDGET_CUT)\<lparr>oc_hang := is_hang (at_timing a) f, oc_record_hang := sf_breaker_present f \<and> is_hang (at_timing a) f\<rparr>
      else (case at_text a of
        Some result \<Rightarrow>
          if result \<noteq> [] \<and> sf_accepts_result f then outcome ACCEPTED
          else if result \<noteq> [] \<and> sf_verbatim_small_source f
               \<and> (case sf_source_tokens f of None \<Rightarrow> False | Some n \<Rightarrow> sf_result_tokens f \<ge> n)
          then outcome VERBATIM_SMALL_SOURCE
          else (outcome (if sf_breaker_present f then REJECTION else REJECTED))
                 \<lparr>oc_reason := (if result \<noteq> [] then ''not_shorter'' else ''no_content'')\<rparr>
      | None \<Rightarrow>
          if is_summary_route_config_error (at_error a) then outcome CONFIG_ERROR
          else if is_summary_content_filter_error (at_error a) then outcome CONTENT_FILTER
          else if sf_context_length_rescue f \<and> is_summary_context_length_error (at_error a) then outcome CONTEXT_LENGTH
          else outcome FAILURE))"

section \<open>What a classification implies\<close>

lemma kind_outcome [simp]: "oc_kind (outcome k) = k"
  by (simp add: outcome_def)

lemma classify_accepted:
  "oc_kind (classify_summary_outcome a f) = ACCEPTED \<longleftrightarrow> sf_accepts_result f \<and> (\<exists>r. at_text a = Some r \<and> r \<noteq> [])"
  by (auto simp: classify_summary_outcome_def attempt_cut_def split: option.split)

lemma classify_verbatim:
  "oc_kind (classify_summary_outcome a f) = VERBATIM_SMALL_SOURCE \<Longrightarrow>
     \<exists>r n. at_text a = Some r \<and> r \<noteq> [] \<and> sf_verbatim_small_source f \<and> sf_source_tokens f = Some n \<and> n \<le> sf_result_tokens f"
  by (auto simp: classify_summary_outcome_def attempt_cut_def split: option.splits if_splits)

lemma classify_cut: "oc_kind (classify_summary_outcome a f) = BUDGET_CUT \<longleftrightarrow> attempt_cut a f"
  by (auto simp: classify_summary_outcome_def split: option.split)

text \<open>
  A timeout is never blamed on the route's configuration or on the chunk: an attempt that ended in a
  \<open>TimeoutError\<close> is classified as a budget cut or as an ordinary provider failure, whatever its message,
  status or budget, and counts as a failure of the route only when no budget cut explains it.
\<close>

theorem timeout_is_cut_or_failure:
  assumes "at_text a = None" "at_error a = Some e" "err_is_timeout e"
  shows "oc_kind (classify_summary_outcome a f) = (if attempt_cut a f then BUDGET_CUT else FAILURE)"
  using assms by (simp add: classify_summary_outcome_def is_summary_route_config_error_def is_summary_content_filter_error_def
      is_summary_context_length_error_def)

definition sample_timeout :: SummaryAttempt where
  "sample_timeout = \<lparr>at_text = None,
     at_error = Some \<lparr>err_type = ''TimeoutError'', err_is_timeout = True, err_message = ''status code: 404 unknown model'',
       err_status_code = Some 404, err_response_status = None, err_status = None, err_body = [], err_response_text = []\<rparr>,
     at_route = None, at_contract = [], at_timing = \<lparr>tm_started = 0, tm_ended = Some 5, tm_deadline_installed = False\<rparr>\<rparr>"

definition sample_facts :: SummaryOutcomeFacts where
  "sample_facts = \<lparr>sf_budget_present = False, sf_budget_bound = False, sf_call_timeout = None, sf_configured_timeout = 0,
     sf_hard = 0, sf_reserve = 0, sf_leaf_reserve = 0, sf_usable_deadline = 0, sf_now = 0, sf_breaker_present = True,
     sf_accepts_result = False, sf_verbatim_small_source = False, sf_source_tokens = None, sf_result_tokens = 0,
     sf_context_length_rescue = True\<rparr>"

theorem timeout_is_cut_or_failure_witness: "oc_kind (classify_summary_outcome sample_timeout sample_facts) = FAILURE"
proof -
  have "at_text sample_timeout = None" "\<not> attempt_cut sample_timeout sample_facts"
    by (simp_all add: sample_timeout_def sample_facts_def attempt_cut_def)
  with timeout_is_cut_or_failure[of sample_timeout "the (at_error sample_timeout)" sample_facts] show ?thesis
    by (simp add: sample_timeout_def)
qed

end
