(* ===== verification/Escalation.thy ===== *)
theory Escalation
  imports Truncation Summary_Guards Summary_Outcome
begin

text \<open>
  The three-level escalation, \<^verbatim>\<open>src/escalation.py\<close>: the chain of summary routes under the circuit
  breaker, the spend guard and the time budget, and \<open>summarize_with_escalation\<close>.

  The host's model call is not part of the repository: \<open>provider\<close> is what \<open>_invoke_summary_llm\<close> returns
  for the n-th call (text, error, route reported, failed contract check), \<open>clock\<close> the n-th reading of
  \<open>time.monotonic\<close>, \<open>deadline_seam\<close> whether the host exports its stream-deadline seam, \<open>build_prompt\<close> the
  prompt texts.  The shared objects and the counters are the \<open>summary_world\<close>, which also keeps a list of
  the calls made with their start and timeout.
\<close>

record provider_reply =
  pr_text :: "string option"
  pr_error :: "provider_error option"
  pr_route :: "(string option \<times> string option) option"
  pr_contract :: string

record summary_env =
  tokenizer :: "codec option"
  clock :: "nat \<Rightarrow> timestamp"
  provider :: "nat \<Rightarrow> string \<Rightarrow> int \<Rightarrow> string \<Rightarrow> timestamp option \<Rightarrow> provider_reply"
  deadline_seam :: bool
  build_prompt :: "nat \<Rightarrow> string \<Rightarrow> int \<Rightarrow> string"

record provenance =
  pv_model :: "string option"
  pv_content_filter_error :: bool
  pv_context_length_error :: bool

record made_call =
  mc_model :: string
  mc_admitted_at :: timestamp
  mc_timeout :: "timestamp option"

record summary_world =
  w_breaker :: "SummaryCircuitBreaker option"
  w_guard :: "SummarySpendGuard option"
  w_budget :: "ForegroundBudget option"
  w_provenance :: provenance
  w_chain_error :: "string option"
  w_handoff :: bool
  w_ticks :: nat
  w_calls :: "made_call list"

record route_params =
  rp_prompt :: string
  rp_max_tokens :: int
  rp_timeout :: "timestamp option"
  rp_accepts :: "string \<Rightarrow> bool"
  rp_source_tokens :: "int option"
  rp_deadline :: "timestamp option"
  rp_prefix :: string
  rp_verbatim :: bool
  rp_rescue :: bool

definition summary_model_chain :: "string \<Rightarrow> string list \<Rightarrow> string list" where
  "summary_model_chain primary fallbacks = dedup (map strip (primary # fallbacks))"

definition now_of :: "summary_env \<Rightarrow> summary_world \<Rightarrow> timestamp" where
  "now_of env w = clock env (w_ticks w)"

definition tick :: "summary_world \<Rightarrow> summary_world" where
  "tick w = w\<lparr>w_ticks := Suc (w_ticks w)\<rparr>"

text \<open>\<open>any(...)\<close> over the chain: it stops at the first allowed route, and may prune expired entries on the way.\<close>

fun any_route_allowed :: "summary_env \<Rightarrow> bool \<Rightarrow> string list \<Rightarrow> summary_world \<Rightarrow> bool \<times> summary_world" where
  "any_route_allowed env prune [] w = (False, w)"
| "any_route_allowed env prune (k # ks) w = (case w_breaker w of None \<Rightarrow> (True, w)
     | Some b \<Rightarrow> (case cb_allows k (now_of env w) prune b of (ok, b') \<Rightarrow>
         let w' = (tick w)\<lparr>w_breaker := Some b'\<rparr> in if ok then (True, w') else any_route_allowed env prune ks w'))"

definition summary_route_available ::
  "summary_env \<Rightarrow> string \<Rightarrow> string list \<Rightarrow> string \<Rightarrow> bool \<Rightarrow> summary_world \<Rightarrow> bool \<times> summary_world" where
  "summary_route_available env model fallbacks prefix prune w =
     (if w_breaker w = None then (True, w)
      else any_route_allowed env prune (map (\<lambda>m. prefix @ m) (summary_model_chain model fallbacks)) w)"

section \<open>One route\<close>

text \<open>The circuit check; \<open>False\<close> skips the route.\<close>

definition circuit_check :: "summary_env \<Rightarrow> string \<Rightarrow> summary_world \<Rightarrow> bool \<times> summary_world" where
  "circuit_check env key w = (case w_breaker w of None \<Rightarrow> (True, w)
     | Some b \<Rightarrow> (case cb_allows key (now_of env w) True b of (ok, b') \<Rightarrow> (ok, (tick w)\<lparr>w_breaker := Some b'\<rparr>)))"

text \<open>The admission: an exhausted budget, or whether the budget bounds the call, and its timeout.\<close>

definition admit_call :: "summary_env \<Rightarrow> route_params \<Rightarrow> string \<Rightarrow> summary_world \<Rightarrow> (string + (bool \<times> timestamp option)) \<times> summary_world" where
  "admit_call env ps key w = (case w_budget w of
     Some fb \<Rightarrow> (case admit key (now_of env w) fb of (r, fb') \<Rightarrow>
       let w' = (tick w)\<lparr>w_budget := Some fb'\<rparr> in
       (case r of Inl reason \<Rightarrow> (Inl reason, w')
        | Inr left \<Rightarrow>
            let bound = (case rp_timeout ps of None \<Rightarrow> True | Some t \<Rightarrow> left < t)
            in (Inr (bound, if bound then Some left else rp_timeout ps), w')))
   | None \<Rightarrow> (case rp_deadline ps of
       None \<Rightarrow> (Inr (False, rp_timeout ps), w)
     | Some d \<Rightarrow>
         let remaining = d - now_of env w; w' = tick w in
         if remaining < MIN_CALL_SECONDS then (Inl ''time_budget_exhausted'', w')
         else (Inr (False, Some (case rp_timeout ps of None \<Rightarrow> remaining | Some t \<Rightarrow> min t remaining)), w')))"

definition slot_taken :: "summary_world \<Rightarrow> bool" where
  "slot_taken w = (case w_budget w of None \<Rightarrow> False | Some fb \<Rightarrow> fb_slot_taken fb)"

definition reserve_call :: "summary_env \<Rightarrow> summary_world \<Rightarrow> bool \<times> summary_world" where
  "reserve_call env w = (case w_guard w of None \<Rightarrow> (True, w)
     | Some g \<Rightarrow> if slot_taken w then (True, w)
         else (case try_record_call (now_of env w) g of (ok, g') \<Rightarrow>
           let w' = (tick w)\<lparr>w_guard := Some g'\<rparr> in
           (ok, if ok then w'\<lparr>w_budget := map_option (\<lambda>fb. fb\<lparr>fb_slot_taken := True\<rparr>) (w_budget w')\<rparr> else w')))"

definition run_attempt ::
  "summary_env \<Rightarrow> route_params \<Rightarrow> string \<Rightarrow> timestamp \<Rightarrow> timestamp option \<Rightarrow> summary_world \<Rightarrow> SummaryAttempt \<times> summary_world" where
  "run_attempt env ps model admitted call_timeout w =
     (let started = now_of env w; w1 = tick w;
          reply = provider env (length (w_calls w)) (rp_prompt ps) (rp_max_tokens ps) model call_timeout;
          w2 = w1\<lparr>w_calls := w_calls w1 @ [\<lparr>mc_model = model, mc_admitted_at = admitted, mc_timeout = call_timeout\<rparr>]\<rparr>;
          budgeted = (w_budget w2 \<noteq> None)
      in (\<lparr>at_text = pr_text reply, at_error = pr_error reply, at_route = pr_route reply, at_contract = pr_contract reply,
           at_timing = \<lparr>tm_started = started, tm_ended = (if budgeted then Some (now_of env w2) else None),
             tm_deadline_installed = (budgeted \<and> deadline_seam env)\<rparr>\<rparr>,
          if budgeted then tick w2 else w2))"

definition note_error :: "provider_error option \<Rightarrow> summary_world \<Rightarrow> summary_world" where
  "note_error e w = (case e of None \<Rightarrow> w\<lparr>w_handoff := True\<rparr> | Some x \<Rightarrow> w\<lparr>w_chain_error := Some (err_type x)\<rparr>)"

definition note_attempt_route :: "string \<Rightarrow> SummaryAttempt \<Rightarrow> summary_world \<Rightarrow> summary_world" where
  "note_attempt_route key a w =
     (if at_route a = None then w else w\<lparr>w_breaker := map_option (note_route key (at_route a)) (w_breaker w)\<rparr>)"

definition book_attempt :: "string \<Rightarrow> SummaryAttempt \<Rightarrow> summary_world \<Rightarrow> summary_world" where
  "book_attempt key a w =
     (let w1 = (if at_error a = None then w else note_error (at_error a) w);
          w2 = w1\<lparr>w_budget := map_option (fb_record_call key (tm_started (at_timing a)) (or_zero (tm_ended (at_timing a)))) (w_budget w1)\<rparr>
      in if at_text a \<noteq> None then note_attempt_route key a w2 else w2)"

definition accepted_result :: "route_params \<Rightarrow> SummaryAttempt \<Rightarrow> bool" where
  "accepted_result ps a = (case at_text a of None \<Rightarrow> False | Some r \<Rightarrow> r \<noteq> [] \<and> rp_accepts ps r)"

definition outcome_facts ::
  "summary_env \<Rightarrow> route_params \<Rightarrow> bool \<Rightarrow> timestamp option \<Rightarrow> SummaryAttempt \<Rightarrow> summary_world \<Rightarrow> SummaryOutcomeFacts" where
  "outcome_facts env ps budget_bound call_timeout a w =
     (let accepted = accepted_result ps a; fb = w_budget w in
      \<lparr>sf_budget_present = (fb \<noteq> None), sf_budget_bound = budget_bound, sf_call_timeout = call_timeout,
       sf_configured_timeout = (case fb of None \<Rightarrow> 0 | Some b \<Rightarrow> fb_configured_timeout b),
       sf_hard = (case fb of None \<Rightarrow> 0 | Some b \<Rightarrow> fb_hard b), sf_reserve = (case fb of None \<Rightarrow> 0 | Some b \<Rightarrow> fb_reserve b),
       sf_leaf_reserve = (case fb of None \<Rightarrow> 0 | Some b \<Rightarrow> fb_leaf_reserve b),
       sf_usable_deadline = (case fb of None \<Rightarrow> 0 | Some b \<Rightarrow> usable_deadline b),
       sf_now = (if fb \<noteq> None \<and> at_text a = None \<and> at_error a \<noteq> None then now_of env w else 0),
       sf_breaker_present = (w_breaker w \<noteq> None), sf_accepts_result = accepted,
       sf_verbatim_small_source = rp_verbatim ps, sf_source_tokens = rp_source_tokens ps,
       sf_result_tokens = (case at_text a of None \<Rightarrow> 0 | Some r \<Rightarrow>
          if r \<noteq> [] \<and> \<not> accepted \<and> rp_verbatim ps \<and> rp_source_tokens ps \<noteq> None then int (text_tokens (tokenizer env) r) else 0),
       sf_context_length_rescue = rp_rescue ps\<rparr>)"

datatype route_result = Next | Stop | Return string | Raise string

definition upd_breaker :: "(SummaryCircuitBreaker \<Rightarrow> SummaryCircuitBreaker) \<Rightarrow> summary_world \<Rightarrow> summary_world" where
  "upd_breaker f w = w\<lparr>w_breaker := map_option f (w_breaker w)\<rparr>"

definition upd_provenance :: "(provenance \<Rightarrow> provenance) \<Rightarrow> summary_world \<Rightarrow> summary_world" where
  "upd_provenance f w = w\<lparr>w_provenance := f (w_provenance w)\<rparr>"

text \<open>A cut call: the hang is recorded, the budget stops the compaction.\<close>

definition settle_cut :: "summary_env \<Rightarrow> string \<Rightarrow> SummaryOutcome \<Rightarrow> summary_world \<Rightarrow> route_result \<times> summary_world" where
  "settle_cut env key oc w =
     (let w1 = (if oc_record_hang oc then tick (upd_breaker (record_hang key (now_of env w)) w) else w);
          refused = (oc_record_hang oc \<and> (case w_breaker w1 of None \<Rightarrow> False | Some b \<Rightarrow> \<not> fst (cb_allows key (now_of env w1) True b)));
          w2 = (if oc_record_hang oc then tick (upd_breaker (\<lambda>b. snd (cb_allows key (now_of env w1) True b)) w1) else w1);
          w3 = w2\<lparr>w_budget := map_option (\<lambda>fb. snd (fb_stop ''time_budget_exhausted'' (if refused then fb\<lparr>fb_hung_route := Some key\<rparr> else fb)))
                   (w_budget w2)\<rparr>
      in (Raise ''time_budget_exhausted'', w3))"

definition settle_attempt ::
  "summary_env \<Rightarrow> string \<Rightarrow> string \<Rightarrow> SummaryAttempt \<Rightarrow> SummaryOutcome \<Rightarrow> summary_world \<Rightarrow> route_result \<times> summary_world" where
  "settle_attempt env key model a oc w =
     (if oc_kind oc = BUDGET_CUT then settle_cut env key oc w
      else let w1 = (if at_text a = None then note_attempt_route key a w else w); now = now_of env w1 in
        (case oc_kind oc of
           ACCEPTED \<Rightarrow> (Return (the (at_text a)), upd_provenance (\<lambda>p. p\<lparr>pv_model := Some model\<rparr>) (upd_breaker (record_success key) w1))
         | VERBATIM_SMALL_SOURCE \<Rightarrow> (Return (the (at_text a)), upd_provenance (\<lambda>p. p\<lparr>pv_model := Some ''deterministic''\<rparr>) w1)
         | CONFIG_ERROR \<Rightarrow> (Next, tick (upd_breaker (record_config_error key (at_route a) now) w1))
         | CONTENT_FILTER \<Rightarrow> (Next, upd_provenance (\<lambda>p. p\<lparr>pv_content_filter_error := True\<rparr>) w1)
         | CONTEXT_LENGTH \<Rightarrow> (Next, upd_provenance (\<lambda>p. p\<lparr>pv_context_length_error := True\<rparr>) (note_error None w1))
         | FAILURE \<Rightarrow> (Next, tick (upd_breaker (record_failure key now) w1))
         | REJECTION \<Rightarrow> (Next, tick (upd_breaker (record_rejection key now) w1))
         | _ \<Rightarrow> (Next, w1)))"

definition try_route :: "summary_env \<Rightarrow> route_params \<Rightarrow> string \<Rightarrow> summary_world \<Rightarrow> route_result \<times> summary_world" where
  "try_route env ps model w =
     (let key = rp_prefix ps @ model in
      case circuit_check env key w of (allowed, w1) \<Rightarrow>
        if \<not> allowed then (Next, w1)
        else (case admit_call env ps key w1 of
          (Inl reason, w2) \<Rightarrow> (Raise reason, w2)
        | (Inr (bound, call_timeout), w2) \<Rightarrow>
            (case reserve_call env w2 of (granted, w3) \<Rightarrow>
              if \<not> granted then (Stop, w3)
              else (case run_attempt env ps model (now_of env w1) call_timeout w3 of (a, w4) \<Rightarrow>
                let w5 = book_attempt key a w4; facts = outcome_facts env ps bound call_timeout a w5;
                    w6 = (if w_budget w5 \<noteq> None \<and> at_text a = None \<and> at_error a \<noteq> None then tick w5 else w5)
                in settle_attempt env key model a (classify_summary_outcome a facts) w6))))"

section \<open>The chain and the levels\<close>

fun try_routes :: "summary_env \<Rightarrow> route_params \<Rightarrow> string list \<Rightarrow> summary_world \<Rightarrow> (string + string option) \<times> summary_world" where
  "try_routes env ps [] w = (Inr None, w)"
| "try_routes env ps (m # ms) w = (case try_route env ps m w of
     (Next, w') \<Rightarrow> try_routes env ps ms w'
   | (Stop, w') \<Rightarrow> (Inr None, w')
   | (Return r, w') \<Rightarrow> (Inr (Some r), w')
   | (Raise reason, w') \<Rightarrow> (Inl reason, w'))"

definition record_summary_failure :: "summary_world \<Rightarrow> summary_world" where
  "record_summary_failure w = (case w_chain_error w of None \<Rightarrow> w
     | Some name \<Rightarrow> w\<lparr>w_budget := map_option (\<lambda>fb. fb\<lparr>fb_summary_failure := ''summary call failed: '' @ name\<rparr>) (w_budget w)\<rparr>)"

definition invoke_summary_llm_chain ::
  "summary_env \<Rightarrow> route_params \<Rightarrow> string \<Rightarrow> string list \<Rightarrow> summary_world \<Rightarrow> (string + string option) \<times> summary_world" where
  "invoke_summary_llm_chain env ps model fallbacks w =
     (case try_routes env ps (summary_model_chain model fallbacks) (w\<lparr>w_chain_error := None, w_handoff := False\<rparr>) of
        (Inl reason, w') \<Rightarrow> (Inl reason, record_summary_failure w')
      | (Inr None, w') \<Rightarrow> (Inr None, if w_handoff w' then w' else record_summary_failure w')
      | (Inr (Some r), w') \<Rightarrow> (Inr (Some r), w'))"

record escalation_params =
  ep_text :: string
  ep_source_tokens :: int
  ep_token_budget :: int
  ep_model :: string
  ep_fallback_models :: "string list"
  ep_timeout :: "timestamp option"
  ep_l2_budget_ratio :: rat
  ep_l3_truncate_tokens :: int
  ep_prompt_version :: int
  ep_deadline :: "timestamp option"
  ep_prefix :: string
  ep_verbatim_small_source :: bool
  ep_context_length_rescue :: bool

definition py_int :: "rat \<Rightarrow> int" where
  "py_int x = (if 0 \<le> x then \<lfloor>x\<rfloor> else \<lceil>x\<rceil>)"

definition whole_if_not_shorter :: "summary_env \<Rightarrow> escalation_params \<Rightarrow> bool" where
  "whole_if_not_shorter env ep = (ep_verbatim_small_source ep
     \<and> int (text_tokens (tokenizer env) (ep_text ep)) \<le> 2 * ep_l3_truncate_tokens ep)"

definition level_params :: "summary_env \<Rightarrow> escalation_params \<Rightarrow> nat \<Rightarrow> int \<Rightarrow> route_params" where
  "level_params env ep level budget =
     \<lparr>rp_prompt = build_prompt env level (ep_text ep) budget,
      rp_max_tokens = budget * (if ep_prompt_version ep = 2 then 3 else 2), rp_timeout = ep_timeout ep,
      rp_accepts = (\<lambda>r. int (text_tokens (tokenizer env) r) < ep_source_tokens ep),
      rp_source_tokens = Some (ep_source_tokens ep), rp_deadline = ep_deadline ep, rp_prefix = ep_prefix ep,
      rp_verbatim = whole_if_not_shorter env ep, rp_rescue = ep_context_length_rescue ep\<rparr>"

definition run_level ::
  "summary_env \<Rightarrow> escalation_params \<Rightarrow> nat \<Rightarrow> int \<Rightarrow> summary_world \<Rightarrow> (string + (string \<times> nat) option) \<times> summary_world" where
  "run_level env ep level budget w =
     (case invoke_summary_llm_chain env (level_params env ep level budget) (ep_model ep) (ep_fallback_models ep) w of
        (Inl reason, w') \<Rightarrow> (Inl reason, w')
      | (Inr None, w') \<Rightarrow> (Inr None, w')
      | (Inr (Some r), w') \<Rightarrow>
          if r = [] then (Inr None, w')
          else if whole_if_not_shorter env ep \<and> int (text_tokens (tokenizer env) r) \<ge> ep_source_tokens ep
          then (Inr (Some (ep_text ep, 3)), w')
          else (Inr (Some (r, level)), w'))"

definition out_of_time :: "summary_env \<Rightarrow> escalation_params \<Rightarrow> summary_world \<Rightarrow> bool \<times> summary_world" where
  "out_of_time env ep w =
     (case (case w_budget w of Some fb \<Rightarrow> Some (usable_deadline fb) | None \<Rightarrow> ep_deadline ep) of
        None \<Rightarrow> (False, w)
      | Some d \<Rightarrow> (d - now_of env w < MIN_CALL_SECONDS, tick w))"

definition summarize_with_escalation ::
  "summary_env \<Rightarrow> escalation_params \<Rightarrow> summary_world \<Rightarrow> (string + (string \<times> nat)) \<times> summary_world" where
  "summarize_with_escalation env ep w =
     (let deterministic = upd_provenance (\<lambda>p. p\<lparr>pv_model := Some ''deterministic''\<rparr>) in
      if ep_verbatim_small_source ep \<and> verbatim_source (tokenizer env) (ep_text ep) (ep_l3_truncate_tokens ep)
      then (Inr (ep_text ep, 3), deterministic w)
      else (case run_level env ep 1 (ep_token_budget ep) w of
        (Inl reason, w1) \<Rightarrow> (Inl reason, w1)
      | (Inr (Some r), w1) \<Rightarrow> (Inr r, w1)
      | (Inr None, w1) \<Rightarrow>
          (case run_level env ep 2 (py_int (of_int (ep_token_budget ep) * ep_l2_budget_ratio ep)) w1 of
            (Inl reason, w2) \<Rightarrow> (Inl reason, w2)
          | (Inr (Some r), w2) \<Rightarrow> (Inr r, w2)
          | (Inr None, w2) \<Rightarrow>
              (case out_of_time env ep w2 of (late, w3) \<Rightarrow>
                if late
                then (Inl ''time_budget_exhausted'', w3\<lparr>w_budget := map_option (\<lambda>fb. snd (fb_stop ''time_budget_exhausted'' fb)) (w_budget w3)\<rparr>)
                else (Inr (deterministic_truncate (tokenizer env) (ep_text ep) (ep_l3_truncate_tokens ep), 3), deterministic w3)))))"

section \<open>What a route may return\<close>

definition usable_result :: "summary_env \<Rightarrow> route_params \<Rightarrow> string \<Rightarrow> bool" where
  "usable_result env ps r = (r \<noteq> [] \<and> (rp_accepts ps r
     \<or> rp_verbatim ps \<and> (\<exists>n. rp_source_tokens ps = Some n \<and> n \<le> int (text_tokens (tokenizer env) r))))"

lemma settle_return:
  assumes "fst (settle_attempt env key model a oc w) = Return r"
  shows "(oc_kind oc = ACCEPTED \<or> oc_kind oc = VERBATIM_SMALL_SOURCE) \<and> r = the (at_text a)"
  using assms by (auto simp: settle_attempt_def settle_cut_def Let_def split: if_splits SummaryOutcomeKind.splits)

lemma classify_usable:
  assumes "oc_kind (classify_summary_outcome a (outcome_facts env ps bound ct a w)) \<in> {ACCEPTED, VERBATIM_SMALL_SOURCE}"
  shows "usable_result env ps (the (at_text a))"
proof -
  let ?f = "outcome_facts env ps bound ct a w"
  from assms consider "oc_kind (classify_summary_outcome a ?f) = ACCEPTED"
    | "oc_kind (classify_summary_outcome a ?f) = VERBATIM_SMALL_SOURCE" by blast
  then show ?thesis
  proof cases
    case 1
    then show ?thesis unfolding classify_accepted
      by (auto simp: outcome_facts_def Let_def accepted_result_def usable_result_def split: option.splits)
  next
    case 2
    from classify_verbatim[OF this] show ?thesis
      by (auto simp: outcome_facts_def Let_def usable_result_def accepted_result_def split: if_splits)
  qed
qed

lemma try_route_usable: "fst (try_route env ps m w) = Return r \<Longrightarrow> usable_result env ps r"
  unfolding try_route_def Let_def
  by (auto split: prod.splits sum.splits if_splits dest!: settle_return intro: classify_usable)

lemma try_routes_usable: "fst (try_routes env ps ms w) = Inr (Some r) \<Longrightarrow> usable_result env ps r"
proof (induction ms arbitrary: w)
  case (Cons m ms)
  then show ?case using try_route_usable[of env ps m w r] by (auto split: prod.splits route_result.splits)
qed simp

lemma chain_usable: "fst (invoke_summary_llm_chain env ps model fallbacks w) = Inr (Some r) \<Longrightarrow> usable_result env ps r"
  using try_routes_usable[of env ps "summary_model_chain model fallbacks" "w\<lparr>w_chain_error := None, w_handoff := False\<rparr>" r]
  unfolding invoke_summary_llm_chain_def by (auto split: prod.splits sum.splits option.splits)

definition level_result_ok :: "summary_env \<Rightarrow> escalation_params \<Rightarrow> nat \<Rightarrow> string \<times> nat \<Rightarrow> bool" where
  "level_result_ok env ep level r =
     (snd r = level \<and> fst r \<noteq> [] \<and> int (text_tokens (tokenizer env) (fst r)) < ep_source_tokens ep
     \<or> whole_if_not_shorter env ep \<and> r = (ep_text ep, 3))"

lemma run_level_ok: "fst (run_level env ep level budget w) = Inr (Some r) \<Longrightarrow> level_result_ok env ep level r"
  using chain_usable[of env "level_params env ep level budget" "ep_model ep" "ep_fallback_models ep" w]
  unfolding run_level_def
  by (auto simp: level_result_ok_def usable_result_def level_params_def split: prod.splits sum.splits option.splits if_splits)

lemma escalation_outcome:
  assumes "summarize_with_escalation env ep w = (Inr (s, level), w')"
  shows "(level = 1 \<or> level = 2) \<and> s \<noteq> [] \<and> int (text_tokens (tokenizer env) s) < ep_source_tokens ep
    \<or> level = 3 \<and> (s = deterministic_truncate (tokenizer env) (ep_text ep) (ep_l3_truncate_tokens ep)
        \<or> ep_verbatim_small_source ep \<and> s = ep_text ep
          \<and> int (text_tokens (tokenizer env) s) \<le> max (ep_l3_truncate_tokens ep) (2 * ep_l3_truncate_tokens ep))"
proof -
  let ?l2 = "py_int (of_int (ep_token_budget ep) * ep_l2_budget_ratio ep)"
  consider (verbatim) "ep_verbatim_small_source ep" "verbatim_source (tokenizer env) (ep_text ep) (ep_l3_truncate_tokens ep)" "s = ep_text ep" "level = 3"
    | (l1) "fst (run_level env ep 1 (ep_token_budget ep) w) = Inr (Some (s, level))"
    | (l2) w1 where "fst (run_level env ep 2 ?l2 w1) = Inr (Some (s, level))"
    | (l3) "s = deterministic_truncate (tokenizer env) (ep_text ep) (ep_l3_truncate_tokens ep)" "level = 3"
    using assms unfolding summarize_with_escalation_def Let_def
    by (auto split: prod.splits sum.splits option.splits if_splits) (metis fst_conv)+
  then show ?thesis
  proof cases
    case verbatim
    then show ?thesis by (simp add: verbatim_source_def le_max_iff_disj)
  next
    case l1
    from run_level_ok[OF l1] show ?thesis by (auto simp: level_result_ok_def whole_if_not_shorter_def le_max_iff_disj)
  next
    case l2
    from run_level_ok[OF l2] show ?thesis by (auto simp: level_result_ok_def whole_if_not_shorter_def le_max_iff_disj)
  qed simp
qed

text \<open>
  C27: Whatever the model routes answer, an escalation that returns gives either a non-empty summary that
  is strictly shorter than its source (levels 1 and 2), or level 3: the deterministic truncation of the
  source, or the source itself - the latter only for a caller that asked for it and a source within twice
  the level-3 budget.
\<close>

theorem escalation_result:
  assumes "summarize_with_escalation env ep w = (Inr (s, level), w')"
  shows "(level = 1 \<or> level = 2) \<and> s \<noteq> [] \<and> int (text_tokens (tokenizer env) s) < ep_source_tokens ep
    \<or> level = 3 \<and> (s = deterministic_truncate (tokenizer env) (ep_text ep) (ep_l3_truncate_tokens ep)
        \<or> ep_verbatim_small_source ep \<and> s = ep_text ep
          \<and> int (text_tokens (tokenizer env) s) \<le> max (ep_l3_truncate_tokens ep) (2 * ep_l3_truncate_tokens ep))"
  by (rule escalation_outcome[OF assms])

section \<open>What the calls may take\<close>

definition call_limit :: "timestamp option \<Rightarrow> summary_world \<Rightarrow> timestamp option" where
  "call_limit deadline w = (case w_budget w of Some fb \<Rightarrow> Some (usable_deadline fb) | None \<Rightarrow> deadline)"

definition within_limit :: "timestamp option \<Rightarrow> made_call \<Rightarrow> bool" where
  "within_limit limit c = (case limit of None \<Rightarrow> True
     | Some d \<Rightarrow> (case mc_timeout c of None \<Rightarrow> False | Some t \<Rightarrow> mc_admitted_at c + t \<le> d))"

text \<open>Every step keeps the limit and appends only calls that end within it.\<close>

definition bounded_step :: "timestamp option \<Rightarrow> summary_world \<Rightarrow> summary_world \<Rightarrow> bool" where
  "bounded_step deadline w w' = (call_limit deadline w' = call_limit deadline w
     \<and> (\<exists>cs. w_calls w' = w_calls w @ cs \<and> (\<forall>c \<in> set cs. within_limit (call_limit deadline w) c)))"

lemma bounded_refl [simp]: "bounded_step deadline w w"
  by (simp add: bounded_step_def)

lemma bounded_trans: "bounded_step deadline a b \<Longrightarrow> bounded_step deadline b c \<Longrightarrow> bounded_step deadline a c"
  unfolding bounded_step_def by fastforce

lemma bounded_frame:
  "w_calls w' = w_calls w \<Longrightarrow> map_option usable_deadline (w_budget w') = map_option usable_deadline (w_budget w) \<Longrightarrow> bounded_step deadline w w'"
  by (auto simp: bounded_step_def call_limit_def split: option.splits)

lemma usable_deadline_updates [simp]:
  "usable_deadline (snd (fb_stop reason fb)) = usable_deadline fb" "usable_deadline (snd (admit key now fb)) = usable_deadline fb"
  "usable_deadline (fb\<lparr>fb_slot_taken := x\<rparr>) = usable_deadline fb" "usable_deadline (fb\<lparr>fb_hung_route := h\<rparr>) = usable_deadline fb"
  "usable_deadline (fb\<lparr>fb_summary_failure := m\<rparr>) = usable_deadline fb" "usable_deadline (fb_record_call key st en fb) = usable_deadline fb"
  by (simp_all add: usable_deadline_def fb_stop_def admit_def fb_record_call_def Let_def)

lemma usable_deadline_comp [simp]: "usable_deadline \<circ> (\<lambda>fb. snd (fb_stop reason (if c then fb\<lparr>fb_hung_route := h\<rparr> else fb))) = usable_deadline"
  by (auto simp: comp_def)

lemma tick_simps [simp]: "w_calls (tick w) = w_calls w" "w_budget (tick w) = w_budget w" "w_guard (tick w) = w_guard w"
  "w_breaker (tick w) = w_breaker w"
  by (simp_all add: tick_def)

lemma circuit_check_bounded: "bounded_step deadline w (snd (circuit_check env key w))"
  by (rule bounded_frame) (auto simp: circuit_check_def split: option.split prod.split)

lemma admit_call_bounded: "bounded_step deadline w (snd (admit_call env ps key w))"
proof (rule bounded_frame)
  show "map_option usable_deadline (w_budget (snd (admit_call env ps key w))) = map_option usable_deadline (w_budget w)"
  proof (cases "w_budget w")
    case (Some fb)
    obtain r fb' where ad: "admit key (now_of env w) fb = (r, fb')" by fastforce
    then have "usable_deadline fb' = usable_deadline fb" using usable_deadline_updates(2)[of key "now_of env w" fb] by simp
    with Some ad show ?thesis by (auto simp: admit_call_def Let_def split: sum.split)
  qed (auto simp: admit_call_def Let_def split: option.split)
qed (auto simp: admit_call_def Let_def split: option.split prod.split sum.split)

lemma admit_timeout:
  assumes "fst (admit_call env ps key w) = Inr (bound, ct)"
  shows "within_limit (call_limit (rp_deadline ps) w) \<lparr>mc_model = m, mc_admitted_at = now_of env w, mc_timeout = ct\<rparr>"
proof (cases "w_budget w")
  case (Some fb)
  have "fst (admit key (now_of env w) fb) = Inr left \<Longrightarrow> left = usable_deadline fb - now_of env w" for left
    by (auto simp: admit_def Let_def split: if_splits)
  then show ?thesis using assms Some
    by (auto simp: admit_call_def within_limit_def call_limit_def Let_def split: prod.splits sum.splits option.splits)
next
  case None
  then show ?thesis using assms
    by (auto simp: admit_call_def within_limit_def call_limit_def Let_def split: option.splits if_splits)
qed

lemma reserve_call_bounded: "bounded_step deadline w (snd (reserve_call env w))"
  by (rule bounded_frame) (auto simp: reserve_call_def Let_def option.map_comp comp_def split: option.split prod.split)

lemma run_attempt_bounded:
  "within_limit (call_limit deadline w) \<lparr>mc_model = m, mc_admitted_at = at0, mc_timeout = ct\<rparr> \<Longrightarrow>
     bounded_step deadline w (snd (run_attempt env ps m at0 ct w))"
  by (auto simp: run_attempt_def Let_def bounded_step_def call_limit_def)

lemma note_error_frame [simp]: "w_calls (note_error e w) = w_calls w" "w_budget (note_error e w) = w_budget w"
  by (simp_all add: note_error_def split: option.split)

lemma note_attempt_route_frame [simp]:
  "w_calls (note_attempt_route key a w) = w_calls w" "w_budget (note_attempt_route key a w) = w_budget w"
  by (simp_all add: note_attempt_route_def)

lemma upd_frame [simp]:
  "w_calls (upd_breaker f w) = w_calls w" "w_budget (upd_breaker f w) = w_budget w"
  "w_calls (upd_provenance g w) = w_calls w" "w_budget (upd_provenance g w) = w_budget w"
  by (simp_all add: upd_breaker_def upd_provenance_def)

lemma book_attempt_bounded: "bounded_step deadline w (book_attempt key a w)"
  by (rule bounded_frame) (simp_all add: book_attempt_def Let_def option.map_comp comp_def)

lemma settle_attempt_bounded: "bounded_step deadline w (snd (settle_attempt env key m a oc w))"
  by (rule bounded_frame)
    (auto simp: settle_attempt_def settle_cut_def Let_def option.map_comp split: SummaryOutcomeKind.split)

lemma try_route_bounded: "bounded_step (rp_deadline ps) w (snd (try_route env ps m w))"
proof -
  let ?key = "rp_prefix ps @ m" and ?d = "rp_deadline ps"
  obtain allowed w1 where c: "circuit_check env ?key w = (allowed, w1)" by fastforce
  obtain r w2 where ad: "admit_call env ps ?key w1 = (r, w2)" by fastforce
  obtain granted w3 where g: "reserve_call env w2 = (granted, w3)" by fastforce
  have b1: "bounded_step ?d w w1" using circuit_check_bounded[of ?d w env ?key] c by simp
  have b2: "bounded_step ?d w w2" using bounded_trans[OF b1] admit_call_bounded[of ?d w1 env ps ?key] ad by simp
  have b3: "bounded_step ?d w w3" using bounded_trans[OF b2] reserve_call_bounded[of ?d w2 env] g by simp
  show ?thesis
  proof (cases "allowed \<and> granted \<and> (\<exists>p. r = Inr p)")
    case True
    then obtain bound ct where r: "r = Inr (bound, ct)" by fastforce
    obtain a w4 where at: "run_attempt env ps m (now_of env w1) ct w3 = (a, w4)" by fastforce
    have "call_limit ?d w3 = call_limit ?d w1" using b1 b3 by (simp add: bounded_step_def)
    then have "bounded_step ?d w3 w4"
      using run_attempt_bounded[of ?d w3 m "now_of env w1" ct env ps] admit_timeout[of env ps ?key w1 bound ct m] ad r at by simp
    from bounded_trans[OF b3 this] have b5: "bounded_step ?d w (book_attempt ?key a w4)" by (rule bounded_trans[OF _ book_attempt_bounded])
    have "bounded_step ?d w (tick (book_attempt ?key a w4))" by (rule bounded_trans[OF b5 bounded_frame]) simp_all
    then show ?thesis using b5 c ad r g at True bounded_trans[OF _ settle_attempt_bounded]
      by (simp add: try_route_def Let_def)
  next
    case False
    then show ?thesis using b1 b2 b3 c ad g by (auto simp: try_route_def Let_def split: sum.split)
  qed
qed

lemma try_routes_bounded: "bounded_step (rp_deadline ps) w (snd (try_routes env ps ms w))"
proof (induction ms arbitrary: w)
  case (Cons m ms)
  obtain r w1 where t: "try_route env ps m w = (r, w1)" by fastforce
  then have "bounded_step (rp_deadline ps) w w1" using try_route_bounded[of ps w env m] by simp
  with t bounded_trans[OF this Cons.IH[of w1]] show ?case by (simp split: route_result.split)
qed simp

lemma record_failure_frame: "bounded_step deadline w (record_summary_failure w)"
  by (rule bounded_frame) (auto simp: record_summary_failure_def option.map_comp comp_def split: option.split)

lemma chain_bounded: "bounded_step (rp_deadline ps) w (snd (invoke_summary_llm_chain env ps model fallbacks w))"
proof -
  let ?w = "w\<lparr>w_chain_error := None, w_handoff := False\<rparr>"
  obtain r w1 where t: "try_routes env ps (summary_model_chain model fallbacks) ?w = (r, w1)" by fastforce
  have "bounded_step (rp_deadline ps) w ?w" by (rule bounded_frame) simp_all
  then have "bounded_step (rp_deadline ps) w w1"
    using try_routes_bounded[of ps ?w env "summary_model_chain model fallbacks"] t bounded_trans by simp
  then show ?thesis using t bounded_trans[OF _ record_failure_frame] unfolding invoke_summary_llm_chain_def
    by (auto split: sum.split option.split)
qed

lemma run_level_bounded: "bounded_step (ep_deadline ep) w (snd (run_level env ep level budget w))"
  using chain_bounded[of "level_params env ep level budget" w env "ep_model ep" "ep_fallback_models ep"]
  unfolding run_level_def by (auto simp: level_params_def split: prod.splits sum.splits option.splits if_splits)

text \<open>
  No provider call is started that could outlive the time it was given: under a foreground budget
  every call of an escalation, on any level and any fallback route, ends by its own timeout at or before the
  budget's usable deadline (the hard limit less the reserves), and under a sweep deadline at or before that
  deadline.
\<close>

theorem calls_end_within_the_limit:
  assumes "summarize_with_escalation env ep w = (r, w')"
  shows "\<exists>cs. w_calls w' = w_calls w @ cs \<and> (\<forall>c \<in> set cs. within_limit (call_limit (ep_deadline ep) w) c)"
proof -
  let ?d = "ep_deadline ep" and ?l2 = "py_int (of_int (ep_token_budget ep) * ep_l2_budget_ratio ep)"
  obtain r1 w1 where l1: "run_level env ep 1 (ep_token_budget ep) w = (r1, w1)" by fastforce
  obtain r2 w2 where l2: "run_level env ep 2 ?l2 w1 = (r2, w2)" by fastforce
  obtain late w3 where t: "out_of_time env ep w2 = (late, w3)" by fastforce
  have b1: "bounded_step ?d w w1" using run_level_bounded[of ep w env 1 "ep_token_budget ep"] l1 by simp
  have b2: "bounded_step ?d w w2" using bounded_trans[OF b1] run_level_bounded[of ep w1 env 2 ?l2] l2 by simp
  have "w_calls w3 = w_calls w2" using t by (auto simp: out_of_time_def split: option.splits)
  then have "w_calls w' \<in> {w_calls w, w_calls w1, w_calls w2}"
    using assms l1 l2 t unfolding summarize_with_escalation_def Let_def
    by (auto split: sum.splits option.splits if_splits)
  then show ?thesis using b1 b2 unfolding bounded_step_def by fastforce
qed

section \<open>When nothing may be called\<close>

text \<open>Every route's circuit is open, or the spend guard is in its backoff, at every reading of the clock.\<close>

definition breaker_refuses :: "summary_env \<Rightarrow> string set \<Rightarrow> SummaryCircuitBreaker option \<Rightarrow> bool" where
  "breaker_refuses env keys cb = (\<exists>b. cb = Some b \<and> (\<forall>k \<in> keys. \<forall>n. clock env n < or_zero (cb_open_until b (breaker_key k))))"

definition guard_refuses :: "summary_env \<Rightarrow> SummarySpendGuard option \<Rightarrow> bool" where
  "guard_refuses env sg = (\<exists>g. sg = Some g \<and> 0 < max_calls g \<and> (\<forall>n. clock env n < sg_backoff_until g))"

definition refused :: "summary_env \<Rightarrow> string set \<Rightarrow> summary_world \<Rightarrow> bool" where
  "refused env keys w = (w_budget w = None \<and> (breaker_refuses env keys (w_breaker w) \<or> guard_refuses env (w_guard w)))"

definition untouched :: "summary_env \<Rightarrow> string set \<Rightarrow> summary_world \<Rightarrow> summary_world \<Rightarrow> bool" where
  "untouched env keys w w' = (refused env keys w' \<and> w_calls w' = w_calls w \<and> w_chain_error w' = w_chain_error w)"

lemma circuit_check_refused:
  assumes "refused env keys w" "key \<in> keys"
  shows "untouched env keys w (snd (circuit_check env key w))"
    and "breaker_refuses env keys (w_breaker w) \<Longrightarrow> \<not> fst (circuit_check env key w)"
proof -
  have refuses: "circuit_check env key w = (False, tick w)" if ref: "breaker_refuses env keys (w_breaker w)"
  proof -
    obtain b where b: "w_breaker w = Some b" "now_of env w < or_zero (cb_open_until b (breaker_key key))"
      using ref assms(2) by (auto simp: breaker_refuses_def now_of_def)
    then show ?thesis by (simp add: circuit_check_def cb_allows_def Let_def tick_def)
  qed
  then show "breaker_refuses env keys (w_breaker w) \<Longrightarrow> \<not> fst (circuit_check env key w)" by simp
  show "untouched env keys w (snd (circuit_check env key w))"
  proof (cases "breaker_refuses env keys (w_breaker w)")
    case True
    then show ?thesis using refuses assms(1) by (simp add: untouched_def refused_def tick_def)
  next
    case False
    then show ?thesis using assms(1) by (auto simp: untouched_def refused_def circuit_check_def tick_def split: option.split prod.split)
  qed
qed

lemma try_route_refused:
  assumes "refused env keys w" "rp_prefix ps @ m \<in> keys" "rp_deadline ps = None"
  shows "fst (try_route env ps m w) \<in> {Next, Stop} \<and> untouched env keys w (snd (try_route env ps m w))"
proof -
  let ?key = "rp_prefix ps @ m"
  obtain allowed w1 where c: "circuit_check env ?key w = (allowed, w1)" by fastforce
  have u1: "untouched env keys w w1" using circuit_check_refused(1)[OF assms(1,2)] c by simp
  show ?thesis
  proof (cases allowed)
    case False
    then show ?thesis using c u1 by (simp add: try_route_def)
  next
    case True
    then have "\<not> breaker_refuses env keys (w_breaker w)" using circuit_check_refused(2)[OF assms(1,2)] c by auto
    then obtain g where g: "w_guard w1 = Some g" "0 < max_calls g" "\<And>n. clock env n < sg_backoff_until g"
      using assms(1) c by (auto simp: refused_def guard_refuses_def circuit_check_def tick_def split: option.splits prod.splits)
    have none: "w_budget w1 = None" using u1 by (simp add: untouched_def refused_def)
    then have ad: "admit_call env ps ?key w1 = (Inr (False, rp_timeout ps), w1)" using assms(3) by (simp add: admit_call_def)
    have "reserve_call env w1 = (False, (tick w1)\<lparr>w_guard := Some g\<rparr>)"
      using g none by (simp add: reserve_call_def slot_taken_def try_record_call_def now_of_def)
    moreover have "untouched env keys w ((tick w1)\<lparr>w_guard := Some g\<rparr>)"
      using u1 g unfolding untouched_def refused_def guard_refuses_def by (simp add: tick_def)
    ultimately show ?thesis using True c ad by (simp add: try_route_def)
  qed
qed

lemma untouched_trans: "untouched env keys a b \<Longrightarrow> untouched env keys b c \<Longrightarrow> untouched env keys a c"
  by (simp add: untouched_def)

lemma try_routes_refused:
  assumes "refused env keys w" "\<forall>m \<in> set ms. rp_prefix ps @ m \<in> keys" "rp_deadline ps = None"
  shows "fst (try_routes env ps ms w) = Inr None \<and> untouched env keys w (snd (try_routes env ps ms w))"
  using assms(1,2)
proof (induction ms arbitrary: w)
  case (Cons m ms)
  obtain r w1 where t: "try_route env ps m w = (r, w1)" by fastforce
  have r: "r \<in> {Next, Stop}" and u: "untouched env keys w w1"
    using try_route_refused[OF Cons.prems(1) _ assms(3), of m] Cons.prems(2) t by simp_all
  from u have "refused env keys w1" by (simp add: untouched_def)
  from Cons.IH[OF this] Cons.prems(2) u t r untouched_trans show ?case by auto
qed (simp add: untouched_def)

lemma run_level_refused:
  assumes "refused env ((\<lambda>m. ep_prefix ep @ m) ` set (summary_model_chain (ep_model ep) (ep_fallback_models ep))) w" "ep_deadline ep = None"
  shows "\<exists>w'. run_level env ep level budget w = (Inr None, w') \<and> w_calls w' = w_calls w
    \<and> refused env ((\<lambda>m. ep_prefix ep @ m) ` set (summary_model_chain (ep_model ep) (ep_fallback_models ep))) w'"
proof -
  let ?keys = "(\<lambda>m. ep_prefix ep @ m) ` set (summary_model_chain (ep_model ep) (ep_fallback_models ep))"
  let ?w = "w\<lparr>w_chain_error := None, w_handoff := False\<rparr>" and ?ps = "level_params env ep level budget"
  obtain r w1 where t: "try_routes env ?ps (summary_model_chain (ep_model ep) (ep_fallback_models ep)) ?w = (r, w1)" by fastforce
  have "refused env ?keys ?w" using assms(1) by (simp add: refused_def)
  from try_routes_refused[OF this, of "summary_model_chain (ep_model ep) (ep_fallback_models ep)" ?ps] t assms(2)
  have "r = Inr None" "untouched env ?keys ?w w1" by (auto simp: level_params_def)
  with t show ?thesis
    by (simp add: run_level_def invoke_summary_llm_chain_def record_summary_failure_def untouched_def)
qed

text \<open>
  While every circuit of the chain is open, or the spend guard is backing off, a summary costs
  nothing and still succeeds: no provider call is made on either level, and the result is the deterministic
  level-3 truncation.
\<close>

theorem refused_summary_is_deterministic:
  assumes "refused env ((\<lambda>m. ep_prefix ep @ m) ` set (summary_model_chain (ep_model ep) (ep_fallback_models ep))) w"
    and "ep_deadline ep = None" "\<not> ep_verbatim_small_source ep"
  shows "fst (summarize_with_escalation env ep w) = Inr (deterministic_truncate (tokenizer env) (ep_text ep) (ep_l3_truncate_tokens ep), 3)
    \<and> w_calls (snd (summarize_with_escalation env ep w)) = w_calls w"
proof -
  let ?l2 = "py_int (of_int (ep_token_budget ep) * ep_l2_budget_ratio ep)"
  obtain w1 where l1: "run_level env ep 1 (ep_token_budget ep) w = (Inr None, w1)" "w_calls w1 = w_calls w"
    and r1: "refused env ((\<lambda>m. ep_prefix ep @ m) ` set (summary_model_chain (ep_model ep) (ep_fallback_models ep))) w1"
    using run_level_refused[OF assms(1,2)] by blast
  obtain w2 where l2: "run_level env ep 2 ?l2 w1 = (Inr None, w2)" "w_calls w2 = w_calls w1" "w_budget w2 = None"
    using run_level_refused[OF r1 assms(2), of 2 ?l2] by (auto simp: refused_def)
  show ?thesis using l1 l2 assms(2,3) by (simp add: summarize_with_escalation_def out_of_time_def)
qed

section \<open>Samples\<close>

text \<open>A provider that answers the first call with a short summary and fails every later one, on a clock that advances by one second.\<close>

definition sample_env :: summary_env where
  "sample_env = \<lparr>tokenizer = None, clock = (\<lambda>n. of_nat n),
     provider = (\<lambda>n prompt max_tokens model timeout.
       \<lparr>pr_text = (if n = 0 then Some ''short'' else None), pr_error = None, pr_route = None, pr_contract = []\<rparr>),
     deadline_seam = False, build_prompt = (\<lambda>level source budget. source)\<rparr>"

definition sample_params :: escalation_params where
  "sample_params = \<lparr>ep_text = replicate 80 CHR ''a'', ep_source_tokens = 21, ep_token_budget = 10, ep_model = ''m'',
     ep_fallback_models = [''f''], ep_timeout = Some 30, ep_l2_budget_ratio = 1 / 2, ep_l3_truncate_tokens = 5, ep_prompt_version = 1,
     ep_deadline = None, ep_prefix = [], ep_verbatim_small_source = False, ep_context_length_rescue = False\<rparr>"

definition sample_world :: summary_world where
  "sample_world = \<lparr>w_breaker = Some fresh_breaker, w_guard = Some sample_guard, w_budget = None,
     w_provenance = \<lparr>pv_model = None, pv_content_filter_error = False, pv_context_length_error = False\<rparr>,
     w_chain_error = None, w_handoff = False, w_ticks = 0, w_calls = []\<rparr>"

lemma sample_run: "fst (summarize_with_escalation sample_env sample_params sample_world) = Inr (''short'', 1)"
  by code_simp

theorem escalation_result_witness:
  "int (text_tokens None ''short'') < ep_source_tokens sample_params"
proof -
  have "summarize_with_escalation sample_env sample_params sample_world =
      (Inr (''short'', 1), snd (summarize_with_escalation sample_env sample_params sample_world))"
    using sample_run by (simp add: prod_eq_iff)
  from escalation_result[OF this] show ?thesis by (simp add: sample_env_def)
qed

theorem calls_end_within_the_limit_witness:
  "\<exists>cs. w_calls (snd (summarize_with_escalation sample_env (sample_params\<lparr>ep_deadline := Some 40\<rparr>) sample_world)) = cs
     \<and> (\<forall>c \<in> set cs. within_limit (Some 40) c)"
proof -
  have "summarize_with_escalation sample_env (sample_params\<lparr>ep_deadline := Some 40\<rparr>) sample_world =
      (fst (summarize_with_escalation sample_env (sample_params\<lparr>ep_deadline := Some 40\<rparr>) sample_world),
       snd (summarize_with_escalation sample_env (sample_params\<lparr>ep_deadline := Some 40\<rparr>) sample_world))" by simp
  from calls_end_within_the_limit[OF this] show ?thesis by (simp add: sample_world_def call_limit_def)
qed

definition sample_refused :: summary_world where
  "sample_refused = sample_world\<lparr>w_guard := Some (sample_guard\<lparr>sg_backoff_until := 100\<rparr>)\<rparr>"

definition still_env :: summary_env where
  "still_env = sample_env\<lparr>clock := (\<lambda>n. 7)\<rparr>"

theorem refused_summary_is_deterministic_witness:
  "fst (summarize_with_escalation still_env sample_params sample_refused) = Inr (deterministic_truncate None (replicate 80 CHR ''a'') 5, 3)
    \<and> w_calls (snd (summarize_with_escalation still_env sample_params sample_refused)) = []"
proof -
  have "refused still_env K sample_refused" for K
    by (simp add: refused_def guard_refuses_def sample_refused_def sample_world_def sample_guard_def still_env_def)
  moreover have "ep_deadline sample_params = None" "\<not> ep_verbatim_small_source sample_params" by (simp_all add: sample_params_def)
  ultimately have "fst (summarize_with_escalation still_env sample_params sample_refused) =
      Inr (deterministic_truncate (tokenizer still_env) (ep_text sample_params) (ep_l3_truncate_tokens sample_params), 3)
    \<and> w_calls (snd (summarize_with_escalation still_env sample_params sample_refused)) = w_calls sample_refused"
    by (rule refused_summary_is_deterministic)
  moreover have "tokenizer still_env = None" "w_calls sample_refused = []" "ep_text sample_params = replicate 80 CHR ''a''"
    "ep_l3_truncate_tokens sample_params = 5"
    by (simp_all add: still_env_def sample_env_def sample_refused_def sample_world_def sample_params_def)
  ultimately show ?thesis by (simp only:)
qed

end
