(* ===== verification/Rollup_Summaries.thy ===== *)
theory Rollup_Summaries
  imports Rollup_Builder Escalation
begin

text \<open>
  The rollup builder on top of the real summariser: the call \<open>_summarize_capped\<close> makes with
  \<open>_summary_controls\<close>, and \<open>_rollup_route_available\<close>, both in \<^verbatim>\<open>src/rollup_builder.py\<close>.  The state the
  builder threads through its calls is the \<open>summary_world\<close> of the escalation, without a foreground budget.

  The locales state what the layers promise one another.  \<open>breaker_frame\<close> is a relation between circuit
  breakers that every operation on one's own route keys keeps; the escalation then keeps it as a whole.
  \<open>caller_frame\<close> is a relation on the caller's state; a maintenance pass keeps it when the summariser and the
  route check do.  Together they show that rollups never touch the circuits of the live routes.
\<close>

definition ROLLUP_ROUTE_KEY_PREFIX :: string where "ROLLUP_ROUTE_KEY_PREFIX = ''<rollup>:''"

record summary_controls =
  summary_model :: string
  summary_fallback_models :: "string list"
  summary_timeout_ms :: int
  l2_budget_ratio :: rat
  summary_prompt_version :: int

definition rollup_call :: "summary_controls \<Rightarrow> string \<Rightarrow> int \<Rightarrow> int \<Rightarrow> int \<Rightarrow> escalation_params" where
  "rollup_call ctl candidate source_tokens target hard_max =
     \<lparr>ep_text = candidate, ep_source_tokens = source_tokens, ep_token_budget = target, ep_model = summary_model ctl,
      ep_fallback_models = summary_fallback_models ctl, ep_timeout = Some (of_int (summary_timeout_ms ctl) / 1000),
      ep_l2_budget_ratio = l2_budget_ratio ctl, ep_l3_truncate_tokens = hard_max, ep_prompt_version = summary_prompt_version ctl,
      ep_deadline = None, ep_prefix = ROLLUP_ROUTE_KEY_PREFIX, ep_verbatim_small_source = False, ep_context_length_rescue = False\<rparr>"

text \<open>Without a deadline and a budget the escalation raises nothing, see \<open>rollup_call_returns\<close>.\<close>

definition rollup_summarizer ::
  "summary_env \<Rightarrow> summary_controls \<Rightarrow> string \<Rightarrow> int \<Rightarrow> int \<Rightarrow> int \<Rightarrow> summary_world \<Rightarrow> (string + (string \<times> nat)) \<times> summary_world" where
  "rollup_summarizer env ctl candidate source_tokens target hard_max w =
     summarize_with_escalation env (rollup_call ctl candidate source_tokens target hard_max) (w\<lparr>w_budget := None\<rparr>)"

definition rollup_route_available :: "summary_env \<Rightarrow> summary_controls \<Rightarrow> summary_world \<Rightarrow> bool \<times> summary_world" where
  "rollup_route_available env ctl w =
     (case summary_route_available env (summary_model ctl) (summary_fallback_models ctl) [] True w of (live, w') \<Rightarrow>
        if live then summary_route_available env (summary_model ctl) (summary_fallback_models ctl) ROLLUP_ROUTE_KEY_PREFIX True w'
        else (False, w'))"

section \<open>What the escalation may do to the breaker\<close>

locale breaker_frame =
  fixes env :: summary_env and own :: "string \<Rightarrow> bool" and keeps_breaker :: "SummaryCircuitBreaker \<Rightarrow> SummaryCircuitBreaker \<Rightarrow> bool"
  assumes keeps_refl: "keeps_breaker b b"
    and keeps_trans: "keeps_breaker a b \<Longrightarrow> keeps_breaker b c \<Longrightarrow> keeps_breaker a c"
    and keeps_allows: "keeps_breaker b (snd (cb_allows key (clock env n) prune b))"
    and keeps_note: "own key \<Longrightarrow> keeps_breaker b (note_route key route b)"
    and keeps_success: "own key \<Longrightarrow> keeps_breaker b (record_success key b)"
    and keeps_hang: "own key \<Longrightarrow> keeps_breaker b (record_hang key now b)"
    and keeps_config: "own key \<Longrightarrow> keeps_breaker b (record_config_error key route now b)"
    and keeps_failure: "own key \<Longrightarrow> keeps_breaker b (record_failure key now b)"
    and keeps_rejection: "own key \<Longrightarrow> keeps_breaker b (record_rejection key now b)"
begin

abbreviation keeps_world :: "summary_world \<Rightarrow> summary_world \<Rightarrow> bool" where
  "keeps_world w w' \<equiv> rel_option keeps_breaker (w_breaker w) (w_breaker w')"

lemma keeps_option: "(\<And>b. keeps_breaker b (f b)) \<Longrightarrow> rel_option keeps_breaker x (map_option f x)"
  by (cases x) simp_all

lemma keeps_same: "w_breaker w' = w_breaker w \<Longrightarrow> keeps_world w w'"
  by (cases "w_breaker w") (simp_all add: keeps_refl)

lemma keeps_then: "keeps_world a b \<Longrightarrow> keeps_world b c \<Longrightarrow> keeps_world a c"
  by (cases "w_breaker a"; cases "w_breaker b"; cases "w_breaker c") (auto intro: keeps_trans)

lemma keeps_upd: "(\<And>b. keeps_breaker b (f b)) \<Longrightarrow> keeps_world w (upd_breaker f w)"
  by (simp add: upd_breaker_def keeps_option)

lemma keeps_circuit_check: "keeps_world w (snd (circuit_check env key w))"
  using keeps_allows[of _ key "w_ticks w" True]
  by (auto simp: circuit_check_def now_of_def split: option.split prod.split) (metis snd_conv)

lemma keeps_note_attempt: "own key \<Longrightarrow> keeps_world w (note_attempt_route key a w)"
  by (simp add: note_attempt_route_def keeps_option keeps_note keeps_same)

lemma keeps_settle_cut:
  assumes "own key"
  shows "keeps_world w (snd (settle_cut env key oc w))"
proof -
  let ?w1 = "if oc_record_hang oc then tick (upd_breaker (record_hang key (now_of env w)) w) else w"
  let ?w2 = "if oc_record_hang oc then tick (upd_breaker (\<lambda>b. snd (cb_allows key (now_of env ?w1) True b)) ?w1) else ?w1"
  have hang: "keeps_world v (upd_breaker (record_hang key now) v)" for v now by (intro keeps_upd keeps_hang assms)
  have allows: "keeps_world v (upd_breaker (\<lambda>b. snd (cb_allows key (now_of env u) True b)) v)" for u v
    unfolding now_of_def by (intro keeps_upd keeps_allows)
  have "keeps_world w ?w1" using hang by (simp add: keeps_same)
  moreover have "keeps_world ?w1 ?w2" using allows[of ?w1 ?w1] by (auto simp: keeps_same)
  ultimately have "keeps_world w ?w2" by (rule keeps_then)
  moreover have "w_breaker (snd (settle_cut env key oc w)) = w_breaker ?w2" by (simp add: settle_cut_def Let_def)
  ultimately show ?thesis by simp
qed

lemma keeps_settle:
  assumes "own key"
  shows "keeps_world w (snd (settle_attempt env key model a oc w))"
proof -
  let ?w1 = "if at_text a = None then note_attempt_route key a w else w"
  have w1: "keeps_world w ?w1" using keeps_note_attempt[OF assms] by (simp add: keeps_same)
  have upd: "keeps_world w (upd_breaker f ?w1)" if "\<And>b. keeps_breaker b (f b)" for f
    by (rule keeps_then[OF w1 keeps_upd[OF that]])
  note upds = upd[OF keeps_success[OF assms]] upd[OF keeps_config[OF assms]] upd[OF keeps_failure[OF assms]] upd[OF keeps_rejection[OF assms]]
  have frame: "w_breaker (upd_provenance f v) = w_breaker v" "w_breaker (note_error e v) = w_breaker v" for f v e
    by (simp_all add: upd_provenance_def note_error_def split: option.split)
  show ?thesis
    by (cases "oc_kind oc") (simp_all only: settle_attempt_def Let_def snd_conv frame tick_simps SummaryOutcomeKind.case
        SummaryOutcomeKind.distinct if_False if_True refl w1 upds keeps_settle_cut[OF assms])
qed

lemma keeps_route:
  assumes "own (rp_prefix ps @ m)"
  shows "keeps_world w (snd (try_route env ps m w))"
proof -
  let ?key = "rp_prefix ps @ m"
  obtain allowed w1 where c: "circuit_check env ?key w = (allowed, w1)" by fastforce
  obtain r w2 where ad: "admit_call env ps ?key w1 = (r, w2)" by fastforce
  obtain granted w3 where g: "reserve_call env w2 = (granted, w3)" by fastforce
  have b1: "keeps_world w w1" using keeps_circuit_check[of w ?key] c by simp
  have b2: "w_breaker w2 = w_breaker w1" using ad by (auto simp: admit_call_def Let_def split: option.splits prod.splits sum.splits if_splits)
  have b3: "w_breaker w3 = w_breaker w2" using g by (auto simp: reserve_call_def Let_def split: option.splits prod.splits if_splits)
  show ?thesis
  proof (cases "allowed \<and> granted \<and> (\<exists>p. r = Inr p)")
    case True
    then obtain bound ct where r: "r = Inr (bound, ct)" by fastforce
    obtain a w4 where at: "run_attempt env ps m (now_of env w1) ct w3 = (a, w4)" by fastforce
    have b4: "w_breaker w4 = w_breaker w3" using at by (auto simp: run_attempt_def Let_def split: if_splits)
    have "keeps_world w4 (book_attempt ?key a w4)"
      using keeps_note_attempt[OF assms] keeps_same[of _ w4] by (auto simp: book_attempt_def Let_def note_error_def note_attempt_route_def keeps_option keeps_note[OF assms] split: option.split)
    then have b5: "keeps_world w (book_attempt ?key a w4)" using b1 b2 b3 b4 keeps_then[of w w4] by simp
    then have "keeps_world w (tick (book_attempt ?key a w4))" by simp
    then show ?thesis using b5 c ad r g at True keeps_then[OF _ keeps_settle[OF assms]] by (simp add: try_route_def Let_def)
  next
    case False
    then show ?thesis using b1 b2 b3 c ad g by (auto simp: try_route_def Let_def split: sum.split)
  qed
qed

lemma keeps_routes: "\<forall>m \<in> set ms. own (rp_prefix ps @ m) \<Longrightarrow> keeps_world w (snd (try_routes env ps ms w))"
proof (induction ms arbitrary: w)
  case (Cons m ms)
  obtain r w1 where t: "try_route env ps m w = (r, w1)" by fastforce
  then have "keeps_world w w1" using keeps_route[of ps m w] Cons.prems by simp
  moreover have "keeps_world w1 (snd (try_routes env ps ms w1))" using Cons by simp
  ultimately show ?case using t keeps_then by (simp split: route_result.split)
qed (simp add: keeps_same)

lemma keeps_chain:
  assumes "\<forall>m \<in> set (summary_model_chain model fallbacks). own (rp_prefix ps @ m)"
  shows "keeps_world w (snd (invoke_summary_llm_chain env ps model fallbacks w))"
proof -
  let ?w = "w\<lparr>w_chain_error := None, w_handoff := False\<rparr>"
  obtain r w1 where t: "try_routes env ps (summary_model_chain model fallbacks) ?w = (r, w1)" by fastforce
  have "keeps_world ?w w1" using keeps_routes[OF assms, of ?w] t by simp
  moreover have "w_breaker (record_summary_failure w1) = w_breaker w1" by (simp add: record_summary_failure_def split: option.split)
  ultimately show ?thesis using t by (auto simp: invoke_summary_llm_chain_def split: sum.split option.split)
qed

lemma keeps_level:
  "\<forall>m \<in> set (summary_model_chain (ep_model ep) (ep_fallback_models ep)). own (ep_prefix ep @ m) \<Longrightarrow>
     keeps_world w (snd (run_level env ep level budget w))"
  using keeps_chain[of "ep_model ep" "ep_fallback_models ep" "level_params env ep level budget" w]
  by (auto simp: run_level_def level_params_def split: prod.splits sum.splits option.splits)

lemma keeps_escalation:
  assumes "\<forall>m \<in> set (summary_model_chain (ep_model ep) (ep_fallback_models ep)). own (ep_prefix ep @ m)"
  shows "keeps_world w (snd (summarize_with_escalation env ep w))"
proof -
  let ?l2 = "py_int (of_int (ep_token_budget ep) * ep_l2_budget_ratio ep)"
  obtain r1 w1 where l1: "run_level env ep 1 (ep_token_budget ep) w = (r1, w1)" by fastforce
  obtain r2 w2 where l2: "run_level env ep 2 ?l2 w1 = (r2, w2)" by fastforce
  obtain late w3 where t: "out_of_time env ep w2 = (late, w3)" by fastforce
  have b1: "keeps_world w w1" using keeps_level[OF assms, of w 1 "ep_token_budget ep"] l1 by simp
  have b2: "keeps_world w w2" using keeps_then[OF b1] keeps_level[OF assms, of w1 2 ?l2] l2 by simp
  have "w_breaker w3 = w_breaker w2" using t by (auto simp: out_of_time_def split: option.splits)
  then have "w_breaker (snd (summarize_with_escalation env ep w)) \<in> {w_breaker w, w_breaker w1, w_breaker w2}"
    using l1 l2 t unfolding summarize_with_escalation_def Let_def upd_provenance_def by (auto split: sum.split option.split)
  then show ?thesis using b1 b2 keeps_same[of w w] by auto
qed

lemma keeps_any_route: "keeps_world w (snd (any_route_allowed env prune keys w))"
proof (induction keys arbitrary: w)
  case (Cons key keys)
  show ?case
  proof (cases "w_breaker w")
    case (Some b)
    obtain ok b' where ab: "cb_allows key (now_of env w) prune b = (ok, b')" by fastforce
    let ?w = "(tick w)\<lparr>w_breaker := Some b'\<rparr>"
    have "keeps_world w ?w" using Some ab keeps_allows[of b key "w_ticks w" prune] by (simp add: now_of_def)
    with keeps_then[OF this Cons.IH[of ?w]] Some ab show ?thesis by (simp add: Let_def)
  qed simp
qed (simp add: keeps_same)

lemma keeps_available: "keeps_world w (snd (summary_route_available env model fallbacks pre prune w))"
  using keeps_any_route by (simp add: summary_route_available_def keeps_same)

end

section \<open>What a pass may do to its caller's state\<close>

locale caller_frame =
  fixes keeps_state :: "'w \<Rightarrow> 'w \<Rightarrow> bool"
  assumes state_refl: "keeps_state w w"
    and state_trans: "keeps_state u v \<Longrightarrow> keeps_state v w \<Longrightarrow> keeps_state u w"
begin

definition kept_by :: "'w build_env \<Rightarrow> bool" where
  "kept_by e = (\<forall>c p t h w. keeps_state w (snd (be_summarizer e c p t h w)))"

lemma state_loop: "kept_by e \<Longrightarrow> keeps_state w (snd (summarize_loop e src target hard_max candidate previous w))"
proof (induction e src target hard_max candidate previous w rule: summarize_loop.induct)
  case (1 e src target hard_max candidate previous w)
  obtain res w' where call: "be_summarizer e candidate (max 1 (int previous)) target hard_max w = (res, w')" by fastforce
  have k: "keeps_state w w'"
    using 1(2)[unfolded kept_by_def, rule_format, of w candidate "max 1 (int previous)" target hard_max] call by simp
  show ?case
  proof (cases res)
    case (Inl m)
    then show ?thesis using k call by (subst summarize_loop.simps) simp
  next
    case (Inr p)
    obtain s level where p: "p = (s, level)" by fastforce
    show ?thesis using call Inr p k state_trans[OF k 1(1)[OF call[symmetric] Inr p[symmetric] _ refl _ _ 1(2)]]
      by (subst summarize_loop.simps) (auto simp: Let_def)
  qed
qed

lemma state_capped: "kept_by e \<Longrightarrow> summarize_capped e src target max_tokens w = (r, w') \<Longrightarrow> keeps_state w w'"
  using state_loop[of e w src] by (metis summarize_capped_def snd_conv)

lemma state_day: "kept_by e \<Longrightarrow> keeps_state w (fst (snd (run_day e cfg scope d tok w db)))"
  using state_capped state_refl unfolding run_day_def Let_def by (auto split: sum.split prod.split)

lemma state_aggregate: "kept_by e \<Longrightarrow> keeps_state w (fst (snd (run_aggregate e cfg kind scope window tok w db)))"
  using state_capped state_refl unfolding run_aggregate_def Let_def by (auto split: sum.split prod.split)

lemma state_row: "kept_by e \<Longrightarrow> keeps_state w (fst (build_row e cfg scope r w db))"
  using state_day state_aggregate state_refl
  by (auto simp: build_row_def build_week_def build_month_def build_day_def build_day_run_def build_aggregate_def
      build_aggregate_run_def Let_def split: period_kind.split prod.split option.split)

lemma state_rows:
  assumes "\<forall>i. kept_by (me_env me i)" "\<forall>w. keeps_state w (snd (me_route me w))"
  shows "keeps_state w (fst (snd (build_rows me cfg scope rs started w db)))"
proof (induction rs arbitrary: started w db)
  case (Cons r rs)
  obtain ok w1 where route: "me_route me w = (ok, w1)" by fastforce
  obtain w2 db2 where b: "build_row (me_env me started) cfg scope r w1 db = (w2, db2)" by fastforce
  have k1: "keeps_state w w1" using assms(2)[rule_format, of w] route by simp
  have "keeps_state w1 w2" using state_row[of "me_env me started" w1 cfg scope r db] assms(1) b by simp
  from state_trans[OF state_trans[OF k1 this] Cons.IH[of w2 "Suc started" db2]] show ?case using route b k1 state_refl by simp
qed (simp add: state_refl)

lemma state_maintenance:
  assumes "\<forall>i. kept_by (me_env me i)" "\<forall>w. keeps_state w (snd (me_route me w))"
  shows "keeps_state w (fst (snd (run_rollup_maintenance me cfg scope w db)))"
  using state_rows[OF assms] state_refl by (simp add: run_rollup_maintenance_def Let_def)

end

section \<open>Live routes\<close>

text \<open>
  A live key is one that is not a rollup's.  It is spared when nothing recorded under it changed, except
  that an expired opening may have been dropped.
\<close>

definition rollup_key :: "string \<Rightarrow> bool" where
  "rollup_key k = (take (length ROLLUP_ROUTE_KEY_PREFIX) k = ROLLUP_ROUTE_KEY_PREFIX)"

definition spared_at :: "summary_env \<Rightarrow> string \<Rightarrow> SummaryCircuitBreaker \<Rightarrow> SummaryCircuitBreaker \<Rightarrow> bool" where
  "spared_at env k b b' = (cb_failures b' k = cb_failures b k \<and> cb_rejections b' k = cb_rejections b k
     \<and> cb_route_state b' k = cb_route_state b k \<and> (k \<in> cb_config_episodes b' \<longleftrightarrow> k \<in> cb_config_episodes b)
     \<and> (cb_open_until b' k = cb_open_until b k
        \<or> cb_open_until b' k = None \<and> (\<exists>t n. cb_open_until b k = Some t \<and> t \<le> clock env n)))"

definition spares_live :: "summary_env \<Rightarrow> SummaryCircuitBreaker \<Rightarrow> SummaryCircuitBreaker \<Rightarrow> bool" where
  "spares_live env b b' = (\<forall>k. \<not> rollup_key k \<longrightarrow> spared_at env k b b')"

lemma spared_other:
  assumes "breaker_key m \<noteq> k"
  shows "spared_at env k b (note_route m route b)" "spared_at env k b (record_success m b)" "spared_at env k b (record_hang m now b)"
    "spared_at env k b (record_config_error m route now b)" "spared_at env k b (record_failure m now b)" "spared_at env k b (record_rejection m now b)"
  using assms by (simp_all add: spared_at_def note_route_def record_success_def record_hang_def record_config_error_def
      record_failure_def record_rejection_def open_circuit_def cb_note_def Let_def)

lemma rollup_key_append [simp]: "rollup_key (ROLLUP_ROUTE_KEY_PREFIX @ m)"
  by (simp add: rollup_key_def)

lemma strip_solid:
  assumes "p \<noteq> []" "\<not> py_isspace (hd p)" "\<not> py_isspace (last p)"
  shows "\<exists>r. strip (p @ m) = p @ r"
proof -
  have "dropWhile py_isspace (p @ m) = p @ m" using assms(1,2) by (simp add: dropWhile_hd)
  moreover have "dropWhile py_isspace (rev p) = rev p" using assms(1,3) by (simp add: dropWhile_hd hd_rev)
  ultimately show ?thesis by (simp add: strip_def dropWhile_append)
qed

lemma breaker_key_rollup:
  assumes "rollup_key m"
  shows "rollup_key (breaker_key m)"
proof -
  obtain r where m: "m = ROLLUP_ROUTE_KEY_PREFIX @ r" using assms by (metis rollup_key_def append_take_drop_id)
  have "ROLLUP_ROUTE_KEY_PREFIX \<noteq> []" "\<not> py_isspace (hd ROLLUP_ROUTE_KEY_PREFIX)" "\<not> py_isspace (last ROLLUP_ROUTE_KEY_PREFIX)"
    by (simp_all add: ROLLUP_ROUTE_KEY_PREFIX_def py_isspace_def)
  from strip_solid[OF this, of r] \<open>ROLLUP_ROUTE_KEY_PREFIX \<noteq> []\<close> show ?thesis by (auto simp: m breaker_key_def Let_def)
qed

interpretation rollup_calls: breaker_frame env rollup_key "spares_live env" for env
proof
  fix b key n prune
  show "spares_live env b (snd (cb_allows key (clock env n) prune b))"
    by (auto simp: spares_live_def spared_at_def cb_allows_def Let_def split: option.splits)
      (metis or_zero_simps(2) not_None_eq)
next
  fix a b c :: SummaryCircuitBreaker
  assume "spares_live env a b" "spares_live env b c"
  then show "spares_live env a c" unfolding spares_live_def spared_at_def by metis
next
  fix key b route now
  assume "rollup_key key"
  then have "breaker_key key \<noteq> k" if "\<not> rollup_key k" for k using breaker_key_rollup that by blast
  note other = spared_other[OF this]
  show "spares_live env b (note_route key route b)" "spares_live env b (record_success key b)"
     "spares_live env b (record_hang key now b)" "spares_live env b (record_config_error key route now b)"
     "spares_live env b (record_failure key now b)" "spares_live env b (record_rejection key now b)"
    using other by (simp_all add: spares_live_def)
qed (simp add: spares_live_def spared_at_def)

interpretation rollup_pass: caller_frame "\<lambda>(w :: summary_world) (w' :: summary_world). rel_option (spares_live env) (w_breaker w) (w_breaker w')" for env
  by unfold_locales (rule rollup_calls.keeps_same, simp, rule rollup_calls.keeps_then)

lemma rollup_summarizer_spares:
  "rel_option (spares_live env) (w_breaker w) (w_breaker (snd (rollup_summarizer env ctl c s t h w)))"
  using rollup_calls.keeps_escalation[of "rollup_call ctl c s t h" env "w\<lparr>w_budget := None\<rparr>"]
  by (simp add: rollup_summarizer_def rollup_call_def)

lemma rollup_route_spares: "rel_option (spares_live env) (w_breaker w) (w_breaker (snd (rollup_route_available env ctl w)))"
proof -
  obtain live w' where l: "summary_route_available env (summary_model ctl) (summary_fallback_models ctl) [] True w = (live, w')" by fastforce
  have k: "rel_option (spares_live env) (w_breaker w) (w_breaker w')"
    using rollup_calls.keeps_available[of env w "summary_model ctl" "summary_fallback_models ctl" "[]" True] l by simp
  then show ?thesis using l rollup_calls.keeps_then[OF k rollup_calls.keeps_available] by (simp add: rollup_route_available_def)
qed

text \<open>
  Rollups record their circuit results under keys of their own.  Whatever the provider answers during
  a maintenance pass - failures, rejections, configuration errors, on any number of builds - the failure and
  rejection counts, the episode marks and the last route outcome of every live route stay as they were, and no
  live circuit is opened or prolonged: at most an opening that had already expired is dropped.
\<close>

theorem rollups_spare_live_routes:
  assumes "\<forall>i. be_summarizer (me_env me i) = rollup_summarizer env ctl" "me_route me = rollup_route_available env ctl"
    and "w_breaker w = Some b" "run_rollup_maintenance me cfg scope w db = (n, w', db')"
  shows "\<exists>b'. w_breaker w' = Some b' \<and> (\<forall>k. \<not> rollup_key k \<longrightarrow> spared_at env k b b')"
proof -
  have "\<forall>i. rollup_pass.kept_by env (me_env me i)"
    using assms(1) by (simp add: rollup_pass.kept_by_def rollup_summarizer_spares)
  moreover have "\<forall>w. rel_option (spares_live env) (w_breaker w) (w_breaker (snd (me_route me w)))"
    using assms(2) by (simp add: rollup_route_spares)
  ultimately have "rel_option (spares_live env) (w_breaker w) (w_breaker w')"
    using rollup_pass.state_maintenance[of env me w cfg scope db] assms(4) by simp
  then show ?thesis using assms(3) by (cases "w_breaker w'") (auto simp: spares_live_def)
qed

section \<open>Rollup summaries are never cuts\<close>

lemma classify_unbudgeted: "\<not> sf_budget_present f \<Longrightarrow> oc_kind (classify_summary_outcome a f) \<noteq> BUDGET_CUT"
  by (auto simp: classify_summary_outcome_def attempt_cut_def outcome_def Let_def split: option.split)

lemma unbudgeted_steps:
  assumes "w_budget w = None"
  shows "w_budget (snd (circuit_check env key w)) = None" "w_budget (snd (reserve_call env w)) = None"
    "w_budget (snd (run_attempt env ps m t0 ct w)) = None" "w_budget (book_attempt key a w) = None"
    "w_budget (snd (settle_attempt env key m a oc w)) = None"
    "oc_kind oc \<noteq> BUDGET_CUT \<Longrightarrow> fst (settle_attempt env key m a oc w) \<noteq> Raise r"
  using assms
  by (auto simp: circuit_check_def reserve_call_def run_attempt_def book_attempt_def settle_attempt_def settle_cut_def Let_def
      split: option.split prod.split SummaryOutcomeKind.split)

lemma unbudgeted_route:
  assumes "w_budget w = None" "rp_deadline ps = None"
  shows "w_budget (snd (try_route env ps m w)) = None \<and> fst (try_route env ps m w) \<noteq> Raise r"
proof -
  let ?key = "rp_prefix ps @ m"
  obtain allowed w1 where c: "circuit_check env ?key w = (allowed, w1)" by fastforce
  have n1: "w_budget w1 = None" using unbudgeted_steps(1)[OF assms(1), of env ?key] c by simp
  then have ad: "admit_call env ps ?key w1 = (Inr (False, rp_timeout ps), w1)" using assms(2) by (simp add: admit_call_def)
  obtain granted w3 where g: "reserve_call env w1 = (granted, w3)" by fastforce
  have n3: "w_budget w3 = None" using unbudgeted_steps(2)[OF n1, of env] g by simp
  obtain a w4 where at: "run_attempt env ps m (now_of env w1) (rp_timeout ps) w3 = (a, w4)" by fastforce
  have n4: "w_budget w4 = None" using unbudgeted_steps(3)[OF n3, of env ps m] at by (metis snd_conv)
  let ?w5 = "book_attempt ?key a w4"
  have n5: "w_budget ?w5 = None" by (rule unbudgeted_steps(4)[OF n4])
  let ?oc = "classify_summary_outcome a (outcome_facts env ps False (rp_timeout ps) a ?w5)"
  have "oc_kind ?oc \<noteq> BUDGET_CUT" by (rule classify_unbudgeted) (simp add: outcome_facts_def Let_def n5)
  note settled = unbudgeted_steps(5)[OF n5, of env ?key m a ?oc] unbudgeted_steps(6)[OF n5 this, of env ?key m a r]
  have run: "try_route env ps m w = (if \<not> allowed then (Next, w1) else if \<not> granted then (Stop, w3) else settle_attempt env ?key m a ?oc ?w5)"
    using n5 by (simp add: try_route_def c ad g at Let_def)
  show ?thesis unfolding run using n1 n3 settled by simp
qed

lemma unbudgeted_routes:
  assumes "w_budget w = None" "rp_deadline ps = None"
  shows "w_budget (snd (try_routes env ps ms w)) = None \<and> fst (try_routes env ps ms w) \<noteq> Inl r"
  using assms(1)
proof (induction ms arbitrary: w)
  case (Cons m ms)
  obtain x w1 where t: "try_route env ps m w = (x, w1)" by fastforce
  then show ?case using unbudgeted_route[OF Cons.prems assms(2), of env m] Cons.IH[of w1]
    by (auto split: route_result.split)
qed simp

lemma unbudgeted_level:
  assumes "w_budget w = None" "ep_deadline ep = None"
  shows "w_budget (snd (run_level env ep level budget w)) = None \<and> fst (run_level env ep level budget w) \<noteq> Inl r"
proof -
  let ?ps = "level_params env ep level budget" and ?w = "w\<lparr>w_chain_error := None, w_handoff := False\<rparr>"
  obtain x w1 where t: "try_routes env ?ps (summary_model_chain (ep_model ep) (ep_fallback_models ep)) ?w = (x, w1)" by fastforce
  have "w_budget w1 = None" "x \<noteq> Inl q" for q
    using unbudgeted_routes[of ?w ?ps env "summary_model_chain (ep_model ep) (ep_fallback_models ep)"] t assms by (auto simp: level_params_def)
  moreover then have "w_budget (record_summary_failure w1) = None" by (simp add: record_summary_failure_def split: option.split)
  ultimately show ?thesis using t
    by (auto simp: run_level_def invoke_summary_llm_chain_def split: sum.split option.split)
qed

text \<open>Without a deadline and a foreground budget the escalation always returns.\<close>

lemma rollup_call_returns:
  assumes "w_budget w = None" "ep_deadline ep = None"
  shows "\<exists>s level w'. summarize_with_escalation env ep w = (Inr (s, level), w')"
proof -
  let ?l2 = "py_int (of_int (ep_token_budget ep) * ep_l2_budget_ratio ep)"
  obtain r1 w1 where l1: "run_level env ep 1 (ep_token_budget ep) w = (r1, w1)" by fastforce
  obtain r2 w2 where l2: "run_level env ep 2 ?l2 w1 = (r2, w2)" by fastforce
  have 1: "w_budget w1 = None" "r1 \<noteq> Inl q" for q using unbudgeted_level[OF assms, of env 1 "ep_token_budget ep"] l1 by simp_all
  have 2: "w_budget w2 = None" "r2 \<noteq> Inl q" for q using unbudgeted_level[OF 1(1) assms(2), of env 2 ?l2] l2 by simp_all
  show ?thesis using 1 2 l1 l2 assms(2)
    by (auto simp: summarize_with_escalation_def Let_def out_of_time_def split: sum.split option.split)
qed

text \<open>One answer of the real summariser to the builder.\<close>

lemma rollup_answer:
  assumes "rollup_summarizer env ctl c s t h w = (res, w')"
  obtains summ level where "res = Inr (summ, level)"
    "level \<noteq> 3 \<Longrightarrow> int (text_tokens (tokenizer env) summ) < s" "level = 3 \<Longrightarrow> summ = deterministic_truncate (tokenizer env) c h"
proof -
  let ?ep = "rollup_call ctl c s t h"
  obtain summ level w2 where run: "summarize_with_escalation env ?ep (w\<lparr>w_budget := None\<rparr>) = (Inr (summ, level), w2)"
    using rollup_call_returns[of "w\<lparr>w_budget := None\<rparr>" ?ep env] by (auto simp: rollup_call_def)
  then have "res = Inr (summ, level)" using assms by (simp add: rollup_summarizer_def)
  moreover note escalation_outcome[OF run]
  ultimately show ?thesis using that[of summ level] by (auto simp: rollup_call_def)
qed

lemma rollup_loop_whole:
  assumes "be_summarizer e = rollup_summarizer env ctl" "be_codec e = tokenizer env" "tokenizer env = None" "1 \<le> hard_max"
  shows "previous \<le> text_tokens None src \<Longrightarrow> fst (summarize_loop e src target hard_max candidate previous w) = Inr (summ, n) \<Longrightarrow>
    int n \<le> hard_max \<and> n = text_tokens None summ \<and> (summ = src \<or> n < max 1 (text_tokens None src))"
  using assms
proof (induction e src target hard_max candidate previous w rule: summarize_loop.induct)
  case (1 e src target hard_max candidate previous w)
  obtain res w' where call: "be_summarizer e candidate (max 1 (int previous)) target hard_max w = (res, w')" by fastforce
  obtain s level where res: "res = Inr (s, level)"
    and short: "level \<noteq> 3 \<Longrightarrow> int (text_tokens None s) < max 1 (int previous)"
    and l3: "level = 3 \<Longrightarrow> s = deterministic_truncate None candidate hard_max"
    using rollup_answer[OF call[unfolded 1(4)]] 1(6) by (metis (no_types))
  have cut: "level = 3 \<Longrightarrow> int (text_tokens None s) \<le> hard_max"
    using l3 deterministic_truncate_fits[of None hard_max candidate] 1(7) by simp
  have "\<not> previous \<le> text_tokens None s" if "hard_max < int (text_tokens None s)"
    using that short cut 1(7) by (cases "level = 3") auto
  then show ?case
    using 1(3) call res short 1(2,5,6) 1(1)[OF call[symmetric] res refl _ refl _ _ _ _ 1(4,5,6,7)]
    by (subst (asm) summarize_loop.simps) (auto simp: Let_def split: if_splits)
qed

text \<open>
  With the real summariser a rollup never stores a cut.  The capped summary the builder publishes is
  within the hard cap, and is either the whole text of its sources or a model's answer with fewer tokens than
  they have: a deterministic level-3 truncation is refused, and the builder's own truncation is never reached.
\<close>

theorem rollup_summary_never_cut:
  assumes "be_summarizer e = rollup_summarizer env ctl" "be_codec e = tokenizer env" "tokenizer env = None"
    and "summarize_capped e src target max_tokens w = (Inr (summ, n), w')"
  shows "int n \<le> max 1 max_tokens \<and> n = text_tokens None summ \<and> (summ = src \<or> n < max 1 (text_tokens None src))"
proof -
  have "fst (summarize_loop e src (max 1 (min target max_tokens)) (max 1 max_tokens) src (text_tokens None src) w) = Inr (summ, n)"
    using assms by (simp add: summarize_capped_def)
  then show ?thesis by (rule rollup_loop_whole[OF assms(1,2,3), rotated 2]) simp_all
qed

section \<open>Samples\<close>

text \<open>The sample provider answers once and then fails; the live route has failed once before.\<close>

definition sample_controls :: summary_controls where
  "sample_controls = \<lparr>summary_model = ''m'', summary_fallback_models = [], summary_timeout_ms = 60000, l2_budget_ratio = 1 / 2,
     summary_prompt_version = 1\<rparr>"

definition sample_rollup_env :: "summary_world build_env" where
  "sample_rollup_env = \<lparr>be_summarizer = rollup_summarizer Escalation.sample_env sample_controls, be_codec = None, be_now = 5, be_nonce = ''n'',
     be_sources_fingerprint = (\<lambda>_. ''f''), be_days_fingerprint = (\<lambda>_. ''g''), be_text_hash = id, be_meanwhile = id\<rparr>"

definition sample_pass :: "summary_world maintenance_env" where
  "sample_pass = \<lparr>me_spent = (\<lambda>_. False), me_now = 5, me_route = rollup_route_available Escalation.sample_env sample_controls,
     me_env = (\<lambda>_. sample_rollup_env)\<rparr>"

definition sample_live_breaker :: SummaryCircuitBreaker where
  "sample_live_breaker = record_failure ''m'' 0 fresh_breaker"

definition sample_live_world :: summary_world where
  "sample_live_world = sample_world\<lparr>w_breaker := Some sample_live_breaker, w_calls := [\<lparr>mc_model = ''m'', mc_admitted_at = 0, mc_timeout = None\<rparr>]\<rparr>"

theorem rollups_spare_live_routes_witness:
  "\<exists>b'. w_breaker (fst (snd (run_rollup_maintenance sample_pass sample_rollup_config ''other'' sample_live_world sample_day_db))) = Some b'
    \<and> spared_at Escalation.sample_env ''m'' sample_live_breaker b' \<and> cb_failures b' ''m'' = Some 1"
proof -
  have env: "\<forall>i. be_summarizer (me_env sample_pass i) = rollup_summarizer Escalation.sample_env sample_controls"
    "me_route sample_pass = rollup_route_available Escalation.sample_env sample_controls" "w_breaker sample_live_world = Some sample_live_breaker"
    by (simp_all add: sample_pass_def sample_rollup_env_def sample_live_world_def)
  let ?run = "run_rollup_maintenance sample_pass sample_rollup_config ''other'' sample_live_world sample_day_db"
  have "?run = (fst ?run, fst (snd ?run), snd (snd ?run))" by simp
  from rollups_spare_live_routes[OF env this] obtain b' where b': "w_breaker (fst (snd ?run)) = Some b'"
    "\<not> rollup_key ''m'' \<Longrightarrow> spared_at Escalation.sample_env ''m'' sample_live_breaker b'" by blast
  moreover have "\<not> rollup_key ''m''" "cb_failures sample_live_breaker ''m'' = Some 1" by code_simp+
  ultimately show ?thesis by (auto simp: spared_at_def)
qed

theorem rollup_summary_never_cut_witness:
  "text_tokens None ''short'' \<le> 20 \<and> text_tokens None ''short'' < text_tokens None (replicate 80 CHR ''a'')"
proof -
  let ?src = "replicate 80 CHR ''a''"
  have "fst (summarize_capped sample_rollup_env ?src 10 20 sample_world) = Inr (''short'', 2)" by code_simp
  then obtain w' where "summarize_capped sample_rollup_env ?src 10 20 sample_world = (Inr (''short'', 2), w')" by (metis prod.collapse)
  from rollup_summary_never_cut[OF _ _ _ this, of Escalation.sample_env sample_controls]
  have "2 = text_tokens None ''short'' \<and> (''short'' = ?src \<or> 2 < max 1 (text_tokens None ?src))"
    by (simp add: sample_rollup_env_def Escalation.sample_env_def)
  moreover have "''short'' \<noteq> ?src" by code_simp
  ultimately show ?thesis by linarith
qed

end
