(* ===== verification/Ledger_Codec.thy ===== *)
theory Ledger_Codec
  imports Prelude "HOL-Library.Word"
begin

unbundle bit_operations_syntax

text \<open>
  The binary formats of the ingest ledger: the framing of \<open>ledger_digest\<close> (\<^verbatim>\<open>src/store.py\<close>) and the
  view vectors and prefix chains of \<^verbatim>\<open>src/ingest_ledger.py\<close>.

  A byte is an \<open>8 word\<close>.  BLAKE2b is not in the repository: \<open>blake\<close>, keyed by the salt and applied to the
  bytes fed to it, is an argument.  Strings of the model lie in the Latin-1 range, and \<open>utf8\<close> is their
  UTF-8 encoding.  Errors are the exceptions of the code.
\<close>

type_synonym byte = "8 word"

datatype ledger_error = LedgerFormatError | LedgerInputError | OverflowError | TypeError

section \<open>Big-endian integers\<close>

fun to_be :: "nat \<Rightarrow> nat \<Rightarrow> byte list" where
  "to_be 0 v = []"
| "to_be (Suc k) v = to_be k (v div 256) @ [of_nat (v mod 256)]"

definition from_be :: "byte list \<Rightarrow> nat" where
  "from_be bs = foldl (\<lambda>a b. 256 * a + unat b) 0 bs"

text \<open>\<open>int.to_bytes(8, "big", signed=True)\<close> and the \<^verbatim>\<open>q\<close> field of \<open>struct\<close>: two's complement, or out of range.\<close>

definition pack_q :: "int \<Rightarrow> byte list option" where
  "pack_q v = (if - (2 ^ 63) \<le> v \<and> v < 2 ^ 63 then Some (to_be 8 (nat (v mod 2 ^ 64))) else None)"

definition unpack_q :: "byte list \<Rightarrow> int" where
  "unpack_q bs = (let v = int (from_be bs) in if v < 2 ^ 63 then v else v - 2 ^ 64)"

section \<open>ledger\_digest\<close>

datatype digest_part = DNone | DBytes "byte list" | DStr string | DInt int | DBool bool

definition utf8_char :: "char \<Rightarrow> byte list" where
  "utf8_char c = (let n = (of_char c :: nat) in
     if n < 128 then [of_nat n] else [of_nat (192 + n div 64), of_nat (128 + n mod 64)])"

definition utf8 :: "string \<Rightarrow> byte list" where
  "utf8 s = concat (map utf8_char s)"

definition part_payload :: "digest_part \<Rightarrow> ledger_error + (byte \<times> byte list)" where
  "part_payload p = (case p of
     DNone \<Rightarrow> Inr (110, [])
   | DBytes bs \<Rightarrow> Inr (98, bs)
   | DStr s \<Rightarrow> Inr (115, utf8 s)
   | DInt i \<Rightarrow> (case pack_q i of None \<Rightarrow> Inl OverflowError | Some bs \<Rightarrow> Inr (105, bs))
   | DBool _ \<Rightarrow> Inl TypeError)"

definition frame_part :: "digest_part \<Rightarrow> ledger_error + byte list" where
  "frame_part p = (case part_payload p of
     Inl e \<Rightarrow> Inl e
   | Inr (tag, payload) \<Rightarrow>
       if length payload < 256 ^ 8 then Inr (tag # to_be 8 (length payload) @ payload) else Inl OverflowError)"

fun frame_parts :: "digest_part list \<Rightarrow> ledger_error + byte list" where
  "frame_parts [] = Inr []"
| "frame_parts (p # ps) = (case frame_part p of
     Inl e \<Rightarrow> Inl e
   | Inr bs \<Rightarrow> (case frame_parts ps of Inl e \<Rightarrow> Inl e | Inr cs \<Rightarrow> Inr (bs @ cs)))"

definition ledger_digest :: "(byte list \<Rightarrow> byte list \<Rightarrow> byte list) \<Rightarrow> byte list \<Rightarrow> digest_part list \<Rightarrow> ledger_error + byte list" where
  "ledger_digest blake salt parts = map_sum id (blake salt) (frame_parts parts)"

section \<open>View entries\<close>

record ViewEntry =
  identity_digest :: "byte list"
  stamp_digest :: "byte list option"
  uidset_digest :: "byte list option"
  entry_ref :: "int option"
  is_descriptor :: bool

definition ENTRY_SIZE :: nat where "ENTRY_SIZE = 57"

definition absent :: "byte list" where "absent = replicate 16 0"

definition digest_ok :: "byte list option \<Rightarrow> bool" where
  "digest_ok d = (case d of None \<Rightarrow> True | Some bs \<Rightarrow> length bs = 16)"

definition entry_flags :: "ViewEntry \<Rightarrow> byte" where
  "entry_flags e = of_bool (stamp_digest e \<noteq> None) OR push_bit 1 (of_bool (uidset_digest e \<noteq> None))
     OR push_bit 2 (of_bool (is_descriptor e)) OR push_bit 3 (of_bool (entry_ref e = None))"

definition or_absent :: "byte list option \<Rightarrow> byte list" where
  "or_absent d = (case d of None \<Rightarrow> absent | Some bs \<Rightarrow> bs)"

definition encode_entry :: "ViewEntry \<Rightarrow> ledger_error + byte list" where
  "encode_entry e =
     (if length (identity_digest e) \<noteq> 16 \<or> \<not> digest_ok (stamp_digest e) \<or> \<not> digest_ok (uidset_digest e) then Inl LedgerFormatError
      else if entry_ref e = None \<and> is_descriptor e then Inl LedgerFormatError
      else case pack_q (case entry_ref e of None \<Rightarrow> 0 | Some r \<Rightarrow> r) of
        None \<Rightarrow> Inl LedgerFormatError
      | Some q \<Rightarrow> Inr (identity_digest e @ [entry_flags e] @ or_absent (stamp_digest e) @ or_absent (uidset_digest e) @ q))"

fun encode_body :: "ViewEntry list \<Rightarrow> ledger_error + byte list" where
  "encode_body [] = Inr []"
| "encode_body (e # es) = (case encode_entry e of
     Inl err \<Rightarrow> Inl err
   | Inr bs \<Rightarrow> (case encode_body es of Inl err \<Rightarrow> Inl err | Inr cs \<Rightarrow> Inr (bs @ cs)))"

definition encode_entries :: "ViewEntry list \<Rightarrow> ledger_error + byte list" where
  "encode_entries es = map_sum id (\<lambda>bs. 1 # bs) (encode_body es)"

definition decode_entry :: "byte list \<Rightarrow> ledger_error + ViewEntry" where
  "decode_entry bs =
     (let identity = take 16 bs; flags = bs ! 16; stamp = take 16 (drop 17 bs); uidset = take 16 (drop 33 bs);
          ref = unpack_q (drop 49 bs)
      in if flags AND NOT 15 \<noteq> 0 \<or> (flags AND 8 \<noteq> 0 \<and> (ref \<noteq> 0 \<or> flags AND 4 \<noteq> 0))
            \<or> (flags AND 1 = 0 \<and> stamp \<noteq> absent) \<or> (flags AND 2 = 0 \<and> uidset \<noteq> absent)
         then Inl LedgerFormatError
         else Inr \<lparr>identity_digest = identity, stamp_digest = (if flags AND 1 \<noteq> 0 then Some stamp else None),
                   uidset_digest = (if flags AND 2 \<noteq> 0 then Some uidset else None),
                   entry_ref = (if flags AND 8 \<noteq> 0 then None else Some ref), is_descriptor = (flags AND 4 \<noteq> 0)\<rparr>)"

fun decode_body :: "nat \<Rightarrow> byte list \<Rightarrow> ledger_error + ViewEntry list" where
  "decode_body 0 bs = Inr []"
| "decode_body (Suc n) bs = (case decode_entry (take ENTRY_SIZE bs) of
     Inl err \<Rightarrow> Inl err
   | Inr e \<Rightarrow> (case decode_body n (drop ENTRY_SIZE bs) of Inl err \<Rightarrow> Inl err | Inr es \<Rightarrow> Inr (e # es)))"

definition decode_entries :: "byte list \<Rightarrow> ledger_error + ViewEntry list" where
  "decode_entries blob = (case blob of
     [] \<Rightarrow> Inl LedgerFormatError
   | v # body \<Rightarrow> if v \<noteq> 1 \<or> length body mod ENTRY_SIZE \<noteq> 0 then Inl LedgerFormatError
                 else decode_body (length body div ENTRY_SIZE) body)"

section \<open>Prefix chains\<close>

definition or_empty :: "byte list option \<Rightarrow> byte list" where
  "or_empty d = (case d of None \<Rightarrow> [] | Some bs \<Rightarrow> bs)"

definition link_parts :: "digest_part \<Rightarrow> ViewEntry \<Rightarrow> digest_part list" where
  "link_parts previous e = [previous, DBytes (identity_digest e), DBytes (or_empty (stamp_digest e)), DBytes (or_empty (uidset_digest e))]"

fun chain_from :: "(byte list \<Rightarrow> byte list \<Rightarrow> byte list) \<Rightarrow> byte list \<Rightarrow> digest_part \<Rightarrow> ViewEntry list \<Rightarrow> ledger_error + byte list" where
  "chain_from blake salt previous [] = Inr []"
| "chain_from blake salt previous (e # es) = (case ledger_digest blake salt (link_parts previous e) of
     Inl err \<Rightarrow> Inl err
   | Inr d \<Rightarrow> (case chain_from blake salt (DBytes d) es of Inl err \<Rightarrow> Inl err | Inr ds \<Rightarrow> Inr (d @ ds)))"

definition prefix_chain :: "(byte list \<Rightarrow> byte list \<Rightarrow> byte list) \<Rightarrow> byte list \<Rightarrow> ViewEntry list \<Rightarrow> ledger_error + byte list" where
  "prefix_chain blake salt es = chain_from blake salt (DStr ''chain'') es"

fun common_digests :: "nat \<Rightarrow> byte list \<Rightarrow> byte list \<Rightarrow> nat" where
  "common_digests 0 a b = 0"
| "common_digests (Suc n) a b = (if take 16 a = take 16 b then Suc (common_digests n (drop 16 a) (drop 16 b)) else 0)"

definition common_prefix_len :: "byte list \<Rightarrow> byte list \<Rightarrow> ledger_error + nat" where
  "common_prefix_len a b =
     (if length a mod 16 \<noteq> 0 \<or> length b mod 16 \<noteq> 0 then Inl LedgerFormatError
      else Inr (common_digests (min (length a) (length b) div 16) a b))"

section \<open>Integers round trip\<close>

lemma length_to_be [simp]: "length (to_be k v) = k"
  by (induction k arbitrary: v) simp_all

lemma from_be_append: "from_be (bs @ [b]) = 256 * from_be bs + unat b"
  by (simp add: from_be_def)

lemma byte_bound: "unat (b :: byte) < 256"
  by (rule order.strict_trans2[OF unsigned_less]) simp

lemma unat_mod_byte: "unat (of_nat (v mod 256) :: byte) = v mod 256"
  by (simp add: unat_of_nat)

lemma from_be_to_be: "from_be (to_be k v) = v mod 256 ^ k"
proof (induction k arbitrary: v)
  case (Suc k)
  have "256 * (v div 256 mod 256 ^ k) + v mod 256 = v mod (256 * 256 ^ k)"
    by (simp add: mod_mult2_eq)
  with Suc show ?case by (simp add: from_be_append unat_mod_byte)
qed (simp add: from_be_def)

lemma from_be_bound: "from_be bs < 256 ^ length bs"
proof (induction bs rule: rev_induct)
  case (snoc b bs)
  with byte_bound[of b] show ?case by (simp add: from_be_append)
qed (simp add: from_be_def)

lemma to_be_from_be: "to_be (length bs) (from_be bs) = bs"
proof (induction bs rule: rev_induct)
  case (snoc b bs)
  have "(256 * from_be bs + unat b) div 256 = from_be bs" "(256 * from_be bs + unat b) mod 256 = unat b"
    using byte_bound[of b] by simp_all
  with snoc show ?case by (simp add: from_be_append)
qed simp

lemma unpack_pack_q: "pack_q v = Some bs \<Longrightarrow> unpack_q bs = v \<and> length bs = 8"
proof -
  assume a: "pack_q v = Some bs"
  then have r: "- (2 ^ 63) \<le> v" "v < 2 ^ 63" and bs: "bs = to_be 8 (nat (v mod 2 ^ 64))" by (auto simp: pack_q_def split: if_splits)
  have "nat (v mod 2 ^ 64) mod 256 ^ 8 = nat (v mod 2 ^ 64)" by (simp add: nat_less_iff)
  then have i: "int (from_be bs) = v mod 2 ^ 64" by (simp add: bs from_be_to_be)
  have "(v + 2 ^ 64) mod 2 ^ 64 = v + 2 ^ 64" if "v < 0" using r that by (intro mod_pos_pos_trivial) simp_all
  then have "v mod 2 ^ 64 = (if 0 \<le> v then v else v + 2 ^ 64)" using r by (simp add: mod_pos_pos_trivial)
  then show ?thesis using r i bs by (auto simp: unpack_q_def Let_def)
qed

lemma pack_unpack_q: "length bs = 8 \<Longrightarrow> pack_q (unpack_q bs) = Some bs"
proof -
  assume l: "length bs = 8"
  define v where "v = int (from_be bs)"
  have v: "0 \<le> v" "v < 2 ^ 64" using from_be_bound[of bs] l by (simp_all add: v_def)
  have "unpack_q bs mod 2 ^ 64 = v" using v by (simp add: unpack_q_def Let_def v_def[symmetric])
  moreover have "- (2 ^ 63) \<le> unpack_q bs" "unpack_q bs < 2 ^ 63" using v by (auto simp: unpack_q_def Let_def v_def[symmetric])
  ultimately show ?thesis using to_be_from_be[of bs] l by (simp add: pack_q_def v_def)
qed

section \<open>The framing is injective\<close>

lemma utf8_char_append:
  assumes "utf8_char c @ xs = utf8_char d @ ys"
  shows "c = d \<and> xs = ys"
proof -
  have n: "(of_char c :: nat) < 256" "(of_char d :: nat) < 256" by simp_all
  have read: "unat (of_nat k :: byte) = k" if "k < 256" for k using that by (simp add: unat_of_nat)
  have two: "unat (of_nat (192 + k div 64) :: byte) = 192 + k div 64" "unat (of_nat (128 + k mod 64) :: byte) = 128 + k mod 64"
    if "k < 256" for k by (rule read, use that in linarith)+
  have "(of_char c :: nat) = of_char d \<and> xs = ys"
  proof (cases "(of_char c :: nat) < 128")
    case True
    show ?thesis
    proof (cases "(of_char d :: nat) < 128")
      case d: True
      then have "of_nat (of_char c) = (of_nat (of_char d) :: byte)" "xs = ys" using assms True by (simp_all add: utf8_char_def Let_def)
      then show ?thesis using read[OF n(1)] read[OF n(2)] by metis
    next
      case d: False
      then have "of_nat (of_char c) = (of_nat (192 + of_char d div 64) :: byte)" using assms True by (simp add: utf8_char_def Let_def)
      then have "(of_char c :: nat) = 192 + of_char d div 64" using read[OF n(1)] two(1)[OF n(2)] by metis
      then show ?thesis using True by simp
    qed
  next
    case False
    show ?thesis
    proof (cases "(of_char d :: nat) < 128")
      case d: True
      then have "of_nat (of_char d) = (of_nat (192 + of_char c div 64) :: byte)" using assms False by (simp add: utf8_char_def Let_def)
      then have "(of_char d :: nat) = 192 + of_char c div 64" using read[OF n(2)] two(1)[OF n(1)] by metis
      then show ?thesis using d by simp
    next
      case d: False
      then have e: "of_nat (192 + of_char c div 64) = (of_nat (192 + of_char d div 64) :: byte)"
        "of_nat (128 + of_char c mod 64) = (of_nat (128 + of_char d mod 64) :: byte)" "xs = ys"
        using assms False by (simp_all add: utf8_char_def Let_def)
      have "192 + (of_char c :: nat) div 64 = 192 + of_char d div 64" using arg_cong[OF e(1), of unat] two[OF n(1)] two[OF n(2)] by metis
      moreover have "128 + (of_char c :: nat) mod 64 = 128 + of_char d mod 64" using arg_cong[OF e(2), of unat] two[OF n(1)] two[OF n(2)] by metis
      ultimately have "(of_char c :: nat) = of_char d" by (metis add_left_cancel mult_div_mod_eq)
      with e(3) show ?thesis by simp
    qed
  qed
  then show ?thesis by simp
qed

lemma utf8_inj: "utf8 s = utf8 t \<Longrightarrow> s = t"
proof (induction s arbitrary: t)
  case Nil
  then show ?case by (cases t) (auto simp: utf8_def utf8_char_def Let_def split: if_splits)
next
  case (Cons c s)
  show ?case
  proof (cases t)
    case Nil
    with Cons.prems show ?thesis by (auto simp: utf8_def utf8_char_def Let_def split: if_splits)
  next
    case t: (Cons d t')
    then have "utf8_char c @ utf8 s = utf8_char d @ utf8 t'" using Cons.prems by (simp add: utf8_def)
    from utf8_char_append[OF this] Cons.IH[of t'] t show ?thesis by simp
  qed
qed

lemma part_payload_inj:
  assumes "part_payload p = Inr x" "part_payload q = Inr x"
  shows "p = q"
  using assms by (cases p; cases q) (auto simp: part_payload_def utf8_inj dest: unpack_pack_q split: option.splits)

lemma frame_part_append:
  assumes "frame_part p = Inr a" "frame_part q = Inr b" "a @ xs = b @ ys"
  shows "p = q \<and> xs = ys"
proof -
  obtain t x where p: "part_payload p = Inr (t, x)" "a = t # to_be 8 (length x) @ x" "length x < 256 ^ 8"
    using assms(1) by (auto simp: frame_part_def split: sum.splits if_splits)
  obtain u y where q: "part_payload q = Inr (u, y)" "b = u # to_be 8 (length y) @ y" "length y < 256 ^ 8"
    using assms(2) by (auto simp: frame_part_def split: sum.splits if_splits)
  have eq: "t = u" "to_be 8 (length x) @ x @ xs = to_be 8 (length y) @ y @ ys" using assms(3) p(2) q(2) by simp_all
  then have be: "to_be 8 (length x) = to_be 8 (length y)" and "x @ xs = y @ ys"
    using append_eq_append_conv[of "to_be 8 (length x)" "to_be 8 (length y)"] by (simp_all del: to_be.simps)
  have "length x = length x mod 256 ^ 8" "length y = length y mod 256 ^ 8" using p(3) q(3) by (simp_all only: mod_less)
  then have "length x = length y" using be from_be_to_be by metis
  then have "x = y" "xs = ys" using \<open>x @ xs = y @ ys\<close> by simp_all
  then show ?thesis using part_payload_inj p(1) q(1) eq(1) by blast
qed

lemma frame_parts_inj: "frame_parts ps = Inr x \<Longrightarrow> frame_parts qs = Inr x \<Longrightarrow> ps = qs"
proof (induction ps arbitrary: qs x)
  case Nil
  then show ?case by (cases qs) (auto simp: frame_part_def split: sum.splits if_splits)
next
  case (Cons p ps)
  obtain a as where a: "frame_part p = Inr a" "frame_parts ps = Inr as" "x = a @ as" using Cons.prems(1) by (auto split: sum.splits)
  show ?case
  proof (cases qs)
    case Nil
    then show ?thesis using Cons.prems(2) a by (auto simp: frame_part_def split: sum.splits if_splits)
  next
    case q: (Cons q qs')
    obtain b bs where b: "frame_part q = Inr b" "frame_parts qs' = Inr bs" "x = b @ bs" using Cons.prems(2) q by (auto split: sum.splits)
    have "p = q \<and> as = bs" by (rule frame_part_append[OF a(1) b(1)]) (use a(3) b(3) in simp)
    then show ?thesis using Cons.IH[of as qs'] a(2) b(2) q by simp
  qed
qed

section \<open>Entries round trip\<close>

lemma flag_bits:
  "entry_flags e AND NOT 15 = 0" "entry_flags e AND 1 \<noteq> 0 \<longleftrightarrow> stamp_digest e \<noteq> None" "entry_flags e AND 2 \<noteq> 0 \<longleftrightarrow> uidset_digest e \<noteq> None"
  "entry_flags e AND 4 \<noteq> 0 \<longleftrightarrow> is_descriptor e" "entry_flags e AND 8 \<noteq> 0 \<longleftrightarrow> entry_ref e = None"
  unfolding entry_flags_def
  by (cases "stamp_digest e = None"; cases "uidset_digest e = None"; cases "is_descriptor e"; cases "entry_ref e = None"; simp)+

lemma flags_of_bits:
  fixes f :: byte
  assumes "f AND NOT 15 = 0"
  shows "f = of_bool (f AND 1 \<noteq> 0) OR push_bit 1 (of_bool (f AND 2 \<noteq> 0)) OR push_bit 2 (of_bool (f AND 4 \<noteq> 0)) OR push_bit 3 (of_bool (f AND 8 \<noteq> 0))"
proof -
  have "f = f AND 15" using assms by (metis and.right_neutral bit.conj_disj_distrib bit.disj_cancel_right bit.disj_zero_right)
  then have "f \<le> 15" using word_and_le1[of f 15] by simp
  then have "unat f \<le> 15" by (simp add: word_le_nat_alt)
  then have "unat f \<in> set [0..<16]" by simp
  then have "f \<in> of_nat ` set [0..<16]" by (intro image_eqI[of _ _ "unat f"]) simp_all
  then have "f \<in> {0, 1, 2, 3, 4, 5, 6, 7, 8, 9, 10, 11, 12, 13, 14, 15}" by (simp add: upt_rec)
  then show ?thesis by (elim insertE emptyE) simp_all
qed

lemma decode_encode_entry:
  assumes "encode_entry e = Inr bs"
  shows "decode_entry bs = Inr e \<and> length bs = ENTRY_SIZE"
proof -
  let ?r = "case entry_ref e of None \<Rightarrow> 0 | Some r \<Rightarrow> r"
  obtain q where ok: "length (identity_digest e) = 16" "digest_ok (stamp_digest e)" "digest_ok (uidset_digest e)"
    "\<not> (entry_ref e = None \<and> is_descriptor e)" and q: "pack_q ?r = Some q"
    and bs: "bs = identity_digest e @ [entry_flags e] @ or_absent (stamp_digest e) @ or_absent (uidset_digest e) @ q"
    using assms by (auto simp: encode_entry_def split: if_splits option.splits)
  have lens: "length (or_absent (stamp_digest e)) = 16" "length (or_absent (uidset_digest e)) = 16"
    using ok(2,3) by (auto simp: or_absent_def absent_def digest_ok_def split: option.splits)
  have parts: "take 16 bs = identity_digest e" "bs ! 16 = entry_flags e" "take 16 (drop 17 bs) = or_absent (stamp_digest e)"
    "take 16 (drop 33 bs) = or_absent (uidset_digest e)" "drop 49 bs = q"
    using ok(1) lens by (simp_all add: bs nth_append)
  have ref: "unpack_q q = ?r" "length q = 8" using unpack_pack_q[OF q] by simp_all
  show ?thesis using ok parts lens ref flag_bits[of e]
    by (auto simp: decode_entry_def Let_def or_absent_def bs ENTRY_SIZE_def split: option.splits)
qed

lemma encode_decode_entry:
  assumes "length bs = ENTRY_SIZE" "decode_entry bs = Inr e"
  shows "encode_entry e = Inr bs"
proof -
  let ?f = "bs ! 16"
  have l: "length bs = 57" using assms(1) by (simp add: ENTRY_SIZE_def)
  have "bs = take 16 bs @ drop 16 bs" by simp
  also have "drop 16 bs = ?f # drop 17 bs" using l Cons_nth_drop_Suc[of 16 bs] by simp
  also have "drop 17 bs = take 16 (drop 17 bs) @ drop 33 bs" using append_take_drop_id[of 16 "drop 17 bs"] by (simp add: drop_drop del: append_take_drop_id)
  also have "drop 33 bs = take 16 (drop 33 bs) @ drop 49 bs" using append_take_drop_id[of 16 "drop 33 bs"] by (simp add: drop_drop del: append_take_drop_id)
  finally have split: "bs = take 16 bs @ [?f] @ take 16 (drop 17 bs) @ take 16 (drop 33 bs) @ drop 49 bs" by simp
  have fl: "?f AND NOT 15 = 0" and e: "e = \<lparr>identity_digest = take 16 bs, stamp_digest = (if ?f AND 1 \<noteq> 0 then Some (take 16 (drop 17 bs)) else None),
      uidset_digest = (if ?f AND 2 \<noteq> 0 then Some (take 16 (drop 33 bs)) else None),
      entry_ref = (if ?f AND 8 \<noteq> 0 then None else Some (unpack_q (drop 49 bs))), is_descriptor = (?f AND 4 \<noteq> 0)\<rparr>"
    and c: "?f AND 8 \<noteq> 0 \<Longrightarrow> unpack_q (drop 49 bs) = 0 \<and> ?f AND 4 = 0" "?f AND 1 = 0 \<Longrightarrow> take 16 (drop 17 bs) = absent"
      "?f AND 2 = 0 \<Longrightarrow> take 16 (drop 33 bs) = absent"
    using assms(2) by (auto simp: decode_entry_def Let_def split: if_splits)
  have "(stamp_digest e \<noteq> None) = (?f AND 1 \<noteq> 0)" "(uidset_digest e \<noteq> None) = (?f AND 2 \<noteq> 0)" "is_descriptor e = (?f AND 4 \<noteq> 0)"
    "(entry_ref e = None) = (?f AND 8 \<noteq> 0)" by (simp_all add: e)
  then have flags: "entry_flags e = ?f" by (simp only: entry_flags_def flags_of_bits[OF fl, symmetric])
  have q: "pack_q (case entry_ref e of None \<Rightarrow> 0 | Some r \<Rightarrow> r) = Some (drop 49 bs)"
    using pack_unpack_q[of "drop 49 bs"] l c(1) by (auto simp: e)
  have absent: "or_absent (stamp_digest e) = take 16 (drop 17 bs)" "or_absent (uidset_digest e) = take 16 (drop 33 bs)"
    using c by (auto simp: e or_absent_def)
  have ok: "length (identity_digest e) = 16" "digest_ok (stamp_digest e)" "digest_ok (uidset_digest e)" "\<not> (entry_ref e = None \<and> is_descriptor e)"
    using l c(1) by (auto simp: e digest_ok_def)
  have "encode_entry e = Inr (identity_digest e @ [?f] @ take 16 (drop 17 bs) @ take 16 (drop 33 bs) @ drop 49 bs)"
    using ok q flags absent by (simp add: encode_entry_def)
  also have "\<dots> = Inr bs" using split by (simp add: e)
  finally show ?thesis .
qed

lemma decode_encode_body: "encode_body es = Inr bs \<Longrightarrow> decode_body (length es) bs = Inr es \<and> length bs = length es * ENTRY_SIZE"
proof (induction es arbitrary: bs)
  case (Cons e es)
  obtain a cs where a: "encode_entry e = Inr a" "encode_body es = Inr cs" "bs = a @ cs" using Cons.prems by (auto split: sum.splits)
  from decode_encode_entry[OF a(1)] Cons.IH[OF a(2)] a(3) show ?case by simp
qed simp

lemma encode_decode_body: "decode_body n bs = Inr es \<Longrightarrow> length bs = n * ENTRY_SIZE \<Longrightarrow> encode_body es = Inr bs"
proof (induction n arbitrary: bs es)
  case (Suc n)
  obtain e es' where e: "decode_entry (take ENTRY_SIZE bs) = Inr e" "decode_body n (drop ENTRY_SIZE bs) = Inr es'" "es = e # es'"
    using Suc.prems(1) by (auto split: sum.splits)
  have "encode_entry e = Inr (take ENTRY_SIZE bs)" by (rule encode_decode_entry[OF _ e(1)]) (simp add: Suc.prems(2))
  moreover have "encode_body es' = Inr (drop ENTRY_SIZE bs)" by (rule Suc.IH[OF e(2)]) (simp add: Suc.prems(2))
  ultimately show ?case by (simp add: e(3))
qed simp

lemma round_trip_entries: "encode_entries es = Inr blob \<longleftrightarrow> decode_entries blob = Inr es"
proof
  assume "encode_entries es = Inr blob"
  then obtain body where b: "encode_body es = Inr body" "blob = 1 # body" by (cases "encode_body es") (auto simp: encode_entries_def)
  have "0 < ENTRY_SIZE" by (simp add: ENTRY_SIZE_def)
  with decode_encode_body[OF b(1)] show "decode_entries blob = Inr es" by (simp add: decode_entries_def b(2))
next
  assume d: "decode_entries blob = Inr es"
  then obtain body where b: "blob = 1 # body" "length body mod ENTRY_SIZE = 0" "decode_body (length body div ENTRY_SIZE) body = Inr es"
    by (auto simp: decode_entries_def split: list.splits if_splits)
  have "length body = length body div ENTRY_SIZE * ENTRY_SIZE" using b(2) by auto
  from encode_decode_body[OF b(3) this] show "encode_entries es = Inr blob" by (simp add: encode_entries_def b(1))
qed

text \<open>
  C9: The view vector format loses nothing and has one encoding per value: whatever \<open>encode_entries\<close>
  produces decodes to the entries it was given, and whatever blob \<open>decode_entries\<close> accepts is byte for byte
  the encoding of what it returns.  So malformed flags, references out of the signed 64-bit range and digest
  bytes behind an absent flag are rejected on both sides.
\<close>

theorem entries_round_trip: "encode_entries es = Inr blob \<longleftrightarrow> decode_entries blob = Inr es"
  by (rule round_trip_entries)

section \<open>Chains tell prefixes apart\<close>

text \<open>What a chain compares of an entry, and the byte strings it hashes.\<close>

definition entry_key :: "ViewEntry \<Rightarrow> byte list \<times> byte list option \<times> byte list option" where
  "entry_key e = (identity_digest e, stamp_digest e, uidset_digest e)"

definition entry_digests_ok :: "ViewEntry \<Rightarrow> bool" where
  "entry_digests_ok e = (length (identity_digest e) = 16 \<and> digest_ok (stamp_digest e) \<and> digest_ok (uidset_digest e))"

fun chain_inputs :: "(byte list \<Rightarrow> byte list \<Rightarrow> byte list) \<Rightarrow> byte list \<Rightarrow> digest_part \<Rightarrow> ViewEntry list \<Rightarrow> byte list set" where
  "chain_inputs blake salt previous [] = {}"
| "chain_inputs blake salt previous (e # es) = (case frame_parts (link_parts previous e) of
     Inl _ \<Rightarrow> {}
   | Inr x \<Rightarrow> insert x (chain_inputs blake salt (DBytes (blake salt x)) es))"

fun common_len :: "'a list \<Rightarrow> 'a list \<Rightarrow> nat" where
  "common_len (x # xs) (y # ys) = (if x = y then Suc (common_len xs ys) else 0)"
| "common_len _ _ = 0"

lemma common_len_take: "take (common_len xs ys) xs = take (common_len xs ys) ys"
  and common_len_max: "take n xs = take n ys \<Longrightarrow> n \<le> length xs \<Longrightarrow> n \<le> length ys \<Longrightarrow> n \<le> common_len xs ys"
proof -
  show "take (common_len xs ys) xs = take (common_len xs ys) ys" by (induction xs ys rule: common_len.induct) simp_all
  show "take n xs = take n ys \<Longrightarrow> n \<le> length xs \<Longrightarrow> n \<le> length ys \<Longrightarrow> n \<le> common_len xs ys"
  proof (induction xs ys arbitrary: n rule: common_len.induct)
    case (1 x xs y ys)
    then show ?case by (cases n) simp_all
  qed simp_all
qed

lemma or_empty_inj: "digest_ok a \<Longrightarrow> digest_ok b \<Longrightarrow> or_empty a = or_empty b \<Longrightarrow> a = b"
  by (cases a; cases b) (auto simp: or_empty_def digest_ok_def)

lemma link_parts_inj:
  assumes "link_parts p a = link_parts p b" "entry_digests_ok a" "entry_digests_ok b"
  shows "entry_key a = entry_key b"
  using assms or_empty_inj[of "stamp_digest a" "stamp_digest b"] or_empty_inj[of "uidset_digest a" "uidset_digest b"]
  by (simp add: link_parts_def entry_digests_ok_def entry_key_def)

lemma chain_Cons:
  "chain_from blake salt p (e # es) = Inr c \<longleftrightarrow> (\<exists>x d. frame_parts (link_parts p e) = Inr x
     \<and> chain_from blake salt (DBytes (blake salt x)) es = Inr d \<and> c = blake salt x @ d)"
  by (cases "frame_parts (link_parts p e)") (auto simp: ledger_digest_def split: sum.splits)

lemma chain_length:
  "chain_from blake salt p es = Inr c \<Longrightarrow> (\<And>x. length (blake salt x) = 16) \<Longrightarrow> length c = 16 * length es"
proof (induction es arbitrary: p c)
  case (Cons e es)
  from Cons.prems(1)[unfolded chain_Cons] Cons show ?case by auto
qed simp

lemma common_digests_chain:
  assumes "\<And>x. length (blake salt x) = 16"
  shows "chain_from blake salt p as = Inr ca \<Longrightarrow> chain_from blake salt p bs = Inr cb \<Longrightarrow>
    list_all entry_digests_ok as \<Longrightarrow> list_all entry_digests_ok bs \<Longrightarrow>
    inj_on (blake salt) (chain_inputs blake salt p as \<union> chain_inputs blake salt p bs) \<Longrightarrow>
    common_digests (min (length as) (length bs)) ca cb = common_len (map entry_key as) (map entry_key bs)"
proof (induction as arbitrary: bs p ca cb)
  case (Cons a as)
  show ?case
  proof (cases bs)
    case bs: (Cons b bs')
    obtain x da where x: "frame_parts (link_parts p a) = Inr x" "chain_from blake salt (DBytes (blake salt x)) as = Inr da" "ca = blake salt x @ da"
      using Cons.prems(1)[unfolded chain_Cons] by blast
    obtain y db where y: "frame_parts (link_parts p b) = Inr y" "chain_from blake salt (DBytes (blake salt y)) bs' = Inr db" "cb = blake salt y @ db"
      using Cons.prems(2)[unfolded bs chain_Cons] by blast
    have inj: "inj_on (blake salt) (insert x (chain_inputs blake salt (DBytes (blake salt x)) as) \<union> insert y (chain_inputs blake salt (DBytes (blake salt y)) bs'))"
      using Cons.prems(5) bs x(1) y(1) by simp
    show ?thesis
    proof (cases "entry_key a = entry_key b")
      case True
      then have "link_parts p a = link_parts p b" by (simp add: link_parts_def entry_key_def)
      then have "y = x" using x(1) y(1) by simp
      then have "inj_on (blake salt) (chain_inputs blake salt (DBytes (blake salt x)) as \<union> chain_inputs blake salt (DBytes (blake salt x)) bs')"
        using inj by (auto intro: inj_on_subset)
      with Cons.IH[OF x(2), of bs' db] y(2) \<open>y = x\<close> Cons.prems(3,4) bs True show ?thesis by (simp add: x(3) y(3) assms)
    next
      case False
      then have "x \<noteq> y"
        using link_parts_inj[of p a b] frame_parts_inj[OF x(1), of "link_parts p b"] y(1) Cons.prems(3,4) bs by auto
      then have "blake salt x \<noteq> blake salt y" using inj_onD[OF inj, of x y] by auto
      then show ?thesis using False bs by (simp add: x(3) y(3) assms)
    qed
  qed simp
qed simp

text \<open>
  C14: Two prefix chains agree exactly as far as the views do.  Unless BLAKE2b collides on the byte strings
  the two chains hash, \<open>common_prefix_len\<close> of the chains is the length of the longest common prefix of the
  entries' identity, stamp and uid-set digests: no absent digest is confused with a present one, and no
  agreement or difference is missed.
\<close>

theorem common_prefix_len_exact:
  assumes "prefix_chain blake salt as = Inr ca" "prefix_chain blake salt bs = Inr cb"
    and "list_all entry_digests_ok as" "list_all entry_digests_ok bs" "\<And>x. length (blake salt x) = 16"
    and "inj_on (blake salt) (chain_inputs blake salt (DStr ''chain'') as \<union> chain_inputs blake salt (DStr ''chain'') bs)"
  shows "common_prefix_len ca cb = Inr (common_len (map entry_key as) (map entry_key bs))"
proof -
  have l: "length ca = 16 * length as" "length cb = 16 * length bs"
    using assms(1,2) chain_length[of blake salt] assms(5) unfolding prefix_chain_def by blast+
  then have "min (length ca) (length cb) div 16 = min (length as) (length bs)" by (simp add: min_def)
  then show ?thesis
    using common_digests_chain[OF assms(5) assms(1,2)[unfolded prefix_chain_def] assms(3,4,6)] l by (simp add: common_prefix_len_def)
qed

text \<open>Two views that agree on their first entry, and a toy hash that keeps the last 16 bytes of its input.\<close>

definition sample_entry :: "byte \<Rightarrow> ViewEntry" where
  "sample_entry b = \<lparr>identity_digest = replicate 16 b, stamp_digest = None, uidset_digest = Some (replicate 16 b), entry_ref = Some 7, is_descriptor = False\<rparr>"

definition toy_blake :: "byte list \<Rightarrow> byte list \<Rightarrow> byte list" where
  "toy_blake salt x = take 16 (rev x @ replicate 16 0)"

definition sample_link :: "byte \<Rightarrow> byte list \<Rightarrow> byte \<Rightarrow> byte list" where
  "sample_link tag p b = tag # to_be 8 (length p) @ p @ 98 # to_be 8 16 @ replicate 16 b @ 98 # to_be 8 0 @ 98 # to_be 8 16 @ replicate 16 b"

lemma sample_frames:
  "frame_parts (link_parts (DStr ''chain'') (sample_entry b)) = Inr (sample_link 115 (utf8 ''chain'') b)"
  "frame_parts (link_parts (DBytes (replicate 16 c)) (sample_entry b)) = Inr (sample_link 98 (replicate 16 c) b)"
  "toy_blake [] (sample_link t p b) = replicate 16 b"
  by (simp_all add: link_parts_def sample_entry_def frame_part_def part_payload_def or_empty_def utf8_def utf8_char_def Let_def
      toy_blake_def sample_link_def del: to_be.simps replicate.simps)

lemma sample_chains:
  "prefix_chain toy_blake [] (map sample_entry [a, b]) = Inr (replicate 16 a @ replicate 16 b)"
  "chain_inputs toy_blake [] (DStr ''chain'') (map sample_entry [a, b]) = {sample_link 115 (utf8 ''chain'') a, sample_link 98 (replicate 16 a) b}"
  by (simp_all add: prefix_chain_def ledger_digest_def sample_frames del: replicate.simps)

theorem common_prefix_len_exact_witness:
  "common_prefix_len (replicate 16 1 @ replicate 16 2) (replicate 16 1 @ replicate 16 3) = Inr 1"
proof -
  have ok: "list_all entry_digests_ok (map sample_entry [1, b])" for b
    by (simp add: sample_entry_def entry_digests_ok_def digest_ok_def)
  have len: "length (toy_blake [] x) = 16" for x by (simp add: toy_blake_def)
  have "inj_on (toy_blake []) (chain_inputs toy_blake [] (DStr ''chain'') (map sample_entry [1, 2])
      \<union> chain_inputs toy_blake [] (DStr ''chain'') (map sample_entry [1, 3]))"
    unfolding sample_chains by (auto simp: inj_on_def sample_frames)
  from common_prefix_len_exact[OF sample_chains(1) sample_chains(1) ok ok len this]
  show ?thesis by (simp add: entry_key_def sample_entry_def)
qed

end
