(* ===== verification/Ordinals.thy ===== *)
theory Ordinals
  imports Ledger_Codec
begin

text \<open>
  The order labels of the ingest ledger, \<open>plan_ordinals\<close> of \<^verbatim>\<open>src/ingest_ledger.py\<close>: new occurrences are
  placed between the positive signed 64-bit ordinals already there, in view order, and when a gap is too
  small the labels of a minimal window around it are spread evenly.

  \<open>positions\<close> are the current labels of the existing ordinals, \<open>result\<close> the labels of the placements found so
  far.  A gap \<open>g\<close> lies before position \<open>g\<close>; \<open>groups[g]\<close> are the placements that go there.  A slot is a
  placement (\<open>Inl\<close>) or an existing label (\<open>Inr\<close>).
\<close>

definition ORDINAL_STEP :: int where "ORDINAL_STEP = 2 ^ 20"

definition MIN_GAP :: int where "MIN_GAP = 2 ^ 10"

definition MAX_ORDINAL :: int where "MAX_ORDINAL = 2 ^ 63 - 1"

record Placement =
  pl_left :: "int option"
  pl_right :: "int option"
  pl_supersedes :: "int option"

datatype ordinal_error = BadExisting | UnknownBound | BoundsDecrease | BoundsOutOfOrder | Exhausted

definition bisect_left :: "int list \<Rightarrow> int \<Rightarrow> nat" where
  "bisect_left xs x = length (takeWhile (\<lambda>y. y < x) xs)"

definition left_bound :: "Placement \<Rightarrow> int" where
  "left_bound p = (case pl_left p of None \<Rightarrow> 0 | Some l \<Rightarrow> l)"

definition right_bound :: "Placement \<Rightarrow> int" where
  "right_bound p = (case pl_right p of None \<Rightarrow> MAX_ORDINAL + 1 | Some r \<Rightarrow> r)"

definition known_bounds :: "int list \<Rightarrow> Placement \<Rightarrow> bool" where
  "known_bounds original p = (\<forall>v \<in> set_option (pl_left p) \<union> set_option (pl_right p) \<union> set_option (pl_supersedes p). v \<in> set original)"

definition superseded_within :: "Placement \<Rightarrow> int option" where
  "superseded_within p = (case pl_supersedes p of None \<Rightarrow> None
     | Some s \<Rightarrow> if left_bound p \<le> s \<and> s < right_bound p then Some s else None)"

definition natural_gap :: "int list \<Rightarrow> Placement \<Rightarrow> ordinal_error + nat" where
  "natural_gap original p = (case superseded_within p of
     Some s \<Rightarrow> Inr (bisect_left original s + 1)
   | None \<Rightarrow> (case (pl_left p, pl_right p) of
       (Some l, Some r) \<Rightarrow> if l \<ge> r then Inl BoundsOutOfOrder else Inr (bisect_left original r)
     | (_, None) \<Rightarrow> Inr (length original)
     | (None, Some r) \<Rightarrow> Inr (bisect_left original r)))"

fun plan_gaps :: "int list \<Rightarrow> int \<Rightarrow> int \<Rightarrow> nat \<Rightarrow> Placement list \<Rightarrow> ordinal_error + nat list" where
  "plan_gaps original previous_left previous_right previous_gap [] = Inr []"
| "plan_gaps original previous_left previous_right previous_gap (p # ps) =
     (if \<not> known_bounds original p then Inl UnknownBound
      else if left_bound p \<ge> right_bound p \<or> left_bound p < previous_left \<or> right_bound p < previous_right then Inl BoundsDecrease
      else (case natural_gap original p of
        Inl e \<Rightarrow> Inl e
      | Inr gap \<Rightarrow> (case plan_gaps original (left_bound p) (right_bound p) (max gap previous_gap) ps of
          Inl e \<Rightarrow> Inl e
        | Inr gaps \<Rightarrow> Inr (max gap previous_gap # gaps))))"

definition group :: "nat list \<Rightarrow> nat \<Rightarrow> nat list" where
  "group gaps g = filter (\<lambda>i. gaps ! i = g) [0..<length gaps]"

type_synonym slot = "nat + nat"

type_synonym plan_state = "int list \<times> int option list"

fun write_slot :: "slot \<Rightarrow> int \<Rightarrow> plan_state \<Rightarrow> plan_state" where
  "write_slot (Inl i) v (positions, result) = (positions, result[i := Some v])"
| "write_slot (Inr g) v (positions, result) = (positions[g := v], result)"

fun write_slots :: "(slot \<times> int) list \<Rightarrow> plan_state \<Rightarrow> plan_state" where
  "write_slots [] st = st"
| "write_slots ((x, v) # xs) st = write_slots xs (write_slot x v st)"

definition lower_of :: "nat \<Rightarrow> int list \<Rightarrow> int" where
  "lower_of g positions = (if g = 0 then 0 else positions ! (g - 1))"

definition upper_of :: "nat \<Rightarrow> int list \<Rightarrow> int option" where
  "upper_of g positions = (if g < length positions then Some (positions ! g) else None)"

definition gap_step :: "nat \<Rightarrow> int list \<Rightarrow> nat \<Rightarrow> int" where
  "gap_step g positions k = (case upper_of g positions of None \<Rightarrow> ORDINAL_STEP
     | Some u \<Rightarrow> (u - lower_of g positions) div (int k + 1))"

definition gap_label :: "nat \<Rightarrow> int list \<Rightarrow> nat \<Rightarrow> nat \<Rightarrow> int" where
  "gap_label g positions k offset = (case upper_of g positions of
     None \<Rightarrow> lower_of g positions + gap_step g positions k * int offset
   | Some u \<Rightarrow> lower_of g positions + (u - lower_of g positions) * int offset div (int k + 1))"

text \<open>The labels of a window in order: its placements and the existing labels strictly inside it.\<close>

definition window_slots :: "nat list \<Rightarrow> nat \<Rightarrow> nat \<Rightarrow> slot list" where
  "window_slots gaps start fin = concat (map (\<lambda>g. map Inl (group gaps g) @ (if g < fin then [Inr g] else [])) [start..<Suc fin])"

definition window_step :: "nat list \<Rightarrow> int list \<Rightarrow> nat \<times> nat \<Rightarrow> int" where
  "window_step gaps positions w = (case w of (start, fin) \<Rightarrow>
     let lower = lower_of start positions;
         count = int (fin - start) + int (sum_list (map (\<lambda>g. length (group gaps g)) [start..<Suc fin]))
     in if fin < length positions then (positions ! fin - lower) div (count + 1)
        else min ORDINAL_STEP ((MAX_ORDINAL - lower) div count))"

definition windows :: "nat \<Rightarrow> nat \<Rightarrow> (nat \<times> nat) list" where
  "windows g n = concat (map (\<lambda>width. map (\<lambda>start. (start, start + width)) [g - width..<Suc (min g (n - width))]) [0..<Suc n])"

fun spread :: "int \<Rightarrow> int \<Rightarrow> slot list \<Rightarrow> plan_state \<Rightarrow> plan_state" where
  "spread step val [] st = st"
| "spread step val (x # xs) st = spread step (val + step) xs (write_slot x (val + step) st)"

definition respace_around :: "nat list \<Rightarrow> nat \<Rightarrow> plan_state \<Rightarrow> ordinal_error + plan_state" where
  "respace_around gaps g st =
     (case find (\<lambda>w. window_step gaps (fst st) w \<ge> MIN_GAP) (windows g (length (fst st))) of
        None \<Rightarrow> Inl Exhausted
      | Some w \<Rightarrow> Inr (spread (window_step gaps (fst st) w) (lower_of (fst w) (fst st)) (window_slots gaps (fst w) (snd w)) st))"

definition place_gap :: "nat list \<Rightarrow> nat \<Rightarrow> plan_state \<Rightarrow> ordinal_error + plan_state" where
  "place_gap gaps g st =
     (let idx = group gaps g; k = length idx; positions = fst st in
      if snd st ! hd idx \<noteq> None then Inr st
      else if gap_step g positions k > 0 \<and> lower_of g positions + gap_step g positions k * int k \<le> MAX_ORDINAL
      then Inr (write_slots (zip (map Inl idx) (map (gap_label g positions k) [1..<Suc k])) st)
      else respace_around gaps g st)"

fun place_gaps :: "nat list \<Rightarrow> nat list \<Rightarrow> plan_state \<Rightarrow> ordinal_error + plan_state" where
  "place_gaps gaps [] st = Inr st"
| "place_gaps gaps (g # gs) st = (case place_gap gaps g st of Inl e \<Rightarrow> Inl e | Inr st' \<Rightarrow> place_gaps gaps gs st')"

definition plan_ordinals :: "int list \<Rightarrow> Placement list \<Rightarrow> ordinal_error + (int list \<times> (int \<times> int) list)" where
  "plan_ordinals existing placements =
     (let original = sort (remdups existing) in
      if \<exists>v \<in> set original. \<not> (0 < v \<and> v \<le> MAX_ORDINAL) then Inl BadExisting
      else (case plan_gaps original 0 0 0 placements of
        Inl e \<Rightarrow> Inl e
      | Inr gaps \<Rightarrow> (case place_gaps gaps (sort (remdups gaps)) (original, replicate (length gaps) None) of
          Inl e \<Rightarrow> Inl e
        | Inr (positions, result) \<Rightarrow> Inr (map the result, filter (\<lambda>(old, new). old \<noteq> new) (zip original positions)))))"

section \<open>Gaps\<close>

lemma plan_gaps_sorted:
  "plan_gaps original pl pr pg ps = Inr gaps \<Longrightarrow> length gaps = length ps \<and> sorted gaps \<and> (\<forall>g \<in> set gaps. pg \<le> g)"
proof (induction ps arbitrary: pl pr pg gaps)
  case (Cons p ps)
  obtain gap gs where "plan_gaps original (left_bound p) (right_bound p) (max gap pg) ps = Inr gs" "gaps = max gap pg # gs"
    using Cons.prems by (auto split: if_splits sum.splits)
  with Cons.IH[of "left_bound p" "right_bound p" "max gap pg" gs] show ?case by auto
qed simp

section \<open>Slots and their order\<close>

text \<open>
  The order every plan has to respect: placements by their index, existing labels by their position, and a
  placement of gap \<open>g\<close> before the existing label \<open>g\<close> and after the ones below it.
\<close>

fun slot_less :: "nat list \<Rightarrow> slot \<Rightarrow> slot \<Rightarrow> bool" where
  "slot_less gaps (Inl i) (Inl j) = (i < j)"
| "slot_less gaps (Inl i) (Inr h) = (gaps ! i \<le> h)"
| "slot_less gaps (Inr g) (Inl j) = (g < gaps ! j)"
| "slot_less gaps (Inr g) (Inr h) = (g < h)"

fun slot_in :: "nat list \<Rightarrow> nat \<Rightarrow> slot \<Rightarrow> bool" where
  "slot_in gaps n (Inl i) = (i < length gaps)"
| "slot_in gaps n (Inr g) = (g < n)"

fun in_window :: "nat list \<Rightarrow> nat \<Rightarrow> nat \<Rightarrow> slot \<Rightarrow> bool" where
  "in_window gaps s e (Inl i) = (i < length gaps \<and> s \<le> gaps ! i \<and> gaps ! i \<le> e)"
| "in_window gaps s e (Inr g) = (s \<le> g \<and> g < e)"

fun slot_val :: "plan_state \<Rightarrow> slot \<Rightarrow> int option" where
  "slot_val (positions, result) (Inl i) = result ! i"
| "slot_val (positions, result) (Inr g) = Some (positions ! g)"

lemma slot_less_asym: "slot_less gaps x y \<Longrightarrow> \<not> slot_less gaps y x"
  by (cases x; cases y) auto

lemma group_set [simp]: "set (group gaps g) = {i. i < length gaps \<and> gaps ! i = g}"
  by (auto simp: group_def)

lemma group_sorted: "sorted_wrt (<) (group gaps g)"
  unfolding group_def by (intro sorted_wrt_filter) simp

lemma window_slots_set: "x \<in> set (window_slots gaps s e) \<longleftrightarrow> in_window gaps s e x"
  by (cases x) (auto simp: window_slots_def less_Suc_eq_le split: if_splits)

lemma sorted_wrt_concat:
  assumes "\<And>g. g \<in> set gs \<Longrightarrow> sorted_wrt R (f g)"
    and "sorted_wrt (\<lambda>g h. \<forall>x \<in> set (f g). \<forall>y \<in> set (f h). R x y) gs"
  shows "sorted_wrt R (concat (map f gs))"
  using assms by (induction gs) (auto simp: sorted_wrt_append)

lemma sorted_index_less:
  "sorted gaps \<Longrightarrow> i < length gaps \<Longrightarrow> j < length gaps \<Longrightarrow> gaps ! i < gaps ! j \<Longrightarrow> i < j"
  by (meson leD leI sorted_nth_mono)

lemma window_slots_sorted:
  assumes "sorted gaps"
  shows "sorted_wrt (slot_less gaps) (window_slots gaps s e)"
  unfolding window_slots_def
proof (rule sorted_wrt_concat)
  fix g
  show "sorted_wrt (slot_less gaps) (map Inl (group gaps g) @ (if g < e then [Inr g] else []))"
    using group_sorted[of gaps g] by (simp add: sorted_wrt_append sorted_wrt_map)
next
  have "sorted_wrt (<) [s..<Suc e]" by (rule sorted_wrt_upt)
  then show "sorted_wrt (\<lambda>g h. \<forall>x \<in> set (map Inl (group gaps g) @ (if g < e then [Inr g] else [])).
      \<forall>y \<in> set (map Inl (group gaps h) @ (if h < e then [Inr h] else [])). slot_less gaps x y) [s..<Suc e]"
    by (rule sorted_wrt_mono_rel[rotated]) (auto intro: sorted_index_less[OF assms])
qed

lemma window_slots_distinct:
  assumes "sorted gaps"
  shows "distinct (window_slots gaps s e)"
proof -
  have "sorted_wrt (\<noteq>) (window_slots gaps s e)"
    by (rule sorted_wrt_mono_rel[OF _ window_slots_sorted[OF assms]]) (metis slot_less_asym)
  then show ?thesis by (simp add: distinct_conv_nth sorted_wrt_iff_nth_less) (metis linorder_neqE_nat)
qed

lemma window_slots_length:
  assumes "s \<le> e"
  shows "length (window_slots gaps s e) = (e - s) + sum_list (map (\<lambda>g. length (group gaps g)) [s..<Suc e])"
proof -
  have "sum_list (map (\<lambda>g. if g < e then 1 else 0 :: nat) [s..<Suc e]) = e - s"
  proof -
    have ones: "map (\<lambda>g. if g < e then 1 else 0 :: nat) [s..<e] = map (\<lambda>g. 1) [s..<e]" by (rule map_cong) auto
    show ?thesis using assms by (simp add: ones sum_list_triv)
  qed
  moreover have "length (window_slots gaps s e) =
      sum_list (map (\<lambda>g. length (group gaps g) + (if g < e then 1 else 0)) [s..<Suc e])"
    unfolding window_slots_def length_concat by (auto simp: comp_def intro!: arg_cong[where f = sum_list])
  ultimately show ?thesis by (simp add: sum_list_addf)
qed

section \<open>Writing a window\<close>

lemma write_slot_val:
  "slot_in gaps (length (fst st)) x \<Longrightarrow> length (snd st) = length gaps \<Longrightarrow>
   slot_val (write_slot y v st) x = (if x = y then Some v else slot_val st x)"
  by (cases st; cases x; cases y) (auto simp: nth_list_update)

lemma write_slot_lengths [simp]:
  "length (fst (write_slot y v st)) = length (fst st)" "length (snd (write_slot y v st)) = length (snd st)"
  by (cases st; cases y; simp)+

lemma write_slots_lengths [simp]:
  "length (fst (write_slots xs st)) = length (fst st)" "length (snd (write_slots xs st)) = length (snd st)"
  by (induction xs st rule: write_slots.induct) auto

lemma write_slots_val:
  assumes "length (snd st) = length gaps" "slot_in gaps (length (fst st)) x" "distinct (map fst xs)"
  shows "slot_val (write_slots xs st) x = (case map_of xs x of None \<Rightarrow> slot_val st x | Some v \<Rightarrow> Some v)"
  using assms
proof (induction xs st rule: write_slots.induct)
  case (2 y v xs st)
  have "map_of xs y = None" using 2(4) by (simp add: map_of_eq_None_iff)
  then show ?case using 2 by (auto simp: write_slot_val split: option.splits)
qed simp

lemma upt_one_Suc: "[1..<Suc (n + Suc 0)] = 1 # map Suc [1..<Suc n]"
  by (simp add: map_Suc_upt upt_conv_Cons del: upt_Suc)

lemma spread_write_slots:
  "spread step v xs st = write_slots (zip xs (map (\<lambda>j. v + step * int j) [1..<Suc (length xs)])) st"
proof (induction xs arbitrary: v st)
  case (Cons x xs)
  have "map (\<lambda>j. v + step * int j) [1..<Suc (length (x # xs))] =
      (v + step) # map (\<lambda>j. (v + step) + step * int j) [1..<Suc (length xs)]"
    unfolding list.size upt_one_Suc by (simp add: algebra_simps comp_def del: upt_Suc)
  then show ?case using Cons.IH by (simp del: upt_Suc)
qed simp

definition plan_ok :: "nat list \<Rightarrow> nat \<Rightarrow> plan_state \<Rightarrow> bool" where
  "plan_ok gaps n st \<longleftrightarrow> length (fst st) = n \<and> length (snd st) = length gaps
     \<and> (\<forall>x y a b. slot_in gaps n x \<longrightarrow> slot_in gaps n y \<longrightarrow> slot_less gaps x y \<longrightarrow>
          slot_val st x = Some a \<longrightarrow> slot_val st y = Some b \<longrightarrow> a < b)
     \<and> (\<forall>x a. slot_in gaps n x \<longrightarrow> slot_val st x = Some a \<longrightarrow> 0 < a \<and> a \<le> MAX_ORDINAL)"

definition gaps_ok :: "nat list \<Rightarrow> nat \<Rightarrow> bool" where
  "gaps_ok gaps n \<longleftrightarrow> sorted gaps \<and> (\<forall>i < length gaps. gaps ! i \<le> n)"

lemma plan_okD:
  assumes "plan_ok gaps n st"
  shows "length (fst st) = n" "length (snd st) = length gaps"
    and "slot_in gaps n x \<Longrightarrow> slot_in gaps n y \<Longrightarrow> slot_less gaps x y \<Longrightarrow> slot_val st x = Some a \<Longrightarrow> slot_val st y = Some b \<Longrightarrow> a < b"
    and "slot_in gaps n x \<Longrightarrow> slot_val st x = Some a \<Longrightarrow> 0 < a \<and> a \<le> MAX_ORDINAL"
  using assms unfolding plan_ok_def by blast+

lemma slot_val_position [simp]: "slot_val st (Inr g) = Some (fst st ! g)"
  by (cases st) simp

lemma slot_val_result [simp]: "slot_val st (Inl i) = snd st ! i"
  by (cases st) simp

lemma in_window_slot: "gaps_ok gaps n \<Longrightarrow> e \<le> n \<Longrightarrow> in_window gaps s e x \<Longrightarrow> slot_in gaps n x"
  by (cases x) auto

lemma after_window:
  assumes "gaps_ok gaps n" "in_window gaps s e x" "\<not> in_window gaps s e y" "slot_in gaps n y" "slot_less gaps x y"
  shows "e < n \<and> (y = Inr e \<or> slot_less gaps (Inr e) y)"
proof (cases y)
  case (Inl j)
  have "s \<le> gaps ! j"
  proof (cases x)
    case (Inl i)
    then have "gaps ! i \<le> gaps ! j"
      using assms \<open>y = Inl j\<close> by (auto simp: gaps_ok_def intro: sorted_nth_mono)
    with Inl assms(2) show ?thesis by simp
  qed (use assms Inl in auto)
  then have "e < gaps ! j" using assms Inl by auto
  with assms(1,4) Inl show ?thesis by (fastforce simp: gaps_ok_def)
qed (use assms in \<open>cases x; auto\<close>)

lemma before_window:
  assumes "gaps_ok gaps n" "in_window gaps s e y" "\<not> in_window gaps s e x" "slot_in gaps n x" "slot_less gaps x y"
  shows "0 < s \<and> (x = Inr (s - 1) \<or> slot_less gaps x (Inr (s - 1)))"
proof (cases x)
  case (Inl i)
  have "gaps ! i \<le> e"
  proof (cases y)
    case (Inl j)
    then have "gaps ! i \<le> gaps ! j"
      using assms \<open>x = Inl i\<close> by (auto simp: gaps_ok_def intro: sorted_nth_mono)
    with Inl assms(2) show ?thesis by simp
  qed (use assms Inl in auto)
  then have "gaps ! i < s" using assms Inl by auto
  with Inl show ?thesis by simp
next
  case (Inr g)
  then show ?thesis using assms by (cases y) auto
qed

text \<open>What a label written into a window relies on: strictly between the labels around the window.\<close>

definition fits :: "nat \<Rightarrow> nat \<Rightarrow> int list \<Rightarrow> int list \<Rightarrow> bool" where
  "fits s e positions vs \<longleftrightarrow> sorted_wrt (<) vs
     \<and> (\<forall>v \<in> set vs. lower_of s positions < v \<and> v \<le> MAX_ORDINAL \<and> (e < length positions \<longrightarrow> v < positions ! e))"

lemma window_val:
  assumes "gaps_ok gaps n" "plan_ok gaps n st" "e \<le> n" "length vs = length (window_slots gaps s e)" "slot_in gaps n x"
  shows "\<not> in_window gaps s e x \<Longrightarrow> slot_val (write_slots (zip (window_slots gaps s e) vs) st) x = slot_val st x"
    and "in_window gaps s e x \<Longrightarrow> \<exists>j < length vs. window_slots gaps s e ! j = x
           \<and> slot_val (write_slots (zip (window_slots gaps s e) vs) st) x = Some (vs ! j)"
proof -
  let ?W = "window_slots gaps s e"
  have d: "distinct ?W" using assms(1) by (simp add: gaps_ok_def window_slots_distinct)
  have val: "slot_val (write_slots (zip ?W vs) st) x = (case map_of (zip ?W vs) x of None \<Rightarrow> slot_val st x | Some v \<Rightarrow> Some v)"
    using assms d plan_okD(1,2)[OF assms(2)] by (intro write_slots_val) auto
  show "\<not> in_window gaps s e x \<Longrightarrow> slot_val (write_slots (zip ?W vs) st) x = slot_val st x"
    using assms(4) by (simp add: val window_slots_set[symmetric] map_of_zip_is_None[THEN iffD2])
  assume "in_window gaps s e x"
  then obtain j where j: "j < length vs" "?W ! j = x" using assms(4) by (auto simp: window_slots_set[symmetric] in_set_conv_nth)
  then have "map_of (zip ?W vs) x = Some (vs ! j)" using d assms(4) map_of_zip_nth by metis
  with j show "\<exists>j < length vs. ?W ! j = x \<and> slot_val (write_slots (zip ?W vs) st) x = Some (vs ! j)" by (auto simp: val)
qed

lemma fits_order:
  assumes g: "gaps_ok gaps n" and ok: "plan_ok gaps n st" and e: "e \<le> n" and len: "length vs = length (window_slots gaps s e)"
    and fit: "fits s e (fst st) vs" and st': "st' = write_slots (zip (window_slots gaps s e) vs) st"
    and xy: "slot_in gaps n x" "slot_in gaps n y" "slot_less gaps x y" "slot_val st' x = Some a" "slot_val st' y = Some b"
  shows "a < b"
proof -
  note n = plan_okD(1)[OF ok]
  note out = window_val(1)[OF g ok e len, folded st'] and inw = window_val(2)[OF g ok e len, folded st']
  consider (inin) "in_window gaps s e x" "in_window gaps s e y" | (inout) "in_window gaps s e x" "\<not> in_window gaps s e y"
    | (outin) "\<not> in_window gaps s e x" "in_window gaps s e y" | (outout) "\<not> in_window gaps s e x" "\<not> in_window gaps s e y" by blast
  then show ?thesis
  proof cases
    case inin
    obtain j k where jk: "j < length vs" "window_slots gaps s e ! j = x" "a = vs ! j" "k < length vs" "window_slots gaps s e ! k = y" "b = vs ! k"
      using inw[OF xy(1) inin(1)] inw[OF xy(2) inin(2)] xy(4,5) by auto
    have "\<not> k \<le> j"
    proof
      assume "k \<le> j"
      then consider "k = j" | "k < j" by linarith
      then show False using jk len xy(3) slot_less_asym[OF xy(3)] g window_slots_sorted[of gaps s e]
        by cases (auto simp: gaps_ok_def sorted_wrt_iff_nth_less)
    qed
    with jk fit show ?thesis by (auto simp: fits_def sorted_wrt_iff_nth_less)
  next
    case inout
    from inw[OF xy(1) inout(1)] xy(4) have "a \<in> set vs" by auto
    moreover from after_window[OF g inout xy(2,3)] have "e < n" "y = Inr e \<or> slot_less gaps (Inr e) y" by auto
    moreover have "slot_val st y = Some b" using out[OF xy(2) inout(2)] xy(5) by simp
    ultimately show ?thesis using fit n plan_okD(3)[OF ok, of "Inr e" y "fst st ! e" b] xy(2) by (auto simp: fits_def)
  next
    case outin
    from inw[OF xy(2) outin(2)] xy(5) have "b \<in> set vs" by auto
    moreover from before_window[OF g outin(2,1) xy(1,3)] have "0 < s" "x = Inr (s - 1) \<or> slot_less gaps x (Inr (s - 1))" by auto
    moreover have "s \<le> e" using outin(2) by (cases y) auto
    moreover have "slot_val st x = Some a" using out[OF xy(1) outin(1)] xy(4) by simp
    ultimately have "s - 1 < n" "a \<le> lower_of s (fst st)" using e plan_okD(3)[OF ok, of x "Inr (s - 1)" a "fst st ! (s - 1)"] xy(1)
      by (auto simp: lower_of_def less_eq_Suc_le intro: less_imp_le)
    with \<open>b \<in> set vs\<close> fit show ?thesis by (fastforce simp: fits_def)
  next
    case outout
    then show ?thesis using out xy plan_okD(3)[OF ok] by metis
  qed
qed

lemma lower_of_nonneg: "plan_ok gaps n st \<Longrightarrow> s \<le> n \<Longrightarrow> 0 \<le> lower_of s (fst st)"
  using plan_okD(4)[of gaps n st "Inr (s - 1)"] by (force simp: lower_of_def)

lemma write_window_ok:
  assumes g: "gaps_ok gaps n" and ok: "plan_ok gaps n st" and se: "s \<le> e" "e \<le> n"
    and len: "length vs = length (window_slots gaps s e)" and fit: "fits s e (fst st) vs"
  shows "plan_ok gaps n (write_slots (zip (window_slots gaps s e) vs) st)" (is "plan_ok gaps n ?st")
  unfolding plan_ok_def
proof (intro conjI allI impI)
  show "length (fst ?st) = n" "length (snd ?st) = length gaps" using plan_okD(1,2)[OF ok] by simp_all
next
  fix x y a b
  assume "slot_in gaps n x" "slot_in gaps n y" "slot_less gaps x y" "slot_val ?st x = Some a" "slot_val ?st y = Some b"
  then show "a < b" by (rule fits_order[OF g ok se(2) len fit refl])
next
  fix x a
  assume x: "slot_in gaps n x" "slot_val ?st x = Some a"
  have "0 < a \<and> a \<le> MAX_ORDINAL"
  proof (cases "in_window gaps s e x")
    case True
    from window_val(2)[OF g ok se(2) len x(1) True] x(2) have "a \<in> set vs" by auto
    with fit lower_of_nonneg[OF ok, of s] se show ?thesis by (fastforce simp: fits_def)
  qed (use x window_val(1)[OF g ok se(2) len x(1)] plan_okD(4)[OF ok x(1)] in auto)
  then show "0 < a" "a \<le> MAX_ORDINAL" by auto
qed

section \<open>The labels fit\<close>

lemma sorted_wrt_map_upt:
  "(\<And>j k :: nat. 1 \<le> j \<Longrightarrow> j < k \<Longrightarrow> k \<le> m \<Longrightarrow> f j < f k) \<Longrightarrow> sorted_wrt (<) (map f [1..<Suc m])"
  by (auto simp: sorted_wrt_iff_nth_less simp del: upt_Suc)

lemma div_strict_mono:
  assumes "(0::int) < c" "x + c \<le> y"
  shows "x div c < y div c"
proof -
  have "x div c + 1 = (x + c) div c" using assms(1) by simp
  also have "\<dots> \<le> y div c" using assms by (intro zdiv_mono1)
  finally show ?thesis by simp
qed

lemma arith_fits:
  assumes "0 < step" "int m * step \<le> MAX_ORDINAL - lower_of s positions"
    and "e < length positions \<Longrightarrow> lower_of s positions + step * int m < positions ! e"
  shows "fits s e positions (map (\<lambda>j. lower_of s positions + step * int j) [1..<Suc m])"
  unfolding fits_def
proof (intro conjI ballI impI)
  show "sorted_wrt (<) (map (\<lambda>j. lower_of s positions + step * int j) [1..<Suc m])"
    using assms(1) by (intro sorted_wrt_map_upt) simp
next
  fix v
  assume "v \<in> set (map (\<lambda>j. lower_of s positions + step * int j) [1..<Suc m])"
  then obtain j where j: "1 \<le> j" "j \<le> m" "v = lower_of s positions + step * int j" by (auto simp del: upt_Suc)
  have le: "step * int j \<le> step * int m" using j assms(1) by simp
  show "lower_of s positions < v" using j assms(1) by simp
  show "v \<le> MAX_ORDINAL" using j(3) le assms(2) by (simp add: mult.commute)
  show "v < positions ! e" if "e < length positions" using j(3) le assms(3)[OF that] by simp
qed

lemma gap_fits:
  assumes ok: "plan_ok gaps n st" and g: "g \<le> n"
    and step: "gap_step g (fst st) k > 0" "lower_of g (fst st) + gap_step g (fst st) k * int k \<le> MAX_ORDINAL"
  shows "fits g g (fst st) (map (gap_label g (fst st) k) [1..<Suc k])"
proof (cases "upper_of g (fst st)")
  case None
  have "gap_label g (fst st) k = (\<lambda>j. lower_of g (fst st) + gap_step g (fst st) k * int j)"
    by (simp add: gap_label_def fun_eq_iff None)
  then show ?thesis using step None by (simp only:) (rule arith_fits, auto simp: upper_of_def algebra_simps split: if_splits)
next
  case (Some u)
  define l where "l = lower_of g (fst st)"
  define d where "d = u - l"
  have gn: "g < n" "u = fst st ! g" using Some plan_okD(1)[OF ok] by (auto simp: upper_of_def split: if_splits)
  have u: "u \<le> MAX_ORDINAL" using plan_okD(4)[OF ok, of "Inr g"] gn by simp
  have label: "gap_label g (fst st) k = (\<lambda>j. l + d * int j div (int k + 1))"
    by (simp add: gap_label_def fun_eq_iff Some l_def d_def)
  have "0 < d div (int k + 1)" using step(1) Some by (simp add: gap_step_def l_def d_def)
  then have d: "int k + 1 \<le> d" by (simp add: pos_imp_zdiv_pos_iff)
  have mono: "d * int i div (int k + 1) < d * int j div (int k + 1)" if "i < j" for i j
  proof (rule div_strict_mono)
    have "d * 1 \<le> d * (int j - int i)" using that d by (intro mult_left_mono) auto
    then show "d * int i + (int k + 1) \<le> d * int j" using d by (simp add: algebra_simps)
  qed simp
  have top: "d * int j div (int k + 1) < d" if "j \<le> k" for j
    using mono[of j "Suc k"] that by (simp add: add.commute)
  have bot: "0 < d * int j div (int k + 1)" if "1 \<le> j" for j using mono[of 0 j] that by simp
  have inside: "l < l + d * int j div (int k + 1) \<and> l + d * int j div (int k + 1) < u" if "1 \<le> j" "j \<le> k" for j
    using top[OF that(2)] bot[OF that(1)] by (simp add: d_def)
  show ?thesis unfolding fits_def label l_def[symmetric]
  proof (intro conjI sorted_wrt_map_upt ballI)
    fix v
    assume "v \<in> set (map (\<lambda>j. l + d * int j div (int k + 1)) [1..<Suc k])"
    then obtain j where "1 \<le> j" "j \<le> k" "v = l + d * int j div (int k + 1)" by (auto simp del: upt_Suc)
    with inside[of j] show "l < v" "v \<le> MAX_ORDINAL" "g < length (fst st) \<longrightarrow> v < fst st ! g" using u gn by auto
  qed (simp add: mono)
qed

lemma windows_range:
  "w \<in> set (windows g n) \<Longrightarrow> fst w \<le> g \<and> g \<le> snd w \<and> snd w \<le> n"
  by (auto simp: windows_def less_Suc_eq_le)

lemma whole_window: "g \<le> n \<Longrightarrow> (0, n) \<in> set (windows g n)"
  by (auto simp: windows_def intro!: bexI[of _ n])

lemma window_step_eq:
  assumes "s \<le> e"
  shows "window_step gaps positions (s, e) =
    (if e < length positions then (positions ! e - lower_of s positions) div (int (length (window_slots gaps s e)) + 1)
     else min ORDINAL_STEP ((MAX_ORDINAL - lower_of s positions) div int (length (window_slots gaps s e))))"
  using window_slots_length[OF assms, of gaps] by (simp add: window_step_def Let_def del: upt_Suc)

lemma times_div_le: "0 < (c::int) \<Longrightarrow> x div c = q \<Longrightarrow> q * c \<le> x"
  by (metis div_mult_mod_eq le_add_same_cancel1 pos_mod_sign)

lemma window_fits:
  assumes ok: "plan_ok gaps n st" and se: "s \<le> e" "e \<le> n" and step: "MIN_GAP \<le> window_step gaps (fst st) (s, e)"
  shows "fits s e (fst st) (map (\<lambda>j. lower_of s (fst st) + window_step gaps (fst st) (s, e) * int j) [1..<Suc (length (window_slots gaps s e))])"
proof -
  define c where "c = int (length (window_slots gaps s e))"
  define t where "t = window_step gaps (fst st) (s, e)"
  have n: "length (fst st) = n" by (rule plan_okD(1)[OF ok])
  have t: "0 < t" using step by (simp add: t_def MIN_GAP_def)
  have c0: "0 \<le> c" by (simp add: c_def)
  show ?thesis unfolding t_def[symmetric]
  proof (rule arith_fits[OF t])
    show "int (length (window_slots gaps s e)) * t \<le> MAX_ORDINAL - lower_of s (fst st)"
    proof (cases "e < n")
      case True
      then have "t * (c + 1) \<le> fst st ! e - lower_of s (fst st)"
        using c0 by (intro times_div_le) (auto simp: t_def c_def window_step_eq[OF se(1)] n)
      moreover have "fst st ! e \<le> MAX_ORDINAL" using plan_okD(4)[OF ok, of "Inr e"] True by simp
      ultimately show ?thesis using t by (simp add: c_def algebra_simps)
    next
      case False
      then have le: "t \<le> (MAX_ORDINAL - lower_of s (fst st)) div c" by (simp add: t_def c_def window_step_eq[OF se(1)] n)
      then have "c \<noteq> 0" using t by auto
      then have "(MAX_ORDINAL - lower_of s (fst st)) div c * c \<le> MAX_ORDINAL - lower_of s (fst st)"
        using c0 by (intro times_div_le) auto
      moreover have "t * c \<le> (MAX_ORDINAL - lower_of s (fst st)) div c * c" using le c0 by (intro mult_right_mono)
      ultimately show ?thesis by (simp add: c_def mult.commute)
    qed
    assume "e < length (fst st)"
    then have "t * (c + 1) \<le> fst st ! e - lower_of s (fst st)"
      using c0 by (intro times_div_le) (auto simp: t_def c_def window_step_eq[OF se(1)])
    then show "lower_of s (fst st) + t * int (length (window_slots gaps s e)) < fst st ! e"
      using t by (simp add: c_def algebra_simps)
  qed
qed

section \<open>Every gap gets its labels\<close>

definition whole_groups :: "nat list \<Rightarrow> plan_state \<Rightarrow> bool" where
  "whole_groups gaps st \<longleftrightarrow> (\<forall>i < length gaps. \<forall>j < length gaps. gaps ! i = gaps ! j \<longrightarrow> (snd st ! i = None) = (snd st ! j = None))"

definition advances :: "nat list \<Rightarrow> nat \<Rightarrow> nat set \<Rightarrow> plan_state \<Rightarrow> plan_state \<Rightarrow> bool" where
  "advances gaps n G st st' \<longleftrightarrow> plan_ok gaps n st' \<and> whole_groups gaps st'
     \<and> (\<forall>i < length gaps. snd st ! i \<noteq> None \<or> gaps ! i \<in> G \<longrightarrow> snd st' ! i \<noteq> None)"

lemma window_advances:
  assumes g: "gaps_ok gaps n" and ok: "plan_ok gaps n st" and whole: "whole_groups gaps st" and se: "s \<le> e" "e \<le> n"
    and len: "length vs = length (window_slots gaps s e)" and fit: "fits s e (fst st) vs"
  shows "advances gaps n {s..e} st (write_slots (zip (window_slots gaps s e) vs) st)"
proof -
  let ?st = "write_slots (zip (window_slots gaps s e) vs) st"
  have none: "snd ?st ! i = None \<longleftrightarrow> snd st ! i = None \<and> gaps ! i \<notin> {s..e}" if "i < length gaps" for i
  proof (cases "gaps ! i \<in> {s..e}")
    case True
    then show ?thesis using window_val(2)[OF g ok se(2) len, of "Inl i"] that by auto
  next
    case False
    then show ?thesis using window_val(1)[OF g ok se(2) len, of "Inl i"] that by auto
  qed
  have "whole_groups gaps ?st" unfolding whole_groups_def
  proof (intro allI impI)
    fix i j
    assume ij: "i < length gaps" "j < length gaps" "gaps ! i = gaps ! j"
    then have "(snd st ! i = None) = (snd st ! j = None)" using whole unfolding whole_groups_def by blast
    with ij show "(snd ?st ! i = None) = (snd ?st ! j = None)" by (simp add: none[OF ij(1)] none[OF ij(2)])
  qed
  moreover have "\<forall>i < length gaps. snd st ! i \<noteq> None \<or> gaps ! i \<in> {s..e} \<longrightarrow> snd ?st ! i \<noteq> None"
  proof (intro allI impI)
    fix i
    assume "i < length gaps" "snd st ! i \<noteq> None \<or> gaps ! i \<in> {s..e}"
    then show "snd ?st ! i \<noteq> None" using none[of i] by argo
  qed
  ultimately show ?thesis using write_window_ok[OF g ok se len fit] unfolding advances_def by (intro conjI)
qed

lemma place_gap_advances:
  assumes g: "gaps_ok gaps n" and ok: "plan_ok gaps n st" and whole: "whole_groups gaps st" and mem: "h \<in> set gaps"
    and place: "place_gap gaps h st = Inr st'"
  shows "advances gaps n {h} st st'"
proof -
  let ?k = "length (group gaps h)"
  have n: "length (fst st) = n" by (rule plan_okD(1)[OF ok])
  have hn: "h \<le> n" using g mem by (auto simp: gaps_ok_def in_set_conv_nth)
  have "group gaps h \<noteq> []" using mem by (auto simp: in_set_conv_nth simp flip: set_empty)
  then have hd: "hd (group gaps h) < length gaps" "gaps ! hd (group gaps h) = h" using hd_in_set[of "group gaps h"] by auto
  have slots: "window_slots gaps h h = map Inl (group gaps h)" by (simp add: window_slots_def)
  consider (had) "snd st ! hd (group gaps h) \<noteq> None" "st' = st"
    | (simple) "gap_step h (fst st) ?k > 0" "lower_of h (fst st) + gap_step h (fst st) ?k * int ?k \<le> MAX_ORDINAL"
        "st' = write_slots (zip (window_slots gaps h h) (map (gap_label h (fst st) ?k) [1..<Suc ?k])) st"
    | (window) "respace_around gaps h st = Inr st'"
    using place unfolding place_gap_def Let_def slots by (metis Inr_inject)
  then show ?thesis
  proof cases
    case had
    then show ?thesis using ok whole hd unfolding advances_def whole_groups_def by (metis singletonD)
  next
    case simple
    show ?thesis unfolding simple(3)
      using window_advances[OF g ok whole _ hn _ gap_fits[OF ok hn simple(1,2)]] by (simp add: slots del: upt_Suc)
  next
    case window
    then obtain s e where find: "find (\<lambda>w. MIN_GAP \<le> window_step gaps (fst st) w) (windows h n) = Some (s, e)"
      and st': "st' = spread (window_step gaps (fst st) (s, e)) (lower_of s (fst st)) (window_slots gaps s e) st"
      by (auto simp: respace_around_def n split: option.splits)
    from find have w: "(s, e) \<in> set (windows h n)" "MIN_GAP \<le> window_step gaps (fst st) (s, e)"
      by (auto simp: find_Some_iff in_set_conv_nth)
    have se: "s \<le> h" "h \<le> e" "e \<le> n" using windows_range[OF w(1)] by auto
    have "advances gaps n {s..e} st st'" unfolding st' spread_write_slots
      using se by (intro window_advances[OF g ok whole _ _ _ window_fits[OF ok _ _ w(2)]]) (auto simp del: upt_Suc)
    with se show ?thesis by (auto simp: advances_def)
  qed
qed

lemma place_gaps_advances:
  "gaps_ok gaps n \<Longrightarrow> plan_ok gaps n st \<Longrightarrow> whole_groups gaps st \<Longrightarrow> set gs \<subseteq> set gaps \<Longrightarrow>
   place_gaps gaps gs st = Inr st' \<Longrightarrow> advances gaps n (set gs) st st'"
proof (induction gs arbitrary: st)
  case Nil
  then show ?case by (simp add: advances_def)
next
  case (Cons h gs)
  obtain st1 where st1: "place_gap gaps h st = Inr st1" "place_gaps gaps gs st1 = Inr st'"
    using Cons.prems(5) by (auto split: sum.splits)
  have a: "advances gaps n {h} st st1" using Cons.prems st1(1) by (intro place_gap_advances) auto
  then have "advances gaps n (set gs) st1 st'" using Cons.prems st1(2) by (intro Cons.IH) (auto simp: advances_def)
  with a show ?case by (auto simp: advances_def)
qed

section \<open>Where the placements go\<close>

lemma bisect_left_less:
  "sorted_wrt (<) xs \<Longrightarrow> g < bisect_left xs x \<longleftrightarrow> g < length xs \<and> xs ! g < x"
proof (induction xs arbitrary: g)
  case (Cons y xs)
  show ?case
  proof (cases "y < x")
    case True
    then show ?thesis using Cons by (cases g) (auto simp: bisect_left_def)
  next
    case False
    then have "\<not> (y # xs) ! g < x" if "g < length (y # xs)"
      using Cons.prems that by (cases g) (fastforce dest: nth_mem)+
    with False show ?thesis by (auto simp: bisect_left_def)
  qed
qed (simp add: bisect_left_def)

lemma bisect_left_le: "bisect_left xs x \<le> length xs"
  by (simp add: bisect_left_def length_takeWhile_le)

lemma bisect_left_nth:
  assumes "sorted_wrt (<) xs" "k < length xs"
  shows "bisect_left xs (xs ! k) = k"
proof -
  have "g < bisect_left xs (xs ! k) \<longleftrightarrow> g < k" for g
    using assms bisect_left_less[OF assms(1)] by (metis linorder_neqE_nat order.asym order.strict_trans sorted_wrt_nth_less)
  then show ?thesis by (metis linorder_neqE_nat order.irrefl)
qed

definition gap_respects :: "int list \<Rightarrow> Placement \<Rightarrow> nat \<Rightarrow> bool" where
  "gap_respects original p gap \<longleftrightarrow> gap \<le> length original \<and> (\<forall>g < length original.
     (original ! g \<le> left_bound p \<or> superseded_within p = Some (original ! g) \<longrightarrow> g < gap)
     \<and> (right_bound p \<le> original ! g \<longrightarrow> gap \<le> g))"

lemma natural_gap_respects:
  assumes sorted: "sorted_wrt (<) original" and range: "\<forall>v \<in> set original. v \<le> MAX_ORDINAL"
    and known: "known_bounds original p" and lr: "left_bound p < right_bound p" and gap: "natural_gap original p = Inr gap"
  shows "gap_respects original p gap"
proof (cases "superseded_within p")
  case (Some s)
  then have s: "left_bound p \<le> s" "s < right_bound p" "s \<in> set original"
    using known by (auto simp: superseded_within_def known_bounds_def split: option.splits if_splits)
  from s(3) obtain k where k: "k < length original" "original ! k = s" by (auto simp: in_set_conv_nth)
  have gk: "gap = Suc k" using gap Some k bisect_left_nth[OF sorted k(1)] by (simp add: natural_gap_def)
  have order: "g \<le> k \<longleftrightarrow> original ! g \<le> s" if "g < length original" for g
    using sorted that k sorted_wrt_nth_less[OF sorted] by (metis leD leI le_less)
  show ?thesis unfolding gap_respects_def gk
    using k s order Some by (fastforce simp: less_Suc_eq_le Suc_le_eq not_le[symmetric])
next
  case None
  show ?thesis
  proof (cases "pl_right p")
    case right: None
    then have "gap = length original" using gap None by (simp add: natural_gap_def split: option.splits)
    moreover have "\<not> MAX_ORDINAL + 1 \<le> original ! g" if "g < length original" for g using range nth_mem[OF that] by fastforce
    ultimately show ?thesis using right by (auto simp: gap_respects_def right_bound_def)
  next
    case (Some r)
    then have "gap = bisect_left original r" using gap None by (simp add: natural_gap_def split: option.splits if_splits)
    then show ?thesis using None Some lr bisect_left_less[OF sorted] bisect_left_le
      by (auto simp: gap_respects_def right_bound_def not_less[symmetric])
  qed
qed

lemma plan_gaps_respects:
  assumes "sorted_wrt (<) original" "\<forall>v \<in> set original. v \<le> MAX_ORDINAL"
    and "pg \<le> length original" "\<forall>g < length original. pr \<le> original ! g \<longrightarrow> pg \<le> g"
    and "plan_gaps original pl pr pg ps = Inr gaps"
  shows "list_all2 (\<lambda>p gap. known_bounds original p \<and> gap_respects original p gap) ps gaps"
  using assms(3-)
proof (induction ps arbitrary: pl pr pg gaps)
  case (Cons p ps)
  obtain gap gs where step: "known_bounds original p" "left_bound p < right_bound p" "pr \<le> right_bound p"
    and gap: "natural_gap original p = Inr gap"
    and rest: "plan_gaps original (left_bound p) (right_bound p) (max gap pg) ps = Inr gs" "gaps = max gap pg # gs"
    using Cons.prems(3) by (auto split: if_splits sum.splits)
  note nat = natural_gap_respects[OF assms(1,2) step(1,2) gap]
  have pg: "pg \<le> g" if "g < length original" "right_bound p \<le> original ! g" for g
    using Cons.prems(2) that step(3) by force
  have max: "gap_respects original p (max gap pg)"
    using nat pg Cons.prems(1) unfolding gap_respects_def by (meson less_max_iff_disj max.boundedI)
  then have "list_all2 (\<lambda>p gap. known_bounds original p \<and> gap_respects original p gap) ps gs"
    using rest(1) by (intro Cons.IH) (auto simp: gap_respects_def)
  with max step(1) rest(2) show ?case by simp
qed simp

section \<open>A plan keeps the order\<close>

text \<open>The label an existing ordinal has after the re-spacing.\<close>

definition relabel :: "(int \<times> int) list \<Rightarrow> int \<Rightarrow> int" where
  "relabel respace v = (case map_of respace v of None \<Rightarrow> v | Some w \<Rightarrow> w)"

text \<open>A label lies between the bounds of its placement and after the occurrence it supersedes.\<close>

definition placement_respected :: "(int \<times> int) list \<Rightarrow> Placement \<Rightarrow> int \<Rightarrow> bool" where
  "placement_respected respace p v \<longleftrightarrow> (\<forall>l \<in> set_option (pl_left p). relabel respace l < v)
     \<and> (\<forall>r \<in> set_option (pl_right p). v < relabel respace r)
     \<and> (\<forall>s \<in> set_option (superseded_within p). relabel respace s < v)"

lemma relabel_nth:
  assumes "distinct original" "length positions = length original" "g < length original"
  shows "relabel (filter (\<lambda>(old, new). old \<noteq> new) (zip original positions)) (original ! g) = positions ! g"
  using assms
proof (induction original positions arbitrary: g rule: list_induct2')
  case (4 x xs y ys)
  have "map_of (filter (\<lambda>(old, new). old \<noteq> new) (zip xs ys)) x = None"
    using 4(2) by (auto simp: map_of_eq_None_iff dest: set_zip_leftD)
  then show ?case using 4 by (cases g) (auto simp: relabel_def)
qed auto

lemma initial_plan_ok:
  "sorted_wrt (<) original \<Longrightarrow> \<forall>v \<in> set original. 0 < v \<and> v \<le> MAX_ORDINAL \<Longrightarrow>
   plan_ok gaps (length original) (original, replicate (length gaps) None)"
proof -
  assume *: "sorted_wrt (<) original" "\<forall>v \<in> set original. 0 < v \<and> v \<le> MAX_ORDINAL"
  have val: "slot_val (original, replicate (length gaps) None) x = Some a \<Longrightarrow> slot_in gaps (length original) x \<Longrightarrow>
      \<exists>g < length original. x = Inr g \<and> a = original ! g" for x a by (cases x) auto
  show ?thesis unfolding plan_ok_def
  proof (intro conjI allI impI)
    fix x y a b
    assume "slot_in gaps (length original) x" "slot_in gaps (length original) y" "slot_less gaps x y"
      "slot_val (original, replicate (length gaps) None) x = Some a" "slot_val (original, replicate (length gaps) None) y = Some b"
    then show "a < b" using val[of x a] val[of y b] *(1) by (auto simp: sorted_wrt_nth_less)
  next
    fix x a
    assume "slot_in gaps (length original) x" "slot_val (original, replicate (length gaps) None) x = Some a"
    with val[of x a] have "a \<in> set original" by auto
    with *(2) show "0 < a" "a \<le> MAX_ORDINAL" by auto
  qed auto
qed

lemma sorted_remdups_strict: "sorted_wrt (<) (sort (remdups (xs :: int list)))"
  by (simp add: strict_sorted_iff)

text \<open>What a finished plan is: an ordered state in which every placement has a label.\<close>

lemma plan_ordinals_state:
  assumes "plan_ordinals existing placements = Inr (new, respace)"
  obtains gaps positions result where "gaps_ok gaps (length (remdups existing))"
    and "list_all2 (\<lambda>p gap. known_bounds (sort (remdups existing)) p \<and> gap_respects (sort (remdups existing)) p gap) placements gaps"
    and "plan_ok gaps (length (remdups existing)) (positions, result)" "\<forall>i < length gaps. result ! i \<noteq> None"
    and "new = map the result" "respace = filter (\<lambda>(old, new). old \<noteq> new) (zip (sort (remdups existing)) positions)"
proof -
  let ?o = "sort (remdups existing)"
  obtain gaps positions result where range: "\<forall>v \<in> set ?o. 0 < v \<and> v \<le> MAX_ORDINAL" and gaps: "plan_gaps ?o 0 0 0 placements = Inr gaps"
    and place: "place_gaps gaps (sort (remdups gaps)) (?o, replicate (length gaps) None) = Inr (positions, result)"
    and new: "new = map the result" "respace = filter (\<lambda>(old, new). old \<noteq> new) (zip ?o positions)"
    using assms by (auto simp: plan_ordinals_def Let_def split: if_splits sum.splits)
  have resp: "list_all2 (\<lambda>p gap. known_bounds ?o p \<and> gap_respects ?o p gap) placements gaps"
    using range gaps sorted_remdups_strict by (intro plan_gaps_respects[where pl = 0 and pr = 0 and pg = 0]) auto
  then have ok: "gaps_ok gaps (length ?o)" using plan_gaps_sorted[OF gaps]
    by (auto simp: gaps_ok_def gap_respects_def list_all2_conv_all_nth)
  have "advances gaps (length ?o) (set (sort (remdups gaps))) (?o, replicate (length gaps) None) (positions, result)"
    using place ok initial_plan_ok[OF sorted_remdups_strict range] by (intro place_gaps_advances) (auto simp: whole_groups_def)
  then show thesis using that[of gaps positions result] ok resp new by (simp add: advances_def)
qed

definition ranks :: "int list \<Rightarrow> (int \<times> int) list \<Rightarrow> nat list \<Rightarrow> int list \<Rightarrow> int list \<Rightarrow> bool" where
  "ranks original respace gaps positions new \<longleftrightarrow>
     (\<forall>h < length original. relabel respace (original ! h) = positions ! h \<and> 0 < positions ! h \<and> positions ! h \<le> MAX_ORDINAL)
   \<and> (\<forall>i < length new. 0 < new ! i \<and> new ! i \<le> MAX_ORDINAL)
   \<and> (\<forall>h k. h < k \<longrightarrow> k < length original \<longrightarrow> positions ! h < positions ! k)
   \<and> (\<forall>i j. i < j \<longrightarrow> j < length new \<longrightarrow> new ! i < new ! j)
   \<and> (\<forall>h i. h < length original \<longrightarrow> i < length new \<longrightarrow> (if h < gaps ! i then positions ! h < new ! i else new ! i < positions ! h))"

lemma plan_ordinals_ranks:
  assumes "plan_ordinals existing placements = Inr (new, respace)"
  obtains gaps positions where "length gaps = length placements" "length new = length placements"
    and "list_all2 (\<lambda>p gap. known_bounds (sort (remdups existing)) p \<and> gap_respects (sort (remdups existing)) p gap) placements gaps"
    and "ranks (sort (remdups existing)) respace gaps positions new"
proof -
  let ?o = "sort (remdups existing)" and ?n = "length (remdups existing)"
  obtain gaps positions result where g: "gaps_ok gaps ?n" and resp: "list_all2 (\<lambda>p gap. known_bounds ?o p \<and> gap_respects ?o p gap) placements gaps"
    and ok: "plan_ok gaps ?n (positions, result)" and some: "\<forall>i < length gaps. result ! i \<noteq> None"
    and new: "new = map the result" and respace: "respace = filter (\<lambda>(old, new). old \<noteq> new) (zip ?o positions)"
    using plan_ordinals_state[OF assms] .
  have len: "length positions = ?n" "length result = length gaps" "length gaps = length placements" "length new = length gaps"
    using plan_okD(1,2)[OF ok] list_all2_lengthD[OF resp] new by auto
  have val: "result ! i = Some (new ! i)" if "i < length gaps" for i using that some len new by simp
  note order = plan_okD(3)[OF ok] and range = plan_okD(4)[OF ok]
  have "ranks ?o respace gaps positions new" unfolding ranks_def
  proof (intro conjI allI impI)
    fix h assume h: "h < length ?o"
    show "relabel respace (?o ! h) = positions ! h" unfolding respace using h len by (intro relabel_nth) auto
    show "0 < positions ! h" "positions ! h \<le> MAX_ORDINAL" using range[of "Inr h"] h by auto
    fix i assume i: "i < length new"
    show "if h < gaps ! i then positions ! h < new ! i else new ! i < positions ! h"
      using order[of "Inr h" "Inl i" "positions ! h" "new ! i"] order[of "Inl i" "Inr h" "new ! i" "positions ! h"] val[of i] h i len
      by (simp add: not_less)
  next
    fix h k assume "h < k" "k < length ?o"
    then show "positions ! h < positions ! k" using order[of "Inr h" "Inr k"] by auto
  next
    fix i assume "i < length new"
    then show "0 < new ! i" "new ! i \<le> MAX_ORDINAL" using range[of "Inl i"] val[of i] len by auto
  next
    fix i j assume "i < j" "j < length new"
    then show "new ! i < new ! j" using order[of "Inl i" "Inl j"] val[of i] val[of j] len by auto
  qed
  then show thesis using that len resp by simp
qed

lemma ranks_respected:
  assumes "ranks original respace gaps positions new" "i < length new" "sorted_wrt (<) original"
    and "known_bounds original p" "gap_respects original p (gaps ! i)"
  shows "placement_respected respace p (new ! i)"
proof -
  have at: "\<exists>h < length original. v = original ! h \<and> relabel respace v = positions ! h
      \<and> (if h < gaps ! i then positions ! h < new ! i else new ! i < positions ! h)" if "v \<in> set original" for v
    using that assms(1,2) unfolding ranks_def by (auto simp: in_set_conv_nth)
  have below: "relabel respace v < new ! i" if "v \<in> set original" "v \<le> left_bound p \<or> superseded_within p = Some v" for v
    using at[OF that(1)] that(2) assms(5) unfolding gap_respects_def by metis
  have above: "new ! i < relabel respace v" if "v \<in> set original" "right_bound p \<le> v" for v
    using at[OF that(1)] that(2) assms(5) unfolding gap_respects_def by (metis not_less)
  show ?thesis unfolding placement_respected_def using assms(4) below above
    by (auto simp: known_bounds_def left_bound_def right_bound_def superseded_within_def split: if_splits option.splits)
qed

lemma plan_ordinals_order:
  assumes "plan_ordinals existing placements = Inr (new, respace)"
  shows "length new = length placements \<and> sorted_wrt (<) new
    \<and> strict_mono_on (set existing) (relabel respace)
    \<and> set new \<inter> relabel respace ` set existing = {}
    \<and> (\<forall>v \<in> set new \<union> relabel respace ` set existing. 0 < v \<and> v \<le> MAX_ORDINAL)
    \<and> list_all2 (placement_respected respace) placements new"
proof -
  let ?o = "sort (remdups existing)"
  obtain gaps positions where len: "length gaps = length placements" "length new = length placements"
    and resp: "list_all2 (\<lambda>p gap. known_bounds ?o p \<and> gap_respects ?o p gap) placements gaps"
    and ranks: "ranks ?o respace gaps positions new"
    using plan_ordinals_ranks[OF assms] .
  note r = ranks[unfolded ranks_def]
  have mem: "\<exists>h < length ?o. x = ?o ! h \<and> relabel respace x = positions ! h" if "x \<in> set existing" for x
  proof -
    from that have "x \<in> set ?o" by simp
    then obtain h where "h < length ?o" "x = ?o ! h" by (metis in_set_conv_nth)
    then show ?thesis using r by blast
  qed
  have less: "h < k" if "?o ! h < ?o ! k" "h < length ?o" "k < length ?o" for h k
    using that sorted_wrt_nth_less[OF sorted_remdups_strict] by (metis linorder_neqE_nat order.asym)
  have "sorted_wrt (<) new" using r by (simp add: sorted_wrt_iff_nth_less)
  moreover have "strict_mono_on (set existing) (relabel respace)"
  proof (rule strict_mono_onI)
    fix x y assume "x \<in> set existing" "y \<in> set existing" "x < y"
    then show "relabel respace x < relabel respace y" using mem[of x] mem[of y] less r by auto
  qed
  moreover have "set new \<inter> relabel respace ` set existing = {}"
  proof -
    have "new ! i \<noteq> relabel respace x" if "i < length new" "x \<in> set existing" for i x
      using mem[OF that(2)] r that(1) by (metis order.irrefl)
    then have "v \<noteq> relabel respace x" if "v \<in> set new" "x \<in> set existing" for v x
      using that unfolding in_set_conv_nth[of v new] by blast
    then show ?thesis by blast
  qed
  moreover have "\<forall>v \<in> set new \<union> relabel respace ` set existing. 0 < v \<and> v \<le> MAX_ORDINAL"
  proof
    fix v assume "v \<in> set new \<union> relabel respace ` set existing"
    then consider i where "i < length new" "v = new ! i" | x where "x \<in> set existing" "v = relabel respace x" by (auto simp: in_set_conv_nth)
    then show "0 < v \<and> v \<le> MAX_ORDINAL" by cases (use mem r in \<open>force+\<close>)
  qed
  moreover have "list_all2 (placement_respected respace) placements new"
    using resp len ranks_respected[OF ranks _ sorted_remdups_strict] by (auto simp: list_all2_conv_all_nth)
  ultimately show ?thesis using len by simp
qed

lemmas plan_ordinals_facts =
  plan_ordinals_order[THEN conjunct1] plan_ordinals_order[THEN conjunct2, THEN conjunct1]
  plan_ordinals_order[THEN conjunct2, THEN conjunct2, THEN conjunct1]
  plan_ordinals_order[THEN conjunct2, THEN conjunct2, THEN conjunct2, THEN conjunct1]
  plan_ordinals_order[THEN conjunct2, THEN conjunct2, THEN conjunct2, THEN conjunct2, THEN conjunct1]
  plan_ordinals_order[THEN conjunct2, THEN conjunct2, THEN conjunct2, THEN conjunct2, THEN conjunct2]

text \<open>
  A plan never disturbs the order of a lineage: the new labels are one per placement, strictly increasing in
  view order and different from every existing label; re-spacing is strictly monotone on the existing ordinals;
  all labels stay positive signed 64-bit integers; and each new label lies strictly between the re-spaced bounds
  of its placement and after the occurrence it supersedes.
\<close>

theorem plan_ordinals_places:
  assumes "plan_ordinals existing placements = Inr (new, respace)"
  shows "length new = length placements \<and> sorted_wrt (<) new
    \<and> strict_mono_on (set existing) (relabel respace)
    \<and> set new \<inter> relabel respace ` set existing = {}
    \<and> (\<forall>v \<in> set new \<union> relabel respace ` set existing. 0 < v \<and> v \<le> MAX_ORDINAL)
    \<and> list_all2 (placement_respected respace) placements new"
  by (rule plan_ordinals_order[OF assms])

definition tight_placement :: Placement where
  "tight_placement = \<lparr>pl_left = Some 5, pl_right = Some 6, pl_supersedes = None\<rparr>"

lemma tight_plan: "plan_ordinals [5, 6] [tight_placement] = Inr ([1048581], [(6, 2097157)])"
  by (simp add: plan_ordinals_def tight_placement_def MAX_ORDINAL_def MIN_GAP_def ORDINAL_STEP_def known_bounds_def left_bound_def
      right_bound_def natural_gap_def superseded_within_def bisect_left_def group_def place_gap_def gap_step_def upper_of_def
      lower_of_def respace_around_def windows_def window_step_def window_slots_def upt_rec Let_def)

theorem plan_ordinals_places_witness:
  "plan_ordinals [5, 6] [tight_placement] = Inr ([1048581], [(6, 2097157)])
   \<and> strict_mono_on (set [5, 6]) (relabel [(6, 2097157)])
   \<and> list_all2 (placement_respected [(6, 2097157)]) [tight_placement] [1048581]"
  using tight_plan plan_ordinals_places[OF tight_plan] by blast

lemma place_gap_fits:
  assumes "gaps_ok gaps n" "plan_ok gaps n st" "h \<in> set gaps" "n + length gaps < 2 ^ 53"
  shows "place_gap gaps h st \<noteq> Inl Exhausted"
proof -
  have n: "length (fst st) = n" by (rule plan_okD(1)[OF assms(2)])
  have hn: "h \<le> n" using assms(1,3) by (auto simp: gaps_ok_def in_set_conv_nth)
  define c where "c = length (window_slots gaps 0 n)"
  have "card (set (window_slots gaps 0 n)) = c" using assms(1) by (simp add: distinct_card window_slots_distinct gaps_ok_def c_def)
  moreover have "set (window_slots gaps 0 n) \<subseteq> Inl ` {..<length gaps} \<union> Inr ` {..<n}"
  proof
    fix x assume "x \<in> set (window_slots gaps 0 n)"
    then show "x \<in> Inl ` {..<length gaps} \<union> Inr ` {..<n}" unfolding window_slots_set by (cases x) auto
  qed
  ultimately have "c \<le> card (Inl ` {..<length gaps} \<union> Inr ` {..<n} :: slot set)" using card_mono[OF _ \<open>_ \<subseteq> _\<close>] by fastforce
  also have "\<dots> \<le> length gaps + n" by (rule order.trans[OF card_Un_le]) (simp add: card_image)
  finally have le: "int c * 1024 \<le> MAX_ORDINAL" using assms(4) by (simp add: MAX_ORDINAL_def)
  from assms(3) obtain i where "i < length gaps" "gaps ! i = h" by (auto simp: in_set_conv_nth)
  then have "Inl i \<in> set (window_slots gaps 0 n)" unfolding window_slots_set using hn by simp
  then have "0 < c" by (auto simp: c_def)
  then have "1024 \<le> MAX_ORDINAL div int c" using div_mult_mod_eq zdiv_mono1[OF le, of "int c"] by simp
  then have "MIN_GAP \<le> window_step gaps (fst st) (0, n)"
    by (simp add: window_step_eq n c_def[symmetric] lower_of_def MIN_GAP_def ORDINAL_STEP_def)
  then have "find (\<lambda>w. MIN_GAP \<le> window_step gaps (fst st) w) (windows h n) \<noteq> None"
    using whole_window[OF hn] by (auto simp: find_None_iff)
  then show ?thesis by (auto simp: place_gap_def respace_around_def n Let_def split: option.splits)
qed

lemma place_gaps_fits:
  "gaps_ok gaps n \<Longrightarrow> plan_ok gaps n st \<Longrightarrow> whole_groups gaps st \<Longrightarrow> set gs \<subseteq> set gaps \<Longrightarrow> n + length gaps < 2 ^ 53 \<Longrightarrow>
   \<exists>st'. place_gaps gaps gs st = Inr st'"
proof (induction gs arbitrary: st)
  case (Cons h gs)
  have "place_gap gaps h st \<noteq> Inl e" for e
  proof (cases e)
    case Exhausted
    then show ?thesis using Cons.prems place_gap_fits[of gaps n st h] by simp
  qed (auto simp: place_gap_def respace_around_def Let_def split: option.splits)
  then obtain st1 where st1: "place_gap gaps h st = Inr st1" by (cases "place_gap gaps h st") auto
  then have "advances gaps n {h} st st1" using Cons.prems by (intro place_gap_advances) auto
  with Cons st1 show ?case by (auto simp: advances_def)
qed simp

text \<open>
  C8: The label space does not run out in practice: whenever the existing labels and the placements are well
  formed and together fewer than \<open>2^53\<close>, the planner returns a plan, whatever gaps earlier insertions left.
\<close>

theorem plan_ordinals_total:
  assumes "\<forall>v \<in> set existing. 0 < v \<and> v \<le> MAX_ORDINAL"
    and "plan_gaps (sort (remdups existing)) 0 0 0 placements = Inr gaps"
    and "length (remdups existing) + length placements < 2 ^ 53"
  shows "\<exists>new respace. plan_ordinals existing placements = Inr (new, respace)"
proof -
  let ?o = "sort (remdups existing)"
  have range: "\<forall>v \<in> set ?o. 0 < v \<and> v \<le> MAX_ORDINAL" using assms(1) by simp
  then have "list_all2 (\<lambda>p gap. known_bounds ?o p \<and> gap_respects ?o p gap) placements gaps"
    using assms(2) sorted_remdups_strict by (intro plan_gaps_respects[where pl = 0 and pr = 0 and pg = 0]) auto
  then have ok: "gaps_ok gaps (length ?o)" "length gaps = length placements" using plan_gaps_sorted[OF assms(2)]
    by (auto simp: gaps_ok_def gap_respects_def list_all2_conv_all_nth)
  have "\<exists>st'. place_gaps gaps (sort (remdups gaps)) (?o, replicate (length gaps) None) = Inr st'"
    using ok assms(3) initial_plan_ok[OF sorted_remdups_strict range, of gaps]
    by (intro place_gaps_fits[where n = "length ?o"]) (auto simp: whole_groups_def)
  then show ?thesis using range assms(2) by (auto simp: plan_ordinals_def Let_def)
qed

lemma tight_gaps: "plan_gaps (sort (remdups [5, 6])) 0 0 0 [tight_placement] = Inr [1]"
  by (simp add: tight_placement_def known_bounds_def left_bound_def right_bound_def natural_gap_def superseded_within_def bisect_left_def)

theorem plan_ordinals_total_witness: "\<exists>new respace. plan_ordinals [5, 6] [tight_placement] = Inr (new, respace)"
  by (rule plan_ordinals_total[OF _ tight_gaps]) (simp_all add: MAX_ORDINAL_def)

end
