(* ===== verification/Ledger_Store.thy ===== *)
theory Ledger_Store
  imports Ordinals
begin

text \<open>
  The tables of the ingest ledger and the operations on them, \<^verbatim>\<open>src/ingest_ledger.py\<close> (schema in
  \<open>_ensure_ingest_ledger_schema\<close> of \<^verbatim>\<open>src/store.py\<close>): occurrence bindings with their order labels, emissions,
  stamp observations, ingest and emission views, and the marks of a lineage.

  \<open>l_owned\<close> says whether the caller holds the store's transaction; every writer refuses to run without it.  A
  statement that would break a CHECK, a primary key or a unique index raises \<open>IntegrityError\<close>.  The code's
  caller rolls its transaction back on an error, so an error carries no new state.  Columns declared NOT NULL
  are not options; the rest of the binding columns may be NULL.
\<close>

datatype store_error = TransactionError | IntegrityError | BadState | BadRespace | TemporaryExhausted | NotInitialized
  | NoStamp | ForeignOccurrence | PlanError ordinal_error | FormatError ledger_error | ProvisionalKey | SpaceExhausted

record binding =
  occ_id :: int
  b_lineage :: string
  b_ordinal :: "int option"
  b_store_id :: "int option"
  b_digest :: "byte list"
  b_stamp :: "string option"
  b_disposition :: string
  b_tag :: "string option"
  b_key_rank :: "int option"
  b_view_seq :: int

record emission =
  emission_id :: int
  em_lineage :: string
  em_view_seq :: int
  em_output_index :: int
  em_digest :: "byte list"
  em_kind :: string
  em_state :: string
  em_next_occ_id :: "int option"
  em_recovered_store_id :: "int option"

record observation =
  ob_lineage :: string
  ob_occ_id :: int
  ob_stamp :: string
  ob_kind :: string
  ob_view_seq :: int
  ob_source :: string

record ledger_view =
  v_lineage :: string
  v_seq :: int
  v_kind :: string
  v_state :: "string option"
  v_entries :: "byte list"
  v_chain :: "byte list"

record mark_row =
  mk_lineage :: string
  mk_max_store_id :: "int option"
  mk_proof_digest :: "byte list option"
  mk_max_leaf_id :: "int option"
  mk_stamp_policy :: string

record stored_message =
  sm_store_id :: int
  sm_session_id :: string
  sm_conversation_id :: "string option"
  sm_role :: string
  sm_observed_at :: "timestamp option"

datatype meta_value = MInt int | MText string | MBlob "byte list"

record ledger =
  l_owned :: bool
  bindings :: "binding list"
  occ_seq :: int
  emissions :: "emission list"
  emission_seq :: int
  observations :: "observation list"
  views :: "ledger_view list"
  l_marks :: "mark_row list"
  meta :: "(string \<times> meta_value) list"
  l_messages :: "stored_message list"

section \<open>Schema\<close>

definition kept :: "binding \<Rightarrow> bool" where
  "kept b = (b_disposition b \<in> {''stored'', ''migrated'', ''ambiguous''})"

definition valid_disposition :: "string \<Rightarrow> bool" where
  "valid_disposition d = (d \<in> {''stored'', ''migrated'', ''ambiguous'', ''composite_part'', ''split_part''})"

text \<open>The partial unique index on lineage and ordinal; NULL ordinals never conflict.\<close>

fun index_ok :: "binding list \<Rightarrow> bool" where
  "index_ok [] = True"
| "index_ok (b # bs) = ((\<forall>c \<in> set bs. kept b \<longrightarrow> kept c \<longrightarrow> b_ordinal b \<noteq> None \<longrightarrow>
      \<not> (b_lineage b = b_lineage c \<and> b_ordinal b = b_ordinal c)) \<and> index_ok bs)"

definition checked_bindings :: "binding list \<Rightarrow> ledger \<Rightarrow> store_error + ledger" where
  "checked_bindings bs l = (if index_ok bs then Inr (l\<lparr>bindings := bs\<rparr>) else Inl IntegrityError)"

text \<open>\<open>CAST(value AS INTEGER)\<close>: the longest integer prefix of a text after leading spaces, 0 without one.\<close>

fun digits_value :: "int \<Rightarrow> string \<Rightarrow> int" where
  "digits_value acc [] = acc"
| "digits_value acc (c # cs) = (let n = (of_char c :: nat) in if 48 \<le> n \<and> n \<le> 57 then digits_value (10 * acc + int n - 48) cs else acc)"

definition text_int :: "string \<Rightarrow> int" where
  "text_int s = (case dropWhile (\<lambda>c. (of_char c :: nat) \<in> {9, 10, 11, 12, 13, 32}) s of
     [] \<Rightarrow> 0
   | c # cs \<Rightarrow> if c = CHR ''-'' then - digits_value 0 cs else if c = CHR ''+'' then digits_value 0 cs else digits_value 0 (c # cs))"

definition cast_int :: "meta_value \<Rightarrow> int" where
  "cast_int v = (case v of MInt i \<Rightarrow> i | MText s \<Rightarrow> text_int s | MBlob bs \<Rightarrow> text_int (map (\<lambda>b. char_of (unat b)) bs))"

definition set_meta :: "string \<Rightarrow> meta_value \<Rightarrow> (string \<times> meta_value) list \<Rightarrow> (string \<times> meta_value) list" where
  "set_meta k v m = (if k \<in> fst ` set m then map (\<lambda>(k', v'). (k', if k' = k then v else v')) m else m @ [(k, v)])"

definition del_meta :: "string \<Rightarrow> (string \<times> meta_value) list \<Rightarrow> (string \<times> meta_value) list" where
  "del_meta k m = filter (\<lambda>kv. fst kv \<noteq> k) m"

section \<open>Writers\<close>

definition lineage_key :: "string option \<Rightarrow> string \<Rightarrow> store_error + string" where
  "lineage_key host_uid_key session_id = (case host_uid_key of
     Some k \<Rightarrow> if k = [] then Inr (''provisional:'' @ session_id)
       else if is_prefix ''provisional:'' k then Inl ProvisionalKey else Inr k
   | None \<Rightarrow> Inr (''provisional:'' @ session_id))"

definition next_view_seq :: "ledger \<Rightarrow> store_error + (int \<times> ledger)" where
  "next_view_seq l = (if \<not> l_owned l then Inl TransactionError
     else (case map_of (meta l) ''view_seq'' of
        None \<Rightarrow> Inl NotInitialized
      | Some v \<Rightarrow> Inr (cast_int v + 1, l\<lparr>meta := set_meta ''view_seq'' (MInt (cast_int v + 1)) (meta l)\<rparr>)))"

text \<open>The rows a caller gives \<open>insert_bindings\<close>: a binding whose identifier and lineage are not yet set.\<close>

fun insert_binding_rows :: "string \<Rightarrow> binding list \<Rightarrow> ledger \<Rightarrow> store_error + (int list \<times> ledger)" where
  "insert_binding_rows lineage [] l = Inr ([], l)"
| "insert_binding_rows lineage (row # rows) l =
     (if \<not> valid_disposition (b_disposition row) then Inl IntegrityError
      else (let occ = occ_seq l + 1; b = row\<lparr>occ_id := occ, b_lineage := lineage\<rparr> in
        case checked_bindings (bindings l @ [b]) (l\<lparr>occ_seq := occ\<rparr>) of
          Inl e \<Rightarrow> Inl e
        | Inr l' \<Rightarrow> (case insert_binding_rows lineage rows l' of Inl e \<Rightarrow> Inl e | Inr (ids, l'') \<Rightarrow> Inr (occ # ids, l''))))"

definition insert_bindings :: "string \<Rightarrow> binding list \<Rightarrow> ledger \<Rightarrow> store_error + (int list \<times> ledger)" where
  "insert_bindings lineage rows l = (if \<not> l_owned l then Inl TransactionError else insert_binding_rows lineage rows l)"

record emission_row =
  er_output_index :: int
  er_digest :: "byte list"
  er_kind :: string
  er_recovery :: "(string \<times> string \<times> timestamp \<times> int) option"

definition recovered_store_id :: "(string \<times> string \<times> timestamp \<times> int) option \<Rightarrow> stored_message list \<Rightarrow> int option" where
  "recovered_store_id src ms = (case src of None \<Rightarrow> None
     | Some (session_id, conversation, observed, limit) \<Rightarrow>
        (case filter (\<lambda>m. sm_role m = ''user'' \<and> sm_session_id m = session_id
             \<and> (sm_conversation_id m = None \<or> sm_conversation_id m = Some conversation \<or> sm_conversation_id m = Some [])
             \<and> sm_observed_at m = Some observed \<and> sm_store_id m \<le> limit) ms of
           [m] \<Rightarrow> Some (sm_store_id m) | _ \<Rightarrow> None))"

fun insert_emission_rows :: "string \<Rightarrow> int \<Rightarrow> emission_row list \<Rightarrow> ledger \<Rightarrow> store_error + (int list \<times> ledger)" where
  "insert_emission_rows lineage seq [] l = Inr ([], l)"
| "insert_emission_rows lineage seq (r # rs) l =
     (if er_kind r \<notin> {''summary'', ''carrier'', ''scaffold'', ''recovery'', ''projection''}
         \<or> (\<exists>e \<in> set (emissions l). em_lineage e = lineage \<and> em_view_seq e = seq \<and> em_output_index e = er_output_index r)
      then Inl IntegrityError
      else (let eid = emission_seq l + 1;
                e = \<lparr>emission_id = eid, em_lineage = lineage, em_view_seq = seq, em_output_index = er_output_index r, em_digest = er_digest r,
                     em_kind = er_kind r, em_state = ''proposed'', em_next_occ_id = None,
                     em_recovered_store_id = recovered_store_id (er_recovery r) (l_messages l)\<rparr> in
        case insert_emission_rows lineage seq rs (l\<lparr>emissions := emissions l @ [e], emission_seq := eid\<rparr>) of
          Inl err \<Rightarrow> Inl err | Inr (ids, l') \<Rightarrow> Inr (eid # ids, l')))"

definition insert_emissions :: "string \<Rightarrow> int \<Rightarrow> emission_row list \<Rightarrow> ledger \<Rightarrow> store_error + (int list \<times> ledger)" where
  "insert_emissions lineage seq rows l = (if \<not> l_owned l then Inl TransactionError else insert_emission_rows lineage seq rows l)"

definition set_emission_state :: "string \<Rightarrow> int \<Rightarrow> string \<Rightarrow> ledger \<Rightarrow> store_error + ((nat \<times> nat) \<times> ledger)" where
  "set_emission_state lineage seq new_state l =
     (if \<not> l_owned l then Inl TransactionError
      else if new_state \<notin> {''adopted'', ''refused''} then Inl BadState
      else (let P = (\<lambda>e. em_lineage e = lineage \<and> em_view_seq e = seq \<and> em_state e = ''proposed'');
                V = (\<lambda>v. v_lineage v = lineage \<and> v_seq v = seq \<and> v_kind v = ''emission'' \<and> v_state v = Some ''proposed'');
                moved = rowcount P (emissions l);
                l' = l\<lparr>emissions := upd_where P (\<lambda>e. e\<lparr>em_state := new_state\<rparr>) (emissions l)\<rparr> in
        if moved = 0 then Inr ((0, 0), l')
        else Inr ((moved, rowcount V (views l)), l'\<lparr>views := upd_where V (\<lambda>v. v\<lparr>v_state := Some new_state\<rparr>) (views l)\<rparr>)))"

definition has_ordinal :: "string \<Rightarrow> int \<Rightarrow> binding \<Rightarrow> bool" where
  "has_ordinal lineage n b = (b_lineage b = lineage \<and> b_ordinal b = Some n)"

definition occupied :: "string \<Rightarrow> binding list \<Rightarrow> int list" where
  "occupied lineage bs = List.map_filter b_ordinal (filter (\<lambda>b. b_lineage b = lineage) bs)"

definition set_ordinal :: "string \<Rightarrow> int \<Rightarrow> int \<Rightarrow> ledger \<Rightarrow> store_error + ledger" where
  "set_ordinal lineage old new l = checked_bindings (upd_where (has_ordinal lineage old) (\<lambda>b. b\<lparr>b_ordinal := Some new\<rparr>) (bindings l)) l"

fun stage_respace :: "string \<Rightarrow> int \<Rightarrow> (int \<times> int) list \<Rightarrow> ledger \<Rightarrow> store_error + (nat \<times> (int \<times> int) list \<times> ledger)" where
  "stage_respace lineage temporary [] l = Inr (0, [], l)"
| "stage_respace lineage temporary ((old, new) # mapping) l =
     (if temporary - 1 < - (2 ^ 63) then Inl TemporaryExhausted
      else (case set_ordinal lineage old (temporary - 1) l of
        Inl e \<Rightarrow> Inl e
      | Inr l' \<Rightarrow> (case stage_respace lineage (temporary - 1) mapping l' of
          Inl e \<Rightarrow> Inl e
        | Inr (count, staged, l'') \<Rightarrow> Inr (rowcount (has_ordinal lineage old) (bindings l) + count, (temporary - 1, new) # staged, l''))))"

fun unstage_respace :: "string \<Rightarrow> (int \<times> int) list \<Rightarrow> ledger \<Rightarrow> store_error + ledger" where
  "unstage_respace lineage [] l = Inr l"
| "unstage_respace lineage ((temporary, new) # staged) l =
     (case set_ordinal lineage temporary new l of Inl e \<Rightarrow> Inl e | Inr l' \<Rightarrow> unstage_respace lineage staged l')"

definition valid_respace :: "int list \<Rightarrow> (int \<times> int) list \<Rightarrow> bool" where
  "valid_respace occ mapping = ((\<forall>v \<in> set (map snd mapping). 0 < v \<and> v \<le> MAX_ORDINAL) \<and> distinct (map snd mapping)
     \<and> (\<forall>v \<in> set occ. v \<notin> fst ` set mapping \<longrightarrow> v \<notin> snd ` set mapping))"

definition apply_respace :: "string \<Rightarrow> (int \<times> int) list \<Rightarrow> ledger \<Rightarrow> store_error + (nat \<times> ledger)" where
  "apply_respace lineage mapping l =
     (if \<not> l_owned l then Inl TransactionError
      else (let occ = occupied lineage (bindings l) in
        if \<not> valid_respace occ mapping then Inl BadRespace
        else (case stage_respace lineage (Min (insert 0 (set occ))) mapping l of
          Inl e \<Rightarrow> Inl e
        | Inr (count, staged, l') \<Rightarrow> (case unstage_respace lineage staged l' of Inl e \<Rightarrow> Inl e | Inr l'' \<Rightarrow> Inr (count, l'')))))"

definition lineage_ordinals :: "string \<Rightarrow> ledger \<Rightarrow> int list" where
  "lineage_ordinals lineage l = sort (remdups (occupied lineage (bindings l)))"

section \<open>Relabelling a lineage\<close>

definition reord :: "string \<Rightarrow> (int \<Rightarrow> int) \<Rightarrow> binding \<Rightarrow> binding" where
  "reord lineage f b = (if b_lineage b = lineage then b\<lparr>b_ordinal := map_option f (b_ordinal b)\<rparr> else b)"

lemma reord_simps [simp]:
  "b_lineage (reord lineage f b) = b_lineage b" "kept (reord lineage f b) = kept b" "occ_id (reord lineage f b) = occ_id b"
  "b_ordinal (reord lineage f b) = (if b_lineage b = lineage then map_option f (b_ordinal b) else b_ordinal b)"
  by (simp_all add: reord_def kept_def)

lemma reord_comp: "reord lineage g (reord lineage f b) = reord lineage (g \<circ> f) b"
  by (simp add: reord_def option.map_comp)

lemma reord_cong: "(\<And>x. b_ordinal b = Some x \<Longrightarrow> b_lineage b = lineage \<Longrightarrow> f x = g x) \<Longrightarrow> reord lineage f b = reord lineage g b"
  by (cases "b_ordinal b") (auto simp: reord_def)

lemma occupied_set: "set (occupied lineage bs) = {x. \<exists>b \<in> set bs. b_lineage b = lineage \<and> b_ordinal b = Some x}"
  by (auto simp: occupied_def List.map_filter_def image_iff) force

lemma occupied_reord: "set (occupied lineage (map (reord lineage f) bs)) = f ` set (occupied lineage bs)"
  by (auto simp: occupied_set)

lemma upd_ordinal_reord:
  "upd_where (has_ordinal lineage old) (\<lambda>b. b\<lparr>b_ordinal := Some new\<rparr>) bs = map (reord lineage (id(old := new))) bs"
  unfolding upd_where_def
proof (rule map_cong)
  fix b
  show "(if has_ordinal lineage old b then b\<lparr>b_ordinal := Some new\<rparr> else b) = reord lineage (id(old := new)) b"
    by (cases b; cases "b_ordinal b") (auto simp: has_ordinal_def reord_def)
qed simp

lemma index_ok_reord:
  assumes "index_ok bs" "inj_on f (set (occupied lineage bs))"
  shows "index_ok (map (reord lineage f) bs)"
  using assms
proof (induction bs)
  case (Cons b bs)
  have "inj_on f (set (occupied lineage bs))" using Cons.prems(2) by (rule inj_on_subset) (auto simp: occupied_set)
  with Cons have "index_ok (map (reord lineage f) bs)" by simp
  moreover have "\<not> (b_lineage b = b_lineage c \<and> b_ordinal (reord lineage f b) = b_ordinal (reord lineage f c))"
    if "c \<in> set bs" "kept b" "kept c" "b_ordinal (reord lineage f b) \<noteq> None" for c
  proof
    assume same: "b_lineage b = b_lineage c \<and> b_ordinal (reord lineage f b) = b_ordinal (reord lineage f c)"
    have "b_ordinal b \<noteq> None" using that(4) by (auto split: if_splits)
    then have ne: "b_ordinal b \<noteq> b_ordinal c" using Cons.prems(1) that same by auto
    show False
    proof (cases "b_lineage b = lineage")
      case True
      with same \<open>b_ordinal b \<noteq> None\<close> obtain x y where "b_ordinal b = Some x" "b_ordinal c = Some y" "f x = f y"
        by (cases "b_ordinal c") auto
      moreover from this True same have "x \<in> set (occupied lineage (b # bs))" "y \<in> set (occupied lineage (b # bs))"
        using that(1) by (auto simp: occupied_set)
      ultimately show False using ne inj_onD[OF Cons.prems(2)] by metis
    qed (use same ne in auto)
  qed
  ultimately show ?case by auto
qed simp

lemma set_ordinal_step:
  assumes "index_ok (bindings l)" "new \<notin> set (occupied lineage (bindings l)) - {old}"
  shows "set_ordinal lineage old new l = Inr (l\<lparr>bindings := map (reord lineage (id(old := new))) (bindings l)\<rparr>)"
    and "index_ok (map (reord lineage (id(old := new))) (bindings l))"
proof -
  have "inj_on (id(old := new)) (set (occupied lineage (bindings l)))" using assms(2) by (auto simp: inj_on_def)
  then show "index_ok (map (reord lineage (id(old := new))) (bindings l))" using assms(1) by (intro index_ok_reord)
  then show "set_ordinal lineage old new l = Inr (l\<lparr>bindings := map (reord lineage (id(old := new))) (bindings l)\<rparr>)"
    by (simp add: set_ordinal_def upd_ordinal_reord checked_bindings_def)
qed

fun staging :: "int \<Rightarrow> (int \<times> int) list \<Rightarrow> int \<Rightarrow> int" where
  "staging temporary [] x = x"
| "staging temporary ((old, new) # m) x = staging (temporary - 1) m (if x = old then temporary - 1 else x)"

fun staged_pairs :: "int \<Rightarrow> (int \<times> int) list \<Rightarrow> (int \<times> int) list" where
  "staged_pairs temporary [] = []"
| "staged_pairs temporary ((old, new) # m) = (temporary - 1, new) # staged_pairs (temporary - 1) m"

fun unstaging :: "(int \<times> int) list \<Rightarrow> int \<Rightarrow> int" where
  "unstaging [] x = x"
| "unstaging ((t, new) # m) x = unstaging m (if x = t then new else x)"

lemma staging_other: "x \<notin> fst ` set m \<Longrightarrow> \<forall>k \<in> fst ` set m. 0 < k \<Longrightarrow> staging t m x = x"
  by (induction t m x rule: staging.induct) auto

lemma staging_range:
  "t \<le> 0 \<Longrightarrow> \<forall>k \<in> fst ` set m. 0 < k \<Longrightarrow> staging t m x = x \<or> staging t m x < t"
proof (induction t m x rule: staging.induct)
  case (2 t old new m x)
  then show ?case using staging_other[of "t - 1" m "t - 1"] by (cases "x = old") (force, auto)
qed simp

lemma staging_key:
  "t \<le> 0 \<Longrightarrow> \<forall>k \<in> fst ` set m. 0 < k \<Longrightarrow> x \<in> fst ` set m \<Longrightarrow> staging t m x < t"
proof (induction t m x rule: staging.induct)
  case (2 t old new m x)
  show ?case
  proof (cases "x = old")
    case True
    have "t - 1 \<notin> fst ` set m" using 2(2,3) by force
    with True staging_other[of "t - 1" m "t - 1"] 2(3) show ?thesis by simp
  next
    case False
    then show ?thesis using 2 by force
  qed
qed simp

lemma staged_fst: "p \<in> set (staged_pairs t m) \<Longrightarrow> fst p < t"
  by (induction t m rule: staged_pairs.induct) force+

lemma staged_snd: "map snd (staged_pairs t m) = map snd m"
  by (induction t m rule: staged_pairs.induct) auto

lemma unstaging_other: "x \<notin> fst ` set s \<Longrightarrow> \<forall>p \<in> set s. fst p \<le> 0 \<and> 0 < snd p \<Longrightarrow> unstaging s x = x"
  by (induction s x rule: unstaging.induct) auto

lemma unstaging_staging:
  assumes "t \<le> 0" "\<forall>k \<in> fst ` set m. 0 < k" "\<forall>v \<in> snd ` set m. 0 < v" "distinct (map fst m)" "t \<le> x"
  shows "unstaging (staged_pairs t m) (staging t m x) = relabel m x"
  using assms
proof (induction t m x rule: staging.induct)
  case (2 t old new m x)
  have pos: "\<forall>p \<in> set (staged_pairs (t - 1) m). fst p \<le> 0 \<and> 0 < snd p"
  proof
    fix p assume p: "p \<in> set (staged_pairs (t - 1) m)"
    then have "snd p \<in> set (map snd m)" by (simp flip: staged_snd[of "t - 1" m])
    with p show "fst p \<le> 0 \<and> 0 < snd p" using staged_fst[OF p] 2(2,4) by auto
  qed
  show ?case
  proof (cases "x = old")
    case True
    have "t - 1 \<notin> fst ` set m" using 2(2,3) by force
    then have "staging (t - 1) m (t - 1) = t - 1" using 2(3) by (intro staging_other) auto
    moreover have "unstaging (staged_pairs (t - 1) m) new = new"
      using pos 2(4) by (intro unstaging_other) (auto dest!: bspec)
    ultimately show ?thesis using True by (simp add: relabel_def)
  next
    case False
    have "staging (t - 1) m x \<noteq> t - 1" using staging_range[of "t - 1" m x] 2(2,3,6) by auto
    then show ?thesis using False 2 by (simp add: relabel_def)
  qed
qed (simp add: relabel_def)

lemma moved_key:
  assumes "old \<notin> K" "new \<notin> K"
  shows "map_option (id(old := new)) v \<in> Some ` K \<longleftrightarrow> v \<in> Some ` K"
  using assms by (cases v) auto

lemma stage_respace_eq:
  assumes "t \<le> 0" "\<forall>x \<in> set (occupied lineage (bindings l)). t \<le> x" "\<forall>k \<in> fst ` set m. 0 < k" "distinct (map fst m)"
    and "index_ok (bindings l)" "- (2 ^ 63) \<le> t - int (length m)"
  shows "stage_respace lineage t m l = Inr (rowcount (\<lambda>b. b_lineage b = lineage \<and> b_ordinal b \<in> Some ` fst ` set m) (bindings l),
      staged_pairs t m, l\<lparr>bindings := map (reord lineage (staging t m)) (bindings l)\<rparr>)
    \<and> index_ok (map (reord lineage (staging t m)) (bindings l))"
  using assms
proof (induction m arbitrary: t l)
  case Nil
  have "reord lineage (\<lambda>x. x) b = b" for b by (cases b) (simp add: reord_def option.map_ident)
  then show ?case using Nil by (simp add: rowcount_def staging.simps[abs_def])
next
  case (Cons p m)
  obtain old new where p: "p = (old, new)" by (cases p)
  define l1 where "l1 = l\<lparr>bindings := map (reord lineage (id(old := t - 1))) (bindings l)\<rparr>"
  have "t - 1 \<notin> set (occupied lineage (bindings l))" using Cons.prems(2) by force
  then have step: "set_ordinal lineage old (t - 1) l = Inr l1" "index_ok (bindings l1)"
    using set_ordinal_step[OF Cons.prems(5), of "t - 1" lineage old] by (auto simp: l1_def)
  have fresh: "old \<notin> fst ` set m" "t - 1 \<notin> fst ` set m" using Cons.prems(1,3,4) p by force+
  have IH: "stage_respace lineage (t - 1) m l1 = Inr (rowcount (\<lambda>b. b_lineage b = lineage \<and> b_ordinal b \<in> Some ` fst ` set m) (bindings l1),
      staged_pairs (t - 1) m, l1\<lparr>bindings := map (reord lineage (staging (t - 1) m)) (bindings l1)\<rparr>)
    \<and> index_ok (map (reord lineage (staging (t - 1) m)) (bindings l1))"
    using Cons.prems p step(2) by (intro Cons.IH) (auto simp: l1_def occupied_reord)
  have comp: "map (reord lineage (staging (t - 1) m)) (bindings l1) = map (reord lineage (staging t (p # m))) (bindings l)"
    by (auto simp: l1_def reord_comp p intro!: reord_cong)
  have count: "rowcount (\<lambda>b. b_lineage b = lineage \<and> b_ordinal b \<in> Some ` fst ` set (p # m)) (bindings l)
      = rowcount (has_ordinal lineage old) (bindings l) + rowcount (\<lambda>b. b_lineage b = lineage \<and> b_ordinal b \<in> Some ` fst ` set m) (bindings l1)"
  proof -
    have "(\<lambda>b. b_lineage b = lineage \<and> b_ordinal b \<in> Some ` fst ` set m) \<circ> reord lineage (id(old := t - 1))
        = (\<lambda>b. b_lineage b = lineage \<and> b_ordinal b \<in> Some ` fst ` set m)"
      by (simp only: fun_eq_iff comp_def reord_simps) (simp add: moved_key[OF fresh])
    then have "rowcount (\<lambda>b. b_lineage b = lineage \<and> b_ordinal b \<in> Some ` fst ` set m) (bindings l1)
        = rowcount (\<lambda>b. b_lineage b = lineage \<and> b_ordinal b \<in> Some ` fst ` set m) (bindings l)"
      by (simp add: rowcount_def l1_def filter_map comp_def)
    moreover have "rowcount (\<lambda>b. b_lineage b = lineage \<and> b_ordinal b \<in> Some ` fst ` set (p # m)) bs
        = rowcount (has_ordinal lineage old) bs + rowcount (\<lambda>b. b_lineage b = lineage \<and> b_ordinal b \<in> Some ` fst ` set m) bs" for bs
      using fresh(1) by (induction bs) (auto simp: rowcount_def has_ordinal_def p)
    ultimately show ?thesis by simp
  qed
  from Cons.prems(6) have "\<not> t - 1 < - (2 ^ 63)" by simp
  with IH show ?case unfolding comp count by (simp add: p step(1) del: staging.simps) (simp add: l1_def del: staging.simps)
qed

lemma unstage_respace_eq:
  assumes "index_ok (bindings l)" "distinct (map snd s)" "\<forall>v \<in> snd ` set s. v \<notin> set (occupied lineage (bindings l))"
  shows "unstage_respace lineage s l = Inr (l\<lparr>bindings := map (reord lineage (unstaging s)) (bindings l)\<rparr>)
    \<and> index_ok (map (reord lineage (unstaging s)) (bindings l))"
  using assms
proof (induction s arbitrary: l)
  case Nil
  have "reord lineage (\<lambda>x. x) b = b" for b by (cases b) (simp add: reord_def option.map_ident)
  then show ?case using Nil by (simp add: unstaging.simps[abs_def])
next
  case (Cons p s)
  obtain t new where p: "p = (t, new)" by (cases p)
  define l1 where "l1 = l\<lparr>bindings := map (reord lineage (id(t := new))) (bindings l)\<rparr>"
  have step: "set_ordinal lineage t new l = Inr l1" "index_ok (bindings l1)"
    using set_ordinal_step[OF Cons.prems(1), of new lineage t] Cons.prems(3) p by (auto simp: l1_def)
  have IH: "unstage_respace lineage s l1 = Inr (l1\<lparr>bindings := map (reord lineage (unstaging s)) (bindings l1)\<rparr>)
      \<and> index_ok (map (reord lineage (unstaging s)) (bindings l1))"
  proof (rule Cons.IH)
    have "set (occupied lineage (bindings l1)) \<subseteq> insert new (set (occupied lineage (bindings l)))"
      by (auto simp: l1_def occupied_reord)
    then show "\<forall>v \<in> snd ` set s. v \<notin> set (occupied lineage (bindings l1))" using Cons.prems(2,3) p by auto
  qed (use Cons.prems step in auto)
  have comp: "map (reord lineage (unstaging s)) (bindings l1) = map (reord lineage (unstaging (p # s))) (bindings l)"
    by (auto simp: l1_def reord_comp p intro!: reord_cong)
  show ?case using IH unfolding comp by (simp add: p step(1) del: unstaging.simps) (simp add: l1_def del: unstaging.simps)
qed

lemma apply_respace_eq:
  assumes "l_owned l" "index_ok (bindings l)" "valid_respace (occupied lineage (bindings l)) mapping"
    and "distinct (map fst mapping)" "\<forall>k \<in> fst ` set mapping. 0 < k"
    and "- (2 ^ 63) \<le> Min (insert 0 (set (occupied lineage (bindings l)))) - int (length mapping)"
  shows "apply_respace lineage mapping l = Inr (rowcount (\<lambda>b. b_lineage b = lineage \<and> b_ordinal b \<in> Some ` fst ` set mapping) (bindings l),
      l\<lparr>bindings := map (reord lineage (relabel mapping)) (bindings l)\<rparr>)
    \<and> index_ok (map (reord lineage (relabel mapping)) (bindings l))"
proof -
  define t where "t = Min (insert 0 (set (occupied lineage (bindings l))))"
  define l1 where "l1 = l\<lparr>bindings := map (reord lineage (staging t mapping)) (bindings l)\<rparr>"
  have t: "t \<le> 0" "\<forall>x \<in> set (occupied lineage (bindings l)). t \<le> x" by (auto simp: t_def)
  note st = stage_respace_eq[OF t assms(5,4,2) assms(6)[folded t_def], folded l1_def]
  have pos: "\<forall>v \<in> snd ` set mapping. 0 < v" using assms(3) by (auto simp: valid_respace_def)
  have free: "\<forall>v \<in> snd ` set (staged_pairs t mapping). v \<notin> set (occupied lineage (bindings l1))"
  proof
    fix v assume "v \<in> snd ` set (staged_pairs t mapping)"
    then have v: "v \<in> snd ` set mapping" by (metis image_set staged_snd)
    have "staging t mapping x \<noteq> v" if "x \<in> set (occupied lineage (bindings l))" for x
    proof (cases "x \<in> fst ` set mapping")
      case True
      then show ?thesis using staging_key[OF t(1) assms(5) True] t(1) pos v by force
    next
      case False
      then show ?thesis using staging_other[OF False assms(5)] assms(3) v that by (auto simp: valid_respace_def)
    qed
    then show "v \<notin> set (occupied lineage (bindings l1))" by (auto simp: l1_def occupied_reord)
  qed
  have "map (reord lineage (unstaging (staged_pairs t mapping))) (bindings l1) = map (reord lineage (relabel mapping)) (bindings l)"
    using t unstaging_staging[OF t(1) assms(5) pos assms(4)]
    by (auto simp: l1_def reord_comp occupied_set intro!: reord_cong)
  moreover have "unstage_respace lineage (staged_pairs t mapping) l1
      = Inr (l1\<lparr>bindings := map (reord lineage (unstaging (staged_pairs t mapping))) (bindings l1)\<rparr>)
      \<and> index_ok (map (reord lineage (unstaging (staged_pairs t mapping))) (bindings l1))"
    using st free assms(3) by (intro unstage_respace_eq) (auto simp: staged_snd valid_respace_def l1_def)
  ultimately show ?thesis using st assms(1,3) by (simp add: apply_respace_def Let_def t_def[symmetric]) (simp add: l1_def)
qed

text \<open>
  Applying a re-spacing map is one simultaneous relabelling: although the statements run one after the other
  through temporary labels, every occurrence of the lineage ends with exactly its mapped label (chains and swaps
  included), other lineages are untouched, the unique index is never violated on the way, and the count is the
  number of rows whose label was in the map.
\<close>

theorem apply_respace_simultaneous:
  assumes "l_owned l" "index_ok (bindings l)" "valid_respace (occupied lineage (bindings l)) mapping"
    and "distinct (map fst mapping)" "\<forall>k \<in> fst ` set mapping. 0 < k"
    and "- (2 ^ 63) \<le> Min (insert 0 (set (occupied lineage (bindings l)))) - int (length mapping)"
  shows "apply_respace lineage mapping l = Inr (rowcount (\<lambda>b. b_lineage b = lineage \<and> b_ordinal b \<in> Some ` fst ` set mapping) (bindings l),
      l\<lparr>bindings := map (reord lineage (relabel mapping)) (bindings l)\<rparr>)
    \<and> index_ok (map (reord lineage (relabel mapping)) (bindings l))"
  by (rule apply_respace_eq[OF assms])

text \<open>The smallest swap: two stored occurrences exchange their labels.\<close>

definition sample_binding :: "int \<Rightarrow> int \<Rightarrow> binding" where
  "sample_binding occ ordinal = \<lparr>occ_id = occ, b_lineage = ''L'', b_ordinal = Some ordinal, b_store_id = Some occ, b_digest = [],
     b_stamp = None, b_disposition = ''stored'', b_tag = None, b_key_rank = None, b_view_seq = 1\<rparr>"

definition sample_ledger :: ledger where
  "sample_ledger = \<lparr>l_owned = True, bindings = [sample_binding 1 5, sample_binding 2 6], occ_seq = 2, emissions = [], emission_seq = 0,
     observations = [], views = [], l_marks = [], meta = [(''view_seq'', MInt 1)], l_messages = []\<rparr>"

theorem apply_respace_simultaneous_witness:
  "apply_respace ''L'' [(5, 6), (6, 5)] sample_ledger
     = Inr (2, sample_ledger\<lparr>bindings := [sample_binding 1 6, sample_binding 2 5]\<rparr>)"
  using apply_respace_simultaneous[of sample_ledger "''L''" "[(5, 6), (6, 5)]"]
  by (simp add: sample_ledger_def sample_binding_def kept_def valid_respace_def occupied_def List.map_filter_def MAX_ORDINAL_def
      rowcount_def reord_def relabel_def)

section \<open>Planning, re-spacing and inserting\<close>

lemma index_ok_snoc:
  "index_ok (bs @ [b]) \<longleftrightarrow> index_ok bs \<and> (\<forall>c \<in> set bs. kept c \<longrightarrow> kept b \<longrightarrow> b_ordinal c \<noteq> None \<longrightarrow>
     \<not> (b_lineage c = b_lineage b \<and> b_ordinal c = b_ordinal b))"
  by (induction bs) auto

definition new_bindings :: "string \<Rightarrow> int \<Rightarrow> binding list \<Rightarrow> binding list" where
  "new_bindings lineage seq rows = map (\<lambda>i. (rows ! i)\<lparr>occ_id := seq + int i + 1, b_lineage := lineage\<rparr>) [0..<length rows]"

lemma new_bindings_Cons:
  "new_bindings lineage seq (r # rows) = r\<lparr>occ_id := seq + 1, b_lineage := lineage\<rparr> # new_bindings lineage (seq + 1) rows"
proof -
  have "[0..<length (r # rows)] = 0 # map Suc [0..<length rows]" by (simp add: map_Suc_upt upt_conv_Cons del: upt_Suc)
  then show ?thesis by (simp add: new_bindings_def comp_def algebra_simps del: upt_Suc)
qed

lemma insert_rows_ok:
  assumes "index_ok (bindings l)" "\<forall>r \<in> set rows. valid_disposition (b_disposition r)"
    and "map b_ordinal rows = map Some new" "distinct new" "set new \<inter> set (occupied lineage (bindings l)) = {}"
  shows "\<exists>ids. insert_binding_rows lineage rows l
      = Inr (ids, l\<lparr>occ_seq := occ_seq l + int (length rows), bindings := bindings l @ new_bindings lineage (occ_seq l) rows\<rparr>)
    \<and> index_ok (bindings l @ new_bindings lineage (occ_seq l) rows)"
  using assms
proof (induction rows arbitrary: l new)
  case Nil
  then show ?case by (simp add: new_bindings_def)
next
  case (Cons r rows)
  obtain o1 new' where new: "new = o1 # new'" "b_ordinal r = Some o1" using Cons.prems(3) by (cases new) auto
  define b where "b = r\<lparr>occ_id := occ_seq l + 1, b_lineage := lineage\<rparr>"
  define l1 where "l1 = l\<lparr>occ_seq := occ_seq l + 1, bindings := bindings l @ [b]\<rparr>"
  have "o1 \<notin> set (occupied lineage (bindings l))" using Cons.prems(5) new by auto
  then have ok: "index_ok (bindings l @ [b])" using Cons.prems(1) new by (auto simp: index_ok_snoc b_def occupied_set)
  have occ: "set (occupied lineage (bindings l1)) = insert o1 (set (occupied lineage (bindings l)))"
    using new by (auto simp: occupied_set l1_def b_def)
  have "\<exists>ids. insert_binding_rows lineage rows l1
      = Inr (ids, l1\<lparr>occ_seq := occ_seq l1 + int (length rows), bindings := bindings l1 @ new_bindings lineage (occ_seq l1) rows\<rparr>)
    \<and> index_ok (bindings l1 @ new_bindings lineage (occ_seq l1) rows)"
    using Cons.prems new ok by (intro Cons.IH[of l1 new']) (auto simp: occ, auto simp: l1_def)
  then show ?case using Cons.prems(2) ok unfolding l1_def b_def
    by (auto simp: Let_def checked_bindings_def new_bindings_Cons add.assoc)
qed

lemma plan_respace_keys:
  assumes "plan_ordinals existing placements = Inr (new, respace)"
  shows "distinct (map fst respace)" "fst ` set respace \<subseteq> set existing" "\<forall>(old, v) \<in> set respace. relabel respace old = v"
proof -
  obtain positions where r: "respace = filter (\<lambda>(old, new). old \<noteq> new) (zip (sort (remdups existing)) positions)"
    using plan_ordinals_state[OF assms] by metis
  have "distinct (map fst (zip (sort (remdups existing)) positions))" by (simp add: map_fst_zip_take)
  then show d: "distinct (map fst respace)" unfolding r by (rule distinct_map_filter)
  show "fst ` set respace \<subseteq> set existing" by (auto simp: r dest: set_zip_leftD)
  show "\<forall>(old, v) \<in> set respace. relabel respace old = v" using d by (auto simp: relabel_def)
qed

lemma plan_respace_valid:
  assumes plan: "plan_ordinals existing placements = Inr (new, respace)"
  shows "valid_respace existing respace" "\<forall>k \<in> fst ` set respace. 0 < k \<and> k \<le> MAX_ORDINAL"
proof -
  note keys = plan_respace_keys[OF plan] and places = plan_ordinals_facts[OF plan]
  have inj: "inj_on (relabel respace) (set existing)" using places(3) by (rule strict_mono_on_imp_inj_on)
  have "set existing \<subseteq> {0<..MAX_ORDINAL}"
    using plan by (auto simp: plan_ordinals_def Let_def split: if_splits)
  then show "\<forall>k \<in> fst ` set respace. 0 < k \<and> k \<le> MAX_ORDINAL" using keys(2)
    by (metis greaterThanAtMost_iff subsetD)
  have image: "map snd respace = map (relabel respace) (map fst respace)" using keys(3) by auto
  have "distinct (map snd respace)" unfolding image using keys(1,2) inj
    by (subst distinct_map) (auto intro: inj_on_subset)
  moreover have "v \<notin> snd ` set respace" if "v \<in> set existing" "v \<notin> fst ` set respace" for v
  proof
    assume "v \<in> snd ` set respace"
    then obtain k where k: "k \<in> fst ` set respace" "relabel respace k = v" using keys(3) by fastforce
    moreover have "relabel respace v = v" using that(2) by (simp add: relabel_def map_of_eq_None_iff[THEN iffD2])
    ultimately show False using inj keys(2) that by (metis inj_onD subsetD)
  qed
  moreover have "\<forall>v \<in> set (map snd respace). 0 < v \<and> v \<le> MAX_ORDINAL" unfolding image using keys(2) places(5) by auto
  ultimately show "valid_respace existing respace" by (auto simp: valid_respace_def)
qed

lemma occupied_lineage_ordinals: "set (lineage_ordinals lineage l) = set (occupied lineage (bindings l))"
  by (simp add: lineage_ordinals_def)

lemma respace_from_plan:
  assumes owned: "l_owned l" and ok: "index_ok (bindings l)"
    and plan: "plan_ordinals (lineage_ordinals lineage l) placements = Inr (new, respace)"
  shows "\<exists>count. apply_respace lineage respace l = Inr (count, l\<lparr>bindings := map (reord lineage (relabel respace)) (bindings l)\<rparr>)
    \<and> index_ok (map (reord lineage (relabel respace)) (bindings l))"
proof -
  note keys = plan_respace_keys[OF plan] and valid = plan_respace_valid[OF plan]
  have pos: "\<forall>x \<in> set (occupied lineage (bindings l)). 0 < x"
    using plan by (auto simp: plan_ordinals_def Let_def occupied_lineage_ordinals split: if_splits)
  then have min: "Min (insert 0 (set (occupied lineage (bindings l)))) = 0" by (intro Min_eqI) auto
  have "card (fst ` set respace) \<le> card {0<..MAX_ORDINAL}" using valid(2) by (intro card_mono) auto
  moreover have "card (fst ` set respace) = length respace" using keys(1) by (metis distinct_card length_map set_map)
  ultimately have "int (length respace) \<le> 2 ^ 63" by (simp add: MAX_ORDINAL_def)
  moreover have "valid_respace (occupied lineage (bindings l)) respace"
    using valid(1) by (simp add: valid_respace_def occupied_lineage_ordinals)
  ultimately show ?thesis using apply_respace_eq[OF owned ok _ keys(1)] valid(2) min by auto
qed

text \<open>
  C7: Recording new occurrences of a lineage goes through without a conflict and keeps its order: for labels
  planned against the lineage's ordinals, applying the re-spacing map and then inserting the bindings succeeds
  and keeps the unique index; the bindings already there are the same with re-spaced labels, in the same order,
  nothing of another lineage changes, and each new binding lies strictly between its bounds.
\<close>

theorem record_occurrences_ordered:
  assumes "l_owned l" "index_ok (bindings l)"
    and "plan_ordinals (lineage_ordinals lineage l) placements = Inr (new, respace)"
    and "map b_ordinal rows = map Some new" "\<forall>r \<in> set rows. valid_disposition (b_disposition r)"
  shows "\<exists>count ids l' l''. apply_respace lineage respace l = Inr (count, l') \<and> insert_bindings lineage rows l' = Inr (ids, l'')
    \<and> bindings l'' = map (reord lineage (relabel respace)) (bindings l) @ new_bindings lineage (occ_seq l) rows
    \<and> index_ok (bindings l'')
    \<and> strict_mono_on (set (occupied lineage (bindings l))) (relabel respace)
    \<and> list_all2 (\<lambda>p r. \<exists>v. b_ordinal r = Some v \<and> placement_respected respace p v) placements rows"
proof -
  define l1 where "l1 = l\<lparr>bindings := map (reord lineage (relabel respace)) (bindings l)\<rparr>"
  note facts = plan_ordinals_facts[OF assms(3)]
  obtain count where applied: "apply_respace lineage respace l = Inr (count, l1)" "index_ok (bindings l1)"
    using respace_from_plan[OF assms(1-3)] by (auto simp: l1_def)
  have "distinct new" using facts(2) by (simp add: strict_sorted_iff)
  moreover have "set new \<inter> set (occupied lineage (bindings l1)) = {}"
    using facts(4) by (simp add: l1_def occupied_reord occupied_lineage_ordinals)
  ultimately obtain ids where "insert_binding_rows lineage rows l1
      = Inr (ids, l1\<lparr>occ_seq := occ_seq l1 + int (length rows), bindings := bindings l1 @ new_bindings lineage (occ_seq l1) rows\<rparr>)"
    "index_ok (bindings l1 @ new_bindings lineage (occ_seq l1) rows)"
    using insert_rows_ok[OF applied(2) assms(5,4)] by blast
  moreover have "list_all2 (\<lambda>p r. \<exists>v. b_ordinal r = Some v \<and> placement_respected respace p v) placements rows"
  proof -
    have "list_all2 (\<lambda>p w. \<exists>v. w = Some v \<and> placement_respected respace p v) placements (map Some new)"
      using facts(6) by (simp add: list_all2_map2)
    then show ?thesis unfolding assms(4)[symmetric] by (simp add: list_all2_map2)
  qed
  ultimately show ?thesis using applied(1) facts(3) assms(1)
    by (auto simp: insert_bindings_def l1_def occupied_lineage_ordinals)
qed

theorem record_occurrences_ordered_witness:
  "\<exists>count ids l' l''. apply_respace ''L'' [(6, 2097157)] sample_ledger = Inr (count, l')
    \<and> insert_bindings ''L'' [sample_binding 0 1048581] l' = Inr (ids, l'')
    \<and> bindings l'' = [sample_binding 1 5, sample_binding 2 2097157, (sample_binding 0 1048581)\<lparr>occ_id := 3\<rparr>]"
proof -
  have "lineage_ordinals ''L'' sample_ledger = [5, 6]"
    by (simp add: lineage_ordinals_def occupied_def sample_ledger_def sample_binding_def List.map_filter_def)
  then have plan: "plan_ordinals (lineage_ordinals ''L'' sample_ledger) [tight_placement] = Inr ([1048581], [(6, 2097157)])"
    by (simp add: tight_plan)
  have l: "l_owned sample_ledger" "index_ok (bindings sample_ledger)"
    and r: "map b_ordinal [sample_binding 0 1048581] = map Some [1048581]"
      "\<forall>r \<in> set [sample_binding 0 1048581]. valid_disposition (b_disposition r)"
    by (simp_all add: sample_ledger_def sample_binding_def kept_def valid_disposition_def)
  have "map (reord ''L'' (relabel [(6, 2097157)])) (bindings sample_ledger)
      @ new_bindings ''L'' (occ_seq sample_ledger) [sample_binding 0 1048581]
      = [sample_binding 1 5, sample_binding 2 2097157, (sample_binding 0 1048581)\<lparr>occ_id := 3\<rparr>]"
    by (simp add: sample_ledger_def sample_binding_def reord_def relabel_def new_bindings_def)
  note record_occurrences_ordered[OF l plan r, unfolded this]
  then show ?thesis by blast
qed

end
