(* ===== verification/Ledger_Views.thy ===== *)
theory Ledger_Views
  imports Ledger_Store "HOL-Library.Product_Lexorder" "HOL-Library.Multiset"
begin

text \<open>
  Views, marks, stamp observations and the merge of a provisional lineage: the rest of the writers and the
  readers of \<^verbatim>\<open>src/ingest_ledger.py\<close>.
\<close>

section \<open>Views\<close>

definition of_view :: "string \<Rightarrow> string \<Rightarrow> ledger_view \<Rightarrow> bool" where
  "of_view lineage kind v = (v_lineage v = lineage \<and> v_kind v = kind)"

definition newest_seqs :: "string \<Rightarrow> string \<Rightarrow> ledger_view list \<Rightarrow> int list" where
  "newest_seqs lineage kind vs = take 2 (rev (sort (map v_seq (filter (of_view lineage kind) vs))))"

definition prune_views :: "string \<Rightarrow> string \<Rightarrow> ledger_view list \<Rightarrow> ledger_view list" where
  "prune_views lineage kind vs = del_where (\<lambda>v. of_view lineage kind v \<and> v_seq v \<notin> set (newest_seqs lineage kind vs)) vs"

definition view_key :: "ledger_view \<Rightarrow> string \<times> string \<times> int" where
  "view_key v = (v_lineage v, v_kind v, v_seq v)"

definition write_view :: "(byte list \<Rightarrow> byte list \<Rightarrow> byte list) \<Rightarrow> byte list \<Rightarrow> string \<Rightarrow> string \<Rightarrow> string option \<Rightarrow> ViewEntry list
    \<Rightarrow> int option \<Rightarrow> byte list option \<Rightarrow> ledger \<Rightarrow> store_error + (int \<times> ledger)" where
  "write_view blake salt lineage kind state entries view_seq precomputed l =
     (if \<not> l_owned l then Inl TransactionError
      else (case encode_entries entries of
        Inl e \<Rightarrow> Inl (FormatError e)
      | Inr encoded \<Rightarrow>
         (case (case precomputed of None \<Rightarrow> prefix_chain blake salt entries | Some c \<Rightarrow> Inr c) of
            Inl e \<Rightarrow> Inl (FormatError e)
          | Inr chain \<Rightarrow>
             (case (case view_seq of None \<Rightarrow> next_view_seq l | Some s \<Rightarrow> Inr (s, l)) of
                Inl e \<Rightarrow> Inl e
              | Inr (seq, l') \<Rightarrow>
                 (let v = \<lparr>v_lineage = lineage, v_seq = seq, v_kind = kind, v_state = state, v_entries = encoded, v_chain = chain\<rparr> in
                  if kind \<notin> {''ingest'', ''emission''} \<or> view_key v \<in> view_key ` set (views l') then Inl IntegrityError
                  else Inr (seq, l'\<lparr>views := prune_views lineage kind (views l' @ [v])\<rparr>))))))"

definition newest_view :: "string \<Rightarrow> string \<Rightarrow> ledger \<Rightarrow> ledger_view option" where
  "newest_view lineage kind l = (case rev (sort_key v_seq (filter (of_view lineage kind) (views l))) of [] \<Rightarrow> None | v # _ \<Rightarrow> Some v)"

definition persisted_lineage :: "string \<Rightarrow> meta_value \<Rightarrow> ledger \<Rightarrow> meta_value" where
  "persisted_lineage session_id fallback l = (case map_of (meta l) (''session_lineage:'' @ session_id) of None \<Rightarrow> fallback | Some v \<Rightarrow> v)"

datatype candidate = NoView | Refused | WithheldRecovered | BelowFloor | Usable ledger_view

definition emission_floor :: "ledger \<Rightarrow> int" where
  "emission_floor l = (case map_of (meta l) ''emission_provenance_floor'' of
     Some v \<Rightarrow> cast_int v
   | None \<Rightarrow> (case map_of (meta l) ''view_seq'' of Some v \<Rightarrow> cast_int v | None \<Rightarrow> 0))"

definition emission_candidate :: "string \<Rightarrow> ledger \<Rightarrow> candidate" where
  "emission_candidate lineage l = (case newest_view lineage ''emission'' l of
     None \<Rightarrow> NoView
   | Some v \<Rightarrow>
       if v_state v \<notin> {Some ''proposed'', Some ''adopted''} then Refused
       else if (\<exists>r \<in> set_option (map_of (meta l) (''emission_recovered:'' @ lineage)). v_seq v \<le> cast_int r) then WithheldRecovered
       else if v_seq v \<le> emission_floor l then BelowFloor
       else Usable v)"

definition null_first :: "int option \<Rightarrow> int \<times> int" where
  "null_first n = (case n of None \<Rightarrow> (0, 0) | Some v \<Rightarrow> (1, v))"

definition bindings_by_digest :: "string \<Rightarrow> byte list \<Rightarrow> ledger \<Rightarrow> binding list" where
  "bindings_by_digest lineage digest l =
     sort_key (\<lambda>b. (null_first (b_ordinal b), occ_id b)) (filter (\<lambda>b. b_lineage b = lineage \<and> b_digest b = digest) (bindings l))"

section \<open>Marks and stamp observations\<close>

definition ledger_mark :: "string \<Rightarrow> ledger \<Rightarrow> mark_row option" where
  "ledger_mark lineage l = sel_first (\<lambda>m. mk_lineage m = lineage) (l_marks l)"

definition blank_mark :: "string \<Rightarrow> mark_row" where
  "blank_mark lineage = \<lparr>mk_lineage = lineage, mk_max_store_id = None, mk_proof_digest = None, mk_max_leaf_id = None, mk_stamp_policy = ''normal''\<rparr>"

definition update_mark :: "string \<Rightarrow> (mark_row \<Rightarrow> 'v) \<Rightarrow> ('v \<Rightarrow> mark_row \<Rightarrow> mark_row) \<Rightarrow> 'v \<Rightarrow> ledger \<Rightarrow> store_error + (bool \<times> ledger)" where
  "update_mark lineage get put new l =
     (if \<not> l_owned l then Inl TransactionError
      else (case ledger_mark lineage l of
        None \<Rightarrow> Inr (True, l\<lparr>l_marks := l_marks l @ [put new (blank_mark lineage)]\<rparr>)
      | Some m \<Rightarrow> if get m = new then Inr (False, l)
          else Inr (True, l\<lparr>l_marks := upd_where (\<lambda>m. mk_lineage m = lineage) (put new) (l_marks l)\<rparr>)))"

definition update_store_mark :: "string \<Rightarrow> int option \<Rightarrow> ledger \<Rightarrow> store_error + (bool \<times> ledger)" where
  "update_store_mark lineage n = update_mark lineage mk_max_store_id (\<lambda>v m. m\<lparr>mk_max_store_id := v\<rparr>) n"

definition update_leaf_mark :: "string \<Rightarrow> int option \<Rightarrow> ledger \<Rightarrow> store_error + (bool \<times> ledger)" where
  "update_leaf_mark lineage n = update_mark lineage mk_max_leaf_id (\<lambda>v m. m\<lparr>mk_max_leaf_id := v\<rparr>) n"

definition update_legacy_proof_digest :: "string \<Rightarrow> byte list option \<Rightarrow> ledger \<Rightarrow> store_error + (bool \<times> ledger)" where
  "update_legacy_proof_digest lineage d = update_mark lineage mk_proof_digest (\<lambda>v m. m\<lparr>mk_proof_digest := v\<rparr>) d"

definition update_stamp_policy :: "string \<Rightarrow> string \<Rightarrow> ledger \<Rightarrow> store_error + (bool \<times> ledger)" where
  "update_stamp_policy lineage p = update_mark lineage mk_stamp_policy (\<lambda>v m. m\<lparr>mk_stamp_policy := v\<rparr>) p"

datatype stamp_result = STAMP_WRITTEN | STAMP_EXISTS | STAMP_CAPPED

definition observed_by :: "int \<Rightarrow> string \<Rightarrow> observation \<Rightarrow> bool" where
  "observed_by occ kind o1 = (ob_occ_id o1 = occ \<and> ob_kind o1 = kind)"

definition capped_occurrences :: "string \<Rightarrow> observation list \<Rightarrow> int set" where
  "capped_occurrences lineage obs =
     {occ \<in> ob_occ_id ` set obs. \<exists>k \<in> ob_kind ` set obs. 4 \<le> rowcount (\<lambda>o1. ob_lineage o1 = lineage \<and> observed_by occ k o1) obs}"

definition add_stamp_observation :: "string \<Rightarrow> int \<Rightarrow> string option \<Rightarrow> string \<Rightarrow> int \<Rightarrow> string \<Rightarrow> ledger \<Rightarrow> store_error + (stamp_result \<times> ledger)" where
  "add_stamp_observation lineage occ stamp kind seq source l =
     (if \<not> l_owned l then Inl TransactionError
      else (case stamp of None \<Rightarrow> Inl NoStamp
      | Some s \<Rightarrow>
        if \<not> (\<exists>b \<in> set (bindings l). b_lineage b = lineage \<and> occ_id b = occ) then Inl ForeignOccurrence
        else if \<exists>o1 \<in> set (observations l). observed_by occ kind o1 \<and> ob_stamp o1 = s then Inr (STAMP_EXISTS, l)
        else if 4 \<le> rowcount (observed_by occ kind) (observations l) then Inr (STAMP_CAPPED, l)
        else if kind \<notin> {''alt_stamp'', ''carried_stamp''} \<or> source \<notin> {''ledger'', ''legacy''} then Inl IntegrityError
        else (let obs = observations l @ [\<lparr>ob_lineage = lineage, ob_occ_id = occ, ob_stamp = s, ob_kind = kind, ob_view_seq = seq, ob_source = source\<rparr>];
                  l' = l\<lparr>observations := obs\<rparr> in
          if 3 \<le> card (capped_occurrences lineage obs)
          then (case update_stamp_policy lineage ''stamp_unreliable'' l' of Inl e \<Rightarrow> Inl e | Inr (_, l'') \<Rightarrow> Inr (STAMP_WRITTEN, l''))
          else Inr (STAMP_WRITTEN, l'))))"

section \<open>Merging a provisional lineage\<close>

type_synonym stamp_key = "string \<times> byte list"

definition kept_rows :: "string \<Rightarrow> ledger \<Rightarrow> binding list" where
  "kept_rows lineage l = sort_key (\<lambda>b. null_first (b_ordinal b)) (filter (\<lambda>b. b_lineage b = lineage \<and> kept b) (bindings l))"

fun key_targets :: "binding list \<Rightarrow> (stamp_key \<Rightarrow> int option list) \<Rightarrow> stamp_key \<Rightarrow> int option list" where
  "key_targets [] keyed = keyed"
| "key_targets (b # bs) keyed = key_targets bs (case b_stamp b of None \<Rightarrow> keyed
     | Some s \<Rightarrow> keyed((s, b_digest b) := keyed (s, b_digest b) @ [b_store_id b]))"

fun pair_sources :: "binding list \<Rightarrow> (stamp_key \<Rightarrow> int option list) \<Rightarrow> (int option \<times> int option) list" where
  "pair_sources [] keyed = []"
| "pair_sources (b # bs) keyed = (case b_stamp b of None \<Rightarrow> pair_sources bs keyed
     | Some s \<Rightarrow> (case keyed (s, b_digest b) of
         m # ms \<Rightarrow> if m \<noteq> b_store_id b then (b_store_id b, m) # pair_sources bs (keyed((s, b_digest b) := ms)) else pair_sources bs keyed
       | [] \<Rightarrow> pair_sources bs keyed))"

definition merge_pairs :: "binding list \<Rightarrow> binding list \<Rightarrow> (int option \<times> int option) list" where
  "merge_pairs target source = pair_sources source (key_targets target (\<lambda>_. []))"

definition unstamped_skipped :: "binding list \<Rightarrow> binding list \<Rightarrow> nat" where
  "unstamped_skipped target source = rowcount (\<lambda>b. b_stamp b = None \<and> b_digest b \<in> b_digest ` set target) source"

text \<open>\<open>str.removeprefix("provisional:")\<close>, and whether the target already has a row of that session above the provisional ones.\<close>

definition provisional_session :: "string \<Rightarrow> string" where
  "provisional_session p = (if is_prefix ''provisional:'' p then drop 12 p else p)"

definition late_merge :: "string \<Rightarrow> string \<Rightarrow> ledger \<Rightarrow> bool" where
  "late_merge provisional lineage l =
     (let firsts = List.map_filter b_store_id (filter (\<lambda>b. b_lineage b = provisional) (bindings l)) in
      firsts \<noteq> [] \<and> (\<exists>b \<in> set (bindings l). b_lineage b = lineage \<and> kept b \<and>
        (\<exists>sid \<in> set_option (b_store_id b). Min (set firsts) < sid \<and>
          (\<exists>m \<in> set (l_messages l). sm_store_id m = sid \<and> sm_session_id m = provisional_session provisional))))"

definition max_ordinal :: "string \<Rightarrow> ledger \<Rightarrow> int option" where
  "max_ordinal lineage l = (let occ = occupied lineage (bindings l) in if occ = [] then None else Some (Max (set occ)))"

fun move_ordinals :: "string \<Rightarrow> string \<Rightarrow> (int \<times> int) list \<Rightarrow> ledger \<Rightarrow> store_error + ledger" where
  "move_ordinals provisional lineage [] l = Inr l"
| "move_ordinals provisional lineage ((old, new) # ps) l =
     (case checked_bindings (upd_where (has_ordinal provisional old) (\<lambda>b. b\<lparr>b_lineage := lineage, b_ordinal := Some new\<rparr>) (bindings l)) l of
        Inl e \<Rightarrow> Inl e | Inr l' \<Rightarrow> move_ordinals provisional lineage ps l')"

definition emission_key :: "emission \<Rightarrow> string \<times> int \<times> int" where
  "emission_key e = (em_lineage e, em_view_seq e, em_output_index e)"

definition move_tables :: "string \<Rightarrow> string \<Rightarrow> ledger \<Rightarrow> store_error + ledger" where
  "move_tables provisional lineage l =
     (let bs = upd_where (\<lambda>b. b_lineage b = provisional) (\<lambda>b. b\<lparr>b_lineage := lineage\<rparr>) (bindings l);
          obs = upd_where (\<lambda>o1. ob_lineage o1 = provisional) (\<lambda>o1. o1\<lparr>ob_lineage := lineage\<rparr>) (observations l);
          es = upd_where (\<lambda>e. em_lineage e = provisional) (\<lambda>e. e\<lparr>em_lineage := lineage\<rparr>) (emissions l);
          vs = upd_where (\<lambda>v. v_lineage v = provisional) (\<lambda>v. v\<lparr>v_lineage := lineage\<rparr>) (views l) in
      if index_ok bs \<and> distinct (map emission_key es) \<and> distinct (map view_key vs)
      then Inr (l\<lparr>bindings := bs, observations := obs, emissions := es, views := vs\<rparr>) else Inl IntegrityError)"

definition coalesce :: "'a option \<Rightarrow> 'a option \<Rightarrow> 'a option" where
  "coalesce a b = (case a of None \<Rightarrow> b | Some v \<Rightarrow> Some v)"

definition merge_marks :: "string \<Rightarrow> string \<Rightarrow> mark_row list \<Rightarrow> mark_row list" where
  "merge_marks provisional lineage ms =
     (case sel_first (\<lambda>m. mk_lineage m = provisional) ms of
        None \<Rightarrow> ms
      | Some p \<Rightarrow> del_where (\<lambda>m. mk_lineage m = provisional)
         (if \<exists>m \<in> set ms. mk_lineage m = lineage
          then upd_where (\<lambda>m. mk_lineage m = lineage) (\<lambda>m. m\<lparr>mk_proof_digest := coalesce (mk_proof_digest m) (mk_proof_digest p),
                 mk_max_leaf_id := coalesce (mk_max_leaf_id m) (mk_max_leaf_id p),
                 mk_stamp_policy := if ''stamp_unreliable'' \<in> {mk_stamp_policy m, mk_stamp_policy p} then ''stamp_unreliable'' else ''normal''\<rparr>) ms
          else ms @ [p\<lparr>mk_lineage := lineage, mk_max_store_id := None\<rparr>]))"

definition merge_recovered :: "string \<Rightarrow> string \<Rightarrow> (string \<times> meta_value) list \<Rightarrow> (string \<times> meta_value) list" where
  "merge_recovered provisional lineage m =
     (let src = ''emission_recovered:'' @ provisional; dst = ''emission_recovered:'' @ lineage in
      case map_of m src of
        None \<Rightarrow> m
      | Some v \<Rightarrow> del_meta src (set_meta dst (case map_of m dst of None \<Rightarrow> v | Some w \<Rightarrow> MText (int_str (max (cast_int w) (cast_int v)))) m))"

record merge_result =
  mr_pairs :: "(int option \<times> int option) list"
  mr_unstamped_skipped :: nat
  mr_late :: bool
  mr_bindings :: nat
  mr_observations :: nat
  mr_emissions :: nat
  mr_views :: nat

definition merge_provisional :: "string \<Rightarrow> string \<Rightarrow> ledger \<Rightarrow> store_error + (merge_result \<times> ledger)" where
  "merge_provisional provisional lineage l =
     (if \<not> l_owned l then Inl TransactionError
      else (let olds = lineage_ordinals provisional l; maximum = max_ordinal lineage l in
        case plan_ordinals (case maximum of None \<Rightarrow> [] | Some m \<Rightarrow> [m])
               (replicate (length olds) \<lparr>pl_left = maximum, pl_right = None, pl_supersedes = None\<rparr>) of
          Inl e \<Rightarrow> Inl (PlanError e)
        | Inr (new, respace) \<Rightarrow>
           if respace \<noteq> [] then Inl SpaceExhausted
           else (case move_ordinals provisional lineage (zip olds new) l of
              Inl e \<Rightarrow> Inl e
            | Inr l1 \<Rightarrow> (case move_tables provisional lineage l1 of
                Inl e \<Rightarrow> Inl e
              | Inr l2 \<Rightarrow> Inr (\<lparr>mr_pairs = merge_pairs (kept_rows lineage l) (kept_rows provisional l),
                    mr_unstamped_skipped = unstamped_skipped (kept_rows lineage l) (kept_rows provisional l),
                    mr_late = late_merge provisional lineage l,
                    mr_bindings = rowcount (\<lambda>b. b_lineage b = provisional) (bindings l),
                    mr_observations = rowcount (\<lambda>o1. ob_lineage o1 = provisional) (observations l),
                    mr_emissions = rowcount (\<lambda>e. em_lineage e = provisional) (emissions l),
                    mr_views = rowcount (\<lambda>v. v_lineage v = provisional) (views l)\<rparr>,
                  l2\<lparr>views := prune_views lineage ''emission'' (prune_views lineage ''ingest'' (views l2)),
                     l_marks := merge_marks provisional lineage (l_marks l2),
                     meta := set_meta (''adopted_from:'' @ provisional) (MText lineage) (merge_recovered provisional lineage (meta l2))\<rparr>)))))"

section \<open>A merge keeps both orders\<close>

lemma index_ok_map:
  assumes "index_ok bs" "\<And>b. b \<in> set bs \<Longrightarrow> kept (h b) = kept b"
    and "\<And>b c. b \<in> set bs \<Longrightarrow> c \<in> set bs \<Longrightarrow> b_lineage (h b) = b_lineage (h c) \<Longrightarrow> b_ordinal (h b) = b_ordinal (h c) \<Longrightarrow>
      b_ordinal (h b) \<noteq> None \<Longrightarrow> b_lineage b = b_lineage c \<and> b_ordinal b = b_ordinal c \<and> b_ordinal b \<noteq> None"
  shows "index_ok (map h bs)"
  using assms
proof (induction bs)
  case (Cons b bs)
  have "index_ok (map h bs)"
    by (rule Cons.IH) (use Cons.prems(1) in simp, rule Cons.prems(2), simp, rule Cons.prems(3), simp_all)
  moreover have "\<not> (b_lineage (h b) = b_lineage (h c) \<and> b_ordinal (h b) = b_ordinal (h c))"
    if "c \<in> set bs" "kept (h b)" "kept (h c)" "b_ordinal (h b) \<noteq> None" for c
    using Cons.prems(1) Cons.prems(2)[of b] Cons.prems(2)[of c] Cons.prems(3)[of b c] that by auto
  ultimately show ?case by auto
qed simp

definition rekey_some :: "string \<Rightarrow> string \<Rightarrow> (int \<times> int) list \<Rightarrow> binding \<Rightarrow> binding" where
  "rekey_some provisional lineage ps b = (if b_lineage b = provisional then
     (case Option.bind (b_ordinal b) (map_of ps) of None \<Rightarrow> b | Some v \<Rightarrow> b\<lparr>b_lineage := lineage, b_ordinal := Some v\<rparr>) else b)"

lemma moved_single:
  "upd_where (has_ordinal provisional old) (\<lambda>b. b\<lparr>b_lineage := lineage, b_ordinal := Some new\<rparr>) bs = map (rekey_some provisional lineage [(old, new)]) bs"
  unfolding upd_where_def
proof (rule map_cong)
  fix b
  show "(if has_ordinal provisional old b then b\<lparr>b_lineage := lineage, b_ordinal := Some new\<rparr> else b) = rekey_some provisional lineage [(old, new)] b"
    by (cases "b_ordinal b") (auto simp: has_ordinal_def rekey_some_def split: option.splits)
qed simp

lemma moved_comp:
  "provisional \<noteq> lineage \<Longrightarrow> old \<notin> fst ` set ps \<Longrightarrow>
   rekey_some provisional lineage ps (rekey_some provisional lineage [(old, new)] b) = rekey_some provisional lineage ((old, new) # ps) b"
  by (cases "b_ordinal b") (auto simp: rekey_some_def split: option.splits)

lemma moved_occupied:
  "set (occupied lineage (map (rekey_some provisional lineage [(old, new)]) bs)) \<subseteq> insert new (set (occupied lineage bs))"
proof
  fix x assume "x \<in> set (occupied lineage (map (rekey_some provisional lineage [(old, new)]) bs))"
  then obtain b where b: "b \<in> set bs" "b_lineage (rekey_some provisional lineage [(old, new)] b) = lineage"
    "b_ordinal (rekey_some provisional lineage [(old, new)] b) = Some x" by (auto simp: occupied_set)
  then show "x \<in> insert new (set (occupied lineage bs))"
    by (cases "b_ordinal b") (auto simp: occupied_set rekey_some_def split: if_splits)
qed

lemma moved_index_ok:
  assumes "index_ok bs" "new \<notin> set (occupied lineage bs)"
  shows "index_ok (map (rekey_some provisional lineage [(old, new)]) bs)"
proof (rule index_ok_map[OF assms(1)])
  have lin: "b_lineage (rekey_some provisional lineage [(old, new)] b) = (if has_ordinal provisional old b then lineage else b_lineage b)"
    and ord: "b_ordinal (rekey_some provisional lineage [(old, new)] b) = (if has_ordinal provisional old b then Some new else b_ordinal b)" for b
    by (cases "b_ordinal b"; auto simp: has_ordinal_def rekey_some_def)+
  fix b c
  assume bc: "b \<in> set bs" "c \<in> set bs"
    and same: "b_lineage (rekey_some provisional lineage [(old, new)] b) = b_lineage (rekey_some provisional lineage [(old, new)] c)"
      "b_ordinal (rekey_some provisional lineage [(old, new)] b) = b_ordinal (rekey_some provisional lineage [(old, new)] c)"
      "b_ordinal (rekey_some provisional lineage [(old, new)] b) \<noteq> None"
  have "\<not> (b_lineage x = lineage \<and> b_ordinal x = Some new)" if "x \<in> set bs" for x
    using assms(2) that by (auto simp: occupied_set)
  then show "b_lineage b = b_lineage c \<and> b_ordinal b = b_ordinal c \<and> b_ordinal b \<noteq> None"
    using bc same unfolding lin ord by (auto simp: has_ordinal_def split: if_splits)
qed (auto simp: rekey_some_def kept_def split: option.splits)

lemma move_ordinals_eq:
  assumes "provisional \<noteq> lineage" "index_ok (bindings l)" "distinct (map fst ps)" "distinct (map snd ps)"
    and "snd ` set ps \<inter> set (occupied lineage (bindings l)) = {}"
  shows "move_ordinals provisional lineage ps l = Inr (l\<lparr>bindings := map (rekey_some provisional lineage ps) (bindings l)\<rparr>)
    \<and> index_ok (map (rekey_some provisional lineage ps) (bindings l))"
  using assms
proof (induction ps arbitrary: l)
  case Nil
  have "rekey_some provisional lineage [] b = b" for b by (cases "b_ordinal b") (auto simp: rekey_some_def)
  then show ?case using Nil by simp
next
  case (Cons p ps)
  obtain old new where p: "p = (old, new)" by (cases p)
  define l1 where "l1 = l\<lparr>bindings := map (rekey_some provisional lineage [(old, new)]) (bindings l)\<rparr>"
  have ok: "index_ok (bindings l1)" using Cons.prems(2,5) p by (simp add: l1_def moved_index_ok)
  have "snd ` set ps \<inter> set (occupied lineage (bindings l1)) = {}"
    using Cons.prems(4,5) moved_occupied[of lineage provisional old new "bindings l"] p by (auto simp: l1_def)
  then have IH: "move_ordinals provisional lineage ps l1 = Inr (l1\<lparr>bindings := map (rekey_some provisional lineage ps) (bindings l1)\<rparr>)
      \<and> index_ok (map (rekey_some provisional lineage ps) (bindings l1))"
    using Cons.prems ok by (intro Cons.IH) auto
  have comp: "map (rekey_some provisional lineage ps) (bindings l1) = map (rekey_some provisional lineage (p # ps)) (bindings l)"
    using Cons.prems(1,3) by (simp add: l1_def p moved_comp)
  have "checked_bindings (map (rekey_some provisional lineage [(old, new)]) (bindings l)) l = Inr l1"
    using ok by (simp add: checked_bindings_def l1_def)
  then show ?case using IH unfolding comp by (simp add: p moved_single) (simp add: l1_def)
qed

text \<open>What a merge does to a binding: the occurrences of the provisional lineage join the target with new labels.\<close>

definition rekeyed :: "string \<Rightarrow> string \<Rightarrow> (int \<Rightarrow> int) \<Rightarrow> binding \<Rightarrow> binding" where
  "rekeyed provisional lineage f b = (if b_lineage b = provisional
     then b\<lparr>b_lineage := lineage, b_ordinal := map_option f (b_ordinal b)\<rparr> else b)"

lemma moved_rekeyed:
  assumes "provisional \<noteq> lineage" "\<And>x. x \<in> set (occupied provisional bs) \<Longrightarrow> map_of ps x = Some (f x)"
  shows "upd_where (\<lambda>b. b_lineage b = provisional) (\<lambda>b. b\<lparr>b_lineage := lineage\<rparr>) (map (rekey_some provisional lineage ps) bs)
    = map (rekeyed provisional lineage f) bs"
  unfolding upd_where_def map_map
proof (rule map_cong)
  fix b assume "b \<in> set bs"
  then have "b_lineage b = provisional \<Longrightarrow> b_ordinal b = Some x \<Longrightarrow> map_of ps x = Some (f x)" for x
    using assms(2) by (auto simp: occupied_set)
  with assms(1) show "((\<lambda>b. if b_lineage b = provisional then b\<lparr>b_lineage := lineage\<rparr> else b) \<circ> rekey_some provisional lineage ps) b
      = rekeyed provisional lineage f b"
    by (cases b; cases "b_ordinal b") (auto simp: rekey_some_def rekeyed_def)
qed simp

lemma append_plan:
  assumes "plan_ordinals (case maximum of None \<Rightarrow> [] | Some m \<Rightarrow> [m]) (replicate k \<lparr>pl_left = maximum, pl_right = None, pl_supersedes = None\<rparr>) = Inr (new, [])"
  shows "length new = k" "sorted_wrt (<) new" "\<forall>m \<in> set_option maximum. \<forall>v \<in> set new. m < v"
proof -
  note facts = plan_ordinals_facts[OF assms]
  show "length new = k" "sorted_wrt (<) new" using facts(1,2) by auto
  show "\<forall>m \<in> set_option maximum. \<forall>v \<in> set new. m < v"
    using facts(6) by (fastforce simp: list_all2_conv_all_nth in_set_conv_nth placement_respected_def relabel_def)
qed

lemma zip_strict_mono:
  assumes "sorted_wrt (<) xs" "sorted_wrt (<) ys" "length xs = length (ys :: int list)"
  shows "strict_mono_on (set xs) (\<lambda>x. the (map_of (zip xs ys) (x :: int)))"
proof (rule strict_mono_onI)
  fix x y assume "x \<in> set xs" "y \<in> set xs" "x < y"
  then obtain i j where ij: "i < length xs" "j < length xs" "x = xs ! i" "y = xs ! j" by (auto simp: in_set_conv_nth)
  then have "i < j" using \<open>x < y\<close> assms(1) by (metis linorder_neqE_nat order.asym sorted_wrt_nth_less)
  moreover have "distinct xs" using assms(1) by (simp add: strict_sorted_iff)
  ultimately show "the (map_of (zip xs ys) x) < the (map_of (zip xs ys) y)"
    using ij assms by (simp add: map_of_zip_nth sorted_wrt_nth_less)
qed

text \<open>
  C11: Adopting a provisional lineage keeps both histories: a merge that succeeds re-keys every binding of the
  provisional lineage, keeps each occurrence identifier, leaves the target's and all other bindings as they were,
  puts the adopted occurrences after every occurrence of the target and in their own order, and keeps the unique
  index.
\<close>

theorem merge_provisional_order:
  assumes "merge_provisional provisional lineage l = Inr (res, l')" "provisional \<noteq> lineage" "index_ok (bindings l)"
  shows "\<exists>f. bindings l' = map (rekeyed provisional lineage f) (bindings l) \<and> index_ok (bindings l')
    \<and> strict_mono_on (set (occupied provisional (bindings l))) f
    \<and> (\<forall>x \<in> set (occupied lineage (bindings l)). \<forall>y \<in> set (occupied provisional (bindings l)). x < f y)"
proof -
  let ?olds = "lineage_ordinals provisional l" and ?max = "max_ordinal lineage l"
  obtain new l1 l2 where plan: "plan_ordinals (case ?max of None \<Rightarrow> [] | Some m \<Rightarrow> [m])
        (replicate (length ?olds) \<lparr>pl_left = ?max, pl_right = None, pl_supersedes = None\<rparr>) = Inr (new, [])"
    and l1: "move_ordinals provisional lineage (zip ?olds new) l = Inr l1" and l2: "move_tables provisional lineage l1 = Inr l2"
    and l': "bindings l' = bindings l2"
    using assms(1) by (auto simp: merge_provisional_def Let_def split: if_splits sum.splits prod.splits)
  note app = append_plan[OF plan]
  define f where "f = (\<lambda>x. the (map_of (zip ?olds new) x))"
  have olds: "sorted_wrt (<) ?olds" "set ?olds = set (occupied provisional (bindings l))"
    by (simp_all add: lineage_ordinals_def strict_sorted_iff)
  have above: "x < v" if "x \<in> set (occupied lineage (bindings l))" "v \<in> set new" for x v
    using app(3) that Max_ge[of "set (occupied lineage (bindings l))" x]
    by (fastforce simp: max_ordinal_def Let_def split: if_splits)
  have "l1 = l\<lparr>bindings := map (rekey_some provisional lineage (zip ?olds new)) (bindings l)\<rparr>"
    using move_ordinals_eq[OF assms(2,3), of "zip ?olds new"] l1 app above olds(1)
    by (force simp: strict_sorted_iff dest: set_zip_rightD)
  moreover have "upd_where (\<lambda>b. b_lineage b = provisional) (\<lambda>b. b\<lparr>b_lineage := lineage\<rparr>) (map (rekey_some provisional lineage (zip ?olds new)) (bindings l))
      = map (rekeyed provisional lineage f) (bindings l)"
  proof (rule moved_rekeyed[OF assms(2)])
    fix x assume "x \<in> set (occupied provisional (bindings l))"
    then have "x \<in> set ?olds" using olds(2) by simp
    then have "map_of (zip ?olds new) x \<noteq> None" using app(1) by (simp add: map_of_zip_is_None)
    then show "map_of (zip ?olds new) x = Some (f x)" by (simp add: f_def)
  qed
  ultimately have bs: "bindings l2 = map (rekeyed provisional lineage f) (bindings l)" "index_ok (bindings l2)"
    using l2 by (auto simp: move_tables_def Let_def split: if_splits)
  moreover have "strict_mono_on (set (occupied provisional (bindings l))) f"
    using zip_strict_mono[OF olds(1) app(2)] app(1) by (simp add: f_def olds(2))
  moreover have "f y \<in> set new" if "y \<in> set (occupied provisional (bindings l))" for y
  proof -
    have "y \<in> set ?olds" using that olds(2) by simp
    then obtain i where "i < length ?olds" "y = ?olds ! i" by (metis in_set_conv_nth)
    then show ?thesis using app(1) olds(1) by (simp add: f_def map_of_zip_nth strict_sorted_iff)
  qed
  ultimately show ?thesis using l' above by auto
qed

definition sample_adoption :: ledger where
  "sample_adoption = sample_ledger\<lparr>bindings := [sample_binding 1 5, sample_binding 2 6, (sample_binding 3 5)\<lparr>b_lineage := ''provisional:s''\<rparr>], occ_seq := 3\<rparr>"

lemma sample_append: "plan_ordinals [6] [\<lparr>pl_left = Some 6, pl_right = None, pl_supersedes = None\<rparr>] = Inr ([1048582], [])"
  by (simp add: plan_ordinals_def MAX_ORDINAL_def ORDINAL_STEP_def known_bounds_def left_bound_def right_bound_def natural_gap_def
      superseded_within_def bisect_left_def group_def place_gap_def gap_step_def gap_label_def upper_of_def lower_of_def Let_def)

lemma sample_merge: "\<exists>res l'. merge_provisional ''provisional:s'' ''L'' sample_adoption = Inr (res, l')"
proof -
  have o: "lineage_ordinals ''provisional:s'' sample_adoption = [5]" "max_ordinal ''L'' sample_adoption = Some 6"
    by (simp_all add: lineage_ordinals_def max_ordinal_def occupied_def sample_adoption_def sample_ledger_def sample_binding_def List.map_filter_def)
  show ?thesis unfolding merge_provisional_def o Let_def
    by (simp add: sample_append) (simp add: sample_adoption_def sample_ledger_def sample_binding_def checked_bindings_def kept_def
        upd_where_def has_ordinal_def move_tables_def Let_def)
qed

theorem merge_provisional_order_witness:
  "\<exists>res l' f. merge_provisional ''provisional:s'' ''L'' sample_adoption = Inr (res, l')
    \<and> bindings l' = map (rekeyed ''provisional:s'' ''L'' f) (bindings sample_adoption) \<and> index_ok (bindings l')"
proof -
  have "index_ok (bindings sample_adoption)" by (simp add: sample_adoption_def sample_ledger_def sample_binding_def kept_def)
  then show ?thesis using sample_merge merge_provisional_order[of "''provisional:s''" "''L''" sample_adoption] by fastforce
qed

section \<open>The newest views survive\<close>

definition view_counter :: "ledger \<Rightarrow> int" where
  "view_counter l = (case map_of (meta l) ''view_seq'' of None \<Rightarrow> 0 | Some v \<Rightarrow> cast_int v)"

definition views_ok :: "ledger \<Rightarrow> bool" where
  "views_ok l \<longleftrightarrow> distinct (map view_key (views l)) \<and> (\<forall>v \<in> set (views l). v_seq v \<le> view_counter l)
     \<and> (\<forall>lineage kind. length (filter (of_view lineage kind) (views l)) \<le> 2)"

lemma set_meta_lookup: "map_of (set_meta k v m) k' = (if k' = k then Some v else map_of m k')"
proof (cases "k \<in> fst ` set m")
  case True
  have "map_of (map (\<lambda>(a, b). (a, if a = k then v else b)) m) k' = (if k' = k then map_option (\<lambda>_. v) (map_of m k) else map_of m k')"
    by (induction m) auto
  moreover have "map_of m k \<noteq> None" using True by (simp add: map_of_eq_None_iff)
  ultimately show ?thesis using True by (auto simp: set_meta_def)
qed (auto simp: set_meta_def map_add_def map_of_eq_None_iff[THEN iffD2] split: option.splits)

lemma next_view_seq_counter:
  "next_view_seq l = Inr (seq, l') \<Longrightarrow> seq = view_counter l + 1 \<and> view_counter l' = seq \<and> views l' = views l"
  by (auto simp: next_view_seq_def view_counter_def set_meta_lookup cast_int_def split: if_splits option.splits)

lemma seqs_distinct:
  "distinct (map view_key vs) \<Longrightarrow> distinct (map v_seq (filter (of_view lineage kind) vs))"
  by (induction vs) (auto simp: of_view_def view_key_def image_iff)

lemma prune_views_at_most_two:
  assumes "distinct (map view_key vs)"
  shows "length (filter (of_view lineage kind) (prune_views lineage kind vs)) \<le> 2"
proof -
  let ?kept = "filter (of_view lineage kind) (prune_views lineage kind vs)"
  have "distinct (map view_key (prune_views lineage kind vs))"
    using assms by (simp add: prune_views_def del_where_def distinct_map_filter)
  then have "length ?kept = card (set (map v_seq ?kept))" using seqs_distinct distinct_card by (metis length_map)
  also have "\<dots> \<le> card (set (newest_seqs lineage kind vs))"
    by (rule card_mono) (auto simp: prune_views_def del_where_def)
  also have "\<dots> \<le> length (newest_seqs lineage kind vs)" by (rule card_length)
  also have "\<dots> \<le> 2" by (simp add: newest_seqs_def)
  finally show ?thesis .
qed

lemma prune_views_other:
  "\<not> (lineage' = lineage \<and> kind' = kind) \<Longrightarrow>
   filter (of_view lineage' kind') (prune_views lineage kind vs) = filter (of_view lineage' kind') vs"
  by (auto simp: prune_views_def del_where_def of_view_def intro!: filter_cong)

lemma newest_view_Some:
  "newest_view lineage kind l = Some v \<Longrightarrow> v \<in> set (views l) \<and> of_view lineage kind v \<and>
     (\<forall>w \<in> set (views l). of_view lineage kind w \<longrightarrow> v_seq w \<le> v_seq v)"
proof -
  let ?xs = "sort_key v_seq (filter (of_view lineage kind) (views l))"
  assume "newest_view lineage kind l = Some v"
  then obtain ys where ys: "?xs = ys @ [v]" by (auto simp: newest_view_def split: list.splits)
  then have "v \<in> set ?xs" by simp
  moreover have "sorted (map v_seq (ys @ [v]))" unfolding ys[symmetric] by (rule sorted_sort_key)
  then have "\<forall>w \<in> set (ys @ [v]). v_seq w \<le> v_seq v" by (auto simp: sorted_append)
  then have "\<forall>w \<in> set ?xs. v_seq w \<le> v_seq v" unfolding ys .
  ultimately show ?thesis by auto
qed

lemma newest_view_eq:
  assumes "distinct (map view_key (views l))" "v \<in> set (views l)" "of_view lineage kind v"
    and "\<forall>w \<in> set (views l). of_view lineage kind w \<longrightarrow> v_seq w \<le> v_seq v"
  shows "newest_view lineage kind l = Some v"
proof -
  have "v \<in> set (sort_key v_seq (filter (of_view lineage kind) (views l)))" using assms(2,3) by simp
  then have "sort_key v_seq (filter (of_view lineage kind) (views l)) \<noteq> []" by (metis empty_iff list.set(1))
  then obtain w where w: "newest_view lineage kind l = Some w"
    by (cases "rev (sort_key v_seq (filter (of_view lineage kind) (views l)))") (auto simp: newest_view_def)
  note n = newest_view_Some[OF w]
  have "v_seq v = v_seq w" using n assms by (intro antisym) auto
  then have "view_key v = view_key w" using n assms(3) by (simp add: view_key_def of_view_def)
  then show ?thesis using w n assms(1,2) by (metis distinct_map inj_onD)
qed

lemma prune_keeps_newest:
  assumes "\<forall>w \<in> set vs. of_view lineage kind w \<longrightarrow> v_seq w < v_seq v" "of_view lineage kind v"
  shows "v \<in> set (prune_views lineage kind (vs @ [v]))"
    and "w \<in> set vs \<Longrightarrow> of_view lineage kind w \<Longrightarrow> \<forall>u \<in> set vs. of_view lineage kind u \<longrightarrow> v_seq u \<le> v_seq w \<Longrightarrow>
      w \<in> set (prune_views lineage kind (vs @ [v]))"
proof -
  let ?xs = "map v_seq (filter (of_view lineage kind) vs)"
  have "sort (?xs @ [v_seq v]) = sort ?xs @ [v_seq v]"
    by (rule properties_for_sort) (use assms(1) in \<open>auto simp: sorted_append\<close>)
  then have newest: "newest_seqs lineage kind (vs @ [v]) = v_seq v # take 1 (rev (sort ?xs))"
    using assms(2) by (simp add: newest_seqs_def numeral_2_eq_2)
  then show "v \<in> set (prune_views lineage kind (vs @ [v]))" by (simp add: prune_views_def del_where_def)
  assume w: "w \<in> set vs" "of_view lineage kind w" "\<forall>u \<in> set vs. of_view lineage kind u \<longrightarrow> v_seq u \<le> v_seq w"
  obtain x ys where ys: "rev (sort ?xs) = x # ys"
    using w by (cases "rev (sort ?xs)") (auto simp: filter_empty_conv simp flip: set_empty)
  have "x \<in> set ?xs" using arg_cong[OF ys, of set] by auto
  moreover have "v_seq w \<le> x"
  proof -
    have "v_seq w \<in> set (rev (sort ?xs))" using w by auto
    moreover have "sorted_wrt (\<ge>) (rev (sort ?xs))" by (simp add: sorted_wrt_rev)
    ultimately show ?thesis unfolding ys by auto
  qed
  ultimately have "x = v_seq w" using w(3) by auto
  then show "w \<in> set (prune_views lineage kind (vs @ [v]))" using w newest ys by (simp add: prune_views_def del_where_def)
qed

text \<open>
  Writing a view makes it the newest of its lineage and kind, with entries that decode to the ones given; the
  view that was newest before is kept, at most two views of each lineage and kind remain, and the views of other
  lineages and kinds stay.
\<close>

theorem write_view_newest:
  assumes "views_ok l" "write_view blake salt lineage kind state entries None precomputed l = Inr (seq, l')"
  shows "views_ok l' \<and> (\<exists>v. newest_view lineage kind l' = Some v \<and> v_seq v = seq \<and> v_state v = state \<and> decode_entries (v_entries v) = Inr entries)
    \<and> set_option (newest_view lineage kind l) \<subseteq> set (views l')
    \<and> (\<forall>lineage' kind'. (lineage', kind') \<noteq> (lineage, kind) \<longrightarrow>
         filter (of_view lineage' kind') (views l') = filter (of_view lineage' kind') (views l))"
proof -
  obtain encoded chain l1 where enc: "encode_entries entries = Inr encoded" and seq: "next_view_seq l = Inr (seq, l1)"
    and w: "write_view blake salt lineage kind state entries None precomputed l = Inr (seq, l1\<lparr>views := prune_views lineage kind
          (views l1 @ [\<lparr>v_lineage = lineage, v_seq = seq, v_kind = kind, v_state = state, v_entries = encoded, v_chain = chain\<rparr>])\<rparr>)"
    using assms(2) by (auto simp: write_view_def Let_def split: if_splits sum.splits prod.splits)
  define v where "v = \<lparr>v_lineage = lineage, v_seq = seq, v_kind = kind, v_state = state, v_entries = encoded, v_chain = chain\<rparr>"
  have l': "l' = l1\<lparr>views := prune_views lineage kind (views l @ [v])\<rparr>" and c: "seq = view_counter l + 1" "view_counter l1 = seq"
    using w assms(2) next_view_seq_counter[OF seq] by (auto simp: v_def)
  have v: "of_view lineage kind v" "v_seq v = seq" by (auto simp: v_def of_view_def)
  have below: "\<forall>w \<in> set (views l). v_seq w < v_seq v" using assms(1) c v(2) by (auto simp: views_ok_def)
  have dist: "distinct (map view_key (views l @ [v]))" using assms(1) below by (auto simp: views_ok_def view_key_def)
  then have "distinct (map view_key (prune_views lineage kind (views l @ [v])))"
    unfolding prune_views_def del_where_def by (rule distinct_map_filter)
  then have dist': "distinct (map view_key (views l'))" by (simp add: l')
  have sub: "set (views l') \<subseteq> insert v (set (views l))" by (auto simp: l' prune_views_def del_where_def)
  have vin: "v \<in> set (views l')" using prune_keeps_newest(1)[of "views l" lineage kind v] below v(1) by (simp add: l')
  have other: "filter (of_view lineage' kind') (views l') = filter (of_view lineage' kind') (views l)"
    if "(lineage', kind') \<noteq> (lineage, kind)" for lineage' kind'
    using that v(1) by (auto simp: l' prune_views_other of_view_def)
  have "length (filter (of_view lineage' kind') (views l')) \<le> 2" for lineage' kind'
    using prune_views_at_most_two[OF dist, of lineage kind] other[of lineage' kind'] assms(1)
    by (cases "(lineage', kind') = (lineage, kind)") (auto simp: views_ok_def l')
  moreover have "\<forall>w \<in> set (views l'). v_seq w \<le> view_counter l'" using sub below c v(2) by (force simp: l' view_counter_def)
  ultimately have "views_ok l'" using dist' by (simp add: views_ok_def)
  moreover have "newest_view lineage kind l' = Some v" using dist' vin v(1) below sub by (intro newest_view_eq) force+
  moreover have "set_option (newest_view lineage kind l) \<subseteq> set (views l')"
    using newest_view_Some[of lineage kind l] prune_keeps_newest(2)[of "views l" lineage kind v] below v(1) by (auto simp: l')
  moreover have "decode_entries (v_entries v) = Inr entries" using enc by (simp add: v_def round_trip_entries)
  moreover have "v_state v = state" by (simp add: v_def)
  ultimately show ?thesis using v(2) other by blast
qed

theorem write_view_newest_witness:
  "\<exists>v l'. write_view toy_blake [] ''L'' ''ingest'' None [] None None sample_ledger = Inr (2, l') \<and> views_ok l'
     \<and> newest_view ''L'' ''ingest'' l' = Some v \<and> decode_entries (v_entries v) = Inr []"
proof -
  have w: "\<exists>l'. write_view toy_blake [] ''L'' ''ingest'' None [] None None sample_ledger = Inr (2, l')"
    by (simp add: write_view_def encode_entries_def prefix_chain_def next_view_seq_def sample_ledger_def cast_int_def)
  have "views_ok sample_ledger" by (simp add: views_ok_def sample_ledger_def)
  then show ?thesis using w write_view_newest[of sample_ledger toy_blake "[]" "''L''" "''ingest''" None "[]" None 2] by blast
qed

section \<open>Stamp observations are bounded\<close>

definition observation_key :: "observation \<Rightarrow> int \<times> string \<times> string" where
  "observation_key o1 = (ob_occ_id o1, ob_kind o1, ob_stamp o1)"

definition observations_ok :: "observation list \<Rightarrow> bool" where
  "observations_ok obs \<longleftrightarrow> distinct (map observation_key obs) \<and> (\<forall>occ kind. rowcount (observed_by occ kind) obs \<le> 4)"

lemma update_stamp_policy_mark:
  "update_stamp_policy lineage p l = Inr (b, l') \<Longrightarrow>
   observations l' = observations l \<and> (\<exists>m. ledger_mark lineage l' = Some m \<and> mk_stamp_policy m = p)"
proof -
  assume up: "update_stamp_policy lineage p l = Inr (b, l')"
  have put: "sel_first (\<lambda>m. mk_lineage m = lineage) (upd_where (\<lambda>m. mk_lineage m = lineage) (\<lambda>m. m\<lparr>mk_stamp_policy := p\<rparr>) ms)
      = map_option (\<lambda>m. m\<lparr>mk_stamp_policy := p\<rparr>) (sel_first (\<lambda>m. mk_lineage m = lineage) ms)" for ms
    by (induction ms) (auto simp: sel_first_def upd_where_def)
  show ?thesis using up
    by (auto simp: update_stamp_policy_def update_mark_def ledger_mark_def blank_mark_def put sel_first_append split: if_splits option.splits)
      (simp add: sel_first_def)
qed

text \<open>
  The evidence kept per occurrence is bounded and a noisy host is noticed: adding a stamp observation keeps
  at most four stamps per occurrence and kind, without duplicates; a row is appended exactly when the result says
  so; and once three occurrences of the lineage have reached the cap, the write marks the lineage's stamps
  unreliable.
\<close>

theorem stamp_observations_bounded:
  assumes "observations_ok (observations l)" "add_stamp_observation lineage occ stamp kind seq source l = Inr (r, l')"
  shows "observations_ok (observations l')
    \<and> length (observations l') = length (observations l) + (if r = STAMP_WRITTEN then 1 else 0)
    \<and> (r = STAMP_WRITTEN \<and> 3 \<le> card (capped_occurrences lineage (observations l')) \<longrightarrow>
         (\<exists>m. ledger_mark lineage l' = Some m \<and> mk_stamp_policy m = ''stamp_unreliable''))"
proof (cases "r = STAMP_WRITTEN")
  case False
  then show ?thesis using assms by (auto simp: add_stamp_observation_def Let_def split: if_splits option.splits sum.splits)
next
  case True
  then obtain s where s: "stamp = Some s" "\<not> (\<exists>o1 \<in> set (observations l). observed_by occ kind o1 \<and> ob_stamp o1 = s)"
    "rowcount (observed_by occ kind) (observations l) < 4"
    using assms(2) by (auto simp: add_stamp_observation_def split: if_splits option.splits)
  define row where "row = \<lparr>ob_lineage = lineage, ob_occ_id = occ, ob_stamp = s, ob_kind = kind, ob_view_seq = seq, ob_source = source\<rparr>"
  define l1 where "l1 = l\<lparr>observations := observations l @ [row]\<rparr>"
  have post: "if 3 \<le> card (capped_occurrences lineage (observations l1)) then \<exists>b. update_stamp_policy lineage ''stamp_unreliable'' l1 = Inr (b, l') else l' = l1"
    using assms(2) True s by (auto simp: add_stamp_observation_def Let_def row_def l1_def split: if_splits sum.splits)
  then have obs: "observations l' = observations l @ [row]"
    using update_stamp_policy_mark[of lineage "''stamp_unreliable''" l1] by (auto simp: l1_def split: if_splits)
  have "observations_ok (observations l @ [row])"
    using assms(1) s by (auto simp: observations_ok_def rowcount_def observation_key_def observed_by_def row_def)
  then show ?thesis using True obs post update_stamp_policy_mark[of lineage "''stamp_unreliable''" l1] by (auto simp: l1_def)
qed

theorem stamp_observations_bounded_witness:
  "\<exists>l'. add_stamp_observation ''L'' 1 (Some ''9.5'') ''alt_stamp'' 2 ''ledger'' sample_ledger = Inr (STAMP_WRITTEN, l')
     \<and> observations_ok (observations l')"
proof -
  have "\<exists>l'. add_stamp_observation ''L'' 1 (Some ''9.5'') ''alt_stamp'' 2 ''ledger'' sample_ledger = Inr (STAMP_WRITTEN, l')"
    by (simp add: add_stamp_observation_def sample_ledger_def sample_binding_def rowcount_def capped_occurrences_def observed_by_def)
  moreover have "observations_ok (observations sample_ledger)" by (simp add: observations_ok_def sample_ledger_def rowcount_def)
  ultimately show ?thesis using stamp_observations_bounded by blast
qed

section \<open>The first verdict on an emission is final\<close>

text \<open>
  An emission leaves the proposed state once: after a first verdict on a view's emissions, any later verdict
  moves nothing and changes nothing; and when the first verdict was a refusal of the lineage's newest emission
  view, that view is no longer a candidate.
\<close>

theorem first_verdict_final:
  assumes "set_emission_state lineage seq s l = Inr ((moved, changed), l')" "s' \<in> {''adopted'', ''refused''}"
  shows "set_emission_state lineage seq s' l' = Inr ((0, 0), l')
    \<and> (s = ''refused'' \<and> 0 < moved \<and> distinct (map view_key (views l)) \<longrightarrow>
        (\<forall>v. newest_view lineage ''emission'' l = Some v \<and> v_seq v = seq \<and> v_state v = Some ''proposed'' \<longrightarrow>
             emission_candidate lineage l' = Refused))"
proof -
  let ?P = "\<lambda>e. em_lineage e = lineage \<and> em_view_seq e = seq \<and> em_state e = ''proposed''"
  let ?V = "\<lambda>v. v_lineage v = lineage \<and> v_seq v = seq \<and> v_kind v = ''emission'' \<and> v_state v = Some ''proposed''"
  have s: "s \<in> {''adopted'', ''refused''}" "l_owned l" using assms(1) by (auto simp: set_emission_state_def split: if_splits)
  have l': "emissions l' = upd_where ?P (\<lambda>e. e\<lparr>em_state := s\<rparr>) (emissions l)" "l_owned l'" "meta l' = meta l"
    "0 < moved \<Longrightarrow> views l' = upd_where ?V (\<lambda>v. v\<lparr>v_state := Some s\<rparr>) (views l)"
  proof -
    define l1 where "l1 = l\<lparr>emissions := upd_where ?P (\<lambda>e. e\<lparr>em_state := s\<rparr>) (emissions l)\<rparr>"
    have "set_emission_state lineage seq s l = (if rowcount ?P (emissions l) = 0 then Inr ((0, 0), l1)
        else Inr ((rowcount ?P (emissions l), rowcount ?V (views l)), l1\<lparr>views := upd_where ?V (\<lambda>v. v\<lparr>v_state := Some s\<rparr>) (views l)\<rparr>))"
      by (simp only: set_emission_state_def Let_def l1_def s not_True_eq_False if_False)
    then have dis: "moved = 0 \<and> l' = l1 \<or> l' = l1\<lparr>views := upd_where ?V (\<lambda>v. v\<lparr>v_state := Some s\<rparr>) (views l)\<rparr>"
      unfolding assms(1) by (cases "rowcount ?P (emissions l) = 0") (simp_all only: if_True if_False sum.inject prod.inject simp_thms)
    have l1: "emissions l1 = upd_where ?P (\<lambda>e. e\<lparr>em_state := s\<rparr>) (emissions l)" "l_owned l1" "meta l1 = meta l"
      using s(2) by (simp_all add: l1_def)
    have same: "emissions l' = emissions l1 \<and> l_owned l' = l_owned l1 \<and> meta l' = meta l1"
      using dis
    proof
      assume a: "l' = l1\<lparr>views := upd_where ?V (\<lambda>v. v\<lparr>v_state := Some s\<rparr>) (views l)\<rparr>"
      show ?thesis unfolding a by simp
    qed simp
    then show "emissions l' = upd_where ?P (\<lambda>e. e\<lparr>em_state := s\<rparr>) (emissions l)" "l_owned l'" "meta l' = meta l"
      unfolding l1(1,3)[symmetric] by (elim conjE; simp add: l1(2))+
    show "views l' = upd_where ?V (\<lambda>v. v\<lparr>v_state := Some s\<rparr>) (views l)" if "0 < moved"
      using dis
    proof
      assume a: "l' = l1\<lparr>views := upd_where ?V (\<lambda>v. v\<lparr>v_state := Some s\<rparr>) (views l)\<rparr>"
      show ?thesis unfolding a by simp
    qed (use that in simp)
  qed
  have none: "\<forall>e \<in> set (emissions l'). \<not> ?P e" 
  proof
    fix e assume "e \<in> set (emissions l')"
    then obtain e0 where "e = (if ?P e0 then e0\<lparr>em_state := s\<rparr> else e0)" unfolding l'(1) upd_where_def set_map by blast
    then show "\<not> ?P e" using s(1) by (cases "?P e0") auto
  qed
  then have "rowcount ?P (emissions l') = 0" by (simp add: rowcount_zero_iff)
  moreover have "upd_where ?P f (emissions l') = emissions l'" for f using none by (rule upd_where_id)
  ultimately have first: "set_emission_state lineage seq s' l' = Inr ((0, 0), l')"
    using assms(2) l'(2) by (auto simp: set_emission_state_def Let_def)
  have "emission_candidate lineage l' = Refused"
    if ref: "s = ''refused''" "0 < moved" "distinct (map view_key (views l))"
      and v: "newest_view lineage ''emission'' l = Some v" "v_seq v = seq" "v_state v = Some ''proposed''" for v
  proof -
    note n = newest_view_Some[OF v(1)]
    define w where "w = v\<lparr>v_state := Some s\<rparr>"
    have keys: "map view_key (views l') = map view_key (views l)"
      unfolding l'(4)[OF ref(2)] upd_where_def by (auto simp: view_key_def)
    have "newest_view lineage ''emission'' l' = Some w"
    proof (rule newest_view_eq)
      show "distinct (map view_key (views l'))" using ref(3) keys by simp
      show "w \<in> set (views l')" using n v by (force simp: l'(4)[OF ref(2)] upd_where_def w_def of_view_def image_iff)
      show "of_view lineage ''emission'' w" using n by (simp add: w_def of_view_def)
      show "\<forall>u \<in> set (views l'). of_view lineage ''emission'' u \<longrightarrow> v_seq u \<le> v_seq w"
        using n by (auto simp: l'(4)[OF ref(2)] upd_where_def w_def of_view_def)
    qed
    then show ?thesis using ref(1) by (simp add: emission_candidate_def w_def)
  qed
  with first show ?thesis by blast
qed

definition sample_emitted :: "string \<Rightarrow> ledger" where
  "sample_emitted s = sample_ledger\<lparr>
     emissions := [\<lparr>emission_id = 1, em_lineage = ''L'', em_view_seq = 1, em_output_index = 0, em_digest = [], em_kind = ''summary'',
       em_state = s, em_next_occ_id = None, em_recovered_store_id = None\<rparr>],
     views := [\<lparr>v_lineage = ''L'', v_seq = 1, v_kind = ''emission'', v_state = Some s, v_entries = [1], v_chain = []\<rparr>]\<rparr>"

theorem first_verdict_final_witness:
  "set_emission_state ''L'' 1 ''refused'' (sample_emitted ''proposed'') = Inr ((1, 1), sample_emitted ''refused'')
   \<and> set_emission_state ''L'' 1 ''adopted'' (sample_emitted ''refused'') = Inr ((0, 0), sample_emitted ''refused'')
   \<and> emission_candidate ''L'' (sample_emitted ''refused'') = Refused"
proof -
  have e: "set_emission_state ''L'' 1 ''refused'' (sample_emitted ''proposed'') = Inr ((1, 1), sample_emitted ''refused'')"
    by (simp add: set_emission_state_def sample_emitted_def sample_ledger_def rowcount_def upd_where_def)
  have "newest_view ''L'' ''emission'' (sample_emitted ''proposed'') = Some \<lparr>v_lineage = ''L'', v_seq = 1, v_kind = ''emission'',
      v_state = Some ''proposed'', v_entries = [1], v_chain = []\<rparr>" "distinct (map view_key (views (sample_emitted ''proposed'')))"
    by (simp_all add: newest_view_def sample_emitted_def of_view_def)
  then show ?thesis using e first_verdict_final[OF e, of "''adopted''"] by simp
qed

end
