(* ===== verification/Pending_Emissions.thy ===== *)
theory Pending_Emissions
  imports Prelude
begin

text \<open>
  The registry of pending emissions of \<^verbatim>\<open>src/ingest_ledger.py\<close>: payloads that a compress call left to be
  recorded by a later ingest.  Engines claim entries with a token, write them to their store outside the
  registry lock, and settle them.

  The registry is the module's dictionary in insertion order; each operation runs under the lock, so a step is
  one operation.  Python compares entries and tokens by identity: an entry carries the number of the
  \<open>mark_pending_emission\<close> call that created it, a token is a number.
\<close>

type_synonym store_key = "string \<times> string"

record pending =
  pe_id :: nat
  pe_lineage :: string
  pe_created_at :: timestamp
  pe_claim :: "nat option"
  pe_digests :: "string list"

type_synonym pending_table = "((store_key \<times> string) \<times> pending list) list"

record registry =
  table :: pending_table
  calls :: nat

definition append_entry :: "store_key \<times> string \<Rightarrow> pending \<Rightarrow> pending_table \<Rightarrow> pending_table" where
  "append_entry key e t = (if key \<in> fst ` set t
     then map (\<lambda>(k, es). (k, if k = key then (if length (es @ [e]) > 2 then tl (es @ [e]) else es @ [e]) else es)) t
     else t @ [(key, [e])])"

definition mark_pending_emission :: "store_key \<Rightarrow> string \<Rightarrow> timestamp \<Rightarrow> string list \<Rightarrow> registry \<Rightarrow> bool \<times> registry" where
  "mark_pending_emission store_key lineage now digests r =
     (let e = \<lparr>pe_id = calls r, pe_lineage = lineage, pe_created_at = now, pe_claim = None, pe_digests = digests\<rparr>;
          es = (case map_of (table r) (store_key, lineage) of None \<Rightarrow> [] | Some es \<Rightarrow> es)
      in (length es + 1 > 2, \<lparr>table = append_entry (store_key, lineage) e (table r), calls = calls r + 1\<rparr>))"

definition has_pending :: "string \<Rightarrow> registry \<Rightarrow> bool" where
  "has_pending store_identity r = (\<exists>row \<in> set (table r). fst (fst (fst row)) = store_identity)"

fun claim_entries :: "nat \<Rightarrow> pending list \<Rightarrow> pending list \<times> pending list" where
  "claim_entries token [] = ([], [])"
| "claim_entries token (e # es) = (case claim_entries token es of (claimed, es') \<Rightarrow>
     if pe_claim e = None then (e\<lparr>pe_claim := Some token\<rparr> # claimed, e\<lparr>pe_claim := Some token\<rparr> # es') else (claimed, e # es'))"

fun claim_rows :: "store_key \<Rightarrow> nat \<Rightarrow> pending_table \<Rightarrow> pending list \<times> nat \<times> pending_table" where
  "claim_rows store_key token [] = ([], 0, [])"
| "claim_rows store_key token (((key, lineage), es) # rows) =
     (case claim_rows store_key token rows of (claimed, dropped, rows') \<Rightarrow>
        if fst key \<noteq> fst store_key then (claimed, dropped, ((key, lineage), es) # rows')
        else if snd key \<noteq> snd store_key then (claimed, length es + dropped, rows')
        else (fst (claim_entries token es) @ claimed, dropped, ((key, lineage), snd (claim_entries token es)) # rows'))"

definition claim_pending_emissions :: "store_key \<Rightarrow> nat \<Rightarrow> registry \<Rightarrow> pending list \<times> nat \<times> registry" where
  "claim_pending_emissions store_key token r = (case claim_rows store_key token (table r) of
     (claimed, dropped, rows) \<Rightarrow> (claimed, dropped, r\<lparr>table := rows\<rparr>))"

definition settle_entries :: "nat \<Rightarrow> nat list \<Rightarrow> nat list option \<Rightarrow> pending list \<Rightarrow> pending list" where
  "settle_entries token completed release es =
     map (\<lambda>e. if pe_claim e = Some token \<and> (case release of None \<Rightarrow> True | Some ids \<Rightarrow> pe_id e \<in> set ids) then e\<lparr>pe_claim := None\<rparr> else e)
       (filter (\<lambda>e. \<not> (pe_claim e = Some token \<and> pe_id e \<in> set completed)) es)"

definition settle_pending_emissions :: "nat \<Rightarrow> nat list \<Rightarrow> nat list option \<Rightarrow> registry \<Rightarrow> registry" where
  "settle_pending_emissions token completed release r =
     r\<lparr>table := filter (\<lambda>row. snd row \<noteq> []) (map (\<lambda>(k, es). (k, settle_entries token completed release es)) (table r))\<rparr>"

definition pending_emission_digests :: "store_key \<Rightarrow> string \<Rightarrow> nat list \<Rightarrow> registry \<Rightarrow> string set" where
  "pending_emission_digests store_key lineage excluded r =
     (case map_of (table r) (store_key, lineage) of None \<Rightarrow> {}
      | Some es \<Rightarrow> \<Union> (set ` pe_digests ` {e \<in> set es. pe_id e \<notin> set excluded}))"

section \<open>Entries of the registry\<close>

definition pending_entries :: "pending_table \<Rightarrow> pending list" where
  "pending_entries t = concat (map snd t)"

definition registry_ok :: "registry \<Rightarrow> bool" where
  "registry_ok r \<longleftrightarrow> distinct (map fst (table r)) \<and> (\<forall>row \<in> set (table r). snd row \<noteq> [] \<and> length (snd row) \<le> 2)
     \<and> distinct (map pe_id (pending_entries (table r))) \<and> (\<forall>e \<in> set (pending_entries (table r)). pe_id e < calls r)"

lemma pending_entries_Cons [simp]: "pending_entries (row # t) = snd row @ pending_entries t"
  by (simp add: pending_entries_def)

lemma pending_entries_Nil [simp]: "pending_entries [] = []"
  by (simp add: pending_entries_def)

lemma pending_entries_append [simp]: "pending_entries (s @ t) = pending_entries s @ pending_entries t"
  by (simp add: pending_entries_def)

lemma claim_entries_props:
  "map pe_id (snd (claim_entries token es)) = map pe_id es"
  "set (fst (claim_entries token es)) = (\<lambda>e. e\<lparr>pe_claim := Some token\<rparr>) ` {e \<in> set es. pe_claim e = None}"
  "set (snd (claim_entries token es)) = {e \<in> set es. pe_claim e \<noteq> None} \<union> set (fst (claim_entries token es))"
  by (induction es) (auto split: prod.splits)

definition push :: "pending \<Rightarrow> pending list \<Rightarrow> pending list" where
  "push e es = (if length (es @ [e]) > 2 then tl (es @ [e]) else es @ [e])"

lemma push_props:
  "push e es \<noteq> []" "length es \<le> 2 \<Longrightarrow> length (push e es) \<le> 2" "set (push e es) \<subseteq> insert e (set es)"
  "distinct (map pe_id es) \<Longrightarrow> pe_id e \<notin> pe_id ` set es \<Longrightarrow> distinct (map pe_id (push e es))"
  by (cases es; auto simp: push_def)+

lemma append_entry_other:
  "key \<notin> fst ` set t \<Longrightarrow> map (\<lambda>(k, es). (k, if k = key then f es else es)) t = t"
  by (induction t) auto

lemma disjoint_insert_sub: "X \<subseteq> insert a Y \<Longrightarrow> a \<notin> Z \<Longrightarrow> Y \<inter> Z = {} \<Longrightarrow> X \<inter> Z = {}"
  by blast

lemma push_row:
  assumes "distinct (map fst t)" "distinct (map pe_id (pending_entries t))" "pe_id e \<notin> pe_id ` set (pending_entries t)"
  shows "distinct (map pe_id (pending_entries (map (\<lambda>(k, es). (k, if k = key then push e es else es)) t)))
    \<and> set (pending_entries (map (\<lambda>(k, es). (k, if k = key then push e es else es)) t)) \<subseteq> insert e (set (pending_entries t))"
  using assms
proof (induction t)
  case (Cons row t)
  obtain k es where row: "row = (k, es)" by (cases row)
  show ?case
  proof (cases "k = key")
    case True
    then have "key \<notin> fst ` set t" using Cons.prems(1) row by auto
    moreover have "pe_id ` set (push e es) \<subseteq> insert (pe_id e) (pe_id ` set es)" using push_props(3)[of e es] by auto
    then have "pe_id ` set (push e es) \<inter> pe_id ` set (pending_entries t) = {}"
      by (rule disjoint_insert_sub) (use Cons.prems(2,3) in \<open>auto simp: row image_Un\<close>)
    moreover have "distinct (map pe_id (push e es))" using Cons.prems(2,3) push_props(4)[of es e] by (simp add: row image_Un)
    ultimately show ?thesis using True Cons.prems(2) push_props(3)[of e es] by (auto simp: row append_entry_other)
  next
    case False
    let ?t = "map (\<lambda>(k, es). (k, if k = key then push e es else es)) t"
    have IH: "distinct (map pe_id (pending_entries ?t))" "set (pending_entries ?t) \<subseteq> insert e (set (pending_entries t))"
      using Cons by (auto simp: row)
    from IH(2) have "pe_id ` set (pending_entries ?t) \<subseteq> insert (pe_id e) (pe_id ` set (pending_entries t))" by auto
    then have "pe_id ` set (pending_entries ?t) \<inter> pe_id ` set es = {}"
      by (rule disjoint_insert_sub) (use Cons.prems(2,3) in \<open>auto simp: row image_Un\<close>)
    then show ?thesis using IH Cons.prems(2) False by (auto simp: row Int_commute)
  qed
qed simp

lemma append_entry_ok:
  assumes "registry_ok r" "pe_id e = calls r"
  shows "registry_ok \<lparr>table = append_entry key e (table r), calls = calls r + 1\<rparr>
    \<and> set (pending_entries (append_entry key e (table r))) \<subseteq> insert e (set (pending_entries (table r)))"
proof -
  have keys: "distinct (map fst (table r))" and rows: "\<forall>row \<in> set (table r). snd row \<noteq> [] \<and> length (snd row) \<le> 2"
    and ids: "distinct (map pe_id (pending_entries (table r)))" "\<forall>x \<in> set (pending_entries (table r)). pe_id x < calls r"
    using assms(1) by (auto simp: registry_ok_def)
  have fresh: "pe_id e \<notin> pe_id ` set (pending_entries (table r))" using ids(2) assms(2) by auto
  show ?thesis
  proof (cases "key \<in> fst ` set (table r)")
    case True
    have eq: "append_entry key e (table r) = map (\<lambda>(k, es). (k, if k = key then push e es else es)) (table r)"
      unfolding append_entry_def push_def using True by simp
    note pr = push_row[OF keys ids(1) fresh, of key]
    have "map fst (append_entry key e (table r)) = map fst (table r)" unfolding eq by auto
    moreover have "\<forall>row \<in> set (append_entry key e (table r)). snd row \<noteq> [] \<and> length (snd row) \<le> 2"
    proof
      fix row assume "row \<in> set (append_entry key e (table r))"
      then obtain k es where "(k, es) \<in> set (table r)" "row = (k, if k = key then push e es else es)" unfolding eq by auto
      then show "snd row \<noteq> [] \<and> length (snd row) \<le> 2" using rows push_props(1)[of e es] push_props(2)[of es e] by auto
    qed
    moreover have "\<forall>x \<in> set (pending_entries (append_entry key e (table r))). pe_id x < calls r + 1"
    proof
      fix x assume "x \<in> set (pending_entries (append_entry key e (table r)))"
      then have "x = e \<or> x \<in> set (pending_entries (table r))" using conjunct2[OF pr] unfolding eq by blast
      then show "pe_id x < calls r + 1" using ids(2) assms(2) by auto
    qed
    ultimately show ?thesis using keys pr unfolding eq[symmetric] registry_ok_def by simp
  next
    case False
    then show ?thesis using keys rows ids fresh assms(2) by (auto simp: registry_ok_def append_entry_def)
  qed
qed

definition stale :: "store_key \<Rightarrow> (store_key \<times> string) \<times> pending list \<Rightarrow> bool" where
  "stale store_key row \<longleftrightarrow> fst (fst (fst row)) = fst store_key \<and> snd (fst (fst row)) \<noteq> snd store_key"

definition claimed_row :: "store_key \<Rightarrow> nat \<Rightarrow> (store_key \<times> string) \<times> pending list \<Rightarrow> (store_key \<times> string) \<times> pending list" where
  "claimed_row store_key token row = (fst row, if fst (fst row) = store_key then snd (claim_entries token (snd row)) else snd row)"

lemma claim_rows_eq:
  "claim_rows store_key token t =
     (concat (map (\<lambda>row. if fst (fst row) = store_key then fst (claim_entries token (snd row)) else []) t),
      sum_list (map (\<lambda>row. if stale store_key row then length (snd row) else 0) t),
      map (claimed_row store_key token) (filter (\<lambda>row. \<not> stale store_key row) t))"
  by (induction store_key token t rule: claim_rows.induct) (auto simp: stale_def claimed_row_def prod_eq_iff[where 'a = string and 'b = string] split: prod.splits)

lemma pending_entries_filter:
  "set (pending_entries (filter P t)) \<subseteq> set (pending_entries t)"
  "distinct (map pe_id (pending_entries t)) \<Longrightarrow> distinct (map pe_id (pending_entries (filter P t)))"
proof -
  show sub: "set (pending_entries (filter P t)) \<subseteq> set (pending_entries t)" for t by (induction t) auto
  show "distinct (map pe_id (pending_entries t)) \<Longrightarrow> distinct (map pe_id (pending_entries (filter P t)))"
  proof (induction t)
    case (Cons row t)
    have "pe_id ` set (pending_entries (filter P t)) \<subseteq> pe_id ` set (pending_entries t)" using sub by (rule image_mono)
    with Cons show ?case by auto
  qed simp
qed

lemma pending_entries_ids:
  "(\<And>row. row \<in> set t \<Longrightarrow> map pe_id (snd (f row)) = map pe_id (snd row)) \<Longrightarrow>
   map pe_id (pending_entries (map f t)) = map pe_id (pending_entries t)"
  by (induction t) auto

lemma claim_row_ids: "map pe_id (snd (claimed_row store_key token row)) = map pe_id (snd row)"
  by (simp add: claimed_row_def claim_entries_props(1))

lemma claim_ok:
  assumes "registry_ok r" "claim_pending_emissions store_key token r = (claimed, dropped, r')"
  shows "registry_ok r'" "calls r' = calls r"
proof -
  let ?t = "filter (\<lambda>row. \<not> stale store_key row) (table r)"
  have r': "table r' = map (claimed_row store_key token) ?t" "calls r' = calls r"
    using assms(2) by (auto simp: claim_pending_emissions_def claim_rows_eq)
  show "calls r' = calls r" by (rule r'(2))
  have ids: "map pe_id (pending_entries (table r')) = map pe_id (pending_entries ?t)"
    unfolding r' by (rule pending_entries_ids) (rule claim_row_ids)
  have "map fst (table r') = map fst ?t" by (simp add: r' claimed_row_def)
  moreover have "snd row' \<noteq> [] \<and> length (snd row') \<le> 2" if "row' \<in> set (table r')" for row'
  proof -
    from that obtain row where row: "row \<in> set (table r)" "row' = claimed_row store_key token row" by (auto simp: r')
    have "length (snd row') = length (snd row)" using claim_row_ids row(2) by (metis length_map)
    then show ?thesis using row(1) assms(1) by (auto simp: registry_ok_def)
  qed
  moreover have "pe_id e < calls r" if "e \<in> set (pending_entries (table r'))" for e
  proof -
    have "pe_id e \<in> set (map pe_id (pending_entries ?t))" using that by (simp flip: ids)
    then show ?thesis using pending_entries_filter(1)[of "\<lambda>row. \<not> stale store_key row" "table r"] assms(1) by (auto simp: registry_ok_def)
  qed
  ultimately show "registry_ok r'" using assms(1) ids r'(2) pending_entries_filter(2)[of "table r"]
    by (auto simp: registry_ok_def distinct_map_filter)
qed

lemma settle_entries_set:
  "e \<in> set (settle_entries token completed release es) \<Longrightarrow>
   \<exists>e0 \<in> set es. pe_id e = pe_id e0 \<and> (pe_claim e0 \<noteq> Some token \<longrightarrow> e = e0) \<and> \<not> (pe_claim e0 = Some token \<and> pe_id e0 \<in> set completed)
     \<and> (pe_claim e0 = Some token \<and> release = None \<longrightarrow> pe_claim e = None)"
  by (auto simp: settle_entries_def split: option.splits)

lemma settle_table_entries:
  "pending_entries (filter (\<lambda>row. snd row \<noteq> []) (map (\<lambda>(k, es). (k, settle_entries token completed release es)) t))
   = settle_entries token completed release (pending_entries t)"
  by (induction t) (auto simp: settle_entries_def)

lemma settle_ok:
  assumes "registry_ok r"
  shows "registry_ok (settle_pending_emissions token completed release r)"
proof -
  let ?s = "settle_entries token completed release" and ?r = "settle_pending_emissions token completed release r"
  have entries: "pending_entries (table ?r) = ?s (pending_entries (table r))"
    by (simp add: settle_pending_emissions_def settle_table_entries)
  have "map pe_id (?s (pending_entries (table r))) = map pe_id (filter (\<lambda>e. \<not> (pe_claim e = Some token \<and> pe_id e \<in> set completed)) (pending_entries (table r)))"
    by (simp add: settle_entries_def comp_def if_distrib cong: if_cong)
  then have "distinct (map pe_id (pending_entries (table ?r)))" using assms by (simp add: entries registry_ok_def distinct_map_filter)
  moreover have "\<forall>e \<in> set (pending_entries (table ?r)). pe_id e < calls ?r"
  proof
    fix e assume "e \<in> set (pending_entries (table ?r))"
    then obtain e0 where "e0 \<in> set (pending_entries (table r))" "pe_id e = pe_id e0" unfolding entries using settle_entries_set by blast
    then show "pe_id e < calls ?r" using assms by (simp add: registry_ok_def settle_pending_emissions_def)
  qed
  moreover have "distinct (map fst (table ?r))" using assms
    by (simp add: registry_ok_def settle_pending_emissions_def) (rule distinct_map_filter, simp add: comp_def case_prod_unfold)
  moreover have "\<forall>row \<in> set (table ?r). snd row \<noteq> [] \<and> length (snd row) \<le> 2"
  proof
    fix row assume "row \<in> set (table ?r)"
    then obtain k es where "(k, es) \<in> set (table r)" "row = (k, ?s es)" "?s es \<noteq> []" by (auto simp: settle_pending_emissions_def)
    moreover have "length (?s es) \<le> length es" by (simp add: settle_entries_def)
    ultimately show "snd row \<noteq> [] \<and> length (snd row) \<le> 2" using assms by (fastforce simp: registry_ok_def)
  qed
  ultimately show ?thesis by (simp add: registry_ok_def)
qed

section \<open>A claim is exclusive\<close>

text \<open>The steps of other engines: they register entries, and claim and settle with their own tokens.\<close>

inductive other_step :: "nat \<Rightarrow> registry \<Rightarrow> registry \<Rightarrow> bool" for token where
  mark: "mark_pending_emission store_key lineage now digests r = (dropped, r') \<Longrightarrow> other_step token r r'"
| claim: "token' \<noteq> token \<Longrightarrow> claim_pending_emissions store_key token' r = (claimed, dropped, r') \<Longrightarrow> other_step token r r'"
| settle: "token' \<noteq> token \<Longrightarrow> other_step token r (settle_pending_emissions token' completed release r)"

definition guarded :: "nat set \<Rightarrow> nat \<Rightarrow> registry \<Rightarrow> bool" where
  "guarded ids token r \<longleftrightarrow> registry_ok r \<and> (\<forall>i \<in> ids. i < calls r)
     \<and> (\<forall>e \<in> set (pending_entries (table r)). pe_id e \<in> ids \<longrightarrow> pe_claim e = Some token)"

lemma claim_entries_after:
  assumes "claim_pending_emissions store_key token r = (claimed, dropped, r')"
  shows "e \<in> set (pending_entries (table r')) \<Longrightarrow>
      e \<in> set claimed \<or> e \<in> set (pending_entries (table r))"
    and "e \<in> set claimed \<Longrightarrow> \<exists>e0 \<in> set (pending_entries (table r)). pe_claim e0 = None \<and> pe_id e0 = pe_id e \<and> pe_claim e = Some token"
proof -
  have r': "table r' = map (claimed_row store_key token) (filter (\<lambda>row. \<not> stale store_key row) (table r))"
    and c: "claimed = concat (map (\<lambda>row. if fst (fst row) = store_key then fst (claim_entries token (snd row)) else []) (table r))"
    using assms by (auto simp: claim_pending_emissions_def claim_rows_eq)
  show "\<exists>e0 \<in> set (pending_entries (table r)). pe_claim e0 = None \<and> pe_id e0 = pe_id e \<and> pe_claim e = Some token" if "e \<in> set claimed"
  proof -
    from that obtain row where row: "row \<in> set (table r)" "e \<in> set (fst (claim_entries token (snd row)))"
      by (auto simp: c split: if_splits)
    then obtain e0 where "e0 \<in> set (snd row)" "pe_claim e0 = None" "e = e0\<lparr>pe_claim := Some token\<rparr>"
      by (auto simp: claim_entries_props(2))
    then show ?thesis using row(1) by (auto simp: pending_entries_def intro!: bexI[of _ e0] bexI[of _ row])
  qed
  assume "e \<in> set (pending_entries (table r'))"
  then obtain row where "row \<in> set (table r)" "e \<in> set (snd (claimed_row store_key token row))"
    by (auto simp: r' pending_entries_def)
  then show "e \<in> set claimed \<or> e \<in> set (pending_entries (table r))"
    by (auto simp: claimed_row_def claim_entries_props(3) c pending_entries_def split: if_splits)
qed

lemma other_step_guarded: "other_step token r r' \<Longrightarrow> guarded ids token r \<Longrightarrow> guarded ids token r'"
proof (induction rule: other_step.induct)
  case (mark store_key lineage now digests r dropped r')
  define e where "e = \<lparr>pe_id = calls r, pe_lineage = lineage, pe_created_at = now, pe_claim = None, pe_digests = digests\<rparr>"
  have r': "r' = \<lparr>table = append_entry (store_key, lineage) e (table r), calls = calls r + 1\<rparr>"
    using mark(1) by (simp add: mark_pending_emission_def Let_def e_def)
  have ok: "registry_ok r' \<and> set (pending_entries (table r')) \<subseteq> insert e (set (pending_entries (table r)))"
    using append_entry_ok[of r e "(store_key, lineage)"] mark(2) by (simp add: r' guarded_def e_def)
  have "pe_id e \<notin> ids" using mark(2) by (auto simp: guarded_def e_def)
  then show ?case using ok mark(2) unfolding guarded_def by (auto simp: r')
next
  case (claim token' store_key r claimed dropped r')
  note after = claim_entries_after[OF claim(2)]
  have "pe_claim e = Some token" if "e \<in> set (pending_entries (table r'))" "pe_id e \<in> ids" for e
    using after(1)[OF that(1)]
  proof
    assume "e \<in> set claimed"
    from after(2)[OF this] that(2) show ?thesis using claim(3) by (auto simp: guarded_def)
  qed (use that claim(3) in \<open>auto simp: guarded_def\<close>)
  then show ?case using claim(3) claim_ok[OF _ claim(2)] by (auto simp: guarded_def)
next
  case (settle token' r completed release)
  let ?r = "settle_pending_emissions token' completed release r"
  have "pe_claim e = Some token" if "e \<in> set (pending_entries (table ?r))" "pe_id e \<in> ids" for e
  proof -
    from that(1) have "e \<in> set (settle_entries token' completed release (pending_entries (table r)))"
      by (simp add: settle_pending_emissions_def settle_table_entries)
    from settle_entries_set[OF this] obtain e0 where e0: "e0 \<in> set (pending_entries (table r))" "pe_id e = pe_id e0" "pe_claim e0 \<noteq> Some token' \<longrightarrow> e = e0"
      by blast
    then have "pe_claim e0 = Some token" using settle(2) that(2) by (auto simp: guarded_def)
    then show ?thesis using e0(3) settle(1) by auto
  qed
  then show ?case using settle(2) settle_ok by (auto simp: guarded_def settle_pending_emissions_def)
qed

lemma other_steps_guarded: "(other_step token)\<^sup>*\<^sup>* r r' \<Longrightarrow> guarded ids token r \<Longrightarrow> guarded ids token r'"
  by (induction rule: rtranclp_induct) (auto intro: other_step_guarded)

lemma claim_guards:
  assumes "registry_ok r" "claim_pending_emissions store_key token r = (claimed, dropped, r')"
  shows "guarded (pe_id ` set claimed) token r'"
proof -
  note after = claim_entries_after[OF assms(2)]
  have ids: "i < calls r" if "i \<in> pe_id ` set claimed" for i using that after(2) assms(1) by (force simp: registry_ok_def)
  have sub: "set claimed \<subseteq> set (pending_entries (table r'))"
  proof
    fix e assume "e \<in> set claimed"
    then obtain row where row: "row \<in> set (table r)" "fst (fst row) = store_key" "e \<in> set (fst (claim_entries token (snd row)))"
      using assms(2) by (auto simp: claim_pending_emissions_def claim_rows_eq split: if_splits)
    have "row \<in> set (filter (\<lambda>row. \<not> stale store_key row) (table r))" using row by (simp add: stale_def)
    then have "claimed_row store_key token row \<in> set (table r')"
      using assms(2) by (auto simp: claim_pending_emissions_def claim_rows_eq)
    moreover have "e \<in> set (snd (claimed_row store_key token row))" using row by (simp add: claimed_row_def claim_entries_props(3))
    ultimately have "claimed_row store_key token row \<in> set (table r')" "e \<in> set (snd (claimed_row store_key token row))" by auto
    then show "e \<in> set (pending_entries (table r'))" by (auto simp: pending_entries_def)
  qed
  have "inj_on pe_id (set (pending_entries (table r')))" using claim_ok(1)[OF assms] by (simp add: registry_ok_def distinct_map)
  then have "e \<in> set claimed" if "e \<in> set (pending_entries (table r'))" "pe_id e \<in> pe_id ` set claimed" for e
  proof -
    from that(2) obtain c where "c \<in> set claimed" "pe_id e = pe_id c" by blast
    then show ?thesis using that(1) sub inj_onD[OF \<open>inj_on pe_id _\<close>, of e c] by auto
  qed
  then have "pe_claim e = Some token" if "e \<in> set (pending_entries (table r'))" "pe_id e \<in> pe_id ` set claimed" for e
    using after(2) that by blast
  then show ?thesis using ids claim_ok[OF assms] by (auto simp: guarded_def)
qed

text \<open>
  C15: A claim is exclusive until it is settled: after an engine claims entries with its token, whatever sequence of
  registrations, claims and settlements other engines run, a later claim by another engine never returns one of
  those entries; an entry that is still registered is still held by the first token.
\<close>

theorem claims_are_exclusive:
  assumes "registry_ok r" "claim_pending_emissions store_key token r = (claimed, dropped, r1)"
    and "(other_step token)\<^sup>*\<^sup>* r1 r2" "claim_pending_emissions store_key' token' r2 = (claimed', dropped', r3)"
  shows "pe_id ` set claimed \<inter> pe_id ` set claimed' = {}
    \<and> (\<forall>e \<in> set (pending_entries (table r2)). pe_id e \<in> pe_id ` set claimed \<longrightarrow> pe_claim e = Some token)"
proof -
  have g: "guarded (pe_id ` set claimed) token r2"
    using claim_guards[OF assms(1,2)] assms(3) by (rule other_steps_guarded[rotated])
  have "pe_id e \<notin> pe_id ` set claimed" if e: "e \<in> set claimed'" for e
  proof
    assume mem: "pe_id e \<in> pe_id ` set claimed"
    obtain e0 where "e0 \<in> set (pending_entries (table r2))" "pe_claim e0 = None" "pe_id e0 = pe_id e"
      using claim_entries_after(2)[OF assms(4) e] by blast
    with g mem show False by (auto simp: guarded_def)
  qed
  then have "pe_id ` set claimed \<inter> pe_id ` set claimed' = {}" unfolding disjoint_iff by (metis (no_types) imageE)
  with g show ?thesis by (simp add: guarded_def)
qed

definition sample_pending :: "nat option \<Rightarrow> pending" where
  "sample_pending claim = \<lparr>pe_id = 0, pe_lineage = ''L'', pe_created_at = 0, pe_claim = claim, pe_digests = [''d'']\<rparr>"

definition sample_registry :: "nat option \<Rightarrow> registry" where
  "sample_registry claim = \<lparr>table = [(((''db'', ''1''), ''L''), [sample_pending claim])], calls = 1\<rparr>"

lemma sample_claims:
  "claim_pending_emissions (''db'', ''1'') 7 (sample_registry None) = ([sample_pending (Some 7)], 0, sample_registry (Some 7))"
  "claim_pending_emissions (''db'', ''1'') 8 (sample_registry (Some 7)) = ([], 0, sample_registry (Some 7))"
  by (simp_all add: claim_pending_emissions_def sample_registry_def sample_pending_def)

lemma sample_registry_ok: "registry_ok (sample_registry claim)"
  by (simp add: registry_ok_def sample_registry_def sample_pending_def)

theorem claims_are_exclusive_witness:
  "claim_pending_emissions (''db'', ''1'') 7 (sample_registry None) = ([sample_pending (Some 7)], 0, sample_registry (Some 7))
   \<and> pe_id ` set [sample_pending (Some 7)] \<inter> pe_id ` set [] = {}"
  using sample_claims(1) claims_are_exclusive[OF sample_registry_ok sample_claims(1) rtranclp.rtrancl_refl sample_claims(2)] by simp

text \<open>
  Settling gives everything back: after an engine settles its token and releases all it holds, no entry is held
  by that token, the completed entries it held are gone, entries held by others are untouched, and the registry
  stays well formed, with at most two entries for each store and lineage.
\<close>

theorem settle_releases_everything:
  assumes "registry_ok r" "r' = settle_pending_emissions token completed None r"
  shows "registry_ok r'
    \<and> (\<forall>e \<in> set (pending_entries (table r')). pe_claim e \<noteq> Some token
         \<and> (\<exists>e0 \<in> set (pending_entries (table r)). pe_id e0 = pe_id e \<and> \<not> (pe_claim e0 = Some token \<and> pe_id e0 \<in> set completed)
              \<and> (pe_claim e0 \<noteq> Some token \<longrightarrow> e = e0)))
    \<and> (\<forall>e \<in> set (pending_entries (table r)). pe_claim e \<noteq> Some token \<longrightarrow> e \<in> set (pending_entries (table r')))"
proof -
  have entries: "pending_entries (table r') = settle_entries token completed None (pending_entries (table r))"
    by (simp add: assms(2) settle_pending_emissions_def settle_table_entries)
  have "registry_ok r'" using assms settle_ok by simp
  moreover have "e \<in> set (pending_entries (table r'))" if "e \<in> set (pending_entries (table r))" "pe_claim e \<noteq> Some token" for e
    using that by (force simp: entries settle_entries_def)
  moreover have "pe_claim e \<noteq> Some token \<and> (\<exists>e0 \<in> set (pending_entries (table r)). pe_id e0 = pe_id e \<and> \<not> (pe_claim e0 = Some token \<and> pe_id e0 \<in> set completed)
              \<and> (pe_claim e0 \<noteq> Some token \<longrightarrow> e = e0))" if "e \<in> set (pending_entries (table r'))" for e
    using settle_entries_set[OF that[unfolded entries]] by auto
  ultimately show ?thesis by blast
qed

theorem settle_releases_everything_witness:
  "registry_ok (settle_pending_emissions 7 [] None (sample_registry (Some 7)))
   \<and> (\<forall>e \<in> set (pending_entries (table (settle_pending_emissions 7 [] None (sample_registry (Some 7))))). pe_claim e \<noteq> Some 7)"
  using settle_releases_everything[OF sample_registry_ok refl, of 7 "[]" "Some 7"] by blast

end
