(* ===== verification/Chunking.thy ===== *)
theory Chunking
  imports Truncation
begin

text \<open>
  The chunker of raw history for the second embedded corpus, \<^verbatim>\<open>src/chunking.py\<close>: sentence spans, token-bounded
  windows with a one-sentence overlap, the content policies, and the grouping of chunks into documents.  Spans are
  pairs of character offsets.  Tokens are counted by \<open>text_tokens\<close> with the optional codec of \<^verbatim>\<open>Truncation\<close>.
\<close>

definition CHUNK_TARGET_TOKENS :: nat where "CHUNK_TARGET_TOKENS = 600"

definition FULL_PER_MESSAGE_TOKEN_CAP :: nat where "FULL_PER_MESSAGE_TOKEN_CAP = 32000"

definition MAX_ERROR_CHUNKS :: nat where "MAX_ERROR_CHUNKS = 3"

record Chunk =
  ch_store_id :: int
  chunk_index :: nat
  char_start :: nat
  char_end :: nat
  ch_text :: string
  token_estimate :: nat

definition chunk_id :: "Chunk \<Rightarrow> string" where
  "chunk_id c = int_str (ch_store_id c) @ '':'' @ int_str (int (chunk_index c))"

definition normalize_content_policy :: "pyval \<Rightarrow> string" where
  "normalize_content_policy v = (let s = lower (strip (py_str (py_or v (PStr [])))) in
     if s \<in> {''conversational'', ''heads'', ''full''} then s else ''conversational'')"

section \<open>Sentences\<close>

definition is_stop :: "char \<Rightarrow> bool" where
  "is_stop c = (c \<in> {CHR ''.'', CHR ''!'', CHR 0x3F})"

text \<open>The first index from \<open>j\<close> on whose character does not satisfy the predicate.\<close>

definition run_end :: "(char \<Rightarrow> bool) \<Rightarrow> string \<Rightarrow> nat \<Rightarrow> nat" where
  "run_end P src j = j + length (takeWhile P (drop j src))"

lemma run_end_ge: "j \<le> run_end P src j"
  by (simp add: run_end_def)

lemma run_end_le: "j \<le> length src \<Longrightarrow> run_end P src j \<le> length src"
  using length_takeWhile_le[of P "drop j src"] by (simp add: run_end_def)

lemma run_end_shrink:
  assumes "i < length src"
  shows "length src - run_end P src (Suc i) < length src - i" "length src - run_end Q src (run_end P src (Suc i)) < length src - i"
  using assms run_end_ge[of "Suc i" P src] run_end_ge[of "run_end P src (Suc i)" Q src] by auto

function sentence_loop :: "string \<Rightarrow> nat \<Rightarrow> nat \<Rightarrow> (nat \<times> nat) list" where
  "sentence_loop src start i =
     (if i \<ge> length src then (if start < length src then [(start, length src)] else [])
      else if is_stop (src ! i) then
        (let j = run_end is_stop src (i + 1) in
         if j \<ge> length src \<or> py_isspace (src ! j)
         then (let e = run_end py_isspace src j in (start, e) # sentence_loop src e e)
         else sentence_loop src start j)
      else if src ! i = CHR 0x0A then
        (let j = run_end (\<lambda>c. c = CHR 0x0A) src (i + 1) in (start, j) # sentence_loop src j j)
      else sentence_loop src start (i + 1))"
  by pat_completeness auto
termination
proof (relation "measure (\<lambda>(src, start, i). length src - i)")
qed (auto simp: run_end_shrink)

declare sentence_loop.simps [simp del]

definition sentence_spans :: "string \<Rightarrow> (nat \<times> nat) list" where
  "sentence_spans src = sentence_loop src 0 0"

definition slice :: "string \<Rightarrow> nat \<times> nat \<Rightarrow> string" where
  "slice src s = take (snd s - fst s) (drop (fst s) src)"

section \<open>Windows\<close>

function window_end :: "codec option \<Rightarrow> string \<Rightarrow> (nat \<times> nat) list \<Rightarrow> nat \<Rightarrow> nat \<Rightarrow> nat \<Rightarrow> nat" where
  "window_end enc src sentences i j accumulated =
     (if j \<ge> length sentences then j
      else (let sentence_tokens = text_tokens enc (slice src (sentences ! j)) in
        if j > i \<and> accumulated + sentence_tokens > CHUNK_TARGET_TOKENS then j
        else window_end enc src sentences i (j + 1) (accumulated + sentence_tokens)))"
  by pat_completeness auto
termination by (relation "measure (\<lambda>(enc, src, sentences, i, j, acc). length sentences - j)") auto

declare window_end.simps [simp del]

lemma window_end_ge: "j \<le> window_end enc src sentences i j acc"
  by (induction enc src sentences i j acc rule: window_end.induct) (subst window_end.simps, auto simp: Let_def)

lemma window_end_progress: "i < length sentences \<Longrightarrow> i < window_end enc src sentences i i acc"
  by (subst window_end.simps) (use window_end_ge in \<open>auto simp: Let_def intro: less_le_trans\<close>)

function window_loop :: "codec option \<Rightarrow> string \<Rightarrow> (nat \<times> nat) list \<Rightarrow> nat \<Rightarrow> (nat \<times> nat) list" where
  "window_loop enc src sentences i =
     (if i \<ge> length sentences then []
      else (let j = window_end enc src sentences i i 0; w = (fst (sentences ! i), snd (sentences ! (j - 1))) in
        if j \<ge> length sentences then [w]
        else w # window_loop enc src sentences (if j - i \<ge> 2 then j - 1 else j)))"
  by pat_completeness auto
termination
proof (relation "measure (\<lambda>(enc, src, sentences, i). length sentences - i)")
qed (use window_end_progress in \<open>auto intro!: diff_less_mono2\<close>)

declare window_loop.simps [simp del]

definition window_spans :: "codec option \<Rightarrow> string \<Rightarrow> (nat \<times> nat) list" where
  "window_spans enc src =
     (if src = [] then []
      else if text_tokens enc src \<le> CHUNK_TARGET_TOKENS then [(0, length src)]
      else if sentence_spans src = [] then [(0, length src)]
      else window_loop enc src (sentence_spans src) 0)"

section \<open>Chunks\<close>

definition make_chunk :: "codec option \<Rightarrow> int \<Rightarrow> nat \<Rightarrow> string \<Rightarrow> nat \<times> nat \<Rightarrow> Chunk" where
  "make_chunk enc store_id index src w = \<lparr>ch_store_id = store_id, chunk_index = index, char_start = fst w, char_end = snd w,
     ch_text = slice src w, token_estimate = text_tokens enc (slice src w)\<rparr>"

definition full_chunks :: "codec option \<Rightarrow> int \<Rightarrow> string \<Rightarrow> Chunk list" where
  "full_chunks enc store_id src = map (\<lambda>(index, w). make_chunk enc store_id index src w) (List.enumerate 0 (window_spans enc src))"

text \<open>The error signature: case is ignored, and \<^verbatim>\<open>error\<close> has to be followed by a colon or white space.\<close>

fun error_word :: "string \<Rightarrow> bool" where
  "error_word [] = False"
| "error_word (c # cs) = ((is_prefix ''error'' (c # cs) \<and> (case drop 5 (c # cs) of [] \<Rightarrow> False | d # _ \<Rightarrow> d = CHR '':'' \<or> py_isspace d)) \<or> error_word cs)"

definition error_signature :: "string \<Rightarrow> bool" where
  "error_signature src = (let t = lower src in
     is_substring ''traceback'' t \<or> error_word t \<or> is_substring ''exception'' t \<or> is_substring ''failed'' t \<or> is_substring ''warning'' t)"

fun error_windows :: "string \<Rightarrow> nat \<Rightarrow> (nat \<times> (nat \<times> nat)) list \<Rightarrow> (nat \<times> (nat \<times> nat)) list" where
  "error_windows src errors [] = []"
| "error_windows src errors (iw # ws) =
     (if error_signature (slice src (snd iw))
      then iw # (if errors + 1 \<ge> MAX_ERROR_CHUNKS then [] else error_windows src (errors + 1) ws)
      else error_windows src errors ws)"

definition head_and_error_chunks :: "codec option \<Rightarrow> int \<Rightarrow> string \<Rightarrow> Chunk list" where
  "head_and_error_chunks enc store_id src = (case List.enumerate 0 (window_spans enc src) of
     [] \<Rightarrow> []
   | first # rest \<Rightarrow> map (\<lambda>(index, w). make_chunk enc store_id index src w) (first # error_windows src 0 rest))"

definition chunk_source :: "pyval \<Rightarrow> string" where
  "chunk_source content = (case content of PStr s \<Rightarrow> s | _ \<Rightarrow> (case normalize_content_value content of None \<Rightarrow> [] | Some t \<Rightarrow> t))"

definition role_name :: "pyval \<Rightarrow> string" where
  "role_name role = lower (strip (py_str (py_or role (PStr []))))"

definition chunk_message :: "codec option \<Rightarrow> int \<Rightarrow> pyval \<Rightarrow> pyval \<Rightarrow> pyval \<Rightarrow> Chunk list" where
  "chunk_message enc store_id role content policy =
     (let p = normalize_content_policy policy;
          src = chunk_source content;
          r = role_name role;
          conversational = (r \<in> {''user'', ''assistant''})
      in if strip src = [] then []
         else if p = ''conversational'' then (if conversational then full_chunks enc store_id src else [])
         else if p = ''heads'' then
           (if conversational then full_chunks enc store_id src else if r = ''tool'' then head_and_error_chunks enc store_id src else [])
         else if text_tokens enc src > FULL_PER_MESSAGE_TOKEN_CAP then head_and_error_chunks enc store_id src
         else full_chunks enc store_id src)"

fun group_from :: "nat \<Rightarrow> nat list \<Rightarrow> 'a \<Rightarrow> 'a list \<Rightarrow> nat list list" where
  "group_from position current prev [] = [current]"
| "group_from position current prev (s # ss) = (if s = prev then group_from (position + 1) (current @ [position]) prev ss
     else current # group_from (position + 1) [position] s ss)"

definition group_by_store_id :: "'a list \<Rightarrow> nat list list" where
  "group_by_store_id store_ids = (case store_ids of [] \<Rightarrow> [] | s # ss \<Rightarrow> group_from 1 [0] s ss)"

record chunk_row =
  cr_store_id :: "int option"
  cr_role :: pyval
  cr_content :: pyval

definition iter_message_chunks :: "codec option \<Rightarrow> pyval \<Rightarrow> chunk_row list \<Rightarrow> Chunk list" where
  "iter_message_chunks enc policy messages =
     concat (map (\<lambda>m. case cr_store_id m of None \<Rightarrow> [] | Some i \<Rightarrow> chunk_message enc i (cr_role m) (cr_content m) (PStr (normalize_content_policy policy))) messages)"

section \<open>Sentence spans tile the text\<close>

fun tiles :: "nat \<Rightarrow> (nat \<times> nat) list \<Rightarrow> nat \<Rightarrow> bool" where
  "tiles a [] b = (a = b)"
| "tiles a (s # spans) b = (fst s = a \<and> fst s < snd s \<and> tiles (snd s) spans b)"

lemma sentence_loop_tiles:
  "start \<le> i \<Longrightarrow> i \<le> length src \<Longrightarrow> tiles start (sentence_loop src start i) (length src)"
proof (induction src start i rule: sentence_loop.induct)
  case (1 src start i)
  show ?case
  proof (cases "i < length src")
    case True
    define j where "j = run_end is_stop src (Suc i)"
    define e where "e = run_end py_isspace src j"
    define k where "k = run_end (\<lambda>c. c = CHR 0x0A) src (Suc i)"
    have bounds: "i < j" "j \<le> e" "j \<le> length src" "e \<le> length src" "i < k" "k \<le> length src"
      using True run_end_ge[of "Suc i" is_stop src] run_end_ge[of j py_isspace src] run_end_le[of "Suc i" src] run_end_le[of j src]
        run_end_ge[of "Suc i" "\<lambda>c. c = CHR 0x0A" src] by (auto simp: j_def e_def k_def Suc_le_eq)
    have eq: "sentence_loop src start i = (if is_stop (src ! i) then
          (if j \<ge> length src \<or> py_isspace (src ! j) then (start, e) # sentence_loop src e e else sentence_loop src start j)
        else if src ! i = CHR 0x0A then (start, k) # sentence_loop src k k else sentence_loop src start (Suc i))"
      using True by (subst sentence_loop.simps) (simp add: Let_def j_def e_def k_def)
    show ?thesis
      using True bounds 1 unfolding eq by (simp add: j_def[symmetric] e_def[symmetric] k_def[symmetric] Let_def split: if_splits)
  qed (use 1 in \<open>subst sentence_loop.simps, auto\<close>)
qed

lemma sentence_spans_tiles: "tiles 0 (sentence_spans src) (length src)"
  unfolding sentence_spans_def by (rule sentence_loop_tiles) auto

lemma tiles_le: "tiles a spans b \<Longrightarrow> a \<le> b"
  by (induction spans arbitrary: a) (auto dest: less_imp_le intro: order.trans)

lemma tiles_concat: "tiles a spans (length src) \<Longrightarrow> a \<le> length src \<Longrightarrow> concat (map (slice src) spans) = drop a src"
proof (induction spans arbitrary: a)
  case (Cons s spans)
  have le: "snd s \<le> length src" using Cons.prems tiles_le[of "snd s" spans] by auto
  have eq: "drop a src = take (snd s - a) (drop a src) @ drop (snd s) src"
    using Cons.prems(1) by (metis add_diff_cancel_left' append_take_drop_id drop_drop le_add_diff_inverse2 less_imp_le tiles.simps(2))
  have IH: "concat (map (slice src) spans) = drop (snd s) src" using Cons le by simp
  have "slice src s = take (snd s - a) (drop a src)" using Cons.prems(1) by (simp add: slice_def)
  with IH eq show ?case by (simp only: list.map concat.simps)
qed simp

section \<open>Windows cover the text\<close>

lemma text_tokens_Nil [simp]: "text_tokens enc [] = 0"
  by (simp add: text_tokens_def count_tokens_def)

definition span_tokens :: "codec option \<Rightarrow> string \<Rightarrow> (nat \<times> nat) list \<Rightarrow> nat \<Rightarrow> nat \<Rightarrow> nat" where
  "span_tokens enc src sentences a b = (\<Sum>k = a..<b. text_tokens enc (slice src (sentences ! k)))"

lemma window_end_budget:
  assumes "i \<le> j" "j \<le> length sentences" "acc = span_tokens enc src sentences i j" "j \<le> Suc i \<or> acc \<le> CHUNK_TARGET_TOKENS"
    and "e = window_end enc src sentences i j acc"
  shows "e \<le> length sentences \<and> (e \<le> Suc i \<or> span_tokens enc src sentences i e \<le> CHUNK_TARGET_TOKENS)
    \<and> (e < length sentences \<longrightarrow> CHUNK_TARGET_TOKENS < span_tokens enc src sentences i (Suc e))"
  using assms
proof (induction enc src sentences i j acc rule: window_end.induct)
  case (1 enc src sentences i j acc)
  define t where "t = text_tokens enc (slice src (sentences ! j))"
  have sum: "span_tokens enc src sentences i (Suc j) = acc + t" using 1(2,4) by (simp add: span_tokens_def t_def)
  consider (past) "length sentences \<le> j" | (stop) "j < length sentences" "i < j" "CHUNK_TARGET_TOKENS < acc + t"
    | (more) "j < length sentences" "\<not> (i < j \<and> CHUNK_TARGET_TOKENS < acc + t)" by linarith
  then show ?case
  proof cases
    case past
    then show ?thesis using 1(2-) by (subst (asm) window_end.simps) auto
  next
    case stop
    then have "e = j" using 1(6) by (subst (asm) window_end.simps) (simp add: Let_def t_def[symmetric])
    then show ?thesis using stop 1(2-5) sum by auto
  next
    case more
    then have e: "e = window_end enc src sentences i (j + 1) (acc + t)"
      using 1(6) by (subst (asm) window_end.simps) (auto simp: Let_def t_def[symmetric])
    show ?thesis
      by (rule 1(1)[OF _ t_def]) (use more 1(2-5) sum e in auto)
  qed
qed

text \<open>
  The sentence ranges behind the windows: the next one starts on the last sentence of the previous one when that
  held at least two, and right after it otherwise.
\<close>

fun window_ranges :: "nat \<Rightarrow> nat \<Rightarrow> (nat \<times> nat) list \<Rightarrow> bool" where
  "window_ranges i n [] = False"
| "window_ranges i n (r # rs) = (fst r = i \<and> fst r < snd r \<and>
     (if rs = [] then snd r = n
      else snd r < n \<and> window_ranges (if snd r - fst r \<ge> 2 then snd r - 1 else snd r) n rs))"

definition range_span :: "(nat \<times> nat) list \<Rightarrow> nat \<times> nat \<Rightarrow> nat \<times> nat" where
  "range_span sentences r = (fst (sentences ! fst r), snd (sentences ! (snd r - 1)))"

definition range_fits :: "codec option \<Rightarrow> string \<Rightarrow> (nat \<times> nat) list \<Rightarrow> nat \<times> nat \<Rightarrow> bool" where
  "range_fits enc src sentences r \<longleftrightarrow>
     (snd r = Suc (fst r) \<or> span_tokens enc src sentences (fst r) (snd r) \<le> CHUNK_TARGET_TOKENS)
     \<and> (snd r < length sentences \<longrightarrow> CHUNK_TARGET_TOKENS < span_tokens enc src sentences (fst r) (Suc (snd r)))"

lemma window_loop_ranges:
  "i < length sentences \<Longrightarrow> \<exists>rs. window_ranges i (length sentences) rs \<and> window_loop enc src sentences i = map (range_span sentences) rs
     \<and> (\<forall>r \<in> set rs. range_fits enc src sentences r)"
proof (induction enc src sentences i rule: window_loop.induct)
  case (1 enc src sentences i)
  define j where "j = window_end enc src sentences i i 0"
  define i' where "i' = (if j - i \<ge> 2 then j - 1 else j)"
  have ij: "i < j" using 1(2) by (simp add: j_def window_end_progress)
  have bud: "j \<le> length sentences" "j \<le> Suc i \<or> span_tokens enc src sentences i j \<le> CHUNK_TARGET_TOKENS"
    "j < length sentences \<longrightarrow> CHUNK_TARGET_TOKENS < span_tokens enc src sentences i (Suc j)"
    using window_end_budget[of i i sentences 0 enc src j] 1(2) by (auto simp: j_def span_tokens_def)
  have fits: "range_fits enc src sentences (i, j)" using bud ij by (auto simp: range_fits_def)
  have loop: "window_loop enc src sentences i = (if j \<ge> length sentences then [range_span sentences (i, j)]
      else range_span sentences (i, j) # window_loop enc src sentences i')"
    using 1(2) by (subst window_loop.simps) (simp add: Let_def j_def[symmetric] i'_def range_span_def)
  show ?case
  proof (cases "j \<ge> length sentences")
    case True
    then show ?thesis using fits loop ij bud(1) by (intro exI[of _ "[(i, j)]"]) auto
  next
    case False
    then have "i' < length sentences" by (auto simp: i'_def)
    then obtain rs where rs: "window_ranges i' (length sentences) rs" "window_loop enc src sentences i' = map (range_span sentences) rs"
      "\<forall>r \<in> set rs. range_fits enc src sentences r"
      using 1(1)[OF _ j_def refl] 1(2) False unfolding i'_def by auto
    then show ?thesis using fits loop ij False
      by (intro exI[of _ "(i, j) # rs"]) (auto simp: i'_def)
  qed
qed

lemma tiles_nth:
  assumes "tiles a spans b" "k < length spans"
  shows "fst (spans ! k) < snd (spans ! k)" "Suc k < length spans \<Longrightarrow> fst (spans ! Suc k) = snd (spans ! k)"
    "k = 0 \<Longrightarrow> fst (spans ! k) = a" "Suc k = length spans \<Longrightarrow> snd (spans ! k) = b"
  using assms
proof (induction spans arbitrary: a k)
  case (Cons s spans)
  { case 1 then show ?case using Cons.IH(1) by (cases k) auto }
  { case 2 then show ?case using Cons.IH(2)[where a = "snd s" and k = "k - 1"] Cons.IH(3)[where a = "snd s" and k = 0] by (cases k; cases spans) auto }
  { case 3 then show ?case by simp }
  { case 4 then show ?case using Cons.IH(4)[where a = "snd s" and k = "k - 1"] by (cases k; cases spans) auto }
qed auto

lemma tiles_mono:
  assumes "tiles a spans b" "j < length spans" "k \<le> j"
  shows "fst (spans ! k) \<le> fst (spans ! j) \<and> snd (spans ! k) \<le> snd (spans ! j)"
  using assms(3,2)
proof (induction j rule: dec_induct)
  case (step j)
  then show ?case using tiles_nth(1,2)[OF assms(1), of j] tiles_nth(1)[OF assms(1), of "Suc j"] by auto
qed simp

lemma ranges_cover:
  assumes t: "tiles a spans b" and r: "window_ranges i (length spans) rs" and i: "i < length spans"
    and p: "fst (spans ! i) \<le> p" "p < b"
  shows "\<exists>r \<in> set rs. fst (range_span spans r) \<le> p \<and> p < snd (range_span spans r)"
  using r i p
proof (induction rs arbitrary: i)
  case (Cons r rs)
  have r: "fst r = i" "i < snd r" using Cons.prems(1) by auto
  show ?case
  proof (cases "p < snd (spans ! (snd r - 1))")
    case True
    then show ?thesis using Cons.prems(3) r by (auto simp: range_span_def)
  next
    case False
    have ne: "rs \<noteq> []"
    proof
      assume "rs = []"
      then have "snd (spans ! (snd r - 1)) = b" using Cons.prems(1,2) tiles_nth(4)[OF t, of "snd r - 1"] by auto
      with False Cons.prems(4) show False by simp
    qed
    define i' where "i' = (if snd r - fst r \<ge> 2 then snd r - 1 else snd r)"
    have i': "window_ranges i' (length spans) rs" "snd r < length spans" "i' < length spans" using Cons.prems(1) ne by (auto simp: i'_def)
    have "snd r - 1 < length spans" using i'(2) by simp
    then have "fst (spans ! i') \<le> snd (spans ! (snd r - 1))"
      using tiles_nth(1)[OF t, of "snd r - 1"] tiles_nth(2)[OF t, of "snd r - 1"] i'(2) r by (auto simp: i'_def intro: less_imp_le)
    then have "\<exists>r \<in> set rs. fst (range_span spans r) \<le> p \<and> p < snd (range_span spans r)"
      using Cons.IH[OF i'(1,3)] False Cons.prems(4) by simp
    then show ?thesis by auto
  qed
qed simp

lemma window_facts:
  assumes "CHUNK_TARGET_TOKENS < text_tokens enc src"
  shows "tiles 0 (sentence_spans src) (length src) \<and> (\<exists>rs. window_spans enc src = map (range_span (sentence_spans src)) rs
      \<and> window_ranges 0 (length (sentence_spans src)) rs
      \<and> (\<forall>r \<in> set rs. range_fits enc src (sentence_spans src) r))
    \<and> (\<forall>p < length src. \<exists>w \<in> set (window_spans enc src). fst w \<le> p \<and> p < snd w)"
proof -
  let ?S = "sentence_spans src"
  have ne: "src \<noteq> []" using assms by auto
  have t: "tiles 0 ?S (length src)" by (rule sentence_spans_tiles)
  have S: "?S \<noteq> []" using t ne by (cases ?S) auto
  have win: "window_spans enc src = window_loop enc src ?S 0" using assms ne S by (simp add: window_spans_def)
  obtain rs where rs: "window_ranges 0 (length ?S) rs" "window_loop enc src ?S 0 = map (range_span ?S) rs"
    "\<forall>r \<in> set rs. range_fits enc src ?S r" using window_loop_ranges[of 0 ?S enc src] S by auto
  have "\<exists>w \<in> set (window_spans enc src). fst w \<le> p \<and> p < snd w" if "p < length src" for p
    using ranges_cover[OF t rs(1)] tiles_nth(3)[OF t, of 0] that S unfolding win rs(2) by auto
  with t rs win show ?thesis by auto
qed

text \<open>
  Windows lose nothing and respect the budget: the windows of a text longer than the target follow whole
  sentence spans, which tile the text; every character lies in a window; each window re-opens on the last sentence
  of the one before it when that held at least two; and a window of more than one sentence stays within 600
  tokens, counted per sentence, while one more sentence would not have fitted.
\<close>

theorem window_spans_cover:
  assumes "CHUNK_TARGET_TOKENS < text_tokens enc src"
  shows "tiles 0 (sentence_spans src) (length src) \<and> (\<exists>rs. window_spans enc src = map (range_span (sentence_spans src)) rs
      \<and> window_ranges 0 (length (sentence_spans src)) rs
      \<and> (\<forall>r \<in> set rs. range_fits enc src (sentence_spans src) r))
    \<and> (\<forall>p < length src. \<exists>w \<in> set (window_spans enc src). fst w \<le> p \<and> p < snd w)"
  by (rule window_facts[OF assms])

definition long_text :: string where
  "long_text = concat (replicate 700 ''Hi. '')"

lemma long_text_tokens: "CHUNK_TARGET_TOKENS < text_tokens None long_text"
proof -
  have len: "length long_text = 2800" by (simp add: long_text_def length_concat map_replicate sum_list_replicate)
  have "set long_text \<subseteq> set ''Hi. ''" by (auto simp: long_text_def)
  then have "is_ascii long_text" unfolding is_ascii_def list_all_iff by force
  then have "text_divisor long_text = (4, 1)" using len by (auto simp: text_divisor_def CHARS_PER_TOKEN_def)
  moreover have "long_text \<noteq> []" using len by auto
  ultimately show ?thesis using len by (simp add: text_tokens_estimate estimate_def CHUNK_TARGET_TOKENS_def)
qed

lemma long_text_length: "length long_text = 2800"
  by (simp add: long_text_def length_concat sum_list_replicate)

theorem window_spans_cover_witness:
  "tiles 0 (sentence_spans long_text) 2800 \<and> (\<exists>w \<in> set (window_spans None long_text). fst w \<le> 2799 \<and> 2799 < snd w)"
proof -
  have "2799 < length long_text" by (simp add: long_text_length)
  then show ?thesis using window_spans_cover[OF long_text_tokens] unfolding long_text_length by blast
qed

section \<open>Chunks map back to their message\<close>

lemma window_ranges_bounds: "window_ranges i n rs \<Longrightarrow> r \<in> set rs \<Longrightarrow> fst r < snd r \<and> snd r \<le> n"
  by (induction rs arbitrary: i) (auto split: if_splits)

lemma window_spans_within:
  assumes "w \<in> set (window_spans enc src)"
  shows "fst w < snd w \<and> snd w \<le> length src"
proof (cases "CHUNK_TARGET_TOKENS < text_tokens enc src")
  case True
  let ?S = "sentence_spans src"
  have t: "tiles 0 ?S (length src)" by (rule sentence_spans_tiles)
  obtain rs where rs: "window_spans enc src = map (range_span ?S) rs" "window_ranges 0 (length ?S) rs"
    using window_facts[OF True] by blast
  then obtain r where r: "w = range_span ?S r" "fst r < snd r" "snd r \<le> length ?S" using assms window_ranges_bounds by fastforce
  have last: "snd r - 1 < length ?S" "fst r \<le> snd r - 1" "snd r - 1 \<le> length ?S - 1" "length ?S - 1 < length ?S" using r by auto
  have "fst (?S ! fst r) \<le> fst (?S ! (snd r - 1))" using tiles_mono[OF t last(1,2)] by simp
  also have "\<dots> < snd (?S ! (snd r - 1))" using tiles_nth(1)[OF t last(1)] .
  finally have "fst w < snd w" by (simp add: r(1) range_span_def)
  moreover have "snd (?S ! (snd r - 1)) \<le> snd (?S ! (length ?S - 1))" using tiles_mono[OF t last(4,3)] by simp
  moreover have "snd (?S ! (length ?S - 1)) = length src" using tiles_nth(4)[OF t last(4)] last(4) by simp
  ultimately show ?thesis by (simp add: r(1) range_span_def)
next
  case False
  then show ?thesis using assms by (auto simp: window_spans_def split: if_splits)
qed

lemma error_windows_sub:
  "set (error_windows src errors ws) \<subseteq> set ws"
  "sorted_wrt (<) (map fst ws) \<Longrightarrow> sorted_wrt (<) (map fst (error_windows src errors ws))"
  "errors < MAX_ERROR_CHUNKS \<Longrightarrow> length (error_windows src errors ws) \<le> MAX_ERROR_CHUNKS - errors"
proof -
  show sub: "set (error_windows src errors ws) \<subseteq> set ws" for errors ws
    by (induction src errors ws rule: error_windows.induct) auto
  show "sorted_wrt (<) (map fst ws) \<Longrightarrow> sorted_wrt (<) (map fst (error_windows src errors ws))"
  proof (induction ws arbitrary: errors)
    case (Cons iw ws)
    have "fst iw < fst x" if "x \<in> set (error_windows src e ws)" for x e using that sub[of e ws] Cons.prems by auto
    with Cons show ?case by auto
  qed simp
  show "errors < MAX_ERROR_CHUNKS \<Longrightarrow> length (error_windows src errors ws) \<le> MAX_ERROR_CHUNKS - errors"
    by (induction src errors ws rule: error_windows.induct) auto
qed

lemma enumerate_sorted: "sorted_wrt (<) (map fst (List.enumerate n xs))"
  by (simp del: upt_Suc)

text \<open>The windows a policy selects, in order, with their positions.\<close>

definition selected :: "codec option \<Rightarrow> string \<Rightarrow> (nat \<times> (nat \<times> nat)) list \<Rightarrow> bool" where
  "selected enc src iws \<longleftrightarrow> sorted_wrt (<) (map fst iws) \<and> set iws \<subseteq> set (List.enumerate 0 (window_spans enc src))"

lemma chunk_message_selected:
  "\<exists>iws. chunk_message enc store_id role content policy = map (\<lambda>(index, w). make_chunk enc store_id index (chunk_source content) w) iws
     \<and> selected enc (chunk_source content) iws"
proof -
  let ?src = "chunk_source content" and ?es = "List.enumerate 0 (window_spans enc (chunk_source content))"
  have none: "selected enc ?src []" by (simp add: selected_def)
  have full: "selected enc ?src ?es" by (simp add: selected_def enumerate_sorted)
  have head: "\<exists>iws. head_and_error_chunks enc store_id ?src = map (\<lambda>(index, w). make_chunk enc store_id index ?src w) iws \<and> selected enc ?src iws"
  proof (cases ?es)
    case Nil
    then show ?thesis using none by (intro exI[of _ "[]"]) (simp add: head_and_error_chunks_def)
  next
    case (Cons first rest)
    have "sorted_wrt (<) (map fst (first # rest))" using enumerate_sorted[of 0 "window_spans enc ?src"] unfolding Cons .
    then have "selected enc ?src (first # error_windows ?src 0 rest)"
      using error_windows_sub(1)[of ?src 0 rest] error_windows_sub(2)[of rest ?src 0] Cons by (auto simp: selected_def)
    then show ?thesis using Cons by (intro exI[of _ "first # error_windows ?src 0 rest"]) (simp add: head_and_error_chunks_def)
  qed
  have all: "\<exists>iws. full_chunks enc store_id ?src = map (\<lambda>(index, w). make_chunk enc store_id index ?src w) iws \<and> selected enc ?src iws"
    using full by (auto simp: full_chunks_def)
  show ?thesis using none head all by (auto simp: chunk_message_def Let_def)
qed

text \<open>
  Every chunk maps straight back to its message: its text is the slice of the message between its offsets,
  which lie within the message and are those of the window its index names; and the indexes of a message's chunks
  increase strictly, so a chunk identifier names one span whatever policy selected it.
\<close>

theorem chunks_map_back:
  "sorted_wrt (<) (map chunk_index (chunk_message enc store_id role content policy))
   \<and> list_all (\<lambda>c. ch_store_id c = store_id \<and> ch_text c = slice (chunk_source content) (char_start c, char_end c)
        \<and> char_start c < char_end c \<and> char_end c \<le> length (chunk_source content)
        \<and> chunk_index c < length (window_spans enc (chunk_source content))
        \<and> window_spans enc (chunk_source content) ! chunk_index c = (char_start c, char_end c))
      (chunk_message enc store_id role content policy)"
proof -
  let ?src = "chunk_source content"
  obtain iws where iws: "chunk_message enc store_id role content policy = map (\<lambda>(index, w). make_chunk enc store_id index ?src w) iws"
    "selected enc ?src iws" using chunk_message_selected by blast
  have "map chunk_index (map (\<lambda>(index, w). make_chunk enc store_id index ?src w) iws) = map fst iws"
    by (auto simp: make_chunk_def)
  then have "sorted_wrt (<) (map chunk_index (chunk_message enc store_id role content policy))" unfolding iws(1)
    using iws(2) by (simp only: selected_def)
  moreover have "index < length (window_spans enc ?src) \<and> window_spans enc ?src ! index = w \<and> fst w < snd w \<and> snd w \<le> length ?src"
    if "(index, w) \<in> set iws" for index w
  proof -
    have "(index, w) \<in> set (List.enumerate 0 (window_spans enc ?src))" using that iws(2) by (auto simp: selected_def)
    then have "index < length (window_spans enc ?src)" "window_spans enc ?src ! index = w"
      by (auto simp: in_set_enumerate_eq)
    then show ?thesis using window_spans_within by (metis nth_mem)
  qed
  ultimately show ?thesis unfolding iws(1) by (fastforce simp: list_all_iff make_chunk_def)
qed

text \<open>
  No part of a conversational turn is left out of the index: for a non-blank user or assistant message every
  character lies in a chunk, under the conversational and heads policies at any size and under the full policy up
  to the per-message cap.
\<close>

theorem conversation_fully_chunked:
  assumes "strip (chunk_source content) \<noteq> []" "role_name role \<in> {''user'', ''assistant''}"
    and "normalize_content_policy policy \<noteq> ''full'' \<or> text_tokens enc (chunk_source content) \<le> FULL_PER_MESSAGE_TOKEN_CAP"
    and "p < length (chunk_source content)"
  shows "\<exists>c \<in> set (chunk_message enc store_id role content policy). char_start c \<le> p \<and> p < char_end c"
proof -
  let ?src = "chunk_source content"
  have policy: "normalize_content_policy policy \<in> {''conversational'', ''heads'', ''full''}"
    by (simp add: normalize_content_policy_def Let_def)
  have full: "chunk_message enc store_id role content policy = full_chunks enc store_id ?src"
    using policy assms(1-3) by (auto simp: chunk_message_def Let_def)
  have "\<exists>w \<in> set (window_spans enc ?src). fst w \<le> p \<and> p < snd w"
  proof (cases "CHUNK_TARGET_TOKENS < text_tokens enc ?src")
    case True
    then show ?thesis using window_facts assms(4) by blast
  qed (use assms(4) in \<open>auto simp: window_spans_def\<close>)
  then obtain k where k: "k < length (window_spans enc ?src)" "fst (window_spans enc ?src ! k) \<le> p" "p < snd (window_spans enc ?src ! k)"
    by (auto simp: in_set_conv_nth)
  have "(k, window_spans enc ?src ! k) \<in> set (List.enumerate 0 (window_spans enc ?src))" using k(1) by (auto simp: in_set_enumerate_eq)
  then have "make_chunk enc store_id k ?src (window_spans enc ?src ! k) \<in> set (full_chunks enc store_id ?src)"
    unfolding full_chunks_def by force
  then show ?thesis unfolding full using k(2,3) by (force simp: make_chunk_def)
qed

theorem conversation_fully_chunked_witness:
  "\<exists>c \<in> set (chunk_message None 7 (PStr ''user'') (PStr ''ok'') (PStr ''conversational'')). char_start c \<le> 1 \<and> 1 < char_end c"
  by (rule conversation_fully_chunked)
    (simp_all add: chunk_source_def role_name_def normalize_content_policy_def py_or_def strip_def lower_def lower_char_def py_isspace_def)

section \<open>Grouping into documents\<close>

definition run_of :: "'a list \<Rightarrow> nat list \<Rightarrow> bool" where
  "run_of ids g \<longleftrightarrow> g \<noteq> [] \<and> list_all (\<lambda>i. i < length ids \<and> ids ! i = ids ! hd g) g"

lemma run_ofI: "g \<noteq> [] \<Longrightarrow> \<forall>i \<in> set g. i < length ids \<and> ids ! i = v \<Longrightarrow> run_of ids g"
  by (cases g) (auto simp: run_of_def list_all_iff)

lemma group_from_parts:
  assumes "current \<noteq> []" "\<forall>i \<in> set current. i < length ids \<and> ids ! i = prev" "drop position ids = rest" "position \<le> length ids"
  shows "concat (group_from position current prev rest) = current @ [position..<length ids]
    \<and> list_all (run_of ids) (group_from position current prev rest)
    \<and> group_from position current prev rest \<noteq> []
    \<and> hd (hd (group_from position current prev rest)) = hd current
    \<and> successively (\<lambda>g h. ids ! hd g \<noteq> ids ! hd h) (group_from position current prev rest)"
  using assms
proof (induction position current prev rest rule: group_from.induct)
  case (1 position current prev)
  then show ?case using run_ofI[of current ids prev] by simp
next
  case (2 position current prev s ss)
  have "position < length ids" using 2(5) by (metis drop_eq_Nil leI list.distinct(1))
  then have pos: "position < length ids" "ids ! position = s" "drop (position + 1) ids = ss"
    using 2(5) by (auto simp: nth_via_drop drop_Suc tl_drop[symmetric])
  have upt: "[position..<length ids] = position # [position + 1..<length ids]" using pos(1) by (simp add: upt_conv_Cons)
  have hd: "ids ! hd current = prev" using 2(3,4) by auto
  show ?case
  proof (cases "s = prev")
    case True
    have "\<forall>i \<in> set (current @ [position]). i < length ids \<and> ids ! i = prev" using 2(4) pos True by auto
    with 2(1)[OF True] True 2(3) pos show ?thesis unfolding upt by simp
  next
    case False
    let ?gs = "group_from (position + 1) [position] s ss"
    have IH: "concat ?gs = [position] @ [position + 1..<length ids]" "list_all (run_of ids) ?gs"
      "?gs \<noteq> []" "hd (hd ?gs) = position" "successively (\<lambda>g h. ids ! hd g \<noteq> ids ! hd h) ?gs"
      using 2(2)[OF False] pos by simp_all
    moreover have "run_of ids current" using 2(3,4) by (rule run_ofI)
    ultimately show ?thesis using False hd pos(2) unfolding upt by (simp add: successively_Cons)
  qed
qed

text \<open>
  Grouping chunks into documents is a partition into runs: the groups put together are the positions in order,
  no group is empty, all positions of a group have the same source message, and neighbouring groups have different
  ones.
\<close>

theorem group_by_store_id_runs:
  "concat (group_by_store_id ids) = [0..<length ids]
   \<and> list_all (run_of ids) (group_by_store_id ids)
   \<and> successively (\<lambda>g h. ids ! hd g \<noteq> ids ! hd h) (group_by_store_id ids)"
proof (cases ids)
  case (Cons s ss)
  have "[0..<length ids] = [0] @ [1..<length ids]" by (simp add: Cons upt_conv_Cons del: upt_Suc)
  then show ?thesis using group_from_parts[of "[0]" ids s 1 ss] Cons by (simp add: group_by_store_id_def del: upt_Suc)
qed (simp add: group_by_store_id_def)

end
