(* ===== verification/Recent_Period.thy ===== *)
theory Recent_Period
  imports Calendar Messages
begin

text \<open>
  The retrieval windows of \<open>lcm_recent\<close>, \<open>parse_recent_period\<close> of \<^verbatim>\<open>src/rollup_periods.py\<close>.  A UTC datetime is
  the number of microseconds since 0001-01-01T00:00; a date is its ordinal, from 1 to \<open>MAX_DATE\<close>.  The caller's
  \<open>now\<close> is timezone-aware and already converted to UTC.
\<close>

definition MAX_DATE :: date where "MAX_DATE = 3652059"

definition DAY :: int where "DAY = 86400 * 1000000"

definition HOUR :: int where "HOUR = 3600 * 1000000"

record RecentPeriodWindow =
  w_period :: string
  w_start :: int
  w_end :: int
  w_rollup_kind :: string
  w_subday :: bool

datatype period_error = PeriodRequired | OutsideDateRange | BadDate | DayTooSmall | HourTooSmall | HourOutsideRange | UnknownPeriod

definition day_start :: "date \<Rightarrow> int" where
  "day_start d = (d - 1) * DAY"

definition utc_date :: "int \<Rightarrow> date" where
  "utc_date t = t div DAY + 1"

definition checked_date_add :: "date \<Rightarrow> int \<Rightarrow> period_error + date" where
  "checked_date_add d n = (if 1 \<le> d + n \<and> d + n \<le> MAX_DATE then Inr (d + n) else Inl OutsideDateRange)"

definition exclusive_day_end :: "date \<Rightarrow> period_error + int" where
  "exclusive_day_end d = (case checked_date_add d 1 of Inl e \<Rightarrow> Inl e | Inr e \<Rightarrow> Inr (day_start e))"

definition is_digit :: "char \<Rightarrow> bool" where
  "is_digit c = (48 \<le> (of_char c :: nat) \<and> (of_char c :: nat) \<le> 57)"

definition digits_int :: "string \<Rightarrow> int" where
  "digits_int s = foldl (\<lambda>a c. 10 * a + (of_char c - 48)) 0 s"

text \<open>\<open>date.fromisoformat\<close> on a text of the form \<open>dddd-dd-dd\<close>.\<close>

definition iso_shape :: "string \<Rightarrow> bool" where
  "iso_shape s = (length s = 10 \<and> s ! 4 = CHR ''-'' \<and> s ! 7 = CHR ''-'' \<and> list_all is_digit (take 4 s @ take 2 (drop 5 s) @ drop 8 s))"

definition from_iso :: "string \<Rightarrow> period_error + date" where
  "from_iso s = (let y = digits_int (take 4 s); m = digits_int (take 2 (drop 5 s)); d = digits_int (drop 8 s) in
     if 1 \<le> y \<and> y \<le> 9999 \<and> 1 \<le> m \<and> m \<le> 12 \<and> 1 \<le> d \<and> d \<le> days_in_month y m then Inr (ymd2ord y m d) else Inl BadDate)"

definition all_digits :: "string \<Rightarrow> bool" where
  "all_digits s = (s \<noteq> [] \<and> list_all is_digit s)"

text \<open>\<open>re.fullmatch\<close> of \<^verbatim>\<open>(\d+)d\<close> and \<^verbatim>\<open>last (\d+)h\<close>.\<close>

definition days_match :: "string \<Rightarrow> int option" where
  "days_match s = (if s \<noteq> [] \<and> last s = CHR ''d'' \<and> all_digits (butlast s) then Some (digits_int (butlast s)) else None)"

definition hours_match :: "string \<Rightarrow> int option" where
  "hours_match s = (if is_prefix ''last '' s \<and> s \<noteq> ''last '' \<and> last s = CHR ''h'' \<and> all_digits (butlast (drop 5 s))
     then Some (digits_int (butlast (drop 5 s))) else None)"

definition day_window :: "string \<Rightarrow> date \<Rightarrow> date \<Rightarrow> period_error + RecentPeriodWindow" where
  "day_window requested first final = (case exclusive_day_end final of Inl e \<Rightarrow> Inl e
     | Inr e \<Rightarrow> Inr \<lparr>w_period = requested, w_start = day_start first, w_end = e, w_rollup_kind = ''day'', w_subday = False\<rparr>)"

definition week_window :: "string \<Rightarrow> date \<Rightarrow> period_error + RecentPeriodWindow" where
  "week_window requested today = (case checked_date_add today (- weekday today) of Inl e \<Rightarrow> Inl e
     | Inr first \<Rightarrow> (case checked_date_add first 7 of Inl e \<Rightarrow> Inl e
        | Inr next \<Rightarrow> Inr \<lparr>w_period = requested, w_start = day_start first, w_end = day_start next, w_rollup_kind = ''week'', w_subday = False\<rparr>))"

definition month_window :: "string \<Rightarrow> date \<Rightarrow> period_error + RecentPeriodWindow" where
  "month_window requested today =
     (case exclusive_day_end (month_start today + (days_in_month (year_of today) (month_of today) - 1)) of Inl e \<Rightarrow> Inl e
      | Inr e \<Rightarrow> Inr \<lparr>w_period = requested, w_start = day_start (month_start today), w_end = e, w_rollup_kind = ''month'', w_subday = False\<rparr>)"

definition parse_recent_period :: "string \<Rightarrow> int \<Rightarrow> period_error + RecentPeriodWindow" where
  "parse_recent_period period current =
     (if strip period = [] then Inl PeriodRequired
      else (let requested = collapse_spaces False (lower (strip period)); today = utc_date current in
        if requested = ''today'' then day_window requested today today
        else if requested = ''yesterday'' then
          (case checked_date_add today (- 1) of Inl e \<Rightarrow> Inl e | Inr d \<Rightarrow> day_window requested d d)
        else if requested = ''week'' then week_window requested today
        else if requested = ''month'' then month_window requested today
        else if is_prefix ''date:'' requested \<and> iso_shape (drop 5 requested) then
          (case from_iso (drop 5 requested) of Inl e \<Rightarrow> Inl e | Inr d \<Rightarrow> day_window requested d d)
        else (case days_match requested of
          Some n \<Rightarrow> if n \<le> 0 then Inl DayTooSmall
            else (case checked_date_add today (- (n - 1)) of Inl e \<Rightarrow> Inl e | Inr d \<Rightarrow> day_window requested d today)
        | None \<Rightarrow> (case hours_match requested of
            Some n \<Rightarrow> if n \<le> 0 then Inl HourTooSmall
              else if current - n * HOUR < 0 then Inl HourOutsideRange
              else Inr \<lparr>w_period = requested, w_start = current - n * HOUR, w_end = current, w_rollup_kind = ''day'', w_subday = True\<rparr>
          | None \<Rightarrow> Inl UnknownPeriod))))"

section \<open>Windows of days\<close>

definition valid_now :: "int \<Rightarrow> bool" where
  "valid_now t = (0 \<le> t \<and> t < MAX_DATE * DAY)"

lemma DAY_pos: "0 < DAY"
  by (simp add: DAY_def)

lemma utc_date_bounds:
  assumes "valid_now t"
  shows "1 \<le> utc_date t" "utc_date t \<le> MAX_DATE" "day_start (utc_date t) \<le> t" "t < day_start (utc_date t + 1)"
proof -
  show "1 \<le> utc_date t" using assms DAY_pos by (simp add: utc_date_def valid_now_def pos_imp_zdiv_nonneg_iff)
  have "t div DAY < MAX_DATE"
  proof (rule ccontr)
    assume "\<not> t div DAY < MAX_DATE"
    then have "MAX_DATE * DAY \<le> t div DAY * DAY" using DAY_pos by (intro mult_right_mono) auto
    also have "\<dots> \<le> t" using DAY_pos by (metis add.commute div_mult_mod_eq le_add_same_cancel2 pos_mod_sign)
    finally show False using assms by (simp add: valid_now_def)
  qed
  then show "utc_date t \<le> MAX_DATE" by (simp add: utc_date_def)
  have "t = DAY * (t div DAY) + t mod DAY" by simp
  moreover have "0 \<le> t mod DAY" "t mod DAY < DAY" using DAY_pos by simp_all
  moreover have "day_start (utc_date t) = DAY * (t div DAY)" "day_start (utc_date t + 1) = DAY * (t div DAY) + DAY"
    by (simp_all add: day_start_def utc_date_def algebra_simps)
  ultimately show "day_start (utc_date t) \<le> t" "t < day_start (utc_date t + 1)" by linarith+
qed

lemma dvd_day_start [simp]: "DAY dvd day_start d"
  by (simp add: day_start_def)

lemma day_start_mono: "d \<le> e \<longleftrightarrow> day_start d \<le> day_start e" "d < e \<longleftrightarrow> day_start d < day_start e"
  using DAY_pos by (auto simp: day_start_def)

lemma day_window_eq:
  "day_window requested first final = Inr w \<Longrightarrow> 1 \<le> final + 1 \<and> final + 1 \<le> MAX_DATE
     \<and> w = \<lparr>w_period = requested, w_start = day_start first, w_end = day_start (final + 1), w_rollup_kind = ''day'', w_subday = False\<rparr>"
  by (auto simp: day_window_def exclusive_day_end_def checked_date_add_def split: if_splits)

lemma month_last_next: "1 \<le> d \<Longrightarrow> month_start d + (days_in_month (year_of d) (month_of d) - 1) + 1 = next_month d"
  using month_first_Suc[of "month_index d"] month_index_spec(3,4)[of d] month_of_spec[of d]
    int_div_pos_eq[of "month_index d" 12 "year_of d" "month_of d - 1"] int_mod_pos_eq[of "month_index d" 12 "year_of d" "month_of d - 1"]
  by (simp add: month_index_def)

lemma days_before_month_nonneg: "1 \<le> m \<Longrightarrow> m \<le> 12 \<Longrightarrow> 0 \<le> days_before_month y m"
proof -
  assume m: "1 \<le> m" "m \<le> 12"
  let ?l = "[0, 31, 59, 90, 120, 151, 181, 212, 243, 273, 304, 334 :: int]"
  have "nat (m - 1) < length ?l" using m by simp
  then have "?l ! nat (m - 1) \<in> set ?l" by (rule nth_mem)
  then have "0 \<le> ?l ! nat (m - 1)" by auto
  then show ?thesis unfolding days_before_month_def by simp
qed

lemma from_iso_pos: "from_iso s = Inr d \<Longrightarrow> 1 \<le> d"
proof -
  assume "from_iso s = Inr d"
  then obtain y m k where ymd: "1 \<le> y" "1 \<le> m" "m \<le> 12" "1 \<le> k" "d = ymd2ord y m k"
    by (auto simp: from_iso_def Let_def split: if_splits)
  have "0 \<le> days_before_year y" using days_before_year_ge[of "y - 1"] ymd(1) by simp
  then show ?thesis using ymd days_before_month_nonneg[of m y] by (simp add: ymd2ord_def)
qed

text \<open>The kinds of window a request can give.\<close>

definition days_of :: "RecentPeriodWindow \<Rightarrow> date \<Rightarrow> date \<Rightarrow> string \<Rightarrow> bool" where
  "days_of w first stop kind \<longleftrightarrow> 1 \<le> first \<and> first < stop \<and> stop \<le> MAX_DATE \<and> w_start w = day_start first \<and> w_end w = day_start stop
     \<and> w_rollup_kind w = kind \<and> \<not> w_subday w"

lemma day_window_days: "day_window requested first final = Inr w \<Longrightarrow> 1 \<le> first \<Longrightarrow> first \<le> final \<Longrightarrow>
    days_of w first (final + 1) ''day'' \<and> w_period w = requested"
  using day_window_eq[of requested first final w] by (auto simp: days_of_def)

lemma week_window_days: "1 \<le> today \<Longrightarrow> week_window requested today = Inr w \<Longrightarrow>
    days_of w (week_start today) (week_start today + 7) ''week'' \<and> w_period w = requested"
  by (auto simp: week_window_def checked_date_add_def days_of_def week_start_def split: if_splits)

lemma month_window_days: "1 \<le> today \<Longrightarrow> month_window requested today = Inr w \<Longrightarrow>
    days_of w (month_start today) (next_month today) ''month'' \<and> w_period w = requested"
  using month_last_next[of today] months.start_le[of today] months.next_gt[of today] months.start_pos[of today]
  by (auto simp: month_window_def exclusive_day_end_def checked_date_add_def days_of_def next_month_start split: if_splits)

lemma parse_recent_period_cases:
  assumes now: "valid_now now" and parse: "parse_recent_period period now = Inr w"
  shows "(w_subday w \<and> w_end w = now \<and> 0 \<le> w_start w \<and> (\<exists>n > 0. w_start w = now - n * HOUR) \<and> w_rollup_kind w = ''day'')
    \<or> (w_period w = ''yesterday'' \<and> days_of w (utc_date now - 1) (utc_date now) ''day'')
    \<or> (is_prefix ''date:'' (w_period w) \<and> (\<exists>d. days_of w d (d + 1) ''day''))
    \<or> (\<exists>n > 0. days_of w (utc_date now + (1 - n)) (utc_date now + 1) ''day'')
    \<or> days_of w (week_start (utc_date now)) (week_start (utc_date now) + 7) ''week''
    \<or> days_of w (month_start (utc_date now)) (next_month (utc_date now)) ''month''"
proof -
  let ?r = "collapse_spaces False (lower (strip period))" and ?t = "utc_date now"
  note t = utc_date_bounds(1)[OF now]
  consider (today) "day_window ?r ?t ?t = Inr w" | (yesterday) "?r = ''yesterday''" "1 \<le> ?t - 1" "day_window ?r (?t - 1) (?t - 1) = Inr w"
    | (week) "week_window ?r ?t = Inr w" | (month) "month_window ?r ?t = Inr w"
    | (date) d where "is_prefix ''date:'' ?r" "from_iso (drop 5 ?r) = Inr d" "day_window ?r d d = Inr w"
    | (days) n where "\<not> n \<le> 0" "1 \<le> ?t + (1 - n)" "day_window ?r (?t + (1 - n)) ?t = Inr w"
    | (hours) n where "\<not> n \<le> 0" "\<not> now - n * HOUR < 0"
        "w = \<lparr>w_period = ?r, w_start = now - n * HOUR, w_end = now, w_rollup_kind = ''day'', w_subday = True\<rparr>"
    using parse unfolding parse_recent_period_def Let_def checked_date_add_def
    by (simp only: split: if_split_asm option.split_asm sum.split_asm, auto split: if_splits)
  then show ?thesis
  proof cases
    case today
    then show ?thesis using day_window_days[OF today t] by (auto intro!: exI[of _ "1::int"])
  next
    case yesterday
    then show ?thesis using day_window_days[OF yesterday(3,2)] by auto
  next
    case week
    then show ?thesis using week_window_days[OF t week] by blast
  next
    case month
    then show ?thesis using month_window_days[OF t month] by blast
  next
    case date
    then show ?thesis using day_window_days[OF date(3) from_iso_pos[OF date(2)]] by auto
  next
    case days
    then show ?thesis using day_window_days[OF days(3,2)] by (auto simp: not_le)
  next
    case hours
    then show ?thesis by (auto simp: not_le not_less)
  qed
qed

text \<open>
  Every accepted period is a usable window: a proper half-open interval within the supported dates; whole
  calendar days unless it is an hour window, which ends now and spans whole hours; it contains the present moment
  (an hour window ends at it) unless yesterday or a date was asked for; and a week or month window is exactly the
  calendar week from Monday or the calendar month of today.
\<close>

theorem recent_window_sound:
  assumes "valid_now now" "parse_recent_period period now = Inr w"
  shows "0 \<le> w_start w \<and> w_start w < w_end w \<and> w_end w \<le> MAX_DATE * DAY
    \<and> (if w_subday w then w_end w = now \<and> HOUR dvd w_end w - w_start w else DAY dvd w_start w \<and> DAY dvd w_end w)
    \<and> (w_period w = ''yesterday'' \<or> is_prefix ''date:'' (w_period w) \<or> w_start w \<le> now \<and> (w_subday w \<or> now < w_end w))
    \<and> (if w_rollup_kind w = ''week'' then w_start w = day_start (week_start (utc_date now)) \<and> w_end w = day_start (week_start (utc_date now) + 7)
       else w_rollup_kind w = ''month'' \<longrightarrow> w_start w = day_start (month_start (utc_date now)) \<and> w_end w = day_start (next_month (utc_date now)))"
proof -
  let ?t = "utc_date now"
  note t = utc_date_bounds[OF assms(1)]
  have HOUR: "0 < HOUR" by (simp add: HOUR_def)
  have days: "0 \<le> w_start w \<and> w_start w < w_end w \<and> w_end w \<le> MAX_DATE * DAY \<and> \<not> w_subday w \<and> DAY dvd w_start w \<and> DAY dvd w_end w
      \<and> w_rollup_kind w = kind \<and> w_start w = day_start first \<and> w_end w = day_start stop"
    if "days_of w first stop kind" for first stop kind
  proof -
    have "day_start stop \<le> MAX_DATE * DAY"
      using that day_start_mono(1)[of stop "MAX_DATE + 1"] by (simp add: days_of_def) (simp add: day_start_def)
    moreover have "0 \<le> day_start first" using that day_start_mono(1)[of 1 first] by (simp add: days_of_def) (simp add: day_start_def)
    ultimately show ?thesis using that day_start_mono(2)[of first stop] by (auto simp: days_of_def day_start_def)
  qed
  have now_in: "day_start first \<le> now \<and> now < day_start stop" if "first \<le> ?t" "?t < stop" for first stop
    using that day_start_mono(1)[of first ?t] day_start_mono(1)[of "?t + 1" stop] t(3,4) by linarith
  from parse_recent_period_cases[OF assms] consider
      (sub) n where "w_subday w" "w_end w = now" "0 \<le> w_start w" "n > 0" "w_start w = now - n * HOUR" "w_rollup_kind w = ''day''"
    | (named) first stop where "w_period w = ''yesterday'' \<or> is_prefix ''date:'' (w_period w)" "days_of w first stop ''day''"
    | (recent) n where "n > 0" "days_of w (?t + (1 - n)) (?t + 1) ''day''"
    | (week) "days_of w (week_start ?t) (week_start ?t + 7) ''week''"
    | (month) "days_of w (month_start ?t) (next_month ?t) ''month''"
    by blast
  then show ?thesis
  proof cases
    case sub
    then have "0 < n * HOUR" using HOUR by simp
    moreover have "now \<le> MAX_DATE * DAY" using assms(1) by (simp add: valid_now_def)
    ultimately show ?thesis using sub by auto
  next
    case named
    then show ?thesis using days[OF named(2)] by auto
  next
    case recent
    then show ?thesis using days[OF recent(2)] now_in[of "?t + (1 - n)" "?t + 1"] by simp
  next
    case week
    then show ?thesis using days[OF week] now_in weeks.start_le[OF t(1)] weeks.next_gt[OF t(1)] by simp
  next
    case month
    then show ?thesis using days[OF month] now_in months.start_le[OF t(1)] months.next_gt[OF t(1)] next_month_start[OF t(1)] by simp
  qed
qed

lemma sample_week: "parse_recent_period ''week'' (739000 * DAY) = Inr \<lparr>w_period = ''week'', w_start = day_start 738998,
    w_end = day_start 739005, w_rollup_kind = ''week'', w_subday = False\<rparr>"
  by (simp add: parse_recent_period_def strip_def lower_def lower_char_def py_isspace_def utc_date_def DAY_def week_window_def
      checked_date_add_def weekday_def MAX_DATE_def Let_def)

theorem recent_window_sound_witness:
  "\<exists>w. parse_recent_period ''week'' (739000 * DAY) = Inr w \<and> w_start w \<le> 739000 * DAY \<and> 739000 * DAY < w_end w"
  using sample_week recent_window_sound[OF _ sample_week] by (simp add: valid_now_def MAX_DATE_def DAY_def)

end
