(* ===== verification/Maintenance_Scheduler.thy ===== *)
theory Maintenance_Scheduler
  imports Prelude
begin

text \<open>
  The process-wide scheduler of rollup and embedding maintenance, \<open>_RollupMaintenanceScheduler\<close> of
  \<^verbatim>\<open>src/maintenance_scheduler.py\<close>.

  Every method runs under the scheduler's condition, so a step of the model is one critical section: a method, or
  the worker taking a job or finishing one.  Waiting is a step that is not enabled.  Jobs and owners are compared
  by identity and are numbers; \<open>now\<close> is the monotonic clock read in that section.  A dictionary of sets is a
  function whose missing entries are empty.  \<open>sc_stop\<close> is the process-wide stop signal of the embedding worker.
  A job that raises is finished like any other; the death of the worker thread itself is not modelled.
\<close>

type_synonym job_key = "string \<times> string"

declare split_paired_All [simp del] split_paired_Ex [simp del]

record scheduler =
  sc_embedding :: bool
  sc_stop :: bool
  sc_max :: nat
  sc_jobs :: "(job_key \<times> nat) list"
  sc_queued :: "job_key set"
  sc_deferred :: "(job_key \<times> nat) list"
  sc_not_before :: "job_key \<rightharpoonup> rat"
  sc_active :: "job_key set"
  sc_follow_up :: "(job_key \<times> nat) option"
  sc_running_follow_up :: bool
  sc_exclusive :: "job_key set"
  sc_owned :: "nat \<Rightarrow> job_key list"
  sc_key_owners :: "job_key \<Rightarrow> nat set"
  sc_handoffs :: "job_key \<Rightarrow> (nat \<times> nat) list"
  sc_retired :: "nat \<Rightarrow> job_key set"
  sc_worker :: bool
  sc_closed :: bool

definition new_scheduler :: "bool \<Rightarrow> int \<Rightarrow> scheduler" where
  "new_scheduler embedding max_pending_jobs = \<lparr>sc_embedding = embedding, sc_stop = False, sc_max = nat (max 1 max_pending_jobs), sc_jobs = [],
     sc_queued = {}, sc_deferred = [], sc_not_before = (\<lambda>_. None), sc_active = {}, sc_follow_up = None, sc_running_follow_up = False,
     sc_exclusive = {}, sc_owned = (\<lambda>_. []), sc_key_owners = (\<lambda>_. {}), sc_handoffs = (\<lambda>_. []), sc_retired = (\<lambda>_. {}),
     sc_worker = False, sc_closed = False\<rparr>"

definition put_handoff :: "nat \<Rightarrow> nat \<Rightarrow> (nat \<times> nat) list \<Rightarrow> (nat \<times> nat) list" where
  "put_handoff owner job hs = (if owner \<in> fst ` set hs then map (\<lambda>(o1, j). (o1, if o1 = owner then job else j)) hs else hs @ [(owner, job)])"

definition track_owner :: "job_key \<Rightarrow> nat option \<Rightarrow> nat option \<Rightarrow> scheduler \<Rightarrow> scheduler" where
  "track_owner key owner job s = (case owner of None \<Rightarrow> s
     | Some o1 \<Rightarrow>
        let s1 = s\<lparr>sc_owned := (sc_owned s)(o1 := List.insert key (sc_owned s o1)),
                   sc_key_owners := (sc_key_owners s)(key := insert o1 (sc_key_owners s key))\<rparr>
        in (case job of None \<Rightarrow> s1 | Some j \<Rightarrow> s1\<lparr>sc_handoffs := (sc_handoffs s)(key := put_handoff o1 j (sc_handoffs s key))\<rparr>))"

definition follows_up :: "job_key \<Rightarrow> scheduler \<Rightarrow> bool" where
  "follows_up key s = (\<exists>job. sc_follow_up s = Some (key, job))"

definition busy :: "job_key \<Rightarrow> scheduler \<Rightarrow> bool" where
  "busy key s = (key \<in> sc_queued s \<or> key \<in> fst ` set (sc_deferred s) \<or> key \<in> sc_active s \<or> key \<in> sc_exclusive s \<or> follows_up key s)"

definition release_if_idle :: "job_key \<Rightarrow> scheduler \<Rightarrow> scheduler" where
  "release_if_idle key s = (if busy key s then s
     else s\<lparr>sc_handoffs := (sc_handoffs s)(key := []), sc_key_owners := (sc_key_owners s)(key := {}),
            sc_owned := (\<lambda>o1. if o1 \<in> sc_key_owners s key then removeAll key (sc_owned s o1) else sc_owned s o1)\<rparr>)"

definition schedule :: "job_key \<Rightarrow> nat \<Rightarrow> nat option \<Rightarrow> rat \<Rightarrow> bool \<Rightarrow> rat \<Rightarrow> scheduler \<Rightarrow> bool \<times> scheduler" where
  "schedule key job owner delay handoff now s =
     (let hj = (if handoff then Some job else None) in
      if sc_closed s then (False, s)
      else if key \<in> sc_exclusive s then (False, s)
      else if key \<in> sc_queued s \<or> key \<in> fst ` set (sc_deferred s) then
        (let s1 = (if delay > 0 then s\<lparr>sc_not_before := (sc_not_before s)(key \<mapsto> max (case sc_not_before s key of None \<Rightarrow> 0 | Some t \<Rightarrow> t) (now + delay))\<rparr> else s)
         in (True, track_owner key owner hj s1))
      else
        (let s1 = (if delay > 0 then s\<lparr>sc_not_before := (sc_not_before s)(key \<mapsto> now + delay),
                                      sc_follow_up := (if follows_up key s then None else sc_follow_up s)\<rparr> else s) in
         if key \<in> sc_active s1 \<and> \<not> sc_running_follow_up s1 \<and> delay \<le> 0
         then (True, track_owner key owner hj (s1\<lparr>sc_follow_up := Some (key, job)\<rparr>))
         else if length (sc_jobs s1) \<ge> sc_max s1 then
           (if sc_embedding s1 \<and> length (sc_deferred s1) < sc_max s1
            then (True, track_owner key owner hj (s1\<lparr>sc_deferred := sc_deferred s1 @ [(key, job)]\<rparr>))
            else (False, s1\<lparr>sc_not_before := (sc_not_before s1)(key := None)\<rparr>))
         else (True, track_owner key owner hj (s1\<lparr>sc_worker := True, sc_jobs := sc_jobs s1 @ [(key, job)], sc_queued := insert key (sc_queued s1)\<rparr>))))"

definition handoff :: "job_key \<Rightarrow> nat \<Rightarrow> rat \<Rightarrow> rat \<Rightarrow> scheduler \<Rightarrow> bool \<times> scheduler" where
  "handoff key retired_owner delay now s = (case List.find (\<lambda>(o1, j). o1 \<noteq> retired_owner) (sc_handoffs s key) of
     None \<Rightarrow> (False, s) | Some (o1, j) \<Rightarrow> schedule key j (Some o1) delay True now s)"

definition try_acquire_exclusive :: "job_key \<Rightarrow> scheduler \<Rightarrow> bool \<times> scheduler" where
  "try_acquire_exclusive key s = (if busy key s then (False, s)
     else if card (sc_exclusive s) \<ge> sc_max s then (False, s)
     else (True, s\<lparr>sc_exclusive := insert key (sc_exclusive s)\<rparr>))"

definition release_exclusive :: "job_key \<Rightarrow> scheduler \<Rightarrow> scheduler" where
  "release_exclusive key s = s\<lparr>sc_exclusive := sc_exclusive s - {key}\<rparr>"

text \<open>The conditions the waiting loops of \<open>drain\<close> and \<open>drain_owner\<close> test.\<close>

definition drained :: "job_key list \<Rightarrow> scheduler \<Rightarrow> bool" where
  "drained keys s = (\<forall>key \<in> set keys. \<not> busy key s)"

definition owner_drained :: "nat \<Rightarrow> scheduler \<Rightarrow> bool" where
  "owner_drained owner s = (sc_owned s owner = [])"

section \<open>Retirement and shutdown\<close>

definition retire_key :: "nat \<Rightarrow> scheduler \<Rightarrow> job_key \<Rightarrow> scheduler" where
  "retire_key owner s key =
     (let owners = sc_key_owners s key - {owner}; handoffs = filter (\<lambda>h. fst h \<noteq> owner) (sc_handoffs s key);
          s1 = s\<lparr>sc_key_owners := (sc_key_owners s)(key := owners), sc_handoffs := (sc_handoffs s)(key := handoffs)\<rparr> in
      if owners \<noteq> {} then
        (case handoffs of [] \<Rightarrow> s1
         | (_, job) # _ \<Rightarrow> s1\<lparr>sc_jobs := map (\<lambda>(k, j). (k, if k = key then job else j)) (sc_jobs s1),
               sc_deferred := map (\<lambda>(k, j). (k, if k = key then job else j)) (sc_deferred s1),
               sc_follow_up := (if follows_up key s1 then Some (key, job) else sc_follow_up s1)\<rparr>)
      else s1\<lparr>sc_handoffs := (sc_handoffs s)(key := []), sc_key_owners := (sc_key_owners s)(key := {}),
              sc_deferred := filter (\<lambda>kj. fst kj \<noteq> key) (sc_deferred s1), sc_not_before := (sc_not_before s1)(key := None),
              sc_jobs := filter (\<lambda>kj. fst kj \<noteq> key) (sc_jobs s1), sc_queued := sc_queued s1 - {key},
              sc_follow_up := (if follows_up key s1 then None else sc_follow_up s1)\<rparr>)"

definition retire_owner :: "nat \<Rightarrow> bool \<Rightarrow> scheduler \<Rightarrow> job_key set \<times> scheduler" where
  "retire_owner owner no_wait s =
     (let s1 = foldl (retire_key owner) (s\<lparr>sc_owned := (sc_owned s)(owner := [])\<rparr>) (sc_owned s owner);
          keys = set (sc_owned s owner) \<union> (sc_retired s1 owner \<inter> sc_active s1);
          active = keys \<inter> sc_active s1 in
      (active, s1\<lparr>sc_retired := (sc_retired s1)(owner := if no_wait then active else {})\<rparr>))"

definition quiesce :: "scheduler \<Rightarrow> scheduler" where
  "quiesce s =
     (let pending = remdups (map fst (sc_jobs s) @ map fst (sc_deferred s) @ (case sc_follow_up s of None \<Rightarrow> [] | Some (k, _) \<Rightarrow> [k]));
          s1 = s\<lparr>sc_stop := sc_embedding s \<or> sc_stop s, sc_closed := True, sc_deferred := [], sc_not_before := (\<lambda>_. None), sc_jobs := [],
                 sc_queued := {}, sc_follow_up := None\<rparr>
      in foldl (\<lambda>st key. release_if_idle key st) s1 pending)"

section \<open>The worker\<close>

definition due :: "rat \<Rightarrow> scheduler \<Rightarrow> job_key \<times> nat \<Rightarrow> bool" where
  "due now s kj = (\<not> (case sc_not_before s (fst kj) of None \<Rightarrow> 0 | Some t \<Rightarrow> t) > now)"

definition admit_deferred :: "scheduler \<Rightarrow> scheduler" where
  "admit_deferred s = (case sc_deferred s of [] \<Rightarrow> s
     | (key, job) # rest \<Rightarrow> s\<lparr>sc_deferred := rest, sc_jobs := sc_jobs s @ [(key, job)], sc_queued := insert key (sc_queued s)\<rparr>)"

datatype worker_move = Wait scheduler | Exit scheduler | Start job_key nat scheduler

definition worker_take :: "rat \<Rightarrow> scheduler \<Rightarrow> worker_move" where
  "worker_take now s =
     (if sc_jobs s = [] \<and> sc_deferred s = [] then (if sc_closed s then Exit (s\<lparr>sc_worker := False\<rparr>) else Wait s)
      else (let s1 = (if sc_jobs s = [] then admit_deferred s else s) in
        case dropWhile (\<lambda>kj. \<not> due now s1 kj) (sc_jobs s1) of
          [] \<Rightarrow> if sc_embedding s1 \<and> sc_stop s1 then Exit ((quiesce s1)\<lparr>sc_worker := False\<rparr>) else Wait s1
        | (key, job) # post \<Rightarrow>
           (let s2 = s1\<lparr>sc_jobs := post @ takeWhile (\<lambda>kj. \<not> due now s1 kj) (sc_jobs s1), sc_not_before := (sc_not_before s1)(key := None)\<rparr>;
                s3 = admit_deferred s2
            in Start key job (s3\<lparr>sc_queued := sc_queued s3 - {key}, sc_active := insert key (sc_active s3), sc_running_follow_up := False\<rparr>))))"

definition worker_finish :: "job_key \<Rightarrow> scheduler \<Rightarrow> nat option \<times> scheduler" where
  "worker_finish key s = (case sc_follow_up s of
     Some (k, job) \<Rightarrow> if k = key then (Some job, s\<lparr>sc_follow_up := None, sc_running_follow_up := True\<rparr>)
       else (None, release_if_idle key (s\<lparr>sc_active := sc_active s - {key}, sc_retired := (\<lambda>o1. sc_retired s o1 - {key}), sc_running_follow_up := False\<rparr>))
   | None \<Rightarrow> (None, release_if_idle key (s\<lparr>sc_active := sc_active s - {key}, sc_retired := (\<lambda>o1. sc_retired s o1 - {key}), sc_running_follow_up := False\<rparr>)))"

section \<open>The invariant\<close>

definition at_most_one :: "'a set \<Rightarrow> bool" where
  "at_most_one A \<longleftrightarrow> (\<forall>x \<in> A. \<forall>y \<in> A. x = y)"

lemma at_most_oneD: "at_most_one A \<Longrightarrow> x \<in> A \<Longrightarrow> y \<in> A \<Longrightarrow> x = y"
  unfolding at_most_one_def by blast

lemma at_most_one_simps [simp]: "at_most_one {}" "at_most_one {x}"
  by (simp_all add: at_most_one_def)

lemma at_most_one_subset: "at_most_one A \<Longrightarrow> B \<subseteq> A \<Longrightarrow> at_most_one B"
  unfolding at_most_one_def by blast

definition queue_ok :: "scheduler \<Rightarrow> bool" where
  "queue_ok s \<longleftrightarrow> sc_queued s = fst ` set (sc_jobs s) \<and> distinct (map fst (sc_jobs s @ sc_deferred s))
     \<and> length (sc_jobs s) \<le> sc_max s \<and> length (sc_deferred s) \<le> sc_max s \<and> 0 < sc_max s
     \<and> finite (sc_exclusive s) \<and> card (sc_exclusive s) \<le> sc_max s
     \<and> sc_exclusive s \<inter> fst ` set (sc_jobs s) = {} \<and> sc_exclusive s \<inter> fst ` set (sc_deferred s) = {} \<and> sc_exclusive s \<inter> sc_active s = {}
     \<and> (\<forall>k j. sc_follow_up s = Some (k, j) \<longrightarrow> k \<in> sc_active s)
     \<and> at_most_one (sc_active s)"

definition pending :: "job_key \<Rightarrow> scheduler \<Rightarrow> bool" where
  "pending key s \<longleftrightarrow> key \<in> sc_queued s \<or> key \<in> fst ` set (sc_deferred s) \<or> follows_up key s"

definition working :: "job_key \<Rightarrow> scheduler \<Rightarrow> bool" where
  "working key s \<longleftrightarrow> pending key s \<or> key \<in> sc_active s"

lemma busy_working: "busy key s \<longleftrightarrow> working key s \<or> key \<in> sc_exclusive s"
  by (auto simp: busy_def working_def pending_def)

definition owners_ok :: "scheduler \<Rightarrow> bool" where
  "owners_ok s \<longleftrightarrow> (\<forall>k. sc_key_owners s k \<noteq> {} \<longrightarrow> working k s)
     \<and> (\<forall>o1 k. k \<in> set (sc_owned s o1) \<longleftrightarrow> o1 \<in> sc_key_owners s k)"

definition sched_ok :: "scheduler \<Rightarrow> bool" where
  "sched_ok s \<longleftrightarrow> queue_ok s \<and> owners_ok s"

lemma track_owner_fields [simp]:
  "sc_jobs (track_owner k o' j s) = sc_jobs s" "sc_queued (track_owner k o' j s) = sc_queued s"
  "sc_deferred (track_owner k o' j s) = sc_deferred s" "sc_active (track_owner k o' j s) = sc_active s"
  "sc_follow_up (track_owner k o' j s) = sc_follow_up s" "sc_exclusive (track_owner k o' j s) = sc_exclusive s"
  "sc_max (track_owner k o' j s) = sc_max s" "sc_embedding (track_owner k o' j s) = sc_embedding s"
  "sc_not_before (track_owner k o' j s) = sc_not_before s" "sc_closed (track_owner k o' j s) = sc_closed s"
  by (simp_all add: track_owner_def Let_def split: option.splits)

lemma track_owner_busy [simp]: "busy k' (track_owner k o' j s) = busy k' s"
  by (simp add: busy_def follows_up_def)

lemma track_owner_working [simp]: "working k' (track_owner k o' j s) = working k' s"
  by (simp add: working_def pending_def follows_up_def)

lemma track_owner_queue [simp]: "queue_ok (track_owner k o' j s) = queue_ok s"
  by (simp add: queue_ok_def)

lemma track_owner_owners: "owners_ok s \<Longrightarrow> working k s \<Longrightarrow> owners_ok (track_owner k o' j s)"
  unfolding owners_ok_def track_owner_working
  by (auto simp: track_owner_def Let_def split: option.splits)

lemma owners_mono:
  "owners_ok s \<Longrightarrow> sc_key_owners s' = sc_key_owners s \<Longrightarrow> sc_owned s' = sc_owned s \<Longrightarrow> (\<And>k. working k s \<Longrightarrow> working k s') \<Longrightarrow> owners_ok s'"
  by (auto simp: owners_ok_def)

lemma release_if_idle_fields [simp]:
  "sc_jobs (release_if_idle k s) = sc_jobs s" "sc_queued (release_if_idle k s) = sc_queued s"
  "sc_deferred (release_if_idle k s) = sc_deferred s" "sc_active (release_if_idle k s) = sc_active s"
  "sc_follow_up (release_if_idle k s) = sc_follow_up s" "sc_exclusive (release_if_idle k s) = sc_exclusive s"
  "sc_max (release_if_idle k s) = sc_max s" "sc_closed (release_if_idle k s) = sc_closed s"
  "sc_retired (release_if_idle k s) = sc_retired s"
  by (simp_all add: release_if_idle_def)

lemma release_if_idle_busy [simp]: "busy k' (release_if_idle k s) = busy k' s"
  by (simp add: busy_def follows_up_def)

lemma release_if_idle_working [simp]: "working k' (release_if_idle k s) = working k' s"
  by (simp add: working_def pending_def follows_up_def)

lemma release_if_idle_queue [simp]: "queue_ok (release_if_idle k s) = queue_ok s"
  by (simp add: queue_ok_def)

text \<open>Ownership that is stale only for some keys becomes right once those keys are released.\<close>

definition owners_ok_except :: "job_key set \<Rightarrow> scheduler \<Rightarrow> bool" where
  "owners_ok_except K s \<longleftrightarrow> (\<forall>k. sc_key_owners s k \<noteq> {} \<longrightarrow> working k s \<or> k \<in> K)
     \<and> (\<forall>o1 k. k \<in> set (sc_owned s o1) \<longleftrightarrow> o1 \<in> sc_key_owners s k)"

lemma owners_ok_except_empty [simp]: "owners_ok_except {} s = owners_ok s"
  by (simp add: owners_ok_except_def owners_ok_def)

lemma release_if_idle_owners: "owners_ok_except K s \<Longrightarrow> k \<notin> sc_exclusive s \<Longrightarrow> owners_ok_except (K - {k}) (release_if_idle k s)"
proof -
  assume ok: "owners_ok_except K s" and ex: "k \<notin> sc_exclusive s"
  show ?thesis
  proof (cases "busy k s")
    case True
    then have "working k s" using ex by (simp add: busy_working)
    then show ?thesis using ok True by (auto simp: owners_ok_except_def release_if_idle_def)
  next
    case False
    let ?s = "release_if_idle k s"
    have own: "sc_key_owners ?s = (sc_key_owners s)(k := {})"
      "sc_owned ?s = (\<lambda>o1. if o1 \<in> sc_key_owners s k then removeAll k (sc_owned s o1) else sc_owned s o1)"
      using False by (simp_all add: release_if_idle_def)
    show ?thesis unfolding owners_ok_except_def release_if_idle_working own
    proof (intro conjI allI impI)
      fix k' assume "((sc_key_owners s)(k := {})) k' \<noteq> {}"
      then have "k' \<noteq> k" "sc_key_owners s k' \<noteq> {}" by (auto split: if_splits)
      with ok show "working k' s \<or> k' \<in> K - {k}" by (auto simp: owners_ok_except_def)
    next
      fix o1 k'
      have "k' \<in> set (sc_owned s o1) \<longleftrightarrow> o1 \<in> sc_key_owners s k'" using ok by (simp add: owners_ok_except_def)
      then show "(k' \<in> set (if o1 \<in> sc_key_owners s k then removeAll k (sc_owned s o1) else sc_owned s o1)) = (o1 \<in> ((sc_key_owners s)(k := {})) k')"
        by (cases "k' = k") auto
    qed
  qed
qed

lemma release_all_owners:
  "owners_ok_except K s \<Longrightarrow> set ks \<inter> sc_exclusive s = {} \<Longrightarrow> owners_ok_except (K - set ks) (foldl (\<lambda>st key. release_if_idle key st) s ks)"
proof (induction ks arbitrary: K s)
  case (Cons k ks)
  have "K - {k} - set ks = K - set (k # ks)" by auto
  then show ?case using Cons.IH[OF release_if_idle_owners[OF Cons.prems(1), of k]] Cons.prems(2) by simp
qed simp

lemma release_all_fields:
  "sc_jobs (foldl (\<lambda>st key. release_if_idle key st) s ks) = sc_jobs s" "queue_ok (foldl (\<lambda>st key. release_if_idle key st) s ks) = queue_ok s"
  "sc_deferred (foldl (\<lambda>st key. release_if_idle key st) s ks) = sc_deferred s" "sc_follow_up (foldl (\<lambda>st key. release_if_idle key st) s ks) = sc_follow_up s"
  "sc_active (foldl (\<lambda>st key. release_if_idle key st) s ks) = sc_active s" "sc_closed (foldl (\<lambda>st key. release_if_idle key st) s ks) = sc_closed s"
  "sc_queued (foldl (\<lambda>st key. release_if_idle key st) s ks) = sc_queued s"
  by (induction ks arbitrary: s) auto

lemma track_owner_pending [simp]: "pending k' (track_owner k o' j s) = pending k' s"
  by (simp add: pending_def follows_up_def)

text \<open>What an accepted request does to the queues, before its owner is recorded.\<close>

definition admits :: "job_key \<Rightarrow> scheduler \<Rightarrow> scheduler \<Rightarrow> bool" where
  "admits key s s' \<longleftrightarrow> queue_ok s' \<and> pending key s' \<and> sc_active s' = sc_active s \<and> sc_exclusive s' = sc_exclusive s
     \<and> sc_key_owners s' = sc_key_owners s \<and> sc_owned s' = sc_owned s \<and> (\<forall>k. pending k s \<longrightarrow> pending k s')"

lemma admits_ok:
  assumes "sched_ok s" "admits key s s'"
  shows "sched_ok (track_owner key o' j s')" "pending key (track_owner key o' j s')"
proof -
  have busy: "working k s'" if "working k s" for k
    using that assms(2) by (auto simp: admits_def working_def)
  have "owners_ok s'" by (rule owners_mono[OF _ _ _ busy]) (use assms in \<open>simp_all add: sched_ok_def admits_def\<close>)
  moreover have "working key s'" using assms(2) by (simp add: admits_def working_def)
  ultimately show "sched_ok (track_owner key o' j s')" using assms(2) by (simp add: sched_ok_def track_owner_owners admits_def)
  show "pending key (track_owner key o' j s')" using assms(2) by (simp add: admits_def)
qed

lemma schedule_cases:
  assumes ok: "queue_ok s" and sch: "schedule key job owner delay keep now s = (accepted, s')"
  shows "if accepted then \<exists>s1. admits key s s1 \<and> s' = track_owner key owner (if keep then Some job else None) s1
    else queue_ok s' \<and> sc_active s' = sc_active s \<and> sc_exclusive s' = sc_exclusive s \<and> sc_key_owners s' = sc_key_owners s \<and> sc_owned s' = sc_owned s
      \<and> (\<forall>k. pending k s \<longrightarrow> pending k s' \<or> k = key \<and> follows_up key s \<and> delay > 0)"
proof -
  define s1 where "s1 = (if delay > 0 then s\<lparr>sc_not_before := (sc_not_before s)(key \<mapsto> now + delay),
      sc_follow_up := (if follows_up key s then None else sc_follow_up s)\<rparr> else s)"
  have fu: "follows_up k s \<Longrightarrow> k \<in> sc_active s" for k using ok by (auto simp: queue_ok_def follows_up_def)
  have q: "queue_ok s1" using ok by (cases "follows_up key s") (simp_all add: s1_def queue_ok_def)
  have s1: "queue_ok s1" "sc_active s1 = sc_active s" "sc_exclusive s1 = sc_exclusive s" "sc_key_owners s1 = sc_key_owners s" "sc_owned s1 = sc_owned s"
    "sc_queued s1 = sc_queued s" "sc_deferred s1 = sc_deferred s" "sc_jobs s1 = sc_jobs s" "sc_max s1 = sc_max s"
    "\<And>k. k \<noteq> key \<Longrightarrow> follows_up k s \<Longrightarrow> follows_up k s1" "\<And>k. follows_up k s \<Longrightarrow> k \<in> sc_active s"
    using q fu by (simp_all add: s1_def) (simp_all add: follows_up_def split: if_splits)
  show ?thesis
  proof (cases "sc_closed s \<or> key \<in> sc_exclusive s")
    case True
    then have "schedule key job owner delay keep now s = (False, s)"
      unfolding schedule_def Let_def by (cases "sc_closed s") simp_all
    with sch ok show ?thesis by auto
  next
    case False
    show ?thesis
    proof (cases "key \<in> sc_queued s \<or> key \<in> fst ` set (sc_deferred s)")
      case True
      let ?s = "if delay > 0 then s\<lparr>sc_not_before := (sc_not_before s)(key \<mapsto> max (case sc_not_before s key of None \<Rightarrow> 0 | Some t \<Rightarrow> t) (now + delay))\<rparr> else s"
      have "admits key s ?s" using True ok by (auto simp: admits_def queue_ok_def pending_def follows_up_def)
      moreover have "accepted" "s' = track_owner key owner (if keep then Some job else None) ?s"
        using sch False True unfolding schedule_def Let_def by (simp_all split: if_split_asm)
      ultimately show ?thesis by auto
    next
      case new: False
      consider (follow) "key \<in> sc_active s1" "\<not> sc_running_follow_up s1" "delay \<le> 0" "accepted"
            "s' = track_owner key owner (if keep then Some job else None) (s1\<lparr>sc_follow_up := Some (key, job)\<rparr>)"
        | (bank) "length (sc_deferred s1) < sc_max s1" "accepted"
            "s' = track_owner key owner (if keep then Some job else None) (s1\<lparr>sc_deferred := sc_deferred s1 @ [(key, job)]\<rparr>)"
        | (full) "\<not> accepted" "s' = s1\<lparr>sc_not_before := (sc_not_before s1)(key := None)\<rparr>"
        | (ready) "length (sc_jobs s1) < sc_max s1" "accepted"
            "s' = track_owner key owner (if keep then Some job else None) (s1\<lparr>sc_worker := True, sc_jobs := sc_jobs s1 @ [(key, job)], sc_queued := insert key (sc_queued s1)\<rparr>)"
        using sch False new unfolding schedule_def Let_def s1_def[symmetric] by (simp split: if_split_asm)
      then show ?thesis
      proof cases
        case follow
        have "at_most_one (sc_active s)" using ok by (simp add: queue_ok_def)
        then have "k = key" if "follows_up k s" for k using s1(11)[OF that] s1(2) follow(1) by (auto dest: at_most_oneD)
        then have "admits key s (s1\<lparr>sc_follow_up := Some (key, job)\<rparr>)"
          using s1 follow(1) by (auto simp: admits_def queue_ok_def pending_def follows_up_def)
        then show ?thesis using follow(4,5) by auto
      next
        case bank
        let ?s = "s1\<lparr>sc_deferred := sc_deferred s1 @ [(key, job)]\<rparr>"
        have "queue_ok ?s" using s1(1) bank(1) new False s1(3,6,7) by (auto simp: queue_ok_def)
        moreover have "pending k ?s" if "pending k s" for k
          using that s1(6,7) s1(10)[of k] by (cases "k = key") (auto simp: pending_def follows_up_def)
        ultimately have "admits key s ?s" using s1(2-5) by (simp add: admits_def) (simp add: pending_def)
        then show ?thesis using bank(2,3) by auto
      next
        case ready
        let ?s = "s1\<lparr>sc_worker := True, sc_jobs := sc_jobs s1 @ [(key, job)], sc_queued := insert key (sc_queued s1)\<rparr>"
        have "queue_ok ?s" using s1(1) ready(1) new False s1(3,6,7) by (auto simp: queue_ok_def)
        moreover have "pending k ?s" if "pending k s" for k
          using that s1(6,7) s1(10)[of k] by (cases "k = key") (auto simp: pending_def follows_up_def)
        ultimately have "admits key s ?s" using s1(2-5) by (simp add: admits_def) (simp add: pending_def)
        then show ?thesis using ready(2,3) by auto
      next
        case full
        have "queue_ok s'" using s1(1) by (simp add: full queue_ok_def)
        moreover have "pending k s' \<or> k = key \<and> follows_up key s \<and> delay > 0" if "pending k s" for k
        proof -
          have "follows_up k s' \<or> k = key \<and> delay > 0" if "follows_up k s" using that by (auto simp: full(2) s1_def follows_up_def)
          then show ?thesis using that s1(6,7) by (auto simp: pending_def full)
        qed
        ultimately show ?thesis using full s1(2-5) by auto
      qed
    qed
  qed
qed

lemma schedule_ok:
  assumes "sched_ok s" "schedule key job owner delay keep now s = (accepted, s')"
  shows "sched_ok s'" "accepted \<Longrightarrow> pending key s'"
    "\<And>k. pending k s \<Longrightarrow> pending k s' \<or> k = key \<and> \<not> accepted \<and> follows_up key s \<and> delay > 0"
    "sc_active s' = sc_active s"
proof -
  note sch = schedule_cases[OF _ assms(2)]
  have q: "queue_ok s" using assms(1) by (simp add: sched_ok_def)
  have "sched_ok s' \<and> (accepted \<longrightarrow> pending key s') \<and> sc_active s' = sc_active s
    \<and> (\<forall>k. pending k s \<longrightarrow> pending k s' \<or> k = key \<and> \<not> accepted \<and> follows_up key s \<and> delay > 0)"
  proof (cases accepted)
    case True
    then obtain s1 where s1: "admits key s s1" "s' = track_owner key owner (if keep then Some job else None) s1" using sch[OF q] by auto
    then show ?thesis using admits_ok[OF assms(1) s1(1)] by (simp add: admits_def)
  next
    case False
    then have r: "queue_ok s'" "sc_active s' = sc_active s" "sc_exclusive s' = sc_exclusive s" "sc_key_owners s' = sc_key_owners s" "sc_owned s' = sc_owned s"
      "\<And>k. pending k s \<Longrightarrow> pending k s' \<or> k = key \<and> follows_up key s \<and> delay > 0" using sch[OF q] by auto
    have fu: "k \<in> sc_active s" if "follows_up k s" for k using that q by (auto simp: queue_ok_def follows_up_def)
    have w: "working k s'" if "working k s" for k using that r(2) r(6)[of k] fu[of k] by (auto simp: working_def)
    have "owners_ok s'" by (rule owners_mono[OF _ r(4,5) w]) (use assms(1) in \<open>simp_all add: sched_ok_def\<close>)
    then show ?thesis using False r by (simp add: sched_ok_def)
  qed
  then show "sched_ok s'" "accepted \<Longrightarrow> pending key s'" "sc_active s' = sc_active s"
    "\<And>k. pending k s \<Longrightarrow> pending k s' \<or> k = key \<and> \<not> accepted \<and> follows_up key s \<and> delay > 0" by blast+
qed

lemma acquire_ok:
  assumes "sched_ok s" "try_acquire_exclusive key s = (got, s')"
  shows "sched_ok s'" "pending k s' = pending k s" "sc_active s' = sc_active s"
proof -
  have "s' = s \<or> \<not> busy key s \<and> card (sc_exclusive s) < sc_max s \<and> s' = s\<lparr>sc_exclusive := insert key (sc_exclusive s)\<rparr>"
    using assms(2) by (auto simp: try_acquire_exclusive_def split: if_splits)
  then have "sched_ok s' \<and> pending k s' = pending k s \<and> sc_active s' = sc_active s"
  proof
    assume a: "\<not> busy key s \<and> card (sc_exclusive s) < sc_max s \<and> s' = s\<lparr>sc_exclusive := insert key (sc_exclusive s)\<rparr>"
    then have "queue_ok s'" using assms(1) by (auto simp: sched_ok_def queue_ok_def busy_def card_insert_if)
    moreover have "owners_ok s'" using a assms(1) by (intro owners_mono[of s s']) (auto simp: sched_ok_def working_def pending_def follows_up_def)
    ultimately show ?thesis using a by (simp add: sched_ok_def pending_def follows_up_def)
  qed (use assms(1) in simp)
  then show "sched_ok s'" "pending k s' = pending k s" "sc_active s' = sc_active s" by auto
qed

lemma release_ok:
  assumes "sched_ok s"
  shows "sched_ok (release_exclusive key s)" "pending k (release_exclusive key s) = pending k s"
proof -
  let ?s = "release_exclusive key s"
  show "pending k ?s = pending k s" by (simp add: pending_def follows_up_def release_exclusive_def)
  have "card (sc_exclusive s - {key}) \<le> card (sc_exclusive s)" by (rule card_Diff1_le)
  then have "queue_ok ?s" using assms by (auto simp: sched_ok_def queue_ok_def release_exclusive_def)
  moreover have "owners_ok ?s" using assms
    by (intro owners_mono[of s ?s]) (auto simp: sched_ok_def working_def pending_def follows_up_def release_exclusive_def)
  ultimately show "sched_ok ?s" by (simp add: sched_ok_def)
qed

lemma map_job_keys: "map fst (map (\<lambda>(k, j). (k, if k = key then job else j)) xs) = map fst xs"
  by auto

lemma image_job_keys: "fst ` set (map (\<lambda>(k, j). (k, if k = key then job else j)) xs) = fst ` set xs"
  by (metis list.set_map map_job_keys)

lemma retire_key_props:
  assumes "queue_ok s" and s': "s' = retire_key owner s key"
  shows "queue_ok s'" "sc_active s' = sc_active s" "sc_owned s' = sc_owned s" "sc_exclusive s' = sc_exclusive s"
    "sc_key_owners s' = (sc_key_owners s)(key := sc_key_owners s key - {owner})"
    "k \<noteq> key \<or> sc_key_owners s key - {owner} \<noteq> {} \<Longrightarrow> pending k s' = pending k s"
proof -
  let ?owners = "sc_key_owners s key - {owner}" and ?hs = "filter (\<lambda>h. fst h \<noteq> owner) (sc_handoffs s key)"
  define s1 where "s1 = s\<lparr>sc_key_owners := (sc_key_owners s)(key := ?owners), sc_handoffs := (sc_handoffs s)(key := ?hs)\<rparr>"
  have q1: "queue_ok s1" using assms(1) by (simp add: s1_def queue_ok_def)
  consider (shared) "?owners \<noteq> {}" "?hs = []" "s' = s1"
    | (handed) o1 job hs where "?owners \<noteq> {}" "?hs = (o1, job) # hs" "s' = s1\<lparr>sc_jobs := map (\<lambda>(k, j). (k, if k = key then job else j)) (sc_jobs s1),
          sc_deferred := map (\<lambda>(k, j). (k, if k = key then job else j)) (sc_deferred s1),
          sc_follow_up := (if follows_up key s1 then Some (key, job) else sc_follow_up s1)\<rparr>"
    | (dropped) "?owners = {}" "s' = s1\<lparr>sc_handoffs := (sc_handoffs s)(key := []), sc_key_owners := (sc_key_owners s)(key := {}),
              sc_deferred := filter (\<lambda>kj. fst kj \<noteq> key) (sc_deferred s1), sc_not_before := (sc_not_before s1)(key := None),
              sc_jobs := filter (\<lambda>kj. fst kj \<noteq> key) (sc_jobs s1), sc_queued := sc_queued s1 - {key},
              sc_follow_up := (if follows_up key s1 then None else sc_follow_up s1)\<rparr>"
    unfolding s' retire_key_def Let_def s1_def[symmetric] by (cases "?owners = {}"; cases ?hs) auto
  then have "queue_ok s' \<and> sc_active s' = sc_active s \<and> sc_owned s' = sc_owned s \<and> sc_exclusive s' = sc_exclusive s
    \<and> sc_key_owners s' = (sc_key_owners s)(key := ?owners) \<and> (k \<noteq> key \<or> ?owners \<noteq> {} \<longrightarrow> pending k s' = pending k s)" for k
  proof cases
    case shared
    then show ?thesis using q1 by (simp add: s1_def pending_def follows_up_def)
  next
    case handed
    have jobs: "map fst (sc_jobs s') = map fst (sc_jobs s1)" "map fst (sc_deferred s') = map fst (sc_deferred s1)" by (auto simp: handed(3))
    have keys: "fst ` set (sc_jobs s') = fst ` set (sc_jobs s1)" "fst ` set (sc_deferred s') = fst ` set (sc_deferred s1)"
      using jobs by (metis list.set_map)+
    have lens: "length (sc_jobs s') = length (sc_jobs s1)" "length (sc_deferred s') = length (sc_deferred s1)" by (simp_all add: handed(3))
    have rest: "sc_queued s' = sc_queued s1" "sc_max s' = sc_max s1" "sc_exclusive s' = sc_exclusive s1" "sc_active s' = sc_active s1" by (simp_all add: handed(3))
    have fu: "k \<in> sc_active s1" if "sc_follow_up s' = Some (k, j)" for k j
      using that q1 by (auto simp: handed(3) follows_up_def queue_ok_def split: if_splits)
    have "queue_ok s'" using q1 fu unfolding queue_ok_def map_append jobs keys lens rest by blast
    moreover have "follows_up k s' = follows_up k s1" by (auto simp: handed(3) follows_up_def)
    then have "pending k s' = pending k s" unfolding pending_def keys rest by (simp add: s1_def follows_up_def)
    ultimately show ?thesis by (simp add: handed(3) s1_def)
  next
    case dropped
    have "distinct (map fst (filter (\<lambda>kj. fst kj \<noteq> key) (sc_jobs s1 @ sc_deferred s1)))"
      using q1 unfolding queue_ok_def by (intro distinct_map_filter) blast
    moreover have "length (filter (\<lambda>kj. fst kj \<noteq> key) (sc_jobs s1)) \<le> sc_max s1" "length (filter (\<lambda>kj. fst kj \<noteq> key) (sc_deferred s1)) \<le> sc_max s1"
      using q1 by (auto simp: queue_ok_def intro: order.trans[OF length_filter_le])
    ultimately have "queue_ok s'" using q1 by (auto simp: dropped(2) queue_ok_def)
    moreover have "k \<noteq> key \<longrightarrow> pending k s' = pending k s" by (auto simp: dropped(2) pending_def follows_up_def s1_def image_iff)
    moreover have "sc_active s' = sc_active s" "sc_owned s' = sc_owned s" "sc_exclusive s' = sc_exclusive s" by (simp_all add: dropped(2) s1_def)
    moreover have "sc_key_owners s' = (sc_key_owners s)(key := ?owners)" by (simp only: dropped(1)) (simp add: dropped(2))
    ultimately show ?thesis using dropped(1) by blast
  qed
  then show "queue_ok s'" "sc_active s' = sc_active s" "sc_owned s' = sc_owned s" "sc_exclusive s' = sc_exclusive s"
    "sc_key_owners s' = (sc_key_owners s)(key := ?owners)"
    "k \<noteq> key \<or> ?owners \<noteq> {} \<Longrightarrow> pending k s' = pending k s" by blast+
qed

definition retiring :: "nat \<Rightarrow> job_key list \<Rightarrow> scheduler \<Rightarrow> bool" where
  "retiring owner R s \<longleftrightarrow> queue_ok s \<and> (\<forall>k. sc_key_owners s k \<noteq> {} \<longrightarrow> working k s)
     \<and> (\<forall>o1 k. o1 \<noteq> owner \<longrightarrow> (k \<in> set (sc_owned s o1) \<longleftrightarrow> o1 \<in> sc_key_owners s k))
     \<and> (\<forall>k. owner \<in> sc_key_owners s k \<longrightarrow> k \<in> set R) \<and> sc_owned s owner = []"

lemma retire_key_retiring:
  assumes "retiring owner (key # R) s"
  shows "retiring owner R (retire_key owner s key)"
proof -
  let ?s = "retire_key owner s key"
  have q: "queue_ok s" using assms by (simp add: retiring_def)
  note p = retire_key_props[OF q refl, where owner = owner and key = key]
  have "working k ?s" if "sc_key_owners ?s k \<noteq> {}" for k
  proof -
    have ne: "sc_key_owners s k \<noteq> {}" "k \<noteq> key \<or> sc_key_owners s key - {owner} \<noteq> {}" using that p(5) by (auto split: if_splits)
    then have "working k s" using assms by (auto simp: retiring_def)
    then show ?thesis using p(6)[OF ne(2)] p(2) by (simp add: working_def)
  qed
  moreover have "o1 \<noteq> owner \<longrightarrow> (k \<in> set (sc_owned ?s o1) \<longleftrightarrow> o1 \<in> sc_key_owners ?s k)" for o1 k
    using assms p(3,5) by (auto simp: retiring_def)
  moreover have "owner \<in> sc_key_owners ?s k \<longrightarrow> k \<in> set R" for k using assms p(5) by (auto simp: retiring_def)
  ultimately show ?thesis using p(1,3) assms unfolding retiring_def by simp
qed

lemma retire_fold:
  "retiring owner R s \<Longrightarrow> retiring owner [] (foldl (retire_key owner) s R) \<and> sc_active (foldl (retire_key owner) s R) = sc_active s
     \<and> sc_exclusive (foldl (retire_key owner) s R) = sc_exclusive s
     \<and> (\<forall>k. k \<notin> set R \<or> sc_key_owners s k - {owner} \<noteq> {} \<longrightarrow> pending k (foldl (retire_key owner) s R) = pending k s)"
proof (induction R arbitrary: s)
  case (Cons key R)
  let ?s = "retire_key owner s key"
  have q: "queue_ok s" using Cons.prems by (simp add: retiring_def)
  note p = retire_key_props[OF q refl, where owner = owner and key = key]
  note ih = Cons.IH[OF retire_key_retiring[OF Cons.prems]]
  have own: "sc_key_owners ?s k - {owner} = sc_key_owners s k - {owner}" for k using p(5) by simp
  have "pending k (foldl (retire_key owner) ?s R) = pending k s" if "k \<notin> set (key # R) \<or> sc_key_owners s k - {owner} \<noteq> {}" for k
  proof -
    have "k \<notin> set R \<or> sc_key_owners ?s k - {owner} \<noteq> {}" unfolding own using that by auto
    then have "pending k (foldl (retire_key owner) ?s R) = pending k ?s" using ih by blast
    moreover have "k \<noteq> key \<or> sc_key_owners s key - {owner} \<noteq> {}" using that by auto
    ultimately show ?thesis using p(6) by simp
  qed
  then show ?case using ih p(2,4) by simp
qed simp

lemma retire_ok:
  assumes "sched_ok s" "retire_owner owner no_wait s = (waiting, s')"
  shows "sched_ok s'" "sc_active s' = sc_active s" "sc_exclusive s' = sc_exclusive s" "sc_owned s' owner = []"
    "sc_key_owners s k \<noteq> {owner} \<Longrightarrow> pending k s' = pending k s"
proof -
  let ?s0 = "s\<lparr>sc_owned := (sc_owned s)(owner := [])\<rparr>"
  define s1 where "s1 = foldl (retire_key owner) ?s0 (sc_owned s owner)"
  have "retiring owner (sc_owned s owner) ?s0"
    using assms(1) by (auto simp: retiring_def sched_ok_def owners_ok_def queue_ok_def working_def pending_def follows_up_def)
  note f = retire_fold[OF this, folded s1_def]
  have "\<exists>ret. s' = s1\<lparr>sc_retired := ret\<rparr>" using assms(2) unfolding retire_owner_def Let_def s1_def[symmetric] by blast
  then obtain ret where s': "s' = s1\<lparr>sc_retired := ret\<rparr>" by blast
  have "k \<in> set (sc_owned s1 o1) \<longleftrightarrow> o1 \<in> sc_key_owners s1 k" for o1 k
    using f unfolding retiring_def by (cases "o1 = owner") auto
  then have ok1: "sched_ok s1" using f unfolding retiring_def sched_ok_def owners_ok_def by blast
  have "queue_ok s' = queue_ok s1" "working k s' = working k s1" for k by (simp_all add: s' queue_ok_def working_def pending_def follows_up_def)
  then show "sched_ok s'" using ok1 by (simp add: sched_ok_def owners_ok_def) (simp add: s')
  show "sc_active s' = sc_active s" "sc_exclusive s' = sc_exclusive s" using f by (simp_all add: s')
  show "pending k s' = pending k s" if "sc_key_owners s k \<noteq> {owner}"
  proof -
    have "k \<in> set (sc_owned s owner) \<longleftrightarrow> owner \<in> sc_key_owners s k" using assms(1) by (simp add: sched_ok_def owners_ok_def)
    then have "k \<notin> set (sc_owned s owner) \<or> sc_key_owners ?s0 k - {owner} \<noteq> {}" using that by auto
    then have "pending k s1 = pending k ?s0" using f by blast
    then show ?thesis by (simp add: s' pending_def follows_up_def)
  qed
  show "sc_owned s' owner = []" using f by (simp add: s' retiring_def)
qed

end
