(* ===== verification/Maintenance_Steps.thy ===== *)
theory Maintenance_Steps
  imports Maintenance_Scheduler
begin

text \<open>
  The steps of the maintenance scheduler and what they keep: shutdown, the worker taking and finishing jobs, the
  step relation over all critical sections, and the properties of its reachable states.
\<close>

lemma pending_not_exclusive:
  assumes "queue_ok s" "pending k s"
  shows "k \<notin> sc_exclusive s"
proof -
  have q: "sc_queued s = fst ` set (sc_jobs s)" "sc_exclusive s \<inter> fst ` set (sc_jobs s) = {}" "sc_exclusive s \<inter> fst ` set (sc_deferred s) = {}"
    "sc_exclusive s \<inter> sc_active s = {}" using assms(1) by (simp_all add: queue_ok_def)
  have "k \<in> sc_active s" if "follows_up k s" using that assms(1) by (auto simp: queue_ok_def follows_up_def)
  then have "k \<in> fst ` set (sc_jobs s) \<union> fst ` set (sc_deferred s) \<union> sc_active s" using assms(2) q(1) by (auto simp: pending_def)
  then show ?thesis using q(2-4) by blast
qed

lemma pending_keys:
  assumes "queue_ok s"
  shows "set (remdups (map fst (sc_jobs s) @ map fst (sc_deferred s) @ (case sc_follow_up s of None \<Rightarrow> [] | Some (k, _) \<Rightarrow> [k]))) = {k. pending k s}"
proof -
  have "k \<in> set (case sc_follow_up s of None \<Rightarrow> [] | Some (k, _) \<Rightarrow> [k]) \<longleftrightarrow> follows_up k s" for k
    by (simp add: follows_up_def eq_commute split: option.split prod.split)
  moreover have "sc_queued s = fst ` set (sc_jobs s)" using assms by (simp add: queue_ok_def)
  ultimately show ?thesis unfolding pending_def set_remdups set_append set_map by blast
qed

lemma quiesce_ok:
  assumes "sched_ok s"
  shows "sched_ok (quiesce s)" "sc_closed (quiesce s)" "\<not> pending k (quiesce s)" "sc_active (quiesce s) = sc_active s"
proof -
  define ks where "ks = remdups (map fst (sc_jobs s) @ map fst (sc_deferred s) @ (case sc_follow_up s of None \<Rightarrow> [] | Some (k, _) \<Rightarrow> [k]))"
  define s1 where "s1 = s\<lparr>sc_stop := sc_embedding s \<or> sc_stop s, sc_closed := True, sc_deferred := [], sc_not_before := (\<lambda>_. None), sc_jobs := [],
    sc_queued := {}, sc_follow_up := None\<rparr>"
  have q: "quiesce s = foldl (\<lambda>st key. release_if_idle key st) s1 ks" by (simp add: quiesce_def Let_def s1_def ks_def)
  have qs: "queue_ok s" and os: "owners_ok s" using assms by (simp_all add: sched_ok_def)
  have ks: "set ks = {k. pending k s}" unfolding ks_def by (rule pending_keys[OF qs])
  have q1: "queue_ok s1" using qs by (simp add: queue_ok_def s1_def)
  have "owners_ok_except (set ks) s1" unfolding owners_ok_except_def
  proof (intro conjI allI impI)
    fix k assume "sc_key_owners s1 k \<noteq> {}"
    then have "working k s" using os by (simp add: s1_def owners_ok_def)
    then show "working k s1 \<or> k \<in> set ks" unfolding ks working_def by (auto simp: s1_def)
  next
    fix o1 k show "(k \<in> set (sc_owned s1 o1)) = (o1 \<in> sc_key_owners s1 k)" using os by (simp add: s1_def owners_ok_def)
  qed
  moreover have "set ks \<inter> sc_exclusive s1 = {}" unfolding ks using pending_not_exclusive[OF qs] by (auto simp: s1_def)
  ultimately have "owners_ok (quiesce s)" "queue_ok (quiesce s)"
    using release_all_owners[of "set ks" s1 ks] q1 unfolding q by (simp_all add: release_all_fields)
  then show "sched_ok (quiesce s)" by (simp add: sched_ok_def)
  show "sc_closed (quiesce s)" "sc_active (quiesce s) = sc_active s" unfolding q by (simp_all add: release_all_fields s1_def)
  show "\<not> pending k (quiesce s)" unfolding q by (simp add: release_all_fields s1_def pending_def follows_up_def)
qed

lemma admit_deferred_fields:
  "sc_jobs (admit_deferred s) = sc_jobs s @ take 1 (sc_deferred s)" "sc_deferred (admit_deferred s) = drop 1 (sc_deferred s)"
  "sc_queued (admit_deferred s) = sc_queued s \<union> fst ` set (take 1 (sc_deferred s))" "sc_active (admit_deferred s) = sc_active s"
  "sc_follow_up (admit_deferred s) = sc_follow_up s" "sc_exclusive (admit_deferred s) = sc_exclusive s" "sc_max (admit_deferred s) = sc_max s"
  "sc_key_owners (admit_deferred s) = sc_key_owners s" "sc_owned (admit_deferred s) = sc_owned s"
  by (simp_all add: admit_deferred_def split: list.split prod.split)

lemma take_drop_keys: "set (take 1 xs) \<union> set (drop 1 xs) = set xs"
  by (metis append_take_drop_id set_append)

lemma admit_deferred_pending: "pending k (admit_deferred s) = pending k s"
proof -
  have "fst ` set (take 1 (sc_deferred s)) \<union> fst ` set (drop 1 (sc_deferred s)) = fst ` set (sc_deferred s)"
    by (metis image_Un take_drop_keys)
  then show ?thesis unfolding pending_def follows_up_def admit_deferred_fields by blast
qed

lemma admit_deferred_ok:
  assumes "sched_ok s" "sc_jobs s = []"
  shows "sched_ok (admit_deferred s)"
proof -
  have q: "queue_ok s" and o: "owners_ok s" using assms(1) by (simp_all add: sched_ok_def)
  have "sc_queued s = {}" using q assms(2) by (simp add: queue_ok_def)
  moreover have "distinct (map fst (take 1 (sc_deferred s) @ drop 1 (sc_deferred s)))" using q assms(2) by (simp add: queue_ok_def)
  moreover have "length (take 1 (sc_deferred s)) \<le> sc_max s" "length (drop 1 (sc_deferred s)) \<le> sc_max s"
    using q by (auto simp: queue_ok_def)
  moreover have "sc_exclusive s \<inter> fst ` set (take 1 (sc_deferred s)) = {}" "sc_exclusive s \<inter> fst ` set (drop 1 (sc_deferred s)) = {}"
    using q take_drop_keys[of "sc_deferred s"] unfolding queue_ok_def by blast+
  ultimately have "queue_ok (admit_deferred s)"
    using q assms(2) unfolding queue_ok_def admit_deferred_fields by simp
  moreover have "owners_ok (admit_deferred s)"
    by (rule owners_mono[OF o admit_deferred_fields(8,9)]) (simp add: working_def admit_deferred_pending admit_deferred_fields(4))
  ultimately show ?thesis by (simp add: sched_ok_def)
qed

definition start_job :: "job_key \<Rightarrow> (job_key \<times> nat) list \<Rightarrow> scheduler \<Rightarrow> scheduler" where
  "start_job key rest s = (let s3 = admit_deferred (s\<lparr>sc_jobs := rest, sc_not_before := (sc_not_before s)(key := None)\<rparr>)
     in s3\<lparr>sc_queued := sc_queued s3 - {key}, sc_active := insert key (sc_active s3), sc_running_follow_up := False\<rparr>)"

lemma start_job_fields:
  "sc_jobs (start_job key rest s) = rest @ take 1 (sc_deferred s)" "sc_deferred (start_job key rest s) = drop 1 (sc_deferred s)"
  "sc_queued (start_job key rest s) = sc_queued s \<union> fst ` set (take 1 (sc_deferred s)) - {key}"
  "sc_active (start_job key rest s) = insert key (sc_active s)" "sc_follow_up (start_job key rest s) = sc_follow_up s"
  "sc_exclusive (start_job key rest s) = sc_exclusive s" "sc_max (start_job key rest s) = sc_max s"
  "sc_key_owners (start_job key rest s) = sc_key_owners s" "sc_owned (start_job key rest s) = sc_owned s"
  by (simp_all add: start_job_def Let_def admit_deferred_fields)

lemma start_job_ok:
  assumes ok: "sched_ok s" and idle: "sc_active s = {}" and jobs: "sc_jobs s = pre @ (key, job) # post"
  defines "s' \<equiv> start_job key (post @ pre) s"
  shows "sched_ok s'" "pending k s \<Longrightarrow> pending k s' \<or> k = key" "sc_active s' = {key}" "pending key s"
proof -
  let ?in = "take 1 (sc_deferred s)" and ?out = "drop 1 (sc_deferred s)"
  note f = start_job_fields[of key "post @ pre" s, folded s'_def]
  have q: "queue_ok s" and o: "owners_ok s" using ok by (simp_all add: sched_ok_def)
  have d: "distinct (map fst (pre @ (key, job) # post @ sc_deferred s))" "sc_queued s = fst ` set (pre @ (key, job) # post)"
    using q by (simp_all add: queue_ok_def jobs)
  have bank: "fst ` set ?in \<union> fst ` set ?out = fst ` set (sc_deferred s)" by (metis image_Un take_drop_keys)
  have key: "key \<notin> fst ` set (post @ pre)" "key \<notin> fst ` set (sc_deferred s)" using d(1) by auto
  have queued: "sc_queued s' = fst ` set (post @ pre @ ?in)"
  proof -
    have "fst ` set (pre @ (key, job) # post) = insert key (fst ` set (post @ pre))" by (simp add: image_Un Un_commute)
    then have "sc_queued s' = insert key (fst ` set (post @ pre)) \<union> fst ` set ?in - {key}" unfolding f(3) d(2) by (rule arg_cong)
    also have "\<dots> = fst ` set (post @ pre) \<union> fst ` set ?in" using key bank by blast
    finally show ?thesis by (simp add: image_Un Un_assoc)
  qed
  have nofu: "sc_follow_up s = None" using q idle by (auto simp: queue_ok_def)
  show act: "sc_active s' = {key}" using f(4) idle by simp
  show "pending key s" using d(2) by (simp add: pending_def)
  have p: "pending k s' \<or> k = key" if "pending k s" for k
  proof -
    have "k \<in> insert key (fst ` set (post @ pre)) \<or> k \<in> fst ` set ?in \<union> fst ` set ?out"
      using that nofu unfolding pending_def bank d(2) by (auto simp: follows_up_def)
    then show ?thesis unfolding pending_def queued f(2) by auto
  qed
  then show "pending k s \<Longrightarrow> pending k s' \<or> k = key" .
  have "distinct (map fst ((post @ pre @ ?in) @ ?out))"
  proof -
    have "distinct (map fst ((post @ pre) @ sc_deferred s))" using d(1) by auto
    then show ?thesis by (metis append.assoc append_take_drop_id)
  qed
  moreover have "length (post @ pre @ ?in) \<le> sc_max s"
    "length ?out \<le> sc_max s" using q by (auto simp: queue_ok_def jobs)
  moreover have "sc_exclusive s \<inter> fst ` set (post @ pre @ ?in) = {}" "sc_exclusive s \<inter> fst ` set ?out = {}" "key \<notin> sc_exclusive s"
  proof -
    have e: "sc_exclusive s \<inter> fst ` set (pre @ (key, job) # post) = {}" "sc_exclusive s \<inter> fst ` set (sc_deferred s) = {}"
      using q unfolding queue_ok_def jobs by blast+
    show "key \<notin> sc_exclusive s" using e(1) by auto
    show "sc_exclusive s \<inter> fst ` set ?out = {}" using e(2) bank by blast
    have "fst ` set (post @ pre @ ?in) \<subseteq> fst ` set (pre @ (key, job) # post) \<union> fst ` set (sc_deferred s)" using bank by auto
    then show "sc_exclusive s \<inter> fst ` set (post @ pre @ ?in) = {}" using e by blast
  qed
  ultimately have "queue_ok s'" using q queued unfolding queue_ok_def f(1,2,5-7) act nofu by simp
  moreover have "owners_ok s'"
    by (rule owners_mono[OF o f(8,9)]) (use p idle act in \<open>auto simp: working_def\<close>)
  ultimately show "sched_ok s'" by (simp add: sched_ok_def)
qed

lemma worker_take_eq:
  "worker_take now s =
     (if sc_jobs s = [] \<and> sc_deferred s = [] then (if sc_closed s then Exit (s\<lparr>sc_worker := False\<rparr>) else Wait s)
      else (let s1 = (if sc_jobs s = [] then admit_deferred s else s) in
        case dropWhile (\<lambda>kj. \<not> due now s1 kj) (sc_jobs s1) of
          [] \<Rightarrow> if sc_embedding s1 \<and> sc_stop s1 then Exit ((quiesce s1)\<lparr>sc_worker := False\<rparr>) else Wait s1
        | (key, job) # post \<Rightarrow> Start key job (start_job key (post @ takeWhile (\<lambda>kj. \<not> due now s1 kj) (sc_jobs s1)) s1)))"
  unfolding worker_take_def start_job_def Let_def by (rule refl)

lemma worker_field [simp]: "sched_ok (s\<lparr>sc_worker := b\<rparr>) = sched_ok s" "pending k (s\<lparr>sc_worker := b\<rparr>) = pending k s"
  by (simp_all add: sched_ok_def queue_ok_def owners_ok_def working_def pending_def follows_up_def)

lemma worker_take_cases:
  assumes "sched_ok s"
  obtains (idle) "sc_jobs s = []" "sc_deferred s = []" "worker_take now s = (if sc_closed s then Exit (s\<lparr>sc_worker := False\<rparr>) else Wait s)"
  | (later) s1 where "sched_ok s1" "\<And>k. pending k s1 = pending k s" "sc_active s1 = sc_active s" "\<forall>kj \<in> set (sc_jobs s1). \<not> due now s1 kj"
      "worker_take now s = (if sc_embedding s1 \<and> sc_stop s1 then Exit ((quiesce s1)\<lparr>sc_worker := False\<rparr>) else Wait s1)"
  | (start) s1 key job pre post where "sched_ok s1" "\<And>k. pending k s1 = pending k s" "sc_active s1 = sc_active s"
      "sc_jobs s1 = pre @ (key, job) # post" "due now s1 (key, job)" "worker_take now s = Start key job (start_job key (post @ pre) s1)"
proof (cases "sc_jobs s = [] \<and> sc_deferred s = []")
  case True
  then show thesis using idle by (simp add: worker_take_eq)
next
  case False
  define s1 where "s1 = (if sc_jobs s = [] then admit_deferred s else s)"
  have s1: "sched_ok s1" "\<And>k. pending k s1 = pending k s" "sc_active s1 = sc_active s"
    using assms admit_deferred_ok[OF assms] admit_deferred_pending[of _ s] admit_deferred_fields(4)[of s] by (simp_all add: s1_def)
  let ?w = "\<lambda>kj. \<not> due now s1 kj"
  have w: "worker_take now s = (case dropWhile ?w (sc_jobs s1) of
          [] \<Rightarrow> if sc_embedding s1 \<and> sc_stop s1 then Exit ((quiesce s1)\<lparr>sc_worker := False\<rparr>) else Wait s1
        | (key, job) # post \<Rightarrow> Start key job (start_job key (post @ takeWhile ?w (sc_jobs s1)) s1))"
    using False by (simp only: worker_take_eq s1_def[symmetric] Let_def if_False)
  show thesis
  proof (cases "dropWhile ?w (sc_jobs s1)")
    case Nil
    then have "\<forall>kj \<in> set (sc_jobs s1). \<not> due now s1 kj" by (simp add: dropWhile_eq_Nil_conv)
    then show thesis by (rule later[OF s1]) (simp add: w Nil)
  next
    case (Cons kj post)
    obtain key job where kj: "kj = (key, job)" by (cases kj)
    have "due now s1 (key, job)" using hd_dropWhile[of ?w "sc_jobs s1"] Cons kj by simp
    moreover have "sc_jobs s1 = takeWhile ?w (sc_jobs s1) @ (key, job) # post" using takeWhile_dropWhile_id[of ?w "sc_jobs s1"] Cons kj by simp
    ultimately show thesis using start[OF s1, of _ key job post] w Cons kj by simp
  qed
qed

lemma worker_finish_ok:
  assumes "sched_ok s" "key \<in> sc_active s" "worker_finish key s = (again, s')"
  shows "sched_ok s'" "again \<noteq> None \<longleftrightarrow> follows_up key s" "sc_active s' = (if again = None then {} else sc_active s)"
    "pending k s \<Longrightarrow> pending k s' \<or> k = key \<and> again \<noteq> None"
proof -
  have q: "queue_ok s" and o: "owners_ok s" using assms(1) by (simp_all add: sched_ok_def)
  have one: "sc_active s = {key}" using q assms(2) by (auto simp: queue_ok_def dest: at_most_oneD)
  have fu: "k = key" if "sc_follow_up s = Some (k, j)" for k j using q that one by (auto simp: queue_ok_def)
  let ?free = "s\<lparr>sc_active := sc_active s - {key}, sc_retired := (\<lambda>o1. sc_retired s o1 - {key}), sc_running_follow_up := False\<rparr>"
  consider (rerun) job where "sc_follow_up s = Some (key, job)" "again = Some job" "s' = s\<lparr>sc_follow_up := None, sc_running_follow_up := True\<rparr>"
    | (free) "sc_follow_up s = None" "again = None" "s' = release_if_idle key ?free"
  proof (cases "sc_follow_up s")
    case None
    then show thesis using assms(3) free by (simp add: worker_finish_def)
  next
    case (Some kj)
    then obtain j where "sc_follow_up s = Some (key, j)" using fu by (cases kj) auto
    then show thesis using assms(3) rerun by (simp add: worker_finish_def)
  qed
  then have "sched_ok s' \<and> (again \<noteq> None \<longleftrightarrow> follows_up key s) \<and> sc_active s' = (if again = None then {} else sc_active s)
    \<and> (pending k s \<longrightarrow> pending k s' \<or> k = key \<and> again \<noteq> None)" for k
  proof cases
    case rerun
    have p: "pending k s \<Longrightarrow> pending k s' \<or> k = key" for k using rerun by (auto simp: pending_def follows_up_def)
    have "queue_ok s'" using q by (simp add: rerun queue_ok_def)
    moreover have "owners_ok s'" by (rule owners_mono[OF o]) (use p one in \<open>auto simp: rerun working_def\<close>)
    ultimately show ?thesis using p[of k] rerun by (simp add: sched_ok_def follows_up_def)
  next
    case free
    have p: "pending k s' = pending k s" for k by (simp add: free pending_def follows_up_def)
    have w: "working k s \<longleftrightarrow> working k ?free \<or> k = key" for k by (auto simp: working_def pending_def follows_up_def one)
    have "owners_ok_except {key} ?free" unfolding owners_ok_except_def
    proof (intro conjI allI impI)
      fix k assume "sc_key_owners ?free k \<noteq> {}"
      then have "working k s" using o by (simp add: owners_ok_def)
      then show "working k ?free \<or> k \<in> {key}" unfolding w by simp
    next
      fix o1 k show "(k \<in> set (sc_owned ?free o1)) = (o1 \<in> sc_key_owners ?free k)" using o by (simp add: owners_ok_def)
    qed
    moreover have "key \<notin> sc_exclusive ?free" using q assms(2) by (auto simp: queue_ok_def)
    ultimately have "owners_ok s'" using release_if_idle_owners[of "{key}" ?free key] free by simp
    moreover have "queue_ok s'" using q free(1) by (simp add: free(3) one) (simp add: queue_ok_def)
    ultimately show ?thesis using p[of k] free one by (simp add: sched_ok_def follows_up_def)
  qed
  then show "sched_ok s'" "again \<noteq> None \<longleftrightarrow> follows_up key s" "sc_active s' = (if again = None then {} else sc_active s)"
    "pending k s \<Longrightarrow> pending k s' \<or> k = key \<and> again \<noteq> None" by blast+
qed

section \<open>The step relation\<close>

text \<open>
  One event per critical section.  \<open>Scheduled\<close> is a \<open>schedule\<close> or \<open>handoff\<close> call with its answer; \<open>Took\<close> the
  worker starting a job, \<open>Finished\<close> it returning from one; \<open>Waited\<close> and \<open>Exited\<close> the worker finding nothing to
  start.
\<close>

datatype sched_event =
    Scheduled job_key rat bool | Reserved job_key bool | Released job_key | Retired nat | Quiesced
  | Took job_key | Waited | Exited | Finished job_key

inductive sched_step :: "scheduler \<Rightarrow> sched_event \<Rightarrow> scheduler \<Rightarrow> bool" where
  do_schedule: "schedule key job owner delay keep now s = (accepted, s') \<Longrightarrow> sched_step s (Scheduled key delay accepted) s'"
| do_handoff: "handoff key retired delay now s = (accepted, s') \<Longrightarrow> sched_step s (Scheduled key delay accepted) s'"
| do_acquire: "try_acquire_exclusive key s = (got, s') \<Longrightarrow> sched_step s (Reserved key got) s'"
| do_release: "sched_step s (Released key) (release_exclusive key s)"
| do_retire: "retire_owner owner no_wait s = (active, s') \<Longrightarrow> sched_step s (Retired owner) s'"
| do_quiesce: "sched_step s Quiesced (quiesce s)"
| do_take: "sc_worker s \<Longrightarrow> sc_active s = {} \<Longrightarrow> worker_take now s = Start key job s' \<Longrightarrow> sched_step s (Took key) s'"
| do_wait: "sc_worker s \<Longrightarrow> sc_active s = {} \<Longrightarrow> worker_take now s = Wait s' \<Longrightarrow> sched_step s Waited s'"
| do_exit: "sc_worker s \<Longrightarrow> sc_active s = {} \<Longrightarrow> worker_take now s = Exit s' \<Longrightarrow> sched_step s Exited s'"
| do_finish: "key \<in> sc_active s \<Longrightarrow> worker_finish key s = (again, s') \<Longrightarrow> sched_step s (Finished key) s'"

inductive sched_reachable :: "scheduler \<Rightarrow> bool" where
  initial: "sched_reachable (new_scheduler embedding max_pending_jobs)"
| stepped: "sched_reachable s \<Longrightarrow> sched_step s ev s' \<Longrightarrow> sched_reachable s'"

lemma handoff_schedule:
  assumes "handoff key retired delay now s = (accepted, s')"
  obtains "s' = s" "\<not> accepted" | o1 job where "schedule key job (Some o1) delay True now s = (accepted, s')"
proof (cases "List.find (\<lambda>(o1, j). o1 \<noteq> retired) (sc_handoffs s key)")
  case None
  then show thesis using that(1) assms by (simp add: handoff_def)
next
  case (Some oj)
  then show thesis using that(2)[of "snd oj" "fst oj"] assms by (simp add: handoff_def split_beta)
qed

lemma new_scheduler_ok: "sched_ok (new_scheduler embedding m)"
  by (simp add: sched_ok_def queue_ok_def owners_ok_def new_scheduler_def)

text \<open>What may become of a pending key in a step: nothing else removes it from the queues.\<close>

definition settles :: "job_key \<Rightarrow> scheduler \<Rightarrow> sched_event \<Rightarrow> scheduler \<Rightarrow> bool" where
  "settles k s ev s' = (case ev of
     Scheduled key delay accepted \<Rightarrow> key = k \<and> follows_up k s \<and> delay > 0 \<and> \<not> accepted
   | Retired owner \<Rightarrow> sc_key_owners s k = {owner}
   | Took key \<Rightarrow> key = k \<and> sc_active s' = {k}
   | Finished key \<Rightarrow> key = k \<and> sc_active s' = {k}
   | Quiesced \<Rightarrow> sc_closed s' | Exited \<Rightarrow> sc_closed s'
   | _ \<Rightarrow> False)"

lemma take_step:
  assumes "sched_ok s" "sc_active s = {}"
  shows "worker_take now s = Start key job s' \<Longrightarrow> sched_ok s' \<and> sc_active s' = {key} \<and> pending key s \<and> (\<forall>k. pending k s \<longrightarrow> pending k s' \<or> k = key)"
    and "worker_take now s = Wait s' \<Longrightarrow> sched_ok s' \<and> sc_active s' = {} \<and> (\<forall>k. pending k s' = pending k s)"
    and "worker_take now s = Exit s' \<Longrightarrow> sched_ok s' \<and> sc_active s' = {} \<and> sc_closed s' \<and> (\<forall>k. \<not> pending k s')"
proof -
  have nofu: "\<not> follows_up k s" for k using assms by (auto simp: sched_ok_def queue_ok_def follows_up_def)
  have q: "sc_queued s = fst ` set (sc_jobs s)" using assms(1) by (simp add: sched_ok_def queue_ok_def)
  show "sched_ok s' \<and> sc_active s' = {key} \<and> pending key s \<and> (\<forall>k. pending k s \<longrightarrow> pending k s' \<or> k = key)" if t: "worker_take now s = Start key job s'"
  proof (rule worker_take_cases[OF assms(1), of now])
    fix s1 key1 job1 pre post assume a: "sched_ok s1" "\<And>k. pending k s1 = pending k s" "sc_active s1 = sc_active s"
      "sc_jobs s1 = pre @ (key1, job1) # post" "worker_take now s = Start key1 job1 (start_job key1 (post @ pre) s1)"
    then have e: "key1 = key" "s' = start_job key (post @ pre) s1" using t by simp_all
    have idle: "sc_active s1 = {}" using a(3) assms(2) by simp
    show ?thesis using start_job_ok[OF a(1) idle a(4)] a(2) unfolding e by blast
  qed (use t in \<open>auto split: if_splits\<close>)
  show "sched_ok s' \<and> sc_active s' = {} \<and> (\<forall>k. pending k s' = pending k s)" if t: "worker_take now s = Wait s'"
    by (rule worker_take_cases[OF assms(1), of now]) (use t assms in \<open>auto split: if_splits\<close>)
  show "sched_ok s' \<and> sc_active s' = {} \<and> sc_closed s' \<and> (\<forall>k. \<not> pending k s')" if t: "worker_take now s = Exit s'"
  proof (rule worker_take_cases[OF assms(1), of now])
    assume "sc_jobs s = []" "sc_deferred s = []" "worker_take now s = (if sc_closed s then Exit (s\<lparr>sc_worker := False\<rparr>) else Wait s)"
    moreover have "\<not> pending k s" for k using nofu[of k] q calculation(1,2) by (simp add: pending_def)
    ultimately show ?thesis using t assms by (auto split: if_splits)
  next
    fix s1 assume a: "sched_ok s1" "sc_active s1 = sc_active s"
      "worker_take now s = (if sc_embedding s1 \<and> sc_stop s1 then Exit ((quiesce s1)\<lparr>sc_worker := False\<rparr>) else Wait s1)"
    then have "s' = (quiesce s1)\<lparr>sc_worker := False\<rparr>" using t by (simp split: if_splits)
    then show ?thesis using quiesce_ok[OF a(1)] a(2) assms(2) by simp
  qed (use t in simp)
qed

lemma step_ok:
  assumes "sched_ok s" "sched_step s ev s'"
  shows "sched_ok s'" "pending k s \<Longrightarrow> pending k s' \<or> settles k s ev s'"
proof -
  have "sched_ok s' \<and> (\<forall>k. pending k s \<longrightarrow> pending k s' \<or> settles k s ev s')" using assms(2)
  proof cases
    case (do_schedule key job owner delay keep now accepted)
    then show ?thesis using schedule_ok[OF assms(1) do_schedule(2)] by (auto simp: settles_def)
  next
    case (do_handoff key retired delay now accepted)
    show ?thesis using do_handoff(2)
    proof (cases rule: handoff_schedule)
      case 1
      then show ?thesis using assms(1) by simp
    next
      case (2 o1 job)
      then show ?thesis using schedule_ok[OF assms(1) 2] do_handoff(1) by (auto simp: settles_def)
    qed
  next
    case (do_acquire key got)
    then show ?thesis using acquire_ok[OF assms(1) do_acquire(2)] by auto
  next
    case (do_release key)
    then show ?thesis using release_ok[OF assms(1)] by simp
  next
    case (do_retire owner no_wait active)
    then show ?thesis using retire_ok[OF assms(1) do_retire(2)] by (simp add: settles_def) blast
  next
    case do_quiesce
    then show ?thesis using quiesce_ok[OF assms(1)] by (simp add: settles_def)
  next
    case (do_take now key job)
    then show ?thesis using take_step(1)[OF assms(1) do_take(3,4)] by (simp add: settles_def) blast
  next
    case (do_wait now)
    then show ?thesis using take_step(2)[OF assms(1) do_wait(3,4)] by simp
  next
    case (do_exit now)
    then show ?thesis using take_step(3)[OF assms(1) do_exit(3,4)] by (simp add: settles_def)
  next
    case (do_finish key again)
    note w = worker_finish_ok[OF assms(1) do_finish(2,3)]
    have "sc_active s = {key}" using assms(1) do_finish(2) by (auto simp: sched_ok_def queue_ok_def dest: at_most_oneD)
    then show ?thesis using w do_finish(1) by (auto simp: settles_def split: if_splits)
  qed
  then show "sched_ok s'" "pending k s \<Longrightarrow> pending k s' \<or> settles k s ev s'" by blast+
qed

lemma reachable_ok: "sched_reachable s \<Longrightarrow> sched_ok s"
  by (induction rule: sched_reachable.induct) (auto simp: new_scheduler_ok intro: step_ok)

lemma idle_no_follow_up:
  assumes "sched_ok s" "sc_active s = {}"
  shows "sc_follow_up s = None"
proof (cases "sc_follow_up s")
  case (Some kj)
  then show ?thesis using assms by (cases kj) (simp add: sched_ok_def queue_ok_def)
qed simp

section \<open>Draining\<close>

text \<open>One turn of the worker's loop: take a job, run it, and run its follow-up once if one was requested.\<close>

definition worker_pass :: "rat \<Rightarrow> scheduler \<Rightarrow> scheduler" where
  "worker_pass now s = (case worker_take now s of Wait s1 \<Rightarrow> s1 | Exit s1 \<Rightarrow> s1
     | Start key job s1 \<Rightarrow> (case worker_finish key s1 of (None, s2) \<Rightarrow> s2 | (Some _, s2) \<Rightarrow> snd (worker_finish key s2)))"

definition all_due :: "rat \<Rightarrow> scheduler \<Rightarrow> bool" where
  "all_due now s \<longleftrightarrow> (\<forall>kj. due now s kj)"

lemma release_not_before [simp]: "sc_not_before (release_if_idle k s) = sc_not_before s"
  by (simp add: release_if_idle_def)

lemma start_not_before: "sc_not_before (start_job key rest s) = (sc_not_before s)(key := None)"
  by (simp add: start_job_def Let_def admit_deferred_def split: list.split prod.split)

lemma admit_not_before [simp]: "sc_not_before (admit_deferred s) = sc_not_before s"
  by (simp add: admit_deferred_def split: list.split prod.split)

lemma worker_pass_start:
  assumes ok: "sched_ok s" and idle: "sc_active s = {}" and due: "all_due now s" and now: "0 \<le> now"
    and work: "sc_jobs s \<noteq> [] \<or> sc_deferred s \<noteq> []"
  defines "s' \<equiv> worker_pass now s"
  shows "sched_ok s'" "sc_active s' = {}" "all_due now s'"
    "length (sc_jobs s') + length (sc_deferred s') = length (sc_jobs s) + length (sc_deferred s) - 1"
proof -
  define s1 where "s1 = (if sc_jobs s = [] then admit_deferred s else s)"
  have s1: "sched_ok s1" "sc_active s1 = {}" "sc_not_before s1 = sc_not_before s" "sc_jobs s1 \<noteq> []"
    "length (sc_jobs s1) + length (sc_deferred s1) = length (sc_jobs s) + length (sc_deferred s)"
    using ok idle work admit_deferred_ok[OF ok] by (auto simp: s1_def admit_deferred_fields neq_Nil_conv)
  obtain kj post where jobs: "sc_jobs s1 = kj # post" using s1(4) by (cases "sc_jobs s1") auto
  obtain key job where kj: "kj = (key, job)" by (cases kj)
  have "due now s1 kj" using due s1(3) by (simp add: all_due_def due_def)
  then have take: "worker_take now s = Start key job (start_job key post s1)"
    using work jobs kj by (simp add: worker_take_eq Let_def s1_def[symmetric])
  define s2 where "s2 = start_job key post s1"
  have s2: "sched_ok s2" "sc_active s2 = {key}" "sc_follow_up s2 = sc_follow_up s1"
    using start_job_ok(1,3)[OF s1(1,2), of "[]" key job post] jobs kj by (simp_all add: s2_def start_job_fields)
  have nofu: "sc_follow_up s2 = None" using idle_no_follow_up[OF s1(1,2)] s2(3) by simp
  obtain again s3 where fin: "worker_finish key s2 = (again, s3)" by fastforce
  have again: "again = None" using fin nofu by (simp add: worker_finish_def)
  have s': "s' = s3" using take fin again by (simp add: s'_def worker_pass_def s2_def)
  show "sched_ok s'" "sc_active s' = {}" using worker_finish_ok(1,3)[OF s2(1) _ fin] s2(2) again by (simp_all add: s')
  have f3: "sc_jobs s3 = sc_jobs s2" "sc_deferred s3 = sc_deferred s2" "sc_not_before s3 = sc_not_before s2"
    using fin nofu by (auto simp: worker_finish_def)
  show "all_due now s'" using due now s1(3) by (auto simp: s' all_due_def due_def f3 s2_def start_not_before)
  show "length (sc_jobs s') + length (sc_deferred s') = length (sc_jobs s) + length (sc_deferred s) - 1"
    using s1(5) by (auto simp: s' f3 s2_def start_job_fields jobs)
qed

lemma worker_drains:
  "sched_ok s \<Longrightarrow> sc_active s = {} \<Longrightarrow> all_due now s \<Longrightarrow> 0 \<le> now \<Longrightarrow> n = length (sc_jobs s) + length (sc_deferred s) \<Longrightarrow>
     sched_ok ((worker_pass now ^^ n) s) \<and> sc_active ((worker_pass now ^^ n) s) = {} \<and>
     sc_jobs ((worker_pass now ^^ n) s) = [] \<and> sc_deferred ((worker_pass now ^^ n) s) = []"
proof (induction n arbitrary: s)
  case (Suc n)
  then have "sc_jobs s \<noteq> [] \<or> sc_deferred s \<noteq> []" by auto
  note w = worker_pass_start[OF Suc.prems(1-4) this]
  have "n = length (sc_jobs (worker_pass now s)) + length (sc_deferred (worker_pass now s))" using w(4) Suc.prems(5) by simp
  then show ?case using Suc.IH[OF w(1-3) Suc.prems(4)] by (simp add: funpow_swap1)
qed simp

section \<open>Properties\<close>

text \<open>
  C13: Whatever requests, reservations, retirements, shutdowns and worker turns happened, in whatever order: both
  queues and the reservations stay within the capacity, no key is queued twice, at most one key is being worked
  on, a reserved key is neither queued nor worked on, a follow-up is held for the active key only, and an owner is
  recorded only for keys that are queued or being worked on, so that draining an owner cannot wait for an idle key.
\<close>

theorem scheduler_invariant:
  assumes "sched_reachable s"
  shows "length (sc_jobs s) \<le> sc_max s \<and> length (sc_deferred s) \<le> sc_max s \<and> card (sc_exclusive s) \<le> sc_max s
    \<and> sc_queued s = fst ` set (sc_jobs s) \<and> distinct (map fst (sc_jobs s @ sc_deferred s))
    \<and> at_most_one (sc_active s) \<and> (\<forall>k. pending k s \<or> k \<in> sc_active s \<longrightarrow> k \<notin> sc_exclusive s)
    \<and> (\<forall>k. follows_up k s \<longrightarrow> k \<in> sc_active s)
    \<and> (\<forall>o1 k. k \<in> set (sc_owned s o1) \<longrightarrow> pending k s \<or> k \<in> sc_active s)"
proof -
  have ok: "queue_ok s" "owners_ok s" using reachable_ok[OF assms] by (simp_all add: sched_ok_def)
  have "k \<notin> sc_exclusive s" if "pending k s \<or> k \<in> sc_active s" for k
    using that pending_not_exclusive[OF ok(1), of k] ok(1) by (auto simp: queue_ok_def)
  moreover have "k \<in> sc_active s" if "follows_up k s" for k using that ok(1) by (auto simp: queue_ok_def follows_up_def)
  moreover have "pending k s \<or> k \<in> sc_active s" if "k \<in> set (sc_owned s o1)" for o1 k
  proof -
    have "o1 \<in> sc_key_owners s k" using that ok(2) by (simp add: owners_ok_def)
    then show ?thesis using ok(2) by (auto simp: owners_ok_def working_def)
  qed
  moreover have "length (sc_jobs s) \<le> sc_max s" "length (sc_deferred s) \<le> sc_max s" "card (sc_exclusive s) \<le> sc_max s"
    "sc_queued s = fst ` set (sc_jobs s)" "distinct (map fst (sc_jobs s @ sc_deferred s))" "at_most_one (sc_active s)"
    using ok(1) unfolding queue_ok_def by linarith+
  ultimately show ?thesis by (intro conjI allI impI) assumption+
qed

text \<open>
  C12: A request the scheduler holds, ready, deferred or as a follow-up, leaves the queues only when the worker starts it
  (or reruns it as the follow-up), when its only owner retires, when the scheduler shuts down, or when a delayed
  request for the active key discards its follow-up slot and is itself refused; and an accepted request is held.
\<close>

theorem accepted_requests_survive:
  assumes "sched_reachable s" "sched_step s ev s'"
  shows "(pending k s \<longrightarrow> pending k s' \<or> settles k s ev s') \<and> (\<forall>delay. ev = Scheduled k delay True \<longrightarrow> pending k s')"
proof -
  have ok: "sched_ok s" by (rule reachable_ok[OF assms(1)])
  have "pending k s'" if "ev = Scheduled k delay True" for delay
    using assms(2) unfolding that
  proof cases
    case (do_schedule job owner keep now)
    then show ?thesis using schedule_ok(2)[OF ok] by blast
  next
    case (do_handoff retired now)
    then show ?thesis using schedule_ok(2)[OF ok] by (metis handoff_schedule)
  qed
  then show ?thesis using step_ok(2)[OF ok assms(2)] by blast
qed

text \<open>
  Left to itself with every job due, the worker empties both queues: after as many turns of its loop as there are
  queued and deferred jobs no key is busy unless an operator reserved it, and no owner is left waiting.
\<close>

theorem worker_drains_queue:
  assumes "sched_reachable s" "sc_active s = {}" "all_due now s" "0 \<le> now"
  shows "(\<forall>k. busy k ((worker_pass now ^^ (length (sc_jobs s) + length (sc_deferred s))) s) \<longrightarrow>
      k \<in> sc_exclusive ((worker_pass now ^^ (length (sc_jobs s) + length (sc_deferred s))) s))
    \<and> owner_drained owner ((worker_pass now ^^ (length (sc_jobs s) + length (sc_deferred s))) s)"
proof -
  define n where "n = length (sc_jobs s) + length (sc_deferred s)"
  let ?s = "(worker_pass now ^^ n) s"
  have w: "sched_ok ?s" "sc_active ?s = {}" "sc_jobs ?s = []" "sc_deferred ?s = []"
    using worker_drains[OF reachable_ok[OF assms(1)] assms(2-4) n_def] by blast+
  have q: "sc_queued ?s = {}" "sc_follow_up ?s = None" using w(1,3) idle_no_follow_up[OF w(1,2)] by (simp_all add: sched_ok_def queue_ok_def)
  have idle: "\<not> working k ?s" for k using w(2,4) q by (simp add: working_def pending_def follows_up_def)
  then have "sc_key_owners ?s k = {}" for k using w(1) by (auto simp: sched_ok_def owners_ok_def)
  then have "k \<notin> set (sc_owned ?s owner)" for k using w(1) by (simp add: sched_ok_def owners_ok_def)
  then have "sc_owned ?s owner = []" by (cases "sc_owned ?s owner") auto
  then show ?thesis unfolding n_def[symmetric] using idle by (simp add: busy_working owner_drained_def)
qed

section \<open>A run of the scheduler\<close>

definition key_a :: job_key where "key_a = (''db'', ''a'')"
definition key_b :: job_key where "key_b = (''db'', ''b'')"
definition key_c :: job_key where "key_c = (''db'', ''c'')"

definition started_run :: scheduler where
  "started_run = snd (schedule key_a 1 (Some 7) 0 True 5 (new_scheduler True 1))"

definition active_run :: scheduler where
  "active_run = (case worker_take 5 started_run of Start _ _ s \<Rightarrow> s | Wait s \<Rightarrow> s | Exit s \<Rightarrow> s)"

definition full_run :: scheduler where
  "full_run = snd (schedule key_c 4 None 0 False 6 (snd (schedule key_b 3 None 0 False 6 (snd (schedule key_a 2 None 0 False 6 active_run)))))"

lemmas run_defs = started_run_def active_run_def full_run_def key_a_def key_b_def key_c_def new_scheduler_def schedule_def track_owner_def
  put_handoff_def follows_up_def worker_take_def due_def admit_deferred_def

lemma schedule_reachable: "sched_reachable s \<Longrightarrow> sched_reachable (snd (schedule key job owner delay keep now s))"
  by (rule stepped[OF _ do_schedule[OF prod.collapse[symmetric]]])

lemma started_reachable: "sched_reachable started_run"
  unfolding started_run_def by (rule schedule_reachable[OF initial])

lemma active_reachable: "sched_reachable active_run"
proof (rule stepped[OF started_reachable do_take])
  show "worker_take 5 started_run = Start key_a 1 active_run" by (simp add: run_defs Let_def)
qed (simp_all add: run_defs Let_def)

lemma full_reachable: "sched_reachable full_run"
  unfolding full_run_def by (intro schedule_reachable active_reachable)

theorem scheduler_invariant_witness:
  "sched_reachable full_run \<and> sc_active full_run = {key_a} \<and> follows_up key_a full_run \<and> map fst (sc_jobs full_run) = [key_b]
     \<and> length (sc_deferred full_run) \<le> sc_max full_run \<and> at_most_one (sc_active full_run)"
  using scheduler_invariant[OF full_reachable] full_reachable by (simp add: run_defs Let_def)

theorem accepted_requests_survive_witness:
  "sched_step full_run Quiesced (quiesce full_run) \<and> pending key_a full_run
     \<and> (pending key_a (quiesce full_run) \<or> settles key_a full_run Quiesced (quiesce full_run))"
proof -
  have "pending key_a full_run" by (simp add: pending_def run_defs Let_def)
  then show ?thesis using accepted_requests_survive[OF full_reachable do_quiesce] by (simp add: do_quiesce)
qed

theorem worker_drains_queue_witness:
  "sc_jobs started_run \<noteq> [] \<and> owner_drained 7 ((worker_pass 5 ^^ (length (sc_jobs started_run) + length (sc_deferred started_run))) started_run)"
proof -
  have "sc_active started_run = {}" "all_due 5 started_run" "sc_jobs started_run \<noteq> []" by (simp_all add: all_due_def run_defs Let_def)
  then show ?thesis using worker_drains_queue[OF started_reachable, of 5 7] by simp
qed

text \<open>
  C36: When a new request costs the active key its accepted follow-up.  In any state where a follow-up is recorded for a
  key, a further request for the key leaves nothing pending exactly when it is delayed, reaches the queues (the scheduler
  is open, no rebuild holds the key and it is not queued or deferred), and finds the ready queue full with no
  deferred place left; and that request is itself refused, so both are lost.
\<close>

theorem delayed_request_drops_follow_up:
  assumes "follows_up key s" "schedule key job owner delay keep now s = (accepted, s')"
  shows "(\<not> pending key s' \<longleftrightarrow> 0 < delay \<and> \<not> sc_closed s \<and> key \<notin> sc_exclusive s \<and> key \<notin> sc_queued s \<and> key \<notin> fst ` set (sc_deferred s)
      \<and> sc_max s \<le> length (sc_jobs s) \<and> \<not> (sc_embedding s \<and> length (sc_deferred s) < sc_max s))
    \<and> (accepted \<longrightarrow> pending key s')"
proof -
  have tracked: "pending k (track_owner k' o1 hj x) = pending k x" for k k' o1 hj x
    by (simp add: pending_def follows_up_def track_owner_def put_handoff_def Let_def split: option.splits)
  have "pending key s" using assms(1) by (simp add: pending_def)
  moreover obtain j where "sc_follow_up s = Some (key, j)" using assms(1) by (auto simp: follows_up_def)
  ultimately show ?thesis using assms
    by (auto simp: schedule_def Let_def tracked split: if_splits) (auto simp: pending_def follows_up_def)
qed

text \<open>A reachable run in which it happens: capacity one, both queues taken, the follow-up of the active key accepted.\<close>

theorem delayed_request_drops_follow_up_witness:
  "sched_reachable full_run \<and> follows_up key_a full_run \<and> \<not> pending key_a (snd (schedule key_a 2 (Some 7) 1 True 6 full_run))
     \<and> \<not> fst (schedule key_a 2 (Some 7) 1 True 6 full_run)"
proof -
  have f: "follows_up key_a full_run" "\<not> sc_closed full_run" "key_a \<notin> sc_exclusive full_run" "key_a \<notin> sc_queued full_run"
    "key_a \<notin> fst ` set (sc_deferred full_run)" "sc_max full_run \<le> length (sc_jobs full_run)" "\<not> length (sc_deferred full_run) < sc_max full_run"
    by (simp_all add: run_defs Let_def)
  then show ?thesis using delayed_request_drops_follow_up[OF f(1) prod.collapse[symmetric], of 2 "Some 7" 1 True 6] full_reachable by (simp, blast)
qed

end
