(* ===== verification/Cold_Cursor.thy ===== *)
theory Cold_Cursor
  imports Ledger_Views
begin

text \<open>
  The cold cursor of \<^verbatim>\<open>src/ingest_ledger.py\<close> (\<open>cold_cursor_candidate\<close>): how far a fresh engine may consider the
  rows the host shows as already stored, from the newest ingest view, the newest usable emission view and the
  bindings alone.

  The text Python prints for a float (\<open>repr\<close>) is a parameter.  The lists of an attempt have one element per entry,
  as the engine builds them.  A counter is the list of the labels it was incremented for.  \<open>ru_remaining\<close> is the
  row budget both runs share.
\<close>

section \<open>The attempt and the records\<close>

datatype stamp = SNum timestamp | SText string

definition stamp_text :: "(timestamp \<Rightarrow> string) \<Rightarrow> stamp option \<Rightarrow> string option" where
  "stamp_text repr st = map_option (\<lambda>s. case s of SText t \<Rightarrow> t | SNum n \<Rightarrow> repr n) st"

record attempt =
  at_lineage :: string
  at_entries :: "ViewEntry list"
  at_stamps :: "stamp option list"
  at_chain :: "byte list"

definition compatible :: "ViewEntry \<Rightarrow> ViewEntry \<Rightarrow> bool" where
  "compatible a b = (\<not> (identity_digest a \<noteq> identity_digest b
     \<or> (stamp_digest a \<noteq> None \<and> stamp_digest b \<noteq> None \<and> stamp_digest a \<noteq> stamp_digest b)
     \<or> (uidset_digest a \<noteq> None \<and> uidset_digest b \<noteq> None \<and> uidset_digest a \<noteq> uidset_digest b)))"

fun agreeing :: "ViewEntry list \<Rightarrow> ViewEntry list \<Rightarrow> nat" where
  "agreeing (a # as) (b # bs) = (if compatible a b then Suc (agreeing as bs) else 0)"
| "agreeing _ _ = 0"

record matched_record =
  mr_view :: ledger_view
  mr_old :: "ViewEntry list"
  mr_size :: nat
  mr_m :: nat

definition record_match :: "attempt \<Rightarrow> ledger_view \<Rightarrow> ledger_error + matched_record" where
  "record_match a v = (case decode_entries (v_entries v) of
     Inl e \<Rightarrow> Inl e
   | Inr old \<Rightarrow>
      (let size = min (length (at_entries a)) (length old) in
       case common_prefix_len (take (16 * size) (at_chain a)) (take (16 * size) (v_chain v)) of
         Inl e \<Rightarrow> Inl e
       | Inr m \<Rightarrow> Inr \<lparr>mr_view = v, mr_old = old, mr_size = size, mr_m = m + agreeing (drop m (at_entries a)) (drop m old)\<rparr>))"

fun match_records :: "attempt \<Rightarrow> ledger_view list \<Rightarrow> ledger_error + matched_record list" where
  "match_records a [] = Inr []"
| "match_records a (v # vs) = (case record_match a v of Inl e \<Rightarrow> Inl e
     | Inr r \<Rightarrow> (case match_records a vs of Inl e \<Rightarrow> Inl e | Inr rs \<Rightarrow> Inr (r # rs)))"

section \<open>Reading bindings\<close>

record evidence =
  ev_binding :: binding
  ev_message :: "stored_message option"
  ev_observed :: "string list"

definition join_row :: "ledger \<Rightarrow> bool \<Rightarrow> binding \<Rightarrow> evidence" where
  "join_row l observed b = \<lparr>ev_binding = b,
     ev_message = (case b_store_id b of None \<Rightarrow> None | Some i \<Rightarrow> sel_first (\<lambda>m. sm_store_id m = i) (l_messages l)),
     ev_observed = (if observed then map ob_stamp (filter (\<lambda>o1. ob_occ_id o1 = occ_id b) (observations l)) else [])\<rparr>"

definition read_bindings :: "ledger \<Rightarrow> binding list \<Rightarrow> int \<Rightarrow> int \<Rightarrow> evidence list \<times> int" where
  "read_bindings l rows limit remaining = (let rs = take (nat limit) rows; left = remaining - int (length rs)
     in (map (join_row l (0 \<le> left)) rs, left))"

definition by_occ :: "ledger \<Rightarrow> string \<Rightarrow> int \<Rightarrow> binding list" where
  "by_occ l lineage occ = filter (\<lambda>b. b_lineage b = lineage \<and> occ_id b = occ) (bindings l)"

definition by_digest :: "ledger \<Rightarrow> string \<Rightarrow> byte list \<Rightarrow> binding list" where
  "by_digest l lineage digest = filter (\<lambda>b. b_lineage b = lineage \<and> b_digest b = digest) (bindings l)"

definition ordinal_above :: "int \<Rightarrow> binding \<Rightarrow> bool" where
  "ordinal_above n b = (case b_ordinal b of None \<Rightarrow> False | Some o1 \<Rightarrow> n < o1)"

definition cold_window :: "ledger \<Rightarrow> string \<Rightarrow> int \<Rightarrow> binding list" where
  "cold_window l lineage n = sort_key (\<lambda>b. the (b_ordinal b)) (filter (\<lambda>b. b_lineage b = lineage \<and> kept b \<and> ordinal_above n b) (bindings l))"

section \<open>Proving a prefix\<close>

definition eligible :: "(timestamp \<Rightarrow> string) \<Rightarrow> string \<Rightarrow> evidence \<Rightarrow> ViewEntry \<Rightarrow> string option \<Rightarrow> int \<Rightarrow> string option" where
  "eligible repr session_id row entry st prev =
     (let b = ev_binding row in
      if b_disposition b = ''ambiguous'' then Some ''ambiguous_disposition''
      else if b_disposition b \<notin> {''stored'', ''migrated''} \<or> \<not> ordinal_above prev b then Some ''not_contiguous''
      else (case ev_message row of
        None \<Rightarrow> Some ''missing_row''
      | Some m \<Rightarrow>
          if sm_session_id m \<noteq> session_id then Some ''other_session''
          else if b_digest b \<noteq> identity_digest entry then Some ''not_contiguous''
          else (case st of
            None \<Rightarrow> None
          | Some t \<Rightarrow>
              if t \<in> set (ev_observed row) then None
              else if b_stamp b \<notin> {None, Some t} then Some ''stamp''
              else if stamp_text repr (map_option SNum (sm_observed_at m)) \<notin> {None, Some t} then Some ''observed_at''
              else None)))"

record proof_run =
  ru_k :: nat
  ru_pairs :: "(nat \<times> evidence) list"
  ru_last :: int
  ru_anchor :: bool
  ru_window :: "evidence list"
  ru_remaining :: int

record cold_context =
  cx_repr :: "timestamp \<Rightarrow> string"
  cx_session :: string
  cx_lineage :: string
  cx_ledger :: ledger
  cx_attempt :: attempt
  cx_ignored :: "bool list"
  cx_record :: matched_record

datatype located = Stopped string proof_run | Found evidence proof_run

definition find_anchor :: "cold_context \<Rightarrow> ViewEntry \<Rightarrow> ViewEntry \<Rightarrow> string option \<Rightarrow> proof_run \<Rightarrow> located" where
  "find_anchor c entry ref st ru =
     (let usable = (\<lambda>r. eligible (cx_repr c) (cx_session c) r entry st (ru_last ru) = None);
          own = (case entry_ref ref of None \<Rightarrow> ([], ru_remaining ru)
                 | Some occ \<Rightarrow> read_bindings (cx_ledger c) (by_occ (cx_ledger c) (cx_lineage c) occ) 1 (ru_remaining ru))
      in if fst own \<noteq> [] \<and> usable (hd (fst own)) then Found (hd (fst own)) (ru\<lparr>ru_window := [], ru_remaining := snd own\<rparr>)
         else (let rows = read_bindings (cx_ledger c) (by_digest (cx_ledger c) (cx_lineage c) (identity_digest entry)) (max 0 (snd own) + 1) (snd own) in
           if snd rows < 0 then Stopped ''budget'' (ru\<lparr>ru_remaining := snd rows\<rparr>)
           else (case filter usable (fst rows) of
             [] \<Rightarrow> Stopped ''no_anchor'' (ru\<lparr>ru_remaining := snd rows\<rparr>)
           | [r] \<Rightarrow> Found r (ru\<lparr>ru_window := [], ru_remaining := snd rows\<rparr>)
           | _ \<Rightarrow> Stopped ''ambiguous_anchor'' (ru\<lparr>ru_remaining := snd rows\<rparr>))))"

definition find_next :: "cold_context \<Rightarrow> nat \<Rightarrow> ViewEntry \<Rightarrow> ViewEntry \<Rightarrow> string option \<Rightarrow> proof_run \<Rightarrow> located" where
  "find_next c i entry ref st ru =
     (let rows = (if ru_window ru = [] then read_bindings (cx_ledger c) (cold_window (cx_ledger c) (cx_lineage c) (ru_last ru))
                    (min (int (mr_m (cx_record c)) - int i) (ru_remaining ru)) (ru_remaining ru)
                  else (ru_window ru, ru_remaining ru))
      in case fst rows of
        [] \<Rightarrow> Stopped ''not_contiguous'' (ru\<lparr>ru_remaining := snd rows\<rparr>)
      | r # rest \<Rightarrow> (case eligible (cx_repr c) (cx_session c) r entry st (ru_last ru) of
          Some why \<Rightarrow> Stopped why (ru\<lparr>ru_window := rest, ru_remaining := snd rows\<rparr>)
        | None \<Rightarrow> if entry_ref ref \<notin> {None, Some (occ_id (ev_binding r))}
            then Stopped ''not_contiguous'' (ru\<lparr>ru_window := rest, ru_remaining := snd rows\<rparr>)
            else Found r (ru\<lparr>ru_window := rest, ru_remaining := snd rows\<rparr>)))"

definition witnessed :: "ViewEntry \<Rightarrow> ViewEntry \<Rightarrow> string option \<Rightarrow> evidence \<Rightarrow> bool" where
  "witnessed entry ref st row =
     ((case st of None \<Rightarrow> False | Some t \<Rightarrow> b_stamp (ev_binding row) = Some t \<or> t \<in> set (ev_observed row))
      \<or> (uidset_digest entry \<noteq> None \<and> uidset_digest entry = uidset_digest ref \<and> entry_ref ref = Some (occ_id (ev_binding row))))"

definition advance_run :: "nat \<Rightarrow> evidence \<Rightarrow> proof_run \<Rightarrow> proof_run" where
  "advance_run i row ru = ru\<lparr>ru_k := i + 1, ru_pairs := ru_pairs ru @ [(i, row)], ru_last := the (b_ordinal (ev_binding row)), ru_anchor := False\<rparr>"

fun prove_loop :: "cold_context \<Rightarrow> nat list \<Rightarrow> proof_run \<Rightarrow> string \<times> proof_run" where
  "prove_loop c [] ru = (if mr_m (cx_record c) < mr_size (cx_record c) then ''record_mismatch'' else ''length_end'', ru)"
| "prove_loop c (i # rest) ru =
     (let entry = at_entries (cx_attempt c) ! i; ref = mr_old (cx_record c) ! i; st = stamp_text (cx_repr c) (at_stamps (cx_attempt c) ! i) in
      if is_descriptor ref then (''descriptor'', ru)
      else if cx_ignored c ! i then prove_loop c rest (ru\<lparr>ru_k := i + 1\<rparr>)
      else if ru_remaining ru \<le> 0 \<and> (ru_anchor ru \<or> ru_window ru = []) then (''budget'', ru)
      else (case (if ru_anchor ru then find_anchor c entry ref st ru else find_next c i entry ref st ru) of
        Stopped why ru' \<Rightarrow> (why, ru')
      | Found row ru' \<Rightarrow> if \<not> witnessed entry ref st row then (''no_occurrence_evidence'', ru')
          else prove_loop c rest (advance_run i row ru')))"

record cold_result =
  cr_k :: nat
  cr_m :: nat
  cr_pairs :: "(nat \<times> evidence) list"
  cr_kind :: string
  cr_view_seq :: int

definition start_run :: "int \<Rightarrow> proof_run" where
  "start_run remaining = \<lparr>ru_k = 0, ru_pairs = [], ru_last = 0, ru_anchor = True, ru_window = [], ru_remaining = remaining\<rparr>"

definition run_result :: "matched_record \<Rightarrow> proof_run \<Rightarrow> cold_result" where
  "run_result r ru = \<lparr>cr_k = ru_k ru, cr_m = mr_m r, cr_pairs = ru_pairs ru, cr_kind = v_kind (mr_view r), cr_view_seq = v_seq (mr_view r)\<rparr>"

fun prove_runs :: "(matched_record \<Rightarrow> cold_context) \<Rightarrow> matched_record list \<Rightarrow> int \<Rightarrow> cold_result list \<times> string list \<times> int" where
  "prove_runs mk [] remaining = ([], [], remaining)"
| "prove_runs mk (r # rs) remaining =
     (case prove_loop (mk r) [0..<mr_m r] (start_run remaining) of
        (why, ru) \<Rightarrow> (case prove_runs mk rs (ru_remaining ru) of
          (results, stops, left) \<Rightarrow> (run_result r ru # results, why # stops, left)))"

definition winner :: "cold_result list \<Rightarrow> cold_result option" where
  "winner rs = (case rs of [] \<Rightarrow> None | r # rest \<Rightarrow> Some (foldl (\<lambda>best x. if cr_k best < cr_k x then x else best) r rest))"

datatype cold_error = ColdFormat ledger_error | LineageNotText

definition candidate_reason :: "candidate \<Rightarrow> string" where
  "candidate_reason c = (case c of NoView \<Rightarrow> ''none'' | Refused \<Rightarrow> ''refused'' | WithheldRecovered \<Rightarrow> ''withheld_recovered''
     | BelowFloor \<Rightarrow> ''below_floor'' | Usable _ \<Rightarrow> ''usable'')"

definition cold_records :: "string \<Rightarrow> ledger \<Rightarrow> ledger_view list" where
  "cold_records lineage l = (case newest_view lineage ''ingest'' l of None \<Rightarrow> [] | Some v \<Rightarrow> [v])
     @ (case emission_candidate lineage l of Usable v \<Rightarrow> [v] | _ \<Rightarrow> [])"

definition withheld_counts :: "string \<Rightarrow> ledger \<Rightarrow> string list" where
  "withheld_counts lineage l = (let reason = candidate_reason (emission_candidate lineage l) in
     (if reason \<noteq> ''usable'' then [''emission_withheld.'' @ reason] else [])
     @ (if reason = ''below_floor'' \<and> map_of (meta l) ''emission_provenance_floor'' = None then [''emission_no_floor_key''] else []))"

definition cold_budget :: "matched_record list \<Rightarrow> int" where
  "cold_budget rs = 4 * int (foldl max 0 (map mr_m rs)) + 256"

definition cold_cursor_candidate :: "(timestamp \<Rightarrow> string) \<Rightarrow> string \<Rightarrow> attempt \<Rightarrow> bool list \<Rightarrow> ledger
    \<Rightarrow> cold_error + (cold_result option \<times> string list)" where
  "cold_cursor_candidate repr session_id a ignored l =
     (case persisted_lineage session_id (MText (at_lineage a)) l of
        MText lineage \<Rightarrow>
          (case match_records a (cold_records lineage l) of
             Inl e \<Rightarrow> Inl (ColdFormat e)
           | Inr rs \<Rightarrow>
              (case prove_runs (\<lambda>r. \<lparr>cx_repr = repr, cx_session = session_id, cx_lineage = lineage, cx_ledger = l, cx_attempt = a,
                      cx_ignored = ignored, cx_record = r\<rparr>) rs (cold_budget rs) of
                 (results, stops, left) \<Rightarrow> Inr (winner results, withheld_counts lineage l @ map (\<lambda>why. ''stop.'' @ why) stops)))
      | _ \<Rightarrow> Inl LineageNotText)"

section \<open>The window is the next run of occurrences\<close>

lemma index_ok_ordinals:
  "index_ok bs \<Longrightarrow> distinct (map b_ordinal (filter (\<lambda>b. b_lineage b = lineage \<and> kept b \<and> b_ordinal b \<noteq> None) bs))"
  by (induction bs) (auto simp: image_iff)

definition window_base :: "ledger \<Rightarrow> string \<Rightarrow> binding list" where
  "window_base l lineage = sort_key (\<lambda>b. the (b_ordinal b)) (filter (\<lambda>b. b_lineage b = lineage \<and> kept b \<and> b_ordinal b \<noteq> None) (bindings l))"

lemma ordinal_above_iff: "ordinal_above n b \<longleftrightarrow> (\<exists>x. b_ordinal b = Some x \<and> n < x)"
  by (auto simp: ordinal_above_def split: option.split)

lemma cold_window_base: "cold_window l lineage n = filter (ordinal_above n) (window_base l lineage)"
proof -
  have "filter (\<lambda>b. b_lineage b = lineage \<and> kept b \<and> ordinal_above n b) (bindings l)
    = filter (ordinal_above n) (filter (\<lambda>b. b_lineage b = lineage \<and> kept b \<and> b_ordinal b \<noteq> None) (bindings l))"
    unfolding filter_filter by (rule filter_cong[OF refl]) (auto simp: ordinal_above_iff)
  then show ?thesis by (simp add: cold_window_def window_base_def filter_sort)
qed

lemma window_base_sorted:
  assumes "index_ok (bindings l)"
  shows "sorted_wrt (\<lambda>a b. the (b_ordinal a) < the (b_ordinal b)) (window_base l lineage)"
proof -
  let ?f = "\<lambda>b. the (b_ordinal b)" and ?xs = "filter (\<lambda>b. b_lineage b = lineage \<and> kept b \<and> b_ordinal b \<noteq> None) (bindings l)"
  have "distinct (map the (map b_ordinal ?xs))"
    by (subst distinct_map) (use index_ok_ordinals[OF assms, of lineage] in \<open>auto intro!: inj_onI\<close>)
  then have "distinct (map ?f ?xs)" by (simp add: comp_def)
  moreover have "mset (map ?f (window_base l lineage)) = mset (map ?f ?xs)" by (simp add: window_base_def)
  ultimately have "distinct (map ?f (window_base l lineage))" using mset_eq_imp_distinct_iff by blast
  moreover have "sorted (map ?f (window_base l lineage))" by (simp add: window_base_def)
  ultimately have "sorted_wrt (<) (map ?f (window_base l lineage))" by (simp add: strict_sorted_iff)
  then show ?thesis by (simp add: sorted_wrt_map)
qed

lemma cold_window_mem:
  "b \<in> set (cold_window l lineage n) \<longleftrightarrow> b \<in> set (bindings l) \<and> b_lineage b = lineage \<and> kept b \<and> ordinal_above n b"
  by (auto simp: cold_window_def)

lemma cold_window_Cons:
  assumes "index_ok (bindings l)" "cold_window l lineage n = b # rest" "b_ordinal b = Some x"
  shows "rest = cold_window l lineage x" "\<forall>c \<in> set (bindings l). b_lineage c = lineage \<and> kept c \<longrightarrow> \<not> (\<exists>z. b_ordinal c = Some z \<and> n < z \<and> z < x)"
proof -
  have s: "sorted_wrt (\<lambda>a b. the (b_ordinal a) < the (b_ordinal b)) (b # rest)"
    using sorted_wrt_filter[OF window_base_sorted[OF assms(1), of lineage], of "ordinal_above n"] assms(2) by (simp add: cold_window_base)
  have "b \<in> set (cold_window l lineage n)" using assms(2) by simp
  then have nx: "n < x" using assms(3) by (auto simp: cold_window_mem ordinal_above_iff)
  have some: "\<exists>z. b_ordinal c = Some z \<and> x < z" if "c \<in> set rest" for c
  proof -
    have "c \<in> set (cold_window l lineage n)" using that assms(2) by simp
    then obtain z where "b_ordinal c = Some z" by (auto simp: cold_window_mem ordinal_above_iff)
    then show ?thesis using s that assms(3) by auto
  qed
  have "cold_window l lineage x = filter (ordinal_above x) (cold_window l lineage n)"
    unfolding cold_window_base filter_filter by (rule filter_cong[OF refl]) (use nx in \<open>auto simp: ordinal_above_iff\<close>)
  also have "\<dots> = rest" using some assms(2,3) by (auto simp: ordinal_above_iff intro!: filter_True)
  finally show "rest = cold_window l lineage x" by simp
  have "\<not> (n < z \<and> z < x)" if "c \<in> set (bindings l)" "b_lineage c = lineage" "kept c" "b_ordinal c = Some z" for c z
  proof
    assume z: "n < z \<and> z < x"
    then have "c \<in> set (b # rest)" using that by (simp add: assms(2)[symmetric] cold_window_mem ordinal_above_iff)
    then show False using z some[of c] that(4) assms(3) by auto
  qed
  then show "\<forall>c \<in> set (bindings l). b_lineage c = lineage \<and> kept c \<longrightarrow> \<not> (\<exists>z. b_ordinal c = Some z \<and> n < z \<and> z < x)" by blast
qed

section \<open>What a run has proved\<close>

definition occurrence_proven :: "(timestamp \<Rightarrow> string) \<Rightarrow> string \<Rightarrow> string \<Rightarrow> ledger \<Rightarrow> ViewEntry \<Rightarrow> ViewEntry \<Rightarrow> stamp option \<Rightarrow> evidence \<Rightarrow> bool" where
  "occurrence_proven repr session_id lineage l entry ref st row \<longleftrightarrow> (let b = ev_binding row in
     b \<in> set (bindings l) \<and> b_lineage b = lineage \<and> b_disposition b \<in> {''stored'', ''migrated''} \<and> b_digest b = identity_digest entry
     \<and> (\<exists>m \<in> set (l_messages l). b_store_id b = Some (sm_store_id m) \<and> sm_session_id m = session_id)
     \<and> ((\<exists>t. stamp_text repr st = Some t
            \<and> (b_stamp b = Some t \<or> (\<exists>o1 \<in> set (observations l). ob_occ_id o1 = occ_id b \<and> ob_stamp o1 = t)))
        \<or> (\<exists>u. uidset_digest entry = Some u \<and> uidset_digest ref = Some u \<and> entry_ref ref = Some (occ_id b))))"

definition proven :: "cold_context \<Rightarrow> nat \<Rightarrow> evidence \<Rightarrow> bool" where
  "proven c i row \<longleftrightarrow> occurrence_proven (cx_repr c) (cx_session c) (cx_lineage c) (cx_ledger c) (at_entries (cx_attempt c) ! i)
     (mr_old (cx_record c) ! i) (at_stamps (cx_attempt c) ! i) row"

definition follows :: "ledger \<Rightarrow> string \<Rightarrow> binding \<Rightarrow> binding \<Rightarrow> bool" where
  "follows l lineage a b \<longleftrightarrow> (\<exists>x y. b_ordinal a = Some x \<and> b_ordinal b = Some y \<and> x < y
     \<and> (\<forall>c \<in> set (bindings l). b_lineage c = lineage \<and> kept c \<longrightarrow> \<not> (\<exists>z. b_ordinal c = Some z \<and> x < z \<and> z < y)))"

definition pairs_ok :: "cold_context \<Rightarrow> proof_run \<Rightarrow> bool" where
  "pairs_ok c ru \<longleftrightarrow> map fst (ru_pairs ru) = filter (\<lambda>i. \<not> cx_ignored c ! i) [0..<ru_k ru]
     \<and> list_all (\<lambda>(i, row). proven c i row) (ru_pairs ru) \<and> (\<forall>i < ru_k ru. \<not> is_descriptor (mr_old (cx_record c) ! i))
     \<and> successively (follows (cx_ledger c) (cx_lineage c)) (map (ev_binding \<circ> snd) (ru_pairs ru))"

definition run_ok :: "cold_context \<Rightarrow> proof_run \<Rightarrow> bool" where
  "run_ok c ru \<longleftrightarrow> pairs_ok c ru \<and> - 1 \<le> ru_remaining ru
     \<and> (if ru_anchor ru then ru_pairs ru = []
        else ru_pairs ru \<noteq> [] \<and> b_ordinal (ev_binding (snd (last (ru_pairs ru)))) = Some (ru_last ru)
          \<and> (\<exists>n. ru_window ru = map (join_row (cx_ledger c) True) (take n (cold_window (cx_ledger c) (cx_lineage c) (ru_last ru)))))"

definition same_progress :: "proof_run \<Rightarrow> proof_run \<Rightarrow> bool" where
  "same_progress a b \<longleftrightarrow> ru_k b = ru_k a \<and> ru_pairs b = ru_pairs a \<and> ru_last b = ru_last a \<and> ru_anchor b = ru_anchor a \<and> - 1 \<le> ru_remaining b"

lemma same_progress_pairs: "same_progress a b \<Longrightarrow> pairs_ok c b = pairs_ok c a"
  by (simp add: same_progress_def pairs_ok_def)

lemma eligible_None:
  "eligible repr s row e st prev = None \<Longrightarrow> b_disposition (ev_binding row) \<in> {''stored'', ''migrated''} \<and> ordinal_above prev (ev_binding row)
     \<and> b_digest (ev_binding row) = identity_digest e \<and> (\<exists>m. ev_message row = Some m \<and> sm_session_id m = s)"
  by (auto simp: eligible_def Let_def split: if_splits option.splits)

lemma read_bindings_left: "0 \<le> limit \<Longrightarrow> remaining - limit \<le> snd (read_bindings l rows limit remaining)"
  by (simp add: read_bindings_def Let_def)

lemma read_bindings_within: "0 \<le> limit \<Longrightarrow> limit \<le> remaining \<Longrightarrow> 0 \<le> snd (read_bindings l rows limit remaining)"
  using read_bindings_left[of limit remaining l rows] by linarith

lemma read_bindings_rows:
  "0 \<le> snd (read_bindings l rows limit remaining) \<Longrightarrow> fst (read_bindings l rows limit remaining) = map (join_row l True) (take (nat limit) rows)"
  by (simp add: read_bindings_def Let_def)

lemma proven_found:
  assumes "eligible (cx_repr c) (cx_session c) (join_row (cx_ledger c) True b) (at_entries (cx_attempt c) ! i)
      (stamp_text (cx_repr c) (at_stamps (cx_attempt c) ! i)) prev = None"
    and "witnessed (at_entries (cx_attempt c) ! i) (mr_old (cx_record c) ! i) (stamp_text (cx_repr c) (at_stamps (cx_attempt c) ! i))
      (join_row (cx_ledger c) True b)"
    and "b \<in> set (bindings (cx_ledger c))" "b_lineage b = cx_lineage c"
  shows "proven c i (join_row (cx_ledger c) True b)"
proof -
  have b: "ev_binding (join_row (cx_ledger c) True b) = b" by (simp add: join_row_def)
  obtain m where m: "ev_message (join_row (cx_ledger c) True b) = Some m" "sm_session_id m = cx_session c"
    using eligible_None[OF assms(1)] by blast
  then have "m \<in> set (l_messages (cx_ledger c)) \<and> b_store_id b = Some (sm_store_id m)"
    by (auto simp: join_row_def dest!: sel_first_mem split: option.splits)
  with m(2) eligible_None[OF assms(1)] assms(2-4) show ?thesis
    unfolding proven_def occurrence_proven_def Let_def b by (auto simp: witnessed_def join_row_def split: option.splits)
qed

lemma find_anchor_cases:
  assumes "0 < ru_remaining ru"
  shows "case find_anchor c entry ref st ru of
     Stopped why ru' \<Rightarrow> same_progress ru ru'
   | Found row ru' \<Rightarrow> same_progress ru ru' \<and> ru_window ru' = [] \<and> eligible (cx_repr c) (cx_session c) row entry st (ru_last ru) = None
       \<and> (\<exists>b \<in> set (bindings (cx_ledger c)). b_lineage b = cx_lineage c \<and> row = join_row (cx_ledger c) True b)"
proof -
  define own where "own = (case entry_ref ref of None \<Rightarrow> ([], ru_remaining ru)
    | Some occ \<Rightarrow> read_bindings (cx_ledger c) (by_occ (cx_ledger c) (cx_lineage c) occ) 1 (ru_remaining ru))"
  define rows where "rows = read_bindings (cx_ledger c) (by_digest (cx_ledger c) (cx_lineage c) (identity_digest entry)) (max 0 (snd own) + 1) (snd own)"
  let ?usable = "\<lambda>r. eligible (cx_repr c) (cx_session c) r entry st (ru_last ru) = None"
  let ?own = "\<lambda>b. b \<in> set (bindings (cx_ledger c)) \<and> b_lineage b = cx_lineage c"
  have own0: "0 \<le> snd own" using assms by (simp add: own_def read_bindings_within split: option.split)
  then have rows1: "- 1 \<le> snd rows" using read_bindings_left[of "max 0 (snd own) + 1" "snd own"] by (auto simp: rows_def intro: order_trans[rotated])
  have own_rows: "\<exists>b. ?own b \<and> r = join_row (cx_ledger c) True b" if "r \<in> set (fst own)" for r
    using that own0 read_bindings_rows by (auto simp: own_def by_occ_def split: option.splits dest!: in_set_takeD)
  have rows_rows: "\<exists>b. ?own b \<and> r = join_row (cx_ledger c) True b" if "r \<in> set (fst rows)" "0 \<le> snd rows" for r
    using that read_bindings_rows by (auto simp: rows_def by_digest_def dest!: in_set_takeD)
  have f: "find_anchor c entry ref st ru = (if fst own \<noteq> [] \<and> ?usable (hd (fst own)) then Found (hd (fst own)) (ru\<lparr>ru_window := [], ru_remaining := snd own\<rparr>)
     else if snd rows < 0 then Stopped ''budget'' (ru\<lparr>ru_remaining := snd rows\<rparr>)
     else (case filter ?usable (fst rows) of
         [] \<Rightarrow> Stopped ''no_anchor'' (ru\<lparr>ru_remaining := snd rows\<rparr>)
       | [r] \<Rightarrow> Found r (ru\<lparr>ru_window := [], ru_remaining := snd rows\<rparr>)
       | _ \<Rightarrow> Stopped ''ambiguous_anchor'' (ru\<lparr>ru_remaining := snd rows\<rparr>)))"
    unfolding find_anchor_def Let_def own_def[symmetric] rows_def[symmetric] by (rule refl)
  show ?thesis
  proof (cases "fst own \<noteq> [] \<and> ?usable (hd (fst own))")
    case True
    then obtain b where "?own b" "hd (fst own) = join_row (cx_ledger c) True b" using own_rows[OF hd_in_set] by blast
    then show ?thesis unfolding f using True own0 by (auto simp: same_progress_def)
  next
    case no: False
    show ?thesis
    proof (cases "snd rows < 0")
      case True
      have "find_anchor c entry ref st ru = Stopped ''budget'' (ru\<lparr>ru_remaining := snd rows\<rparr>)" unfolding f if_not_P[OF no] if_P[OF True] ..
      then show ?thesis using rows1 by (simp add: same_progress_def)
    next
      case False
      consider "filter ?usable (fst rows) = []" | r where "filter ?usable (fst rows) = [r]" | r r' rs where "filter ?usable (fst rows) = r # r' # rs"
        by (metis neq_Nil_conv)
      then show ?thesis
      proof cases
        case 2
        then have "r \<in> set (filter ?usable (fst rows))" by simp
        then have "r \<in> set (fst rows)" "?usable r" by simp_all
        then show ?thesis unfolding f using no False 2 rows_rows[of r] by (auto simp: same_progress_def)
      qed (use no False in \<open>auto simp: f same_progress_def\<close>)
    qed
  qed
qed

lemma find_next_cases:
  assumes "run_ok c ru" "\<not> ru_anchor ru" "0 < ru_remaining ru \<or> ru_window ru \<noteq> []" "i < mr_m (cx_record c)"
  shows "case find_next c i entry ref st ru of
     Stopped why ru' \<Rightarrow> same_progress ru ru'
   | Found row ru' \<Rightarrow> same_progress ru ru' \<and> eligible (cx_repr c) (cx_session c) row entry st (ru_last ru) = None
       \<and> (\<exists>b rest n. cold_window (cx_ledger c) (cx_lineage c) (ru_last ru) = b # rest \<and> row = join_row (cx_ledger c) True b
            \<and> ru_window ru' = map (join_row (cx_ledger c) True) (take n rest))"
proof -
  let ?w = "cold_window (cx_ledger c) (cx_lineage c) (ru_last ru)"
  define rows where "rows = (if ru_window ru = [] then read_bindings (cx_ledger c) ?w (min (int (mr_m (cx_record c)) - int i) (ru_remaining ru)) (ru_remaining ru)
    else (ru_window ru, ru_remaining ru))"
  have left0: "0 \<le> snd rows" if "ru_window ru = []" using that assms(3,4) by (simp add: rows_def read_bindings_within)
  have left: "- 1 \<le> snd rows" using left0 assms(1) by (cases "ru_window ru = []") (auto simp: rows_def run_ok_def)
  obtain n where n: "fst rows = map (join_row (cx_ledger c) True) (take n ?w)"
  proof (cases "ru_window ru = []")
    case True
    then show thesis using that read_bindings_rows left0[OF True] unfolding rows_def if_P[OF True] by blast
  next
    case False
    then show thesis using that assms(1,2) by (auto simp: rows_def run_ok_def)
  qed
  have f: "find_next c i entry ref st ru = (case fst rows of
        [] \<Rightarrow> Stopped ''not_contiguous'' (ru\<lparr>ru_remaining := snd rows\<rparr>)
      | r # rest \<Rightarrow> (case eligible (cx_repr c) (cx_session c) r entry st (ru_last ru) of
          Some why \<Rightarrow> Stopped why (ru\<lparr>ru_window := rest, ru_remaining := snd rows\<rparr>)
        | None \<Rightarrow> if entry_ref ref \<notin> {None, Some (occ_id (ev_binding r))}
            then Stopped ''not_contiguous'' (ru\<lparr>ru_window := rest, ru_remaining := snd rows\<rparr>)
            else Found r (ru\<lparr>ru_window := rest, ru_remaining := snd rows\<rparr>)))"
    unfolding find_next_def Let_def rows_def by (rule refl)
  show ?thesis
  proof (cases "fst rows")
    case Nil
    then show ?thesis unfolding f using left by (simp add: same_progress_def)
  next
    case (Cons r more)
    then obtain b rest where w: "?w = b # rest" using n by (cases ?w) auto
    obtain n' where n': "n = Suc n'" using Cons n by (cases n) auto
    have "r = join_row (cx_ledger c) True b" "more = map (join_row (cx_ledger c) True) (take n' rest)" using Cons n w n' by auto
    then show ?thesis unfolding f Cons using left w by (auto simp: same_progress_def split: option.split)
  qed
qed

lemma advance_ok:
  assumes ok: "run_ok c ru" and "same_progress ru ru'" "\<not> cx_ignored c ! ru_k ru" "\<not> is_descriptor (mr_old (cx_record c) ! ru_k ru)" "proven c (ru_k ru) row" "b_ordinal (ev_binding row) = Some x"
    and "ru_pairs ru \<noteq> [] \<Longrightarrow> follows (cx_ledger c) (cx_lineage c) (ev_binding (snd (last (ru_pairs ru)))) (ev_binding row)"
    and "\<exists>n. ru_window ru' = map (join_row (cx_ledger c) True) (take n (cold_window (cx_ledger c) (cx_lineage c) x))"
  shows "run_ok c (advance_run (ru_k ru) row ru')" "ru_k (advance_run (ru_k ru) row ru') = Suc (ru_k ru)"
proof -
  have same: "ru_pairs ru' = ru_pairs ru" "- 1 \<le> ru_remaining ru'" using assms(2) by (simp_all add: same_progress_def)
  have "successively (follows (cx_ledger c) (cx_lineage c)) (map (ev_binding \<circ> snd) (ru_pairs ru @ [(ru_k ru, row)]))"
    using ok assms(7) by (cases "ru_pairs ru = []") (auto simp: run_ok_def pairs_ok_def successively_append_iff last_map)
  then show "run_ok c (advance_run (ru_k ru) row ru')"
    using ok assms(3-6,8) same by (auto simp: run_ok_def pairs_ok_def advance_run_def less_Suc_eq)
  show "ru_k (advance_run (ru_k ru) row ru') = Suc (ru_k ru)" by (simp add: advance_run_def)
qed

lemma skip_ok:
  assumes "run_ok c ru" "cx_ignored c ! ru_k ru" "\<not> is_descriptor (mr_old (cx_record c) ! ru_k ru)"
  shows "run_ok c (ru\<lparr>ru_k := ru_k ru + 1\<rparr>)"
  using assms by (auto simp: run_ok_def pairs_ok_def less_Suc_eq)

lemma found_ok:
  assumes idx: "index_ok (bindings (cx_ledger c))" and ok: "run_ok c ru" and m: "ru_k ru < mr_m (cx_record c)"
    and entry: "\<not> is_descriptor (mr_old (cx_record c) ! ru_k ru)" "\<not> cx_ignored c ! ru_k ru"
    and budget: "\<not> (ru_remaining ru \<le> 0 \<and> (ru_anchor ru \<or> ru_window ru = []))"
  defines "e \<equiv> at_entries (cx_attempt c) ! ru_k ru" and "ref \<equiv> mr_old (cx_record c) ! ru_k ru"
    and "st \<equiv> stamp_text (cx_repr c) (at_stamps (cx_attempt c) ! ru_k ru)"
  shows "case (if ru_anchor ru then find_anchor c e ref st ru else find_next c (ru_k ru) e ref st ru) of
     Stopped why ru' \<Rightarrow> same_progress ru ru'
   | Found row ru' \<Rightarrow> same_progress ru ru' \<and> (witnessed e ref st row \<longrightarrow> run_ok c (advance_run (ru_k ru) row ru'))"
proof (cases "ru_anchor ru")
  case True
  then have empty: "ru_pairs ru = []" using ok by (simp add: run_ok_def)
  have "0 < ru_remaining ru" using budget True by simp
  from find_anchor_cases[OF this, where c = c and entry = e and ref = ref and st = st] show ?thesis
  proof (cases "find_anchor c e ref st ru")
    case (Found row ru')
    with find_anchor_cases[OF \<open>0 < ru_remaining ru\<close>, where c = c and entry = e and ref = ref and st = st] obtain b where f: "same_progress ru ru'" "ru_window ru' = []"
      "eligible (cx_repr c) (cx_session c) row e st (ru_last ru) = None" "b \<in> set (bindings (cx_ledger c))" "b_lineage b = cx_lineage c"
      "row = join_row (cx_ledger c) True b" by auto
    obtain x where x: "b_ordinal (ev_binding row) = Some x" using eligible_None[OF f(3)] by (auto simp: ordinal_above_iff)
    have "run_ok c (advance_run (ru_k ru) row ru')" if "witnessed e ref st row"
    proof (rule advance_ok(1)[OF ok f(1) entry(2,1) _ x])
      show "proven c (ru_k ru) row" using proven_found[where c = c and b = b and i = "ru_k ru" and prev = "ru_last ru"] f(3-6) that unfolding e_def ref_def st_def by simp
      show "\<exists>n. ru_window ru' = map (join_row (cx_ledger c) True) (take n (cold_window (cx_ledger c) (cx_lineage c) x))"
        using f(2) by (intro exI[of _ 0]) simp
    qed (use empty in simp)
    then show ?thesis using True Found f(1) by simp
  qed (use True in simp)
next
  case False
  then have "0 < ru_remaining ru \<or> ru_window ru \<noteq> []" using budget by auto
  note fn = find_next_cases[OF ok False this m, where entry = e and ref = ref and st = st]
  show ?thesis
  proof (cases "find_next c (ru_k ru) e ref st ru")
    case (Found row ru')
    with fn obtain b rest n where f: "same_progress ru ru'" "eligible (cx_repr c) (cx_session c) row e st (ru_last ru) = None"
      "cold_window (cx_ledger c) (cx_lineage c) (ru_last ru) = b # rest" "row = join_row (cx_ledger c) True b"
      "ru_window ru' = map (join_row (cx_ledger c) True) (take n rest)" by auto
    have row: "ev_binding row = b" by (simp add: f(4) join_row_def)
    have b: "b \<in> set (bindings (cx_ledger c))" "b_lineage b = cx_lineage c"
      using cold_window_mem[of b "cx_ledger c" "cx_lineage c" "ru_last ru"] f(3) by auto
    obtain x where x: "b_ordinal b = Some x" "ru_last ru < x" using eligible_None[OF f(2)] row by (auto simp: ordinal_above_iff)
    note w = cold_window_Cons[OF idx f(3) x(1)]
    have "run_ok c (advance_run (ru_k ru) row ru')" if "witnessed e ref st row"
    proof (rule advance_ok(1)[OF ok f(1) entry(2,1)])
      show "proven c (ru_k ru) row" using proven_found[where c = c and b = b and i = "ru_k ru" and prev = "ru_last ru"] f(2,4) b that unfolding e_def ref_def st_def by simp
      show "b_ordinal (ev_binding row) = Some x" using x(1) row by simp
      show "follows (cx_ledger c) (cx_lineage c) (ev_binding (snd (last (ru_pairs ru)))) (ev_binding row)"
        using ok False x w(2) unfolding follows_def row by (auto simp: run_ok_def)
      show "\<exists>n. ru_window ru' = map (join_row (cx_ledger c) True) (take n (cold_window (cx_ledger c) (cx_lineage c) x))" using f(5) w(1) by blast
    qed
    then show ?thesis using False Found f(1) by simp
  qed (use False fn in simp)
qed

lemma prove_loop_ok:
  assumes "index_ok (bindings (cx_ledger c))"
  shows "run_ok c ru \<Longrightarrow> ru_k ru \<le> mr_m (cx_record c) \<Longrightarrow> prove_loop c [ru_k ru..<mr_m (cx_record c)] ru = (why, ru')
    \<Longrightarrow> pairs_ok c ru' \<and> ru_k ru' \<le> mr_m (cx_record c) \<and> - 1 \<le> ru_remaining ru'"
proof (induction "mr_m (cx_record c) - ru_k ru" arbitrary: ru)
  case 0
  then show ?case by (auto simp: run_ok_def)
next
  case (Suc d)
  let ?i = "ru_k ru" and ?m = "mr_m (cx_record c)"
  let ?e = "at_entries (cx_attempt c) ! ?i" and ?ref = "mr_old (cx_record c) ! ?i" and ?st = "stamp_text (cx_repr c) (at_stamps (cx_attempt c) ! ?i)"
  have lt: "?i < ?m" and upt: "[?i..<?m] = ?i # [Suc ?i..<?m]" using Suc.hyps(2) by (simp_all add: upt_conv_Cons)
  have here: "pairs_ok c ru \<and> ?i \<le> ?m \<and> - 1 \<le> ru_remaining ru" using Suc.prems(1) lt by (simp add: run_ok_def)
  have d: "d = ?m - Suc ?i" using Suc.hyps(2) by simp
  consider (stop) "ru' = ru"
    | (skip) "cx_ignored c ! ?i" "\<not> is_descriptor ?ref" "prove_loop c [Suc ?i..<?m] (ru\<lparr>ru_k := ?i + 1\<rparr>) = (why, ru')"
    | (find) "\<not> is_descriptor ?ref" "\<not> cx_ignored c ! ?i" "\<not> (ru_remaining ru \<le> 0 \<and> (ru_anchor ru \<or> ru_window ru = []))"
        "(case (if ru_anchor ru then find_anchor c ?e ?ref ?st ru else find_next c ?i ?e ?ref ?st ru) of
           Stopped why ru' \<Rightarrow> (why, ru')
         | Found row ru' \<Rightarrow> if \<not> witnessed ?e ?ref ?st row then (''no_occurrence_evidence'', ru')
             else prove_loop c [Suc ?i..<?m] (advance_run ?i row ru')) = (why, ru')"
    using Suc.prems(3) unfolding upt prove_loop.simps Let_def by (auto split: if_split_asm)
  then show ?case
  proof cases
    case stop
    then show ?thesis using here by simp
  next
    case skip
    then show ?thesis using Suc.hyps(1)[of "ru\<lparr>ru_k := ?i + 1\<rparr>"] skip_ok[OF Suc.prems(1) skip(1,2)] lt d by simp
  next
    case find
    note f = found_ok[OF assms Suc.prems(1) lt find(1-3)]
    show ?thesis
    proof (cases "if ru_anchor ru then find_anchor c ?e ?ref ?st ru else find_next c ?i ?e ?ref ?st ru")
      case (Stopped why' ru1)
      then have "same_progress ru ru'" using f find(4) by simp
      then show ?thesis using here same_progress_pairs[of ru ru' c] by (simp add: same_progress_def)
    next
      case (Found row ru1)
      then have s: "same_progress ru ru1" "witnessed ?e ?ref ?st row \<Longrightarrow> run_ok c (advance_run ?i row ru1)" using f by simp_all
      show ?thesis
      proof (cases "witnessed ?e ?ref ?st row")
        case True
        have "ru_k (advance_run ?i row ru1) = Suc ?i" by (simp add: advance_run_def)
        then show ?thesis using Suc.hyps(1)[of "advance_run ?i row ru1"] s(2)[OF True] find(4) Found True lt d by simp
      next
        case False
        then have "ru' = ru1" using find(4) Found by simp
        then show ?thesis using here s(1) same_progress_pairs[of ru ru1 c] by (simp add: same_progress_def)
      qed
    qed
  qed
qed

section \<open>Both runs\<close>

lemma agreeing_le: "agreeing as bs \<le> length as \<and> agreeing as bs \<le> length bs"
  by (induction as bs rule: agreeing.induct) auto

lemma common_digests_le: "common_digests n a b \<le> n"
  by (induction n arbitrary: a b) auto

lemma record_match_props:
  assumes "record_match a v = Inr r"
  shows "mr_view r = v" "decode_entries (v_entries v) = Inr (mr_old r)" "mr_m r \<le> length (at_entries a)" "mr_m r \<le> length (mr_old r)"
proof -
  obtain old where old: "decode_entries (v_entries v) = Inr old" using assms by (auto simp: record_match_def split: sum.splits)
  define size where "size = min (length (at_entries a)) (length old)"
  obtain m where m: "common_prefix_len (take (16 * size) (at_chain a)) (take (16 * size) (v_chain v)) = Inr m"
    "r = \<lparr>mr_view = v, mr_old = old, mr_size = size, mr_m = m + agreeing (drop m (at_entries a)) (drop m old)\<rparr>"
    using assms old by (auto simp: record_match_def Let_def size_def split: sum.splits)
  have "m \<le> min (length (take (16 * size) (at_chain a))) (length (take (16 * size) (v_chain v))) div 16"
    using m(1) common_digests_le by (auto simp: common_prefix_len_def split: if_splits)
  also have "\<dots> \<le> (16 * size) div 16" by (intro div_le_mono) simp
  finally have "m \<le> size" by simp
  moreover have "agreeing (drop m (at_entries a)) (drop m old) \<le> length (at_entries a) - m"
    "agreeing (drop m (at_entries a)) (drop m old) \<le> length old - m" using agreeing_le[of "drop m (at_entries a)" "drop m old"] by simp_all
  ultimately have "m + agreeing (drop m (at_entries a)) (drop m old) \<le> length (at_entries a)"
    "m + agreeing (drop m (at_entries a)) (drop m old) \<le> length old" by (simp_all add: size_def le_diff_conv2 add.commute)
  then show "mr_view r = v" "decode_entries (v_entries v) = Inr (mr_old r)" "mr_m r \<le> length (at_entries a)" "mr_m r \<le> length (mr_old r)"
    using old m(2) by simp_all
qed

lemma match_records_mem: "match_records a vs = Inr rs \<Longrightarrow> r \<in> set rs \<Longrightarrow> \<exists>v \<in> set vs. record_match a v = Inr r"
  by (induction vs arbitrary: rs) (auto split: sum.splits)

lemma start_run_ok: "- 1 \<le> remaining \<Longrightarrow> run_ok c (start_run remaining)"
  by (simp add: run_ok_def pairs_ok_def start_run_def)

lemma prove_runs_ok:
  assumes "\<And>r. index_ok (bindings (cx_ledger (mk r)))" "\<And>r. cx_record (mk r) = r"
  shows "prove_runs mk rs remaining = (results, stops, left) \<Longrightarrow> - 1 \<le> remaining \<Longrightarrow>
     - 1 \<le> left \<and> (\<forall>w \<in> set results. \<exists>r \<in> set rs. \<exists>ru. w = run_result r ru \<and> pairs_ok (mk r) ru \<and> ru_k ru \<le> mr_m r)"
proof (induction rs arbitrary: remaining results stops left)
  case (Cons r rs)
  obtain why ru where l: "prove_loop (mk r) [0..<mr_m r] (start_run remaining) = (why, ru)" by fastforce
  obtain results' stops' where rest: "prove_runs mk rs (ru_remaining ru) = (results', stops', left)" "results = run_result r ru # results'"
    using Cons.prems(1) l by (auto split: prod.splits)
  have k: "ru_k (start_run remaining) = 0" by (simp add: start_run_def)
  have "pairs_ok (mk r) ru \<and> ru_k ru \<le> mr_m r \<and> - 1 \<le> ru_remaining ru"
    using prove_loop_ok[OF assms(1) start_run_ok[OF Cons.prems(2)], of r] l by (simp add: assms(2) k)
  then show ?case using Cons.IH[OF rest(1)] rest(2) by auto
qed simp

lemma winner_mem: "winner rs = Some w \<Longrightarrow> w \<in> set rs"
proof -
  have "foldl (\<lambda>best x. if cr_k best < cr_k x then x else best) r xs \<in> insert r (set xs)" for r :: cold_result and xs
    by (induction xs arbitrary: r) auto
  then show "winner rs = Some w \<Longrightarrow> w \<in> set rs" by (auto simp: winner_def split: list.splits)
qed

text \<open>
  C22: What the cold cursor lets a fresh engine skip is stored: for the record it chose, no proven position holds a
  generated descriptor; each position before the cursor that is not ignored is paired with a binding of the
  session's lineage whose stored message belongs to the session and whose identity is the entry's, with a stamp or
  uid witness for that very occurrence; and the paired occurrences follow each other in the lineage with none
  left out between them.
\<close>

theorem cold_cursor_sound:
  assumes "index_ok (bindings l)" "cold_cursor_candidate repr session_id a ignored l = Inr (Some w, counts)"
  shows "\<exists>lineage v old. persisted_lineage session_id (MText (at_lineage a)) l = MText lineage
    \<and> v \<in> set (cold_records lineage l) \<and> decode_entries (v_entries v) = Inr old \<and> cr_kind w = v_kind v \<and> cr_view_seq w = v_seq v
    \<and> cr_k w \<le> length (at_entries a) \<and> cr_k w \<le> length old \<and> (\<forall>i < cr_k w. \<not> is_descriptor (old ! i))
    \<and> map fst (cr_pairs w) = filter (\<lambda>i. \<not> ignored ! i) [0..<cr_k w]
    \<and> list_all (\<lambda>(i, row). occurrence_proven repr session_id lineage l (at_entries a ! i) (old ! i) (at_stamps a ! i) row) (cr_pairs w)
    \<and> successively (follows l lineage) (map (ev_binding \<circ> snd) (cr_pairs w))"
proof -
  obtain lineage rs where li: "persisted_lineage session_id (MText (at_lineage a)) l = MText lineage"
    and rs: "match_records a (cold_records lineage l) = Inr rs"
    using assms(2) by (auto simp: cold_cursor_candidate_def split: meta_value.splits sum.splits)
  define mk where "mk r = \<lparr>cx_repr = repr, cx_session = session_id, cx_lineage = lineage, cx_ledger = l, cx_attempt = a, cx_ignored = ignored,
    cx_record = r\<rparr>" for r
  obtain results stops left where runs: "prove_runs mk rs (cold_budget rs) = (results, stops, left)" by (metis prod_cases3)
  have w: "w \<in> set results" using assms(2) runs by (auto simp: cold_cursor_candidate_def li rs mk_def[symmetric] intro: winner_mem)
  have "\<exists>r \<in> set rs. \<exists>ru. w = run_result r ru \<and> pairs_ok (mk r) ru \<and> ru_k ru \<le> mr_m r"
    using prove_runs_ok[of mk, OF _ _ runs] assms(1) w by (simp add: mk_def cold_budget_def)
  then obtain r ru where r: "r \<in> set rs" "w = run_result r ru" "pairs_ok (mk r) ru" "ru_k ru \<le> mr_m r" by blast
  obtain v where v: "v \<in> set (cold_records lineage l)" "record_match a v = Inr r" using match_records_mem[OF rs r(1)] by blast
  show ?thesis using li v(1) record_match_props[OF v(2)] r(2-4)
    by (intro exI[of _ lineage] exI[of _ v] exI[of _ "mr_old r"]) (simp add: run_result_def pairs_ok_def mk_def proven_def)
qed

text \<open>The rows a candidate reads are bounded: the shared budget is exceeded by one row at most.\<close>

theorem cold_reads_bounded:
  assumes "index_ok (bindings l)"
    and "prove_runs (\<lambda>r. \<lparr>cx_repr = repr, cx_session = session_id, cx_lineage = lineage, cx_ledger = l, cx_attempt = a, cx_ignored = ignored,
      cx_record = r\<rparr>) rs (cold_budget rs) = (results, stops, left)"
  shows "cold_budget rs - left \<le> cold_budget rs + 1"
  using prove_runs_ok[OF _ _ assms(2)] assms(1) by (simp add: cold_budget_def)

section \<open>A stored conversation\<close>

definition cold_entry :: ViewEntry where
  "cold_entry = \<lparr>identity_digest = replicate 16 1, stamp_digest = None, uidset_digest = None, entry_ref = Some 1, is_descriptor = False\<rparr>"

definition cold_view :: ledger_view where
  "cold_view = \<lparr>v_lineage = ''L'', v_seq = 1, v_kind = ''ingest'', v_state = None,
     v_entries = (case encode_entries [cold_entry] of Inl _ \<Rightarrow> [] | Inr blob \<Rightarrow> blob), v_chain = []\<rparr>"

definition cold_ledger :: ledger where
  "cold_ledger = sample_ledger\<lparr>bindings := [(sample_binding 1 5)\<lparr>b_digest := identity_digest cold_entry, b_stamp := Some ''9.5''\<rparr>],
     views := [cold_view],
     l_messages := [\<lparr>sm_store_id = 1, sm_session_id = ''s'', sm_conversation_id = None, sm_role = ''user'', sm_observed_at = None\<rparr>]\<rparr>"

definition cold_attempt :: attempt where
  "cold_attempt = \<lparr>at_lineage = ''L'', at_entries = [cold_entry], at_stamps = [Some (SText ''9.5'')], at_chain = []\<rparr>"

lemma cold_view_decodes: "decode_entries (v_entries cold_view) = Inr [cold_entry]"
proof -
  have "\<exists>blob. encode_entries [cold_entry] = Inr blob"
    by (simp add: encode_entries_def encode_entry_def cold_entry_def digest_ok_def pack_q_def)
  then obtain blob where "encode_entries [cold_entry] = Inr blob" by blast
  moreover have "decode_entries blob = Inr [cold_entry]" using calculation by (simp add: round_trip_entries)
  ultimately show ?thesis by (simp add: cold_view_def)
qed

lemma cold_match: "record_match cold_attempt cold_view = Inr \<lparr>mr_view = cold_view, mr_old = [cold_entry], mr_size = 1, mr_m = 1\<rparr>"
  unfolding record_match_def cold_view_decodes by (simp add: cold_attempt_def cold_view_def common_prefix_len_def compatible_def)

lemma cold_views: "cold_records ''L'' cold_ledger = [cold_view]"
  by (simp add: cold_records_def newest_view_def emission_candidate_def of_view_def cold_ledger_def cold_view_def)

lemma cold_runs: "\<exists>w counts. cold_cursor_candidate repr ''s'' cold_attempt [False] cold_ledger = Inr (Some w, counts) \<and> cr_k w = 1"
proof -
  have li: "persisted_lineage ''s'' (MText (at_lineage cold_attempt)) cold_ledger = MText ''L''"
    by (simp add: persisted_lineage_def cold_attempt_def cold_ledger_def sample_ledger_def)
  show ?thesis unfolding cold_cursor_candidate_def li meta_value.case cold_views match_records.simps cold_match
    by (simp add: cold_budget_def start_run_def cold_entry_def find_anchor_def read_bindings_def by_occ_def cold_ledger_def sample_binding_def
        eligible_def join_row_def ordinal_above_def sel_first_def cold_attempt_def stamp_text_def witnessed_def advance_run_def run_result_def winner_def
        Let_def)
qed

theorem cold_cursor_sound_witness:
  "\<exists>w counts. cold_cursor_candidate (\<lambda>_. []) ''s'' cold_attempt [False] cold_ledger = Inr (Some w, counts) \<and> map fst (cr_pairs w) = [0]"
proof -
  obtain w counts where w: "cold_cursor_candidate (\<lambda>_. []) ''s'' cold_attempt [False] cold_ledger = Inr (Some w, counts)" "cr_k w = 1"
    using cold_runs by blast
  have "index_ok (bindings cold_ledger)" by (simp add: cold_ledger_def)
  from cold_cursor_sound[OF this w(1)] w show ?thesis by auto
qed

end
