(* ===== verification/Input_Clip.thy ===== *)
theory Input_Clip
  imports Truncation
begin

text \<open>
  The input budget of the summariser, \<^verbatim>\<open>src/summary_input_clip.py\<close>: texts that are together too long keep their
  floor or a proportional share of the budget, split five to two between their two ends.

  \<open>kinds\<close> has one element per text, as the callers build it.  The character \<open>0x2026\<close> of the preview stands for its
  bytes.
\<close>

definition CLIP_MARKER :: string where
  "CLIP_MARKER = CHR 0x0A # ''...[truncated]...'' @ [CHR 0x0A]"

definition last_chars :: "nat \<Rightarrow> string \<Rightarrow> string" where
  "last_chars n s = drop (length s - n) s"

definition externalized_preview :: "string \<Rightarrow> string" where
  "externalized_preview content =
     (if content = [] then []
      else if length content \<le> 900 then CHR 0x0A # ''[preview: '' @ content @ '']''
      else CHR 0x0A # ''[preview: '' @ take 600 content @ '' '' @ [CHR 0xE2, CHR 0x80, CHR 0xA6] @ '' '' @ last_chars 300 content @ '']'')"

definition clip_floor :: "string \<Rightarrow> string \<Rightarrow> string \<times> nat" where
  "clip_floor kind src =
     (if kind = ''preview'' then ([], 0)
      else if length src \<le> (if kind = ''arguments'' then 500 else 3000) then (src, length src)
      else if kind = ''arguments'' then (take 400 src @ ''...'', 400)
      else (take 2000 src @ CLIP_MARKER @ last_chars 800 src, 2800))"

text \<open>The two ends of \<open>keep\<close> characters, without and with the marker between them.\<close>

definition ends :: "string \<Rightarrow> nat \<Rightarrow> string" where
  "ends src keep = take (keep * 5 div 7) src @ last_chars (keep - keep * 5 div 7) src"

definition clipped :: "string \<Rightarrow> nat \<Rightarrow> string" where
  "clipped src keep = take (keep * 5 div 7) src @ CLIP_MARKER @ last_chars (keep - keep * 5 div 7) src"

function search_keep :: "codec option \<Rightarrow> string \<Rightarrow> nat \<Rightarrow> nat \<Rightarrow> nat \<Rightarrow> nat" where
  "search_keep enc src target low high =
     (if high - low > 1 then
        (let keep = (low + high) div 2 in
         if text_tokens enc (ends src keep) \<le> target then search_keep enc src target keep high else search_keep enc src target low keep)
      else low)"
  by pat_completeness auto
termination by (relation "measure (\<lambda>(enc, src, target, low, high). high - low)") auto

declare search_keep.simps [simp del]

definition token_target :: "nat \<Rightarrow> nat \<Rightarrow> nat \<Rightarrow> nat" where
  "token_target tokens budget whole = (tokens * budget + whole - 1) div whole * 102 div 100"

definition clip_text :: "codec option \<Rightarrow> nat \<Rightarrow> nat \<Rightarrow> string \<Rightarrow> string \<Rightarrow> nat \<Rightarrow> string" where
  "clip_text enc budget whole kind src tokens =
     (let floor = fst (clip_floor kind src); floor_chars = snd (clip_floor kind src);
          keep = (if tokens = 0 then 0 else length src * budget div whole)
      in if kind = ''preview'' \<and> keep < 200 then []
         else if keep \<le> floor_chars then floor
         else if keep \<ge> length src then src
         else (let target = token_target tokens budget whole in
           if text_tokens enc (ends src keep) > target then
             (let floor_text = (if kind \<in> {''arguments'', ''preview''} then floor else take 2000 src @ last_chars 800 src) in
              if text_tokens enc floor_text > target then floor
              else (let low = search_keep enc src target floor_chars keep in
                if low = floor_chars \<or> (kind = ''preview'' \<and> low < 200) then floor else clipped src low))
           else clipped src keep))"

definition token_counts :: "codec option \<Rightarrow> string list \<Rightarrow> nat list" where
  "token_counts enc texts = map (\<lambda>t. if t = [] then 0 else text_tokens enc t) texts"

definition kind_at :: "string list option \<Rightarrow> nat \<Rightarrow> string" where
  "kind_at kinds i = (case kinds of None \<Rightarrow> ''message'' | Some ks \<Rightarrow> ks ! i)"

definition clip_to_budget :: "codec option \<Rightarrow> string list \<Rightarrow> int \<Rightarrow> string list option \<Rightarrow> string list" where
  "clip_to_budget enc texts budget_tokens kinds =
     (let counts = token_counts enc texts; whole = sum_list counts; budget = nat (max 1 budget_tokens) in
      if whole \<le> budget then texts
      else map (\<lambda>(i, t, n). clip_text enc budget whole (kind_at kinds i) t n) (zip [0..<length texts] (zip texts counts)))"

section \<open>The search\<close>

lemma search_keep_spec:
  "low < high \<Longrightarrow> text_tokens enc (ends src high) > target \<Longrightarrow>
     low \<le> search_keep enc src target low high \<and> search_keep enc src target low high < high
     \<and> (search_keep enc src target low high = low \<or> text_tokens enc (ends src (search_keep enc src target low high)) \<le> target)
     \<and> text_tokens enc (ends src (Suc (search_keep enc src target low high))) > target"
proof (induction enc src target low high rule: search_keep.induct)
  case (1 enc src target low high)
  let ?keep = "(low + high) div 2"
  show ?case
  proof (cases "high - low > 1")
    case False
    then have "high = Suc low" using 1(3) by simp
    then show ?thesis using 1(4) False by (simp add: search_keep.simps)
  next
    case True
    then have k: "low < ?keep" "?keep < high" by auto
    show ?thesis
    proof (cases "text_tokens enc (ends src ?keep) \<le> target")
      case fits: True
      have "search_keep enc src target low high = search_keep enc src target ?keep high" using True fits by (simp add: search_keep.simps[of enc src target low high])
      then show ?thesis using 1(1)[OF True refl fits k(2) 1(4)] k fits by auto
    next
      case too: False
      have "search_keep enc src target low high = search_keep enc src target low ?keep" using True too by (simp add: search_keep.simps[of enc src target low high])
      then show ?thesis using 1(2)[OF True refl too k(1)] k too by auto
    qed
  qed
qed

section \<open>What a clipped text keeps\<close>

text \<open>A preview is dropped or kept; other texts are their floor or more than it, within their share.\<close>

definition clip_ok :: "codec option \<Rightarrow> nat \<Rightarrow> nat \<Rightarrow> string \<Rightarrow> string \<Rightarrow> nat \<Rightarrow> string \<Rightarrow> bool" where
  "clip_ok enc budget whole kind src tokens out \<longleftrightarrow>
     kind = ''preview'' \<and> out = [] \<or> out = fst (clip_floor kind src)
     \<or> (\<exists>keep. snd (clip_floor kind src) < keep \<and> keep < length src \<and> out = clipped src keep
          \<and> text_tokens enc (ends src keep) \<le> token_target tokens budget whole
          \<and> (keep = length src * budget div whole \<or> token_target tokens budget whole < text_tokens enc (ends src (Suc keep))))"

lemma keep_less: "0 < length src \<Longrightarrow> budget < whole \<Longrightarrow> length src * budget div whole < length (src :: string)"
  by (simp add: less_mult_imp_div_less)

lemma clip_text_ok:
  assumes "budget < whole"
  shows "clip_ok enc budget whole kind src tokens (clip_text enc budget whole kind src tokens)"
proof -
  define keep where "keep = (if tokens = 0 then 0 else length src * budget div whole)"
  let ?floor = "fst (clip_floor kind src)" and ?n = "snd (clip_floor kind src)" and ?target = "token_target tokens budget whole"
  define low where "low = search_keep enc src ?target ?n keep"
  have c: "clip_text enc budget whole kind src tokens =
     (if kind = ''preview'' \<and> keep < 200 then [] else if keep \<le> ?n then ?floor else if keep \<ge> length src then src
      else if text_tokens enc (ends src keep) > ?target then
        (if text_tokens enc (if kind \<in> {''arguments'', ''preview''} then ?floor else take 2000 src @ last_chars 800 src) > ?target then ?floor
         else if low = ?n \<or> (kind = ''preview'' \<and> low < 200) then ?floor else clipped src low)
      else clipped src keep)"
    by (simp add: clip_text_def Let_def keep_def low_def)
  let ?ok = "clip_ok enc budget whole kind src tokens"
  have floor: "?ok ?floor" and drop: "kind = ''preview'' \<Longrightarrow> ?ok []" by (simp_all add: clip_ok_def)
  show ?thesis
  proof (cases "keep \<le> ?n")
    case True
    then show ?thesis using floor drop unfolding c by simp
  next
    case False
    then have ne: "tokens \<noteq> 0" "keep = length src * budget div whole" "src \<noteq> []" by (auto simp: keep_def split: if_splits)
    then have lt: "keep < length src" using keep_less[OF _ assms, of src] by simp
    show ?thesis
    proof (cases "text_tokens enc (ends src keep) > ?target")
      case True
      note s = search_keep_spec[of ?n keep ?target enc src, folded low_def]
      have "?ok (clipped src low)" if "low \<noteq> ?n"
        unfolding clip_ok_def by (intro disjI2 exI[of _ low]) (use s False True lt that in auto)
      then show ?thesis using False True lt floor drop unfolding c by simp
    next
      case fits: False
      have "?ok (clipped src keep)" unfolding clip_ok_def by (intro disjI2 exI[of _ keep]) (use False fits lt ne(2) in auto)
      then show ?thesis using False fits lt drop unfolding c by simp
    qed
  qed
qed

lemma sum_div_le: "(\<Sum>x \<leftarrow> xs. f x div n) \<le> (\<Sum>x \<leftarrow> xs. f x) div (n :: nat)"
proof (cases "n = 0")
  case False
  have "n * (\<Sum>x \<leftarrow> xs. f x div n) \<le> (\<Sum>x \<leftarrow> xs. f x)" by (induction xs) (auto simp: algebra_simps intro: add_mono)
  then show ?thesis using False by (simp add: less_eq_div_iff_mult_less_eq mult.commute)
qed (induction xs; simp)

lemma targets_bounded:
  assumes "0 < sum_list counts"
  shows "100 * (\<Sum>n \<leftarrow> counts. token_target n budget (sum_list counts)) \<le> 102 * (budget + length counts)"
proof -
  let ?T = "sum_list counts"
  have "(n * budget + ?T - 1) div ?T \<le> n * budget div ?T + 1" for n
  proof -
    have "(n * budget + ?T - 1) div ?T \<le> (n * budget + ?T) div ?T" by (rule div_le_mono) simp
    moreover have "(n * budget + ?T) div ?T = n * budget div ?T + 1" by (rule div_add_self2) (use assms in linarith)
    ultimately show ?thesis by simp
  qed
  then have "(\<Sum>n \<leftarrow> counts. (n * budget + ?T - 1) div ?T) \<le> (\<Sum>n \<leftarrow> counts. n * budget div ?T + 1)" by (rule sum_list_mono)
  also have "\<dots> = (\<Sum>n \<leftarrow> counts. n * budget div ?T) + length counts" unfolding sum_list_addf by (simp add: sum_list_triv)
  also have "(\<Sum>n \<leftarrow> counts. n * budget div ?T) \<le> (\<Sum>n \<leftarrow> counts. n * budget) div ?T" by (rule sum_div_le)
  also have "(\<Sum>n \<leftarrow> counts. n * budget) div ?T = budget" unfolding sum_list_mult_const map_ident by (rule nonzero_mult_div_cancel_left) (use assms in linarith)
  finally have shares: "(\<Sum>n \<leftarrow> counts. (n * budget + ?T - 1) div ?T) \<le> budget + length counts" by simp
  have "(\<Sum>n \<leftarrow> counts. token_target n budget ?T) \<le> (\<Sum>n \<leftarrow> counts. (n * budget + ?T - 1) div ?T * 102) div 100"
    unfolding token_target_def by (rule sum_div_le)
  then have "100 * (\<Sum>n \<leftarrow> counts. token_target n budget ?T) \<le> (\<Sum>n \<leftarrow> counts. (n * budget + ?T - 1) div ?T * 102)"
    by (meson le_trans mult_le_mono2 times_div_less_eq_dividend)
  also have "\<dots> = (\<Sum>n \<leftarrow> counts. (n * budget + ?T - 1) div ?T) * 102" by (rule sum_list_mult_const)
  also have "\<dots> \<le> (budget + length counts) * 102" using shares by (rule mult_le_mono1)
  finally show ?thesis by (simp only: mult.commute)
qed

text \<open>
  C23: Clipping the summariser's input keeps its promises: texts within the budget pass unchanged; otherwise every text
  keeps its place and is its floor, or an empty preview, or its two ends with more characters than the floor that
  cost at most the text's share, and then either the proportional length or one more character would cost more;
  and the shares together exceed the budget by at most two percent and a token per text.
\<close>

theorem clip_keeps_promises:
  "(let counts = token_counts enc texts; whole = sum_list counts; budget = nat (max 1 budget_tokens);
        out = clip_to_budget enc texts budget_tokens kinds in
    if whole \<le> budget then out = texts
    else length out = length texts
      \<and> list_all (\<lambda>i. clip_ok enc budget whole (kind_at kinds i) (texts ! i) (counts ! i) (out ! i)) [0..<length texts]
      \<and> 100 * (\<Sum>n \<leftarrow> counts. token_target n budget whole) \<le> 102 * (budget + length texts))"
proof (cases "sum_list (token_counts enc texts) \<le> nat (max 1 budget_tokens)")
  case True
  then show ?thesis by (simp add: clip_to_budget_def Let_def)
next
  case False
  let ?counts = "token_counts enc texts" and ?budget = "nat (max 1 budget_tokens)"
  have len: "length ?counts = length texts" by (simp add: token_counts_def)
  have "clip_ok enc ?budget (sum_list ?counts) (kind_at kinds i) (texts ! i) (?counts ! i) (clip_to_budget enc texts budget_tokens kinds ! i)"
    if "i < length texts" for i
    using that False len clip_text_ok[of ?budget "sum_list ?counts"] by (simp add: clip_to_budget_def Let_def not_le)
  moreover have "100 * (\<Sum>n \<leftarrow> ?counts. token_target n ?budget (sum_list ?counts)) \<le> 102 * (?budget + length texts)"
    using targets_bounded[of ?counts ?budget] False len by simp
  ultimately show ?thesis using False len by (simp add: Let_def list_all_iff) (simp add: clip_to_budget_def Let_def)
qed

end
