(* ===== verification/Message_Store.thy ===== *)
theory Message_Store
  imports Messages Ledger_Store
begin

text \<open>
  The message table of \<^verbatim>\<open>src/store.py\<close>: appending, the few updates a stored row may see, deletion of a session with
  everything that refers to its rows, and the ordered reads of a session.

  A message arrives after ingest protection.  The parsers of float and ISO texts and of JSON are parameters
  (\<open>store_env\<close>), and so are the clock and the decoded source column of an emission.  The registered purges of other
  modules, the index triggers, the callback before the commit of a compaction and the backlog marker of embeddings are
  left out.  A failed transaction leaves the tables as they were.  A role is a text or absent (an explicit null breaks
  the NOT NULL constraint), and the values of \<open>owned_conversation_values\<close> (\<open>Conversation_Ids\<close>) are an argument.
\<close>

section \<open>Rows\<close>

datatype host_stamp = NoTime | BoolTime | NumTime "rat option" | TextTime string

record host_message =
  hm_role :: "string option"
  hm_content :: pyval
  hm_tool_call_id :: "string option"
  hm_tool_calls :: pyval
  hm_tool_name :: "string option"
  hm_timestamp :: host_stamp

record store_env =
  parse_float :: "string \<Rightarrow> rat option option"
  parse_iso :: "string \<Rightarrow> rat option"
  parse_json :: "string \<Rightarrow> pyval option"

record msg_row =
  row_id :: int
  row_session :: string
  row_source :: "string option"
  row_conversation :: "string option"
  row_role :: string
  row_content :: "string option"
  row_tool_call_id :: "string option"
  row_tool_calls :: "string option"
  row_tool_name :: "string option"
  row_timestamp :: rat
  row_tokens :: int
  row_pinned :: bool
  row_ingested_at :: "rat option"
  row_observed_at :: "rat option"
  row_observed_source :: "string option"
  row_sender :: "string option"
  row_sender_source :: "string option"

record message_store =
  ms_rows :: "msg_row list"
  ms_autoincrement :: bool
  ms_seq :: int
  ms_meta :: "(string \<times> string) list"
  ms_relations :: "(int \<times> int option) list"
  ms_uids :: "(int \<times> string) list"
  ms_inflight :: "string list"
  ms_lineage :: "(string \<times> string) list"
  ms_ledger :: ledger

text \<open>
  The store creates its table with \<open>AUTOINCREMENT\<close> and then a new id exceeds every id ever given (\<open>ms_seq\<close>); a legacy
  table opened by the same code has a plain integer key, whose next id only exceeds the ids that are stored.
\<close>

definition max_store_id :: "message_store \<Rightarrow> int" where
  "max_store_id s = (if ms_rows s = [] then 0 else foldl max (row_id (hd (ms_rows s))) (map row_id (ms_rows s)))"

definition next_store_id :: "message_store \<Rightarrow> int" where
  "next_store_id s = (if ms_autoincrement s then max (ms_seq s) (max_store_id s) else max_store_id s) + 1"

definition normalize_source_value :: "string option \<Rightarrow> string" where
  "normalize_source_value source = (let normalized = strip (case source of None \<Rightarrow> [] | Some s \<Rightarrow> s) in if normalized = [] then ''unknown'' else normalized)"

definition normalize_conversation_id_value :: "string option \<Rightarrow> string" where
  "normalize_conversation_id_value c = strip (case c of None \<Rightarrow> [] | Some s \<Rightarrow> s)"

text \<open>
  \<open>parse_float\<close> gives \<open>None\<close> where \<open>float\<close> raises and \<open>Some None\<close> for a value that is not finite; \<open>parse_iso\<close> gives the
  instant of a text with a time zone.  An instant fits \<open>datetime\<close> below the year 10000.
\<close>

definition normalize_observed_at :: "store_env \<Rightarrow> host_stamp \<Rightarrow> rat option" where
  "normalize_observed_at env v =
     (let usable = (\<lambda>t. if 0 < t \<and> t < 253402300800 then Some t else None) in
      case v of NoTime \<Rightarrow> None | BoolTime \<Rightarrow> None
      | NumTime None \<Rightarrow> None | NumTime (Some t) \<Rightarrow> usable t
      | TextTime s \<Rightarrow>
          (if strip s = [] then None
           else (case parse_float env (strip s) of
             Some None \<Rightarrow> None
           | Some (Some t) \<Rightarrow> usable t
           | None \<Rightarrow> (case parse_iso env (strip s) of None \<Rightarrow> None | Some t \<Rightarrow> usable t))))"

text \<open>\<open>json.dumps(value)\<close> with the default separators, keys in their order and characters outside the printable ASCII range escaped.\<close>

definition json_ascii_char :: "char \<Rightarrow> string" where
  "json_ascii_char c = (let n = (of_char c :: nat) in
     if 126 < n then CHR 0x5C # ''u00'' @ [hex_digit (n div 16), hex_digit (n mod 16)] else json_char c)"

definition json_ascii_string :: "string \<Rightarrow> string" where
  "json_ascii_string s = CHR 0x22 # concat (map json_ascii_char s) @ [CHR 0x22]"

fun json_ascii :: "pyval \<Rightarrow> string" where
  "json_ascii PNone = ''null''"
| "json_ascii (PBool b) = (if b then ''true'' else ''false'')"
| "json_ascii (PInt i) = int_str i"
| "json_ascii (PStr s) = json_ascii_string s"
| "json_ascii (PList xs) = ''['' @ join '', '' (map json_ascii xs) @ '']''"
| "json_ascii (PDict kvs) = ''{'' @ join '', '' (map (\<lambda>kv. json_ascii_string (fst kv) @ '': '' @ json_ascii (snd kv)) kvs) @ ''}''"

section \<open>Appending\<close>

definition new_row :: "store_env \<Rightarrow> string \<Rightarrow> string \<Rightarrow> string \<Rightarrow> rat \<Rightarrow> int \<Rightarrow> host_message \<Rightarrow> int \<Rightarrow> (string \<times> string) option \<Rightarrow> msg_row" where
  "new_row env session_id source conversation_id ts i m est sender =
     (let observed = normalize_observed_at env (hm_timestamp m) in
      \<lparr>row_id = i, row_session = session_id, row_source = Some (normalize_source_value (Some source)),
       row_conversation = Some (normalize_conversation_id_value (Some conversation_id)),
       row_role = (case hm_role m of None \<Rightarrow> ''unknown'' | Some r \<Rightarrow> r), row_content = normalize_content_value (hm_content m),
       row_tool_call_id = hm_tool_call_id m, row_tool_calls = (if truthy (hm_tool_calls m) then Some (json_ascii (hm_tool_calls m)) else None),
       row_tool_name = hm_tool_name m, row_timestamp = ts, row_tokens = est, row_pinned = False, row_ingested_at = Some ts,
       row_observed_at = observed, row_observed_source = (if observed \<noteq> None then Some ''host_message_timestamp'' else None),
       row_sender = map_option fst sender, row_sender_source = map_option snd sender\<rparr>)"

definition put_meta :: "(string \<times> string) list \<Rightarrow> string \<times> string \<Rightarrow> (string \<times> string) list" where
  "put_meta m kv = (if fst kv \<in> fst ` set m then map (\<lambda>e. if fst e = fst kv then kv else e) m else m @ [kv])"

type_synonym new_message = "host_message \<times> int \<times> (string \<times> string) option \<times> host_message"

fun insert_messages :: "store_env \<Rightarrow> string \<Rightarrow> string \<Rightarrow> string \<Rightarrow> (nat \<Rightarrow> rat) \<Rightarrow> nat \<Rightarrow> (host_message \<Rightarrow> int \<Rightarrow> (string \<times> string) list)
    \<Rightarrow> new_message list \<Rightarrow> message_store \<Rightarrow> int list \<times> message_store" where
  "insert_messages env session_id source conversation_id clock k factory [] s = ([], s)"
| "insert_messages env session_id source conversation_id clock k factory ((m, est, sender, mm) # rest) s =
     (let i = next_store_id s;
          s1 = s\<lparr>ms_rows := ms_rows s @ [new_row env session_id source conversation_id (clock k) i m est sender], ms_seq := i,
                 ms_meta := foldl put_meta (ms_meta s) (factory mm i)\<rparr>
      in case insert_messages env session_id source conversation_id clock (Suc k) factory rest s1 of (ids, s2) \<Rightarrow> (i # ids, s2))"

datatype append_error = MisalignedMetadata | MisalignedSenders

definition append_protected_batch :: "store_env \<Rightarrow> (nat \<Rightarrow> rat) \<Rightarrow> string \<Rightarrow> host_message list \<Rightarrow> int list option \<Rightarrow> string \<Rightarrow> string
    \<Rightarrow> (host_message \<Rightarrow> int \<Rightarrow> (string \<times> string) list) option \<Rightarrow> host_message list option \<Rightarrow> (string \<times> string) option list option
    \<Rightarrow> message_store \<Rightarrow> append_error + (int list \<times> message_store)" where
  "append_protected_batch env clock session_id messages token_estimates source conversation_id metadata_factory metadata_messages senders s =
     (let estimates = (case token_estimates of None \<Rightarrow> replicate (length messages) 0 | Some es \<Rightarrow> es);
          metas = (case metadata_messages of None \<Rightarrow> messages | Some ms \<Rightarrow> ms);
          who = (case senders of None \<Rightarrow> replicate (length messages) None | Some ws \<Rightarrow> ws);
          factory = (case metadata_factory of None \<Rightarrow> (\<lambda>_ _. []) | Some f \<Rightarrow> f) in
      if length metas \<noteq> length messages then Inl MisalignedMetadata
      else if length who \<noteq> length messages then Inl MisalignedSenders
      else Inr (insert_messages env session_id source conversation_id clock 0 factory (zip messages (zip estimates (zip who metas))) s))"

text \<open>The single append writes the same row, without metadata and without a sender.\<close>

definition append_message :: "store_env \<Rightarrow> rat \<Rightarrow> string \<Rightarrow> host_message \<Rightarrow> int \<Rightarrow> string \<Rightarrow> string \<Rightarrow> message_store \<Rightarrow> int \<times> message_store" where
  "append_message env now session_id m est source conversation_id s =
     (let i = next_store_id s
      in (i, s\<lparr>ms_rows := ms_rows s @ [new_row env session_id source conversation_id now i m est None], ms_seq := i\<rparr>))"

section \<open>Updates\<close>

definition set_sender_if_null :: "bool \<Rightarrow> int \<Rightarrow> string \<Rightarrow> string \<Rightarrow> string list \<Rightarrow> message_store \<Rightarrow> nat \<times> message_store" where
  "set_sender_if_null unavailable i sender_id sender_source session_ids s =
     (if session_ids = [] \<or> unavailable then (0, s)
      else (let P = (\<lambda>r. row_id r = i \<and> row_role r = ''user'' \<and> row_sender r = None \<and> row_sender_source r = None \<and> row_session r \<in> set session_ids
              \<and> \<not> list_ex (\<lambda>l. row_session l \<in> set session_ids \<and> row_role l = ''user'' \<and> row_id r < row_id l) (ms_rows s))
        in (rowcount P (ms_rows s), s\<lparr>ms_rows := upd_where P (\<lambda>r. r\<lparr>row_sender := Some sender_id, row_sender_source := Some sender_source\<rparr>) (ms_rows s)\<rparr>)))"

definition reassign_session_messages :: "string \<Rightarrow> string \<Rightarrow> message_store \<Rightarrow> nat \<times> message_store" where
  "reassign_session_messages old new s =
     (if old = [] \<or> new = [] \<or> old = new then (0, s)
      else (rowcount (\<lambda>r. row_session r = old) (ms_rows s),
            s\<lparr>ms_rows := upd_where (\<lambda>r. row_session r = old) (\<lambda>r. r\<lparr>row_session := new\<rparr>) (ms_rows s)\<rparr>))"

definition gc_externalized_tool_result :: "token_env \<Rightarrow> int \<Rightarrow> string \<Rightarrow> message_store \<Rightarrow> bool \<times> message_store" where
  "gc_externalized_tool_result tokens i placeholder s =
     (case sel_first (\<lambda>r. row_id r = i) (ms_rows s) of
        None \<Rightarrow> (False, s)
      | Some r \<Rightarrow>
          if row_role r \<noteq> ''tool'' \<or> row_pinned r \<or> row_content r = Some placeholder then (False, s)
          else (let cost = int (count_message_tokens tokens [(''role'', PStr ''tool''), (''content'', PStr placeholder),
                  (''tool_call_id'', case row_tool_call_id r of None \<Rightarrow> PNone | Some t \<Rightarrow> PStr t)])
            in (True, s\<lparr>ms_rows := upd_where (\<lambda>r. row_id r = i) (\<lambda>r. r\<lparr>row_content := Some placeholder, row_tokens := cost\<rparr>) (ms_rows s)\<rparr>)))"

definition set_pinned :: "bool \<Rightarrow> int \<Rightarrow> message_store \<Rightarrow> message_store" where
  "set_pinned p i s = s\<lparr>ms_rows := upd_where (\<lambda>r. row_id r = i) (\<lambda>r. r\<lparr>row_pinned := p\<rparr>) (ms_rows s)\<rparr>"

definition backfill_observed_at :: "int \<Rightarrow> rat \<Rightarrow> message_store \<Rightarrow> bool \<times> message_store" where
  "backfill_observed_at i observed s =
     (let P = (\<lambda>r. row_id r = i \<and> row_observed_at r = None) in
      (0 < rowcount P (ms_rows s),
       s\<lparr>ms_rows := upd_where P (\<lambda>r. r\<lparr>row_observed_at := Some observed, row_observed_source := Some ''host_message_timestamp''\<rparr>) (ms_rows s)\<rparr>))"

fun backfill_observed_at_many :: "(int \<times> rat) list \<Rightarrow> message_store \<Rightarrow> nat \<times> message_store" where
  "backfill_observed_at_many [] s = (0, s)"
| "backfill_observed_at_many ((i, observed) # pairs) s =
     (case backfill_observed_at i observed s of (changed, s1) \<Rightarrow>
      case backfill_observed_at_many pairs s1 of (n, s2) \<Rightarrow> ((if changed then 1 else 0) + n, s2))"

definition blank_source :: "string option \<Rightarrow> bool" where
  "blank_source source = (case source of None \<Rightarrow> True | Some t \<Rightarrow> list_all (\<lambda>c. (of_char c :: nat) \<in> {9, 10, 11, 12, 13, 32}) t)"

definition normalize_legacy_blank_sources :: "message_store \<Rightarrow> nat \<times> message_store" where
  "normalize_legacy_blank_sources s =
     (rowcount (\<lambda>r. blank_source (row_source r)) (ms_rows s),
      s\<lparr>ms_rows := upd_where (\<lambda>r. blank_source (row_source r)) (\<lambda>r. r\<lparr>row_source := Some ''unknown''\<rparr>) (ms_rows s)\<rparr>)"

text \<open>The one-time backfill when a store is opened; the marker that it ran is the caller's.\<close>

definition backfill_ingested_at :: "message_store \<Rightarrow> message_store" where
  "backfill_ingested_at s =
     s\<lparr>ms_rows := upd_where (\<lambda>r. row_ingested_at r = None) (\<lambda>r. r\<lparr>row_ingested_at := Some (row_timestamp r)\<rparr>) (ms_rows s)\<rparr>"

section \<open>Deleting a session\<close>

definition in_ids :: "int option \<Rightarrow> int list \<Rightarrow> bool" where
  "in_ids v ids = (case v of None \<Rightarrow> False | Some i \<Rightarrow> i \<in> set ids)"

definition delete_ingest_ledger_rows :: "(emission \<Rightarrow> int list) \<Rightarrow> int list \<Rightarrow> ledger \<Rightarrow> ledger" where
  "delete_ingest_ledger_rows sources ids l =
     (let bound = filter (\<lambda>b. in_ids (b_store_id b) ids) (bindings l);
          occs = map occ_id bound;
          hit = (\<lambda>e. set (sources e) \<inter> set ids \<noteq> {} \<or> in_ids (em_next_occ_id e) occs \<or> in_ids (em_recovered_store_id e) ids);
          lineages = map b_lineage bound @ map em_lineage (filter hit (emissions l))
      in l\<lparr>emissions := del_where hit (emissions l),
           observations := del_where (\<lambda>o1. ob_occ_id o1 \<in> set occs) (observations l),
           bindings := del_where (\<lambda>b. in_ids (b_store_id b) ids) (bindings l),
           views := del_where (\<lambda>v. v_lineage v \<in> set lineages) (views l)\<rparr>)"

definition inflight_of :: "int list \<Rightarrow> string \<Rightarrow> bool" where
  "inflight_of ids e = (CHR '':'' \<in> set e \<and> text_int (takeWhile (\<lambda>c. c \<noteq> CHR '':'') e) \<in> set ids)"

definition delete_message_relations :: "int list \<Rightarrow> message_store \<Rightarrow> message_store" where
  "delete_message_relations ids s = s\<lparr>ms_relations := del_where (\<lambda>x. fst x \<in> set ids \<or> in_ids (snd x) ids) (ms_relations s)\<rparr>"

definition delete_host_uid_bindings :: "int list \<Rightarrow> message_store \<Rightarrow> message_store" where
  "delete_host_uid_bindings ids s = s\<lparr>ms_uids := del_where (\<lambda>x. fst x \<in> set ids) (ms_uids s)\<rparr>"

definition delete_chunk_inflight :: "int list \<Rightarrow> message_store \<Rightarrow> message_store" where
  "delete_chunk_inflight ids s = s\<lparr>ms_inflight := del_where (inflight_of ids) (ms_inflight s)\<rparr>"

definition delete_session_lineage :: "string \<Rightarrow> message_store \<Rightarrow> message_store" where
  "delete_session_lineage session_id s = s\<lparr>ms_lineage := del_where (\<lambda>x. fst x = session_id) (ms_lineage s)\<rparr>"

definition delete_session_messages :: "(emission \<Rightarrow> int list) \<Rightarrow> string \<Rightarrow> message_store \<Rightarrow> nat \<times> message_store" where
  "delete_session_messages sources session_id s =
     (let ids = map row_id (filter (\<lambda>r. row_session r = session_id) (ms_rows s));
          s1 = s\<lparr>ms_ledger := delete_ingest_ledger_rows sources ids (ms_ledger s)\<rparr>;
          s2 = delete_session_lineage session_id (delete_chunk_inflight ids (delete_host_uid_bindings ids (delete_message_relations ids s1)))
      in (rowcount (\<lambda>r. row_session r = session_id) (ms_rows s2), s2\<lparr>ms_rows := del_where (\<lambda>r. row_session r = session_id) (ms_rows s2)\<rparr>))"

lemmas session_cascade_defs = delete_session_messages_def delete_message_relations_def delete_host_uid_bindings_def
  delete_chunk_inflight_def delete_session_lineage_def Let_def

section \<open>Reading\<close>

text \<open>A negative \<open>LIMIT\<close> of SQLite means no limit.\<close>

definition sql_limit :: "int \<Rightarrow> 'a list \<Rightarrow> 'a list" where
  "sql_limit n xs = (if n < 0 then xs else take (nat n) xs)"

record stored =
  sd_row :: msg_row
  sd_source :: string
  sd_conversation :: string
  sd_tool_calls :: pyval

definition row_to_dict :: "store_env \<Rightarrow> msg_row \<Rightarrow> stored" where
  "row_to_dict env r = \<lparr>sd_row = r, sd_source = normalize_source_value (row_source r), sd_conversation = normalize_conversation_id_value (row_conversation r),
     sd_tool_calls = (case row_tool_calls r of None \<Rightarrow> PNone
       | Some t \<Rightarrow> if t = [] then PStr [] else (case parse_json env t of None \<Rightarrow> PStr t | Some v \<Rightarrow> v))\<rparr>"

definition to_openai_msg :: "stored \<Rightarrow> pydict" where
  "to_openai_msg d = [(''role'', PStr (row_role (sd_row d)))]
     @ (case row_content (sd_row d) of None \<Rightarrow> [] | Some c \<Rightarrow> [(''content'', PStr c)])
     @ (if truthy (sd_tool_calls d) then [(''tool_calls'', sd_tool_calls d)] else [])
     @ (case row_tool_call_id (sd_row d) of None \<Rightarrow> [] | Some t \<Rightarrow> if t = [] then [] else [(''tool_call_id'', PStr t)])
     @ (case row_tool_name (sd_row d) of None \<Rightarrow> [] | Some t \<Rightarrow> if t = [] then [] else [(''name'', PStr t)])"

definition get_message :: "store_env \<Rightarrow> int \<Rightarrow> message_store \<Rightarrow> stored option" where
  "get_message env i s = map_option (row_to_dict env) (sel_first (\<lambda>r. row_id r = i) (ms_rows s))"

definition get_batch :: "store_env \<Rightarrow> int list \<Rightarrow> message_store \<Rightarrow> (int \<times> stored) list" where
  "get_batch env ids s = map (\<lambda>r. (row_id r, row_to_dict env r)) (filter (\<lambda>r. row_id r \<in> set ids) (ms_rows s))"

definition ordered_rows :: "(msg_row \<Rightarrow> bool) \<Rightarrow> message_store \<Rightarrow> msg_row list" where
  "ordered_rows P s = sort_key row_id (filter P (ms_rows s))"

definition in_conversation :: "string option \<Rightarrow> msg_row \<Rightarrow> bool" where
  "in_conversation c r = (normalize_conversation_id_value c = [] \<or> row_conversation r = Some (normalize_conversation_id_value c))"

text \<open>
  One seek per owned conversation value, the rows of all seeks in store order, and Python's slice: a negative bound
  cuts from the end.
\<close>

definition seek_rows :: "string \<Rightarrow> int \<Rightarrow> int option \<Rightarrow> int option \<Rightarrow> string option \<Rightarrow> message_store \<Rightarrow> msg_row list" where
  "seek_rows session_id after_store_id end_store_id n v s =
     (let rows = ordered_rows (\<lambda>r. row_conversation r = v \<and> row_session r = session_id \<and> after_store_id < row_id r
            \<and> (case end_store_id of None \<Rightarrow> True | Some e \<Rightarrow> row_id r \<le> e)) s
      in case n of None \<Rightarrow> rows | Some k \<Rightarrow> sql_limit k rows)"

definition select_conversation_range :: "string option list \<Rightarrow> string \<Rightarrow> int \<Rightarrow> int option \<Rightarrow> int option \<Rightarrow> message_store \<Rightarrow> msg_row list" where
  "select_conversation_range owned session_id after_store_id end_store_id n s =
     (let rows = sort_key row_id (concat (map (\<lambda>v. seek_rows session_id after_store_id end_store_id n v s) owned))
      in case n of None \<Rightarrow> rows | Some k \<Rightarrow> if k < 0 then take (length rows - nat (- k)) rows else take (nat k) rows)"

definition get_range :: "store_env \<Rightarrow> string option list \<Rightarrow> string \<Rightarrow> int \<Rightarrow> int option \<Rightarrow> int \<Rightarrow> string option \<Rightarrow> bool \<Rightarrow> message_store \<Rightarrow> stored list" where
  "get_range env owned session_id start_id end_id n conversation_id include_blank_conversation s = map (row_to_dict env)
     (if normalize_conversation_id_value conversation_id \<noteq> [] \<and> include_blank_conversation
      then select_conversation_range owned session_id (start_id - 1) end_id (Some n) s
      else sql_limit n (ordered_rows (\<lambda>r. row_session r = session_id
        \<and> start_id \<le> row_id r \<and> in_conversation conversation_id r \<and> (case end_id of None \<Rightarrow> True | Some e \<Rightarrow> row_id r \<le> e)) s))"

record evidence_scan =
  es_rows :: "stored list"
  es_max_store_id :: int
  es_total :: nat
  es_returned :: nat
  es_truncated :: bool
  es_observed_missing :: nat

definition scan_evidence_rows :: "store_env \<Rightarrow> int \<Rightarrow> message_store \<Rightarrow> evidence_scan" where
  "scan_evidence_rows env n s =
     (let rows = map (row_to_dict env) (take (nat (min 4096 (max 1 n))) (ordered_rows (\<lambda>_. True) s)) in
      if rows = [] then \<lparr>es_rows = [], es_max_store_id = 0, es_total = 0, es_returned = 0, es_truncated = False, es_observed_missing = 0\<rparr>
      else \<lparr>es_rows = rows, es_max_store_id = max_store_id s, es_total = length (ms_rows s), es_returned = length rows,
             es_truncated = (length rows < length (ms_rows s)), es_observed_missing = rowcount (\<lambda>r. row_observed_at r = None) (ms_rows s)\<rparr>)"

record load_filter =
  lf_session :: string
  lf_roles :: "string list"
  lf_from :: "rat option"
  lf_to :: "rat option"

definition session_load_where :: "load_filter \<Rightarrow> msg_row \<Rightarrow> bool" where
  "session_load_where f r = (row_session r = lf_session f \<and> (lf_roles f = [] \<or> row_role r \<in> set (lf_roles f))
     \<and> (case lf_from f of None \<Rightarrow> True | Some t \<Rightarrow> t \<le> row_timestamp r) \<and> (case lf_to f of None \<Rightarrow> True | Some t \<Rightarrow> row_timestamp r \<le> t))"

definition count_session_load_messages :: "load_filter \<Rightarrow> message_store \<Rightarrow> nat" where
  "count_session_load_messages f s = rowcount (session_load_where f) (ms_rows s)"

definition load_session_page :: "store_env \<Rightarrow> load_filter \<Rightarrow> int \<Rightarrow> int \<Rightarrow> message_store \<Rightarrow> stored list" where
  "load_session_page env f after_store_id n s =
     map (row_to_dict env) (sql_limit n (ordered_rows (\<lambda>r. session_load_where f r \<and> after_store_id < row_id r) s))"

definition load_session_window :: "store_env \<Rightarrow> string \<Rightarrow> int \<Rightarrow> int \<Rightarrow> int \<Rightarrow> message_store \<Rightarrow> stored list" where
  "load_session_window env session_id anchor before after s =
     (let b = min 12 (max 0 before); a = min 12 (max 0 after);
          prior = take (nat b) (rev (ordered_rows (\<lambda>r. row_session r = session_id \<and> row_id r < anchor) s));
          following = take (nat (a + 1)) (ordered_rows (\<lambda>r. row_session r = session_id \<and> anchor \<le> row_id r) s)
      in map (row_to_dict env) (rev prior @ following))"

definition get_session_messages_after :: "store_env \<Rightarrow> string \<Rightarrow> int \<Rightarrow> int \<Rightarrow> message_store \<Rightarrow> stored list" where
  "get_session_messages_after env session_id after n s =
     map (row_to_dict env) (sql_limit n (ordered_rows (\<lambda>r. row_session r = session_id \<and> after < row_id r) s))"

definition get_session_messages :: "store_env \<Rightarrow> string \<Rightarrow> int \<Rightarrow> message_store \<Rightarrow> stored list" where
  "get_session_messages env session_id n s = map (row_to_dict env) (sql_limit n (ordered_rows (\<lambda>r. row_session r = session_id) s))"

definition get_session_tail :: "store_env \<Rightarrow> string \<Rightarrow> int \<Rightarrow> message_store \<Rightarrow> stored list" where
  "get_session_tail env session_id n s =
     (if n \<le> 0 then []
      else map (row_to_dict env) (sort_key row_id (take (nat n) (rev (ordered_rows (\<lambda>r. row_session r = session_id) s)))))"

definition get_session_rows_through :: "store_env \<Rightarrow> string \<Rightarrow> int \<Rightarrow> int \<Rightarrow> message_store \<Rightarrow> stored list" where
  "get_session_rows_through env session_id end_store_id n s =
     (if n \<le> 0 then []
      else map (row_to_dict env) (sort_key row_id (take (nat n) (rev (ordered_rows (\<lambda>r. row_session r = session_id \<and> row_id r \<le> end_store_id) s)))))"

definition find_session_rows_by_content :: "store_env \<Rightarrow> string \<Rightarrow> string \<Rightarrow> string \<Rightarrow> int \<Rightarrow> int \<Rightarrow> message_store \<Rightarrow> stored list" where
  "find_session_rows_by_content env session_id role content end_store_id n s =
     map (row_to_dict env) (sql_limit n (rev (ordered_rows (\<lambda>r. row_session r = session_id \<and> row_role r = role
       \<and> row_content r = Some content \<and> row_id r \<le> end_store_id) s)))"

definition find_session_tool_rows :: "store_env \<Rightarrow> string option list \<Rightarrow> string \<Rightarrow> string \<Rightarrow> string \<Rightarrow> message_store \<Rightarrow> stored list" where
  "find_session_tool_rows env owned session_id call_id tool_name s =
     map (row_to_dict env) (ordered_rows (\<lambda>r. row_session r = session_id \<and> row_role r = ''tool'' \<and> row_tool_call_id r = Some call_id
       \<and> row_conversation r \<in> set owned
       \<and> (tool_name = [] \<or> (case row_tool_name r of None \<Rightarrow> True | Some t \<Rightarrow> t = [] \<or> t = tool_name))) s)"

definition get_message_senders :: "int list \<Rightarrow> message_store \<Rightarrow> (int \<times> string option \<times> string option) list" where
  "get_message_senders ids s = map (\<lambda>r. (row_id r, row_sender r, row_sender_source r)) (filter (\<lambda>r. row_id r \<in> set ids) (ms_rows s))"

definition has_session_messages :: "string \<Rightarrow> message_store \<Rightarrow> bool" where
  "has_session_messages session_id s = list_ex (\<lambda>r. row_session r = session_id) (ms_rows s)"

definition get_session_count :: "string \<Rightarrow> message_store \<Rightarrow> nat" where
  "get_session_count session_id s = rowcount (\<lambda>r. row_session r = session_id) (ms_rows s)"

definition get_session_token_total :: "string \<Rightarrow> message_store \<Rightarrow> int" where
  "get_session_token_total session_id s = sum_list (map row_tokens (filter (\<lambda>r. row_session r = session_id) (ms_rows s)))"

section \<open>Identity of a stored message\<close>

definition wf_store :: "message_store \<Rightarrow> bool" where
  "wf_store s \<longleftrightarrow> distinct (map row_id (ms_rows s)) \<and> (\<forall>r \<in> set (ms_rows s). 0 < row_id r \<and> (ms_autoincrement s \<longrightarrow> row_id r \<le> ms_seq s))"

lemma foldl_max_ge: "x \<in> insert a (set xs) \<Longrightarrow> x \<le> foldl max a xs"
  for x a :: int
proof (induction xs arbitrary: a x)
  case (Cons y ys)
  have "max a y \<le> foldl max (max a y) ys" by (rule Cons.IH) simp
  then show ?case using Cons.prems Cons.IH[of x "max a y"] by auto
qed simp

lemma row_id_new_row [simp]: "row_id (new_row env session_id source conversation_id ts i m est sender) = i"
  by (simp add: new_row_def Let_def)

lemma max_store_id_ge: "r \<in> set (ms_rows s) \<Longrightarrow> row_id r \<le> max_store_id s"
  using foldl_max_ge[of "row_id r" "row_id (hd (ms_rows s))" "map row_id (ms_rows s)"] by (auto simp: max_store_id_def)

lemma next_store_id_fresh: "max_store_id s < next_store_id s" "ms_autoincrement s \<Longrightarrow> ms_seq s < next_store_id s"
  by (simp_all add: next_store_id_def)

lemma max_store_id_nonneg: "wf_store s \<Longrightarrow> 0 \<le> max_store_id s"
proof (cases "ms_rows s = []")
  case False
  assume "wf_store s"
  then have "hd (ms_rows s) \<in> set (ms_rows s)" "0 < row_id (hd (ms_rows s))" using False by (simp_all add: wf_store_def)
  then show ?thesis using max_store_id_ge[of "hd (ms_rows s)" s] by simp
qed (simp add: max_store_id_def)

text \<open>
  What two versions of a row share: everything that makes the message, except that a tool result may be compacted and
  that a blank source, a missing stamp or a missing sender may be filled in.
\<close>

definition same_message :: "msg_row \<Rightarrow> msg_row \<Rightarrow> bool" where
  "same_message r r' \<longleftrightarrow> row_id r' = row_id r \<and> row_role r' = row_role r \<and> row_tool_call_id r' = row_tool_call_id r \<and> row_tool_calls r' = row_tool_calls r
     \<and> row_tool_name r' = row_tool_name r \<and> row_timestamp r' = row_timestamp r \<and> (row_ingested_at r' = row_ingested_at r \<or> row_ingested_at r = None)
     \<and> (row_source r' = row_source r \<or> blank_source (row_source r))
     \<and> row_conversation r' = row_conversation r \<and> (row_content r' = row_content r \<or> row_role r = ''tool'')
     \<and> (row_observed_at r' = row_observed_at r \<or> row_observed_at r = None) \<and> (row_sender r' = row_sender r \<or> row_sender r = None)"

lemma same_message_refl [simp]: "same_message r r"
  by (simp add: same_message_def)

lemma same_message_trans: "same_message a b \<Longrightarrow> same_message b c \<Longrightarrow> same_message a c"
  unfolding same_message_def by (elim conjE) (intro conjI; metis)

inductive store_step :: "store_env \<Rightarrow> token_env \<Rightarrow> message_store \<Rightarrow> message_store \<Rightarrow> bool" for env tokens where
  append: "append_protected_batch env clock session_id messages estimates source conversation_id factory metas senders s = Inr (ids, s') \<Longrightarrow> store_step env tokens s s'"
| single: "store_step env tokens s (snd (append_message env now session_id m est source conversation_id s))"
| sender: "store_step env tokens s (snd (set_sender_if_null unavailable i who from_where sessions s))"
| reassign: "store_step env tokens s (snd (reassign_session_messages old new s))"
| gc: "store_step env tokens s (snd (gc_externalized_tool_result tokens i placeholder s))"
| pin: "store_step env tokens s (set_pinned p i s)"
| backfill: "store_step env tokens s (snd (backfill_observed_at i t s))"
| sources: "store_step env tokens s (snd (normalize_legacy_blank_sources s))"
| ingested: "store_step env tokens s (backfill_ingested_at s)"
| delete: "store_step env tokens s (snd (delete_session_messages sources session_id s))"

text \<open>What every step keeps: well-formedness, the identity of the rows both states have, and fresh ids for new rows.\<close>

definition faithful_step :: "message_store \<Rightarrow> message_store \<Rightarrow> bool" where
  "faithful_step s s' \<longleftrightarrow> wf_store s' \<and> ms_autoincrement s' = ms_autoincrement s \<and> (ms_autoincrement s \<longrightarrow> ms_seq s \<le> ms_seq s')
     \<and> (\<forall>r' \<in> set (ms_rows s'). (\<exists>r \<in> set (ms_rows s). same_message r r') \<or> (ms_autoincrement s \<longrightarrow> ms_seq s < row_id r'))"

lemma same_message_id: "same_message r r' \<Longrightarrow> row_id r' = row_id r"
  by (simp add: same_message_def)

lemma faithful_step_trans:
  assumes "faithful_step a b" "faithful_step b c"
  shows "faithful_step a c"
proof -
  have "(\<exists>r \<in> set (ms_rows a). same_message r r') \<or> (ms_autoincrement a \<longrightarrow> ms_seq a < row_id r')" if h: "r' \<in> set (ms_rows c)" for r'
  proof (cases "ms_autoincrement b \<longrightarrow> ms_seq b < row_id r'")
    case True
    then show ?thesis using assms(1) by (auto simp: faithful_step_def)
  next
    case False
    then obtain r where r: "r \<in> set (ms_rows b)" "same_message r r'" using assms(2) h unfolding faithful_step_def by blast
    then consider r0 where "r0 \<in> set (ms_rows a)" "same_message r0 r" | "ms_autoincrement a \<longrightarrow> ms_seq a < row_id r" using assms(1) unfolding faithful_step_def by blast
    then show ?thesis using same_message_trans[OF _ r(2)] same_message_id[OF r(2)] by cases auto
  qed
  moreover have "ms_autoincrement a \<longrightarrow> ms_seq a \<le> ms_seq c" using assms by (auto simp: faithful_step_def)
  ultimately show ?thesis using assms by (simp add: faithful_step_def)
qed

lemma row_by_id: "wf_store s \<Longrightarrow> r \<in> set (ms_rows s) \<Longrightarrow> r' \<in> set (ms_rows s) \<Longrightarrow> row_id r = row_id r' \<Longrightarrow> r = r'"
  by (auto simp: wf_store_def distinct_map dest: inj_onD)

lemma faithful_update:
  assumes "wf_store s" "ms_rows s' = upd_where P f (ms_rows s)" "ms_seq s' = ms_seq s \<and> ms_autoincrement s' = ms_autoincrement s" "\<And>r. r \<in> set (ms_rows s) \<Longrightarrow> P r \<Longrightarrow> same_message r (f r)"
  shows "faithful_step s s'"
proof -
  have ids: "map row_id (ms_rows s') = map row_id (ms_rows s)"
    unfolding assms(2) upd_where_def map_map by (rule map_cong[OF refl]) (use assms(4) in \<open>simp add: same_message_def\<close>)
  then have "set (map row_id (ms_rows s')) = set (map row_id (ms_rows s))" by simp
  then have "\<forall>r \<in> set (ms_rows s'). 0 < row_id r \<and> (ms_autoincrement s' \<longrightarrow> row_id r \<le> ms_seq s')" using assms(1,3) by (auto simp: wf_store_def image_iff set_eq_iff) (metis+)
  then have "wf_store s'" using assms(1,3) ids by (simp add: wf_store_def)
  moreover have "\<exists>r \<in> set (ms_rows s). same_message r r'" if h: "r' \<in> set (ms_rows s')" for r'
  proof -
    obtain r where r: "r \<in> set (ms_rows s)" "r' = (if P r then f r else r)" using h by (auto simp: assms(2) upd_where_def)
    then show ?thesis using assms(4)[OF r(1)] by (intro bexI[OF _ r(1)]) simp
  qed
  ultimately show ?thesis using assms(3) by (simp add: faithful_step_def)
qed

lemma faithful_delete:
  assumes "wf_store s" "ms_rows s' = del_where P (ms_rows s)" "ms_seq s' = ms_seq s" "ms_autoincrement s' = ms_autoincrement s"
  shows "faithful_step s s'"
proof -
  have "wf_store s'" using assms distinct_key_del_where[of row_id "ms_rows s"] by (auto simp: wf_store_def set_del_where)
  then show ?thesis using assms by (auto simp: faithful_step_def set_del_where intro!: bexI[of _ "_ :: msg_row"])
qed

lemma faithful_refl: "wf_store s \<Longrightarrow> faithful_step s s"
  by (auto simp: faithful_step_def intro!: bexI[of _ "_ :: msg_row"])

lemma faithful_append:
  assumes "wf_store s" "ms_rows t = ms_rows s @ [r]" "row_id r = next_store_id s" "ms_seq t = next_store_id s" "ms_autoincrement t = ms_autoincrement s"
  shows "faithful_step s t"
proof -
  have new: "row_id x < next_store_id s" if "x \<in> set (ms_rows s)" for x using max_store_id_ge[OF that] next_store_id_fresh(1)[of s] by simp
  have "0 < next_store_id s" using max_store_id_nonneg[OF assms(1)] next_store_id_fresh(1)[of s] by simp
  then have "wf_store t" using assms(1,2,3,4) new unfolding wf_store_def by (force dest: new)
  then show ?thesis using assms(2-5) next_store_id_fresh(2)[of s] by (auto simp: faithful_step_def intro!: bexI[of _ "_ :: msg_row"])
qed

lemma faithful_insert:
  assumes "wf_store s"
  shows "faithful_step s (snd (insert_messages env session_id source conversation_id clock k factory ms s))"
  using assms
proof (induction ms arbitrary: s k)
  case Nil
  then show ?case by (simp add: faithful_refl)
next
  case (Cons x rest)
  obtain m est sender mm where x: "x = (m, est, sender, mm)" by (cases x)
  let ?r = "new_row env session_id source conversation_id (clock k) (next_store_id s) m est sender"
  let ?s = "s\<lparr>ms_rows := ms_rows s @ [?r], ms_seq := next_store_id s, ms_meta := foldl put_meta (ms_meta s) (factory mm (next_store_id s))\<rparr>"
  have f: "faithful_step s ?s" by (rule faithful_append[OF Cons.prems, where r = ?r]) simp_all
  then have "wf_store ?s" by (simp add: faithful_step_def)
  from faithful_step_trans[OF f Cons.IH[OF this, of "Suc k"]] show ?case by (simp add: x Let_def case_prod_beta)
qed

lemma step_faithful:
  assumes "store_step env tokens s s'" "wf_store s"
  shows "faithful_step s s'"
  using assms
proof (induction rule: store_step.induct)
  case (append clock session_id messages estimates source conversation_id factory metas senders s ids s')
  then obtain xs f where "insert_messages env session_id source conversation_id clock 0 f xs s = (ids, s')"
    by (auto simp: append_protected_batch_def Let_def split: if_splits)
  then show ?case using faithful_insert[OF append.prems, of env session_id source conversation_id clock 0 f xs] by simp
next
  case (single s now session_id m est source conversation_id)
  show ?case by (rule faithful_append[OF single.prems, where r = "new_row env session_id source conversation_id now (next_store_id s) m est None"])
    (simp_all add: append_message_def Let_def)
next
  case (sources s)
  then show ?case by (auto simp: normalize_legacy_blank_sources_def same_message_def intro!: faithful_update)
next
  case (ingested s)
  then show ?case by (auto simp: backfill_ingested_at_def same_message_def intro!: faithful_update)
next
  case (sender s unavailable i who from_where sessions)
  then show ?case by (auto simp: set_sender_if_null_def Let_def faithful_refl same_message_def intro!: faithful_update)
next
  case (reassign s old new)
  then show ?case by (auto simp: reassign_session_messages_def faithful_refl same_message_def intro!: faithful_update)
next
  case (gc s i placeholder)
  show ?case
  proof (cases "fst (gc_externalized_tool_result tokens i placeholder s)")
    case True
    then obtain r cost where r: "sel_first (\<lambda>r. row_id r = i) (ms_rows s) = Some r" "row_role r = ''tool''"
        "snd (gc_externalized_tool_result tokens i placeholder s)
          = s\<lparr>ms_rows := upd_where (\<lambda>r. row_id r = i) (\<lambda>r. r\<lparr>row_content := Some placeholder, row_tokens := cost\<rparr>) (ms_rows s)\<rparr>"
      by (auto simp: gc_externalized_tool_result_def Let_def split: option.splits if_splits)
    have "row_role x = ''tool''" if "x \<in> set (ms_rows s)" "row_id x = i" for x
      using row_by_id[OF gc.prems that(1), of r] sel_first_mem[OF r(1)] that(2) r(2) by simp
    then show ?thesis unfolding r(3)
      by (intro faithful_update[OF gc.prems, where P = "\<lambda>r. row_id r = i" and f = "\<lambda>r. r\<lparr>row_content := Some placeholder, row_tokens := cost\<rparr>"])
        (auto simp: same_message_def)
  next
    case False
    then have "snd (gc_externalized_tool_result tokens i placeholder s) = s"
      by (auto simp: gc_externalized_tool_result_def Let_def split: option.splits if_splits)
    then show ?thesis using gc.prems by (simp add: faithful_refl)
  qed
next
  case (pin s p i)
  then show ?case by (auto simp: set_pinned_def same_message_def intro!: faithful_update)
next
  case (backfill s i t)
  then show ?case by (auto simp: backfill_observed_at_def Let_def same_message_def intro!: faithful_update)
next
  case (delete s sources session_id)
  then show ?case by (auto simp: session_cascade_defs intro!: faithful_delete)
qed

text \<open>
  C16: The store is lossless.  In a table with an autoincrement key, as the store creates it, whatever is appended,
  reassigned, compacted, pinned, backfilled, normalised or deleted later, a row that is still there is the message that
  was stored under its id, with its role, tool data, time and conversation; only a tool result may have other
  content, only a blank source, a missing stamp or a missing sender may have been filled in; and an id that was ever
  given is never given to another message.  (Legacy tables with a plain key do reuse ids, see \<open>legacy_table_reuses_id\<close>.)
\<close>

theorem stored_messages_immutable:
  assumes "(store_step env tokens)\<^sup>*\<^sup>* s s'" "wf_store s" "ms_autoincrement s" "r \<in> set (ms_rows s)"
  shows "wf_store s' \<and> list_all (\<lambda>r'. row_id r' = row_id r \<longleftrightarrow> same_message r r') (ms_rows s')
    \<and> list_all (\<lambda>r'. row_id r' \<in> row_id ` set (ms_rows s) \<or> ms_seq s < row_id r') (ms_rows s')"
proof -
  have f: "faithful_step s s'" using assms(1,2)
  proof (induction rule: rtranclp_induct)
    case base
    then show ?case by (rule faithful_refl)
  next
    case (step y z)
    then have f: "faithful_step s y" by blast
    then have "wf_store y" by (simp add: faithful_step_def)
    from faithful_step_trans[OF f step_faithful[OF step.hyps(2) this]] show ?case .
  qed
  have "same_message r r'" if h: "r' \<in> set (ms_rows s')" "row_id r' = row_id r" for r'
  proof -
    have "\<not> ms_seq s < row_id r'" using assms(2,3,4) h(2) by (auto simp: wf_store_def)
    then obtain x where x: "x \<in> set (ms_rows s)" "same_message x r'" using f h(1) assms(3) unfolding faithful_step_def by blast
    then have "x = r" using row_by_id[OF assms(2) x(1) assms(4)] same_message_id[OF x(2)] h(2) by simp
    then show ?thesis using x(2) by simp
  qed
  moreover have "row_id r' \<in> row_id ` set (ms_rows s) \<or> ms_seq s < row_id r'" if "r' \<in> set (ms_rows s')" for r'
    using f that assms(3) same_message_id by (fastforce simp: faithful_step_def)
  ultimately show ?thesis using f same_message_id by (auto simp: faithful_step_def list_all_iff)
qed

text \<open>Deleting a session leaves nothing that refers to its rows, and touches no row of another session.\<close>

lemma session_delete_forgets:
  fixes sources session_id s
  defines "ids \<equiv> map row_id (filter (\<lambda>r. row_session r = session_id) (ms_rows s))"
  defines "t \<equiv> snd (delete_session_messages sources session_id s)"
  shows "ms_rows t = filter (\<lambda>r. row_session r \<noteq> session_id) (ms_rows s)"
    and "\<forall>b \<in> set (bindings (ms_ledger t)). \<not> in_ids (b_store_id b) ids"
    and "\<forall>e \<in> set (emissions (ms_ledger t)). set (sources e) \<inter> set ids = {} \<and> \<not> in_ids (em_recovered_store_id e) ids"
    and "\<forall>x \<in> set (ms_relations t). fst x \<notin> set ids \<and> \<not> in_ids (snd x) ids"
    and "\<forall>x \<in> set (ms_uids t). fst x \<notin> set ids"
  unfolding t_def ids_def by (auto simp: session_cascade_defs delete_ingest_ledger_rows_def set_del_where del_where_def intro!: filter_cong)

section \<open>Ordered reads\<close>

lemma ordered_rows_strict: "wf_store s \<Longrightarrow> sorted_wrt (\<lambda>a b. row_id a < row_id b) (ordered_rows P s)"
proof -
  assume "wf_store s"
  then have "distinct (map row_id (ordered_rows P s))" by (simp add: ordered_rows_def wf_store_def distinct_map distinct_map_filter inj_on_def)
  moreover have "sorted (map row_id (ordered_rows P s))" by (simp add: ordered_rows_def)
  ultimately have "sorted_wrt (<) (map row_id (ordered_rows P s))" by (simp add: strict_sorted_iff)
  then show ?thesis by (simp add: sorted_wrt_map)
qed

lemma ordered_rows_filter: "ordered_rows (\<lambda>r. P r \<and> Q r) s = filter Q (ordered_rows P s)"
  by (simp add: ordered_rows_def filter_sort conj_commute)

lemma strict_after:
  fixes xs :: "msg_row list"
  assumes "sorted_wrt (\<lambda>a b. row_id a < row_id b) xs" "k < length xs"
  shows "filter (\<lambda>r. row_id (xs ! k) < row_id r) xs = drop (Suc k) xs"
proof -
  have "filter (\<lambda>r. row_id (xs ! k) < row_id r) (take (Suc k) xs @ drop (Suc k) xs) = drop (Suc k) xs"
  proof -
    have "\<not> row_id (xs ! k) < row_id r" if h: "r \<in> set (take (Suc k) xs)" for r
    proof -
      obtain j where "j < Suc k" "r = xs ! j" using h assms(2) by (auto simp: in_set_conv_nth)
      then show ?thesis using sorted_wrt_nth_less[OF assms(1), of j k] assms(2) by (cases "j = k") auto
    qed
    moreover have "row_id (xs ! k) < row_id r" if h: "r \<in> set (drop (Suc k) xs)" for r
    proof -
      obtain j where "j < length xs - Suc k" "r = xs ! (Suc k + j)" using h by (auto simp: in_set_conv_nth)
      then show ?thesis using sorted_wrt_nth_less[OF assms(1), of k "Suc k + j"] by simp
    qed
    ultimately show ?thesis by (simp only: filter_append) (simp add: filter_empty_conv)
  qed
  then show ?thesis by simp
qed

text \<open>Following the cursor: every page is asked for after the last row of the page before, until a page is empty.\<close>

fun page_through :: "store_env \<Rightarrow> load_filter \<Rightarrow> int \<Rightarrow> nat \<Rightarrow> int \<Rightarrow> message_store \<Rightarrow> stored list" where
  "page_through env f n 0 cursor s = []"
| "page_through env f n (Suc fuel) cursor s =
     (let page = load_session_page env f cursor n s in
      if page = [] then [] else page @ page_through env f n fuel (row_id (sd_row (List.last page))) s)"

lemma sd_row_dict [simp]: "sd_row (row_to_dict env r) = r"
  by (simp add: row_to_dict_def)

lemma page_through_all:
  assumes "wf_store s" "1 \<le> n" "length (filter (\<lambda>r. cursor < row_id r) (ordered_rows (session_load_where f) s)) < fuel"
  shows "page_through env f n fuel cursor s = map (row_to_dict env) (filter (\<lambda>r. cursor < row_id r) (ordered_rows (session_load_where f) s))"
  using assms(3)
proof (induction fuel arbitrary: cursor)
  case (Suc fuel)
  define ys where "ys = ordered_rows (session_load_where f) s"
  define xs where "xs = filter (\<lambda>r. cursor < row_id r) ys"
  have page: "load_session_page env f cursor n s = map (row_to_dict env) (take (nat n) xs)"
    using assms(2) by (simp add: load_session_page_def sql_limit_def ordered_rows_filter xs_def ys_def)
  show ?case
  proof (cases "xs = []")
    case True
    then show ?thesis using page unfolding xs_def ys_def by simp
  next
    case False
    define k where "k = min (nat n) (length xs) - 1"
    have pos: "0 < length xs" "0 < nat n" using False assms(2) by auto
    then have k: "k < length xs" "take (nat n) xs \<noteq> []" "Suc k = min (nat n) (length xs)" by (auto simp: k_def min_def)
    have "length (take (nat n) xs) = Suc k" "k < nat n" using k(3) by (simp_all add: min.commute)
    then have lastp: "List.last (take (nat n) xs) = xs ! k" unfolding last_conv_nth[OF k(2)] by (metis diff_Suc_1 nth_take)
    have strict: "sorted_wrt (\<lambda>a b. row_id a < row_id b) xs"
      unfolding xs_def ys_def by (rule sorted_wrt_filter[OF ordered_rows_strict[OF assms(1)]])
    have "xs ! k \<in> set xs" using k(1) by simp
    then have "cursor < row_id (xs ! k)" by (simp add: xs_def)
    then have "filter (\<lambda>r. row_id (xs ! k) < row_id r) ys = filter (\<lambda>r. row_id (xs ! k) < row_id r) xs"
      unfolding xs_def filter_filter by (intro filter_cong) auto
    also have "\<dots> = drop (nat n) xs" unfolding strict_after[OF strict k(1)] k(3) by (cases "nat n \<le> length xs") simp_all
    finally have rest: "filter (\<lambda>r. row_id (xs ! k) < row_id r) ys = drop (nat n) xs" .
    have "length xs < Suc fuel" using Suc.prems by (simp only: xs_def ys_def)
    then have "length xs - nat n < fuel" using pos by linarith
    then have "length (drop (nat n) xs) < fuel" by (simp only: length_drop)
    then have "page_through env f n fuel (row_id (xs ! k)) s = map (row_to_dict env) (drop (nat n) xs)"
      using Suc.IH[of "row_id (xs ! k)"] rest by (simp add: ys_def)
    then have "page_through env f n (Suc fuel) cursor s = map (row_to_dict env) (take (nat n) xs) @ map (row_to_dict env) (drop (nat n) xs)"
      using page k(2) lastp by (simp add: Let_def last_map)
    then show ?thesis unfolding map_append[symmetric] by (simp add: xs_def ys_def)
  qed
qed simp

text \<open>
  C25: Reading a session page by page is complete: with any page size and filter, following the cursor ends after at
  most one request more than there are matching rows and yields every matching row exactly once, in store
  order; and the count that is reported is the number of rows delivered.
\<close>

theorem paging_covers_once:
  assumes "wf_store s" "1 \<le> n"
  shows "page_through env f n (Suc (count_session_load_messages f s)) 0 s = map (row_to_dict env) (ordered_rows (session_load_where f) s)
    \<and> distinct (map row_id (ordered_rows (session_load_where f) s))
    \<and> length (ordered_rows (session_load_where f) s) = count_session_load_messages f s"
proof -
  have all: "filter (\<lambda>r. 0 < row_id r) (ordered_rows (session_load_where f) s) = ordered_rows (session_load_where f) s"
    using assms(1) by (auto simp: ordered_rows_def wf_store_def intro: filter_True)
  have len: "length (ordered_rows (session_load_where f) s) = count_session_load_messages f s"
    by (simp add: ordered_rows_def count_session_load_messages_def rowcount_def)
  have "distinct (map row_id (ordered_rows (session_load_where f) s))"
    using ordered_rows_strict[OF assms(1)] by (metis sorted_wrt_map strict_sorted_iff)
  then show ?thesis using page_through_all[OF assms, of 0 f "Suc (count_session_load_messages f s)" env] all len by simp
qed

lemma rev_take_rev: "rev (take k (rev xs)) = drop (length xs - k) xs"
  by (simp add: take_rev)

text \<open>The rows of a session around an anchor and at its end are contiguous pieces of the session.\<close>

lemma session_tail_suffix:
  assumes "wf_store s" "0 < n"
  shows "get_session_tail env session_id n s
    = map (row_to_dict env) (drop (length (ordered_rows (\<lambda>r. row_session r = session_id) s) - nat n) (ordered_rows (\<lambda>r. row_session r = session_id) s))"
proof -
  let ?xs = "ordered_rows (\<lambda>r. row_session r = session_id) s"
  have "sorted_wrt (\<lambda>a b. row_id a < row_id b) (drop (length ?xs - nat n) ?xs)" by (rule sorted_wrt_drop[OF ordered_rows_strict[OF assms(1)]])
  then have "sorted_wrt (\<lambda>a b. a < b) (map row_id (drop (length ?xs - nat n) ?xs))" unfolding sorted_wrt_map .
  then have sd: "sorted (map row_id (drop (length ?xs - nat n) ?xs))" "distinct (map row_id (drop (length ?xs - nat n) ?xs))" by (simp_all only: strict_sorted_iff)
  have same: "set (take (nat n) (rev ?xs)) = set (drop (length ?xs - nat n) ?xs)" unfolding rev_take_rev[symmetric] by simp
  have "sort_key row_id (take (nat n) (rev ?xs)) = drop (length ?xs - nat n) ?xs"
  proof (rule map_sorted_distinct_set_unique[OF _ _ _ sd])
    show "inj_on row_id (set (sort_key row_id (take (nat n) (rev ?xs))) \<union> set (drop (length ?xs - nat n) ?xs))" using sd(2) same by (simp add: distinct_map)
    show "distinct (map row_id (sort_key row_id (take (nat n) (rev ?xs))))" using sd(2) same distinct_card[OF sd(2)]
      by (metis (no_types, lifting) card_distinct length_map length_rev length_sort rev_take_rev set_map set_sort)
  qed (simp_all add: same)
  then show ?thesis using assms(2) by (simp add: get_session_tail_def)
qed

lemma session_window_segment:
  fixes s session_id anchor before after
  defines "xs \<equiv> ordered_rows (\<lambda>r. row_session r = session_id) s"
  defines "p \<equiv> length (filter (\<lambda>r. row_id r < anchor) xs)"
  assumes "wf_store s"
  shows "load_session_window env session_id anchor before after s
    = map (row_to_dict env) (drop (p - nat (min 12 (max 0 before))) (take (p + nat (min 12 (max 0 after) + 1)) xs))"
proof -
  have srt: "sorted (map row_id xs)" by (simp add: xs_def ordered_rows_def)
  have split: "filter (\<lambda>r. row_id r < anchor) ys @ filter (\<lambda>r. anchor \<le> row_id r) ys = ys" if "sorted (map row_id ys)" for ys
    using that
  proof (induction ys)
    case (Cons y ys)
    show ?case
    proof (cases "row_id y < anchor")
      case False
      then have "filter (\<lambda>r. row_id r < anchor) ys = []" using Cons.prems by (fastforce simp: filter_empty_conv)
      then show ?thesis using Cons.IH Cons.prems False by simp
    qed (use Cons in simp)
  qed simp
  have xs: "xs = filter (\<lambda>r. row_id r < anchor) xs @ filter (\<lambda>r. anchor \<le> row_id r) xs" using split[OF srt] by simp
  have "drop (p - b) (take (p + a) xs) = drop (p - b) (filter (\<lambda>r. row_id r < anchor) xs) @ take a (filter (\<lambda>r. anchor \<le> row_id r) xs)" for a b
    by (subst xs) (simp add: p_def)
  then show ?thesis
    by (simp add: load_session_window_def Let_def rev_take_rev ordered_rows_filter[of "\<lambda>r. row_session r = session_id"] xs_def[symmetric] p_def[symmetric])
qed

text \<open>
  The first rows of a sorted list are among the first rows of every part of it, so cutting each part first loses
  nothing.
\<close>

lemma take_of_part: "x \<in> set (take n xs) \<Longrightarrow> P x \<Longrightarrow> x \<in> set (take n (filter P xs))"
proof -
  assume x: "x \<in> set (take n xs)" "P x"
  have "length (filter P (take n xs)) \<le> n" using length_filter_le[of P "take n xs"] by simp
  then have "set (filter P (take n xs)) \<subseteq> set (take n (filter P (take n xs) @ filter P (drop n xs)))" by simp
  then show ?thesis using x unfolding filter_append[symmetric] append_take_drop_id by auto
qed

lemma take_filter_prefix:
  assumes "\<And>x. x \<in> set (take n xs) \<Longrightarrow> Q x"
  shows "take n (filter Q xs) = take n xs"
proof -
  have "filter Q xs = filter Q (take n xs) @ filter Q (drop n xs)" unfolding filter_append[symmetric] by simp
  also have "filter Q (take n xs) = take n xs" using assms by simp
  finally show ?thesis by (cases "n \<le> length xs") simp_all
qed

lemma distinct_concat_parts:
  assumes "distinct xs" "distinct vs"
  shows "distinct (concat (map (\<lambda>v. take n (filter (\<lambda>r. key r = v) xs)) vs))"
  using assms(2)
proof (induction vs)
  case (Cons v vs)
  have "set (take n (filter (\<lambda>r. key r = v) xs)) \<inter> set (take n (filter (\<lambda>r. key r = w) xs)) = {}" if "w \<in> set vs" for w
    using that Cons.prems by (auto dest!: in_set_takeD)
  then show ?case using Cons assms(1) by auto
qed simp

lemma sort_rows_unique:
  assumes "sorted_wrt (\<lambda>a b. row_id a < row_id b) ys" "distinct zs" "set zs = set ys"
  shows "sort_key row_id zs = ys"
proof -
  have "sorted_wrt (<) (map row_id ys)" using assms(1) unfolding sorted_wrt_map .
  then have ys: "sorted (map row_id ys)" "distinct (map row_id ys)" by (simp_all only: strict_sorted_iff)
  show ?thesis
  proof (rule map_sorted_distinct_set_unique[OF _ _ _ ys])
    show "inj_on row_id (set (sort_key row_id zs) \<union> set ys)" using ys(2) assms(3) by (simp add: distinct_map)
    then show "distinct (map row_id (sort_key row_id zs))" using assms(2,3) by (simp add: distinct_map)
  qed (simp_all add: assms(3))
qed

lemma merged_parts:
  assumes "sorted_wrt (\<lambda>a b. row_id a < row_id b) xs" "distinct vs" "key ` set xs \<subseteq> set vs"
  shows "take n (sort_key row_id (concat (map (\<lambda>v. take n (filter (\<lambda>r. key r = v) xs)) vs))) = take n xs"
proof -
  let ?zs = "concat (map (\<lambda>v. take n (filter (\<lambda>r. key r = v) xs)) vs)"
  have "sorted_wrt (<) (map row_id xs)" using assms(1) unfolding sorted_wrt_map .
  then have "distinct xs" by (simp add: strict_sorted_iff distinct_map)
  moreover have "set ?zs \<subseteq> set xs" by (auto dest!: in_set_takeD)
  ultimately have "sort_key row_id ?zs = filter (\<lambda>r. r \<in> set ?zs) xs"
    using distinct_concat_parts[OF _ assms(2)] sorted_wrt_filter[OF assms(1)] by (intro sort_rows_unique) auto
  moreover have "r \<in> set ?zs" if h: "r \<in> set (take n xs)" for r
    using take_of_part[OF h, of "\<lambda>x. key x = key r"] in_set_takeD[OF h] assms(3) by auto
  ultimately show ?thesis using take_filter_prefix[of n xs "\<lambda>r. r \<in> set ?zs"] by simp
qed

text \<open>
  C26: Reading a conversation by one bounded index seek per owned value returns exactly what one query over all
  values would: the first rows of the session in the range that belong to the conversation, in store order, and
  none is lost or repeated by merging the seeks.
\<close>

theorem conversation_range_exact:
  assumes "wf_store s" "distinct owned" "0 \<le> n"
  shows "select_conversation_range owned session_id after end_id (Some n) s
    = take (nat n) (ordered_rows (\<lambda>r. row_session r = session_id \<and> after < row_id r \<and> (case end_id of None \<Rightarrow> True | Some e \<Rightarrow> row_id r \<le> e)
        \<and> row_conversation r \<in> set owned) s)"
proof -
  let ?P = "\<lambda>r. row_session r = session_id \<and> after < row_id r \<and> (case end_id of None \<Rightarrow> True | Some e \<Rightarrow> row_id r \<le> e) \<and> row_conversation r \<in> set owned"
  have "seek_rows session_id after end_id (Some n) v s = take (nat n) (filter (\<lambda>r. row_conversation r = v) (ordered_rows ?P s))"
    if "v \<in> set owned" for v
  proof -
    have "ordered_rows (\<lambda>r. row_conversation r = v \<and> row_session r = session_id \<and> after < row_id r \<and> (case end_id of None \<Rightarrow> True | Some e \<Rightarrow> row_id r \<le> e)) s
        = ordered_rows (\<lambda>r. ?P r \<and> row_conversation r = v) s"
      unfolding ordered_rows_def using that by (intro arg_cong[where f = "sort_key row_id"] filter_cong) auto
    also have "\<dots> = filter (\<lambda>r. row_conversation r = v) (ordered_rows ?P s)" by (rule ordered_rows_filter)
    finally show ?thesis using assms(3) by (simp only: seek_rows_def sql_limit_def Let_def option.case not_less[symmetric] if_False)
  qed
  then have "map (\<lambda>v. seek_rows session_id after end_id (Some n) v s) owned
      = map (\<lambda>v. take (nat n) (filter (\<lambda>r. row_conversation r = v) (ordered_rows ?P s))) owned" by simp
  moreover have "row_conversation ` set (ordered_rows ?P s) \<subseteq> set owned" by (auto simp: ordered_rows_def)
  ultimately show ?thesis using merged_parts[OF ordered_rows_strict[OF assms(1)] assms(2)] assms(3)
    by (simp add: select_conversation_range_def Let_def del: map_eq_conv)
qed

text \<open>A scan that is not marked as truncated holds the whole store, in order, under the snapshot it reports.\<close>

lemma scan_whole_corpus:
  assumes "\<not> es_truncated (scan_evidence_rows env n s)"
  shows "es_rows (scan_evidence_rows env n s) = map (row_to_dict env) (ordered_rows (\<lambda>_. True) s)"
proof -
  have pos: "0 < nat (min 4096 (max 1 n))" by simp
  have len: "length (ordered_rows (\<lambda>_. True) s) = length (ms_rows s)" by (simp add: ordered_rows_def)
  show ?thesis
  proof (cases "ms_rows s = []")
    case False
    then have "take (nat (min 4096 (max 1 n))) (ordered_rows (\<lambda>_. True) s) \<noteq> []" using len pos by (metis length_0_conv less_numeral_extra(3) take_eq_Nil)
    then have "length (ms_rows s) \<le> nat (min 4096 (max 1 n))" "scan_evidence_rows env n s = (scan_evidence_rows env n s)\<lparr>es_rows := map (row_to_dict env) (take (nat (min 4096 (max 1 n))) (ordered_rows (\<lambda>_. True) s))\<rparr>"
      using assms len by (auto simp: scan_evidence_rows_def Let_def)
    then show ?thesis using len by (metis (no_types, lifting) evidence_scan.select_convs(1) evidence_scan.update_convs(1) evidence_scan.surjective take_all)
  qed (simp add: scan_evidence_rows_def ordered_rows_def)
qed

section \<open>Append and read back\<close>

definition openai_form :: "host_message \<Rightarrow> pydict" where
  "openai_form m = [(''role'', PStr (case hm_role m of None \<Rightarrow> ''unknown'' | Some r \<Rightarrow> r))]
     @ (case normalize_content_value (hm_content m) of None \<Rightarrow> [] | Some c \<Rightarrow> [(''content'', PStr c)])
     @ (if truthy (hm_tool_calls m) then [(''tool_calls'', hm_tool_calls m)] else [])
     @ (case hm_tool_call_id m of None \<Rightarrow> [] | Some t \<Rightarrow> if t = [] then [] else [(''tool_call_id'', PStr t)])
     @ (case hm_tool_name m of None \<Rightarrow> [] | Some t \<Rightarrow> if t = [] then [] else [(''name'', PStr t)])"

lemma json_ascii_nonempty: "json_ascii v \<noteq> [] \<or> (\<exists>i. v = PInt i)"
  by (cases v) (simp_all add: json_ascii_string_def)

lemma int_str_nonempty: "int_str i \<noteq> []"
  using nat_digits.simps by (auto simp: int_str_def)

lemma new_row_reads_back:
  assumes "truthy (hm_tool_calls m) \<longrightarrow> parse_json env (json_ascii (hm_tool_calls m)) = Some (hm_tool_calls m)"
  shows "to_openai_msg (row_to_dict env (new_row env session_id source conversation_id ts i m est sender)) = openai_form m"
proof -
  have "json_ascii (hm_tool_calls m) \<noteq> []" using json_ascii_nonempty[of "hm_tool_calls m"] int_str_nonempty by auto
  then show ?thesis using assms by (simp add: to_openai_msg_def row_to_dict_def new_row_def Let_def openai_form_def)
qed

lemma insert_messages_rows:
  assumes "insert_messages env session_id source conversation_id clock k factory xs s = (ids, s')"
  shows "set (ms_rows s) \<subseteq> set (ms_rows s')
    \<and> list_all2 (\<lambda>i x. \<exists>ts. new_row env session_id source conversation_id ts i (fst x) (fst (snd x)) (fst (snd (snd x))) \<in> set (ms_rows s')) ids xs"
  using assms
proof (induction xs arbitrary: ids s k)
  case (Cons x rest)
  obtain m est sender mm where x: "x = (m, est, sender, mm)" by (cases x)
  let ?i = "next_store_id s"
  let ?s = "s\<lparr>ms_rows := ms_rows s @ [new_row env session_id source conversation_id (clock k) ?i m est sender], ms_seq := ?i, ms_meta := foldl put_meta (ms_meta s) (factory mm ?i)\<rparr>"
  obtain js where js: "insert_messages env session_id source conversation_id clock (Suc k) factory rest ?s = (js, s')" "ids = ?i # js"
    using Cons.prems by (auto simp: x Let_def split: prod.splits)
  from Cons.IH[OF js(1)] have ih: "set (ms_rows ?s) \<subseteq> set (ms_rows s')"
      "list_all2 (\<lambda>i x. \<exists>ts. new_row env session_id source conversation_id ts i (fst x) (fst (snd x)) (fst (snd (snd x))) \<in> set (ms_rows s')) js rest" by auto
  have "new_row env session_id source conversation_id (clock k) ?i m est sender \<in> set (ms_rows s')" using ih(1) by simp
  then show ?case using ih js(2) by (auto simp: x)
qed auto

lemma insert_messages_ids:
  assumes "insert_messages env session_id source conversation_id clock k f xs s = (ids, s')"
  shows "sorted_wrt (<) ids \<and> (\<forall>j \<in> set ids. max_store_id s < j)"
  using assms
proof (induction xs arbitrary: k s ids)
  case (Cons x rest)
  obtain m est sender mm where x: "x = (m, est, sender, mm)" by (cases x)
  let ?i = "next_store_id s"
  let ?r = "new_row env session_id source conversation_id (clock k) ?i m est sender"
  let ?s = "s\<lparr>ms_rows := ms_rows s @ [?r], ms_seq := ?i, ms_meta := foldl put_meta (ms_meta s) (f mm ?i)\<rparr>"
  obtain js where js: "insert_messages env session_id source conversation_id clock (Suc k) f rest ?s = (js, s')" "ids = ?i # js"
    using Cons.prems by (auto simp: x Let_def split: prod.splits)
  have "?i \<le> max_store_id ?s" using max_store_id_ge[of ?r ?s] by simp
  then show ?case using Cons.IH[OF js(1)] next_store_id_fresh(1)[of s] js(2) by fastforce
qed simp

text \<open>
  C17: What was appended reads back.  With any token estimates, senders and metadata, each message of a batch that has an
  estimate (all of them when none are given: the code pairs messages and estimates and drops the rest) gets an id of
  its own, under which the store returns exactly the message that was given, in the form the model is shown.
  The hypothesis on the JSON parser is that it inverts the printer on the tool calls of the batch.
\<close>

theorem append_reads_back:
  assumes "wf_store s" "\<forall>m \<in> set messages. truthy (hm_tool_calls m) \<longrightarrow> parse_json env (json_ascii (hm_tool_calls m)) = Some (hm_tool_calls m)"
    and "append_protected_batch env clock session_id messages token_estimates source conversation_id factory metas senders s = Inr (ids, s')"
  shows "distinct ids \<and> list_all2 (\<lambda>i m. map_option to_openai_msg (get_message env i s') = Some (openai_form m)) ids
      (case token_estimates of None \<Rightarrow> messages | Some es \<Rightarrow> take (length es) messages)"
proof -
  let ?ms = "case token_estimates of None \<Rightarrow> messages | Some es \<Rightarrow> take (length es) messages"
  obtain xs f where i: "insert_messages env session_id source conversation_id clock 0 f xs s = (ids, s')" "map fst xs = ?ms"
    using assms(3) by (auto simp: append_protected_batch_def Let_def map_fst_zip_take min_def split: if_splits option.splits)
  have sub: "set ?ms \<subseteq> set messages" by (auto split: option.splits dest: in_set_takeD)
  have "faithful_step s s'" using faithful_insert[OF assms(1), of env session_id source conversation_id clock 0 f xs] i(1) by simp
  then have wf: "wf_store s'" by (simp add: faithful_step_def)
  note rows = conjunct2[OF insert_messages_rows[OF i(1)]]
  have get: "map_option to_openai_msg (get_message env j s') = Some (openai_form m)"
    if h: "new_row env session_id source conversation_id ts j m est sender \<in> set (ms_rows s')" "m \<in> set messages" for j m ts est sender
  proof -
    have "distinct (map row_id (ms_rows s'))" using wf by (simp add: wf_store_def)
    then have "sel_first (\<lambda>r. row_id r = j) (ms_rows s') = Some (new_row env session_id source conversation_id ts j m est sender)"
      using sel_key_unique[of row_id, OF _ h(1)] by simp
    then show ?thesis using new_row_reads_back assms(2) h(2) by (simp add: get_message_def)
  qed
  have "fst x \<in> set messages" if "x \<in> set xs" for x using that sub i(2)[symmetric] by auto
  then have "list_all2 (\<lambda>j x. map_option to_openai_msg (get_message env j s') = Some (openai_form (fst x))) ids xs"
    by (intro list.rel_mono_strong[OF rows]) (use get in blast)
  then have "list_all2 (\<lambda>j m. map_option to_openai_msg (get_message env j s') = Some (openai_form m)) ids (map fst xs)"
    by (simp add: list_all2_map2)
  then show ?thesis using insert_messages_ids[OF i(1)] i(2) by (simp add: strict_sorted_iff)
qed

section \<open>Witnesses\<close>

definition hello :: host_message where
  "hello = \<lparr>hm_role = Some ''assistant'', hm_content = PStr ''hello'', hm_tool_call_id = None, hm_tool_calls = PList [PStr ''f''],
     hm_tool_name = None, hm_timestamp = NumTime (Some 7)\<rparr>"

definition plain_env :: store_env where
  "plain_env = \<lparr>parse_float = (\<lambda>_. None), parse_iso = (\<lambda>_. None),
     parse_json = (\<lambda>t. if t = json_ascii (hm_tool_calls hello) then Some (hm_tool_calls hello) else None)\<rparr>"

definition no_ledger :: ledger where
  "no_ledger = \<lparr>l_owned = True, bindings = [], occ_seq = 0, emissions = [], emission_seq = 0, observations = [], views = [], l_marks = [], meta = [], l_messages = []\<rparr>"

definition new_store :: message_store where
  "new_store = \<lparr>ms_rows = [], ms_autoincrement = True, ms_seq = 0, ms_meta = [], ms_relations = [], ms_uids = [], ms_inflight = [], ms_lineage = [], ms_ledger = no_ledger\<rparr>"

definition hello_row :: msg_row where
  "hello_row = new_row plain_env ''s'' ''cli'' [] 9 1 hello 5 None"

definition hello_store :: message_store where
  "hello_store = new_store\<lparr>ms_rows := [hello_row], ms_seq := 1\<rparr>"

lemma hello_appends: "append_protected_batch plain_env (\<lambda>_. 9) ''s'' [hello] (Some [5]) ''cli'' [] None None None new_store = Inr ([1], hello_store)"
  by (simp add: append_protected_batch_def new_store_def hello_store_def hello_row_def next_store_id_def max_store_id_def Let_def)

lemma hello_row_simps [simp]: "row_id hello_row = 1" "row_session hello_row = ''s''" "row_conversation hello_row = Some []"
  by (simp_all add: hello_row_def new_row_def normalize_conversation_id_value_def Let_def)

lemma hello_wf: "wf_store new_store" "wf_store hello_store" "ms_autoincrement hello_store"
  by (simp_all add: wf_store_def new_store_def hello_store_def)

theorem append_reads_back_witness:
  "map_option to_openai_msg (get_message plain_env 1 hello_store)
     = Some [(''role'', PStr ''assistant''), (''content'', PStr ''hello''), (''tool_calls'', PList [PStr ''f''])]"
proof -
  have "\<forall>m \<in> set [hello]. truthy (hm_tool_calls m) \<longrightarrow> parse_json plain_env (json_ascii (hm_tool_calls m)) = Some (hm_tool_calls m)"
    by (simp add: plain_env_def)
  from append_reads_back[OF hello_wf(1) this hello_appends] show ?thesis by (simp add: hello_def openai_form_def)
qed

text \<open>A legacy table with a plain key: the id of a deleted message is given to the next one.\<close>

lemma legacy_table_reuses_id:
  "fst (append_message plain_env 9 ''t'' hello 0 ''cli'' [] (snd (delete_session_messages (\<lambda>_. []) ''s'' (hello_store\<lparr>ms_autoincrement := False\<rparr>)))) = row_id hello_row"
  by (simp add: append_message_def session_cascade_defs hello_store_def new_store_def next_store_id_def max_store_id_def del_where_def)

theorem stored_messages_immutable_witness:
  "list_all (\<lambda>r'. row_id r' = 1 \<longleftrightarrow> same_message hello_row r') (ms_rows (set_pinned True 1 hello_store)) \<and> ms_rows (set_pinned True 1 hello_store) \<noteq> []"
proof -
  have "(store_step plain_env tokens)\<^sup>*\<^sup>* hello_store (set_pinned True 1 hello_store)" for tokens by (intro r_into_rtranclp store_step.pin)
  then show ?thesis using stored_messages_immutable[of plain_env _ hello_store "set_pinned True 1 hello_store" hello_row] hello_wf(2,3)
    by (simp add: set_pinned_def hello_store_def upd_where_def)
qed

theorem paging_covers_once_witness:
  "page_through plain_env \<lparr>lf_session = ''s'', lf_roles = [], lf_from = None, lf_to = None\<rparr> 1
     (Suc (count_session_load_messages \<lparr>lf_session = ''s'', lf_roles = [], lf_from = None, lf_to = None\<rparr> hello_store)) 0 hello_store
   = [row_to_dict plain_env hello_row]"
  using paging_covers_once[OF hello_wf(2), of 1 plain_env "\<lparr>lf_session = ''s'', lf_roles = [], lf_from = None, lf_to = None\<rparr>"]
  by (simp add: ordered_rows_def session_load_where_def hello_store_def)

theorem conversation_range_exact_witness:
  "select_conversation_range [Some ''c'', Some [], None] ''s'' 0 None (Some 1) hello_store = [hello_row]"
  using conversation_range_exact[OF hello_wf(2), of "[Some ''c'', Some [], None]" 1 "''s''" 0 None]
  by (simp add: ordered_rows_def hello_store_def)

end
