(* ===== verification/Assertion_Store.thy ===== *)
theory Assertion_Store
  imports Messages "HOL-Library.Product_Lexorder"
begin

text \<open>
  The assertion store, \<^verbatim>\<open>src/assertion_store.py\<close>, with the tables and triggers it creates
  (\<open>_assertion_schema_statements\<close> of \<^verbatim>\<open>src/db_bootstrap.py\<close>): claims about the conversation, each with the span of
  the stored message it quotes, published per message under a receipt.

  A transaction that raises leaves the tables as they were, so an error carries no tables.  The CHECK constraints
  repeat the validations of the code and are left out; keys, indexes and triggers are modelled.  SHA-256, the text
  Python prints for a float and the JSON parser are parameters (\<open>text_env\<close>).  Each reading of the clock is numbered.
  Texts have no NUL character, at which the \<open>length\<close> of SQLite would stop.
\<close>

section \<open>Results\<close>

datatype assertion_error =
    ValueError string
  | ReadOnlyStore
  | NoSuchMessage int
  | SourceStale string
  | PublicationConflict string
  | ConstraintFailed string
  | BadObjectJson
  | OtherError string

definition and_then :: "'e + 'a \<Rightarrow> ('a \<Rightarrow> 'e + 'b) \<Rightarrow> 'e + 'b" where
  "and_then m f = (case m of Inl e \<Rightarrow> Inl e | Inr x \<Rightarrow> f x)"

fun all_ok :: "('a \<Rightarrow> 'e + 'b) \<Rightarrow> 'a list \<Rightarrow> 'e + 'b list" where
  "all_ok f [] = Inr []"
| "all_ok f (x # xs) = and_then (f x) (\<lambda>y. and_then (all_ok f xs) (\<lambda>ys. Inr (y # ys)))"

definition require :: "bool \<Rightarrow> 'e \<Rightarrow> 'e + 'a \<Rightarrow> 'e + 'a" where
  "require ok e m = (if ok then m else Inl e)"

section \<open>Canonical JSON\<close>

datatype number = Fin rat | NotFinite

datatype json =
    JNull
  | JBool bool
  | JInt int
  | JFloat number
  | JStr string
  | JArr "json list"
  | JObj "(string \<times> json) list"

record text_env =
  sha256 :: "string \<Rightarrow> string"
  float_text :: "rat \<Rightarrow> string"
  json_loads :: "string \<Rightarrow> json option"

fun json_text :: "text_env \<Rightarrow> json \<Rightarrow> string" where
  "json_text env JNull = ''null''"
| "json_text env (JBool b) = (if b then ''true'' else ''false'')"
| "json_text env (JInt i) = int_str i"
| "json_text env (JFloat n) = (case n of Fin x \<Rightarrow> float_text env x | NotFinite \<Rightarrow> [])"
| "json_text env (JStr s) = json_string s"
| "json_text env (JArr xs) = ''['' @ join '','' (map (json_text env) xs) @ '']''"
| "json_text env (JObj kvs) = ''{'' @ join '',''
     (map (\<lambda>(k, v). json_string k @ '':'' @ v)
        (sort_key fst (map (\<lambda>kv. (fst kv, json_text env (snd kv))) kvs))) @ ''}''"

fun finite_json :: "json \<Rightarrow> bool" where
  "finite_json (JFloat n) = (n \<noteq> NotFinite)"
| "finite_json (JArr xs) = list_all finite_json xs"
| "finite_json (JObj kvs) = list_all (\<lambda>kv. finite_json (snd kv)) kvs"
| "finite_json _ = True"

definition canonical_json :: "text_env \<Rightarrow> json \<Rightarrow> assertion_error + string" where
  "canonical_json env v =
     require (finite_json v) (ValueError ''assertion object_value must be finite JSON'')
       (let encoded = json_text env v in
        require (length encoded \<le> 32768) (ValueError ''assertion object_value exceeds 32768 characters'') (Inr encoded))"

section \<open>Validation\<close>

definition is_sha256_hex :: "string \<Rightarrow> bool" where
  "is_sha256_hex v = (length v = 64 \<and> list_all (\<lambda>c. c \<in> set ''0123456789abcdef'') (lower v))"

definition validated_text :: "string \<Rightarrow> bool \<Rightarrow> string \<Rightarrow> assertion_error + string" where
  "validated_text fld allow_empty v =
     (let t = strip v in
      require (t \<noteq> [] \<or> allow_empty) (ValueError (fld @ '' must not be empty''))
        (require (length t \<le> 512) (ValueError (fld @ '' exceeds 512 characters'')) (Inr t)))"

definition validated_version :: "string \<Rightarrow> assertion_error + string" where
  "validated_version version =
     (let normalized = strip version in
      require (normalized \<noteq> []) (ValueError ''extraction_version must not be empty'')
        (require (length normalized \<le> 128) (ValueError ''extraction_version exceeds 128 characters'') (Inr normalized)))"

definition finite_number :: "string \<Rightarrow> number option \<Rightarrow> assertion_error + rat option" where
  "finite_number fld v = (case v of
     None \<Rightarrow> Inr None
   | Some (Fin x) \<Rightarrow> Inr (Some x)
   | Some NotFinite \<Rightarrow> Inl (ValueError (fld @ '' must be finite'')))"

definition bounded_probability :: "string \<Rightarrow> number option \<Rightarrow> assertion_error + rat option" where
  "bounded_probability fld v = and_then (finite_number fld v) (\<lambda>result.
     require (case result of None \<Rightarrow> True | Some x \<Rightarrow> 0 \<le> x \<and> x \<le> 1) (ValueError (fld @ '' must be between 0 and 1'')) (Inr result))"

definition ASSERTION_KINDS :: "string list" where
  "ASSERTION_KINDS = [''fact'', ''event'', ''preference'', ''recommendation'', ''commitment'', ''action'', ''status'', ''quotation'']"

definition ASSERTION_POLARITIES :: "string list" where
  "ASSERTION_POLARITIES = [''positive'', ''negative'', ''unknown'']"

definition ASSERTION_RELATION_TYPES :: "string list" where
  "ASSERTION_RELATION_TYPES = [''confirms'', ''supersedes'', ''contradicts'', ''narrows'', ''weakens'', ''reverses'', ''cancels'',
     ''fulfills'', ''quotes'']"

section \<open>Tables\<close>

record source_message =
  ms_store_id :: int
  ms_session :: string
  ms_source :: "string option"
  ms_role :: string
  ms_content :: "string option"
  ms_timestamp :: rat
  ms_observed_at :: "rat option"

record SourceSnapshot =
  sn_store_id :: int
  sn_session :: string
  sn_source :: string
  sn_role :: string
  sn_content :: string
  sn_timestamp :: rat
  sn_sha :: string

record receipt =
  rc_store_id :: int
  rc_version :: string
  rc_sha :: string
  rc_session :: string
  rc_role :: string
  rc_name :: string
  rc_timestamp :: rat
  rc_digest :: string
  rc_assertions :: nat
  rc_relations :: nat
  rc_processed_at :: rat
  rc_invalidated_at :: "rat option"
  rc_reason :: "string option"

record assertion_row =
  as_id :: string
  as_store_id :: int
  as_version :: string
  as_sha :: string
  as_subject :: string
  as_predicate :: string
  as_object_json :: string
  as_value_text :: string
  as_kind :: string
  as_polarity :: string
  as_strength :: "rat option"
  as_scope :: string
  as_speaker :: string
  as_observed_at :: rat
  as_event_at :: "rat option"
  as_valid_from :: "rat option"
  as_valid_to :: "rat option"
  as_start :: int
  as_end :: int
  as_quote :: string
  as_confidence :: rat
  as_created_at :: rat

record relation_row =
  rel_id :: string
  rel_store_id :: int
  rel_version :: string
  rel_sha :: string
  rel_from :: string
  rel_type :: string
  rel_to :: string
  rel_start :: int
  rel_end :: int
  rel_quote :: string
  rel_confidence :: rat
  rel_created_at :: rat

record assertion_db =
  ad_messages :: "source_message list"
  ad_receipts :: "receipt list"
  ad_assertions :: "assertion_row list"
  ad_relations :: "relation_row list"

type_synonym source_key = "int \<times> string \<times> string"

definition rc_key :: "receipt \<Rightarrow> source_key" where
  "rc_key r = (rc_store_id r, rc_version r, rc_sha r)"

definition as_key :: "assertion_row \<Rightarrow> source_key" where
  "as_key a = (as_store_id a, as_version a, as_sha a)"

definition rel_key :: "relation_row \<Rightarrow> source_key" where
  "rel_key r = (rel_store_id r, rel_version r, rel_sha r)"

definition null_text :: "string option \<Rightarrow> string" where
  "null_text v = (case v of None \<Rightarrow> [] | Some s \<Rightarrow> s)"

definition source_time :: "source_message \<Rightarrow> rat" where
  "source_time m = (case ms_observed_at m of None \<Rightarrow> ms_timestamp m | Some t \<Rightarrow> t)"

definition source_row :: "int \<Rightarrow> assertion_db \<Rightarrow> source_message option" where
  "source_row i db = sel_first (\<lambda>m. ms_store_id m = i) (ad_messages db)"

definition snapshot_from_row :: "text_env \<Rightarrow> source_message \<Rightarrow> SourceSnapshot" where
  "snapshot_from_row env m = \<lparr>sn_store_id = ms_store_id m, sn_session = ms_session m, sn_source = null_text (ms_source m),
     sn_role = ms_role m, sn_content = null_text (ms_content m), sn_timestamp = source_time m,
     sn_sha = sha256 env (null_text (ms_content m))\<rparr>"

definition snapshot_source :: "text_env \<Rightarrow> int \<Rightarrow> assertion_db \<Rightarrow> assertion_error + SourceSnapshot" where
  "snapshot_source env i db = (case source_row i db of None \<Rightarrow> Inl (NoSuchMessage i) | Some m \<Rightarrow> Inr (snapshot_from_row env m))"

definition slice :: "int \<Rightarrow> int \<Rightarrow> string \<Rightarrow> string" where
  "slice a b s = take (nat b - nat a) (drop (nat a) s)"

section \<open>Candidates\<close>

record AssertionCandidate =
  ca_start :: int
  ca_end :: int
  ca_subject :: string
  ca_predicate :: string
  ca_object :: json
  ca_value_text :: string
  ca_kind :: string
  ca_polarity :: string
  ca_strength :: "number option"
  ca_scope :: string
  ca_event_at :: "number option"
  ca_valid_from :: "number option"
  ca_valid_to :: "number option"
  ca_confidence :: "number option"

record AssertionRelationCandidate =
  rca_start :: int
  rca_end :: int
  rca_from :: string
  rca_type :: string
  rca_to :: string
  rca_confidence :: "number option"

definition opt_float :: "rat option \<Rightarrow> json" where
  "opt_float v = (case v of None \<Rightarrow> JNull | Some x \<Rightarrow> JFloat (Fin x))"

definition assertion_payload :: "assertion_row \<Rightarrow> (string \<times> json) list" where
  "assertion_payload a =
     [(''source_store_id'', JInt (as_store_id a)), (''extraction_version'', JStr (as_version a)),
      (''source_content_sha256'', JStr (as_sha a)), (''subject_key'', JStr (as_subject a)), (''predicate_key'', JStr (as_predicate a)),
      (''object_json'', JStr (as_object_json a)), (''value_text'', JStr (as_value_text a)), (''kind'', JStr (as_kind a)),
      (''polarity'', JStr (as_polarity a)), (''strength'', opt_float (as_strength a)), (''scope_key'', JStr (as_scope a)),
      (''speaker_role'', JStr (as_speaker a)), (''observed_at'', JFloat (Fin (as_observed_at a))),
      (''event_at'', opt_float (as_event_at a)), (''valid_from'', opt_float (as_valid_from a)), (''valid_to'', opt_float (as_valid_to a)),
      (''source_span_start'', JInt (as_start a)), (''source_span_end'', JInt (as_end a)), (''source_quote'', JStr (as_quote a)),
      (''confidence'', JFloat (Fin (as_confidence a)))]"

definition relation_payload :: "relation_row \<Rightarrow> (string \<times> json) list" where
  "relation_payload r =
     [(''source_store_id'', JInt (rel_store_id r)), (''extraction_version'', JStr (rel_version r)),
      (''source_content_sha256'', JStr (rel_sha r)), (''from_assertion_id'', JStr (rel_from r)), (''relation_type'', JStr (rel_type r)),
      (''to_assertion_id'', JStr (rel_to r)), (''source_span_start'', JInt (rel_start r)), (''source_span_end'', JInt (rel_end r)),
      (''source_quote'', JStr (rel_quote r)), (''confidence'', JFloat (Fin (rel_confidence r)))]"

text \<open>A prepared row has no creation time yet; it is stamped when it is inserted.\<close>

definition valid_span :: "int \<Rightarrow> int \<Rightarrow> string \<Rightarrow> bool" where
  "valid_span a b content = (\<not> (a < 0 \<or> b \<le> a \<or> b > int (length content)))"

definition null_confidence :: "rat option \<Rightarrow> assertion_error + rat" where
  "null_confidence v = (case v of None \<Rightarrow> Inl (ValueError ''confidence must not be null'') | Some x \<Rightarrow> Inr x)"

definition proper_interval :: "rat option \<Rightarrow> rat option \<Rightarrow> bool" where
  "proper_interval valid_from valid_to = (case (valid_from, valid_to) of (Some f, Some t) \<Rightarrow> \<not> t \<le> f | _ \<Rightarrow> True)"

definition with_assertion_id :: "text_env \<Rightarrow> assertion_row \<Rightarrow> assertion_error + assertion_row" where
  "with_assertion_id env a = and_then (canonical_json env (JObj (assertion_payload a))) (\<lambda>t. Inr (a\<lparr>as_id := sha256 env t\<rparr>))"

definition prepare_assertion :: "text_env \<Rightarrow> SourceSnapshot \<Rightarrow> string \<Rightarrow> AssertionCandidate \<Rightarrow> assertion_error + assertion_row" where
  "prepare_assertion env snap version c =
     require (valid_span (ca_start c) (ca_end c) (sn_content snap)) (ValueError ''invalid source span'')
     (and_then (validated_text ''subject_key'' False (ca_subject c)) (\<lambda>subject.
      and_then (validated_text ''predicate_key'' False (ca_predicate c)) (\<lambda>predicate.
      require (lower (strip (ca_kind c)) \<in> set ASSERTION_KINDS) (ValueError ''unsupported assertion kind'')
      (require (lower (strip (ca_polarity c)) \<in> set ASSERTION_POLARITIES) (ValueError ''unsupported assertion polarity'')
      (require (length (ca_value_text c) \<le> 16384) (ValueError ''value_text exceeds 16384 characters'')
      (and_then (validated_text ''scope_key'' True (ca_scope c)) (\<lambda>scope.
       and_then (bounded_probability ''strength'' (ca_strength c)) (\<lambda>strength.
       and_then (bounded_probability ''confidence'' (ca_confidence c)) (\<lambda>conf.
       and_then (null_confidence conf) (\<lambda>confidence.
       and_then (finite_number ''event_at'' (ca_event_at c)) (\<lambda>event_at.
       and_then (finite_number ''valid_from'' (ca_valid_from c)) (\<lambda>valid_from.
       and_then (finite_number ''valid_to'' (ca_valid_to c)) (\<lambda>valid_to.
       require (proper_interval valid_from valid_to) (ValueError ''valid_to must be greater than valid_from'')
       (and_then (canonical_json env (ca_object c)) (\<lambda>object_json.
        with_assertion_id env \<lparr>as_id = [], as_store_id = sn_store_id snap, as_version = version, as_sha = sn_sha snap,
          as_subject = subject, as_predicate = predicate, as_object_json = object_json, as_value_text = ca_value_text c,
          as_kind = lower (strip (ca_kind c)), as_polarity = lower (strip (ca_polarity c)), as_strength = strength, as_scope = scope,
          as_speaker = sn_role snap, as_observed_at = sn_timestamp snap, as_event_at = event_at, as_valid_from = valid_from,
          as_valid_to = valid_to, as_start = ca_start c, as_end = ca_end c, as_quote = slice (ca_start c) (ca_end c) (sn_content snap),
          as_confidence = confidence, as_created_at = 0\<rparr>)))))))))))))))"

definition assertion_id_for :: "text_env \<Rightarrow> SourceSnapshot \<Rightarrow> AssertionCandidate \<Rightarrow> string \<Rightarrow> assertion_error + string" where
  "assertion_id_for env snap c extraction_version = and_then (validated_version extraction_version) (\<lambda>version.
     and_then (prepare_assertion env snap version c) (\<lambda>a. Inr (as_id a)))"

definition with_relation_id :: "text_env \<Rightarrow> relation_row \<Rightarrow> assertion_error + relation_row" where
  "with_relation_id env r = and_then (canonical_json env (JObj (relation_payload r))) (\<lambda>t. Inr (r\<lparr>rel_id := sha256 env t\<rparr>))"

definition prepare_relation :: "text_env \<Rightarrow> SourceSnapshot \<Rightarrow> string \<Rightarrow> AssertionRelationCandidate \<Rightarrow> assertion_error + relation_row" where
  "prepare_relation env snap version c =
     (let relation_type = lower (strip (rca_type c)); from_id = lower (strip (rca_from c)); to_id = lower (strip (rca_to c)) in
      require (valid_span (rca_start c) (rca_end c) (sn_content snap)) (ValueError ''invalid relation source span'')
      (require (relation_type \<in> set ASSERTION_RELATION_TYPES) (ValueError ''unsupported assertion relation'')
      (require (is_sha256_hex from_id \<and> is_sha256_hex to_id) (ValueError ''relation assertion IDs must be 64-character SHA-256 hex'')
      (require (from_id \<noteq> to_id) (ValueError ''an assertion relation cannot point to itself'')
      (and_then (bounded_probability ''confidence'' (rca_confidence c)) (\<lambda>conf.
       and_then (null_confidence conf) (\<lambda>confidence.
        with_relation_id env \<lparr>rel_id = [], rel_store_id = sn_store_id snap, rel_version = version, rel_sha = sn_sha snap,
          rel_from = from_id, rel_type = relation_type, rel_to = to_id, rel_start = rca_start c, rel_end = rca_end c,
          rel_quote = slice (rca_start c) (rca_end c) (sn_content snap), rel_confidence = confidence, rel_created_at = 0\<rparr>)))))))"

section \<open>Inserts and their guards\<close>

definition receipt_active :: "assertion_db \<Rightarrow> source_key \<Rightarrow> bool" where
  "receipt_active db k = list_ex (\<lambda>r. rc_key r = k \<and> rc_invalidated_at r = None) (ad_receipts db)"

definition source_insert_guard :: "assertion_db \<Rightarrow> receipt \<Rightarrow> bool" where
  "source_insert_guard db r = list_ex (\<lambda>m. ms_store_id m = rc_store_id r \<and> ms_session m = rc_session r \<and> ms_role m = rc_role r
     \<and> ms_source m = Some (rc_name r) \<and> source_time m = rc_timestamp r) (ad_messages db)"

definition quote_guard :: "assertion_db \<Rightarrow> source_key \<Rightarrow> int \<Rightarrow> int \<Rightarrow> string \<Rightarrow> bool" where
  "quote_guard db k a b q = (receipt_active db k \<and> list_ex (\<lambda>m. ms_store_id m = fst k
     \<and> b \<le> int (length (null_text (ms_content m))) \<and> slice a b (null_text (ms_content m)) = q) (ad_messages db))"

definition active_endpoint :: "assertion_db \<Rightarrow> string \<Rightarrow> bool" where
  "active_endpoint db e = list_ex (\<lambda>a. as_id a = e \<and> receipt_active db (as_key a)) (ad_assertions db)"

definition insert_receipt :: "receipt \<Rightarrow> assertion_db \<Rightarrow> assertion_error + assertion_db" where
  "insert_receipt r db =
     require (source_insert_guard db r) (ConstraintFailed ''assertion source row is missing or metadata changed'')
     (require (rc_key r \<notin> rc_key ` set (ad_receipts db)) (ConstraintFailed ''lcm_assertion_sources primary key'')
     (require (\<not> list_ex (\<lambda>o1. rc_store_id o1 = rc_store_id r \<and> rc_version o1 = rc_version r \<and> rc_invalidated_at o1 = None) (ad_receipts db))
        (ConstraintFailed ''idx_lcm_assertion_sources_current'')
     (Inr (db\<lparr>ad_receipts := ad_receipts db @ [r]\<rparr>))))"

definition insert_assertion :: "assertion_row \<Rightarrow> assertion_db \<Rightarrow> assertion_error + assertion_db" where
  "insert_assertion a db =
     require (quote_guard db (as_key a) (as_start a) (as_end a) (as_quote a)) (ConstraintFailed ''assertion source provenance mismatch'')
     (require (as_id a \<notin> as_id ` set (ad_assertions db)) (ConstraintFailed ''lcm_assertions primary key'')
     (Inr (db\<lparr>ad_assertions := ad_assertions db @ [a]\<rparr>)))"

definition insert_relation :: "relation_row \<Rightarrow> assertion_db \<Rightarrow> assertion_error + assertion_db" where
  "insert_relation r db =
     require (active_endpoint db (rel_from r) \<and> active_endpoint db (rel_to r)) (ValueError ''relation endpoint is missing or invalidated'')
     (require (quote_guard db (rel_key r) (rel_start r) (rel_end r) (rel_quote r)) (ConstraintFailed ''assertion relation provenance mismatch'')
     (require (rel_id r \<notin> rel_id ` set (ad_relations db)) (ConstraintFailed ''lcm_assertion_relations primary key'')
     (Inr (db\<lparr>ad_relations := ad_relations db @ [r]\<rparr>))))"

fun insert_assertions :: "(nat \<Rightarrow> rat) \<Rightarrow> nat \<Rightarrow> assertion_row list \<Rightarrow> assertion_db \<Rightarrow> assertion_error + assertion_db" where
  "insert_assertions clock k [] db = Inr db"
| "insert_assertions clock k (a # as) db = and_then (insert_assertion (a\<lparr>as_created_at := clock k\<rparr>) db) (insert_assertions clock (Suc k) as)"

fun insert_relations :: "(nat \<Rightarrow> rat) \<Rightarrow> nat \<Rightarrow> relation_row list \<Rightarrow> assertion_db \<Rightarrow> assertion_error + assertion_db" where
  "insert_relations clock k [] db = Inr db"
| "insert_relations clock k (r # rs) db = and_then (insert_relation (r\<lparr>rel_created_at := clock k\<rparr>) db) (insert_relations clock (Suc k) rs)"

section \<open>Publishing\<close>

record PublishResult =
  pr_store_id :: int
  pr_version :: string
  pr_sha :: string
  pr_digest :: string
  pr_assertion_ids :: "string list"
  pr_relation_ids :: "string list"
  pr_already_current :: bool

record batch =
  bt_version :: string
  bt_assertions :: "assertion_row list"
  bt_relations :: "relation_row list"
  bt_digest :: string

definition batch_json :: "assertion_row list \<Rightarrow> relation_row list \<Rightarrow> json" where
  "batch_json as rs = JObj [
     (''assertions'', JArr (map (\<lambda>a. JObj (assertion_payload a @ [(''assertion_id'', JStr (as_id a))])) as)),
     (''relations'', JArr (map (\<lambda>r. JObj (relation_payload r @ [(''relation_id'', JStr (rel_id r))])) rs))]"

definition prepare_batch :: "text_env \<Rightarrow> SourceSnapshot \<Rightarrow> AssertionCandidate list \<Rightarrow> AssertionRelationCandidate list \<Rightarrow> string
    \<Rightarrow> assertion_error + batch" where
  "prepare_batch env snap candidates relations extraction_version =
     and_then (validated_version extraction_version) (\<lambda>version.
     require (length candidates \<le> 500) (ValueError ''at most 500 assertions may be published per source'')
     (require (length relations \<le> 500) (ValueError ''at most 500 relations may be published per source'')
     (and_then (all_ok (prepare_assertion env snap version) candidates) (\<lambda>as0.
      and_then (all_ok (prepare_relation env snap version) relations) (\<lambda>rs0.
      let as = sort_key as_id as0; rs = sort_key rel_id rs0 in
      require (distinct (map as_id as)) (ValueError ''duplicate assertion candidates are not allowed'')
      (require (distinct (map rel_id rs)) (ValueError ''duplicate assertion relations are not allowed'')
      (and_then (canonical_json env (batch_json as rs)) (\<lambda>t.
       Inr \<lparr>bt_version = version, bt_assertions = as, bt_relations = rs, bt_digest = sha256 env t\<rparr>))))))))"

definition publish_result :: "SourceSnapshot \<Rightarrow> batch \<Rightarrow> bool \<Rightarrow> PublishResult" where
  "publish_result snap b current = \<lparr>pr_store_id = sn_store_id snap, pr_version = bt_version b, pr_sha = sn_sha snap, pr_digest = bt_digest b,
     pr_assertion_ids = map as_id (bt_assertions b), pr_relation_ids = map rel_id (bt_relations b), pr_already_current = current\<rparr>"

definition batch_key :: "SourceSnapshot \<Rightarrow> batch \<Rightarrow> source_key" where
  "batch_key snap b = (sn_store_id snap, bt_version b, sn_sha snap)"

definition same_output :: "batch \<Rightarrow> receipt \<Rightarrow> bool" where
  "same_output b r = (rc_digest r = bt_digest b \<and> rc_assertions r = length (bt_assertions b) \<and> rc_relations r = length (bt_relations b))"

definition current_receipt :: "SourceSnapshot \<Rightarrow> batch \<Rightarrow> assertion_db \<Rightarrow> receipt option" where
  "current_receipt snap b db = sel_first (\<lambda>r. rc_store_id r = sn_store_id snap \<and> rc_version r = bt_version b \<and> rc_invalidated_at r = None)
     (ad_receipts db)"

definition historical_receipt :: "SourceSnapshot \<Rightarrow> batch \<Rightarrow> assertion_db \<Rightarrow> receipt option" where
  "historical_receipt snap b db = sel_first (\<lambda>r. rc_key r = batch_key snap b \<and> rc_invalidated_at r \<noteq> None) (ad_receipts db)"

definition new_receipt :: "(nat \<Rightarrow> rat) \<Rightarrow> SourceSnapshot \<Rightarrow> batch \<Rightarrow> receipt" where
  "new_receipt clock snap b = \<lparr>rc_store_id = sn_store_id snap, rc_version = bt_version b, rc_sha = sn_sha snap, rc_session = sn_session snap,
     rc_role = sn_role snap, rc_name = sn_source snap, rc_timestamp = sn_timestamp snap, rc_digest = bt_digest b,
     rc_assertions = length (bt_assertions b), rc_relations = length (bt_relations b), rc_processed_at = clock 0,
     rc_invalidated_at = None, rc_reason = None\<rparr>"

definition revive_row :: "(nat \<Rightarrow> rat) \<Rightarrow> SourceSnapshot \<Rightarrow> receipt \<Rightarrow> receipt" where
  "revive_row clock snap r = r\<lparr>rc_session := sn_session snap, rc_role := sn_role snap, rc_name := sn_source snap,
     rc_timestamp := sn_timestamp snap, rc_processed_at := clock 0, rc_invalidated_at := None, rc_reason := None\<rparr>"

definition revive_receipt :: "(nat \<Rightarrow> rat) \<Rightarrow> SourceSnapshot \<Rightarrow> batch \<Rightarrow> assertion_db \<Rightarrow> assertion_db" where
  "revive_receipt clock snap b db = db\<lparr>ad_receipts := upd_where (\<lambda>r. rc_key r = batch_key snap b) (revive_row clock snap) (ad_receipts db)\<rparr>"

definition insert_batch :: "(nat \<Rightarrow> rat) \<Rightarrow> SourceSnapshot \<Rightarrow> batch \<Rightarrow> assertion_db \<Rightarrow> assertion_error + assertion_db" where
  "insert_batch clock snap b db =
     and_then (insert_receipt (new_receipt clock snap b) db) (\<lambda>db1.
     and_then (insert_assertions clock 1 (bt_assertions b) db1) (\<lambda>db2.
     insert_relations clock (1 + length (bt_assertions b)) (bt_relations b) db2))"

definition store_batch :: "text_env \<Rightarrow> (nat \<Rightarrow> rat) \<Rightarrow> SourceSnapshot \<Rightarrow> batch \<Rightarrow> assertion_db \<Rightarrow> assertion_error + (PublishResult \<times> assertion_db)" where
  "store_batch env clock snap b db =
     (case source_row (sn_store_id snap) db of
        None \<Rightarrow> Inl (SourceStale ''source was deleted before publication'')
      | Some m \<Rightarrow>
          require (snapshot_from_row env m = snap) (SourceStale ''source changed before publication'')
          (case current_receipt snap b db of
             Some r \<Rightarrow>
               require (rc_sha r = sn_sha snap \<and> same_output b r) (PublicationConflict ''different assertion output already exists'')
                 (Inr (publish_result snap b True, db))
           | None \<Rightarrow>
               (case historical_receipt snap b db of
                  Some r \<Rightarrow>
                    require (same_output b r) (PublicationConflict ''historical output differs'')
                      (Inr (publish_result snap b True, revive_receipt clock snap b db))
                | None \<Rightarrow> and_then (insert_batch clock snap b db) (\<lambda>db'. Inr (publish_result snap b False, db')))))"

definition publish_source :: "text_env \<Rightarrow> bool \<Rightarrow> (nat \<Rightarrow> rat) \<Rightarrow> SourceSnapshot \<Rightarrow> AssertionCandidate list \<Rightarrow> AssertionRelationCandidate list
    \<Rightarrow> string \<Rightarrow> assertion_db \<Rightarrow> assertion_error + (PublishResult \<times> assertion_db)" where
  "publish_source env read_only clock snap candidates relations extraction_version db =
     require (\<not> read_only) ReadOnlyStore
     (and_then (prepare_batch env snap candidates relations extraction_version) (\<lambda>b. store_batch env clock snap b db))"

definition assertions_written :: "PublishResult \<Rightarrow> nat" where
  "assertions_written r = (if pr_already_current r then 0 else length (pr_assertion_ids r))"

definition relations_written :: "PublishResult \<Rightarrow> nat" where
  "relations_written r = (if pr_already_current r then 0 else length (pr_relation_ids r))"

section \<open>Invalidation and removal\<close>

definition invalidate_rows :: "rat \<Rightarrow> string \<Rightarrow> int \<Rightarrow> receipt list \<Rightarrow> receipt list" where
  "invalidate_rows moment reason i rs = upd_where (\<lambda>r. rc_store_id r = i \<and> rc_invalidated_at r = None)
     (\<lambda>r. r\<lparr>rc_invalidated_at := Some moment, rc_reason := Some reason\<rparr>) rs"

definition invalidate_source :: "bool \<Rightarrow> rat \<Rightarrow> int \<Rightarrow> string \<Rightarrow> number option \<Rightarrow> assertion_db \<Rightarrow> assertion_error + (nat \<times> assertion_db)" where
  "invalidate_source read_only now i reason invalidated_at db =
     require (\<not> read_only) ReadOnlyStore
     (and_then (validated_text ''invalidation reason'' False reason) (\<lambda>normalized_reason.
      and_then (finite_number ''invalidated_at'' invalidated_at) (\<lambda>ts.
       Inr (rowcount (\<lambda>r. rc_store_id r = i \<and> rc_invalidated_at r = None) (ad_receipts db),
            db\<lparr>ad_receipts := invalidate_rows (case ts of None \<Rightarrow> now | Some t \<Rightarrow> t) normalized_reason i (ad_receipts db)\<rparr>))))"

text \<open>The triggers on messages, with the statement they follow.\<close>

definition update_content :: "rat \<Rightarrow> int \<Rightarrow> string option \<Rightarrow> assertion_db \<Rightarrow> assertion_db" where
  "update_content now i content db =
     db\<lparr>ad_messages := upd_where (\<lambda>m. ms_store_id m = i) (\<lambda>m. m\<lparr>ms_content := content\<rparr>) (ad_messages db),
        ad_receipts := (if list_ex (\<lambda>m. ms_store_id m = i \<and> ms_content m \<noteq> content) (ad_messages db)
          then invalidate_rows now ''source_updated'' i (ad_receipts db) else ad_receipts db)\<rparr>"

definition delete_message :: "rat \<Rightarrow> int \<Rightarrow> assertion_db \<Rightarrow> assertion_db" where
  "delete_message now i db =
     db\<lparr>ad_messages := del_where (\<lambda>m. ms_store_id m = i) (ad_messages db),
        ad_receipts := (if list_ex (\<lambda>m. ms_store_id m = i) (ad_messages db)
          then invalidate_rows now ''source_deleted'' i (ad_receipts db) else ad_receipts db)\<rparr>"

definition receipt_deleted :: "assertion_db \<Rightarrow> receipt \<Rightarrow> assertion_db" where
  "receipt_deleted db r =
     (let owned = map as_id (filter (\<lambda>a. as_key a = rc_key r) (ad_assertions db)) in
      db\<lparr>ad_receipts := del_where (\<lambda>o1. rc_key o1 = rc_key r) (ad_receipts db),
         ad_relations := del_where (\<lambda>x. rel_key x = rc_key r \<or> rel_from x \<in> set owned \<or> rel_to x \<in> set owned) (ad_relations db),
         ad_assertions := del_where (\<lambda>a. as_key a = rc_key r) (ad_assertions db)\<rparr>)"

record removed_counts =
  rm_sources :: nat
  rm_assertions :: nat
  rm_relations :: nat

definition remove_version :: "bool \<Rightarrow> string \<Rightarrow> assertion_db \<Rightarrow> assertion_error + (removed_counts \<times> assertion_db)" where
  "remove_version read_only extraction_version db =
     require (\<not> read_only) ReadOnlyStore
     (and_then (validated_version extraction_version) (\<lambda>version.
       Inr (\<lparr>rm_sources = rowcount (\<lambda>r. rc_version r = version) (ad_receipts db),
              rm_assertions = rowcount (\<lambda>a. as_version a = version) (ad_assertions db),
              rm_relations = rowcount (\<lambda>r. rel_version r = version) (ad_relations db)\<rparr>,
            foldl receipt_deleted db (filter (\<lambda>r. rc_version r = version) (ad_receipts db)))))"

section \<open>Reading\<close>

definition has_current_receipt :: "SourceSnapshot \<Rightarrow> string \<Rightarrow> assertion_db \<Rightarrow> assertion_error + bool" where
  "has_current_receipt snap extraction_version db =
     and_then (validated_version extraction_version) (\<lambda>version. Inr (receipt_active db (sn_store_id snap, version, sn_sha snap)))"

record RebuildPlan =
  rp_version :: string
  rp_pending :: nat
  rp_selected :: "SourceSnapshot list"
  rp_limit :: int

definition pending :: "string \<Rightarrow> assertion_db \<Rightarrow> source_message list" where
  "pending version db = filter (\<lambda>m. \<not> list_ex (\<lambda>r. rc_store_id r = ms_store_id m \<and> rc_version r = version \<and> rc_invalidated_at r = None)
     (ad_receipts db)) (ad_messages db)"

definition plan_rebuild :: "text_env \<Rightarrow> string \<Rightarrow> int \<Rightarrow> assertion_db \<Rightarrow> assertion_error + RebuildPlan" where
  "plan_rebuild env extraction_version max_sources db =
     and_then (validated_version extraction_version) (\<lambda>version.
     require (1 \<le> max_sources \<and> max_sources \<le> 500) (ValueError ''limit must be between 1 and 500'')
     (Inr \<lparr>rp_version = version, rp_pending = length (pending version db),
           rp_selected = map (snapshot_from_row env) (take (nat max_sources) (sort_key ms_store_id (pending version db))), rp_limit = max_sources\<rparr>))"

definition remaining_count :: "RebuildPlan \<Rightarrow> nat" where
  "remaining_count p = rp_pending p - length (rp_selected p)"

definition validate_source_provenance :: "text_env \<Rightarrow> string option \<Rightarrow> string \<Rightarrow> int \<Rightarrow> int \<Rightarrow> string \<Rightarrow> assertion_error + unit" where
  "validate_source_provenance env content expected a b quote =
     require (sha256 env (null_text content) = expected) (SourceStale ''hash changed'')
     (require (slice a b (null_text content) = quote) (SourceStale ''span changed'') (Inr ()))"

record assertion_query =
  aq_version :: string
  aq_subject :: "string option"
  aq_predicate :: "string option"
  aq_kinds :: "string list option"
  aq_scope :: "string option"
  aq_speaker :: "string option"
  aq_store_id :: "int option"
  aq_assertion_id :: "string option"
  aq_as_of :: "number option"
  aq_invalidated :: bool
  aq_limit :: int

record assertion_item =
  ai_row :: assertion_row
  ai_receipt :: receipt
  ai_session :: "string option"
  ai_object :: json

definition opt_eq :: "'a option \<Rightarrow> 'a \<Rightarrow> bool" where
  "opt_eq want v = (case want of None \<Rightarrow> True | Some x \<Rightarrow> v = x)"

text \<open>The time filter on an assertion at a boundary.\<close>

definition valid_at :: "rat option \<Rightarrow> assertion_row \<Rightarrow> bool" where
  "valid_at boundary a = (case boundary of None \<Rightarrow> True | Some t \<Rightarrow> as_observed_at a \<le> t
     \<and> (case as_valid_from a of None \<Rightarrow> True | Some f \<Rightarrow> f \<le> t) \<and> (case as_valid_to a of None \<Rightarrow> True | Some u \<Rightarrow> t < u))"

definition assertion_matches :: "assertion_query \<Rightarrow> string \<Rightarrow> string option \<Rightarrow> string list option \<Rightarrow> rat option \<Rightarrow> assertion_row \<Rightarrow> bool" where
  "assertion_matches q version aid kinds boundary a = (as_version a = version \<and> opt_eq (aq_subject q) (as_subject a)
     \<and> opt_eq (aq_predicate q) (as_predicate a) \<and> opt_eq (aq_scope q) (as_scope a) \<and> opt_eq (aq_speaker q) (as_speaker a)
     \<and> opt_eq (aq_store_id q) (as_store_id a) \<and> opt_eq aid (as_id a)
     \<and> (case kinds of None \<Rightarrow> True | Some ks \<Rightarrow> as_kind a \<in> set ks) \<and> valid_at boundary a)"

text \<open>The joins: an assertion with its receipt and the message it quotes, if it still exists.\<close>

type_synonym joined = "assertion_row \<times> receipt \<times> source_message option"

definition join_assertions :: "assertion_db \<Rightarrow> joined list" where
  "join_assertions db = concat (map (\<lambda>a. map (\<lambda>r. (a, r, source_row (as_store_id a) db)) (filter (\<lambda>r. rc_key r = as_key a) (ad_receipts db)))
     (ad_assertions db))"

definition live_join :: "joined \<Rightarrow> bool" where
  "live_join j = (rc_invalidated_at (fst (snd j)) = None \<and> snd (snd j) \<noteq> None)"

definition content_of :: "source_message option \<Rightarrow> string option" where
  "content_of m = (case m of None \<Rightarrow> None | Some m \<Rightarrow> ms_content m)"

definition assertion_order :: "joined \<Rightarrow> rat \<times> string" where
  "assertion_order j = (- as_observed_at (fst j), as_id (fst j))"

definition read_assertion :: "text_env \<Rightarrow> joined \<Rightarrow> assertion_error + assertion_item" where
  "read_assertion env j = (case j of (a, r, m) \<Rightarrow>
     and_then (if rc_invalidated_at r = None then validate_source_provenance env (content_of m) (as_sha a) (as_start a) (as_end a) (as_quote a) else Inr ())
       (\<lambda>_. case json_loads env (as_object_json a) of None \<Rightarrow> Inl BadObjectJson
          | Some v \<Rightarrow> Inr \<lparr>ai_row = a, ai_receipt = r, ai_session = map_option ms_session m, ai_object = v\<rparr>))"

definition normal_id :: "string \<Rightarrow> string" where
  "normal_id v = lower (strip v)"

definition query_assertion_id :: "string option \<Rightarrow> assertion_error + string option" where
  "query_assertion_id aid = (case aid of None \<Rightarrow> Inr None
     | Some v \<Rightarrow> require (is_sha256_hex (normal_id v)) (ValueError ''assertion_id must be a 64-character SHA-256 hex value'') (Inr (Some (normal_id v))))"

definition query_names :: "string list \<Rightarrow> string \<Rightarrow> string list option \<Rightarrow> assertion_error + string list option" where
  "query_names known complaint names = (case names of None \<Rightarrow> Inr None
     | Some ks \<Rightarrow> require (ks \<noteq> [] \<and> list_all (\<lambda>k. normal_id k \<in> set known) ks) (ValueError complaint) (Inr (Some (map normal_id ks))))"

definition selected_assertions :: "assertion_query \<Rightarrow> string \<Rightarrow> string option \<Rightarrow> string list option \<Rightarrow> rat option \<Rightarrow> assertion_db \<Rightarrow> joined list" where
  "selected_assertions q version aid kinds boundary db = take (nat (aq_limit q)) (sort_key assertion_order
     (filter (\<lambda>j. assertion_matches q version aid kinds boundary (fst j) \<and> (aq_invalidated q \<or> live_join j)) (join_assertions db)))"

definition query_assertions :: "text_env \<Rightarrow> assertion_query \<Rightarrow> assertion_db \<Rightarrow> assertion_error + assertion_item list" where
  "query_assertions env q db =
     and_then (validated_version (aq_version q)) (\<lambda>version.
     require (1 \<le> aq_limit q \<and> aq_limit q \<le> 500) (ValueError ''limit must be between 1 and 500'')
     (and_then (query_assertion_id (aq_assertion_id q)) (\<lambda>aid.
      and_then (query_names ASSERTION_KINDS ''kinds must contain supported assertion kinds'' (aq_kinds q)) (\<lambda>kinds.
      and_then (finite_number ''as_of'' (aq_as_of q)) (\<lambda>boundary.
       all_ok (read_assertion env) (selected_assertions q version aid kinds boundary db))))))"

record relation_query =
  rq_version :: string
  rq_assertion_id :: "string option"
  rq_assertion_ids :: "string list option"
  rq_types :: "string list option"
  rq_as_of :: "number option"
  rq_invalidated :: bool
  rq_limit :: int

record joined_relation =
  jr_row :: relation_row
  jr_receipt :: receipt
  jr_message :: "source_message option"
  jr_from :: joined
  jr_to :: joined

definition join_relations :: "assertion_db \<Rightarrow> joined_relation list" where
  "join_relations db = concat (map (\<lambda>x. concat (map (\<lambda>r. concat (map (\<lambda>f. map
       (\<lambda>t. \<lparr>jr_row = x, jr_receipt = r, jr_message = source_row (rel_store_id x) db, jr_from = f, jr_to = t\<rparr>)
       (filter (\<lambda>t. as_id (fst t) = rel_to x) (join_assertions db)))
     (filter (\<lambda>f. as_id (fst f) = rel_from x) (join_assertions db))))
     (filter (\<lambda>r. rc_key r = rel_key x) (ad_receipts db)))) (ad_relations db))"

definition live_relation :: "joined_relation \<Rightarrow> bool" where
  "live_relation j = (rc_invalidated_at (jr_receipt j) = None \<and> jr_message j \<noteq> None \<and> live_join (jr_from j) \<and> live_join (jr_to j))"

definition relation_order :: "joined_relation \<Rightarrow> rat \<times> string" where
  "relation_order j = (rel_created_at (jr_row j), rel_id (jr_row j))"

definition relation_matches :: "string \<Rightarrow> string list option \<Rightarrow> string list option \<Rightarrow> rat option \<Rightarrow> joined_relation \<Rightarrow> bool" where
  "relation_matches version ids types boundary j = (rel_version (jr_row j) = version
     \<and> (case ids of None \<Rightarrow> True | Some ks \<Rightarrow> rel_from (jr_row j) \<in> set ks \<or> rel_to (jr_row j) \<in> set ks)
     \<and> (case types of None \<Rightarrow> True | Some ts \<Rightarrow> rel_type (jr_row j) \<in> set ts)
     \<and> (case boundary of None \<Rightarrow> True | Some t \<Rightarrow> rc_timestamp (jr_receipt j) \<le> t)
     \<and> valid_at boundary (fst (jr_from j)) \<and> valid_at boundary (fst (jr_to j)))"

definition check_endpoint :: "text_env \<Rightarrow> joined \<Rightarrow> assertion_error + unit" where
  "check_endpoint env j = validate_source_provenance env (content_of (snd (snd j))) (as_sha (fst j)) (as_start (fst j)) (as_end (fst j)) (as_quote (fst j))"

definition read_relation_row :: "text_env \<Rightarrow> bool \<Rightarrow> joined_relation \<Rightarrow> assertion_error + relation_row" where
  "read_relation_row env include_invalidated j =
     (if include_invalidated then Inr (jr_row j)
      else and_then (validate_source_provenance env (content_of (jr_message j)) (rel_sha (jr_row j)) (rel_start (jr_row j)) (rel_end (jr_row j)) (rel_quote (jr_row j)))
        (\<lambda>_. and_then (check_endpoint env (jr_from j)) (\<lambda>_. and_then (check_endpoint env (jr_to j)) (\<lambda>_. Inr (jr_row j)))))"

definition query_ids :: "string option \<Rightarrow> string list option \<Rightarrow> assertion_error + string list option" where
  "query_ids aid ids = (case aid of
     Some v \<Rightarrow> require (ids = None) (ValueError ''use assertion_id or assertion_ids, not both'')
       (require (is_sha256_hex (normal_id v)) (ValueError ''assertion_id must be a 64-character SHA-256 hex value'') (Inr (Some [normal_id v])))
   | None \<Rightarrow> (case ids of None \<Rightarrow> Inr None
     | Some vs \<Rightarrow> (let normalized = sort (remdups (map normal_id vs)) in
         require (normalized \<noteq> [] \<and> length normalized \<le> 500) (ValueError ''assertion_ids must contain between 1 and 500 values'')
         (require (list_all is_sha256_hex normalized) (ValueError ''assertion_ids must contain 64-character SHA-256 hex values'')
         (Inr (Some normalized))))))"

definition selected_relations :: "relation_query \<Rightarrow> string \<Rightarrow> string list option \<Rightarrow> string list option \<Rightarrow> rat option \<Rightarrow> assertion_db \<Rightarrow> joined_relation list" where
  "selected_relations q version ids types boundary db = take (nat (rq_limit q)) (sort_key relation_order
     (filter (\<lambda>j. relation_matches version ids types boundary j \<and> (rq_invalidated q \<or> live_relation j)) (join_relations db)))"

definition query_relations :: "text_env \<Rightarrow> relation_query \<Rightarrow> assertion_db \<Rightarrow> assertion_error + relation_row list" where
  "query_relations env q db =
     and_then (validated_version (rq_version q)) (\<lambda>version.
     require (1 \<le> rq_limit q \<and> rq_limit q \<le> 500) (ValueError ''limit must be between 1 and 500'')
     (and_then (query_ids (rq_assertion_id q) (rq_assertion_ids q)) (\<lambda>ids.
      and_then (query_names ASSERTION_RELATION_TYPES ''relation_types contains an unsupported relation'' (rq_types q)) (\<lambda>types.
      and_then (finite_number ''as_of'' (rq_as_of q)) (\<lambda>boundary.
       all_ok (read_relation_row env (rq_invalidated q)) (selected_relations q version ids types boundary db))))))"

end
