(* ===== verification/Assertion_Integrity.thy ===== *)
theory Assertion_Integrity
  imports Assertion_Store
begin

text \<open>
  What every history of the assertion tables keeps: \<open>assertion_history\<close> has one rule per write of
  \<^verbatim>\<open>src/assertion_store.py\<close> and per write of messages that the triggers see.  It records the texts that were ever
  stored, so that "no two of them have the same digest" can be said of exactly those.
\<close>

section \<open>Results\<close>

lemma and_then_simps [simp]: "and_then (Inl e) f = Inl e" "and_then (Inr x) f = f x"
  by (simp_all add: and_then_def)

lemma and_then_Inr: "and_then m f = Inr y \<longleftrightarrow> (\<exists>x. m = Inr x \<and> f x = Inr y)"
  by (cases m) auto

lemma require_Inr: "require ok e m = Inr y \<longleftrightarrow> ok \<and> m = Inr y"
  by (simp add: require_def)

lemma require_True [simp]: "require True e m = m"
  by (simp add: require_def)

lemmas result_iffs = and_then_Inr require_Inr

lemma all_ok_Inr: "all_ok f xs = Inr ys \<longleftrightarrow> list_all2 (\<lambda>x y. f x = Inr y) xs ys"
proof (induction xs arbitrary: ys)
  case (Cons x xs)
  show ?case by (cases ys) (auto simp: and_then_Inr Cons)
qed auto

lemma all_ok_origin: "all_ok f xs = Inr ys \<Longrightarrow> y \<in> set ys \<Longrightarrow> \<exists>x \<in> set xs. f x = Inr y"
  unfolding all_ok_Inr by (induction rule: list_all2_induct) auto

section \<open>Histories\<close>

definition no_assertions :: assertion_db where
  "no_assertions = \<lparr>ad_messages = [], ad_receipts = [], ad_assertions = [], ad_relations = []\<rparr>"

inductive assertion_history :: "text_env \<Rightarrow> string set \<Rightarrow> assertion_db \<Rightarrow> bool" for env where
  start: "assertion_history env {} no_assertions"
| publish: "assertion_history env texts db \<Longrightarrow> publish_source env read_only clock snap cs rs version db = Inr (result, db')
    \<Longrightarrow> assertion_history env texts db'"
| invalidate: "assertion_history env texts db \<Longrightarrow> invalidate_source read_only now i reason moment db = Inr (n, db')
    \<Longrightarrow> assertion_history env texts db'"
| remove: "assertion_history env texts db \<Longrightarrow> remove_version read_only version db = Inr (counts, db') \<Longrightarrow> assertion_history env texts db'"
| arrive: "assertion_history env texts db \<Longrightarrow> ms_store_id m \<notin> ms_store_id ` set (ad_messages db)
    \<Longrightarrow> assertion_history env (insert (null_text (ms_content m)) texts) (db\<lparr>ad_messages := ad_messages db @ [m]\<rparr>)"
| edit: "assertion_history env texts db \<Longrightarrow> assertion_history env (insert (null_text content) texts) (update_content now i content db)"
| amend: "assertion_history env texts db \<Longrightarrow> \<forall>m. ms_store_id (f m) = ms_store_id m \<and> ms_content (f m) = ms_content m
    \<Longrightarrow> assertion_history env texts (db\<lparr>ad_messages := upd_where (\<lambda>m. ms_store_id m = i) f (ad_messages db)\<rparr>)"
| delete: "assertion_history env texts db \<Longrightarrow> assertion_history env texts (delete_message now i db)"

section \<open>The invariant\<close>

definition quoted :: "text_env \<Rightarrow> string set \<Rightarrow> string \<Rightarrow> int \<Rightarrow> int \<Rightarrow> string \<Rightarrow> bool" where
  "quoted env texts sha a b q \<longleftrightarrow> (\<exists>c \<in> texts. sha256 env c = sha \<and> valid_span a b c \<and> slice a b c = q)"

definition messages_ok :: "string set \<Rightarrow> assertion_db \<Rightarrow> bool" where
  "messages_ok texts db \<longleftrightarrow> distinct (map ms_store_id (ad_messages db)) \<and> (\<forall>m \<in> set (ad_messages db). null_text (ms_content m) \<in> texts)"

definition backed :: "text_env \<Rightarrow> assertion_db \<Rightarrow> receipt \<Rightarrow> bool" where
  "backed env db r \<longleftrightarrow> rc_invalidated_at r = None \<longrightarrow>
     (\<exists>m \<in> set (ad_messages db). ms_store_id m = rc_store_id r \<and> sha256 env (null_text (ms_content m)) = rc_sha r)"

definition receipts_ok :: "text_env \<Rightarrow> assertion_db \<Rightarrow> bool" where
  "receipts_ok env db \<longleftrightarrow> distinct (map rc_key (ad_receipts db)) \<and> (\<forall>r \<in> set (ad_receipts db). backed env db r)"

definition assertion_ok :: "text_env \<Rightarrow> string set \<Rightarrow> assertion_db \<Rightarrow> assertion_row \<Rightarrow> bool" where
  "assertion_ok env texts db a \<longleftrightarrow> as_key a \<in> rc_key ` set (ad_receipts db) \<and> quoted env texts (as_sha a) (as_start a) (as_end a) (as_quote a)
     \<and> (\<exists>v. finite_json v \<and> as_object_json a = json_text env v) \<and> as_id a \<in> range (sha256 env)"

definition assertions_ok :: "text_env \<Rightarrow> string set \<Rightarrow> assertion_db \<Rightarrow> bool" where
  "assertions_ok env texts db \<longleftrightarrow> distinct (map as_id (ad_assertions db)) \<and> (\<forall>a \<in> set (ad_assertions db). assertion_ok env texts db a)"

definition relation_ok :: "text_env \<Rightarrow> string set \<Rightarrow> assertion_db \<Rightarrow> relation_row \<Rightarrow> bool" where
  "relation_ok env texts db x \<longleftrightarrow> rel_key x \<in> rc_key ` set (ad_receipts db) \<and> rel_from x \<in> as_id ` set (ad_assertions db)
     \<and> rel_to x \<in> as_id ` set (ad_assertions db) \<and> quoted env texts (rel_sha x) (rel_start x) (rel_end x) (rel_quote x)"

definition relations_ok :: "text_env \<Rightarrow> string set \<Rightarrow> assertion_db \<Rightarrow> bool" where
  "relations_ok env texts db \<longleftrightarrow> distinct (map rel_id (ad_relations db)) \<and> (\<forall>x \<in> set (ad_relations db). relation_ok env texts db x)"

definition store_ok :: "text_env \<Rightarrow> string set \<Rightarrow> assertion_db \<Rightarrow> bool" where
  "store_ok env texts db \<longleftrightarrow> messages_ok texts db \<and> receipts_ok env db \<and> assertions_ok env texts db \<and> relations_ok env texts db"

lemma quoted_mono: "quoted env texts sha a b q \<Longrightarrow> texts \<subseteq> texts' \<Longrightarrow> quoted env texts' sha a b q"
  by (auto simp: quoted_def)

text \<open>Rows survive a change of the receipts that keeps their keys and a growth of the texts.\<close>

lemma rows_ok_frame:
  assumes "ad_assertions db' = ad_assertions db" "ad_relations db' = ad_relations db"
    "rc_key ` set (ad_receipts db) \<subseteq> rc_key ` set (ad_receipts db')" "texts \<subseteq> texts'"
  shows "assertions_ok env texts db \<Longrightarrow> assertions_ok env texts' db'" "relations_ok env texts db \<Longrightarrow> relations_ok env texts' db'"
  using assms quoted_mono[OF _ assms(4)] by (auto simp: assertions_ok_def assertion_ok_def relations_ok_def relation_ok_def)

subsection \<open>Messages\<close>

lemma store_ok_arrive:
  assumes "store_ok env texts db" "ms_store_id m \<notin> ms_store_id ` set (ad_messages db)"
  shows "store_ok env (insert (null_text (ms_content m)) texts) (db\<lparr>ad_messages := ad_messages db @ [m]\<rparr>)"
proof -
  let ?db = "db\<lparr>ad_messages := ad_messages db @ [m]\<rparr>"
  have "messages_ok (insert (null_text (ms_content m)) texts) ?db" using assms by (auto simp: store_ok_def messages_ok_def)
  moreover have "receipts_ok env ?db" using assms by (auto simp: store_ok_def receipts_ok_def backed_def)
  ultimately show ?thesis using assms rows_ok_frame[of ?db db texts "insert (null_text (ms_content m)) texts" env] by (simp add: store_ok_def subset_insertI)
qed

lemma invalidate_rows_simps:
  "map rc_key (invalidate_rows t reason i rs) = map rc_key rs" "rc_key ` set (invalidate_rows t reason i rs) = rc_key ` set rs"
proof -
  show m: "map rc_key (invalidate_rows t reason i rs) = map rc_key rs" by (induction rs) (auto simp: invalidate_rows_def upd_where_def rc_key_def)
  show "rc_key ` set (invalidate_rows t reason i rs) = rc_key ` set rs" unfolding set_map[symmetric] m ..
qed

lemma invalidate_rows_active:
  "r \<in> set (invalidate_rows t reason i rs) \<Longrightarrow> rc_invalidated_at r = None \<Longrightarrow> r \<in> set rs \<and> rc_store_id r \<noteq> i"
  by (auto simp: invalidate_rows_def upd_where_def split: if_splits)

lemma receipts_ok_invalidated:
  assumes "receipts_ok env db"
    "\<And>m. m \<in> set (ad_messages db) \<Longrightarrow> ms_store_id m \<noteq> i \<Longrightarrow> m \<in> set (ad_messages db')"
    "ad_receipts db' = invalidate_rows t reason i (ad_receipts db)"
  shows "receipts_ok env db'"
proof -
  have "backed env db' r" if "r \<in> set (ad_receipts db')" for r
    unfolding backed_def
  proof
    assume "rc_invalidated_at r = None"
    then have "r \<in> set (ad_receipts db) \<and> rc_store_id r \<noteq> i" using that assms(3) invalidate_rows_active by simp
    then show "\<exists>m \<in> set (ad_messages db'). ms_store_id m = rc_store_id r \<and> sha256 env (null_text (ms_content m)) = rc_sha r"
      using assms(1) \<open>rc_invalidated_at r = None\<close> assms(2) unfolding receipts_ok_def backed_def by metis
  qed
  then show ?thesis using assms(1,3) by (simp add: receipts_ok_def invalidate_rows_simps)
qed

lemma receipts_ok_messages:
  assumes "receipts_ok env db" "ad_receipts db' = ad_receipts db"
    "\<And>m. m \<in> set (ad_messages db) \<Longrightarrow> \<exists>m' \<in> set (ad_messages db'). ms_store_id m' = ms_store_id m \<and> ms_content m' = ms_content m"
  shows "receipts_ok env db'"
  using assms unfolding receipts_ok_def backed_def by metis

lemma store_ok_invalidated:
  assumes "store_ok env texts db" "invalidate_source read_only now i reason moment db = Inr (n, db')"
  shows "store_ok env texts db'"
proof -
  obtain t why where db': "db' = db\<lparr>ad_receipts := invalidate_rows t why i (ad_receipts db)\<rparr>"
    using assms(2) by (auto simp: invalidate_source_def result_iffs)
  have "receipts_ok env db'" using assms(1) receipts_ok_invalidated[of env db i db' t why] by (simp add: store_ok_def db')
  then show ?thesis using assms(1) rows_ok_frame[of db' db texts texts env] by (simp add: store_ok_def db' messages_ok_def invalidate_rows_simps)
qed

lemma update_content_messages:
  "map ms_store_id (ad_messages (update_content now i content db)) = map ms_store_id (ad_messages db)"
  "m \<in> set (ad_messages (update_content now i content db)) \<Longrightarrow> null_text (ms_content m) = null_text content \<or> m \<in> set (ad_messages db)"
  by (auto simp: update_content_def upd_where_def)

lemma store_ok_edit:
  assumes "store_ok env texts db"
  shows "store_ok env (insert (null_text content) texts) (update_content now i content db)"
proof -
  let ?db = "update_content now i content db"
  have m: "messages_ok (insert (null_text content) texts) ?db"
    using assms update_content_messages by (fastforce simp: store_ok_def messages_ok_def)
  have r: "receipts_ok env ?db"
  proof (cases "list_ex (\<lambda>m. ms_store_id m = i \<and> ms_content m \<noteq> content) (ad_messages db)")
    case True
    then show ?thesis using assms
      by (intro receipts_ok_invalidated[of env db i ?db now "''source_updated''"]) (auto simp: store_ok_def update_content_def upd_where_def)
  next
    case False
    have "ad_messages ?db = ad_messages db" using False by (auto simp: update_content_def upd_where_def list_ex_iff intro!: map_idI)
    moreover have "ad_receipts ?db = ad_receipts db" using False by (simp add: update_content_def)
    ultimately show ?thesis using assms by (simp add: store_ok_def receipts_ok_def backed_def)
  qed
  have "rc_key ` set (ad_receipts db) = rc_key ` set (ad_receipts ?db)" by (simp add: update_content_def invalidate_rows_simps)
  moreover have "ad_assertions ?db = ad_assertions db" "ad_relations ?db = ad_relations db" by (simp_all add: update_content_def)
  ultimately show ?thesis using assms m r rows_ok_frame[of ?db db texts "insert (null_text content) texts" env] by (simp add: store_ok_def subset_insertI)
qed

lemma store_ok_amend:
  assumes "store_ok env texts db" "\<forall>m. ms_store_id (f m) = ms_store_id m \<and> ms_content (f m) = ms_content m"
  shows "store_ok env texts (db\<lparr>ad_messages := upd_where P f (ad_messages db)\<rparr>)"
proof -
  let ?db = "db\<lparr>ad_messages := upd_where P f (ad_messages db)\<rparr>"
  have ids: "map ms_store_id (ad_messages ?db) = map ms_store_id (ad_messages db)" using assms(2) by (auto simp: upd_where_def)
  have "null_text (ms_content m) \<in> texts" if "m \<in> set (ad_messages ?db)" for m
    using that assms by (auto simp: store_ok_def messages_ok_def upd_where_def)
  then have "messages_ok texts ?db" using assms(1) ids by (metis messages_ok_def store_ok_def)
  moreover have "receipts_ok env ?db"
  proof (rule receipts_ok_messages)
    show "receipts_ok env db" "ad_receipts ?db = ad_receipts db" using assms(1) by (simp_all add: store_ok_def)
    show "\<exists>m' \<in> set (ad_messages ?db). ms_store_id m' = ms_store_id m \<and> ms_content m' = ms_content m" if "m \<in> set (ad_messages db)" for m
      by (rule bexI[of _ "if P m then f m else m"]) (use assms(2) that in \<open>auto simp: upd_where_def\<close>)
  qed
  ultimately show ?thesis using assms(1) rows_ok_frame[of ?db db texts texts env] by (simp add: store_ok_def)
qed

lemma store_ok_delete:
  assumes "store_ok env texts db"
  shows "store_ok env texts (delete_message now i db)"
proof -
  let ?db = "delete_message now i db"
  have m: "messages_ok texts ?db"
    using assms distinct_key_del_where[of ms_store_id "ad_messages db"] by (auto simp: store_ok_def messages_ok_def delete_message_def del_where_def)
  have r: "receipts_ok env ?db"
  proof (cases "list_ex (\<lambda>m. ms_store_id m = i) (ad_messages db)")
    case True
    then show ?thesis using assms
      by (intro receipts_ok_invalidated[of env db i ?db now "''source_deleted''"]) (auto simp: store_ok_def delete_message_def del_where_def)
  next
    case False
    then have "ad_messages ?db = ad_messages db" by (auto simp: delete_message_def del_where_def list_ex_iff intro!: filter_True)
    moreover have "ad_receipts ?db = ad_receipts db" using False by (simp add: delete_message_def)
    ultimately show ?thesis using assms by (simp add: store_ok_def receipts_ok_def backed_def)
  qed
  have "rc_key ` set (ad_receipts db) = rc_key ` set (ad_receipts ?db)" by (simp add: delete_message_def invalidate_rows_simps)
  moreover have "ad_assertions ?db = ad_assertions db" "ad_relations ?db = ad_relations db" by (simp_all add: delete_message_def)
  ultimately show ?thesis using assms m r rows_ok_frame[of ?db db texts texts env] by (simp add: store_ok_def)
qed

subsection \<open>Removing a version\<close>

lemma store_ok_receipt_deleted:
  assumes "store_ok env texts db"
  shows "store_ok env texts (receipt_deleted db r)"
proof -
  let ?db = "receipt_deleted db r"
  have as: "a \<in> set (ad_assertions ?db) \<longleftrightarrow> a \<in> set (ad_assertions db) \<and> as_key a \<noteq> rc_key r" for a
    by (auto simp: receipt_deleted_def Let_def del_where_def)
  have rs: "o1 \<in> set (ad_receipts ?db) \<longleftrightarrow> o1 \<in> set (ad_receipts db) \<and> rc_key o1 \<noteq> rc_key r" for o1
    by (auto simp: receipt_deleted_def Let_def del_where_def)
  have xs: "x \<in> set (ad_relations ?db) \<Longrightarrow> x \<in> set (ad_relations db) \<and> rel_key x \<noteq> rc_key r
      \<and> (\<forall>a \<in> set (ad_assertions db). as_key a = rc_key r \<longrightarrow> as_id a \<noteq> rel_from x \<and> as_id a \<noteq> rel_to x)" for x
    by (auto simp: receipt_deleted_def Let_def del_where_def image_iff)
  have keys: "k \<in> rc_key ` set (ad_receipts ?db) \<longleftrightarrow> k \<in> rc_key ` set (ad_receipts db) \<and> k \<noteq> rc_key r" for k using rs by auto
  have "messages_ok texts ?db" using assms by (simp add: store_ok_def messages_ok_def receipt_deleted_def Let_def)
  moreover have "receipts_ok env ?db"
    using assms rs distinct_key_del_where[of rc_key "ad_receipts db"] by (auto simp: store_ok_def receipts_ok_def backed_def receipt_deleted_def Let_def)
  moreover have "assertions_ok env texts ?db"
    using assms as keys distinct_key_del_where[of as_id "ad_assertions db"]
    by (auto simp: store_ok_def assertions_ok_def assertion_ok_def receipt_deleted_def Let_def)
  moreover have "relations_ok env texts ?db"
  proof -
    have "distinct (map rel_id (ad_relations ?db))"
      using assms distinct_key_del_where[of rel_id "ad_relations db"] by (auto simp: store_ok_def relations_ok_def receipt_deleted_def Let_def)
    moreover have "relation_ok env texts ?db x" if "x \<in> set (ad_relations ?db)" for x
    proof -
      have ok: "relation_ok env texts db x" using assms xs[OF that] by (simp add: store_ok_def relations_ok_def)
      have "e \<in> as_id ` set (ad_assertions ?db)" if "e \<in> as_id ` set (ad_assertions db)" "e = rel_from x \<or> e = rel_to x" for e
        using that xs[OF \<open>x \<in> _\<close>] as by auto
      then show ?thesis using ok xs[OF that] unfolding relation_ok_def keys by blast
    qed
    ultimately show ?thesis by (simp add: relations_ok_def)
  qed
  ultimately show ?thesis by (simp add: store_ok_def)
qed

lemma store_ok_remove:
  assumes "store_ok env texts db" "remove_version read_only version db = Inr (counts, db')"
  shows "store_ok env texts db'"
proof -
  have "store_ok env texts (foldl receipt_deleted db rs)" for rs
    using assms(1) by (induction rs arbitrary: db) (auto intro: store_ok_receipt_deleted)
  then show ?thesis using assms(2) by (auto simp: remove_version_def result_iffs)
qed

subsection \<open>Publishing\<close>

lemma canonical_json_Inr: "canonical_json env v = Inr t \<longleftrightarrow> finite_json v \<and> t = json_text env v \<and> length t \<le> 32768"
  by (auto simp: canonical_json_def result_iffs Let_def)

text \<open>What preparation guarantees of a row.\<close>

definition sound_row :: "text_env \<Rightarrow> SourceSnapshot \<Rightarrow> string \<Rightarrow> assertion_row \<Rightarrow> bool" where
  "sound_row env snap version a \<longleftrightarrow> as_key a = (sn_store_id snap, version, sn_sha snap) \<and> valid_span (as_start a) (as_end a) (sn_content snap)
     \<and> as_quote a = slice (as_start a) (as_end a) (sn_content snap) \<and> (\<exists>v. finite_json v \<and> as_object_json a = json_text env v)
     \<and> as_id a \<in> range (sha256 env)"

definition sound_relation :: "SourceSnapshot \<Rightarrow> string \<Rightarrow> relation_row \<Rightarrow> bool" where
  "sound_relation snap version x \<longleftrightarrow> rel_key x = (sn_store_id snap, version, sn_sha snap) \<and> valid_span (rel_start x) (rel_end x) (sn_content snap)
     \<and> rel_quote x = slice (rel_start x) (rel_end x) (sn_content snap)"

lemma prepare_assertion_sound:
  assumes "prepare_assertion env snap version c = Inr a"
  shows "sound_row env snap version a"
proof -
  obtain subject predicate object_json scope strength confidence event_at valid_from valid_to where
    v: "valid_span (ca_start c) (ca_end c) (sn_content snap)" "lower (strip (ca_kind c)) \<in> set ASSERTION_KINDS"
      "canonical_json env (ca_object c) = Inr object_json"
    and w: "with_assertion_id env \<lparr>as_id = [], as_store_id = sn_store_id snap, as_version = version, as_sha = sn_sha snap,
          as_subject = subject, as_predicate = predicate, as_object_json = object_json, as_value_text = ca_value_text c,
          as_kind = lower (strip (ca_kind c)), as_polarity = lower (strip (ca_polarity c)), as_strength = strength, as_scope = scope,
          as_speaker = sn_role snap, as_observed_at = sn_timestamp snap, as_event_at = event_at, as_valid_from = valid_from,
          as_valid_to = valid_to, as_start = ca_start c, as_end = ca_end c, as_quote = slice (ca_start c) (ca_end c) (sn_content snap),
          as_confidence = confidence, as_created_at = 0\<rparr> = Inr a"
    using assms unfolding prepare_assertion_def result_iffs by blast
  then show ?thesis by (auto simp: with_assertion_id_def and_then_Inr sound_row_def as_key_def canonical_json_Inr)
qed

lemma prepare_relation_sound:
  assumes "prepare_relation env snap version c = Inr x"
  shows "sound_relation snap version x"
  using assms by (auto simp: prepare_relation_def Let_def result_iffs with_relation_id_def sound_relation_def rel_key_def)

lemma prepare_batch_sound:
  assumes "prepare_batch env snap cs rs extraction_version = Inr b"
  shows "list_all (sound_row env snap (bt_version b)) (bt_assertions b)" "list_all (sound_relation snap (bt_version b)) (bt_relations b)"
    "distinct (map as_id (bt_assertions b))" "distinct (map rel_id (bt_relations b))"
    "length (bt_assertions b) = length cs" "length (bt_relations b) = length rs"
proof -
  obtain version as0 rs0 t where h: "all_ok (prepare_assertion env snap version) cs = Inr as0" "all_ok (prepare_relation env snap version) rs = Inr rs0"
      "distinct (map as_id (sort_key as_id as0))" "distinct (map rel_id (sort_key rel_id rs0))"
    and b: "b = \<lparr>bt_version = version, bt_assertions = sort_key as_id as0, bt_relations = sort_key rel_id rs0, bt_digest = sha256 env t\<rparr>"
    using assms unfolding prepare_batch_def Let_def result_iffs by blast
  have "\<forall>a \<in> set as0. sound_row env snap version a"
    using all_ok_origin[OF h(1)] prepare_assertion_sound by blast
  moreover have "\<forall>x \<in> set rs0. sound_relation snap version x"
    using all_ok_origin[OF h(2)] prepare_relation_sound by blast
  ultimately show "list_all (sound_row env snap (bt_version b)) (bt_assertions b)" "list_all (sound_relation snap (bt_version b)) (bt_relations b)"
    by (simp_all add: b list_all_iff)
  show "distinct (map as_id (bt_assertions b))" "distinct (map rel_id (bt_relations b))" using h by (simp_all add: b)
  show "length (bt_assertions b) = length cs" "length (bt_relations b) = length rs"
    using h(1,2) unfolding all_ok_Inr by (auto simp: b dest: list_all2_lengthD)
qed

lemma snapshot_fields [simp]:
  "sn_store_id (snapshot_from_row env m) = ms_store_id m" "sn_content (snapshot_from_row env m) = null_text (ms_content m)"
  "sn_sha (snapshot_from_row env m) = sha256 env (null_text (ms_content m))" "sn_session (snapshot_from_row env m) = ms_session m"
  "sn_role (snapshot_from_row env m) = ms_role m" "sn_source (snapshot_from_row env m) = null_text (ms_source m)"
  "sn_timestamp (snapshot_from_row env m) = source_time m"
  by (simp_all add: snapshot_from_row_def)

lemma message_unique:
  "messages_ok texts db \<Longrightarrow> m \<in> set (ad_messages db) \<Longrightarrow> m' \<in> set (ad_messages db) \<Longrightarrow> ms_store_id m = ms_store_id m' \<Longrightarrow> m = m'"
  by (auto simp: messages_ok_def distinct_map dest: inj_onD)

lemma source_row_Some: "source_row i db = Some m \<Longrightarrow> m \<in> set (ad_messages db) \<and> ms_store_id m = i"
  by (auto simp: source_row_def dest: sel_first_mem)

lemma source_row_unique: "messages_ok texts db \<Longrightarrow> m \<in> set (ad_messages db) \<Longrightarrow> source_row (ms_store_id m) db = Some m"
  unfolding source_row_def by (rule sel_key_unique) (auto simp: messages_ok_def)

lemma planned_message:
  assumes "source_row (sn_store_id snap) db = Some m" "snapshot_from_row env m = snap"
  shows "m \<in> set (ad_messages db)" "ms_store_id m = sn_store_id snap" "sha256 env (null_text (ms_content m)) = sn_sha snap"
  using source_row_Some[OF assms(1)] snapshot_fields(3)[of env m] unfolding assms(2) by simp_all

lemma receipt_active_iff: "receipt_active db k \<longleftrightarrow> (\<exists>r \<in> set (ad_receipts db). rc_key r = k \<and> rc_invalidated_at r = None)"
  by (auto simp: receipt_active_def list_ex_iff)

lemma active_message:
  assumes "store_ok env texts db" "receipt_active db (i, version, sha)"
  obtains m where "source_row i db = Some m" "sha256 env (null_text (ms_content m)) = sha" "null_text (ms_content m) \<in> texts"
proof -
  obtain r where r: "r \<in> set (ad_receipts db)" "rc_key r = (i, version, sha)" "rc_invalidated_at r = None"
    using assms(2) by (auto simp: receipt_active_iff)
  then have "backed env db r" using assms(1) by (simp add: store_ok_def receipts_ok_def)
  then obtain m where m: "m \<in> set (ad_messages db)" "ms_store_id m = i" "sha256 env (null_text (ms_content m)) = sha"
    using r by (auto simp: backed_def rc_key_def)
  have ok: "messages_ok texts db" using assms(1) by (simp add: store_ok_def)
  show ?thesis by (rule that[OF _ m(3)]) (use source_row_unique[OF ok m(1)] ok m in \<open>auto simp: messages_ok_def\<close>)
qed

lemma quote_guard_quoted:
  assumes "store_ok env texts db" "quote_guard db (i, version, sha) a b q" "0 \<le> a" "a < b"
  shows "quoted env texts sha a b q" "(i, version, sha) \<in> rc_key ` set (ad_receipts db)"
proof -
  obtain m where m: "m \<in> set (ad_messages db)" "ms_store_id m = i" "b \<le> int (length (null_text (ms_content m)))" "slice a b (null_text (ms_content m)) = q"
    and act: "receipt_active db (i, version, sha)" using assms(2) by (auto simp: quote_guard_def list_ex_iff)
  obtain m' where m': "source_row i db = Some m'" "sha256 env (null_text (ms_content m')) = sha" "null_text (ms_content m') \<in> texts"
    using active_message[OF assms(1) act] by blast
  have "m' = m" using message_unique[of texts db m' m] source_row_Some[OF m'(1)] assms(1) m(1,2) by (simp add: store_ok_def)
  then show "quoted env texts sha a b q" using m m' assms(3,4) by (auto simp: quoted_def valid_span_def)
  show "(i, version, sha) \<in> rc_key ` set (ad_receipts db)" using act by (force simp: receipt_active_iff)
qed

lemma insert_assertion_ok:
  assumes "store_ok env texts db" "insert_assertion a db = Inr db'" "sound_row env snap version (a\<lparr>as_created_at := t\<rparr>)"
  shows "store_ok env texts db'"
proof -
  have g: "quote_guard db (as_store_id a, as_version a, as_sha a) (as_start a) (as_end a) (as_quote a)" "as_id a \<notin> as_id ` set (ad_assertions db)"
    and db': "db' = db\<lparr>ad_assertions := ad_assertions db @ [a]\<rparr>" using assms(2) by (auto simp: insert_assertion_def result_iffs as_key_def)
  have ok: "assertion_ok env texts db a"
    using quote_guard_quoted[OF assms(1) g(1)] assms(3) by (auto simp: assertion_ok_def as_key_def sound_row_def valid_span_def)
  show ?thesis using assms(1) g(2) ok
    by (auto simp: db' store_ok_def messages_ok_def receipts_ok_def backed_def assertions_ok_def assertion_ok_def relations_ok_def relation_ok_def)
qed

lemma active_endpoint_exists: "active_endpoint db e \<Longrightarrow> e \<in> as_id ` set (ad_assertions db)"
  by (force simp: active_endpoint_def list_ex_iff)

lemma insert_relation_ok:
  assumes "store_ok env texts db" "insert_relation x db = Inr db'" "sound_relation snap version (x\<lparr>rel_created_at := t\<rparr>)"
  shows "store_ok env texts db'"
proof -
  have g: "quote_guard db (rel_store_id x, rel_version x, rel_sha x) (rel_start x) (rel_end x) (rel_quote x)" "rel_id x \<notin> rel_id ` set (ad_relations db)"
      "active_endpoint db (rel_from x)" "active_endpoint db (rel_to x)"
    and db': "db' = db\<lparr>ad_relations := ad_relations db @ [x]\<rparr>" using assms(2) by (auto simp: insert_relation_def result_iffs rel_key_def)
  have "relation_ok env texts db x"
    using quote_guard_quoted[OF assms(1) g(1)] assms(3) active_endpoint_exists[OF g(3)] active_endpoint_exists[OF g(4)]
    by (auto simp: relation_ok_def rel_key_def sound_relation_def valid_span_def)
  then show ?thesis using assms(1) g(2)
    by (auto simp: db' store_ok_def messages_ok_def receipts_ok_def backed_def assertions_ok_def assertion_ok_def relations_ok_def relation_ok_def)
qed

lemma insert_assertions_ok:
  assumes "store_ok env texts db" "insert_assertions clock k as db = Inr db'" "list_all (sound_row env snap version) as"
  shows "store_ok env texts db'"
  using assms
proof (induction as arbitrary: k db)
  case (Cons a as)
  obtain db1 where db1: "insert_assertion (a\<lparr>as_created_at := clock k\<rparr>) db = Inr db1" "insert_assertions clock (Suc k) as db1 = Inr db'"
    using Cons.prems(2) by (auto simp: and_then_Inr)
  have "store_ok env texts db1"
    by (rule insert_assertion_ok[OF Cons.prems(1) db1(1), where t = "as_created_at a" and snap = snap and version = version]) (use Cons.prems(3) in simp)
  from Cons.IH[OF this db1(2)] Cons.prems(3) show ?case by simp
qed simp

lemma insert_relations_ok:
  assumes "store_ok env texts db" "insert_relations clock k xs db = Inr db'" "list_all (sound_relation snap version) xs"
  shows "store_ok env texts db'"
  using assms
proof (induction xs arbitrary: k db)
  case (Cons x xs)
  obtain db1 where db1: "insert_relation (x\<lparr>rel_created_at := clock k\<rparr>) db = Inr db1" "insert_relations clock (Suc k) xs db1 = Inr db'"
    using Cons.prems(2) by (auto simp: and_then_Inr)
  have "store_ok env texts db1"
    by (rule insert_relation_ok[OF Cons.prems(1) db1(1), where t = "rel_created_at x" and snap = snap and version = version]) (use Cons.prems(3) in simp)
  from Cons.IH[OF this db1(2)] Cons.prems(3) show ?case by simp
qed simp

lemma insert_receipt_ok:
  assumes "store_ok env texts db" "insert_receipt r db = Inr db'" "backed env db r"
  shows "store_ok env texts db'"
proof -
  have db': "db' = db\<lparr>ad_receipts := ad_receipts db @ [r]\<rparr>" "rc_key r \<notin> rc_key ` set (ad_receipts db)"
    using assms(2) by (auto simp: insert_receipt_def result_iffs)
  have "receipts_ok env db'" using assms(1,3) db' by (auto simp: store_ok_def receipts_ok_def backed_def)
  then show ?thesis using assms(1) rows_ok_frame[of db' db texts texts env] by (auto simp: store_ok_def messages_ok_def db')
qed

lemma revive_key: "rc_key (revive_row clock snap r) = rc_key r"
  by (simp add: revive_row_def rc_key_def)

lemma store_ok_revive:
  assumes "store_ok env texts db" "source_row (sn_store_id snap) db = Some m" "snapshot_from_row env m = snap"
  shows "store_ok env texts (revive_receipt clock snap b db)"
proof -
  let ?db = "revive_receipt clock snap b db"
  have keys: "map rc_key (ad_receipts ?db) = map rc_key (ad_receipts db)"
    by (auto simp: revive_receipt_def upd_where_def revive_key)
  note m = planned_message[OF assms(2,3)]
  have "backed env ?db r" if "r \<in> set (ad_receipts ?db)" for r
  proof -
    obtain r0 where r0: "r0 \<in> set (ad_receipts db)" "r = (if rc_key r0 = batch_key snap b then revive_row clock snap r0 else r0)"
      using \<open>r \<in> _\<close> by (auto simp: revive_receipt_def upd_where_def)
    show ?thesis
    proof (cases "rc_key r0 = batch_key snap b")
      case True
      then have "rc_store_id r = sn_store_id snap" "rc_sha r = sn_sha snap" using r0(2) by (auto simp: revive_row_def rc_key_def batch_key_def)
      then show ?thesis using m by (auto simp: backed_def revive_receipt_def)
    next
      case False
      then show ?thesis using r0 assms(1) by (auto simp: store_ok_def receipts_ok_def backed_def revive_receipt_def)
    qed
  qed
  then have "receipts_ok env ?db" using assms(1) keys by (simp add: store_ok_def receipts_ok_def)
  moreover have "rc_key ` set (ad_receipts db) = rc_key ` set (ad_receipts ?db)" using keys by (metis set_map)
  ultimately show ?thesis using assms(1) rows_ok_frame[of ?db db texts texts env]
    by (simp add: store_ok_def messages_ok_def revive_receipt_def)
qed

lemma new_receipt_backed:
  assumes "source_row (sn_store_id snap) db = Some m" "snapshot_from_row env m = snap"
  shows "backed env db (new_receipt clock snap b)"
  unfolding backed_def by (intro impI bexI[of _ m]) (simp_all add: new_receipt_def planned_message[OF assms])

text \<open>The three ways a publication succeeds.\<close>

lemma store_batch_cases:
  assumes "store_batch env clock snap b db = Inr (result, db')"
  obtains (current) m r where "source_row (sn_store_id snap) db = Some m" "snapshot_from_row env m = snap" "current_receipt snap b db = Some r"
      "rc_sha r = sn_sha snap" "same_output b r" "result = publish_result snap b True" "db' = db"
  | (revived) m r where "source_row (sn_store_id snap) db = Some m" "snapshot_from_row env m = snap" "current_receipt snap b db = None"
      "historical_receipt snap b db = Some r" "same_output b r" "result = publish_result snap b True" "db' = revive_receipt clock snap b db"
  | (fresh) m where "source_row (sn_store_id snap) db = Some m" "snapshot_from_row env m = snap" "current_receipt snap b db = None"
      "historical_receipt snap b db = None" "insert_batch clock snap b db = Inr db'" "result = publish_result snap b False"
  using assms unfolding store_batch_def by (auto simp: result_iffs split: option.splits)

lemma store_ok_batch:
  assumes "store_ok env texts db" "store_batch env clock snap b db = Inr (result, db')"
    "list_all (sound_row env snap (bt_version b)) (bt_assertions b)" "list_all (sound_relation snap (bt_version b)) (bt_relations b)"
  shows "store_ok env texts db'"
  using assms(2)
proof (cases rule: store_batch_cases)
  case current
  then show ?thesis using assms(1) by simp
next
  case revived
  then show ?thesis using store_ok_revive[OF assms(1)] by simp
next
  case (fresh m)
  obtain db1 db2 where i: "insert_receipt (new_receipt clock snap b) db = Inr db1" "insert_assertions clock 1 (bt_assertions b) db1 = Inr db2"
      "insert_relations clock (1 + length (bt_assertions b)) (bt_relations b) db2 = Inr db'"
    using fresh(5) by (auto simp: insert_batch_def and_then_Inr)
  have "store_ok env texts db1" by (rule insert_receipt_ok[OF assms(1) i(1) new_receipt_backed[OF fresh(1,2)]])
  from insert_assertions_ok[OF this i(2) assms(3)] show ?thesis by (rule insert_relations_ok[OF _ i(3) assms(4)])
qed

lemma publish_source_batch:
  assumes "publish_source env read_only clock snap cs rs version db = Inr (result, db')"
  obtains b where "\<not> read_only" "prepare_batch env snap cs rs version = Inr b" "store_batch env clock snap b db = Inr (result, db')"
  using assms by (auto simp: publish_source_def result_iffs)

lemma history_store_ok: "assertion_history env texts db \<Longrightarrow> store_ok env texts db"
proof (induction rule: assertion_history.induct)
  case start
  then show ?case by (simp add: no_assertions_def store_ok_def messages_ok_def receipts_ok_def assertions_ok_def relations_ok_def)
next
  case (publish texts db read_only clock snap cs rs version result db')
  from publish_source_batch[OF publish(2)] obtain b where "prepare_batch env snap cs rs version = Inr b" "store_batch env clock snap b db = Inr (result, db')" .
  then show ?case using store_ok_batch[OF publish.IH] prepare_batch_sound by blast
qed (auto intro: store_ok_invalidated store_ok_remove store_ok_arrive store_ok_edit store_ok_amend store_ok_delete)

end
