(* ===== verification/Assertion_Queries.thy ===== *)
theory Assertion_Queries
  imports Assertion_Integrity
begin

text \<open>
  What readers and writers of the assertion store can rely on: a query returns exactly the standing assertions it asks
  for, each a literal quotation of the message as it is now; publishing again changes nothing; and how large a
  publication can be.
\<close>

section \<open>The joins\<close>

lemma filter_unique_key:
  assumes "distinct (map key rs)" "k \<in> key ` set rs"
  shows "\<exists>r. filter (\<lambda>r. key r = k) rs = [r]"
  using assms
proof (induction rs)
  case (Cons r rs)
  then show ?case by (cases "key r = k") (auto simp: filter_empty_conv image_iff)
qed simp

definition receipt_of :: "assertion_db \<Rightarrow> assertion_row \<Rightarrow> receipt" where
  "receipt_of db a = hd (filter (\<lambda>r. rc_key r = as_key a) (ad_receipts db))"

lemma receipt_of_single:
  assumes "store_ok env texts db" "a \<in> set (ad_assertions db)"
  shows "filter (\<lambda>r. rc_key r = as_key a) (ad_receipts db) = [receipt_of db a]"
  using filter_unique_key[of rc_key "ad_receipts db" "as_key a"] assms
  by (auto simp: receipt_of_def store_ok_def receipts_ok_def assertions_ok_def assertion_ok_def)

definition joined_row :: "assertion_db \<Rightarrow> assertion_row \<Rightarrow> joined" where
  "joined_row db a = (a, receipt_of db a, source_row (as_store_id a) db)"

lemma join_assertions_map:
  assumes "store_ok env texts db"
  shows "join_assertions db = map (joined_row db) (ad_assertions db)"
proof -
  have "map (\<lambda>a. map (\<lambda>r. (a, r, source_row (as_store_id a) db)) (filter (\<lambda>r. rc_key r = as_key a) (ad_receipts db))) (ad_assertions db)
    = map (\<lambda>a. [joined_row db a]) (ad_assertions db)"
    by (rule map_cong[OF refl]) (simp add: receipt_of_single[OF assms] joined_row_def)
  then show ?thesis unfolding join_assertions_def by (simp only: concat_map_singleton)
qed

lemma live_joined_row:
  assumes "store_ok env texts db" "a \<in> set (ad_assertions db)"
  shows "live_join (joined_row db a) \<longleftrightarrow> receipt_active db (as_key a)"
proof -
  have r: "rc_invalidated_at (receipt_of db a) = None \<longleftrightarrow> receipt_active db (as_key a)"
  proof -
    have "receipt_active db (as_key a) \<longleftrightarrow> (\<exists>r \<in> set (filter (\<lambda>r. rc_key r = as_key a) (ad_receipts db)). rc_invalidated_at r = None)"
      by (auto simp: receipt_active_iff)
    then show ?thesis by (simp add: receipt_of_single[OF assms])
  qed
  have "source_row (as_store_id a) db \<noteq> None" if "receipt_active db (as_key a)"
    using active_message[OF assms(1) that[unfolded as_key_def]] by blast
  then show ?thesis using r by (auto simp: live_join_def joined_row_def)
qed

lemma sort_key_map_fun: "sort_key f (map g xs) = map g (sort_key (\<lambda>x. f (g x)) xs)"
proof -
  have "insort_key f (g x) (map g ys) = map g (insort_key (\<lambda>x. f (g x)) x ys)" for x ys by (induction ys) auto
  then show ?thesis by (induction xs) auto
qed

section \<open>Queries\<close>

text \<open>The assertion quotes the message literally, as the message is now.\<close>

definition quotes_now :: "assertion_db \<Rightarrow> int \<Rightarrow> int \<Rightarrow> int \<Rightarrow> string \<Rightarrow> bool" where
  "quotes_now db i a b q = (case source_row i db of None \<Rightarrow> False
     | Some m \<Rightarrow> valid_span a b (null_text (ms_content m)) \<and> slice a b (null_text (ms_content m)) = q)"

lemma active_quotes_now:
  assumes "store_ok env texts db" "inj_on (sha256 env) texts" "receipt_active db (i, version, sha)" "quoted env texts sha a b q"
  shows "quotes_now db i a b q" "validate_source_provenance env (content_of (source_row i db)) sha a b q = Inr ()"
proof -
  obtain m where m: "source_row i db = Some m" "sha256 env (null_text (ms_content m)) = sha" "null_text (ms_content m) \<in> texts"
    using active_message[OF assms(1,3)] by blast
  obtain c where c: "c \<in> texts" "sha256 env c = sha" "valid_span a b c" "slice a b c = q" using assms(4) by (auto simp: quoted_def)
  have "c = null_text (ms_content m)" using inj_onD[OF assms(2), of c] m c by simp
  then show "quotes_now db i a b q" "validate_source_provenance env (content_of (source_row i db)) sha a b q = Inr ()"
    using m c by (simp_all add: quotes_now_def validate_source_provenance_def content_of_def)
qed

text \<open>The parser accepts what the printer wrote.\<close>

definition reads_own_json :: "text_env \<Rightarrow> bool" where
  "reads_own_json env \<longleftrightarrow> (\<forall>v. finite_json v \<longrightarrow> json_loads env (json_text env v) \<noteq> None)"

definition item_of :: "text_env \<Rightarrow> assertion_db \<Rightarrow> assertion_row \<Rightarrow> assertion_item" where
  "item_of env db a = \<lparr>ai_row = a, ai_receipt = receipt_of db a, ai_session = map_option ms_session (source_row (as_store_id a) db),
     ai_object = the (json_loads env (as_object_json a))\<rparr>"

lemma read_standing:
  assumes "store_ok env texts db" "inj_on (sha256 env) texts" "reads_own_json env" "a \<in> set (ad_assertions db)" "receipt_active db (as_key a)"
  shows "read_assertion env (joined_row db a) = Inr (item_of env db a)"
    "quotes_now db (as_store_id a) (as_start a) (as_end a) (as_quote a)"
proof -
  have ok: "assertion_ok env texts db a" using assms(1,4) by (simp add: store_ok_def assertions_ok_def)
  have act: "receipt_active db (as_store_id a, as_version a, as_sha a)" using assms(5) by (simp add: as_key_def)
  have q: "quoted env texts (as_sha a) (as_start a) (as_end a) (as_quote a)" using ok by (simp add: assertion_ok_def)
  note now = active_quotes_now[OF assms(1,2) act q]
  then show "quotes_now db (as_store_id a) (as_start a) (as_end a) (as_quote a)" by simp
  have "json_loads env (as_object_json a) \<noteq> None" using ok assms(3) by (auto simp: assertion_ok_def reads_own_json_def)
  then show "read_assertion env (joined_row db a) = Inr (item_of env db a)"
    using now(2) by (auto simp: read_assertion_def joined_row_def item_of_def)
qed

lemma all_ok_map: "(\<And>x. x \<in> set xs \<Longrightarrow> f (g x) = Inr (h x)) \<Longrightarrow> all_ok f (map g xs) = Inr (map h xs)"
  by (induction xs) auto

text \<open>
  The page a query is answered with: of the matching assertions whose receipt stands, newest first, as many as the
  query's limit allows.  A page below the limit holds all of them.
\<close>

definition standing :: "assertion_query \<Rightarrow> string \<Rightarrow> string option \<Rightarrow> string list option \<Rightarrow> rat option \<Rightarrow> assertion_db \<Rightarrow> assertion_row list" where
  "standing q version aid kinds boundary db = take (nat (aq_limit q)) (sort_key (\<lambda>a. (- as_observed_at a, as_id a))
     (filter (\<lambda>a. assertion_matches q version aid kinds boundary a \<and> receipt_active db (as_key a)) (ad_assertions db)))"

lemma selected_standing:
  assumes "store_ok env texts db" "\<not> aq_invalidated q"
  shows "selected_assertions q version aid kinds boundary db = map (joined_row db) (standing q version aid kinds boundary db)"
proof -
  have "filter (\<lambda>j. assertion_matches q version aid kinds boundary (fst j) \<and> (aq_invalidated q \<or> live_join j)) (join_assertions db)
    = map (joined_row db) (filter (\<lambda>a. assertion_matches q version aid kinds boundary a \<and> receipt_active db (as_key a)) (ad_assertions db))"
    unfolding join_assertions_map[OF assms(1)] filter_map comp_def using assms(2) live_joined_row[OF assms(1)]
    by (auto simp: joined_row_def intro!: arg_cong[where f = "map _"] filter_cong)
  then show ?thesis by (simp add: selected_assertions_def standing_def sort_key_map_fun take_map assertion_order_def joined_row_def)
qed

lemma standing_mem: "a \<in> set (standing q version aid kinds boundary db) \<Longrightarrow> a \<in> set (ad_assertions db) \<and> receipt_active db (as_key a)
    \<and> assertion_matches q version aid kinds boundary a"
  by (auto simp: standing_def dest: in_set_takeD)

lemma standing_whole:
  assumes "length (standing q version aid kinds boundary db) < nat (aq_limit q)"
  shows "set (standing q version aid kinds boundary db) = {a \<in> set (ad_assertions db). receipt_active db (as_key a) \<and> assertion_matches q version aid kinds boundary a}"
proof -
  let ?xs = "sort_key (\<lambda>a. (- as_observed_at a, as_id a)) (filter (\<lambda>a. assertion_matches q version aid kinds boundary a \<and> receipt_active db (as_key a)) (ad_assertions db))"
  have "length ?xs \<le> nat (aq_limit q)" using assms by (simp only: standing_def length_take min_def split: if_splits)
  then have "standing q version aid kinds boundary db = ?xs" unfolding standing_def by (rule take_all)
  then show ?thesis by auto
qed

definition checked_query :: "assertion_query \<Rightarrow> string \<Rightarrow> string option \<Rightarrow> string list option \<Rightarrow> rat option \<Rightarrow> bool" where
  "checked_query q version aid kinds boundary \<longleftrightarrow> validated_version (aq_version q) = Inr version \<and> 1 \<le> aq_limit q \<and> aq_limit q \<le> 500
     \<and> query_assertion_id (aq_assertion_id q) = Inr aid
     \<and> query_names ASSERTION_KINDS ''kinds must contain supported assertion kinds'' (aq_kinds q) = Inr kinds
     \<and> finite_number ''as_of'' (aq_as_of q) = Inr boundary"

lemma query_standing:
  assumes "store_ok env texts db" "inj_on (sha256 env) texts" "reads_own_json env" "checked_query q version aid kinds boundary" "\<not> aq_invalidated q"
  shows "query_assertions env q db = Inr (map (item_of env db) (standing q version aid kinds boundary db))"
proof -
  have "all_ok (read_assertion env) (map (joined_row db) (standing q version aid kinds boundary db))
    = Inr (map (item_of env db) (standing q version aid kinds boundary db))"
    by (rule all_ok_map) (use read_standing(1)[OF assms(1-3)] standing_mem in blast)
  then show ?thesis using assms(4) by (simp add: query_assertions_def checked_query_def selected_standing[OF assms(1,5)])
qed

text \<open>
  C18: In every history of the store and its messages in which no two stored texts share a digest, a well-formed query
  never fails: it returns exactly the first assertions, newest first, that match and whose receipt stands, and
  each of them quotes the message it was derived from literally, as that message is now.
\<close>

theorem assertion_query_exact:
  assumes "assertion_history env texts db" "inj_on (sha256 env) texts" "reads_own_json env"
    and "checked_query q version aid kinds boundary" "\<not> aq_invalidated q"
  shows "\<exists>items. query_assertions env q db = Inr items \<and> map ai_row items = standing q version aid kinds boundary db
    \<and> list_all (\<lambda>it. quotes_now db (as_store_id (ai_row it)) (as_start (ai_row it)) (as_end (ai_row it)) (as_quote (ai_row it))) items"
proof -
  note ok = history_store_ok[OF assms(1)]
  have "map ai_row (map (item_of env db) xs) = xs" for xs by (induction xs) (auto simp: item_of_def)
  then show ?thesis using query_standing[OF ok assms(2-5)] read_standing(2)[OF ok assms(2,3)] standing_mem
    by (auto simp: list_all_iff item_of_def)
qed

section \<open>Relation queries\<close>

lemma join_relations_mem:
  "j \<in> set (join_relations db) \<Longrightarrow> jr_row j \<in> set (ad_relations db) \<and> jr_receipt j \<in> set (ad_receipts db) \<and> rc_key (jr_receipt j) = rel_key (jr_row j)
     \<and> jr_message j = source_row (rel_store_id (jr_row j)) db \<and> jr_from j \<in> set (join_assertions db) \<and> jr_to j \<in> set (join_assertions db)
     \<and> as_id (fst (jr_from j)) = rel_from (jr_row j) \<and> as_id (fst (jr_to j)) = rel_to (jr_row j)"
  by (auto simp: join_relations_def)

lemma check_endpoint_live:
  assumes "store_ok env texts db" "inj_on (sha256 env) texts" "reads_own_json env" "j \<in> set (join_assertions db)" "live_join j"
  shows "check_endpoint env j = Inr ()"
proof -
  obtain a where a: "a \<in> set (ad_assertions db)" "j = joined_row db a" using assms(1,4) by (auto simp: join_assertions_map)
  then have "receipt_active db (as_key a)" using assms(5) live_joined_row[OF assms(1)] by simp
  moreover have "rc_invalidated_at (receipt_of db a) = None" using assms(5) a(2) by (simp add: live_join_def joined_row_def)
  ultimately show ?thesis using read_standing(1)[OF assms(1-3) a(1)] a(2)
    by (auto simp: check_endpoint_def read_assertion_def joined_row_def and_then_Inr)
qed

lemma read_live_relation:
  assumes "store_ok env texts db" "inj_on (sha256 env) texts" "reads_own_json env" "j \<in> set (join_relations db)" "live_relation j"
  shows "read_relation_row env False j = Inr (jr_row j)"
proof -
  note j = join_relations_mem[OF assms(4)]
  have x: "relation_ok env texts db (jr_row j)" using assms(1) j by (simp add: store_ok_def relations_ok_def)
  have live: "rc_invalidated_at (jr_receipt j) = None" "live_join (jr_from j)" "live_join (jr_to j)" using assms(5) by (simp_all add: live_relation_def)
  then have "receipt_active db (rel_key (jr_row j))" using j by (auto simp: receipt_active_iff)
  then have "receipt_active db (rel_store_id (jr_row j), rel_version (jr_row j), rel_sha (jr_row j))" by (simp add: rel_key_def)
  from active_quotes_now(2)[OF assms(1,2) this] x j
  have "validate_source_provenance env (content_of (jr_message j)) (rel_sha (jr_row j)) (rel_start (jr_row j)) (rel_end (jr_row j)) (rel_quote (jr_row j)) = Inr ()"
    by (simp add: relation_ok_def)
  then show ?thesis using check_endpoint_live[OF assms(1-3)] j live by (simp add: read_relation_row_def)
qed

lemma query_relations_live:
  assumes "store_ok env texts db" "inj_on (sha256 env) texts" "reads_own_json env" "\<not> rq_invalidated q"
    "validated_version (rq_version q) = Inr version" "1 \<le> rq_limit q" "rq_limit q \<le> 500" "query_ids (rq_assertion_id q) (rq_assertion_ids q) = Inr ids"
    "query_names ASSERTION_RELATION_TYPES ''relation_types contains an unsupported relation'' (rq_types q) = Inr types"
    "finite_number ''as_of'' (rq_as_of q) = Inr boundary"
  shows "query_relations env q db = Inr (map jr_row (selected_relations q version ids types boundary db))"
proof -
  have "all_ok (read_relation_row env False) (map (\<lambda>j. j) (selected_relations q version ids types boundary db))
    = Inr (map jr_row (selected_relations q version ids types boundary db))"
  proof (rule all_ok_map)
    fix j assume "j \<in> set (selected_relations q version ids types boundary db)"
    then have "j \<in> set (join_relations db)" "live_relation j" using assms(4) by (auto simp: selected_relations_def dest: in_set_takeD)
    then show "read_relation_row env False j = Inr (jr_row j)" by (rule read_live_relation[OF assms(1-3)])
  qed
  then show ?thesis using assms(4-) by (simp add: query_relations_def)
qed

section \<open>Publishing again\<close>

lemma insert_assertions_rows:
  "insert_assertions clock k as db = Inr db' \<Longrightarrow> ad_receipts db' = ad_receipts db \<and> ad_messages db' = ad_messages db \<and> ad_relations db' = ad_relations db"
proof (induction as arbitrary: k db)
  case (Cons a as)
  obtain db1 where db1: "insert_assertion (a\<lparr>as_created_at := clock k\<rparr>) db = Inr db1" "insert_assertions clock (Suc k) as db1 = Inr db'"
    using Cons.prems by (auto simp: and_then_Inr)
  then show ?case using Cons.IH[OF db1(2)] by (auto simp: insert_assertion_def result_iffs)
qed simp

lemma insert_relations_rows:
  "insert_relations clock k xs db = Inr db' \<Longrightarrow> ad_receipts db' = ad_receipts db \<and> ad_messages db' = ad_messages db \<and> ad_assertions db' = ad_assertions db"
proof (induction xs arbitrary: k db)
  case (Cons x xs)
  obtain db1 where db1: "insert_relation (x\<lparr>rel_created_at := clock k\<rparr>) db = Inr db1" "insert_relations clock (Suc k) xs db1 = Inr db'"
    using Cons.prems by (auto simp: and_then_Inr)
  then show ?case using Cons.IH[OF db1(2)] by (auto simp: insert_relation_def result_iffs)
qed simp

lemma insert_batch_rows:
  assumes "insert_batch clock snap b db = Inr db'"
  shows "ad_receipts db' = ad_receipts db @ [new_receipt clock snap b]" "ad_messages db' = ad_messages db"
    "source_insert_guard db (new_receipt clock snap b)"
proof -
  obtain db1 db2 where i: "insert_receipt (new_receipt clock snap b) db = Inr db1" "insert_assertions clock 1 (bt_assertions b) db1 = Inr db2"
      "insert_relations clock (1 + length (bt_assertions b)) (bt_relations b) db2 = Inr db'"
    using assms by (auto simp: insert_batch_def and_then_Inr)
  show "ad_receipts db' = ad_receipts db @ [new_receipt clock snap b]" "ad_messages db' = ad_messages db" "source_insert_guard db (new_receipt clock snap b)"
    using i(1) insert_assertions_rows[OF i(2)] insert_relations_rows[OF i(3)] by (auto simp: insert_receipt_def result_iffs)
qed

text \<open>The receipt a successful publication leaves behind.\<close>

definition receipted :: "SourceSnapshot \<Rightarrow> batch \<Rightarrow> assertion_db \<Rightarrow> bool" where
  "receipted snap b db \<longleftrightarrow> (\<exists>r \<in> set (ad_receipts db). rc_key r = batch_key snap b \<and> rc_invalidated_at r = None \<and> same_output b r)"

lemma receipted_after:
  assumes "store_ok env texts db" "store_batch env clock snap b db = Inr (result, db')"
  shows "receipted snap b db'" "ad_messages db' = ad_messages db"
proof -
  have "receipted snap b db' \<and> ad_messages db' = ad_messages db"
    using assms(2)
  proof (cases rule: store_batch_cases)
    case (current m r)
    then show ?thesis using sel_first_mem[OF current(3)[unfolded current_receipt_def]] by (auto simp: receipted_def rc_key_def batch_key_def)
  next
    case (revived m r)
    have "r \<in> set (ad_receipts db)" "rc_key r = batch_key snap b" using sel_first_mem[OF revived(4)[unfolded historical_receipt_def]] by auto
    then have "revive_row clock snap r \<in> set (ad_receipts db')" by (auto simp: revived(7) revive_receipt_def upd_where_def)
    moreover have "same_output b (revive_row clock snap r)" using revived(5) by (simp add: same_output_def revive_row_def)
    ultimately show ?thesis using \<open>rc_key r = _\<close> revived(7)
      by (auto simp: receipted_def revive_key revive_receipt_def intro!: bexI[of _ "revive_row clock snap r"]) (simp add: revive_row_def)
  next
    case (fresh m)
    then show ?thesis using insert_batch_rows(1,2)[OF fresh(5)] by (simp add: receipted_def new_receipt_def rc_key_def batch_key_def same_output_def)
  qed
  then show "receipted snap b db'" "ad_messages db' = ad_messages db" by simp_all
qed

lemma receipt_by_key: "receipts_ok env db \<Longrightarrow> r \<in> set (ad_receipts db) \<Longrightarrow> r' \<in> set (ad_receipts db) \<Longrightarrow> rc_key r = rc_key r' \<Longrightarrow> r = r'"
  by (auto simp: receipts_ok_def distinct_map dest: inj_onD)

lemma active_unique:
  assumes "store_ok env texts db" "r \<in> set (ad_receipts db)" "r' \<in> set (ad_receipts db)" "rc_invalidated_at r = None" "rc_invalidated_at r' = None"
    "rc_store_id r = rc_store_id r'" "rc_version r = rc_version r'"
  shows "r = r'"
proof -
  have "backed env db r" "backed env db r'" using assms(1-3) by (simp_all add: store_ok_def receipts_ok_def)
  then obtain m m' where "m \<in> set (ad_messages db)" "ms_store_id m = rc_store_id r" "sha256 env (null_text (ms_content m)) = rc_sha r"
      "m' \<in> set (ad_messages db)" "ms_store_id m' = rc_store_id r'" "sha256 env (null_text (ms_content m')) = rc_sha r'"
    using assms(4,5) unfolding backed_def by blast
  then have "rc_sha r = rc_sha r'" using message_unique[of texts db m m'] assms(1,6) by (simp add: store_ok_def)
  then show ?thesis using receipt_by_key[of env db r r'] assms by (simp add: store_ok_def rc_key_def)
qed

lemma store_batch_again:
  assumes "store_ok env texts db" "receipted snap b db" "source_row (sn_store_id snap) db = Some m" "snapshot_from_row env m = snap"
  shows "store_batch env clock snap b db = Inr (publish_result snap b True, db)"
proof -
  obtain r where r: "r \<in> set (ad_receipts db)" "rc_key r = batch_key snap b" "rc_invalidated_at r = None" "same_output b r"
    using assms(2) by (auto simp: receipted_def)
  then have k: "rc_store_id r = sn_store_id snap" "rc_version r = bt_version b" "rc_sha r = sn_sha snap" by (auto simp: rc_key_def batch_key_def)
  have "current_receipt snap b db = Some r"
  proof (cases "current_receipt snap b db")
    case None
    then show ?thesis using r(1,3) k by (auto simp: current_receipt_def sel_first_None_iff)
  next
    case (Some r')
    then show ?thesis using sel_first_mem[OF Some[unfolded current_receipt_def]] active_unique[OF assms(1), of r' r] r(1,3) k by simp
  qed
  then show ?thesis using assms(3,4) r(4) k(3) by (simp add: store_batch_def)
qed

lemma receipted_active: "receipted snap b db \<Longrightarrow> receipt_active db (batch_key snap b)"
  by (auto simp: receipted_def receipt_active_iff)

lemma store_batch_revives:
  assumes "store_ok env texts db" "receipted snap b db" "source_row (sn_store_id snap) db = Some m" "snapshot_from_row env m = snap"
    and db': "db' = db\<lparr>ad_receipts := invalidate_rows t why (sn_store_id snap) (ad_receipts db)\<rparr>"
  shows "store_batch env clock snap b db' = Inr (publish_result snap b True, revive_receipt clock snap b db')"
proof -
  obtain r where r: "r \<in> set (ad_receipts db)" "rc_key r = batch_key snap b" "rc_invalidated_at r = None" "same_output b r"
    using assms(2) by (auto simp: receipted_def)
  have rs: "ad_receipts db' = invalidate_rows t why (sn_store_id snap) (ad_receipts db)" by (simp add: db')
  have "current_receipt snap b db' = None"
    unfolding current_receipt_def sel_first_None_iff rs using invalidate_rows_active[of _ t why "sn_store_id snap" "ad_receipts db"] by blast
  moreover have "\<exists>r'. historical_receipt snap b db' = Some r' \<and> same_output b r'"
  proof -
    let ?r = "r\<lparr>rc_invalidated_at := Some t, rc_reason := Some why\<rparr>"
    have mem: "?r \<in> set (ad_receipts db')" unfolding rs using r by (auto simp: invalidate_rows_def upd_where_def rc_key_def batch_key_def intro!: image_eqI[of _ _ r])
    have key: "rc_key ?r = batch_key snap b" using r(2) by (simp add: rc_key_def)
    have "historical_receipt snap b db' \<noteq> None" unfolding historical_receipt_def sel_first_None_iff using mem key by force
    then obtain r' where r': "historical_receipt snap b db' = Some r'" by blast
    have "distinct (map rc_key (ad_receipts db'))" using assms(1) by (simp add: rs invalidate_rows_simps store_ok_def receipts_ok_def)
    then have "inj_on rc_key (set (ad_receipts db'))" by (simp add: distinct_map)
    from inj_onD[OF this _ _ mem, of r'] have "r' = ?r" using sel_first_mem[OF r'[unfolded historical_receipt_def]] key by simp
    then show ?thesis using r' r(4) by (simp add: same_output_def)
  qed
  moreover have "source_row (sn_store_id snap) db' = Some m" using assms(3) by (simp add: db' source_row_def)
  ultimately show ?thesis using assms(4) by (auto simp: store_batch_def)
qed

text \<open>
  C20: Publishing the same extraction again writes nothing and returns the same identifiers, marked as already
  current; and after the source was invalidated, publishing it again makes its receipt stand again with the very
  assertions and relations that were stored before.
\<close>

theorem republication_restores:
  assumes "assertion_history env texts db"
    and "publish_source env read_only clock snap cs rs version db = Inr (result, db')"
    and "invalidate_source read_only now (sn_store_id snap) reason moment db' = Inr (n, db'')"
  shows "publish_source env read_only clock' snap cs rs version db' = Inr (result\<lparr>pr_already_current := True\<rparr>, db')
    \<and> (\<exists>db3. publish_source env read_only clock' snap cs rs version db'' = Inr (result\<lparr>pr_already_current := True\<rparr>, db3)
         \<and> ad_assertions db3 = ad_assertions db' \<and> ad_relations db3 = ad_relations db'
         \<and> receipt_active db3 (pr_store_id result, pr_version result, pr_sha result))"
proof -
  obtain b where b: "\<not> read_only" "prepare_batch env snap cs rs version = Inr b" "store_batch env clock snap b db = Inr (result, db')"
    using publish_source_batch[OF assms(2)] by blast
  have ok: "store_ok env texts db'" by (rule history_store_ok[OF assertion_history.publish[OF assms(1,2)]])
  note after = receipted_after[OF history_store_ok[OF assms(1)] b(3)]
  obtain m where m: "source_row (sn_store_id snap) db = Some m" "snapshot_from_row env m = snap" using b(3) by (cases rule: store_batch_cases) auto
  have m': "source_row (sn_store_id snap) db' = Some m" using m(1) after(2) by (simp add: source_row_def)
  obtain t why where db'': "db'' = db'\<lparr>ad_receipts := invalidate_rows t why (sn_store_id snap) (ad_receipts db')\<rparr>"
    using assms(3) by (auto simp: invalidate_source_def result_iffs)
  have res: "publish_result snap b True = result\<lparr>pr_already_current := True\<rparr>" using b(3) by (cases rule: store_batch_cases) (auto simp: publish_result_def)
  let ?db3 = "revive_receipt clock' snap b db''"
  note again = store_batch_revives[OF ok after(1) m' m(2) db'', of clock']
  have ok'': "store_ok env texts db''" by (rule store_ok_invalidated[OF ok assms(3)])
  have key: "(pr_store_id result, pr_version result, pr_sha result) = batch_key snap b"
    using arg_cong[OF res, of pr_store_id] arg_cong[OF res, of pr_version] arg_cong[OF res, of pr_sha] by (simp add: publish_result_def batch_key_def)
  have "receipt_active ?db3 (batch_key snap b)" by (rule receipted_active[OF receipted_after(1)[OF ok'' again]])
  moreover have "ad_assertions ?db3 = ad_assertions db'" "ad_relations ?db3 = ad_relations db'" by (simp_all add: revive_receipt_def db'')
  ultimately show ?thesis unfolding key using b(1,2) again store_batch_again[OF ok after(1) m' m(2)] res by (simp add: publish_source_def)
qed

section \<open>How much can be published\<close>

lemma length_join: "length (join sep xs) = (\<Sum>x \<leftarrow> xs. length x) + length sep * (length xs - 1)"
  by (induction sep xs rule: join.induct) auto

lemma length_json_string: "length s + 2 \<le> length (json_string s)"
proof -
  have "1 \<le> length (json_char c)" for c by (simp add: json_char_def Let_def)
  from add_mono[OF this] have "length s \<le> length (concat (map json_char s))" by (induction s) simp_all
  then show ?thesis by (simp add: json_string_def)
qed

lemma sum_list_sort_key: "(\<Sum>x \<leftarrow> sort_key f xs. g x) = (\<Sum>x \<leftarrow> xs. (g x :: nat))"
proof -
  have "(\<Sum>x \<leftarrow> insort_key f y ys. g x) = g y + (\<Sum>x \<leftarrow> ys. g x)" for y ys by (induction ys) auto
  then show ?thesis by (induction xs) auto
qed

lemma length_json_object_eq:
  "length (json_text env (JObj kvs)) = (\<Sum>kv \<leftarrow> kvs. length (json_string (fst kv)) + 1 + length (json_text env (snd kv))) + (length kvs - 1) + 2"
  by (simp add: length_join comp_def case_prod_beta sum_list_sort_key)

lemma length_json_object:
  "(\<Sum>kv \<leftarrow> kvs. length (fst kv) + 4 + length (json_text env (snd kv))) + 1 \<le> length (json_text env (JObj kvs))" if "kvs \<noteq> []"
proof -
  have "(\<Sum>kv \<leftarrow> kvs. length (fst kv) + 4 + length (json_text env (snd kv))) \<le> (\<Sum>kv \<leftarrow> kvs. length (json_string (fst kv)) + 1 + length (json_text env (snd kv)) + 1)"
    by (rule sum_list_mono) (use length_json_string in \<open>simp add: add.commute\<close>)
  also have "\<dots> = (\<Sum>kv \<leftarrow> kvs. length (json_string (fst kv)) + 1 + length (json_text env (snd kv))) + length kvs"
    unfolding sum_list_addf[of _ "\<lambda>_. 1"] by (simp add: sum_list_triv)
  finally show ?thesis using that unfolding length_json_object_eq by (cases kvs) simp_all
qed

lemma length_json_array: "(\<Sum>v \<leftarrow> vs. length (json_text env v) + 1) \<le> length (json_text env (JArr vs))"
proof -
  have "(\<Sum>v \<leftarrow> vs. length (json_text env v) + 1) = (\<Sum>v \<leftarrow> vs. length (json_text env v)) + length vs"
    unfolding sum_list_addf by (simp add: sum_list_triv)
  then show ?thesis by (simp add: length_join comp_def)
qed

lemma length_json_JStr: "length s + 2 \<le> length (json_text env (JStr s))"
  using length_json_string by simp

lemma assertion_json_size:
  assumes "length (as_sha a) = 64" "length (as_id a) = 64"
  shows "479 \<le> length (json_text env (JObj (assertion_payload a @ [(''assertion_id'', JStr (as_id a))])))"
proof -
  have "479 \<le> (\<Sum>kv \<leftarrow> assertion_payload a @ [(''assertion_id'', JStr (as_id a))]. length (fst kv) + 4 + length (json_text env (snd kv)))"
    using length_json_JStr[of "as_sha a" env] length_json_JStr[of "as_id a" env] length_json_JStr[of "as_version a" env]
      length_json_JStr[of "as_subject a" env] length_json_JStr[of "as_predicate a" env] length_json_JStr[of "as_object_json a" env]
      length_json_JStr[of "as_value_text a" env] length_json_JStr[of "as_kind a" env] length_json_JStr[of "as_polarity a" env]
      length_json_JStr[of "as_scope a" env] length_json_JStr[of "as_speaker a" env] length_json_JStr[of "as_quote a" env]
    unfolding assms by (simp add: assertion_payload_def)
  also have "\<dots> \<le> length (json_text env (JObj (assertion_payload a @ [(''assertion_id'', JStr (as_id a))])))"
    by (rule order_trans[OF _ length_json_object]) simp_all
  finally show ?thesis .
qed

lemma relation_json_size:
  assumes "length (rel_sha x) = 64" "length (rel_from x) = 64" "length (rel_to x) = 64" "length (rel_id x) = 64"
  shows "479 \<le> length (json_text env (JObj (relation_payload x @ [(''relation_id'', JStr (rel_id x))])))"
proof -
  have "478 \<le> (\<Sum>kv \<leftarrow> relation_payload x @ [(''relation_id'', JStr (rel_id x))]. length (fst kv) + 4 + length (json_text env (snd kv)))"
    using length_json_JStr[of "rel_sha x" env] length_json_JStr[of "rel_id x" env] length_json_JStr[of "rel_from x" env]
      length_json_JStr[of "rel_to x" env] length_json_JStr[of "rel_version x" env] length_json_JStr[of "rel_type x" env]
      length_json_JStr[of "rel_quote x" env]
    unfolding assms by (simp add: relation_payload_def)
  then have "479 \<le> (\<Sum>kv \<leftarrow> relation_payload x @ [(''relation_id'', JStr (rel_id x))]. length (fst kv) + 4 + length (json_text env (snd kv))) + 1" by simp
  also have "\<dots> \<le> length (json_text env (JObj (relation_payload x @ [(''relation_id'', JStr (rel_id x))])))"
    by (rule length_json_object) simp
  finally show ?thesis .
qed

lemma batch_json_size:
  assumes "\<forall>a \<in> set as. length (as_sha a) = 64 \<and> length (as_id a) = 64"
    "\<forall>x \<in> set rs. length (rel_sha x) = 64 \<and> length (rel_from x) = 64 \<and> length (rel_to x) = 64 \<and> length (rel_id x) = 64"
  shows "480 * (length as + length rs) \<le> length (json_text env (batch_json as rs))"
proof -
  let ?a = "\<lambda>a. JObj (assertion_payload a @ [(''assertion_id'', JStr (as_id a))])" and ?r = "\<lambda>r. JObj (relation_payload r @ [(''relation_id'', JStr (rel_id r))])"
  have "480 * length as = (\<Sum>a \<leftarrow> as. 480)" by (simp add: sum_list_triv)
  also have "\<dots> \<le> (\<Sum>v \<leftarrow> map ?a as. length (json_text env v) + 1)"
    unfolding map_map by (rule sum_list_mono) (use assertion_json_size[of _ env] assms(1) in fastforce)
  also have "\<dots> \<le> length (json_text env (JArr (map ?a as)))" by (rule length_json_array)
  finally have a: "480 * length as \<le> length (json_text env (JArr (map ?a as)))" .
  have "480 * length rs = (\<Sum>r \<leftarrow> rs. 480)" by (simp add: sum_list_triv)
  also have "\<dots> \<le> (\<Sum>v \<leftarrow> map ?r rs. length (json_text env v) + 1)"
    unfolding map_map by (rule sum_list_mono) (use relation_json_size[of _ env] assms(2) in fastforce)
  also have "\<dots> \<le> length (json_text env (JArr (map ?r rs)))" by (rule length_json_array)
  finally have r: "480 * length rs \<le> length (json_text env (JArr (map ?r rs)))" .
  have "length (json_text env (JArr (map ?a as))) + length (json_text env (JArr (map ?r rs))) \<le> length (json_text env (batch_json as rs))"
    unfolding batch_json_def by (rule order_trans[OF _ length_json_object]) simp_all
  then show ?thesis using a r by simp
qed

lemma prepared_sizes:
  assumes "\<forall>s. length (sha256 env s) = 64"
  shows "prepare_assertion env snap version c = Inr a \<Longrightarrow> length (as_id a) = 64"
    "prepare_relation env snap version rc = Inr x \<Longrightarrow> length (rel_from x) = 64 \<and> length (rel_to x) = 64 \<and> length (rel_id x) = 64"
proof -
  assume "prepare_assertion env snap version c = Inr a"
  then obtain a0 where "with_assertion_id env a0 = Inr a" unfolding prepare_assertion_def result_iffs by blast
  then show "length (as_id a) = 64" using assms by (auto simp: with_assertion_id_def and_then_Inr)
next
  assume "prepare_relation env snap version rc = Inr x"
  then show "length (rel_from x) = 64 \<and> length (rel_to x) = 64 \<and> length (rel_id x) = 64"
    using assms by (auto simp: prepare_relation_def Let_def result_iffs with_relation_id_def is_sha256_hex_def)
qed

text \<open>
  C37: No publication has more than 68 assertions and relations together: the digest of a batch is taken over its
  canonical JSON, which may not exceed 32768 characters, and every row needs 479 characters and a separator.  The
  limits of 500 assertions and 500 relations per source cannot be reached.
\<close>

theorem publication_capacity:
  assumes "\<forall>s. length (sha256 env s) = 64" "publish_source env read_only clock snap cs rs version db = Inr (result, db')"
  shows "length cs + length rs \<le> 68"
proof -
  obtain b where b: "prepare_batch env snap cs rs version = Inr b" "store_batch env clock snap b db = Inr (result, db')"
    using publish_source_batch[OF assms(2)] by blast
  obtain m where "source_row (sn_store_id snap) db = Some m" "snapshot_from_row env m = snap" using b(2) by (cases rule: store_batch_cases) auto
  then have sha: "length (sn_sha snap) = 64" using planned_message(3) assms(1) by metis
  obtain v as0 rs0 t where h: "all_ok (prepare_assertion env snap v) cs = Inr as0" "all_ok (prepare_relation env snap v) rs = Inr rs0"
      "canonical_json env (batch_json (sort_key as_id as0) (sort_key rel_id rs0)) = Inr t"
    using b(1) unfolding prepare_batch_def Let_def result_iffs by blast
  have "length (as_sha a) = 64 \<and> length (as_id a) = 64" if "a \<in> set as0" for a
  proof -
    from all_ok_origin[OF h(1) that] obtain c where c: "prepare_assertion env snap v c = Inr a" by blast
    show ?thesis using prepare_assertion_sound[OF c] prepared_sizes(1)[OF assms(1) c] sha by (simp add: sound_row_def as_key_def)
  qed
  moreover have "length (rel_sha x) = 64 \<and> length (rel_from x) = 64 \<and> length (rel_to x) = 64 \<and> length (rel_id x) = 64" if "x \<in> set rs0" for x
  proof -
    from all_ok_origin[OF h(2) that] obtain c where c: "prepare_relation env snap v c = Inr x" by blast
    show ?thesis using prepare_relation_sound[OF c] prepared_sizes(2)[OF assms(1) c] sha by (simp add: sound_relation_def rel_key_def)
  qed
  ultimately have "480 * (length as0 + length rs0) \<le> 32768"
    using batch_json_size[of "sort_key as_id as0" "sort_key rel_id rs0" env] h(3)[unfolded canonical_json_Inr] by auto
  moreover have "length as0 = length cs" "length rs0 = length rs" using h(1,2) unfolding all_ok_Inr by (auto dest: list_all2_lengthD)
  ultimately show ?thesis by simp
qed

section \<open>Integrity and messages without a source\<close>

text \<open>
  C21: In every history the tables of the assertion store are whole: keys and identifiers are unique, a message has at
  most one standing receipt per extraction version and that message still exists, every assertion and relation
  belongs to a receipt, and every relation joins two stored assertions.
\<close>

theorem assertion_tables_whole:
  assumes "assertion_history env texts db"
  shows "distinct (map rc_key (ad_receipts db)) \<and> distinct (map as_id (ad_assertions db)) \<and> distinct (map rel_id (ad_relations db))
    \<and> inj_on (\<lambda>r. (rc_store_id r, rc_version r)) {r \<in> set (ad_receipts db). rc_invalidated_at r = None}
    \<and> rc_store_id ` {r \<in> set (ad_receipts db). rc_invalidated_at r = None} \<subseteq> ms_store_id ` set (ad_messages db)
    \<and> as_key ` set (ad_assertions db) \<union> rel_key ` set (ad_relations db) \<subseteq> rc_key ` set (ad_receipts db)
    \<and> rel_from ` set (ad_relations db) \<union> rel_to ` set (ad_relations db) \<subseteq> as_id ` set (ad_assertions db)"
proof -
  note ok = history_store_ok[OF assms]
  have "inj_on (\<lambda>r. (rc_store_id r, rc_version r)) {r \<in> set (ad_receipts db). rc_invalidated_at r = None}"
    by (rule inj_onI) (use active_unique[OF ok] in simp)
  moreover have "rc_store_id ` {r \<in> set (ad_receipts db). rc_invalidated_at r = None} \<subseteq> ms_store_id ` set (ad_messages db)"
  proof
    fix i assume "i \<in> rc_store_id ` {r \<in> set (ad_receipts db). rc_invalidated_at r = None}"
    then obtain r where "r \<in> set (ad_receipts db)" "rc_invalidated_at r = None" "i = rc_store_id r" by blast
    then show "i \<in> ms_store_id ` set (ad_messages db)" using ok by (force simp: store_ok_def receipts_ok_def backed_def)
  qed
  moreover have "as_key ` set (ad_assertions db) \<union> rel_key ` set (ad_relations db) \<subseteq> rc_key ` set (ad_receipts db)"
      "rel_from ` set (ad_relations db) \<union> rel_to ` set (ad_relations db) \<subseteq> as_id ` set (ad_assertions db)"
    using ok unfolding store_ok_def assertions_ok_def assertion_ok_def relations_ok_def relation_ok_def by blast+
  ultimately show ?thesis using ok by (simp add: store_ok_def receipts_ok_def assertions_ok_def relations_ok_def)
qed

text \<open>A message whose source column is NULL fails the guard of the receipt table, because NULL equals nothing.\<close>

lemma null_source_refused:
  assumes "store_ok env texts db" "source_row (sn_store_id snap) db = Some m" "ms_source m = None"
    "\<forall>r \<in> set (ad_receipts db). rc_store_id r \<noteq> sn_store_id snap"
  shows "\<exists>e. publish_source env read_only clock snap cs rs version db = Inl e"
proof (rule ccontr)
  assume "\<not> ?thesis"
  then obtain result db' where "publish_source env read_only clock snap cs rs version db = Inr (result, db')"
    by (cases "publish_source env read_only clock snap cs rs version db") auto
  from publish_source_batch[OF this] obtain b where "store_batch env clock snap b db = Inr (result, db')" by blast
  then show False
  proof (cases rule: store_batch_cases)
    case current
    then show False using sel_first_mem[OF current(3)[unfolded current_receipt_def]] assms(4) by blast
  next
    case revived
    then show False using sel_first_mem[OF revived(4)[unfolded historical_receipt_def]] assms(4) by (auto simp: rc_key_def batch_key_def)
  next
    case (fresh m')
    obtain m0 where m0: "m0 \<in> set (ad_messages db)" "ms_store_id m0 = sn_store_id snap" "ms_source m0 \<noteq> None"
      using insert_batch_rows(3)[OF fresh(5)] by (auto simp: source_insert_guard_def list_ex_iff new_receipt_def)
    have "m0 = m" using message_unique[of texts db m0 m] source_row_Some[OF assms(2)] m0 assms(1) by (simp add: store_ok_def)
    then show False using m0(3) assms(3) by simp
  qed
qed

section \<open>A sample history\<close>

definition tea_env :: text_env where
  "tea_env = \<lparr>sha256 = (\<lambda>_. replicate 64 CHR ''a''), float_text = (\<lambda>_. ''0''), json_loads = (\<lambda>_. Some JNull)\<rparr>"

definition tea_message :: source_message where
  "tea_message = \<lparr>ms_store_id = 1, ms_session = ''s'', ms_source = Some ''cli'', ms_role = ''user'', ms_content = Some ''I like tea'',
     ms_timestamp = 5, ms_observed_at = None\<rparr>"

definition tea_db :: assertion_db where
  "tea_db = no_assertions\<lparr>ad_messages := [tea_message]\<rparr>"

definition tea_candidate :: AssertionCandidate where
  "tea_candidate = \<lparr>ca_start = 7, ca_end = 10, ca_subject = ''user:self'', ca_predicate = ''likes'', ca_object = JStr ''tea'', ca_value_text = ''tea'',
     ca_kind = ''preference'', ca_polarity = ''positive'', ca_strength = None, ca_scope = [], ca_event_at = None, ca_valid_from = None,
     ca_valid_to = None, ca_confidence = Some (Fin 1)\<rparr>"

lemma tea_history: "assertion_history tea_env {''I like tea''} tea_db"
proof -
  from assertion_history.arrive[OF assertion_history.start, of tea_message]
  show ?thesis by (simp add: tea_db_def no_assertions_def tea_message_def null_text_def)
qed

definition tea_row :: assertion_row where
  "tea_row = \<lparr>as_id = replicate 64 CHR ''a'', as_store_id = 1, as_version = ''assertions-v1'', as_sha = replicate 64 CHR ''a'', as_subject = ''user:self'',
     as_predicate = ''likes'', as_object_json = [CHR 0x22] @ ''tea'' @ [CHR 0x22], as_value_text = ''tea'', as_kind = ''preference'',
     as_polarity = ''positive'', as_strength = None, as_scope = [], as_speaker = ''user'', as_observed_at = 5, as_event_at = None,
     as_valid_from = None, as_valid_to = None, as_start = 7, as_end = 10, as_quote = ''tea'', as_confidence = 1, as_created_at = 0\<rparr>"

lemma length_json_string_le: "length (json_string s) \<le> 6 * length s + 2"
proof -
  have "length (json_char c) \<le> 6" for c by (simp add: json_char_def Let_def)
  from add_mono[OF this] have "length (concat (map json_char s)) \<le> 6 * length s" by (induction s) simp_all
  then show ?thesis by (simp add: json_string_def)
qed

lemma length_json_object_le:
  "length (json_text env (JObj kvs)) \<le> (\<Sum>kv \<leftarrow> kvs. 6 * length (fst kv) + 4 + length (json_text env (snd kv))) + 2"
proof -
  have "(\<Sum>kv \<leftarrow> kvs. length (json_string (fst kv)) + 1 + length (json_text env (snd kv))) + length kvs
    = (\<Sum>kv \<leftarrow> kvs. length (json_string (fst kv)) + 1 + length (json_text env (snd kv)) + 1)"
    unfolding sum_list_addf[of _ "\<lambda>_. 1"] by (simp add: sum_list_triv)
  also have "\<dots> \<le> (\<Sum>kv \<leftarrow> kvs. 6 * length (fst kv) + 4 + length (json_text env (snd kv)))"
    by (rule sum_list_mono) (use length_json_string_le in \<open>simp add: add.commute\<close>)
  finally show ?thesis unfolding length_json_object_eq by linarith
qed

lemma tea_json_small:
  "length (json_text tea_env (JObj (assertion_payload tea_row @ extra))) \<le> 8000"
  if "extra = [] \<or> extra = [(''assertion_id'', JStr (as_id tea_row))]"
proof (rule order_trans[OF length_json_object_le])
  note le = length_json_string_le
  show "(\<Sum>kv \<leftarrow> assertion_payload tea_row @ extra. 6 * length (fst kv) + 4 + length (json_text tea_env (snd kv))) + 2 \<le> 8000"
    using that le[of "replicate 64 CHR ''a''"] le[of "''assertions-v1''"] le[of "''user:self''"] le[of "''likes''"] le[of "[CHR 0x22] @ ''tea'' @ [CHR 0x22]"] le[of "''tea''"]
      le[of "''preference''"] le[of "''positive''"] le[of "[]"] le[of "''user''"]
    by (auto simp: assertion_payload_def tea_row_def tea_env_def opt_float_def int_str_def nat_digits.simps)
qed

lemma tea_sha [simp]: "sha256 tea_env t = replicate 64 CHR ''a''"
  by (simp add: tea_env_def)

abbreviation tea_snapshot :: SourceSnapshot where
  "tea_snapshot \<equiv> snapshot_from_row tea_env tea_message"

lemma tea_prepared: "prepare_assertion tea_env tea_snapshot ''assertions-v1'' tea_candidate = Inr tea_row"
proof -
  have t: "validated_text f e ''user:self'' = Inr ''user:self''" "validated_text f e ''likes'' = Inr ''likes''" "validated_text f True [] = Inr []" for f e
    by (simp_all add: validated_text_def strip_def py_isspace_def)
  have l: "lower (strip ''preference'') = ''preference''" "lower (strip ''positive'') = ''positive''"
    by (simp_all add: lower_def lower_char_def strip_def py_isspace_def Let_def)
  have j: "canonical_json tea_env (JStr ''tea'') = Inr ([CHR 0x22] @ ''tea'' @ [CHR 0x22])"
    by (simp add: canonical_json_def json_string_def json_char_def Let_def)
  have "canonical_json tea_env (JObj (assertion_payload tea_row)) = Inr (json_text tea_env (JObj (assertion_payload tea_row)))"
    unfolding canonical_json_Inr using tea_json_small[of "[]"] by (simp add: assertion_payload_def tea_row_def opt_float_def del: json_text.simps)
  moreover have "assertion_payload (tea_row\<lparr>as_id := []\<rparr>) = assertion_payload tea_row" by (simp add: assertion_payload_def)
  moreover have "sha256 tea_env t = as_id tea_row" for t by (simp add: tea_env_def tea_row_def)
  ultimately have w: "with_assertion_id tea_env (tea_row\<lparr>as_id := []\<rparr>) = Inr tea_row" by (simp add: with_assertion_id_def del: json_text.simps)
  show ?thesis using w
    by (simp add: prepare_assertion_def tea_candidate_def t l j bounded_probability_def finite_number_def null_confidence_def proper_interval_def
        valid_span_def tea_message_def null_text_def ASSERTION_KINDS_def ASSERTION_POLARITIES_def source_time_def tea_row_def slice_def
        del: json_text.simps)
qed

definition tea_batch :: batch where
  "tea_batch = \<lparr>bt_version = ''assertions-v1'', bt_assertions = [tea_row], bt_relations = [], bt_digest = replicate 64 CHR ''a''\<rparr>"

lemma tea_prepare_batch: "prepare_batch tea_env tea_snapshot [tea_candidate] [] ''assertions-v1'' = Inr tea_batch"
proof -
  have v: "validated_version ''assertions-v1'' = Inr ''assertions-v1''" by (simp add: validated_version_def strip_def py_isspace_def)
  have "length (json_text tea_env (batch_json [tea_row] [])) \<le> 32768"
    unfolding batch_json_def by (rule order_trans[OF length_json_object_le]) (use tea_json_small[of "[(''assertion_id'', JStr (as_id tea_row))]"] in \<open>simp del: json_text.simps(7)\<close>)
  moreover have "finite_json (batch_json [tea_row] [])" by (simp add: batch_json_def assertion_payload_def tea_row_def opt_float_def)
  ultimately have "canonical_json tea_env (batch_json [tea_row] []) = Inr (json_text tea_env (batch_json [tea_row] []))" by (simp add: canonical_json_Inr)
  then show ?thesis by (simp add: prepare_batch_def v tea_prepared tea_batch_def)
qed

definition tea_published :: assertion_db where
  "tea_published = tea_db\<lparr>ad_receipts := [new_receipt (\<lambda>_. 9) tea_snapshot tea_batch], ad_assertions := [tea_row\<lparr>as_created_at := 9\<rparr>]\<rparr>"

lemma tea_publishes:
  "publish_source tea_env False (\<lambda>_. 9) tea_snapshot [tea_candidate] [] ''assertions-v1'' tea_db = Inr (publish_result tea_snapshot tea_batch False, tea_published)"
proof -
  have "insert_batch (\<lambda>_. 9) tea_snapshot tea_batch tea_db = Inr tea_published"
    by (simp add: insert_batch_def insert_receipt_def source_insert_guard_def tea_db_def no_assertions_def new_receipt_def tea_message_def null_text_def
        source_time_def tea_batch_def insert_assertion_def quote_guard_def receipt_active_def rc_key_def as_key_def tea_row_def slice_def tea_published_def
        tea_env_def)
  moreover have "source_row (ms_store_id tea_message) tea_db = Some tea_message" by (simp add: source_row_def sel_first_def tea_db_def)
  moreover have "current_receipt tea_snapshot b tea_db = None" "historical_receipt tea_snapshot b tea_db = None" for b
    by (simp_all add: current_receipt_def historical_receipt_def sel_first_def tea_db_def no_assertions_def)
  ultimately show ?thesis by (simp add: publish_source_def tea_prepare_batch store_batch_def)
qed

lemma tea_published_history: "assertion_history tea_env {''I like tea''} tea_published"
  by (rule assertion_history.publish[OF tea_history tea_publishes])

definition tea_query :: assertion_query where
  "tea_query = \<lparr>aq_version = ''assertions-v1'', aq_subject = Some ''user:self'', aq_predicate = None, aq_kinds = None, aq_scope = None, aq_speaker = None,
     aq_store_id = None, aq_assertion_id = None, aq_as_of = Some (Fin 6), aq_invalidated = False, aq_limit = 10\<rparr>"

lemma tea_standing: "standing tea_query ''assertions-v1'' None None (Some 6) tea_published = [tea_row\<lparr>as_created_at := 9\<rparr>]"
  by (simp add: standing_def tea_query_def assertion_matches_def opt_eq_def valid_at_def tea_published_def tea_db_def no_assertions_def tea_row_def
      receipt_active_def new_receipt_def rc_key_def as_key_def tea_message_def tea_batch_def)

theorem assertion_query_exact_witness:
  "\<exists>items. query_assertions tea_env tea_query tea_published = Inr items \<and> map (\<lambda>it. as_quote (ai_row it)) items = [''tea'']"
proof -
  have "reads_own_json tea_env" by (simp add: reads_own_json_def tea_env_def)
  moreover have "checked_query tea_query ''assertions-v1'' None None (Some 6)"
    by (simp add: checked_query_def tea_query_def validated_version_def strip_def py_isspace_def query_assertion_id_def query_names_def finite_number_def)
  moreover have "\<not> aq_invalidated tea_query" by (simp add: tea_query_def)
  ultimately obtain items where i: "query_assertions tea_env tea_query tea_published = Inr items" "map ai_row items = [tea_row\<lparr>as_created_at := 9\<rparr>]"
    using assertion_query_exact[OF tea_published_history, of tea_query "''assertions-v1''" None None "Some 6"] by (auto simp: tea_standing)
  have "map (\<lambda>it. as_quote (ai_row it)) items = map as_quote (map ai_row items)" by simp
  then show ?thesis using i by (simp add: tea_row_def)
qed

theorem republication_restores_witness:
  "\<exists>n db'' db3. invalidate_source False 10 1 ''manual'' None tea_published = Inr (n, db'')
     \<and> publish_source tea_env False (\<lambda>_. 11) tea_snapshot [tea_candidate] [] ''assertions-v1'' db'' = Inr (publish_result tea_snapshot tea_batch True, db3)
     \<and> ad_assertions db3 = [tea_row\<lparr>as_created_at := 9\<rparr>]"
proof -
  obtain n db'' where i: "invalidate_source False 10 (sn_store_id tea_snapshot) ''manual'' None tea_published = Inr (n, db'')"
    by (auto simp: invalidate_source_def validated_text_def finite_number_def strip_def py_isspace_def)
  moreover have "sn_store_id tea_snapshot = 1" by (simp add: tea_message_def)
  ultimately show ?thesis using republication_restores[OF tea_history tea_publishes i, of "\<lambda>_. 11"] by (auto simp: tea_published_def publish_result_def)
qed

theorem publication_capacity_witness:
  "(\<exists>r db. publish_source tea_env False (\<lambda>_. 9) tea_snapshot [tea_candidate] [] ''assertions-v1'' tea_db = Inr (r, db))
     \<and> length [tea_candidate] + length ([] :: AssertionRelationCandidate list) \<le> 68"
  using publication_capacity[OF _ tea_publishes] tea_publishes by auto

theorem assertion_tables_whole_witness:
  "as_key ` set (ad_assertions tea_published) \<subseteq> rc_key ` set (ad_receipts tea_published) \<and> ad_assertions tea_published \<noteq> []"
  using assertion_tables_whole[OF tea_published_history] by (simp add: tea_published_def)

end
