(* ===== verification/Assertion_State.thy ===== *)
theory Assertion_State
  imports Assertion_Queries
begin

text \<open>
  The lifecycle state of assertions, \<^verbatim>\<open>src/assertion_state.py\<close>: \<open>query_assertion_state\<close> reads the standing assertions on
  a subject and the relations between them from the assertion store and derives, without looking at recency, which
  of them are active and which are in conflict.
\<close>

definition item_id :: "assertion_item \<Rightarrow> string" where
  "item_id it = as_id (ai_row it)"

definition item_kind :: "assertion_item \<Rightarrow> string" where
  "item_kind it = as_kind (ai_row it)"

definition item_subject :: "assertion_item \<Rightarrow> string" where
  "item_subject it = as_subject (ai_row it)"

definition item_speaker :: "assertion_item \<Rightarrow> string" where
  "item_speaker it = as_speaker (ai_row it)"

definition inactive_status :: "string \<Rightarrow> string option" where
  "inactive_status t = map_of [(''cancels'', ''cancelled''), (''fulfills'', ''fulfilled''), (''reverses'', ''reversed''), (''supersedes'', ''superseded'')] t"

definition object_identity :: "text_env \<Rightarrow> assertion_item \<Rightarrow> string" where
  "object_identity env it = json_text env (JObj [(''object'', ai_object it), (''polarity'', JStr (as_polarity (ai_row it))),
     (''value_text'', JStr (as_value_text (ai_row it)))])"

definition attribution :: "assertion_item \<Rightarrow> string" where
  "attribution r =
     (if item_speaker r \<in> {''user'', ''assistant''} \<and> item_subject r = item_speaker r @ '':self'' then ''first_person''
      else (case map_of [(''user'', ''assistant:self''), (''assistant'', ''user:self'')] (item_speaker r) of
        Some addressee \<Rightarrow> if item_subject r = addressee then ''addressee'' else ''third_party''
      | None \<Rightarrow> ''third_party''))"

text \<open>Sets of statuses are lists without duplicates; \<open>sorted(...)[0]\<close> is the least of them.\<close>

definition least_status :: "string list \<Rightarrow> string" where
  "least_status ss = hd (sort ss)"

definition semantic_state :: "assertion_item \<Rightarrow> string list \<Rightarrow> string list \<Rightarrow> string" where
  "semantic_state r lifecycle_status dispositions =
     (if item_kind r = ''recommendation'' then
        (if length dispositions > 1 then ''conflicting_disposition''
         else if dispositions \<noteq> [] then hd dispositions
         else if lifecycle_status \<noteq> [] then least_status lifecycle_status
         else ''unanswered'')
      else if item_kind r = ''commitment'' then
        (if ''fulfilled'' \<in> set lifecycle_status then ''fulfilled''
         else if ''cancelled'' \<in> set lifecycle_status then ''cancelled''
         else if lifecycle_status \<noteq> [] then least_status lifecycle_status
         else ''pending'')
      else if lifecycle_status \<noteq> [] then least_status lifecycle_status
      else ''current'')"

section \<open>Reading the relations\<close>

record relation_state =
  rs_lifecycle :: "string \<Rightarrow> string list"
  rs_dispositions :: "string \<Rightarrow> string list"
  rs_conflicts :: "string list"

definition add_to :: "string \<Rightarrow> string \<Rightarrow> (string \<Rightarrow> string list) \<Rightarrow> string \<Rightarrow> string list" where
  "add_to key v m = m(key := List.insert v (m key))"

definition read_relation :: "string list \<Rightarrow> string list \<Rightarrow> relation_state \<Rightarrow> relation_row \<Rightarrow> relation_state" where
  "read_relation ids recommendations s r =
     (let s1 = (case inactive_status (rel_type r) of
            Some status \<Rightarrow> if rel_to r \<in> set ids then s\<lparr>rs_lifecycle := add_to (rel_to r) status (rs_lifecycle s)\<rparr> else s
          | None \<Rightarrow> s);
          s2 = (if rel_type r = ''contradicts''
            then s1\<lparr>rs_conflicts := rs_conflicts s1 @ filter (\<lambda>i. i \<in> set ids) [rel_from r, rel_to r]\<rparr> else s1);
          s3 = (if rel_to r \<in> set recommendations \<and> rel_type r \<in> {''confirms''}
            then s2\<lparr>rs_dispositions := add_to (rel_to r) ''accepted'' (rs_dispositions s2)\<rparr> else s2)
      in if rel_to r \<in> set recommendations \<and> rel_type r \<in> {''cancels'', ''contradicts'', ''reverses''}
         then s3\<lparr>rs_dispositions := add_to (rel_to r) ''declined'' (rs_dispositions s3)\<rparr> else s3)"

definition read_relations :: "string list \<Rightarrow> string list \<Rightarrow> relation_row list \<Rightarrow> relation_state" where
  "read_relations ids recommendations rels = foldl (read_relation ids recommendations)
     \<lparr>rs_lifecycle = (\<lambda>_. []), rs_dispositions = (\<lambda>_. []), rs_conflicts = []\<rparr> rels"

section \<open>Grouping the active assertions\<close>

type_synonym variant = string
type_synonym group_key = "string \<times> string \<times> string \<times> string"

text \<open>A dictionary keeps its keys in the order they were first set.\<close>

fun dict_put :: "'k \<Rightarrow> 'v \<Rightarrow> ('v \<Rightarrow> 'v) \<Rightarrow> ('k \<times> 'v) list \<Rightarrow> ('k \<times> 'v) list" where
  "dict_put k d f [] = [(k, f d)]"
| "dict_put k d f ((k', v) # m) = (if k' = k then (k', f v) # m else (k', v) # dict_put k d f m)"

definition group_key :: "assertion_item \<Rightarrow> group_key" where
  "group_key r = (item_subject r, as_predicate (ai_row r), as_scope (ai_row r), item_kind r)"

definition file_under :: "'k \<Rightarrow> 'v \<Rightarrow> 'i \<Rightarrow> ('k \<times> ('v \<times> 'i list) list) list \<Rightarrow> ('k \<times> ('v \<times> 'i list) list) list" where
  "file_under k v i groups = dict_put k [] (dict_put v [] (\<lambda>ids. ids @ [i])) groups"

definition add_row :: "text_env \<Rightarrow> string list \<Rightarrow> (group_key \<times> (variant \<times> string list) list) list \<Rightarrow> assertion_item
    \<Rightarrow> (group_key \<times> (variant \<times> string list) list) list" where
  "add_row env active groups r = (if item_id r \<notin> set active then groups else file_under (group_key r) (object_identity env r) (item_id r) groups)"

definition group_conflicts :: "('k \<times> ('v \<times> 'i list) list) list \<Rightarrow> 'i list" where
  "group_conflicts groups = concat (map (\<lambda>(k, variants). if length variants > 1 then concat (map snd variants) else []) groups)"

section \<open>The state query\<close>

record annotated =
  an_row :: assertion_item
  an_active :: "bool option"
  an_lifecycle :: "string list option"
  an_conflict :: bool
  an_attribution :: string
  an_semantic_state :: string

record state_result =
  st_assertions :: "annotated list"
  st_relations :: "relation_row list"
  st_active_ids :: "string list option"
  st_conflict_ids :: "string list"
  st_assertions_truncated :: bool
  st_relations_truncated :: bool

definition active_ids :: "assertion_item list \<Rightarrow> relation_state \<Rightarrow> string list" where
  "active_ids rows rs = filter (\<lambda>i. rs_lifecycle rs i = []) (map item_id rows)"

definition unresolved_conflicts :: "text_env \<Rightarrow> assertion_item list \<Rightarrow> relation_state \<Rightarrow> string list" where
  "unresolved_conflicts env rows rs = filter (\<lambda>i. i \<in> set (active_ids rows rs)) (rs_conflicts rs)
     @ group_conflicts (foldl (add_row env (active_ids rows rs)) [] rows)"

definition derive_state :: "text_env \<Rightarrow> assertion_item list \<Rightarrow> relation_row list \<Rightarrow> nat \<Rightarrow> state_result" where
  "derive_state env rows relations row_limit =
     (let ids = map item_id rows;
          truncated = (length relations = 500);
          rs = read_relations ids (map item_id (filter (\<lambda>r. item_kind r = ''recommendation'') rows)) relations;
          conflicts = unresolved_conflicts env rows rs
      in \<lparr>st_assertions = map (\<lambda>r. \<lparr>an_row = r,
             an_active = (if truncated then None else Some (item_id r \<in> set (active_ids rows rs))),
             an_lifecycle = (if truncated then None else Some (sort (rs_lifecycle rs (item_id r)))),
             an_conflict = (item_id r \<in> set conflicts),
             an_attribution = attribution r,
             an_semantic_state = (if truncated then ''unknown'' else semantic_state r (rs_lifecycle rs (item_id r)) (rs_dispositions rs (item_id r)))\<rparr>) rows,
          st_relations = relations,
          st_active_ids = (if truncated then None else Some (filter (\<lambda>i. i \<in> set (active_ids rows rs)) ids)),
          st_conflict_ids = filter (\<lambda>i. i \<in> set conflicts) ids,
          st_assertions_truncated = (length rows = row_limit),
          st_relations_truncated = truncated\<rparr>)"

definition state_assertion_query :: "string \<Rightarrow> string option \<Rightarrow> string list option \<Rightarrow> string option \<Rightarrow> string option \<Rightarrow> number option \<Rightarrow> int \<Rightarrow> assertion_query" where
  "state_assertion_query subject predicate kinds scope speaker as_of row_limit = \<lparr>aq_version = ''assertions-v1'', aq_subject = Some subject,
     aq_predicate = predicate, aq_kinds = kinds, aq_scope = scope, aq_speaker = speaker, aq_store_id = None, aq_assertion_id = None,
     aq_as_of = as_of, aq_invalidated = False, aq_limit = row_limit\<rparr>"

definition state_relation_query :: "string list \<Rightarrow> number option \<Rightarrow> relation_query" where
  "state_relation_query ids as_of = \<lparr>rq_version = ''assertions-v1'', rq_assertion_id = None, rq_assertion_ids = Some ids, rq_types = None,
     rq_as_of = as_of, rq_invalidated = False, rq_limit = 500\<rparr>"

definition query_assertion_state :: "text_env \<Rightarrow> string \<Rightarrow> string option \<Rightarrow> string list option \<Rightarrow> string option \<Rightarrow> string option \<Rightarrow> number option \<Rightarrow> int
    \<Rightarrow> assertion_db \<Rightarrow> assertion_error + state_result" where
  "query_assertion_state env subject_key predicate kinds scope speaker as_of row_limit db =
     require (strip subject_key \<noteq> []) (ValueError ''subject_key is required for a bounded state query'')
     (and_then (query_assertions env (state_assertion_query (strip subject_key) predicate kinds scope speaker as_of row_limit) db) (\<lambda>rows.
      and_then (if rows = [] then Inr [] else query_relations env (state_relation_query (map item_id rows) as_of) db) (\<lambda>relations.
      Inr (derive_state env rows relations (nat row_limit)))))"

section \<open>What the relations say\<close>

definition ended_by :: "relation_row list \<Rightarrow> string \<Rightarrow> string \<Rightarrow> bool" where
  "ended_by rels i status \<longleftrightarrow> (\<exists>r \<in> set rels. rel_to r = i \<and> inactive_status (rel_type r) = Some status)"

definition disposed :: "relation_row list \<Rightarrow> string \<Rightarrow> string \<Rightarrow> bool" where
  "disposed rels i d \<longleftrightarrow> (\<exists>r \<in> set rels. rel_to r = i \<and>
     (d = ''accepted'' \<and> rel_type r = ''confirms'' \<or> d = ''declined'' \<and> rel_type r \<in> {''cancels'', ''contradicts'', ''reverses''}))"

definition contradicted :: "relation_row list \<Rightarrow> string \<Rightarrow> bool" where
  "contradicted rels i \<longleftrightarrow> (\<exists>r \<in> set rels. rel_type r = ''contradicts'' \<and> i \<in> {rel_from r, rel_to r})"

lemma add_to_iff [simp]: "v \<in> set (add_to k w m i) \<longleftrightarrow> v \<in> set (m i) \<or> i = k \<and> v = w"
  by (auto simp: add_to_def)

lemma add_to_distinct: "(\<And>i. distinct (m i)) \<Longrightarrow> distinct (add_to k w m i)"
  by (simp add: add_to_def)

lemma read_relation_fields:
  "v \<in> set (rs_lifecycle (read_relation ids recs s r) i) \<longleftrightarrow> v \<in> set (rs_lifecycle s i) \<or> i \<in> set ids \<and> ended_by [r] i v"
  "v \<in> set (rs_dispositions (read_relation ids recs s r) i) \<longleftrightarrow> v \<in> set (rs_dispositions s i) \<or> i \<in> set recs \<and> disposed [r] i v"
  "v \<in> set (rs_conflicts (read_relation ids recs s r)) \<longleftrightarrow> v \<in> set (rs_conflicts s) \<or> v \<in> set ids \<and> contradicted [r] v"
  by (auto simp: read_relation_def Let_def ended_by_def disposed_def contradicted_def split: option.split)

lemma read_relation_distinct:
  "(\<And>i. distinct (rs_dispositions s i)) \<Longrightarrow> distinct (rs_dispositions (read_relation ids recs s r) i)"
  by (auto simp: read_relation_def Let_def add_to_distinct split: option.split)

lemma relations_fold:
  "v \<in> set (rs_lifecycle (foldl (read_relation ids recs) s rels) i) \<longleftrightarrow> v \<in> set (rs_lifecycle s i) \<or> i \<in> set ids \<and> ended_by rels i v"
  "v \<in> set (rs_dispositions (foldl (read_relation ids recs) s rels) i) \<longleftrightarrow> v \<in> set (rs_dispositions s i) \<or> i \<in> set recs \<and> disposed rels i v"
  "v \<in> set (rs_conflicts (foldl (read_relation ids recs) s rels)) \<longleftrightarrow> v \<in> set (rs_conflicts s) \<or> v \<in> set ids \<and> contradicted rels v"
  by (induction rels arbitrary: s) (auto simp: read_relation_fields ended_by_def disposed_def contradicted_def)

lemma relations_distinct:
  "(\<And>i. distinct (rs_dispositions s i)) \<Longrightarrow> distinct (rs_dispositions (foldl (read_relation ids recs) s rels) i)"
  by (induction rels arbitrary: s) (auto simp: read_relation_distinct)

lemma read_relations_iff:
  "v \<in> set (rs_lifecycle (read_relations ids recs rels) i) \<longleftrightarrow> i \<in> set ids \<and> ended_by rels i v"
  "v \<in> set (rs_dispositions (read_relations ids recs rels) i) \<longleftrightarrow> i \<in> set recs \<and> disposed rels i v"
  "v \<in> set (rs_conflicts (read_relations ids recs rels)) \<longleftrightarrow> v \<in> set ids \<and> contradicted rels v"
  "distinct (rs_dispositions (read_relations ids recs rels) i)"
  by (simp_all add: read_relations_def relations_fold relations_distinct)

section \<open>What the groups hold\<close>

lemma dict_put_map_of: "map_of (dict_put k d f m) x = (if x = k then Some (f (case map_of m k of None \<Rightarrow> d | Some v \<Rightarrow> v)) else map_of m x)"
  by (induction m) auto

lemma dict_put_keys: "fst ` set (dict_put k d f m) = insert k (fst ` set m)"
  by (induction m) (force split: if_splits)+

lemma dict_put_distinct: "distinct (map fst m) \<Longrightarrow> distinct (map fst (dict_put k d f m))"
  by (induction m) (auto simp: dict_put_keys)

text \<open>The identifiers filed under a key and a variant, among the filings env made so far.\<close>

definition filed :: "('k \<times> 'v \<times> 'i) list \<Rightarrow> 'k \<Rightarrow> 'v \<Rightarrow> 'i list" where
  "filed es k v = map (snd \<circ> snd) (filter (\<lambda>e. fst e = k \<and> fst (snd e) = v) es)"

definition look :: "('k \<times> ('v \<times> 'i list) list) list \<Rightarrow> 'k \<Rightarrow> 'v \<Rightarrow> 'i list option" where
  "look groups k v = (case map_of groups k of None \<Rightarrow> None | Some vs \<Rightarrow> map_of vs v)"

definition groups_ok :: "('k \<times> 'v \<times> 'i) list \<Rightarrow> ('k \<times> ('v \<times> 'i list) list) list \<Rightarrow> bool" where
  "groups_ok es groups \<longleftrightarrow> distinct (map fst groups) \<and> (\<forall>k vs. map_of groups k = Some vs \<longrightarrow> distinct (map fst vs))
     \<and> (\<forall>k v. look groups k v = (if filed es k v = [] then None else Some (filed es k v)))"

lemma file_under_look:
  "look (file_under k v i groups) k' v' = (if k' = k \<and> v' = v then Some ((case look groups k v of None \<Rightarrow> [] | Some ids \<Rightarrow> ids) @ [i]) else look groups k' v')"
  by (auto simp: look_def file_under_def dict_put_map_of split: option.split)

lemma file_under_ok:
  assumes "groups_ok es groups"
  shows "groups_ok (es @ [(k, v, i)]) (file_under k v i groups)"
proof -
  let ?g = "file_under k v i groups"
  have d: "distinct (map fst groups)" "\<And>k vs. map_of groups k = Some vs \<Longrightarrow> distinct (map fst vs)"
    "\<And>k v. look groups k v = (if filed es k v = [] then None else Some (filed es k v))" using assms by (simp_all add: groups_ok_def)
  have "distinct (map fst ?g)" using d(1) by (simp add: file_under_def dict_put_distinct)
  moreover have "distinct (map fst vs)" if "map_of ?g k' = Some vs" for k' vs
    using that d(2)[of k'] d(2)[of k] by (auto simp: file_under_def dict_put_map_of dict_put_distinct split: if_splits option.splits)
  moreover have "look ?g k' v' = (if filed (es @ [(k, v, i)]) k' v' = [] then None else Some (filed (es @ [(k, v, i)]) k' v'))" for k' v'
    unfolding file_under_look d(3) by (simp add: filed_def)
  ultimately show ?thesis by (simp add: groups_ok_def)
qed

definition filings :: "text_env \<Rightarrow> string list \<Rightarrow> assertion_item list \<Rightarrow> (group_key \<times> variant \<times> string) list" where
  "filings env active rows = map (\<lambda>r. (group_key r, object_identity env r, item_id r)) (filter (\<lambda>r. item_id r \<in> set active) rows)"

lemma groups_fold:
  "groups_ok es groups \<Longrightarrow> groups_ok (es @ filings env active rows) (foldl (add_row env active) groups rows)"
proof (induction rows arbitrary: es groups)
  case (Cons r rows)
  show ?case
  proof (cases "item_id r \<in> set active")
    case True
    then show ?thesis using Cons.IH[OF file_under_ok[OF Cons.prems, of "group_key r" "object_identity env r" "item_id r"]]
      by (simp add: add_row_def filings_def)
  next
    case False
    then show ?thesis using Cons.IH[OF Cons.prems] by (simp add: add_row_def filings_def)
  qed
qed (simp add: filings_def)

lemma length_more_than_one: "distinct (map fst vs) \<Longrightarrow> length vs > 1 \<longleftrightarrow> (\<exists>a \<in> fst ` set vs. \<exists>b \<in> fst ` set vs. a \<noteq> b)"
proof -
  assume d: "distinct (map fst vs)"
  then have "length vs = card (fst ` set vs)" by (metis distinct_card length_map list.set_map)
  moreover have "card A > 1 \<longleftrightarrow> (\<exists>a \<in> A. \<exists>b \<in> A. a \<noteq> b)" if "finite A" for A :: "'a set"
    using that card_le_Suc0_iff_eq[of A] by (auto simp: not_le[symmetric])
  ultimately show ?thesis by simp
qed

lemma group_conflicts_iff:
  fixes groups :: "('k \<times> ('v \<times> 'i list) list) list"
  assumes "groups_ok es groups"
  shows "i \<in> set (group_conflicts groups) \<longleftrightarrow> (\<exists>k v v'. i \<in> set (filed es k v) \<and> v' \<noteq> v \<and> filed es k v' \<noteq> [])"
proof -
  have d: "distinct (map fst groups)" "\<And>k vs. map_of groups k = Some vs \<Longrightarrow> distinct (map fst vs)"
    and lk: "\<And>k v. look groups k v = (if filed es k v = [] then None else Some (filed es k v))" using assms by (simp_all add: groups_ok_def)
  have keys: "v \<in> fst ` set vs \<longleftrightarrow> filed es k v \<noteq> []" if "map_of groups k = Some vs" for k vs v
  proof -
    have "v \<in> fst ` set vs \<longleftrightarrow> map_of vs v \<noteq> None" by (simp add: map_of_eq_None_iff)
    then show ?thesis using lk[of k v] that by (simp add: look_def)
  qed
  have ids: "(\<exists>ids. (v, ids) \<in> set vs \<and> i \<in> set ids) \<longleftrightarrow> i \<in> set (filed es k v)" if "map_of groups k = Some vs" for k vs v
  proof -
    have "map_of vs v = (if filed es k v = [] then None else Some (filed es k v))" using lk[of k v] that by (simp add: look_def)
    then show ?thesis unfolding map_of_eq_Some_iff[OF d(2)[OF that], symmetric] by simp
  qed
  have f: "i \<in> set (case kv of (k, vs) \<Rightarrow> if length vs > 1 then concat (map snd vs) else []) \<longleftrightarrow>
      length (snd kv) > 1 \<and> (\<exists>w \<in> set (snd kv). i \<in> set (snd w))" for kv :: "'k \<times> ('v \<times> 'i list) list" by (cases kv) simp
  have "i \<in> set (group_conflicts groups) \<longleftrightarrow> (\<exists>kv \<in> set groups. length (snd kv) > 1 \<and> (\<exists>w \<in> set (snd kv). i \<in> set (snd w)))"
    by (simp only: group_conflicts_def set_concat set_map UN_iff bex_simps f)
  also have "\<dots> \<longleftrightarrow> (\<exists>k vs. (k, vs) \<in> set groups \<and> length vs > 1 \<and> (\<exists>v ids. (v, ids) \<in> set vs \<and> i \<in> set ids))" by force
  also have "\<dots> \<longleftrightarrow> (\<exists>k vs. map_of groups k = Some vs \<and> length vs > 1 \<and> (\<exists>v ids. (v, ids) \<in> set vs \<and> i \<in> set ids))"
    by (simp add: map_of_eq_Some_iff[OF d(1)])
  also have "\<dots> \<longleftrightarrow> (\<exists>k v v'. i \<in> set (filed es k v) \<and> v' \<noteq> v \<and> filed es k v' \<noteq> [])" (is "?lhs \<longleftrightarrow> ?rhs")
  proof
    assume ?lhs
    then obtain k vs v where h: "map_of groups k = Some vs" "length vs > 1" "\<exists>ids. (v, ids) \<in> set vs \<and> i \<in> set ids" by blast
    have "i \<in> set (filed es k v)" using ids[OF h(1), of v] h(3) by blast
    moreover obtain a b where "filed es k a \<noteq> []" "filed es k b \<noteq> []" "a \<noteq> b"
      using h(2) unfolding length_more_than_one[OF d(2)[OF h(1)]] Bex_def keys[OF h(1)] by blast
    moreover define w where "w = (if a = v then b else a)"
    ultimately have "i \<in> set (filed es k v) \<and> w \<noteq> v \<and> filed es k w \<noteq> []" by (auto simp: w_def)
    then show ?rhs by (intro exI)
  next
    assume ?rhs
    then obtain k v v' where h: "i \<in> set (filed es k v)" "v' \<noteq> v" "filed es k v' \<noteq> []" by blast
    then have ne: "filed es k v \<noteq> []" by auto
    then obtain vs where vs: "map_of groups k = Some vs" using lk[of k v] by (auto simp: look_def split: option.splits)
    have "length vs > 1" unfolding length_more_than_one[OF d(2)[OF vs]] Bex_def keys[OF vs] using h(2,3) ne by blast
    then show ?lhs using vs ids[OF vs, of v] h(1) by blast
  qed
  finally show ?thesis .
qed

section \<open>Conflicts are preserved\<close>

definition live :: "relation_row list \<Rightarrow> string \<Rightarrow> bool" where
  "live rels i \<longleftrightarrow> (\<forall>status. \<not> ended_by rels i status)"

lemma active_iff: "i \<in> set (active_ids rows (read_relations (map item_id rows) recs rels)) \<longleftrightarrow> i \<in> item_id ` set rows \<and> live rels i"
proof -
  have "rs_lifecycle (read_relations (map item_id rows) recs rels) i = [] \<longleftrightarrow> i \<notin> item_id ` set rows \<or> live rels i"
    using read_relations_iff(1)[of _ "map item_id rows" recs rels i] unfolding live_def by (metis (no_types, lifting) empty_iff last_in_set list.set(1) list.set_map)
  then show ?thesis by (auto simp: active_ids_def)
qed

lemma filed_filings: "filed (filings env active rows) k v = map item_id (filter (\<lambda>r. item_id r \<in> set active \<and> group_key r = k \<and> object_identity env r = v) rows)"
  by (induction rows) (auto simp: filed_def filings_def)

lemma filed_iff: "i \<in> set (filed (filings env active rows) k v) \<longleftrightarrow> (\<exists>r \<in> set rows. item_id r = i \<and> i \<in> set active \<and> group_key r = k \<and> object_identity env r = v)"
  by (auto simp: filed_filings)

lemma filed_nonempty: "filed (filings env active rows) k v \<noteq> [] \<longleftrightarrow> (\<exists>r \<in> set rows. item_id r \<in> set active \<and> group_key r = k \<and> object_identity env r = v)"
  by (auto simp: filed_filings filter_empty_conv)

text \<open>An assertion that still stands and either is contradicted by a relation or disagrees with another standing one.\<close>

definition in_conflict :: "text_env \<Rightarrow> assertion_item list \<Rightarrow> relation_row list \<Rightarrow> assertion_item \<Rightarrow> bool" where
  "in_conflict env rows rels r \<longleftrightarrow> live rels (item_id r) \<and> (contradicted rels (item_id r)
     \<or> (\<exists>r' \<in> set rows. live rels (item_id r') \<and> group_key r' = group_key r \<and> object_identity env r' \<noteq> object_identity env r))"

lemma conflicts_iff:
  "i \<in> set (unresolved_conflicts env rows (read_relations (map item_id rows) recs rels)) \<longleftrightarrow> (\<exists>r \<in> set rows. item_id r = i \<and> in_conflict env rows rels r)"
proof -
  let ?rs = "read_relations (map item_id rows) recs rels"
  let ?active = "active_ids rows ?rs"
  have "groups_ok [] ([] :: (group_key \<times> (variant \<times> string list) list) list)" by (simp add: groups_ok_def look_def filed_def)
  from groups_fold[OF this, of env ?active rows]
  have g: "i \<in> set (group_conflicts (foldl (add_row env ?active) [] rows)) \<longleftrightarrow>
      (\<exists>k v v'. i \<in> set (filed (filings env ?active rows) k v) \<and> v' \<noteq> v \<and> filed (filings env ?active rows) k v' \<noteq> [])"
    by (intro group_conflicts_iff) simp
  have "i \<in> set (group_conflicts (foldl (add_row env ?active) [] rows)) \<longleftrightarrow> (\<exists>r \<in> set rows. item_id r = i \<and> live rels (item_id r) \<and>
      (\<exists>r' \<in> set rows. live rels (item_id r') \<and> group_key r' = group_key r \<and> object_identity env r' \<noteq> object_identity env r))"
    unfolding g filed_iff filed_nonempty active_iff by blast
  moreover have "i \<in> set (filter (\<lambda>i. i \<in> set ?active) (rs_conflicts ?rs)) \<longleftrightarrow> (\<exists>r \<in> set rows. item_id r = i \<and> live rels (item_id r) \<and> contradicted rels (item_id r))"
    unfolding set_filter mem_Collect_eq active_iff read_relations_iff(3) by auto
  ultimately show ?thesis unfolding unresolved_conflicts_def set_append Un_iff in_conflict_def by blast
qed

lemma two_dispositions:
  assumes "distinct ds" "\<And>d. d \<in> set ds \<longleftrightarrow> d = a \<and> P \<or> d = b \<and> Q" "a \<noteq> b"
  shows "length ds > 1 \<longleftrightarrow> P \<and> Q"
proof -
  have s: "set ds = (if P then {a} else {}) \<union> (if Q then {b} else {})" by (rule set_eqI) (simp add: assms(2))
  have "length ds = card (set ds)" using assms(1) by (simp add: distinct_card)
  then show ?thesis unfolding s using assms(3) by simp
qed

lemma disposed_split: "disposed rels i d \<longleftrightarrow> d = ''accepted'' \<and> disposed rels i ''accepted'' \<or> d = ''declined'' \<and> disposed rels i ''declined''"
  by (auto simp: disposed_def)

lemma image_of_some: "{i \<in> f ` A. \<exists>r \<in> A. f r = i \<and> P r} = f ` {r \<in> A. P r}"
  by (auto intro: rev_image_eqI)

lemma semantic_conflicting:
  assumes "item_kind r = ''recommendation''" "\<forall>d \<in> set ds. d \<noteq> ''conflicting_disposition''" "\<forall>d \<in> set ss. d \<noteq> ''conflicting_disposition''"
  shows "semantic_state r ss ds = ''conflicting_disposition'' \<longleftrightarrow> length ds > 1"
proof -
  have h: "ds \<noteq> [] \<Longrightarrow> hd ds \<noteq> ''conflicting_disposition''" using assms(2) by simp
  have "ss \<noteq> [] \<Longrightarrow> least_status ss \<in> set ss" unfolding least_status_def by (metis hd_in_set set_empty set_sort)
  then have l: "ss \<noteq> [] \<Longrightarrow> least_status ss \<noteq> ''conflicting_disposition''" using assms(3) by blast
  show ?thesis unfolding semantic_state_def if_P[OF assms(1)] using h l by (cases "length ds > 1"; cases "ds = []"; cases "ss = []") simp_all
qed

lemma recommendation_conflict:
  fixes rows relations
  defines "rs \<equiv> read_relations (map item_id rows) (map item_id (filter (\<lambda>r. item_kind r = ''recommendation'') rows)) relations"
  assumes r: "r \<in> set rows" "item_kind r = ''recommendation''"
  shows "semantic_state r (rs_lifecycle rs (item_id r)) (rs_dispositions rs (item_id r)) = ''conflicting_disposition''
      \<longleftrightarrow> disposed relations (item_id r) ''accepted'' \<and> disposed relations (item_id r) ''declined''"
proof -
  let ?ds = "rs_dispositions rs (item_id r)" and ?ss = "rs_lifecycle rs (item_id r)"
  have ds: "d \<in> set ?ds \<longleftrightarrow> disposed relations (item_id r) d" for d using r by (auto simp: rs_def read_relations_iff)
  have two: "length ?ds > 1 \<longleftrightarrow> disposed relations (item_id r) ''accepted'' \<and> disposed relations (item_id r) ''declined''"
  proof (rule two_dispositions)
    show "d \<in> set ?ds \<longleftrightarrow> d = ''accepted'' \<and> disposed relations (item_id r) ''accepted'' \<or> d = ''declined'' \<and> disposed relations (item_id r) ''declined''" for d
      unfolding ds by (rule disposed_split)
  qed (simp_all add: rs_def read_relations_iff)
  have "\<forall>d \<in> set ?ds. d \<noteq> ''conflicting_disposition''" using ds[of "''conflicting_disposition''"] by (auto simp: disposed_def)
  moreover have "\<forall>d \<in> set ?ss. d \<noteq> ''conflicting_disposition''"
    using read_relations_iff(1)[of "''conflicting_disposition''" "map item_id rows" "map item_id (filter (\<lambda>r. item_kind r = ''recommendation'') rows)" relations "item_id r", folded rs_def]
    by (auto simp: ended_by_def inactive_status_def split: if_splits)
  ultimately show ?thesis using semantic_conflicting[OF r(2), of ?ds ?ss] two by blast
qed

lemma derived_conflicts:
  "(let res = derive_state env rows relations row_limit in
    set (st_conflict_ids res) = item_id ` {r \<in> set rows. in_conflict env rows relations r}
    \<and> st_active_ids res = (if length relations = 500 then None else Some (filter (live relations) (map item_id rows)))
    \<and> map an_row (st_assertions res) = rows
    \<and> list_all (\<lambda>an. if length relations = 500 then an_semantic_state an = ''unknown'' \<and> an_active an = None
        else an_active an = Some (live relations (item_id (an_row an)))
          \<and> (item_kind (an_row an) = ''recommendation'' \<and> an_semantic_state an = ''conflicting_disposition''
             \<longleftrightarrow> item_kind (an_row an) = ''recommendation'' \<and> disposed relations (item_id (an_row an)) ''accepted''
               \<and> disposed relations (item_id (an_row an)) ''declined'')) (st_assertions res))"
proof -
  let ?recs = "map item_id (filter (\<lambda>r. item_kind r = ''recommendation'') rows)"
  let ?rs = "read_relations (map item_id rows) ?recs relations"
  have active: "item_id r \<in> set (active_ids rows ?rs) \<longleftrightarrow> live relations (item_id r)" if "r \<in> set rows" for r
    unfolding active_iff using that by auto
  have "set (st_conflict_ids (derive_state env rows relations row_limit)) = item_id ` {r \<in> set rows. in_conflict env rows relations r}"
  proof -
    have "set (st_conflict_ids (derive_state env rows relations row_limit))
      = {i \<in> item_id ` set rows. \<exists>r \<in> set rows. item_id r = i \<and> in_conflict env rows relations r}"
      by (simp add: derive_state_def Let_def conflicts_iff)
    also have "\<dots> = item_id ` {r \<in> set rows. in_conflict env rows relations r}" by (rule image_of_some)
    finally show ?thesis .
  qed
  moreover have "st_active_ids (derive_state env rows relations row_limit) = (if length relations = 500 then None else Some (filter (live relations) (map item_id rows)))"
    using active by (auto simp: derive_state_def Let_def intro!: filter_cong)
  moreover have "map an_row (st_assertions (derive_state env rows relations row_limit)) = rows"
    by (simp add: derive_state_def Let_def comp_def)
  moreover have "list_all (\<lambda>an. if length relations = 500 then an_semantic_state an = ''unknown'' \<and> an_active an = None
      else an_active an = Some (live relations (item_id (an_row an)))
        \<and> (item_kind (an_row an) = ''recommendation'' \<and> an_semantic_state an = ''conflicting_disposition''
           \<longleftrightarrow> item_kind (an_row an) = ''recommendation'' \<and> disposed relations (item_id (an_row an)) ''accepted''
             \<and> disposed relations (item_id (an_row an)) ''declined'')) (st_assertions (derive_state env rows relations row_limit))"
    unfolding list_all_iff
  proof
    fix an assume "an \<in> set (st_assertions (derive_state env rows relations row_limit))"
    then obtain r where r: "r \<in> set rows" "an_row an = r"
      "an_active an = (if length relations = 500 then None else Some (item_id r \<in> set (active_ids rows ?rs)))"
      "an_semantic_state an = (if length relations = 500 then ''unknown'' else semantic_state r (rs_lifecycle ?rs (item_id r)) (rs_dispositions ?rs (item_id r)))"
      by (auto simp: derive_state_def Let_def)
    show "if length relations = 500 then an_semantic_state an = ''unknown'' \<and> an_active an = None
      else an_active an = Some (live relations (item_id (an_row an)))
        \<and> (item_kind (an_row an) = ''recommendation'' \<and> an_semantic_state an = ''conflicting_disposition''
           \<longleftrightarrow> item_kind (an_row an) = ''recommendation'' \<and> disposed relations (item_id (an_row an)) ''accepted''
             \<and> disposed relations (item_id (an_row an)) ''declined'')"
      using r(3,4) active[OF r(1)] recommendation_conflict[OF r(1), of relations] unfolding r(2) by (cases "length relations = 500") auto
  qed
  ultimately show ?thesis unfolding Let_def by blast
qed

section \<open>The query on the store\<close>

text \<open>A SHA-256 digest is printed as 64 lower-case hexadecimal digits.\<close>

definition hex_digests :: "text_env \<Rightarrow> bool" where
  "hex_digests env \<longleftrightarrow> (\<forall>t. is_sha256_hex (sha256 env t) \<and> normal_id (sha256 env t) = sha256 env t)"

lemma query_ids_of_digests:
  assumes "hex_digests env" "set ids \<subseteq> range (sha256 env)" "ids \<noteq> []" "length ids \<le> 500"
  shows "query_ids None (Some ids) = Inr (Some (sort (remdups ids)))"
proof -
  have n: "map normal_id ids = ids" by (rule map_idI) (use assms(1,2) in \<open>auto simp: hex_digests_def\<close>)
  have "length (sort (remdups ids)) \<le> 500" using order_trans[OF length_remdups_leq[of ids] assms(4)] by simp
  moreover have "sort (remdups ids) \<noteq> []" using assms(3) by (metis set_empty set_remdups set_sort)
  moreover have "list_all is_sha256_hex (sort (remdups ids))" using assms(1,2) by (auto simp: list_all_iff hex_digests_def)
  ultimately show ?thesis by (simp add: query_ids_def n Let_def)
qed

definition relations_among :: "string list \<Rightarrow> number option \<Rightarrow> rat option \<Rightarrow> assertion_db \<Rightarrow> relation_row list" where
  "relations_among ids as_of boundary db = (if ids = [] then []
     else map jr_row (selected_relations (state_relation_query ids as_of) ''assertions-v1'' (Some (sort (remdups ids))) None boundary db))"

lemma relations_among_le: "length (relations_among ids as_of boundary db) \<le> 500"
  by (simp add: relations_among_def selected_relations_def state_relation_query_def)

lemma relations_among_complete:
  assumes "length (relations_among ids as_of boundary db) < 500"
  shows "set (relations_among ids as_of boundary db) = jr_row ` {j \<in> set (join_relations db). live_relation j
    \<and> relation_matches ''assertions-v1'' (Some ids) None boundary j}"
proof -
  have m: "relation_matches v (Some (sort (remdups ids))) None boundary j = relation_matches v (Some ids) None boundary j" for v j
    by (simp add: relation_matches_def)
  have t: "length (take n xs) < n \<Longrightarrow> set (take n xs) = set xs" for n :: nat and xs :: "'a list" by (cases "length xs < n") simp_all
  show ?thesis
  proof (cases "ids = []")
    case True
    then show ?thesis by (simp add: relations_among_def relation_matches_def)
  next
    case False
    have "length (selected_relations (state_relation_query ids as_of) ''assertions-v1'' (Some (sort (remdups ids))) None boundary db) < 500"
      using assms False by (simp add: relations_among_def)
    then have "set (selected_relations (state_relation_query ids as_of) ''assertions-v1'' (Some (sort (remdups ids))) None boundary db)
      = {j \<in> set (join_relations db). live_relation j \<and> relation_matches ''assertions-v1'' (Some ids) None boundary j}"
      by (auto simp: selected_relations_def state_relation_query_def m dest!: t)
    then show ?thesis using False by (simp add: relations_among_def)
  qed
qed

lemma state_query_runs:
  fixes subject predicate kinds scope speaker as_of row_limit db
  defines "q \<equiv> state_assertion_query (strip subject) predicate kinds scope speaker as_of row_limit"
  assumes ok: "store_ok env texts db" "inj_on (sha256 env) texts" "reads_own_json env" and "hex_digests env" "strip subject \<noteq> []"
    "checked_query q version aid ks boundary"
  defines "rows \<equiv> map (item_of env db) (standing q version aid ks boundary db)"
  shows "query_assertion_state env subject predicate kinds scope speaker as_of row_limit db
    = Inr (derive_state env rows (relations_among (map item_id rows) as_of boundary db) (nat row_limit))"
proof -
  have q: "aq_version q = ''assertions-v1''" "aq_limit q = row_limit" "\<not> aq_invalidated q" "aq_as_of q = as_of" by (simp_all add: q_def state_assertion_query_def)
  have rows: "query_assertions env q db = Inr rows" unfolding rows_def by (rule query_standing[OF ok assms(7) q(3)])
  have chk: "validated_version ''assertions-v1'' = Inr version" "row_limit \<le> 500" "finite_number ''as_of'' as_of = Inr boundary"
    using assms(7) q by (simp_all add: checked_query_def)
  then have v: "version = ''assertions-v1''" by (simp add: validated_version_def strip_def py_isspace_def)
  have "query_relations env (state_relation_query (map item_id rows) as_of) db = Inr (relations_among (map item_id rows) as_of boundary db)"
    if "rows \<noteq> []"
  proof -
    have "length (map item_id rows) \<le> nat row_limit" by (simp add: rows_def standing_def q(2))
    then have len: "length (map item_id rows) \<le> 500" using chk(2) by linarith
    have "set (map item_id rows) \<subseteq> range (sha256 env)"
      using standing_mem ok(1) by (fastforce simp: rows_def item_id_def item_of_def store_ok_def assertions_ok_def assertion_ok_def)
    from query_ids_of_digests[OF assms(5) this _ len] that
    have ids: "query_ids None (Some (map item_id rows)) = Inr (Some (sort (remdups (map item_id rows))))" by simp
    have "query_relations env (state_relation_query (map item_id rows) as_of) db
      = Inr (map jr_row (selected_relations (state_relation_query (map item_id rows) as_of) ''assertions-v1'' (Some (sort (remdups (map item_id rows)))) None boundary db))"
      by (rule query_relations_live[OF ok]) (simp_all add: state_relation_query_def chk(1,3)[unfolded v] ids query_names_def)
    then show ?thesis using that by (simp add: relations_among_def)
  qed
  moreover have "relations_among [] as_of boundary db = []" by (simp add: relations_among_def)
  ultimately show ?thesis using assms(6) rows unfolding query_assertion_state_def q_def[symmetric] by auto
qed

text \<open>
  C19: In every history without digest collisions a well-formed state query returns.  It reads the newest page of the
  standing assertions on the subject, as many as the limit allows, says so when the page is full, and otherwise covers
  every one of them; and, unless it says that relations were cut off, it reads every standing relation that touches the
  page.  Within the page nothing is resolved by recency: an assertion is reported in conflict exactly when no explicit
  relation ended it and it is contradicted by one or disagrees with another such assertion of the page on the
  same subject, predicate, scope and kind; the active assertions are exactly those no relation ended, and are not
  claimed when the relations were cut off; a recommendation's disposition is conflicting exactly when it was both
  accepted and declined.  Assertions beyond a full page are not looked at.
\<close>

theorem conflicts_are_preserved:
  assumes "assertion_history env texts db" "inj_on (sha256 env) texts" "reads_own_json env" "hex_digests env" "strip subject \<noteq> []"
    and "checked_query (state_assertion_query (strip subject) predicate kinds scope speaker as_of row_limit) version aid ks boundary"
  shows "\<exists>res rows. query_assertion_state env subject predicate kinds scope speaker as_of row_limit db = Inr res
    \<and> map an_row (st_assertions res) = rows
    \<and> map ai_row rows = standing (state_assertion_query (strip subject) predicate kinds scope speaker as_of row_limit) version aid ks boundary db
    \<and> (\<not> st_assertions_truncated res \<longrightarrow> set (map ai_row rows) = {a \<in> set (ad_assertions db). receipt_active db (as_key a)
         \<and> assertion_matches (state_assertion_query (strip subject) predicate kinds scope speaker as_of row_limit) version aid ks boundary a})
    \<and> (\<not> st_relations_truncated res \<longrightarrow> set (st_relations res) = jr_row ` {j \<in> set (join_relations db). live_relation j
         \<and> relation_matches ''assertions-v1'' (Some (map item_id rows)) None boundary j})
    \<and> set (st_conflict_ids res) = item_id ` {r \<in> set rows. in_conflict env rows (st_relations res) r}
    \<and> st_active_ids res = (if length (st_relations res) = 500 then None else Some (filter (live (st_relations res)) (map item_id rows)))
    \<and> list_all (\<lambda>an. if length (st_relations res) = 500 then an_semantic_state an = ''unknown'' \<and> an_active an = None
        else an_active an = Some (live (st_relations res) (item_id (an_row an)))
          \<and> (item_kind (an_row an) = ''recommendation'' \<and> an_semantic_state an = ''conflicting_disposition''
             \<longleftrightarrow> item_kind (an_row an) = ''recommendation'' \<and> disposed (st_relations res) (item_id (an_row an)) ''accepted''
               \<and> disposed (st_relations res) (item_id (an_row an)) ''declined'')) (st_assertions res)"
proof -
  define q where "q = state_assertion_query (strip subject) predicate kinds scope speaker as_of row_limit"
  define rows where "rows = map (item_of env db) (standing q version aid ks boundary db)"
  define rels where "rels = relations_among (map item_id rows) as_of boundary db"
  have run: "query_assertion_state env subject predicate kinds scope speaker as_of row_limit db = Inr (derive_state env rows rels (nat row_limit))"
    using state_query_runs[OF history_store_ok[OF assms(1)] assms(2-6)] by (simp only: rows_def rels_def q_def)
  have ai: "map ai_row rows = standing q version aid ks boundary db"
  proof -
    have "map ai_row (map (item_of env db) xs) = xs" for xs by (induction xs) (auto simp: item_of_def)
    then show ?thesis by (simp only: rows_def)
  qed
  have rel: "st_relations (derive_state env rows rels (nat row_limit)) = rels" by (simp add: derive_state_def Let_def)
  note c = derived_conflicts[of env rows rels "nat row_limit", unfolded Let_def]
  have "length rels < 500 \<longrightarrow> set rels = jr_row ` {j \<in> set (join_relations db). live_relation j
      \<and> relation_matches ''assertions-v1'' (Some (map item_id rows)) None boundary j}"
    unfolding rels_def using relations_among_complete by blast
  moreover have "st_relations_truncated (derive_state env rows rels (nat row_limit)) = (length rels = 500)"
    "st_assertions_truncated (derive_state env rows rels (nat row_limit)) = (length rows = nat row_limit)" by (simp_all add: derive_state_def Let_def)
  moreover have "length rels \<le> 500" unfolding rels_def by (rule relations_among_le)
  moreover have "length rows \<noteq> nat row_limit \<longrightarrow> set (map ai_row rows) = {a \<in> set (ad_assertions db). receipt_active db (as_key a)
      \<and> assertion_matches q version aid ks boundary a}"
  proof
    assume "length rows \<noteq> nat row_limit"
    moreover have "length rows \<le> nat row_limit" "aq_limit q = row_limit" by (simp_all add: rows_def standing_def q_def state_assertion_query_def)
    ultimately have "length (standing q version aid ks boundary db) < nat (aq_limit q)" by (simp add: rows_def)
    from standing_whole[OF this] show "set (map ai_row rows) = {a \<in> set (ad_assertions db). receipt_active db (as_key a)
      \<and> assertion_matches q version aid ks boundary a}" unfolding ai .
  qed
  ultimately have "(\<not> st_relations_truncated (derive_state env rows rels (nat row_limit)) \<longrightarrow> set rels = jr_row ` {j \<in> set (join_relations db). live_relation j
      \<and> relation_matches ''assertions-v1'' (Some (map item_id rows)) None boundary j})"
    "(\<not> st_assertions_truncated (derive_state env rows rels (nat row_limit)) \<longrightarrow> set (map ai_row rows) = {a \<in> set (ad_assertions db). receipt_active db (as_key a)
      \<and> assertion_matches q version aid ks boundary a})" by simp_all
  then show ?thesis using c run ai unfolding q_def[symmetric]
    by (intro exI[of _ "derive_state env rows rels (nat row_limit)"] exI[of _ rows], unfold rel, elim conjE, intro conjI) assumption+
qed

lemma tea_hex: "hex_digests tea_env"
proof -
  have "is_sha256_hex (replicate 64 CHR ''a'')" "normal_id (replicate 64 CHR ''a'') = replicate 64 CHR ''a''" by code_simp+
  then show ?thesis by (simp add: hex_digests_def)
qed

theorem conflicts_are_preserved_witness:
  "\<exists>res. query_assertion_state tea_env ''user:self'' None None None None None 10 tea_published = Inr res
     \<and> map (\<lambda>an. as_quote (ai_row (an_row an))) (st_assertions res) = [''tea''] \<and> set (st_conflict_ids res) \<subseteq> {replicate 64 CHR ''a''}"
proof -
  let ?q = "state_assertion_query ''user:self'' None None None None None 10"
  have s: "strip ''user:self'' = ''user:self''" by (simp add: strip_def py_isspace_def)
  have "checked_query ?q ''assertions-v1'' None None None"
    by (simp add: checked_query_def state_assertion_query_def validated_version_def strip_def py_isspace_def query_assertion_id_def query_names_def finite_number_def)
  moreover have st: "standing ?q ''assertions-v1'' None None None tea_published = [tea_row\<lparr>as_created_at := 9\<rparr>]"
    by (simp add: standing_def state_assertion_query_def assertion_matches_def opt_eq_def valid_at_def tea_published_def tea_db_def no_assertions_def tea_row_def
        receipt_active_def new_receipt_def rc_key_def as_key_def tea_message_def tea_batch_def)
  moreover have "reads_own_json tea_env" by (simp add: reads_own_json_def tea_env_def)
  ultimately obtain res where r: "query_assertion_state tea_env ''user:self'' None None None None None 10 tea_published = Inr res"
      "map ai_row (map an_row (st_assertions res)) = [tea_row\<lparr>as_created_at := 9\<rparr>]"
      "set (st_conflict_ids res) = item_id ` {r \<in> set (map an_row (st_assertions res)). in_conflict tea_env (map an_row (st_assertions res)) (st_relations res) r}"
    using conflicts_are_preserved[OF tea_published_history _ _ tea_hex, of "''user:self''" None None None None None 10 "''assertions-v1''" None None None]
    unfolding s by (auto simp del: map_map)
  have "map (\<lambda>an. as_quote (ai_row (an_row an))) (st_assertions res) = map as_quote (map ai_row (map an_row (st_assertions res)))" by simp
  moreover have "set (st_conflict_ids res) \<subseteq> as_id ` set (map ai_row (map an_row (st_assertions res)))" unfolding r(3) by (auto simp: item_id_def)
  ultimately show ?thesis using r(1) unfolding r(2) by (auto simp: tea_row_def)
qed

end
