(* ===== verification/Assertion_Rebuild.thy ===== *)
theory Assertion_Rebuild
  imports Assertion_Queries
begin

text \<open>
  The rebuild driver of assertions, \<^verbatim>\<open>src/assertion_rebuild.py\<close>: one bounded batch of messages without a standing receipt
  is given to an extractor and published one by one.  The extractor is an argument; what it raises is an error
  like those of the store.  The clock is read per source and write.
\<close>

section \<open>The driver\<close>

type_synonym extraction = "AssertionCandidate list \<times> AssertionRelationCandidate list"

record AssertionRebuildResult =
  rr_mode :: string
  rr_pending :: nat
  rr_selected :: nat
  rr_processed :: nat
  rr_current :: nat
  rr_stale :: nat
  rr_failed :: nat
  rr_assertions :: nat
  rr_relations :: nat
  rr_remaining :: nat
  rr_plan_digest :: string
  rr_receipt_digest :: string
  rr_failures :: "(int \<times> assertion_error) list"

definition digest_of :: "text_env \<Rightarrow> json \<Rightarrow> string" where
  "digest_of env v = sha256 env (json_text env v)"

definition plan_json :: "SourceSnapshot list \<Rightarrow> json" where
  "plan_json sources = JArr (map (\<lambda>s. JObj [(''source_store_id'', JInt (sn_store_id s)), (''source_content_sha256'', JStr (sn_sha s))]) sources)"

definition receipts_json :: "PublishResult list \<Rightarrow> json" where
  "receipts_json rs = JArr (map (\<lambda>r. JObj [(''source_store_id'', JInt (pr_store_id r)), (''source_content_sha256'', JStr (pr_sha r)),
     (''candidate_digest'', JStr (pr_digest r))]) (sort_key pr_store_id rs))"

record rebuild_state =
  rb_db :: assertion_db
  rb_published :: "PublishResult list"
  rb_stale :: nat
  rb_failures :: "(int \<times> assertion_error) list"

definition is_stale :: "assertion_error \<Rightarrow> bool" where
  "is_stale e = (case e of SourceStale _ \<Rightarrow> True | NoSuchMessage _ \<Rightarrow> True | _ \<Rightarrow> False)"

definition rebuild_source :: "text_env \<Rightarrow> bool \<Rightarrow> (nat \<Rightarrow> rat) \<Rightarrow> (SourceSnapshot \<Rightarrow> assertion_error + extraction) \<Rightarrow> SourceSnapshot \<Rightarrow> rebuild_state \<Rightarrow> rebuild_state" where
  "rebuild_source env read_only clock extractor source st =
     (case and_then (extractor source) (\<lambda>(cs, rs). publish_source env read_only clock source cs rs ''assertions-v1'' (rb_db st)) of
        Inr (published, db') \<Rightarrow> st\<lparr>rb_db := db', rb_published := rb_published st @ [published]\<rparr>
      | Inl e \<Rightarrow> st\<lparr>rb_stale := rb_stale st + (if is_stale e then 1 else 0), rb_failures := rb_failures st @ [(sn_store_id source, e)]\<rparr>)"

fun rebuild_sources :: "text_env \<Rightarrow> bool \<Rightarrow> (nat \<Rightarrow> nat \<Rightarrow> rat) \<Rightarrow> nat \<Rightarrow> (SourceSnapshot \<Rightarrow> assertion_error + extraction) \<Rightarrow> SourceSnapshot list \<Rightarrow> rebuild_state \<Rightarrow> rebuild_state" where
  "rebuild_sources env read_only clock k extractor [] st = st"
| "rebuild_sources env read_only clock k extractor (s # ss) st =
     rebuild_sources env read_only clock (Suc k) extractor ss (rebuild_source env read_only (clock k) extractor s st)"

definition dry_result :: "text_env \<Rightarrow> RebuildPlan \<Rightarrow> AssertionRebuildResult" where
  "dry_result env plan = \<lparr>rr_mode = ''dry-run'', rr_pending = rp_pending plan, rr_selected = length (rp_selected plan), rr_processed = 0, rr_current = 0,
     rr_stale = 0, rr_failed = 0, rr_assertions = 0, rr_relations = 0, rr_remaining = rp_pending plan,
     rr_plan_digest = digest_of env (plan_json (rp_selected plan)), rr_receipt_digest = digest_of env (JArr []), rr_failures = []\<rparr>"

definition apply_result :: "text_env \<Rightarrow> RebuildPlan \<Rightarrow> rebuild_state \<Rightarrow> nat \<Rightarrow> AssertionRebuildResult" where
  "apply_result env plan st remaining = \<lparr>rr_mode = ''apply'', rr_pending = rp_pending plan, rr_selected = length (rp_selected plan),
     rr_processed = length (rb_published st), rr_current = length (filter pr_already_current (rb_published st)), rr_stale = rb_stale st,
     rr_failed = length (rb_failures st) - rb_stale st, rr_assertions = sum_list (map assertions_written (rb_published st)),
     rr_relations = sum_list (map relations_written (rb_published st)), rr_remaining = remaining,
     rr_plan_digest = digest_of env (plan_json (rp_selected plan)), rr_receipt_digest = digest_of env (receipts_json (rb_published st)),
     rr_failures = rb_failures st\<rparr>"

definition rebuild_assertions :: "text_env \<Rightarrow> bool \<Rightarrow> bool \<Rightarrow> (SourceSnapshot \<Rightarrow> assertion_error + extraction) option \<Rightarrow> int \<Rightarrow> (nat \<Rightarrow> nat \<Rightarrow> rat) \<Rightarrow> assertion_db
    \<Rightarrow> assertion_error + (AssertionRebuildResult \<times> assertion_db)" where
  "rebuild_assertions env read_only apply_it extractor max_sources clock db =
     require (\<not> (apply_it \<and> read_only)) (ValueError ''apply requires a writable AssertionStore'')
     (require (\<not> (apply_it \<and> extractor = None)) (ValueError ''apply requires an explicit assertion extractor'')
     (and_then (plan_rebuild env ''assertions-v1'' max_sources db) (\<lambda>plan.
      case extractor of
        Some ex \<Rightarrow>
          if apply_it then
            (let st = rebuild_sources env read_only clock 0 ex (rp_selected plan) \<lparr>rb_db = db, rb_published = [], rb_stale = 0, rb_failures = []\<rparr> in
             and_then (plan_rebuild env ''assertions-v1'' 1 (rb_db st)) (\<lambda>after. Inr (apply_result env plan st (rp_pending after), rb_db st)))
          else Inr (dry_result env plan, db)
      | None \<Rightarrow> Inr (dry_result env plan, db))))"

section \<open>What a publication does to the pending messages\<close>

lemma version_v1: "validated_version ''assertions-v1'' = Inr ''assertions-v1''"
  by (simp add: validated_version_def strip_def py_isspace_def)

lemma batch_version: "prepare_batch env snap cs rs ''assertions-v1'' = Inr b \<Longrightarrow> bt_version b = ''assertions-v1''"
  unfolding prepare_batch_def version_v1 by (auto simp: result_iffs Let_def)

definition covered :: "string \<Rightarrow> assertion_db \<Rightarrow> int \<Rightarrow> bool" where
  "covered version db i = list_ex (\<lambda>r. rc_store_id r = i \<and> rc_version r = version \<and> rc_invalidated_at r = None) (ad_receipts db)"

lemma pending_covered: "pending version db = filter (\<lambda>m. \<not> covered version db (ms_store_id m)) (ad_messages db)"
  by (simp add: pending_def covered_def)

lemma covered_after:
  assumes "store_ok env texts db" "store_batch env clock snap b db = Inr (result, db')"
  shows "covered (bt_version b) db' i \<longleftrightarrow> i = sn_store_id snap \<or> covered (bt_version b) db i"
  using assms(2)
proof (cases rule: store_batch_cases)
  case (current m r)
  then show ?thesis using sel_first_mem[OF current(3)[unfolded current_receipt_def]] by (auto simp: covered_def list_ex_iff)
next
  case (revived m r)
  have r: "r \<in> set (ad_receipts db)" "rc_key r = batch_key snap b" using sel_first_mem[OF revived(4)[unfolded historical_receipt_def]] by auto
  have rs: "ad_receipts db' = map (\<lambda>r. if rc_key r = batch_key snap b then revive_row clock snap r else r) (ad_receipts db)"
    by (simp add: revived(7) revive_receipt_def upd_where_def)
  have "covered (bt_version b) db' i \<longleftrightarrow> (\<exists>x \<in> set (ad_receipts db). rc_store_id x = i \<and> rc_version x = bt_version b
      \<and> (rc_key x = batch_key snap b \<or> rc_invalidated_at x = None))"
    unfolding covered_def list_ex_iff rs set_map bex_simps
    by (rule bex_cong[OF refl]) (simp add: revive_row_def)
  also have "\<dots> \<longleftrightarrow> i = sn_store_id snap \<or> covered (bt_version b) db i"
    using r by (auto simp: covered_def list_ex_iff rc_key_def batch_key_def)
  finally show ?thesis .
next
  case (fresh m)
  then show ?thesis using insert_batch_rows(1)[OF fresh(5)] by (auto simp: covered_def new_receipt_def)
qed

section \<open>Accounting\<close>

lemma pending_after:
  assumes "store_ok env texts db" "publish_source env read_only clock snap cs rs ''assertions-v1'' db = Inr (result, db')"
  shows "pending ''assertions-v1'' db' = filter (\<lambda>m. ms_store_id m \<noteq> sn_store_id snap) (pending ''assertions-v1'' db)"
    "ad_messages db' = ad_messages db" "store_ok env texts db'"
    "pr_store_id result = sn_store_id snap"
proof -
  obtain b where b: "prepare_batch env snap cs rs ''assertions-v1'' = Inr b" "store_batch env clock snap b db = Inr (result, db')"
    using publish_source_batch[OF assms(2)] by blast
  show m: "ad_messages db' = ad_messages db" by (rule receipted_after(2)[OF assms(1) b(2)])
  show "store_ok env texts db'" using store_ok_batch[OF assms(1) b(2)] prepare_batch_sound[OF b(1)] by blast
  show "pending ''assertions-v1'' db' = filter (\<lambda>m. ms_store_id m \<noteq> sn_store_id snap) (pending ''assertions-v1'' db)"
    unfolding pending_covered m filter_filter covered_after[OF assms(1) b(2), unfolded batch_version[OF b(1)]] by (rule filter_cong) auto
  show "pr_store_id result = sn_store_id snap" using b(2) by (cases rule: store_batch_cases) (auto simp: publish_result_def)
qed

text \<open>What the loop keeps: published and failed sources add up, and exactly the published ones left the pending list.\<close>

definition rebuild_ok :: "text_env \<Rightarrow> string set \<Rightarrow> assertion_db \<Rightarrow> rebuild_state \<Rightarrow> bool" where
  "rebuild_ok env texts db st \<longleftrightarrow> store_ok env texts (rb_db st) \<and> ad_messages (rb_db st) = ad_messages db \<and> rb_stale st \<le> length (rb_failures st)
     \<and> pending ''assertions-v1'' (rb_db st) = filter (\<lambda>m. ms_store_id m \<notin> pr_store_id ` set (rb_published st)) (pending ''assertions-v1'' db)"

lemma rebuild_source_ok:
  assumes "rebuild_ok env texts db st"
  shows "rebuild_ok env texts db (rebuild_source env read_only clock extractor s st)"
    "length (rb_published (rebuild_source env read_only clock extractor s st)) + length (rb_failures (rebuild_source env read_only clock extractor s st))
      = Suc (length (rb_published st) + length (rb_failures st))"
    "map pr_store_id (rb_published (rebuild_source env read_only clock extractor s st)) \<in> {map pr_store_id (rb_published st), map pr_store_id (rb_published st) @ [sn_store_id s]}"
proof -
  let ?run = "and_then (extractor s) (\<lambda>(cs, rs). publish_source env read_only clock s cs rs ''assertions-v1'' (rb_db st))"
  let ?st = "rebuild_source env read_only clock extractor s st"
  have ok: "store_ok env texts (rb_db st)" using assms by (simp add: rebuild_ok_def)
  have "rebuild_ok env texts db ?st \<and> length (rb_published ?st) + length (rb_failures ?st) = Suc (length (rb_published st) + length (rb_failures st))
    \<and> map pr_store_id (rb_published ?st) \<in> {map pr_store_id (rb_published st), map pr_store_id (rb_published st) @ [sn_store_id s]}"
  proof (cases ?run)
    case (Inl e)
    then show ?thesis using assms by (simp add: rebuild_source_def rebuild_ok_def)
  next
    case (Inr out)
    obtain published db' where out: "out = (published, db')" by (cases out)
    then obtain cs rs where p: "publish_source env read_only clock s cs rs ''assertions-v1'' (rb_db st) = Inr (published, db')"
      using Inr by (auto simp: and_then_Inr)
    have st: "?st = st\<lparr>rb_db := db', rb_published := rb_published st @ [published]\<rparr>" using Inr by (simp add: rebuild_source_def out)
    note a = pending_after[OF ok p]
    have "pending ''assertions-v1'' db' = filter (\<lambda>m. ms_store_id m \<notin> insert (pr_store_id published) (pr_store_id ` set (rb_published st))) (pending ''assertions-v1'' db)"
      using assms by (simp add: a(1,4) rebuild_ok_def conj_commute)
    then show ?thesis using assms a unfolding st by (simp add: rebuild_ok_def)
  qed
  then show "rebuild_ok env texts db ?st"
    "length (rb_published ?st) + length (rb_failures ?st) = Suc (length (rb_published st) + length (rb_failures st))"
    "map pr_store_id (rb_published ?st) \<in> {map pr_store_id (rb_published st), map pr_store_id (rb_published st) @ [sn_store_id s]}" by simp_all
qed

lemma kept_or_added: "ps' \<in> {ps, ps @ [x]} \<Longrightarrow> distinct (ps @ x # qs) \<Longrightarrow> distinct (ps' @ qs) \<and> set ps' \<subseteq> set (ps @ x # qs)"
  by auto

lemma rebuild_sources_ok:
  fixes env read_only clock k extractor ss st
  assumes "rebuild_ok env texts db st" "distinct (map pr_store_id (rb_published st) @ map sn_store_id ss)"
  defines "st' \<equiv> rebuild_sources env read_only clock k extractor ss st"
  shows "rebuild_ok env texts db st' \<and> length (rb_published st') + length (rb_failures st') = length (rb_published st) + length (rb_failures st) + length ss
    \<and> distinct (map pr_store_id (rb_published st')) \<and> set (map pr_store_id (rb_published st')) \<subseteq> set (map pr_store_id (rb_published st) @ map sn_store_id ss)"
  using assms(1,2) unfolding st'_def
proof (induction ss arbitrary: st k)
  case (Cons s ss)
  let ?st = "rebuild_source env read_only (clock k) extractor s st"
  note one = rebuild_source_ok[OF Cons.prems(1), of read_only "clock k" extractor s]
  have "distinct (map pr_store_id (rb_published st) @ sn_store_id s # map sn_store_id ss)" using Cons.prems(2) by simp
  note d = kept_or_added[OF one(3) this]
  have "set (map pr_store_id (rb_published ?st) @ map sn_store_id ss) \<subseteq> set (map pr_store_id (rb_published st) @ map sn_store_id (s # ss))"
    using conjunct2[OF d] by (simp only: set_append list.simps set_simps) blast
  moreover define fin where "fin = rebuild_sources env read_only clock (Suc k) extractor ss ?st"
  note ih = Cons.IH[OF one(1) conjunct1[OF d], of "Suc k", folded fin_def]
  ultimately have "set (map pr_store_id (rb_published fin)) \<subseteq> set (map pr_store_id (rb_published st) @ map sn_store_id (s # ss))" by (meson order_trans)
  moreover have "length (rb_published fin) + length (rb_failures fin) = length (rb_published st) + length (rb_failures st) + length (s # ss)"
    using ih one(2) by simp
  ultimately show ?case using ih unfolding rebuild_sources.simps fin_def[symmetric] by (intro conjI) simp_all
qed simp

lemma rebuild_source_files:
  fixes env read_only clock extractor s st
  assumes "rebuild_ok env texts db st"
  defines "st' \<equiv> rebuild_source env read_only clock extractor s st"
  shows "map pr_store_id (rb_published st') = map pr_store_id (rb_published st) @ [sn_store_id s] \<and> map fst (rb_failures st') = map fst (rb_failures st)
    \<or> map pr_store_id (rb_published st') = map pr_store_id (rb_published st) \<and> map fst (rb_failures st') = map fst (rb_failures st) @ [sn_store_id s]"
proof (cases "and_then (extractor s) (\<lambda>(cs, rs). publish_source env read_only clock s cs rs ''assertions-v1'' (rb_db st))")
  case (Inl e)
  then show ?thesis by (simp add: st'_def rebuild_source_def)
next
  case (Inr out)
  obtain published db' where out: "out = (published, db')" by (cases out)
  then obtain cs rs where "publish_source env read_only clock s cs rs ''assertions-v1'' (rb_db st) = Inr (published, db')"
    using Inr by (auto simp: and_then_Inr)
  then have "pr_store_id published = sn_store_id s" using pending_after(4) assms(1) by (auto simp: rebuild_ok_def)
  then show ?thesis using Inr by (simp add: st'_def rebuild_source_def out)
qed

lemma filed_once: "ps' = ps @ [x] \<and> fs' = fs \<or> ps' = ps \<and> fs' = fs @ [x] \<Longrightarrow> distinct (ps @ fs @ x # qs) \<Longrightarrow> distinct (ps' @ fs' @ qs)"
  by auto

text \<open>Every selected source is either published or recorded as a failure, and none is both.\<close>

lemma rebuild_partition:
  fixes env read_only clock k extractor ss st
  assumes "rebuild_ok env texts db st" "distinct (map pr_store_id (rb_published st) @ map fst (rb_failures st) @ map sn_store_id ss)"
  defines "st' \<equiv> rebuild_sources env read_only clock k extractor ss st"
  shows "distinct (map pr_store_id (rb_published st') @ map fst (rb_failures st'))
    \<and> set (map pr_store_id (rb_published st') @ map fst (rb_failures st')) = set (map pr_store_id (rb_published st) @ map fst (rb_failures st) @ map sn_store_id ss)"
  using assms(1,2) unfolding st'_def
proof (induction ss arbitrary: st k)
  case (Cons s ss)
  let ?st = "rebuild_source env read_only (clock k) extractor s st"
  define ps fs ps' fs' where d: "ps = map pr_store_id (rb_published st)" "fs = map fst (rb_failures st)"
    "ps' = map pr_store_id (rb_published ?st)" "fs' = map fst (rb_failures ?st)"
  have one: "ps' = ps @ [sn_store_id s] \<and> fs' = fs \<or> ps' = ps \<and> fs' = fs @ [sn_store_id s]"
    unfolding d by (rule rebuild_source_files[OF Cons.prems(1)])
  have "distinct (ps @ fs @ sn_store_id s # map sn_store_id ss)" using Cons.prems(2) by (simp only: d list.map)
  with one have "distinct (ps' @ fs' @ map sn_store_id ss)" by (rule filed_once)
  moreover have "set (ps' @ fs' @ map sn_store_id ss) = set (ps @ fs @ map sn_store_id (s # ss))" using one by auto
  moreover note ok = rebuild_source_ok(1)[OF Cons.prems(1), of read_only "clock k" extractor s]
  ultimately show ?case using Cons.IH[OF ok, of "Suc k"] unfolding rebuild_sources.simps d by simp
qed simp

lemma length_without:
  assumes "distinct (map f xs)" "set ps \<subseteq> f ` set xs" "distinct ps"
  shows "length (filter (\<lambda>x. f x \<notin> set ps) xs) + length ps = length xs"
proof -
  have "set (map f (filter (\<lambda>x. f x \<in> set ps) xs)) = set ps" using assms(2) by auto
  moreover have "distinct (map f (filter (\<lambda>x. f x \<in> set ps) xs))" using assms(1) by (simp add: distinct_map_filter)
  ultimately have "length (filter (\<lambda>x. f x \<in> set ps) xs) = length ps" using assms(3) by (metis distinct_card length_map)
  then show ?thesis using sum_length_filter_compl[of "\<lambda>x. f x \<in> set ps" xs] by simp
qed

lemma selected_store_ids:
  assumes "messages_ok texts db"
  shows "distinct (map sn_store_id (map (snapshot_from_row env) (take n (sort_key ms_store_id (pending version db)))))"
    "set (map sn_store_id (map (snapshot_from_row env) (take n (sort_key ms_store_id (pending version db))))) \<subseteq> ms_store_id ` set (pending version db)"
    "distinct (map ms_store_id (pending version db))"
proof -
  show p: "distinct (map ms_store_id (pending version db))" using assms by (simp add: messages_ok_def pending_def distinct_map_filter)
  then have "distinct (map ms_store_id (sort_key ms_store_id (pending version db)))" by (simp add: distinct_map)
  then have "distinct (take n (map ms_store_id (sort_key ms_store_id (pending version db))))" by (rule distinct_take)
  then show "distinct (map sn_store_id (map (snapshot_from_row env) (take n (sort_key ms_store_id (pending version db)))))" by (simp add: take_map comp_def)
  show "set (map sn_store_id (map (snapshot_from_row env) (take n (sort_key ms_store_id (pending version db))))) \<subseteq> ms_store_id ` set (pending version db)"
    by (auto dest: in_set_takeD)
qed

definition first_state :: "assertion_db \<Rightarrow> rebuild_state" where
  "first_state db = \<lparr>rb_db = db, rb_published = [], rb_stale = 0, rb_failures = []\<rparr>"

lemma rebuild_unfold:
  fixes env clock ex
  assumes "\<not> read_only" "1 \<le> n" "n \<le> 500"
  defines "st \<equiv> \<lambda>db. rebuild_sources env read_only clock 0 ex (map (snapshot_from_row env) (take (nat n) (sort_key ms_store_id (pending ''assertions-v1'' db)))) (first_state db)"
  shows "rebuild_assertions env read_only True (Some ex) n clock db = Inr (apply_result env \<lparr>rp_version = ''assertions-v1'', rp_pending = length (pending ''assertions-v1'' db),
     rp_selected = map (snapshot_from_row env) (take (nat n) (sort_key ms_store_id (pending ''assertions-v1'' db))), rp_limit = n\<rparr> (st db)
     (length (pending ''assertions-v1'' (rb_db (st db)))), rb_db (st db))"
  using assms by (simp add: rebuild_assertions_def plan_rebuild_def version_v1 Let_def first_state_def)

lemma rebuilt_pending:
  fixes env db clock ex n read_only
  assumes "messages_ok texts db" "rebuild_ok env texts db (first_state db)"
  defines "sel \<equiv> take (nat n) (sort_key ms_store_id (pending ''assertions-v1'' db))"
  defines "st \<equiv> rebuild_sources env read_only clock 0 ex (map (snapshot_from_row env) sel) (first_state db)"
  shows "fst ` set (rb_failures st) \<subseteq> ms_store_id ` set sel"
    "pending ''assertions-v1'' (rb_db st) = filter (\<lambda>m. m \<in> set sel \<longrightarrow> ms_store_id m \<in> fst ` set (rb_failures st)) (pending ''assertions-v1'' db)"
proof -
  note ids = selected_store_ids[OF assms(1)]
  have d: "distinct (map sn_store_id (map (snapshot_from_row env) sel))" unfolding sel_def by (rule ids(1))
  have f: "map pr_store_id (rb_published (first_state db)) @ map fst (rb_failures (first_state db)) @ map sn_store_id (map (snapshot_from_row env) sel)
      = map sn_store_id (map (snapshot_from_row env) sel)" by (simp add: first_state_def)
  note part = rebuild_partition[OF assms(2), of "map (snapshot_from_row env) sel" read_only clock 0 ex, folded st_def, unfolded f]
  have sid: "set (map sn_store_id (map (snapshot_from_row env) sel)) = ms_store_id ` set sel" by force
  have un: "pr_store_id ` set (rb_published st) \<union> fst ` set (rb_failures st) = ms_store_id ` set sel"
    "pr_store_id ` set (rb_published st) \<inter> fst ` set (rb_failures st) = {}"
    using part[OF d] unfolding sid by (simp_all add: distinct_append)
  then show "fst ` set (rb_failures st) \<subseteq> ms_store_id ` set sel" by blast
  have "distinct (map pr_store_id (rb_published (first_state db)) @ map sn_store_id (map (snapshot_from_row env) sel))" using d by (simp add: first_state_def)
  from rebuild_sources_ok[OF assms(2) this, of read_only clock 0 ex, folded st_def]
  have p: "pending ''assertions-v1'' (rb_db st) = filter (\<lambda>m. ms_store_id m \<notin> pr_store_id ` set (rb_published st)) (pending ''assertions-v1'' db)"
    by (simp add: rebuild_ok_def)
  have "ms_store_id m \<notin> pr_store_id ` set (rb_published st) \<longleftrightarrow> (m \<in> set sel \<longrightarrow> ms_store_id m \<in> fst ` set (rb_failures st))"
    if m: "m \<in> set (pending ''assertions-v1'' db)" for m
  proof -
    have "inj_on ms_store_id (set (pending ''assertions-v1'' db))" using ids(3) by (simp add: distinct_map)
    moreover have "set sel \<subseteq> set (pending ''assertions-v1'' db)" by (auto simp: sel_def dest: in_set_takeD)
    ultimately have "ms_store_id m \<in> ms_store_id ` set sel \<longleftrightarrow> m \<in> set sel" using m by (meson inj_on_image_mem_iff)
    then show ?thesis using un by blast
  qed
  then show "pending ''assertions-v1'' (rb_db st) = filter (\<lambda>m. m \<in> set sel \<longrightarrow> ms_store_id m \<in> fst ` set (rb_failures st)) (pending ''assertions-v1'' db)"
    unfolding p by (rule filter_cong[OF refl])
qed

text \<open>
  C24: A rebuild batch accounts for every message.  The oldest pending messages up to the limit are selected; each is
  published, stale or failed, and every one that is not published is named among the failures.  Exactly the selected
  messages that are not among the failures leave the pending messages, the others stay pending in their order, the
  counts agree with that, and the messages themselves are untouched.
\<close>

theorem rebuild_accounts:
  assumes "assertion_history env texts db" "\<not> read_only" "1 \<le> n" "n \<le> 500"
  shows "\<exists>res db'. rebuild_assertions env read_only True (Some ex) n clock db = Inr (res, db')
    \<and> fst ` set (rr_failures res) \<subseteq> ms_store_id ` set (take (nat n) (sort_key ms_store_id (pending ''assertions-v1'' db)))
    \<and> pending ''assertions-v1'' db' = filter (\<lambda>m. m \<in> set (take (nat n) (sort_key ms_store_id (pending ''assertions-v1'' db)))
         \<longrightarrow> ms_store_id m \<in> fst ` set (rr_failures res)) (pending ''assertions-v1'' db)
    \<and> rr_selected res = rr_processed res + rr_stale res + rr_failed res
    \<and> rr_stale res + rr_failed res = length (rr_failures res)
    \<and> rr_remaining res + rr_processed res = rr_pending res
    \<and> rr_remaining res = length (pending ''assertions-v1'' db') \<and> ad_messages db' = ad_messages db"
proof -
  note ok = history_store_ok[OF assms(1)]
  then have ok0: "rebuild_ok env texts db (first_state db)" by (simp add: rebuild_ok_def first_state_def)
  let ?ss = "map (snapshot_from_row env) (take (nat n) (sort_key ms_store_id (pending ''assertions-v1'' db)))"
  define st where "st = rebuild_sources env read_only clock 0 ex ?ss (first_state db)"
  have mo: "messages_ok texts db" using ok by (simp add: store_ok_def)
  note ids = selected_store_ids(1)[OF mo, of env "nat n" "''assertions-v1''"] selected_store_ids(2)[OF mo, of env "nat n" "''assertions-v1''"] selected_store_ids(3)[OF mo, of "''assertions-v1''"]
  have "distinct (map pr_store_id (rb_published (first_state db)) @ map sn_store_id ?ss)" using ids(1) by (simp add: first_state_def)
  note r = rebuild_sources_ok[OF ok0 this, of read_only clock 0 ex, folded st_def]
  have sub: "set (map pr_store_id (rb_published st)) \<subseteq> ms_store_id ` set (pending ''assertions-v1'' db)"
    using r ids(2) by (simp only: first_state_def rebuild_state.simps list.map append_Nil) (meson order_trans)
  have "pending ''assertions-v1'' (rb_db st) = filter (\<lambda>m. ms_store_id m \<notin> set (map pr_store_id (rb_published st))) (pending ''assertions-v1'' db)"
    using r by (simp add: rebuild_ok_def)
  then have len: "length (pending ''assertions-v1'' (rb_db st)) + length (rb_published st) = length (pending ''assertions-v1'' db)"
    using length_without[OF ids(3) sub] r by simp
  have sum: "length (rb_published st) + length (rb_failures st) = length ?ss" using r by (simp add: first_state_def)
  have "rb_stale st \<le> length (rb_failures st)" "ad_messages (rb_db st) = ad_messages db" using r by (simp_all add: rebuild_ok_def)
  moreover note rebuilt_pending[OF mo ok0, of read_only clock ex n, folded st_def]
  ultimately show ?thesis unfolding rebuild_unfold[OF assms(2-4)] st_def[symmetric] using len sum by (auto simp: apply_result_def)
qed

section \<open>Sources that can never be published\<close>

lemma refused_sources_unchanged:
  assumes "\<forall>s \<in> set ss. \<forall>clock cs rs. \<exists>e. publish_source env read_only clock s cs rs ''assertions-v1'' (rb_db st) = Inl e"
  shows "rb_db (rebuild_sources env read_only clock k extractor ss st) = rb_db st
    \<and> rb_published (rebuild_sources env read_only clock k extractor ss st) = rb_published st"
  using assms
proof (induction ss arbitrary: st k)
  case (Cons s ss)
  let ?st = "rebuild_source env read_only (clock k) extractor s st"
  have "\<exists>e. and_then (extractor s) (\<lambda>(cs, rs). publish_source env read_only (clock k) s cs rs ''assertions-v1'' (rb_db st)) = Inl e"
    using Cons.prems by (cases "extractor s") auto
  then have "rb_db ?st = rb_db st" "rb_published ?st = rb_published st" by (auto simp: rebuild_source_def)
  then show ?case using Cons.IH[of ?st "Suc k"] Cons.prems by simp
qed simp

text \<open>
  C38: A batch whose sources are messages with a NULL source column that never had a receipt publishes nothing and leaves
  the store as it was, whatever the extractor returns, so the next batch selects the same messages again and
  the rebuild never gets past them.
\<close>

theorem rebuild_starves_on_null_sources:
  assumes "assertion_history env texts db" "\<not> read_only" "1 \<le> n" "n \<le> 500"
    and "\<forall>m \<in> set (take (nat n) (sort_key ms_store_id (pending ''assertions-v1'' db))). ms_source m = None \<and> ms_store_id m \<notin> rc_store_id ` set (ad_receipts db)"
  shows "\<exists>res. rebuild_assertions env read_only True (Some ex) n clock db = Inr (res, db) \<and> rr_processed res = 0 \<and> rr_remaining res = rr_pending res"
proof -
  note ok = history_store_ok[OF assms(1)]
  let ?ss = "map (snapshot_from_row env) (take (nat n) (sort_key ms_store_id (pending ''assertions-v1'' db)))"
  have "\<exists>e. publish_source env read_only clk s cs rs ''assertions-v1'' db = Inl e" if s: "s \<in> set ?ss" for s clk cs rs
  proof -
    obtain m where m: "m \<in> set (take (nat n) (sort_key ms_store_id (pending ''assertions-v1'' db)))" "s = snapshot_from_row env m" using s by auto
    have "m \<in> set (ad_messages db)" using m(1) by (auto simp: pending_def dest: in_set_takeD)
    then have "source_row (sn_store_id s) db = Some m" using source_row_unique[of texts db m] ok m(2) by (simp add: store_ok_def)
    then show ?thesis by (rule null_source_refused[OF ok]) (use assms(5) m in force)+
  qed
  then have "rb_db (rebuild_sources env read_only clock 0 ex ?ss (first_state db)) = db \<and> rb_published (rebuild_sources env read_only clock 0 ex ?ss (first_state db)) = []"
    using refused_sources_unchanged[of ?ss env read_only "first_state db" clock 0 ex] by (simp add: first_state_def)
  then show ?thesis unfolding rebuild_unfold[OF assms(2-4)] by (simp add: apply_result_def)
qed

section \<open>Witnesses\<close>

theorem rebuild_accounts_witness:
  "\<exists>res db'. rebuild_assertions tea_env False True (Some (\<lambda>_. Inr ([tea_candidate], []))) 5 (\<lambda>_ _. 9) tea_db = Inr (res, db')
     \<and> rr_remaining res + rr_processed res = 1"
proof -
  obtain res db' where r: "rebuild_assertions tea_env False True (Some (\<lambda>_. Inr ([tea_candidate], []))) 5 (\<lambda>_ _. 9) tea_db = Inr (res, db')"
      "rr_remaining res + rr_processed res = rr_pending res"
    using rebuild_accounts[OF tea_history, of False 5 "\<lambda>_. Inr ([tea_candidate], [])" "\<lambda>_ _. 9"] by auto
  have "rr_pending res = length (pending ''assertions-v1'' tea_db)" using r(1) rebuild_unfold[of False 5 tea_env] by (auto simp: apply_result_def)
  then show ?thesis using r by (simp add: pending_def tea_db_def no_assertions_def)
qed

definition orphan_db :: assertion_db where
  "orphan_db = no_assertions\<lparr>ad_messages := [tea_message\<lparr>ms_source := None\<rparr>]\<rparr>"

theorem rebuild_starves_on_null_sources_witness:
  "\<exists>res. rebuild_assertions tea_env False True (Some (\<lambda>_. Inr ([tea_candidate], []))) 5 (\<lambda>_ _. 9) orphan_db = Inr (res, orphan_db) \<and> rr_processed res = 0"
proof -
  have "assertion_history tea_env {''I like tea''} orphan_db"
    using assertion_history.arrive[OF assertion_history.start, of "tea_message\<lparr>ms_source := None\<rparr>" tea_env]
    by (simp add: orphan_db_def no_assertions_def tea_message_def null_text_def)
  from rebuild_starves_on_null_sources[OF this, of False 5 "\<lambda>_. Inr ([tea_candidate], [])" "\<lambda>_ _. 9"]
  show ?thesis by (auto simp: orphan_db_def pending_def no_assertions_def)
qed

end
