(* ===== verification/Spec2Isabelle.thy ===== *)
theory Spec2Isabelle
  imports Tool_Pairs Fresh_Tail Assembly_Plan Compaction_Policy Lifecycle Fragmentation Summary_DAG Summary_Walk
    Conversation_Ids Publication Access_Context Access_Validation Access_Policy
    Rollup_Leases Rollup_Drain Rollup_Summaries Ledger_Views Pending_Emissions Chunking Recent_Period Maintenance_Steps
    Cold_Cursor Input_Clip Message_Store Assertion_State Assertion_Rebuild
begin

text \<open>
  A verification development for LCM-X, the lossless context manager: a plugin that keeps an agent's
  whole conversation in a local SQLite store, replaces old rows of the active context by a DAG of
  summaries, and assembles what the model sees from system anchors, summaries and a fresh tail.  All
  paths below are under \<^verbatim>\<open>src/\<close>.

  The parts of the program and the theories that model them:

  \<^item> \<open>Messages\<close> (\<^verbatim>\<open>message_content.py\<close>, \<^verbatim>\<open>message_analysis.py\<close>, \<^verbatim>\<open>tokens.py\<close>): messages are
    association lists of dynamically typed values (\<open>pyval\<close>, \<open>message\<close> of \<open>Prelude\<close>), as the code's
    dicts are; text extraction, image handling, tool-call ids and the token estimates.  The tokenizer
    is not in the repository: \<open>token_env\<close> says whether it is installed and how it counts.
  \<^item> \<open>Tool_Pairs\<close> (\<^verbatim>\<open>tool_pairs.py\<close>): the repair of assistant/tool sequences.  The stub is an interface
    (locale \<open>tool_stub\<close>), interpreted on the engine's stub.  Shown: the output always satisfies the
    provider's pairing rule, the counters are exact, repairing is idempotent.
  \<^item> \<open>Fresh_Tail\<close> (\<^verbatim>\<open>fresh_tail.py\<close>, the chunk selection of \<^verbatim>\<open>compaction.py\<close>): where the protected tail
    starts and which oldest chunk is summarised.  Shown: no boundary inside a tool group, count and
    token limits, maximality.
  \<^item> \<open>Assembly_Plan\<close> (\<^verbatim>\<open>assembly_plan.py\<close>): prefix and tail selection under the token cap.  Locale
    \<open>token_counter\<close> is what the planner needs of the counter; it is interpreted on \<open>Messages\<close>.
    Shown: the selection fits the cap, and it still fits after tool-pair repair.
  \<^item> \<open>Compaction_Policy\<close> (\<^verbatim>\<open>compaction_policy.py\<close>, \<^verbatim>\<open>codex_routing.py\<close>): thresholds, route caps and the
    compaction trigger.  Thresholds are rationals; the code's floats are exact on the values it configures.
  \<^item> \<open>Tables\<close>, \<open>Lifecycle\<close>, \<open>Fragmentation\<close> (\<^verbatim>\<open>lifecycle_state.py\<close>): the SQLite tables are lists of rows
    in rowid order (record \<open>lcm_db\<close>), one definition per SQL statement and per method.  Concurrent writers
    appear as an arbitrary function applied between a read and the write that follows it.  Locale
    \<open>keyed_table\<close> of \<open>Prelude\<close> (an UPDATE that keeps the key) is interpreted once per kind of update.
    \<open>lifecycle_step\<close> has one rule per write of the table; shown by rule induction: one row per conversation, and
    which single write can lower the frontier of a conversation that stays bound.
  \<^item> \<open>Summary_DAG\<close>, \<open>Summary_Walk\<close> (\<^verbatim>\<open>dag.py\<close>, the write of \<^verbatim>\<open>level3_repair.py\<close>): node writes with the snapshot retry
    of \<^verbatim>\<open>sqlite_util.py\<close>, batched deletion, in-place repair, queries, and the recursive source walks against the
    declarative relation \<open>covers\<close>.  Shown: a node id belongs to one node for good, and the walks are exact.
  \<^item> \<open>Conversation_Ids\<close>, \<open>Publication\<close> (\<^verbatim>\<open>lifecycle_state.py\<close>, \<open>_publish_leaf_node\<close> of \<^verbatim>\<open>compaction.py\<close>): the
    rows a conversation owns, and the transaction that stores a summary and moves the frontier.
  \<^item> \<open>Access_Context\<close>, \<open>Access_Validation\<close>, \<open>Access_Policy\<close> (\<^verbatim>\<open>access_context/\<close>, \<^verbatim>\<open>access_policy/\<close>): the
    capability envelope, its narrowing and delegation, staged validation, and the three policies behind
    one protocol (locale \<open>authorization_consumer\<close>).  What the Teams catalog answers is a parameter
    (\<open>store_view\<close>).

  \<^item> \<open>Calendar\<close>, \<open>Rollup_Store\<close>, \<open>Rollup_Claims\<close>, \<open>Rollup_Leases\<close>, \<open>Rollup_Drain\<close>, \<open>Rollup_Frozen\<close>
    (\<^verbatim>\<open>rollup_store.py\<close>, the outbox triggers of \<^verbatim>\<open>db_bootstrap.py\<close>): the store of daily, weekly and monthly
    rollups.  \<open>rollup_step\<close> is the step relation of its tables: every operation of the store and every
    write of a summary node, in any order.  Shown: the tables stay well formed; only the claim that still
    owns a row, with no mutation pending, publishes it; the store refines an abstract machine of
    leases (\<open>lease_step\<close>); draining the outbox makes every touched period stale and ends; the summary
    nodes under a published window are those that were read.
  \<^item> \<open>Lineage\<close> (\<^verbatim>\<open>rollup_periods.py\<close>): the bounded load of a source graph and the canonical frontier, against
    reachability and leaf sets.
  \<^item> \<open>Truncation\<close>, \<open>Summary_Guards\<close>, \<open>Summary_Outcome\<close>, \<open>Escalation\<close> (\<^verbatim>\<open>escalation.py\<close>,
    \<^verbatim>\<open>summary_attempt.py\<close>, \<^verbatim>\<open>summary_outcome.py\<close>): the deterministic cut, the circuit breaker, the spend
    guard and the foreground budget, the classification of an attempt, and the chain of routes and levels.
    The provider, its clock and the prompt texts are parameters (\<open>summary_env\<close>).  Locale \<open>event_counter\<close>
    is what failures and rejections share.
  \<^item> \<open>Rollup_Builder\<close>, \<open>Rollup_Summaries\<close> (\<^verbatim>\<open>rollup_builder.py\<close>): building a day or an aggregate while
    other connections work on the tables, the bounded maintenance pass, and the builder on top of the
    real escalation (locales \<open>breaker_frame\<close> and \<open>caller_frame\<close>).  Shown: what a published day and a
    published aggregate hold, that a pass is bounded, that rollups spare the live routes and never store a cut.
  \<^item> \<open>Ledger_Codec\<close>, \<open>Ordinals\<close>, \<open>Ledger_Store\<close>, \<open>Ledger_Views\<close>, \<open>Pending_Emissions\<close>, \<open>Cold_Cursor\<close> (\<^verbatim>\<open>ingest_ledger.py\<close>, the ledger
    schema and \<open>ledger_digest\<close> of \<^verbatim>\<open>store.py\<close>): the shadow ledger of ingest.  The binary view vectors and
    prefix chains over bytes, the planner that labels new occurrences of a lineage, the tables with their
    unique index, the adoption of a provisional lineage, and the registry of emissions that wait to be
    recorded, and the cold cursor that decides how much of a replay is already stored.  BLAKE2b is a parameter.  Shown: one encoding per view, chains compare as the views do, plans keep
    the order and do not run out of labels, relabelling is simultaneous, a claim is exclusive, and a
    cold cursor skips only rows with evidence of their own.
  \<^item> \<open>Message_Store\<close> (\<^verbatim>\<open>store.py\<close>): the message table, one definition per write and per ordered read; \<open>store_step\<close>
    has one rule per write.  Shown: in an autoincrement table a stored message keeps its identity whatever is written later
    (legacy tables reuse ids), an appended batch reads back, paging delivers every row once, and the merged index seeks of a conversation are one query.
  \<^item> \<open>Chunking\<close> (\<^verbatim>\<open>chunking.py\<close>): sentence and window spans and the content policies.  Shown: the windows
    cover the text within the target, and every chunk maps back to its span.
  \<^item> \<open>Input_Clip\<close> (\<^verbatim>\<open>summary_input_clip.py\<close>): the proportional clip of the summariser's input.
  \<^item> \<open>Assertion_Store\<close>, \<open>Assertion_Integrity\<close>, \<open>Assertion_Queries\<close>, \<open>Assertion_Rebuild\<close>, \<open>Assertion_State\<close>
    (\<^verbatim>\<open>assertion_store.py\<close>, its tables and triggers in \<^verbatim>\<open>db_bootstrap.py\<close>, \<^verbatim>\<open>assertion_rebuild.py\<close>,
    \<^verbatim>\<open>assertion_state.py\<close>): claims about the conversation that quote stored messages.  \<open>assertion_history\<close> has one
    rule per write; SHA-256, float texts, the JSON parser and the extractor are parameters.  Shown: the tables are
    whole in every history, queries return exactly the newest standing assertions up to their limit and each quotes its message as it is now,
    publishing again changes nothing, the state query preserves the conflicts of its page, a rebuild accounts for every message; and
    two flaws, the capacity of a publication and a rebuild that cannot get past messages without a source.
  \<^item> \<open>Recent_Period\<close> (\<open>parse_recent_period\<close> of \<^verbatim>\<open>rollup_periods.py\<close>): the windows a reader may ask for.
  \<^item> \<open>Maintenance_Scheduler\<close>, \<open>Maintenance_Steps\<close> (\<^verbatim>\<open>maintenance_scheduler.py\<close>): the process-wide scheduler of
    rollup and embedding passes; \<open>sched_step\<close> has one event per critical section.  Shown: the invariant of
    queues, reservations and owners, what may become of an accepted request, that the worker drains the
    queues, and the one way an accepted follow-up is lost.

  How the parts interact: the engine repairs and measures messages (\<open>Tool_Pairs\<close>, \<open>Messages\<close>), plans the
  active context (\<open>Fresh_Tail\<close>, \<open>Assembly_Plan\<close>) when \<open>Compaction_Policy\<close> says so, summarises the
  oldest chunk of the stored rows (\<open>Message_Store\<close>) and publishes it (\<open>Publication\<close> over \<open>Summary_DAG\<close> and \<open>Lifecycle\<close>); retrieval resolves a
  summary back to messages (\<open>Summary_Walk\<close>), maintenance prunes (\<open>Lifecycle\<close>, \<open>Fragmentation\<close>) and builds
  rollups of what was published (\<open>Rollup_Builder\<close> over \<open>Rollup_Store\<close> and \<open>Lineage\<close>), summaries are written
  by \<open>Escalation\<close>, background passes are run by \<open>Maintenance_Steps\<close>, ingest records what the host showed and
  what compaction emitted in the ledger (\<open>Ledger_Store\<close> over \<open>Ordinals\<close> and \<open>Ledger_Codec\<close>), assertions are published over
  stored messages and read back with their state (\<open>Assertion_Store\<close>, \<open>Assertion_State\<close>), and every operation is first put to the policy (\<open>Access_Policy\<close>).  The last section of this theory holds the
  properties that span these parts: a published leaf resolves to exactly its messages, and maintenance
  keeps the frontier of what was published.

  Bounds and fuel.  The compare-and-swap loop of \<open>bind_session\<close> runs \<open>BIND_CAS_ATTEMPTS\<close> times as in the
  code and its exhaustion is a result of the model.  Deletion batches are the code's 256; a lineage load is
  bounded by the code's 4096 nodes and edges, a drain by its event and day budgets.  Ordinals are signed 64-bit;
  \<open>2^53\<close> labels leave every window the minimal gap.  All loops are
  total functions except the UNION ALL walk \<open>match_walk\<close>, which takes fuel because it does not end on a
  cyclic table; \<open>queue_weight\<close> steps are enough on every reachable table, and \<open>node_matches_source_decides\<close>
  states that the walk returns.

  Not modelled: the engine's orchestration and host callbacks, full-text search over the message
  store, reconciliation and ingest protection, embeddings and vectors, the extraction of assertions and evidence, tools and
  commands, recorder and capture, schema bootstrap and configuration.  They are file, network and SQL
  plumbing, heuristics over regular expressions, or separate subsystems.  Of the ledger the identity text (host text heuristics) and
  the rebind planner are left out, and the decimal form of floats is a parameter.  Of the summariser the prompt texts, the provider call and the
  parsing of its contract are parameters.  Text is a list of characters, so a non-ASCII
  character of the source stands for its bytes; time is a rational number of seconds; log lines are left out.
\<close>

section \<open>Publication and retrieval\<close>

lemma covers_append_old:
  assumes "wf_edges nodes" "\<forall>n \<in> set nodes. node_id n < node_id x" "i < node_id x"
  shows "covers (nodes @ [x]) i m \<longleftrightarrow> covers nodes i m"
proof
  assume "covers (nodes @ [x]) i m"
  then show "covers nodes i m" using assms(3)
  proof (induction rule: covers.induct)
    case (leaf n m)
    then have "n \<in> set nodes" by auto
    from covers.leaf[OF this] leaf show ?case by simp
  next
    case (nested n c m)
    then have n: "n \<in> set nodes" by auto
    with assms(1) nested have "c < node_id n" by (simp add: wf_edges_def)
    with nested have "covers nodes c m" by simp
    from covers.nested[OF n _ _ this] nested show ?case by simp
  qed
next
  assume "covers nodes i m"
  then show "covers (nodes @ [x]) i m"
    by (induction rule: covers.induct) (auto intro: covers.leaf covers.nested)
qed

lemma covers_append_leaf:
  assumes "\<forall>n \<in> set nodes. node_id n < node_id x" "source_type x = ''messages''"
  shows "covers (nodes @ [x]) (node_id x) m \<longleftrightarrow> m \<in> set (source_ids x)"
proof
  assume "covers (nodes @ [x]) (node_id x) m"
  then show "m \<in> set (source_ids x)"
    by (cases rule: covers.cases) (use assms in auto)
next
  assume "m \<in> set (source_ids x)"
  then show "covers (nodes @ [x]) (node_id x) m"
    using covers.leaf[of x "nodes @ [x]" m] assms(2) by simp
qed

lemma source_message_ids_by_covers:
  "source_message_ids nid bound db = (if bound \<le> 0 then []
     else take (nat bound) (sorted_list_of_set {i \<in> set (map m_store_id (messages db)). covers (summary_nodes db) nid i}))"
  by (simp add: source_message_ids_def source_walk_covers)

lemma publish_leaf_success:
  assumes "publish_leaf_node fault others True cache probe_fails ix (None :: (lcm_db \<Rightarrow> 'r + lcm_db) option)
      node level model req now db = (Inr nid, db')"
    and "pr_session_id req \<noteq> []" "pr_conversation_id req \<noteq> []"
  obtains base where "base \<in> {db, others db}" "nid = node_seq base + 1" "messages db' = messages base"
    "summary_nodes db' = summary_nodes base @ [new_node node now nid]"
    "stage_frontier_advance (pr_conversation_id req) (pr_session_id req) (covered_end req) now (lifecycle base) = Inr (lifecycle db')"
proof -
  from publish_leaf_cases[OF assms] obtain base fin where base: "base \<in> {db, others db}" "nid = node_seq base + 1"
    and st: "stage_compaction_publication cache probe_fails ix nid req now
        (with_node node (if level \<noteq> 0 then Some level else None) model now base) = Inr (fin, db')"
    by auto
  from stage_publication_facts[OF st] have
    "stage_checked_advance req now (with_node node (if level \<noteq> 0 then Some level else None) model now base) = Inr (fin, db')"
    by metis
  from stage_checked_advance_facts[OF this] obtain tbl where
    "stage_frontier_advance (pr_conversation_id req) (pr_session_id req) (covered_end req) now (lifecycle base) = Inr tbl"
    "db' = (with_node node (if level \<noteq> 0 then Some level else None) model now base)\<lparr>lifecycle := tbl\<rparr>"
    by (auto simp: with_node_def split: option.splits)
  with base show thesis by (intro that[of base]) (auto simp: with_node_def split: option.splits)
qed

text \<open>
  C1: Compaction loses nothing.  After a leaf is published, resolving it gives back, in order, exactly
  the stored messages it summarises, and every node that was there before still resolves to the same
  messages, for every limit.
\<close>

theorem published_leaf_recoverable:
  assumes "publish_leaf_node fault others True cache probe_fails ix (None :: (lcm_db \<Rightarrow> 'r + lcm_db) option)
      node level model req now db = (Inr nid, db')"
    and "pr_session_id req \<noteq> []" "pr_conversation_id req \<noteq> []" "source_type node = ''messages''"
    and "\<forall>base \<in> {db, others db}. dag_reachable base"
  shows "(\<forall>bound > 0. source_message_ids nid bound db' =
        take (nat bound) (sorted_list_of_set (set (source_ids node) \<inter> set (map m_store_id (messages db')))))
    \<and> (\<exists>base \<in> {db, others db}. summary_nodes db' = summary_nodes base @ [new_node node now nid]
        \<and> (\<forall>n \<in> set (summary_nodes base). \<forall>bound.
             source_message_ids (node_id n) bound db' = source_message_ids (node_id n) bound base))"
proof -
  from publish_leaf_success[OF assms(1-3)] obtain base where base: "base \<in> {db, others db}" "nid = node_seq base + 1"
    "messages db' = messages base" "summary_nodes db' = summary_nodes base @ [new_node node now nid]" by metis
  from base(1) assms(5) have inv: "node_inv base" by (blast intro: dag_reachable_inv)
  have new: "node_id (new_node node now nid) = nid" "source_type (new_node node now nid) = ''messages''"
    "source_ids (new_node node now nid) = source_ids node"
    using assms(4) by (simp_all add: new_node_def)
  from inv base(2) have old: "\<forall>n \<in> set (summary_nodes base). node_id n < node_id (new_node node now nid)"
    unfolding new by (auto simp: node_inv_def wf_nodes_def)
  from inv have edges: "wf_edges (summary_nodes base)" by (simp add: node_inv_def)
  have "source_message_ids nid bound db' =
      take (nat bound) (sorted_list_of_set (set (source_ids node) \<inter> set (map m_store_id (messages db'))))"
    if "0 < bound" for bound
    unfolding source_message_ids_by_covers base(4)
    using covers_append_leaf[OF old new(2)] that by (simp add: new Int_def conj_commute)
  moreover have "source_message_ids (node_id n) bound db' = source_message_ids (node_id n) bound base"
    if "n \<in> set (summary_nodes base)" for n bound
    unfolding source_message_ids_by_covers base(3,4)
    using covers_append_old[OF edges old] old that by simp
  ultimately show ?thesis using base by blast
qed

theorem published_leaf_recoverable_witness:
  "source_message_ids 1 5 ((with_node sample_node (Some 1) ''m'' 5 sample_db)\<lparr>lifecycle := lifecycle sample_published\<rparr>)
     = [1, 2]"
proof -
  have "dag_reachable sample_db"
    by (rule dag_reachable.step[OF dag_reachable.empty], rule dag_step.elsewhere) (simp add: same_nodes_def sample_db_def)
  then have "\<forall>base \<in> {sample_db, id sample_db}. dag_reachable base" by simp
  moreover have "pr_session_id sample_request \<noteq> []" "pr_conversation_id sample_request \<noteq> []"
    "source_type sample_node = ''messages''"
    by (simp_all add: sample_request_def sample_node_def default_node_def)
  ultimately have "\<forall>bound > 0. source_message_ids 1 bound
      ((with_node sample_node (Some 1) ''m'' 5 sample_db)\<lparr>lifecycle := lifecycle sample_published\<rparr>) =
        take (nat bound) (sorted_list_of_set (set (source_ids sample_node) \<inter> set (map m_store_id (messages
          ((with_node sample_node (Some 1) ''m'' 5 sample_db)\<lparr>lifecycle := lifecycle sample_published\<rparr>)))))"
    using published_leaf_recoverable[OF sample_leaf_published] by blast
  from this[rule_format, of 5] show ?thesis
    by (simp add: with_node_def sample_node_def sample_db_def sample_message_def empty_db_def)
qed

text \<open>
  Maintenance respects what compaction published.  Once a leaf of a session is published, no prune
  of empty sessions, whatever it protects and whatever its age bound, deletes or changes the
  conversation's lifecycle row, so the frontier that guards against summarising twice survives.
\<close>

theorem published_conversation_survives_prune:
  assumes "publish_leaf_node fault others True cache probe_fails ix (None :: (lcm_db \<Rightarrow> 'r + lcm_db) option)
      node level model req now db = (Inr nid, db')"
    and "pr_session_id req \<noteq> []" "pr_conversation_id req \<noteq> []" "n_session_id node = pr_session_id req"
    and "\<forall>base \<in> {db, others db}. wf_lifecycle (lifecycle base)"
  shows "\<exists>r. get_by_conversation (Some (pr_conversation_id req)) (lifecycle db') = Some r
    \<and> current_session_id r = Some (pr_session_id req)
    \<and> get_by_conversation (Some (pr_conversation_id req))
        (lifecycle (snd (prune_empty_sessions prot age later db'))) = Some r"
proof -
  let ?cid = "pr_conversation_id req" and ?sid = "pr_session_id req"
  from publish_leaf_success[OF assms(1-3)] obtain base where base: "base \<in> {db, others db}"
    "summary_nodes db' = summary_nodes base @ [new_node node now nid]"
    "stage_frontier_advance ?cid ?sid (covered_end req) now (lifecycle base) = Inr (lifecycle db')" by metis
  from base(1) assms(5) have wf: "wf_lifecycle (lifecycle base)" by blast
  from base(3) have db': "lifecycle db' = upd_where (advance_guard ?cid ?sid) (advance_row (covered_end req) now) (lifecycle base)"
    and one: "rowcount (advance_guard ?cid ?sid) (lifecycle base) = 1"
    by (auto simp: stage_frontier_advance_def split: if_splits option.splits)
  from wf have wf': "wf_lifecycle (lifecycle db')"
    unfolding wf_lifecycle_def db' by (rule advance_upd.distinct_upd_where)
  from one have "\<not> (\<forall>r \<in> set (lifecycle base). \<not> advance_guard ?cid ?sid r)"
    using rowcount_zero_iff[of "advance_guard ?cid ?sid" "lifecycle base"] by simp
  then obtain q where q: "q \<in> set (lifecycle base)" "advance_guard ?cid ?sid q" by blast
  define r where "r = advance_row (covered_end req) now q"
  have r: "r \<in> set (lifecycle db')" "conversation_id r = ?cid" "current_session_id r = Some ?sid"
    using q by (auto simp: db' set_upd_where r_def advance_row_def advance_guard_def)
  have sid: "?sid \<in> {text_of (current_session_id r), text_of (last_finalized_session_id r)} - {[]}"
    using r(3) assms(2) by (simp add: text_of_def)
  have "?sid \<in> set (map n_session_id (summary_nodes db'))"
    using assms(4) by (simp add: base(2) new_node_def)
  with prunable_refs(2)[OF _ sid] have "\<not> prunable db' prot age later r" by blast
  with r(1) have kept: "r \<in> set (lifecycle (snd (prune_empty_sessions prot age later db')))"
    by (simp add: prune_empty_sessions_eq[OF wf'])
  have wf2: "wf_lifecycle (lifecycle (snd (prune_empty_sessions prot age later db')))"
    using wf' by (simp add: prune_empty_sessions_eq[OF wf'] wf_lifecycle_def distinct_map_filter)
  from r kept show ?thesis
    by (intro exI[of _ r]) (simp add: get_by_conversation_iff[OF wf' assms(3)] get_by_conversation_iff[OF wf2 assms(3)])
qed

theorem published_conversation_survives_prune_witness:
  "\<exists>r. get_by_conversation (Some ''c'')
     (lifecycle (snd (prune_empty_sessions [] None 100
        ((with_node sample_node (Some 1) ''m'' 5 sample_db)\<lparr>lifecycle := lifecycle sample_published\<rparr>)))) = Some r
     \<and> current_session_id r = Some ''s''"
proof -
  have "pr_session_id sample_request \<noteq> []" "pr_conversation_id sample_request \<noteq> []"
    "n_session_id sample_node = pr_session_id sample_request"
    "\<forall>base \<in> {sample_db, id sample_db}. wf_lifecycle (lifecycle base)"
    by (simp_all add: sample_request_def sample_node_def sample_db_def empty_db_def wf_lifecycle_def)
  from published_conversation_survives_prune[OF sample_leaf_published this, of "[]" None 100] show ?thesis
    by (auto simp: sample_request_def)
qed

end
